(* ===== verification/Kernel_Base.thy ===== *)
theory Kernel_Base
  imports Main "HOL-Library.Word"
begin

text \<open>
  The prelude of the development: the machine types of the i686 build, the ways a kernel
  operation can stop, the sequencing of fallible operations, and the lemmas on sums, words
  and lists that the components share.

  \<^item> \<open>size_t\<close>, \<open>uintptr_t\<close> and \<open>unsigned\<close> are 32 bits wide on i686, \<open>uintmax_t\<close> is 64.
    A pointer is its address; address 0 is \<open>NULL\<close>.
  \<^item> \<open>kassert\<close> is the macro of kernel/include/lib/cstd/assert.h in the debug build (the
    default of confmk/common.mk): a false condition stops the kernel.
\<close>

unbundle bit_operations_syntax

type_synonym u8 = "8 word"
type_synonym u32 = "32 word"
type_synonym u64 = "64 word"
type_synonym size_t = "32 word"
type_synonym addr = "32 word"

abbreviation NULL :: addr where
  "NULL \<equiv> 0"

section \<open>How an operation stops\<close>

text \<open>
  \<open>Kassert\<close>: a failed \<open>kassert\<close> or \<open>rkassert\<close> (the kernel spins for ever).
  \<open>Panic\<close>: \<open>LOGF_P\<close>, that is \<open>kernel_panic\<close>.
  \<open>Undef\<close>: the C program has no defined behaviour (a read through \<open>NULL\<close> or an unmapped
  pointer, an array access out of range, a signed overflow).
  \<open>Fuel\<close>: a loop that the model bounds by fuel did not stop within it.
\<close>

datatype kerr = Kassert | Panic | Undef | Fuel

type_synonym 'a kres = "kerr + 'a"

definition kbind :: "'a kres \<Rightarrow> ('a \<Rightarrow> 'b kres) \<Rightarrow> 'b kres" where
  "kbind m f = (case m of Inl e \<Rightarrow> Inl e | Inr x \<Rightarrow> f x)"

definition kassert :: "bool \<Rightarrow> 'a kres \<Rightarrow> 'a kres" where
  "kassert b k = (if b then k else Inl Kassert)"

definition kdefined :: "bool \<Rightarrow> 'a kres \<Rightarrow> 'a kres" where
  "kdefined b k = (if b then k else Inl Undef)"

named_theorems kres_simps "sequencing of fallible operations"

lemma kbind_Inl [simp]: "kbind (Inl e) f = Inl e"
  and kbind_Inr [simp]: "kbind (Inr x) f = f x"
  by (simp_all add: kbind_def)

lemma kbind_eq_Inr [kres_simps]:
  "kbind m f = Inr y \<longleftrightarrow> (\<exists>x. m = Inr x \<and> f x = Inr y)"
  by (cases m) auto

lemma kbind_assoc: "kbind (kbind m f) g = kbind m (\<lambda>x. kbind (f x) g)"
  by (cases m) auto

lemma kassert_simps [simp]:
  "kassert True k = k" "kassert False k = Inl Kassert"
  by (simp_all add: kassert_def)

lemma kassert_eq_Inr [kres_simps]: "kassert b k = Inr y \<longleftrightarrow> b \<and> k = Inr y"
  by (simp add: kassert_def)

lemma kdefined_simps [simp]:
  "kdefined True k = k" "kdefined False k = Inl Undef"
  by (simp_all add: kdefined_def)

lemma kdefined_eq_Inr [kres_simps]: "kdefined b k = Inr y \<longleftrightarrow> b \<and> k = Inr y"
  by (simp add: kdefined_def)

text \<open>
  A loop that follows pointers visits at most \<open>2 ^ 32\<close> addresses before it repeats one: a
  pointer-chasing loop of the model runs with \<open>addr_fuel\<close> units of fuel, one per round.
\<close>

definition addr_fuel :: nat where
  "addr_fuel = 2 ^ 32"

lemma addr_fuel_Suc: obtains f where "addr_fuel = Suc f"
  using that [of "2 ^ 32 - 1"] by (simp add: addr_fuel_def)

text \<open>The words a region of \<open>sz\<close> bytes at \<open>p\<close> holds, when \<open>memory\<close> gives the word at each address.\<close>

definition region_words :: "(addr \<Rightarrow> u32) \<Rightarrow> addr \<Rightarrow> size_t \<Rightarrow> u32 list" where
  "region_words memory p sz = map (\<lambda>i. memory (p + of_nat (4 * i))) [0..<unat sz div 4]"

section \<open>Words\<close>

lemma unat_lt32 [simp]: "unat (x :: 32 word) < 4294967296"
  using unsigned_less [of x, where ?'a = nat] by simp

lemma unat_add32:
  "unat a + unat b < 4294967296 \<Longrightarrow> unat (a + b :: 32 word) = unat a + unat b"
  using unat_add_lem [of a b] by simp

lemma unat_sub32: "unat b \<le> unat a \<Longrightarrow> unat (a - b :: 32 word) = unat a - unat b"
  by (rule unat_sub) (simp add: word_le_nat_alt)

lemma unat_mult32:
  "unat a * unat b < 4294967296 \<Longrightarrow> unat (a * b :: 32 word) = unat a * unat b"
  using unat_mult_lem [of a b] by simp

lemma unat_of_nat32: "n < 4294967296 \<Longrightarrow> unat (of_nat n :: 32 word) = n"
  by (simp add: unat_of_nat take_bit_nat_eq_self)

lemma unat_Suc32: "unat a + 1 < 4294967296 \<Longrightarrow> unat (a + 1 :: 32 word) = Suc (unat a)"
  using unat_add32 [of a 1] by simp

lemma word32_eqI: "unat (a :: 32 word) = unat b \<Longrightarrow> a = b"
  by (rule unsigned_word_eqI)

lemmas word32_nat = word_le_nat_alt word_less_nat_alt unat_add32 unat_sub32 unat_mult32
  unat_of_nat32 unat_Suc32

lemma distinct_addr_length: "distinct (xs :: 32 word list) \<Longrightarrow> length xs \<le> addr_fuel"
  using card_mono [of "UNIV :: 32 word set" "set xs"]
  by (simp add: distinct_card card_word addr_fuel_def)

text \<open>The measure of a loop that counts an index up to a bound.\<close>

lemma size_t_loop_measure:
  "i < (n :: size_t) \<Longrightarrow> unat (i + 1) = Suc (unat i) \<and> Suc (unat i) \<le> unat n"
proof -
  assume "i < n"
  then have 1: "unat i < unat n" by (simp add: word_less_nat_alt)
  then have "unat i + 1 < 4294967296" using unat_lt32 [of n] by linarith
  then show ?thesis using 1 by (simp add: unat_Suc32)
qed

section \<open>Lists\<close>

lemma all_less_3: "(\<forall>k < (3 :: nat). P k) \<longleftrightarrow> P 0 \<and> P 1 \<and> P 2"
  by (auto simp: numeral_3_eq_3 numeral_2_eq_2 less_Suc_eq)

lemma nth_list_update_iff:
  "j < length xs \<Longrightarrow> xs[i := x] ! j = (if i = j then x else xs ! j)"
  by simp

lemma sorted_remove1_map: "sorted (map f xs) \<Longrightarrow> sorted (map f (remove1 a xs))"
  by (induction xs) (auto dest: notin_set_remove1)

lemma remove1_map: "(\<And>x y. f x = f y \<longleftrightarrow> x = y) \<Longrightarrow> remove1 (f a) (map f xs) = map f (remove1 a xs)"
  by (induction xs) auto

lemma find_append_case:
  "find P (xs @ ys) = (case find P xs of None \<Rightarrow> find P ys | Some x \<Rightarrow> Some x)"
  by (induction xs) auto

end
