(* ===== verification/Align_Utils.thy ===== *)
theory Align_Utils
  imports Kernel_Base
begin

text \<open>
  kernel/include/lib/align.h and kernel/include/lib/utils.h: rounding an address to an
  alignment, rounding divisions, base-2 logarithms and the bit searches the bitmaps use.
\<close>

section \<open>align.h\<close>

definition align_roundup :: "addr \<Rightarrow> size_t \<Rightarrow> addr" where
  "align_roundup frm alignment =
     (if alignment = 0 then frm else (frm + (alignment - 1)) AND (- alignment))"

definition align_rounddown :: "addr \<Rightarrow> size_t \<Rightarrow> addr" where
  "align_rounddown frm alignment =
     (if alignment = 0 then frm else frm AND (- alignment))"

definition check_align :: "addr \<Rightarrow> size_t \<Rightarrow> bool" where
  "check_align v alignment \<longleftrightarrow> v = align_rounddown v alignment"

text \<open>Every alignment the kernel passes is a power of two: rounding is then arithmetic.\<close>

lemma pow2_word_nz: "k < 32 \<Longrightarrow> (2 :: 32 word) ^ k \<noteq> 0"
  by simp

lemma unat_pow2: "k < 32 \<Longrightarrow> unat ((2 :: 32 word) ^ k) = 2 ^ k"
proof -
  assume "k < 32"
  then have "(2 :: nat) ^ k < 2 ^ 32" by (rule power_strict_increasing) simp
  then show ?thesis using unat_of_nat32 [of "2 ^ k"] by simp
qed

lemma and_neg_pow2: "(x :: 32 word) AND (- (2 ^ k)) = x - take_bit k x"
proof -
  have "- (2 ^ k) = (NOT (mask k) :: 32 word)"
    by (simp add: minus_exp_eq_not_mask)
  moreover have "x - take_bit k x = x AND NOT (take_bit k x)"
    by (rule disjunctive_diff) (simp add: bit_eq_iff bit_simps)
  moreover have "x AND NOT (take_bit k x) = x AND NOT (mask k)"
    by (auto simp: bit_eq_iff bit_simps)
  ultimately show ?thesis by simp
qed

lemma unat_align_rounddown:
  assumes "k < 32"
  shows "unat (align_rounddown x (2 ^ k)) = unat x div 2 ^ k * 2 ^ k"
proof -
  have t: "unat (take_bit k x) = unat x mod 2 ^ k"
    by (simp add: unsigned_take_bit_eq flip: take_bit_eq_mod)
  then have "unat (take_bit k x) \<le> unat x" by simp
  then have "unat (x - take_bit k x) = unat x - unat x mod 2 ^ k"
    by (simp add: unat_sub32 t)
  then show ?thesis
    using assms by (simp add: align_rounddown_def and_neg_pow2 minus_mod_eq_div_mult)
qed

lemma unat_align_roundup:
  assumes "k < 32" and "unat x + (2 ^ k - 1) < 4294967296"
  shows "unat (align_roundup x (2 ^ k)) = (unat x + (2 ^ k - 1)) div 2 ^ k * 2 ^ k"
proof -
  have p: "unat ((2 :: 32 word) ^ k - 1) = 2 ^ k - 1"
    using assms(1) by (subst unat_sub32) (simp_all add: unat_pow2)
  have "align_roundup x (2 ^ k) = align_rounddown (x + (2 ^ k - 1)) (2 ^ k)"
    using assms(1) by (simp add: align_roundup_def align_rounddown_def)
  moreover have "unat (x + (2 ^ k - 1)) = unat x + (2 ^ k - 1)"
    using assms(2) by (simp add: unat_add32 p)
  ultimately show ?thesis
    using assms(1) by (simp add: unat_align_rounddown)
qed

lemma check_align_dvd:
  assumes "k < 32"
  shows "check_align x (2 ^ k) \<longleftrightarrow> 2 ^ k dvd unat x"
proof -
  have "check_align x (2 ^ k) \<longleftrightarrow> unat x = unat x div 2 ^ k * 2 ^ k"
    unfolding check_align_def using unat_align_rounddown [OF assms, of x]
    by (metis word32_eqI)
  then show ?thesis by (metis dvd_div_mult_self dvd_triv_right)
qed

lemma roundup_nat_least:
  fixes n d :: nat
  assumes "0 < d"
  shows "n \<le> (n + (d - 1)) div d * d" and "(n + (d - 1)) div d * d < n + d"
    and "n \<le> m * d \<Longrightarrow> (n + (d - 1)) div d * d \<le> m * d"
proof -
  let ?q = "(n + (d - 1)) div d"
  have a: "?q * d + (n + (d - 1)) mod d = n + (d - 1)" by simp
  have b: "(n + (d - 1)) mod d < d" using assms by simp
  show 1: "n \<le> ?q * d" and 2: "?q * d < n + d" using a b assms by linarith+
  show "?q * d \<le> m * d" if "n \<le> m * d"
  proof -
    have "?q * d < (m + 1) * d" using 2 that by simp
    then have "?q < m + 1" by (metis mult_less_cancel2)
    then show ?thesis by (metis Suc_eq_plus1 less_Suc_eq_le mult_le_mono1)
  qed
qed

section \<open>utils.h: divisions and logarithms\<close>

definition div_ceil :: "size_t \<Rightarrow> size_t \<Rightarrow> size_t" where
  "div_ceil X Y = (X + Y - 1) div Y"

definition div_near :: "size_t \<Rightarrow> size_t \<Rightarrow> size_t" where
  "div_near X Y = (X + Y div 2) div Y"

definition MAX_u32 :: "size_t \<Rightarrow> size_t \<Rightarrow> size_t" where
  "MAX_u32 x y = (if x < y then y else x)"

definition MIN_u32 :: "size_t \<Rightarrow> size_t \<Rightarrow> size_t" where
  "MIN_u32 x y = (if x > y then y else x)"

lemma unat_div_ceil:
  assumes "0 < unat Y" and "unat X + (unat Y - 1) < 4294967296"
  shows "unat (div_ceil X Y) = (unat X + (unat Y - 1)) div unat Y"
proof -
  have "unat (Y - 1) = unat Y - 1" using assms(1) by (subst unat_sub32) simp_all
  then have "unat (X + (Y - 1)) = unat X + (unat Y - 1)"
    using assms(2) by (simp add: unat_add32)
  moreover have "X + Y - 1 = X + (Y - 1)" by simp
  ultimately have "unat (X + Y - 1) = unat X + (unat Y - 1)" by metis
  then show ?thesis by (simp add: div_ceil_def unat_div)
qed

text \<open>
  \<open>clz32\<close> is \<open>__builtin_clzl\<close> on i686, where \<open>unsigned long\<close> has 32 bits: the number of
  zero bits above the highest one bit. It is not defined for 0, which \<open>log2_floor\<close> rules out
  by its \<open>kassert\<close>.
\<close>

definition clz32 :: "u32 \<Rightarrow> nat" where
  "clz32 x = length (takeWhile (\<lambda>i. \<not> bit x i) (rev [0..<32]))"

definition log2_floor :: "size_t \<Rightarrow> size_t kres" where
  "log2_floor X = kassert (0 \<noteq> X) (Inr (8 * 4 - 1 - of_nat (clz32 X)))"

definition log2_ceil :: "size_t \<Rightarrow> size_t kres" where
  "log2_ceil X = (if X \<le> 1 then Inr 0 else kbind (log2_floor (X - 1)) (\<lambda>l. Inr (l + 1)))"

section \<open>utils.h: bit searches\<close>

function ffo_count :: "u32 \<Rightarrow> u32 \<Rightarrow> u32" where
  "ffo_count x ndx = (if x \<noteq> 0 then ffo_count (drop_bit 1 x) (ndx + 1) else ndx)"
  by pat_completeness auto
termination
proof (relation "measure (\<lambda>(x, ndx). unat x)")
  fix x ndx :: u32
  assume "x \<noteq> 0"
  then have "0 < unat x" by (simp add: unat_gt_0)
  then have "unat x div 2 < unat x" by simp
  then show "((drop_bit 1 x, ndx + 1), (x, ndx)) \<in> measure (\<lambda>(x, ndx). unat x)"
    by (simp add: drop_bit_eq_div unat_div)
qed simp

declare ffo_count.simps [simp del]

definition find_first_one :: "u32 \<Rightarrow> u32" where
  "find_first_one x = ffo_count (drop_bit 1 (x XOR (x - 1))) 0"

definition find_first_zero :: "u32 \<Rightarrow> u32" where
  "find_first_zero x = find_first_one (NOT x)"

lemma int_xor_pred:
  fixes x :: int
  assumes "\<forall>i<n. \<not> bit x i" and "bit x n"
  shows "x XOR (x - 1) = mask (Suc n)"
  using assms
proof (induction n arbitrary: x)
  case 0
  then obtain y where x: "x = 2 * y + 1" by (metis bit_0 oddE)
  have "(2 * y + 1) XOR (2 * y) = (1 :: int)"
    by (subst xor_rec) simp
  then show ?case by (simp add: x)
next
  case (Suc n)
  then have "even x" by (metis bit_0 zero_less_Suc)
  then obtain y where x: "x = 2 * y" by blast
  have "\<forall>i<n. \<not> bit y i" and "bit y n"
    using Suc.prems by (auto simp: x bit_double_iff)
  then have IH: "y XOR (y - 1) = mask (Suc n)" by (rule Suc.IH)
  have "(2 * y - 1) div 2 = y - 1" by presburger
  then have "(2 * y) XOR (2 * y - 1) = 2 * (y XOR (y - 1)) + 1"
    by (simp add: xor_rec [of "2 * y"])
  then show ?case
    by (simp add: x IH mask_eq_exp_minus_1)
qed

lemma word_xor_pred:
  fixes w :: "32 word"
  assumes "\<forall>i<n. \<not> bit w i" and "bit w n"
  shows "w XOR (w - 1) = mask (Suc n)"
proof -
  have n: "n < 32" using assms(2) bit_imp_le_length by force
  have "w \<noteq> 0" using assms(2) by auto
  then have "uint (w - 1) = uint w - 1"
    by (metis uint_minus_simple_alt uint_1 word_le_sub1 word_gt_0 word_sub_le_iff word_less_1 linorder_not_less)
  moreover have "uint w XOR (uint w - 1) = mask (Suc n)"
    using assms n by (intro int_xor_pred) (simp_all add: bit_uint_iff)
  ultimately have "uint (w XOR (w - 1)) = mask (Suc n)"
    by (simp add: unsigned_xor_eq)
  also have "\<dots> = uint (mask (Suc n) :: 32 word)"
    using n by (simp add: uint_mask_eq min_absorb2)
  finally show ?thesis by (metis word_uint_eq_iff)
qed

lemma ffo_count_mask: "k < 32 \<Longrightarrow> ffo_count (mask k) ndx = ndx + of_nat k"
proof (induction k arbitrary: ndx)
  case 0
  then show ?case by (simp add: ffo_count.simps)
next
  case (Suc k)
  have "drop_bit 1 (mask (Suc k) :: u32) = mask k"
    using Suc.prems by (auto simp: bit_eq_iff bit_simps)
  moreover have "(mask (Suc k) :: u32) \<noteq> 0" by simp
  ultimately have "ffo_count (mask (Suc k)) ndx = ffo_count (mask k) (ndx + 1)"
    by (subst ffo_count.simps) simp
  then show ?case using Suc by simp
qed

lemma find_first_one_eq:
  assumes "\<forall>i<n. \<not> bit x i" and "bit x n"
  shows "find_first_one x = of_nat n"
proof -
  have n: "n < 32" using assms(2) bit_imp_le_length by force
  have "drop_bit 1 (mask (Suc n) :: u32) = mask n"
    using n by (auto simp: bit_eq_iff bit_simps)
  then show ?thesis
    using n by (simp add: find_first_one_def word_xor_pred [OF assms] ffo_count_mask)
qed

lemma find_first_zero_eq:
  assumes "\<forall>i<n. bit x i" and "\<not> bit x n" and "n < 32"
  shows "find_first_zero x = of_nat n"
  unfolding find_first_zero_def
  using assms by (intro find_first_one_eq) (simp_all add: bit_simps)

lemma word32_bit_witness: "w \<noteq> (- 1 :: 32 word) \<Longrightarrow> \<exists>n<32. \<not> bit w n"
  by (auto simp: bit_eq_iff bit_simps)

text \<open>The word that is not all ones has a least zero bit, and \<open>find_first_zero\<close> finds it.\<close>

lemma find_first_zero_least:
  assumes "w \<noteq> - 1"
  shows "unat (find_first_zero w) < 32"
    and "\<not> bit w (unat (find_first_zero w))"
    and "i < unat (find_first_zero w) \<Longrightarrow> bit w i"
proof -
  define n where "n = (LEAST n. \<not> bit w n)"
  obtain m where m: "m < 32" "\<not> bit w m"
    using word32_bit_witness [OF assms] by blast
  have 1: "\<not> bit w n" unfolding n_def by (rule LeastI) (rule m)
  have "n \<le> m" unfolding n_def by (rule Least_le) (rule m)
  then have n: "n < 32" using m by simp
  have 2: "\<forall>i<n. bit w i" unfolding n_def using not_less_Least by blast
  have "find_first_zero w = of_nat n" using 2 1 n by (rule find_first_zero_eq)
  then have u: "unat (find_first_zero w) = n" using n by (simp add: unat_of_nat32)
  show "unat (find_first_zero w) < 32" "\<not> bit w (unat (find_first_zero w))"
    "i < unat (find_first_zero w) \<Longrightarrow> bit w i"
    using 1 2 n by (simp_all add: u)
qed

lemma clz32_eq:
  assumes "bit x h" and "\<forall>i. h < i \<longrightarrow> \<not> bit x i"
  shows "clz32 x = 31 - h"
proof -
  have h: "h < 32" using assms(1) bit_imp_le_length by force
  have "[0..<32] = [0..<h] @ h # [Suc h..<32]"
    using h upt_add_eq_append [of 0 h "32 - h"] by (simp add: upt_conv_Cons)
  then have "rev [0..<32] = rev [Suc h..<32] @ h # rev [0..<h]" by simp
  moreover have "takeWhile (\<lambda>i. \<not> bit x i) (rev [Suc h..<32] @ h # rev [0..<h])
      = rev [Suc h..<32]"
    using assms by (subst takeWhile_append2) auto
  ultimately show ?thesis by (simp add: clz32_def)
qed

lemma word32_top_bit:
  assumes "x \<noteq> (0 :: 32 word)"
  obtains h where "h < 32" "bit x h" "\<forall>i. h < i \<longrightarrow> \<not> bit x i"
    "2 ^ h \<le> unat x" "unat x < 2 ^ Suc h"
proof -
  let ?S = "{i. bit x i}"
  have fin: "finite ?S"
    by (rule finite_subset [of _ "{..<32}"]) (auto dest: bit_imp_le_length)
  have ne: "?S \<noteq> {}" using assms by (auto simp: bit_eq_iff)
  define h where "h = Max ?S"
  have b: "bit x h" using Max_in [OF fin ne] by (simp add: h_def)
  have above: "\<forall>i. h < i \<longrightarrow> \<not> bit x i"
    using Max_ge [OF fin] by (auto simp: h_def not_less [symmetric])
  have h: "h < 32" using b bit_imp_le_length by force
  have "take_bit (Suc h) x = x"
    using above by (auto simp: bit_eq_iff bit_simps less_Suc_eq_le not_less [symmetric])
  then have "unat x = take_bit (Suc h) (unat x)"
    by (metis unsigned_take_bit_eq)
  then have up: "unat x < 2 ^ Suc h" by (metis take_bit_nat_less_exp)
  have "bit (unat x) h" using b by (simp add: bit_unsigned_iff)
  then have "unat x div 2 ^ h \<noteq> 0" by (metis bit_iff_odd even_zero)
  then have lo: "2 ^ h \<le> unat x" by (metis div_less not_le)
  show ?thesis using that h b above lo up by blast
qed

lemma log2_floor_ok:
  assumes "x \<noteq> 0"
  obtains l where "log2_floor x = Inr l" "unat l < 32"
    "2 ^ unat l \<le> unat x" "unat x < 2 ^ Suc (unat l)"
proof -
  obtain h where h: "h < 32" "bit x h" "\<forall>i. h < i \<longrightarrow> \<not> bit x i"
    "2 ^ h \<le> unat x" "unat x < 2 ^ Suc h"
    using word32_top_bit [OF assms] .
  have "(8 * 4 - 1 - of_nat (31 - h) :: 32 word) = of_nat h"
    using h(1) by (simp add: of_nat_diff)
  then have "log2_floor x = Inr (of_nat h)"
    using assms by (simp add: log2_floor_def clz32_eq [OF h(2,3)])
  moreover have "unat (of_nat h :: 32 word) = h" using h(1) by (simp add: unat_of_nat32)
  ultimately show ?thesis using that [of "of_nat h"] h by simp
qed

end
