(* ===== verification/Slist.thy ===== *)
theory Slist
  imports Align_Utils
begin

text \<open>
  kernel/lib/ds/slist.c: intrusive singly linked lists. A list is a head node followed by
  its elements; every node is a \<open>struct slist_ref\<close>, whose only field is \<open>next\<close>. The store
  maps the address of each initialised node to the value of its \<open>next\<close> field; reading a
  node that is not in the store is undefined. \<open>NULL\<close> is in no store.
\<close>

type_synonym slist_heap = "addr \<rightharpoonup> addr"

definition slist_load :: "slist_heap \<Rightarrow> addr \<Rightarrow> addr kres" where
  "slist_load h p = (case h p of None \<Rightarrow> Inl Undef | Some v \<Rightarrow> Inr v)"

section \<open>Operations\<close>

definition slist_init :: "slist_heap \<Rightarrow> addr \<Rightarrow> slist_heap kres" where
  "slist_init h node = kassert (node \<noteq> NULL) (Inr (h(node \<mapsto> NULL)))"

definition slist_next :: "slist_heap \<Rightarrow> addr \<Rightarrow> addr kres" where
  "slist_next h node = kassert (node \<noteq> NULL) (slist_load h node)"

definition slist_is_empty :: "slist_heap \<Rightarrow> addr \<Rightarrow> bool kres" where
  "slist_is_empty h node =
     kassert (node \<noteq> NULL) (kbind (slist_load h node) (\<lambda>nx. Inr (nx = NULL)))"

definition slist_insert :: "slist_heap \<Rightarrow> addr \<Rightarrow> addr \<Rightarrow> slist_heap kres" where
  "slist_insert h prev_node new_node =
     kassert (prev_node \<noteq> NULL)
    (kassert (new_node \<noteq> NULL)
    (kbind (slist_load h prev_node) (\<lambda>nx.
       Inr (h(new_node \<mapsto> nx, prev_node \<mapsto> new_node)))))"

definition slist_remove_next :: "slist_heap \<Rightarrow> addr \<Rightarrow> slist_heap kres" where
  "slist_remove_next h prev_node =
     kassert (prev_node \<noteq> NULL)
    (kbind (slist_load h prev_node) (\<lambda>nx.
       kassert (nx \<noteq> NULL)
      (kbind (slist_load h nx) (\<lambda>nx2. Inr (h(prev_node \<mapsto> nx2))))))"

text \<open>
  \<open>slist_remove\<close> walks a pointer to a \<open>next\<close> field. The field is the whole node, so
  \<open>cursor = &node->next\<close> is the node's address and \<open>*cursor\<close> the load from it.
\<close>

fun slist_find_link :: "nat \<Rightarrow> slist_heap \<Rightarrow> addr \<Rightarrow> addr \<Rightarrow> addr kres" where
  "slist_find_link 0 h cursor to_remove = Inl Fuel"
| "slist_find_link (Suc fuel) h cursor to_remove =
     kbind (slist_load h cursor) (\<lambda>v.
       if v \<noteq> to_remove
       then kbind (slist_load h v) (\<lambda>v2.
              kassert (v2 \<noteq> NULL) (slist_find_link fuel h v to_remove))
       else Inr cursor)"

definition slist_remove :: "slist_heap \<Rightarrow> addr \<Rightarrow> addr \<Rightarrow> slist_heap kres" where
  "slist_remove h list_head to_remove =
     kassert (list_head \<noteq> NULL)
    (kassert (to_remove \<noteq> NULL)
    (kbind (slist_find_link addr_fuel h list_head to_remove) (\<lambda>cursor.
     kbind (slist_load h cursor) (\<lambda>v.
     kbind (slist_load h v) (\<lambda>nx. Inr (h(cursor \<mapsto> nx)))))))"

section \<open>The list a head node denotes\<close>

text \<open>
  \<open>slist_seg h p xs e\<close>: following \<open>next\<close> from \<open>p\<close> visits the nodes \<open>xs\<close>, and the last node
  holds \<open>e\<close>. A list is a segment that ends in \<open>NULL\<close>, from a head that is not \<open>NULL\<close>, in a
  store that does not map \<open>NULL\<close>.
\<close>

fun slist_seg :: "slist_heap \<Rightarrow> addr \<Rightarrow> addr list \<Rightarrow> addr \<Rightarrow> bool" where
  "slist_seg h p [] e \<longleftrightarrow> h p = Some e"
| "slist_seg h p (x # xs) e \<longleftrightarrow> h p = Some x \<and> x \<noteq> NULL \<and> slist_seg h x xs e"

definition slist_rep :: "slist_heap \<Rightarrow> addr \<Rightarrow> addr list \<Rightarrow> bool" where
  "slist_rep h p xs \<longleftrightarrow> h NULL = None \<and> p \<noteq> NULL \<and> slist_seg h p xs NULL"

lemma slist_load_Some [simp]: "h p = Some v \<Longrightarrow> slist_load h p = Inr v"
  by (simp add: slist_load_def)

lemma slist_load_None [simp]: "h p = None \<Longrightarrow> slist_load h p = Inl Undef"
  by (simp add: slist_load_def)

lemma slist_load_eq_Inr [kres_simps]: "slist_load h p = Inr v \<longleftrightarrow> h p = Some v"
  by (simp add: slist_load_def split: option.splits)

lemma slist_seg_append:
  "slist_seg h p (xs @ x # ys) e \<longleftrightarrow> slist_seg h p xs x \<and> x \<noteq> NULL \<and> slist_seg h x ys e"
  by (induction xs arbitrary: p) auto

lemma slist_seg_fun: "slist_seg h p xs NULL \<Longrightarrow> slist_seg h p ys NULL \<Longrightarrow> xs = ys"
proof (induction xs arbitrary: p ys)
  case Nil
  then show ?case by (cases ys) auto
next
  case (Cons x xs)
  then show ?case by (cases ys) auto
qed

lemma slist_seg_last: "slist_seg h p xs e \<Longrightarrow> h (last (p # xs)) = Some e"
  by (induction xs arbitrary: p) auto

text \<open>A list that ends in \<open>NULL\<close> repeats no node.\<close>

lemma slist_seg_head_notin:
  assumes "slist_seg h p xs NULL"
  shows "p \<notin> set xs"
proof
  assume "p \<in> set xs"
  then obtain us vs where xs: "xs = us @ p # vs" by (meson split_list)
  then have "slist_seg h p vs NULL" using assms by (simp add: slist_seg_append)
  then have "xs = vs" using assms slist_seg_fun by blast
  then have "length xs = length vs" by simp
  then show False by (simp add: xs)
qed

lemma slist_seg_distinct: "slist_seg h p xs NULL \<Longrightarrow> distinct (p # xs)"
proof (induction xs arbitrary: p)
  case Nil
  then show ?case by simp
next
  case (Cons x xs)
  then have "slist_seg h x xs NULL" by simp
  then have "distinct (x # xs)" by (rule Cons.IH)
  then show ?case using slist_seg_head_notin [OF Cons.prems] by simp
qed

lemma slist_seg_upd_other [simp]:
  "q \<notin> set (p # xs) \<Longrightarrow> slist_seg (h(q := v)) p xs e = slist_seg h p xs e"
  by (induction xs arbitrary: p) auto

lemma slist_seg_upd_last:
  "slist_seg h p xs e \<Longrightarrow> distinct (p # xs) \<Longrightarrow>
   slist_seg (h(last (p # xs) \<mapsto> e')) p xs e'"
proof (induction xs arbitrary: p)
  case Nil
  then show ?case by simp
next
  case (Cons x xs)
  then have "p \<noteq> last (x # xs)" by (metis distinct.simps(2) last_in_set list.distinct(1))
  then show ?case using Cons by simp
qed

lemma slist_seg_dom: "slist_seg h p xs e \<Longrightarrow> set (p # xs) \<subseteq> dom h"
  by (induction xs arbitrary: p) auto

lemma slist_repD:
  assumes "slist_rep h p xs"
  shows "h NULL = None" "p \<noteq> NULL" "slist_seg h p xs NULL" "distinct (p # xs)"
    "NULL \<notin> set (p # xs)" "h (last (p # xs)) = Some NULL"
  using assms slist_seg_distinct slist_seg_dom [of h p xs NULL] slist_seg_last [of h p xs NULL]
  unfolding slist_rep_def by auto

lemma slist_rep_split:
  assumes "slist_rep h p (us @ vs)"
  shows "slist_seg h p us (hd (vs @ [NULL]))" "last (p # us) \<noteq> NULL"
    "h (last (p # us)) = Some (hd (vs @ [NULL]))"
proof -
  have "slist_seg h p (us @ vs) NULL" using assms by (rule slist_repD)
  then show 1: "slist_seg h p us (hd (vs @ [NULL]))"
    by (cases vs) (simp_all add: slist_seg_append)
  then show "h (last (p # us)) = Some (hd (vs @ [NULL]))" by (rule slist_seg_last)
  then show "last (p # us) \<noteq> NULL" using slist_repD(1) [OF assms] by auto
qed

text \<open>Any two lists of one store are the same list or share no node in front of their tails;
  in particular a store update outside a list's nodes leaves the list alone.\<close>

lemma slist_rep_frame:
  assumes "slist_rep h p xs" and "\<forall>q \<in> set (p # xs). h' q = h q" and "h' NULL = None"
  shows "slist_rep h' p xs"
proof -
  have "slist_seg h p xs e \<Longrightarrow> \<forall>q \<in> set (p # xs). h' q = h q \<Longrightarrow> slist_seg h' p xs e" for e
    by (induction xs arbitrary: p) auto
  then show ?thesis using assms unfolding slist_rep_def by blast
qed

section \<open>What the operations do to the list\<close>

lemma slist_init_rep:
  assumes "node \<noteq> NULL" and "h NULL = None"
  obtains h' where "slist_init h node = Inr h'" "slist_rep h' node []"
    "\<And>q. q \<noteq> node \<Longrightarrow> h' q = h q"
  using assms that [of "h(node \<mapsto> NULL)"] by (auto simp: slist_init_def slist_rep_def)

lemma slist_next_rep: "slist_rep h p (us @ vs) \<Longrightarrow> slist_next h (last (p # us)) = Inr (hd (vs @ [NULL]))"
  by (simp add: slist_next_def slist_rep_split del: last.simps)

lemma slist_is_empty_rep: "slist_rep h p xs \<Longrightarrow> slist_is_empty h p = Inr (xs = [])"
  using slist_rep_split [of h p "[]" xs] slist_repD(5) [of h p xs]
  by (cases xs) (auto simp: slist_is_empty_def)

lemma slist_insert_rep:
  assumes rep: "slist_rep h p (us @ vs)" and new: "new \<noteq> NULL" "new \<notin> set (p # us @ vs)"
  obtains h' where "slist_insert h (last (p # us)) new = Inr h'"
    "slist_rep h' p (us @ new # vs)"
    "\<And>q. q \<noteq> last (p # us) \<Longrightarrow> q \<noteq> new \<Longrightarrow> h' q = h q"
proof -
  let ?l = "last (p # us)" and ?nx = "hd (vs @ [NULL])"
  let ?h = "h(new \<mapsto> ?nx, ?l \<mapsto> new)"
  note s = slist_rep_split [OF rep] and d = slist_repD [OF rep]
  have l: "?l \<in> set (p # us)" by (rule last_in_set) simp
  have "slist_seg (h(new \<mapsto> ?nx)) p us ?nx" using s(1) new(2) by (intro slist_seg_upd_other [THEN iffD2]) auto
  then have 1: "slist_seg ?h p us new" using d(4) by (intro slist_seg_upd_last) auto
  have "slist_seg ?h new vs NULL"
  proof (cases vs)
    case Nil
    then show ?thesis using l new(2) by auto
  next
    case (Cons v vs')
    have "?l \<noteq> new" using l new(2) by auto
    moreover have "?l \<notin> set vs" using l d(4) by auto
    moreover have "slist_seg h v vs' NULL" "v \<noteq> NULL"
      using d(3) by (simp_all add: Cons slist_seg_append)
    ultimately show ?thesis using Cons new(2) by simp
  qed
  then have "slist_rep ?h p (us @ new # vs)"
    using 1 d(1,2) new(1) s(2) by (simp add: slist_rep_def slist_seg_append)
  moreover have "slist_insert h ?l new = Inr ?h"
    using s new(1) by (simp add: slist_insert_def del: last.simps)
  ultimately show ?thesis using that by auto
qed

lemma slist_unlink_rep:
  assumes rep: "slist_rep h p (us @ x # vs)"
  shows "h x = Some (hd (vs @ [NULL]))"
    and "slist_rep (h(last (p # us) \<mapsto> hd (vs @ [NULL]))) p (us @ vs)"
proof -
  let ?l = "last (p # us)" and ?nx = "hd (vs @ [NULL])"
  note d = slist_repD [OF rep]
  have seg: "slist_seg h p us x" "slist_seg h x vs NULL" using d(3) by (simp_all add: slist_seg_append)
  then show x: "h x = Some ?nx" by (cases vs) auto
  have l: "?l \<in> set (p # us)" by (rule last_in_set) simp
  have "slist_seg (h(?l \<mapsto> ?nx)) p us ?nx" using seg(1) d(4) by (intro slist_seg_upd_last) auto
  moreover have "slist_seg (h(?l \<mapsto> ?nx)) v vs' NULL" if "vs = v # vs'" for v vs'
    using seg(2) l d(4) that by (subst slist_seg_upd_other) auto
  ultimately have "slist_seg (h(?l \<mapsto> ?nx)) p (us @ vs) NULL"
    using seg(2) by (cases vs) (auto simp: slist_seg_append)
  then show "slist_rep (h(?l \<mapsto> ?nx)) p (us @ vs)"
    using d l by (auto simp: slist_rep_def)
qed

lemma slist_remove_next_rep:
  assumes "slist_rep h p (us @ x # vs)"
  obtains h' where "slist_remove_next h (last (p # us)) = Inr h'" "slist_rep h' p (us @ vs)"
    "\<And>q. q \<noteq> last (p # us) \<Longrightarrow> h' q = h q"
proof -
  have "x \<noteq> NULL" using slist_repD(5) [OF assms] by auto
  then have "slist_remove_next h (last (p # us)) = Inr (h(last (p # us) \<mapsto> hd (vs @ [NULL])))"
    using slist_rep_split(2,3) [of h p us "x # vs"] slist_unlink_rep(1) [OF assms] assms
    by (simp add: slist_remove_next_def del: last.simps)
  then show ?thesis using that slist_unlink_rep(2) [OF assms] by auto
qed

section \<open>Removal by address\<close>

lemma slist_find_link_found:
  assumes "slist_rep h p (us @ ws @ x # vs)" and "length ws < fuel"
  shows "slist_find_link fuel h (last (p # us)) x = Inr (last (p # us @ ws))"
  using assms
proof (induction ws arbitrary: us fuel)
  case Nil
  then obtain f where f: "fuel = Suc f" by (cases fuel) auto
  have "h (last (p # us)) = Some x" using slist_rep_split(3) [of h p us "x # vs"] Nil by simp
  then show ?case by (simp add: f del: last.simps)
next
  case (Cons w ws)
  then obtain f where f: "fuel = Suc f" by (cases fuel) auto
  have rep': "slist_rep h p ((us @ [w]) @ ws @ x # vs)" using Cons.prems by simp
  have w: "h (last (p # us)) = Some w"
    using slist_rep_split(3) [of h p us "w # ws @ x # vs"] Cons.prems by simp
  have nx: "h w = Some (hd (ws @ [x]))"
    using slist_rep_split(3) [of h p "us @ [w]" "ws @ x # vs"] rep' by (cases ws) simp_all
  have "w \<noteq> x" "hd (ws @ [x]) \<noteq> NULL"
    using slist_repD(4,5) [OF Cons.prems(1)] by (cases ws; auto)+
  moreover have "slist_find_link f h (last (p # us @ [w])) x = Inr (last (p # (us @ [w]) @ ws))"
    using Cons.IH [OF rep'] Cons.prems(2) f by simp
  ultimately show ?case by (simp add: f w nx del: last.simps) simp
qed

lemma slist_find_link_absent:
  assumes "slist_rep h p (us @ w # ws)" and "x \<notin> set (w # ws)" and "x \<noteq> NULL"
    and "length ws < fuel"
  shows "slist_find_link fuel h (last (p # us)) x = Inl Kassert"
  using assms
proof (induction ws arbitrary: us w fuel)
  case Nil
  then obtain f where f: "fuel = Suc f" by (cases fuel) auto
  have "h (last (p # us)) = Some w" "h w = Some NULL"
    using slist_rep_split(3) [of h p us "[w]"] slist_rep_split(3) [of h p "us @ [w]" "[]"] Nil
    by simp_all
  then show ?case using Nil.prems(2) by (simp add: f del: last.simps)
next
  case (Cons w' ws)
  then obtain f where f: "fuel = Suc f" by (cases fuel) auto
  have rep': "slist_rep h p ((us @ [w]) @ w' # ws)" using Cons.prems by simp
  have "h (last (p # us)) = Some w" "h w = Some w'"
    using slist_rep_split(3) [of h p us "w # w' # ws"]
      slist_rep_split(3) [of h p "us @ [w]" "w' # ws"] Cons.prems by simp_all
  moreover have "w' \<noteq> NULL" using slist_repD(5) [OF Cons.prems(1)] by simp
  moreover have "slist_find_link f h (last (p # us @ [w])) x = Inl Kassert"
    using Cons.IH [OF rep'] Cons.prems(2,3,4) f by simp
  moreover have "w \<noteq> x" using Cons.prems(2) by auto
  ultimately show ?case by (simp add: f del: last.simps) simp
qed

lemma slist_remove_rep:
  assumes rep: "slist_rep h p xs" and x: "x \<in> set xs"
  obtains h' where "slist_remove h p x = Inr h'" "slist_rep h' p (remove1 x xs)"
    "\<And>q. q \<notin> set (p # remove1 x xs) \<Longrightarrow> h' q = h q"
proof -
  obtain us vs where xs: "xs = us @ x # vs" and "x \<notin> set us"
    using x by (meson split_list_first)
  then have r1: "remove1 x xs = us @ vs" by (simp add: remove1_append)
  have rep': "slist_rep h p (us @ x # vs)" using rep xs by simp
  note d = slist_repD [OF rep']
  have "length (p # us) \<le> addr_fuel" using d(4) by (intro distinct_addr_length) simp
  then have "slist_find_link addr_fuel h (last (p # [])) x = Inr (last (p # [] @ us))"
    using rep' by (intro slist_find_link_found) simp_all
  then have "slist_find_link addr_fuel h p x = Inr (last (p # us))" by simp
  moreover have "x \<noteq> NULL" "p \<noteq> NULL" using d(2,5) by auto
  ultimately have "slist_remove h p x = Inr (h(last (p # us) \<mapsto> hd (vs @ [NULL])))"
    using slist_rep_split(3) [OF rep'] slist_unlink_rep(1) [OF rep']
    by (simp add: slist_remove_def del: last.simps)
  moreover have "last (p # us) \<in> set (p # us)" by (rule last_in_set) simp
  then have "(h(last (p # us) \<mapsto> hd (vs @ [NULL]))) q = h q" if "q \<notin> set (p # us @ vs)" for q
    using that by (auto simp del: last.simps)
  ultimately show ?thesis
    using that slist_unlink_rep(2) [OF rep'] unfolding r1 by blast
qed

lemma slist_remove_absent:
  assumes rep: "slist_rep h p xs" and "x \<notin> set xs" "x \<noteq> NULL"
  shows "slist_remove h p x = (if xs = [] then Inl Undef else Inl Kassert)"
proof (cases xs)
  case Nil
  then have "h p = Some NULL" "h NULL = None" using slist_repD [OF rep] by simp_all
  moreover obtain f where f: "addr_fuel = Suc f" by (rule addr_fuel_Suc)
  ultimately have "slist_find_link addr_fuel h p x = Inl Undef"
    using assms(3) by (simp add: f)
  then show ?thesis using Nil slist_repD(2) [OF rep] assms(3) by (simp add: slist_remove_def)
next
  case (Cons w ws)
  have "length xs \<le> addr_fuel" using slist_repD(4) [OF rep] by (intro distinct_addr_length) simp
  then have "slist_find_link addr_fuel h (last (p # [])) x = Inl Kassert"
    using slist_find_link_absent [of h p "[]" w ws x addr_fuel] assms Cons
    by (simp add: Suc_le_eq)
  then show ?thesis using Cons slist_repD(2) [OF rep] assms(3) by (simp add: slist_remove_def)
qed

section \<open>The interface other components use\<close>

text \<open>
  A client of \<open>slist\<close> (the memory pool, the console and resource registries, the slab caches)
  keeps a head node and uses it as a stack: insert after the head, take the node after the
  head, remove a member. The laws below are all it needs to know of the store.
\<close>

locale linked_list =
  fixes rep :: "'h \<Rightarrow> addr \<Rightarrow> addr list \<Rightarrow> bool"
    and nxt :: "'h \<Rightarrow> addr \<Rightarrow> addr kres"
    and ins :: "'h \<Rightarrow> addr \<Rightarrow> addr \<Rightarrow> 'h kres"
    and rem :: "'h \<Rightarrow> addr \<Rightarrow> addr \<Rightarrow> 'h kres"
  assumes nodes_law: "rep h p xs \<Longrightarrow> distinct (p # xs) \<and> NULL \<notin> set (p # xs)"
    and nxt_law: "rep h p xs \<Longrightarrow> nxt h p = Inr (hd (xs @ [NULL]))"
    and ins_law: "rep h p xs \<Longrightarrow> x \<noteq> NULL \<Longrightarrow> x \<notin> set (p # xs) \<Longrightarrow>
      \<exists>h'. ins h p x = Inr h' \<and> rep h' p (x # xs)"
    and rem_law: "rep h p xs \<Longrightarrow> x \<in> set xs \<Longrightarrow>
      \<exists>h'. rem h p x = Inr h' \<and> rep h' p (remove1 x xs)"
begin

lemma pop_law:
  assumes "rep h p (x # xs)"
  shows "\<exists>h'. nxt h p = Inr x \<and> x \<noteq> NULL \<and> rem h p x = Inr h' \<and> rep h' p xs"
  using nodes_law [OF assms] nxt_law [OF assms] rem_law [OF assms, of x] by auto

lemma pop_empty: "rep h p [] \<Longrightarrow> nxt h p = Inr NULL"
  using nxt_law by fastforce

lemma push_pop:
  assumes "rep h p xs" and "x \<noteq> NULL" and "x \<notin> set (p # xs)" and "ins h p x = Inr h1"
  shows "\<exists>h2. nxt h1 p = Inr x \<and> rem h1 p x = Inr h2 \<and> rep h2 p xs"
proof -
  have "rep h1 p (x # xs)" using ins_law [OF assms(1-3)] assms(4) by auto
  then show ?thesis using pop_law by blast
qed

end

interpretation sl: linked_list slist_rep slist_next slist_insert slist_remove
proof
  show "distinct (p # xs) \<and> NULL \<notin> set (p # xs)" if "slist_rep h p xs" for h p xs
    using slist_repD(4,5) [OF that] by blast
  show "slist_next h p = Inr (hd (xs @ [NULL]))" if "slist_rep h p xs" for h p xs
    using slist_next_rep [of h p "[]" xs] that by simp
  show "\<exists>h'. slist_insert h p x = Inr h' \<and> slist_rep h' p (x # xs)"
    if "slist_rep h p xs" "x \<noteq> NULL" "x \<notin> set (p # xs)" for h p xs x
    using slist_insert_rep [of h p "[]" xs x] that by (metis append_Nil last_ConsL)
  show "\<exists>h'. slist_remove h p x = Inr h' \<and> slist_rep h' p (remove1 x xs)"
    if "slist_rep h p xs" "x \<in> set xs" for h p xs x
    using slist_remove_rep [OF that] by metis
qed

section \<open>Properties\<close>

text \<open>Removing a member from a list unlinks exactly that node: \<open>slist_remove\<close> succeeds, the
  list is the old one without the node, and no node outside the list is written. (The loop of
  the code follows at most as many links as there are addresses.)\<close>

theorem slist_remove_unlinks:
  assumes "slist_rep h p xs" and "x \<in> set xs"
  shows "\<exists>h'. slist_remove h p x = Inr h' \<and> slist_rep h' p (remove1 x xs) \<and>
    (\<forall>q. q \<notin> set (p # remove1 x xs) \<longrightarrow> h' q = h q)"
  using slist_remove_rep [OF assms] by metis

theorem slist_remove_unlinks_witness:
  "let h = [0x10 \<mapsto> 0x20, 0x20 \<mapsto> 0x30, 0x30 \<mapsto> 0x40, 0x40 \<mapsto> 0] in
   \<exists>h'. slist_remove h 0x10 0x30 = Inr h' \<and>
     slist_rep h' 0x10 (remove1 0x30 [0x20, 0x30, 0x40]) \<and>
     (\<forall>q. q \<notin> set (0x10 # remove1 0x30 [0x20, 0x30, 0x40]) \<longrightarrow>
        h' q = [0x10 \<mapsto> 0x20, 0x20 \<mapsto> 0x30, 0x30 \<mapsto> 0x40, 0x40 \<mapsto> 0] q)"
  unfolding Let_def by (rule slist_remove_unlinks) (simp_all add: slist_rep_def)

text \<open>Removing a node that is not a member never returns a list: on a list with members the
  walk runs into the assert that the next node is not \<open>NULL\<close>, and on the empty list it reads
  through \<open>NULL\<close> before any assert looks at it.\<close>

theorem slist_remove_nonmember:
  assumes "slist_rep h p xs" and "x \<notin> set xs" and "x \<noteq> NULL"
  shows "slist_remove h p x = (if xs = [] then Inl Undef else Inl Kassert)"
  using assms by (rule slist_remove_absent)

theorem slist_remove_nonmember_witness:
  "slist_remove [0x10 \<mapsto> 0] 0x10 0x30 = Inl Undef \<and>
   slist_remove [0x10 \<mapsto> 0x20, 0x20 \<mapsto> 0] 0x10 0x30 = Inl Kassert"
  using slist_remove_nonmember [of "[0x10 \<mapsto> 0]" "0x10" "[]" "0x30"]
    slist_remove_nonmember [of "[0x10 \<mapsto> 0x20, 0x20 \<mapsto> 0]" "0x10" "[0x20]" "0x30"]
  by (simp add: slist_rep_def)

end
