(* ===== verification/Allocator.thy ===== *)
theory Allocator
  imports Kernel_Base
begin

text \<open>
  What an allocator of equal-sized objects promises its clients, whatever it is made of: an object it
  hands out is held by nobody else until it is given back. The pools of kernel/lib/mm/pool.c and the
  slab caches of kernel/kernel/mm/kmm.c keep the promise.
\<close>

text \<open>The states that calls of a client lead to, with the objects it holds there.\<close>

inductive client_run :: "('s \<Rightarrow> (addr \<times> 's) kres) \<Rightarrow> ('s \<Rightarrow> addr \<Rightarrow> 's kres) \<Rightarrow> 's \<Rightarrow> 's \<Rightarrow> addr set \<Rightarrow> bool"
  for alloc free s0 where
  run_start: "client_run alloc free s0 s0 {}"
| run_alloc: "client_run alloc free s0 s A \<Longrightarrow> alloc s = Inr (m, s') \<Longrightarrow> m \<noteq> NULL \<Longrightarrow> client_run alloc free s0 s' (insert m A)"
| run_none: "client_run alloc free s0 s A \<Longrightarrow> alloc s = Inr (NULL, s') \<Longrightarrow> client_run alloc free s0 s' A"
| run_free: "client_run alloc free s0 s A \<Longrightarrow> m \<in> A \<Longrightarrow> free s m = Inr s' \<Longrightarrow> client_run alloc free s0 s' (A - {m})"

locale object_allocator =
  fixes inv :: "'s \<Rightarrow> addr set \<Rightarrow> bool"
    and alloc :: "'s \<Rightarrow> (addr \<times> 's) kres"
    and free :: "'s \<Rightarrow> addr \<Rightarrow> 's kres"
    and apart :: "addr \<Rightarrow> addr \<Rightarrow> bool"
  assumes alloc_law: "inv s A \<Longrightarrow> \<exists>m s'. alloc s = Inr (m, s') \<and>
      (if m = NULL then inv s' A else m \<notin> A \<and> inv s' (insert m A))"
    and free_law: "inv s A \<Longrightarrow> m \<in> A \<Longrightarrow> \<exists>s'. free s m = Inr s' \<and> inv s' (A - {m})"
    and apart_law: "inv s A \<Longrightarrow> x \<in> A \<Longrightarrow> y \<in> A \<Longrightarrow> x \<noteq> y \<Longrightarrow> apart x y"
    and null_law: "inv s A \<Longrightarrow> NULL \<notin> A"
begin

lemma alloc_inv: "inv s A \<Longrightarrow> alloc s = Inr (m, s') \<Longrightarrow> if m = NULL then inv s' A else m \<notin> A \<and> inv s' (insert m A)"
  using alloc_law by fastforce

lemma free_inv: "inv s A \<Longrightarrow> m \<in> A \<Longrightarrow> free s m = Inr s' \<Longrightarrow> inv s' (A - {m})"
  using free_law by fastforce

lemma run_inv: "client_run alloc free s0 s A \<Longrightarrow> inv s0 {} \<Longrightarrow> inv s A"
proof (induction rule: client_run.induct)
  case (run_alloc s A m s')
  then show ?case using alloc_inv [of s A m s'] by simp
next
  case (run_none s A s')
  then show ?case using alloc_inv [of s A NULL s'] by simp
next
  case (run_free s A m s')
  then show ?case using free_inv by blast
qed

lemma run_exclusive:
  assumes "client_run alloc free s0 s A" and "inv s0 {}"
  shows "(\<exists>m s'. alloc s = Inr (m, s') \<and> m \<notin> A \<and> (m \<noteq> NULL \<longrightarrow> (\<forall>x \<in> A. apart m x))) \<and>
    (\<forall>m \<in> A. \<exists>s'. free s m = Inr s') \<and> (\<forall>x \<in> A. \<forall>y \<in> A. x \<noteq> y \<longrightarrow> apart x y)"
proof -
  have i: "inv s A" using run_inv [OF assms] .
  obtain m s' where m: "alloc s = Inr (m, s')" "if m = NULL then inv s' A else m \<notin> A \<and> inv s' (insert m A)"
    using alloc_law [OF i] by blast
  then have "m \<notin> A" using null_law [OF i] by (auto split: if_splits)
  moreover have "apart m x" if "m \<noteq> NULL" "x \<in> A" for x
    using m(2) that apart_law [of s' "insert m A" m x] \<open>m \<notin> A\<close> by auto
  ultimately show ?thesis using m(1) free_law [OF i] apart_law [OF i] by blast
qed

text \<open>Giving an object back right after taking it restores the set of objects held.\<close>

lemma alloc_free:
  assumes "inv s A" and "alloc s = Inr (m, s')" and "m \<noteq> NULL"
  shows "\<exists>s''. free s' m = Inr s'' \<and> inv s'' A"
proof -
  have "m \<notin> A" "inv s' (insert m A)" using alloc_inv [OF assms(1,2)] assms(3) by simp_all
  then show ?thesis using free_law [of s' "insert m A" m] by simp
qed

end

end
