(* ===== verification/Pool.thy ===== *)
theory Pool
  imports Slist Allocator
begin

text \<open>
  kernel/lib/mm/pool.c: pools of equal-sized elements. The free elements form an \<open>slist\<close> whose
  links lie in the elements themselves; \<open>struct mem_pool\<close> starts with the head node, so the
  address of the pool is that of the head. The other two fields (debug builds) are a record.
\<close>

record mem_pool =
  mem_start :: addr
  mem_end :: addr

abbreviation sizeof_node :: size_t where
  "sizeof_node \<equiv> 4"

definition node_aligned :: "addr \<Rightarrow> bool" where
  "node_aligned p = check_align p 4"

fun mem_pool_init_loop ::
    "nat \<Rightarrow> slist_heap \<Rightarrow> addr \<Rightarrow> size_t \<Rightarrow> size_t \<Rightarrow> addr \<Rightarrow> slist_heap kres" where
  "mem_pool_init_loop 0 h mblock stride elem_size lim = Inl Fuel"
| "mem_pool_init_loop (Suc fuel) h mblock stride elem_size lim =
     (if mblock + stride + elem_size \<le> lim
      then let current = mblock; nxt = mblock + stride in
        kassert (node_aligned current)
       (kassert (node_aligned nxt)
       (kbind (slist_insert h current nxt) (\<lambda>h'.
          mem_pool_init_loop fuel h' nxt stride elem_size lim)))
      else Inr h)"

definition mem_pool_init :: "slist_heap \<Rightarrow> addr \<Rightarrow> addr \<Rightarrow> size_t \<Rightarrow> size_t \<Rightarrow> size_t \<Rightarrow>
    (slist_heap \<times> mem_pool) kres" where
  "mem_pool_init h pool mem mem_size elem_size elem_align =
     kassert (pool \<noteq> NULL)
    (kassert (mem \<noteq> NULL)
    (kassert (mem_size \<ge> elem_size)
    (let elem_size = MAX_u32 elem_size sizeof_node;
         mblock = align_roundup mem elem_align;
         stride = align_roundup elem_size elem_align;
         lim = mem + mem_size
     in kbind (slist_init h pool) (\<lambda>h1.
        kassert (mblock + elem_size \<le> lim)
       (kassert (node_aligned mblock)
       (kbind (slist_insert h1 pool mblock) (\<lambda>h2.
        kbind (mem_pool_init_loop addr_fuel h2 mblock stride elem_size lim) (\<lambda>h3.
          Inr (h3, \<lparr>mem_start = mem, mem_end = lim\<rparr>)))))))))"

definition mem_pool_alloc :: "slist_heap \<Rightarrow> addr \<Rightarrow> (addr \<times> slist_heap) kres" where
  "mem_pool_alloc h pool =
     kassert (pool \<noteq> NULL)
    (kbind (slist_next h pool) (\<lambda>n.
       kassert (node_aligned n)
      (if n = NULL then Inr (NULL, h)
       else kbind (slist_remove h pool n) (\<lambda>h'. Inr (n, h')))))"

definition mem_pool_free :: "slist_heap \<Rightarrow> addr \<Rightarrow> mem_pool \<Rightarrow> addr \<Rightarrow> slist_heap kres" where
  "mem_pool_free h pool mp mem =
     kassert (pool \<noteq> NULL)
    (kassert (mem \<noteq> NULL)
    (kassert (mem \<ge> mem_start mp \<and> mem < mem_end mp)
    (kassert (node_aligned mem)
       (slist_insert h pool mem))))"

section \<open>Initialisation\<close>

lemma node_aligned_iff: "node_aligned p \<longleftrightarrow> 4 dvd unat p"
  using check_align_dvd [of 2 p] by (simp add: node_aligned_def)

text \<open>The blocks of a pool: \<open>c\<close> of them, a stride apart, the first at \<open>m\<close>.\<close>

definition pool_blocks :: "nat \<Rightarrow> nat \<Rightarrow> nat \<Rightarrow> addr list" where
  "pool_blocks m stride c = map (\<lambda>i. of_nat (m + i * stride)) [0..<c]"

lemma pool_blocks_Suc:
  "pool_blocks m stride (Suc c) = pool_blocks m stride c @ [of_nat (m + c * stride)]"
  by (simp add: pool_blocks_def)

lemma pool_block_unat:
  assumes "m + (c - 1) * stride + e < 4294967296" and "i < c"
  shows "unat (of_nat (m + i * stride) :: addr) = m + i * stride"
proof -
  have "i * stride \<le> (c - 1) * stride" using assms(2) by (intro mult_le_mono1) simp
  then show ?thesis using assms(1) by (intro unat_of_nat32) linarith
qed

lemma pool_block_new:
  assumes "m + c * stride < 4294967296" and "0 < stride"
  shows "(of_nat (m + c * stride) :: addr) \<notin> set (pool_blocks m stride c)"
proof
  assume "(of_nat (m + c * stride) :: addr) \<in> set (pool_blocks m stride c)"
  then obtain i where i: "i < c" "(of_nat (m + c * stride) :: addr) = of_nat (m + i * stride)"
    by (auto simp: pool_blocks_def)
  have lt: "i * stride < c * stride" using i(1) assms(2) by simp
  have "m + c * stride = m + i * stride"
    using arg_cong [OF i(2), of unat] assms(1) lt by (simp add: unat_of_nat32 del: of_nat_add of_nat_mult)
  then show False using lt by simp
qed

text \<open>
  One invariant for the loop: the list holds the first \<open>c\<close> blocks, \<open>mblock\<close> is the last of
  them. \<open>R\<close> bounds what the region may contain; the pool itself lies outside of it.
\<close>

lemma mem_pool_init_loop_ok:
  assumes "slist_rep h p (pool_blocks m s c)" and "0 < c" and "0 < m"
    and "m + (c - 1) * s + e \<le> unat lim" and "s + unat lim < 4294967296"
    and "unat st = s" and "unat el = e" and "0 < s" and "4 dvd m" and "4 dvd s"
    and "\<And>q. unat q \<ge> m \<Longrightarrow> unat q + e \<le> unat lim \<Longrightarrow> p \<noteq> q"
    and "unat lim + 1 \<le> fuel + c"
  shows "\<exists>h' n. mem_pool_init_loop fuel h (of_nat (m + (c - 1) * s)) st el lim = Inr h' \<and>
    c \<le> n \<and> slist_rep h' p (pool_blocks m s n) \<and>
    m + (n - 1) * s + e \<le> unat lim \<and> unat lim < m + n * s + e"
  using assms(1,2,4,12)
proof (induction fuel arbitrary: h c)
  case 0
  have "c - 1 \<le> (c - 1) * s" using assms(8) by simp
  then show ?case using 0 assms(3) by linarith
next
  case (Suc fuel)
  let ?cur = "of_nat (m + (c - 1) * s) :: addr" and ?nxt = "of_nat (m + c * s) :: addr"
  have cs: "c * s = (c - 1) * s + s" using Suc.prems(2) by (cases c) auto
  have cur: "unat ?cur = m + (c - 1) * s"
    using Suc.prems(3) unat_lt32 [of lim] by (intro unat_of_nat32) linarith
  have nlt: "m + c * s + e < 4294967296" using Suc.prems(3) assms(5) cs by linarith
  then have nxt: "unat ?nxt = m + c * s" by (intro unat_of_nat32) linarith
  have add: "?cur + st = ?nxt"
    by (rule word32_eqI) (use cur nxt nlt cs assms(6) in \<open>simp only: unat_add32\<close>)
  have tot: "unat (?cur + st + el) = m + c * s + e"
    unfolding add by (subst unat_add32) (use nxt assms(7) nlt in simp_all)
  show ?case
  proof (cases "m + c * s + e \<le> unat lim")
    case False
    then have "mem_pool_init_loop (Suc fuel) h ?cur st el lim = Inr h"
      using tot unfolding mem_pool_init_loop.simps word_le_nat_alt by (simp only: if_False)
    then show ?thesis using Suc.prems False by auto
  next
    case True
    have d: "4 dvd m + c * s" "4 dvd m + (c - 1) * s" using assms(9,10) by auto
    have al: "node_aligned ?cur" "node_aligned ?nxt"
      unfolding node_aligned_iff cur nxt by (rule d)+
    have nz: "?nxt \<noteq> NULL" using nxt assms(3) by auto
    have new: "?nxt \<notin> set (p # pool_blocks m s c)"
      using pool_block_new [of m c s] nlt assms(8) assms(11) [of ?nxt] True nxt by auto
    have "pool_blocks m s c \<noteq> []" using Suc.prems(2) by (simp add: pool_blocks_def)
    then have l: "last (p # pool_blocks m s c) = ?cur"
      using Suc.prems(2) pool_blocks_Suc [of m s "c - 1"] by (cases c) simp_all
    have "slist_rep h p (pool_blocks m s c @ [])" using Suc.prems(1) by simp
    then obtain h' where h': "slist_insert h ?cur ?nxt = Inr h'"
      "slist_rep h' p (pool_blocks m s c @ ?nxt # [])"
      using new nz l by (metis append_Nil2 slist_insert_rep)
    have rep: "slist_rep h' p (pool_blocks m s (Suc c))" using h'(2) by (simp add: pool_blocks_Suc)
    have step: "mem_pool_init_loop (Suc fuel) h ?cur st el lim = mem_pool_init_loop fuel h' ?nxt st el lim"
      using True tot al h'(1) add
      unfolding mem_pool_init_loop.simps word_le_nat_alt Let_def
      by (simp only: if_True kassert_simps kbind_Inr)
    have pre: "m + (Suc c - 1) * s + e \<le> unat lim" "unat lim + 1 \<le> fuel + Suc c"
      using True Suc.prems(4) by simp_all
    obtain h2 n where "mem_pool_init_loop fuel h' (of_nat (m + (Suc c - 1) * s)) st el lim = Inr h2"
      "Suc c \<le> n" "slist_rep h2 p (pool_blocks m s n)" "m + (n - 1) * s + e \<le> unat lim"
      "unat lim < m + n * s + e"
      using Suc.IH [OF rep _ pre] by auto
    then show ?thesis unfolding step by (auto intro: Suc_leD)
  qed
qed

text \<open>The blocks a pool over \<open>mem\<close> can have, as numbers: start, stride and size.\<close>

definition pool_geometry :: "addr \<Rightarrow> size_t \<Rightarrow> nat \<Rightarrow> nat \<times> nat \<times> nat" where
  "pool_geometry mem elem_size k =
     (let e = MAX_u32 elem_size sizeof_node in
      (unat (align_roundup mem (2 ^ k)), unat (align_roundup e (2 ^ k)), unat e))"

lemma mem_pool_init_ok:
  assumes h: "h NULL = None" and nz: "pool \<noteq> NULL" "mem \<noteq> NULL"
    and k: "2 \<le> k" "k < 32" and sz: "elem_size \<le> mem_size"
    and g: "pool_geometry mem elem_size k = (m, s, e)"
    and wrap: "unat mem + (2 ^ k - 1) < 4294967296" "e + (2 ^ k - 1) < 4294967296"
      "s + (unat mem + unat mem_size) < 4294967296"
    and fits: "m + e \<le> unat mem + unat mem_size"
    and out: "unat pool < unat mem \<or> unat mem + unat mem_size \<le> unat pool"
  obtains h' n where
    "mem_pool_init h pool mem mem_size elem_size (2 ^ k) =
       Inr (h', \<lparr>mem_start = mem, mem_end = mem + mem_size\<rparr>)"
    "0 < n" "slist_rep h' pool (pool_blocks m s n)"
    "m + (n - 1) * s + e \<le> unat mem + unat mem_size" "unat mem + unat mem_size < m + n * s + e"
    "unat mem \<le> m" "e \<le> s" "4 dvd m" "4 dvd s"
proof -
  let ?el = "MAX_u32 elem_size sizeof_node"
  let ?mb = "align_roundup mem (2 ^ k)" and ?st = "align_roundup ?el (2 ^ k)"
  let ?lim = "mem + mem_size"
  have mse: "m = unat ?mb" "s = unat ?st" "e = unat ?el"
    using g by (simp_all add: pool_geometry_def Let_def)
  have m: "m = (unat mem + (2 ^ k - 1)) div 2 ^ k * 2 ^ k"
    unfolding mse using k(2) wrap(1) by (rule unat_align_roundup)
  have s: "s = (e + (2 ^ k - 1)) div 2 ^ k * 2 ^ k"
    using wrap(2) unfolding mse using k(2) by (intro unat_align_roundup)
  have le: "unat mem \<le> m" "e \<le> s"
    unfolding m s by (rule roundup_nat_least(1); simp)+
  have "(2 :: nat) ^ 2 dvd 2 ^ k" using k(1) by (rule le_imp_power_dvd)
  then have d: "4 dvd m" "4 dvd s" unfolding m s by auto
  have "4 \<le> ?el" by (auto simp: MAX_u32_def)
  then have e0: "4 \<le> e" unfolding mse by (simp add: word_le_nat_alt)
  then have s0: "0 < s" using le by linarith
  have mem0: "0 < unat mem" using nz by (simp add: unat_gt_0)
  have lim: "unat ?lim = unat mem + unat mem_size" using wrap(3) by (intro unat_add32) linarith
  have mbe: "unat (?mb + ?el) = m + e"
    using fits wrap(3) unfolding mse by (intro unat_add32) linarith
  have al: "node_aligned ?mb" unfolding node_aligned_iff mse(1) [symmetric] by (rule d)
  have mbnz: "?mb \<noteq> NULL" using le(1) mem0 unfolding mse by auto
  have pne: "pool \<noteq> q" if "m \<le> unat q" "unat q + e \<le> unat ?lim" for q
    using that out le e0 lim by auto
  obtain h1 where h1: "slist_init h pool = Inr h1" "slist_rep h1 pool []"
    using slist_init_rep [where h = h, OF nz(1) h] by metis
  have "?mb \<notin> set (pool # [])"
    using pne [of ?mb] fits lim unfolding mse by auto
  then obtain h2 where h2: "slist_insert h1 pool ?mb = Inr h2" "slist_rep h2 pool [?mb]"
    using sl.ins_law [OF h1(2) mbnz] by auto
  have mb: "?mb = of_nat m" unfolding mse by (rule word32_eqI) (simp add: unat_of_nat32)
  then have rep: "slist_rep h2 pool (pool_blocks m s 1)" using h2(2) by (simp add: pool_blocks_def)
  have fuel: "unat ?lim + 1 \<le> addr_fuel + 1" using less_imp_le [OF unat_lt32 [of ?lim]] by (simp add: addr_fuel_def)
  obtain h3 n where h3: "mem_pool_init_loop addr_fuel h2 (of_nat (m + (1 - 1) * s)) ?st ?el ?lim = Inr h3"
    "1 \<le> n" "slist_rep h3 pool (pool_blocks m s n)"
    "m + (n - 1) * s + e \<le> unat ?lim" "unat ?lim < m + n * s + e"
    using mem_pool_init_loop_ok [OF rep _ _ _ _ mse(2,3) [symmetric] s0 d pne fuel]
      le(1) mem0 fits wrap(3) lim by auto
  have "mem_pool_init h pool mem mem_size elem_size (2 ^ k) =
       Inr (h3, \<lparr>mem_start = mem, mem_end = ?lim\<rparr>)"
    using nz sz h1(1) h2(1) h3(1) al fits mbe lim mb
    by (simp add: mem_pool_init_def Let_def word_le_nat_alt)
  moreover have "0 < n" using h3(2) by simp
  ultimately show ?thesis by (rule that) (use h3(3-5) le d lim in simp_all)
qed

section \<open>Runs of a pool\<close>

text \<open>
  \<open>live\<close> are the blocks handed out and not yet returned. Their holders may write to them what
  they like, the word in which a free block keeps its link included.
\<close>

inductive pool_run :: "addr \<Rightarrow> mem_pool \<Rightarrow> addr list \<Rightarrow> slist_heap \<Rightarrow> addr set \<Rightarrow> bool"
  for pool :: addr and mp :: mem_pool and bs :: "addr list" where
  pool_start: "slist_rep h pool bs \<Longrightarrow> pool_run pool mp bs h {}"
| pool_alloc: "pool_run pool mp bs h live \<Longrightarrow> mem_pool_alloc h pool = Inr (x, h') \<Longrightarrow> x \<noteq> NULL \<Longrightarrow>
    pool_run pool mp bs h' (insert x live)"
| pool_free: "pool_run pool mp bs h live \<Longrightarrow> x \<in> live \<Longrightarrow> mem_pool_free h pool mp x = Inr h' \<Longrightarrow>
    pool_run pool mp bs h' (live - {x})"
| pool_write: "pool_run pool mp bs h live \<Longrightarrow> x \<in> live \<Longrightarrow> pool_run pool mp bs (h(x := v)) live"

definition pool_elems_ok :: "mem_pool \<Rightarrow> addr list \<Rightarrow> bool" where
  "pool_elems_ok mp bs \<longleftrightarrow>
     (\<forall>x \<in> set bs. node_aligned x \<and> mem_start mp \<le> x \<and> x < mem_end mp)"

lemma mem_pool_alloc_pop:
  assumes "slist_rep h pool (x # xs)" and "node_aligned x"
  obtains h' where "mem_pool_alloc h pool = Inr (x, h')" "slist_rep h' pool xs"
proof -
  obtain h' where "slist_next h pool = Inr x" "x \<noteq> NULL" "slist_remove h pool x = Inr h'"
    "slist_rep h' pool xs"
    using sl.pop_law [OF assms(1)] by blast
  moreover have "pool \<noteq> NULL" using sl.nodes_law [OF assms(1)] by auto
  ultimately show ?thesis using that assms(2) by (simp add: mem_pool_alloc_def)
qed

lemma mem_pool_alloc_empty: "slist_rep h pool [] \<Longrightarrow> mem_pool_alloc h pool = Inr (NULL, h)"
  using sl.pop_empty [of h pool] sl.nodes_law [of h pool "[]"]
  by (simp add: mem_pool_alloc_def node_aligned_iff)

lemma mem_pool_free_push:
  assumes "slist_rep h pool xs" and "x \<notin> set (pool # xs)" and "x \<noteq> NULL"
    and "node_aligned x" "mem_start mp \<le> x" "x < mem_end mp"
  obtains h' where "mem_pool_free h pool mp x = Inr h'" "slist_rep h' pool (x # xs)"
proof -
  obtain h' where "slist_insert h pool x = Inr h'" "slist_rep h' pool (x # xs)"
    using sl.ins_law [OF assms(1,3,2)] by blast
  moreover have "pool \<noteq> NULL" using sl.nodes_law [OF assms(1)] by auto
  ultimately show ?thesis using that assms(3-6) by (simp add: mem_pool_free_def)
qed

lemma pool_run_inv:
  assumes "pool_run pool mp bs h live" and ok: "pool_elems_ok mp bs"
  shows "pool \<notin> set bs \<and> NULL \<notin> set bs \<and> (\<exists>fs. slist_rep h pool fs \<and> set fs \<inter> live = {} \<and> set fs \<union> live = set bs)"
  using assms(1)
proof (induction rule: pool_run.induct)
  case (pool_start h)
  then show ?case using sl.nodes_law [OF pool_start] by auto
next
  case (pool_alloc h live x h')
  then obtain fs where fs: "slist_rep h pool fs" "set fs \<inter> live = {}" "set fs \<union> live = set bs" by blast
  show ?case
  proof (cases fs)
    case Nil
    then show ?thesis using mem_pool_alloc_empty fs(1) pool_alloc.hyps(2,3) by simp
  next
    case (Cons y ys)
    then have "node_aligned y" using ok fs(3) by (auto simp: pool_elems_ok_def)
    then obtain h2 where h2: "mem_pool_alloc h pool = Inr (y, h2)" "slist_rep h2 pool ys"
      using mem_pool_alloc_pop fs(1) Cons by blast
    have "y \<notin> set ys" using sl.nodes_law [OF fs(1)] Cons by simp
    then show ?thesis using h2 pool_alloc.hyps(2) pool_alloc.IH fs Cons by auto
  qed
next
  case (pool_free h live x h')
  then obtain fs where fs: "slist_rep h pool fs" "set fs \<inter> live = {}" "set fs \<union> live = set bs" by blast
  have x: "x \<in> set bs" "x \<notin> set fs" using fs pool_free.hyps(2) by auto
  then have "x \<notin> set (pool # fs)" "x \<noteq> NULL" using pool_free.IH by auto
  moreover have "node_aligned x" "mem_start mp \<le> x" "x < mem_end mp"
    using ok x(1) by (auto simp: pool_elems_ok_def)
  ultimately obtain h2 where "mem_pool_free h pool mp x = Inr h2" "slist_rep h2 pool (x # fs)"
    using mem_pool_free_push [OF fs(1)] by blast
  moreover have "set (x # fs) \<inter> (live - {x}) = {}" "set (x # fs) \<union> (live - {x}) = set bs"
    using fs pool_free.hyps(2) by auto
  ultimately show ?case using pool_free.hyps(3) pool_free.IH by (metis Inr_inject)
next
  case (pool_write h live x v)
  then obtain fs where fs: "slist_rep h pool fs" "set fs \<inter> live = {}" "set fs \<union> live = set bs" by blast
  have "x \<in> set bs" "x \<notin> set fs" using fs pool_write.hyps(2) by auto
  then have "slist_rep (h(x := v)) pool fs"
    using slist_repD(1) [OF fs(1)] pool_write.IH by (intro slist_rep_frame [OF fs(1)]) auto
  then show ?case using pool_write.IH fs(2,3) by blast
qed

text \<open>For clients that write nothing into free elements, a pool keeps the promise of an allocator.\<close>

definition pool_holds :: "addr \<Rightarrow> mem_pool \<Rightarrow> addr list \<Rightarrow> slist_heap \<Rightarrow> addr set \<Rightarrow> bool" where
  "pool_holds pool mp bs h A \<longleftrightarrow> pool_elems_ok mp bs \<and> NULL \<notin> set bs \<and> pool \<notin> set bs \<and>
     (\<exists>fs. slist_rep h pool fs \<and> set fs \<inter> A = {} \<and> set fs \<union> A = set bs)"

interpretation pool: object_allocator "pool_holds pool mp bs" "\<lambda>h. mem_pool_alloc h pool" "\<lambda>h. mem_pool_free h pool mp" "(\<noteq>)"
  for pool mp bs
proof
  fix h A
  assume p: "pool_holds pool mp bs h A"
  then obtain fs where fs: "slist_rep h pool fs" "set fs \<inter> A = {}" "set fs \<union> A = set bs"
    and ok: "pool_elems_ok mp bs" "NULL \<notin> set bs" "pool \<notin> set bs" by (auto simp: pool_holds_def)
  show "NULL \<notin> A" using fs(3) ok(2) by blast
  show "\<exists>m h'. mem_pool_alloc h pool = Inr (m, h') \<and>
      (if m = NULL then pool_holds pool mp bs h' A else m \<notin> A \<and> pool_holds pool mp bs h' (insert m A))"
  proof (cases fs)
    case Nil
    then show ?thesis using mem_pool_alloc_empty fs(1) p by (intro exI [of _ NULL] exI [of _ h]) simp
  next
    case (Cons x xs)
    have x: "x \<in> set bs" "x \<notin> A" "x \<noteq> NULL" "node_aligned x" "x \<notin> set xs"
      using fs Cons ok sl.nodes_law [OF fs(1)] by (auto simp: pool_elems_ok_def)
    obtain h' where h: "mem_pool_alloc h pool = Inr (x, h')" "slist_rep h' pool xs"
      using mem_pool_alloc_pop fs(1) x(4) Cons by blast
    have "set xs \<inter> insert x A = {}" "set xs \<union> insert x A = set bs" using fs Cons x(5) by auto
    then have "pool_holds pool mp bs h' (insert x A)" using h(2) ok by (auto simp: pool_holds_def)
    then show ?thesis using h(1) x(2,3) by auto
  qed
  fix m assume m: "m \<in> A"
  have b: "m \<in> set bs" "m \<notin> set (pool # fs)" using m fs ok(3) by auto
  then obtain h' where h: "mem_pool_free h pool mp m = Inr h'" "slist_rep h' pool (m # fs)"
    using mem_pool_free_push [OF fs(1), of m mp] ok(1,2) by (metis pool_elems_ok_def)
  have "set (m # fs) \<inter> (A - {m}) = {}" "set (m # fs) \<union> (A - {m}) = set bs" using fs m by auto
  then show "\<exists>h'. mem_pool_free h pool mp m = Inr h' \<and> pool_holds pool mp bs h' (A - {m})"
    using h ok unfolding pool_holds_def by blast
qed

section \<open>Properties\<close>

text \<open>\<open>mem_pool_init\<close> cuts the memory it is given into blocks: they are aligned, a stride of at
  least the element size apart, inside the memory, and as many as fit; all of them are free.\<close>

theorem mem_pool_init_blocks:
  assumes "h NULL = None" and "pool \<noteq> NULL" "mem \<noteq> NULL"
    and "2 \<le> k" "k < 32" and "elem_size \<le> mem_size"
    and "pool_geometry mem elem_size k = (m, s, e)"
    and "unat mem + (2 ^ k - 1) < 4294967296" "e + (2 ^ k - 1) < 4294967296"
      "s + (unat mem + unat mem_size) < 4294967296"
    and "m + e \<le> unat mem + unat mem_size"
    and "unat pool < unat mem \<or> unat mem + unat mem_size \<le> unat pool"
  shows "\<exists>h' n. mem_pool_init h pool mem mem_size elem_size (2 ^ k) =
       Inr (h', \<lparr>mem_start = mem, mem_end = mem + mem_size\<rparr>) \<and>
    0 < n \<and> slist_rep h' pool (pool_blocks m s n) \<and> unat mem \<le> m \<and> e \<le> s \<and> 4 dvd m \<and> 4 dvd s \<and>
    m + (n - 1) * s + e \<le> unat mem + unat mem_size \<and> unat mem + unat mem_size < m + n * s + e"
  by (rule mem_pool_init_ok [where h = h, OF assms]) blast

theorem mem_pool_init_blocks_witness:
  "\<exists>h' n. mem_pool_init (\<lambda>_. None) 0x800 0x1001 0x20 3 (2 ^ 3) =
       Inr (h', \<lparr>mem_start = 0x1001, mem_end = 0x1001 + 0x20\<rparr>) \<and>
    0 < n \<and> slist_rep h' 0x800 (pool_blocks 0x1008 8 n) \<and> unat (0x1001 :: addr) \<le> 0x1008 \<and>
    4 \<le> (8 :: nat) \<and> 4 dvd (0x1008 :: nat) \<and> 4 dvd (8 :: nat) \<and>
    0x1008 + (n - 1) * 8 + 4 \<le> unat (0x1001 :: addr) + unat (0x20 :: size_t) \<and>
    unat (0x1001 :: addr) + unat (0x20 :: size_t) < 0x1008 + n * 8 + 4"
  by (rule mem_pool_init_blocks)
     (simp_all add: pool_geometry_def MAX_u32_def align_roundup_def)

text \<open>C32: whatever the holders of blocks write into them, a pool hands out each of its blocks to one
  holder at a time: an allocation returns a block that nobody holds, returns \<open>NULL\<close> only when
  every block is held, and a block that is held can always be given back.\<close>

theorem mem_pool_exclusive:
  assumes "pool_run pool mp bs h live" and "pool_elems_ok mp bs"
  shows "(if live = set bs then mem_pool_alloc h pool = Inr (NULL, h)
      else \<exists>x h'. mem_pool_alloc h pool = Inr (x, h') \<and> x \<in> set bs \<and> x \<notin> live) \<and>
    (\<forall>x \<in> live. \<exists>h'. mem_pool_free h pool mp x = Inr h')"
proof -
  obtain fs where fs: "slist_rep h pool fs" "set fs \<inter> live = {}" "set fs \<union> live = set bs"
    and bs: "pool \<notin> set bs" "NULL \<notin> set bs"
    using pool_run_inv [OF assms] by blast
  have 1: "if live = set bs then mem_pool_alloc h pool = Inr (NULL, h)
      else \<exists>x h'. mem_pool_alloc h pool = Inr (x, h') \<and> x \<in> set bs \<and> x \<notin> live"
  proof (cases fs)
    case Nil
    then show ?thesis using fs mem_pool_alloc_empty by simp
  next
    case (Cons x xs)
    then have x: "x \<in> set bs" "x \<notin> live" "slist_rep h pool (x # xs)" using fs by auto
    then have "node_aligned x" using assms(2) by (simp add: pool_elems_ok_def)
    then show ?thesis using mem_pool_alloc_pop [OF x(3)] x(1,2) by metis
  qed
  have "\<exists>h'. mem_pool_free h pool mp x = Inr h'" if "x \<in> live" for x
  proof -
    have "x \<in> set bs" "x \<notin> set fs" using fs that by auto
    then have "x \<notin> set (pool # fs)" "x \<noteq> NULL" "node_aligned x" "mem_start mp \<le> x" "x < mem_end mp"
      using bs assms(2) by (auto simp: pool_elems_ok_def)
    then show ?thesis using mem_pool_free_push [OF fs(1)] by metis
  qed
  then show ?thesis using 1 by blast
qed

theorem mem_pool_exclusive_witness:
  "let h = [0x800 \<mapsto> 0x1010, 0x1010 \<mapsto> 0, 0x1008 \<mapsto> 0x1234];
       mp = \<lparr>mem_start = 0x1001, mem_end = 0x1021\<rparr> in
   \<exists>x h'. mem_pool_alloc h 0x800 = Inr (x, h') \<and> x \<in> set [0x1008, 0x1010] \<and> x \<notin> {0x1008}"
proof -
  let ?mp = "\<lparr>mem_start = 0x1001, mem_end = 0x1021\<rparr>"
  let ?h0 = "[0x800 \<mapsto> 0x1008, 0x1008 \<mapsto> 0x1010, 0x1010 \<mapsto> 0] :: slist_heap"
  have "pool_run 0x800 ?mp [0x1008, 0x1010] ?h0 {}"
    by (rule pool_start) (simp add: slist_rep_def)
  moreover obtain f where f: "addr_fuel = Suc f" by (rule addr_fuel_Suc)
  have "mem_pool_alloc ?h0 0x800 = Inr (0x1008, ?h0(0x800 \<mapsto> 0x1010))"
    by (simp add: mem_pool_alloc_def slist_next_def slist_remove_def node_aligned_def
        check_align_def align_rounddown_def f)
  ultimately have "pool_run 0x800 ?mp [0x1008, 0x1010] (?h0(0x800 \<mapsto> 0x1010)) (insert 0x1008 {})"
    by (rule pool_alloc) simp
  then have "pool_run 0x800 ?mp [0x1008, 0x1010] (?h0(0x800 \<mapsto> 0x1010, 0x1008 := Some 0x1234)) {0x1008}"
    by (rule pool_write) simp
  moreover have "pool_elems_ok ?mp [0x1008, 0x1010]"
    by (simp add: pool_elems_ok_def node_aligned_def check_align_def align_rounddown_def)
  moreover have "?h0(0x800 \<mapsto> 0x1010, 0x1008 := Some 0x1234) =
      [0x800 \<mapsto> 0x1010, 0x1010 \<mapsto> 0, 0x1008 \<mapsto> 0x1234]" by auto
  ultimately show ?thesis
    using mem_pool_exclusive [of "0x800" ?mp "[0x1008, 0x1010]" _ "{0x1008}"] by simp
qed

end
