(* ===== verification/Cstd.thy ===== *)
theory Cstd
  imports Align_Utils
begin

unbundle bit_operations_syntax

text \<open>
  kernel/lib/cstd: the character classes of ctype.c and the byte-string routines of string/.
  An \<open>int\<close> is a mathematical integer (no operation here leaves the 32-bit range); a buffer is
  the list of its bytes from the pointer on, so that moving a pointer forward drops bytes and
  an access past the end of the list is undefined.
\<close>

section \<open>ctype.c\<close>

definition kisdigit :: "int \<Rightarrow> bool" where
  "kisdigit c \<longleftrightarrow> 48 \<le> c \<and> c \<le> 57"

definition kislower :: "int \<Rightarrow> bool" where
  "kislower c \<longleftrightarrow> 97 \<le> c \<and> c \<le> 122"

definition kisupper :: "int \<Rightarrow> bool" where
  "kisupper c \<longleftrightarrow> 65 \<le> c \<and> c \<le> 90"

definition kisalpha :: "int \<Rightarrow> bool" where
  "kisalpha c \<longleftrightarrow> kislower c \<or> kisupper c"

definition kisalnum :: "int \<Rightarrow> bool" where
  "kisalnum c \<longleftrightarrow> kisalpha c \<or> kisdigit c"

definition kisblank :: "int \<Rightarrow> bool" where
  "kisblank c \<longleftrightarrow> c = 32 \<or> c = 9"

definition kiscntrl :: "int \<Rightarrow> bool" where
  "kiscntrl c = (let unit_sep_code = 31; del_code = 127
     in if c \<le> unit_sep_code then True else c = del_code)"

definition kispunct :: "int \<Rightarrow> bool" where
  "kispunct c =
     (if 33 \<le> c \<and> c \<le> 47 then True
      else if 58 \<le> c \<and> c \<le> 64 then True
      else if 91 \<le> c \<and> c \<le> 96 then True
      else 123 \<le> c \<and> c \<le> 126)"

definition kisgraph :: "int \<Rightarrow> bool" where
  "kisgraph c \<longleftrightarrow> c \<noteq> 32 \<and> (kisalnum c \<or> kispunct c)"

definition kisprint :: "int \<Rightarrow> bool" where
  "kisprint c \<longleftrightarrow> c = 32 \<or> kisgraph c"

definition white_space_chars :: "int list" where
  "white_space_chars = [32, 12, 10, 13, 9, 11]"

definition kisspace :: "int \<Rightarrow> bool" where
  "kisspace c \<longleftrightarrow> list_ex (\<lambda>w. c = w) white_space_chars"

definition kisxdigit :: "int \<Rightarrow> bool" where
  "kisxdigit c =
     (if 48 \<le> c \<and> c \<le> 57 then True
      else if 97 \<le> c \<and> c \<le> 102 then True
      else 65 \<le> c \<and> c \<le> 70)"

definition ktolower :: "int \<Rightarrow> int" where
  "ktolower c = (if \<not> kisupper c then c else c + (97 - 65))"

definition ktoupper :: "int \<Rightarrow> int" where
  "ktoupper c = (if \<not> kislower c then c else c - (97 - 65))"

lemmas ctype_defs = kisdigit_def kislower_def kisupper_def kisalpha_def kisalnum_def kisblank_def
  kiscntrl_def kispunct_def kisgraph_def kisprint_def white_space_chars_def kisspace_def
  kisxdigit_def ktolower_def ktoupper_def

section \<open>string/: bytes in memory\<close>

function kmemset_loop :: "u8 list \<Rightarrow> u8 \<Rightarrow> size_t \<Rightarrow> size_t \<Rightarrow> u8 list kres" where
  "kmemset_loop data val i len =
     (if i < len
      then kdefined (unat i < length data)
             (kmemset_loop (data[unat i := val]) val (i + 1) len)
      else Inr data)"
  by pat_completeness auto

termination
  by (relation "measure (\<lambda>(data, val, i, len). unat len - unat i)")
     (use size_t_loop_measure in force)+

definition kmemset :: "u8 list \<Rightarrow> int \<Rightarrow> size_t \<Rightarrow> u8 list kres" where
  "kmemset data val len = kmemset_loop data (of_int val) 0 len"

function kmemcpy_loop :: "u8 list \<Rightarrow> u8 list \<Rightarrow> size_t \<Rightarrow> size_t \<Rightarrow> u8 list kres" where
  "kmemcpy_loop dest src i n =
     (if i < n
      then kdefined (unat i < length dest \<and> unat i < length src)
             (kmemcpy_loop (dest[unat i := src ! unat i]) src (i + 1) n)
      else Inr dest)"
  by pat_completeness auto
termination
  by (relation "measure (\<lambda>(dest, src, i, n). unat n - unat i)")
     (use size_t_loop_measure in force)+

definition kmemcpy :: "u8 list \<Rightarrow> u8 list \<Rightarrow> size_t \<Rightarrow> u8 list kres" where
  "kmemcpy dest src n = kmemcpy_loop dest src 0 n"

declare kmemset_loop.simps [simp del] kmemcpy_loop.simps [simp del]

fun kstrlen_loop :: "u8 list \<Rightarrow> size_t \<Rightarrow> size_t kres" where
  "kstrlen_loop [] i = Inl Undef"
| "kstrlen_loop (c # str) i = (if c \<noteq> 0 then kstrlen_loop str (i + 1) else Inr i)"

definition kstrlen :: "u8 list \<Rightarrow> size_t kres" where
  "kstrlen str = kstrlen_loop str 0"

text \<open>\<open>char\<close> is signed on i686, so \<open>*s == c\<close> compares the sign-extended byte; the result is the
  rest of the string from the matching byte on, \<open>None\<close> for \<open>NULL\<close>.\<close>

fun kstrchr :: "u8 list \<Rightarrow> int \<Rightarrow> u8 list option kres" where
  "kstrchr [] c = Inl Undef"
| "kstrchr (x # s) c =
     (if x \<noteq> 0 then if sint x = c then Inr (Some (x # s)) else kstrchr s c else Inr None)"

fun kstrcmp :: "u8 list \<Rightarrow> u8 list \<Rightarrow> int kres" where
  "kstrcmp (l # lhs) (r # rhs) =
     (if l \<noteq> 0 \<and> l = r then kstrcmp lhs rhs else Inr (uint l - uint r))"
| "kstrcmp _ _ = Inl Undef"

function kstrncmp :: "u8 list \<Rightarrow> u8 list \<Rightarrow> size_t \<Rightarrow> int kres" where
  "kstrncmp (l # lhs) (r # rhs) n =
     (if n > 0 \<and> l \<noteq> 0 \<and> l = r then kstrncmp lhs rhs (n - 1) else Inr (uint l - uint r))"
| "kstrncmp [] rhs n = Inl Undef"
| "kstrncmp (l # lhs) [] n = Inl Undef"
  by pat_completeness auto
termination by (relation "measure (\<lambda>(lhs, rhs, n). length lhs)") auto

section \<open>Lemmas\<close>

lemma kmemset_loop_eq:
  "unat i \<le> unat len \<Longrightarrow> unat i \<le> length data \<Longrightarrow>
   kmemset_loop data val i len =
     (if unat len \<le> length data
      then Inr (take (unat i) data @ replicate (unat len - unat i) val @ drop (unat len) data)
      else Inl Undef)"
proof (induction data val i len rule: kmemset_loop.induct)
  case (1 data val i len)
  show ?case
  proof (cases "i < len")
    case True
    note s = size_t_loop_measure [OF True]
    show ?thesis
    proof (cases "unat i < length data")
      case in_range: True
      obtain m where m: "unat len - unat i = Suc m" "unat len - Suc (unat i) = m"
        using s by (cases "unat len - unat i") auto
      have "take (Suc (unat i)) (data[unat i := val]) = take (unat i) data @ [val]"
        using in_range by (simp add: take_Suc_conv_app_nth)
      moreover have "drop (unat len) (data[unat i := val]) = drop (unat len) data"
        using s by simp
      ultimately show ?thesis
        using 1 True in_range s m by (subst kmemset_loop.simps) simp
    next
      case False
      then show ?thesis using True s by (subst kmemset_loop.simps) simp
    qed
  next
    case False
    then have "unat i = unat len" using 1(2) by (simp add: word_less_nat_alt)
    then show ?thesis using False 1 by (subst kmemset_loop.simps) simp
  qed
qed

lemma kmemset_eq:
  "kmemset data val len =
     (if unat len \<le> length data
      then Inr (replicate (unat len) (of_int val) @ drop (unat len) data) else Inl Undef)"
  by (simp add: kmemset_def kmemset_loop_eq)

lemma kmemcpy_loop_eq:
  "unat i \<le> unat n \<Longrightarrow> unat i \<le> length dest \<Longrightarrow> unat i \<le> length src \<Longrightarrow>
   kmemcpy_loop dest src i n =
     (if unat n \<le> length dest \<and> unat n \<le> length src
      then Inr (take (unat i) dest @ drop (unat i) (take (unat n) src) @ drop (unat n) dest)
      else Inl Undef)"
proof (induction dest src i n rule: kmemcpy_loop.induct)
  case (1 dest src i n)
  show ?case
  proof (cases "i < n")
    case True
    note s = size_t_loop_measure [OF True]
    show ?thesis
    proof (cases "unat i < length dest \<and> unat i < length src")
      case in_range: True
      let ?d = "dest[unat i := src ! unat i]"
      have t: "take (Suc (unat i)) ?d = take (unat i) dest @ [src ! unat i]"
        using in_range by (simp add: take_Suc_conv_app_nth)
      have "drop (unat n) ?d = drop (unat n) dest" using s by simp
      moreover have "drop (unat i) (take (unat n) src)
          = src ! unat i # drop (Suc (unat i)) (take (unat n) src)"
        if "unat n \<le> length src"
        using in_range s that by (subst Cons_nth_drop_Suc [symmetric]) auto
      ultimately show ?thesis
        using 1 True in_range s t by (subst kmemcpy_loop.simps) auto
    next
      case False
      then show ?thesis using True s by (subst kmemcpy_loop.simps) auto
    qed
  next
    case False
    then have "unat i = unat n" using 1(2) by (simp add: word_less_nat_alt)
    then show ?thesis using False 1 by (subst kmemcpy_loop.simps) auto
  qed
qed

lemma kmemcpy_eq:
  "kmemcpy dest src n =
     (if unat n \<le> length dest \<and> unat n \<le> length src
      then Inr (take (unat n) src @ drop (unat n) dest) else Inl Undef)"
  by (simp add: kmemcpy_def kmemcpy_loop_eq)

text \<open>A C string is its bytes up to the terminating zero.\<close>

definition cstring :: "u8 list \<Rightarrow> u8 list \<Rightarrow> bool" where
  "cstring buf s \<longleftrightarrow> 0 \<notin> set s \<and> (\<exists>rest. buf = s @ 0 # rest)"

lemma cstring_Cons [simp]:
  "cstring (x # buf) (y # s) \<longleftrightarrow> x = y \<and> y \<noteq> 0 \<and> cstring buf s"
  "cstring (x # buf) [] \<longleftrightarrow> x = 0" "\<not> cstring [] s"
  by (auto simp: cstring_def)

lemma kstrlen_loop_cstring:
  "cstring buf s \<Longrightarrow> kstrlen_loop buf i = Inr (i + of_nat (length s))"
proof (induction s arbitrary: buf i)
  case Nil
  then show ?case by (cases buf) auto
next
  case (Cons x s)
  then obtain b where "buf = x # b" "x \<noteq> 0" "cstring b s" by (cases buf) auto
  then show ?case using Cons.IH [of b "i + 1"] by simp
qed

lemma kstrlen_cstring: "cstring buf s \<Longrightarrow> kstrlen buf = Inr (of_nat (length s))"
  by (simp add: kstrlen_def kstrlen_loop_cstring)

lemma kstrcmp_cstring:
  assumes "cstring a s" and "cstring b t"
  obtains d where "kstrcmp a b = Inr d" "d = 0 \<longleftrightarrow> s = t" "d < 0 \<longleftrightarrow> (s, t) \<in> lexord {(x, y). x < y}"
proof -
  have "\<exists>d. kstrcmp a b = Inr d \<and> (d = 0 \<longleftrightarrow> s = t) \<and> (d < 0 \<longleftrightarrow> (s, t) \<in> lexord {(x, y). x < y})"
    using assms
  proof (induction s arbitrary: a b t)
    case Nil
    then obtain a' where a: "a = 0 # a'" by (cases a) auto
    show ?case
      using Nil a by (cases t; cases b) (auto simp: word_less_def uint_0_eq word_neq_0_conv)
  next
    case (Cons x s)
    then obtain a' where a: "a = x # a'" "x \<noteq> 0" "cstring a' s" by (cases a) auto
    show ?case
    proof (cases t)
      case Nil
      then obtain b' where "b = 0 # b'" using Cons by (cases b) auto
      moreover have "uint x > 0" using a(2) by (metis uint_0_iff uint_ge_0 order_le_less)
      ultimately show ?thesis using a Nil by auto
    next
      case t: (Cons y t')
      then obtain b' where b: "b = y # b'" "y \<noteq> 0" "cstring b' t'" using Cons by (cases b) auto
      show ?thesis
        using Cons.IH [OF a(3) b(3)] a b t
        by (cases "x = y") (auto simp: word_less_def word_uint_eq_iff)
    qed
  qed
  then show ?thesis using that by blast
qed

end
