(* ===== verification/Bitmap.thy ===== *)
theory Bitmap
  imports Cstd
begin

unbundle bit_operations_syntax

text \<open>
  kernel/lib/ds/bitmap.c: bitmaps over 32-bit words. The field \<open>bitsets\<close> of the record is the
  memory the pointer of that name reaches, word by word, so it may be longer than the
  \<open>sets_count\<close> words in use. A structure passed by address is passed and returned by value:
  the asserts that its address is not \<open>NULL\<close> hold by construction.
\<close>

record bitmap =
  bitsets :: "u32 list"
  sets_count :: size_t
  bm_length :: size_t

section \<open>Words as bytes\<close>

text \<open>\<open>kmemset\<close> writes bytes; i686 is little-endian.\<close>

definition word_bytes :: "u32 \<Rightarrow> u8 list" where
  "word_bytes w = map (\<lambda>k. ucast (drop_bit (8 * k) w)) [0..<4]"

definition bytes_word :: "u8 \<Rightarrow> u8 \<Rightarrow> u8 \<Rightarrow> u8 \<Rightarrow> u32" where
  "bytes_word a b c d =
     ucast a OR push_bit 8 (ucast b) OR push_bit 16 (ucast c) OR push_bit 24 (ucast d)"

definition words_bytes :: "u32 list \<Rightarrow> u8 list" where
  "words_bytes ws = concat (map word_bytes ws)"

fun bytes_words :: "u8 list \<Rightarrow> u32 list" where
  "bytes_words (a # b # c # d # bs) = bytes_word a b c d # bytes_words bs"
| "bytes_words bs = []"

definition memset_words :: "u32 list \<Rightarrow> size_t \<Rightarrow> int \<Rightarrow> size_t \<Rightarrow> u32 list kres" where
  "memset_words ws ofs val len =
     kdefined (unat ofs \<le> length ws)
       (kbind (kmemset (drop (4 * unat ofs) (words_bytes ws)) val len)
          (\<lambda>bs. Inr (bytes_words (take (4 * unat ofs) (words_bytes ws) @ bs))))"

section \<open>Operations\<close>

abbreviation BITS_IN_SET :: size_t where
  "BITS_IN_SET \<equiv> 32"

definition get_indices :: "size_t \<Rightarrow> size_t \<times> size_t" where
  "get_indices index = (index div BITS_IN_SET, index mod BITS_IN_SET)"

definition assert_bounds :: "bitmap \<Rightarrow> size_t \<Rightarrow> size_t \<Rightarrow> 'a kres \<Rightarrow> 'a kres" where
  "assert_bounds bm bitset_ndx bitndx k =
     kassert (bitset_ndx * BITS_IN_SET + bitndx < bm_length bm) k"

definition bitmap_get :: "bitmap \<Rightarrow> size_t \<Rightarrow> bool kres" where
  "bitmap_get bm index = (let (bitset_ndx, bitndx) = get_indices index in
     assert_bounds bm bitset_ndx bitndx
       (kdefined (unat bitset_ndx < length (bitsets bm))
         (Inr (bitsets bm ! unat bitset_ndx AND push_bit (unat bitndx) 1 \<noteq> 0))))"

definition bitmap_set_true :: "bitmap \<Rightarrow> size_t \<Rightarrow> bitmap kres" where
  "bitmap_set_true bm index = (let (bitset_ndx, bitndx) = get_indices index in
     assert_bounds bm bitset_ndx bitndx
       (kdefined (unat bitset_ndx < length (bitsets bm))
         (Inr (bm\<lparr>bitsets := (bitsets bm)[unat bitset_ndx :=
            bitsets bm ! unat bitset_ndx OR push_bit (unat bitndx) 1]\<rparr>))))"

definition bitmap_set_false :: "bitmap \<Rightarrow> size_t \<Rightarrow> bitmap kres" where
  "bitmap_set_false bm index = (let (bitset_ndx, bitndx) = get_indices index in
     assert_bounds bm bitset_ndx bitndx
       (kdefined (unat bitset_ndx < length (bitsets bm))
         (Inr (bm\<lparr>bitsets := (bitsets bm)[unat bitset_ndx :=
            bitsets bm ! unat bitset_ndx AND NOT (push_bit (unat bitndx) 1)]\<rparr>))))"

text \<open>
  The search loop of \<open>bitmap_search_false\<close>: the first word with a zero bit. The result of the
  search is \<open>Some\<close> of \<open>*result\<close> when it returns true.
\<close>

function bitmap_find_word :: "bitmap \<Rightarrow> size_t \<Rightarrow> size_t option kres" where
  "bitmap_find_word bm i =
     (if i < sets_count bm
      then kdefined (unat i < length (bitsets bm))
             (if bitsets bm ! unat i \<noteq> NOT 0 then Inr (Some i) else bitmap_find_word bm (i + 1))
      else Inr None)"
  by pat_completeness auto
termination
  by (relation "measure (\<lambda>(bm, i). unat (sets_count bm) - unat i)")
     (use size_t_loop_measure in force)+

declare bitmap_find_word.simps [simp del]

definition bitmap_search_false :: "bitmap \<Rightarrow> size_t option kres" where
  "bitmap_search_false bm =
     kbind (bitmap_find_word bm 0) (\<lambda>found. case found of
       None \<Rightarrow> Inr None
     | Some word_ndx \<Rightarrow>
         let bit_rel_ndx = find_first_zero (bitsets bm ! unat word_ndx);
             bit_abs_ndx = word_ndx * BITS_IN_SET + bit_rel_ndx
         in if bit_abs_ndx < bm_length bm then Inr (Some bit_abs_ndx) else Inr None)"

definition bitmap_predict_size :: "size_t \<Rightarrow> size_t kres" where
  "bitmap_predict_size length_bits =
     kassert (length_bits > 0) (Inr (align_roundup length_bits BITS_IN_SET div 8))"

text \<open>\<open>space\<close> is the address of the memory, \<open>mem\<close> the words found there.\<close>

definition bitmap_init :: "addr \<Rightarrow> u32 list \<Rightarrow> size_t \<Rightarrow> bitmap kres" where
  "bitmap_init space mem length_bits =
     kassert (space \<noteq> NULL)
    (kassert (length_bits > 0)
    (let count = div_ceil length_bits BITS_IN_SET in
     kbind (memset_words mem 0 0 (count * 4)) (\<lambda>ws.
       Inr \<lparr>bitsets = ws, sets_count = count, bm_length = length_bits\<rparr>)))"

definition bitmap_resize :: "bitmap \<Rightarrow> size_t \<Rightarrow> bitmap kres" where
  "bitmap_resize bm new_length_bits =
     kassert (new_length_bits > 0)
    (let old_sets_count = sets_count bm;
         bm' = bm\<lparr>bm_length := new_length_bits,
                   sets_count := div_ceil new_length_bits BITS_IN_SET\<rparr>;
         sets_count_diff = sets_count bm' - old_sets_count
     in if sets_count_diff > 0
        then kbind (memset_words (bitsets bm') old_sets_count 0 sets_count_diff)
               (\<lambda>ws. Inr (bm'\<lparr>bitsets := ws\<rparr>))
        else Inr bm')"

section \<open>The bits a bitmap holds\<close>

definition bitmap_wf :: "bitmap \<Rightarrow> bool" where
  "bitmap_wf bm \<longleftrightarrow> 0 < bm_length bm \<and> unat (bm_length bm) + 31 < 4294967296 \<and>
     sets_count bm = div_ceil (bm_length bm) BITS_IN_SET \<and>
     unat (sets_count bm) \<le> length (bitsets bm)"

definition bitmap_bits :: "bitmap \<Rightarrow> bool list" where
  "bitmap_bits bm =
     map (\<lambda>i. bit (bitsets bm ! (i div 32)) (i mod 32)) [0..<unat (bm_length bm)]"

lemma bitmap_bits_length [simp]: "length (bitmap_bits bm) = unat (bm_length bm)"
  by (simp add: bitmap_bits_def)

lemma bitmap_bits_nth:
  "i < unat (bm_length bm) \<Longrightarrow>
   bitmap_bits bm ! i = bit (bitsets bm ! (i div 32)) (i mod 32)"
  by (simp add: bitmap_bits_def)

lemma bitmap_wf_count:
  assumes "bitmap_wf bm"
  shows "unat (sets_count bm) = (unat (bm_length bm) + 31) div 32"
    and "i < unat (bm_length bm) \<Longrightarrow> i div 32 < unat (sets_count bm)"
    and "i < unat (bm_length bm) \<Longrightarrow> i div 32 < length (bitsets bm)"
proof -
  show c: "unat (sets_count bm) = (unat (bm_length bm) + 31) div 32"
    using assms by (simp add: bitmap_wf_def unat_div_ceil)
  show "i < unat (bm_length bm) \<Longrightarrow> i div 32 < unat (sets_count bm)" unfolding c by auto
  then show "i < unat (bm_length bm) \<Longrightarrow> i div 32 < length (bitsets bm)"
    using assms by (auto simp: bitmap_wf_def)
qed

lemma index_words:
  "unat (index div 32 :: size_t) = unat index div 32"
  "unat (index mod 32 :: size_t) = unat index mod 32"
  "index div 32 * 32 + index mod 32 = (index :: size_t)"
  by (simp_all add: unat_div unat_mod) (rule div_mult_mod_eq)

lemma word_and_single: "(w :: u32) AND 2 ^ k \<noteq> 0 \<longleftrightarrow> bit w k"
  using bit_imp_le_length [of w k] by (auto simp: bit_eq_iff [of "w AND 2 ^ k" 0] bit_simps)

lemma bitmap_get_bits:
  assumes "bitmap_wf bm"
  shows "bitmap_get bm i =
    (if unat i < unat (bm_length bm) then Inr (bitmap_bits bm ! unat i) else Inl Kassert)"
  using bitmap_wf_count(3) [OF assms, of "unat i"]
  by (simp add: bitmap_get_def get_indices_def assert_bounds_def index_words word_and_single
      bitmap_bits_nth word_less_nat_alt)

lemma div_mod_32_eq: "(i :: nat) div 32 = j div 32 \<Longrightarrow> i mod 32 = j mod 32 \<Longrightarrow> i = j"
  by (metis div_mult_mod_eq)

lemma bitmap_set_true_bits:
  assumes "bitmap_wf bm" and "unat i < unat (bm_length bm)"
  obtains bm' where "bitmap_set_true bm i = Inr bm'" "bitmap_wf bm'"
    "bitmap_bits bm' = (bitmap_bits bm)[unat i := True]" "bm_length bm' = bm_length bm"
proof -
  let ?w = "unat i div 32" and ?b = "unat i mod 32"
  let ?bm = "bm\<lparr>bitsets := (bitsets bm)[?w := bitsets bm ! ?w OR push_bit ?b 1]\<rparr>"
  note len = bitmap_wf_count(3) [OF assms(1)]
  have "bitmap_set_true bm i = Inr ?bm"
    using assms len [of "unat i"]
    by (simp add: bitmap_set_true_def get_indices_def assert_bounds_def index_words
        word_less_nat_alt)
  moreover have "bitmap_wf ?bm" using assms(1) by (auto simp: bitmap_wf_def)
  moreover have "bitmap_bits ?bm = (bitmap_bits bm)[unat i := True]"
    using assms(2) len
    by (intro nth_equalityI)
       (auto simp: bitmap_bits_nth nth_list_update bit_simps dest: div_mod_32_eq)
  ultimately show ?thesis using that by simp
qed

lemma bitmap_set_false_bits:
  assumes "bitmap_wf bm" and "unat i < unat (bm_length bm)"
  obtains bm' where "bitmap_set_false bm i = Inr bm'" "bitmap_wf bm'"
    "bitmap_bits bm' = (bitmap_bits bm)[unat i := False]" "bm_length bm' = bm_length bm"
proof -
  let ?w = "unat i div 32" and ?b = "unat i mod 32"
  let ?bm = "bm\<lparr>bitsets := (bitsets bm)[?w := bitsets bm ! ?w AND NOT (push_bit ?b 1)]\<rparr>"
  note len = bitmap_wf_count(3) [OF assms(1)]
  have "bitmap_set_false bm i = Inr ?bm"
    using assms len [of "unat i"]
    by (simp add: bitmap_set_false_def get_indices_def assert_bounds_def index_words
        word_less_nat_alt)
  moreover have "bitmap_wf ?bm" using assms(1) by (auto simp: bitmap_wf_def)
  moreover have "bitmap_bits ?bm = (bitmap_bits bm)[unat i := False]"
    using assms(2) len
    by (intro nth_equalityI)
       (auto simp: bitmap_bits_nth nth_list_update bit_simps dest: div_mod_32_eq)
  ultimately show ?thesis using that by simp
qed

lemma bitmap_set_out:
  assumes "unat (bm_length bm) \<le> unat i"
  shows "bitmap_set_true bm i = Inl Kassert" "bitmap_set_false bm i = Inl Kassert"
  using assms
  by (simp_all add: bitmap_set_true_def bitmap_set_false_def get_indices_def assert_bounds_def
      index_words word_less_nat_alt)

section \<open>Initialisation\<close>

lemma word_bytes_length [simp]: "length (word_bytes w) = 4"
  by (simp add: word_bytes_def)

lemma words_bytes_length [simp]: "length (words_bytes ws) = 4 * length ws"
  by (induction ws) (simp_all add: words_bytes_def)

lemma words_bytes_Nil [simp]: "words_bytes [] = []"
  by (simp add: words_bytes_def)

lemma bytes_word_zero [simp]: "bytes_word 0 0 0 0 = 0"
  by (simp add: bytes_word_def)

lemma word_bytes_inverse:
  obtains a b c d where "word_bytes w = [a, b, c, d]" "bytes_word a b c d = w"
proof -
  have "word_bytes w = [ucast w, ucast (drop_bit 8 w), ucast (drop_bit 16 w), ucast (drop_bit 24 w)]"
    by (simp add: word_bytes_def upt_rec)
  moreover have "bytes_word (ucast w) (ucast (drop_bit 8 w)) (ucast (drop_bit 16 w))
      (ucast (drop_bit 24 w)) = w"
    unfolding bytes_word_def
  proof (rule bit_word_eqI)
    fix n
    assume "n < LENGTH(32)"
    then consider "n < 8" | "8 \<le> n" "n < 16" | "16 \<le> n" "n < 24" | "24 \<le> n" "n < 32"
      by fastforce
    then show "bit (ucast (ucast w :: u8) OR push_bit 8 (ucast (ucast (drop_bit 8 w) :: u8)) OR
        push_bit 16 (ucast (ucast (drop_bit 16 w) :: u8)) OR
        push_bit 24 (ucast (ucast (drop_bit 24 w) :: u8)) :: u32) n = bit w n"
      by cases (auto simp: bit_simps)
  qed
  ultimately show ?thesis using that by blast
qed

lemma words_bytes_append: "words_bytes (us @ vs) = words_bytes us @ words_bytes vs"
  by (simp add: words_bytes_def)

lemma bytes_words_append: "bytes_words (words_bytes us @ bs) = us @ bytes_words bs"
proof (induction us)
  case Nil
  then show ?case by (simp add: words_bytes_def)
next
  case (Cons u us)
  obtain a b c d where "word_bytes u = [a, b, c, d]" "bytes_word a b c d = u"
    using word_bytes_inverse .
  then show ?case using Cons by (simp add: words_bytes_def)
qed

lemma bytes_words_inverse [simp]: "bytes_words (words_bytes ws) = ws"
  using bytes_words_append [of ws "[]"] by simp

lemma replicate_zero_bytes: "replicate (4 * n) 0 = words_bytes (replicate n 0)"
proof (induction n)
  case 0
  then show ?case by (simp add: words_bytes_def)
next
  case (Suc n)
  have "replicate (4 * Suc n) (0 :: u8) = [0, 0, 0, 0] @ replicate (4 * n) 0"
    by (simp add: numeral_eq_Suc)
  moreover have "word_bytes 0 = [0, 0, 0, 0]" by (simp add: word_bytes_def upt_rec)
  ultimately show ?case using Suc by (simp add: words_bytes_def)
qed

lemma words_bytes_drop: "drop (4 * n) (words_bytes ws) = words_bytes (drop n ws)"
proof (cases "n \<le> length ws")
  case True
  have "words_bytes ws = words_bytes (take n ws) @ words_bytes (drop n ws)"
    by (simp flip: words_bytes_append)
  then show ?thesis using True by simp
qed simp

lemma words_bytes_take: "take (4 * n) (words_bytes ws) = words_bytes (take n ws)"
proof (cases "n \<le> length ws")
  case True
  have "words_bytes ws = words_bytes (take n ws) @ words_bytes (drop n ws)"
    by (simp flip: words_bytes_append)
  then show ?thesis using True by simp
qed simp

text \<open>Clearing whole words from the start of the memory.\<close>

lemma memset_words_zero:
  assumes "unat len = 4 * n" and "n \<le> length ws"
  shows "memset_words ws 0 0 len = Inr (replicate n 0 @ drop n ws)"
proof -
  have "replicate (unat len) (0 :: u8) @ drop (unat len) (words_bytes ws)
      = words_bytes (replicate n 0 @ drop n ws)"
    by (simp add: assms(1) replicate_zero_bytes words_bytes_drop words_bytes_append)
  moreover have "unat len \<le> length (words_bytes ws)" using assms by simp
  ultimately show ?thesis by (simp add: memset_words_def kmemset_eq)
qed

lemma unat_predict_size:
  assumes "unat n + 31 < 4294967296"
  shows "unat (align_roundup n 32 div 8) = (unat n + 31) div 32 * 4"
proof -
  have "unat (align_roundup n (2 ^ 5)) = (unat n + (2 ^ 5 - 1)) div 2 ^ 5 * 2 ^ 5"
    using assms by (intro unat_align_roundup) simp_all
  then show ?thesis by (simp add: unat_div)
qed

text \<open>Memory of the predicted size is enough, and every bit starts out false.\<close>

lemma bitmap_init_bits:
  assumes "space \<noteq> NULL" and "0 < len" and "unat len + 31 < 4294967296"
    and "bitmap_predict_size len = Inr sz" and "unat sz \<le> 4 * length mem"
  obtains bm where "bitmap_init space mem len = Inr bm" "bitmap_wf bm" "bm_length bm = len"
    "bitmap_bits bm = replicate (unat len) False"
proof -
  let ?n = "(unat len + 31) div 32"
  let ?bm = "\<lparr>bitsets = replicate ?n 0 @ drop ?n mem, sets_count = div_ceil len 32,
               bm_length = len\<rparr>"
  have c: "unat (div_ceil len 32) = ?n" using assms(3) by (simp add: unat_div_ceil)
  have "4 * ?n < 4294967296" using assms(3) by linarith
  then have c4: "unat (div_ceil len 32 * 4) = 4 * ?n" using c by (subst unat_mult32) simp_all
  have n: "?n \<le> length mem"
    using assms(2-5) unat_predict_size [of len] by (simp add: bitmap_predict_size_def)
  have "bitmap_init space mem len = Inr ?bm"
    using assms(1,2) memset_words_zero [OF c4 n] by (simp add: bitmap_init_def)
  moreover have "bitmap_wf ?bm" using assms(2,3) c n by (simp add: bitmap_wf_def)
  moreover have "bitmap_bits ?bm = replicate (unat len) False"
    by (intro nth_equalityI) (auto simp: bitmap_bits_nth nth_append)
  ultimately show ?thesis using that by simp
qed

section \<open>The search\<close>

definition first_free_word :: "bitmap \<Rightarrow> nat \<Rightarrow> size_t option \<Rightarrow> bool" where
  "first_free_word bm i r = (case r of
     None \<Rightarrow> \<forall>w. i \<le> w \<and> w < unat (sets_count bm) \<longrightarrow> bitsets bm ! w = - 1
   | Some k \<Rightarrow> i \<le> unat k \<and> unat k < unat (sets_count bm) \<and> bitsets bm ! unat k \<noteq> - 1 \<and>
       (\<forall>w. i \<le> w \<and> w < unat k \<longrightarrow> bitsets bm ! w = - 1))"

lemma bitmap_find_word_ok:
  assumes "unat (sets_count bm) \<le> length (bitsets bm)" and "unat i \<le> unat (sets_count bm)"
  shows "\<exists>r. bitmap_find_word bm i = Inr r \<and> first_free_word bm (unat i) r"
  using assms
proof (induction bm i rule: bitmap_find_word.induct)
  case (1 bm i)
  show ?case
  proof (cases "i < sets_count bm")
    case False
    then have "unat i = unat (sets_count bm)" using "1.prems" by (simp add: word_less_nat_alt)
    moreover have "bitmap_find_word bm i = Inr None"
      using False by (subst bitmap_find_word.simps) simp
    ultimately show ?thesis by (auto simp: first_free_word_def)
  next
    case True
    note s = size_t_loop_measure [OF True]
    have l: "unat i < length (bitsets bm)" using True s 1 by simp
    show ?thesis
    proof (cases "bitsets bm ! unat i = - 1")
      case False
      then have "bitmap_find_word bm i = Inr (Some i)"
        using True l by (subst bitmap_find_word.simps) simp
      then show ?thesis using False s by (auto simp: first_free_word_def)
    next
      case full: True
      have step: "bitmap_find_word bm i = bitmap_find_word bm (i + 1)"
        using full True l by (subst bitmap_find_word.simps) simp
      have le: "unat i \<le> w \<longleftrightarrow> w = unat i \<or> unat (i + 1) \<le> w" for w using s by auto
      obtain r where "bitmap_find_word bm (i + 1) = Inr r" "first_free_word bm (unat (i + 1)) r"
        using "1.IH" [OF True] l full "1.prems" s by auto
      moreover from this have "first_free_word bm (unat i) r"
        using full by (cases r) (auto simp: first_free_word_def le)
      ultimately show ?thesis unfolding step by blast
    qed
  qed
qed

lemma div_mod_between:
  assumes "j < k * 32 + z" and "\<not> j div 32 < k" and "z < (32 :: nat)"
  shows "j div 32 = k" and "j mod 32 < z"
proof -
  have j: "32 * (j div 32) + j mod 32 = j" by simp
  then show k: "j div 32 = k" using assms by linarith
  show "j mod 32 < z" using j assms(1) unfolding k by linarith
qed

lemma bitmap_search_false_bits:
  assumes "bitmap_wf bm"
  shows "\<exists>r. bitmap_search_false bm = Inr r \<and>
    (case r of
       None \<Rightarrow> \<forall>j < unat (bm_length bm). bitmap_bits bm ! j
     | Some i \<Rightarrow> unat i < unat (bm_length bm) \<and> \<not> bitmap_bits bm ! unat i \<and>
         (\<forall>j < unat i. bitmap_bits bm ! j))"
proof -
  note cnt = bitmap_wf_count [OF assms]
  have "unat (sets_count bm) \<le> length (bitsets bm)" using assms by (auto simp: bitmap_wf_def)
  then obtain r where r: "bitmap_find_word bm 0 = Inr r" "first_free_word bm 0 r"
    using bitmap_find_word_ok [of bm 0] by auto
  show ?thesis
  proof (cases r)
    case None
    then have "bitmap_bits bm ! j" if "j < unat (bm_length bm)" for j
      using r(2) cnt(2) [OF that] that by (simp add: bitmap_bits_nth first_free_word_def)
    then show ?thesis using r(1) None by (simp add: bitmap_search_false_def)
  next
    case (Some k)
    let ?z = "find_first_zero (bitsets bm ! unat k)"
    have k: "unat k < unat (sets_count bm)" "bitsets bm ! unat k \<noteq> - 1"
      "\<And>w. w < unat k \<Longrightarrow> bitsets bm ! w = - 1"
      using r(2) Some by (auto simp: first_free_word_def)
    note z = find_first_zero_least [OF k(2)]
    have b: "unat k * 32 + 32 < 4294967296" using k(1) cnt(1) assms by (auto simp: bitmap_wf_def)
    then have a: "unat (k * 32 + ?z) = unat k * 32 + unat ?z"
      using z(1) by (simp add: unat_add32 unat_mult32)
    have below: "bitmap_bits bm ! j"
      if "j < unat k * 32 + unat ?z" "j < unat (bm_length bm)" for j
    proof (cases "j div 32 < unat k")
      case True
      then show ?thesis using k(3) [OF True] that by (simp add: bitmap_bits_nth)
    next
      case False
      note dm = div_mod_between [OF that(1) False z(1)]
      show ?thesis using z(3) [OF dm(2)] that(2) dm(1) by (simp add: bitmap_bits_nth)
    qed
    show ?thesis
    proof (cases "unat k * 32 + unat ?z < unat (bm_length bm)")
      case True
      moreover from True have "\<not> bitmap_bits bm ! (unat k * 32 + unat ?z)"
        using z(1,2) by (simp add: bitmap_bits_nth)
      ultimately show ?thesis
        using r(1) Some below by (simp add: bitmap_search_false_def word_less_nat_alt a)
    next
      case False
      then show ?thesis
        using r(1) Some below by (simp add: bitmap_search_false_def word_less_nat_alt a)
    qed
  qed
qed

section \<open>Resizing\<close>

text \<open>Bit \<open>j\<close> of a word list is bit \<open>j mod 8\<close> of byte \<open>j div 8\<close>.\<close>

lemma word_bytes_bit:
  assumes "i < 32"
  shows "bit (word_bytes w ! (i div 8)) (i mod 8) = bit w i"
proof -
  have "i div 8 < 4" "8 * (i div 8) + i mod 8 = i" using assms by auto
  then show ?thesis by (simp add: word_bytes_def bit_simps)
qed

lemma words_bytes_nth:
  "w < length ws \<Longrightarrow> b < 4 \<Longrightarrow> words_bytes ws ! (4 * w + b) = word_bytes (ws ! w) ! b"
proof (induction ws arbitrary: w)
  case Nil
  then show ?case by simp
next
  case (Cons x ws)
  have "words_bytes (x # ws) = word_bytes x @ words_bytes ws" by (simp add: words_bytes_def)
  then show ?case using Cons by (cases w) (simp_all add: nth_append)
qed

lemma div_mod_8_32:
  "(j :: nat) div 8 = 4 * (j div 32) + (j mod 32) div 8" "j mod 32 mod 8 = j mod 8"
proof -
  have "j mod (8 * 4) = 8 * (j div 8 mod 4) + j mod 8" by (rule mod_mult2_eq)
  then have "(j mod 32) div 8 = j div 8 mod 4" by simp
  moreover have "j div 32 = j div 8 div 4" by (simp flip: div_mult2_eq)
  ultimately show "j div 8 = 4 * (j div 32) + (j mod 32) div 8" by simp
  show "j mod 32 mod 8 = j mod 8" by (simp add: mod_mod_cancel)
qed

lemma words_bytes_bit:
  assumes "j div 32 < length ws"
  shows "bit (words_bytes ws ! (j div 8)) (j mod 8) = bit (ws ! (j div 32)) (j mod 32)"
proof -
  have "(j mod 32) div 8 < 4" by (simp add: div_less_iff_less_mult)
  then have "words_bytes ws ! (j div 8) = word_bytes (ws ! (j div 32)) ! ((j mod 32) div 8)"
    using assms by (subst div_mod_8_32(1)) (rule words_bytes_nth)
  then show ?thesis using word_bytes_bit [of "j mod 32"] by (simp add: div_mod_8_32(2))
qed

lemma words_bytes_surj: "length bs = 4 * n \<Longrightarrow> words_bytes (bytes_words bs) = bs"
proof (induction n arbitrary: bs)
  case 0
  then show ?case by simp
next
  case (Suc n)
  then have "length bs = Suc (Suc (Suc (Suc (4 * n))))" by simp
  then obtain a b c d bs' where bs: "bs = a # b # c # d # bs'" "length bs' = 4 * n"
    by (auto simp only: length_Suc_conv)
  have hi: "\<not> bit (x :: u8) (k + m)" if "8 \<le> k" for x k m
    using bit_imp_le_length [of x "k + m"] that by auto
  have "word_bytes (bytes_word a b c d) = [a, b, c, d]"
  proof (rule nth_equalityI; simp)
    fix i :: nat
    assume "i < 4"
    then consider "i = 0" | "i = 1" | "i = 2" | "i = 3" by linarith
    then show "word_bytes (bytes_word a b c d) ! i = [a, b, c, d] ! i"
      by cases (auto simp: word_bytes_def bytes_word_def bit_simps hi intro!: bit_word_eqI)
  qed
  then show ?case using Suc.IH [OF bs(2)] bs(1) by (simp add: words_bytes_def)
qed

lemma bytes_words_length: "length bs = 4 * n \<Longrightarrow> length (bytes_words bs) = n"
  using words_bytes_surj [of bs n] words_bytes_length [of "bytes_words bs"] by simp

lemma memset_words_bits:
  assumes "unat ofs \<le> length ws" and "4 * unat ofs + unat len \<le> 4 * length ws"
  obtains ws' where "memset_words ws ofs 0 len = Inr ws'" "length ws' = length ws"
    "\<And>j. j div 32 < length ws \<Longrightarrow> bit (ws' ! (j div 32)) (j mod 32) =
       (if 32 * unat ofs \<le> j \<and> j < 32 * unat ofs + 8 * unat len then False
        else bit (ws ! (j div 32)) (j mod 32))"
proof -
  let ?o = "4 * unat ofs" and ?b = "words_bytes ws"
  let ?bs = "take ?o ?b @ replicate (unat len) 0 @ drop (unat len) (drop ?o ?b)"
  let ?ws = "bytes_words ?bs"
  have n: "length ?bs = 4 * length ws" using assms by simp
  have "memset_words ws ofs 0 len = Inr ?ws"
    using assms by (simp add: memset_words_def kmemset_eq)
  moreover have l: "length ?ws = length ws" by (rule bytes_words_length [OF n])
  moreover have "bit (?ws ! (j div 32)) (j mod 32) =
       (if 32 * unat ofs \<le> j \<and> j < 32 * unat ofs + 8 * unat len then False
        else bit (ws ! (j div 32)) (j mod 32))" if j: "j div 32 < length ws" for j
  proof -
    have j8: "j div 8 < 4 * length ws" using j by linarith
    have "bit (?ws ! (j div 32)) (j mod 32) = bit (?bs ! (j div 8)) (j mod 8)"
      using words_bytes_bit [of j ?ws] j l words_bytes_surj [OF n] by simp
    moreover have "?bs ! (j div 8) =
        (if ?o \<le> j div 8 \<and> j div 8 < ?o + unat len then 0 else ?b ! (j div 8))"
      using assms j8 by (auto simp: nth_append)
    moreover have "?o \<le> j div 8 \<longleftrightarrow> 32 * unat ofs \<le> j"
      "j div 8 < ?o + unat len \<longleftrightarrow> j < 32 * unat ofs + 8 * unat len"
      by (simp_all add: less_eq_div_iff_mult_less_eq div_less_iff_less_mult algebra_simps)
    ultimately show ?thesis using words_bytes_bit [OF j] by simp
  qed
  ultimately show ?thesis by (rule that)
qed

lemma div_ceil_32:
  "unat n + 31 < 4294967296 \<Longrightarrow> unat (div_ceil n 32) = (unat n + 31) div 32"
  by (simp add: unat_div_ceil)

text \<open>
  Growing a bitmap in place: the new words are \<open>d = new - old\<close>, and \<open>kmemset\<close> is told to clear
  \<open>d\<close> bytes, so only the first \<open>8 * d\<close> of the \<open>32 * d\<close> new bits are sure to be false.
\<close>

lemma bitmap_resize_bits:
  assumes wf: "bitmap_wf bm" and grow: "unat (bm_length bm) \<le> unat n"
    and n: "unat n + 31 < 4294967296" and mem: "unat (div_ceil n 32) \<le> length (bitsets bm)"
  obtains bm' where "bitmap_resize bm n = Inr bm'" "bitmap_wf bm'" "bm_length bm' = n"
    "\<forall>j < unat n. bitmap_bits bm' ! j =
       (if 32 * unat (sets_count bm) \<le> j \<and>
           j < 32 * unat (sets_count bm) + 8 * (unat (div_ceil n 32) - unat (sets_count bm))
        then False else bit (bitsets bm ! (j div 32)) (j mod 32))"
proof -
  let ?o = "sets_count bm" and ?c = "div_ceil n 32"
  have c: "unat ?c = (unat n + 31) div 32" by (rule div_ceil_32 [OF n])
  have o: "unat ?o = (unat (bm_length bm) + 31) div 32" by (rule bitmap_wf_count(1) [OF wf])
  have le: "unat ?o \<le> unat ?c" using grow unfolding c o by (intro div_le_mono) simp
  then have d: "unat (?c - ?o) = unat ?c - unat ?o" by (rule unat_sub32)
  have n0: "0 < n" using wf grow by (auto simp: bitmap_wf_def word_less_nat_alt)
  have in_mem: "j div 32 < length (bitsets bm)" if "j < unat n" for j
    using that mem unfolding c by linarith
  have wf': "bitmap_wf \<lparr>bitsets = ws, sets_count = ?c, bm_length = n\<rparr>"
    if "length ws = length (bitsets bm)" for ws
    using n0 n mem that by (simp add: bitmap_wf_def)
  show ?thesis
  proof (cases "?c - ?o > 0")
    case True
    obtain ws where ws: "memset_words (bitsets bm) ?o 0 (?c - ?o) = Inr ws"
      "length ws = length (bitsets bm)"
      "\<And>j. j div 32 < length (bitsets bm) \<Longrightarrow> bit (ws ! (j div 32)) (j mod 32) =
         (if 32 * unat ?o \<le> j \<and> j < 32 * unat ?o + 8 * unat (?c - ?o) then False
          else bit (bitsets bm ! (j div 32)) (j mod 32))"
      using memset_words_bits [of ?o "bitsets bm" "?c - ?o"] le mem d by auto
    have "bitmap_resize bm n = Inr \<lparr>bitsets = ws, sets_count = ?c, bm_length = n\<rparr>"
      using ws(1) n0 True by (simp add: bitmap_resize_def Let_def)
    then show ?thesis
      by (rule that) (use wf' [OF ws(2)] ws(3) in_mem d in \<open>auto simp: bitmap_bits_nth\<close>)
  next
    case False
    then have eq: "?c = ?o" by (simp add: word_gt_0)
    have "bitmap_resize bm n = Inr \<lparr>bitsets = bitsets bm, sets_count = ?c, bm_length = n\<rparr>"
      using n0 False by (simp add: bitmap_resize_def Let_def)
    then show ?thesis
      by (rule that) (use wf' eq in \<open>auto simp: bitmap_bits_nth\<close>)
  qed
qed

text \<open>Shrinking by at least a word: the difference wraps and \<open>kmemset\<close> runs off the memory.\<close>

lemma exp_32_nat: "2 ^ LENGTH(32) = (4294967296 :: nat)"
  by simp

lemma mod_add_complement:
  fixes a b m :: nat
  assumes "(a + b) mod m = 0" and "a < m" and "b < m" and "0 < b"
  shows "a = m - b"
proof (cases "a + b < m")
  case False
  then have "(a + b - m) mod m = 0" using assms(1) by (simp add: le_mod_geq)
  moreover have "a + b - m < m" using assms(2,3) False by linarith
  ultimately show ?thesis using False assms(2,3) by simp
qed (use assms in simp)

lemma bitmap_resize_shrink:
  assumes "0 < n" and "unat n + 31 < 4294967296" and "unat (div_ceil n 32) < unat (sets_count bm)"
    and mem: "4 * length (bitsets bm) < 4294967296 - unat (sets_count bm)"
  shows "bitmap_resize bm n = Inl Undef"
proof -
  let ?o = "sets_count bm" and ?c = "div_ceil n 32"
  have oc: "unat (?o - ?c) = unat ?o - unat ?c" using assms(3) by (intro unat_sub32) simp
  have "(?c - ?o) + (?o - ?c) = 0" by simp
  then have "(unat (?c - ?o) + unat (?o - ?c)) mod 4294967296 = 0"
    by (metis unat_0 unat_word_ariths(1) exp_32_nat)
  then have "unat (?c - ?o) = 4294967296 - unat (?o - ?c)"
    using unat_lt32 unat_lt32 by (rule mod_add_complement) (use assms(3) oc in simp)
  then have d: "unat (?c - ?o) = 4294967296 - (unat ?o - unat ?c)" using oc by simp
  have nz: "0 < ?c - ?o" using assms(3) by (auto simp: word_gt_0)
  have "4 * length (bitsets bm) - 4 * unat ?o < unat (?c - ?o)" using mem d by linarith
  then have "memset_words (bitsets bm) ?o 0 (?c - ?o) = Inl Undef"
    by (simp add: memset_words_def kmemset_eq kdefined_def)
  then show ?thesis using nz assms(1) by (simp add: bitmap_resize_def Let_def)
qed

section \<open>The interface other components use\<close>

text \<open>
  A client (the buddy manager, the index bitmaps of the video console) sees an array of bits
  of fixed length, with bounds-checked access and a search for the least false bit.
\<close>

locale bit_array =
  fixes wf :: "'s \<Rightarrow> bool"
    and bits :: "'s \<Rightarrow> bool list"
    and get :: "'s \<Rightarrow> size_t \<Rightarrow> bool kres"
    and set_true :: "'s \<Rightarrow> size_t \<Rightarrow> 's kres"
    and set_false :: "'s \<Rightarrow> size_t \<Rightarrow> 's kres"
    and search :: "'s \<Rightarrow> size_t option kres"
  assumes get_law: "wf s \<Longrightarrow>
      get s i = (if unat i < length (bits s) then Inr (bits s ! unat i) else Inl Kassert)"
    and set_true_law: "wf s \<Longrightarrow> unat i < length (bits s) \<Longrightarrow>
      \<exists>s'. set_true s i = Inr s' \<and> wf s' \<and> bits s' = (bits s)[unat i := True]"
    and set_false_law: "wf s \<Longrightarrow> unat i < length (bits s) \<Longrightarrow>
      \<exists>s'. set_false s i = Inr s' \<and> wf s' \<and> bits s' = (bits s)[unat i := False]"
    and set_out_law: "wf s \<Longrightarrow> length (bits s) \<le> unat i \<Longrightarrow>
      set_true s i = Inl Kassert \<and> set_false s i = Inl Kassert"
    and search_law: "wf s \<Longrightarrow> \<exists>r. search s = Inr r \<and>
      (case r of
         None \<Rightarrow> \<forall>j < length (bits s). bits s ! j
       | Some i \<Rightarrow> unat i < length (bits s) \<and> \<not> bits s ! unat i \<and> (\<forall>j < unat i. bits s ! j))"
begin

lemma get_set_true:
  assumes "wf s" "unat i < length (bits s)" "set_true s i = Inr s'"
  shows "get s' k = (if k = i then Inr True else get s k)"
proof -
  obtain s2 where "set_true s i = Inr s2" "wf s2" "bits s2 = (bits s)[unat i := True]"
    using set_true_law [OF assms(1,2)] by blast
  then show ?thesis
    using assms get_law [of s k] get_law [of s2 k]
    by (auto simp: nth_list_update dest: word32_eqI)
qed

lemma get_set_false:
  assumes "wf s" "unat i < length (bits s)" "set_false s i = Inr s'"
  shows "get s' k = (if k = i then Inr False else get s k)"
proof -
  obtain s2 where "set_false s i = Inr s2" "wf s2" "bits s2 = (bits s)[unat i := False]"
    using set_false_law [OF assms(1,2)] by blast
  then show ?thesis
    using assms get_law [of s k] get_law [of s2 k]
    by (auto simp: nth_list_update dest: word32_eqI)
qed

text \<open>The search finds a free bit exactly when there is one.\<close>

lemma search_None_iff:
  assumes "wf s"
  shows "search s = Inr None \<longleftrightarrow> False \<notin> set (bits s)"
proof -
  obtain r where r: "search s = Inr r" and c: "case r of
         None \<Rightarrow> \<forall>j < length (bits s). bits s ! j
       | Some i \<Rightarrow> unat i < length (bits s) \<and> \<not> bits s ! unat i \<and> (\<forall>j < unat i. bits s ! j)"
    using search_law [OF assms] by blast
  show ?thesis
  proof (cases r)
    case None
    then show ?thesis using r c by (auto simp: in_set_conv_nth)
  next
    case (Some i)
    then have "unat i < length (bits s)" "\<not> bits s ! unat i" using c by simp_all
    then have "False \<in> set (bits s)" by (metis nth_mem)
    then show ?thesis using r Some by simp
  qed
qed

lemma search_Some:
  assumes "wf s" and "False \<in> set (bits s)"
  obtains i where "search s = Inr (Some i)" "unat i < length (bits s)" "\<not> bits s ! unat i"
    "\<forall>j < unat i. bits s ! j"
proof -
  obtain r where r: "search s = Inr r" and c: "case r of
         None \<Rightarrow> \<forall>j < length (bits s). bits s ! j
       | Some i \<Rightarrow> unat i < length (bits s) \<and> \<not> bits s ! unat i \<and> (\<forall>j < unat i. bits s ! j)"
    using search_law [OF assms(1)] by blast
  moreover have "r \<noteq> None"
  proof
    assume "r = None"
    then show False using r assms search_None_iff [OF assms(1)] by simp
  qed
  ultimately show ?thesis using that by auto
qed

end

interpretation bma: bit_array bitmap_wf bitmap_bits bitmap_get bitmap_set_true
  bitmap_set_false bitmap_search_false
proof
  fix s :: bitmap and i :: size_t
  assume wf: "bitmap_wf s"
  show "bitmap_get s i =
      (if unat i < length (bitmap_bits s) then Inr (bitmap_bits s ! unat i) else Inl Kassert)"
    using bitmap_get_bits [OF wf] by simp
  show "\<exists>s'. bitmap_set_true s i = Inr s' \<and> bitmap_wf s' \<and>
      bitmap_bits s' = (bitmap_bits s)[unat i := True]" if "unat i < length (bitmap_bits s)"
    using bitmap_set_true_bits [OF wf] that by (metis bitmap_bits_length)
  show "\<exists>s'. bitmap_set_false s i = Inr s' \<and> bitmap_wf s' \<and>
      bitmap_bits s' = (bitmap_bits s)[unat i := False]" if "unat i < length (bitmap_bits s)"
    using bitmap_set_false_bits [OF wf] that by (metis bitmap_bits_length)
  show "bitmap_set_true s i = Inl Kassert \<and> bitmap_set_false s i = Inl Kassert"
    if "length (bitmap_bits s) \<le> unat i"
    using bitmap_set_out [of s i] that by simp
  show "\<exists>r. bitmap_search_false s = Inr r \<and>
      (case r of
         None \<Rightarrow> \<forall>j < length (bitmap_bits s). bitmap_bits s ! j
       | Some i \<Rightarrow> unat i < length (bitmap_bits s) \<and> \<not> bitmap_bits s ! unat i \<and>
           (\<forall>j < unat i. bitmap_bits s ! j))"
    using bitmap_search_false_bits [OF wf] unfolding bitmap_bits_length .
qed

section \<open>Properties\<close>

text \<open>\<open>bitmap_init\<close>, given the memory \<open>bitmap_predict_size\<close> asks for, makes a well-formed
  bitmap of the requested length in which every bit reads as false, whatever the memory held.\<close>

theorem bitmap_init_all_false:
  assumes "space \<noteq> NULL" and "0 < len" and "unat len + 31 < 4294967296"
    and "bitmap_predict_size len = Inr sz" and "unat sz \<le> 4 * length mem"
  shows "\<exists>bm. bitmap_init space mem len = Inr bm \<and> bitmap_wf bm \<and> bm_length bm = len \<and>
    (\<forall>i. bitmap_get bm i = (if i < len then Inr False else Inl Kassert))"
  using bitmap_init_bits [OF assms]
  by (metis bitmap_bits_length bma.get_law nth_replicate word_less_nat_alt)

theorem bitmap_init_all_false_witness:
  "\<exists>bm. bitmap_init 0x1000 [0xFFFFFFFF, 7] 40 = Inr bm \<and> bitmap_wf bm \<and> bm_length bm = 40 \<and>
    (\<forall>i. bitmap_get bm i = (if i < 40 then Inr False else Inl Kassert))"
  by (rule bitmap_init_all_false [where sz = 8])
     (simp_all add: bitmap_predict_size_def align_roundup_def)

text \<open>On a well-formed bitmap \<open>bitmap_search_false\<close> returns the least index whose bit is
  false, and returns false exactly when every bit of the bitmap is set.\<close>

theorem bitmap_search_false_least:
  assumes "bitmap_wf bm"
  shows "(bitmap_search_false bm = Inr None \<and> (\<forall>i < bm_length bm. bitmap_get bm i = Inr True)) \<or>
    (\<exists>i. bitmap_search_false bm = Inr (Some i) \<and> bitmap_get bm i = Inr False \<and>
         (\<forall>j < i. bitmap_get bm j = Inr True))"
proof (cases "False \<in> set (bitmap_bits bm)")
  case True
  obtain i where i: "bitmap_search_false bm = Inr (Some i)" "unat i < length (bitmap_bits bm)"
    "\<not> bitmap_bits bm ! unat i" "\<forall>j < unat i. bitmap_bits bm ! j"
    by (rule bma.search_Some [OF assms True])
  have "bitmap_get bm j = Inr True" if "j < i" for j
    using i(2) i(4) [rule_format, of "unat j"] that bma.get_law [OF assms, of j]
    by (simp add: word_less_nat_alt)
  then show ?thesis using i bma.get_law [OF assms, of i] by auto
next
  case False
  then have "\<forall>i < bm_length bm. bitmap_get bm i = Inr True"
    using bma.get_law [OF assms] by (auto simp: word_less_nat_alt in_set_conv_nth)
  then show ?thesis using False bma.search_None_iff [OF assms] by simp
qed

theorem bitmap_search_false_least_witness:
  "let bm = \<lparr>bitsets = [0xFFFFFFFF, 0x17], sets_count = 2, bm_length = 37\<rparr> in
   (bitmap_search_false bm = Inr None \<and> (\<forall>i < bm_length bm. bitmap_get bm i = Inr True)) \<or>
    (\<exists>i. bitmap_search_false bm = Inr (Some i) \<and> bitmap_get bm i = Inr False \<and>
         (\<forall>j < i. bitmap_get bm j = Inr True))"
  unfolding Let_def
  by (rule bitmap_search_false_least) (simp add: bitmap_wf_def div_ceil_def)

text \<open>\<open>bitmap_set_true\<close> and \<open>bitmap_set_false\<close> keep the bitmap well formed and change the one
  bit they name: a later \<open>bitmap_get\<close> of that index returns what was set, any other index reads
  as before; an index past the end fails the bounds assert of all three.\<close>

theorem bitmap_set_get:
  assumes "bitmap_wf bm"
  shows "if i < bm_length bm
    then \<exists>t f. bitmap_set_true bm i = Inr t \<and> bitmap_wf t \<and>
      bitmap_set_false bm i = Inr f \<and> bitmap_wf f \<and>
      (\<forall>k. bitmap_get t k = (if k = i then Inr True else bitmap_get bm k) \<and>
           bitmap_get f k = (if k = i then Inr False else bitmap_get bm k))
    else bitmap_get bm i = Inl Kassert \<and> bitmap_set_true bm i = Inl Kassert \<and>
      bitmap_set_false bm i = Inl Kassert"
proof (cases "i < bm_length bm")
  case True
  then show ?thesis
    using bma.set_true_law [OF assms, of i] bma.set_false_law [OF assms, of i]
      bma.get_set_true [OF assms, of i] bma.get_set_false [OF assms, of i]
    by (auto simp: word_less_nat_alt)
next
  case False
  then show ?thesis
    using bma.get_law [OF assms, of i] bma.set_out_law [OF assms, of i]
    by (simp add: word_less_nat_alt)
qed

theorem bitmap_set_get_witness:
  "\<exists>t. bitmap_set_true \<lparr>bitsets = [5, 0], sets_count = 2, bm_length = 37\<rparr> 33 = Inr t \<and>
    bitmap_get t 33 = Inr True"
  using bitmap_set_get [of "\<lparr>bitsets = [5, 0], sets_count = 2, bm_length = 37\<rparr>" 33]
  by (auto simp: bitmap_wf_def div_ceil_def)

text \<open>Growing a bitmap in place keeps the old bits, but \<open>bitmap_resize\<close> clears as many bytes
  as it adds words: in the words it adds only the first \<open>8 * d\<close> of the \<open>32 * d\<close> bits are made
  false, and every later bit of the grown bitmap is whatever the memory held before.\<close>

theorem bitmap_resize_stale_bits:
  assumes "bitmap_wf bm" and "unat (bm_length bm) \<le> unat n"
    and "unat n + 31 < 4294967296" and "unat (div_ceil n 32) \<le> length (bitsets bm)"
  shows "\<exists>bm'. bitmap_resize bm n = Inr bm' \<and> bitmap_wf bm' \<and> bm_length bm' = n \<and>
    (\<forall>j < n. bitmap_get bm' j = Inr
       (if 32 * unat (sets_count bm) \<le> unat j \<and> unat j <
           32 * unat (sets_count bm) + 8 * (unat (div_ceil n 32) - unat (sets_count bm))
        then False else bit (bitsets bm ! (unat j div 32)) (unat j mod 32)))"
proof -
  obtain bm' where bm': "bitmap_resize bm n = Inr bm'" "bitmap_wf bm'" "bm_length bm' = n"
    "\<forall>j < unat n. bitmap_bits bm' ! j =
       (if 32 * unat (sets_count bm) \<le> j \<and>
           j < 32 * unat (sets_count bm) + 8 * (unat (div_ceil n 32) - unat (sets_count bm))
        then False else bit (bitsets bm ! (j div 32)) (j mod 32))"
    by (rule bitmap_resize_bits [OF assms])
  then show ?thesis by (simp add: bma.get_law word_less_nat_alt)
qed

theorem bitmap_resize_stale_bits_witness:
  "\<exists>bm'. bitmap_resize \<lparr>bitsets = [0, 0xFFFFFFFF], sets_count = 1, bm_length = 32\<rparr> 64 = Inr bm' \<and>
    bitmap_get bm' 33 = Inr False \<and> bitmap_get bm' 40 = Inr True"
proof -
  let ?bm = "\<lparr>bitsets = [0, 0xFFFFFFFF], sets_count = 1, bm_length = 32\<rparr>"
  have "\<exists>bm'. bitmap_resize ?bm 64 = Inr bm' \<and> bitmap_wf bm' \<and> bm_length bm' = 64 \<and>
    (\<forall>j < 64. bitmap_get bm' j = Inr
       (if 32 * unat (sets_count ?bm) \<le> unat j \<and> unat j <
           32 * unat (sets_count ?bm) + 8 * (unat (div_ceil 64 32) - unat (sets_count ?bm))
        then False else bit (bitsets ?bm ! (unat j div 32)) (unat j mod 32)))"
    by (rule bitmap_resize_stale_bits) (simp_all add: bitmap_wf_def div_ceil_def)
  then obtain bm' where r: "bitmap_resize ?bm 64 = Inr bm'"
    and b: "\<forall>j < 64. bitmap_get bm' j = Inr
       (if 32 * unat (sets_count ?bm) \<le> unat j \<and> unat j <
           32 * unat (sets_count ?bm) + 8 * (unat (div_ceil 64 32) - unat (sets_count ?bm))
        then False else bit (bitsets ?bm ! (unat j div 32)) (unat j mod 32))"
    by blast
  show ?thesis
    using r b [rule_format, of 33] b [rule_format, of 40] by (auto simp: div_ceil_def)
qed

end
