(* ===== verification/Linear.thy ===== *)
theory Linear
  imports Align_Utils
begin

text \<open>
  kernel/lib/mm/linear.c: the allocator that hands out a region from its start. The
  \<open>struct linear_alloc\<close> is passed and returned by value, so the asserts that its address is not
  \<open>NULL\<close> hold by construction; the fields are addresses and wrap like the code's.
\<close>

record linear_alloc =
  base :: addr
  position :: addr
  limit :: addr

definition linear_alloc_init :: "addr \<Rightarrow> size_t \<Rightarrow> linear_alloc kres" where
  "linear_alloc_init mem len =
     kassert (mem \<noteq> NULL)
    (kassert (len > 0)
    (let p = mem in Inr \<lparr>base = p, position = p, limit = p + len\<rparr>))"

definition linear_alloc_alloc :: "linear_alloc \<Rightarrow> size_t \<Rightarrow> addr \<times> linear_alloc" where
  "linear_alloc_alloc a len =
     (let pos = position a in
      if pos + len > limit a then (NULL, a) else (pos, a\<lparr>position := pos + len\<rparr>))"

definition linear_alloc_alloc_aligned ::
    "linear_alloc \<Rightarrow> size_t \<Rightarrow> size_t \<Rightarrow> (addr \<times> linear_alloc) kres" where
  "linear_alloc_alloc_aligned a len align =
     kassert (align > 0)
    (let pos = align_roundup (position a) align in
     if pos + len \<ge> limit a then Inr (NULL, a) else Inr (pos, a\<lparr>position := pos + len\<rparr>))"

definition linear_alloc_free :: "linear_alloc \<Rightarrow> size_t \<Rightarrow> linear_alloc kres" where
  "linear_alloc_free a len =
     (let new_pos = position a - len in
      kassert (new_pos \<ge> base a) (Inr (a\<lparr>position := new_pos\<rparr>)))"

definition linear_alloc_occupied :: "linear_alloc \<Rightarrow> size_t" where
  "linear_alloc_occupied a = position a - base a"

definition linear_forbid_further_alloc :: "linear_alloc \<Rightarrow> linear_alloc" where
  "linear_forbid_further_alloc a = a\<lparr>limit := position a\<rparr>"

definition linear_alloc_used_mem_range :: "linear_alloc \<Rightarrow> addr \<times> addr" where
  "linear_alloc_used_mem_range a = (base a, position a)"

lemmas linear_defs = linear_alloc_init_def linear_alloc_alloc_def linear_alloc_alloc_aligned_def
  linear_alloc_free_def linear_alloc_occupied_def linear_forbid_further_alloc_def
  linear_alloc_used_mem_range_def

section \<open>Well-formed allocators\<close>

definition linear_wf :: "linear_alloc \<Rightarrow> bool" where
  "linear_wf a \<longleftrightarrow> base a \<noteq> NULL \<and> base a \<le> position a \<and> position a \<le> limit a"

definition linear_occ :: "linear_alloc \<Rightarrow> nat" where
  "linear_occ a = unat (position a) - unat (base a)"

definition linear_cap :: "linear_alloc \<Rightarrow> nat" where
  "linear_cap a = unat (limit a) - unat (base a)"

lemma linear_wf_nat:
  assumes "linear_wf a"
  shows "0 < unat (base a)" "unat (base a) \<le> unat (position a)" "unat (position a) \<le> unat (limit a)"
    "linear_occ a \<le> linear_cap a" "unat (position a) = unat (base a) + linear_occ a"
    "unat (limit a) = unat (base a) + linear_cap a"
  using assms by (auto simp: linear_wf_def linear_occ_def linear_cap_def word_le_nat_alt unat_gt_0)

lemma linear_wf_position:
  "linear_wf a \<Longrightarrow> base a \<le> p \<Longrightarrow> p \<le> limit a \<Longrightarrow> linear_wf (a\<lparr>position := p\<rparr>)"
  by (simp add: linear_wf_def)

lemma linear_init_wf:
  assumes "mem \<noteq> NULL" and "0 < len" and "unat mem + unat len < 4294967296"
  obtains a where "linear_alloc_init mem len = Inr a" "linear_wf a" "linear_occ a = 0"
    "linear_cap a = unat len" "base a = mem"
  using assms that [of "\<lparr>base = mem, position = mem, limit = mem + len\<rparr>"]
  by (simp add: linear_alloc_init_def linear_wf_def linear_occ_def linear_cap_def word_le_nat_alt
      unat_add32)

lemma linear_occupied_occ: "linear_wf a \<Longrightarrow> unat (linear_alloc_occupied a) = linear_occ a"
  using linear_wf_nat(2) [of a] by (simp add: linear_alloc_occupied_def linear_occ_def unat_sub32)

lemma linear_alloc_fits:
  assumes "linear_wf a" and "linear_occ a + unat n \<le> linear_cap a"
  obtains a' where "linear_alloc_alloc a n = (position a, a')" "linear_wf a'"
    "linear_occ a' = linear_occ a + unat n" "linear_cap a' = linear_cap a" "base a' = base a"
    "position a \<noteq> NULL" "unat (position a') = unat (position a) + unat n"
proof -
  note w = linear_wf_nat [OF assms(1)]
  have fits: "unat (position a) + unat n \<le> unat (limit a)" using assms(2) w by simp
  then have p: "unat (position a + n) = unat (position a) + unat n"
    using unat_lt32 [of "limit a"] by (intro unat_add32) linarith
  let ?a = "a\<lparr>position := position a + n\<rparr>"
  have "linear_alloc_alloc a n = (position a, ?a)"
    using fits p by (simp add: linear_alloc_alloc_def word_less_nat_alt not_less Let_def)
  moreover have "base a \<le> position a + n" "position a + n \<le> limit a"
    unfolding word_le_nat_alt p using fits w(2) by linarith+
  then have "linear_wf ?a" by (rule linear_wf_position [OF assms(1)])
  moreover have "linear_occ ?a = linear_occ a + unat n" using w(2) p by (simp add: linear_occ_def)
  moreover have "position a \<noteq> NULL" using w by auto
  ultimately show ?thesis using that p by (simp add: linear_cap_def)
qed

lemma linear_alloc_full:
  assumes "linear_wf a" and "linear_cap a < linear_occ a + unat n"
    and "unat (position a) + unat n < 4294967296"
  shows "linear_alloc_alloc a n = (NULL, a)"
proof -
  have "unat (limit a) < unat (position a) + unat n"
    using assms(2) linear_wf_nat [OF assms(1)] by linarith
  then show ?thesis
    using assms(3) by (simp add: linear_alloc_alloc_def word_less_nat_alt unat_add32 Let_def)
qed

lemma linear_aligned_fits:
  assumes "linear_wf a" and k: "k < 32" and "unat (position a) + (2 ^ k - 1) < 4294967296"
    and q: "q = (unat (position a) + (2 ^ k - 1)) div 2 ^ k * 2 ^ k"
    and "q + unat n < unat (limit a)"
  obtains p a' where "linear_alloc_alloc_aligned a n (2 ^ k) = Inr (p, a')" "unat p = q"
    "2 ^ k dvd unat p" "p \<noteq> NULL" "linear_wf a'" "position a \<le> p" "base a' = base a"
    "limit a' = limit a" "unat (position a') = unat p + unat n"
proof -
  note w = linear_wf_nat [OF assms(1)]
  let ?p = "align_roundup (position a) (2 ^ k)"
  have p: "unat ?p = q" using assms(2,3) unfolding q by (rule unat_align_roundup)
  have le: "unat (position a) \<le> q" unfolding q by (rule roundup_nat_least(1)) simp
  have "unat ?p + unat n < 4294967296"
    using assms(5) unat_lt32 [of "limit a"] unfolding p by linarith
  then have pn: "unat (?p + n) = q + unat n" by (simp add: unat_add32 p)
  let ?a = "a\<lparr>position := ?p + n\<rparr>"
  have "linear_alloc_alloc_aligned a n (2 ^ k) = Inr (?p, ?a)"
    using assms(5) pn pow2_word_nz [OF k]
    by (simp add: linear_alloc_alloc_aligned_def word_le_nat_alt not_le word_gt_0 Let_def)
  moreover have "2 ^ k dvd unat ?p" unfolding p q by simp
  moreover have "base a \<le> ?p + n" "?p + n \<le> limit a"
    unfolding word_le_nat_alt pn using assms(5) le w(2) by linarith+
  then have "linear_wf ?a" by (rule linear_wf_position [OF assms(1)])
  moreover have "?p \<noteq> NULL" using p le w by auto
  moreover have "position a \<le> ?p" using p le by (simp add: word_le_nat_alt)
  ultimately show ?thesis using that p pn by simp
qed

section \<open>The interface other components use\<close>

text \<open>
  A client that lays out its data in a region (the buddy manager, the key-value store) asks
  for blocks one after another; the blocks follow each other from the start of the region.
\<close>

locale region_allocator =
  fixes wf :: "'a \<Rightarrow> bool"
    and alloc :: "'a \<Rightarrow> size_t \<Rightarrow> addr \<times> 'a"
    and start :: "'a \<Rightarrow> nat"
    and occ :: "'a \<Rightarrow> nat"
    and cap :: "'a \<Rightarrow> nat"
  assumes bounds_law: "wf a \<Longrightarrow> 0 < start a \<and> occ a \<le> cap a"
    and alloc_law: "wf a \<Longrightarrow> occ a + unat n \<le> cap a \<Longrightarrow>
      \<exists>p a'. alloc a n = (p, a') \<and> unat p = start a + occ a \<and> wf a' \<and> start a' = start a \<and>
        cap a' = cap a \<and> occ a' = occ a + unat n"
begin

lemma alloc_nonnull:
  "wf a \<Longrightarrow> occ a + unat n \<le> cap a \<Longrightarrow> fst (alloc a n) \<noteq> NULL"
  using alloc_law [of a n] bounds_law [of a] by auto

text \<open>Two blocks in a row are adjacent, so neither overlaps the other.\<close>

lemma alloc_twice:
  assumes "wf a" and "occ a + unat n + unat m \<le> cap a"
  shows "\<exists>p q a1 a2. alloc a n = (p, a1) \<and> alloc a1 m = (q, a2) \<and> unat q = unat p + unat n \<and>
    wf a2 \<and> start a2 = start a \<and> cap a2 = cap a \<and> occ a2 = occ a + unat n + unat m"
proof -
  obtain p a1 where 1: "alloc a n = (p, a1)" "unat p = start a + occ a" "wf a1"
    "start a1 = start a" "cap a1 = cap a" "occ a1 = occ a + unat n"
    using alloc_law [OF assms(1), of n] assms(2) by auto
  then obtain q a2 where "alloc a1 m = (q, a2)" "unat q = start a1 + occ a1" "wf a2"
    "start a2 = start a1" "cap a2 = cap a1" "occ a2 = occ a1 + unat m"
    using alloc_law [OF 1(3), of m] assms(2) by auto
  then show ?thesis using 1 by auto
qed

end

interpretation lin: region_allocator linear_wf linear_alloc_alloc "\<lambda>a. unat (base a)"
  linear_occ linear_cap
proof
  show "0 < unat (base a) \<and> linear_occ a \<le> linear_cap a" if "linear_wf a" for a
    using linear_wf_nat [OF that] by simp
  show "\<exists>p a'. linear_alloc_alloc a n = (p, a') \<and> unat p = unat (base a) + linear_occ a \<and>
      linear_wf a' \<and> unat (base a') = unat (base a) \<and> linear_cap a' = linear_cap a \<and>
      linear_occ a' = linear_occ a + unat n"
    if "linear_wf a" "linear_occ a + unat n \<le> linear_cap a" for a n
    using linear_alloc_fits [OF that] linear_wf_nat(5) [OF that(1)] by metis
qed

section \<open>Runs of the allocator\<close>

text \<open>
  The states a region reaches when its client only makes requests that do not run past the
  top of the address space, and frees the block it was given last. \<open>bs\<close> are the live blocks,
  the latest first.
\<close>

inductive linear_run :: "addr \<Rightarrow> size_t \<Rightarrow> linear_alloc \<Rightarrow> (addr \<times> size_t) list \<Rightarrow> bool"
  for mem :: addr and len :: size_t where
  run_init: "linear_alloc_init mem len = Inr a \<Longrightarrow> linear_run mem len a []"
| run_alloc: "linear_run mem len a bs \<Longrightarrow> unat (position a) + unat n < 4294967296 \<Longrightarrow>
    linear_alloc_alloc a n = (p, a') \<Longrightarrow> p \<noteq> NULL \<Longrightarrow> linear_run mem len a' ((p, n) # bs)"
| run_alloc_aligned: "linear_run mem len a bs \<Longrightarrow> k < 32 \<Longrightarrow>
    unat (position a) + (2 ^ k - 1) + unat n < 4294967296 \<Longrightarrow>
    linear_alloc_alloc_aligned a n (2 ^ k) = Inr (p, a') \<Longrightarrow> p \<noteq> NULL \<Longrightarrow>
    linear_run mem len a' ((p, n) # bs)"
| run_free: "linear_run mem len a ((p, n) # bs) \<Longrightarrow> linear_alloc_free a n = Inr a' \<Longrightarrow>
    linear_run mem len a' bs"
| run_forbid: "linear_run mem len a bs \<Longrightarrow> linear_run mem len (linear_forbid_further_alloc a) bs"

text \<open>The live blocks, the latest first: each starts where the next older one has ended.\<close>

fun stacked :: "nat \<Rightarrow> nat \<Rightarrow> (addr \<times> size_t) list \<Rightarrow> bool" where
  "stacked lo hi [] \<longleftrightarrow> lo \<le> hi"
| "stacked lo hi ((p, n) # bs) \<longleftrightarrow> unat p + unat n \<le> hi \<and> stacked lo (unat p) bs"

lemma stacked_mono: "stacked lo hi bs \<Longrightarrow> hi \<le> hi' \<Longrightarrow> stacked lo hi' bs"
  by (cases bs) auto

lemma stacked_bounds: "stacked lo hi bs \<Longrightarrow> (p, n) \<in> set bs \<Longrightarrow> lo \<le> unat p \<and> unat p + unat n \<le> hi"
proof (induction bs arbitrary: hi)
  case (Cons b bs)
  obtain q m where b: "b = (q, m)" by (cases b)
  have "lo \<le> hi'" if "stacked lo hi' bs'" for hi' bs'
    using that by (induction bs' arbitrary: hi') fastforce+
  then show ?case using Cons b by force
qed simp

lemma stacked_nth:
  "stacked lo hi bs \<Longrightarrow> i < j \<Longrightarrow> j < length bs \<Longrightarrow>
   unat (fst (bs ! j)) + unat (snd (bs ! j)) \<le> unat (fst (bs ! i))"
proof (induction bs arbitrary: hi i j)
  case (Cons b bs)
  obtain p n where b: "b = (p, n)" by (cases b)
  obtain j' where j: "j = Suc j'" using Cons.prems by (cases j) auto
  have s: "stacked lo (unat p) bs" using Cons.prems b by simp
  show ?case
  proof (cases i)
    case 0
    have "bs ! j' \<in> set bs" using Cons.prems j by simp
    then show ?thesis using stacked_bounds [OF s] j b 0 by (metis fst_conv nth_Cons_0 nth_Cons_Suc prod.collapse)
  next
    case (Suc i')
    then show ?thesis using Cons.IH [OF s, of i' j'] Cons.prems j by simp
  qed
qed simp

lemma linear_alloc_step:
  assumes "base a \<le> position a" "position a \<le> limit a" "unat (position a) + unat n < 4294967296"
    "linear_alloc_alloc a n = (p, a')" "p \<noteq> NULL"
  shows "p = position a" "base a' = base a" "limit a' = limit a"
    "unat (position a') = unat p + unat n" "position a' \<le> limit a"
  using assms
  by (auto simp: linear_alloc_alloc_def Let_def unat_add32 word_less_nat_alt word_le_nat_alt
      split: if_splits)

lemma linear_aligned_step:
  assumes "k < 32" "unat (position a) + (2 ^ k - 1) + unat n < 4294967296"
    "linear_alloc_alloc_aligned a n (2 ^ k) = Inr (p, a')" "p \<noteq> NULL"
  shows "2 ^ k dvd unat p" "unat (position a) \<le> unat p" "base a' = base a" "limit a' = limit a"
    "unat (position a') = unat p + unat n" "position a' \<le> limit a"
proof -
  let ?p = "align_roundup (position a) (2 ^ k)"
  let ?q = "(unat (position a) + (2 ^ k - 1)) div 2 ^ k * 2 ^ k"
  have q: "unat ?p = ?q" using assms(1,2) by (intro unat_align_roundup) linarith+
  have le: "?q \<le> unat (position a) + (2 ^ k - 1)" by simp
  have "unat ?p + unat n < 4294967296" using assms(2) le unfolding q by linarith
  then have pn: "unat (?p + n) = ?q + unat n" by (simp add: unat_add32 q)
  have r: "p = ?p" "a' = a\<lparr>position := ?p + n\<rparr>" "?p + n < limit a"
    using assms(3,4)
    by (auto simp: linear_alloc_alloc_aligned_def Let_def not_le kres_simps split: if_splits)
  show "2 ^ k dvd unat p" unfolding r(1) q by simp
  show "unat (position a) \<le> unat p" unfolding r(1) q by (rule roundup_nat_least(1)) simp
  show "base a' = base a" "limit a' = limit a" "unat (position a') = unat p + unat n"
    "position a' \<le> limit a"
    using r pn q by simp_all
qed

lemma linear_run_inv:
  assumes "linear_run mem len a bs" and "unat mem + unat len < 4294967296"
  shows "base a = mem \<and> base a \<le> position a \<and> position a \<le> limit a \<and> limit a \<le> mem + len \<and>
    stacked (unat mem) (unat (position a)) bs"
  using assms
proof (induction rule: linear_run.induct)
  case (run_init a)
  then show ?case
    by (auto simp: linear_alloc_init_def Let_def kres_simps word_le_nat_alt unat_add32)
next
  case (run_alloc a bs n p a')
  then have IH: "base a = mem" "base a \<le> position a" "position a \<le> limit a" "limit a \<le> mem + len"
    "stacked (unat mem) (unat (position a)) bs" by auto
  note s = linear_alloc_step [OF IH(2,3) run_alloc.hyps(2-4)]
  show ?case using s IH by (simp add: word_le_nat_alt)
next
  case (run_alloc_aligned a bs k n p a')
  then have IH: "base a = mem" "base a \<le> position a" "position a \<le> limit a" "limit a \<le> mem + len"
    "stacked (unat mem) (unat (position a)) bs" by auto
  note s = linear_aligned_step [OF run_alloc_aligned.hyps(2-5)]
  show ?case using s IH stacked_mono [OF IH(5) s(2)] by (simp add: word_le_nat_alt)
next
  case (run_free a p n bs a')
  then have IH: "base a = mem" "base a \<le> position a" "position a \<le> limit a" "limit a \<le> mem + len"
    "unat p + unat n \<le> unat (position a)" "stacked (unat mem) (unat p) bs" by auto
  have "unat (position a - n) = unat (position a) - unat n" using IH(5) by (intro unat_sub32) simp
  then show ?case
    using run_free.hyps(2) IH stacked_mono [OF IH(6), of "unat (position a) - unat n"]
    by (auto simp: linear_alloc_free_def Let_def kres_simps word_le_nat_alt)
next
  case (run_forbid a bs)
  then show ?case by (auto simp: linear_forbid_further_alloc_def)
qed

section \<open>Properties\<close>

text \<open>In every state a region reaches through requests that do not run past the top of the
  address space, releases of the latest block and \<open>linear_forbid_further_alloc\<close>, each live block
  lies inside the region and no two live blocks overlap.\<close>

theorem linear_blocks_disjoint:
  assumes "linear_run mem len a bs" and "unat mem + unat len < 4294967296"
  shows "(\<forall>(p, n) \<in> set bs. unat mem \<le> unat p \<and> unat p + unat n \<le> unat mem + unat len) \<and>
    (\<forall>i j. i < j \<and> j < length bs \<longrightarrow>
       unat (fst (bs ! j)) + unat (snd (bs ! j)) \<le> unat (fst (bs ! i)))"
proof -
  have s: "stacked (unat mem) (unat (position a)) bs" and "position a \<le> mem + len"
    using linear_run_inv [OF assms] by auto
  then have "unat (position a) \<le> unat mem + unat len"
    using assms(2) by (simp add: word_le_nat_alt unat_add32)
  then show ?thesis using stacked_bounds [OF s] stacked_nth [OF s] by fastforce
qed

theorem linear_blocks_disjoint_witness:
  "let bs = [(0x1010, 4), (0x1000, 12)] :: (addr \<times> size_t) list in
   (\<forall>(p, n) \<in> set bs. 0x1000 \<le> unat p \<and> unat p + unat n \<le> 0x1000 + 0x100) \<and>
    (\<forall>i j. i < j \<and> j < length bs \<longrightarrow>
       unat (fst (bs ! j)) + unat (snd (bs ! j)) \<le> unat (fst (bs ! i)))"
proof -
  let ?a0 = "\<lparr>base = 0x1000, position = 0x1000, limit = 0x1100\<rparr>"
  let ?a1 = "\<lparr>base = 0x1000, position = 0x100c, limit = 0x1100\<rparr>"
  let ?a2 = "\<lparr>base = 0x1000, position = 0x1014, limit = 0x1100\<rparr>"
  have "linear_run 0x1000 0x100 ?a0 []"
    by (rule run_init) (simp add: linear_alloc_init_def)
  then have "linear_run 0x1000 0x100 ?a1 [(0x1000, 12)]"
    by (rule run_alloc) (simp_all add: linear_alloc_alloc_def)
  then have "linear_run 0x1000 0x100 ?a2 [(0x1010, 4), (0x1000, 12)]"
    by (rule run_alloc_aligned [where k = 3])
       (simp_all add: linear_alloc_alloc_aligned_def align_roundup_def)
  from linear_blocks_disjoint [OF this] show ?thesis by simp
qed

text \<open>A request is granted at the current position exactly when it fits, the whole rest of the
  region included; \<open>linear_alloc_alloc_aligned\<close> compares with \<open>>=\<close> and refuses the request that
  would use the region up, even when no padding is needed.\<close>

theorem linear_alloc_exact_fit:
  assumes "linear_wf a" and "unat (position a) + unat n < 4294967296"
  shows "fst (linear_alloc_alloc a n) =
      (if linear_occ a + unat n \<le> linear_cap a then position a else NULL) \<and>
    linear_alloc_alloc_aligned a (limit a - position a) 1 = Inr (NULL, a)"
proof -
  have "fst (linear_alloc_alloc a n) =
      (if linear_occ a + unat n \<le> linear_cap a then position a else NULL)"
    using linear_alloc_fits [OF assms(1), of n] linear_alloc_full [OF assms(1) _ assms(2)]
    by (metis fst_conv not_le)
  moreover have "align_roundup (position a) 1 = position a" by (simp add: align_roundup_def)
  ultimately show ?thesis by (simp add: linear_alloc_alloc_aligned_def)
qed

theorem linear_alloc_exact_fit_witness:
  "let a = \<lparr>base = 0x1000, position = 0x1000, limit = 0x1010\<rparr> in
   fst (linear_alloc_alloc a 16) =
      (if linear_occ a + unat (16 :: size_t) \<le> linear_cap a then position a else NULL) \<and>
    linear_alloc_alloc_aligned a (limit a - position a) 1 = Inr (NULL, a)"
  unfolding Let_def by (rule linear_alloc_exact_fit) (simp_all add: linear_wf_def)

text \<open>Nothing checks \<open>pos + len\<close> for wrap-around: a request so large that the sum passes the top
  of the address space is granted, and the position moves down, below blocks still in use.\<close>

theorem linear_alloc_wraps:
  assumes "linear_wf a" and "4294967296 \<le> unat (position a) + unat n"
  shows "linear_alloc_alloc a n = (position a, a\<lparr>position := position a + n\<rparr>) \<and>
    position a \<noteq> NULL \<and> position a + n < position a"
proof -
  have "unat (position a + n) = unat (position a) + unat n - 4294967296"
    using assms(2) unat_lt32 [of "position a"] unat_lt32 [of n] unat_plus_if' [of "position a" n]
    by simp
  then have lt: "position a + n < position a"
    using assms(2) unat_lt32 [of n] unfolding word_less_nat_alt by linarith
  moreover have "position a \<le> limit a" using assms(1) by (simp add: linear_wf_def)
  ultimately have "\<not> position a + n > limit a" by simp
  then show ?thesis using lt linear_wf_nat(1,2) [OF assms(1)]
    by (auto simp: linear_alloc_alloc_def Let_def)
qed

theorem linear_alloc_wraps_witness:
  "let a = \<lparr>base = 0x1000, position = 0x2000, limit = 0x3000\<rparr> in
   linear_alloc_alloc a 0xFFFFF000 = (0x2000, \<lparr>base = 0x1000, position = 0x1000, limit = 0x3000\<rparr>)"
  using linear_alloc_wraps [of "\<lparr>base = 0x1000, position = 0x2000, limit = 0x3000\<rparr>" "0xFFFFF000"]
  by (simp add: linear_wf_def)

end
