(* ===== verification/Buddy.thy ===== *)
theory Buddy
  imports Bitmap Linear
begin

unbundle bit_operations_syntax

text \<open>
  kernel/lib/mm/buddy.c: the buddy page allocator. Level \<open>k\<close> has a bitmap with a bit per block
  of \<open>2 ^ k\<close> pages; a set bit means that the block is not free. The field \<open>alloc\<close> of the code is
  the address of the region allocator that \<open>buddy_init\<close> takes its memory from; nothing reads it
  afterwards, so the model passes the allocator's state through \<open>buddy_init\<close> instead. The array
  \<open>lvl_bitmaps\<close> has the length \<open>buddy_init\<close> gives it, and indexing past it is undefined.
\<close>

record buddy_manager =
  lvl_bitmaps :: "bitmap list"
  lvls :: size_t

section \<open>Access to the bitmap of a level\<close>

definition lvl_get :: "buddy_manager \<Rightarrow> size_t \<Rightarrow> size_t \<Rightarrow> bool kres" where
  "lvl_get bmgr lvl bitn =
     kdefined (unat lvl < length (lvl_bitmaps bmgr))
       (bitmap_get (lvl_bitmaps bmgr ! unat lvl) bitn)"

definition lvl_set :: "bool \<Rightarrow> buddy_manager \<Rightarrow> size_t \<Rightarrow> size_t \<Rightarrow> buddy_manager kres" where
  "lvl_set v bmgr lvl bitn =
     kdefined (unat lvl < length (lvl_bitmaps bmgr))
       (kbind ((if v then bitmap_set_true else bitmap_set_false) (lvl_bitmaps bmgr ! unat lvl) bitn)
          (\<lambda>bm. Inr (bmgr\<lparr>lvl_bitmaps := (lvl_bitmaps bmgr)[unat lvl := bm]\<rparr>)))"

section \<open>Initialisation\<close>

definition get_max_index :: "size_t \<Rightarrow> size_t \<Rightarrow> size_t kres" where
  "get_max_index pages lvl =
     kdefined (lvl < 32)
    (kassert (drop_bit (unat lvl) pages > 0) (Inr (drop_bit (unat lvl) pages - 1)))"

text \<open>\<open>sizeof(struct bitmap)\<close> on i686: a pointer and two \<open>size_t\<close>.\<close>

abbreviation sizeof_bitmap :: size_t where
  "sizeof_bitmap \<equiv> 12"

function buddy_predict_loop :: "size_t \<Rightarrow> size_t \<Rightarrow> size_t \<Rightarrow> size_t \<Rightarrow> size_t kres" where
  "buddy_predict_loop pages levels i bitmaps =
     (if i < levels
      then kbind (get_max_index pages i) (\<lambda>m.
           kbind (bitmap_predict_size (m + 1)) (\<lambda>sz.
             buddy_predict_loop pages levels (i + 1) (bitmaps + sz)))
      else Inr bitmaps)"
  by pat_completeness auto
termination
  by (relation "measure (\<lambda>(pages, levels, i, bitmaps). unat levels - unat i)")
     (use size_t_loop_measure in force)+

definition buddy_predict_req_space :: "size_t \<Rightarrow> size_t kres" where
  "buddy_predict_req_space pages =
     kbind (log2_floor pages) (\<lambda>l.
       let levels = l + 1; lvls_array = levels * sizeof_bitmap in
       kbind (buddy_predict_loop pages levels 0 0) (\<lambda>bitmaps. Inr (bitmaps + lvls_array)))"

text \<open>
  The loop of \<open>buddy_init\<close>: \<open>arr\<close> is the address of the array of bitmaps, \<open>bms\<close> the bitmaps set up
  so far, and \<open>memory\<close> gives the words that the region held before.
\<close>

function buddy_init_loop :: "(addr \<Rightarrow> u32) \<Rightarrow> size_t \<Rightarrow> size_t \<Rightarrow> addr \<Rightarrow> size_t \<Rightarrow> bitmap list \<Rightarrow>
    linear_alloc \<Rightarrow> (bitmap list \<times> linear_alloc) kres" where
  "buddy_init_loop memory pages levels arr lvl bms alloc =
     (if lvl < levels
      then kbind (get_max_index pages lvl) (\<lambda>m. let bits_req = m + 1 in
           kbind (bitmap_predict_size bits_req) (\<lambda>sz.
             let (space, alloc') = linear_alloc_alloc alloc sz in
             kassert (NULL \<noteq> space)
            (kassert (arr + lvl * sizeof_bitmap \<noteq> NULL)
            (kbind (bitmap_init space (region_words memory space sz) bits_req) (\<lambda>bm.
               buddy_init_loop memory pages levels arr (lvl + 1) (bms @ [bm]) alloc')))))
      else Inr (bms, alloc))"
  by pat_completeness auto
termination
  by (relation "measure (\<lambda>(memory, pages, levels, arr, lvl, bms, alloc). unat levels - unat lvl)")
     (use size_t_loop_measure in force)+

declare buddy_predict_loop.simps [simp del] buddy_init_loop.simps [simp del]

definition buddy_init :: "(addr \<Rightarrow> u32) \<Rightarrow> size_t \<Rightarrow> linear_alloc \<Rightarrow>
    (size_t \<times> buddy_manager \<times> linear_alloc) kres" where
  "buddy_init memory pages alloc =
     (let alloc_space_before = linear_alloc_occupied alloc in
      kbind (log2_floor pages) (\<lambda>l.
        let levels = l + 1; (arr, alloc1) = linear_alloc_alloc alloc (levels * sizeof_bitmap) in
        kbind (buddy_init_loop memory pages levels arr 0 [] alloc1) (\<lambda>(bms, alloc2).
        kbind (buddy_predict_req_space pages) (\<lambda>req.
        kassert (linear_alloc_occupied alloc2 - alloc_space_before = req)
       (kbind (get_max_index pages 0) (\<lambda>m.
          Inr (m, \<lparr>lvl_bitmaps = bms, lvls = levels\<rparr>, alloc2)))))))"

section \<open>Occupying\<close>

function occupy_buddys_descendants ::
    "buddy_manager \<Rightarrow> size_t \<Rightarrow> size_t \<Rightarrow> buddy_manager kres" where
  "occupy_buddys_descendants bmgr lvl bitn =
     (if lvl = 0 then Inr bmgr
      else let bitn = push_bit 1 bitn; lvl = lvl - 1 in
        kbind (lvl_set True bmgr lvl bitn) (\<lambda>b1.
        kbind (lvl_set True b1 lvl (bitn + 1)) (\<lambda>b2.
        kbind (occupy_buddys_descendants b2 lvl bitn) (\<lambda>b3.
          occupy_buddys_descendants b3 lvl (bitn + 1)))))"
  by pat_completeness auto
termination
  by (relation "measure (\<lambda>(bmgr, lvl, bitn). unat lvl)") (auto simp: unat_gt_0 measure_unat)

function occupy_ancestors_loop ::
    "buddy_manager \<Rightarrow> size_t \<Rightarrow> size_t \<Rightarrow> size_t \<Rightarrow> buddy_manager kres" where
  "occupy_ancestors_loop bmgr n i bitn =
     (if i < n
      then kdefined (unat i < length (lvl_bitmaps bmgr) \<and> i < 32)
        (if drop_bit (unat i) bitn < bm_length (lvl_bitmaps bmgr ! unat i)
         then kbind (lvl_set True bmgr i (drop_bit (unat i) bitn)) (\<lambda>b.
                occupy_ancestors_loop b n (i + 1) bitn)
         else occupy_ancestors_loop bmgr n (i + 1) bitn)
      else Inr bmgr)"
  by pat_completeness auto
termination
  by (relation "measure (\<lambda>(bmgr, n, i, bitn). unat n - unat i)")
     (use size_t_loop_measure in force)+

definition occupy_buddy :: "buddy_manager \<Rightarrow> size_t \<Rightarrow> size_t \<Rightarrow> buddy_manager kres" where
  "occupy_buddy bmgr lvl bitn =
     kbind (occupy_buddys_descendants bmgr lvl bitn) (\<lambda>b.
       occupy_ancestors_loop b (lvls b) 0 bitn)"

section \<open>Freeing\<close>

text \<open>
  The loop of \<open>free_buddys_ancestors\<close> counts \<open>lvl\<close> up to \<open>lvls\<close>; \<open>lvls + 2\<close> rounds are enough.
  The names of the two flags are those of the code: they hold the bits read.
\<close>

fun free_buddys_ancestors ::
    "nat \<Rightarrow> buddy_manager \<Rightarrow> size_t \<Rightarrow> size_t \<Rightarrow> buddy_manager kres" where
  "free_buddys_ancestors 0 bmgr lvl bitn = Inl Fuel"
| "free_buddys_ancestors (Suc fuel) bmgr lvl bitn =
     (if lvl \<le> lvls bmgr
      then let lvl = lvl + 1; bitn = drop_bit 1 bitn in
        kbind (lvl_get bmgr (lvl - 1) (push_bit 1 bitn)) (\<lambda>left_child_free.
        kbind (lvl_get bmgr (lvl - 1) (push_bit 1 bitn + 1)) (\<lambda>right_child_free.
          if \<not> left_child_free \<or> \<not> right_child_free then Inr bmgr
          else kbind (lvl_set False bmgr lvl bitn) (\<lambda>b.
                 free_buddys_ancestors fuel b lvl bitn)))
      else Inr bmgr)"

function free_buddys_children ::
    "buddy_manager \<Rightarrow> size_t \<Rightarrow> size_t \<Rightarrow> buddy_manager kres" where
  "free_buddys_children bmgr lvl bitn =
     (if lvl = 0 then Inr bmgr
      else let bitn = push_bit 1 bitn; lvl = lvl - 1 in
        kbind (lvl_set False bmgr lvl bitn) (\<lambda>b1.
        kbind (lvl_set False b1 lvl (bitn + 1)) (\<lambda>b2.
        kbind (free_buddys_children b2 lvl bitn) (\<lambda>b3.
          free_buddys_children b3 lvl (bitn + 1)))))"
  by pat_completeness auto
termination
  by (relation "measure (\<lambda>(bmgr, lvl, bitn). unat lvl)") (auto simp: unat_gt_0 measure_unat)

declare occupy_buddys_descendants.simps [simp del] occupy_ancestors_loop.simps [simp del]
  free_buddys_children.simps [simp del]

definition free_buddy :: "buddy_manager \<Rightarrow> size_t \<Rightarrow> size_t \<Rightarrow> buddy_manager kres" where
  "free_buddy bmgr lvl bitn =
     kbind (lvl_set False bmgr lvl bitn) (\<lambda>b1.
     kbind (free_buddys_children b1 lvl bitn) (\<lambda>b2.
       free_buddys_ancestors (unat (lvls b2) + 2) b2 lvl bitn))"

section \<open>The interface\<close>

definition buddy_try_alloc ::
    "buddy_manager \<Rightarrow> size_t \<Rightarrow> size_t \<Rightarrow> (bool \<times> buddy_manager) kres" where
  "buddy_try_alloc bmgr order page_ndx =
     kbind (lvl_get bmgr order page_ndx) (\<lambda>taken.
       if taken then Inr (False, bmgr)
       else kbind (occupy_buddy bmgr order page_ndx) (\<lambda>b. Inr (True, b)))"

definition buddy_alloc :: "buddy_manager \<Rightarrow> size_t \<Rightarrow> (size_t option \<times> buddy_manager) kres" where
  "buddy_alloc bmgr order =
     (if order > lvls bmgr then Inr (None, bmgr)
      else kdefined (unat order < length (lvl_bitmaps bmgr))
        (kbind (bitmap_search_false (lvl_bitmaps bmgr ! unat order)) (\<lambda>r. case r of
           None \<Rightarrow> Inr (None, bmgr)
         | Some ndx \<Rightarrow> kbind (occupy_buddy bmgr order ndx) (\<lambda>b. Inr (Some ndx, b)))))"

definition buddy_free :: "buddy_manager \<Rightarrow> size_t \<Rightarrow> size_t \<Rightarrow> buddy_manager kres" where
  "buddy_free bmgr page_ndx order = free_buddy bmgr order page_ndx"

definition buddy_is_free :: "buddy_manager \<Rightarrow> size_t \<Rightarrow> bool kres" where
  "buddy_is_free bmgr page_ndx = kbind (lvl_get bmgr 0 page_ndx) (\<lambda>b. Inr (b = False))"

section \<open>Well-formed managers\<close>

definition buddy_wf :: "size_t \<Rightarrow> buddy_manager \<Rightarrow> bool" where
  "buddy_wf pages b \<longleftrightarrow> unat pages + 31 < 4294967296 \<and> 0 < unat (lvls b) \<and> unat (lvls b) \<le> 32 \<and>
     2 ^ (unat (lvls b) - 1) \<le> unat pages \<and> unat pages < 2 ^ unat (lvls b) \<and>
     length (lvl_bitmaps b) = unat (lvls b) \<and>
     (\<forall>k < unat (lvls b). bitmap_wf (lvl_bitmaps b ! k) \<and>
        unat (bm_length (lvl_bitmaps b ! k)) = unat pages div 2 ^ k)"

definition bitat :: "buddy_manager \<Rightarrow> nat \<Rightarrow> nat \<Rightarrow> bool" where
  "bitat b k j = bitmap_bits (lvl_bitmaps b ! k) ! j"

text \<open>\<open>marks pages v P b b'\<close>: \<open>b'\<close> is \<open>b\<close> with the bits that \<open>P\<close> picks (by level and index) set to \<open>v\<close>.\<close>

definition marks :: "size_t \<Rightarrow> bool \<Rightarrow> (nat \<Rightarrow> nat \<Rightarrow> bool) \<Rightarrow> buddy_manager \<Rightarrow> buddy_manager \<Rightarrow> bool" where
  "marks pages v P b b' \<longleftrightarrow> buddy_wf pages b' \<and> lvls b' = lvls b \<and>
     (\<forall>k < unat (lvls b). \<forall>j < unat pages div 2 ^ k.
        bitat b' k j = (if P k j then v else bitat b k j))"

lemma buddy_wf_level:
  assumes "buddy_wf pages b" and "k < unat (lvls b)"
  shows "k < length (lvl_bitmaps b)" "bitmap_wf (lvl_bitmaps b ! k)"
    "unat (bm_length (lvl_bitmaps b ! k)) = unat pages div 2 ^ k" "k < 32"
    "0 < unat pages div 2 ^ k"
proof -
  show "k < length (lvl_bitmaps b)" "bitmap_wf (lvl_bitmaps b ! k)"
    "unat (bm_length (lvl_bitmaps b ! k)) = unat pages div 2 ^ k" "k < 32"
    using assms by (auto simp: buddy_wf_def)
  have "(2 :: nat) ^ k \<le> 2 ^ (unat (lvls b) - 1)" using assms(2) by (intro power_increasing) auto
  also have "\<dots> \<le> unat pages" using assms(1) by (simp add: buddy_wf_def)
  finally show "0 < unat pages div 2 ^ k" by (simp add: div_greater_zero_iff)
qed

lemma marks_refl: "buddy_wf pages b \<Longrightarrow> marks pages v (\<lambda>k j. False) b b"
  by (simp add: marks_def)

lemma marks_trans:
  "marks pages v P b b1 \<Longrightarrow> marks pages v Q b1 b2 \<Longrightarrow> marks pages v (\<lambda>k j. P k j \<or> Q k j) b b2"
  by (simp add: marks_def)

lemma marks_cong:
  assumes "marks pages v P b b'"
    and "\<And>k j. k < unat (lvls b) \<Longrightarrow> j < unat pages div 2 ^ k \<Longrightarrow> P k j = Q k j"
  shows "marks pages v Q b b'"
  using assms by (simp add: marks_def)

lemma marksD:
  assumes "marks pages v P b b'"
  shows "buddy_wf pages b'" "lvls b' = lvls b"
    "k < unat (lvls b) \<Longrightarrow> j < unat pages div 2 ^ k \<Longrightarrow>
      bitat b' k j = (if P k j then v else bitat b k j)"
  using assms by (auto simp: marks_def)

lemma lvl_get_ok:
  assumes "buddy_wf pages b" and "unat l < unat (lvls b)"
  shows "lvl_get b l n =
    (if unat n < unat pages div 2 ^ unat l then Inr (bitat b (unat l) (unat n)) else Inl Kassert)"
  using buddy_wf_level [OF assms] by (simp add: lvl_get_def bitat_def bma.get_law)

lemma lvl_set_ok:
  assumes wf: "buddy_wf pages b" and l: "unat l < unat (lvls b)"
    and n: "unat n < unat pages div 2 ^ unat l"
  obtains b' where "lvl_set v b l n = Inr b'"
    "marks pages v (\<lambda>k j. k = unat l \<and> j = unat n) b b'"
proof -
  let ?bm = "lvl_bitmaps b ! unat l"
  let ?f = "if v then bitmap_set_true else bitmap_set_false"
  note lev = buddy_wf_level [OF wf l]
  obtain bm' where bm': "?f ?bm n = Inr bm'" "bitmap_wf bm'"
    "bitmap_bits bm' = (bitmap_bits ?bm)[unat n := v]"
    using bma.set_true_law [OF lev(2), of n] bma.set_false_law [OF lev(2), of n] lev(3) n
    by (cases v) auto
  have len: "bm_length bm' = bm_length ?bm"
    using arg_cong [OF bm'(3), of length] by (intro word32_eqI) simp
  let ?b = "b\<lparr>lvl_bitmaps := (lvl_bitmaps b)[unat l := bm']\<rparr>"
  have "lvl_set v b l n = Inr ?b" using bm'(1) lev(1) by (simp add: lvl_set_def)
  moreover have "buddy_wf pages ?b"
    using wf bm'(2) len lev(1) by (auto simp: buddy_wf_def nth_list_update)
  then have "marks pages v (\<lambda>k j. k = unat l \<and> j = unat n) b ?b"
    using bm'(3) lev(1,3) by (auto simp: marks_def bitat_def nth_list_update)
  ultimately show ?thesis by (rule that)
qed

lemma lvl_set_out:
  assumes "buddy_wf pages b" and "unat l < unat (lvls b)" and "unat pages div 2 ^ unat l \<le> unat n"
  shows "lvl_set v b l n = Inl Kassert"
  using buddy_wf_level [OF assms(1,2)] bitmap_set_out [of "lvl_bitmaps b ! unat l" n] assms(3)
  by (simp add: lvl_set_def)

section \<open>What the traversals mark\<close>

lemma unat_push_bit_1: "2 * unat n < 4294967296 \<Longrightarrow> unat (push_bit 1 n :: u32) = 2 * unat n"
  by (simp add: push_bit_eq_mult unat_mult32)

lemma unat_drop_bit_32: "unat (drop_bit k n :: u32) = unat n div 2 ^ k"
  by (subst unat_drop_bit_eq) (rule drop_bit_eq_div)

lemma half_index:
  fixes j n :: nat
  shows "j div 2 = n \<longleftrightarrow> j = 2 * n \<or> j = 2 * n + 1"
  by auto

text \<open>Both walks over the descendants have the shape the first assumption describes.\<close>

lemma children_marks:
  assumes F: "\<And>b l n. F b l n =
     (if l = 0 then Inr b
      else kbind (lvl_set v b (l - 1) (push_bit 1 n)) (\<lambda>b1.
        kbind (lvl_set v b1 (l - 1) (push_bit 1 n + 1)) (\<lambda>b2.
        kbind (F b2 (l - 1) (push_bit 1 n)) (\<lambda>b3. F b3 (l - 1) (push_bit 1 n + 1)))))"
    and "buddy_wf pages b" and "unat l < unat (lvls b)" and "unat n < unat pages div 2 ^ unat l"
  shows "\<exists>b'. F b l n = Inr b' \<and>
    marks pages v (\<lambda>k j. k < unat l \<and> j div 2 ^ (unat l - k) = unat n) b b'"
  using assms(2-4)
proof (induction "unat l" arbitrary: b l n)
  case 0
  then have "l = 0" by (simp add: unat_eq_0)
  then show ?case using 0 marks_refl by (subst F) auto
next
  case (Suc m)
  let ?l = "l - 1" and ?n = "push_bit 1 n"
  have "1 \<le> unat l" using Suc.hyps(2) by simp
  then have l: "unat ?l = m" "l \<noteq> 0" using Suc.hyps(2) by (auto simp: unat_sub32)
  have "unat pages div 2 ^ Suc m = unat pages div 2 ^ m div 2" by (simp only: power_Suc2 div_mult2_eq)
  then have r: "2 * unat n + 1 < unat pages div 2 ^ m"
    using Suc.prems(3) Suc.hyps(2) by simp
  have "unat pages div 2 ^ m \<le> unat pages" by simp
  then have bound: "2 * unat n + 1 < 4294967296" using r unat_lt32 [of pages] by linarith
  have n0: "unat ?n = 2 * unat n" by (rule unat_push_bit_1) (use bound in linarith)
  moreover have "unat (?n + 1) = Suc (unat ?n)" by (rule unat_Suc32) (use bound n0 in linarith)
  ultimately have n: "unat ?n = 2 * unat n" "unat (?n + 1) = 2 * unat n + 1" by linarith+
  have lv: "unat ?l < unat (lvls b)" using l(1) Suc.hyps(2) Suc.prems(2) by simp
  obtain b1 where b1: "lvl_set v b ?l ?n = Inr b1"
    "marks pages v (\<lambda>k j. k = m \<and> j = 2 * unat n) b b1"
    using lvl_set_ok [OF Suc.prems(1) lv, of ?n v] r n l(1) by auto
  obtain b2 where b2: "lvl_set v b1 ?l (?n + 1) = Inr b2"
    "marks pages v (\<lambda>k j. k = m \<and> j = 2 * unat n + 1) b1 b2"
    using lvl_set_ok [OF marksD(1) [OF b1(2)], of ?l "?n + 1" v] marksD(2) [OF b1(2)] lv r n l(1)
    by auto
  obtain b3 where b3: "F b2 ?l ?n = Inr b3"
    "marks pages v (\<lambda>k j. k < m \<and> j div 2 ^ (m - k) = 2 * unat n) b2 b3"
    using Suc.hyps(1) [of ?l b2 ?n] l(1) marksD(1,2) [OF b2(2)] marksD(2) [OF b1(2)] lv r n by auto
  obtain b4 where b4: "F b3 ?l (?n + 1) = Inr b4"
    "marks pages v (\<lambda>k j. k < m \<and> j div 2 ^ (m - k) = 2 * unat n + 1) b3 b4"
    using Suc.hyps(1) [of ?l b3 "?n + 1"] l(1) marksD(1,2) [OF b3(2)] marksD(2) [OF b2(2)]
      marksD(2) [OF b1(2)] lv r n by auto
  have "F b l n = Inr b4"
    using b1(1) b2(1) b3(1) b4(1) l(2) by (subst F) simp
  moreover have eq: "(((k = m \<and> j = 2 * unat n) \<or> (k = m \<and> j = 2 * unat n + 1)) \<or>
      (k < m \<and> j div 2 ^ (m - k) = 2 * unat n)) \<or> (k < m \<and> j div 2 ^ (m - k) = 2 * unat n + 1)
      \<longleftrightarrow> k < unat l \<and> j div 2 ^ (unat l - k) = unat n" for k j
  proof -
    have "j div 2 ^ (unat l - k) = j div 2 ^ (m - k) div 2" if "k \<le> m"
    proof -
      have "unat l - k = Suc (m - k)" using that Suc.hyps(2) by simp
      then show ?thesis by (simp only: power_Suc2 div_mult2_eq)
    qed
    then show ?thesis using Suc.hyps(2) half_index [of "j div 2 ^ (m - k)" "unat n"]
      by (cases "k = m") auto
  qed
  ultimately show ?case
    using marks_trans [OF marks_trans [OF marks_trans [OF b1(2) b2(2)] b3(2)] b4(2)]
    unfolding eq by blast
qed

lemmas occupy_descendants_marks = children_marks
  [where F = occupy_buddys_descendants and v = True,
   OF occupy_buddys_descendants.simps [unfolded Let_def]]

lemmas free_children_marks = children_marks
  [where F = free_buddys_children and v = False, OF free_buddys_children.simps [unfolded Let_def]]

lemma occupy_ancestors_marks:
  assumes "buddy_wf pages b" and "n = lvls b" and "unat i \<le> unat n"
  shows "\<exists>b'. occupy_ancestors_loop b n i bn = Inr b' \<and>
    marks pages True (\<lambda>k j. unat i \<le> k \<and> j = unat bn div 2 ^ k) b b'"
  using assms
proof (induction b n i bn rule: occupy_ancestors_loop.induct)
  case (1 b n i bn)
  show ?case
  proof (cases "i < n")
    case False
    then have "unat i = unat (lvls b)" using "1.prems" by (simp add: word_less_nat_alt)
    then have "marks pages True (\<lambda>k j. unat i \<le> k \<and> j = unat bn div 2 ^ k) b b"
      using "1.prems"(1) by (simp add: marks_def)
    moreover have "occupy_ancestors_loop b n i bn = Inr b"
      using False by (subst occupy_ancestors_loop.simps) simp
    ultimately show ?thesis by blast
  next
    case True
    note s = size_t_loop_measure [OF True]
    have i: "unat i < unat (lvls b)" using s "1.prems"(2) by simp
    note lev = buddy_wf_level [OF "1.prems"(1) i]
    let ?d = "drop_bit (unat i) bn"
    have d: "unat ?d = unat bn div 2 ^ unat i" by (rule unat_drop_bit_32)
    have i32: "i < 32" using lev(4) by (simp add: word_less_nat_alt)
    have step: "occupy_ancestors_loop b n i bn =
        (if ?d < bm_length (lvl_bitmaps b ! unat i)
         then kbind (lvl_set True b i ?d) (\<lambda>b. occupy_ancestors_loop b n (i + 1) bn)
         else occupy_ancestors_loop b n (i + 1) bn)"
      using True lev(1) i32 by (subst occupy_ancestors_loop.simps) simp
    have split: "unat i \<le> k \<longleftrightarrow> k = unat i \<or> unat (i + 1) \<le> k" for k using s by auto
    show ?thesis
    proof (cases "?d < bm_length (lvl_bitmaps b ! unat i)")
      case in_range: True
      then have "unat ?d < unat pages div 2 ^ unat i" using lev(3) by (simp add: word_less_nat_alt)
      then obtain b1 where b1: "lvl_set True b i ?d = Inr b1"
        "marks pages True (\<lambda>k j. k = unat i \<and> j = unat ?d) b b1"
        by (rule lvl_set_ok [OF "1.prems"(1) i])
      have "kdefined (unat i < length (lvl_bitmaps b) \<and> i < 32) (Inr ()) = Inr ()"
        using lev(1) i32 by simp
      obtain b' where b': "occupy_ancestors_loop b1 n (i + 1) bn = Inr b'"
        "marks pages True (\<lambda>k j. unat (i + 1) \<le> k \<and> j = unat bn div 2 ^ k) b1 b'"
        using "1.IH"(1) [OF True in_range, of b1] marksD(1,2) [OF b1(2)] "1.prems" s by auto
      have "marks pages True (\<lambda>k j. unat i \<le> k \<and> j = unat bn div 2 ^ k) b b'"
        by (rule marks_cong [OF marks_trans [OF b1(2) b'(2)]]) (auto simp: split d)
      then show ?thesis using step in_range b1(1) b'(1) by simp
    next
      case False
      then have out: "unat pages div 2 ^ unat i \<le> unat bn div 2 ^ unat i"
        using lev(3) d by (simp add: word_less_nat_alt)
      obtain b' where b': "occupy_ancestors_loop b n (i + 1) bn = Inr b'"
        "marks pages True (\<lambda>k j. unat (i + 1) \<le> k \<and> j = unat bn div 2 ^ k) b b'"
        using "1.IH"(2) [OF True False] "1.prems" s by auto
      have "marks pages True (\<lambda>k j. unat i \<le> k \<and> j = unat bn div 2 ^ k) b b'"
        by (rule marks_cong [OF b'(2)]) (use out in \<open>auto simp: split\<close>)
      then show ?thesis using step False b'(1) by simp
    qed
  qed
qed

lemma occupy_buddy_marks:
  assumes "buddy_wf pages b" and "unat l < unat (lvls b)" and "unat n < unat pages div 2 ^ unat l"
  obtains b' where "occupy_buddy b l n = Inr b'"
    "marks pages True (\<lambda>k j. (k < unat l \<and> j div 2 ^ (unat l - k) = unat n) \<or>
       j = unat n div 2 ^ k) b b'"
proof -
  obtain b1 where b1: "occupy_buddys_descendants b l n = Inr b1"
    "marks pages True (\<lambda>k j. k < unat l \<and> j div 2 ^ (unat l - k) = unat n) b b1"
    using occupy_descendants_marks [OF assms] by blast
  then obtain b2 where "occupy_ancestors_loop b1 (lvls b1) 0 n = Inr b2"
    "marks pages True (\<lambda>k j. unat (0 :: size_t) \<le> k \<and> j = unat n div 2 ^ k) b1 b2"
    using occupy_ancestors_marks [of pages b1 "lvls b1" 0 n] marksD(1) [OF b1(2)] by auto
  then show ?thesis
    using that marks_trans [OF b1(2)] b1(1) by (simp add: occupy_buddy_def)
qed

section \<open>Allocating and freeing\<close>

lemma buddy_alloc_ok:
  assumes wf: "buddy_wf pages b" and l: "unat l < unat (lvls b)"
  shows "(buddy_alloc b l = Inr (None, b) \<and> (\<forall>j < unat pages div 2 ^ unat l. bitat b (unat l) j)) \<or>
    (\<exists>n b'. buddy_alloc b l = Inr (Some n, b') \<and> unat n < unat pages div 2 ^ unat l \<and>
       \<not> bitat b (unat l) (unat n) \<and> (\<forall>j < unat n. bitat b (unat l) j) \<and>
       marks pages True (\<lambda>k j. (k < unat l \<and> j div 2 ^ (unat l - k) = unat n) \<or>
         j = unat n div 2 ^ k) b b')"
proof -
  let ?bm = "lvl_bitmaps b ! unat l"
  note lev = buddy_wf_level [OF wf l]
  have order: "\<not> l > lvls b" using l by (simp add: word_less_nat_alt)
  show ?thesis
  proof (cases "False \<in> set (bitmap_bits ?bm)")
    case False
    then have "bitmap_search_false ?bm = Inr None" using bma.search_None_iff [OF lev(2)] by simp
    moreover have "\<forall>j < unat pages div 2 ^ unat l. bitat b (unat l) j"
      using False lev(3) by (auto simp: bitat_def in_set_conv_nth)
    ultimately show ?thesis using order lev(1) by (simp add: buddy_alloc_def)
  next
    case True
    obtain n where n: "bitmap_search_false ?bm = Inr (Some n)"
      "unat n < length (bitmap_bits ?bm)" "\<not> bitmap_bits ?bm ! unat n"
      "\<forall>j < unat n. bitmap_bits ?bm ! j"
      by (rule bma.search_Some [OF lev(2) True])
    have r: "unat n < unat pages div 2 ^ unat l" using n(2) lev(3) by simp
    obtain b' where "occupy_buddy b l n = Inr b'"
      "marks pages True (\<lambda>k j. (k < unat l \<and> j div 2 ^ (unat l - k) = unat n) \<or>
         j = unat n div 2 ^ k) b b'"
      by (rule occupy_buddy_marks [OF wf l r])
    then show ?thesis using order lev(1) n r by (auto simp: buddy_alloc_def bitat_def)
  qed
qed

lemma buddy_free_ok:
  assumes wf: "buddy_wf pages b" and l: "unat l < unat (lvls b)"
    and n: "unat n < unat pages div 2 ^ unat l"
  shows "if 2 * (unat n div 2) + 1 < unat pages div 2 ^ unat l
    then \<exists>b'. buddy_free b n l = Inr b' \<and>
      marks pages False (\<lambda>k j. k \<le> unat l \<and> j div 2 ^ (unat l - k) = unat n) b b'
    else buddy_free b n l = Inl Kassert"
proof -
  obtain b1 where b1: "lvl_set False b l n = Inr b1"
    "marks pages False (\<lambda>k j. k = unat l \<and> j = unat n) b b1"
    by (rule lvl_set_ok [OF wf l n])
  obtain b2 where b2: "free_buddys_children b1 l n = Inr b2"
    "marks pages False (\<lambda>k j. k < unat l \<and> j div 2 ^ (unat l - k) = unat n) b1 b2"
    using free_children_marks [OF marksD(1) [OF b1(2)], of l n] marksD(2) [OF b1(2)] l n by auto
  have m: "marks pages False (\<lambda>k j. k \<le> unat l \<and> j div 2 ^ (unat l - k) = unat n) b b2"
    by (rule marks_cong [OF marks_trans [OF b1(2) b2(2)]]) auto
  have wf2: "buddy_wf pages b2" and l2: "lvls b2 = lvls b" using marksD(1,2) [OF m] by auto
  let ?h = "push_bit 1 (drop_bit 1 n)"
  have d: "unat (drop_bit 1 n) = unat n div 2" using unat_drop_bit_32 [of 1 n] by simp
  have h: "unat ?h = 2 * (unat n div 2)"
    unfolding d [symmetric] by (rule unat_push_bit_1) (use d unat_lt32 [of n] in linarith)
  have h1: "unat (?h + 1) = 2 * (unat n div 2) + 1"
  proof -
    have "unat pages div 2 ^ unat l \<le> unat pages" by simp
    then have "unat ?h + 1 < 4294967296"
      using h n wf unfolding buddy_wf_def by linarith
    then show ?thesis using unat_Suc32 [of ?h] h by linarith
  qed
  have hn: "unat ?h < unat pages div 2 ^ unat l" using h n by linarith
  have le: "l \<le> lvls b2" using l l2 by (simp add: word_le_nat_alt)
  have left: "lvl_get b2 l ?h = Inr (bitat b2 (unat l) (unat ?h))"
    using lvl_get_ok [OF wf2, of l ?h] l l2 hn by (simp only: if_True)
  have right: "lvl_get b2 l (?h + 1) =
      (if 2 * (unat n div 2) + 1 < unat pages div 2 ^ unat l
       then Inr (bitat b2 (unat l) (unat (?h + 1))) else Inl Kassert)"
    using lvl_get_ok [OF wf2, of l "?h + 1"] l l2 h1 by (simp only:)
  have "unat n = unat ?h \<or> unat n = unat (?h + 1)" unfolding h h1 by presburger
  moreover have "\<not> bitat b2 (unat l) (unat n)" using marksD(3) [OF m l n] by simp
  ultimately have free: "\<not> bitat b2 (unat l) (unat ?h) \<or> \<not> bitat b2 (unat l) (unat (?h + 1))"
    by metis
  have anc: "free_buddys_ancestors (unat (lvls b2) + 2) b2 l n =
      kbind (lvl_get b2 l ?h) (\<lambda>lf. kbind (lvl_get b2 l (?h + 1)) (\<lambda>rf.
        if \<not> lf \<or> \<not> rf then Inr b2
        else kbind (lvl_set False b2 (l + 1) (drop_bit 1 n)) (\<lambda>b.
          free_buddys_ancestors (Suc (unat (lvls b2))) b (l + 1) (drop_bit 1 n))))"
    by (simp only: add_2_eq_Suc' free_buddys_ancestors.simps le if_True Let_def
        add_diff_cancel_right')
  have fr: "buddy_free b n l = free_buddys_ancestors (unat (lvls b2) + 2) b2 l n"
    using b1(1) b2(1) by (simp add: buddy_free_def free_buddy_def)
  show ?thesis
    using free m unfolding fr anc left right by (auto simp del: push_bit_Suc drop_bit_Suc)
qed

section \<open>Setting a manager up\<close>

text \<open>The bytes of the bitmap of level \<open>k\<close>, and of the bitmaps of \<open>n\<close> levels.\<close>

definition lvl_bytes :: "size_t \<Rightarrow> nat \<Rightarrow> nat" where
  "lvl_bytes pages k = (unat pages div 2 ^ k + 31) div 32 * 4"

lemma sum_halves_le: "(\<Sum>k<n. m div 2 ^ k) + 2 * (m div 2 ^ n) \<le> 2 * (m :: nat)"
proof (induction n)
  case (Suc n)
  have "m div 2 ^ Suc n = m div 2 ^ n div 2" by (simp only: power_Suc2 div_mult2_eq)
  then have "2 * (m div 2 ^ Suc n) \<le> m div 2 ^ n" by simp
  moreover have "(\<Sum>k<Suc n. m div 2 ^ k) = (\<Sum>k<n. m div 2 ^ k) + m div 2 ^ n" by simp
  ultimately show ?case using Suc by linarith
qed simp

lemma lvl_bytes_le: "8 * lvl_bytes pages k \<le> unat pages div 2 ^ k + 31"
  by (simp add: lvl_bytes_def)

lemma sum_lvl_bytes_le:
  assumes "unat pages + 31 < 4294967296" and "n \<le> 32"
  shows "(\<Sum>k<n. lvl_bytes pages k) + 12 * n < 4294967296"
proof -
  have "8 * (\<Sum>k<n. lvl_bytes pages k) \<le> (\<Sum>k<n. unat pages div 2 ^ k + 31)"
    unfolding sum_distrib_left by (intro sum_mono lvl_bytes_le)
  also have "\<dots> = (\<Sum>k<n. unat pages div 2 ^ k) + n * 31" by (simp add: sum.distrib)
  finally show ?thesis using sum_halves_le [of "unat pages" n] assms by linarith
qed

lemma get_max_index_ok:
  assumes "unat i < n" and "n \<le> 32" and "2 ^ (n - 1) \<le> unat pages"
  shows "get_max_index pages i = Inr (drop_bit (unat i) pages - 1)"
    "0 < drop_bit (unat i) pages" "0 < unat pages div 2 ^ unat i"
proof -
  have "(2 :: nat) ^ unat i \<le> 2 ^ (n - 1)" using assms(1) by (intro power_increasing) auto
  also note assms(3)
  finally show d: "0 < unat pages div 2 ^ unat i" by (simp add: div_greater_zero_iff)
  show g: "0 < drop_bit (unat i) pages" using d
    unfolding word_less_nat_alt unat_drop_bit_32 by simp
  have "i < 32" using assms(1,2) by (simp add: word_less_nat_alt)
  then show "get_max_index pages i = Inr (drop_bit (unat i) pages - 1)"
    using g unfolding get_max_index_def by (simp only: kdefined_simps kassert_simps)
qed

lemma predict_size_level:
  assumes "unat pages + 31 < 4294967296" and "0 < drop_bit k pages"
  obtains sz where "bitmap_predict_size (drop_bit k pages) = Inr sz" "unat sz = lvl_bytes pages k"
proof -
  have "unat (drop_bit k pages) \<le> unat pages" unfolding unat_drop_bit_32 by simp
  then have "unat (drop_bit k pages) + 31 < 4294967296" using assms(1) by linarith
  then have "unat (align_roundup (drop_bit k pages) 32 div 8) = lvl_bytes pages k"
    unfolding lvl_bytes_def by (metis unat_predict_size unat_drop_bit_32)
  moreover have "bitmap_predict_size (drop_bit k pages)
      = Inr (align_roundup (drop_bit k pages) 32 div 8)"
    using assms(2) unfolding bitmap_predict_size_def by (simp only: kassert_simps)
  ultimately show ?thesis using that by blast
qed

lemma buddy_predict_loop_ok:
  assumes "unat pages + 31 < 4294967296" and "unat levels \<le> 32"
    and "2 ^ (unat levels - 1) \<le> unat pages" and "unat i \<le> unat levels"
    and "unat acc + (\<Sum>k = unat i..<unat levels. lvl_bytes pages k) < 4294967296"
  shows "\<exists>r. buddy_predict_loop pages levels i acc = Inr r \<and>
    unat r = unat acc + (\<Sum>k = unat i..<unat levels. lvl_bytes pages k)"
  using assms
proof (induction pages levels i acc rule: buddy_predict_loop.induct)
  case (1 pages levels i acc)
  show ?case
  proof (cases "i < levels")
    case False
    then have "unat i = unat levels" using "1.prems" by (simp add: word_less_nat_alt)
    then show ?thesis using False by (subst buddy_predict_loop.simps) simp
  next
    case True
    note s = size_t_loop_measure [OF True]
    have il: "unat i < unat levels" using s by simp
    note g = get_max_index_ok [OF il "1.prems"(2,3)]
    let ?d = "drop_bit (unat i) pages"
    obtain sz where sz: "bitmap_predict_size ?d = Inr sz" "unat sz = lvl_bytes pages (unat i)"
      by (rule predict_size_level [OF "1.prems"(1) g(2)])
    have sum: "(\<Sum>k = unat i..<unat levels. lvl_bytes pages k) =
        lvl_bytes pages (unat i) + (\<Sum>k = unat (i + 1)..<unat levels. lvl_bytes pages k)"
      using s il by (simp add: sum.atLeast_Suc_lessThan)
    have acc: "unat (acc + sz) = unat acc + lvl_bytes pages (unat i)"
      using "1.prems"(5) sum sz(2) by (simp add: unat_add32)
    have "\<exists>r. buddy_predict_loop pages levels (i + 1) (acc + sz) = Inr r \<and>
        unat r = unat (acc + sz) + (\<Sum>k = unat (i + 1)..<unat levels. lvl_bytes pages k)"
      by (rule "1.IH" [OF True])
         (use "1.prems" s sum acc sz(1) in auto)
    then show ?thesis
      using True g(1) sz(1) acc sum by (subst buddy_predict_loop.simps) (simp add: add.assoc)
  qed
qed

lemma buddy_levels:
  assumes "0 < pages"
  obtains l where "log2_floor pages = Inr l" "unat (l + 1) = Suc (unat l)" "unat (l + 1) \<le> 32"
    "2 ^ (unat (l + 1) - 1) \<le> unat pages" "unat pages < 2 ^ unat (l + 1)"
proof -
  obtain l where l: "log2_floor pages = Inr l" "unat l < 32" "2 ^ unat l \<le> unat pages"
    "unat pages < 2 ^ Suc (unat l)"
    using log2_floor_ok [of pages] assms by auto
  then have "unat (l + 1) = Suc (unat l)" by (simp add: unat_Suc32)
  then show ?thesis using that l by simp
qed

lemma buddy_predict_ok:
  assumes "0 < pages" and "unat pages + 31 < 4294967296" and "log2_floor pages = Inr l"
  obtains req where "buddy_predict_req_space pages = Inr req"
    "unat req = (\<Sum>k<unat (l + 1). lvl_bytes pages k) + 12 * unat (l + 1)"
    "unat ((l + 1) * sizeof_bitmap) = 12 * unat (l + 1)"
proof -
  obtain l' where "log2_floor pages = Inr l'" "unat (l' + 1) \<le> 32"
    "2 ^ (unat (l' + 1) - 1) \<le> unat pages"
    using buddy_levels [OF assms(1)] by metis
  then have l: "unat (l + 1) \<le> 32" "2 ^ (unat (l + 1) - 1) \<le> unat pages" using assms(3) by auto
  note sum = sum_lvl_bytes_le [OF assms(2) l(1)]
  obtain r where r: "buddy_predict_loop pages (l + 1) 0 0 = Inr r"
    "unat r = (\<Sum>k<unat (l + 1). lvl_bytes pages k)"
    using buddy_predict_loop_ok [OF assms(2) l, of 0 0] sum by (auto simp: atLeast0LessThan)
  have m: "unat ((l + 1) * sizeof_bitmap) = 12 * unat (l + 1)"
    using l(1) by (subst unat_mult32) simp_all
  have "unat (r + (l + 1) * sizeof_bitmap) = unat r + 12 * unat (l + 1)"
    using sum r(2) m by (subst unat_add32) simp_all
  moreover have "buddy_predict_req_space pages = Inr (r + (l + 1) * sizeof_bitmap)"
    using assms(3) r(1) by (simp add: buddy_predict_req_space_def Let_def)
  ultimately show ?thesis using that r(2) m by simp
qed

text \<open>A fresh level: its bitmap is well formed, has a bit per block, and every bit is false.\<close>

definition fresh_level :: "size_t \<Rightarrow> nat \<Rightarrow> bitmap \<Rightarrow> bool" where
  "fresh_level pages k bm \<longleftrightarrow> bitmap_wf bm \<and> unat (bm_length bm) = unat pages div 2 ^ k \<and>
     (\<forall>j < unat pages div 2 ^ k. \<not> bitmap_bits bm ! j)"

lemma buddy_init_loop_ok:
  assumes "unat pages + 31 < 4294967296" and "unat levels \<le> 32"
    and "2 ^ (unat levels - 1) \<le> unat pages" and "unat i \<le> unat levels"
    and "unat arr + 12 * unat levels < 4294967296" and "0 < unat arr"
    and "linear_wf alloc"
    and "linear_occ alloc + (\<Sum>k = unat i..<unat levels. lvl_bytes pages k) \<le> linear_cap alloc"
    and "length bms = unat i" and "\<forall>k < unat i. fresh_level pages k (bms ! k)"
  shows "\<exists>bms' alloc'. buddy_init_loop memory pages levels arr i bms alloc = Inr (bms', alloc') \<and>
    length bms' = unat levels \<and> (\<forall>k < unat levels. fresh_level pages k (bms' ! k)) \<and>
    linear_wf alloc' \<and> base alloc' = base alloc \<and> linear_cap alloc' = linear_cap alloc \<and>
    linear_occ alloc' = linear_occ alloc + (\<Sum>k = unat i..<unat levels. lvl_bytes pages k)"
  using assms
proof (induction memory pages levels arr i bms alloc rule: buddy_init_loop.induct)
  case (1 memory pages levels arr i bms alloc)
  show ?case
  proof (cases "i < levels")
    case False
    then have "unat i = unat levels" using "1.prems" by (simp add: word_less_nat_alt)
    moreover have "buddy_init_loop memory pages levels arr i bms alloc = Inr (bms, alloc)"
      using False by (subst buddy_init_loop.simps) simp
    ultimately show ?thesis using "1.prems" by auto
  next
    case True
    note s = size_t_loop_measure [OF True]
    have il: "unat i < unat levels" using s by simp
    note g = get_max_index_ok [OF il "1.prems"(2,3)]
    let ?d = "drop_bit (unat i) pages"
    let ?S = "\<Sum>k = unat (i + 1)..<unat levels. lvl_bytes pages k"
    obtain sz where sz: "bitmap_predict_size ?d = Inr sz" "unat sz = lvl_bytes pages (unat i)"
      by (rule predict_size_level [OF "1.prems"(1) g(2)])
    have sum: "(\<Sum>k = unat i..<unat levels. lvl_bytes pages k) = lvl_bytes pages (unat i) + ?S"
      using s il by (simp add: sum.atLeast_Suc_lessThan)
    obtain alloc1 where a1: "linear_alloc_alloc alloc sz = (position alloc, alloc1)"
      "linear_wf alloc1" "linear_occ alloc1 = linear_occ alloc + unat sz"
      "linear_cap alloc1 = linear_cap alloc" "base alloc1 = base alloc" "position alloc \<noteq> NULL"
      using linear_alloc_fits [OF "1.prems"(7), of sz] "1.prems"(8) sum sz(2) by auto
    have "unat (i * sizeof_bitmap) = unat i * 12"
      using il "1.prems"(2) by (subst unat_mult32) simp_all
    then have "unat (arr + i * sizeof_bitmap) = unat arr + unat i * 12"
      using il "1.prems"(5) by (subst unat_add32) simp_all
    then have arr: "arr + i * sizeof_bitmap \<noteq> NULL" using "1.prems"(6) by auto
    have len: "unat sz \<le> 4 * length (region_words memory (position alloc) sz)"
      by (simp add: region_words_def sz(2) lvl_bytes_def)
    have "unat ?d + 31 < 4294967296"
      using "1.prems"(1) div_le_dividend [of "unat pages" "2 ^ unat i"] unfolding unat_drop_bit_32
      by linarith
    then obtain bm where bm:
      "bitmap_init (position alloc) (region_words memory (position alloc) sz) ?d = Inr bm"
      "bitmap_wf bm" "bm_length bm = ?d" "bitmap_bits bm = replicate (unat ?d) False"
      using bitmap_init_bits [OF a1(6) g(2) _ sz(1) len] by blast
    have fresh: "fresh_level pages (unat i) bm"
      using bm unfolding fresh_level_def unat_drop_bit_32 [symmetric] by simp
    have step: "buddy_init_loop memory pages levels arr i bms alloc =
        buddy_init_loop memory pages levels arr (i + 1) (bms @ [bm]) alloc1"
      using True g(1) sz(1) a1(1,6) arr bm(1)
      by (subst buddy_init_loop.simps) (simp add: Let_def)
    have "\<forall>k < unat (i + 1). fresh_level pages k ((bms @ [bm]) ! k)"
      using "1.prems"(9,10) fresh s by (auto simp: nth_append less_Suc_eq)
    moreover have "linear_occ alloc1 + ?S \<le> linear_cap alloc1"
      using "1.prems"(8) a1 sum sz(2) by simp
    ultimately have "\<exists>bms' alloc'.
        buddy_init_loop memory pages levels arr (i + 1) (bms @ [bm]) alloc1 = Inr (bms', alloc') \<and>
        length bms' = unat levels \<and> (\<forall>k < unat levels. fresh_level pages k (bms' ! k)) \<and>
        linear_wf alloc' \<and> base alloc' = base alloc1 \<and> linear_cap alloc' = linear_cap alloc1 \<and>
        linear_occ alloc' = linear_occ alloc1 + ?S"
      using "1.prems" s a1 by (intro "1.IH" [OF True refl refl a1(1) [symmetric]]) simp_all
    then show ?thesis unfolding step sum using a1 sz(2) by (simp add: add.assoc)
  qed
qed

lemma buddy_init_ok:
  assumes p: "0 < pages" "unat pages + 31 < 4294967296" and wf: "linear_wf alloc"
    and req: "buddy_predict_req_space pages = Inr req"
    and fits: "linear_occ alloc + unat req \<le> linear_cap alloc"
  obtains b alloc' where "buddy_init memory pages alloc = Inr (pages - 1, b, alloc')"
    "buddy_wf pages b" "\<forall>k < unat (lvls b). \<forall>j < unat pages div 2 ^ k. \<not> bitat b k j"
    "linear_wf alloc'" "linear_occ alloc' = linear_occ alloc + unat req" "base alloc' = base alloc"
    "linear_cap alloc' = linear_cap alloc"
proof -
  obtain l where l: "log2_floor pages = Inr l" "unat (l + 1) = Suc (unat l)" "unat (l + 1) \<le> 32"
    "2 ^ (unat (l + 1) - 1) \<le> unat pages" "unat pages < 2 ^ unat (l + 1)"
    by (rule buddy_levels [OF p(1)])
  let ?n = "l + 1"
  obtain r where r: "buddy_predict_req_space pages = Inr r"
    "unat r = (\<Sum>k<unat ?n. lvl_bytes pages k) + 12 * unat ?n"
    "unat (?n * sizeof_bitmap) = 12 * unat ?n"
    by (rule buddy_predict_ok [OF p l(1)])
  have rq: "r = req" using r(1) req by simp
  obtain alloc1 where a1: "linear_alloc_alloc alloc (?n * sizeof_bitmap) = (position alloc, alloc1)"
    "linear_wf alloc1" "linear_occ alloc1 = linear_occ alloc + 12 * unat ?n"
    "linear_cap alloc1 = linear_cap alloc" "base alloc1 = base alloc" "position alloc \<noteq> NULL"
    "unat (position alloc1) = unat (position alloc) + 12 * unat ?n"
    using linear_alloc_fits [OF wf, of "?n * sizeof_bitmap"] fits r(2,3) rq by auto
  have arr: "unat (position alloc) + 12 * unat ?n < 4294967296"
    using a1(7) unat_lt32 [of "position alloc1"] by linarith
  have pos: "0 < unat (position alloc)" using a1(6) by (simp add: unat_gt_0)
  have cap: "linear_occ alloc1 + (\<Sum>k = unat (0 :: size_t)..<unat ?n. lvl_bytes pages k)
      \<le> linear_cap alloc1"
    using a1(3,4) fits r(2) rq by (simp add: atLeast0LessThan)
  have "unat (0 :: size_t) \<le> unat ?n" "length ([] :: bitmap list) = unat (0 :: size_t)"
    "\<forall>k < unat (0 :: size_t). fresh_level pages k ([] ! k)" by simp_all
  then obtain bms alloc2 where a2:
    "buddy_init_loop memory pages ?n (position alloc) 0 [] alloc1 = Inr (bms, alloc2)"
    "length bms = unat ?n" "\<forall>k < unat ?n. fresh_level pages k (bms ! k)" "linear_wf alloc2"
    "base alloc2 = base alloc1"
    "linear_cap alloc2 = linear_cap alloc1"
    "linear_occ alloc2 = linear_occ alloc1 + (\<Sum>k = unat (0 :: size_t)..<unat ?n. lvl_bytes pages k)"
    using buddy_init_loop_ok [OF p(2) l(3,4) _ arr pos a1(2) cap] by blast
  have occ2: "linear_occ alloc2 = linear_occ alloc + unat req"
    using a2(7) a1(3) r(2) rq by (simp add: atLeast0LessThan)
  have "unat (linear_alloc_occupied alloc2 - linear_alloc_occupied alloc) = unat req"
    using linear_occupied_occ [OF wf] linear_occupied_occ [OF a2(4)] occ2
    by (subst unat_sub32) simp_all
  then have used: "linear_alloc_occupied alloc2 - linear_alloc_occupied alloc = req"
    by (rule word32_eqI)
  have max: "get_max_index pages 0 = Inr (pages - 1)" using p(1) by (simp add: get_max_index_def)
  let ?b = "\<lparr>lvl_bitmaps = bms, lvls = ?n\<rparr>"
  have "buddy_init memory pages alloc = Inr (pages - 1, ?b, alloc2)"
    using l(1) a1(1) a2(1) r(1) rq used max by (simp add: buddy_init_def Let_def)
  moreover have "buddy_wf pages ?b"
    using p(2) l(2-5) a2(2,3) by (simp add: buddy_wf_def fresh_level_def)
  moreover have "\<not> bitat ?b k j" if "k < unat (lvls ?b)" "j < unat pages div 2 ^ k" for k j
    using a2(3) that by (simp add: fresh_level_def bitat_def)
  ultimately show ?thesis using that a2(4) occ2 a2(5,6) a1(4,5) by simp
qed

text \<open>Single pages are handed out from the lowest index up.\<close>

fun buddy_alloc_pages ::
    "nat \<Rightarrow> buddy_manager \<Rightarrow> (size_t option list \<times> buddy_manager) kres" where
  "buddy_alloc_pages 0 b = Inr ([], b)"
| "buddy_alloc_pages (Suc n) b =
     kbind (buddy_alloc b 0) (\<lambda>(r, b1).
     kbind (buddy_alloc_pages n b1) (\<lambda>(rs, b2). Inr (r # rs, b2)))"

lemma buddy_levels_pos: "buddy_wf pages b \<Longrightarrow> unat (0 :: size_t) < unat (lvls b)"
  by (simp add: buddy_wf_def)

lemma buddy_alloc_next_page:
  assumes wf: "buddy_wf pages b" and i: "i < unat pages"
    and b: "\<forall>j < unat pages. bitat b 0 j \<longleftrightarrow> j < i"
  obtains b' where "buddy_alloc b 0 = Inr (Some (of_nat i), b')" "buddy_wf pages b'"
    "lvls b' = lvls b" "\<forall>j < unat pages. bitat b' 0 j \<longleftrightarrow> j < Suc i"
proof -
  obtain n b' where n: "buddy_alloc b 0 = Inr (Some n, b')" "unat n < unat pages"
    "\<not> bitat b 0 (unat n)" "\<forall>j < unat n. bitat b 0 j"
    "marks pages True (\<lambda>k j. j = unat n div 2 ^ k) b b'"
    using buddy_alloc_ok [OF wf buddy_levels_pos [OF wf]] i b by auto
  have "\<not> unat n < i" using n(2,3) b by blast
  moreover have "\<not> i < unat n"
  proof
    assume "i < unat n"
    then have "bitat b 0 i" using n(4) by blast
    then show False using b i by blast
  qed
  ultimately have u: "unat n = i" by simp
  have "bitat b' 0 j = (j = i \<or> bitat b 0 j)" if "j < unat pages" for j
    using marksD(3) [OF n(5), of 0 j] buddy_levels_pos [OF wf] that u by simp
  then have "\<forall>j < unat pages. bitat b' 0 j \<longleftrightarrow> j < Suc i" using b by auto
  moreover have "n = of_nat i"
    using u unat_lt32 [of n] by (intro word32_eqI) (simp add: unat_of_nat32)
  ultimately show ?thesis using that n(1) marksD(1,2) [OF n(5)] by simp
qed

lemma buddy_alloc_pages_ok:
  assumes "buddy_wf pages b" and "i + n \<le> unat pages"
    and "\<forall>j < unat pages. bitat b 0 j \<longleftrightarrow> j < i"
  shows "\<exists>b'. buddy_alloc_pages n b = Inr (map (Some \<circ> of_nat) [i..<i + n], b') \<and>
    buddy_wf pages b' \<and> (\<forall>j < unat pages. bitat b' 0 j \<longleftrightarrow> j < i + n)"
  using assms
proof (induction n arbitrary: b i)
  case 0
  then show ?case by simp
next
  case (Suc n)
  then have i: "i < unat pages" by simp
  obtain b1 where b1: "buddy_alloc b 0 = Inr (Some (of_nat i), b1)" "buddy_wf pages b1"
    "lvls b1 = lvls b" "\<forall>j < unat pages. bitat b1 0 j \<longleftrightarrow> j < Suc i"
    by (rule buddy_alloc_next_page [OF Suc.prems(1) i Suc.prems(3)])
  then obtain b2 where "buddy_alloc_pages n b1 = Inr (map (Some \<circ> of_nat) [Suc i..<Suc i + n], b2)"
    "buddy_wf pages b2" "\<forall>j < unat pages. bitat b2 0 j \<longleftrightarrow> j < Suc i + n"
    using Suc.IH [OF b1(2) _ b1(4)] Suc.prems(2) by auto
  moreover have "[i..<i + Suc n] = i # [Suc i..<Suc i + n]" by (simp add: upt_conv_Cons)
  ultimately show ?case using b1(1) by simp
qed

lemma buddy_alloc_drained:
  assumes wf: "buddy_wf pages b" and "\<forall>j < unat pages. bitat b 0 j"
  shows "buddy_alloc b 0 = Inr (None, b)"
  using buddy_alloc_ok [OF wf buddy_levels_pos [OF wf]] assms(2) by auto

section \<open>Properties\<close>

text \<open>Given a region with the space \<open>buddy_predict_req_space\<close> asks for, \<open>buddy_init\<close> succeeds, uses
  up exactly that space, and sets up a well-formed manager in which every page is free. The
  number it returns is one less than the number of free pages its header promises.\<close>

theorem buddy_init_fresh:
  assumes "0 < pages" and "unat pages + 31 < 4294967296" and "linear_wf alloc"
    and "buddy_predict_req_space pages = Inr req"
    and "linear_occ alloc + unat req \<le> linear_cap alloc"
  shows "\<exists>b alloc'. buddy_init memory pages alloc = Inr (pages - 1, b, alloc') \<and> buddy_wf pages b \<and>
    linear_wf alloc' \<and> linear_occ alloc' = linear_occ alloc + unat req \<and>
    (\<forall>p. buddy_is_free b p = (if p < pages then Inr True else Inl Kassert))"
proof -
  obtain b alloc' where r: "buddy_init memory pages alloc = Inr (pages - 1, b, alloc')"
    "buddy_wf pages b" "\<forall>k < unat (lvls b). \<forall>j < unat pages div 2 ^ k. \<not> bitat b k j"
    "linear_wf alloc'" "linear_occ alloc' = linear_occ alloc + unat req" "base alloc' = base alloc"
    "linear_cap alloc' = linear_cap alloc"
    by (rule buddy_init_ok [OF assms])
  have "buddy_is_free b p = (if p < pages then Inr True else Inl Kassert)" for p
    using lvl_get_ok [OF r(2) buddy_levels_pos [OF r(2)], of p] r(3)
      buddy_levels_pos [OF r(2)]
    by (simp add: buddy_is_free_def word_less_nat_alt)
  then show ?thesis using r by blast
qed

theorem buddy_init_fresh_witness:
  "\<exists>b alloc'. buddy_init (\<lambda>p. 0xFFFFFFFF) 4 \<lparr>base = 0x1000, position = 0x1000, limit = 0x1030\<rparr>
      = Inr (4 - 1, b, alloc') \<and> buddy_wf 4 b \<and> linear_wf alloc' \<and>
    linear_occ alloc' = linear_occ \<lparr>base = 0x1000, position = 0x1000, limit = 0x1030\<rparr> + unat (48 :: size_t) \<and>
    (\<forall>p. buddy_is_free b p = (if p < 4 then Inr True else Inl Kassert))"
proof (rule buddy_init_fresh)
  show "buddy_predict_req_space 4 = Inr 48" by code_simp
qed (simp_all add: linear_wf_def linear_occ_def linear_cap_def)

text \<open>C30: allocating a single page from a well-formed manager returns the least free page and takes
  exactly that page, or fails and changes nothing when no page is free.\<close>

theorem buddy_alloc_page:
  assumes "buddy_wf pages b"
  shows "(buddy_alloc b 0 = Inr (None, b) \<and> (\<forall>p < pages. buddy_is_free b p = Inr False)) \<or>
    (\<exists>n b'. buddy_alloc b 0 = Inr (Some n, b') \<and> buddy_wf pages b' \<and>
       buddy_is_free b n = Inr True \<and> (\<forall>p < n. buddy_is_free b p = Inr False) \<and>
       (\<forall>p < pages. buddy_is_free b' p = (if p = n then Inr False else buddy_is_free b p)))"
proof -
  note l = buddy_levels_pos [OF assms]
  have free: "buddy_is_free x p = Inr (\<not> bitat x 0 (unat p))"
    if "buddy_wf pages x" "p < pages" for x p
    using lvl_get_ok [OF that(1) buddy_levels_pos [OF that(1)], of p] that(2)
    by (simp add: buddy_is_free_def word_less_nat_alt)
  consider "buddy_alloc b 0 = Inr (None, b)" "\<forall>j < unat pages. bitat b 0 j"
    | n b' where "buddy_alloc b 0 = Inr (Some n, b')" "unat n < unat pages" "\<not> bitat b 0 (unat n)"
      "\<forall>j < unat n. bitat b 0 j" "marks pages True (\<lambda>k j. j = unat n div 2 ^ k) b b'"
    using buddy_alloc_ok [OF assms l] by auto
  then show ?thesis
  proof cases
    case 1
    then show ?thesis using free [OF assms] by (simp add: word_less_nat_alt)
  next
    case (2 n b')
    have n: "n < pages" using 2(2) by (simp add: word_less_nat_alt)
    have "buddy_is_free b' p = (if p = n then Inr False else buddy_is_free b p)" if "p < pages" for p
      using free [OF marksD(1) [OF 2(5)] that] free [OF assms that] that
        marksD(3) [OF 2(5), of 0 "unat p"] l
      by (auto simp: word_less_nat_alt dest: word32_eqI)
    moreover have "buddy_is_free b p = Inr False" if "p < n" for p
      using free [OF assms, of p] 2(4) n that by (simp add: word_less_nat_alt)
    moreover have "buddy_is_free b n = Inr True" using free [OF assms n] 2(3) by simp
    ultimately show ?thesis using 2(1) marksD(1) [OF 2(5)] by blast
  qed
qed

definition buddy_example :: "u32 \<Rightarrow> u32 \<Rightarrow> u32 \<Rightarrow> buddy_manager" where
  "buddy_example w0 w1 w2 = \<lparr>lvl_bitmaps =
     [\<lparr>bitsets = [w0], sets_count = 1, bm_length = 4\<rparr>,
      \<lparr>bitsets = [w1], sets_count = 1, bm_length = 2\<rparr>,
      \<lparr>bitsets = [w2], sets_count = 1, bm_length = 1\<rparr>], lvls = 3\<rparr>"

lemma buddy_example_wf: "buddy_wf 4 (buddy_example w0 w1 w2)"
  by (simp add: buddy_wf_def buddy_example_def bitmap_wf_def div_ceil_def all_less_3)

theorem buddy_alloc_page_witness:
  "\<exists>n b'. buddy_alloc (buddy_example 5 1 1) 0 = Inr (Some n, b') \<and> buddy_wf 4 b'"
proof -
  have "buddy_is_free (buddy_example 5 1 1) 1 = Inr True" by code_simp
  then show ?thesis using buddy_alloc_page [OF buddy_example_wf, of 5 1 1] by auto
qed

text \<open>From a manager that \<open>buddy_init\<close> has set up for \<open>pages\<close> pages, single-page requests are
  granted exactly \<open>pages\<close> times, in the order 0, 1, 2, and so on; the next one fails.\<close>

theorem buddy_pages_all_allocated:
  assumes "0 < pages" and "unat pages + 31 < 4294967296" and "linear_wf alloc"
    and "buddy_predict_req_space pages = Inr req"
    and "linear_occ alloc + unat req \<le> linear_cap alloc"
    and "buddy_init memory pages alloc = Inr (m, b, alloc')"
  shows "\<exists>b'. buddy_alloc_pages (unat pages) b =
      Inr (map (\<lambda>i. Some (of_nat i)) [0..<unat pages], b') \<and> buddy_alloc b' 0 = Inr (None, b')"
proof -
  obtain b1 alloc1 where r: "buddy_init memory pages alloc = Inr (pages - 1, b1, alloc1)"
    "buddy_wf pages b1" "\<forall>k < unat (lvls b1). \<forall>j < unat pages div 2 ^ k. \<not> bitat b1 k j"
    "linear_wf alloc1" "linear_occ alloc1 = linear_occ alloc + unat req" "base alloc1 = base alloc"
    by (rule buddy_init_ok [OF assms(1-5)])
  then have wf: "buddy_wf pages b" using assms(6) by simp
  have f: "\<forall>j < unat pages. \<not> bitat b 0 j"
    using r(1,3) buddy_levels_pos [OF wf] assms(6) by simp
  obtain b' where b': "buddy_alloc_pages (unat pages) b =
      Inr (map (Some \<circ> of_nat) [0..<unat pages], b')" "buddy_wf pages b'"
    "\<forall>j < unat pages. bitat b' 0 j"
    using buddy_alloc_pages_ok [OF wf, of 0 "unat pages"] f by auto
  then show ?thesis using buddy_alloc_drained [OF b'(2,3)] by (simp add: comp_def)
qed

theorem buddy_pages_all_allocated_witness:
  "\<exists>b'. buddy_alloc_pages (unat (4 :: size_t)) (buddy_example 0 0 0) =
      Inr (map (\<lambda>i. Some (of_nat i)) [0..<unat (4 :: size_t)], b') \<and>
    buddy_alloc b' 0 = Inr (None, b')"
proof (rule buddy_pages_all_allocated)
  show "buddy_predict_req_space 4 = Inr 48" by code_simp
  show "buddy_init (\<lambda>p. 0xFFFFFFFF) 4 \<lparr>base = 0x1000, position = 0x1000, limit = 0x1030\<rparr> =
      Inr (3, buddy_example 0 0 0, \<lparr>base = 0x1000, position = 0x1030, limit = 0x1030\<rparr>)"
    by code_simp
qed (simp_all add: linear_wf_def linear_occ_def linear_cap_def)

text \<open>C31: a request for more than one page that is served at an index other than 0 is not marked as
  taken on its own level: the ancestor loop starts at level 0 with the index of the request's
  level. The next request of the same order is given the same pages again.\<close>

theorem buddy_alloc_same_block_twice:
  assumes "buddy_wf pages b" and "0 < order" and "order < lvls b"
    and "buddy_alloc b order = Inr (Some n, b')" and "0 < n"
  shows "\<exists>b''. buddy_alloc b' order = Inr (Some n, b'')"
proof -
  have l: "unat order < unat (lvls b)" and o: "0 < unat order" and n0: "0 < unat n"
    using assms(2,3,5) by (simp_all add: word_less_nat_alt)
  have n: "unat n < unat pages div 2 ^ unat order" "\<not> bitat b (unat order) (unat n)"
    "\<forall>j < unat n. bitat b (unat order) j" and
    m: "marks pages True (\<lambda>k j. (k < unat order \<and> j div 2 ^ (unat order - k) = unat n) \<or>
         j = unat n div 2 ^ k) b b'"
    using buddy_alloc_ok [OF assms(1) l] assms(4) by auto
  have wf': "buddy_wf pages b'" and l': "unat order < unat (lvls b')" using marksD(1,2) [OF m] l by auto
  have "unat n div 2 ^ unat order < unat n" by (intro div_less_dividend one_less_power) (use n0 o in auto)
  then have free: "\<not> bitat b' (unat order) (unat n)" using marksD(3) [OF m l n(1)] n(2) by simp
  have below: "bitat b' (unat order) j" if "j < unat n" for j
    using marksD(3) [OF m l, of j] n(1,3) that by simp
  obtain n2 b2 where n2: "buddy_alloc b' order = Inr (Some n2, b2)" "\<not> bitat b' (unat order) (unat n2)"
    "\<forall>j < unat n2. bitat b' (unat order) j"
    using buddy_alloc_ok [OF wf' l'] free n(1) by auto
  have "unat n2 = unat n" using n2(2,3) free below by (meson linorder_neqE_nat)
  then show ?thesis using n2(1) by (auto dest: word32_eqI)
qed

theorem buddy_alloc_same_block_twice_witness:
  "\<exists>b''. buddy_alloc (buddy_example 15 1 1) 1 = Inr (Some 1, b'')"
proof (rule buddy_alloc_same_block_twice [OF buddy_example_wf [of 3 1 1]])
  show "buddy_alloc (buddy_example 3 1 1) 1 = Inr (Some 1, buddy_example 15 1 1)" by code_simp
qed (simp_all add: buddy_example_def)

text \<open>\<open>buddy_free\<close> of a block whose buddy exists clears the block and its descendants and
  nothing else: the loop over the ancestors always stops in its first round, so no ancestor is
  ever free again. A block without a buddy in range (the last one of an odd level, or the only
  one of the top level) fails the bounds assert of the bitmap.\<close>

theorem buddy_free_never_coalesces:
  assumes "buddy_wf pages b" and "order < lvls b" and "unat n < unat pages div 2 ^ unat order"
  shows "if 2 * (unat n div 2) + 1 < unat pages div 2 ^ unat order
    then \<exists>b'. buddy_free b n order = Inr b' \<and> buddy_wf pages b' \<and>
      (\<forall>k < unat (lvls b). \<forall>j < unat pages div 2 ^ k. bitat b' k j =
        (if k \<le> unat order \<and> j div 2 ^ (unat order - k) = unat n then False else bitat b k j))
    else buddy_free b n order = Inl Kassert"
proof -
  have "unat order < unat (lvls b)" using assms(2) by (simp add: word_less_nat_alt)
  from buddy_free_ok [OF assms(1) this assms(3)] show ?thesis
    unfolding marks_def by (auto split: if_splits)
qed

theorem buddy_free_never_coalesces_witness:
  "buddy_free (buddy_example 15 3 1) 0 2 = Inl Kassert \<and>
   (\<exists>b'. buddy_free (buddy_example 1 1 1) 0 0 = Inr b' \<and> bitat b' 1 0 = bitat (buddy_example 1 1 1) 1 0)"
proof -
  have l: "lvls (buddy_example w0 w1 w2) = 3" for w0 w1 w2 by (simp add: buddy_example_def)
  have "buddy_free (buddy_example 15 3 1) 0 2 = Inl Kassert"
    using buddy_free_never_coalesces [OF buddy_example_wf [of 15 3 1], of 2 0] by (simp add: l)
  moreover have "\<exists>b'. buddy_free (buddy_example 1 1 1) 0 0 = Inr b' \<and>
      bitat b' 1 0 = bitat (buddy_example 1 1 1) 1 0"
    using buddy_free_never_coalesces [OF buddy_example_wf [of 1 1 1], of 0 0] by (auto simp: l)
  ultimately show ?thesis by blast
qed

text \<open>An order above the number of levels is refused, but the check lets the order that equals
  the number of levels through, and the bitmap of that level lies past the end of the array.\<close>

theorem buddy_alloc_order_limit:
  assumes "buddy_wf pages b" and "lvls b \<le> order"
  shows "buddy_alloc b order = (if order = lvls b then Inl Undef else Inr (None, b))"
  using assms by (auto simp: buddy_alloc_def buddy_wf_def)

theorem buddy_alloc_order_limit_witness:
  "buddy_alloc (buddy_example 0 0 0) 3 = Inl Undef \<and>
   buddy_alloc (buddy_example 0 0 0) 4 = Inr (None, buddy_example 0 0 0)"
  using buddy_alloc_order_limit [OF buddy_example_wf [of 0 0 0], of 3]
    buddy_alloc_order_limit [OF buddy_example_wf [of 0 0 0], of 4]
  by (simp add: buddy_example_def)

end
