(* ===== verification/Kvstore.thy ===== *)
theory Kvstore
  imports Cstd Linear
begin

text \<open>
  kernel/lib/ds/kvstore.c: a store of key-value pairs in two arrays. Keys and values are
  addresses, and a \<open>NULL\<close> key marks a free slot. The comparison function is a parameter of the
  store, as it is in the code; \<open>kstrcmp_at\<close> below is the one the kernel uses. The store itself
  is passed by value, so the asserts that its address is not \<open>NULL\<close> hold by construction.
\<close>

record kvstore =
  kv_keys :: "addr list"
  kv_cap :: size_t
  kv_values :: "addr list"
  kv_cmpfn :: "addr \<Rightarrow> addr \<Rightarrow> int kres"

abbreviation sizeof_kvstore :: size_t where
  "sizeof_kvstore \<equiv> 16"

section \<open>Operations\<close>

definition kvstore_predict_reqmem :: "size_t \<Rightarrow> size_t" where
  "kvstore_predict_reqmem cap =
     (let space = 0; space = space + sizeof_kvstore; space = space + cap * 4;
          space = space + cap * 4 in space)"

function kvstore_clear_loop ::
    "addr list \<Rightarrow> addr list \<Rightarrow> size_t \<Rightarrow> size_t \<Rightarrow> (addr list \<times> addr list) kres" where
  "kvstore_clear_loop ks vs i cap =
     (if i < cap
      then kdefined (unat i < length ks \<and> unat i < length vs)
             (kvstore_clear_loop (ks[unat i := NULL]) (vs[unat i := NULL]) (i + 1) cap)
      else Inr (ks, vs))"
  by pat_completeness auto
termination
  by (relation "measure (\<lambda>(ks, vs, i, cap). unat cap - unat i)")
     (use size_t_loop_measure in force)+

text \<open>\<open>memory\<close> gives the words that the region held before; the result \<open>None\<close> is \<open>NULL\<close>.\<close>

definition kvstore_create :: "(addr \<Rightarrow> u32) \<Rightarrow> addr \<Rightarrow> size_t \<Rightarrow> (addr \<Rightarrow> addr \<Rightarrow> int kres) \<Rightarrow>
    kvstore option kres" where
  "kvstore_create memory mem cap cmpfn =
     kbind (linear_alloc_init mem (kvstore_predict_reqmem cap)) (\<lambda>a0.
       let (kv, a1) = linear_alloc_alloc a0 sizeof_kvstore in
       if NULL = kv then Inr None
       else let (ks, a2) = linear_alloc_alloc a1 (cap * 4) in
         if NULL = ks then Inr None
         else let (vs, a3) = linear_alloc_alloc a2 (cap * 4) in
           if NULL = vs then Inr None
           else kbind (kvstore_clear_loop (region_words memory ks (cap * 4))
                         (region_words memory vs (cap * 4)) 0 cap) (\<lambda>(keys, values).
             kassert (linear_alloc_occupied a3 = kvstore_predict_reqmem cap)
               (Inr (Some \<lparr>kv_keys = keys, kv_cap = cap, kv_values = values, kv_cmpfn = cmpfn\<rparr>))))"

definition kvstore_capacity :: "kvstore \<Rightarrow> size_t" where
  "kvstore_capacity kv = kv_cap kv"

function kvstore_iter_loop ::
    "kvstore \<Rightarrow> (addr \<Rightarrow> addr \<Rightarrow> 's \<Rightarrow> 's) \<Rightarrow> 's \<Rightarrow> size_t \<Rightarrow> 's kres" where
  "kvstore_iter_loop kv itfn data i =
     (if i < kv_cap kv
      then kdefined (unat i < length (kv_keys kv) \<and> unat i < length (kv_values kv))
        (if kv_keys kv ! unat i \<noteq> NULL
         then kvstore_iter_loop kv itfn (itfn (kv_keys kv ! unat i) (kv_values kv ! unat i) data) (i + 1)
         else kvstore_iter_loop kv itfn data (i + 1))
      else Inr data)"
  by pat_completeness auto
termination
  by (relation "measure (\<lambda>(kv, itfn, data, i). unat (kv_cap kv) - unat i)")
     (use size_t_loop_measure in force)+

definition kvstore_iter :: "kvstore \<Rightarrow> (addr \<Rightarrow> addr \<Rightarrow> 's \<Rightarrow> 's) \<Rightarrow> 's \<Rightarrow> 's kres" where
  "kvstore_iter kv itfn data = kvstore_iter_loop kv itfn data 0"

function kvstore_find_loop :: "kvstore \<Rightarrow> addr \<Rightarrow> size_t \<Rightarrow> addr option kres" where
  "kvstore_find_loop kv key i =
     (if i < kv_cap kv
      then kdefined (unat i < length (kv_keys kv))
        (if NULL \<noteq> kv_keys kv ! unat i
         then kbind (kv_cmpfn kv (kv_keys kv ! unat i) key) (\<lambda>d.
                if 0 = d
                then kdefined (unat i < length (kv_values kv)) (Inr (Some (kv_values kv ! unat i)))
                else kvstore_find_loop kv key (i + 1))
         else kvstore_find_loop kv key (i + 1))
      else Inr None)"
  by pat_completeness auto
termination
  by (relation "measure (\<lambda>(kv, key, i). unat (kv_cap kv) - unat i)")
     (use size_t_loop_measure in force)+

definition kvstore_find :: "kvstore \<Rightarrow> addr \<Rightarrow> addr option kres" where
  "kvstore_find kv key = kassert (key \<noteq> NULL) (kvstore_find_loop kv key 0)"

text \<open>The search of \<open>kvstore_append\<close>: \<open>found\<close> and \<open>ndx\<close>.\<close>

function kvstore_free_slot :: "kvstore \<Rightarrow> size_t \<Rightarrow> (bool \<times> size_t) kres" where
  "kvstore_free_slot kv ndx =
     (if ndx < kv_cap kv
      then kdefined (unat ndx < length (kv_keys kv))
        (if kv_keys kv ! unat ndx = NULL then Inr (True, ndx) else kvstore_free_slot kv (ndx + 1))
      else Inr (False, ndx))"
  by pat_completeness auto
termination
  by (relation "measure (\<lambda>(kv, i). unat (kv_cap kv) - unat i)")
     (use size_t_loop_measure in force)+

definition kvstore_append :: "kvstore \<Rightarrow> addr \<Rightarrow> addr \<Rightarrow> kvstore kres" where
  "kvstore_append kv key val =
     kassert (key \<noteq> NULL)
    (kbind (kvstore_find kv key) (\<lambda>present.
     kassert (present = None)
    (kbind (kvstore_free_slot kv 0) (\<lambda>(found, ndx).
     kassert (found = True)
    (kdefined (unat ndx < length (kv_keys kv) \<and> unat ndx < length (kv_values kv))
    (kassert (kv_keys kv ! unat ndx = NULL)
    (kassert (kv_values kv ! unat ndx = NULL)
       (Inr (kv\<lparr>kv_keys := (kv_keys kv)[unat ndx := key],
                kv_values := (kv_values kv)[unat ndx := val]\<rparr>)))))))))"

function kvstore_remove_loop :: "kvstore \<Rightarrow> addr \<Rightarrow> size_t \<Rightarrow> kvstore kres" where
  "kvstore_remove_loop kv key i =
     (if i < kv_cap kv
      then kdefined (unat i < length (kv_keys kv) \<and> unat i < length (kv_values kv))
        (kbind (kv_cmpfn kv (kv_keys kv ! unat i) key) (\<lambda>d.
           kvstore_remove_loop
             (if d = 0 then kv\<lparr>kv_keys := (kv_keys kv)[unat i := NULL],
                               kv_values := (kv_values kv)[unat i := NULL]\<rparr> else kv)
             key (i + 1)))
      else Inr kv)"
  by pat_completeness auto
termination
  by (relation "measure (\<lambda>(kv, key, i). unat (kv_cap kv) - unat i)")
     (auto dest!: size_t_loop_measure)

definition kvstore_remove :: "kvstore \<Rightarrow> addr \<Rightarrow> kvstore kres" where
  "kvstore_remove kv key = kassert (key \<noteq> NULL) (kvstore_remove_loop kv key 0)"

function kvstore_change_loop :: "kvstore \<Rightarrow> addr \<Rightarrow> addr \<Rightarrow> size_t \<Rightarrow> kvstore kres" where
  "kvstore_change_loop kv key val i =
     (if i < kv_cap kv
      then kdefined (unat i < length (kv_keys kv) \<and> unat i < length (kv_values kv))
        (kbind (kv_cmpfn kv (kv_keys kv ! unat i) key) (\<lambda>d.
           kvstore_change_loop
             (if d = 0 then kv\<lparr>kv_values := (kv_values kv)[unat i := val]\<rparr> else kv)
             key val (i + 1)))
      else Inr kv)"
  by pat_completeness auto
termination
  by (relation "measure (\<lambda>(kv, key, val, i). unat (kv_cap kv) - unat i)")
     (auto dest!: size_t_loop_measure)

definition kvstore_change :: "kvstore \<Rightarrow> addr \<Rightarrow> addr \<Rightarrow> kvstore kres" where
  "kvstore_change kv key val = kassert (key \<noteq> NULL) (kvstore_change_loop kv key val 0)"

function kvstore_length_loop :: "kvstore \<Rightarrow> size_t \<Rightarrow> size_t \<Rightarrow> size_t kres" where
  "kvstore_length_loop kv len i =
     (if i < kv_cap kv
      then kdefined (unat i < length (kv_keys kv))
        (kvstore_length_loop kv (if kv_keys kv ! unat i \<noteq> NULL then len + 1 else len) (i + 1))
      else Inr len)"
  by pat_completeness auto
termination
  by (relation "measure (\<lambda>(kv, len, i). unat (kv_cap kv) - unat i)")
     (use size_t_loop_measure in force)+

definition kvstore_length :: "kvstore \<Rightarrow> size_t kres" where
  "kvstore_length kv = kvstore_length_loop kv 0 0"

declare kvstore_clear_loop.simps [simp del] kvstore_iter_loop.simps [simp del]
  kvstore_find_loop.simps [simp del] kvstore_free_slot.simps [simp del]
  kvstore_remove_loop.simps [simp del] kvstore_change_loop.simps [simp del]
  kvstore_length_loop.simps [simp del]

section \<open>The map a store represents\<close>

definition kv_shape :: "kvstore \<Rightarrow> bool" where
  "kv_shape kv \<longleftrightarrow> length (kv_keys kv) = unat (kv_cap kv) \<and> length (kv_values kv) = unat (kv_cap kv)"

definition kv_slots :: "kvstore \<Rightarrow> (addr \<times> addr) list" where
  "kv_slots kv = zip (kv_keys kv) (kv_values kv)"

definition kv_entries :: "(addr \<Rightarrow> 'k) \<Rightarrow> (addr \<times> addr) list \<Rightarrow> ('k \<times> addr) list" where
  "kv_entries key_of xs = map (\<lambda>(k, v). (key_of k, v)) (filter (\<lambda>(k, v). k \<noteq> NULL) xs)"

definition kv_abs :: "(addr \<Rightarrow> 'k) \<Rightarrow> kvstore \<Rightarrow> 'k \<rightharpoonup> addr" where
  "kv_abs key_of kv = map_of (kv_entries key_of (kv_slots kv))"

text \<open>A store in use: free slots hold no value, and no two keys compare as equal.\<close>

definition kv_wf :: "(addr \<Rightarrow> bool) \<Rightarrow> (addr \<Rightarrow> 'k) \<Rightarrow> kvstore \<Rightarrow> bool" where
  "kv_wf valid key_of kv \<longleftrightarrow> kv_shape kv \<and>
     (\<forall>(k, v) \<in> set (kv_slots kv). if k = NULL then v = NULL else valid k) \<and>
     distinct (map fst (kv_entries key_of (kv_slots kv)))"

lemma kv_entries_simps [simp]:
  "kv_entries f [] = []"
  "kv_entries f ((k, v) # xs) = (if k = NULL then kv_entries f xs else (f k, v) # kv_entries f xs)"
  by (simp_all add: kv_entries_def)

lemma kv_entries_append: "kv_entries f (xs @ ys) = kv_entries f xs @ kv_entries f ys"
  by (simp add: kv_entries_def)

lemma kv_slots_drop:
  assumes "kv_shape kv" and "i < kv_cap kv"
  shows "drop (unat i) (kv_slots kv) =
    (kv_keys kv ! unat i, kv_values kv ! unat i) # drop (unat (i + 1)) (kv_slots kv)"
    "unat i < length (kv_keys kv)" "unat i < length (kv_values kv)"
    "(kv_keys kv ! unat i, kv_values kv ! unat i) \<in> set (kv_slots kv)"
    "unat (i + 1) \<le> unat (kv_cap kv)"
proof -
  note s = size_t_loop_measure [OF assms(2)]
  have l: "unat i < length (kv_slots kv)" using s assms(1) by (simp add: kv_slots_def kv_shape_def)
  then show 1: "drop (unat i) (kv_slots kv) =
      (kv_keys kv ! unat i, kv_values kv ! unat i) # drop (unat (i + 1)) (kv_slots kv)"
    using s by (simp add: Cons_nth_drop_Suc [symmetric] kv_slots_def)
  show "unat i < length (kv_keys kv)" "unat i < length (kv_values kv)"
    using s assms(1) by (simp_all add: kv_shape_def)
  show "(kv_keys kv ! unat i, kv_values kv ! unat i) \<in> set (kv_slots kv)"
    using arg_cong [OF 1, of set] set_drop_subset [of "unat i" "kv_slots kv"] by auto
  show "unat (i + 1) \<le> unat (kv_cap kv)" using s by simp
qed

lemma kv_slots_end: "kv_shape kv \<Longrightarrow> \<not> i < kv_cap kv \<Longrightarrow> drop (unat i) (kv_slots kv) = []"
  by (simp add: kv_slots_def kv_shape_def word_less_nat_alt)

text \<open>The first free slot, and the store with a pair written into it.\<close>

lemma kvstore_free_slot_ok:
  assumes "kv_shape kv" and "unat i \<le> unat (kv_cap kv)"
  shows "\<exists>found n. kvstore_free_slot kv i = Inr (found, n) \<and>
    (if found then unat i \<le> unat n \<and> unat n < unat (kv_cap kv) \<and> kv_keys kv ! unat n = NULL
     else NULL \<notin> set (map fst (drop (unat i) (kv_slots kv))))"
  using assms
proof (induction kv i rule: kvstore_free_slot.induct)
  case (1 kv i)
  show ?case
  proof (cases "i < kv_cap kv")
    case False
    then have "kvstore_free_slot kv i = Inr (False, i)" by (subst kvstore_free_slot.simps) simp
    then show ?thesis using kv_slots_end [OF "1.prems"(1) False] by auto
  next
    case True
    note d = kv_slots_drop [OF "1.prems"(1) True] and s = size_t_loop_measure [OF True]
    show ?thesis
    proof (cases "kv_keys kv ! unat i = NULL")
      case free: True
      have "kvstore_free_slot kv i = Inr (True, i)"
        using True d(2) free by (subst kvstore_free_slot.simps) simp
      then show ?thesis using free True by (auto simp: word_less_nat_alt)
    next
      case False
      have step: "kvstore_free_slot kv i = kvstore_free_slot kv (i + 1)"
        using True d(2) False by (subst kvstore_free_slot.simps) simp
      obtain found n where "kvstore_free_slot kv (i + 1) = Inr (found, n)"
        "if found then unat (i + 1) \<le> unat n \<and> unat n < unat (kv_cap kv) \<and> kv_keys kv ! unat n = NULL
         else NULL \<notin> set (map fst (drop (unat (i + 1)) (kv_slots kv)))"
        using "1.IH" [OF True False "1.prems"(1) d(5)] by blast
      then show ?thesis using False s d(1) unfolding step by (cases found) auto
    qed
  qed
qed

section \<open>The interface a store needs of its comparison function\<close>

text \<open>
  Keys that are \<open>valid\<close> can be compared, and the result is 0 exactly when they stand for the
  same \<open>key_of\<close>. Nothing is said of other arguments: \<open>NULL\<close> is not valid.
\<close>

locale key_comparator =
  fixes cmp :: "addr \<Rightarrow> addr \<Rightarrow> int kres"
    and valid :: "addr \<Rightarrow> bool"
    and key_of :: "addr \<Rightarrow> 'k"
  assumes cmp_law: "valid a \<Longrightarrow> valid b \<Longrightarrow> \<exists>d. cmp a b = Inr d \<and> (d = 0 \<longleftrightarrow> key_of a = key_of b)"
    and valid_law: "valid a \<Longrightarrow> a \<noteq> NULL"
begin

lemma find_loop_ok:
  assumes "kv_wf valid key_of kv" and "kv_cmpfn kv = cmp" and "valid key"
    and "unat i \<le> unat (kv_cap kv)"
  shows "kvstore_find_loop kv key i =
    Inr (map_of (kv_entries key_of (drop (unat i) (kv_slots kv))) (key_of key))"
  using assms
proof (induction kv key i rule: kvstore_find_loop.induct)
  case (1 kv key i)
  have shape: "kv_shape kv" using "1.prems"(1) by (simp add: kv_wf_def)
  show ?case
  proof (cases "i < kv_cap kv")
    case False
    then show ?thesis using kv_slots_end [OF shape] by (subst kvstore_find_loop.simps) simp
  next
    case True
    note d = kv_slots_drop [OF shape True]
    let ?k = "kv_keys kv ! unat i"
    show ?thesis
    proof (cases "?k = NULL")
      case null: True
      then show ?thesis
        using True d "1.IH"(2) [OF True _ "1.prems"(1-3)] by (subst kvstore_find_loop.simps) simp
    next
      case False
      then have "valid ?k" using "1.prems"(1) d(4) by (auto simp: kv_wf_def split: if_splits)
      then obtain r where r: "cmp ?k key = Inr r" "r = 0 \<longleftrightarrow> key_of ?k = key_of key"
        using cmp_law "1.prems"(3) by blast
      show ?thesis
      proof (cases "r = 0")
        case True2: True
        then show ?thesis
          using True False d r "1.prems"(2) by (subst kvstore_find_loop.simps) simp
      next
        case F2: False
        have "kvstore_find_loop kv key (i + 1) =
          Inr (map_of (kv_entries key_of (drop (unat (i + 1)) (kv_slots kv))) (key_of key))"
          using "1.IH"(1) [OF True] False F2 "1.prems"(1-3) d(5) by auto
        then show ?thesis
          using True False F2 d r "1.prems"(2) by (subst kvstore_find_loop.simps) simp
      qed
    qed
  qed
qed

lemma find_ok:
  assumes "kv_wf valid key_of kv" and "kv_cmpfn kv = cmp" and "valid key"
  shows "kvstore_find kv key = Inr (kv_abs key_of kv (key_of key))"
  using find_loop_ok [OF assms, of 0] valid_law [OF assms(3)]
  by (simp add: kvstore_find_def kv_abs_def)

lemma append_dup:
  assumes "kv_wf valid key_of kv" and "kv_cmpfn kv = cmp" and "valid key"
    and "kv_abs key_of kv (key_of key) \<noteq> None"
  shows "kvstore_append kv key val = Inl Kassert"
  using find_ok [OF assms(1-3)] valid_law [OF assms(3)] assms(4) by (auto simp: kvstore_append_def)

lemma append_full:
  assumes "kv_wf valid key_of kv" and "kv_cmpfn kv = cmp" and "valid key"
    and "NULL \<notin> set (kv_keys kv)"
  shows "kvstore_append kv key val = Inl Kassert"
proof -
  have shape: "kv_shape kv" using assms(1) by (simp add: kv_wf_def)
  obtain f n where fn: "kvstore_free_slot kv 0 = Inr (f, n)"
    "if f then unat (0 :: size_t) \<le> unat n \<and> unat n < unat (kv_cap kv) \<and> kv_keys kv ! unat n = NULL
     else NULL \<notin> set (map fst (drop (unat (0 :: size_t)) (kv_slots kv)))"
    using kvstore_free_slot_ok [OF shape, of 0] by auto
  have "\<not> f"
  proof
    assume f
    then have "unat n < length (kv_keys kv)" "kv_keys kv ! unat n = NULL"
      using fn(2) shape by (simp_all add: kv_shape_def)
    then show False using assms(4) by (metis nth_mem)
  qed
  then show ?thesis
    using find_ok [OF assms(1-3)] valid_law [OF assms(3)] fn(1)
    by (simp add: kvstore_append_def kassert_def)
qed

lemma append_ok:
  assumes wf: "kv_wf valid key_of kv" and cmp: "kv_cmpfn kv = cmp" and key: "valid key"
    and fresh: "kv_abs key_of kv (key_of key) = None" and free: "NULL \<in> set (kv_keys kv)"
  shows "\<exists>kv'. kvstore_append kv key val = Inr kv' \<and> kv_wf valid key_of kv' \<and> kv_cmpfn kv' = cmp \<and>
    kv_abs key_of kv' = (kv_abs key_of kv)(key_of key \<mapsto> val)"
proof -
  have shape: "kv_shape kv" using wf by (simp add: kv_wf_def)
  have k0: "key \<noteq> NULL" by (rule valid_law [OF key])
  obtain f n where fn: "kvstore_free_slot kv 0 = Inr (f, n)"
    "if f then unat (0 :: size_t) \<le> unat n \<and> unat n < unat (kv_cap kv) \<and> kv_keys kv ! unat n = NULL
     else NULL \<notin> set (map fst (drop (unat (0 :: size_t)) (kv_slots kv)))"
    using kvstore_free_slot_ok [OF shape, of 0] by auto
  have "map fst (kv_slots kv) = kv_keys kv" using shape by (simp add: kv_slots_def kv_shape_def)
  then have f: f using fn(2) free by (cases f) auto
  let ?n = "unat n"
  have n: "?n < unat (kv_cap kv)" "kv_keys kv ! ?n = NULL" "?n < length (kv_keys kv)"
    "?n < length (kv_values kv)" using fn(2) f shape by (auto simp: kv_shape_def)
  have l: "?n < length (kv_slots kv)" using n by (simp add: kv_slots_def)
  have nth: "kv_slots kv ! ?n = (NULL, kv_values kv ! ?n)" using n by (simp add: kv_slots_def)
  have "kv_slots kv ! ?n \<in> set (kv_slots kv)" using l by (rule nth_mem)
  then have v: "kv_values kv ! ?n = NULL" using wf unfolding nth by (auto simp: kv_wf_def)
  let ?kv = "kv\<lparr>kv_keys := (kv_keys kv)[?n := key], kv_values := (kv_values kv)[?n := val]\<rparr>"
  let ?A = "take ?n (kv_slots kv)" and ?B = "drop (Suc ?n) (kv_slots kv)"
  have old: "kv_slots kv = ?A @ (NULL, NULL) # ?B"
    using id_take_nth_drop [OF l] nth v by simp
  have "kv_slots ?kv = (kv_slots kv)[?n := (key, val)]"
    by (simp add: kv_slots_def update_zip)
  then have new: "kv_slots ?kv = ?A @ (key, val) # ?B" using l by (simp add: upd_conv_take_nth_drop)
  have e_old: "kv_entries key_of (kv_slots kv) = kv_entries key_of ?A @ kv_entries key_of ?B"
    by (subst old) (simp add: kv_entries_append)
  have e_new: "kv_entries key_of (kv_slots ?kv) =
      kv_entries key_of ?A @ (key_of key, val) # kv_entries key_of ?B"
    unfolding new using k0 by (simp add: kv_entries_append)
  have notin: "key_of key \<notin> fst ` set (kv_entries key_of ?A)" "key_of key \<notin> fst ` set (kv_entries key_of ?B)"
    using fresh unfolding kv_abs_def e_old map_of_eq_None_iff by auto
  have "kvstore_append kv key val = Inr ?kv"
    using find_ok [OF wf cmp key] fresh k0 fn(1) f n v by (simp add: kvstore_append_def)
  moreover have "kv_wf valid key_of ?kv"
  proof -
    have "distinct (map fst (kv_entries key_of (kv_slots kv)))" using wf by (simp add: kv_wf_def)
    then have "distinct (map fst (kv_entries key_of (kv_slots ?kv)))"
      unfolding e_old e_new using notin by auto
    moreover have "\<forall>(k, v) \<in> set (kv_slots ?kv). if k = NULL then v = NULL else valid k"
      unfolding new using wf key k0 by (auto simp: kv_wf_def dest!: in_set_takeD in_set_dropD)
    moreover have "kv_shape ?kv" using shape by (simp add: kv_shape_def)
    ultimately show ?thesis by (simp add: kv_wf_def)
  qed
  moreover have "kv_abs key_of ?kv = (kv_abs key_of kv)(key_of key \<mapsto> val)"
  proof -
    have "map_of (kv_entries key_of ?A) (key_of key) = None"
      "map_of (kv_entries key_of ?B) (key_of key) = None"
      using notin by (simp_all add: map_of_eq_None_iff)
    then show ?thesis unfolding kv_abs_def e_old e_new by (auto simp: map_add_def fun_eq_iff split: option.splits)
  qed
  ultimately show ?thesis using cmp by auto
qed

text \<open>\<open>kvstore_remove\<close> and \<open>kvstore_change\<close> compare every slot, free or not.\<close>

lemma remove_loop_null:
  assumes "kv_shape kv" and "kv_cmpfn kv = cmp" and "valid key" and "cmp NULL key = Inl Undef"
    and "\<forall>(k, v) \<in> set (drop (unat i) (kv_slots kv)). k \<noteq> NULL \<longrightarrow> valid k"
    and "NULL \<in> fst ` set (drop (unat i) (kv_slots kv))"
  shows "kvstore_remove_loop kv key i = Inl Undef"
  using assms
proof (induction kv key i rule: kvstore_remove_loop.induct)
  case (1 kv key i)
  have lt: "i < kv_cap kv"
    using kv_slots_end [OF "1.prems"(1), of i] "1.prems"(6) by (cases "i < kv_cap kv") auto
  note d = kv_slots_drop [OF "1.prems"(1) lt] and s = size_t_loop_measure [OF lt]
  let ?k = "kv_keys kv ! unat i"
  show ?case
  proof (cases "?k = NULL")
    case True
    then show ?thesis using lt d "1.prems"(2,4) by (subst kvstore_remove_loop.simps) simp
  next
    case False
    then have "valid ?k" using "1.prems"(5) d(1) by auto
    then obtain r where r: "cmp ?k key = Inr r" using cmp_law "1.prems"(3) by blast
    let ?kv = "if r = 0 then kv\<lparr>kv_keys := (kv_keys kv)[unat i := NULL],
                               kv_values := (kv_values kv)[unat i := NULL]\<rparr> else kv"
    have "kv_shape ?kv" "kv_cmpfn ?kv = cmp" using "1.prems"(1,2) by (auto simp: kv_shape_def)
    moreover have eq: "drop (unat (i + 1)) (kv_slots ?kv) = drop (unat (i + 1)) (kv_slots kv)"
      using s by (simp add: kv_slots_def drop_zip)
    ultimately have "kvstore_remove_loop ?kv key (i + 1) = Inl Undef"
      using "1.IH" [OF lt, of r] "1.prems"(3-6) d(1) False unfolding eq by auto
    then show ?thesis using lt d r "1.prems"(2) by (subst kvstore_remove_loop.simps) simp
  qed
qed

lemma change_loop_null:
  assumes "kv_shape kv" and "kv_cmpfn kv = cmp" and "valid key" and "cmp NULL key = Inl Undef"
    and "\<forall>(k, v) \<in> set (drop (unat i) (kv_slots kv)). k \<noteq> NULL \<longrightarrow> valid k"
    and "NULL \<in> fst ` set (drop (unat i) (kv_slots kv))"
  shows "kvstore_change_loop kv key val i = Inl Undef"
  using assms
proof (induction kv key val i rule: kvstore_change_loop.induct)
  case (1 kv key val i)
  have lt: "i < kv_cap kv"
    using kv_slots_end [OF "1.prems"(1), of i] "1.prems"(6) by (cases "i < kv_cap kv") auto
  note d = kv_slots_drop [OF "1.prems"(1) lt] and s = size_t_loop_measure [OF lt]
  let ?k = "kv_keys kv ! unat i"
  show ?case
  proof (cases "?k = NULL")
    case True
    then show ?thesis using lt d "1.prems"(2,4) by (subst kvstore_change_loop.simps) simp
  next
    case False
    then have "valid ?k" using "1.prems"(5) d(1) by auto
    then obtain r where r: "cmp ?k key = Inr r" using cmp_law "1.prems"(3) by blast
    let ?kv = "if r = 0 then kv\<lparr>kv_values := (kv_values kv)[unat i := val]\<rparr> else kv"
    have "kv_shape ?kv" "kv_cmpfn ?kv = cmp" using "1.prems"(1,2) by (auto simp: kv_shape_def)
    moreover have eq: "drop (unat (i + 1)) (kv_slots ?kv) = drop (unat (i + 1)) (kv_slots kv)"
      using s by (simp add: kv_slots_def drop_zip)
    ultimately have "kvstore_change_loop ?kv key val (i + 1) = Inl Undef"
      using "1.IH" [OF lt, of r] "1.prems"(3-6) d(1) False unfolding eq by auto
    then show ?thesis using lt d r "1.prems"(2) by (subst kvstore_change_loop.simps) simp
  qed
qed

lemma remove_change_null:
  assumes wf: "kv_wf valid key_of kv" and "kv_cmpfn kv = cmp" and "valid key"
    and "cmp NULL key = Inl Undef" and free: "NULL \<in> set (kv_keys kv)"
  shows "kvstore_remove kv key = Inl Undef" "kvstore_change kv key val = Inl Undef"
proof -
  have shape: "kv_shape kv" using wf by (simp add: kv_wf_def)
  have "map fst (kv_slots kv) = kv_keys kv" using shape by (simp add: kv_slots_def kv_shape_def)
  then have n: "NULL \<in> fst ` set (drop (unat (0 :: size_t)) (kv_slots kv))"
    using free by (metis drop0 list.set_map unat_0)
  have v: "\<forall>(k, v) \<in> set (drop (unat (0 :: size_t)) (kv_slots kv)). k \<noteq> NULL \<longrightarrow> valid k"
    using wf by (auto simp: kv_wf_def)
  show "kvstore_remove kv key = Inl Undef"
    using remove_loop_null [OF shape assms(2-4) v n] valid_law [OF assms(3)]
    by (simp add: kvstore_remove_def)
  show "kvstore_change kv key val = Inl Undef"
    using change_loop_null [OF shape assms(2-4) v n] valid_law [OF assms(3)]
    by (simp add: kvstore_change_def)
qed

end

section \<open>Stores whose keys are C strings\<close>

text \<open>
  \<open>kstrcmp\<close> as a comparison function: \<open>strs\<close> gives the bytes at each address. Every store of the
  kernel is created with it (prepare_panic_info in kernel/arch/i686/exceptions.c).
\<close>

definition kstrcmp_at :: "(addr \<Rightarrow> u8 list) \<Rightarrow> addr \<Rightarrow> addr \<Rightarrow> int kres" where
  "kstrcmp_at strs a b = kdefined (a \<noteq> NULL \<and> b \<noteq> NULL) (kstrcmp (strs a) (strs b))"

definition string_at :: "(addr \<Rightarrow> u8 list) \<Rightarrow> addr \<Rightarrow> bool" where
  "string_at strs a \<longleftrightarrow> a \<noteq> NULL \<and> 0 \<in> set (strs a)"

definition cstr_of :: "(addr \<Rightarrow> u8 list) \<Rightarrow> addr \<Rightarrow> u8 list" where
  "cstr_of strs a = takeWhile (\<lambda>c. c \<noteq> 0) (strs a)"

lemma cstring_cstr_of:
  assumes "string_at strs a"
  shows "cstring (strs a) (cstr_of strs a)"
proof -
  let ?d = "dropWhile (\<lambda>c. c \<noteq> 0) (strs a)"
  have ne: "?d \<noteq> []" using assms by (auto simp: string_at_def)
  then have "hd ?d = 0" using hd_dropWhile [of "\<lambda>c. c \<noteq> 0" "strs a"] by simp
  then have "?d = 0 # tl ?d" using ne by (cases ?d) simp_all
  moreover have "strs a = cstr_of strs a @ ?d" by (simp add: cstr_of_def)
  ultimately have "strs a = cstr_of strs a @ 0 # tl ?d" by simp
  moreover have "0 \<notin> set (cstr_of strs a)" by (auto simp: cstr_of_def dest: set_takeWhileD)
  ultimately show ?thesis unfolding cstring_def by blast
qed

interpretation kc: key_comparator "kstrcmp_at strs" "string_at strs" "cstr_of strs"
  for strs :: "addr \<Rightarrow> u8 list"
proof
  show "\<exists>d. kstrcmp_at strs a b = Inr d \<and> (d = 0 \<longleftrightarrow> cstr_of strs a = cstr_of strs b)"
    if "string_at strs a" "string_at strs b" for a b
  proof -
    note v = that
    obtain d where "kstrcmp (strs a) (strs b) = Inr d" "d = 0 \<longleftrightarrow> cstr_of strs a = cstr_of strs b"
      "d < 0 \<longleftrightarrow> (cstr_of strs a, cstr_of strs b) \<in> lexord {(x, y). x < y}"
      by (rule kstrcmp_cstring [OF cstring_cstr_of [OF v(1)] cstring_cstr_of [OF v(2)]])
    then show ?thesis using v by (simp add: kstrcmp_at_def string_at_def)
  qed
  show "a \<noteq> NULL" if "string_at strs a" for a
    using that by (simp add: string_at_def)
qed

section \<open>Creation\<close>

lemma kvstore_clear_loop_ok:
  assumes "length ks = unat cap" and "length vs = unat cap" and "unat i \<le> unat cap"
  shows "kvstore_clear_loop ks vs i cap =
    Inr (take (unat i) ks @ replicate (unat cap - unat i) NULL,
         take (unat i) vs @ replicate (unat cap - unat i) NULL)"
  using assms
proof (induction ks vs i cap rule: kvstore_clear_loop.induct)
  case (1 ks vs i cap)
  show ?case
  proof (cases "i < cap")
    case False
    then have "unat i = unat cap" using "1.prems" by (simp add: word_less_nat_alt)
    then show ?thesis using False "1.prems" by (subst kvstore_clear_loop.simps) simp
  next
    case True
    note s = size_t_loop_measure [OF True]
    obtain m where m: "unat cap - unat i = Suc m" "unat cap - Suc (unat i) = m"
      using s by (cases "unat cap - unat i") auto
    have "take (Suc (unat i)) (xs[unat i := x]) = take (unat i) xs @ [x]"
      if "length xs = unat cap" for xs and x :: addr
      using that s by (simp add: take_Suc_conv_app_nth)
    then show ?thesis
      using 1 True s m by (subst kvstore_clear_loop.simps) simp
  qed
qed

lemma kv_entries_null: "kv_entries f (replicate n (NULL, v)) = []"
  by (induction n) simp_all

lemma kvstore_create_ok:
  assumes "mem \<noteq> NULL" and "unat mem + 16 + 8 * unat cap < 4294967296"
  shows "\<exists>kv. kvstore_create memory mem cap cmpfn = Inr (Some kv) \<and>
    kv_keys kv = replicate (unat cap) NULL \<and> kv_values kv = replicate (unat cap) NULL \<and>
    kv_cap kv = cap \<and> kv_cmpfn kv = cmpfn"
proof -
  have c4: "unat (cap * 4) = 4 * unat cap" using assms(2) by (subst unat_mult32) simp_all
  have p16: "unat (sizeof_kvstore + cap * 4) = 16 + 4 * unat cap"
    using assms(2) c4 by (subst unat_add32) simp_all
  have "unat (sizeof_kvstore + cap * 4 + cap * 4) = 16 + 8 * unat cap"
    using assms(2) c4 p16 by (subst unat_add32) simp_all
  then have p: "unat (kvstore_predict_reqmem cap) = 16 + 8 * unat cap"
    by (simp only: kvstore_predict_reqmem_def Let_def add_0)
  have "unat mem + unat (kvstore_predict_reqmem cap) < 4294967296" using assms(2) p by simp
  moreover have "0 < kvstore_predict_reqmem cap" using p by (simp add: word_less_nat_alt)
  ultimately obtain a0 where a0: "linear_alloc_init mem (kvstore_predict_reqmem cap) = Inr a0"
    "linear_wf a0" "linear_occ a0 = 0" "linear_cap a0 = 16 + 8 * unat cap"
    using linear_init_wf [OF assms(1)] p by metis
  obtain kv ks a1 a2 where a12: "linear_alloc_alloc a0 sizeof_kvstore = (kv, a1)"
    "linear_alloc_alloc a1 (cap * 4) = (ks, a2)" "linear_wf a2" "linear_occ a2 = 16 + 4 * unat cap"
    "linear_cap a2 = linear_cap a0" "unat kv = unat (base a0) + linear_occ a0"
    "unat ks = unat kv + 16"
    using lin.alloc_twice [OF a0(2), of sizeof_kvstore "cap * 4"] lin.alloc_law [OF a0(2), of sizeof_kvstore]
      a0(3,4) c4 by auto
  then obtain vs a3 where a3: "linear_alloc_alloc a2 (cap * 4) = (vs, a3)" "linear_wf a3"
    "linear_occ a3 = 16 + 8 * unat cap" "unat vs = unat (base a2) + linear_occ a2"
    using lin.alloc_law [OF a12(3), of "cap * 4"] a0(4) c4 by auto
  have nz: "kv \<noteq> NULL" "ks \<noteq> NULL" "vs \<noteq> NULL"
    using a12(6,7) a3(4) lin.bounds_law [OF a0(2)] lin.bounds_law [OF a12(3)] by auto
  have occ: "linear_alloc_occupied a3 = kvstore_predict_reqmem cap"
    by (rule word32_eqI) (use linear_occupied_occ [OF a3(2)] a3(3) p in simp)
  have len: "length (region_words memory q (cap * 4)) = unat cap" for q
    by (simp add: region_words_def c4)
  have clear: "kvstore_clear_loop (region_words memory ks (cap * 4)) (region_words memory vs (cap * 4)) 0 cap
      = Inr (replicate (unat cap) NULL, replicate (unat cap) NULL)"
    using kvstore_clear_loop_ok [OF len len, of 0] by simp
  show ?thesis
    using a0(1) a12(1,2) a3(1) nz occ clear by (auto simp: kvstore_create_def)
qed

section \<open>Properties\<close>

text \<open>\<open>kvstore_create\<close>, given the memory \<open>kvstore_predict_reqmem\<close> asks for, returns an empty
  well-formed store of the requested capacity, whatever the memory held.\<close>

theorem kvstore_create_empty:
  assumes "mem \<noteq> NULL" and "unat mem + 16 + 8 * unat cap < 4294967296"
  shows "\<exists>kv. kvstore_create memory mem cap (kstrcmp_at strs) = Inr (Some kv) \<and>
    kv_wf (string_at strs) (cstr_of strs) kv \<and> kv_abs (cstr_of strs) kv = Map.empty \<and>
    kvstore_capacity kv = cap"
proof -
  obtain kv where kv: "kvstore_create memory mem cap (kstrcmp_at strs) = Inr (Some kv)"
    "kv_keys kv = replicate (unat cap) NULL" "kv_values kv = replicate (unat cap) NULL" "kv_cap kv = cap"
    using kvstore_create_ok [OF assms] by blast
  have "kv_entries (cstr_of strs) (kv_slots kv) = []" by (simp add: kv_slots_def kv kv_entries_null)
  moreover have "kv_shape kv" by (simp add: kv_shape_def kv)
  moreover have "\<forall>(k, v) \<in> set (kv_slots kv). k = NULL \<and> v = NULL"
    by (auto simp: kv_slots_def kv dest: set_zip_leftD set_zip_rightD)
  ultimately show ?thesis
    using kv by (auto simp: kv_wf_def kv_abs_def kvstore_capacity_def)
qed

theorem kvstore_create_empty_witness:
  "\<exists>kv. kvstore_create (\<lambda>p. p) 0x7000 20 (kstrcmp_at (\<lambda>a. [0])) = Inr (Some kv) \<and>
    kv_wf (string_at (\<lambda>a. [0])) (cstr_of (\<lambda>a. [0])) kv \<and>
    kv_abs (cstr_of (\<lambda>a. [0])) kv = Map.empty \<and> kvstore_capacity kv = 20"
  by (rule kvstore_create_empty) simp_all

text \<open>C34: a store keyed by C strings implements a finite map: \<open>kvstore_find\<close> is its lookup, and
  \<open>kvstore_append\<close> of a new key is the update while a slot is free; a key that is present or a
  store that is full fails an assert.\<close>

theorem kvstore_implements_map:
  assumes "kv_wf (string_at strs) (cstr_of strs) kv" and "kv_cmpfn kv = kstrcmp_at strs"
    and "string_at strs key"
  shows "kvstore_find kv key = Inr (kv_abs (cstr_of strs) kv (cstr_of strs key)) \<and>
    (if kv_abs (cstr_of strs) kv (cstr_of strs key) = None \<and> NULL \<in> set (kv_keys kv)
     then \<exists>kv'. kvstore_append kv key val = Inr kv' \<and> kv_wf (string_at strs) (cstr_of strs) kv' \<and>
       kv_cmpfn kv' = kstrcmp_at strs \<and>
       kv_abs (cstr_of strs) kv' = (kv_abs (cstr_of strs) kv)(cstr_of strs key \<mapsto> val)
     else kvstore_append kv key val = Inl Kassert)"
  using kc.find_ok [OF assms] kc.append_ok [OF assms] kc.append_dup [OF assms]
    kc.append_full [OF assms] by auto

definition kv_example :: "kvstore" where
  "kv_example = \<lparr>kv_keys = [0x10, 0], kv_cap = 2, kv_values = [7, 0],
     kv_cmpfn = kstrcmp_at (\<lambda>a. if a = 0x10 then [65, 0] else [66, 0])\<rparr>"

lemma kv_example_wf:
  "kv_wf (string_at (\<lambda>a. if a = 0x10 then [65, 0] else [66, 0]))
     (cstr_of (\<lambda>a. if a = 0x10 then [65, 0] else [66, 0])) kv_example"
  by (simp add: kv_wf_def kv_example_def kv_shape_def kv_slots_def string_at_def)

theorem kvstore_implements_map_witness:
  "\<exists>kv'. kvstore_append kv_example 0x20 9 = Inr kv'"
proof -
  let ?s = "\<lambda>a :: addr. if a = 0x10 then [65, 0] else [66, 0 :: u8]"
  have "kv_abs (cstr_of ?s) kv_example (cstr_of ?s 0x20) = None"
    by (simp add: kv_abs_def kv_example_def kv_slots_def cstr_of_def)
  then show ?thesis
    using kvstore_implements_map [OF kv_example_wf, of "0x20" 9]
    by (auto simp: kv_example_def string_at_def)
qed

text \<open>Removing or changing a key of a store that still has a free slot is undefined: both loops
  hand the \<open>NULL\<close> key of a free slot to the comparison function, which reads through it.\<close>

theorem kvstore_remove_free_slot:
  assumes "kv_wf (string_at strs) (cstr_of strs) kv" and "kv_cmpfn kv = kstrcmp_at strs"
    and "string_at strs key" and "NULL \<in> set (kv_keys kv)"
  shows "kvstore_remove kv key = Inl Undef \<and> kvstore_change kv key val = Inl Undef"
  using kc.remove_change_null [OF assms(1-3) _ assms(4)] by (simp add: kstrcmp_at_def)

theorem kvstore_remove_free_slot_witness:
  "kvstore_remove kv_example 0x10 = Inl Undef \<and> kvstore_change kv_example 0x10 5 = Inl Undef"
  using kvstore_remove_free_slot [OF kv_example_wf, of "0x10" 5]
  by (simp add: kv_example_def string_at_def)

end
