(* ===== verification/Vfprintf.thy ===== *)
theory Vfprintf
  imports Cstd
begin

unbundle bit_operations_syntax

text \<open>
  kernel/lib/cstd/stdio/vfprintf.c: formatted output.

  \<^item> The output function \<open>f\<close> is state passing: it is handed the bytes to write and returns the
    code's \<open>int\<close> (negative: an error) and the new state of the device.
  \<^item> A \<open>va_list\<close> is the list of the 32-bit stack words of the i686 calling convention: an
    argument of at most 32 bits takes one, a 64-bit argument takes two, the low word first.
  \<^item> \<open>strs\<close> gives the bytes found from an address on, for \<open>%s\<close>.
  \<^item> The build passes \<open>-fshort-enums\<close>, so the enumerations that share a union with \<open>width\<close> and
    \<open>precision\<close> are one byte: storing -1 or -2 in the zeroed union gives the number 0xFF or
    0xFE, and reading the enumeration reads the low byte of the number.
\<close>

section \<open>Conversion specifications\<close>

abbreviation CF_MINUS :: u32 where "CF_MINUS \<equiv> 1"
abbreviation CF_PLUS :: u32 where "CF_PLUS \<equiv> 2"
abbreviation CF_SPACE :: u32 where "CF_SPACE \<equiv> 4"
abbreviation CF_HASH :: u32 where "CF_HASH \<equiv> 8"
abbreviation CF_ZERO :: u32 where "CF_ZERO \<equiv> 16"

datatype conv_specifiers = CS_INT | CS_UOCTAL | CS_UDEC | CS_UHEX | CS_UHEX_BIG | CS_UCHAR
  | CS_STR | CS_PTR | CS_WRITTEN_OUT | CS_PERCENTAGE | CS_INVALID

datatype conv_length = CL_CHAR | CL_SHORT | CL_LONG | CL_LLONG | CL_INTMAX | CL_SIZET
  | CL_PTRDIFF | CL_LDOUBLE | CL_NONE

record conv_spec =
  cs_flags :: u32
  cs_width :: size_t
  cs_precision :: size_t
  cs_length :: conv_length
  cs_spec :: conv_specifiers

text \<open>The special values of \<open>width\<close> and \<open>precision\<close>, as the zeroed union holds them.\<close>

abbreviation WIDTH_VAR :: size_t where "WIDTH_VAR \<equiv> 0xFF"
abbreviation WIDTH_EMPTY :: size_t where "WIDTH_EMPTY \<equiv> 0xFE"
abbreviation PREC_VAR :: size_t where "PREC_VAR \<equiv> 0xFF"
abbreviation PREC_EMPTY :: size_t where "PREC_EMPTY \<equiv> 0xFE"

definition special :: "size_t \<Rightarrow> u8" where
  "special w = ucast w"

definition width_given :: "conv_spec \<Rightarrow> bool" where
  "width_given s \<longleftrightarrow> special (cs_width s) \<noteq> special WIDTH_EMPTY"

definition precision_given :: "conv_spec \<Rightarrow> bool" where
  "precision_given s \<longleftrightarrow> special (cs_precision s) \<noteq> special PREC_EMPTY"

definition has_flag :: "u32 \<Rightarrow> conv_spec \<Rightarrow> bool" where
  "has_flag fl s \<longleftrightarrow> cs_flags s AND fl \<noteq> 0"

section \<open>Parsing\<close>

definition is_digit :: "u8 \<Rightarrow> bool" where
  "is_digit c \<longleftrightarrow> 48 \<le> c \<and> c \<le> 57"

fun vfprintf_atoi_loop :: "u8 list \<Rightarrow> u32 \<Rightarrow> u32 kres" where
  "vfprintf_atoi_loop [] res = Inl Undef"
| "vfprintf_atoi_loop (c # s) res =
     (if is_digit c then vfprintf_atoi_loop s (10 * res + (ucast c - 48)) else Inr res)"

definition vfprintf_atoi :: "u8 list \<Rightarrow> u32 kres" where
  "vfprintf_atoi s = vfprintf_atoi_loop s 0"

text \<open>A cursor is the rest of the string. The flags loop leaves it at the first other byte.\<close>

fun parse_flags :: "u8 list \<Rightarrow> u32 \<Rightarrow> (u32 \<times> u8 list) kres" where
  "parse_flags [] fl = Inl Undef"
| "parse_flags (c # cursor) fl =
     (if c = 45 then parse_flags cursor (fl OR CF_MINUS)
      else if c = 43 then parse_flags cursor (fl OR CF_PLUS)
      else if c = 32 then parse_flags cursor (fl OR CF_SPACE)
      else if c = 35 then parse_flags cursor (fl OR CF_HASH)
      else if c = 48 then parse_flags cursor (fl OR CF_ZERO)
      else Inr (fl, c # cursor))"

fun count_digits :: "u8 list \<Rightarrow> nat kres" where
  "count_digits [] = Inl Undef"
| "count_digits (c # cs) = (if is_digit c then kbind (count_digits cs) (\<lambda>n. Inr (Suc n)) else Inr 0)"

fun parse_width :: "u8 list \<Rightarrow> (size_t \<times> u8 list) kres" where
  "parse_width [] = Inl Undef"
| "parse_width (c # cursor) =
     (if c = 42 then Inr (WIDTH_VAR, cursor)
      else kbind (count_digits (c # cursor)) (\<lambda>len.
        if len = 0 then Inr (WIDTH_EMPTY, c # cursor)
        else kbind (vfprintf_atoi (c # cursor)) (\<lambda>w. Inr (w, drop len (c # cursor)))))"

fun parse_precision :: "u8 list \<Rightarrow> (size_t \<times> u8 list) kres" where
  "parse_precision [] = Inl Undef"
| "parse_precision (c # cursor) =
     (if c \<noteq> 46 then Inr (PREC_EMPTY, c # cursor)
      else (case cursor of
          [] \<Rightarrow> Inl Undef
        | d # cursor' \<Rightarrow>
            if d = 42 then Inr (PREC_VAR, cursor')
            else kbind (count_digits cursor) (\<lambda>len.
              if len = 0 then Inr (0, cursor)
              else kbind (vfprintf_atoi cursor) (\<lambda>p. Inr (p, drop len cursor)))))"

fun parse_length :: "u8 list \<Rightarrow> (conv_length \<times> u8 list) kres" where
  "parse_length [] = Inl Undef"
| "parse_length (c # cursor) =
     (if c = 104 then (case cursor of
          [] \<Rightarrow> Inl Undef
        | d # cursor' \<Rightarrow> if d = 104 then Inr (CL_CHAR, cursor') else Inr (CL_SHORT, cursor))
      else if c = 108 then (case cursor of
          [] \<Rightarrow> Inl Undef
        | d # cursor' \<Rightarrow> if d = 108 then Inr (CL_LLONG, cursor') else Inr (CL_LONG, cursor))
      else if c = 106 then Inr (CL_INTMAX, cursor)
      else if c = 122 then Inr (CL_SIZET, cursor)
      else if c = 116 then Inr (CL_PTRDIFF, cursor)
      else if c = 76 then Inr (CL_LDOUBLE, cursor)
      else Inr (CL_NONE, c # cursor))"

definition specifier_of :: "u8 \<Rightarrow> conv_specifiers" where
  "specifier_of c =
     (if c = 100 \<or> c = 105 then CS_INT else if c = 111 then CS_UOCTAL else if c = 117 then CS_UDEC
      else if c = 120 then CS_UHEX else if c = 88 then CS_UHEX_BIG else if c = 99 then CS_UCHAR
      else if c = 115 then CS_STR else if c = 112 then CS_PTR else if c = 110 then CS_WRITTEN_OUT
      else if c = 37 then CS_PERCENTAGE else CS_INVALID)"

text \<open>The result: the specification and \<open>spec_len\<close>, the bytes it takes from the \<open>%\<close> on.\<close>

definition parse_conv_spec :: "u8 list \<Rightarrow> (conv_spec \<times> nat) kres" where
  "parse_conv_spec format =
     (let cursor = drop 1 format in
      kbind (parse_flags cursor 0) (\<lambda>(fl, c1).
      kbind (parse_width c1) (\<lambda>(w, c2).
      kbind (parse_precision c2) (\<lambda>(p, c3).
      kbind (parse_length c3) (\<lambda>(l, c4).
        (case c4 of
           [] \<Rightarrow> Inl Undef
         | c # c5 \<Rightarrow> Inr (\<lparr>cs_flags = fl, cs_width = w, cs_precision = p, cs_length = l,
               cs_spec = specifier_of c\<rparr>, length format - length c5)))))))"

section \<open>Arguments\<close>

record argument =
  arg_val :: u64
  negative :: bool

type_synonym va_list = "u32 list"

fun va_word :: "va_list \<Rightarrow> (u32 \<times> va_list) kres" where
  "va_word [] = Inl Undef"
| "va_word (w # ws) = Inr (w, ws)"

fun va_dword :: "va_list \<Rightarrow> (u64 \<times> va_list) kres" where
  "va_dword (lo # hi # ws) = Inr (ucast lo OR push_bit 32 (ucast hi), ws)"
| "va_dword ws = Inl Undef"

text \<open>
  \<open>CASE_BODY\<close> for a signed value: \<open>arg.val.d *= -1\<close> overflows for the least 64-bit integer.
\<close>

definition case_body :: "int \<Rightarrow> argument kres" where
  "case_body v =
     (if v < 0 then kdefined (v \<noteq> - (2 ^ 63)) (Inr \<lparr>arg_val = of_int (- v), negative = True\<rparr>)
      else Inr \<lparr>arg_val = of_int v, negative = False\<rparr>)"

definition unsigned_arg :: "u64 \<Rightarrow> argument" where
  "unsigned_arg v = \<lparr>arg_val = v, negative = False\<rparr>"

definition fetch_arg :: "conv_spec \<Rightarrow> va_list \<Rightarrow> (argument \<times> va_list) kres" where
  "fetch_arg s args =
     (case cs_spec s of
        CS_INT \<Rightarrow>
          (case cs_length s of
             CL_CHAR \<Rightarrow> kbind (va_word args) (\<lambda>(w, r).
               kbind (case_body (sint (ucast w :: 8 word))) (\<lambda>a. Inr (a, r)))
           | CL_SHORT \<Rightarrow> kbind (va_word args) (\<lambda>(w, r).
               kbind (case_body (sint (ucast w :: 16 word))) (\<lambda>a. Inr (a, r)))
           | CL_LLONG \<Rightarrow> kbind (va_dword args) (\<lambda>(w, r).
               kbind (case_body (sint w)) (\<lambda>a. Inr (a, r)))
           | CL_INTMAX \<Rightarrow> kbind (va_dword args) (\<lambda>(w, r).
               kbind (case_body (sint w)) (\<lambda>a. Inr (a, r)))
           | CL_LDOUBLE \<Rightarrow> Inl Kassert
           | _ \<Rightarrow> kbind (va_word args) (\<lambda>(w, r).
               kbind (case_body (sint w)) (\<lambda>a. Inr (a, r))))
      | CS_WRITTEN_OUT \<Rightarrow> Inl Kassert
      | CS_PERCENTAGE \<Rightarrow> Inl Kassert
      | CS_INVALID \<Rightarrow> Inl Kassert
      | CS_PTR \<Rightarrow> kbind (va_word args) (\<lambda>(w, r). Inr (unsigned_arg (ucast w), r))
      | CS_STR \<Rightarrow> kbind (va_word args) (\<lambda>(w, r). Inr (unsigned_arg (ucast w), r))
      | CS_UCHAR \<Rightarrow> kbind (va_word args) (\<lambda>(w, r). Inr (unsigned_arg (ucast w), r))
      | _ \<Rightarrow>
          (case cs_length s of
             CL_CHAR \<Rightarrow> kbind (va_word args) (\<lambda>(w, r).
               Inr (unsigned_arg (ucast (ucast w :: 8 word)), r))
           | CL_SHORT \<Rightarrow> kbind (va_word args) (\<lambda>(w, r).
               Inr (unsigned_arg (ucast (ucast w :: 16 word)), r))
           | CL_LLONG \<Rightarrow> kbind (va_dword args) (\<lambda>(w, r). Inr (unsigned_arg w, r))
           | CL_INTMAX \<Rightarrow> kbind (va_dword args) (\<lambda>(w, r). Inr (unsigned_arg w, r))
           | CL_LDOUBLE \<Rightarrow> Inl Kassert
           | _ \<Rightarrow> kbind (va_word args) (\<lambda>(w, r). Inr (unsigned_arg (ucast w), r))))"

section \<open>Lengths\<close>

fun power_loop :: "nat \<Rightarrow> u64 \<Rightarrow> u64 \<Rightarrow> u64" where
  "power_loop 0 base pw = pw"
| "power_loop (Suc j) base pw = power_loop j base (pw * base)"

text \<open>The argument is \<open>i + 1\<close> for the \<open>i\<close> of the code's loop.\<close>

fun intnumbase_loop :: "nat \<Rightarrow> u64 \<Rightarrow> u64 \<Rightarrow> u32" where
  "intnumbase_loop 0 num base = 1"
| "intnumbase_loop (Suc i) num base =
     (if num \<ge> power_loop i base 1 then of_nat i + 1 else intnumbase_loop i num base)"

definition length_for_intnumbase :: "u64 \<Rightarrow> u64 \<Rightarrow> u32 \<Rightarrow> u32 kres" where
  "length_for_intnumbase num base max_num_digits =
     kassert (max_num_digits \<le> 0x7FFFFFFF)
       (Inr (intnumbase_loop (unat max_num_digits) num base))"

definition oct_length :: "conv_spec \<Rightarrow> argument \<Rightarrow> size_t kres" where
  "oct_length s a =
     (if cs_precision s = 0 \<and> arg_val a = 0 then Inr 0
      else kbind (length_for_intnumbase (arg_val a) 8 22) (\<lambda>len.
        if precision_given s \<and> cs_precision s \<ge> len then Inr (cs_precision s) else Inr len))"

definition dec_length :: "conv_spec \<Rightarrow> argument \<Rightarrow> size_t kres" where
  "dec_length s a =
     (if cs_precision s = 0 \<and> arg_val a = 0 then Inr 0
      else kbind (length_for_intnumbase (arg_val a) 10 20) (\<lambda>len.
        if precision_given s \<and> cs_precision s \<ge> len then Inr (cs_precision s) else Inr len))"

definition hex_length :: "conv_spec \<Rightarrow> argument \<Rightarrow> size_t kres" where
  "hex_length s a =
     (if (cs_spec s = CS_UHEX \<or> cs_spec s = CS_UHEX_BIG) \<and> cs_precision s = 0 \<and> arg_val a = 0
      then Inr 0
      else length_for_intnumbase (arg_val a) 16 16)"

definition str_length :: "(addr \<Rightarrow> u8 list) \<Rightarrow> conv_spec \<Rightarrow> argument \<Rightarrow> size_t kres" where
  "str_length strs s a =
     kbind (kstrlen (strs (ucast (arg_val a)))) (\<lambda>len.
       if precision_given s \<and> cs_precision s < len then Inr (cs_precision s) else Inr len)"

definition char_length :: "conv_spec \<Rightarrow> argument \<Rightarrow> size_t kres" where
  "char_length s a = Inr 1"

section \<open>Printing\<close>

type_synonym 's fprintf_fn = "'s \<Rightarrow> u8 list \<Rightarrow> (int \<times> 's) kres"

text \<open>
  \<open>kwrite f st msg printed k\<close> is the idiom of the code: call \<open>f\<close>, return its result when that is
  negative, and go on with the count of bytes written otherwise.
\<close>

definition kwrite :: "'s fprintf_fn \<Rightarrow> 's \<Rightarrow> u8 list \<Rightarrow> size_t \<Rightarrow>
    (size_t \<Rightarrow> 's \<Rightarrow> (int \<times> 's) kres) \<Rightarrow> (int \<times> 's) kres" where
  "kwrite f st msg printed k =
     kbind (f st msg) (\<lambda>(rc, st'). if rc < 0 then Inr (rc, st') else k (printed + of_int rc) st')"

text \<open>
  The digit loop of \<open>oct_print\<close>, \<open>dec_print\<close> and \<open>hex_print\<close>: the argument is \<open>buffer_i\<close>, which
  the loop keeps above 0, and the list the bytes stored so far.
\<close>

fun emit_digits :: "u64 \<Rightarrow> (u64 \<Rightarrow> u8) \<Rightarrow> nat \<Rightarrow> u64 \<Rightarrow> u8 list \<Rightarrow> u8 list" where
  "emit_digits base dig 0 ud buf = buf"
| "emit_digits base dig (Suc buffer_i) ud buf =
     (let buf' = dig (ud mod base) # buf; ud' = ud div base in
      if ud' \<noteq> 0 \<and> buffer_i > 0 then emit_digits base dig buffer_i ud' buf' else buf')"

text \<open>A loop that writes one byte \<open>n\<close> times.\<close>

fun put_repeat :: "nat \<Rightarrow> 's fprintf_fn \<Rightarrow> 's \<Rightarrow> u8 \<Rightarrow> size_t \<Rightarrow>
    (size_t \<Rightarrow> 's \<Rightarrow> (int \<times> 's) kres) \<Rightarrow> (int \<times> 's) kres" where
  "put_repeat 0 f st c printed k = k printed st"
| "put_repeat (Suc n) f st c printed k =
     kwrite f st [c] printed (\<lambda>printed' st'. put_repeat n f st' c printed' k)"

definition INT_MAX :: size_t where
  "INT_MAX = 0x7FFFFFFF"

text \<open>The common end of \<open>oct_print\<close> and \<open>dec_print\<close>: zeros up to the precision, then the digits.\<close>

definition padded_print :: "'s fprintf_fn \<Rightarrow> 's \<Rightarrow> conv_spec \<Rightarrow> u8 list \<Rightarrow> (int \<times> 's) kres" where
  "padded_print f st s digits =
     (let padding = if precision_given s
        then nat (sint (cs_precision s - of_nat (length digits))) else 0 in
      put_repeat padding f st 48 0 (\<lambda>printed st1.
      kbind (f st1 digits) (\<lambda>(rc, st2).
        if rc < 0 then Inr (rc, st2)
        else kassert (printed \<le> INT_MAX)
          (kdefined (rc + sint printed < 2 ^ 31) (Inr (rc + sint printed, st2))))))"

definition oct_print :: "'s fprintf_fn \<Rightarrow> 's \<Rightarrow> conv_spec \<Rightarrow> argument \<Rightarrow> (int \<times> 's) kres" where
  "oct_print f st s a =
     (if cs_precision s = 0 \<and> arg_val a = 0 then Inr (0, st)
      else padded_print f st s (emit_digits 8 (\<lambda>n. ucast n + 48) 22 (arg_val a) []))"

definition dec_print :: "'s fprintf_fn \<Rightarrow> 's \<Rightarrow> conv_spec \<Rightarrow> argument \<Rightarrow> (int \<times> 's) kres" where
  "dec_print f st s a =
     (if cs_precision s = 0 \<and> arg_val a = 0 then Inr (0, st)
      else padded_print f st s (emit_digits 10 (\<lambda>n. ucast n + 48) 20 (arg_val a) []))"

definition hex_print :: "'s fprintf_fn \<Rightarrow> 's \<Rightarrow> conv_spec \<Rightarrow> argument \<Rightarrow> (int \<times> 's) kres" where
  "hex_print f st s a =
     (if (cs_spec s = CS_UHEX \<or> cs_spec s = CS_UHEX_BIG) \<and> cs_precision s = 0 \<and> arg_val a = 0
      then Inr (0, st)
      else let hex_offset = if cs_spec s = CS_UHEX then 97 else 65 in
        f st (emit_digits 16
          (\<lambda>n. if n < 10 then ucast n + 48 else ucast (n - 10) + hex_offset) 16 (arg_val a) []))"

definition hex_prefix :: "conv_spec \<Rightarrow> u8 list" where
  "hex_prefix s =
     (if cs_spec s = CS_PTR then [48, 120] else if has_flag CF_HASH s then [48, 120] else [])"

definition str_print :: "(addr \<Rightarrow> u8 list) \<Rightarrow> 's fprintf_fn \<Rightarrow> 's \<Rightarrow> conv_spec \<Rightarrow> argument \<Rightarrow>
    (int \<times> 's) kres" where
  "str_print strs f st s a =
     kbind (str_length strs s a) (\<lambda>len. f st (take (unat len) (strs (ucast (arg_val a)))))"

definition char_print :: "'s fprintf_fn \<Rightarrow> 's \<Rightarrow> conv_spec \<Rightarrow> argument \<Rightarrow> (int \<times> 's) kres" where
  "char_print f st s a = f st [ucast (arg_val a)]"

text \<open>\<open>cs_funcs_table\<close>, a column per function. Rows that the table leaves zero are \<open>NULL\<close> calls.\<close>

definition cs_length_fn :: "(addr \<Rightarrow> u8 list) \<Rightarrow> conv_spec \<Rightarrow> argument \<Rightarrow> size_t kres" where
  "cs_length_fn strs s a =
     (case cs_spec s of
        CS_INT \<Rightarrow> dec_length s a | CS_UDEC \<Rightarrow> dec_length s a
      | CS_PTR \<Rightarrow> hex_length s a | CS_UHEX \<Rightarrow> hex_length s a | CS_UHEX_BIG \<Rightarrow> hex_length s a
      | CS_STR \<Rightarrow> str_length strs s a | CS_UCHAR \<Rightarrow> char_length s a | CS_UOCTAL \<Rightarrow> oct_length s a
      | _ \<Rightarrow> Inl Undef)"

definition cs_prefix_fn :: "conv_spec \<Rightarrow> u8 list option" where
  "cs_prefix_fn s =
     (if cs_spec s \<in> {CS_PTR, CS_UHEX, CS_UHEX_BIG} then Some (hex_prefix s) else None)"

definition cs_print_fn :: "(addr \<Rightarrow> u8 list) \<Rightarrow> 's fprintf_fn \<Rightarrow> 's \<Rightarrow> conv_spec \<Rightarrow> argument \<Rightarrow>
    (int \<times> 's) kres" where
  "cs_print_fn strs f st s a =
     (case cs_spec s of
        CS_INT \<Rightarrow> dec_print f st s a | CS_UDEC \<Rightarrow> dec_print f st s a
      | CS_PTR \<Rightarrow> hex_print f st s a | CS_UHEX \<Rightarrow> hex_print f st s a | CS_UHEX_BIG \<Rightarrow> hex_print f st s a
      | CS_STR \<Rightarrow> str_print strs f st s a | CS_UCHAR \<Rightarrow> char_print f st s a
      | CS_UOCTAL \<Rightarrow> oct_print f st s a
      | _ \<Rightarrow> Inl Undef)"

definition put_flags :: "'s fprintf_fn \<Rightarrow> 's \<Rightarrow> conv_spec \<Rightarrow> argument \<Rightarrow> (int \<times> 's) kres" where
  "put_flags f st s a =
     (if negative a then f st [45]
      else if has_flag CF_PLUS s then f st [if negative a then 45 else 43]
      else if has_flag CF_SPACE s then f st [if negative a then 45 else 32]
      else Inr (0, st))"

text \<open>The prefix and the sign, written in one of two places.\<close>

definition put_prefix_flags :: "'s fprintf_fn \<Rightarrow> 's \<Rightarrow> conv_spec \<Rightarrow> argument \<Rightarrow> u8 list option \<Rightarrow>
    size_t \<Rightarrow> (size_t \<Rightarrow> 's \<Rightarrow> (int \<times> 's) kres) \<Rightarrow> (int \<times> 's) kres" where
  "put_prefix_flags f st s a prefix printed k =
     (let flags = (\<lambda>printed st. kbind (put_flags f st s a) (\<lambda>(rc, st').
        if rc < 0 then Inr (rc, st') else k (printed + of_int rc) st')) in
      case prefix of None \<Rightarrow> flags printed st | Some p \<Rightarrow> kwrite f st p printed flags)"

definition print_conv_spec :: "(addr \<Rightarrow> u8 list) \<Rightarrow> 's fprintf_fn \<Rightarrow> 's \<Rightarrow> conv_spec \<Rightarrow> va_list \<Rightarrow>
    ((int \<times> 's) \<times> va_list) kres" where
  "print_conv_spec strs f st s args =
     (if cs_spec s = CS_PERCENTAGE then kbind (f st [37]) (\<lambda>r. Inr (r, args))
      else kbind (fetch_arg s args) (\<lambda>(a, args').
        kbind (cs_length_fn strs s a) (\<lambda>num_len.
        let prefix = cs_prefix_fn s;
            prefix_len = of_nat (case prefix of None \<Rightarrow> 0 | Some p \<Rightarrow> length p);
            flag_present = negative a \<or> has_flag (CF_PLUS OR CF_SPACE) s;
            minus = has_flag CF_MINUS s; zero = has_flag CF_ZERO s
        in kassert (cs_width s < 0x7FFFFFFF)
          (kassert (num_len < 0x7FFFFFFF)
          (kassert (prefix_len < (0x7FFFFFFF :: size_t))
          (let fill = nat (uint (cs_width s) - uint num_len - uint prefix_len -
                           (if flag_present then 1 else 0));
               right = \<not> minus \<and> width_given s;
               left = minus \<and> width_given s;
               finish = (\<lambda>printed st. kassert (printed \<le> INT_MAX) (Inr (sint printed, st)));
               value = (\<lambda>printed st. kbind (cs_print_fn strs f st s a) (\<lambda>(rc, st').
                 if rc < 0 then Inr (rc, st')
                 else if left then put_repeat fill f st' 32 (printed + of_int rc) finish
                 else finish (printed + of_int rc) st'));
               middle = (\<lambda>printed st. if \<not> zero then put_prefix_flags f st s a prefix printed value
                                      else value printed st)
           in kbind
               (if right
                then if zero
                  then put_prefix_flags f st s a prefix 0 (\<lambda>printed st'.
                         put_repeat fill f st' 48 printed middle)
                  else put_repeat fill f st 32 0 middle
                else middle 0 st)
               (\<lambda>r. Inr (r, args'))))))))"

section \<open>The format loop\<close>

text \<open>Every round takes at least one byte of the format: as many rounds as bytes are enough.\<close>

fun kvfprintf_loop :: "nat \<Rightarrow> (addr \<Rightarrow> u8 list) \<Rightarrow> 's fprintf_fn \<Rightarrow> 's \<Rightarrow> u8 list \<Rightarrow> va_list \<Rightarrow> size_t \<Rightarrow>
    (int \<times> 's) kres" where
  "kvfprintf_loop 0 strs f st format ap printed = Inl Fuel"
| "kvfprintf_loop (Suc fuel) strs f st format ap printed =
     (case format of
        [] \<Rightarrow> Inl Undef
      | c # _ \<Rightarrow>
          if c = 0 then kassert (printed \<le> INT_MAX) (Inr (sint printed, st))
          else if c = 37
          then kbind (parse_conv_spec format) (\<lambda>(s, spec_len).
               kbind (print_conv_spec strs f st s ap) (\<lambda>((rc, st'), ap').
                 if rc < 0 then Inr (rc, st')
                 else kvfprintf_loop fuel strs f st' (drop spec_len format) ap' (printed + of_int rc)))
          else kbind (kstrchr format 37) (\<lambda>cspec.
               kbind (case cspec of Some rest \<Rightarrow> Inr (of_nat (length format - length rest))
                                  | None \<Rightarrow> kstrlen format) (\<lambda>toprint.
               kbind (f st (take (unat toprint) format)) (\<lambda>(rc, st').
                 if rc < 0 then Inr (rc, st')
                 else kvfprintf_loop fuel strs f st' (drop (unat toprint) format) ap
                        (printed + of_int rc)))))"

definition kvfprintf :: "(addr \<Rightarrow> u8 list) \<Rightarrow> 's fprintf_fn \<Rightarrow> 's \<Rightarrow> u8 list \<Rightarrow> va_list \<Rightarrow>
    (int \<times> 's) kres" where
  "kvfprintf strs f st format args = kvfprintf_loop (Suc (length format)) strs f st format args 0"

definition kfprintf :: "(addr \<Rightarrow> u8 list) \<Rightarrow> 's fprintf_fn \<Rightarrow> 's \<Rightarrow> u8 list \<Rightarrow> va_list \<Rightarrow>
    (int \<times> 's) kres" where
  "kfprintf strs f st format args = kvfprintf strs f st format args"

section \<open>Digits\<close>

text \<open>The digits of a number, the most significant first.\<close>

function num_digits :: "nat \<Rightarrow> nat \<Rightarrow> nat list" where
  "num_digits b n = (if n < b \<or> b < 2 then [n mod b] else num_digits b (n div b) @ [n mod b])"
  by pat_completeness auto
termination by (relation "measure snd") auto

declare num_digits.simps [simp del]

lemma num_digits_small: "n < b \<Longrightarrow> num_digits b n = [n]"
  by (simp add: num_digits.simps)

lemma num_digits_step: "2 \<le> b \<Longrightarrow> b \<le> n \<Longrightarrow> num_digits b n = num_digits b (n div b) @ [n mod b]"
  by (subst num_digits.simps) simp

lemma num_digits_length_pos: "0 < length (num_digits b n)"
  by (subst num_digits.simps) simp

lemma num_digits_length:
  assumes "2 \<le> b"
  shows "n < b ^ k \<Longrightarrow> b ^ (k - 1) \<le> n \<or> k = 1 \<Longrightarrow> 0 < k \<Longrightarrow> length (num_digits b n) = k"
proof (induction k arbitrary: n)
  case (Suc k)
  show ?case
  proof (cases k)
    case 0
    then show ?thesis using Suc.prems by (simp add: num_digits_small)
  next
    case (Suc k')
    then have le: "b ^ Suc k' \<le> n" using Suc.prems by simp
    have "b \<le> b ^ Suc k'" using assms by simp
    then have "b \<le> n" using le by linarith
    have "n div b < b ^ k" using \<open>n < b ^ Suc k\<close> assms by (simp add: div_less_iff_less_mult mult.commute)
    moreover have "b ^ (k - 1) \<le> n div b"
      using le assms Suc by (simp add: less_eq_div_iff_mult_less_eq mult.commute)
    ultimately have "length (num_digits b (n div b)) = k" using Suc.IH Suc by simp
    then show ?thesis using \<open>b \<le> n\<close> assms by (simp add: num_digits_step)
  qed
qed simp

text \<open>The number a list of digits stands for.\<close>

definition digits_value :: "nat \<Rightarrow> nat list \<Rightarrow> nat" where
  "digits_value b ds = foldl (\<lambda>acc d. b * acc + d) 0 ds"

lemma num_digits_value: "2 \<le> b \<Longrightarrow> digits_value b (num_digits b n) = n"
proof (induction b n rule: num_digits.induct)
  case (1 b n)
  then show ?case
    by (cases "n < b") (simp_all add: num_digits_small num_digits_step digits_value_def)
qed

lemma num_digits_bound: "2 \<le> b \<Longrightarrow> d \<in> set (num_digits b n) \<Longrightarrow> d < b"
proof (induction b n rule: num_digits.induct)
  case (1 b n)
  then show ?case by (cases "n < b") (auto simp: num_digits_small num_digits_step)
qed

lemma num_digits_lead:
  assumes "2 \<le> b"
  shows "hd (num_digits b n) = 0 \<longleftrightarrow> n = 0"
  using assms
proof (induction b n rule: num_digits.induct)
  case (1 b n)
  show ?case
  proof (cases "n < b")
    case False
    then have "0 < n div b" using "1.prems" by (simp add: div_greater_zero_iff)
    then show ?thesis
      using 1 False num_digits_length_pos [of b "n div b"] by (simp add: num_digits_step)
  qed (simp add: num_digits_small)
qed

lemma unat64_div_mod:
  "unat (x div y :: u64) = unat x div unat y" "unat (x mod y :: u64) = unat x mod unat y"
  by (simp_all add: unat_div unat_mod)

text \<open>The digit loops store the digits of the number, given a buffer long enough for it.\<close>

lemma emit_digits_eq:
  assumes "2 \<le> unat base"
  shows "unat ud < unat base ^ k \<Longrightarrow> 0 < k \<Longrightarrow>
    emit_digits base dig k ud buf = map (\<lambda>d. dig (of_nat d)) (num_digits (unat base) (unat ud)) @ buf"
proof (induction k arbitrary: ud buf)
  case (Suc k)
  let ?b = "unat base" and ?n = "unat ud"
  have m: "of_nat (?n mod ?b) = ud mod base" by (simp flip: unat64_div_mod(2))
  show ?case
  proof (cases "?n < ?b")
    case True
    then have "ud div base = 0" by (simp add: unat64_div_mod unat_eq_0 [symmetric])
    moreover have "ud mod base = of_nat ?n" using m True by simp
    ultimately show ?thesis using True by (simp add: num_digits_small)
  next
    case False
    then have "0 < ?n div ?b" using assms by (simp add: div_greater_zero_iff)
    then have nz: "ud div base \<noteq> 0" using unat64_div_mod(1) [of ud base] by auto
    have "?b * 1 \<le> ?n" using False by simp
    then have k: "0 < k" using Suc.prems(1) by (cases k) auto
    have "unat (ud div base) < ?b ^ k"
      using Suc.prems(1) assms unfolding unat64_div_mod by (simp add: div_less_iff_less_mult mult.commute)
    then show ?thesis
      using Suc.IH [of "ud div base" "dig (ud mod base) # buf"] nz k m False assms
      by (simp add: num_digits_step unat64_div_mod)
  qed
qed simp

lemma power_loop_eq: "power_loop j base p = p * base ^ j"
  by (induction j arbitrary: p) (simp_all add: mult.assoc)

lemma unat64_mult: "unat a * unat b < 2 ^ 64 \<Longrightarrow> unat (a * b :: u64) = unat a * unat b"
  using unat_mult_lem [of a b] by simp

lemma unat64_power:
  assumes "0 < unat (base :: u64)"
  shows "unat base ^ j < 2 ^ 64 \<Longrightarrow> unat (base ^ j) = unat base ^ j"
proof (induction j)
  case (Suc j)
  have "unat base ^ j \<le> unat base ^ Suc j" using assms by (intro power_increasing) auto
  then have "unat (base ^ j) = unat base ^ j" using Suc.prems by (intro Suc.IH) (rule le_less_trans)
  then show ?case using Suc.prems unat64_mult [of base "base ^ j"] by simp
qed simp

text \<open>\<open>length_for_intnumbase\<close> counts the digits, given enough of them to look at.\<close>

lemma intnumbase_loop_eq:
  assumes "2 \<le> unat base" and "unat base ^ (k - 1) < 2 ^ 64" and "k \<le> 32"
  shows "unat num < unat base ^ k \<Longrightarrow> 0 < k \<Longrightarrow>
    unat (intnumbase_loop k num base) = length (num_digits (unat base) (unat num))"
  using assms(2,3)
proof (induction k)
  case (Suc k)
  have p: "unat (power_loop k base 1) = unat base ^ k"
    using Suc.prems(3) assms(1) unat64_power [of base k] by (simp add: power_loop_eq)
  have ge: "num \<ge> power_loop k base 1 \<longleftrightarrow> unat base ^ k \<le> unat num"
    by (simp add: word_le_nat_alt p)
  have k1: "unat (of_nat k + 1 :: u32) = Suc k"
    using Suc.prems(4) by (subst unat_Suc32) (simp_all add: unat_of_nat32)
  show ?case
  proof (cases "unat base ^ k \<le> unat num")
    case True
    have "length (num_digits (unat base) (unat num)) = Suc k"
      by (rule num_digits_length [OF assms(1)]) (use Suc.prems True in simp_all)
    then show ?thesis using True ge k1 by simp
  next
    case False
    show ?thesis
    proof (cases "k = 0")
      case True
      then show ?thesis using Suc.prems(1) ge False by (simp add: num_digits_small)
    next
      case k: False
      have "unat base ^ (k - 1) \<le> unat base ^ k" using assms(1) by (intro power_increasing) auto
      then have "unat base ^ (k - 1) < 2 ^ 64" using Suc.prems(3) by simp
      then show ?thesis using k Suc.IH False Suc.prems(4) ge by simp
    qed
  qed
qed simp

lemma unat64_lt [simp]: "unat (x :: u64) < 18446744073709551616"
  using unsigned_less [of x, where ?'a = nat] by simp

lemma length_for_intnumbase_eq:
  assumes "(base = 8 \<and> m = 22) \<or> (base = 10 \<and> m = 20) \<or> (base = 16 \<and> m = 16)"
  obtains len where "length_for_intnumbase num base m = Inr len"
    "unat len = length (num_digits (unat base) (unat num))" "unat len \<le> 22"
proof -
  have "2 \<le> unat base" "unat base ^ (unat m - 1) < 2 ^ 64" "unat m \<le> 32" "unat m \<le> 22" "0 < unat m"
    "(18446744073709551616 :: nat) \<le> unat base ^ unat m" "m \<le> 0x7FFFFFFF"
    using assms by auto
  moreover from this have "unat num < unat base ^ unat m" using unat64_lt [of num] by linarith
  ultimately have 1: "unat (intnumbase_loop (unat m) num base) = length (num_digits (unat base) (unat num))"
    "length_for_intnumbase num base m = Inr (intnumbase_loop (unat m) num base)"
    using intnumbase_loop_eq [of base "unat m" num] by (simp_all add: length_for_intnumbase_def)
  have "unat (intnumbase_loop k num base) \<le> k \<or> unat (intnumbase_loop k num base) = 1"
    if "k \<le> 22" for k
    using that
    by (induction k) (auto simp: unat_of_nat32 unat_Suc32)
  then have "unat (intnumbase_loop (unat m) num base) \<le> 22"
    using \<open>unat m \<le> 22\<close> by fastforce
  then show ?thesis using that 1 by blast
qed

lemma num_digits_le_22:
  assumes "b = 8 \<or> b = 10"
  shows "length (num_digits b (unat (v :: u64))) \<le> 22"
proof -
  obtain l where l: "unat l = length (num_digits (unat (8 :: u64)) (unat v))" "unat (l :: u32) \<le> 22"
    using length_for_intnumbase_eq [of 8 22 v] by blast
  obtain k where k: "unat k = length (num_digits (unat (10 :: u64)) (unat v))" "unat (k :: u32) \<le> 22"
    using length_for_intnumbase_eq [of 10 20 v] by blast
  show ?thesis using assms l k by auto
qed

lemma emit_digits_bases:
  "emit_digits 8 dig 22 ud [] = map (\<lambda>d. dig (of_nat d)) (num_digits 8 (unat ud))"
  "emit_digits 10 dig 20 ud [] = map (\<lambda>d. dig (of_nat d)) (num_digits 10 (unat ud))"
  "emit_digits 16 dig 16 ud [] = map (\<lambda>d. dig (of_nat d)) (num_digits 16 (unat ud))"
proof -
  have "unat ud < 8 ^ 22" "unat ud < 10 ^ 20" "unat ud < 16 ^ 16"
    using unat64_lt [of ud] by (simp_all add: less_le_trans [OF unat64_lt])
  then show "emit_digits 8 dig 22 ud [] = map (\<lambda>d. dig (of_nat d)) (num_digits 8 (unat ud))"
    "emit_digits 10 dig 20 ud [] = map (\<lambda>d. dig (of_nat d)) (num_digits 10 (unat ud))"
    "emit_digits 16 dig 16 ud [] = map (\<lambda>d. dig (of_nat d)) (num_digits 16 (unat ud))"
    using emit_digits_eq [of 8 ud 22 dig "[]"] emit_digits_eq [of 10 ud 20 dig "[]"]
      emit_digits_eq [of 16 ud 16 dig "[]"] by simp_all
qed

section \<open>The text of a conversion\<close>

definition ascii_digit :: "nat \<Rightarrow> u8" where
  "ascii_digit d = of_nat d + 48"

definition num_text :: "nat \<Rightarrow> conv_spec \<Rightarrow> argument \<Rightarrow> u8 list" where
  "num_text b s a =
     (if cs_precision s = 0 \<and> arg_val a = 0 then []
      else let ds = map ascii_digit (num_digits b (unat (arg_val a))) in
        replicate (if precision_given s then unat (cs_precision s) - length ds else 0) 48 @ ds)"

definition hex_digit :: "bool \<Rightarrow> nat \<Rightarrow> u8" where
  "hex_digit small d = (if d < 10 then of_nat d + 48 else of_nat (d - 10) + (if small then 97 else 65))"

definition hex_text :: "conv_spec \<Rightarrow> argument \<Rightarrow> u8 list" where
  "hex_text s a =
     (if cs_spec s \<noteq> CS_PTR \<and> cs_precision s = 0 \<and> arg_val a = 0 then []
      else map (hex_digit (cs_spec s = CS_UHEX)) (num_digits 16 (unat (arg_val a))))"

definition str_text :: "(addr \<Rightarrow> u8 list) \<Rightarrow> conv_spec \<Rightarrow> argument \<Rightarrow> u8 list" where
  "str_text strs s a =
     (let t = takeWhile (\<lambda>c. c \<noteq> 0) (strs (ucast (arg_val a))) in
      if precision_given s then take (unat (cs_precision s)) t else t)"

definition conv_text :: "(addr \<Rightarrow> u8 list) \<Rightarrow> conv_spec \<Rightarrow> argument \<Rightarrow> u8 list" where
  "conv_text strs s a =
     (case cs_spec s of
        CS_INT \<Rightarrow> num_text 10 s a | CS_UDEC \<Rightarrow> num_text 10 s a | CS_UOCTAL \<Rightarrow> num_text 8 s a
      | CS_STR \<Rightarrow> str_text strs s a | CS_UCHAR \<Rightarrow> [ucast (arg_val a)]
      | _ \<Rightarrow> hex_text s a)"

definition sign_text :: "conv_spec \<Rightarrow> argument \<Rightarrow> u8 list" where
  "sign_text s a =
     (if negative a then [45] else if has_flag CF_PLUS s then [43]
      else if has_flag CF_SPACE s then [32] else [])"

definition prefix_text :: "conv_spec \<Rightarrow> u8 list" where
  "prefix_text s = (case cs_prefix_fn s of None \<Rightarrow> [] | Some p \<Rightarrow> p)"

text \<open>
  The whole field. \<open>lead\<close> is what stands before the value; with the flag \<open>0\<close> it is written only
  where the zeros are, that is in a right-justified field of a given width.
\<close>

definition field_text :: "(addr \<Rightarrow> u8 list) \<Rightarrow> conv_spec \<Rightarrow> argument \<Rightarrow> u8 list" where
  "field_text strs s a =
     (let lead = prefix_text s @ sign_text s a; body = conv_text strs s a;
          fill = unat (cs_width s) - (length lead + length body);
          zero = has_flag CF_ZERO s; minus = has_flag CF_MINUS s
      in (if \<not> minus \<and> width_given s
          then if zero then lead @ replicate fill 48 @ body else replicate fill 32 @ lead @ body
          else (if zero then [] else lead) @ body @
               (if minus \<and> width_given s then replicate fill 32 else [])))"

lemma ucast_of_nat64: "ucast (of_nat d :: u64) = (of_nat d :: u8)"
  by (rule bit_word_eqI) (simp add: bit_simps bit_of_nat_iff)

lemma hex_digit_cases:
  assumes "d < 16"
  shows "(if (of_nat d :: u64) < 10 then ucast (of_nat d :: u64) + 48
      else ucast ((of_nat d :: u64) - 10) + (if small then 97 else 65)) = hex_digit small d"
proof -
  have u: "unat (of_nat d :: u64) = d" using assms by (simp add: unat_of_nat take_bit_nat_eq_self)
  have lt: "(of_nat d :: u64) < 10 \<longleftrightarrow> d < 10" by (simp add: word_less_nat_alt u)
  then show ?thesis
  proof (cases "d < 10")
    case False
    then obtain e where "d = e + 10" by (metis add.commute le_Suc_ex not_less)
    then show ?thesis using lt by (simp add: hex_digit_def ucast_of_nat64)
  qed (simp add: hex_digit_def ucast_of_nat64)
qed

lemma emit_hex:
  "emit_digits 16 (\<lambda>n. if n < 10 then ucast n + 48 else ucast (n - 10) + (if small then 97 else 65))
     16 ud [] = map (hex_digit small) (num_digits 16 (unat ud))"
  unfolding emit_digits_bases
  by (intro map_cong refl hex_digit_cases num_digits_bound [of 16]) simp_all

text \<open>The argument of a string conversion is a string.\<close>

definition arg_ok :: "(addr \<Rightarrow> u8 list) \<Rightarrow> conv_spec \<Rightarrow> argument \<Rightarrow> bool" where
  "arg_ok strs s a \<longleftrightarrow> cs_spec s \<notin> {CS_PERCENTAGE, CS_WRITTEN_OUT, CS_INVALID} \<and>
     (cs_spec s = CS_STR \<longrightarrow> 0 \<in> set (strs (ucast (arg_val a))) \<and>
        length (strs (ucast (arg_val a))) < 2147483647) \<and>
     (precision_given s \<longrightarrow> unat (cs_precision s) < 2147483647) \<and> unat (cs_width s) < 2147483647"

lemma sint_of_nat32: "n < 2147483648 \<Longrightarrow> sint (of_nat n :: u32) = int n"
  by (simp add: signed_of_nat signed_take_bit_int_eq_self)

lemma sint_of_int32: "- 2147483648 \<le> z \<Longrightarrow> z < 2147483648 \<Longrightarrow> sint (of_int z :: u32) = z"
  by (simp add: signed_of_int signed_take_bit_int_eq_self)

lemma of_nat_le_INT_MAX: "n < 2147483648 \<Longrightarrow> of_nat n \<le> INT_MAX"
  by (simp add: INT_MAX_def word_le_nat_alt unat_of_nat32)

lemma padded_length:
  assumes "unat len = length ds" and "precision_given s \<Longrightarrow> unat (cs_precision s) < 2147483647"
  shows "unat (if precision_given s \<and> cs_precision s \<ge> len then cs_precision s else len) =
    length (replicate (if precision_given s then unat (cs_precision s) - length ds else 0) 48 @ ds)"
  using assms by (auto simp: word_le_nat_alt)

lemma takeWhile_nul_cstring: "0 \<in> set buf \<Longrightarrow> cstring buf (takeWhile (\<lambda>c. c \<noteq> 0) buf)"
proof (induction buf)
  case (Cons x buf)
  then show ?case by (cases "x = 0") auto
qed simp

lemma cs_length_fn_ok:
  assumes "arg_ok strs s a"
  obtains n where "cs_length_fn strs s a = Inr n" "unat n = length (conv_text strs s a)"
    "n < 0x7FFFFFFF"
proof -
  have dec: "\<exists>n. dec_length s a = Inr n \<and> unat n = length (num_text 10 s a) \<and> n < 0x7FFFFFFF"
    and oct: "\<exists>n. oct_length s a = Inr n \<and> unat n = length (num_text 8 s a) \<and> n < 0x7FFFFFFF"
  proof -
    obtain l where l: "length_for_intnumbase (arg_val a) 10 20 = Inr l"
      "unat l = length (num_digits (unat (10 :: u64)) (unat (arg_val a)))" "unat l \<le> 22"
      using length_for_intnumbase_eq [of 10 20] by blast
    obtain l8 where l8: "length_for_intnumbase (arg_val a) 8 22 = Inr l8"
      "unat l8 = length (num_digits (unat (8 :: u64)) (unat (arg_val a)))" "unat l8 \<le> 22"
      using length_for_intnumbase_eq [of 8 22] by blast
    have pr: "precision_given s \<Longrightarrow> unat (cs_precision s) < 2147483647"
      using assms by (simp add: arg_ok_def)
    show "\<exists>n. dec_length s a = Inr n \<and> unat n = length (num_text 10 s a) \<and> n < 0x7FFFFFFF"
      using padded_length [OF _ pr, of l "map ascii_digit (num_digits 10 (unat (arg_val a)))"] l pr
      by (auto simp: dec_length_def num_text_def Let_def word_less_nat_alt split: if_splits)
    show "\<exists>n. oct_length s a = Inr n \<and> unat n = length (num_text 8 s a) \<and> n < 0x7FFFFFFF"
      using padded_length [OF _ pr, of l8 "map ascii_digit (num_digits 8 (unat (arg_val a)))"] l8 pr
      by (auto simp: oct_length_def num_text_def Let_def word_less_nat_alt split: if_splits)
  qed
  have hex: "\<exists>n. hex_length s a = Inr n \<and> unat n = length (hex_text s a) \<and> n < 0x7FFFFFFF"
    if "cs_spec s \<in> {CS_PTR, CS_UHEX, CS_UHEX_BIG}"
  proof -
    obtain l where l: "length_for_intnumbase (arg_val a) 16 16 = Inr l"
      "unat l = length (num_digits (unat (16 :: u64)) (unat (arg_val a)))" "unat l \<le> 22"
      using length_for_intnumbase_eq [of 16 16] by blast
    then show ?thesis
      using that by (auto simp: hex_length_def hex_text_def word_less_nat_alt)
  qed
  have str: "\<exists>n. str_length strs s a = Inr n \<and> unat n = length (str_text strs s a) \<and> n < 0x7FFFFFFF"
    if st: "cs_spec s = CS_STR"
  proof -
    let ?b = "strs (ucast (arg_val a))"
    let ?t = "takeWhile (\<lambda>c. c \<noteq> 0) ?b"
    have "kstrlen ?b = Inr (of_nat (length ?t))"
      using assms st by (intro kstrlen_cstring takeWhile_nul_cstring) (simp add: arg_ok_def)
    moreover have tb: "length ?t < 2147483647"
      using length_takeWhile_le [of "\<lambda>c. c \<noteq> 0" ?b] assms st unfolding arg_ok_def by linarith
    then have "unat (of_nat (length ?t) :: u32) = length ?t" by (simp add: unat_of_nat32)
    ultimately show ?thesis
      using tb by (auto simp: str_length_def str_text_def Let_def word_less_nat_alt)
  qed
  have ch: "\<exists>n. char_length s a = Inr n \<and> unat n = 1 \<and> n < 0x7FFFFFFF"
    by (simp add: char_length_def)
  show ?thesis
    using that dec oct hex str ch assms
    by (cases "cs_spec s") (auto simp: cs_length_fn_def conv_text_def arg_ok_def)
qed

lemma has_flag_or: "has_flag (x OR y) s \<longleftrightarrow> has_flag x s \<or> has_flag y s"
proof -
  have "cs_flags s AND (x OR y) = (cs_flags s AND x) OR (cs_flags s AND y)"
    by (rule bit.conj_disj_distrib)
  then show ?thesis by (simp add: has_flag_def or_eq_0_iff)
qed

section \<open>The interface printing needs of its output function\<close>

text \<open>
  \<open>out\<close> is what a device has been given so far, and \<open>fits st n\<close> says that it can take \<open>n\<close> more
  bytes. A write that fits appends the bytes and returns their number.
\<close>

locale output_device =
  fixes f :: "'s fprintf_fn"
    and out :: "'s \<Rightarrow> u8 list"
    and fits :: "'s \<Rightarrow> nat \<Rightarrow> bool"
  assumes write_law: "fits st (length m + r) \<Longrightarrow>
      \<exists>st'. f st m = Inr (int (length m), st') \<and> out st' = out st @ m \<and> fits st' r"
    and fits_law: "fits st n \<Longrightarrow> n < 2147483648"
begin

lemma kwrite_ok:
  assumes "fits st (length m + r)"
  obtains st' where "out st' = out st @ m" "fits st' r"
    "\<And>pr k. kwrite f st m pr k = k (pr + of_nat (length m)) st'"
  using write_law [OF assms] that by (auto simp: kwrite_def)

lemma put_repeat_ok:
  "fits st (n + r) \<Longrightarrow> \<exists>st'. out st' = out st @ replicate n c \<and> fits st' r \<and>
     (\<forall>pr k. put_repeat n f st c pr k = k (pr + of_nat n) st')"
proof (induction n arbitrary: st)
  case (Suc n)
  obtain st1 where st1: "out st1 = out st @ [c]" "fits st1 (n + r)"
    "\<And>pr k. kwrite f st [c] pr k = k (pr + of_nat (length [c])) st1"
    using kwrite_ok [of st "[c]" "n + r"] Suc.prems by auto
  then obtain st2 where "out st2 = out st1 @ replicate n c" "fits st2 r"
    "\<forall>pr k. put_repeat n f st1 c pr k = k (pr + of_nat n) st2"
    using Suc.IH by blast
  then show ?case using st1 by (auto simp: add.assoc)
qed auto

lemma put_flags_ok:
  assumes "fits st (length (sign_text s a) + r)"
  shows "\<exists>st'. put_flags f st s a = Inr (int (length (sign_text s a)), st') \<and>
    out st' = out st @ sign_text s a \<and> fits st' r"
  using assms write_law [of st "[45]" r] write_law [of st "[43]" r] write_law [of st "[32]" r]
  by (auto simp: put_flags_def sign_text_def)

lemma put_prefix_flags_ok:
  assumes "fits st (length (prefix_text s) + length (sign_text s a) + r)"
  shows "\<exists>st'. out st' = out st @ prefix_text s @ sign_text s a \<and> fits st' r \<and>
    (\<forall>pr k. put_prefix_flags f st s a (cs_prefix_fn s) pr k =
       k (pr + of_nat (length (prefix_text s) + length (sign_text s a))) st')"
proof (cases "cs_prefix_fn s")
  case None
  then have "prefix_text s = []" by (simp add: prefix_text_def)
  then show ?thesis
    using put_flags_ok [of st s a r] assms None by (auto simp: put_prefix_flags_def)
next
  case (Some p)
  then have p: "prefix_text s = p" by (simp add: prefix_text_def)
  obtain st1 where st1: "out st1 = out st @ p" "fits st1 (length (sign_text s a) + r)"
    "\<And>pr k. kwrite f st p pr k = k (pr + of_nat (length p)) st1"
    using kwrite_ok [of st p "length (sign_text s a) + r"] assms p by (auto simp: add.assoc)
  then show ?thesis
    using put_flags_ok [OF st1(2)] Some p by (auto simp: put_prefix_flags_def add.assoc)
qed

lemma padded_print_ok:
  assumes fits: "fits st (length (replicate pad 48 @ ds) + r)"
    and pad: "pad = (if precision_given s then unat (cs_precision s) - length ds else 0)"
    and p: "precision_given s \<Longrightarrow> unat (cs_precision s) < 2147483647"
    and ds: "length ds < 2147483647"
  shows "\<exists>st'. padded_print f st s ds = Inr (int (pad + length ds), st') \<and>
    out st' = out st @ replicate pad 48 @ ds \<and> fits st' r"
proof -
  have "nat (sint (cs_precision s - of_nat (length ds))) = unat (cs_precision s) - length ds"
    if "precision_given s"
  proof -
    have "cs_precision s - of_nat (length ds) = of_int (uint (cs_precision s) - int (length ds))"
      by simp
    also have "sint \<dots> = uint (cs_precision s) - int (length ds)"
      using p [OF that] ds
      unfolding uint_nat by (intro sint_of_int32) linarith+
    finally have e: "sint (cs_precision s - of_nat (length ds)) = uint (cs_precision s) - int (length ds)" .
    show ?thesis unfolding e uint_nat by arith
  qed
  then have pd: "(if precision_given s then nat (sint (cs_precision s - of_nat (length ds))) else 0) = pad"
    using pad by simp
  obtain st1 where st1: "out st1 = out st @ replicate pad 48" "fits st1 (length ds + r)"
    "\<forall>pr k. put_repeat pad f st 48 pr k = k (pr + of_nat pad) st1"
    using put_repeat_ok [of st pad "length ds + r" 48] fits by (auto simp: add.assoc)
  obtain st2 where st2: "f st1 ds = Inr (int (length ds), st2)" "out st2 = out st1 @ ds" "fits st2 r"
    using write_law [OF st1(2)] by blast
  have b: "pad + length ds < 2147483648" using fits_law [OF fits] by simp
  have "sint (of_nat pad :: u32) = int pad" "of_nat pad \<le> INT_MAX"
    using b by (simp_all add: sint_of_nat32 of_nat_le_INT_MAX)
  then show ?thesis
    using st1 st2 b by (simp add: padded_print_def pd)
qed

lemma cs_print_fn_ok:
  assumes ok: "arg_ok strs s a" and fits: "fits st (length (conv_text strs s a) + r)"
  shows "\<exists>st'. cs_print_fn strs f st s a = Inr (int (length (conv_text strs s a)), st') \<and>
    out st' = out st @ conv_text strs s a \<and> fits st' r"
proof -
  have nul: "\<exists>st'. Inr (0, st) = (Inr (int (length []), st') :: (int \<times> 's) kres) \<and>
      out st' = out st @ [] \<and> fits st' r" if "fits st (length [] + r)"
    using that by simp
  have pr: "precision_given s \<Longrightarrow> unat (cs_precision s) < 2147483647"
    using ok by (simp add: arg_ok_def)
  have ad: "(\<lambda>d. ucast (of_nat d :: u64) + 48) = ascii_digit" by (simp add: fun_eq_iff ascii_digit_def ucast_of_nat64)
  have num: "\<exists>st'. p f st s a = Inr (int (length (num_text b s a)), st') \<and>
      out st' = out st @ num_text b s a \<and> fits st' r"
    if "fits st (length (num_text b s a) + r)"
      "(p, b) \<in> {(oct_print, 8), (dec_print, 10)}" for p :: "'s fprintf_fn \<Rightarrow> 's \<Rightarrow> conv_spec \<Rightarrow> argument \<Rightarrow> (int \<times> 's) kres" and b
  proof (cases "cs_precision s = 0 \<and> arg_val a = 0")
    case True
    then show ?thesis using that by (auto simp: oct_print_def dec_print_def num_text_def)
  next
    case False
    let ?ds = "map ascii_digit (num_digits b (unat (arg_val a)))"
    have nt: "num_text b s a = replicate (if precision_given s
        then unat (cs_precision s) - length ?ds else 0) 48 @ ?ds"
      using False unfolding num_text_def Let_def by (simp only: if_False)
    then have "length ?ds \<le> length (num_text b s a)" by simp
    then have "length ?ds < 2147483648" using fits_law [OF that(1)] by simp
    have "length ?ds \<le> 22" using num_digits_le_22 [of b "arg_val a"] that(2) by auto
    then have l22: "length ?ds < 2147483647" by simp
    have "p f st s a = padded_print f st s ?ds"
      using False that(2) by (auto simp: oct_print_def dec_print_def emit_digits_bases ad)
    then show ?thesis
      using nt padded_print_ok [OF _ refl pr l22, of st r] that(1) by (simp only: length_append length_replicate)
  qed
  have hex: "?thesis" if sp: "cs_spec s \<in> {CS_PTR, CS_UHEX, CS_UHEX_BIG}"
  proof -
    have ct: "conv_text strs s a = hex_text s a" using sp by (auto simp: conv_text_def)
    have pf: "cs_print_fn strs f st s a = hex_print f st s a" using sp by (auto simp: cs_print_fn_def)
    have c: "(cs_spec s = CS_UHEX \<or> cs_spec s = CS_UHEX_BIG) = (cs_spec s \<noteq> CS_PTR)" using sp by auto
    have "hex_print f st s a = (if cs_spec s \<noteq> CS_PTR \<and> cs_precision s = 0 \<and> arg_val a = 0
        then Inr (0, st) else f st (hex_text s a))"
      unfolding hex_print_def hex_text_def c Let_def emit_hex by simp
    then show ?thesis
      using fits write_law [of st "hex_text s a" r] unfolding ct pf
      by (auto simp: hex_text_def)
  qed
  have str: "?thesis" if sp: "cs_spec s = CS_STR"
  proof -
    let ?b = "strs (ucast (arg_val a))"
    obtain n where n: "cs_length_fn strs s a = Inr n" "unat n = length (conv_text strs s a)"
      using cs_length_fn_ok [OF ok] by blast
    have ct: "conv_text strs s a = str_text strs s a" using sp by (simp add: conv_text_def)
    have "take (unat n) ?b = str_text strs s a"
    proof -
      let ?t = "takeWhile (\<lambda>c. c \<noteq> 0) ?b"
      have "take k ?b = take k ?t" if "k \<le> length ?t" for k
        using that by (metis min.absorb1 take_take takeWhile_eq_take)
      moreover have "unat n \<le> length ?t" using n(2) by (simp add: ct str_text_def Let_def)
      ultimately show ?thesis using n(2) by (auto simp: ct str_text_def Let_def min_def)
    qed
    moreover have "str_length strs s a = Inr n" using n(1) sp by (simp add: cs_length_fn_def)
    ultimately show ?thesis
      using fits write_law [of st "str_text strs s a" r] sp unfolding ct
      by (auto simp: cs_print_fn_def str_print_def)
  qed
  show ?thesis
  proof (cases "cs_spec s")
    case CS_INT
    then show ?thesis using num [of 10 dec_print] fits by (auto simp: cs_print_fn_def conv_text_def)
  next
    case CS_UDEC
    then show ?thesis using num [of 10 dec_print] fits by (auto simp: cs_print_fn_def conv_text_def)
  next
    case CS_UOCTAL
    then show ?thesis using num [of 8 oct_print] fits by (auto simp: cs_print_fn_def conv_text_def)
  next
    case CS_UCHAR
    then show ?thesis using write_law [of st "[ucast (arg_val a)]" r] fits
      by (auto simp: cs_print_fn_def conv_text_def char_print_def)
  qed (use hex str ok in \<open>auto simp: arg_ok_def\<close>)
qed

text \<open>
  The continuations of \<open>print_conv_spec\<close>, from the last one back: what each writes when the rest
  of the field fits.
\<close>

lemma print_conv_spec_ok:
  assumes fetch: "fetch_arg s args = Inr (a, args')" and ok: "arg_ok strs s a"
    and fits: "fits st (length (field_text strs s a) + r)"
  shows "\<exists>st'. print_conv_spec strs f st s args =
      Inr ((int (length (field_text strs s a)), st'), args') \<and>
    out st' = out st @ field_text strs s a \<and> fits st' r"
proof -
  let ?pre = "prefix_text s" and ?sign = "sign_text s a" and ?body = "conv_text strs s a"
  let ?zero = "has_flag CF_ZERO s" and ?minus = "has_flag CF_MINUS s"
  let ?right = "\<not> ?minus \<and> width_given s" and ?left = "?minus \<and> width_given s"
  let ?lead = "?pre @ ?sign"
  let ?L = "length ?pre + length ?sign"
  let ?fill = "unat (cs_width s) - (length ?lead + length ?body)"
  obtain n where n: "cs_length_fn strs s a = Inr n" "unat n = length ?body" "n < 0x7FFFFFFF"
    by (rule cs_length_fn_ok [OF ok])
  have np: "cs_spec s \<noteq> CS_PERCENTAGE" using ok by (simp add: arg_ok_def)
  have plen: "(case cs_prefix_fn s of None \<Rightarrow> 0 | Some p \<Rightarrow> length p) = length ?pre"
    by (simp add: prefix_text_def split: option.splits)
  have p2: "length ?pre \<le> 2"
    by (auto simp: prefix_text_def cs_prefix_fn_def hex_prefix_def)
  then have pu: "unat (of_nat (length ?pre) :: size_t) = length ?pre" by (simp add: unat_of_nat32)
  have pl: "of_nat (length ?pre) < (0x7FFFFFFF :: size_t)" using p2 pu by (simp add: word_less_nat_alt)
  have w: "cs_width s < 0x7FFFFFFF" using ok by (simp add: arg_ok_def word_less_nat_alt)
  have sg: "(if negative a \<or> has_flag (CF_PLUS OR CF_SPACE) s then 1 else 0) = int (length ?sign)"
    using has_flag_or [of CF_PLUS CF_SPACE s] by (simp add: sign_text_def)
  have fill: "nat (uint (cs_width s) - uint n - uint (of_nat (length ?pre) :: size_t) -
      (if negative a \<or> has_flag (CF_PLUS OR CF_SPACE) s then 1 else 0)) = ?fill"
    unfolding sg uint_nat pu n(2) length_append by arith
  define finish where "finish = (\<lambda>printed st. kassert (printed \<le> INT_MAX) (Inr (sint printed, st :: 's)))"
  define val where "val = (\<lambda>printed st. kbind (cs_print_fn strs f st s a) (\<lambda>(rc, st').
      if rc < 0 then Inr (rc, st')
      else if ?left then put_repeat ?fill f st' 32 (printed + of_int rc) finish
      else finish (printed + of_int rc) st'))"
  define middle where "middle = (\<lambda>printed st. if \<not> ?zero
      then put_prefix_flags f st s a (cs_prefix_fn s) printed val else val printed st)"
  have run: "print_conv_spec strs f st s args = kbind
      (if ?right then if ?zero
          then put_prefix_flags f st s a (cs_prefix_fn s) 0 (\<lambda>printed st'. put_repeat ?fill f st' 48 printed middle)
          else put_repeat ?fill f st 32 0 middle
        else middle 0 st) (\<lambda>r. Inr (r, args'))"
    unfolding print_conv_spec_def
    by (simp only: np fetch n(1,3) w pl kbind_Inr prod.case Let_def plen fill if_False kassert_simps
        middle_def val_def finish_def)
  have fin: "finish (of_nat k) st' = Inr (int k, st')" if "k < 2147483648" for k st'
    using that by (simp add: finish_def of_nat_le_INT_MAX sint_of_nat32)
  have val: "\<exists>st'. val (of_nat k) st1 = Inr (int (k + length t), st') \<and> out st' = out st1 @ t \<and> fits st' r"
    if t: "t = ?body @ (if ?left then replicate ?fill 32 else [])"
      and ft1: "fits st1 (length t + r)" and kt: "k + length t < 2147483648" for st1 k t
  proof -
    obtain st2 where st2: "cs_print_fn strs f st1 s a = Inr (int (length ?body), st2)"
      "out st2 = out st1 @ ?body" "fits st2 (length (if ?left then replicate ?fill (32 :: u8) else []) + r)"
      using cs_print_fn_ok [OF ok, of st1 "length (if ?left then replicate ?fill (32 :: u8) else []) + r"]
        ft1 unfolding t length_append add.assoc by blast
    show ?thesis
    proof (cases ?left)
      case True
      obtain st3 where "out st3 = out st2 @ replicate ?fill 32" "fits st3 r"
        "\<forall>pr k. put_repeat ?fill f st2 32 pr k = k (pr + of_nat ?fill) st3"
        using put_repeat_ok [of st2 ?fill r 32] st2(3) True by auto
      then show ?thesis
        using st2(1,2) True fin [of "k + length t"] kt t by (simp add: val_def add.assoc)
    next
      case False
      have t2: "t = ?body" unfolding t by (simp only: False if_False append_Nil2)
      have "val (of_nat k) st1 = finish (of_nat (k + length t)) st2"
        unfolding val_def st2(1) t2
        by (simp only: kbind_Inr prod.case False if_False of_int_of_nat_eq of_nat_add of_nat_less_0_iff)
      then show ?thesis using fin [OF kt] st2(2,3) t2 False by auto
    qed
  qed
  have mid: "\<exists>st'. middle (of_nat k) st1 = Inr (int (k + length t), st') \<and> out st' = out st1 @ t \<and> fits st' r"
    if t: "t = (if ?zero then [] else ?lead) @ ?body @ (if ?left then replicate ?fill 32 else [])"
      and ft1: "fits st1 (length t + r)" and kt: "k + length t < 2147483648" for st1 k t
  proof (cases ?zero)
    case True
    then show ?thesis using val [OF _ ft1 kt] t by (simp add: middle_def)
  next
    case False
    let ?t = "?body @ (if ?left then replicate ?fill 32 else [])"
    obtain st2 where st2: "out st2 = out st1 @ ?pre @ ?sign" "fits st2 (length ?t + r)"
      "\<forall>pr k. put_prefix_flags f st1 s a (cs_prefix_fn s) pr k = k (pr + of_nat ?L) st2"
      using put_prefix_flags_ok [of st1 s a "length ?t + r"] ft1 t False by (auto simp: add.assoc)
    have "middle (of_nat k) st1 = val (of_nat (k + ?L)) st2" using False st2(3) by (simp add: middle_def)
    moreover have "k + ?L + length ?t = k + length t" using t False by simp
    ultimately show ?thesis
      using val [OF refl st2(2), of "k + ?L"] kt st2(1) t False by auto
  qed
  have lt: "length (field_text strs s a) < 2147483648" using fits_law [OF fits] by simp
  show ?thesis
  proof (cases ?right)
    case False
    then have ft: "field_text strs s a =
        (if ?zero then [] else ?lead) @ ?body @ (if ?left then replicate ?fill 32 else [])"
      unfolding field_text_def Let_def by (simp only: if_False)
    show ?thesis using mid [OF ft fits, of 0] lt False unfolding run by auto
  next
    case True
    then have nl: "\<not> ?left" by blast
    show ?thesis
    proof (cases ?zero)
      case zero: True
      have ft: "field_text strs s a = ?lead @ replicate ?fill 48 @ ?body"
        using True zero unfolding field_text_def Let_def by (simp only: if_True simp_thms)
      obtain st1 where st1: "out st1 = out st @ ?lead" "fits st1 (?fill + length ?body + r)"
        "\<forall>pr k. put_prefix_flags f st s a (cs_prefix_fn s) pr k = k (pr + of_nat ?L) st1"
        using put_prefix_flags_ok [of st s a "?fill + length ?body + r"] fits unfolding ft by (auto simp: add.assoc)
      obtain st2 where st2: "out st2 = out st1 @ replicate ?fill 48" "fits st2 (length ?body + r)"
        "\<forall>pr k. put_repeat ?fill f st1 48 pr k = k (pr + of_nat ?fill) st2"
        using put_repeat_ok [of st1 ?fill "length ?body + r" 48] st1(2) by (auto simp: add.assoc)
      have lt': "?L + ?fill + length ?body < 2147483648"
        using lt unfolding ft by (simp only: length_append length_replicate add.assoc)
      have t': "?body = (if ?zero then [] else ?lead) @ ?body @ (if ?left then replicate ?fill 32 else [])"
        by (simp only: zero nl if_True if_False append_Nil append_Nil2)
      obtain st3 where st3: "middle (of_nat (?L + ?fill)) st2 = Inr (int (?L + ?fill + length ?body), st3)"
        "out st3 = out st2 @ ?body" "fits st3 r"
        using mid [OF t' st2(2) lt'] by blast
      have "print_conv_spec strs f st s args = Inr ((int (?L + ?fill + length ?body), st3), args')"
        unfolding run using True zero st1(3) st2(3) st3(1) by simp
      moreover have "length (field_text strs s a) = ?L + ?fill + length ?body"
        unfolding ft by (simp only: length_append length_replicate add.assoc)
      ultimately show ?thesis using st3(2,3) st2(1) st1(1) unfolding ft by auto
    next
      case nz: False
      have ft: "field_text strs s a = replicate ?fill 32 @ ?lead @ ?body"
        using True nz unfolding field_text_def Let_def by (simp only: if_True if_False simp_thms)
      obtain st1 where st1: "out st1 = out st @ replicate ?fill 32" "fits st1 (length (?lead @ ?body) + r)"
        "\<forall>pr k. put_repeat ?fill f st 32 pr k = k (pr + of_nat ?fill) st1"
        using put_repeat_ok [of st ?fill "length (?lead @ ?body) + r" 32] fits unfolding ft by (auto simp: add.assoc)
      have lt': "?fill + length (?lead @ ?body) < 2147483648"
        using lt unfolding ft by (simp only: length_append length_replicate add.assoc)
      have t': "?lead @ ?body = (if ?zero then [] else ?lead) @ ?body @ (if ?left then replicate ?fill 32 else [])"
        by (simp only: nz nl if_False append_Nil2 append_assoc)
      obtain st3 where st3: "middle (of_nat ?fill) st1 = Inr (int (?fill + length (?lead @ ?body)), st3)"
        "out st3 = out st1 @ ?lead @ ?body" "fits st3 r"
        using mid [OF t' st1(2) lt'] by blast
      have "print_conv_spec strs f st s args = Inr ((int (?fill + length (?lead @ ?body)), st3), args')"
        unfolding run using True nz st1(3) st3(1) by simp
      then show ?thesis using st3(2,3) st1(1) unfolding ft by auto
    qed
  qed
qed

end

section \<open>The format loop ends\<close>

lemma parse_flags_suffix: "parse_flags c fl = Inr (fl', c') \<Longrightarrow> length c' \<le> length c"
  by (induction c fl rule: parse_flags.induct) (auto split: if_splits)

lemma count_digits_le: "count_digits c = Inr n \<Longrightarrow> n \<le> length c"
  by (induction c arbitrary: n) (auto simp: kres_simps split: if_splits)

lemma parse_width_suffix: "parse_width c = Inr (w, c') \<Longrightarrow> length c' \<le> length c"
  by (cases c) (auto simp: kres_simps split: if_splits)

lemma parse_precision_suffix: "parse_precision c = Inr (p, c') \<Longrightarrow> length c' \<le> length c"
  by (cases c) (auto simp: kres_simps split: if_splits list.splits)

lemma parse_length_suffix: "parse_length c = Inr (l, c') \<Longrightarrow> length c' \<le> length c"
  by (cases c) (auto split: if_splits list.splits)

lemma parse_conv_spec_len:
  assumes "parse_conv_spec format = Inr (s, n)" and "format \<noteq> []"
  shows "0 < n \<and> n \<le> length format"
proof -
  obtain fl c1 w c2 p c3 l c4 where r: "parse_flags (drop 1 format) 0 = Inr (fl, c1)"
    "parse_width c1 = Inr (w, c2)" "parse_precision c2 = Inr (p, c3)" "parse_length c3 = Inr (l, c4)"
    and e: "(case c4 of [] \<Rightarrow> Inl Undef | c # c5 \<Rightarrow> Inr (\<lparr>cs_flags = fl, cs_width = w,
      cs_precision = p, cs_length = l, cs_spec = specifier_of c\<rparr>, length format - length c5))
      = (Inr (s, n) :: (conv_spec \<times> nat) kres)"
    using assms(1) unfolding parse_conv_spec_def Let_def by (auto simp: kres_simps)
  obtain c c5 where c4: "c4 = c # c5" and n: "n = length format - length c5"
    using e by (cases c4) auto
  have "length (c # c5) \<le> length (drop 1 format)"
    using parse_flags_suffix [OF r(1)] parse_width_suffix [OF r(2)] parse_precision_suffix [OF r(3)]
      parse_length_suffix [OF r(4)] unfolding c4 by linarith
  then have "length c5 < length format" using assms(2) by (cases format) auto
  then show ?thesis unfolding n by simp
qed

definition no_fuel :: "'a kres \<Rightarrow> bool" where
  "no_fuel m \<longleftrightarrow> m \<noteq> Inl Fuel"

lemma no_fuel_simps [simp]:
  "no_fuel (Inr x)" "no_fuel (Inl e) \<longleftrightarrow> e \<noteq> Fuel"
  "no_fuel (kassert b k) \<longleftrightarrow> (b \<longrightarrow> no_fuel k)" "no_fuel (kdefined b k) \<longleftrightarrow> (b \<longrightarrow> no_fuel k)"
  by (auto simp: no_fuel_def kassert_def kdefined_def)

lemma no_fuel_kbind: "no_fuel m \<Longrightarrow> (\<And>x. m = Inr x \<Longrightarrow> no_fuel (k x)) \<Longrightarrow> no_fuel (kbind m k)"
  by (cases m) auto

named_theorems no_fuel_intros "steps that never run out of fuel"

lemma parse_no_fuel [no_fuel_intros]:
  "no_fuel (parse_flags c fl)" "no_fuel (count_digits c)" "no_fuel (vfprintf_atoi_loop c r)"
  "no_fuel (parse_width c)" "no_fuel (parse_precision c)" "no_fuel (parse_length c)"
proof -
  show "no_fuel (parse_flags c fl)" by (induction c fl rule: parse_flags.induct) auto
  show cd: "no_fuel (count_digits c)" for c
    by (induction c) (auto intro!: no_fuel_kbind)
  show at: "no_fuel (vfprintf_atoi_loop c r)" for c r
    by (induction c r rule: vfprintf_atoi_loop.induct) auto
  show "no_fuel (parse_width c)" "no_fuel (parse_precision c)"
    using cd at by (cases c; auto simp: vfprintf_atoi_def intro!: no_fuel_kbind split: list.splits)+
  show "no_fuel (parse_length c)" by (cases c) (auto split: list.splits)
qed

lemma parse_conv_spec_no_fuel [no_fuel_intros]: "no_fuel (parse_conv_spec format)"
  unfolding parse_conv_spec_def Let_def
  by (auto intro!: no_fuel_kbind no_fuel_intros split: list.splits)

lemma va_no_fuel [no_fuel_intros]: "no_fuel (va_word ws)" "no_fuel (va_dword ws)" "no_fuel (case_body v)"
proof -
  show "no_fuel (va_word ws)" by (cases ws) auto
  show "no_fuel (va_dword ws)" by (cases ws rule: va_dword.cases) auto
  show "no_fuel (case_body v)" by (simp add: case_body_def)
qed

lemma fetch_arg_no_fuel [no_fuel_intros]: "no_fuel (fetch_arg s args)"
  unfolding fetch_arg_def
  by (auto intro!: no_fuel_kbind no_fuel_intros split: conv_specifiers.splits conv_length.splits)

lemma kstrlen_no_fuel [no_fuel_intros]: "no_fuel (kstrlen b)"
proof -
  have "no_fuel (kstrlen_loop b i)" for i by (induction b i rule: kstrlen_loop.induct) auto
  then show ?thesis by (simp add: kstrlen_def)
qed

lemma kstrchr_no_fuel [no_fuel_intros]: "no_fuel (kstrchr b c)"
  by (induction b c rule: kstrchr.induct) auto

lemma cs_length_no_fuel [no_fuel_intros]: "no_fuel (cs_length_fn strs s a)"
  by (auto simp: cs_length_fn_def dec_length_def oct_length_def hex_length_def str_length_def
      char_length_def length_for_intnumbase_def intro!: no_fuel_kbind no_fuel_intros
      split: conv_specifiers.splits)

lemma kwrite_no_fuel:
  "(\<And>st m. no_fuel (f st m)) \<Longrightarrow> (\<And>pr st. no_fuel (k pr st)) \<Longrightarrow> no_fuel (kwrite f st m pr k)"
  unfolding kwrite_def by (auto intro!: no_fuel_kbind)

lemma put_repeat_no_fuel:
  "(\<And>st m. no_fuel (f st m)) \<Longrightarrow> (\<And>pr st. no_fuel (k pr st)) \<Longrightarrow> no_fuel (put_repeat n f st c pr k)"
  by (induction n arbitrary: st pr) (auto intro!: kwrite_no_fuel)

lemma print_conv_spec_no_fuel:
  assumes f: "\<And>st m. no_fuel (f st m)"
  shows "no_fuel (print_conv_spec strs f st s args)"
proof -
  have padded: "no_fuel (padded_print f st s ds)" for st ds
    unfolding padded_print_def Let_def
    by (auto intro!: put_repeat_no_fuel no_fuel_kbind f)
  have pr: "no_fuel (cs_print_fn strs f st s a)" for st a
    by (auto simp: cs_print_fn_def dec_print_def oct_print_def hex_print_def str_print_def Let_def
        char_print_def str_length_def f padded intro!: no_fuel_kbind no_fuel_intros
        split: conv_specifiers.splits)
  have fl: "no_fuel (put_flags f st s a)" for st a by (simp add: put_flags_def f)
  have pf: "no_fuel (put_prefix_flags f st s a prefix pr k)" if "\<And>pr st. no_fuel (k pr st)" for st a prefix pr k
    unfolding put_prefix_flags_def Let_def
    by (auto intro!: kwrite_no_fuel no_fuel_kbind fl f that split: option.splits)
  show ?thesis
    unfolding print_conv_spec_def Let_def
    by (auto intro!: no_fuel_kbind no_fuel_intros put_repeat_no_fuel pf pr f)
qed

lemma kstrchr_suffix: "kstrchr b c = Inr (Some r) \<Longrightarrow> length r \<le> length b"
  by (induction b c rule: kstrchr.induct) (auto split: if_splits)

lemma kstrlen_loop_pos:
  assumes "kstrlen (x # b) = Inr n" and "x \<noteq> 0" and "length b + 1 < 4294967296"
  shows "0 < unat n"
proof -
  have "kstrlen_loop b i = Inr n \<Longrightarrow> unat i + length b < 4294967296 \<Longrightarrow> unat i \<le> unat n" for b i
  proof (induction b i rule: kstrlen_loop.induct)
    case (2 c str i)
    then show ?case by (cases "c = 0") (auto simp: unat_Suc32)
  qed simp
  from this [of b 1] assms show ?thesis by (simp add: kstrlen_def)
qed

lemma kvfprintf_loop_no_fuel:
  assumes f: "\<And>st m. no_fuel (f st m)"
  shows "length format < fuel \<Longrightarrow> length format < 4294967296 \<Longrightarrow>
    no_fuel (kvfprintf_loop fuel strs f st format ap printed)"
proof (induction fuel arbitrary: st format ap printed)
  case (Suc fuel)
  show ?case
  proof (cases format)
    case (Cons c cs)
    have IH: "no_fuel (kvfprintf_loop fuel strs f st' (drop n format) ap' pr)"
      if "0 < n" for st' n ap' pr
      using Suc that Cons by (intro Suc.IH) auto
    consider "c = 0" | "c = 37" | "c \<noteq> 0" "c \<noteq> 37" by blast
    then show ?thesis
    proof cases
      case 2
      then show ?thesis
        using Cons IH parse_conv_spec_len [of format]
        by (auto intro!: no_fuel_kbind no_fuel_intros print_conv_spec_no_fuel f)
    next
      case 3
      let ?ch = "kstrchr format 37"
      let ?len = "\<lambda>cspec. case cspec of Some rest \<Rightarrow> Inr (of_nat (length format - length rest)) | None \<Rightarrow> kstrlen format"
      have s37: "sint c \<noteq> 37"
      proof
        assume "sint c = 37"
        then have "sint c = sint (37 :: u8)" by simp
        then show False using 3(2) signed_word_eqI [of c 37] by blast
      qed
      have pos: "0 < unat n" if "?ch = Inr cspec" "?len cspec = Inr n" for cspec n
      proof (cases cspec)
        case None
        then show ?thesis using that Cons 3(1) Suc.prems(2) kstrlen_loop_pos [of c cs n] by simp
      next
        case (Some rest)
        then have "kstrchr cs 37 = Inr (Some rest)" using that(1) Cons 3(1) s37 by simp
        then have "length rest < length format" using kstrchr_suffix Cons by fastforce
        moreover have "n = of_nat (length format - length rest)" using that(2) Some by simp
        moreover have "length format - length rest < 4294967296" using Suc.prems(2) by linarith
        ultimately show ?thesis by (simp only: unat_of_nat32 zero_less_diff)
      qed
      have step: "kvfprintf_loop (Suc fuel) strs f st format ap printed =
          kbind ?ch (\<lambda>cspec. kbind (?len cspec) (\<lambda>toprint.
               kbind (f st (take (unat toprint) format)) (\<lambda>(rc, st').
                 if rc < 0 then Inr (rc, st')
                 else kvfprintf_loop fuel strs f st' (drop (unat toprint) format) ap
                        (printed + of_int rc))))"
        using 3 unfolding Cons by simp
      show ?thesis
        unfolding step
        using IH pos by (auto intro!: no_fuel_kbind no_fuel_intros f split: option.splits)
    qed (use Cons in simp)
  qed simp
qed simp

section \<open>Decimal round trip\<close>

lemma is_digit_ascii: "d < 10 \<Longrightarrow> is_digit (ascii_digit d) \<and> ucast (ascii_digit d) - 48 = (of_nat d :: u32)"
proof -
  assume "d < 10"
  then have "d \<in> {0, 1, 2, 3, 4, 5, 6, 7, 8, 9}" by auto
  then show ?thesis by (auto simp: is_digit_def ascii_digit_def)
qed

lemma atoi_loop_digits:
  "\<forall>d \<in> set ds. d < 10 \<Longrightarrow> vfprintf_atoi_loop (map ascii_digit ds @ 0 # rest) (of_nat r) =
     Inr (of_nat (foldl (\<lambda>acc d. 10 * acc + d) r ds))"
proof (induction ds arbitrary: r)
  case Nil
  then show ?case by (simp add: is_digit_def)
next
  case (Cons d ds)
  then have "is_digit (ascii_digit d)" "ucast (ascii_digit d) - 48 = (of_nat d :: u32)"
    using is_digit_ascii by auto
  then show ?case using Cons.IH [of "10 * r + d"] Cons.prems by simp
qed

lemma emit_dec:
  "emit_digits 10 (\<lambda>n. ucast n + 48) 20 ud [] = map ascii_digit (num_digits 10 (unat ud))"
  by (simp add: emit_digits_bases ascii_digit_def ucast_of_nat64 fun_eq_iff)

text \<open>Reading a number back: \<open>vfprintf_atoi\<close> applied to the digits that the loop of
  \<open>dec_print\<close> stores for any 32-bit number returns that number.\<close>

theorem vfprintf_atoi_emit_digits:
  "vfprintf_atoi (emit_digits 10 (\<lambda>n. ucast n + 48) 20 (ucast w) [] @ 0 # rest) = Inr w"
proof -
  have b: "\<forall>d \<in> set (num_digits 10 (unat w)). d < 10" by (auto intro: num_digits_bound)
  have u: "unat (ucast w :: u64) = unat w"
    using unat_lt32 [of w] unfolding unsigned_ucast_eq by (intro take_bit_nat_eq_self) (simp del: unat_lt32)
  show ?thesis
    using atoi_loop_digits [OF b, of rest 0] num_digits_value [of 10 "unat w"]
    by (simp add: vfprintf_atoi_def emit_dec u flip: digits_value_def)
qed

text \<open>The length computed in advance is the number of digits the print loops then store, for
  every number and each of the three bases with the buffer size its printer uses.\<close>

theorem length_for_intnumbase_digits:
  assumes "(base, m) \<in> {(8, 22), (10, 20), (16, 16)}"
  shows "\<exists>len. length_for_intnumbase num base m = Inr len \<and>
    unat len = length (emit_digits base dig (unat m) num [])"
proof -
  obtain len where "length_for_intnumbase num base m = Inr len"
    "unat len = length (num_digits (unat base) (unat num))"
    using length_for_intnumbase_eq [of base m num] assms by blast
  then show ?thesis using assms by (auto simp: emit_digits_bases)
qed

theorem length_for_intnumbase_digits_witness:
  "\<exists>len. length_for_intnumbase 1000 10 20 = Inr len \<and>
    unat len = length (emit_digits 10 (\<lambda>n. ucast n + 48) (unat (20 :: u32)) 1000 [])"
  using length_for_intnumbase_digits [of 10 20 1000 "\<lambda>n. ucast n + 48"] by simp

section \<open>What a format string prints\<close>

text \<open>
  \<open>formats strs format ap t\<close>: the format string, given the arguments \<open>ap\<close>, stands for the text
  \<open>t\<close>: runs of plain bytes stand for themselves, \<open>%%\<close> for a percent sign, and every other
  conversion for the field of the argument it takes.
\<close>

inductive formats :: "(addr \<Rightarrow> u8 list) \<Rightarrow> u8 list \<Rightarrow> va_list \<Rightarrow> u8 list \<Rightarrow> bool"
  for strs :: "addr \<Rightarrow> u8 list" where
  formats_end: "formats strs (0 # rest) ap []"
| formats_text: "s \<noteq> [] \<Longrightarrow> 0 \<notin> set s \<Longrightarrow> 37 \<notin> set s \<Longrightarrow> c \<in> {0, 37} \<Longrightarrow>
    formats strs (c # rest) ap t \<Longrightarrow> formats strs (s @ c # rest) ap (s @ t)"
| formats_percent: "parse_conv_spec (37 # cs) = Inr (s, n) \<Longrightarrow> cs_spec s = CS_PERCENTAGE \<Longrightarrow>
    formats strs (drop n (37 # cs)) ap t \<Longrightarrow> formats strs (37 # cs) ap (37 # t)"
| formats_field: "parse_conv_spec (37 # cs) = Inr (s, n) \<Longrightarrow> fetch_arg s ap = Inr (a, ap') \<Longrightarrow>
    arg_ok strs s a \<Longrightarrow> formats strs (drop n (37 # cs)) ap' t \<Longrightarrow>
    formats strs (37 # cs) ap (field_text strs s a @ t)"

lemma sint_u8_37 [simp]: "sint c = 37 \<longleftrightarrow> c = (37 :: u8)"
  using signed_word_eqI [of c 37] by auto

lemma u8_37_nonzero: "(37 :: u8) \<noteq> 0"
  by code_simp

lemma kvfprintf_loop_percent:
  "kvfprintf_loop (Suc fuel) strs f st (37 # cs) ap printed =
     kbind (parse_conv_spec (37 # cs)) (\<lambda>(s, spec_len).
     kbind (print_conv_spec strs f st s ap) (\<lambda>((rc, st'), ap').
       if rc < 0 then Inr (rc, st')
       else kvfprintf_loop fuel strs f st' (drop spec_len (37 # cs)) ap' (printed + of_int rc)))"
  by (simp only: kvfprintf_loop.simps list.case u8_37_nonzero if_False if_True refl)

lemma kstrchr_text:
  "0 \<notin> set s \<Longrightarrow> 37 \<notin> set s \<Longrightarrow>
   kstrchr (s @ 0 # rest) 37 = Inr None \<and> kstrchr (s @ 37 # rest) 37 = Inr (Some (37 # rest))"
  by (induction s) auto

lemma kvfprintf_loop_text:
  assumes s: "s \<noteq> []" "0 \<notin> set s" "37 \<notin> set s" "c \<in> {0, 37}"
    and len: "length s < 4294967296"
  shows "kvfprintf_loop (Suc fuel) strs f st (s @ c # rest) ap printed =
    kbind (f st s) (\<lambda>(rc, st'). if rc < 0 then Inr (rc, st')
      else kvfprintf_loop fuel strs f st' (c # rest) ap (printed + of_int rc))"
proof -
  obtain x s' where x: "s = x # s'" "x \<noteq> 0" "x \<noteq> 37" using s by (cases s) auto
  have l: "(case cspec of Some r \<Rightarrow> Inr (of_nat (length (s @ c # rest) - length r))
      | None \<Rightarrow> kstrlen (s @ c # rest)) = (Inr (of_nat (length s)) :: size_t kres)"
    if "kstrchr (s @ c # rest) 37 = Inr cspec" for cspec
    using that kstrchr_text [OF s(2,3), of rest] s(2,4) kstrlen_cstring [of "s @ c # rest" s]
    by (auto simp: cstring_def)
  have td: "take (length s) (s @ c # rest) = s" "drop (length s) (s @ c # rest) = c # rest"
    by simp_all
  have ex: "\<exists>cspec. kstrchr (s @ c # rest) 37 = Inr cspec"
    using kstrchr_text [OF s(2,3), of rest] s(4) by auto
  show ?thesis
    using ex
  proof
    fix cspec
    assume c: "kstrchr (s @ c # rest) 37 = Inr cspec"
    have "kvfprintf_loop (Suc fuel) strs f st (s @ c # rest) ap printed =
      kbind (kstrchr (s @ c # rest) 37) (\<lambda>cspec.
        kbind (case cspec of Some r \<Rightarrow> Inr (of_nat (length (s @ c # rest) - length r))
          | None \<Rightarrow> kstrlen (s @ c # rest)) (\<lambda>toprint.
        kbind (f st (take (unat toprint) (s @ c # rest))) (\<lambda>(rc, st'). if rc < 0 then Inr (rc, st')
          else kvfprintf_loop fuel strs f st' (drop (unat toprint) (s @ c # rest)) ap (printed + of_int rc))))"
      using x(2,3) unfolding x(1) append_Cons by simp
    also have "\<dots> = kbind (f st s) (\<lambda>(rc, st'). if rc < 0 then Inr (rc, st')
      else kvfprintf_loop fuel strs f st' (c # rest) ap (printed + of_int rc))"
      by (simp only: c kbind_Inr l [OF c] unat_of_nat32 [OF len] td)
    finally show ?thesis .
  qed
qed

context output_device
begin

lemma kvfprintf_loop_ok:
  assumes "formats strs format ap t"
  shows "length format < fuel \<Longrightarrow> length format < 4294967296 \<Longrightarrow> fits st (length t + r) \<Longrightarrow>
    k + length t < 2147483648 \<Longrightarrow>
    \<exists>st'. kvfprintf_loop fuel strs f st format ap (of_nat k) = Inr (int (k + length t), st') \<and>
      out st' = out st @ t \<and> fits st' r"
  using assms
proof (induction arbitrary: fuel st k rule: formats.induct)
  case (formats_end rest ap)
  then show ?case
    using sint_of_nat32 [of k] of_nat_le_INT_MAX [of k] by (cases fuel) auto
next
  case (formats_text s c rest ap t)
  then obtain fu where fu: "fuel = Suc fu" by (cases fuel) auto
  obtain st1 where st1: "f st s = Inr (int (length s), st1)" "out st1 = out st @ s" "fits st1 (length t + r)"
    using write_law [of st s "length t + r"] formats_text.prems by (auto simp: add.assoc)
  have "length s < 4294967296" using formats_text.prems by simp
  from kvfprintf_loop_text [OF formats_text.hyps(1-4) this, of fu strs f st rest ap "of_nat k"]
  have "kvfprintf_loop fuel strs f st (s @ c # rest) ap (of_nat k) =
      kvfprintf_loop fu strs f st1 (c # rest) ap (of_nat (k + length s))"
    by (simp add: fu st1)
  moreover have "length (c # rest) < fu" "k + length s + length t < 2147483648"
    using formats_text.prems formats_text.hyps(1) fu by (cases s; simp)+
  ultimately show ?case
    using formats_text.IH [of fu st1 "k + length s"] st1 formats_text.prems(2) by (auto simp: add.assoc)
next
  case (formats_percent cs s n ap t)
  then obtain fu where fu: "fuel = Suc fu" by (cases fuel) auto
  obtain st1 where st1: "f st [37] = Inr (1, st1)" "out st1 = out st @ [37]" "fits st1 (length t + r)"
    using write_law [of st "[37]" "length t + r"] formats_percent.prems by auto
  have n: "0 < n" using parse_conv_spec_len formats_percent.hyps(1) by blast
  have "kvfprintf_loop fuel strs f st (37 # cs) ap (of_nat k) =
      kvfprintf_loop fu strs f st1 (drop n (37 # cs)) ap (of_nat (k + 1))"
    unfolding fu kvfprintf_loop_percent
    using formats_percent.hyps(1,2) st1(1) by (simp add: print_conv_spec_def add.commute)
  moreover have "length (drop n (37 # cs)) < fu" "length (drop n (37 # cs)) < 4294967296"
    using formats_percent.prems n fu by auto
  ultimately show ?case
    using formats_percent.IH [of fu st1 "k + 1"] st1 formats_percent.prems(4) by auto
next
  case (formats_field cs s n ap a ap' t)
  then obtain fu where fu: "fuel = Suc fu" by (cases fuel) auto
  let ?t = "field_text strs s a"
  obtain st1 where st1: "print_conv_spec strs f st s ap = Inr ((int (length ?t), st1), ap')"
    "out st1 = out st @ ?t" "fits st1 (length t + r)"
    using print_conv_spec_ok [OF formats_field.hyps(2,3), of st "length t + r"] formats_field.prems(3) by (auto simp: add.assoc)
  have n: "0 < n" using parse_conv_spec_len formats_field.hyps(1) by blast
  have "kvfprintf_loop fuel strs f st (37 # cs) ap (of_nat k) =
      kvfprintf_loop fu strs f st1 (drop n (37 # cs)) ap' (of_nat (k + length ?t))"
    unfolding fu kvfprintf_loop_percent
    using formats_field.hyps(1) st1(1) by (simp add: add.commute)
  moreover have "length (drop n (37 # cs)) < fu" "length (drop n (37 # cs)) < 4294967296"
    using formats_field.prems n fu by auto
  ultimately show ?case
    using formats_field.IH [of fu st1 "k + length ?t"] st1 formats_field.prems(4) by (auto simp: add.assoc)
qed

lemma kvfprintf_ok:
  assumes "formats strs format ap t" and "fits st (length t + r)" and "length format < 4294967296"
  obtains st' where "kvfprintf strs f st format ap = Inr (int (length t), st')" "out st' = out st @ t" "fits st' r"
  using kvfprintf_loop_ok [OF assms(1) lessI assms(3,2), of 0] fits_law [OF assms(2)] that
  by (auto simp: kvfprintf_def)

end

text \<open>A format string prints the text that \<open>formats\<close> gives for it. Whatever the output function, as long as
  it takes the bytes, \<open>kvfprintf\<close> writes exactly the plain text and the fields of the arguments in
  order, each padded, signed and prefixed as its conversion says, and returns the number of bytes.\<close>

theorem kvfprintf_formats:
  assumes "output_device f out fits" and "formats strs format ap t"
    and "fits st (length t)" and "length format < 4294967296"
  shows "\<exists>st'. kvfprintf strs f st format ap = Inr (int (length t), st') \<and> out st' = out st @ t"
  using output_device.kvfprintf_ok [OF assms(1,2), of st 0] assms(3,4) by auto

text \<open>A device that collects what it is given.\<close>

definition mem_write :: "u8 list fprintf_fn" where
  "mem_write st m = Inr (int (length m), st @ m)"

definition mem_fits :: "u8 list \<Rightarrow> nat \<Rightarrow> bool" where
  "mem_fits st n \<longleftrightarrow> length st + n < 2147483648"

lemma mem_device: "output_device mem_write id mem_fits"
  by unfold_locales (auto simp: mem_write_def mem_fits_def)

lemma num_digits_42: "num_digits 10 42 = [4, 2]"
  by (simp add: num_digits.simps)

text \<open>The string \<open>a%5d\<close> with the argument -42 is \<open>a  -42\<close>.\<close>

lemma formats_example:
  "formats (\<lambda>_. []) [97, 37, 53, 100, 0] [0xFFFFFFD6] [97, 32, 32, 45, 52, 50]"
proof -
  let ?s = "\<lparr>cs_flags = 0, cs_width = 5, cs_precision = PREC_EMPTY, cs_length = CL_NONE, cs_spec = CS_INT\<rparr>"
  let ?a = "\<lparr>arg_val = 42, negative = True\<rparr>"
  have 1: "parse_conv_spec [37, 53, 100, 0] = Inr (?s, 3)" by code_simp
  have 2: "fetch_arg ?s [0xFFFFFFD6] = Inr (?a, [])" by code_simp
  have c: "conv_text (\<lambda>_. []) ?s ?a = [52, 50]"
    by (simp add: conv_text_def num_text_def precision_given_def special_def num_digits_42 ascii_digit_def)
  have r: "replicate 2 (32 :: u8) = [32, 32]" by (simp add: numeral_2_eq_2)
  have 3: "field_text (\<lambda>_. []) ?s ?a = [32, 32, 45, 52, 50]"
    by (simp add: field_text_def c prefix_text_def cs_prefix_fn_def sign_text_def width_given_def
        special_def has_flag_def r)
  have 4: "arg_ok (\<lambda>_. []) ?s ?a" by (simp add: arg_ok_def precision_given_def special_def)
  have "formats (\<lambda>_. []) (37 # [53, 100, 0]) [0xFFFFFFD6] (field_text (\<lambda>_. []) ?s ?a @ [])"
    by (rule formats_field [OF 1 2 4]) (simp add: formats_end)
  from formats_text [OF _ _ _ _ this, of "[97]"] show ?thesis
    by (simp add: 3)
qed

theorem kvfprintf_formats_witness:
  "\<exists>st'. kvfprintf (\<lambda>_. []) mem_write [] [97, 37, 53, 100, 0] [0xFFFFFFD6] = Inr (6, st') \<and>
     id st' = id [] @ [97, 32, 32, 45, 52, 50]"
  using kvfprintf_formats [OF mem_device formats_example, of "[]"] by (simp add: mem_fits_def)

text \<open>C37: the format loop always comes to an end: for an output function that does, the fuel of
  one round per byte of the format is never used up.\<close>

theorem kvfprintf_terminates:
  assumes "\<forall>st m. f st m \<noteq> Inl Fuel" and "length format < 4294967296"
  shows "kvfprintf strs f st format ap \<noteq> Inl Fuel"
  using kvfprintf_loop_no_fuel [of f format "Suc (length format)" strs st ap 0] assms
  by (simp add: kvfprintf_def no_fuel_def)

theorem kvfprintf_terminates_witness:
  "kvfprintf (\<lambda>_. []) mem_write [] [37, 37, 0] [] \<noteq> Inl Fuel"
  using kvfprintf_terminates [of mem_write "[37, 37, 0]" "\<lambda>_. []" "[]" "[]"]
  by (simp add: mem_write_def)

text \<open>With the flag \<open>0\<close> and no width the sign and the prefix are lost: a negative number is
  printed as its absolute value.\<close>

theorem zero_flag_drops_sign:
  assumes "output_device f out fits" and "fetch_arg s args = Inr (a, args')" and "arg_ok strs s a"
    and "has_flag CF_ZERO s" and "\<not> width_given s" and "fits st (length (conv_text strs s a))"
  shows "\<exists>st'. print_conv_spec strs f st s args =
      Inr ((int (length (conv_text strs s a)), st'), args') \<and> out st' = out st @ conv_text strs s a"
  using output_device.print_conv_spec_ok [OF assms(1-3), of st 0] assms(4-6)
  by (auto simp: field_text_def)

theorem zero_flag_drops_sign_witness:
  "\<exists>st'. print_conv_spec (\<lambda>_. []) mem_write [] \<lparr>cs_flags = CF_ZERO, cs_width = WIDTH_EMPTY,
      cs_precision = PREC_EMPTY, cs_length = CL_NONE, cs_spec = CS_INT\<rparr> [0xFFFFFFD6] =
    Inr ((2, st'), []) \<and> id st' = id [] @ [52, 50]"
proof -
  let ?s = "\<lparr>cs_flags = CF_ZERO, cs_width = WIDTH_EMPTY,
      cs_precision = PREC_EMPTY, cs_length = CL_NONE, cs_spec = CS_INT\<rparr>"
  let ?a = "\<lparr>arg_val = 42, negative = True\<rparr>"
  have 1: "fetch_arg ?s [0xFFFFFFD6] = Inr (?a, [])" by code_simp
  have 2: "conv_text (\<lambda>_. []) ?s ?a = [52, 50]"
    by (simp add: conv_text_def num_text_def precision_given_def special_def num_digits_42 ascii_digit_def)
  have 3: "arg_ok (\<lambda>_. []) ?s ?a" "has_flag CF_ZERO ?s" "\<not> width_given ?s"
    by (simp_all add: arg_ok_def precision_given_def width_given_def special_def has_flag_def)
  show ?thesis
    using zero_flag_drops_sign [OF mem_device 1 3, of "[]"] by (simp add: 2 mem_fits_def)
qed

lemma len64: "LENGTH(64) = 64"
  by simp

lemma kvfprintf_one_conv:
  assumes "parse_conv_spec (37 # cs) = Inr (s, n)" and "drop n (37 # cs) = 0 # rest" and "length cs = Suc m"
  shows "kvfprintf strs f st (37 # cs) ap =
    kbind (print_conv_spec strs f st s ap) (\<lambda>((rc, st'), ap').
      if rc < 0 then Inr (rc, st')
      else kassert (of_int rc \<le> INT_MAX) (Inr (sint (of_int rc :: size_t), st')))"
  unfolding kvfprintf_def length_Cons kvfprintf_loop_percent
  using assms by (auto simp: kbind_def split: sum.splits prod.splits)

text \<open>A width of 254 is no width: the number stored for it is the one that marks an absent
  width, so \<open>%254d\<close> prints what \<open>%d\<close> prints.\<close>

theorem width_254_is_empty:
  "kvfprintf strs f st [37, 50, 53, 52, 100, 0] ap = kvfprintf strs f st [37, 100, 0] ap"
proof -
  let ?s = "\<lparr>cs_flags = 0, cs_width = WIDTH_EMPTY, cs_precision = PREC_EMPTY, cs_length = CL_NONE, cs_spec = CS_INT\<rparr>"
  have "parse_conv_spec [37, 50, 53, 52, 100, 0] = Inr (?s, 5)" "parse_conv_spec [37, 100, 0] = Inr (?s, 2)"
    by code_simp+
  then show ?thesis
    using kvfprintf_one_conv [of "[50, 53, 52, 100, 0]" ?s 5 "[]" 4 strs f st ap]
      kvfprintf_one_conv [of "[100, 0]" ?s 2 "[]" 1 strs f st ap] by simp
qed

text \<open>A width given as \<open>*\<close> is not taken from the arguments: \<open>%*d\<close> prints the argument that
  should be the width as the number, in a field of 255 bytes, and leaves the number itself.\<close>

theorem width_star_prints_width:
  assumes "output_device f out fits" and "fits st 255" and "0 \<le> sint w"
    and "ds = map ascii_digit (num_digits 10 (unat w))"
  shows "\<exists>st'. kvfprintf strs f st [37, 42, 100, 0] (w # number # ap) = Inr (255, st') \<and>
    out st' = out st @ replicate (255 - length ds) 32 @ ds"
proof -
  let ?s = "\<lparr>cs_flags = 0, cs_width = WIDTH_VAR, cs_precision = PREC_EMPTY, cs_length = CL_NONE, cs_spec = CS_INT\<rparr>"
  let ?a = "\<lparr>arg_val = of_int (sint w), negative = False\<rparr>"
  have pc: "parse_conv_spec [37, 42, 100, 0] = Inr (?s, 3)" by code_simp
  have lt: "sint w < 2 ^ 31" using sint_lt [of w] by simp
  have "sint w = uint w"
    using assms(3) lt uint_sint [of w] by (simp add: take_bit_int_eq_self)
  moreover have "uint (arg_val ?a) = sint w"
  proof -
    have "uint (arg_val ?a) = take_bit 64 (sint w)"
      by (simp only: argument.select_convs unsigned_of_int len64) simp
    then show ?thesis using assms(3) lt by (simp add: take_bit_int_eq_self)
  qed
  ultimately have u: "unat (arg_val ?a) = unat w" by (simp only: uint_nat of_nat_eq_iff)
  then have nz: "\<not> (cs_precision ?s = 0 \<and> arg_val ?a = 0)" by simp
  have ct: "conv_text strs ?s ?a = ds"
    unfolding assms(4) conv_text_def num_text_def using nz u
    by (simp add: precision_given_def special_def)
  have "length ds \<le> 22" unfolding assms(4) u [symmetric] using num_digits_le_22 by simp
  then have ft: "field_text strs ?s ?a = replicate (255 - length ds) 32 @ ds" "length (field_text strs ?s ?a) = 255"
    unfolding field_text_def ct
    by (simp_all add: prefix_text_def cs_prefix_fn_def sign_text_def width_given_def special_def has_flag_def)
  have fa: "fetch_arg ?s (w # number # ap) = Inr (?a, number # ap)"
    using assms(3) by (simp add: fetch_arg_def case_body_def)
  have ok: "arg_ok strs ?s ?a" by (simp add: arg_ok_def precision_given_def special_def)
  obtain st' where "print_conv_spec strs f st ?s (w # number # ap) = Inr ((255, st'), number # ap)"
    "out st' = out st @ replicate (255 - length ds) 32 @ ds"
    using output_device.print_conv_spec_ok [OF assms(1) fa ok, of st 0] assms(2) ft by auto
  then show ?thesis
    using kvfprintf_one_conv [OF pc, of "[]" 2 strs f st "w # number # ap"] by (simp add: INT_MAX_def)
qed

theorem width_star_prints_width_witness:
  "\<exists>st'. kvfprintf (\<lambda>_. []) mem_write [] [37, 42, 100, 0] [5, 42] = Inr (255, st') \<and>
    id st' = id [] @ replicate (255 - length (map ascii_digit [5])) 32 @ map ascii_digit [5]"
  using width_star_prints_width [OF mem_device, of "[]" 5 "map ascii_digit [5]"]
  by (simp add: mem_fits_def num_digits_small)

end
