(* ===== verification/Rbtree.thy ===== *)
theory Rbtree
  imports Kernel_Base
begin

text \<open>
  kernel/lib/ds/rbtree.c: the intrusive red-black tree, as the debug build has it (the colour is
  a field of the node; with \<open>NDEBUG\<close> it is packed into the parent pointer).

  \<^item> \<open>rbtree\<close> is \<open>struct rbtree\<close> together with the store of its nodes, by address; reading a node
    through \<open>NULL\<close> or an address that holds none is undefined.
  \<^item> A comparison function gets the two \<open>data\<close> pointers; it may fail, as the asserts of
    \<open>vm_area_rbtcmpfn\<close> do.
  \<^item> A loop that follows pointers runs on fuel.
\<close>

section \<open>Nodes and the store\<close>

datatype rbtree_colour = RBTREE_BLACK | RBTREE_RED

record rbtree_node =
  rb_data :: addr
  rb_left :: addr
  rb_right :: addr
  rb_parent :: addr
  rb_colour :: rbtree_colour

record rbtree =
  rb_root :: addr
  rb_heap :: "addr \<Rightarrow> rbtree_node option"

type_synonym rbtree_cmp_fn = "addr \<Rightarrow> addr \<Rightarrow> int kres"

text \<open>Reading and writing a node through its pointer.\<close>

definition node_at :: "rbtree \<Rightarrow> addr \<Rightarrow> rbtree_node kres" where
  "node_at t n = (if n = NULL then Inl Undef
     else case rb_heap t n of None \<Rightarrow> Inl Undef | Some nd \<Rightarrow> Inr nd)"

definition node_put :: "rbtree \<Rightarrow> addr \<Rightarrow> (rbtree_node \<Rightarrow> rbtree_node) \<Rightarrow> rbtree kres" where
  "node_put t n g = kbind (node_at t n) (\<lambda>nd. Inr (t\<lparr>rb_heap := (rb_heap t)(n \<mapsto> g nd)\<rparr>))"

definition rbt_set_colour :: "rbtree \<Rightarrow> addr \<Rightarrow> rbtree_colour \<Rightarrow> rbtree kres" where
  "rbt_set_colour t n c = kassert (n \<noteq> NULL) (node_put t n (rb_colour_update (\<lambda>_. c)))"

definition rbt_get_colour :: "rbtree \<Rightarrow> addr \<Rightarrow> rbtree_colour kres" where
  "rbt_get_colour t n = (if n = NULL then Inr RBTREE_BLACK
     else kbind (node_at t n) (\<lambda>nd. Inr (rb_colour nd)))"

definition rbt_set_parent :: "rbtree \<Rightarrow> addr \<Rightarrow> addr \<Rightarrow> rbtree kres" where
  "rbt_set_parent t node p = kassert (node \<noteq> NULL) (node_put t node (rb_parent_update (\<lambda>_. p)))"

definition rbt_get_parent :: "rbtree \<Rightarrow> addr \<Rightarrow> addr kres" where
  "rbt_get_parent t node = kassert (node \<noteq> NULL) (kbind (node_at t node) (\<lambda>nd. Inr (rb_parent nd)))"

definition rbt_get_grandparent :: "rbtree \<Rightarrow> addr \<Rightarrow> addr kres" where
  "rbt_get_grandparent t node =
     kbind (rbt_get_parent t node) (\<lambda>parent. kassert (parent \<noteq> NULL)
       (kbind (rbt_get_parent t parent) (\<lambda>grandparent. kassert (grandparent \<noteq> NULL) (Inr grandparent))))"

definition rbt_get_sibling :: "rbtree \<Rightarrow> addr \<Rightarrow> addr kres" where
  "rbt_get_sibling t node =
     kbind (rbt_get_parent t node) (\<lambda>parent. kassert (parent \<noteq> NULL)
       (kbind (node_at t parent) (\<lambda>p.
         if rb_left p = node then Inr (rb_right p) else Inr (rb_left p))))"

definition rbt_get_uncle :: "rbtree \<Rightarrow> addr \<Rightarrow> addr kres" where
  "rbt_get_uncle t node =
     kbind (rbt_get_parent t node) (\<lambda>parent. kassert (parent \<noteq> NULL)
       (kbind (rbt_get_parent t parent) (\<lambda>g. kassert (g \<noteq> NULL) (rbt_get_sibling t parent))))"

definition rbt_replace_subtree :: "rbtree \<Rightarrow> addr \<Rightarrow> addr \<Rightarrow> rbtree kres" where
  "rbt_replace_subtree t replacee replacement =
     kbind (rbt_get_parent t replacee) (\<lambda>replacee_parent.
     kbind (if replacee_parent \<noteq> NULL
       then kbind (node_at t replacee_parent) (\<lambda>p.
         if rb_left p = replacee
         then node_put t replacee_parent (rb_left_update (\<lambda>_. replacement))
         else node_put t replacee_parent (rb_right_update (\<lambda>_. replacement)))
       else Inr (t\<lparr>rb_root := replacement\<rparr>)) (\<lambda>t.
     if replacement \<noteq> NULL then rbt_set_parent t replacement replacee_parent else Inr t))"

definition rbtree_init_tree :: "rbtree \<Rightarrow> rbtree kres" where
  "rbtree_init_tree t = Inr (t\<lparr>rb_root := NULL\<rparr>)"

definition rbtree_init_node :: "rbtree \<Rightarrow> addr \<Rightarrow> rbtree kres" where
  "rbtree_init_node t node = kassert (node \<noteq> NULL)
     (kbind (node_put t node (\<lambda>nd. nd\<lparr>rb_left := NULL, rb_right := NULL, rb_parent := NULL\<rparr>))
       (\<lambda>t. rbt_set_colour t node RBTREE_RED))"

section \<open>Rotations\<close>

definition rbt_rotate_left :: "rbtree \<Rightarrow> addr \<Rightarrow> rbtree kres" where
  "rbt_rotate_left t old_root = kassert (old_root \<noteq> NULL)
     (kbind (node_at t old_root) (\<lambda>nd. let new_root = rb_right nd in
      kbind (rbt_replace_subtree t old_root new_root) (\<lambda>t.
      kbind (node_at t new_root) (\<lambda>nr.
      kbind (node_put t old_root (rb_right_update (\<lambda>_. rb_left nr))) (\<lambda>t.
      kbind (if rb_left nr \<noteq> NULL then rbt_set_parent t (rb_left nr) old_root else Inr t) (\<lambda>t.
      kbind (node_put t new_root (rb_left_update (\<lambda>_. old_root))) (\<lambda>t.
        rbt_set_parent t old_root new_root)))))))"

definition rbt_rotate_right :: "rbtree \<Rightarrow> addr \<Rightarrow> rbtree kres" where
  "rbt_rotate_right t old_root = kassert (old_root \<noteq> NULL)
     (kbind (node_at t old_root) (\<lambda>nd. let new_root = rb_left nd in
      kbind (rbt_replace_subtree t old_root new_root) (\<lambda>t.
      kbind (node_at t new_root) (\<lambda>nr.
      kbind (node_put t old_root (rb_left_update (\<lambda>_. rb_right nr))) (\<lambda>t.
      kbind (if rb_right nr \<noteq> NULL then rbt_set_parent t (rb_right nr) old_root else Inr t) (\<lambda>t.
      kbind (node_put t new_root (rb_right_update (\<lambda>_. old_root))) (\<lambda>t.
        rbt_set_parent t old_root new_root)))))))"

section \<open>Insertion\<close>

text \<open>
  The case of a red parent and a black uncle, which ends the loop: the three nodes form a
  triangle, which a rotation around the parent makes a line, or a line, which a rotation around
  the grandparent ends.
\<close>

definition rbt_insert_line :: "rbtree \<Rightarrow> addr \<Rightarrow> rbtree kres" where
  "rbt_insert_line t node =
     kbind (rbt_get_parent t node) (\<lambda>parent.
     kbind (rbt_get_grandparent t node) (\<lambda>grandparent.
     kassert (parent \<noteq> NULL) (kassert (grandparent \<noteq> NULL)
     (kbind (node_at t parent) (\<lambda>p. kbind (node_at t grandparent) (\<lambda>g.
     kbind (if node = rb_left p \<and> parent = rb_left g then rbt_rotate_right t grandparent
         else if node = rb_right p \<and> parent = rb_right g then rbt_rotate_left t grandparent
         else Inl Kassert) (\<lambda>t.
     kbind (rbt_set_colour t parent RBTREE_BLACK) (\<lambda>t.
       rbt_set_colour t grandparent RBTREE_RED))))))))"

definition rbt_insert_rotate :: "rbtree \<Rightarrow> addr \<Rightarrow> addr \<Rightarrow> rbtree kres" where
  "rbt_insert_rotate t node parent =
     kbind (rbt_get_grandparent t node) (\<lambda>grandparent.
     kbind (node_at t parent) (\<lambda>p. kbind (node_at t grandparent) (\<lambda>g.
     kbind (if node = rb_right p \<and> parent = rb_left g
         then kbind (rbt_rotate_left t parent) (\<lambda>t.
           kbind (node_at t node) (\<lambda>nd. Inr (t, rb_left nd)))
         else if node = rb_left p \<and> parent = rb_right g
         then kbind (rbt_rotate_right t parent) (\<lambda>t.
           kbind (node_at t node) (\<lambda>nd. Inr (t, rb_right nd)))
         else Inr (t, node)) (\<lambda>(t, node). rbt_insert_line t node))))"

fun rbt_insert_fix_loop :: "nat \<Rightarrow> rbtree \<Rightarrow> addr \<Rightarrow> rbtree kres" where
  "rbt_insert_fix_loop 0 t node = Inl Fuel"
| "rbt_insert_fix_loop (Suc fuel) t node =
     kbind (rbt_get_parent t node) (\<lambda>parent.
       if parent = NULL then rbt_set_colour t node RBTREE_BLACK
       else kbind (rbt_get_colour t parent) (\<lambda>pc.
         if pc = RBTREE_BLACK then Inr t
         else kbind (rbt_get_uncle t node) (\<lambda>uncle. kbind (rbt_get_colour t uncle) (\<lambda>uc.
           if uc = RBTREE_RED
           then kbind (rbt_get_grandparent t node) (\<lambda>grandparent.
             kbind (rbt_set_colour t parent RBTREE_BLACK) (\<lambda>t.
             kbind (rbt_set_colour t uncle RBTREE_BLACK) (\<lambda>t.
             kbind (rbt_set_colour t grandparent RBTREE_RED) (\<lambda>t.
               rbt_insert_fix_loop fuel t grandparent))))
           else rbt_insert_rotate t node parent))))"

definition rbt_insert_fix :: "rbtree \<Rightarrow> addr \<Rightarrow> rbtree kres" where
  "rbt_insert_fix t new = kassert (new \<noteq> NULL) (rbt_insert_fix_loop addr_fuel t new)"

text \<open>The descent to the place of the new node: the last node seen and its comparison.\<close>

fun rbtree_insert_loop :: "nat \<Rightarrow> rbtree \<Rightarrow> rbtree_cmp_fn \<Rightarrow> addr \<Rightarrow> addr \<Rightarrow> addr \<Rightarrow> int \<Rightarrow>
    (addr \<times> int) kres" where
  "rbtree_insert_loop 0 t cmpf new_data cursor parent cmp_result = Inl Fuel"
| "rbtree_insert_loop (Suc fuel) t cmpf new_data cursor parent cmp_result =
     (if cursor = NULL then Inr (parent, cmp_result)
      else kbind (node_at t cursor) (\<lambda>nd. kbind (cmpf (rb_data nd) new_data) (\<lambda>c.
        rbtree_insert_loop fuel t cmpf new_data (if c \<ge> 0 then rb_left nd else rb_right nd) cursor c)))"

definition rbtree_insert :: "rbtree \<Rightarrow> addr \<Rightarrow> rbtree_cmp_fn \<Rightarrow> rbtree kres" where
  "rbtree_insert t new cmpf = kassert (new \<noteq> NULL)
     (kbind (rbtree_init_node t new) (\<lambda>t. kbind (node_at t new) (\<lambda>nd.
      kbind (rbtree_insert_loop addr_fuel t cmpf (rb_data nd) (rb_root t) NULL 0) (\<lambda>(parent, cmp_result).
      kbind (rbt_set_parent t new parent) (\<lambda>t.
      kbind (if parent \<noteq> NULL
        then if cmp_result \<ge> 0 then node_put t parent (rb_left_update (\<lambda>_. new))
          else node_put t parent (rb_right_update (\<lambda>_. new))
        else kassert (rb_root t = NULL) (Inr (t\<lparr>rb_root := new\<rparr>))) (\<lambda>t.
        rbt_insert_fix t new))))))"

section \<open>Deletion\<close>

definition try_set_parent :: "rbtree \<Rightarrow> addr \<Rightarrow> addr \<Rightarrow> rbtree kres" where
  "try_set_parent t node p = (if node \<noteq> NULL then rbt_set_parent t node p else Inr t)"

text \<open>The asserts at the end of \<open>rbt_swap_nodes\<close>, for one of the two nodes.\<close>

definition swap_assertions :: "rbtree \<Rightarrow> addr \<Rightarrow> rbtree kres" where
  "swap_assertions t x = kbind (node_at t x) (\<lambda>nx.
     kbind (if rb_left nx \<noteq> NULL
       then kbind (rbt_get_parent t (rb_left nx)) (\<lambda>p. kassert (p = x) (Inr ())) else Inr ()) (\<lambda>_.
     kbind (if rb_right nx \<noteq> NULL
       then kbind (rbt_get_parent t (rb_right nx)) (\<lambda>p. kassert (p = x) (Inr ())) else Inr ()) (\<lambda>_.
     kbind (rbt_get_parent t x) (\<lambda>p.
       if p \<noteq> NULL then kbind (node_at t p) (\<lambda>np. kassert (rb_left np = x \<or> rb_right np = x) (Inr t))
       else Inr t))))"

text \<open>The two halves of \<open>rbt_swap_nodes\<close>: \<open>y\<close> takes the place of \<open>x\<close>, then \<open>x\<close> the one \<open>y\<close> had.\<close>

definition swap_place_y :: "rbtree \<Rightarrow> addr \<Rightarrow> addr \<Rightarrow> rbtree kres" where
  "swap_place_y t x y = kbind (node_at t x) (\<lambda>nx.
     kbind (try_set_parent t (rb_left nx) y) (\<lambda>t.
     kbind (try_set_parent t (rb_right nx) y) (\<lambda>t.
     kbind (rbt_get_parent t x) (\<lambda>Xp.
     kbind (if Xp \<noteq> NULL
       then kbind (node_at t Xp) (\<lambda>np. kbind (if rb_left np = x
           then node_put t Xp (rb_left_update (\<lambda>_. y))
           else node_put t Xp (rb_right_update (\<lambda>_. y))) (\<lambda>t. rbt_set_parent t y Xp))
       else kassert (rb_root t = x) (kbind (rbt_set_parent t y NULL) (\<lambda>t. Inr (t\<lparr>rb_root := y\<rparr>)))) (\<lambda>t.
     kbind (node_at t x) (\<lambda>nx.
     kbind (node_put t y (\<lambda>n. n\<lparr>rb_left := if rb_left nx \<noteq> y then rb_left nx else x\<rparr>)) (\<lambda>t.
     kbind (node_put t y (\<lambda>n. n\<lparr>rb_right := if rb_right nx \<noteq> y then rb_right nx else x\<rparr>)) (\<lambda>t.
     kbind (rbt_get_colour t x) (\<lambda>c. rbt_set_colour t y c)))))))))"

definition swap_place_x :: "rbtree \<Rightarrow> addr \<Rightarrow> addr \<Rightarrow> rbtree_node \<Rightarrow> rbtree kres" where
  "swap_place_x t x y y_copy =
     kbind (try_set_parent t (rb_left y_copy) x) (\<lambda>t.
     kbind (try_set_parent t (rb_right y_copy) x) (\<lambda>t. let Yp = rb_parent y_copy in
     kbind (if Yp \<noteq> NULL
       then if Yp \<noteq> x
         then kbind (node_at t Yp) (\<lambda>np. kbind (if rb_left np = y
             then node_put t Yp (rb_left_update (\<lambda>_. x))
             else node_put t Yp (rb_right_update (\<lambda>_. x))) (\<lambda>t. rbt_set_parent t x Yp))
         else rbt_set_parent t x y
       else kassert (rb_root t = y) (kbind (rbt_set_parent t x NULL) (\<lambda>t. Inr (t\<lparr>rb_root := x\<rparr>)))) (\<lambda>t.
     kbind (node_put t x (\<lambda>n. n\<lparr>rb_left := rb_left y_copy, rb_right := rb_right y_copy\<rparr>)) (\<lambda>t.
       rbt_set_colour t x (rb_colour y_copy)))))"

definition rbt_swap_nodes :: "rbtree \<Rightarrow> addr \<Rightarrow> addr \<Rightarrow> rbtree kres" where
  "rbt_swap_nodes t x y = kassert (x \<noteq> NULL) (kassert (y \<noteq> NULL)
     (kbind (rbt_get_parent t x) (\<lambda>px. let (x, y) = (if px = y then (y, x) else (x, y)) in
      kbind (node_at t y) (\<lambda>y_copy.
      kbind (swap_place_y t x y) (\<lambda>t.
      kbind (swap_place_x t x y y_copy) (\<lambda>t.
      kbind (swap_assertions t x) (\<lambda>t. swap_assertions t y)))))))"

fun rbt_find_successor_loop :: "nat \<Rightarrow> rbtree \<Rightarrow> addr \<Rightarrow> addr kres" where
  "rbt_find_successor_loop 0 t n = Inl Fuel"
| "rbt_find_successor_loop (Suc fuel) t n =
     kbind (node_at t n) (\<lambda>nd. if rb_right nd \<noteq> NULL
       then rbt_find_successor_loop fuel t (rb_right nd) else Inr n)"

definition rbt_find_successor :: "rbtree \<Rightarrow> addr \<Rightarrow> addr kres" where
  "rbt_find_successor t subtree =
     kbind (node_at t subtree) (\<lambda>nd. rbt_find_successor_loop addr_fuel t (rb_left nd))"

text \<open>The colours of the two children of a node, the left one first.\<close>

definition child_colours :: "rbtree \<Rightarrow> addr \<Rightarrow> (rbtree_colour \<times> rbtree_colour) kres" where
  "child_colours t n = kbind (node_at t n) (\<lambda>nd. kbind (rbt_get_colour t (rb_left nd)) (\<lambda>l.
     kbind (rbt_get_colour t (rb_right nd)) (\<lambda>r. Inr (l, r))))"

text \<open>A red sibling is rotated away: the new parent and sibling.\<close>

definition delete_red_sibling :: "rbtree \<Rightarrow> addr \<Rightarrow> addr \<Rightarrow> addr \<Rightarrow> (rbtree \<times> addr \<times> addr) kres" where
  "delete_red_sibling t node parent sibling =
     kbind (rbt_get_colour t sibling) (\<lambda>sc. if sc = RBTREE_RED
       then kbind (rbt_get_colour t parent) (\<lambda>pc. kassert (pc = RBTREE_BLACK)
         (kbind (node_at t parent) (\<lambda>p.
          kbind (if rb_right p = sibling then rbt_rotate_left t parent else rbt_rotate_right t parent) (\<lambda>t.
          kbind (rbt_set_colour t sibling RBTREE_BLACK) (\<lambda>t.
          kbind (rbt_set_colour t parent RBTREE_RED) (\<lambda>t.
          kbind (rbt_get_parent t node) (\<lambda>parent.
          kbind (rbt_get_sibling t node) (\<lambda>sibling. Inr (t, parent, sibling)))))))))
       else Inr (t, parent, sibling))"

text \<open>A red child of the sibling on the side of the node is rotated to the other side.\<close>

definition delete_inner_child :: "rbtree \<Rightarrow> addr \<Rightarrow> addr \<Rightarrow> addr \<Rightarrow> (rbtree \<times> addr \<times> addr) kres" where
  "delete_inner_child t node parent sibling =
     kbind (rbt_get_colour t sibling) (\<lambda>sc. if sc = RBTREE_BLACK
       then kbind (node_at t parent) (\<lambda>p. kbind (node_at t sibling) (\<lambda>s.
         kbind (child_colours t sibling) (\<lambda>(lc, rc).
         kbind (if rb_right p = node \<and> lc = RBTREE_BLACK \<and> rc = RBTREE_RED
           then kbind (rbt_set_colour t sibling RBTREE_RED) (\<lambda>t.
             kbind (rbt_set_colour t (rb_right s) RBTREE_BLACK) (\<lambda>t. rbt_rotate_left t sibling))
           else if rb_left p = node \<and> lc = RBTREE_RED \<and> rc = RBTREE_BLACK
           then kbind (rbt_set_colour t sibling RBTREE_RED) (\<lambda>t.
             kbind (rbt_set_colour t (rb_left s) RBTREE_BLACK) (\<lambda>t. rbt_rotate_right t sibling))
           else Inr t) (\<lambda>t.
         kbind (rbt_get_sibling t node) (\<lambda>sibling.
         kbind (rbt_get_parent t node) (\<lambda>parent. Inr (t, parent, sibling)))))))
       else Inr (t, parent, sibling))"

text \<open>The last rotation, around the parent.\<close>

definition delete_outer_child :: "rbtree \<Rightarrow> addr \<Rightarrow> addr \<Rightarrow> addr \<Rightarrow> rbtree kres" where
  "delete_outer_child t node parent sibling =
     kbind (rbt_get_colour t sibling) (\<lambda>sc. kassert (sc = RBTREE_BLACK)
     (kbind (node_at t parent) (\<lambda>p. kbind (child_colours t sibling) (\<lambda>(lc, rc).
      kassert ((lc = RBTREE_RED \<and> node = rb_right p) \<or> (rc = RBTREE_RED \<and> node = rb_left p))
     (kbind (rbt_get_colour t parent) (\<lambda>pc.
      kbind (rbt_set_colour t sibling pc) (\<lambda>t.
      kbind (rbt_set_colour t parent RBTREE_BLACK) (\<lambda>t.
      kbind (node_at t parent) (\<lambda>p. kbind (node_at t sibling) (\<lambda>s.
      kbind (child_colours t sibling) (\<lambda>(lc, rc).
      if rb_right p = node
      then kassert (lc = RBTREE_RED)
        (kbind (rbt_set_colour t (rb_left s) RBTREE_BLACK) (\<lambda>t. rbt_rotate_right t parent))
      else kassert (rc = RBTREE_RED)
        (kbind (rbt_set_colour t (rb_right s) RBTREE_BLACK) (\<lambda>t. rbt_rotate_left t parent)))))))))))))"

fun rbt_delete_fix_loop :: "nat \<Rightarrow> rbtree \<Rightarrow> addr \<Rightarrow> rbtree kres" where
  "rbt_delete_fix_loop 0 t node = Inl Fuel"
| "rbt_delete_fix_loop (Suc fuel) t node =
     kbind (rbt_get_parent t node) (\<lambda>parent.
       if parent = NULL then Inr t
       else kbind (rbt_get_sibling t node) (\<lambda>sibling.
         kbind (delete_red_sibling t node parent sibling) (\<lambda>(t, parent, sibling).
         kbind (child_colours t sibling) (\<lambda>(lc, rc).
         kbind (rbt_get_colour t sibling) (\<lambda>sc.
         if sc = RBTREE_BLACK \<and> lc = RBTREE_BLACK \<and> rc = RBTREE_BLACK
         then kbind (rbt_get_colour t parent) (\<lambda>pc.
           if pc = RBTREE_BLACK
           then kbind (rbt_set_colour t sibling RBTREE_RED) (\<lambda>t.
             kbind (rbt_get_parent t node) (\<lambda>p. rbt_delete_fix_loop fuel t p))
           else kbind (rbt_set_colour t sibling RBTREE_RED) (\<lambda>t.
             rbt_set_colour t parent RBTREE_BLACK))
         else kbind (delete_inner_child t node parent sibling) (\<lambda>(t, parent, sibling).
           delete_outer_child t node parent sibling))))))"

definition rbt_delete_fix :: "rbtree \<Rightarrow> addr \<Rightarrow> rbtree kres" where
  "rbt_delete_fix t node = rbt_delete_fix_loop addr_fuel t node"

definition rbtree_delete :: "rbtree \<Rightarrow> addr \<Rightarrow> rbtree kres" where
  "rbtree_delete t deletee =
     kbind (node_at t deletee) (\<lambda>d.
     kbind (if rb_left d \<noteq> NULL \<and> rb_right d \<noteq> NULL
       then kbind (rbt_find_successor t deletee) (\<lambda>successor. rbt_swap_nodes t deletee successor)
       else Inr t) (\<lambda>t.
     kbind (node_at t deletee) (\<lambda>d.
     kassert (rb_left d = NULL \<or> rb_right d = NULL)
     (let child = if rb_right d \<noteq> NULL then rb_right d else rb_left d in
      kbind (rbt_get_colour t deletee) (\<lambda>dc.
      kbind (if dc = RBTREE_BLACK
        then kbind (rbt_get_colour t child) (\<lambda>cc.
          if cc = RBTREE_RED then rbt_set_colour t child RBTREE_BLACK else rbt_delete_fix t deletee)
        else Inr t) (\<lambda>t.
      rbt_replace_subtree t deletee child))))))"

section \<open>Searching\<close>

fun rbtree_search_loop :: "nat \<Rightarrow> rbtree \<Rightarrow> addr \<Rightarrow> rbtree_cmp_fn \<Rightarrow> addr \<Rightarrow> addr kres" where
  "rbtree_search_loop 0 t val cmpf node = Inl Fuel"
| "rbtree_search_loop (Suc fuel) t val cmpf node =
     (if node = NULL then Inr node
      else kbind (node_at t node) (\<lambda>nd. kbind (cmpf (rb_data nd) val) (\<lambda>c.
        if c = 0 then Inr node
        else if c > 0 then rbtree_search_loop fuel t val cmpf (rb_left nd)
        else rbtree_search_loop fuel t val cmpf (rb_right nd))))"

definition rbtree_search :: "rbtree \<Rightarrow> addr \<Rightarrow> rbtree_cmp_fn \<Rightarrow> addr kres" where
  "rbtree_search t val cmpf = rbtree_search_loop addr_fuel t val cmpf (rb_root t)"

text \<open>
  The inner loops of \<open>rbtree_search_min\<close> and \<open>rbtree_search_max\<close>: down to the left while the
  node is above the limit, down to the right while it is below.
\<close>

fun descend_left :: "nat \<Rightarrow> rbtree \<Rightarrow> addr \<Rightarrow> rbtree_cmp_fn \<Rightarrow> addr \<Rightarrow> int \<Rightarrow> (addr \<times> int) kres" where
  "descend_left 0 t limit cmpf cursor c = Inl Fuel"
| "descend_left (Suc fuel) t limit cmpf cursor c =
     kbind (node_at t cursor) (\<lambda>nd. if c > 0 \<and> rb_left nd \<noteq> NULL
       then kbind (node_at t (rb_left nd)) (\<lambda>l. kbind (cmpf (rb_data l) limit) (\<lambda>c.
         descend_left fuel t limit cmpf (rb_left nd) c))
       else Inr (cursor, c))"

fun descend_right :: "nat \<Rightarrow> rbtree \<Rightarrow> addr \<Rightarrow> rbtree_cmp_fn \<Rightarrow> addr \<Rightarrow> int \<Rightarrow> (addr \<times> int) kres" where
  "descend_right 0 t limit cmpf cursor c = Inl Fuel"
| "descend_right (Suc fuel) t limit cmpf cursor c =
     kbind (node_at t cursor) (\<lambda>nd. if c < 0 \<and> rb_right nd \<noteq> NULL
       then kbind (node_at t (rb_right nd)) (\<lambda>r. kbind (cmpf (rb_data r) limit) (\<lambda>c.
         descend_right fuel t limit cmpf (rb_right nd) c))
       else Inr (cursor, c))"

text \<open>The climb of \<open>rbtree_search_min\<close>, which does not look for the root.\<close>

fun climb_min :: "nat \<Rightarrow> rbtree \<Rightarrow> addr \<Rightarrow> rbtree_cmp_fn \<Rightarrow> addr \<Rightarrow> int \<Rightarrow> addr kres" where
  "climb_min 0 t limit cmpf cursor c = Inl Fuel"
| "climb_min (Suc fuel) t limit cmpf cursor c =
     (if c < 0
      then kbind (rbt_get_parent t cursor) (\<lambda>cursor. kbind (node_at t cursor) (\<lambda>nd.
        kbind (cmpf (rb_data nd) limit) (\<lambda>c. climb_min fuel t limit cmpf cursor c)))
      else Inr cursor)"

fun rbtree_search_min_loop :: "nat \<Rightarrow> rbtree \<Rightarrow> addr \<Rightarrow> rbtree_cmp_fn \<Rightarrow> addr \<Rightarrow> addr kres" where
  "rbtree_search_min_loop 0 t limit cmpf cursor = Inl Fuel"
| "rbtree_search_min_loop (Suc fuel) t limit cmpf cursor =
     (if cursor = NULL then Inr cursor
      else kbind (node_at t cursor) (\<lambda>nd. kbind (cmpf (rb_data nd) limit) (\<lambda>c.
        kbind (descend_left addr_fuel t limit cmpf cursor c) (\<lambda>(cursor, c).
        kbind (descend_right addr_fuel t limit cmpf cursor c) (\<lambda>(cursor, c).
        if c = 0 then Inr cursor
        else kbind (node_at t cursor) (\<lambda>nd.
          if c < 0 \<and> rb_right nd = NULL then climb_min addr_fuel t limit cmpf cursor c
          else if c > 0 \<and> rb_left nd = NULL then Inr cursor
          else rbtree_search_min_loop fuel t limit cmpf cursor))))))"

definition rbtree_search_min :: "rbtree \<Rightarrow> addr \<Rightarrow> rbtree_cmp_fn \<Rightarrow> addr kres" where
  "rbtree_search_min t limit cmpf =
     kassert (limit \<noteq> NULL) (rbtree_search_min_loop addr_fuel t limit cmpf (rb_root t))"

fun climb_max :: "nat \<Rightarrow> rbtree \<Rightarrow> addr \<Rightarrow> rbtree_cmp_fn \<Rightarrow> addr \<Rightarrow> int \<Rightarrow> (addr \<times> int) kres" where
  "climb_max 0 t limit cmpf cursor c = Inl Fuel"
| "climb_max (Suc fuel) t limit cmpf cursor c =
     (if c > 0
      then kbind (rbt_get_parent t cursor) (\<lambda>p. if p \<noteq> NULL
        then kbind (node_at t p) (\<lambda>nd. kbind (cmpf (rb_data nd) limit) (\<lambda>c.
          climb_max fuel t limit cmpf p c))
        else Inr (cursor, c))
      else Inr (cursor, c))"

fun rbtree_search_max_loop :: "nat \<Rightarrow> rbtree \<Rightarrow> addr \<Rightarrow> rbtree_cmp_fn \<Rightarrow> addr \<Rightarrow> int \<Rightarrow>
    (addr \<times> int) kres" where
  "rbtree_search_max_loop 0 t limit cmpf cursor c = Inl Fuel"
| "rbtree_search_max_loop (Suc fuel) t limit cmpf cursor c =
     (if cursor = NULL then Inr (cursor, c)
      else kbind (node_at t cursor) (\<lambda>nd. kbind (cmpf (rb_data nd) limit) (\<lambda>c.
        kbind (descend_right addr_fuel t limit cmpf cursor c) (\<lambda>(cursor, c).
        kbind (descend_left addr_fuel t limit cmpf cursor c) (\<lambda>(cursor, c).
        if c = 0 then Inr (cursor, c)
        else kbind (node_at t cursor) (\<lambda>nd.
          if c > 0 \<and> rb_left nd = NULL then climb_max addr_fuel t limit cmpf cursor c
          else if c < 0 \<and> rb_right nd = NULL then Inr (cursor, c)
          else rbtree_search_max_loop fuel t limit cmpf cursor c))))))"

definition rbtree_search_max :: "rbtree \<Rightarrow> addr \<Rightarrow> rbtree_cmp_fn \<Rightarrow> addr kres" where
  "rbtree_search_max t limit cmpf = kassert (limit \<noteq> NULL)
     (kbind (rbtree_search_max_loop addr_fuel t limit cmpf (rb_root t) 0)
       (\<lambda>(cursor, c). if c > 0 then Inr NULL else Inr cursor))"

text \<open>
  \<open>rbtree_iter_range\<close>: the callback works on a state of its own and says whether to go on. Each
  node is passed at most three times, so the fuel is three per address.
\<close>

fun rbtree_iter_loop :: "nat \<Rightarrow> rbtree \<Rightarrow> addr \<Rightarrow> rbtree_cmp_fn \<Rightarrow> ('s \<Rightarrow> addr \<Rightarrow> (bool \<times> 's) kres) \<Rightarrow>
    addr \<Rightarrow> addr \<Rightarrow> 's \<Rightarrow> 's kres" where
  "rbtree_iter_loop 0 t value_to cmpf fn cursor prev s = Inl Fuel"
| "rbtree_iter_loop (Suc fuel) t value_to cmpf fn cursor prev s =
     (if cursor = NULL then Inr s
      else kbind (node_at t cursor) (\<lambda>nd.
        if prev = rb_left nd
        then kbind (cmpf (rb_data nd) value_to) (\<lambda>c. if c > 0 then Inr s
          else kbind (fn s (rb_data nd)) (\<lambda>(go, s). if \<not> go then Inr s
            else if rb_right nd \<noteq> NULL
              then rbtree_iter_loop fuel t value_to cmpf fn (rb_right nd) cursor s
              else kbind (rbt_get_parent t cursor) (\<lambda>p.
                rbtree_iter_loop fuel t value_to cmpf fn p cursor s)))
        else if prev = rb_right nd
        then kbind (rbt_get_parent t cursor) (\<lambda>p.
          rbtree_iter_loop fuel t value_to cmpf fn p cursor s)
        else if rb_left nd \<noteq> NULL
          then rbtree_iter_loop fuel t value_to cmpf fn (rb_left nd) cursor s
          else rbtree_iter_loop fuel t value_to cmpf fn cursor (rb_left nd) s))"

definition rbtree_iter_range :: "rbtree \<Rightarrow> addr \<Rightarrow> addr \<Rightarrow> rbtree_cmp_fn \<Rightarrow>
    ('s \<Rightarrow> addr \<Rightarrow> (bool \<times> 's) kres) \<Rightarrow> 's \<Rightarrow> 's kres" where
  "rbtree_iter_range t value_from value_to cmpf fn s =
     kbind (cmpf value_from value_to) (\<lambda>c. kassert (c < 0)
       (kbind (rbtree_search_min t value_from cmpf) (\<lambda>cursor.
        kbind (node_at t cursor) (\<lambda>nd.
          rbtree_iter_loop (3 * addr_fuel) t value_to cmpf fn cursor (rb_left nd) s))))"

end
