(* ===== verification/Rbtree_Shape.thy ===== *)
theory Rbtree_Shape
  imports Rbtree
begin

text \<open>
  What a store of red-black tree nodes holds: a tree whose nodes are addresses. A place in the
  tree is a context, the path from the place up to the root; \<open>plug T k\<close> is the whole tree. The
  lemmas say what reading through a node, recolouring it and rotating around it do to the tree.
\<close>

section \<open>Trees and contexts\<close>

datatype ptree = Tip | Bin rbtree_colour ptree addr ptree

datatype frame = FL rbtree_colour addr ptree | FR rbtree_colour ptree addr

fun root_of :: "ptree \<Rightarrow> addr" where
  "root_of Tip = NULL"
| "root_of (Bin c l a r) = a"

fun col :: "ptree \<Rightarrow> rbtree_colour" where
  "col Tip = RBTREE_BLACK"
| "col (Bin c l a r) = c"

fun nodes :: "ptree \<Rightarrow> addr list" where
  "nodes Tip = []"
| "nodes (Bin c l a r) = nodes l @ a # nodes r"

fun plug :: "ptree \<Rightarrow> frame list \<Rightarrow> ptree" where
  "plug t [] = t"
| "plug t (FL c a r # k) = plug (Bin c t a r) k"
| "plug t (FR c l a # k) = plug (Bin c l a t) k"

fun fnode :: "frame \<Rightarrow> addr" where
  "fnode (FL c a r) = a"
| "fnode (FR c l a) = a"

fun fcol :: "frame \<Rightarrow> rbtree_colour" where
  "fcol (FL c a r) = c"
| "fcol (FR c l a) = c"

fun up :: "frame list \<Rightarrow> addr" where
  "up [] = NULL"
| "up (f # k) = fnode f"

fun knodes_l :: "frame list \<Rightarrow> addr list" where
  "knodes_l [] = []"
| "knodes_l (FL c a r # k) = knodes_l k"
| "knodes_l (FR c l a # k) = knodes_l k @ nodes l @ [a]"

fun knodes_r :: "frame list \<Rightarrow> addr list" where
  "knodes_r [] = []"
| "knodes_r (FL c a r # k) = a # nodes r @ knodes_r k"
| "knodes_r (FR c l a # k) = knodes_r k"

lemma nodes_plug: "nodes (plug t k) = knodes_l k @ nodes t @ knodes_r k"
  by (induction t k rule: plug.induct) auto

section \<open>Representation\<close>

definition node_val :: "(addr \<Rightarrow> addr) \<Rightarrow> addr \<Rightarrow> addr \<Rightarrow> addr \<Rightarrow> addr \<Rightarrow> rbtree_colour \<Rightarrow> rbtree_node" where
  "node_val dat a l r p c =
     \<lparr>rb_data = dat a, rb_left = l, rb_right = r, rb_parent = p, rb_colour = c\<rparr>"

lemma node_val_simps [simp]:
  "rb_data (node_val dat a l r p c) = dat a" "rb_left (node_val dat a l r p c) = l"
  "rb_right (node_val dat a l r p c) = r" "rb_parent (node_val dat a l r p c) = p"
  "rb_colour (node_val dat a l r p c) = c"
  "node_val dat a l r p c\<lparr>rb_left := l'\<rparr> = node_val dat a l' r p c"
  "node_val dat a l r p c\<lparr>rb_right := r'\<rparr> = node_val dat a l r' p c"
  "node_val dat a l r p c\<lparr>rb_parent := p'\<rparr> = node_val dat a l r p' c"
  "node_val dat a l r p c\<lparr>rb_colour := c'\<rparr> = node_val dat a l r p c'"
  by (simp_all add: node_val_def)

fun rep :: "(addr \<Rightarrow> addr) \<Rightarrow> (addr \<Rightarrow> rbtree_node option) \<Rightarrow> addr \<Rightarrow> ptree \<Rightarrow> bool" where
  "rep dat h p Tip = True"
| "rep dat h p (Bin c l a r) \<longleftrightarrow> a \<noteq> NULL \<and>
     h a = Some (node_val dat a (root_of l) (root_of r) p c) \<and> rep dat h a l \<and> rep dat h a r"

text \<open>A context around a hole whose root is \<open>x\<close>, in a tree whose root is \<open>R\<close>.\<close>

fun repk :: "(addr \<Rightarrow> addr) \<Rightarrow> (addr \<Rightarrow> rbtree_node option) \<Rightarrow> addr \<Rightarrow> addr \<Rightarrow> frame list \<Rightarrow> bool" where
  "repk dat h R x [] \<longleftrightarrow> R = x"
| "repk dat h R x (FL c a r # k) \<longleftrightarrow> a \<noteq> NULL \<and>
     h a = Some (node_val dat a x (root_of r) (up k) c) \<and> rep dat h a r \<and> repk dat h R a k"
| "repk dat h R x (FR c l a # k) \<longleftrightarrow> a \<noteq> NULL \<and>
     h a = Some (node_val dat a (root_of l) x (up k) c) \<and> rep dat h a l \<and> repk dat h R a k"

text \<open>The store and root of \<open>t\<close> hold the tree \<open>T\<close>, whose nodes have the data \<open>dat\<close>.\<close>

definition tree_is :: "(addr \<Rightarrow> addr) \<Rightarrow> rbtree \<Rightarrow> ptree \<Rightarrow> bool" where
  "tree_is dat t T \<longleftrightarrow>
     rep dat (rb_heap t) NULL T \<and> rb_root t = root_of T \<and> distinct (nodes T)"

lemma rep_plug:
  "rep dat h NULL (plug T k) \<and> R = root_of (plug T k) \<longleftrightarrow>
     rep dat h (up k) T \<and> repk dat h R (root_of T) k"
  by (induction T k rule: plug.induct) auto

lemma tree_is_plug:
  "tree_is dat t (plug T k) \<longleftrightarrow>
     rep dat (rb_heap t) (up k) T \<and> repk dat (rb_heap t) (rb_root t) (root_of T) k \<and>
     distinct (knodes_l k @ nodes T @ knodes_r k)"
  using rep_plug [of dat "rb_heap t" T k "rb_root t"] by (auto simp: tree_is_def nodes_plug)

lemma rep_frame [simp]: "a \<notin> set (nodes T) \<Longrightarrow> rep dat (h(a := v)) p T = rep dat h p T"
  by (induction T arbitrary: p) auto

lemma repk_frame [simp]:
  "a \<notin> set (knodes_l k) \<Longrightarrow> a \<notin> set (knodes_r k) \<Longrightarrow> repk dat (h(a := v)) R x k = repk dat h R x k"
  by (induction dat h R x k rule: repk.induct) auto

lemma rep_root: "rep dat h p T \<Longrightarrow> root_of T = NULL \<longleftrightarrow> T = Tip"
  by (cases T) auto

lemma root_in_nodes: "T \<noteq> Tip \<Longrightarrow> root_of T \<in> set (nodes T)"
  by (cases T) auto

lemma repk_up: "repk dat h R x k \<Longrightarrow> up k = NULL \<longleftrightarrow> k = []"
  by (induction dat h R x k rule: repk.induct) auto

text \<open>Changing the parent of a subtree, and the root of the hole of a context.\<close>

lemma rep_set_parent:
  "rep dat h p (Bin c l a r) \<Longrightarrow> distinct (nodes (Bin c l a r)) \<Longrightarrow>
   rep dat (h(a \<mapsto> node_val dat a (root_of l) (root_of r) p' c')) p' (Bin c' l a r)"
  by auto

section \<open>Reading\<close>

lemma node_at_rep [simp]:
  "a \<noteq> NULL \<Longrightarrow> rb_heap t a = Some nd \<Longrightarrow> node_at t a = Inr nd"
  by (simp add: node_at_def)

lemma tree_is_node:
  assumes "tree_is dat t (plug (Bin c l a r) k)"
  shows "a \<noteq> NULL" "node_at t a = Inr (node_val dat a (root_of l) (root_of r) (up k) c)"
    "rbt_get_parent t a = Inr (up k)" "rbt_get_colour t a = Inr c"
  using assms by (auto simp: tree_is_plug rbt_get_parent_def rbt_get_colour_def)

lemma tree_is_colour: "tree_is dat t (plug T k) \<Longrightarrow> rbt_get_colour t (root_of T) = Inr (col T)"
  by (cases T) (auto simp: tree_is_node rbt_get_colour_def)

text \<open>The same tree, seen from the parent of the place or from its sibling.\<close>

lemma plug_parent:
  "plug T (FL c a r # k) = plug (Bin c T a r) k" "plug T (FR c l a # k) = plug (Bin c l a T) k"
  by simp_all

lemma plug_sibling:
  "plug T (FL c a r # k) = plug r (FR c T a # k)" "plug T (FR c l a # k) = plug l (FL c a T # k)"
  by simp_all

lemma tree_is_up: "tree_is dat t (plug T k) \<Longrightarrow> up k = NULL \<longleftrightarrow> k = []"
  using repk_up by (auto simp: tree_is_plug)

section \<open>Writing\<close>

lemma set_colour_ok:
  assumes "tree_is dat t (plug (Bin c l a r) k)"
  shows "\<exists>t'. rbt_set_colour t a c' = Inr t' \<and> tree_is dat t' (plug (Bin c' l a r) k)"
proof -
  let ?t = "t\<lparr>rb_heap := (rb_heap t)(a \<mapsto> node_val dat a (root_of l) (root_of r) (up k) c')\<rparr>"
  have "tree_is dat ?t (plug (Bin c' l a r) k)"
    using assms by (auto simp: tree_is_plug)
  moreover have "rbt_set_colour t a c' = Inr ?t"
    using tree_is_node [OF assms] by (simp add: rbt_set_colour_def node_put_def)
  ultimately show ?thesis by blast
qed

lemma rep_cong: "(\<And>z. z \<in> set (nodes T) \<Longrightarrow> h z = h' z) \<Longrightarrow> rep dat h p T = rep dat h' p T"
  by (induction T arbitrary: p) auto

text \<open>Two stores that agree off a set of addresses hold the same trees and contexts off that set.\<close>

lemma rep_off:
  "(\<And>z. z \<notin> A \<Longrightarrow> h z = h' z) \<Longrightarrow> set (nodes T) \<inter> A = {} \<Longrightarrow> rep dat h p T = rep dat h' p T"
  by (rule rep_cong) auto

lemma repk_off:
  "(\<And>z. z \<notin> A \<Longrightarrow> h z = h' z) \<Longrightarrow> set (knodes_l k @ knodes_r k) \<inter> A = {} \<Longrightarrow>
   repk dat h R x k = repk dat h' R x k"
proof (induction dat h R x k rule: repk.induct)
  case (2 dat h R x c a r k)
  moreover have "rep dat h a r = rep dat h' a r" by (rule rep_off [of A]) (use 2 in auto)
  ultimately show ?case by auto
next
  case (3 dat h R x c l a k)
  moreover have "rep dat h a l = rep dat h' a l" by (rule rep_off [of A]) (use 3 in auto)
  ultimately show ?case by auto
qed auto

text \<open>\<open>rbt_replace_subtree\<close> makes another subtree the one in the hole.\<close>

lemma replace_subtree_ok:
  assumes k: "repk dat (rb_heap t) (rb_root t) x k" "distinct (knodes_l k @ knodes_r k)"
    and x: "x \<noteq> NULL" "rb_heap t x = Some nx" "rb_parent nx = up k"
    and off: "x \<notin> set (knodes_l k @ knodes_r k)" "y \<notin> set (knodes_l k @ knodes_r k)"
    and y: "y \<noteq> NULL \<Longrightarrow> rb_heap t y = Some ny"
  shows "\<exists>t'. rbt_replace_subtree t x y = Inr t' \<and> repk dat (rb_heap t') (rb_root t') y k \<and>
    (y \<noteq> NULL \<longrightarrow> rb_heap t' y = Some (ny\<lparr>rb_parent := up k\<rparr>)) \<and>
    (\<forall>z. z \<notin> set (knodes_l k @ knodes_r k) \<longrightarrow> z \<noteq> y \<or> y = NULL \<longrightarrow> rb_heap t' z = rb_heap t z)"
proof -
  let ?sp = "\<lambda>t. if y \<noteq> NULL then rbt_set_parent t y (up k) else Inr t"
  have px: "rbt_get_parent t x = Inr (up k)" using x by (simp add: rbt_get_parent_def)
  have "\<exists>t1. rbt_replace_subtree t x y = ?sp t1 \<and> repk dat (rb_heap t1) (rb_root t1) y k \<and>
      (\<forall>z. z \<notin> set (knodes_l k @ knodes_r k) \<longrightarrow> rb_heap t1 z = rb_heap t z)"
  proof (cases k)
    case Nil
    then show ?thesis using k px by (auto simp: rbt_replace_subtree_def intro!: exI [of _ "t\<lparr>rb_root := y\<rparr>"])
  next
    case (Cons f k')
    show ?thesis
    proof (cases f)
      case (FL c a r)
      let ?t1 = "t\<lparr>rb_heap := (rb_heap t)(a \<mapsto> node_val dat a y (root_of r) (up k') c)\<rparr>"
      have "rbt_replace_subtree t x y = ?sp ?t1"
        using k px Cons FL by (simp add: rbt_replace_subtree_def node_put_def)
      then show ?thesis using k Cons FL by (intro exI [of _ ?t1]) auto
    next
      case (FR c l a)
      let ?t1 = "t\<lparr>rb_heap := (rb_heap t)(a \<mapsto> node_val dat a (root_of l) y (up k') c)\<rparr>"
      have "root_of l \<noteq> x" using off(1) Cons FR x(1) root_in_nodes [of l] by (cases l) auto
      then have "rbt_replace_subtree t x y = ?sp ?t1"
        using k px Cons FR by (simp add: rbt_replace_subtree_def node_put_def)
      then show ?thesis using k Cons FR by (intro exI [of _ ?t1]) auto
    qed
  qed
  then obtain t1 where t1: "rbt_replace_subtree t x y = ?sp t1" "repk dat (rb_heap t1) (rb_root t1) y k"
    "\<And>z. z \<notin> set (knodes_l k @ knodes_r k) \<Longrightarrow> rb_heap t1 z = rb_heap t z" by blast
  show ?thesis
  proof (cases "y = NULL")
    case True
    then show ?thesis using t1 by simp
  next
    case False
    let ?t' = "t1\<lparr>rb_heap := (rb_heap t1)(y \<mapsto> ny\<lparr>rb_parent := up k\<rparr>)\<rparr>"
    have "rb_heap t1 y = Some ny" using t1(3) off(2) y False by simp
    then have "rbt_replace_subtree t x y = Inr ?t'"
      using t1(1) False by (simp add: rbt_set_parent_def node_put_def)
    then show ?thesis using t1(2,3) off(2) False by (intro exI [of _ ?t']) auto
  qed
qed

lemma set_parent_sub:
  assumes "rep dat (rb_heap t) p b" and "distinct (nodes b)"
  shows "\<exists>h. (if root_of b \<noteq> NULL then rbt_set_parent t (root_of b) x else Inr t) =
      Inr (t\<lparr>rb_heap := h\<rparr>) \<and> rep dat h x b \<and> (\<forall>z. z \<notin> set (nodes b) \<longrightarrow> h z = rb_heap t z)"
proof (cases b)
  case Tip
  then show ?thesis by (auto intro: exI [of _ "rb_heap t"])
next
  case (Bin cb bl ba br)
  let ?h = "(rb_heap t)(ba \<mapsto> node_val dat ba (root_of bl) (root_of br) x cb)"
  have b: "ba \<noteq> NULL" "rb_heap t ba = Some (node_val dat ba (root_of bl) (root_of br) p cb)"
    using assms Bin by auto
  then show ?thesis
    using assms unfolding Bin by (intro exI [of _ ?h]) (auto simp: rbt_set_parent_def node_put_def)
qed

text \<open>
  The end of a rotation: in the store \<open>h\<close> the node \<open>y\<close> is already below the context; the middle
  subtree \<open>b\<close> and then \<open>x\<close> get their new parents.
\<close>

lemma rotate_end:
  assumes h3: "rep dat h3 x b" "\<And>z. z \<notin> insert x (set (nodes b)) \<Longrightarrow> h3 z = h z"
    and h: "rep dat h x a" "rep dat h y d" "repk dat h R y k"
    and dist: "distinct (nodes a @ nodes b @ nodes d @ [x, y] @ knodes_l k @ knodes_r k)"
    and nz: "x \<noteq> NULL" "y \<noteq> NULL"
    and h5: "h5 = h3(y \<mapsto> vy, x \<mapsto> vx)"
  shows "rep dat h5 x a \<and> rep dat h5 x b \<and> rep dat h5 y d \<and> repk dat h5 R y k"
proof -
  let ?A = "insert x (set (nodes b))"
  have dj: "set (nodes a) \<inter> ?A = {}" "set (nodes d) \<inter> ?A = {}"
    "set (knodes_l k @ knodes_r k) \<inter> ?A = {}" using dist by auto
  have nx: "x \<notin> set (nodes a)" "x \<notin> set (nodes b)" "x \<notin> set (nodes d)" "y \<notin> set (nodes a)"
    "y \<notin> set (nodes b)" "y \<notin> set (nodes d)" "x \<notin> set (knodes_l k)" "x \<notin> set (knodes_r k)"
    "y \<notin> set (knodes_l k)" "y \<notin> set (knodes_r k)" using dist by auto
  have "rep dat h3 x a" "rep dat h3 y d" "repk dat h3 R y k"
    using h rep_off [of ?A h3, OF h3(2) dj(1)] rep_off [of ?A h3, OF h3(2) dj(2)]
      repk_off [of ?A h3 h k, OF h3(2) dj(3)] by simp_all
  then show ?thesis using h3(1) nx by (simp add: h5)
qed

lemma rotate_left_ok:
  assumes "tree_is dat t (plug (Bin c a x (Bin c' b y d)) k)"
  shows "\<exists>t'. rbt_rotate_left t x = Inr t' \<and> tree_is dat t' (plug (Bin c' (Bin c a x b) y d) k)"
proof -
  let ?K = "set (knodes_l k @ knodes_r k)"
  have x: "x \<noteq> NULL" "rb_heap t x = Some (node_val dat x (root_of a) y (up k) c)"
    and y: "y \<noteq> NULL" "rb_heap t y = Some (node_val dat y (root_of b) (root_of d) x c')"
    and rs: "rep dat (rb_heap t) x a" "rep dat (rb_heap t) y b" "rep dat (rb_heap t) y d"
    and k: "repk dat (rb_heap t) (rb_root t) x k"
    and order: "distinct (knodes_l k @ nodes a @ [x] @ nodes b @ [y] @ nodes d @ knodes_r k)"
    using assms by (auto simp: tree_is_plug)
  then have dist: "distinct (nodes a @ nodes b @ nodes d @ [x, y] @ knodes_l k @ knodes_r k)" by auto
  have off: "distinct (knodes_l k @ knodes_r k)" "x \<notin> ?K" "y \<notin> ?K" "x \<noteq> y" "x \<notin> set (nodes b)"
    "y \<notin> set (nodes b)" "distinct (nodes b)" using dist by auto
  obtain t1 where t1: "rbt_replace_subtree t x y = Inr t1" "repk dat (rb_heap t1) (rb_root t1) y k"
    "rb_heap t1 y = Some (node_val dat y (root_of b) (root_of d) (up k) c')"
    "\<forall>z. z \<notin> ?K \<longrightarrow> z \<noteq> y \<longrightarrow> rb_heap t1 z = rb_heap t z"
    using replace_subtree_ok [OF k off(1) x _ off(2,3) y(2)] y(1) by auto
  have hx: "rb_heap t1 x = Some (node_val dat x (root_of a) y (up k) c)" using t1(4) x off by simp
  have same: "rep dat (rb_heap t1) p S = rep dat (rb_heap t) p S"
    if "set (nodes S) \<inter> insert y ?K = {}" for p S
    using that t1(4) by (intro rep_off [of "insert y ?K"]) auto
  have dj: "set (nodes a) \<inter> insert y ?K = {}" "set (nodes b) \<inter> insert y ?K = {}"
    "set (nodes d) \<inter> insert y ?K = {}" using dist by auto
  have r1: "rep dat (rb_heap t1) x a" "rep dat (rb_heap t1) y b" "rep dat (rb_heap t1) y d"
    using rs same dj by simp_all
  let ?t2 = "t1\<lparr>rb_heap := (rb_heap t1)(x \<mapsto> node_val dat x (root_of a) (root_of b) (up k) c)\<rparr>"
  obtain h3 where h3: "(if root_of b \<noteq> NULL then rbt_set_parent ?t2 (root_of b) x else Inr ?t2) =
      Inr (?t2\<lparr>rb_heap := h3\<rparr>)" "rep dat h3 x b"
    "\<forall>z. z \<notin> set (nodes b) \<longrightarrow> h3 z = rb_heap ?t2 z"
    using set_parent_sub [of dat ?t2 y b x] r1(2) off by auto
  let ?h4 = "h3(y \<mapsto> node_val dat y x (root_of d) (up k) c')"
  let ?t5 = "?t2\<lparr>rb_heap := ?h4(x \<mapsto> node_val dat x (root_of a) (root_of b) y c)\<rparr>"
  have e1: "node_at t x = Inr (node_val dat x (root_of a) y (up k) c)"
    and e2: "node_at t1 y = Inr (node_val dat y (root_of b) (root_of d) (up k) c')"
    and e3: "node_put t1 x (rb_right_update (\<lambda>_. root_of b)) = Inr ?t2"
    using x y hx t1(3) by (simp_all add: node_put_def)
  have e4: "node_put (?t2\<lparr>rb_heap := h3\<rparr>) y (rb_left_update (\<lambda>_. x)) = Inr (?t2\<lparr>rb_heap := ?h4\<rparr>)"
    using y(1) t1(3) h3(3) off by (simp add: node_put_def)
  have e5: "rbt_set_parent (?t2\<lparr>rb_heap := ?h4\<rparr>) x y = Inr ?t5"
    using x(1) h3(3) off by (simp add: rbt_set_parent_def node_put_def)
  have "rbt_rotate_left t x = Inr ?t5"
    unfolding rbt_rotate_left_def Let_def
    by (simp only: x(1) e1 t1(1) e2 e3 h3(1) e4 e5 kbind_Inr node_val_simps kassert_simps
        not_False_eq_True simp_thms)
  moreover have "rep dat (rb_heap ?t5) x a \<and> rep dat (rb_heap ?t5) x b \<and> rep dat (rb_heap ?t5) y d \<and>
      repk dat (rb_heap ?t5) (rb_root t1) y k"
    by (rule rotate_end [OF h3(2) _ r1(1,3) t1(2) dist x(1) y(1)]) (use h3(3) in auto)
  then have "tree_is dat ?t5 (plug (Bin c' (Bin c a x b) y d) k)"
    using off(4) x(1) y(1) order by (auto simp: tree_is_plug)
  ultimately show ?thesis by blast
qed

lemma rotate_right_ok:
  assumes "tree_is dat t (plug (Bin c (Bin c' d y b) x a) k)"
  shows "\<exists>t'. rbt_rotate_right t x = Inr t' \<and> tree_is dat t' (plug (Bin c' d y (Bin c b x a)) k)"
proof -
  let ?K = "set (knodes_l k @ knodes_r k)"
  have x: "x \<noteq> NULL" "rb_heap t x = Some (node_val dat x y (root_of a) (up k) c)"
    and y: "y \<noteq> NULL" "rb_heap t y = Some (node_val dat y (root_of d) (root_of b) x c')"
    and rs: "rep dat (rb_heap t) x a" "rep dat (rb_heap t) y b" "rep dat (rb_heap t) y d"
    and k: "repk dat (rb_heap t) (rb_root t) x k"
    and order: "distinct (knodes_l k @ nodes d @ [y] @ nodes b @ [x] @ nodes a @ knodes_r k)"
    using assms by (auto simp: tree_is_plug)
  then have dist: "distinct (nodes a @ nodes b @ nodes d @ [x, y] @ knodes_l k @ knodes_r k)" by auto
  have off: "distinct (knodes_l k @ knodes_r k)" "x \<notin> ?K" "y \<notin> ?K" "x \<noteq> y" "x \<notin> set (nodes b)"
    "y \<notin> set (nodes b)" "distinct (nodes b)" using dist by auto
  obtain t1 where t1: "rbt_replace_subtree t x y = Inr t1" "repk dat (rb_heap t1) (rb_root t1) y k"
    "rb_heap t1 y = Some (node_val dat y (root_of d) (root_of b) (up k) c')"
    "\<forall>z. z \<notin> ?K \<longrightarrow> z \<noteq> y \<longrightarrow> rb_heap t1 z = rb_heap t z"
    using replace_subtree_ok [OF k off(1) x _ off(2,3) y(2)] y(1) by auto
  have hx: "rb_heap t1 x = Some (node_val dat x y (root_of a) (up k) c)" using t1(4) x off by simp
  have same: "rep dat (rb_heap t1) p S = rep dat (rb_heap t) p S"
    if "set (nodes S) \<inter> insert y ?K = {}" for p S
    using that t1(4) by (intro rep_off [of "insert y ?K"]) auto
  have dj: "set (nodes a) \<inter> insert y ?K = {}" "set (nodes b) \<inter> insert y ?K = {}"
    "set (nodes d) \<inter> insert y ?K = {}" using dist by auto
  have r1: "rep dat (rb_heap t1) x a" "rep dat (rb_heap t1) y b" "rep dat (rb_heap t1) y d"
    using rs same dj by simp_all
  let ?t2 = "t1\<lparr>rb_heap := (rb_heap t1)(x \<mapsto> node_val dat x (root_of b) (root_of a) (up k) c)\<rparr>"
  obtain h3 where h3: "(if root_of b \<noteq> NULL then rbt_set_parent ?t2 (root_of b) x else Inr ?t2) =
      Inr (?t2\<lparr>rb_heap := h3\<rparr>)" "rep dat h3 x b"
    "\<forall>z. z \<notin> set (nodes b) \<longrightarrow> h3 z = rb_heap ?t2 z"
    using set_parent_sub [of dat ?t2 y b x] r1(2) off by auto
  let ?h4 = "h3(y \<mapsto> node_val dat y (root_of d) x (up k) c')"
  let ?t5 = "?t2\<lparr>rb_heap := ?h4(x \<mapsto> node_val dat x (root_of b) (root_of a) y c)\<rparr>"
  have e1: "node_at t x = Inr (node_val dat x y (root_of a) (up k) c)"
    and e2: "node_at t1 y = Inr (node_val dat y (root_of d) (root_of b) (up k) c')"
    and e3: "node_put t1 x (rb_left_update (\<lambda>_. root_of b)) = Inr ?t2"
    using x y hx t1(3) by (simp_all add: node_put_def)
  have e4: "node_put (?t2\<lparr>rb_heap := h3\<rparr>) y (rb_right_update (\<lambda>_. x)) = Inr (?t2\<lparr>rb_heap := ?h4\<rparr>)"
    using y(1) t1(3) h3(3) off by (simp add: node_put_def)
  have e5: "rbt_set_parent (?t2\<lparr>rb_heap := ?h4\<rparr>) x y = Inr ?t5"
    using x(1) h3(3) off by (simp add: rbt_set_parent_def node_put_def)
  have "rbt_rotate_right t x = Inr ?t5"
    unfolding rbt_rotate_right_def Let_def
    by (simp only: x(1) e1 t1(1) e2 e3 h3(1) e4 e5 kbind_Inr node_val_simps kassert_simps
        not_False_eq_True simp_thms)
  moreover have "rep dat (rb_heap ?t5) x a \<and> rep dat (rb_heap ?t5) x b \<and> rep dat (rb_heap ?t5) y d \<and>
      repk dat (rb_heap ?t5) (rb_root t1) y k"
    by (rule rotate_end [OF h3(2) _ r1(1,3) t1(2) dist x(1) y(1)]) (use h3(3) in auto)
  then have "tree_is dat ?t5 (plug (Bin c' d y (Bin c b x a)) k)"
    using off(4) x(1) y(1) order by (auto simp: tree_is_plug)
  ultimately show ?thesis by blast
qed

end
