(* ===== verification/Rbtree_Insert.thy ===== *)
theory Rbtree_Insert
  imports Rbtree_Shape
begin

text \<open>
  Insertion into the red-black tree: the shape invariant (no red node has a red child, all paths
  have as many black nodes), that the repair loop restores it, and that the new node stands
  after all nodes that are below it and before the others.
\<close>

section \<open>The invariant\<close>

fun bh :: "ptree \<Rightarrow> nat" where
  "bh Tip = 0"
| "bh (Bin c l a r) = (if c = RBTREE_BLACK then Suc (bh l) else bh l)"

fun rbi :: "ptree \<Rightarrow> bool" where
  "rbi Tip = True"
| "rbi (Bin c l a r) \<longleftrightarrow> rbi l \<and> rbi r \<and> bh l = bh r \<and>
     (c = RBTREE_RED \<longrightarrow> col l = RBTREE_BLACK \<and> col r = RBTREE_BLACK)"

definition red_black :: "ptree \<Rightarrow> bool" where
  "red_black T \<longleftrightarrow> rbi T \<and> col T = RBTREE_BLACK"

fun fsib :: "frame \<Rightarrow> ptree" where
  "fsib (FL c a r) = r"
| "fsib (FR c l a) = l"

fun kcol :: "frame list \<Rightarrow> rbtree_colour" where
  "kcol [] = RBTREE_RED"
| "kcol (f # k) = fcol f"

text \<open>
  \<open>ctx_ok n k\<close>: the context is red-black around a hole of black height \<open>n\<close>. The root is black:
  a red frame has a black one above it.
\<close>

fun ctx_ok :: "nat \<Rightarrow> frame list \<Rightarrow> bool" where
  "ctx_ok n [] = True"
| "ctx_ok n (f # k) \<longleftrightarrow> rbi (fsib f) \<and> bh (fsib f) = n \<and>
     (fcol f = RBTREE_RED \<longrightarrow> col (fsib f) = RBTREE_BLACK \<and> k \<noteq> [] \<and> kcol k = RBTREE_BLACK) \<and>
     ctx_ok (if fcol f = RBTREE_BLACK then Suc n else n) k"

lemma colour_cases: "c \<noteq> RBTREE_BLACK \<longleftrightarrow> c = RBTREE_RED" "c \<noteq> RBTREE_RED \<longleftrightarrow> c = RBTREE_BLACK"
  by (cases c; simp)+

lemma red_black_plug:
  "red_black (plug T k) \<longleftrightarrow> rbi T \<and> ctx_ok (bh T) k \<and>
     (col T = RBTREE_RED \<longrightarrow> k \<noteq> [] \<and> kcol k = RBTREE_BLACK)"
proof (induction T k rule: plug.induct)
  case (1 t)
  then show ?case by (cases "col t") (auto simp: red_black_def)
next
  case (2 t c a r k)
  then show ?case by (cases c; cases "col t") auto
next
  case (3 t c l a k)
  then show ?case by (cases c; cases "col t") auto
qed

section \<open>Frames\<close>

fun fset :: "frame \<Rightarrow> rbtree_colour \<Rightarrow> frame" where
  "fset (FL c a r) c' = FL c' a r"
| "fset (FR c l a) c' = FR c' l a"

fun fsub :: "frame \<Rightarrow> ptree \<Rightarrow> frame" where
  "fsub (FL c a r) s = FL c a s"
| "fsub (FR c l a) s = FR c s a"

fun fill :: "frame \<Rightarrow> ptree \<Rightarrow> ptree" where
  "fill (FL c a r) T = Bin c T a r"
| "fill (FR c l a) T = Bin c l a T"

lemma plug_fill: "plug T (f # k) = plug (fill f T) k"
  by (cases f) auto

lemma frame_simps [simp]:
  "fnode (fset f c) = fnode f" "fcol (fset f c) = c" "fsib (fset f c) = fsib f"
  "fnode (fsub f s) = fnode f" "fcol (fsub f s) = fcol f" "fsib (fsub f s) = s"
  by (cases f; simp)+

lemma knodes_fset [simp]: "knodes_l (fset f c # k) = knodes_l (f # k)" "knodes_r (fset f c # k) = knodes_r (f # k)"
  by (cases f; simp)+

lemma knodes_fsub: "nodes s = nodes (fsib f) \<Longrightarrow>
  knodes_l (fsub f s # k) = knodes_l (f # k) \<and> knodes_r (fsub f s # k) = knodes_r (f # k)"
  by (cases f) auto

lemma set_colour_frame:
  assumes "tree_is dat t (plug T (f # k))"
  shows "\<exists>t'. rbt_set_colour t (fnode f) c = Inr t' \<and> tree_is dat t' (plug T (fset f c # k))"
  using assms set_colour_ok by (cases f) auto

lemma set_colour_sib:
  assumes "tree_is dat t (plug T (f # k))" and "fsib f = Bin c l a r"
  shows "\<exists>t'. rbt_set_colour t a c' = Inr t' \<and>
    tree_is dat t' (plug T (fsub f (Bin c' l a r) # k))"
proof (cases f)
  case (FL cf b s)
  then have "tree_is dat t (plug (Bin c l a r) (FR cf T b # k))" using assms by simp
  then show ?thesis using set_colour_ok [of dat t c l a r] FL by fastforce
next
  case (FR cf s b)
  then have "tree_is dat t (plug (Bin c l a r) (FL cf b T # k))" using assms by simp
  then show ?thesis using set_colour_ok [of dat t c l a r] FR by fastforce
qed

lemma frame_node:
  assumes "tree_is dat t (plug T (f # k))"
  shows "fnode f \<noteq> NULL" "rbt_get_parent t (fnode f) = Inr (up k)" "rbt_get_colour t (fnode f) = Inr (fcol f)"
  using assms tree_is_node [of dat t] by (cases f; auto)+

lemma tree_parent:
  assumes "tree_is dat t (plug T k)" and "T \<noteq> Tip"
  shows "rbt_get_parent t (root_of T) = Inr (up k)" "root_of T \<noteq> NULL"
  using assms tree_is_node [of dat t] by (cases T; auto)+

lemma get_sibling_ok:
  assumes "tree_is dat t (plug T (f # k))" and "T \<noteq> Tip"
  shows "rbt_get_sibling t (root_of T) = Inr (root_of (fsib f))"
proof -
  have p: "rbt_get_parent t (root_of T) = Inr (fnode f)" "fnode f \<noteq> NULL"
    using tree_parent [OF assms] frame_node [OF assms(1)] by auto
  show ?thesis
  proof (cases f)
    case (FL c a r)
    then have "node_at t a = Inr (node_val dat a (root_of T) (root_of r) (up k) c)"
      using assms tree_is_node by auto
    then show ?thesis using p FL by (simp add: rbt_get_sibling_def)
  next
    case (FR c l a)
    then have tr: "tree_is dat t (plug (Bin c l a T) k)" using assms by auto
    have "root_of T \<in> set (nodes T)" using assms(2) root_in_nodes by blast
    moreover have "distinct (nodes (Bin c l a T))" using tr by (auto simp: tree_is_plug)
    ultimately have "root_of l \<noteq> root_of T"
      using root_in_nodes [of l] tree_parent(2) [OF assms] by (cases "l = Tip") auto
    then show ?thesis using p FR tree_is_node(2) [OF tr] by (simp add: rbt_get_sibling_def)
  qed
qed

lemma get_uncle_ok:
  assumes "tree_is dat t (plug T (f # g # k))" and "T \<noteq> Tip"
  shows "rbt_get_uncle t (root_of T) = Inr (root_of (fsib g))"
    "rbt_get_grandparent t (root_of T) = Inr (fnode g)"
proof -
  have 1: "tree_is dat t (plug (fill f T) (g # k))" using assms(1) by (simp add: plug_fill)
  have "fill f T \<noteq> Tip" "root_of (fill f T) = fnode f" by (cases f; simp)+
  then have "rbt_get_sibling t (fnode f) = Inr (root_of (fsib g))" using get_sibling_ok [OF 1] by simp
  then show "rbt_get_uncle t (root_of T) = Inr (root_of (fsib g))"
    "rbt_get_grandparent t (root_of T) = Inr (fnode g)"
    using tree_parent [OF assms] frame_node [OF assms(1)] frame_node(1) [OF 1]
    by (simp_all add: rbt_get_uncle_def rbt_get_grandparent_def)
qed

section \<open>The repair loop\<close>

lemma tree_is_distinct: "tree_is dat t (plug T k) \<Longrightarrow> distinct (nodes (plug T k))"
  by (simp add: tree_is_def)

lemma insert_line_left:
  assumes tr: "tree_is dat t (plug T (FL cp p s # FL cg g u # k))" and T: "T \<noteq> Tip"
  shows "\<exists>t'. rbt_insert_line t (root_of T) = Inr t' \<and>
    tree_is dat t' (plug (Bin RBTREE_BLACK T p (Bin RBTREE_RED s g u)) k)"
proof -
  note P = tree_is_node(1,2) [of dat t cp T p s "FL cg g u # k"]
    and G = tree_is_node(1,2) [of dat t cg "Bin cp T p s" g u k]
  obtain t1 where t1: "rbt_rotate_right t g = Inr t1" "tree_is dat t1 (plug (Bin cp T p (Bin cg s g u)) k)"
    using rotate_right_ok [of dat t cg cp T p s g u k] tr by auto
  obtain t2 where t2: "rbt_set_colour t1 p RBTREE_BLACK = Inr t2"
    "tree_is dat t2 (plug (Bin RBTREE_BLACK T p (Bin cg s g u)) k)"
    using set_colour_ok [OF t1(2)] by blast
  obtain t3 where t3: "rbt_set_colour t2 g RBTREE_RED = Inr t3"
    "tree_is dat t3 (plug (Bin RBTREE_RED s g u) (FR RBTREE_BLACK T p # k))"
    using set_colour_ok [of dat t2 cg s g u "FR RBTREE_BLACK T p # k" RBTREE_RED] t2(2) by auto
  have "rbt_insert_line t (root_of T) = Inr t3"
    using tree_parent [OF tr T] get_uncle_ok(2) [OF tr T] P G tr t1(1) t2(1) t3(1)
    by (simp add: rbt_insert_line_def)
  then show ?thesis using t3(2) by auto
qed

lemma insert_line_right:
  assumes tr: "tree_is dat t (plug T (FR cp s p # FR cg u g # k))" and T: "T \<noteq> Tip"
  shows "\<exists>t'. rbt_insert_line t (root_of T) = Inr t' \<and>
    tree_is dat t' (plug (Bin RBTREE_BLACK (Bin RBTREE_RED u g s) p T) k)"
proof -
  have tp: "tree_is dat t (plug (Bin cp s p T) (FR cg u g # k))" using tr by simp
  note P = tree_is_node(1,2) [of dat t cp s p T "FR cg u g # k"]
    and G = tree_is_node(1,2) [of dat t cg u g "Bin cp s p T" k]
  have ne: "root_of T \<noteq> root_of s" "p \<noteq> root_of u"
    using tree_is_distinct [OF tr] T root_in_nodes [of T] root_in_nodes [of s] root_in_nodes [of u]
      tree_parent(2) [OF tr T] tree_is_node(1) [OF tp]
    by (cases "s = Tip"; cases "u = Tip"; force simp: nodes_plug)+
  obtain t1 where t1: "rbt_rotate_left t g = Inr t1" "tree_is dat t1 (plug (Bin cp (Bin cg u g s) p T) k)"
    using rotate_left_ok [of dat t cg u g cp s p T k] tr by auto
  obtain t2 where t2: "rbt_set_colour t1 p RBTREE_BLACK = Inr t2"
    "tree_is dat t2 (plug (Bin RBTREE_BLACK (Bin cg u g s) p T) k)"
    using set_colour_ok [OF t1(2)] by blast
  obtain t3 where t3: "rbt_set_colour t2 g RBTREE_RED = Inr t3"
    "tree_is dat t3 (plug (Bin RBTREE_RED u g s) (FL RBTREE_BLACK p T # k))"
    using set_colour_ok [of dat t2 cg u g s "FL RBTREE_BLACK p T # k" RBTREE_RED] t2(2) by auto
  have "rbt_insert_line t (root_of T) = Inr t3"
    using tree_parent [OF tr T] get_uncle_ok(2) [OF tr T] P G tr t1(1) t2(1) t3(1) ne
    by (simp add: rbt_insert_line_def)
  then show ?thesis using t3(2) by auto
qed

text \<open>What \<open>rbt_insert_rotate\<close> makes of the four arrangements of node, parent and grandparent.\<close>

fun rotated :: "ptree \<Rightarrow> frame \<Rightarrow> frame \<Rightarrow> ptree" where
  "rotated (Bin c l a r) (FL cp p s) (FL cg g u) =
     Bin RBTREE_BLACK (Bin c l a r) p (Bin RBTREE_RED s g u)"
| "rotated (Bin c l a r) (FR cp s p) (FR cg u g) =
     Bin RBTREE_BLACK (Bin RBTREE_RED u g s) p (Bin c l a r)"
| "rotated (Bin c l a r) (FR cp s p) (FL cg g u) =
     Bin RBTREE_BLACK (Bin cp s p l) a (Bin RBTREE_RED r g u)"
| "rotated (Bin c l a r) (FL cp p s) (FR cg u g) =
     Bin RBTREE_BLACK (Bin RBTREE_RED u g l) a (Bin cp r p s)"
| "rotated Tip f g = Tip"

lemma insert_rotate_ok:
  assumes tr: "tree_is dat t (plug (Bin c l a r) (f # g # k))"
  shows "\<exists>t'. rbt_insert_rotate t a (fnode f) = Inr t' \<and>
    tree_is dat t' (plug (rotated (Bin c l a r) f g) k)"
proof -
  let ?T = "Bin c l a r"
  note G = get_uncle_ok(2) [OF tr, simplified]
  have a: "a \<noteq> NULL" using tree_parent(2) [OF tr] by simp
  have dist: "distinct (nodes (plug ?T (f # g # k)))" by (rule tree_is_distinct [OF tr])
  have sib: "a \<noteq> root_of (fsib f)" "fnode f \<noteq> root_of (fsib g)" "a \<noteq> fnode f"
    using dist a frame_node(1) [OF tr] root_in_nodes [of "fsib f"] root_in_nodes [of "fsib g"]
    by (cases f; cases g; cases "fsib f = Tip"; cases "fsib g = Tip"; force simp: nodes_plug)+
  show ?thesis
  proof (cases f; cases g)
    fix cp p s cg g' u assume fg: "f = FL cp p s" "g = FL cg g' u"
    have "rbt_insert_rotate t a p = rbt_insert_line t a"
      using G sib fg tr tree_is_node(2) [of dat t cp ?T p s "FL cg g' u # k"]
        tree_is_node(2) [of dat t cg "Bin cp ?T p s" g' u k] by (simp add: rbt_insert_rotate_def)
    then show ?thesis using insert_line_left [of dat t ?T cp p s cg g' u k] tr fg by simp
  next
    fix cp s p cg u g' assume fg: "f = FR cp s p" "g = FR cg u g'"
    have "rbt_insert_rotate t a p = rbt_insert_line t a"
      using G sib fg tr tree_is_node(2) [of dat t cp s p ?T "FR cg u g' # k"]
        tree_is_node(2) [of dat t cg u g' "Bin cp s p ?T" k] by (simp add: rbt_insert_rotate_def)
    then show ?thesis using insert_line_right [of dat t ?T cp s p cg u g' k] tr fg by simp
  next
    fix cp s p cg g' u assume fg: "f = FR cp s p" "g = FL cg g' u"
    obtain t1 where t1: "rbt_rotate_left t p = Inr t1"
      "tree_is dat t1 (plug (Bin cp s p l) (FL c a r # FL cg g' u # k))"
      using rotate_left_ok [of dat t cp s p c l a r "FL cg g' u # k"] tr fg by auto
    have "rbt_insert_rotate t a p = rbt_insert_line t1 p"
      using G sib fg tr t1 tree_is_node(2) [of dat t cp s p ?T "FL cg g' u # k"]
        tree_is_node(2) [of dat t cg "Bin cp s p ?T" g' u k]
        tree_is_node(2) [of dat t1 c "Bin cp s p l" a r "FL cg g' u # k"]
      by (simp add: rbt_insert_rotate_def)
    then show ?thesis using insert_line_left [OF t1(2)] fg by simp
  next
    fix cp p s cg u g' assume fg: "f = FL cp p s" "g = FR cg u g'"
    obtain t1 where t1: "rbt_rotate_right t p = Inr t1"
      "tree_is dat t1 (plug (Bin cp r p s) (FR c l a # FR cg u g' # k))"
      using rotate_right_ok [of dat t cp c l a r p s "FR cg u g' # k"] tr fg by auto
    have "rbt_insert_rotate t a p = rbt_insert_line t1 p"
      using G sib fg tr t1 tree_is_node(2) [of dat t cp ?T p s "FR cg u g' # k"]
        tree_is_node(2) [of dat t cg u g' "Bin cp ?T p s" k]
        tree_is_node(2) [of dat t1 c l a "Bin cp r p s" "FR cg u g' # k"]
      by (simp add: rbt_insert_rotate_def)
    then show ?thesis using insert_line_right [OF t1(2)] fg by simp
  qed
qed

text \<open>Repairing keeps the nodes in their order, and the part below the grandparent is red-black.\<close>

lemma nodes_rotated:
  "T \<noteq> Tip \<Longrightarrow> nodes (plug (rotated T f g) k) = nodes (plug T (f # g # k))"
  by (cases T; cases f; cases g) (auto simp: nodes_plug)

lemma rotated_red_black:
  assumes "rbi l" "rbi r" "bh l = bh r" "col l = RBTREE_BLACK" "col r = RBTREE_BLACK"
    and "ctx_ok (bh l) (f # g # k)" and "fcol f = RBTREE_RED" and "fcol g = RBTREE_BLACK"
    and "col (fsib g) = RBTREE_BLACK"
  shows "red_black (plug (rotated (Bin RBTREE_RED l a r) f g) k)"
  unfolding red_black_plug using assms by (cases f; cases g) auto

lemma recolour_shape:
  assumes "rbi l" "rbi r" "bh l = bh r" "col l = RBTREE_BLACK" "col r = RBTREE_BLACK"
    and "ctx_ok (bh l) (f # g # k)" and "fcol f = RBTREE_RED" and "fcol g = RBTREE_BLACK"
    and "fsib g = Bin RBTREE_RED ul ua ur"
  shows "\<exists>l' r'. fill (fset (fsub g (Bin RBTREE_BLACK ul ua ur)) RBTREE_RED)
      (fill (fset f RBTREE_BLACK) (Bin RBTREE_RED l a r)) = Bin RBTREE_RED l' (fnode g) r' \<and>
    rbi l' \<and> rbi r' \<and> bh l' = bh r' \<and> col l' = RBTREE_BLACK \<and> col r' = RBTREE_BLACK \<and>
    ctx_ok (bh l') k"
proof -
  have "bh r = bh l" "bh ur = bh l" "bh ul = bh l" using assms by auto
  then show ?thesis using assms(1,2,4-9) by (cases f; cases g; simp)
qed

lemma sibling_colour:
  assumes "tree_is dat t (plug T (f # k))"
  shows "rbt_get_colour t (root_of (fsib f)) = Inr (col (fsib f))"
proof (cases f)
  case (FL c a r)
  then show ?thesis using assms tree_is_colour [of dat t r "FR c T a # k"] by simp
next
  case (FR c l a)
  then show ?thesis using assms tree_is_colour [of dat t l "FL c a T # k"] by simp
qed

lemma insert_fix_loop_ok:
  assumes "tree_is dat t (plug (Bin RBTREE_RED l a r) k)"
    and "rbi l" "rbi r" "bh l = bh r" "col l = RBTREE_BLACK" "col r = RBTREE_BLACK"
    and "ctx_ok (bh l) k" and "length k < fuel"
  shows "\<exists>t' T'. rbt_insert_fix_loop fuel t a = Inr t' \<and> tree_is dat t' T' \<and> red_black T' \<and>
    nodes T' = nodes (plug (Bin RBTREE_RED l a r) k)"
  using assms
proof (induction fuel arbitrary: t l a r k)
  case (Suc fuel)
  note tr = Suc.prems(1)
  have pa: "rbt_get_parent t a = Inr (up k)" using tree_is_node(3) [OF tr] .
  show ?case
  proof (cases k)
    case Nil
    obtain t' where "rbt_set_colour t a RBTREE_BLACK = Inr t'" "tree_is dat t' (plug (Bin RBTREE_BLACK l a r) k)"
      using set_colour_ok [OF tr] by blast
    moreover have "red_black (Bin RBTREE_BLACK l a r)" using Suc.prems by (simp add: red_black_def)
    ultimately show ?thesis using pa Nil by auto
  next
    case k: (Cons f k1)
    have fn: "fnode f \<noteq> NULL" "rbt_get_colour t (fnode f) = Inr (fcol f)"
      using frame_node [of dat t _ f k1] tr k by auto
    show ?thesis
    proof (cases "fcol f")
      case RBTREE_BLACK
      have "red_black (plug (Bin RBTREE_RED l a r) k)"
        unfolding red_black_plug using Suc.prems k RBTREE_BLACK by simp
      then show ?thesis using tr pa fn k RBTREE_BLACK by auto
    next
      case RBTREE_RED
      then obtain g k2 where k1: "k1 = g # k2" "fcol g = RBTREE_BLACK"
        using Suc.prems(7) k by (cases k1) auto
      have tr2: "tree_is dat t (plug (Bin RBTREE_RED l a r) (f # g # k2))" using tr k k1 by simp
      note un = get_uncle_ok [OF tr2, simplified]
      have trf: "tree_is dat t (plug (fill f (Bin RBTREE_RED l a r)) (g # k2))" using tr2 by (simp add: plug_fill)
      note uc = sibling_colour [OF trf]
      have step: "rbt_insert_fix_loop (Suc fuel) t a = (if col (fsib g) = RBTREE_RED
          then kbind (rbt_set_colour t (fnode f) RBTREE_BLACK) (\<lambda>t.
             kbind (rbt_set_colour t (root_of (fsib g)) RBTREE_BLACK) (\<lambda>t.
             kbind (rbt_set_colour t (fnode g) RBTREE_RED) (\<lambda>t.
               rbt_insert_fix_loop fuel t (fnode g))))
          else rbt_insert_rotate t a (fnode f))"
        using pa k fn RBTREE_RED un uc by simp
      have cok: "ctx_ok (bh l) (f # g # k2)" using Suc.prems(7) k k1 by simp
      show ?thesis
      proof (cases "col (fsib g)")
        case uB: RBTREE_BLACK
        obtain t' where "rbt_insert_rotate t a (fnode f) = Inr t'"
          "tree_is dat t' (plug (rotated (Bin RBTREE_RED l a r) f g) k2)"
          using insert_rotate_ok [OF tr2] by blast
        moreover have "red_black (plug (rotated (Bin RBTREE_RED l a r) f g) k2)"
          by (rule rotated_red_black [OF Suc.prems(2-6) cok RBTREE_RED k1(2) uB])
        ultimately show ?thesis
          using step uB nodes_rotated [of "Bin RBTREE_RED l a r" f g k2] k k1 by auto
      next
        case uR: RBTREE_RED
        then obtain ul ua ur where u: "fsib g = Bin RBTREE_RED ul ua ur" by (cases "fsib g") auto
        let ?T = "Bin RBTREE_RED l a r"
        let ?u = "Bin RBTREE_BLACK ul ua ur"
        obtain t1 where t1: "rbt_set_colour t (fnode f) RBTREE_BLACK = Inr t1"
          "tree_is dat t1 (plug (fill (fset f RBTREE_BLACK) ?T) (g # k2))"
          using set_colour_frame [OF tr2, of RBTREE_BLACK] by (auto simp: plug_fill)
        obtain t2 where t2: "rbt_set_colour t1 ua RBTREE_BLACK = Inr t2"
          "tree_is dat t2 (plug (fill (fset f RBTREE_BLACK) ?T) (fsub g ?u # k2))"
          using set_colour_sib [OF t1(2) u] by blast
        obtain t3 where t3: "rbt_set_colour t2 (fnode g) RBTREE_RED = Inr t3"
          "tree_is dat t3 (plug (fill (fset (fsub g ?u) RBTREE_RED) (fill (fset f RBTREE_BLACK) ?T)) k2)"
          using set_colour_frame [OF t2(2), of RBTREE_RED] by (auto simp: plug_fill)
        obtain l' r' where lr: "fill (fset (fsub g ?u) RBTREE_RED) (fill (fset f RBTREE_BLACK) ?T) =
            Bin RBTREE_RED l' (fnode g) r'"
          "rbi l'" "rbi r'" "bh l' = bh r'" "col l' = RBTREE_BLACK" "col r' = RBTREE_BLACK" "ctx_ok (bh l') k2"
          using recolour_shape [OF Suc.prems(2-6) cok RBTREE_RED k1(2) u] by blast
        have "nodes (plug (Bin RBTREE_RED l' (fnode g) r') k2) = nodes (plug ?T k)"
          using lr(1) u by (cases f; cases g) (auto simp: nodes_plug k k1)
        moreover have "rbt_insert_fix_loop (Suc fuel) t a = rbt_insert_fix_loop fuel t3 (fnode g)"
          unfolding step using uR u t1(1) t2(1) t3(1) by simp
        moreover have "length k2 < fuel" using Suc.prems(8) k k1 by simp
        ultimately show ?thesis using Suc.IH [OF t3(2) [unfolded lr(1)] lr(2-7)] by auto
      qed
    qed
  qed
qed simp

section \<open>Fuel\<close>

lemma rep_nonnull: "rep dat h p T \<Longrightarrow> NULL \<notin> set (nodes T)"
  by (induction T arbitrary: p) auto

lemma tree_is_length:
  assumes "tree_is dat t T"
  shows "length (nodes T) < addr_fuel"
proof -
  have "distinct (NULL # nodes T)" using assms rep_nonnull by (auto simp: tree_is_def)
  then show ?thesis using distinct_addr_length by fastforce
qed

fun ht :: "ptree \<Rightarrow> nat" where
  "ht Tip = 0"
| "ht (Bin c l a r) = Suc (max (ht l) (ht r))"

lemma ht_le: "ht T \<le> length (nodes T)"
  by (induction T) auto

lemma ctx_length_le: "length k \<le> length (nodes (plug T k))"
proof -
  have "length k \<le> length (knodes_l k @ knodes_r k)"
  proof (induction k)
    case (Cons f k)
    then show ?case by (cases f) auto
  qed simp
  then show ?thesis by (simp add: nodes_plug)
qed

text \<open>The data of the tree lie in \<open>D\<close> and stand in the order of their keys.\<close>

definition sorted_tree :: "(addr \<Rightarrow> 'k :: linorder) \<Rightarrow> addr set \<Rightarrow> (addr \<Rightarrow> addr) \<Rightarrow> ptree \<Rightarrow> bool" where
  "sorted_tree key D dat T \<longleftrightarrow>
     sorted (map (\<lambda>x. key (dat x)) (nodes T)) \<and> dat ` set (nodes T) \<subseteq> D"

fun link_side :: "frame list \<Rightarrow> int \<Rightarrow> bool" where
  "link_side [] c = True"
| "link_side (FL _ _ _ # k) c = (c \<ge> 0)"
| "link_side (FR _ _ _ # k) c = (c < 0)"

section \<open>The interface of the comparison function\<close>

text \<open>
  What the tree needs of its comparison: on the data \<open>D\<close> in question it does not fail, and its
  sign is that of the comparison of a key.
\<close>

locale tree_order =
  fixes cmpf :: rbtree_cmp_fn
    and D :: "addr set"
    and key :: "addr \<Rightarrow> 'k :: linorder"
  assumes cmp_law: "d \<in> D \<Longrightarrow> v \<in> D \<Longrightarrow>
      \<exists>c. cmpf d v = Inr c \<and> (c < 0 \<longleftrightarrow> key d < key v) \<and> (c = 0 \<longleftrightarrow> key d = key v)"
begin

text \<open>The descent of an insertion ends at an empty place, below the smaller nodes on its left.\<close>

lemma insert_loop_ok:
  assumes "tree_is dat t (plug T k)" and "sorted_tree key D dat (plug T k)" and "v \<in> D"
    and "\<forall>x \<in> set (knodes_l k). key (dat x) < key v" "\<forall>x \<in> set (knodes_r k). key v \<le> key (dat x)"
    and "link_side k c" and "ht T < fuel"
  shows "\<exists>k' c'. rbtree_insert_loop fuel t cmpf v (root_of T) (up k) c = Inr (up k', c') \<and>
    plug Tip k' = plug T k \<and> link_side k' c' \<and>
    (\<forall>x \<in> set (knodes_l k'). key (dat x) < key v) \<and> (\<forall>x \<in> set (knodes_r k'). key v \<le> key (dat x))"
  using assms
proof (induction fuel arbitrary: T k c)
  case (Suc fuel)
  show ?case
  proof (cases T)
    case Tip
    then show ?thesis using Suc.prems by auto
  next
    case (Bin tc l a r)
    note tn = tree_is_node [OF Suc.prems(1) [unfolded Bin]]
    have srt: "sorted (map (\<lambda>x. key (dat x)) (nodes l @ a # nodes r))" "dat a \<in> D"
      using Suc.prems(2) by (auto simp: sorted_tree_def nodes_plug Bin sorted_append)
    obtain d where d: "cmpf (dat a) v = Inr d" "d < 0 \<longleftrightarrow> key (dat a) < key v" "d = 0 \<longleftrightarrow> key (dat a) = key v"
      using cmp_law [OF srt(2) Suc.prems(3)] by blast
    show ?thesis
    proof (cases "d \<ge> 0")
      case True
      then have le: "key v \<le> key (dat a)" using d by auto
      let ?k = "FL tc a r # k"
      have "\<forall>x \<in> set (knodes_r ?k). key v \<le> key (dat x)"
        using le srt(1) Suc.prems(5) by (auto simp: sorted_append intro: order_trans)
      then show ?thesis
        using Suc.IH [of l ?k d] Suc.prems tn d(1) True Bin by auto
    next
      case False
      then have le: "key (dat a) < key v" using d by auto
      let ?k = "FR tc l a # k"
      have "\<forall>x \<in> set (knodes_l ?k). key (dat x) < key v"
        using le srt(1) Suc.prems(4) by (auto simp: sorted_append intro: le_less_trans)
      then show ?thesis
        using Suc.IH [of r ?k d] Suc.prems tn d(1) False Bin by auto
    qed
  qed
qed simp

lemma insort_split:
  "\<forall>x \<in> set ls. f x < f n \<Longrightarrow> \<forall>x \<in> set rs. f n \<le> (f x :: 'k) \<Longrightarrow>
   insort_key f n (ls @ rs) = ls @ n # rs"
proof (induction ls)
  case Nil
  then show ?case by (cases rs) auto
qed auto

lemma tree_is_frame:
  "tree_is dat t T \<Longrightarrow> n \<notin> set (nodes T) \<Longrightarrow> tree_is dat (t\<lparr>rb_heap := (rb_heap t)(n := v)\<rparr>) T"
  by (simp add: tree_is_def)

text \<open>Hanging the new node below the place found.\<close>

lemma link_ok:
  assumes tr: "tree_is dat t (plug Tip k)" and side: "link_side k c"
    and new: "new \<noteq> NULL" "new \<notin> set (nodes (plug Tip k))"
      "rb_heap t new = Some (node_val dat new NULL NULL (up k) RBTREE_RED)"
  shows "\<exists>t'. (if up k \<noteq> NULL
      then if c \<ge> 0 then node_put t (up k) (rb_left_update (\<lambda>_. new))
        else node_put t (up k) (rb_right_update (\<lambda>_. new))
      else kassert (rb_root t = NULL) (Inr (t\<lparr>rb_root := new\<rparr>))) = Inr t' \<and>
    tree_is dat t' (plug (Bin RBTREE_RED Tip new Tip) k)"
proof (cases k)
  case Nil
  then show ?thesis using tr new by (auto simp: tree_is_def)
next
  case (Cons f k')
  show ?thesis
  proof (cases f)
    case (FL fc a r)
    let ?t = "t\<lparr>rb_heap := (rb_heap t)(a \<mapsto> node_val dat a new (root_of r) (up k') fc)\<rparr>"
    have "tree_is dat t (plug (Bin fc Tip a r) k')" using tr Cons FL by simp
    note tn = tree_is_node [OF this]
    have "tree_is dat ?t (plug (Bin RBTREE_RED Tip new Tip) k)"
      using tr new Cons FL unfolding tree_is_plug by (auto simp: nodes_plug)
    then show ?thesis using tn Cons FL side by (auto simp: node_put_def)
  next
    case (FR fc l a)
    let ?t = "t\<lparr>rb_heap := (rb_heap t)(a \<mapsto> node_val dat a (root_of l) new (up k') fc)\<rparr>"
    have "tree_is dat t (plug (Bin fc l a Tip) k')" using tr Cons FR by simp
    note tn = tree_is_node [OF this]
    have "tree_is dat ?t (plug (Bin RBTREE_RED Tip new Tip) k)"
      using tr new Cons FR unfolding tree_is_plug by (auto simp: nodes_plug)
    then show ?thesis using tn Cons FR side by (auto simp: node_put_def)
  qed
qed

lemma insert_ok:
  assumes tr: "tree_is dat t T" and rb: "red_black T" and srt: "sorted_tree key D dat T"
    and new: "new \<noteq> NULL" "new \<notin> set (nodes T)" "rb_heap t new = Some nd" "rb_data nd = dat new"
      "dat new \<in> D"
  shows "\<exists>t' T'. rbtree_insert t new cmpf = Inr t' \<and> tree_is dat t' T' \<and> red_black T' \<and>
    sorted_tree key D dat T' \<and> nodes T' = insort_key (\<lambda>x. key (dat x)) new (nodes T)"
proof -
  let ?h1 = "(rb_heap t)(new \<mapsto> node_val dat new NULL NULL NULL RBTREE_RED)"
  let ?t1 = "t\<lparr>rb_heap := ?h1\<rparr>"
  have init: "rbtree_init_node t new = Inr ?t1"
    using new by (cases nd) (simp add: rbtree_init_node_def node_put_def rbt_set_colour_def node_val_def)
  have tr1: "tree_is dat ?t1 T" by (rule tree_is_frame [OF tr new(2)])
  have at: "node_at ?t1 new = Inr (node_val dat new NULL NULL NULL RBTREE_RED)" using new(1) by simp
  have "ht T < addr_fuel" using ht_le [of T] tree_is_length [OF tr] by simp
  then obtain k c where k: "rbtree_insert_loop addr_fuel ?t1 cmpf (dat new) (root_of T) NULL 0 = Inr (up k, c)"
    "plug Tip k = T" "link_side k c" "\<forall>x \<in> set (knodes_l k). key (dat x) < key (dat new)"
    "\<forall>x \<in> set (knodes_r k). key (dat new) \<le> key (dat x)"
    using insert_loop_ok [of dat ?t1 T "[]" "dat new" 0 addr_fuel] tr1 srt new(5) by auto
  let ?t2 = "t\<lparr>rb_heap := (rb_heap t)(new \<mapsto> node_val dat new NULL NULL (up k) RBTREE_RED)\<rparr>"
  have sp: "rbt_set_parent ?t1 new (up k) = Inr ?t2"
    using new(1) by (simp add: rbt_set_parent_def node_put_def)
  have "tree_is dat ?t2 (plug Tip k)" using tree_is_frame [OF tr new(2)] k(2) by simp
  then obtain t3 where t3: "(if up k \<noteq> NULL
      then if c \<ge> 0 then node_put ?t2 (up k) (rb_left_update (\<lambda>_. new))
        else node_put ?t2 (up k) (rb_right_update (\<lambda>_. new))
      else kassert (rb_root ?t2 = NULL) (Inr (?t2\<lparr>rb_root := new\<rparr>))) = Inr t3"
    "tree_is dat t3 (plug (Bin RBTREE_RED Tip new Tip) k)"
    using link_ok [of dat ?t2 k c new] k(2,3) new by auto
  have "ctx_ok 0 k" using rb red_black_plug [of Tip k] k(2) by simp
  moreover have "length k < addr_fuel" using ctx_length_le [of k Tip] tree_is_length [OF tr] k(2) by simp
  ultimately obtain t' T' where t': "rbt_insert_fix_loop addr_fuel t3 new = Inr t'" "tree_is dat t' T'"
    "red_black T'" "nodes T' = nodes (plug (Bin RBTREE_RED Tip new Tip) k)"
    using insert_fix_loop_ok [OF t3(2), of addr_fuel] by auto
  have nd: "nodes T' = insort_key (\<lambda>x. key (dat x)) new (nodes T)"
    using insort_split [OF k(4,5)] by (simp add: t'(4) nodes_plug flip: k(2))
  have "rbtree_insert t new cmpf = Inr t'"
    unfolding rbtree_insert_def init kbind_Inr at node_val_simps
    using new(1) tr k(1) sp t3(1) t'(1) by (simp add: tree_is_def rbt_insert_fix_def)
  moreover have "sorted_tree key D dat T'"
    using srt new(5) by (auto simp: sorted_tree_def nd sorted_insort_key set_insort_key)
  ultimately show ?thesis using t' nd by blast
qed

end

end
