(* ===== verification/Rbtree_Search.thy ===== *)
theory Rbtree_Search
  imports Rbtree_Insert
begin

text \<open>
  The searches of the red-black tree. \<open>probed\<close> says what they ask of the comparison: it succeeds
  on every node, and its sign grows along the tree (below the value, equal, above it).
\<close>

definition probe_le :: "int \<Rightarrow> int \<Rightarrow> bool" where
  "probe_le c d \<longleftrightarrow> (0 < c \<longrightarrow> 0 < d) \<and> (d < 0 \<longrightarrow> c < 0)"

definition probed :: "(addr \<Rightarrow> addr) \<Rightarrow> rbtree_cmp_fn \<Rightarrow> addr \<Rightarrow> (addr \<Rightarrow> int) \<Rightarrow> addr list \<Rightarrow> bool" where
  "probed dat cmpf v cmp ns \<longleftrightarrow>
     (\<forall>x \<in> set ns. cmpf (dat x) v = Inr (cmp x)) \<and> sorted_wrt (\<lambda>x y. probe_le (cmp x) (cmp y)) ns"

lemma probed_append:
  "probed dat cmpf v cmp (xs @ ys) \<longleftrightarrow> probed dat cmpf v cmp xs \<and> probed dat cmpf v cmp ys \<and>
     (\<forall>x \<in> set xs. \<forall>y \<in> set ys. probe_le (cmp x) (cmp y))"
  by (auto simp: probed_def sorted_wrt_append)

lemma probed_Cons:
  "probed dat cmpf v cmp (x # xs) \<longleftrightarrow> cmpf (dat x) v = Inr (cmp x) \<and> probed dat cmpf v cmp xs \<and>
     (\<forall>y \<in> set xs. probe_le (cmp x) (cmp y))"
  by (auto simp: probed_def)

text \<open>What a comparison at a node says of the nodes on either side.\<close>

lemma probed_Bin:
  assumes "probed dat cmpf v cmp (nodes (Bin c l a r))"
  shows "cmpf (dat a) v = Inr (cmp a)" "probed dat cmpf v cmp (nodes l)" "probed dat cmpf v cmp (nodes r)"
    "0 < cmp a \<Longrightarrow> \<forall>x \<in> set (nodes r). 0 < cmp x" "cmp a < 0 \<Longrightarrow> \<forall>x \<in> set (nodes l). cmp x < 0"
  using assms by (auto simp: probed_append probed_Cons probe_le_def)

lemma probed_plug: "probed dat cmpf v cmp (nodes (plug T k)) \<Longrightarrow> probed dat cmpf v cmp (nodes T)"
  by (simp add: nodes_plug probed_append)

section \<open>Exact search\<close>

lemma search_loop_ok:
  assumes "rep dat (rb_heap t) p T" and "probed dat cmpf v cmp (nodes T)" and "ht T < fuel"
  shows "\<exists>n. rbtree_search_loop fuel t v cmpf (root_of T) = Inr n \<and>
    (n = NULL \<longrightarrow> (\<forall>x \<in> set (nodes T). cmp x \<noteq> 0)) \<and> (n \<noteq> NULL \<longrightarrow> n \<in> set (nodes T) \<and> cmp n = 0)"
  using assms
proof (induction T arbitrary: p fuel)
  case (Bin c l a r)
  obtain fu where fu: "fuel = Suc fu" using Bin.prems(3) by (cases fuel) auto
  have a: "a \<noteq> NULL" "node_at t a = Inr (node_val dat a (root_of l) (root_of r) p c)"
    using Bin.prems by auto
  note pb = probed_Bin [OF Bin.prems(2)]
  consider "cmp a = 0" | "cmp a > 0" | "cmp a < 0" by linarith
  then show ?case
  proof cases
    case 1
    then show ?thesis using a pb(1) fu by simp
  next
    case 2
    have "rep dat (rb_heap t) a l" "ht l < fu" using Bin.prems(1,3) fu by auto
    then show ?thesis using Bin.IH(1) [OF _ pb(2)] pb(1,4) a fu 2 by force
  next
    case 3
    have "rep dat (rb_heap t) a r" "ht r < fu" using Bin.prems(1,3) fu by auto
    then show ?thesis using Bin.IH(2) [OF _ pb(3)] pb(1,5) a fu 3 by force
  qed
next
  case Tip
  then show ?case by (cases fuel) auto
qed

section \<open>The inner loops\<close>

text \<open>The place the search is at: all nodes on its left are below the value, all on its right above.\<close>

definition at_place :: "(addr \<Rightarrow> int) \<Rightarrow> frame list \<Rightarrow> bool" where
  "at_place cmp k \<longleftrightarrow> (\<forall>x \<in> set (knodes_l k). cmp x < 0) \<and> (\<forall>x \<in> set (knodes_r k). cmp x > 0)"

lemma descend_left_ok:
  assumes "tree_is dat t (plug T k)" and "T = Bin c l a r"
    and "probed dat cmpf v cmp (nodes (plug T k))" and "at_place cmp k" and "ht T < fuel"
  shows "\<exists>c' l' a' r' k'. descend_left fuel t v cmpf a (cmp a) = Inr (a', cmp a') \<and>
    plug (Bin c' l' a' r') k' = plug T k \<and> at_place cmp k' \<and> (cmp a' > 0 \<longrightarrow> l' = Tip) \<and>
    (a' = a \<and> k' = k \<and> Bin c' l' a' r' = T \<or> ht (Bin c' l' a' r') < ht T)"
  using assms
proof (induction fuel arbitrary: T c l a r k)
  case (Suc fuel)
  note tn = tree_is_node [OF Suc.prems(1) [unfolded Suc.prems(2)]]
  show ?case
  proof (cases "cmp a > 0 \<and> l \<noteq> Tip")
    case False
    have "descend_left (Suc fuel) t v cmpf a (cmp a) = Inr (a, cmp a)"
      using tn False by (cases l) auto
    then show ?thesis
      using False Suc.prems(2,4) by (intro exI [of _ c] exI [of _ l] exI [of _ a] exI [of _ r] exI [of _ k]) auto
  next
    case True
    then obtain lc ll la lr where l: "l = Bin lc ll la lr" by (cases l) auto
    have tl: "tree_is dat t (plug l (FL c a r # k))" using Suc.prems by simp
    note ln = tree_is_node [OF tl [unfolded l]]
    have pr: "probed dat cmpf v cmp (nodes (plug l (FL c a r # k)))" using Suc.prems by simp
    note pb = probed_Bin [OF probed_plug [OF Suc.prems(3), unfolded Suc.prems(2)]]
    have cl: "cmpf (dat la) v = Inr (cmp la)" using probed_Bin(1) pb(2) l by metis
    have "\<forall>x \<in> set (nodes r). cmp x > 0" using pb(4) True by blast
    then have at: "at_place cmp (FL c a r # k)" using Suc.prems(4) True by (auto simp: at_place_def)
    have step: "descend_left (Suc fuel) t v cmpf a (cmp a) = descend_left fuel t v cmpf la (cmp la)"
      using tn ln True l cl by simp
    have "ht l < fuel" using Suc.prems(2,5) by simp
    from Suc.IH [OF tl l pr at this] obtain c' l' a' r' k' where d:
      "descend_left fuel t v cmpf la (cmp la) = Inr (a', cmp a')"
      "plug (Bin c' l' a' r') k' = plug l (FL c a r # k)" "at_place cmp k'" "cmp a' > 0 \<longrightarrow> l' = Tip"
      "a' = la \<and> k' = FL c a r # k \<and> Bin c' l' a' r' = l \<or> ht (Bin c' l' a' r') < ht l"
      by (elim exE conjE) (rule that)
    have "ht (Bin c' l' a' r') < ht T" using d(5) Suc.prems(2) by (elim disjE) auto
    moreover have "plug (Bin c' l' a' r') k' = plug T k" using d(2) Suc.prems(2) by simp
    ultimately show ?thesis unfolding step using d(1,3,4) by blast
  qed
qed simp

lemma descend_right_ok:
  assumes "tree_is dat t (plug T k)" and "T = Bin c l a r"
    and "probed dat cmpf v cmp (nodes (plug T k))" and "at_place cmp k" and "ht T < fuel"
  shows "\<exists>c' l' a' r' k'. descend_right fuel t v cmpf a (cmp a) = Inr (a', cmp a') \<and>
    plug (Bin c' l' a' r') k' = plug T k \<and> at_place cmp k' \<and> (cmp a' < 0 \<longrightarrow> r' = Tip) \<and>
    (a' = a \<and> k' = k \<and> Bin c' l' a' r' = T \<or> ht (Bin c' l' a' r') < ht T)"
  using assms
proof (induction fuel arbitrary: T c l a r k)
  case (Suc fuel)
  note tn = tree_is_node [OF Suc.prems(1) [unfolded Suc.prems(2)]]
  show ?case
  proof (cases "cmp a < 0 \<and> r \<noteq> Tip")
    case False
    have "descend_right (Suc fuel) t v cmpf a (cmp a) = Inr (a, cmp a)"
      using tn False by (cases r) auto
    then show ?thesis
      using False Suc.prems(2,4) by (intro exI [of _ c] exI [of _ l] exI [of _ a] exI [of _ r] exI [of _ k]) auto
  next
    case True
    then obtain rc rl ra rr where r: "r = Bin rc rl ra rr" by (cases r) auto
    have tr: "tree_is dat t (plug r (FR c l a # k))" using Suc.prems by simp
    note rn = tree_is_node [OF tr [unfolded r]]
    have pr: "probed dat cmpf v cmp (nodes (plug r (FR c l a # k)))" using Suc.prems by simp
    note pb = probed_Bin [OF probed_plug [OF Suc.prems(3), unfolded Suc.prems(2)]]
    have cr: "cmpf (dat ra) v = Inr (cmp ra)" using probed_Bin(1) pb(3) r by metis
    have "\<forall>x \<in> set (nodes l). cmp x < 0" using pb(5) True by blast
    then have at: "at_place cmp (FR c l a # k)" using Suc.prems(4) True by (auto simp: at_place_def)
    have step: "descend_right (Suc fuel) t v cmpf a (cmp a) = descend_right fuel t v cmpf ra (cmp ra)"
      using tn rn True r cr by simp
    have "ht r < fuel" using Suc.prems(2,5) by simp
    from Suc.IH [OF tr r pr at this] obtain c' l' a' r' k' where d:
      "descend_right fuel t v cmpf ra (cmp ra) = Inr (a', cmp a')"
      "plug (Bin c' l' a' r') k' = plug r (FR c l a # k)" "at_place cmp k'" "cmp a' < 0 \<longrightarrow> r' = Tip"
      "a' = ra \<and> k' = FR c l a # k \<and> Bin c' l' a' r' = r \<or> ht (Bin c' l' a' r') < ht r"
      by (elim exE conjE) (rule that)
    have "ht (Bin c' l' a' r') < ht T" using d(5) Suc.prems(2) by (elim disjE) auto
    moreover have "plug (Bin c' l' a' r') k' = plug T k" using d(2) Suc.prems(2) by simp
    ultimately show ?thesis unfolding step using d(1,3,4) by blast
  qed
qed simp

section \<open>Greatest node not above a value\<close>

text \<open>The climb ends at the last node on the left of the place, or at the root.\<close>

lemma climb_max_ok:
  assumes "tree_is dat t (plug T k)" and "T \<noteq> Tip" and "0 < cmp (root_of T)"
    and "probed dat cmpf v cmp (nodes (plug T k))" and "at_place cmp k" and "length k < fuel"
  shows "\<exists>n c. climb_max fuel t v cmpf (root_of T) (cmp (root_of T)) = Inr (n, c) \<and>
    (knodes_l k = [] \<and> 0 < c \<or> knodes_l k \<noteq> [] \<and> n = last (knodes_l k) \<and> c < 0)"
  using assms
proof (induction fuel arbitrary: T k)
  case (Suc fuel)
  note tp = tree_parent [OF Suc.prems(1,2)]
  show ?case
  proof (cases k)
    case Nil
    then show ?thesis using tp Suc.prems(3) by simp
  next
    case (Cons f k')
    show ?thesis
    proof (cases f)
      case (FL c a r)
      have tr: "tree_is dat t (plug (Bin c T a r) k')" using Suc.prems(1) Cons FL by simp
      have pr: "probed dat cmpf v cmp (nodes (plug (Bin c T a r) k'))" using Suc.prems(4) Cons FL by simp
      have a: "0 < cmp a" "at_place cmp k'" using Suc.prems(5) Cons FL by (auto simp: at_place_def)
      have "climb_max (Suc fuel) t v cmpf (root_of T) (cmp (root_of T)) = climb_max fuel t v cmpf a (cmp a)"
        using tp tree_is_node [OF tr] probed_Bin(1) [OF probed_plug [OF pr]] Suc.prems(3) Cons FL by simp
      then show ?thesis using Suc.IH [OF tr _ _ pr a(2)] a(1) Suc.prems(6) Cons FL by simp
    next
      case (FR c l a)
      have tr: "tree_is dat t (plug (Bin c l a T) k')" using Suc.prems(1) Cons FR by simp
      have pr: "probed dat cmpf v cmp (nodes (plug (Bin c l a T) k'))" using Suc.prems(4) Cons FR by simp
      have a: "cmp a < 0" using Suc.prems(5) Cons FR by (auto simp: at_place_def)
      obtain fu where "fuel = Suc fu" using Suc.prems(6) Cons by (cases fuel) auto
      then have "climb_max (Suc fuel) t v cmpf (root_of T) (cmp (root_of T)) = Inr (a, cmp a)"
        using tp tree_is_node [OF tr] probed_Bin(1) [OF probed_plug [OF pr]] Suc.prems(3) Cons FR a by simp
      then show ?thesis using a Cons FR by auto
    qed
  qed
qed simp

text \<open>\<open>max_result\<close>: a node that matches, or the last one below the value.\<close>

definition max_result :: "(addr \<Rightarrow> int) \<Rightarrow> addr list \<Rightarrow> addr \<Rightarrow> bool" where
  "max_result cmp ns n \<longleftrightarrow> (n \<in> set ns \<and> cmp n = 0) \<or>
     (\<exists>ls rs. ns = ls @ n # rs \<and> cmp n < 0 \<and> (\<forall>x \<in> set rs. 0 < cmp x))"

definition min_result :: "(addr \<Rightarrow> int) \<Rightarrow> addr list \<Rightarrow> addr \<Rightarrow> bool" where
  "min_result cmp ns n \<longleftrightarrow> (n \<in> set ns \<and> cmp n = 0) \<or>
     (\<exists>ls rs. ns = ls @ n # rs \<and> 0 < cmp n \<and> (\<forall>x \<in> set ls. cmp x < 0))"

lemma max_result_last:
  "xs \<noteq> [] \<Longrightarrow> cmp (last xs) < 0 \<Longrightarrow> \<forall>x \<in> set ys. 0 < cmp x \<Longrightarrow> max_result cmp (xs @ ys) (last xs)"
  unfolding max_result_def by (metis append.assoc append_Cons append_Nil append_butlast_last_id)

lemma min_result_hd:
  "ys \<noteq> [] \<Longrightarrow> 0 < cmp (hd ys) \<Longrightarrow> \<forall>x \<in> set xs. cmp x < 0 \<Longrightarrow> min_result cmp (xs @ ys) (hd ys)"
  unfolding min_result_def by (metis list.collapse)

lemma search_max_loop_ok:
  assumes "tree_is dat t (plug T k)" and "T \<noteq> Tip" and "probed dat cmpf v cmp (nodes (plug T k))"
    and "at_place cmp k" and "ht T \<le> fuel" and "ht T < addr_fuel"
  shows "\<exists>n c'. rbtree_search_max_loop fuel t v cmpf (root_of T) c = Inr (n, c') \<and>
    (0 < c' \<and> (\<forall>x \<in> set (nodes (plug T k)). 0 < cmp x) \<or>
     c' \<le> 0 \<and> max_result cmp (nodes (plug T k)) n)"
  using assms
proof (induction fuel arbitrary: T k c)
  case (Suc fuel)
  obtain c0 l0 a0 r0 where T: "T = Bin c0 l0 a0 r0" using Suc.prems(2) by (cases T) auto
  note n0 = tree_is_node [OF Suc.prems(1) [unfolded T]]
  note p0 = probed_Bin(1) [OF probed_plug [OF Suc.prems(3) [unfolded T]]]
  obtain c1 l1 a1 r1 k1 where d1: "descend_right addr_fuel t v cmpf a0 (cmp a0) = Inr (a1, cmp a1)"
    "plug (Bin c1 l1 a1 r1) k1 = plug T k" "at_place cmp k1" "cmp a1 < 0 \<longrightarrow> r1 = Tip"
    "ht (Bin c1 l1 a1 r1) \<le> ht T"
    using descend_right_ok [OF Suc.prems(1) T Suc.prems(3,4,6)] by (metis less_imp_le order_refl)
  have h1: "ht (Bin c1 l1 a1 r1) < addr_fuel" using d1(5) Suc.prems(6) by simp
  have t1: "tree_is dat t (plug (Bin c1 l1 a1 r1) k1)" "probed dat cmpf v cmp (nodes (plug (Bin c1 l1 a1 r1) k1))"
    using Suc.prems(1,3) d1(2) by simp_all
  obtain c2 l2 a2 r2 k2 where d2: "descend_left addr_fuel t v cmpf a1 (cmp a1) = Inr (a2, cmp a2)"
    "plug (Bin c2 l2 a2 r2) k2 = plug (Bin c1 l1 a1 r1) k1" "at_place cmp k2" "cmp a2 > 0 \<longrightarrow> l2 = Tip"
    "a2 = a1 \<and> k2 = k1 \<and> Bin c2 l2 a2 r2 = Bin c1 l1 a1 r1 \<or> ht (Bin c2 l2 a2 r2) < ht (Bin c1 l1 a1 r1)"
    using descend_left_ok [OF t1(1) refl t1(2) d1(3) h1] by blast
  have pl: "plug (Bin c2 l2 a2 r2) k2 = plug T k" using d1(2) d2(2) by simp
  have t2: "tree_is dat t (plug (Bin c2 l2 a2 r2) k2)" "probed dat cmpf v cmp (nodes (plug (Bin c2 l2 a2 r2) k2))"
    using Suc.prems(1,3) pl by simp_all
  note n2 = tree_is_node [OF t2(1)] and p2 = probed_Bin [OF probed_plug [OF t2(2)]]
  have nn: "nodes (plug T k) = knodes_l k2 @ nodes l2 @ a2 # nodes r2 @ knodes_r k2"
    by (simp add: nodes_plug flip: pl)
  have step: "rbtree_search_max_loop (Suc fuel) t v cmpf (root_of T) c =
      (if cmp a2 = 0 then Inr (a2, cmp a2)
       else if cmp a2 > 0 \<and> root_of l2 = NULL then climb_max addr_fuel t v cmpf a2 (cmp a2)
       else if cmp a2 < 0 \<and> root_of r2 = NULL then Inr (a2, cmp a2)
       else rbtree_search_max_loop fuel t v cmpf a2 (cmp a2))"
    using n0 p0 d1(1) d2(1) n2 unfolding T by simp
  consider "cmp a2 = 0" | "cmp a2 > 0" | "cmp a2 < 0" "r2 = Tip" | "cmp a2 < 0" "r2 \<noteq> Tip" by linarith
  then show ?case
  proof cases
    case 1
    then show ?thesis unfolding step by (auto simp: max_result_def nn)
  next
    case 2
    then have l2: "l2 = Tip" using d2(4) by simp
    have "length k2 < addr_fuel" using ctx_length_le [of k2 "Bin c2 l2 a2 r2"] tree_is_length [OF t2(1)] by simp
    then obtain n c' where nc: "climb_max addr_fuel t v cmpf a2 (cmp a2) = Inr (n, c')"
      "knodes_l k2 = [] \<and> 0 < c' \<or> knodes_l k2 \<noteq> [] \<and> n = last (knodes_l k2) \<and> c' < 0"
      using climb_max_ok [OF t2(1) _ _ t2(2) d2(3), of addr_fuel] 2 by auto
    have "\<forall>x \<in> set (a2 # nodes r2 @ knodes_r k2). 0 < cmp x"
      using 2 p2(4) d2(3) by (auto simp: at_place_def)
    moreover have "cmp (last (knodes_l k2)) < 0" if "knodes_l k2 \<noteq> []"
      using that d2(3) by (simp add: at_place_def)
    ultimately show ?thesis
      unfolding step using nc 2 l2 max_result_last [of "knodes_l k2" cmp "a2 # nodes r2 @ knodes_r k2"]
      by (elim disjE conjE) (auto simp: nn)
  next
    case 3
    then have "max_result cmp (nodes (plug T k)) a2"
      using d2(3) unfolding max_result_def nn at_place_def
      by (intro disjI2 exI [of _ "knodes_l k2 @ nodes l2"] exI [of _ "knodes_r k2"]) simp
    then show ?thesis unfolding step using 3 by simp
  next
    case 4
    then have "root_of r2 \<noteq> NULL" using t2(1) by (cases r2) (auto simp: tree_is_plug)
    then have s: "rbtree_search_max_loop (Suc fuel) t v cmpf (root_of T) c =
        rbtree_search_max_loop fuel t v cmpf (root_of (Bin c2 l2 a2 r2)) (cmp a2)"
      unfolding step using 4 by simp
    have "ht (Bin c2 l2 a2 r2) < ht (Bin c1 l1 a1 r1)" using d2(5) d1(4) 4 by auto
    then have "ht (Bin c2 l2 a2 r2) \<le> fuel" "ht (Bin c2 l2 a2 r2) < addr_fuel"
      using d1(5) Suc.prems(5) h1 by linarith+
    from Suc.IH [OF t2(1) _ t2(2) d2(3) this, of "cmp a2"] show ?thesis
      unfolding s pl by simp
  qed
next
  case 0
  then show ?case by (cases T) auto
qed

lemma search_max_ok:
  assumes "tree_is dat t T" and "probed dat cmpf v cmp (nodes T)" and "v \<noteq> NULL"
  shows "\<exists>n. rbtree_search_max t v cmpf = Inr n \<and>
    (if \<exists>x \<in> set (nodes T). cmp x \<le> 0 then max_result cmp (nodes T) n else n = NULL)"
proof (cases "T = Tip")
  case True
  obtain fu where fu: "addr_fuel = Suc fu" by (rule addr_fuel_Suc)
  have "rb_root t = NULL" using assms(1) True by (simp add: tree_is_def)
  then show ?thesis using assms(3) True unfolding rbtree_search_max_def fu by simp
next
  case False
  have "ht T < addr_fuel" using ht_le [of T] tree_is_length [OF assms(1)] by simp
  then obtain n c' where n: "rbtree_search_max_loop addr_fuel t v cmpf (root_of T) 0 = Inr (n, c')"
    "0 < c' \<and> (\<forall>x \<in> set (nodes T). 0 < cmp x) \<or> c' \<le> 0 \<and> max_result cmp (nodes T) n"
    using search_max_loop_ok [of dat t T "[]" cmpf v cmp addr_fuel 0] assms False
    by (auto simp: at_place_def)
  have "\<exists>x \<in> set (nodes T). cmp x \<le> 0" if "max_result cmp (nodes T) n"
    using that by (auto simp: max_result_def intro!: bexI [of _ n])
  then show ?thesis
    using n assms(1,3) by (fastforce simp: rbtree_search_max_def tree_is_def)
qed

section \<open>Least node not below a value\<close>

text \<open>
  The climb of \<open>rbtree_search_min\<close> has no guard: where no ancestor stands above the value it
  leaves the tree through the root's parent, \<open>NULL\<close>.
\<close>

lemma climb_min_ok:
  assumes "tree_is dat t (plug T k)" and "T \<noteq> Tip" and "cmp (root_of T) < 0"
    and "probed dat cmpf v cmp (nodes (plug T k))" and "at_place cmp k" and "length k < fuel"
  shows "climb_min fuel t v cmpf (root_of T) (cmp (root_of T)) =
    (if knodes_r k = [] then Inl Undef else Inr (hd (knodes_r k)))"
  using assms
proof (induction fuel arbitrary: T k)
  case (Suc fuel)
  note tp = tree_parent [OF Suc.prems(1,2)]
  show ?case
  proof (cases k)
    case Nil
    then show ?thesis using tp Suc.prems(3) by (simp add: node_at_def)
  next
    case (Cons f k')
    show ?thesis
    proof (cases f)
      case (FR c l a)
      have tr: "tree_is dat t (plug (Bin c l a T) k')" using Suc.prems(1) Cons FR by simp
      have pr: "probed dat cmpf v cmp (nodes (plug (Bin c l a T) k'))" using Suc.prems(4) Cons FR by simp
      have a: "cmp a < 0" "at_place cmp k'" using Suc.prems(5) Cons FR by (auto simp: at_place_def)
      have "climb_min (Suc fuel) t v cmpf (root_of T) (cmp (root_of T)) = climb_min fuel t v cmpf a (cmp a)"
        using tp tree_is_node [OF tr] probed_Bin(1) [OF probed_plug [OF pr]] Suc.prems(3) Cons FR by simp
      then show ?thesis using Suc.IH [OF tr _ _ pr a(2)] a(1) Suc.prems(6) Cons FR by simp
    next
      case (FL c a r)
      have tr: "tree_is dat t (plug (Bin c T a r) k')" using Suc.prems(1) Cons FL by simp
      have pr: "probed dat cmpf v cmp (nodes (plug (Bin c T a r) k'))" using Suc.prems(4) Cons FL by simp
      have a: "0 < cmp a" using Suc.prems(5) Cons FL by (auto simp: at_place_def)
      obtain fu where "fuel = Suc fu" using Suc.prems(6) Cons by (cases fuel) auto
      then have "climb_min (Suc fuel) t v cmpf (root_of T) (cmp (root_of T)) = Inr a"
        using tp tree_is_node [OF tr] probed_Bin(1) [OF probed_plug [OF pr]] Suc.prems(3) Cons FL a by simp
      then show ?thesis using Cons FL by simp
    qed
  qed
qed simp

lemma search_min_loop_ok:
  assumes "tree_is dat t (plug T k)" and "T \<noteq> Tip" and "probed dat cmpf v cmp (nodes (plug T k))"
    and "at_place cmp k" and "ht T \<le> fuel" and "ht T < addr_fuel"
  shows "rbtree_search_min_loop fuel t v cmpf (root_of T) = Inl Undef \<and>
      (\<forall>x \<in> set (nodes (plug T k)). cmp x < 0) \<or>
    (\<exists>n. rbtree_search_min_loop fuel t v cmpf (root_of T) = Inr n \<and>
      min_result cmp (nodes (plug T k)) n)"
  using assms
proof (induction fuel arbitrary: T k c)
  case (Suc fuel)
  obtain c0 l0 a0 r0 where T: "T = Bin c0 l0 a0 r0" using Suc.prems(2) by (cases T) auto
  note n0 = tree_is_node [OF Suc.prems(1) [unfolded T]]
  note p0 = probed_Bin(1) [OF probed_plug [OF Suc.prems(3) [unfolded T]]]
  obtain c1 l1 a1 r1 k1 where d1: "descend_left addr_fuel t v cmpf a0 (cmp a0) = Inr (a1, cmp a1)"
    "plug (Bin c1 l1 a1 r1) k1 = plug T k" "at_place cmp k1" "cmp a1 > 0 \<longrightarrow> l1 = Tip"
    "ht (Bin c1 l1 a1 r1) \<le> ht T"
    using descend_left_ok [OF Suc.prems(1) T Suc.prems(3,4,6)] by (metis less_imp_le order_refl)
  have h1: "ht (Bin c1 l1 a1 r1) < addr_fuel" using d1(5) Suc.prems(6) by simp
  have t1: "tree_is dat t (plug (Bin c1 l1 a1 r1) k1)" "probed dat cmpf v cmp (nodes (plug (Bin c1 l1 a1 r1) k1))"
    using Suc.prems(1,3) d1(2) by simp_all
  obtain c2 l2 a2 r2 k2 where d2: "descend_right addr_fuel t v cmpf a1 (cmp a1) = Inr (a2, cmp a2)"
    "plug (Bin c2 l2 a2 r2) k2 = plug (Bin c1 l1 a1 r1) k1" "at_place cmp k2" "cmp a2 < 0 \<longrightarrow> r2 = Tip"
    "a2 = a1 \<and> k2 = k1 \<and> Bin c2 l2 a2 r2 = Bin c1 l1 a1 r1 \<or> ht (Bin c2 l2 a2 r2) < ht (Bin c1 l1 a1 r1)"
    using descend_right_ok [OF t1(1) refl t1(2) d1(3) h1] by blast
  have pl: "plug (Bin c2 l2 a2 r2) k2 = plug T k" using d1(2) d2(2) by simp
  have t2: "tree_is dat t (plug (Bin c2 l2 a2 r2) k2)" "probed dat cmpf v cmp (nodes (plug (Bin c2 l2 a2 r2) k2))"
    using Suc.prems(1,3) pl by simp_all
  note n2 = tree_is_node [OF t2(1)] and p2 = probed_Bin [OF probed_plug [OF t2(2)]]
  have nn: "nodes (plug T k) = knodes_l k2 @ nodes l2 @ a2 # nodes r2 @ knodes_r k2"
    by (simp add: nodes_plug flip: pl)
  have step: "rbtree_search_min_loop (Suc fuel) t v cmpf (root_of T) =
      (if cmp a2 = 0 then Inr a2
       else if cmp a2 < 0 \<and> root_of r2 = NULL then climb_min addr_fuel t v cmpf a2 (cmp a2)
       else if cmp a2 > 0 \<and> root_of l2 = NULL then Inr a2
       else rbtree_search_min_loop fuel t v cmpf a2)"
    using n0 p0 d1(1) d2(1) n2 unfolding T by simp
  consider "cmp a2 = 0" | "cmp a2 < 0" | "cmp a2 > 0" "l2 = Tip" | "cmp a2 > 0" "l2 \<noteq> Tip" by linarith
  then show ?case
  proof cases
    case 1
    then show ?thesis unfolding step by (auto simp: min_result_def nn)
  next
    case 2
    then have r2: "r2 = Tip" using d2(4) by simp
    have "length k2 < addr_fuel" using ctx_length_le [of k2 "Bin c2 l2 a2 r2"] tree_is_length [OF t2(1)] by simp
    then have nc: "climb_min addr_fuel t v cmpf a2 (cmp a2) =
        (if knodes_r k2 = [] then Inl Undef else Inr (hd (knodes_r k2)))"
      using climb_min_ok [OF t2(1) _ _ t2(2) d2(3), of addr_fuel] 2 by auto
    have lo: "\<forall>x \<in> set ((knodes_l k2 @ nodes l2) @ [a2]). cmp x < 0"
      using 2 p2(5) d2(3) by (auto simp: at_place_def)
    have n3: "nodes (plug T k) = ((knodes_l k2 @ nodes l2) @ [a2]) @ knodes_r k2" by (simp add: nn r2)
    show ?thesis
    proof (cases "knodes_r k2 = []")
      case True
      then show ?thesis unfolding step using nc 2 r2 lo n3 by simp
    next
      case False
      then have "0 < cmp (hd (knodes_r k2))" using d2(3) by (simp add: at_place_def)
      then have "min_result cmp (nodes (plug T k)) (hd (knodes_r k2))"
        unfolding n3 using min_result_hd [OF False _ lo] by blast
      then show ?thesis unfolding step using nc 2 r2 False by simp
    qed
  next
    case 3
    then have "min_result cmp (nodes (plug T k)) a2"
      using d2(3) unfolding min_result_def nn at_place_def
      by (intro disjI2 exI [of _ "knodes_l k2"] exI [of _ "nodes r2 @ knodes_r k2"]) simp
    then show ?thesis unfolding step using 3 by simp
  next
    case 4
    then have "root_of l2 \<noteq> NULL" using t2(1) by (cases l2) (auto simp: tree_is_plug)
    then have s: "rbtree_search_min_loop (Suc fuel) t v cmpf (root_of T) =
        rbtree_search_min_loop fuel t v cmpf (root_of (Bin c2 l2 a2 r2))"
      unfolding step using 4 by simp
    have "ht (Bin c2 l2 a2 r2) < ht (Bin c1 l1 a1 r1)" using d2(5) d1(4) 4 by auto
    then have "ht (Bin c2 l2 a2 r2) \<le> fuel" "ht (Bin c2 l2 a2 r2) < addr_fuel"
      using d1(5) Suc.prems(5) h1 by linarith+
    from Suc.IH [OF t2(1) _ t2(2) d2(3) this] show ?thesis
      unfolding s pl by simp
  qed
next
  case 0
  then show ?case by (cases T) auto
qed

lemma search_min_ok:
  assumes "tree_is dat t T" and "probed dat cmpf v cmp (nodes T)" and "v \<noteq> NULL"
  shows "if T = Tip then rbtree_search_min t v cmpf = Inr NULL
    else if \<exists>x \<in> set (nodes T). 0 \<le> cmp x
    then \<exists>n. rbtree_search_min t v cmpf = Inr n \<and> min_result cmp (nodes T) n
    else rbtree_search_min t v cmpf = Inl Undef"
proof (cases "T = Tip")
  case True
  obtain fu where fu: "addr_fuel = Suc fu" by (rule addr_fuel_Suc)
  have "rb_root t = NULL" using assms(1) True by (simp add: tree_is_def)
  then show ?thesis using assms(3) True unfolding rbtree_search_min_def fu by simp
next
  case False
  have "ht T < addr_fuel" using ht_le [of T] tree_is_length [OF assms(1)] by simp
  then have r: "rbtree_search_min_loop addr_fuel t v cmpf (root_of T) = Inl Undef \<and>
      (\<forall>x \<in> set (nodes T). cmp x < 0) \<or>
    (\<exists>n. rbtree_search_min_loop addr_fuel t v cmpf (root_of T) = Inr n \<and> min_result cmp (nodes T) n)"
    using search_min_loop_ok [of dat t T "[]" cmpf v cmp addr_fuel] assms False by (simp add: at_place_def)
  have "\<exists>x \<in> set (nodes T). 0 \<le> cmp x" if "min_result cmp (nodes T) n" for n
    using that by (auto simp: min_result_def intro!: bexI [of _ n])
  then show ?thesis
    using r assms(1,3) False by (fastforce simp: rbtree_search_min_def tree_is_def)
qed

lemma search_ok:
  assumes "tree_is dat t T" and "probed dat cmpf v cmp (nodes T)"
  shows "\<exists>n. rbtree_search t v cmpf = Inr n \<and>
    (n = NULL \<longrightarrow> (\<forall>x \<in> set (nodes T). cmp x \<noteq> 0)) \<and> (n \<noteq> NULL \<longrightarrow> n \<in> set (nodes T) \<and> cmp n = 0)"
  using search_loop_ok [of dat t NULL T cmpf v cmp addr_fuel] assms ht_le [of T] tree_is_length [OF assms(1)]
  by (simp add: rbtree_search_def tree_is_def)

text \<open>A sorted tree is fit for searching.\<close>

context tree_order
begin

lemma sorted_probed:
  assumes "sorted_tree key D dat T" and "v \<in> D"
  obtains cmp where "probed dat cmpf v cmp (nodes T)"
    "\<forall>x \<in> set (nodes T). (cmp x < 0 \<longleftrightarrow> key (dat x) < key v) \<and> (cmp x = 0 \<longleftrightarrow> key (dat x) = key v)"
proof -
  define cmp where "cmp x = (case cmpf (dat x) v of Inr c \<Rightarrow> c | Inl _ \<Rightarrow> 0)" for x
  have cmp: "cmpf (dat x) v = Inr (cmp x) \<and> (cmp x < 0 \<longleftrightarrow> key (dat x) < key v) \<and>
      (cmp x = 0 \<longleftrightarrow> key (dat x) = key v)" if "x \<in> set (nodes T)" for x
  proof -
    have "dat x \<in> D" using that assms(1) by (auto simp: sorted_tree_def)
    from cmp_law [OF this assms(2)] show ?thesis by (auto simp: cmp_def)
  qed
  have "sorted_wrt (\<lambda>x y. key (dat x) \<le> key (dat y)) (nodes T)"
    using assms(1) by (simp add: sorted_tree_def sorted_wrt_map)
  then have "sorted_wrt (\<lambda>x y. probe_le (cmp x) (cmp y)) (nodes T)"
  proof (rule sorted_wrt_mono_rel [rotated])
    fix x y
    assume xy: "x \<in> set (nodes T)" "y \<in> set (nodes T)" "key (dat x) \<le> key (dat y)"
    have pos: "0 < cmp z \<longleftrightarrow> key v < key (dat z)" if "z \<in> set (nodes T)" for z
      using cmp [OF that] by (cases "key v" "key (dat z)" rule: linorder_cases) auto
    show "probe_le (cmp x) (cmp y)"
      using pos [OF xy(1)] pos [OF xy(2)] cmp [OF xy(1)] cmp [OF xy(2)] xy(3)
      by (auto simp: probe_le_def)
  qed
  then show ?thesis using that [of cmp] cmp by (simp add: probed_def)
qed

lemma search_exact:
  assumes "tree_is dat t T" and "sorted_tree key D dat T" and "v \<in> D"
  shows "\<exists>n. rbtree_search t v cmpf = Inr n \<and>
    (if \<exists>x \<in> set (nodes T). key (dat x) = key v then n \<in> set (nodes T) \<and> key (dat n) = key v else n = NULL)"
proof -
  obtain cmp where "probed dat cmpf v cmp (nodes T)"
    "\<forall>x \<in> set (nodes T). (cmp x < 0 \<longleftrightarrow> key (dat x) < key v) \<and> (cmp x = 0 \<longleftrightarrow> key (dat x) = key v)"
    using sorted_probed [OF assms(2,3)] by blast
  then show ?thesis using search_ok [OF assms(1)] by fastforce
qed

lemma search_floor:
  assumes "tree_is dat t T" and "sorted_tree key D dat T" and "v \<in> D"
    and "v \<noteq> NULL"
  shows "\<exists>n. rbtree_search_max t v cmpf = Inr n \<and>
    (if \<exists>x \<in> set (nodes T). key (dat x) \<le> key v
     then n \<in> set (nodes T) \<and> key (dat n) \<le> key v \<and>
       (\<forall>x \<in> set (nodes T). key (dat x) \<le> key v \<longrightarrow> key (dat x) \<le> key (dat n))
     else n = NULL)"
proof -
  obtain cmp where pr: "probed dat cmpf v cmp (nodes T)" and
    cmp: "\<forall>x \<in> set (nodes T). (cmp x < 0 \<longleftrightarrow> key (dat x) < key v) \<and> (cmp x = 0 \<longleftrightarrow> key (dat x) = key v)"
    using sorted_probed [OF assms(2,3)] by blast
  have le: "cmp x \<le> 0 \<longleftrightarrow> key (dat x) \<le> key v" if "x \<in> set (nodes T)" for x
    using cmp that by (auto simp: le_less)
  obtain n where n: "rbtree_search_max t v cmpf = Inr n"
    "if \<exists>x \<in> set (nodes T). cmp x \<le> 0 then max_result cmp (nodes T) n else n = NULL"
    using search_max_ok [OF assms(1) pr assms(4)] by blast
  have "n \<in> set (nodes T) \<and> key (dat n) \<le> key v \<and>
      (\<forall>x \<in> set (nodes T). key (dat x) \<le> key v \<longrightarrow> key (dat x) \<le> key (dat n))"
    if "max_result cmp (nodes T) n"
    using that unfolding max_result_def
  proof (elim disjE exE conjE)
    assume "n \<in> set (nodes T)" "cmp n = 0"
    then show ?thesis using cmp by fastforce
  next
    fix ls rs
    assume T: "nodes T = ls @ n # rs" "cmp n < 0" "\<forall>x \<in> set rs. 0 < cmp x"
    have "key (dat x) \<le> key (dat n)" if x: "x \<in> set (nodes T)" "key (dat x) \<le> key v" for x
    proof -
      have "x \<notin> set rs" using le [OF x(1)] x(2) T(3) by fastforce
      then show ?thesis
        using x(1) assms(2) by (auto simp: sorted_tree_def T(1) sorted_append)
    qed
    then show ?thesis using T le [of n] by auto
  qed
  then show ?thesis using n le by (auto split: if_splits)
qed

end

end
