(* ===== verification/Rbtree_Delete.thy ===== *)
theory Rbtree_Delete
  imports Rbtree_Search
begin

text \<open>
  Deletion from the red-black tree. The repair loop gets a place whose subtree is about to lose
  one black node, and leaves a context that is red-black around a hole one lower.
\<close>

section \<open>The steps of the repair\<close>

lemma nodes_ne:
  assumes "tree_is dat t (plug T (f # k))" and "T \<noteq> Tip" and "x \<in> set (nodes (fsib f))"
  shows "x \<noteq> root_of T"
proof -
  have "root_of T \<in> set (nodes T)" using root_in_nodes assms(2) by blast
  then show ?thesis using tree_is_distinct [OF assms(1)] assms(3) by (cases f) (auto simp: nodes_plug)
qed

lemma delete_red_sibling_left:
  assumes tr: "tree_is dat t (plug T (FL RBTREE_BLACK p (Bin RBTREE_RED b y d) # k))" and T: "T \<noteq> Tip"
  shows "\<exists>t'. delete_red_sibling t (root_of T) p y = Inr (t', p, root_of b) \<and>
    tree_is dat t' (plug T (FL RBTREE_RED p b # FL RBTREE_BLACK y d # k))"
proof -
  have tp: "tree_is dat t (plug (Bin RBTREE_BLACK T p (Bin RBTREE_RED b y d)) k)" using tr by simp
  have ty: "tree_is dat t (plug (Bin RBTREE_RED b y d) (FR RBTREE_BLACK T p # k))" using tr by simp
  obtain t1 where t1: "rbt_rotate_left t p = Inr t1"
    "tree_is dat t1 (plug (Bin RBTREE_RED (Bin RBTREE_BLACK T p b) y d) k)"
    using rotate_left_ok [OF tp] by blast
  obtain t2 where t2: "rbt_set_colour t1 y RBTREE_BLACK = Inr t2"
    "tree_is dat t2 (plug (Bin RBTREE_BLACK (Bin RBTREE_BLACK T p b) y d) k)"
    using set_colour_ok [OF t1(2)] by blast
  have "tree_is dat t2 (plug (Bin RBTREE_BLACK T p b) (FL RBTREE_BLACK y d # k))" using t2(2) by simp
  then obtain t3 where t3: "rbt_set_colour t2 p RBTREE_RED = Inr t3"
    "tree_is dat t3 (plug (Bin RBTREE_RED T p b) (FL RBTREE_BLACK y d # k))"
    using set_colour_ok by blast
  have t3': "tree_is dat t3 (plug T (FL RBTREE_RED p b # FL RBTREE_BLACK y d # k))" using t3(2) by simp
  have ne: "y \<noteq> root_of T" by (rule nodes_ne [OF tr T]) simp
  have "delete_red_sibling t (root_of T) p y = Inr (t3, p, root_of b)"
    using tree_is_node [OF tp] tree_is_node [OF ty] ne t1(1) t2(1) t3(1) tree_parent [OF t3' T]
      get_sibling_ok [OF t3' T] by (simp add: delete_red_sibling_def)
  then show ?thesis using t3' by blast
qed

lemma delete_inner_child_left:
  assumes tr: "tree_is dat t (plug T (FL c p (Bin RBTREE_BLACK (Bin RBTREE_RED b1 z b2) y d) # k))"
    and T: "T \<noteq> Tip" and d: "col d = RBTREE_BLACK"
  shows "\<exists>t'. delete_inner_child t (root_of T) p y = Inr (t', p, z) \<and>
    tree_is dat t' (plug T (FL c p (Bin RBTREE_BLACK b1 z (Bin RBTREE_RED b2 y d)) # k))"
proof -
  let ?b = "Bin RBTREE_RED b1 z b2"
  have tp: "tree_is dat t (plug (Bin c T p (Bin RBTREE_BLACK ?b y d)) k)" using tr by simp
  have ty: "tree_is dat t (plug (Bin RBTREE_BLACK ?b y d) (FR c T p # k))" using tr by simp
  have tb: "tree_is dat t (plug ?b (FL RBTREE_BLACK y d # FR c T p # k))" using tr by simp
  have cd: "rbt_get_colour t (root_of d) = Inr RBTREE_BLACK"
    using tree_is_colour [of dat t d "FR RBTREE_BLACK ?b y # FR c T p # k"] tr d by simp
  obtain t1 where t1: "rbt_set_colour t y RBTREE_RED = Inr t1"
    "tree_is dat t1 (plug (Bin RBTREE_RED ?b y d) (FR c T p # k))"
    using set_colour_ok [OF ty] by blast
  have "tree_is dat t1 (plug ?b (FL RBTREE_RED y d # FR c T p # k))" using t1(2) by simp
  then obtain t2 where t2: "rbt_set_colour t1 z RBTREE_BLACK = Inr t2"
    "tree_is dat t2 (plug (Bin RBTREE_BLACK b1 z b2) (FL RBTREE_RED y d # FR c T p # k))"
    using set_colour_ok by blast
  have "tree_is dat t2 (plug (Bin RBTREE_RED (Bin RBTREE_BLACK b1 z b2) y d) (FR c T p # k))"
    using t2(2) by simp
  then obtain t3 where t3: "rbt_rotate_right t2 y = Inr t3"
    "tree_is dat t3 (plug (Bin RBTREE_BLACK b1 z (Bin RBTREE_RED b2 y d)) (FR c T p # k))"
    using rotate_right_ok by blast
  have t3': "tree_is dat t3 (plug T (FL c p (Bin RBTREE_BLACK b1 z (Bin RBTREE_RED b2 y d)) # k))"
    using t3(2) by simp
  have ne: "y \<noteq> root_of T" by (rule nodes_ne [OF tr T]) simp
  have "delete_inner_child t (root_of T) p y = Inr (t3, p, z)"
    using tree_is_node [OF tp] tree_is_node [OF ty] tree_is_node [OF tb] cd ne t1(1) t2(1) t3(1)
      tree_parent [OF t3' T] get_sibling_ok [OF t3' T]
    by (simp add: delete_inner_child_def child_colours_def)
  then show ?thesis using t3' by blast
qed

lemma delete_inner_child_left_none:
  assumes tr: "tree_is dat t (plug T (FL c p (Bin RBTREE_BLACK b y d) # k))"
    and T: "T \<noteq> Tip" and d: "col d = RBTREE_RED"
  shows "delete_inner_child t (root_of T) p y = Inr (t, p, y)"
proof -
  have tp: "tree_is dat t (plug (Bin c T p (Bin RBTREE_BLACK b y d)) k)" using tr by simp
  have ty: "tree_is dat t (plug (Bin RBTREE_BLACK b y d) (FR c T p # k))" using tr by simp
  have cd: "rbt_get_colour t (root_of d) = Inr RBTREE_RED" "rbt_get_colour t (root_of b) = Inr (col b)"
    using tree_is_colour [of dat t d "FR RBTREE_BLACK b y # FR c T p # k"]
      tree_is_colour [of dat t b "FL RBTREE_BLACK y d # FR c T p # k"] tr d by simp_all
  have ne: "y \<noteq> root_of T" by (rule nodes_ne [OF tr T]) simp
  show ?thesis
    using tree_is_node [OF tp] tree_is_node [OF ty] cd ne tree_parent [OF tr T] get_sibling_ok [OF tr T]
    by (simp add: delete_inner_child_def child_colours_def)
qed

lemma delete_outer_child_left:
  assumes tr: "tree_is dat t (plug T (FL c p (Bin RBTREE_BLACK b y (Bin RBTREE_RED d1 w d2)) # k))"
    and T: "T \<noteq> Tip"
  shows "\<exists>t'. delete_outer_child t (root_of T) p y = Inr t' \<and>
    tree_is dat t' (plug T (FL RBTREE_BLACK p b # FL c y (Bin RBTREE_BLACK d1 w d2) # k))"
proof -
  let ?d = "Bin RBTREE_RED d1 w d2"
  have tp: "tree_is dat t (plug (Bin c T p (Bin RBTREE_BLACK b y ?d)) k)" using tr by simp
  have ty: "tree_is dat t (plug (Bin RBTREE_BLACK b y ?d) (FR c T p # k))" using tr by simp
  have td: "tree_is dat t (plug ?d (FR RBTREE_BLACK b y # FR c T p # k))" using tr by simp
  have cb: "rbt_get_colour t (root_of b) = Inr (col b)"
    using tree_is_colour [of dat t b "FL RBTREE_BLACK y ?d # FR c T p # k"] tr by simp
  obtain t1 where t1: "rbt_set_colour t y c = Inr t1"
    "tree_is dat t1 (plug (Bin c b y ?d) (FR c T p # k))"
    using set_colour_ok [OF ty] by blast
  have "tree_is dat t1 (plug (Bin c T p (Bin c b y ?d)) k)" using t1(2) by simp
  then obtain t2 where t2: "rbt_set_colour t1 p RBTREE_BLACK = Inr t2"
    "tree_is dat t2 (plug (Bin RBTREE_BLACK T p (Bin c b y ?d)) k)"
    using set_colour_ok by blast
  have ty2: "tree_is dat t2 (plug (Bin c b y ?d) (FR RBTREE_BLACK T p # k))" using t2(2) by simp
  have td2: "tree_is dat t2 (plug ?d (FR c b y # FR RBTREE_BLACK T p # k))" using t2(2) by simp
  have cb2: "rbt_get_colour t2 (root_of b) = Inr (col b)"
    using tree_is_colour [of dat t2 b "FL c y ?d # FR RBTREE_BLACK T p # k"] t2(2) by simp
  obtain t3 where t3: "rbt_set_colour t2 w RBTREE_BLACK = Inr t3"
    "tree_is dat t3 (plug (Bin RBTREE_BLACK d1 w d2) (FR c b y # FR RBTREE_BLACK T p # k))"
    using set_colour_ok [OF td2] by blast
  have "tree_is dat t3 (plug (Bin RBTREE_BLACK T p (Bin c b y (Bin RBTREE_BLACK d1 w d2))) k)"
    using t3(2) by simp
  then obtain t4 where t4: "rbt_rotate_left t3 p = Inr t4"
    "tree_is dat t4 (plug (Bin c (Bin RBTREE_BLACK T p b) y (Bin RBTREE_BLACK d1 w d2)) k)"
    using rotate_left_ok by blast
  have ne: "y \<noteq> root_of T" by (rule nodes_ne [OF tr T]) simp
  have "delete_outer_child t (root_of T) p y = Inr t4"
    using tree_is_node [OF tp] tree_is_node [OF ty] tree_is_node [OF td] cb ne t1(1) t2(1) t3(1) t4(1)
      tree_is_node [OF t2(2)] tree_is_node [OF ty2] tree_is_node [OF td2] cb2
    by (simp add: delete_outer_child_def child_colours_def)
  then show ?thesis using t4(2) by auto
qed

lemma delete_red_sibling_right:
  assumes tr: "tree_is dat t (plug T (FR RBTREE_BLACK (Bin RBTREE_RED d y b) p # k))" and T: "T \<noteq> Tip"
  shows "\<exists>t'. delete_red_sibling t (root_of T) p y = Inr (t', p, root_of b) \<and>
    tree_is dat t' (plug T (FR RBTREE_RED b p # FR RBTREE_BLACK d y # k))"
proof -
  have tp: "tree_is dat t (plug (Bin RBTREE_BLACK (Bin RBTREE_RED d y b) p T) k)" using tr by simp
  have ty: "tree_is dat t (plug (Bin RBTREE_RED d y b) (FL RBTREE_BLACK p T # k))" using tr by simp
  obtain t1 where t1: "rbt_rotate_right t p = Inr t1"
    "tree_is dat t1 (plug (Bin RBTREE_RED d y (Bin RBTREE_BLACK b p T)) k)"
    using rotate_right_ok [OF tp] by blast
  obtain t2 where t2: "rbt_set_colour t1 y RBTREE_BLACK = Inr t2"
    "tree_is dat t2 (plug (Bin RBTREE_BLACK d y (Bin RBTREE_BLACK b p T)) k)"
    using set_colour_ok [OF t1(2)] by blast
  have "tree_is dat t2 (plug (Bin RBTREE_BLACK b p T) (FR RBTREE_BLACK d y # k))" using t2(2) by simp
  then obtain t3 where t3: "rbt_set_colour t2 p RBTREE_RED = Inr t3"
    "tree_is dat t3 (plug (Bin RBTREE_RED b p T) (FR RBTREE_BLACK d y # k))"
    using set_colour_ok by blast
  have t3': "tree_is dat t3 (plug T (FR RBTREE_RED b p # FR RBTREE_BLACK d y # k))" using t3(2) by simp
  have ne: "y \<noteq> root_of T" by (rule nodes_ne [OF tr T]) simp
  have "delete_red_sibling t (root_of T) p y = Inr (t3, p, root_of b)"
    using tree_is_node [OF tp] tree_is_node [OF ty] ne t1(1) t2(1) t3(1) tree_parent [OF t3' T]
      get_sibling_ok [OF t3' T] by (simp add: delete_red_sibling_def)
  then show ?thesis using t3' by blast
qed

lemma delete_inner_child_right:
  assumes tr: "tree_is dat t (plug T (FR c (Bin RBTREE_BLACK d y (Bin RBTREE_RED b2 z b1)) p # k))"
    and T: "T \<noteq> Tip" and d: "col d = RBTREE_BLACK"
  shows "\<exists>t'. delete_inner_child t (root_of T) p y = Inr (t', p, z) \<and>
    tree_is dat t' (plug T (FR c (Bin RBTREE_BLACK (Bin RBTREE_RED d y b2) z b1) p # k))"
proof -
  let ?b = "Bin RBTREE_RED b2 z b1"
  have tp: "tree_is dat t (plug (Bin c (Bin RBTREE_BLACK d y ?b) p T) k)" using tr by simp
  have ty: "tree_is dat t (plug (Bin RBTREE_BLACK d y ?b) (FL c p T # k))" using tr by simp
  have tb: "tree_is dat t (plug ?b (FR RBTREE_BLACK d y # FL c p T # k))" using tr by simp
  have cd: "rbt_get_colour t (root_of d) = Inr RBTREE_BLACK"
    using tree_is_colour [of dat t d "FL RBTREE_BLACK y ?b # FL c p T # k"] tr d by simp
  obtain t1 where t1: "rbt_set_colour t y RBTREE_RED = Inr t1"
    "tree_is dat t1 (plug (Bin RBTREE_RED d y ?b) (FL c p T # k))"
    using set_colour_ok [OF ty] by blast
  have "tree_is dat t1 (plug ?b (FR RBTREE_RED d y # FL c p T # k))" using t1(2) by simp
  then obtain t2 where t2: "rbt_set_colour t1 z RBTREE_BLACK = Inr t2"
    "tree_is dat t2 (plug (Bin RBTREE_BLACK b2 z b1) (FR RBTREE_RED d y # FL c p T # k))"
    using set_colour_ok by blast
  have "tree_is dat t2 (plug (Bin RBTREE_RED d y (Bin RBTREE_BLACK b2 z b1)) (FL c p T # k))"
    using t2(2) by simp
  then obtain t3 where t3: "rbt_rotate_left t2 y = Inr t3"
    "tree_is dat t3 (plug (Bin RBTREE_BLACK (Bin RBTREE_RED d y b2) z b1) (FL c p T # k))"
    using rotate_left_ok by blast
  have t3': "tree_is dat t3 (plug T (FR c (Bin RBTREE_BLACK (Bin RBTREE_RED d y b2) z b1) p # k))"
    using t3(2) by simp
  have ne: "y \<noteq> root_of T" by (rule nodes_ne [OF tr T]) simp
  have "delete_inner_child t (root_of T) p y = Inr (t3, p, z)"
    using tree_is_node [OF tp] tree_is_node [OF ty] tree_is_node [OF tb] cd ne t1(1) t2(1) t3(1)
      tree_parent [OF t3' T] get_sibling_ok [OF t3' T]
    by (simp add: delete_inner_child_def child_colours_def)
  then show ?thesis using t3' by blast
qed

lemma delete_inner_child_right_none:
  assumes tr: "tree_is dat t (plug T (FR c (Bin RBTREE_BLACK d y b) p # k))"
    and T: "T \<noteq> Tip" and d: "col d = RBTREE_RED"
  shows "delete_inner_child t (root_of T) p y = Inr (t, p, y)"
proof -
  have tp: "tree_is dat t (plug (Bin c (Bin RBTREE_BLACK d y b) p T) k)" using tr by simp
  have ty: "tree_is dat t (plug (Bin RBTREE_BLACK d y b) (FL c p T # k))" using tr by simp
  have cd: "rbt_get_colour t (root_of d) = Inr RBTREE_RED" "rbt_get_colour t (root_of b) = Inr (col b)"
    using tree_is_colour [of dat t d "FL RBTREE_BLACK y b # FL c p T # k"]
      tree_is_colour [of dat t b "FR RBTREE_BLACK d y # FL c p T # k"] tr d by simp_all
  have ne: "y \<noteq> root_of T" by (rule nodes_ne [OF tr T]) simp
  show ?thesis
    using tree_is_node [OF tp] tree_is_node [OF ty] cd ne tree_parent [OF tr T] get_sibling_ok [OF tr T]
    by (simp add: delete_inner_child_def child_colours_def)
qed

lemma delete_outer_child_right:
  assumes tr: "tree_is dat t (plug T (FR c (Bin RBTREE_BLACK (Bin RBTREE_RED d2 w d1) y b) p # k))"
    and T: "T \<noteq> Tip"
  shows "\<exists>t'. delete_outer_child t (root_of T) p y = Inr t' \<and>
    tree_is dat t' (plug T (FR RBTREE_BLACK b p # FR c (Bin RBTREE_BLACK d2 w d1) y # k))"
proof -
  let ?d = "Bin RBTREE_RED d2 w d1"
  have tp: "tree_is dat t (plug (Bin c (Bin RBTREE_BLACK ?d y b) p T) k)" using tr by simp
  have ty: "tree_is dat t (plug (Bin RBTREE_BLACK ?d y b) (FL c p T # k))" using tr by simp
  have td: "tree_is dat t (plug ?d (FL RBTREE_BLACK y b # FL c p T # k))" using tr by simp
  have cb: "rbt_get_colour t (root_of b) = Inr (col b)"
    using tree_is_colour [of dat t b "FR RBTREE_BLACK ?d y # FL c p T # k"] tr by simp
  obtain t1 where t1: "rbt_set_colour t y c = Inr t1"
    "tree_is dat t1 (plug (Bin c ?d y b) (FL c p T # k))"
    using set_colour_ok [OF ty] by blast
  have "tree_is dat t1 (plug (Bin c (Bin c ?d y b) p T) k)" using t1(2) by simp
  then obtain t2 where t2: "rbt_set_colour t1 p RBTREE_BLACK = Inr t2"
    "tree_is dat t2 (plug (Bin RBTREE_BLACK (Bin c ?d y b) p T) k)"
    using set_colour_ok by blast
  have ty2: "tree_is dat t2 (plug (Bin c ?d y b) (FL RBTREE_BLACK p T # k))" using t2(2) by simp
  have td2: "tree_is dat t2 (plug ?d (FL c y b # FL RBTREE_BLACK p T # k))" using t2(2) by simp
  have cb2: "rbt_get_colour t2 (root_of b) = Inr (col b)"
    using tree_is_colour [of dat t2 b "FR c ?d y # FL RBTREE_BLACK p T # k"] t2(2) by simp
  obtain t3 where t3: "rbt_set_colour t2 w RBTREE_BLACK = Inr t3"
    "tree_is dat t3 (plug (Bin RBTREE_BLACK d2 w d1) (FL c y b # FL RBTREE_BLACK p T # k))"
    using set_colour_ok [OF td2] by blast
  have "tree_is dat t3 (plug (Bin RBTREE_BLACK (Bin c (Bin RBTREE_BLACK d2 w d1) y b) p T) k)"
    using t3(2) by simp
  then obtain t4 where t4: "rbt_rotate_right t3 p = Inr t4"
    "tree_is dat t4 (plug (Bin c (Bin RBTREE_BLACK d2 w d1) y (Bin RBTREE_BLACK b p T)) k)"
    using rotate_right_ok by blast
  have ne: "y \<noteq> root_of T" by (rule nodes_ne [OF tr T]) simp
  have "delete_outer_child t (root_of T) p y = Inr t4"
    using tree_is_node [OF tp] tree_is_node [OF ty] tree_is_node [OF td] cb ne t1(1) t2(1) t3(1) t4(1)
      tree_is_node [OF t2(2)] tree_is_node [OF ty2] tree_is_node [OF td2] cb2
    by (simp add: delete_outer_child_def child_colours_def)
  then show ?thesis using t4(2) by auto
qed

section \<open>The repair loop\<close>

text \<open>The rest of a round of the loop, once the sibling is black.\<close>

definition delete_rest :: "nat \<Rightarrow> rbtree \<Rightarrow> addr \<Rightarrow> addr \<Rightarrow> addr \<Rightarrow> rbtree kres" where
  "delete_rest fuel t node parent sibling =
     kbind (child_colours t sibling) (\<lambda>(lc, rc).
     kbind (rbt_get_colour t sibling) (\<lambda>sc.
     if sc = RBTREE_BLACK \<and> lc = RBTREE_BLACK \<and> rc = RBTREE_BLACK
     then kbind (rbt_get_colour t parent) (\<lambda>pc.
       if pc = RBTREE_BLACK
       then kbind (rbt_set_colour t sibling RBTREE_RED) (\<lambda>t.
         kbind (rbt_get_parent t node) (\<lambda>p. rbt_delete_fix_loop fuel t p))
       else kbind (rbt_set_colour t sibling RBTREE_RED) (\<lambda>t.
         rbt_set_colour t parent RBTREE_BLACK))
     else kbind (delete_inner_child t node parent sibling) (\<lambda>(t, parent, sibling).
       delete_outer_child t node parent sibling)))"

lemma delete_fix_loop_rest:
  "rbt_delete_fix_loop (Suc fuel) t node =
     kbind (rbt_get_parent t node) (\<lambda>parent. if parent = NULL then Inr t
       else kbind (rbt_get_sibling t node) (\<lambda>sibling.
         kbind (delete_red_sibling t node parent sibling) (\<lambda>(t, parent, sibling).
           delete_rest fuel t node parent sibling)))"
  unfolding rbt_delete_fix_loop.simps delete_rest_def by (rule refl)

text \<open>A black sibling, the hole on the left: the repair ends, unless all that is known is black.\<close>

lemma delete_rest_black_left:
  assumes tr: "tree_is dat t (plug T (FL c p (Bin RBTREE_BLACK b y d) # k))" and T: "T \<noteq> Tip"
    and all: "col b = RBTREE_BLACK" "col d = RBTREE_BLACK"
  shows "\<exists>t'. tree_is dat t' (plug T (FL RBTREE_BLACK p (Bin RBTREE_RED b y d) # k)) \<and>
    delete_rest fuel t (root_of T) p y =
      (if c = RBTREE_BLACK then rbt_delete_fix_loop fuel t' p else Inr t')"
proof -
  have tp: "tree_is dat t (plug (Bin c T p (Bin RBTREE_BLACK b y d)) k)" using tr by simp
  have ty: "tree_is dat t (plug (Bin RBTREE_BLACK b y d) (FR c T p # k))" using tr by simp
  have cd: "rbt_get_colour t (root_of d) = Inr RBTREE_BLACK" "rbt_get_colour t (root_of b) = Inr RBTREE_BLACK"
    using tree_is_colour [of dat t d "FR RBTREE_BLACK b y # FR c T p # k"]
      tree_is_colour [of dat t b "FL RBTREE_BLACK y d # FR c T p # k"] tr all by simp_all
  obtain t1 where t1: "rbt_set_colour t y RBTREE_RED = Inr t1"
    "tree_is dat t1 (plug (Bin RBTREE_RED b y d) (FR c T p # k))"
    using set_colour_ok [OF ty] by blast
  have t1': "tree_is dat t1 (plug T (FL c p (Bin RBTREE_RED b y d) # k))" using t1(2) by simp
  have "tree_is dat t1 (plug (Bin c T p (Bin RBTREE_RED b y d)) k)" using t1(2) by simp
  then obtain t2 where t2: "rbt_set_colour t1 p RBTREE_BLACK = Inr t2"
    "tree_is dat t2 (plug (Bin RBTREE_BLACK T p (Bin RBTREE_RED b y d)) k)"
    using set_colour_ok by blast
  show ?thesis
  proof (cases c)
    case RBTREE_BLACK
    then have "delete_rest fuel t (root_of T) p y = rbt_delete_fix_loop fuel t1 p"
      using tree_is_node [OF tp] tree_is_node [OF ty] cd t1(1) tree_parent [OF t1' T]
      by (simp add: delete_rest_def child_colours_def)
    then show ?thesis using t1' RBTREE_BLACK by auto
  next
    case RBTREE_RED
    then have "delete_rest fuel t (root_of T) p y = Inr t2"
      using tree_is_node [OF tp] tree_is_node [OF ty] cd t1(1) t2(1)
      by (simp add: delete_rest_def child_colours_def)
    then show ?thesis using t2(2) RBTREE_RED by auto
  qed
qed

lemma delete_rest_red_left:
  assumes tr: "tree_is dat t (plug T (FL c p (Bin RBTREE_BLACK b y d) # k))" and T: "T \<noteq> Tip"
    and red: "col b = RBTREE_RED \<or> col d = RBTREE_RED"
    and ok: "ctx_ok (Suc m) (FL c p (Bin RBTREE_BLACK b y d) # k)"
  shows "\<exists>t' k'. delete_rest fuel t (root_of T) p y = Inr t' \<and> tree_is dat t' (plug T k') \<and> ctx_ok m k' \<and>
    (\<forall>X. nodes (plug X k') = nodes (plug X (FL c p (Bin RBTREE_BLACK b y d) # k)))"
proof -
  have ty: "tree_is dat t (plug (Bin RBTREE_BLACK b y d) (FR c T p # k))" using tr by simp
  have cd: "rbt_get_colour t (root_of d) = Inr (col d)" "rbt_get_colour t (root_of b) = Inr (col b)"
    using tree_is_colour [of dat t d "FR RBTREE_BLACK b y # FR c T p # k"]
      tree_is_colour [of dat t b "FL RBTREE_BLACK y d # FR c T p # k"] tr by simp_all
  have rest: "delete_rest fuel t (root_of T) p y = kbind (delete_inner_child t (root_of T) p y)
      (\<lambda>(t, parent, sibling). delete_outer_child t (root_of T) parent sibling)"
    using tree_is_node [OF ty] cd red by (auto simp: delete_rest_def child_colours_def)
  show ?thesis
  proof (cases "col d")
    case dR: RBTREE_RED
    then obtain d1 w d2 where d: "d = Bin RBTREE_RED d1 w d2" by (cases d) auto
    obtain t' where t': "delete_outer_child t (root_of T) p y = Inr t'"
      "tree_is dat t' (plug T (FL RBTREE_BLACK p b # FL c y (Bin RBTREE_BLACK d1 w d2) # k))"
      using delete_outer_child_left [OF tr [unfolded d] T] by blast
    have "ctx_ok m (FL RBTREE_BLACK p b # FL c y (Bin RBTREE_BLACK d1 w d2) # k)"
      using ok d by (cases c) auto
    moreover have "\<forall>X. nodes (plug X (FL RBTREE_BLACK p b # FL c y (Bin RBTREE_BLACK d1 w d2) # k)) =
        nodes (plug X (FL c p (Bin RBTREE_BLACK b y d) # k))" using d by (simp add: nodes_plug)
    ultimately show ?thesis
      using t' delete_inner_child_left_none [OF tr T dR] unfolding rest by fastforce
  next
    case dB: RBTREE_BLACK
    then obtain b1 z b2 where b: "b = Bin RBTREE_RED b1 z b2" using red by (cases b) auto
    obtain t1 where t1: "delete_inner_child t (root_of T) p y = Inr (t1, p, z)"
      "tree_is dat t1 (plug T (FL c p (Bin RBTREE_BLACK b1 z (Bin RBTREE_RED b2 y d)) # k))"
      using delete_inner_child_left [OF tr [unfolded b] T dB] by blast
    obtain t' where t': "delete_outer_child t1 (root_of T) p z = Inr t'"
      "tree_is dat t' (plug T (FL RBTREE_BLACK p b1 # FL c z (Bin RBTREE_BLACK b2 y d) # k))"
      using delete_outer_child_left [OF t1(2) T] by blast
    have "ctx_ok m (FL RBTREE_BLACK p b1 # FL c z (Bin RBTREE_BLACK b2 y d) # k)"
      using ok b by (cases c) auto
    moreover have "\<forall>X. nodes (plug X (FL RBTREE_BLACK p b1 # FL c z (Bin RBTREE_BLACK b2 y d) # k)) =
        nodes (plug X (FL c p (Bin RBTREE_BLACK b y d) # k))" using b by (simp add: nodes_plug)
    ultimately show ?thesis using t' t1(1) unfolding rest by fastforce
  qed
qed

text \<open>A black sibling, the hole on the right: the repair ends, unless all that is known is black.\<close>

lemma delete_rest_black_right:
  assumes tr: "tree_is dat t (plug T (FR c (Bin RBTREE_BLACK d y b) p # k))" and T: "T \<noteq> Tip"
    and all: "col b = RBTREE_BLACK" "col d = RBTREE_BLACK"
  shows "\<exists>t'. tree_is dat t' (plug T (FR RBTREE_BLACK (Bin RBTREE_RED d y b) p # k)) \<and>
    delete_rest fuel t (root_of T) p y =
      (if c = RBTREE_BLACK then rbt_delete_fix_loop fuel t' p else Inr t')"
proof -
  have tp: "tree_is dat t (plug (Bin c (Bin RBTREE_BLACK d y b) p T) k)" using tr by simp
  have ty: "tree_is dat t (plug (Bin RBTREE_BLACK d y b) (FL c p T # k))" using tr by simp
  have cd: "rbt_get_colour t (root_of d) = Inr RBTREE_BLACK" "rbt_get_colour t (root_of b) = Inr RBTREE_BLACK"
    using tree_is_colour [of dat t d "FL RBTREE_BLACK y b # FL c p T # k"]
      tree_is_colour [of dat t b "FR RBTREE_BLACK d y # FL c p T # k"] tr all by simp_all
  obtain t1 where t1: "rbt_set_colour t y RBTREE_RED = Inr t1"
    "tree_is dat t1 (plug (Bin RBTREE_RED d y b) (FL c p T # k))"
    using set_colour_ok [OF ty] by blast
  have t1': "tree_is dat t1 (plug T (FR c (Bin RBTREE_RED d y b) p # k))" using t1(2) by simp
  have "tree_is dat t1 (plug (Bin c (Bin RBTREE_RED d y b) p T) k)" using t1(2) by simp
  then obtain t2 where t2: "rbt_set_colour t1 p RBTREE_BLACK = Inr t2"
    "tree_is dat t2 (plug (Bin RBTREE_BLACK (Bin RBTREE_RED d y b) p T) k)"
    using set_colour_ok by blast
  show ?thesis
  proof (cases c)
    case RBTREE_BLACK
    then have "delete_rest fuel t (root_of T) p y = rbt_delete_fix_loop fuel t1 p"
      using tree_is_node [OF tp] tree_is_node [OF ty] cd t1(1) tree_parent [OF t1' T]
      by (simp add: delete_rest_def child_colours_def)
    then show ?thesis using t1' RBTREE_BLACK by auto
  next
    case RBTREE_RED
    then have "delete_rest fuel t (root_of T) p y = Inr t2"
      using tree_is_node [OF tp] tree_is_node [OF ty] cd t1(1) t2(1)
      by (simp add: delete_rest_def child_colours_def)
    then show ?thesis using t2(2) RBTREE_RED by auto
  qed
qed

lemma delete_rest_red_right:
  assumes tr: "tree_is dat t (plug T (FR c (Bin RBTREE_BLACK d y b) p # k))" and T: "T \<noteq> Tip"
    and red: "col b = RBTREE_RED \<or> col d = RBTREE_RED"
    and ok: "ctx_ok (Suc m) (FR c (Bin RBTREE_BLACK d y b) p # k)"
  shows "\<exists>t' k'. delete_rest fuel t (root_of T) p y = Inr t' \<and> tree_is dat t' (plug T k') \<and> ctx_ok m k' \<and>
    (\<forall>X. nodes (plug X k') = nodes (plug X (FR c (Bin RBTREE_BLACK d y b) p # k)))"
proof -
  have ty: "tree_is dat t (plug (Bin RBTREE_BLACK d y b) (FL c p T # k))" using tr by simp
  have cd: "rbt_get_colour t (root_of d) = Inr (col d)" "rbt_get_colour t (root_of b) = Inr (col b)"
    using tree_is_colour [of dat t d "FL RBTREE_BLACK y b # FL c p T # k"]
      tree_is_colour [of dat t b "FR RBTREE_BLACK d y # FL c p T # k"] tr by simp_all
  have rest: "delete_rest fuel t (root_of T) p y = kbind (delete_inner_child t (root_of T) p y)
      (\<lambda>(t, parent, sibling). delete_outer_child t (root_of T) parent sibling)"
    using tree_is_node [OF ty] cd red by (auto simp: delete_rest_def child_colours_def)
  show ?thesis
  proof (cases "col d")
    case dR: RBTREE_RED
    then obtain d1 w d2 where d: "d = Bin RBTREE_RED d2 w d1" by (cases d) auto
    obtain t' where t': "delete_outer_child t (root_of T) p y = Inr t'"
      "tree_is dat t' (plug T (FR RBTREE_BLACK b p # FR c (Bin RBTREE_BLACK d2 w d1) y # k))"
      using delete_outer_child_right [OF tr [unfolded d] T] by blast
    have "ctx_ok m (FR RBTREE_BLACK b p # FR c (Bin RBTREE_BLACK d2 w d1) y # k)"
      using ok d by (cases c) auto
    moreover have "\<forall>X. nodes (plug X (FR RBTREE_BLACK b p # FR c (Bin RBTREE_BLACK d2 w d1) y # k)) =
        nodes (plug X (FR c (Bin RBTREE_BLACK d y b) p # k))" using d by (simp add: nodes_plug)
    ultimately show ?thesis
      using t' delete_inner_child_right_none [OF tr T dR] unfolding rest by fastforce
  next
    case dB: RBTREE_BLACK
    then obtain b1 z b2 where b: "b = Bin RBTREE_RED b2 z b1" using red by (cases b) auto
    obtain t1 where t1: "delete_inner_child t (root_of T) p y = Inr (t1, p, z)"
      "tree_is dat t1 (plug T (FR c (Bin RBTREE_BLACK (Bin RBTREE_RED d y b2) z b1) p # k))"
      using delete_inner_child_right [OF tr [unfolded b] T dB] by blast
    obtain t' where t': "delete_outer_child t1 (root_of T) p z = Inr t'"
      "tree_is dat t' (plug T (FR RBTREE_BLACK b1 p # FR c (Bin RBTREE_BLACK d y b2) z # k))"
      using delete_outer_child_right [OF t1(2) T] by blast
    have "ctx_ok m (FR RBTREE_BLACK b1 p # FR c (Bin RBTREE_BLACK d y b2) z # k)"
      using ok b by (cases c) auto
    moreover have "\<forall>X. nodes (plug X (FR RBTREE_BLACK b1 p # FR c (Bin RBTREE_BLACK d y b2) z # k)) =
        nodes (plug X (FR c (Bin RBTREE_BLACK d y b) p # k))" using b by (simp add: nodes_plug)
    ultimately show ?thesis using t' t1(1) unfolding rest by fastforce
  qed
qed

lemma delete_rest_stop_left:
  assumes tr: "tree_is dat t (plug T (FL RBTREE_RED p (Bin RBTREE_BLACK b y d) # k))" and T: "T \<noteq> Tip"
    and ok: "ctx_ok (Suc m) (FL RBTREE_RED p (Bin RBTREE_BLACK b y d) # k)"
  shows "\<exists>t' k'. delete_rest fuel t (root_of T) p y = Inr t' \<and> tree_is dat t' (plug T k') \<and> ctx_ok m k' \<and>
    (\<forall>X. nodes (plug X k') = nodes (plug X (FL RBTREE_RED p (Bin RBTREE_BLACK b y d) # k)))"
proof (cases "col b = RBTREE_RED \<or> col d = RBTREE_RED")
  case True
  then show ?thesis by (rule delete_rest_red_left [OF tr T _ ok])
next
  case False
  then have bl: "col b = RBTREE_BLACK" "col d = RBTREE_BLACK" by (simp_all add: colour_cases)
  obtain t' where "tree_is dat t' (plug T (FL RBTREE_BLACK p (Bin RBTREE_RED b y d) # k))"
    "delete_rest fuel t (root_of T) p y = Inr t'"
    using delete_rest_black_left [OF tr T bl, of fuel] by auto
  moreover have "ctx_ok m (FL RBTREE_BLACK p (Bin RBTREE_RED b y d) # k)" using ok bl by auto
  moreover have "\<forall>X. nodes (plug X (FL RBTREE_BLACK p (Bin RBTREE_RED b y d) # k)) =
      nodes (plug X (FL RBTREE_RED p (Bin RBTREE_BLACK b y d) # k))" by (simp add: nodes_plug)
  ultimately show ?thesis by blast
qed

lemma delete_fix_step_left:
  assumes tr: "tree_is dat t (plug T (FL c p s # k))" and T: "T \<noteq> Tip"
    and ok: "ctx_ok (Suc m) (FL c p s # k)"
    and IH: "\<And>t'' P. tree_is dat t'' (plug P k) \<Longrightarrow> P \<noteq> Tip \<Longrightarrow> ctx_ok (Suc (Suc m)) k \<Longrightarrow>
      \<exists>t' k'. rbt_delete_fix_loop fuel t'' (root_of P) = Inr t' \<and> tree_is dat t' (plug P k') \<and>
        ctx_ok (Suc m) k' \<and> (\<forall>X. nodes (plug X k') = nodes (plug X k))"
  shows "\<exists>t' k'. rbt_delete_fix_loop (Suc fuel) t (root_of T) = Inr t' \<and> tree_is dat t' (plug T k') \<and>
    ctx_ok m k' \<and> (\<forall>X. nodes (plug X k') = nodes (plug X (FL c p s # k)))"
proof -
  note tp = tree_parent [OF tr T] and gs = get_sibling_ok [OF tr T] and fn = frame_node [OF tr]
  obtain sc b y d where s: "s = Bin sc b y d" using ok by (cases s) auto
  note sib = sibling_colour [OF tr, unfolded s, simplified]
  have loop: "rbt_delete_fix_loop (Suc fuel) t (root_of T) = kbind (delete_red_sibling t (root_of T) p y)
      (\<lambda>(t, parent, sibling). delete_rest fuel t (root_of T) parent sibling)"
    unfolding delete_fix_loop_rest using tp gs fn s by simp
  show ?thesis
  proof (cases sc)
    case RBTREE_RED
    then have c: "c = RBTREE_BLACK" using ok s by (cases c) auto
    obtain b1 z b2 where b: "b = Bin RBTREE_BLACK b1 z b2" using ok s RBTREE_RED by (cases b) auto
    obtain t1 where t1: "delete_red_sibling t (root_of T) p y = Inr (t1, p, z)"
      "tree_is dat t1 (plug T (FL RBTREE_RED p b # FL RBTREE_BLACK y d # k))"
      using delete_red_sibling_left [of dat t T p b y d k] tr T s RBTREE_RED c b by auto
    have "ctx_ok (Suc m) (FL RBTREE_RED p b # FL RBTREE_BLACK y d # k)" using ok s RBTREE_RED c b by auto
    from delete_rest_stop_left [OF t1(2) [unfolded b] T this [unfolded b], of fuel]
    obtain t' k' where "delete_rest fuel t1 (root_of T) p z = Inr t'" "tree_is dat t' (plug T k')" "ctx_ok m k'"
      "\<forall>X. nodes (plug X k') = nodes (plug X (FL RBTREE_RED p b # FL RBTREE_BLACK y d # k))"
      unfolding b by blast
    moreover have "\<forall>X. nodes (plug X (FL RBTREE_RED p b # FL RBTREE_BLACK y d # k)) =
        nodes (plug X (FL c p s # k))" by (simp add: nodes_plug s)
    ultimately show ?thesis using t1(1) unfolding loop by auto
  next
    case sB: RBTREE_BLACK
    then have drs: "delete_red_sibling t (root_of T) p y = Inr (t, p, y)"
      using sib by (simp add: delete_red_sibling_def)
    have rest: "rbt_delete_fix_loop (Suc fuel) t (root_of T) = delete_rest fuel t (root_of T) p y"
      unfolding loop drs by simp
    note tr' = tr [unfolded s sB] and ok' = ok [unfolded s sB]
    consider "c = RBTREE_RED" | "col b = RBTREE_RED \<or> col d = RBTREE_RED"
      | "c = RBTREE_BLACK" "col b = RBTREE_BLACK" "col d = RBTREE_BLACK" by (metis colour_cases(2))
    then show ?thesis
    proof cases
      case 1
      show ?thesis unfolding rest s sB using delete_rest_stop_left [OF _ T] tr' ok' 1 by blast
    next
      case 2
      show ?thesis unfolding rest s sB by (rule delete_rest_red_left [OF tr' T 2 ok'])
    next
      case 3
      obtain t1 where t1: "tree_is dat t1 (plug T (FL RBTREE_BLACK p (Bin RBTREE_RED b y d) # k))"
        "delete_rest fuel t (root_of T) p y = rbt_delete_fix_loop fuel t1 p"
        using delete_rest_black_left [OF tr' T 3(2,3), of fuel] 3(1) by auto
      have "tree_is dat t1 (plug (Bin RBTREE_BLACK T p (Bin RBTREE_RED b y d)) k)" using t1(1) by simp
      from IH [OF this] obtain t' k' where t': "rbt_delete_fix_loop fuel t1 p = Inr t'"
        "tree_is dat t' (plug (Bin RBTREE_BLACK T p (Bin RBTREE_RED b y d)) k')" "ctx_ok (Suc m) k'"
        "\<forall>X. nodes (plug X k') = nodes (plug X k)"
        using ok' 3(1) by auto
      have "ctx_ok m (FL RBTREE_BLACK p (Bin RBTREE_RED b y d) # k')" using ok' 3 t'(3) by simp
      moreover have "\<forall>X. nodes (plug X (FL RBTREE_BLACK p (Bin RBTREE_RED b y d) # k')) =
          nodes (plug X (FL c p s # k))" using t'(4) by (simp add: s) (simp add: nodes_plug)
      moreover have "tree_is dat t' (plug T (FL RBTREE_BLACK p (Bin RBTREE_RED b y d) # k'))" using t'(2) by simp
      ultimately show ?thesis unfolding rest t1(2) using t'(1) by blast
    qed
  qed
qed

lemma delete_rest_stop_right:
  assumes tr: "tree_is dat t (plug T (FR RBTREE_RED (Bin RBTREE_BLACK d y b) p # k))" and T: "T \<noteq> Tip"
    and ok: "ctx_ok (Suc m) (FR RBTREE_RED (Bin RBTREE_BLACK d y b) p # k)"
  shows "\<exists>t' k'. delete_rest fuel t (root_of T) p y = Inr t' \<and> tree_is dat t' (plug T k') \<and> ctx_ok m k' \<and>
    (\<forall>X. nodes (plug X k') = nodes (plug X (FR RBTREE_RED (Bin RBTREE_BLACK d y b) p # k)))"
proof (cases "col b = RBTREE_RED \<or> col d = RBTREE_RED")
  case True
  then show ?thesis by (rule delete_rest_red_right [OF tr T _ ok])
next
  case False
  then have bl: "col b = RBTREE_BLACK" "col d = RBTREE_BLACK" by (simp_all add: colour_cases)
  obtain t' where "tree_is dat t' (plug T (FR RBTREE_BLACK (Bin RBTREE_RED d y b) p # k))"
    "delete_rest fuel t (root_of T) p y = Inr t'"
    using delete_rest_black_right [OF tr T bl, of fuel] by auto
  moreover have "ctx_ok m (FR RBTREE_BLACK (Bin RBTREE_RED d y b) p # k)" using ok bl by auto
  moreover have "\<forall>X. nodes (plug X (FR RBTREE_BLACK (Bin RBTREE_RED d y b) p # k)) =
      nodes (plug X (FR RBTREE_RED (Bin RBTREE_BLACK d y b) p # k))" by (simp add: nodes_plug)
  ultimately show ?thesis by blast
qed

lemma delete_fix_step_right:
  assumes tr: "tree_is dat t (plug T (FR c s p # k))" and T: "T \<noteq> Tip"
    and ok: "ctx_ok (Suc m) (FR c s p # k)"
    and IH: "\<And>t'' P. tree_is dat t'' (plug P k) \<Longrightarrow> P \<noteq> Tip \<Longrightarrow> ctx_ok (Suc (Suc m)) k \<Longrightarrow>
      \<exists>t' k'. rbt_delete_fix_loop fuel t'' (root_of P) = Inr t' \<and> tree_is dat t' (plug P k') \<and>
        ctx_ok (Suc m) k' \<and> (\<forall>X. nodes (plug X k') = nodes (plug X k))"
  shows "\<exists>t' k'. rbt_delete_fix_loop (Suc fuel) t (root_of T) = Inr t' \<and> tree_is dat t' (plug T k') \<and>
    ctx_ok m k' \<and> (\<forall>X. nodes (plug X k') = nodes (plug X (FR c s p # k)))"
proof -
  note tp = tree_parent [OF tr T] and gs = get_sibling_ok [OF tr T] and fn = frame_node [OF tr]
  obtain sc b y d where s: "s = Bin sc d y b" using ok by (cases s) auto
  note sib = sibling_colour [OF tr, unfolded s, simplified]
  have loop: "rbt_delete_fix_loop (Suc fuel) t (root_of T) = kbind (delete_red_sibling t (root_of T) p y)
      (\<lambda>(t, parent, sibling). delete_rest fuel t (root_of T) parent sibling)"
    unfolding delete_fix_loop_rest using tp gs fn s by simp
  show ?thesis
  proof (cases sc)
    case RBTREE_RED
    then have c: "c = RBTREE_BLACK" using ok s by (cases c) auto
    obtain b1 z b2 where b: "b = Bin RBTREE_BLACK b2 z b1" using ok s RBTREE_RED by (cases b) auto
    obtain t1 where t1: "delete_red_sibling t (root_of T) p y = Inr (t1, p, z)"
      "tree_is dat t1 (plug T (FR RBTREE_RED b p # FR RBTREE_BLACK d y # k))"
      using delete_red_sibling_right [of dat t T d y b p k] tr T s RBTREE_RED c b by auto
    have "ctx_ok (Suc m) (FR RBTREE_RED b p # FR RBTREE_BLACK d y # k)" using ok s RBTREE_RED c b by auto
    from delete_rest_stop_right [OF t1(2) [unfolded b] T this [unfolded b], of fuel]
    obtain t' k' where "delete_rest fuel t1 (root_of T) p z = Inr t'" "tree_is dat t' (plug T k')" "ctx_ok m k'"
      "\<forall>X. nodes (plug X k') = nodes (plug X (FR RBTREE_RED b p # FR RBTREE_BLACK d y # k))"
      unfolding b by blast
    moreover have "\<forall>X. nodes (plug X (FR RBTREE_RED b p # FR RBTREE_BLACK d y # k)) =
        nodes (plug X (FR c s p # k))" by (simp add: nodes_plug s)
    ultimately show ?thesis using t1(1) unfolding loop by auto
  next
    case sB: RBTREE_BLACK
    then have drs: "delete_red_sibling t (root_of T) p y = Inr (t, p, y)"
      using sib by (simp add: delete_red_sibling_def)
    have rest: "rbt_delete_fix_loop (Suc fuel) t (root_of T) = delete_rest fuel t (root_of T) p y"
      unfolding loop drs by simp
    note tr' = tr [unfolded s sB] and ok' = ok [unfolded s sB]
    consider "c = RBTREE_RED" | "col b = RBTREE_RED \<or> col d = RBTREE_RED"
      | "c = RBTREE_BLACK" "col b = RBTREE_BLACK" "col d = RBTREE_BLACK" by (metis colour_cases(2))
    then show ?thesis
    proof cases
      case 1
      show ?thesis unfolding rest s sB using delete_rest_stop_right [OF _ T] tr' ok' 1 by blast
    next
      case 2
      show ?thesis unfolding rest s sB by (rule delete_rest_red_right [OF tr' T 2 ok'])
    next
      case 3
      obtain t1 where t1: "tree_is dat t1 (plug T (FR RBTREE_BLACK (Bin RBTREE_RED d y b) p # k))"
        "delete_rest fuel t (root_of T) p y = rbt_delete_fix_loop fuel t1 p"
        using delete_rest_black_right [OF tr' T 3(2,3), of fuel] 3(1) by auto
      have "tree_is dat t1 (plug (Bin RBTREE_BLACK (Bin RBTREE_RED d y b) p T) k)" using t1(1) by simp
      from IH [OF this] obtain t' k' where t': "rbt_delete_fix_loop fuel t1 p = Inr t'"
        "tree_is dat t' (plug (Bin RBTREE_BLACK (Bin RBTREE_RED d y b) p T) k')" "ctx_ok (Suc m) k'"
        "\<forall>X. nodes (plug X k') = nodes (plug X k)"
        using ok' 3(1) by auto
      have "ctx_ok m (FR RBTREE_BLACK (Bin RBTREE_RED d y b) p # k')" using ok' 3 t'(3) by simp
      moreover have "\<forall>X. nodes (plug X (FR RBTREE_BLACK (Bin RBTREE_RED d y b) p # k')) =
          nodes (plug X (FR c s p # k))" using t'(4) by (simp add: s) (simp add: nodes_plug)
      moreover have "tree_is dat t' (plug T (FR RBTREE_BLACK (Bin RBTREE_RED d y b) p # k'))" using t'(2) by simp
      ultimately show ?thesis unfolding rest t1(2) using t'(1) by blast
    qed
  qed
qed

lemma delete_fix_loop_ok:
  assumes "tree_is dat t (plug T k)" and "T \<noteq> Tip" and "ctx_ok (Suc m) k" and "length k < fuel"
  shows "\<exists>t' k'. rbt_delete_fix_loop fuel t (root_of T) = Inr t' \<and> tree_is dat t' (plug T k') \<and>
    ctx_ok m k' \<and> (\<forall>X. nodes (plug X k') = nodes (plug X k))"
  using assms
proof (induction fuel arbitrary: t T k m)
  case (Suc fuel)
  show ?case
  proof (cases k)
    case Nil
    then show ?thesis using tree_parent [OF Suc.prems(1,2)] Suc.prems(1) by (auto intro!: exI [of _ "[]"])
  next
    case (Cons f k1)
    have IH: "\<exists>t' k'. rbt_delete_fix_loop fuel t'' (root_of P) = Inr t' \<and> tree_is dat t' (plug P k') \<and>
        ctx_ok (Suc m) k' \<and> (\<forall>X. nodes (plug X k') = nodes (plug X k1))"
      if "tree_is dat t'' (plug P k1)" "P \<noteq> Tip" "ctx_ok (Suc (Suc m)) k1" for t'' P
      using Suc.IH [OF that] Suc.prems(4) Cons by simp
    show ?thesis
    proof (cases f)
      case (FL c p s)
      show ?thesis unfolding Cons FL
        by (rule delete_fix_step_left [OF _ Suc.prems(2)]) (use Suc.prems Cons FL IH in simp_all)
    next
      case (FR c s p)
      show ?thesis unfolding Cons FR
        by (rule delete_fix_step_right [OF _ Suc.prems(2)]) (use Suc.prems Cons FR IH in simp_all)
    qed
  qed
qed simp

declare rbt_delete_fix_loop.simps [simp del]

end
