(* ===== verification/Rbtree_Swap.thy ===== *)
theory Rbtree_Swap
  imports Rbtree_Delete
begin

text \<open>
  \<open>rbt_swap_nodes\<close>: a node and its predecessor in order exchange their places. \<open>rseg\<close> is the part of
  a context between the two, a path of right children.
\<close>

section \<open>Paths of right children\<close>

text \<open>\<open>(c, l, a)\<close> stands for the frame \<open>FR c l a\<close>, the lowest first.\<close>

type_synonym rpath = "(rbtree_colour \<times> ptree \<times> addr) list"

definition frames :: "rpath \<Rightarrow> frame list" where
  "frames = map (\<lambda>(c, l, a). FR c l a)"

fun pnodes :: "rpath \<Rightarrow> addr list" where
  "pnodes [] = []"
| "pnodes ((c, l, a) # q) = pnodes q @ nodes l @ [a]"

fun pup :: "rpath \<Rightarrow> addr \<Rightarrow> addr" where
  "pup [] P = P"
| "pup ((c, l, a) # q) P = a"

fun ptop :: "addr \<Rightarrow> rpath \<Rightarrow> addr" where
  "ptop x [] = x"
| "ptop x ((c, l, a) # q) = ptop a q"

fun rseg :: "(addr \<Rightarrow> addr) \<Rightarrow> (addr \<Rightarrow> rbtree_node option) \<Rightarrow> addr \<Rightarrow> rpath \<Rightarrow> addr \<Rightarrow> bool" where
  "rseg dat h x [] P = True"
| "rseg dat h x ((c, l, a) # q) P \<longleftrightarrow> a \<noteq> NULL \<and>
     h a = Some (node_val dat a (root_of l) x (pup q P) c) \<and> rep dat h a l \<and> rseg dat h a q P"

lemma frames_simps [simp]: "frames [] = []" "frames ((c, l, a) # q) = FR c l a # frames q"
  by (simp_all add: frames_def)

lemma up_frames: "up (frames q @ f # k) = pup q (fnode f)"
  by (cases q rule: pnodes.cases) auto

lemma repk_frames:
  "repk dat h R x (frames q @ f # k) \<longleftrightarrow> rseg dat h x q (fnode f) \<and> repk dat h R (ptop x q) (f # k)"
  by (induction x q rule: ptop.induct) (auto simp: up_frames)

lemma plug_append: "plug T (k1 @ k2) = plug (plug T k1) k2"
  by (induction T k1 rule: plug.induct) auto

lemma root_plug_frames: "root_of (plug T (frames q)) = ptop (root_of T) q"
proof (induction q arbitrary: T)
  case (Cons f q)
  then show ?case by (cases f) auto
qed simp

lemma knodes_frames:
  "knodes_l (frames q @ k) = knodes_l k @ pnodes q" "knodes_r (frames q @ k) = knodes_r k"
  by (induction q rule: pnodes.induct) auto

lemma rseg_frame [simp]: "z \<notin> set (pnodes q) \<Longrightarrow> rseg dat (h(z := v)) x q P = rseg dat h x q P"
  by (induction dat h x q P rule: rseg.induct) auto

lemma ptop_in: "q \<noteq> [] \<Longrightarrow> ptop x q \<in> set (pnodes q)"
proof (induction x q rule: ptop.induct)
  case (2 x c l a q)
  then show ?case by (cases q) auto
qed simp

lemma pup_in: "q \<noteq> [] \<Longrightarrow> pup q P \<in> set (pnodes q)"
  by (cases q rule: pnodes.cases) auto

text \<open>The top of the path gets another parent, and its hole another root.\<close>

lemma rseg_top:
  "rseg dat h x q P \<Longrightarrow> distinct (pnodes q) \<Longrightarrow> q \<noteq> [] \<Longrightarrow>
   \<exists>nd. h (ptop x q) = Some nd \<and> ptop x q \<noteq> NULL \<and> rseg dat (h(ptop x q \<mapsto> nd\<lparr>rb_parent := P'\<rparr>)) x q P'"
proof (induction q arbitrary: x)
  case (Cons f q)
  obtain c l a where f: "f = (c, l, a)" by (cases f)
  have rl: "a \<noteq> NULL" "h a = Some (node_val dat a (root_of l) x (pup q P) c)" "rep dat h a l"
    "rseg dat h a q P" using Cons.prems(1) f by auto
  have dq: "distinct (pnodes q)" using Cons.prems(2) f by simp
  show ?case
  proof (cases "q = []")
    case True
    have "a \<notin> set (nodes l)" using Cons.prems(2) f by simp
    then have "rep dat (h(a \<mapsto> v)) a l" for v using rl(3) by simp
    then show ?thesis
      unfolding f True ptop.simps rseg.simps pup.simps
      by (intro exI [of _ "node_val dat a (root_of l) x P c"] conjI)
        (use rl(1,2) True in simp_all)
  next
    case False
    obtain nd where nd: "h (ptop a q) = Some nd" "ptop a q \<noteq> NULL"
      "rseg dat (h(ptop a q \<mapsto> nd\<lparr>rb_parent := P'\<rparr>)) a q P'"
      using Cons.IH [OF rl(4) dq False] by blast
    have "ptop a q \<noteq> a" "ptop a q \<notin> set (nodes l)" using ptop_in [OF False, of a] Cons.prems(2) f by auto
    moreover from this have "rep dat (h(ptop a q \<mapsto> v)) a l" for v using rl(3) by simp
    moreover have "pup q P' = pup q P" using False by (cases q rule: pnodes.cases) auto
    ultimately show ?thesis
      unfolding f ptop.simps rseg.simps
      by (intro exI [of _ nd] conjI) (use nd rl(1,2) in simp_all)
  qed
qed simp

lemma rseg_hole:
  "rseg dat h x ((c, l, a) # q) P \<Longrightarrow> distinct (pnodes ((c, l, a) # q)) \<Longrightarrow>
   rseg dat (h(a \<mapsto> node_val dat a (root_of l) x' (pup q P) c)) x' ((c, l, a) # q) P"
  by auto

section \<open>The state of an exchange\<close>

text \<open>
  The six parts of the store that the exchange of \<open>x\<close> and \<open>s\<close> touches: the two nodes, the right
  subtree \<open>r\<close> of \<open>x\<close>, the left subtree \<open>sl\<close> of \<open>s\<close>, the path \<open>q\<close> between them, and the context \<open>k\<close>.
\<close>

definition swap_st :: "(addr \<Rightarrow> addr) \<Rightarrow> addr \<Rightarrow> addr \<Rightarrow> ptree \<Rightarrow> ptree \<Rightarrow> rpath \<Rightarrow> frame list \<Rightarrow>
    rbtree \<Rightarrow> rbtree_node \<Rightarrow> rbtree_node \<Rightarrow> addr \<Rightarrow> addr \<Rightarrow> addr \<Rightarrow> addr \<Rightarrow> addr \<Rightarrow> bool" where
  "swap_st dat x s r sl q k t vx vs pr psl hole ptp kroot \<longleftrightarrow>
     x \<noteq> NULL \<and> s \<noteq> NULL \<and>
     distinct (x # s # nodes r @ nodes sl @ pnodes q @ knodes_l k @ knodes_r k) \<and>
     rb_heap t x = Some vx \<and> rb_heap t s = Some vs \<and>
     rep dat (rb_heap t) pr r \<and> rep dat (rb_heap t) psl sl \<and> rseg dat (rb_heap t) hole q ptp \<and>
     repk dat (rb_heap t) (rb_root t) kroot k"

lemma swap_node_at:
  assumes "swap_st dat x s r sl q k t vx vs pr psl hole ptp kroot"
  shows "node_at t x = Inr vx" "node_at t s = Inr vs" "x \<noteq> NULL" "s \<noteq> NULL"
  using assms by (auto simp: swap_st_def)

text \<open>Writing one of the two nodes, or the parent of a subtree.\<close>

lemma swap_put_x:
  "swap_st dat x s r sl q k t vx vs pr psl hole ptp kroot \<Longrightarrow>
   node_put t x g = Inr (t\<lparr>rb_heap := (rb_heap t)(x \<mapsto> g vx)\<rparr>) \<and>
   swap_st dat x s r sl q k (t\<lparr>rb_heap := (rb_heap t)(x \<mapsto> g vx)\<rparr>) (g vx) vs pr psl hole ptp kroot"
  by (auto simp: swap_st_def node_put_def)

lemma swap_put_s:
  "swap_st dat x s r sl q k t vx vs pr psl hole ptp kroot \<Longrightarrow>
   node_put t s g = Inr (t\<lparr>rb_heap := (rb_heap t)(s \<mapsto> g vs)\<rparr>) \<and>
   swap_st dat x s r sl q k (t\<lparr>rb_heap := (rb_heap t)(s \<mapsto> g vs)\<rparr>) vx (g vs) pr psl hole ptp kroot"
  by (auto simp: swap_st_def node_put_def)

lemma swap_parent_r:
  assumes "swap_st dat x s r sl q k t vx vs pr psl hole ptp kroot"
  shows "\<exists>t'. try_set_parent t (root_of r) p' = Inr t' \<and>
    swap_st dat x s r sl q k t' vx vs p' psl hole ptp kroot"
proof (cases r)
  case Tip
  then show ?thesis using assms by (simp add: try_set_parent_def swap_st_def)
next
  case (Bin c l a rr)
  then show ?thesis
    using assms by (auto simp: try_set_parent_def rbt_set_parent_def node_put_def swap_st_def)
qed

lemma swap_parent_sl:
  assumes "swap_st dat x s r sl q k t vx vs pr psl hole ptp kroot"
  shows "\<exists>t'. try_set_parent t (root_of sl) p' = Inr t' \<and>
    swap_st dat x s r sl q k t' vx vs pr p' hole ptp kroot"
proof (cases sl)
  case Tip
  then show ?thesis using assms by (simp add: try_set_parent_def swap_st_def)
next
  case (Bin c l a rr)
  then show ?thesis
    using assms by (auto simp: try_set_parent_def rbt_set_parent_def node_put_def swap_st_def)
qed

lemma swap_parent_path:
  assumes st: "swap_st dat x s r sl q k t vx vs pr psl hole ptp kroot" and q: "q \<noteq> []"
  shows "\<exists>t'. try_set_parent t (ptop hole q) p' = Inr t' \<and>
    swap_st dat x s r sl q k t' vx vs pr psl hole p' kroot"
proof -
  have "rseg dat (rb_heap t) hole q ptp" "distinct (pnodes q)" using st by (auto simp: swap_st_def)
  from rseg_top [OF this q, of p'] obtain nd where nd: "rb_heap t (ptop hole q) = Some nd"
    "ptop hole q \<noteq> NULL" "rseg dat ((rb_heap t)(ptop hole q \<mapsto> nd\<lparr>rb_parent := p'\<rparr>)) hole q p'" by blast
  have "ptop hole q \<in> set (pnodes q)" by (rule ptop_in [OF q])
  then have off: "ptop hole q \<notin> set (nodes r)" "ptop hole q \<notin> set (nodes sl)" "ptop hole q \<noteq> x"
    "ptop hole q \<noteq> s" "ptop hole q \<notin> set (knodes_l k)" "ptop hole q \<notin> set (knodes_r k)"
    using st by (auto simp: swap_st_def)
  let ?t = "t\<lparr>rb_heap := (rb_heap t)(ptop hole q \<mapsto> nd\<lparr>rb_parent := p'\<rparr>)\<rparr>"
  have "try_set_parent t (ptop hole q) p' = Inr ?t"
    using nd by (simp add: try_set_parent_def rbt_set_parent_def node_put_def)
  moreover have "swap_st dat x s r sl q k ?t vx vs pr psl hole p' kroot"
    using st nd(3) off rep_frame [OF off(1)] rep_frame [OF off(2)] repk_frame [OF off(5,6)]
    by (auto simp: swap_st_def)
  ultimately show ?thesis by blast
qed

lemma swap_hole_path:
  assumes st: "swap_st dat x s r sl ((c, l, a) # q) k t vx vs pr psl hole ptp kroot"
  shows "\<exists>t'. node_put t a (rb_right_update (\<lambda>_. h')) = Inr t' \<and>
    swap_st dat x s r sl ((c, l, a) # q) k t' vx vs pr psl h' ptp kroot"
  using assms by (auto simp: node_put_def swap_st_def)

lemma rseg_off:
  "(\<And>z. z \<notin> A \<Longrightarrow> h z = h' z) \<Longrightarrow> set (pnodes q) \<inter> A = {} \<Longrightarrow> rseg dat h x q P = rseg dat h' x q P"
proof (induction q arbitrary: x)
  case (Cons f q)
  obtain c l a where f: "f = (c, l, a)" by (cases f)
  have dj: "set (nodes l) \<inter> A = {}" "set (pnodes q) \<inter> A = {}" "a \<notin> A" using Cons.prems(2) f by auto
  have "rep dat h a l = rep dat h' a l" using Cons.prems(1) dj(1) by (rule rep_off)
  then show ?case using Cons.IH [OF Cons.prems(1) dj(2)] Cons.prems(1) [OF dj(3)] f by simp
qed simp

text \<open>The context gets \<open>s\<close> in the place of \<open>x\<close>.\<close>

lemma swap_context:
  assumes st: "swap_st dat x s r sl q k t vx vs pr psl hole ptp x" and p: "rb_parent vx = up k"
  shows "\<exists>t'. (if up k \<noteq> NULL
       then kbind (node_at t (up k)) (\<lambda>np. kbind (if rb_left np = x
           then node_put t (up k) (rb_left_update (\<lambda>_. s))
           else node_put t (up k) (rb_right_update (\<lambda>_. s))) (\<lambda>t. rbt_set_parent t s (up k)))
       else kassert (rb_root t = x) (kbind (rbt_set_parent t s NULL) (\<lambda>t. Inr (t\<lparr>rb_root := s\<rparr>)))) = Inr t' \<and>
    swap_st dat x s r sl q k t' vx (vs\<lparr>rb_parent := up k\<rparr>) pr psl hole ptp s"
proof -
  let ?K = "set (knodes_l k @ knodes_r k)"
  have f: "x \<noteq> NULL" "s \<noteq> NULL" "rb_heap t x = Some vx" "rb_heap t s = Some vs"
    "repk dat (rb_heap t) (rb_root t) x k"
    and off: "distinct (knodes_l k @ knodes_r k)" "x \<notin> ?K" "s \<notin> ?K"
    and dj: "set (nodes r) \<inter> insert s ?K = {}" "set (nodes sl) \<inter> insert s ?K = {}"
      "set (pnodes q) \<inter> insert s ?K = {}" "x \<notin> insert s ?K"
    using st by (auto simp: swap_st_def)
  obtain t' where t': "rbt_replace_subtree t x s = Inr t'" "repk dat (rb_heap t') (rb_root t') s k"
    "rb_heap t' s = Some (vs\<lparr>rb_parent := up k\<rparr>)"
    "\<forall>z. z \<notin> ?K \<longrightarrow> z \<noteq> s \<longrightarrow> rb_heap t' z = rb_heap t z"
    using replace_subtree_ok [OF f(5) off(1) f(1,3) p off(2,3) f(4)] f(2) by blast
  have same: "rb_heap t' z = rb_heap t z" if "z \<notin> insert s ?K" for z using t'(4) that by simp
  have "swap_st dat x s r sl q k t' vx (vs\<lparr>rb_parent := up k\<rparr>) pr psl hole ptp s"
    using st t'(2,3) same [OF dj(4)] rep_off [of "insert s ?K", OF same dj(1)]
      rep_off [of "insert s ?K", OF same dj(2)] rseg_off [of "insert s ?K", OF same dj(3)]
    by (simp add: swap_st_def)
  moreover have "rbt_get_parent t x = Inr (up k)" using f p by (simp add: rbt_get_parent_def)
  moreover have "up k = NULL \<longrightarrow> rb_root t = x" using f(5) repk_up [OF f(5)] by (cases k) auto
  moreover have com: "t\<lparr>rb_heap := H, rb_root := s\<rparr> = t\<lparr>rb_root := s, rb_heap := H\<rparr>" for H
    by (cases t) simp
  ultimately show ?thesis
    using t'(1) f(2,4)
    by (auto simp: com rbt_replace_subtree_def kbind_assoc rbt_set_parent_def node_put_def)
qed

lemma swap_place_y_ok:
  assumes st: "swap_st dat x s r sl q k t vx vs x s s x x"
    and vx: "vx = node_val dat x (ptop s q) (root_of r) (up k) c"
    and vs: "vs = node_val dat s (root_of sl) NULL (pup q x) sc"
  shows "\<exists>t'. swap_place_y t x s = Inr t' \<and> swap_st dat x s r sl q k t' vx
    (node_val dat s (if q = [] then x else ptop s q) (root_of r) (up k) c) s s s s s"
proof -
  have "\<exists>t1 P. try_set_parent t (ptop s q) s = Inr t1 \<and>
      swap_st dat x s r sl q k t1 vx (node_val dat s (root_of sl) NULL P sc) x s s s x"
  proof (cases q)
    case Nil
    then show ?thesis
      using swap_put_s [OF st, of "rb_parent_update (\<lambda>_. s)"] swap_node_at [OF st] vs
      by (auto simp: try_set_parent_def rbt_set_parent_def swap_st_def)
  next
    case (Cons f q')
    then show ?thesis using swap_parent_path [OF st, of s] vs by auto
  qed
  then obtain t1 P where t1: "try_set_parent t (ptop s q) s = Inr t1"
    "swap_st dat x s r sl q k t1 vx (node_val dat s (root_of sl) NULL P sc) x s s s x" by blast
  obtain t2 where t2: "try_set_parent t1 (root_of r) s = Inr t2"
    "swap_st dat x s r sl q k t2 vx (node_val dat s (root_of sl) NULL P sc) s s s s x"
    using swap_parent_r [OF t1(2)] by blast
  have px: "rbt_get_parent t2 x = Inr (up k)"
    using swap_node_at [OF t2(2)] vx by (simp add: rbt_get_parent_def)
  obtain t3 where t3: "(if up k \<noteq> NULL
       then kbind (node_at t2 (up k)) (\<lambda>np. kbind (if rb_left np = x
           then node_put t2 (up k) (rb_left_update (\<lambda>_. s))
           else node_put t2 (up k) (rb_right_update (\<lambda>_. s))) (\<lambda>t. rbt_set_parent t s (up k)))
       else kassert (rb_root t2 = x) (kbind (rbt_set_parent t2 s NULL) (\<lambda>t. Inr (t\<lparr>rb_root := s\<rparr>)))) = Inr t3"
    "swap_st dat x s r sl q k t3 vx (node_val dat s (root_of sl) NULL (up k) sc) s s s s s"
    using swap_context [OF t2(2)] vx by (auto simp del: if_split)
  have "distinct (x # s # nodes r @ pnodes q)" using st by (auto simp: swap_st_def)
  then have ne: "root_of r \<noteq> s" "q \<noteq> [] \<Longrightarrow> ptop s q \<noteq> s"
    using root_in_nodes [of r] swap_node_at(4) [OF st] ptop_in [of q s] by (cases "r = Tip"; auto)+
  let ?l = "if q = [] then x else ptop s q"
  have l: "(if ptop s q \<noteq> s then ptop s q else x) = ?l" using ne(2) by auto
  obtain t4 where t4: "node_put t3 s (\<lambda>n. n\<lparr>rb_left := ?l\<rparr>) = Inr t4"
    "swap_st dat x s r sl q k t4 vx (node_val dat s ?l NULL (up k) sc) s s s s s"
    using swap_put_s [OF t3(2), of "\<lambda>n. n\<lparr>rb_left := ?l\<rparr>"] by auto
  obtain t5 where t5: "node_put t4 s (\<lambda>n. n\<lparr>rb_right := root_of r\<rparr>) = Inr t5"
    "swap_st dat x s r sl q k t5 vx (node_val dat s ?l (root_of r) (up k) sc) s s s s s"
    using swap_put_s [OF t4(2), of "\<lambda>n. n\<lparr>rb_right := root_of r\<rparr>"] by auto
  obtain t6 where t6: "node_put t5 s (rb_colour_update (\<lambda>_. c)) = Inr t6"
    "swap_st dat x s r sl q k t6 vx (node_val dat s ?l (root_of r) (up k) c) s s s s s"
    using swap_put_s [OF t5(2), of "rb_colour_update (\<lambda>_. c)"] by auto
  have xs: "x \<noteq> NULL" "s \<noteq> NULL" using swap_node_at [OF st] by auto
  have cx: "rbt_get_colour t5 x = Inr c" using swap_node_at(1) [OF t5(2)] xs vx by (simp add: rbt_get_colour_def)
  have "swap_place_y t x s = Inr t6"
    unfolding swap_place_y_def
    by (simp only: swap_node_at(1) [OF st] swap_node_at(1) [OF t3(2)] vx node_val_simps kbind_Inr t1(1)
        t2(1) px t3(1) l t4(1) ne(1) not_False_eq_True if_True t5(1) cx rbt_set_colour_def xs
        kassert_simps t6(1) simp_thms)
  then show ?thesis using t6(2) by blast
qed

lemma swap_place_x_ok:
  assumes st: "swap_st dat x s r sl q k t vx vs s s s s s"
    and vx: "vx = node_val dat x lx rx px c"
  shows "\<exists>t'. swap_place_x t x s (node_val dat s (root_of sl) NULL (pup q x) sc) = Inr t' \<and>
    swap_st dat x s r sl q k t' (node_val dat x (root_of sl) NULL (pup q s) sc) vs s x x s s"
proof -
  let ?yc = "node_val dat s (root_of sl) NULL (pup q x) sc"
  have xs: "x \<noteq> NULL" "s \<noteq> NULL" "x \<noteq> s" using st by (auto simp: swap_st_def)
  obtain t1 where t1: "try_set_parent t (root_of sl) x = Inr t1" "swap_st dat x s r sl q k t1 vx vs s x s s s"
    using swap_parent_sl [OF st] by blast
  let ?blk = "if pup q x \<noteq> NULL
       then if pup q x \<noteq> x
         then kbind (node_at t1 (pup q x)) (\<lambda>np. kbind (if rb_left np = s
             then node_put t1 (pup q x) (rb_left_update (\<lambda>_. x))
             else node_put t1 (pup q x) (rb_right_update (\<lambda>_. x))) (\<lambda>t. rbt_set_parent t x (pup q x)))
         else rbt_set_parent t1 x s
       else kassert (rb_root t1 = s) (kbind (rbt_set_parent t1 x NULL) (\<lambda>t. Inr (t\<lparr>rb_root := x\<rparr>)))"
  have "\<exists>t2. ?blk = Inr t2 \<and> swap_st dat x s r sl q k t2 (node_val dat x lx rx (pup q s) c) vs s x x s s"
  proof (cases q)
    case Nil
    then show ?thesis
      using swap_put_x [OF t1(2), of "rb_parent_update (\<lambda>_. s)"] xs vx
      by (auto simp: rbt_set_parent_def swap_st_def)
  next
    case (Cons f q')
    obtain cf l a where f: "f = (cf, l, a)" by (cases f)
    have a: "a \<noteq> NULL" "a \<noteq> x" "rb_heap t1 a = Some (node_val dat a (root_of l) s (pup q' s) cf)" "root_of l \<noteq> s"
      using t1(2) Cons f root_in_nodes [of l] xs by (auto simp: swap_st_def split: if_splits) (cases l; auto)+
    obtain t2 where t2: "node_put t1 a (rb_right_update (\<lambda>_. x)) = Inr t2"
      "swap_st dat x s r sl q k t2 vx vs s x x s s"
      using swap_hole_path [OF t1(2) [unfolded Cons f], of x] unfolding Cons f by blast
    show ?thesis
      using swap_put_x [OF t2(2), of "rb_parent_update (\<lambda>_. a)"] t2(1) a xs vx Cons f
      by (auto simp: rbt_set_parent_def)
  qed
  then obtain t2 where t2: "?blk = Inr t2"
    "swap_st dat x s r sl q k t2 (node_val dat x lx rx (pup q s) c) vs s x x s s" by blast
  obtain t3 where t3: "node_put t2 x (\<lambda>n. n\<lparr>rb_left := root_of sl, rb_right := NULL\<rparr>) = Inr t3"
    "swap_st dat x s r sl q k t3 (node_val dat x (root_of sl) NULL (pup q s) c) vs s x x s s"
    using swap_put_x [OF t2(2), of "\<lambda>n. n\<lparr>rb_left := root_of sl, rb_right := NULL\<rparr>"] by auto
  obtain t4 where t4: "node_put t3 x (rb_colour_update (\<lambda>_. sc)) = Inr t4"
    "swap_st dat x s r sl q k t4 (node_val dat x (root_of sl) NULL (pup q s) sc) vs s x x s s"
    using swap_put_x [OF t3(2), of "rb_colour_update (\<lambda>_. sc)"] by auto
  have "try_set_parent t1 NULL x = Inr t1" by (simp add: try_set_parent_def)
  then have "swap_place_x t x s ?yc = Inr t4"
    unfolding swap_place_x_def Let_def
    by (simp only: node_val_simps t1(1) kbind_Inr t2(1) t3(1) rbt_set_colour_def xs kassert_simps t4(1)
        not_False_eq_True simp_thms)
  then show ?thesis using t4(2) by blast
qed

section \<open>The exchange\<close>

lemma swap_assertions_ok:
  assumes tr: "tree_is dat t (plug (Bin c l a r) k)"
  shows "swap_assertions t a = Inr t"
proof -
  have "rbt_get_parent t (root_of l) = Inr a" if "l \<noteq> Tip"
    using tree_parent(1) [of dat t l "FL c a r # k"] tr that by simp
  moreover have "rbt_get_parent t (root_of r) = Inr a" if "r \<noteq> Tip"
    using tree_parent(1) [of dat t r "FR c l a # k"] tr that by simp
  moreover have "root_of l \<noteq> NULL \<Longrightarrow> l \<noteq> Tip" "root_of r \<noteq> NULL \<Longrightarrow> r \<noteq> Tip" by auto
  moreover have "\<exists>np. node_at t (up k) = Inr np \<and> (rb_left np = a \<or> rb_right np = a)" if "up k \<noteq> NULL"
  proof (cases k)
    case (Cons f k')
    then show ?thesis
      using tr tree_is_node(2) [of dat t] by (cases f) fastforce+
  qed (use that in simp)
  ultimately show ?thesis using tree_is_node [OF tr] by (auto simp: swap_assertions_def)
qed

lemma pup_neq: "P \<noteq> P' \<Longrightarrow> q \<noteq> [] \<Longrightarrow> pup q P = pup q P'"
  by (cases q rule: pnodes.cases) auto

lemma swap_nodes_ok:
  assumes tr: "tree_is dat t (plug (Bin sc sl s Tip) (frames q @ FL c x r # k))"
  shows "\<exists>t'. rbt_swap_nodes t x s = Inr t' \<and>
    tree_is dat t' (plug (Bin sc sl x Tip) (frames q @ FL c s r # k))"
proof -
  let ?vx = "node_val dat x (ptop s q) (root_of r) (up k) c"
  let ?vs = "node_val dat s (root_of sl) NULL (pup q x) sc"
  have st: "swap_st dat x s r sl q k t ?vx ?vs x s s x x"
    using tr unfolding tree_is_plug repk_frames knodes_frames up_frames
    by (auto simp: swap_st_def)
  have dist: "x \<noteq> s" "s \<notin> set (knodes_l k)" "s \<notin> set (knodes_r k)" using st by (auto simp: swap_st_def)
  have xs: "x \<noteq> NULL" "s \<noteq> NULL" and px: "rbt_get_parent t x = Inr (up k)"
    using swap_node_at [OF st] by (auto simp: rbt_get_parent_def)
  have "up k \<noteq> s"
  proof (cases k)
    case (Cons f k')
    then show ?thesis using dist by (cases f) auto
  qed (use xs in simp)
  obtain t1 where t1: "swap_place_y t x s = Inr t1" "swap_st dat x s r sl q k t1 ?vx
      (node_val dat s (if q = [] then x else ptop s q) (root_of r) (up k) c) s s s s s"
    using swap_place_y_ok [OF st refl refl] by blast
  obtain t2 where t2: "swap_place_x t1 x s ?vs = Inr t2"
    "swap_st dat x s r sl q k t2 (node_val dat x (root_of sl) NULL (pup q s) sc)
      (node_val dat s (if q = [] then x else ptop s q) (root_of r) (up k) c) s x x s s"
    using swap_place_x_ok [OF t1(2) refl] by blast
  have top: "(if q = [] then x else ptop s q) = ptop x q" by (cases q rule: pnodes.cases) auto
  have fin: "tree_is dat t2 (plug (Bin sc sl x Tip) (frames q @ FL c s r # k))"
    using t2(2) unfolding tree_is_plug repk_frames knodes_frames up_frames top
    by (auto simp: swap_st_def)
  then have fin_s: "tree_is dat t2 (plug (Bin c (plug (Bin sc sl x Tip) (frames q)) s r) k)"
    by (simp add: plug_append)
  have "rbt_swap_nodes t x s = Inr t2"
    using px \<open>up k \<noteq> s\<close> xs swap_node_at(2) [OF st] t1(1) t2(1)
      swap_assertions_ok [OF fin] swap_assertions_ok [OF fin_s]
    by (simp add: rbt_swap_nodes_def)
  then show ?thesis using fin by blast
qed

section \<open>Deletion\<close>

lemma find_successor_ok:
  assumes "tree_is dat t (plug l k)" and "l \<noteq> Tip" and "ht l < fuel"
  shows "\<exists>sc sl s q. rbt_find_successor_loop fuel t (root_of l) = Inr s \<and> l = plug (Bin sc sl s Tip) (frames q)"
  using assms
proof (induction fuel arbitrary: l k)
  case (Suc fuel)
  obtain c ll a r where l: "l = Bin c ll a r" using Suc.prems(2) by (cases l) auto
  note tn = tree_is_node [OF Suc.prems(1) [unfolded l]]
  show ?case
  proof (cases "r = Tip")
    case True
    then show ?thesis
      using tn l by (intro exI [of _ c] exI [of _ ll] exI [of _ a] exI [of _ "[]"]) simp
  next
    case False
    have tr: "tree_is dat t (plug r (FR c ll a # k))" using Suc.prems(1) l by simp
    obtain sc sl s q where "rbt_find_successor_loop fuel t (root_of r) = Inr s" "r = plug (Bin sc sl s Tip) (frames q)"
      using Suc.IH [OF tr False] Suc.prems(3) l by auto
    moreover have "root_of r \<noteq> NULL" using tree_parent(2) [OF tr False] .
    ultimately show ?thesis
      using tn l by (intro exI [of _ sc] exI [of _ sl] exI [of _ s] exI [of _ "q @ [(c, ll, a)]"])
        (simp add: frames_def plug_append)
  qed
qed simp

text \<open>A node with at most one child goes away and its child takes its place.\<close>

lemma replace_child_ok:
  assumes tr: "tree_is dat t (plug (Bin c l a r) k)" and ch: "ch = l \<and> r = Tip \<or> ch = r \<and> l = Tip"
  shows "\<exists>t'. rbt_replace_subtree t a (root_of ch) = Inr t' \<and> tree_is dat t' (plug ch k)"
proof -
  let ?K = "set (knodes_l k @ knodes_r k)"
  let ?y = "root_of ch"
  have x: "a \<noteq> NULL" "rb_heap t a = Some (node_val dat a (root_of l) (root_of r) (up k) c)"
    and k: "repk dat (rb_heap t) (rb_root t) a k" and rch: "rep dat (rb_heap t) a ch"
    and off: "distinct (knodes_l k @ knodes_r k)" "a \<notin> ?K"
    and dch: "distinct (knodes_l k @ nodes ch @ knodes_r k)"
    using tr ch by (auto simp: tree_is_plug)
  have yK: "?y \<notin> ?K" if "ch \<noteq> Tip" using root_in_nodes [OF that] dch by auto
  show ?thesis
  proof (cases ch)
    case Tip
    have nK: "NULL \<notin> ?K"
      using tr rep_nonnull [of dat "rb_heap t" NULL "plug (Bin c l a r) k"] by (auto simp: tree_is_def nodes_plug)
    then have nK': "?y \<notin> ?K" using Tip by simp
    obtain t' where "rbt_replace_subtree t a NULL = Inr t'" "repk dat (rb_heap t') (rb_root t') NULL k"
      using replace_subtree_ok [OF k off(1) x _ off(2) nK'] Tip by auto
    then show ?thesis using off(1) Tip by (auto simp: tree_is_plug)
  next
    case (Bin c2 l2 y r2)
    have y: "y \<noteq> NULL" "rb_heap t y = Some (node_val dat y (root_of l2) (root_of r2) a c2)"
      "rep dat (rb_heap t) y l2" "rep dat (rb_heap t) y r2" using rch Bin by auto
    have yK': "y \<notin> ?K" using yK Bin by simp
    obtain t' where t': "rbt_replace_subtree t a y = Inr t'" "repk dat (rb_heap t') (rb_root t') y k"
      "rb_heap t' y = Some (node_val dat y (root_of l2) (root_of r2) (up k) c2)"
      "\<forall>z. z \<notin> ?K \<longrightarrow> z \<noteq> y \<longrightarrow> rb_heap t' z = rb_heap t z"
      using replace_subtree_ok [OF k off(1) x _ off(2) yK' y(2)] y(1) by auto
    have same: "rb_heap t' z = rb_heap t z" if "z \<notin> insert y ?K" for z using t'(4) that by simp
    have dj: "set (nodes l2) \<inter> insert y ?K = {}" "set (nodes r2) \<inter> insert y ?K = {}" using dch Bin by auto
    have "rep dat (rb_heap t') (up k) ch"
      using t'(3) y rep_off [of "insert y ?K", OF same dj(1)] rep_off [of "insert y ?K", OF same dj(2)] Bin
      by simp
    then have "tree_is dat t' (plug ch k)" unfolding tree_is_plug using t'(2) dch Bin by simp
    then show ?thesis using t'(1) Bin by auto
  qed
qed

lemma only_child:
  assumes "rbi (Bin c l a r)" and "l = Tip \<or> r = Tip"
  shows "bh l = 0" "bh r = 0" "c = RBTREE_RED \<Longrightarrow> l = Tip \<and> r = Tip"
    "col l = RBTREE_BLACK \<Longrightarrow> l = Tip" "col r = RBTREE_BLACK \<Longrightarrow> r = Tip"
  using assms by (cases l; cases r; auto)+

text \<open>The end of \<open>rbtree_delete\<close>.\<close>

definition delete_end :: "rbtree \<Rightarrow> addr \<Rightarrow> rbtree kres" where
  "delete_end t a = kbind (node_at t a) (\<lambda>d. kassert (rb_left d = NULL \<or> rb_right d = NULL)
     (let child = if rb_right d \<noteq> NULL then rb_right d else rb_left d in
      kbind (rbt_get_colour t a) (\<lambda>dc.
      kbind (if dc = RBTREE_BLACK
        then kbind (rbt_get_colour t child) (\<lambda>cc.
          if cc = RBTREE_RED then rbt_set_colour t child RBTREE_BLACK else rbt_delete_fix t a)
        else Inr t) (\<lambda>t.
      rbt_replace_subtree t a child))))"

lemma delete_end_ok:
  assumes tr: "tree_is dat t (plug (Bin c l a r) k)" and rb: "red_black (plug (Bin c l a r) k)"
    and one: "l = Tip \<or> r = Tip"
  shows "\<exists>t' T'. delete_end t a = Inr t' \<and> tree_is dat t' T' \<and> red_black T' \<and>
    nodes T' = knodes_l k @ nodes l @ nodes r @ knodes_r k"
proof -
  note tn = tree_is_node [OF tr]
  have rbk: "rbi (Bin c l a r)" "ctx_ok (bh (Bin c l a r)) k" using rb unfolding red_black_plug by auto
  note oc = only_child [OF rbk(1) one]
  define ch where "ch = (if r \<noteq> Tip then r else l)"
  have chs: "ch = l \<and> r = Tip \<or> ch = r \<and> l = Tip" and nn: "nodes ch = nodes l @ nodes r"
    using one by (auto simp: ch_def)
  have nulls: "root_of r = NULL \<longleftrightarrow> r = Tip" "root_of l = NULL \<longleftrightarrow> l = Tip"
    using tr rep_root by (auto simp: tree_is_plug)
  have rch: "(if root_of r \<noteq> NULL then root_of r else root_of l) = root_of ch"
    and asr: "root_of l = NULL \<or> root_of r = NULL" using one nulls by (auto simp: ch_def)
  have cc: "rbt_get_colour t (root_of ch) = Inr (col ch)"
    using chs sibling_colour [of dat t l "FL c a r" k] tree_is_colour [of dat t l "FL c a r # k"]
      tree_is_colour [of dat t r "FR c l a # k"] tr by auto
  have step: "delete_end t a = kbind (if c = RBTREE_BLACK
        then if col ch = RBTREE_RED then rbt_set_colour t (root_of ch) RBTREE_BLACK else rbt_delete_fix t a
        else Inr t) (\<lambda>t. rbt_replace_subtree t a (root_of ch))"
    unfolding delete_end_def tn(2) kbind_Inr node_val_simps Let_def rch tn(4) cc
    using asr by simp
  show ?thesis
  proof (cases c)
    case RBTREE_RED
    then have "ch = Tip" "l = Tip" "r = Tip" using oc(3) chs by auto
    moreover obtain t' where "rbt_replace_subtree t a (root_of ch) = Inr t'" "tree_is dat t' (plug ch k)"
      using replace_child_ok [OF tr chs] by blast
    moreover have "red_black (plug Tip k)" unfolding red_black_plug using rbk(2) RBTREE_RED oc(1) by simp
    ultimately show ?thesis
      unfolding step using RBTREE_RED by (auto intro!: exI [of _ "plug Tip k"] simp: nodes_plug)
  next
    case cB: RBTREE_BLACK
    then have ok1: "ctx_ok (Suc 0) k" using rbk(2) oc(1) by simp
    show ?thesis
    proof (cases "col ch")
      case RBTREE_RED
      then obtain l2 y r2 where ch: "ch = Bin RBTREE_RED l2 y r2" by (cases ch) auto
      let ?ch = "Bin RBTREE_BLACK l2 y r2"
      obtain t1 l1 r1 where t1: "rbt_set_colour t y RBTREE_BLACK = Inr t1"
        "tree_is dat t1 (plug (Bin c l1 a r1) k)" "?ch = l1 \<and> r1 = Tip \<or> ?ch = r1 \<and> l1 = Tip"
        using chs set_colour_ok [of dat t RBTREE_RED l2 y r2 "FL c a r # k" RBTREE_BLACK]
          set_colour_ok [of dat t RBTREE_RED l2 y r2 "FR c l a # k" RBTREE_BLACK] tr ch by auto
      obtain t' where t': "rbt_replace_subtree t1 a y = Inr t'" "tree_is dat t' (plug ?ch k)"
        using replace_child_ok [OF t1(2,3)] by auto
      have "rbi ch" "bh ch = 0" using chs rbk(1) oc(1,2) by auto
      then have "red_black (plug ?ch k)" unfolding red_black_plug using ok1 ch by simp
      then show ?thesis
        unfolding step using t1(1) t' cB ch nn
        by (auto intro!: exI [of _ "plug ?ch k"] simp: nodes_plug)
    next
      case RBTREE_BLACK
      then have tips: "ch = Tip" "l = Tip" "r = Tip" using chs oc(4,5) by auto
      have "length k < addr_fuel" using ctx_length_le [of k "Bin c l a r"] tree_is_length [OF tr] by simp
      from delete_fix_loop_ok [OF tr _ ok1 this] obtain t1 k' where
        t1: "rbt_delete_fix t a = Inr t1" "tree_is dat t1 (plug (Bin c l a r) k')" "ctx_ok 0 k'"
        "\<forall>X. nodes (plug X k') = nodes (plug X k)" by (auto simp: rbt_delete_fix_def)
      obtain t' where "rbt_replace_subtree t1 a (root_of ch) = Inr t'" "tree_is dat t' (plug ch k')"
        using replace_child_ok [OF t1(2) chs] by blast
      moreover have "red_black (plug Tip k')" unfolding red_black_plug using t1(3) by simp
      moreover have "nodes (plug Tip k') = knodes_l k @ nodes l @ nodes r @ knodes_r k"
        using t1(4) [rule_format, of Tip] tips by (simp add: nodes_plug)
      ultimately show ?thesis unfolding step using t1(1) cB RBTREE_BLACK tips by auto
    qed
  qed
qed

text \<open>Every node of the tree is at the top of some subtree.\<close>

lemma node_place: "a \<in> set (nodes T) \<Longrightarrow> \<exists>c l r k. T = plug (Bin c l a r) k"
proof (induction T)
  case (Bin c l b r)
  then consider "a = b" | "a \<in> set (nodes l)" | "a \<in> set (nodes r)" by auto
  then show ?case
  proof cases
    case 1
    then show ?thesis by (intro exI [of _ c] exI [of _ l] exI [of _ r] exI [of _ "[]"]) simp
  next
    case 2
    then obtain c' l' r' k where "l = plug (Bin c' l' a r') k" using Bin.IH(1) by blast
    then show ?thesis
      by (intro exI [of _ c'] exI [of _ l'] exI [of _ r'] exI [of _ "k @ [FL c b r]"]) (simp add: plug_append)
  next
    case 3
    then obtain c' l' r' k where "r = plug (Bin c' l' a r') k" using Bin.IH(2) by blast
    then show ?thesis
      by (intro exI [of _ c'] exI [of _ l'] exI [of _ r'] exI [of _ "k @ [FR c l b]"]) (simp add: plug_append)
  qed
qed simp

lemma delete_ok:
  assumes tr: "tree_is dat t T" and rb: "red_black T" and a: "a \<in> set (nodes T)"
  shows "\<exists>t' T'. rbtree_delete t a = Inr t' \<and> tree_is dat t' T' \<and> red_black T' \<and>
    nodes T' = remove1 a (nodes T)"
proof -
  obtain c l r k where T: "T = plug (Bin c l a r) k" using node_place [OF a] by blast
  note tr' = tr [unfolded T] and rb' = rb [unfolded T]
  note tn = tree_is_node [OF tr']
  have del: "rbtree_delete t a = kbind (if root_of l \<noteq> NULL \<and> root_of r \<noteq> NULL
      then kbind (rbt_find_successor t a) (\<lambda>successor. rbt_swap_nodes t a successor) else Inr t)
      (\<lambda>t. delete_end t a)"
    unfolding rbtree_delete_def delete_end_def using tn(2) by simp
  have nulls: "root_of r = NULL \<longleftrightarrow> r = Tip" "root_of l = NULL \<longleftrightarrow> l = Tip"
    using tr' rep_root by (auto simp: tree_is_plug)
  have "distinct (nodes T)" using tr by (simp add: tree_is_def)
  then have rem: "remove1 a (nodes T) = knodes_l k @ nodes l @ nodes r @ knodes_r k"
    unfolding T nodes_plug by (simp add: remove1_append)
  show ?thesis
  proof (cases "l = Tip \<or> r = Tip")
    case True
    then show ?thesis using delete_end_ok [OF tr' rb' True] del nulls rem by auto
  next
    case False
    have tl: "tree_is dat t (plug l (FL c a r # k))" using tr' by simp
    have "ht l \<le> length (nodes l)" by (rule ht_le)
    also have "\<dots> < addr_fuel" using tree_is_length [OF tl] by (simp add: nodes_plug)
    finally obtain sc sl s q where s: "rbt_find_successor_loop addr_fuel t (root_of l) = Inr s"
      "l = plug (Bin sc sl s Tip) (frames q)"
      using find_successor_ok [OF tl] False by blast
    have fs: "rbt_find_successor t a = Inr s" using tn(2) s(1) by (simp add: rbt_find_successor_def)
    have full: "plug (Bin sc sl s Tip) (frames q @ FL c a r # k) = T" using s(2) T by (simp add: plug_append)
    have trf: "tree_is dat t (plug (Bin sc sl s Tip) (frames q @ FL c a r # k))" using tr full by simp
    obtain t1 where t1: "rbt_swap_nodes t a s = Inr t1"
      "tree_is dat t1 (plug (Bin sc sl a Tip) (frames q @ FL c s r # k))"
      using swap_nodes_ok [OF trf] by blast
    have cx: "ctx_ok n (frames q @ FL c s r # k) = ctx_ok n (frames q @ FL c a r # k)"
      "kcol (frames q @ FL c s r # k) = kcol (frames q @ FL c a r # k)" for n
    proof -
      have "kcol (frames q' @ FL c s r # k) = kcol (frames q' @ FL c a r # k)" for q'
        by (cases q' rule: pnodes.cases) auto
      then show "kcol (frames q @ FL c s r # k) = kcol (frames q @ FL c a r # k)"
        "ctx_ok n (frames q @ FL c s r # k) = ctx_ok n (frames q @ FL c a r # k)"
        by (simp, induction q arbitrary: n rule: pnodes.induct) auto
    qed
    have "red_black (plug (Bin sc sl a Tip) (frames q @ FL c s r # k))"
      using rb unfolding full [symmetric] red_black_plug by (simp add: cx)
    from delete_end_ok [OF t1(2) this] obtain t' T' where "delete_end t1 a = Inr t'" "tree_is dat t' T'"
      "red_black T'" "nodes T' = knodes_l (frames q @ FL c s r # k) @ nodes sl @ knodes_r (frames q @ FL c s r # k)"
      by auto
    moreover have "nodes l = pnodes q @ nodes sl @ [s]"
      using knodes_frames [of q "[]"] by (simp add: s(2) nodes_plug)
    ultimately show ?thesis
      using del False nulls fs t1(1) rem by (auto simp: knodes_frames)
  qed
qed

end
