(* ===== verification/Rbtree_Spec.thy ===== *)
theory Rbtree_Spec
  imports Rbtree_Swap
begin

text \<open>
  What the red-black tree promises its clients: a sorted, balanced tree after any sequence of
  insertions and deletions, and searches that find what they should (but for
  \<open>rbtree_search_min\<close> with a limit above all elements).
\<close>

section \<open>Balance\<close>

lemma rbi_ht: "rbi T \<Longrightarrow> ht T \<le> 2 * bh T + (if col T = RBTREE_RED then 1 else 0)"
proof (induction T)
  case (Bin c l a r)
  then show ?case by (cases c; cases "col l"; cases "col r") auto
qed simp

lemma rbi_bh: "rbi T \<Longrightarrow> 2 ^ bh T \<le> length (nodes T) + 1"
  by (induction T) auto

lemma red_black_ht: "red_black T \<Longrightarrow> 2 ^ (ht T div 2) \<le> length (nodes T) + 1"
proof -
  assume "red_black T"
  then have "ht T div 2 \<le> bh T" "rbi T" using rbi_ht [of T] by (auto simp: red_black_def)
  then have "(2 :: nat) ^ (ht T div 2) \<le> 2 ^ bh T" by (intro power_increasing) auto
  then show ?thesis using rbi_bh [OF \<open>rbi T\<close>] by linarith
qed

section \<open>Sequences of operations\<close>

text \<open>The trees, and their sets of nodes, that insertions and deletions lead to.\<close>

inductive rb_reach :: "rbtree_cmp_fn \<Rightarrow> addr set \<Rightarrow> (addr \<Rightarrow> addr) \<Rightarrow> rbtree \<Rightarrow> addr set \<Rightarrow> bool"
  for cmpf D dat where
  reach_init: "rbtree_init_tree t = Inr t' \<Longrightarrow> rb_reach cmpf D dat t' {}"
| reach_insert: "rb_reach cmpf D dat t S \<Longrightarrow> new \<noteq> NULL \<Longrightarrow> new \<notin> S \<Longrightarrow> rb_heap t new = Some nd \<Longrightarrow>
    rb_data nd = dat new \<Longrightarrow> dat new \<in> D \<Longrightarrow> rbtree_insert t new cmpf = Inr t' \<Longrightarrow>
    rb_reach cmpf D dat t' (insert new S)"
| reach_delete: "rb_reach cmpf D dat t S \<Longrightarrow> a \<in> S \<Longrightarrow> rbtree_delete t a = Inr t' \<Longrightarrow>
    rb_reach cmpf D dat t' (S - {a})"

inductive_cases rb_reach_cases: "rb_reach cmpf D dat t S"

context tree_order
begin

lemma sorted_tree_delete:
  "sorted_tree key D dat T \<Longrightarrow> nodes T' = remove1 a (nodes T) \<Longrightarrow> sorted_tree key D dat T'"
  using sorted_remove1_map [of "\<lambda>x. key (dat x)" "nodes T" a] set_remove1_subset [of a "nodes T"]
  by (auto simp: sorted_tree_def)

lemma reach_ok:
  "rb_reach cmpf D dat t S \<Longrightarrow>
   \<exists>T. tree_is dat t T \<and> red_black T \<and> sorted_tree key D dat T \<and> set (nodes T) = S"
proof (induction rule: rb_reach.induct)
  case (reach_init t t')
  then have "tree_is dat t' Tip" by (auto simp: rbtree_init_tree_def tree_is_def)
  then show ?case by (intro exI [of _ Tip]) (simp add: red_black_def sorted_tree_def)
next
  case (reach_insert t S new nd t')
  then obtain T where T: "tree_is dat t T" "red_black T" "sorted_tree key D dat T" "set (nodes T) = S" by blast
  from insert_ok [OF T(1-3), of new nd] reach_insert.hyps T(4) show ?case
    by (auto simp: set_insort_key)
next
  case (reach_delete t S a t')
  then obtain T where T: "tree_is dat t T" "red_black T" "sorted_tree key D dat T" "set (nodes T) = S" by blast
  obtain T' where T': "tree_is dat t' T'" "red_black T'" "nodes T' = remove1 a (nodes T)"
    using delete_ok [OF T(1,2), of a] reach_delete.hyps T(4) by auto
  have "distinct (nodes T)" using T(1) by (simp add: tree_is_def)
  then have "set (nodes T') = S - {a}" using T'(3) T(4) by simp
  then show ?case using T' sorted_tree_delete [OF T(3) T'(3)] by blast
qed

end

section \<open>Properties\<close>

text \<open>A comparison of the data pointers themselves, for the examples.\<close>

definition addr_cmp :: rbtree_cmp_fn where
  "addr_cmp d v = Inr (uint d - uint v)"

interpretation ao: tree_order addr_cmp UNIV "\<lambda>d. d"
  by unfold_locales (auto simp: addr_cmp_def word_less_def word_uint_eq_iff)

text \<open>One black node at 0x10 with the data pointer 0x50, and a fresh node at 0x20.\<close>

definition one_node :: rbtree where
  "one_node = \<lparr>rb_root = 0x10, rb_heap = [0x10 \<mapsto> node_val (\<lambda>a. a + 0x40) 0x10 NULL NULL NULL RBTREE_BLACK,
     0x20 \<mapsto> node_val (\<lambda>a. a + 0x40) 0x20 NULL NULL NULL RBTREE_RED]\<rparr>"

lemma one_node_is: "tree_is (\<lambda>a. a + 0x40) one_node (Bin RBTREE_BLACK Tip 0x10 Tip)"
  by (simp add: tree_is_def one_node_def)

lemma one_node_ok: "red_black (Bin RBTREE_BLACK Tip 0x10 Tip)"
  "sorted_tree (\<lambda>d. d) UNIV (\<lambda>a. a + 0x40) (Bin RBTREE_BLACK Tip 0x10 Tip)"
  by (simp_all add: red_black_def sorted_tree_def)

text \<open>C1: inserting a node into a sorted red-black tree succeeds (no assert fails, nothing undefined
  is done, the repair ends) and gives a sorted red-black tree, whose nodes in order are the old ones
  with the new one before the first that is not below it.\<close>

theorem rbtree_insert_sorted:
  assumes "tree_order cmpf D key" and "tree_is dat t T" and "red_black T" and "sorted_tree key D dat T"
    and "new \<noteq> NULL" and "new \<notin> set (nodes T)" and "rb_heap t new = Some nd"
    and "rb_data nd = dat new" and "dat new \<in> D"
  shows "\<exists>t' T'. rbtree_insert t new cmpf = Inr t' \<and> tree_is dat t' T' \<and> red_black T' \<and>
    sorted_tree key D dat T' \<and> nodes T' = insort_key (\<lambda>x. key (dat x)) new (nodes T)"
  by (rule tree_order.insert_ok [OF assms])

theorem rbtree_insert_sorted_witness:
  "\<exists>t' T'. rbtree_insert one_node 0x20 addr_cmp = Inr t' \<and> tree_is (\<lambda>a. a + 0x40) t' T' \<and>
     red_black T' \<and> nodes T' = [0x10, 0x20]"
  using rbtree_insert_sorted [OF ao.tree_order_axioms one_node_is one_node_ok,
      of "0x20" "node_val (\<lambda>a. a + 0x40) 0x20 NULL NULL NULL RBTREE_RED"]
  by (auto simp: one_node_def node_val_def)

text \<open>C2: deleting a node of a red-black tree succeeds and gives a red-black tree of the other nodes
  in their order.\<close>

theorem rbtree_delete_removes:
  assumes "tree_is dat t T" and "red_black T" and "a \<in> set (nodes T)"
  shows "\<exists>t' T'. rbtree_delete t a = Inr t' \<and> tree_is dat t' T' \<and> red_black T' \<and>
    nodes T' = remove1 a (nodes T)"
  by (rule delete_ok [OF assms])

theorem rbtree_delete_removes_witness:
  "\<exists>t' T'. rbtree_delete one_node 0x10 = Inr t' \<and> tree_is (\<lambda>a. a + 0x40) t' T' \<and> red_black T' \<and>
     nodes T' = []"
  using rbtree_delete_removes [OF one_node_is one_node_ok(1), of "0x10"] by simp

text \<open>C3: whatever insertions and deletions a tree has seen since \<open>rbtree_init_tree\<close>, it is a sorted
  red-black tree of exactly the nodes that are in it, and its depth is at most twice the logarithm
  of their number.\<close>

theorem rbtree_reachable_balanced:
  assumes "tree_order cmpf D key" and "rb_reach cmpf D dat t S"
  shows "\<exists>T. tree_is dat t T \<and> red_black T \<and> sorted_tree key D dat T \<and> set (nodes T) = S \<and>
    2 ^ (ht T div 2) \<le> card S + 1"
proof -
  obtain T where T: "tree_is dat t T" "red_black T" "sorted_tree key D dat T" "set (nodes T) = S"
    using tree_order.reach_ok [OF assms] by blast
  then have "length (nodes T) = card S" by (auto simp: tree_is_def distinct_card)
  then show ?thesis using T red_black_ht [OF T(2)] by auto
qed

theorem rbtree_reachable_balanced_witness:
  "\<exists>t' T. rbtree_insert (one_node\<lparr>rb_root := NULL\<rparr>) 0x20 addr_cmp = Inr t' \<and>
     tree_is (\<lambda>a. a + 0x40) t' T \<and> red_black T \<and> set (nodes T) = {0x20}"
proof -
  let ?t = "one_node\<lparr>rb_root := NULL\<rparr>" and ?dat = "\<lambda>a :: addr. a + 0x40"
  have 0: "rb_reach addr_cmp UNIV ?dat ?t {}"
    by (rule reach_init [of one_node]) (simp add: rbtree_init_tree_def)
  have "tree_is ?dat ?t Tip" by (simp add: tree_is_def)
  from ao.insert_ok [OF this, of "0x20"] obtain t' where t': "rbtree_insert ?t 0x20 addr_cmp = Inr t'"
    by (auto simp: red_black_def sorted_tree_def one_node_def)
  have "rb_reach addr_cmp UNIV ?dat t' {0x20}"
    using reach_insert [OF 0 _ _ _ _ _ t', of "node_val ?dat 0x20 NULL NULL NULL RBTREE_RED"]
    by (simp add: one_node_def)
  from rbtree_reachable_balanced [OF ao.tree_order_axioms this] show ?thesis using t' by blast
qed

text \<open>C33: in a sorted tree \<open>rbtree_search\<close> returns a node whose key is the one searched for, and
  \<open>NULL\<close> exactly when there is none.\<close>

theorem rbtree_search_exact:
  assumes "tree_order cmpf D key" and "tree_is dat t T" and "sorted_tree key D dat T" and "v \<in> D"
  shows "\<exists>n. rbtree_search t v cmpf = Inr n \<and>
    (if \<exists>x \<in> set (nodes T). key (dat x) = key v then n \<in> set (nodes T) \<and> key (dat n) = key v else n = NULL)"
  by (rule tree_order.search_exact [OF assms])

theorem rbtree_search_exact_witness:
  "\<exists>n. rbtree_search one_node 0x50 addr_cmp = Inr n \<and>
     (if \<exists>x \<in> set (nodes (Bin RBTREE_BLACK Tip 0x10 Tip)). x + 0x40 = (0x50 :: addr)
      then n \<in> set (nodes (Bin RBTREE_BLACK Tip 0x10 Tip)) \<and> n + 0x40 = 0x50 else n = NULL)"
  using rbtree_search_exact [OF ao.tree_order_axioms one_node_is one_node_ok(2), of "0x50"] by simp

text \<open>\<open>rbtree_search_max\<close> returns an element with the key of the limit, or else the last one below
  it, and \<open>NULL\<close> when every element is above the limit.\<close>

theorem rbtree_search_max_floor:
  assumes "tree_order cmpf D key" and "tree_is dat t T" and "sorted_tree key D dat T" and "v \<in> D"
    and "v \<noteq> NULL"
  shows "\<exists>n. rbtree_search_max t v cmpf = Inr n \<and>
    (if \<exists>x \<in> set (nodes T). key (dat x) \<le> key v
     then n \<in> set (nodes T) \<and> key (dat n) \<le> key v \<and>
       (\<forall>x \<in> set (nodes T). key (dat x) \<le> key v \<longrightarrow> key (dat x) \<le> key (dat n))
     else n = NULL)"
  by (rule tree_order.search_floor [OF assms])

theorem rbtree_search_max_floor_witness:
  "\<exists>n. rbtree_search_max one_node 0x60 addr_cmp = Inr n \<and>
     (if \<exists>x \<in> set (nodes (Bin RBTREE_BLACK Tip 0x10 Tip)). x + 0x40 \<le> (0x60 :: addr)
      then n \<in> set (nodes (Bin RBTREE_BLACK Tip 0x10 Tip)) \<and> n + 0x40 \<le> 0x60 \<and>
        (\<forall>x \<in> set (nodes (Bin RBTREE_BLACK Tip 0x10 Tip)). x + 0x40 \<le> 0x60 \<longrightarrow> x + 0x40 \<le> n + 0x40)
      else n = NULL)"
  using rbtree_search_max_floor [OF ao.tree_order_axioms one_node_is one_node_ok(2), of "0x60"] by simp

text \<open>\<open>rbtree_search_min\<close> with a limit above every element of a tree that is not empty reads
  through \<open>NULL\<close>: its climb does not stop at the root.\<close>

theorem rbtree_search_min_undefined:
  assumes "tree_order cmpf D key" and "tree_is dat t T" and "sorted_tree key D dat T" and "v \<in> D"
    and "v \<noteq> NULL" and "T \<noteq> Tip" and "\<forall>x \<in> set (nodes T). key (dat x) < key v"
  shows "rbtree_search_min t v cmpf = Inl Undef"
proof -
  obtain cmp where pr: "probed dat cmpf v cmp (nodes T)" and
    cmp: "\<forall>x \<in> set (nodes T). (cmp x < 0 \<longleftrightarrow> key (dat x) < key v) \<and> (cmp x = 0 \<longleftrightarrow> key (dat x) = key v)"
    using tree_order.sorted_probed [OF assms(1,3,4)] by blast
  then have "\<not> (\<exists>x \<in> set (nodes T). 0 \<le> cmp x)" using assms(7) by force
  then show ?thesis using search_min_ok [OF assms(2) pr assms(5)] assms(6) by simp
qed

theorem rbtree_search_min_undefined_witness: "rbtree_search_min one_node 0x60 addr_cmp = Inl Undef"
  using rbtree_search_min_undefined [OF ao.tree_order_axioms one_node_is one_node_ok(2), of "0x60"]
  by simp

end
