(* ===== verification/Vm_Area.thy ===== *)
theory Vm_Area
  imports Rbtree_Search Slist
begin

text \<open>
  kernel/kernel/mm/vm_area.c: areas of virtual addresses. A \<open>struct vm_area\<close> at the address \<open>a\<close>
  (i686 layout) has its link of the sorted list at \<open>a + 12\<close> and its node of the red-black tree at
  \<open>a + 16\<close>; these two stand in stores of their own, the other fields in the record. A pointer to a
  function is its address, and what a call of it does is a parameter.
\<close>

definition PLATFORM_PAGE_SIZE :: size_t where
  "PLATFORM_PAGE_SIZE = 4096"

text \<open>\<open>enum vm_flags\<close> is one byte wide (\<open>-fshort-enums\<close>).\<close>

definition VM_WRITE :: u8 where "VM_WRITE = 1"
definition VM_USER :: u8 where "VM_USER = 2"
definition VM_CACHE_OFF :: u8 where "VM_CACHE_OFF = 4"

record vm_area_ops =
  handle_pg_fault :: addr
  register_map :: addr
  unregister_map :: addr

record vm_area =
  va_base :: addr
  va_length :: size_t
  va_flags :: u8
  va_owner :: addr
  va_ops :: vm_area_ops
  va_data :: addr

record vm_space =
  vs_root_dir :: addr
  vs_offset :: addr
  vs_rb_areas :: addr

text \<open>The objects of the virtual memory code; the link of a space (\<open>sorted_areas\<close>) is at \<open>space + 12\<close>.\<close>

record vm_mem =
  vm_areas :: "addr \<rightharpoonup> vm_area"
  vm_nodes :: "addr \<rightharpoonup> rbtree_node"
  vm_links :: slist_heap
  vm_spaces :: "addr \<rightharpoonup> vm_space"

definition area_link :: "addr \<Rightarrow> addr" where "area_link a = a + 12"
definition area_node :: "addr \<Rightarrow> addr" where "area_node a = a + 16"
definition link_area :: "addr \<Rightarrow> addr" where "link_area l = l - 12"
definition node_area :: "addr \<Rightarrow> addr" where "node_area n = n - 16"
definition space_head :: "addr \<Rightarrow> addr" where "space_head sp = sp + 12"

lemma area_places [simp]:
  "link_area (area_link a) = a" "node_area (area_node a) = a"
  by (simp_all add: area_link_def area_node_def link_area_def node_area_def)

lemma area_node_eq [simp]: "area_node a = area_node b \<longleftrightarrow> a = b"
  and area_link_eq [simp]: "area_link a = area_link b \<longleftrightarrow> a = b"
  by (simp_all add: area_node_def area_link_def)

definition area_at :: "(addr \<rightharpoonup> vm_area) \<Rightarrow> addr \<Rightarrow> vm_area kres" where
  "area_at m a = (case m a of Some r \<Rightarrow> Inr r | None \<Rightarrow> Inl Undef)"

definition space_at :: "vm_mem \<Rightarrow> addr \<Rightarrow> vm_space kres" where
  "space_at m sp = (case vm_spaces m sp of Some r \<Rightarrow> Inr r | None \<Rightarrow> Inl Undef)"

lemma area_at_Some [simp]: "m a = Some r \<Longrightarrow> area_at m a = Inr r"
  by (simp add: area_at_def)

lemma space_at_Some [simp]: "vm_spaces m sp = Some r \<Longrightarrow> space_at m sp = Inr r"
  by (simp add: space_at_def)

section \<open>Operations\<close>

definition vm_area_rbtcmpfn :: "(addr \<rightharpoonup> vm_area) \<Rightarrow> rbtree_cmp_fn" where
  "vm_area_rbtcmpfn m area_x area_y =
     kassert (area_x \<noteq> NULL) (kassert (area_y \<noteq> NULL)
     (kbind (area_at m area_x) (\<lambda>x. let x_start = va_base x in
      kbind (area_at m area_y) (\<lambda>y. let y_start = va_base y in
      if x_start < y_start
      then kassert (x_start + va_length x - 1 < y_start) (Inr (- 1))
      else if x_start > y_start
      then kassert (y_start + va_length y - 1 < x_start) (Inr 1)
      else Inr 0))))"

definition vm_area_rbtcmpfn_area_to_addr :: "(addr \<rightharpoonup> vm_area) \<Rightarrow> rbtree_cmp_fn" where
  "vm_area_rbtcmpfn_area_to_addr m area a =
     kassert (area \<noteq> NULL)
     (kbind (area_at m area) (\<lambda>r. let area_base = va_base r; area_end = area_base + va_length r - 1 in
      Inr (if a < area_base then 1 else if a \<le> area_end then 0 else - 1)))"

text \<open>
  \<open>vm_area_init\<close> clears the object, with the node and the link in it. The range check of the debug
  build only writes a line to the log.
\<close>

definition vm_area_init :: "vm_mem \<Rightarrow> addr \<Rightarrow> addr \<Rightarrow> size_t \<Rightarrow> addr \<Rightarrow> vm_mem kres" where
  "vm_area_init m area base len owner =
     kassert (area \<noteq> NULL)
     (kassert (check_align base PLATFORM_PAGE_SIZE)
     (kassert (check_align len PLATFORM_PAGE_SIZE)
     (let cleared = \<lparr>rb_data = NULL, rb_left = NULL, rb_right = NULL, rb_parent = NULL, rb_colour = RBTREE_BLACK\<rparr>;
          r = \<lparr>va_base = base, va_length = len, va_flags = 0, va_owner = owner,
            va_ops = \<lparr>handle_pg_fault = NULL, register_map = NULL, unregister_map = NULL\<rparr>, va_data = NULL\<rparr>;
          t = \<lparr>rb_root = NULL, rb_heap = (vm_nodes m)(area_node area \<mapsto> cleared)\<rparr> in
      kbind (rbtree_init_node t (area_node area)) (\<lambda>t.
      kbind (node_put t (area_node area) (\<lambda>n. n\<lparr>rb_data := area\<rparr>)) (\<lambda>t.
      kbind (slist_init ((vm_links m)(area_link area \<mapsto> NULL)) (area_link area)) (\<lambda>h.
        Inr (m\<lparr>vm_areas := (vm_areas m)(area \<mapsto> r), vm_nodes := rb_heap t, vm_links := h\<rparr>)))))))"

definition vm_area_register_map ::
  "(addr \<Rightarrow> 's \<Rightarrow> addr \<Rightarrow> addr \<Rightarrow> (addr \<times> 's) kres) \<Rightarrow> (addr \<rightharpoonup> vm_area) \<Rightarrow> 's \<Rightarrow> addr \<Rightarrow> addr \<Rightarrow> (addr \<times> 's) kres" where
  "vm_area_register_map call m s area d =
     kassert (area \<noteq> NULL) (kbind (area_at m area) (\<lambda>r.
       if register_map (va_ops r) = NULL then Inl Panic
       else call (register_map (va_ops r)) s area d))"

definition vm_area_unregister_map ::
  "(addr \<Rightarrow> 's \<Rightarrow> addr \<Rightarrow> addr \<Rightarrow> 's kres) \<Rightarrow> (addr \<rightharpoonup> vm_area) \<Rightarrow> 's \<Rightarrow> addr \<Rightarrow> addr \<Rightarrow> 's kres" where
  "vm_area_unregister_map call m s area d =
     kassert (area \<noteq> NULL) (kbind (area_at m area) (\<lambda>r.
       if unregister_map (va_ops r) = NULL then Inl Panic
       else call (unregister_map (va_ops r)) s area d))"

section \<open>Areas that are apart\<close>

text \<open>An area that is not empty and does not run over the end of the address space.\<close>

definition area_ok :: "(addr \<rightharpoonup> vm_area) \<Rightarrow> addr \<Rightarrow> bool" where
  "area_ok m a \<longleftrightarrow> a \<noteq> NULL \<and> (case m a of None \<Rightarrow> False
     | Some r \<Rightarrow> 0 < unat (va_length r) \<and> unat (va_base r) + unat (va_length r) \<le> 2 ^ 32)"

definition area_base :: "(addr \<rightharpoonup> vm_area) \<Rightarrow> addr \<Rightarrow> addr" where
  "area_base m a = (case m a of None \<Rightarrow> 0 | Some r \<Rightarrow> va_base r)"

definition area_size :: "(addr \<rightharpoonup> vm_area) \<Rightarrow> addr \<Rightarrow> size_t" where
  "area_size m a = (case m a of None \<Rightarrow> 0 | Some r \<Rightarrow> va_length r)"

definition areas_apart :: "(addr \<rightharpoonup> vm_area) \<Rightarrow> addr set \<Rightarrow> bool" where
  "areas_apart m S \<longleftrightarrow> (\<forall>a \<in> S. area_ok m a) \<and> (\<forall>a \<in> S. \<forall>b \<in> S. a \<noteq> b \<longrightarrow>
     unat (area_base m a) + unat (area_size m a) \<le> unat (area_base m b) \<or>
     unat (area_base m b) + unat (area_size m b) \<le> unat (area_base m a))"

text \<open>The areas the comparison orders: a set of areas that are apart, or none.\<close>

definition ordered_areas :: "(addr \<rightharpoonup> vm_area) \<Rightarrow> addr set \<Rightarrow> addr set" where
  "ordered_areas m S = (if areas_apart m S then S else {})"

lemma area_okD:
  assumes "area_ok m a"
  shows "a \<noteq> NULL" "\<exists>r. m a = Some r \<and> area_base m a = va_base r \<and> area_size m a = va_length r"
    "0 < unat (area_size m a)" "unat (area_base m a) + unat (area_size m a) \<le> 2 ^ 32"
  using assms by (auto simp: area_ok_def area_base_def area_size_def split: option.splits)

lemma areas_apart_ok: "areas_apart m S \<Longrightarrow> a \<in> S \<Longrightarrow> area_ok m a"
  by (simp add: areas_apart_def)

lemma areas_apartD:
  assumes "areas_apart m S" and "a \<in> S" and "b \<in> S" and "a \<noteq> b"
  shows "unat (area_base m a) + unat (area_size m a) \<le> unat (area_base m b) \<or>
     unat (area_base m b) + unat (area_size m b) \<le> unat (area_base m a)"
  using assms by (auto simp: areas_apart_def)

lemma area_last:
  assumes "area_ok m a"
  shows "unat (area_base m a + area_size m a - 1) = unat (area_base m a) + unat (area_size m a) - 1"
proof -
  have "unat (area_size m a - 1) = unat (area_size m a) - 1"
    using area_okD(3) [OF assms] by (simp add: unat_sub32)
  moreover have "unat (area_base m a + (area_size m a - 1)) = unat (area_base m a) + unat (area_size m a - 1)"
    using area_okD(3,4) [OF assms] calculation by (intro unat_add32) simp
  ultimately show ?thesis using area_okD(3) [OF assms] by (simp add: algebra_simps)
qed

lemma areas_apart_base:
  assumes "areas_apart m S" and "a \<in> S" and "b \<in> S"
  shows "area_base m a = area_base m b \<longleftrightarrow> a = b"
proof (cases "a = b")
  case False
  have "area_ok m a" "area_ok m b" using assms by (auto simp: areas_apart_def)
  then show ?thesis using areas_apartD [OF assms False] area_okD(3) by fastforce
qed simp

lemma areas_apart_less:
  assumes "areas_apart m S" and "a \<in> S" and "b \<in> S" and "area_base m a < area_base m b"
  shows "area_base m a + area_size m a - 1 < area_base m b"
    and "unat (area_base m a) + unat (area_size m a) \<le> unat (area_base m b)"
proof -
  have ok: "area_ok m a" "area_ok m b" "a \<noteq> b" using assms by (auto simp: areas_apart_def)
  show "unat (area_base m a) + unat (area_size m a) \<le> unat (area_base m b)"
    using areas_apartD [OF assms(1-3) ok(3)] area_okD(3) [OF ok(2)] assms(4)
    by (auto simp: word_less_nat_alt)
  then show "area_base m a + area_size m a - 1 < area_base m b"
    using area_last [OF ok(1)] area_okD(3) [OF ok(1)] by (simp add: word_less_nat_alt)
qed

lemma rbtcmpfn_apart:
  assumes "areas_apart m S" and "a \<in> S" and "b \<in> S"
  shows "\<exists>c. vm_area_rbtcmpfn m a b = Inr c \<and> (c < 0 \<longleftrightarrow> area_base m a < area_base m b) \<and>
    (c = 0 \<longleftrightarrow> area_base m a = area_base m b)"
proof -
  have ok: "area_ok m a" "area_ok m b" using assms by (auto simp: areas_apart_def)
  obtain ra where ra: "m a = Some ra" "area_base m a = va_base ra" "area_size m a = va_length ra"
    using area_okD(2) [OF ok(1)] by blast
  obtain rb where rb: "m b = Some rb" "area_base m b = va_base rb" "area_size m b = va_length rb"
    using area_okD(2) [OF ok(2)] by blast
  show ?thesis
    using areas_apart_less(1) [OF assms] areas_apart_less(1) [OF assms(1,3,2)]
      area_okD(1) [OF ok(1)] area_okD(1) [OF ok(2)] ra rb
    by (cases "va_base ra" "va_base rb" rule: linorder_cases) (auto simp: vm_area_rbtcmpfn_def Let_def)
qed

text \<open>The tree's contract holds of the comparison of areas.\<close>

interpretation areas: tree_order "vm_area_rbtcmpfn m" "ordered_areas m S" "area_base m" for m S
  by unfold_locales (auto simp: ordered_areas_def dest: rbtcmpfn_apart split: if_splits)

section \<open>Looking an address up\<close>

definition area_covers :: "(addr \<rightharpoonup> vm_area) \<Rightarrow> addr \<Rightarrow> addr \<Rightarrow> bool" where
  "area_covers m a v \<longleftrightarrow> unat (area_base m a) \<le> unat v \<and> unat v < unat (area_base m a) + unat (area_size m a)"

definition to_addr_cmp :: "(addr \<rightharpoonup> vm_area) \<Rightarrow> addr \<Rightarrow> addr \<Rightarrow> int" where
  "to_addr_cmp m v a = (if v < area_base m a then 1 else if area_covers m a v then 0 else - 1)"

lemma area_to_addr_ok:
  assumes "area_ok m a"
  shows "vm_area_rbtcmpfn_area_to_addr m a v = Inr (to_addr_cmp m v a)"
proof -
  obtain r where r: "m a = Some r" "area_base m a = va_base r" "area_size m a = va_length r"
    using area_okD(2) [OF assms] by blast
  have "v \<le> va_base r + va_length r - 1 \<longleftrightarrow> unat v < unat (va_base r) + unat (va_length r)"
    using area_last [OF assms] area_okD(3) [OF assms] r by (simp add: word_le_nat_alt) linarith
  then show ?thesis
    using r area_okD(1) [OF assms]
    by (simp add: vm_area_rbtcmpfn_area_to_addr_def to_addr_cmp_def area_covers_def Let_def
        word_less_nat_alt)
qed

lemma to_addr_probe:
  assumes "areas_apart m S" and "a \<in> S" and "b \<in> S" and "area_base m a < area_base m b"
  shows "probe_le (to_addr_cmp m v a) (to_addr_cmp m v b)"
  using areas_apart_less(2) [OF assms]
  by (auto simp: probe_le_def to_addr_cmp_def area_covers_def word_less_nat_alt)

lemma to_addr_zero: "to_addr_cmp m v a = 0 \<longleftrightarrow> area_covers m a v"
  by (auto simp: to_addr_cmp_def area_covers_def word_less_nat_alt)

end
