(* ===== verification/Vm_Space.thy ===== *)
theory Vm_Space
  imports Vm_Area Rbtree_Swap
begin

text \<open>
  kernel/kernel/mm/vm_space.c: an address space keeps its areas twice, in a red-black tree for
  lookups by address and in a list sorted by address for the search of gaps.
\<close>

section \<open>Operations\<close>

definition space_tree :: "vm_mem \<Rightarrow> vm_space \<Rightarrow> rbtree" where
  "space_tree m vs = \<lparr>rb_root = vs_rb_areas vs, rb_heap = vm_nodes m\<rparr>"

definition put_tree :: "vm_mem \<Rightarrow> addr \<Rightarrow> vm_space \<Rightarrow> rbtree \<Rightarrow> vm_mem" where
  "put_tree m sp vs t =
     m\<lparr>vm_nodes := rb_heap t, vm_spaces := (vm_spaces m)(sp \<mapsto> vs\<lparr>vs_rb_areas := rb_root t\<rparr>)\<rparr>"

definition vm_space_init :: "vm_mem \<Rightarrow> addr \<Rightarrow> addr \<Rightarrow> addr \<Rightarrow> vm_mem kres" where
  "vm_space_init m space root_pdir offset =
     kassert (space \<noteq> NULL) (kassert (root_pdir \<noteq> NULL)
     (kbind (slist_init (vm_links m) (space_head space)) (\<lambda>h.
      kbind (rbtree_init_tree \<lparr>rb_root = NULL, rb_heap = vm_nodes m\<rparr>) (\<lambda>t.
        Inr (m\<lparr>vm_links := h, vm_spaces := (vm_spaces m)(space \<mapsto>
          \<lparr>vs_root_dir = root_pdir, vs_offset = offset, vs_rb_areas = rb_root t\<rparr>)\<rparr>)))))"

definition vm_space_insert_area :: "vm_mem \<Rightarrow> addr \<Rightarrow> addr \<Rightarrow> vm_mem kres" where
  "vm_space_insert_area m space area =
     kassert (space \<noteq> NULL)
     (kbind (space_at m space) (\<lambda>vs. kbind (area_at (vm_areas m) area) (\<lambda>r.
      kassert (vs_offset vs \<le> va_base r)
      (let t = space_tree m vs; cmp = vm_area_rbtcmpfn (vm_areas m) in
       kbind (rbtree_search_max t area cmp) (\<lambda>left_neigh_node.
       kbind (if left_neigh_node \<noteq> NULL
         then kbind (node_at t left_neigh_node) (\<lambda>n. Inr (rb_data n)) else Inr NULL) (\<lambda>left_neigh.
       kbind (rbtree_insert t (area_node area) cmp) (\<lambda>t.
       kbind (if left_neigh = NULL
         then slist_insert (vm_links m) (space_head space) (area_link area)
         else slist_insert (vm_links m) (area_link left_neigh) (area_link area)) (\<lambda>h.
         Inr ((put_tree m space vs t)\<lparr>vm_links := h\<rparr>)))))))))"

definition vm_space_remove_area :: "vm_mem \<Rightarrow> addr \<Rightarrow> addr \<Rightarrow> vm_mem kres" where
  "vm_space_remove_area m space area =
     kassert (space \<noteq> NULL) (kassert (area \<noteq> NULL)
     (kbind (space_at m space) (\<lambda>vs.
      kbind (rbtree_delete (space_tree m vs) (area_node area)) (\<lambda>t.
      kbind (slist_remove (vm_links m) (space_head space) (area_link area)) (\<lambda>h.
        Inr ((put_tree m space vs t)\<lparr>vm_links := h\<rparr>))))))"

text \<open>The loop of \<open>vm_space_find_gap\<close>: the gap it stops at, or the end of the last area.\<close>

definition CONF_VM_AVAILABLE_PAGES :: size_t where
  "CONF_VM_AVAILABLE_PAGES = 1022"

definition LAST_AVAILABLE_ADDR :: addr where
  "LAST_AVAILABLE_ADDR = CONF_VM_AVAILABLE_PAGES * PLATFORM_PAGE_SIZE"

fun find_gap_loop :: "nat \<Rightarrow> vm_mem \<Rightarrow> (addr \<Rightarrow> size_t \<Rightarrow> bool) \<Rightarrow> addr \<Rightarrow> addr \<Rightarrow>
    ((addr \<times> size_t) option \<times> addr) kres" where
  "find_gap_loop 0 m pred it next_after = Inl Fuel"
| "find_gap_loop (Suc fuel) m pred it next_after =
     (if it = NULL then Inr (None, next_after)
      else kbind (area_at (vm_areas m) (link_area it)) (\<lambda>a.
        let current_base = next_after; current_length = va_base a - current_base in
        kassert (check_align current_base PLATFORM_PAGE_SIZE)
        (kassert (check_align current_length PLATFORM_PAGE_SIZE)
        (if pred current_base current_length then Inr (Some (current_base, current_length), next_after)
         else kbind (slist_next (vm_links m) it) (\<lambda>it.
           find_gap_loop fuel m pred it (va_base a + va_length a))))))"

definition vm_space_find_gap :: "vm_mem \<Rightarrow> addr \<Rightarrow> (addr \<Rightarrow> size_t \<Rightarrow> bool) \<Rightarrow> (addr \<times> size_t) kres" where
  "vm_space_find_gap m space pred =
     kassert (space \<noteq> NULL)
     (kbind (space_at m space) (\<lambda>vs.
      kbind (slist_next (vm_links m) (space_head space)) (\<lambda>it.
      kbind (find_gap_loop addr_fuel m pred it (vs_offset vs)) (\<lambda>(hit, next_after).
      case hit of Some g \<Rightarrow> Inr g
      | None \<Rightarrow> let length_til_space_end = LAST_AVAILABLE_ADDR - next_after + 1 in
          Inr (if pred next_after length_til_space_end then (next_after, length_til_space_end)
            else (NULL, 0))))))"

section \<open>The areas of a space\<close>

text \<open>
  \<open>space_ok m sp as\<close>: the tree and the list of the space both hold the areas \<open>as\<close>, in the order
  of their addresses; the areas are apart and not below the offset of the space.
\<close>

definition space_ok :: "vm_mem \<Rightarrow> addr \<Rightarrow> addr list \<Rightarrow> bool" where
  "space_ok m sp as \<longleftrightarrow> sp \<noteq> NULL \<and> areas_apart (vm_areas m) (set as) \<and>
     sorted (map (area_base (vm_areas m)) as) \<and>
     slist_rep (vm_links m) (space_head sp) (map area_link as) \<and>
     (\<exists>vs T. vm_spaces m sp = Some vs \<and> (\<forall>a \<in> set as. vs_offset vs \<le> area_base (vm_areas m) a) \<and>
        tree_is node_area (space_tree m vs) T \<and> red_black T \<and> nodes T = map area_node as)"

lemma insort_key_map:
  "(\<And>x. g (h x) = x) \<Longrightarrow> insort_key (\<lambda>x. f (g x)) (h a) (map h xs) = map h (insort_key f a xs)"
  by (induction xs) auto

lemma insort_key_split:
  "\<forall>x \<in> set ls. f x < f a \<Longrightarrow> \<forall>x \<in> set rs. f a < f x \<Longrightarrow> insort_key f a (ls @ rs) = ls @ a # rs"
proof (induction ls)
  case Nil
  then show ?case by (cases rs) auto
qed auto

lemma sorted_split:
  assumes "sorted (map f xs)" and "\<forall>x \<in> set xs. f x \<noteq> (f a :: 'a :: linorder)"
  shows "\<exists>ls rs. xs = ls @ rs \<and> (\<forall>x \<in> set ls. f x < f a) \<and> (\<forall>x \<in> set rs. f a < f x)"
  using assms
proof (induction xs)
  case (Cons x xs)
  show ?case
  proof (cases "f x < f a")
    case True
    obtain ls rs where "xs = ls @ rs" "\<forall>x \<in> set ls. f x < f a" "\<forall>x \<in> set rs. f a < f x"
      using Cons by auto
    then show ?thesis using True by (intro exI [of _ "x # ls"] exI [of _ rs]) auto
  next
    case False
    then have "\<forall>y \<in> set (x # xs). f a < f y" using Cons.prems by fastforce
    then show ?thesis by (intro exI [of _ "[]"] exI [of _ "x # xs"]) auto
  qed
qed simp

lemma tree_is_data:
  assumes "tree_is dat t T" and "n \<in> set (nodes T)"
  shows "\<exists>nd. rb_heap t n = Some nd \<and> node_at t n = Inr nd \<and> rb_data nd = dat n \<and> n \<noteq> NULL"
proof -
  obtain c l r k where T: "T = plug (Bin c l n r) k" using node_place [OF assms(2)] by blast
  then show ?thesis using assms(1) by (auto simp: tree_is_plug node_at_def)
qed

lemma space_okD:
  assumes "space_ok m sp as"
  shows "sp \<noteq> NULL" "areas_apart (vm_areas m) (set as)" "sorted (map (area_base (vm_areas m)) as)"
    "slist_rep (vm_links m) (space_head sp) (map area_link as)" "distinct as"
  using assms slist_repD(4) [of "vm_links m" "space_head sp" "map area_link as"]
  by (auto simp: space_ok_def distinct_map)

lemma space_sorted_tree:
  assumes "space_ok m sp as" and "nodes T = map area_node as" and "areas_apart (vm_areas m) S" and "set as \<subseteq> S"
  shows "sorted_tree (area_base (vm_areas m)) (ordered_areas (vm_areas m) S) node_area T"
  using assms space_okD(3) [OF assms(1)] by (auto simp: sorted_tree_def ordered_areas_def comp_def)

section \<open>Insertion\<close>

lemma search_left:
  assumes "space_ok m sp (ls @ rs)" and "areas_apart (vm_areas m) (insert new (set (ls @ rs)))"
    and "vm_spaces m sp = Some vs" and "tree_is node_area (space_tree m vs) T"
    and "nodes T = map area_node (ls @ rs)"
    and "\<forall>x \<in> set ls. area_base (vm_areas m) x < area_base (vm_areas m) new"
    and "\<forall>x \<in> set rs. area_base (vm_areas m) new < area_base (vm_areas m) x"
  shows "rbtree_search_max (space_tree m vs) new (vm_area_rbtcmpfn (vm_areas m)) =
    Inr (if ls = [] then NULL else area_node (last ls))"
proof -
  let ?S = "insert new (set (ls @ rs))" and ?b = "area_base (vm_areas m)"
  have new: "new \<in> ordered_areas (vm_areas m) ?S" "new \<noteq> NULL"
    using assms(2) area_okD(1) by (auto simp: ordered_areas_def areas_apart_def)
  have srt: "sorted_tree ?b (ordered_areas (vm_areas m) ?S) node_area T"
    using assms(1,2,5) by (intro space_sorted_tree) auto
  obtain n where n: "rbtree_search_max (space_tree m vs) new (vm_area_rbtcmpfn (vm_areas m)) = Inr n"
    "if \<exists>x \<in> set (nodes T). ?b (node_area x) \<le> ?b new
     then n \<in> set (nodes T) \<and> ?b (node_area n) \<le> ?b new \<and>
       (\<forall>x \<in> set (nodes T). ?b (node_area x) \<le> ?b new \<longrightarrow> ?b (node_area x) \<le> ?b (node_area n))
     else n = NULL"
    using areas.search_floor [OF assms(4) srt new] by blast
  show ?thesis
  proof (cases "ls = []")
    case True
    then have "\<not> (\<exists>x \<in> set (nodes T). ?b (node_area x) \<le> ?b new)" using assms(5,7) by auto
    then show ?thesis using n True by simp
  next
    case False
    then have l: "last ls \<in> set ls" by simp
    then have "area_node (last ls) \<in> set (nodes T)" "?b (node_area (area_node (last ls))) \<le> ?b new"
      using assms(5,6) by auto
    then have nn: "n \<in> set (nodes T)" "?b (node_area n) \<le> ?b new" "?b (last ls) \<le> ?b (node_area n)"
      using n(2) by (auto split: if_splits)
    then obtain a where a: "a \<in> set ls" "n = area_node a" using assms(5,7) by auto
    have "sorted (map ?b ls)" using space_okD(3) [OF assms(1)] by (simp add: sorted_append)
    then have "?b a \<le> ?b (last ls)" using a(1) False
      by (induction ls) (auto simp: last_in_set)
    then have "a = last ls"
      using areas_apart_base [OF assms(2), of a "last ls"] nn(3) a l by auto
    then show ?thesis using n(1) a(2) False by simp
  qed
qed

lemma slist_insert_after:
  assumes "slist_rep h p (map area_link (ls @ rs))" and "area_link new \<noteq> NULL" and "new \<notin> set (ls @ rs)"
    and "area_link new \<noteq> p"
  shows "\<exists>h'. slist_insert h (if ls = [] then p else area_link (last ls)) (area_link new) = Inr h' \<and>
    slist_rep h' p (map area_link (ls @ new # rs))"
proof -
  have "last (p # map area_link ls) = (if ls = [] then p else area_link (last ls))"
    by (simp add: last_map)
  moreover have "area_link new \<notin> set (p # map area_link ls @ map area_link rs)"
    using assms(3,4) by auto
  moreover have "slist_rep h p (map area_link ls @ map area_link rs)" using assms(1) by simp
  from slist_insert_rep [OF this assms(2) calculation(2)] obtain h' where
    "slist_insert h (last (p # map area_link ls)) (area_link new) = Inr h'"
    "slist_rep h' p (map area_link ls @ area_link new # map area_link rs)" .
  ultimately show ?thesis by simp
qed

lemma insert_area_ok:
  assumes sp: "space_ok m sp as" and new: "areas_apart (vm_areas m) (insert new (set as))" "new \<notin> set as"
    and vs: "vm_spaces m sp = Some vs" "vs_offset vs \<le> area_base (vm_areas m) new"
    and place: "area_link new \<noteq> NULL" "area_node new \<noteq> NULL" "area_link new \<noteq> space_head sp"
    and nd: "vm_nodes m (area_node new) = Some nd" "rb_data nd = new"
  shows "\<exists>m'. vm_space_insert_area m sp new = Inr m' \<and> vm_areas m' = vm_areas m \<and>
    space_ok m' sp (insort_key (area_base (vm_areas m)) new as)"
proof -
  let ?b = "area_base (vm_areas m)" and ?t = "space_tree m vs" and ?cmp = "vm_area_rbtcmpfn (vm_areas m)"
  let ?S = "insert new (set as)"
  obtain T where T: "\<forall>a \<in> set as. vs_offset vs \<le> ?b a" "tree_is node_area ?t T" "red_black T"
    "nodes T = map area_node as"
    using sp vs(1) by (auto simp: space_ok_def)
  note d = space_okD [OF sp]
  have "\<forall>x \<in> set as. ?b x \<noteq> ?b new" using areas_apart_base [OF new(1)] new(2) by auto
  then obtain ls rs where as: "as = ls @ rs" "\<forall>x \<in> set ls. ?b x < ?b new" "\<forall>x \<in> set rs. ?b new < ?b x"
    using sorted_split [OF d(3)] by blast
  have ins: "insort_key ?b new as = ls @ new # rs" using insort_key_split as by metis
  have ok: "area_ok (vm_areas m) new" using new(1) by (simp add: areas_apart_def)
  obtain r where r: "vm_areas m new = Some r" "va_base r = ?b new" using area_okD(2) [OF ok] by auto
  have sm: "rbtree_search_max ?t new ?cmp = Inr (if ls = [] then NULL else area_node (last ls))"
    using search_left sp new(1) vs(1) T(2,4) as by blast
  have ln: "kbind (rbtree_search_max ?t new ?cmp) (\<lambda>n.
      kbind (if n \<noteq> NULL then kbind (node_at ?t n) (\<lambda>n. Inr (rb_data n)) else Inr NULL) f) =
      f (if ls = [] then NULL else last ls)" for f :: "addr \<Rightarrow> vm_mem kres"
  proof (cases "ls = []")
    case False
    then have "area_node (last ls) \<in> set (nodes T)" using T(4) as(1) by simp
    then show ?thesis using tree_is_data [OF T(2)] False sm by fastforce
  qed (simp add: sm)
  have srt: "sorted_tree ?b (ordered_areas (vm_areas m) ?S) node_area T"
    using space_sorted_tree [OF sp T(4) new(1)] by blast
  have "area_node new \<notin> set (nodes T)" using T(4) new(2) by auto
  moreover have "node_area (area_node new) \<in> ordered_areas (vm_areas m) ?S"
    using new(1) by (simp add: ordered_areas_def)
  ultimately obtain t' T' where t': "rbtree_insert ?t (area_node new) ?cmp = Inr t'"
    "tree_is node_area t' T'" "red_black T'"
    "nodes T' = insort_key (\<lambda>x. ?b (node_area x)) (area_node new) (nodes T)"
    using areas.insert_ok [OF T(2,3) srt place(2), of nd] nd by (auto simp: space_tree_def)
  have nT': "nodes T' = map area_node (ls @ new # rs)"
    unfolding t'(4) T(4) ins [symmetric] by (rule insort_key_map) simp
  have lsnn: "ls \<noteq> [] \<Longrightarrow> last ls \<noteq> NULL"
    using areas_apart_ok [OF new(1), THEN area_okD(1)] last_in_set [of ls] as(1) by auto
  obtain h' where h': "slist_insert (vm_links m) (if ls = [] then space_head sp else area_link (last ls))
      (area_link new) = Inr h'" "slist_rep h' (space_head sp) (map area_link (ls @ new # rs))"
    using slist_insert_after [OF _ place(1) _ place(3), of "vm_links m" ls rs] d(4) as(1) new(2) by auto
  let ?m = "(put_tree m sp vs t')\<lparr>vm_links := h'\<rparr>"
  have step: "vm_space_insert_area m sp new = Inr ?m"
    using d(1) vs r t'(1) h'(1) lsnn
    by (simp add: vm_space_insert_area_def ln Let_def split: if_splits)
  have "sorted (map ?b (ls @ new # rs))" using d(3) as by (auto simp: sorted_append intro: less_imp_le)
  moreover have "set (ls @ new # rs) = ?S" using as(1) by auto
  moreover have "space_tree ?m (vs\<lparr>vs_rb_areas := rb_root t'\<rparr>) = t'"
    by (simp add: space_tree_def put_tree_def)
  ultimately have "space_ok ?m sp (ls @ new # rs)"
    unfolding space_ok_def using d(1) new(1) h'(2) t'(2,3) nT' T(1) vs(2) as(1)
    by (auto simp: put_tree_def intro!: exI [of _ "vs\<lparr>vs_rb_areas := rb_root t'\<rparr>"] exI [of _ T'])
  then show ?thesis using step ins by (auto simp: put_tree_def)
qed

section \<open>Removal\<close>

lemma areas_apart_subset: "areas_apart m S \<Longrightarrow> R \<subseteq> S \<Longrightarrow> areas_apart m R"
  by (auto simp: areas_apart_def)

lemma remove_area_ok:
  assumes sp: "space_ok m sp as" and a: "a \<in> set as"
  shows "\<exists>m'. vm_space_remove_area m sp a = Inr m' \<and> vm_areas m' = vm_areas m \<and>
    space_ok m' sp (remove1 a as)"
proof -
  let ?b = "area_base (vm_areas m)"
  obtain vs T where T: "vm_spaces m sp = Some vs" "\<forall>a \<in> set as. vs_offset vs \<le> ?b a"
    "tree_is node_area (space_tree m vs) T" "red_black T" "nodes T = map area_node as"
    using sp by (auto simp: space_ok_def)
  note d = space_okD [OF sp]
  obtain t' T' where t': "rbtree_delete (space_tree m vs) (area_node a) = Inr t'"
    "tree_is node_area t' T'" "red_black T'" "nodes T' = remove1 (area_node a) (nodes T)"
    using delete_ok [OF T(3,4), of "area_node a"] T(5) a by auto
  obtain h' where h': "slist_remove (vm_links m) (space_head sp) (area_link a) = Inr h'"
    "slist_rep h' (space_head sp) (remove1 (area_link a) (map area_link as))"
    using slist_remove_rep [OF d(4), of "area_link a"] a by auto
  let ?m = "(put_tree m sp vs t')\<lparr>vm_links := h'\<rparr>"
  have "a \<noteq> NULL" using areas_apart_ok [OF d(2) a] area_okD(1) by auto
  then have step: "vm_space_remove_area m sp a = Inr ?m"
    using d(1) T(1) t'(1) h'(1) by (simp add: vm_space_remove_area_def)
  have sub: "set (remove1 a as) \<subseteq> set as" by (rule set_remove1_subset)
  have "space_tree ?m (vs\<lparr>vs_rb_areas := rb_root t'\<rparr>) = t'"
    by (simp add: space_tree_def put_tree_def)
  moreover have "nodes T' = map area_node (remove1 a as)"
    using t'(4) T(5) remove1_map [of area_node a as] by simp
  moreover have "slist_rep h' (space_head sp) (map area_link (remove1 a as))"
    using h'(2) remove1_map [of area_link a as] by simp
  ultimately have "space_ok ?m sp (remove1 a as)"
    unfolding space_ok_def
    using d(1) areas_apart_subset [OF d(2) sub] sorted_remove1_map [OF d(3)] t'(2,3) T(2) sub
    by (auto simp: put_tree_def intro!: exI [of _ "vs\<lparr>vs_rb_areas := rb_root t'\<rparr>"] exI [of _ T'])
  then show ?thesis using step by (auto simp: put_tree_def)
qed

section \<open>The gaps between the areas\<close>

fun inner_gaps :: "(addr \<rightharpoonup> vm_area) \<Rightarrow> addr \<Rightarrow> addr list \<Rightarrow> (addr \<times> size_t) list" where
  "inner_gaps m next_after [] = []"
| "inner_gaps m next_after (a # as) =
     (next_after, area_base m a - next_after) # inner_gaps m (area_base m a + area_size m a) as"

fun areas_end :: "(addr \<rightharpoonup> vm_area) \<Rightarrow> addr \<Rightarrow> addr list \<Rightarrow> addr" where
  "areas_end m next_after [] = next_after"
| "areas_end m next_after (a # as) = areas_end m (area_base m a + area_size m a) as"

definition last_gap :: "addr \<Rightarrow> addr \<times> size_t" where
  "last_gap next_after = (next_after, LAST_AVAILABLE_ADDR - next_after + 1)"

text \<open>Areas whose bases and lengths are whole pages.\<close>

definition page_areas :: "(addr \<rightharpoonup> vm_area) \<Rightarrow> addr list \<Rightarrow> bool" where
  "page_areas m as \<longleftrightarrow> (\<forall>a \<in> set as. check_align (area_base m a) PLATFORM_PAGE_SIZE \<and>
     check_align (area_size m a) PLATFORM_PAGE_SIZE)"

lemma page_align_dvd: "check_align v PLATFORM_PAGE_SIZE \<longleftrightarrow> 4096 dvd unat v"
  using check_align_dvd [of 12 v] by (simp add: PLATFORM_PAGE_SIZE_def)

lemma page_rounddown:
  "unat (align_rounddown a PLATFORM_PAGE_SIZE) = unat a div 4096 * 4096"
  "a AND align_rounddown a PLATFORM_PAGE_SIZE = align_rounddown a PLATFORM_PAGE_SIZE"
  "a AND (- PLATFORM_PAGE_SIZE) = align_rounddown a PLATFORM_PAGE_SIZE"
  using unat_align_rounddown [of 12 a]
  by (simp_all add: PLATFORM_PAGE_SIZE_def align_rounddown_def)

lemma page_align_diff:
  "check_align a PLATFORM_PAGE_SIZE \<Longrightarrow> check_align b PLATFORM_PAGE_SIZE \<Longrightarrow>
   check_align (a - b) PLATFORM_PAGE_SIZE"
  unfolding page_align_dvd unat_sub_if' by (auto intro!: dvd_diff_nat dvd_add)

lemma page_align_add:
  "check_align a PLATFORM_PAGE_SIZE \<Longrightarrow> check_align b PLATFORM_PAGE_SIZE \<Longrightarrow>
   check_align (a + b) PLATFORM_PAGE_SIZE"
  unfolding page_align_dvd unat_word_ariths by (rule dvd_mod) auto

lemma find_gap_loop_ok:
  assumes "slist_rep (vm_links m) p (map area_link (us @ as))" and "\<forall>a \<in> set as. area_ok (vm_areas m) a"
    and "page_areas (vm_areas m) as" and "check_align n PLATFORM_PAGE_SIZE" and "length as < fuel"
  shows "\<exists>e. find_gap_loop fuel m pred (hd (map area_link as @ [NULL])) n =
      Inr (find (\<lambda>(b, l). pred b l) (inner_gaps (vm_areas m) n as), e) \<and>
    (find (\<lambda>(b, l). pred b l) (inner_gaps (vm_areas m) n as) = None \<longrightarrow> e = areas_end (vm_areas m) n as)"
  using assms
proof (induction as arbitrary: us n fuel)
  case Nil
  then show ?case by (cases fuel) auto
next
  case (Cons a as)
  obtain f where f: "fuel = Suc f" using Cons.prems(5) by (cases fuel) auto
  obtain r where r: "vm_areas m a = Some r" "area_base (vm_areas m) a = va_base r"
    "area_size (vm_areas m) a = va_length r"
    using area_okD(2) [of "vm_areas m" a] Cons.prems(2) by auto
  have al: "check_align (va_base r) PLATFORM_PAGE_SIZE" "check_align (va_length r) PLATFORM_PAGE_SIZE"
    "page_areas (vm_areas m) as"
    using Cons.prems(3) r by (auto simp: page_areas_def)
  have sl: "slist_rep (vm_links m) p (map area_link us @ area_link a # map area_link as)"
    using Cons.prems(1) by simp
  have nn: "area_link a \<noteq> NULL" using slist_repD(5) [OF sl] by auto
  have nx: "slist_next (vm_links m) (area_link a) = Inr (hd (map area_link as @ [NULL]))"
    using slist_next_rep [of "vm_links m" p "map area_link us @ [area_link a]" "map area_link as"] sl by simp
  have "slist_rep (vm_links m) p (map area_link ((us @ [a]) @ as))" using sl by simp
  from Cons.IH [OF this _ al(3) page_align_add [OF al(1,2)], of f] Cons.prems(2,5) f
  show ?case
    using r nn nx Cons.prems(4) page_align_diff [OF al(1) Cons.prems(4)]
    by (auto simp: f Let_def)
qed

lemma find_gap_ok:
  assumes sp: "space_ok m sp as" and vs: "vm_spaces m sp = Some vs"
    and al: "check_align (vs_offset vs) PLATFORM_PAGE_SIZE" "page_areas (vm_areas m) as"
  shows "vm_space_find_gap m sp pred =
    Inr (case find (\<lambda>(b, l). pred b l)
           (inner_gaps (vm_areas m) (vs_offset vs) as @ [last_gap (areas_end (vm_areas m) (vs_offset vs) as)])
         of Some g \<Rightarrow> g | None \<Rightarrow> (NULL, 0))"
proof -
  note d = space_okD [OF sp]
  have "length (space_head sp # map area_link as) \<le> addr_fuel"
    using slist_repD(4) [OF d(4)] by (rule distinct_addr_length)
  then have "length as < addr_fuel" by simp
  then obtain e where e: "find_gap_loop addr_fuel m pred (hd (map area_link as @ [NULL])) (vs_offset vs) =
      Inr (find (\<lambda>(b, l). pred b l) (inner_gaps (vm_areas m) (vs_offset vs) as), e)"
    "find (\<lambda>(b, l). pred b l) (inner_gaps (vm_areas m) (vs_offset vs) as) = None \<longrightarrow>
      e = areas_end (vm_areas m) (vs_offset vs) as"
    using find_gap_loop_ok [of m "space_head sp" "[]" as "vs_offset vs" addr_fuel pred] d(4) al
      areas_apart_ok [OF d(2)] by auto
  have "slist_next (vm_links m) (space_head sp) = Inr (hd (map area_link as @ [NULL]))"
    using sl.nxt_law [OF d(4)] by simp
  then show ?thesis
    using d(1) vs e
    by (auto simp: vm_space_find_gap_def last_gap_def Let_def find_append_case split: option.splits)
qed

text \<open>No area reaches into a gap between the areas.\<close>

definition gap_free :: "(addr \<rightharpoonup> vm_area) \<Rightarrow> addr \<times> size_t \<Rightarrow> addr \<Rightarrow> bool" where
  "gap_free m g a \<longleftrightarrow> unat (fst g) + unat (snd g) \<le> unat (area_base m a) \<or>
     unat (area_base m a) + unat (area_size m a) \<le> unat (fst g)"

lemma inner_gaps_free:
  assumes "areas_apart m (set as)" and "sorted (map (area_base m) as)" and "distinct as"
    and "\<forall>a \<in> P. unat (area_base m a) + unat (area_size m a) \<le> unat n" and "\<forall>a \<in> set as. n \<le> area_base m a"
    and "g \<in> set (inner_gaps m n as)" and "a \<in> P \<union> set as"
  shows "gap_free m g a"
  using assms
proof (induction as arbitrary: n P)
  case (Cons x as)
  let ?e = "area_base m x + area_size m x"
  have okx: "area_ok m x" using Cons.prems(1) by (simp add: areas_apart_def)
  have le: "area_base m x \<le> area_base m y" if "y \<in> set (x # as)" for y
    using Cons.prems(2) that by auto
  consider "g = (n, area_base m x - n)" | "g \<in> set (inner_gaps m ?e as)" using Cons.prems(6) by auto
  then show ?case
  proof cases
    case 1
    have "n \<le> area_base m x" using Cons.prems(5) by simp
    then have "unat n + unat (area_base m x - n) = unat (area_base m x)"
      by (simp add: unat_sub32 word_le_nat_alt)
    then show ?thesis
      using 1 Cons.prems(4,7) le by (auto simp: gap_free_def word_le_nat_alt)
  next
    case 2
    then obtain y ys where y: "as = y # ys" by (cases as) auto
    have after: "unat (area_base m x) + unat (area_size m x) \<le> unat (area_base m z)" if "z \<in> set as" for z
    proof -
      have "z \<noteq> x" "z \<in> set (x # as)" using that Cons.prems(3) by auto
      moreover then have "area_base m x \<noteq> area_base m z"
        using areas_apart_base [OF Cons.prems(1), of x z] by auto
      ultimately show ?thesis
        using areas_apart_less(2) [OF Cons.prems(1), of x z] le [of z] by auto
    qed
    have e: "unat ?e = unat (area_base m x) + unat (area_size m x)"
      by (rule unat_add32) (use after [of y] y unat_lt32 [of "area_base m y"] in \<open>simp del: unat_lt32\<close>)
    have "areas_apart m (set as)" using areas_apart_subset [OF Cons.prems(1)] by auto
    moreover have "\<forall>z \<in> insert x P. unat (area_base m z) + unat (area_size m z) \<le> unat ?e"
      using Cons.prems(4,5) e by (auto simp: word_le_nat_alt)
    moreover have "\<forall>z \<in> set as. ?e \<le> area_base m z" using after e by (simp add: word_le_nat_alt)
    ultimately show ?thesis
      using Cons.IH [of "insert x P" ?e] Cons.prems(2,3,7) 2 by auto
  qed
qed simp

section \<open>A fresh space\<close>

lemma space_init_ok:
  assumes "sp \<noteq> NULL" and "root \<noteq> NULL" and "space_head sp \<noteq> NULL" and "vm_links m NULL = None"
  shows "\<exists>m'. vm_space_init m sp root off = Inr m' \<and> vm_areas m' = vm_areas m \<and> space_ok m' sp []"
proof -
  obtain h' where h': "slist_init (vm_links m) (space_head sp) = Inr h'" "slist_rep h' (space_head sp) []"
    using slist_init_rep [of "space_head sp" "vm_links m"] assms(3,4) by metis
  then show ?thesis
    using assms(1,2)
    by (auto simp: vm_space_init_def rbtree_init_tree_def space_ok_def areas_apart_def tree_is_def
        space_tree_def red_black_def intro!: exI [of _ Tip])
qed

section \<open>Properties\<close>

text \<open>A space at 0x100 with one area, at 0x200, and a second area, at 0x300, that is not in it yet.\<close>

definition example_area :: "addr \<Rightarrow> size_t \<Rightarrow> vm_area" where
  "example_area base len = \<lparr>va_base = base, va_length = len, va_flags = VM_WRITE, va_owner = 0x100,
     va_ops = \<lparr>handle_pg_fault = NULL, register_map = NULL, unregister_map = NULL\<rparr>, va_data = NULL\<rparr>"

definition example_mem :: vm_mem where
  "example_mem = \<lparr>vm_areas = [0x200 \<mapsto> example_area 0xC0001000 0x1000, 0x300 \<mapsto> example_area 0xC0004000 0x2000],
     vm_nodes = [0x210 \<mapsto> node_val node_area 0x210 NULL NULL NULL RBTREE_BLACK,
       0x310 \<mapsto> node_val node_area 0x310 NULL NULL NULL RBTREE_RED],
     vm_links = [0x10C \<mapsto> 0x20C, 0x20C \<mapsto> NULL, 0x30C \<mapsto> NULL],
     vm_spaces = [0x100 \<mapsto> \<lparr>vs_root_dir = 0x1000, vs_offset = 0xC0000000, vs_rb_areas = 0x210\<rparr>]\<rparr>"

lemma example_apart: "areas_apart (vm_areas example_mem) {0x200, 0x300}"
  by (simp add: areas_apart_def area_ok_def area_base_def area_size_def example_mem_def example_area_def)

lemma example_space: "space_ok example_mem 0x100 [0x200]"
proof -
  have "areas_apart (vm_areas example_mem) {0x200}"
    by (rule areas_apart_subset [OF example_apart]) simp
  moreover have "slist_rep (vm_links example_mem) (space_head 0x100) (map area_link [0x200])"
    by (simp add: slist_rep_def example_mem_def space_head_def area_link_def)
  moreover have "tree_is node_area (space_tree example_mem
      \<lparr>vs_root_dir = 0x1000, vs_offset = 0xC0000000, vs_rb_areas = 0x210\<rparr>) (Bin RBTREE_BLACK Tip 0x210 Tip)"
    by (simp add: tree_is_def space_tree_def example_mem_def)
  ultimately show ?thesis
    unfolding space_ok_def
    by (intro conjI exI [of _ "\<lparr>vs_root_dir = 0x1000, vs_offset = 0xC0000000, vs_rb_areas = 0x210\<rparr>"]
        exI [of _ "Bin RBTREE_BLACK Tip 0x210 Tip"])
      (simp_all add: red_black_def area_node_def area_base_def example_area_def example_mem_def)
qed

text \<open>C38: inserting an area that is apart from those of the space succeeds, and the tree and the list
  then both hold the old areas and the new one in the order of their addresses.\<close>

theorem vm_space_insert_refines:
  assumes "space_ok m sp as" and "areas_apart (vm_areas m) (insert new (set as))" and "new \<notin> set as"
    and "vm_spaces m sp = Some vs" and "vs_offset vs \<le> area_base (vm_areas m) new"
    and "area_link new \<noteq> NULL" and "area_node new \<noteq> NULL" and "area_link new \<noteq> space_head sp"
    and "vm_nodes m (area_node new) = Some nd" and "rb_data nd = new"
  shows "\<exists>m'. vm_space_insert_area m sp new = Inr m' \<and> vm_areas m' = vm_areas m \<and>
    space_ok m' sp (insort_key (area_base (vm_areas m)) new as)"
  by (rule insert_area_ok [OF assms])

theorem vm_space_insert_refines_witness:
  "\<exists>m'. vm_space_insert_area example_mem 0x100 0x300 = Inr m' \<and> vm_areas m' = vm_areas example_mem \<and>
     space_ok m' 0x100 (insort_key (area_base (vm_areas example_mem)) 0x300 [0x200])"
  by (rule vm_space_insert_refines [OF example_space, where
        vs = "\<lparr>vs_root_dir = 0x1000, vs_offset = 0xC0000000, vs_rb_areas = 0x210\<rparr>" and
        nd = "node_val node_area 0x310 NULL NULL NULL RBTREE_RED"])
    (use example_apart in \<open>simp_all add: insert_commute example_mem_def area_link_def area_node_def
      space_head_def node_area_def area_base_def example_area_def\<close>)

text \<open>Removing an area of the space succeeds, and the tree and the list then both hold the other
  areas in their order.\<close>

theorem vm_space_remove_refines:
  assumes "space_ok m sp as" and "a \<in> set as"
  shows "\<exists>m'. vm_space_remove_area m sp a = Inr m' \<and> vm_areas m' = vm_areas m \<and>
    space_ok m' sp (remove1 a as)"
  by (rule remove_area_ok [OF assms])

theorem vm_space_remove_refines_witness:
  "\<exists>m'. vm_space_remove_area example_mem 0x100 0x200 = Inr m' \<and> space_ok m' 0x100 []"
  using vm_space_remove_refines [OF example_space, of "0x200"] by auto

text \<open>\<open>vm_space_find_gap\<close> returns the first gap the predicate accepts, of those before the first
  area, between the areas and after the last one, or \<open>NULL\<close>; no area of the space reaches into a gap
  before or between the areas.\<close>

theorem vm_space_find_gap_first:
  assumes "space_ok m sp as" and "vm_spaces m sp = Some vs"
    and "check_align (vs_offset vs) PLATFORM_PAGE_SIZE" and "page_areas (vm_areas m) as"
  shows "vm_space_find_gap m sp pred =
      Inr (case find (\<lambda>(b, l). pred b l)
             (inner_gaps (vm_areas m) (vs_offset vs) as @ [last_gap (areas_end (vm_areas m) (vs_offset vs) as)])
           of Some g \<Rightarrow> g | None \<Rightarrow> (NULL, 0)) \<and>
    (\<forall>g \<in> set (inner_gaps (vm_areas m) (vs_offset vs) as). \<forall>a \<in> set as. gap_free (vm_areas m) g a)"
proof (intro conjI ballI)
  show "gap_free (vm_areas m) g a"
    if "g \<in> set (inner_gaps (vm_areas m) (vs_offset vs) as)" "a \<in> set as" for g a
    using space_okD [OF assms(1)] that assms(1,2)
    by (intro inner_gaps_free [where P = "{}" and as = as]) (auto simp: space_ok_def)
qed (rule find_gap_ok [OF assms])

theorem vm_space_find_gap_first_witness:
  "vm_space_find_gap example_mem 0x100 (\<lambda>b l. l = 0x1000) = Inr (0xC0000000, 0x1000)"
  using vm_space_find_gap_first [OF example_space, of
      "\<lparr>vs_root_dir = 0x1000, vs_offset = 0xC0000000, vs_rb_areas = 0x210\<rparr>" "\<lambda>b l. l = 0x1000"]
  by (simp add: example_mem_def example_area_def area_base_def area_size_def page_areas_def
      page_align_dvd)

text \<open>The gap after the last area does not end at the end of the space but at 0x3FE000 (the last
  available address is 1022 pages, not 1022 page directory entries): when the areas of a space end
  above that, as those of the kernel do, the length runs past the end of the address space.\<close>

theorem vm_space_last_gap_wraps:
  assumes "space_ok m sp as" and "vm_spaces m sp = Some vs"
    and "check_align (vs_offset vs) PLATFORM_PAGE_SIZE" and "page_areas (vm_areas m) as"
    and "\<forall>(b, l) \<in> set (inner_gaps (vm_areas m) (vs_offset vs) as). \<not> pred b l"
    and "e = areas_end (vm_areas m) (vs_offset vs) as" and "pred e (LAST_AVAILABLE_ADDR - e + 1)"
    and "LAST_AVAILABLE_ADDR + 1 < e"
  shows "\<exists>l. vm_space_find_gap m sp pred = Inr (e, l) \<and> 2 ^ 32 < unat e + unat l \<and> e + l = 0x3FE001"
proof -
  let ?l = "LAST_AVAILABLE_ADDR - e + 1"
  have "find (\<lambda>(b, l). pred b l) (inner_gaps (vm_areas m) (vs_offset vs) as) = None"
    using assms(5) by (auto simp: find_None_iff)
  then have gap: "vm_space_find_gap m sp pred = Inr (e, ?l)"
    using find_gap_ok [OF assms(1-4), of pred] assms(6,7)
    by (simp add: find_append_case last_gap_def)
  have L: "LAST_AVAILABLE_ADDR + 1 = 0x3FE001"
    by (simp add: LAST_AVAILABLE_ADDR_def CONF_VM_AVAILABLE_PAGES_def PLATFORM_PAGE_SIZE_def)
  have "unat (0x3FE001 - e) = 0x3FE001 + 2 ^ 32 - unat e"
    using assms(8) unfolding L by (subst unat_sub_if') (auto simp: word_less_nat_alt)
  moreover have "unat e < 2 ^ 32" by simp
  ultimately have "2 ^ 32 < unat e + unat (0x3FE001 - e)" by linarith
  moreover have "?l = 0x3FE001 - e" unfolding L [symmetric] by simp
  ultimately have "2 ^ 32 < unat e + unat ?l" by (simp only:)
  with gap show ?thesis
    by (simp add: LAST_AVAILABLE_ADDR_def CONF_VM_AVAILABLE_PAGES_def PLATFORM_PAGE_SIZE_def)
qed

theorem vm_space_last_gap_wraps_witness:
  "\<exists>l. vm_space_find_gap example_mem 0x100 (\<lambda>b l. l > 0x1000) = Inr (0xC0002000, l) \<and>
     2 ^ 32 < unat (0xC0002000 :: addr) + unat l \<and> 0xC0002000 + l = 0x3FE001"
  by (rule vm_space_last_gap_wraps [OF example_space, of
      "\<lparr>vs_root_dir = 0x1000, vs_offset = 0xC0000000, vs_rb_areas = 0x210\<rparr>"])
    (simp_all add: example_mem_def example_area_def area_base_def area_size_def page_areas_def
      page_align_dvd [unfolded PLATFORM_PAGE_SIZE_def] LAST_AVAILABLE_ADDR_def CONF_VM_AVAILABLE_PAGES_def PLATFORM_PAGE_SIZE_def)

end
