(* ===== verification/Mm_Zone.thy ===== *)
theory Mm_Zone
  imports Vm_Space Buddy
begin

text \<open>
  kernel/kernel/mm/mm.c: the zones of physical memory. A zone keeps its own description at its
  start (the region allocator, the \<open>struct mm_zone\<close>, the buddy manager with its bitmaps, and the
  array of pages, in this order), covered by a virtual memory area of the kernel space.

  A pointer to a page is a pair of the zone and the index in its array; the array has the length
  \<open>mm_zone_create\<close> gives it, and an access past it is undefined. The offsets are those of the i686
  layout: \<open>info_area\<close> is at \<open>zone + 24\<close> and \<open>sys_zones\<close> at \<open>zone + 80\<close>.
\<close>

section \<open>State\<close>

datatype page_state = PAGESTATE_FREE | PAGESTATE_OCCUPIED | PAGESTATE_FIXED

record mm_page =
  mp_paddr :: addr
  mp_state :: page_state

record mm_zone =
  mz_start :: addr
  mz_length :: size_t
  mz_pages :: "mm_page list"
  mz_pages_count :: size_t
  mz_alloc :: linear_alloc
  mz_buddym :: buddy_manager

text \<open>\<open>MM_ZONES\<close> is the address of the head of the list of zones.\<close>

record mm_state =
  mm_vm :: vm_mem
  mm_zones :: "addr \<rightharpoonup> mm_zone"
  mm_links :: slist_heap
  MM_ZONES :: addr

type_synonym page_ref = "addr \<times> size_t"

definition zone_info_area :: "addr \<Rightarrow> addr" where "zone_info_area z = z + 24"
definition zone_link :: "addr \<Rightarrow> addr" where "zone_link z = z + 80"
definition link_zone :: "addr \<Rightarrow> addr" where "link_zone l = l - 80"

lemma link_zone_link [simp]: "link_zone (zone_link z) = z"
  by (simp add: link_zone_def zone_link_def)

lemma zone_link_eq [simp]: "zone_link a = zone_link b \<longleftrightarrow> a = b"
  by (simp add: zone_link_def)

definition zone_at :: "mm_state \<Rightarrow> addr \<Rightarrow> mm_zone kres" where
  "zone_at s z = (case mm_zones s z of Some r \<Rightarrow> Inr r | None \<Rightarrow> Inl Undef)"

lemma zone_at_Some [simp]: "mm_zones s z = Some r \<Longrightarrow> zone_at s z = Inr r"
  by (simp add: zone_at_def)

definition put_zone :: "mm_state \<Rightarrow> addr \<Rightarrow> mm_zone \<Rightarrow> mm_state" where
  "put_zone s z r = s\<lparr>mm_zones := (mm_zones s)(z \<mapsto> r)\<rparr>"

section \<open>Pages\<close>

definition mm_init :: "mm_state \<Rightarrow> mm_state kres" where
  "mm_init s = kbind (slist_init (mm_links s) (MM_ZONES s)) (\<lambda>h. Inr (s\<lparr>mm_links := h\<rparr>))"

definition mm_page_init_free :: "addr \<Rightarrow> addr \<Rightarrow> mm_page kres" where
  "mm_page_init_free p phys_addr =
     kassert (p \<noteq> NULL) (Inr \<lparr>mp_paddr = phys_addr, mp_state = PAGESTATE_FREE\<rparr>)"

definition set_page_state :: "mm_zone \<Rightarrow> size_t \<Rightarrow> page_state \<Rightarrow> mm_zone kres" where
  "set_page_state z n ps = kdefined (unat n < length (mz_pages z))
     (Inr (z\<lparr>mz_pages := (mz_pages z)[unat n := (mz_pages z ! unat n)\<lparr>mp_state := ps\<rparr>]\<rparr>))"

definition mm_alloc_page_from :: "mm_state \<Rightarrow> addr \<Rightarrow> (page_ref option \<times> mm_state) kres" where
  "mm_alloc_page_from s zone =
     kassert (zone \<noteq> NULL)
     (kbind (zone_at s zone) (\<lambda>z.
      kbind (buddy_alloc (mz_buddym z) 0) (\<lambda>(r, b).
      let s = put_zone s zone (z\<lparr>mz_buddym := b\<rparr>) in
      case r of None \<Rightarrow> Inr (None, s) | Some page_ndx \<Rightarrow> Inr (Some (zone, page_ndx), s))))"

fun mm_alloc_page_loop :: "nat \<Rightarrow> mm_state \<Rightarrow> addr \<Rightarrow> (page_ref option \<times> mm_state) kres" where
  "mm_alloc_page_loop 0 s it = Inl Fuel"
| "mm_alloc_page_loop (Suc fuel) s it =
     (if it = NULL then Inr (None, s)
      else kbind (mm_alloc_page_from s (link_zone it)) (\<lambda>(p, s).
        if p \<noteq> None then Inr (p, s)
        else kbind (slist_next (mm_links s) it) (\<lambda>it. mm_alloc_page_loop fuel s it)))"

definition mm_alloc_page :: "mm_state \<Rightarrow> (page_ref option \<times> mm_state) kres" where
  "mm_alloc_page s =
     kbind (slist_next (mm_links s) (MM_ZONES s)) (\<lambda>it.
     kbind (mm_alloc_page_loop addr_fuel s it) (\<lambda>(p, s). case p of
       None \<Rightarrow> Inr (None, s)
     | Some (zone, n) \<Rightarrow> kbind (zone_at s zone) (\<lambda>z.
         kbind (set_page_state z n PAGESTATE_OCCUPIED) (\<lambda>z. Inr (p, put_zone s zone z)))))"

fun find_zone_loop :: "nat \<Rightarrow> mm_state \<Rightarrow> addr \<Rightarrow> addr \<Rightarrow> addr kres" where
  "find_zone_loop 0 s paddr it = Inl Fuel"
| "find_zone_loop (Suc fuel) s paddr it =
     (if it = NULL then Inr NULL
      else kbind (zone_at s (link_zone it)) (\<lambda>z.
        let zstart = mz_start z; zend = zstart + mz_length z in
        if paddr \<ge> zstart \<and> paddr < zend then Inr (link_zone it)
        else kbind (slist_next (mm_links s) it) (\<lambda>it. find_zone_loop fuel s paddr it)))"

definition find_zone :: "mm_state \<Rightarrow> addr \<Rightarrow> addr kres" where
  "find_zone s a =
     kbind (slist_next (mm_links s) (MM_ZONES s)) (\<lambda>it. find_zone_loop addr_fuel s a it)"

definition get_page_ndx :: "mm_zone \<Rightarrow> addr \<Rightarrow> size_t kres" where
  "get_page_ndx zone a =
     (let p = a AND align_rounddown a PLATFORM_PAGE_SIZE;
          p = p - mz_start zone;
          p = p div PLATFORM_PAGE_SIZE in
      kassert (p < mz_pages_count zone) (Inr p))"

definition page_at :: "mm_zone \<Rightarrow> size_t \<Rightarrow> mm_page kres" where
  "page_at z n = kdefined (unat n < length (mz_pages z)) (Inr (mz_pages z ! unat n))"

definition mm_get_page_by_paddr :: "mm_state \<Rightarrow> addr \<Rightarrow> page_ref option kres" where
  "mm_get_page_by_paddr s phys_addr =
     kbind (find_zone s phys_addr) (\<lambda>zone.
       if zone = NULL then Inr None
       else kbind (zone_at s zone) (\<lambda>z.
         kbind (get_page_ndx z phys_addr) (\<lambda>page_ndx.
         kbind (page_at z page_ndx) (\<lambda>page.
         kassert (mp_paddr page = phys_addr AND (- PLATFORM_PAGE_SIZE))
           (Inr (Some (zone, page_ndx)))))))"

definition mm_free_page :: "mm_state \<Rightarrow> addr \<Rightarrow> mm_state kres" where
  "mm_free_page s a =
     kbind (find_zone s a) (\<lambda>zone.
     kassert (zone \<noteq> NULL)
     (kbind (zone_at s zone) (\<lambda>z.
      kbind (get_page_ndx z a) (\<lambda>page_ndx.
      kbind (buddy_is_free (mz_buddym z) page_ndx) (\<lambda>free.
      kassert (\<not> free)
      (kbind (page_at z page_ndx) (\<lambda>page.
       kassert (mp_state page = PAGESTATE_OCCUPIED)
       (kbind (buddy_free (mz_buddym z) page_ndx 0) (\<lambda>b.
        kbind (set_page_state (z\<lparr>mz_buddym := b\<rparr>) page_ndx PAGESTATE_FREE) (\<lambda>z.
          Inr (put_zone s zone z)))))))))))"

section \<open>Creating a zone\<close>

definition mm_zone_register :: "mm_state \<Rightarrow> addr \<Rightarrow> mm_state kres" where
  "mm_zone_register s zone =
     kassert (zone \<noteq> NULL)
     (kbind (slist_insert (mm_links s) (MM_ZONES s) (zone_link zone)) (\<lambda>h. Inr (s\<lparr>mm_links := h\<rparr>)))"

abbreviation sizeof_linear_alloc :: size_t where "sizeof_linear_alloc \<equiv> 12"
abbreviation sizeof_buddy_manager :: size_t where "sizeof_buddy_manager \<equiv> 12"
abbreviation sizeof_mm_zone :: size_t where "sizeof_mm_zone \<equiv> 84"
abbreviation sizeof_mm_page :: size_t where "sizeof_mm_page \<equiv> 8"

definition bootstrap_zone_alloc :: "addr \<Rightarrow> size_t \<Rightarrow> linear_alloc kres" where
  "bootstrap_zone_alloc virt_start len =
     kbind (linear_alloc_init virt_start len) (\<lambda>bootstrap_alloc.
     let (zone_alloc, bootstrap_alloc) = linear_alloc_alloc bootstrap_alloc sizeof_linear_alloc in
     kdefined (zone_alloc \<noteq> NULL) (Inr bootstrap_alloc))"

text \<open>The area over the whole zone, on the stack at \<open>tmp\<close>; \<open>handler\<close> is the address of
  \<open>addr_pgfault_handler_maplow\<close>.\<close>

definition zone_tmp_area :: "vm_mem \<Rightarrow> addr \<Rightarrow> addr \<Rightarrow> addr \<Rightarrow> size_t \<Rightarrow> addr \<Rightarrow> vm_mem kres" where
  "zone_tmp_area m tmp handler area_start len space =
     kbind (vm_area_init m tmp area_start len space) (\<lambda>m.
     kbind (vm_space_insert_area m space tmp) (\<lambda>m.
     kbind (area_at (vm_areas m) tmp) (\<lambda>r.
       Inr (m\<lparr>vm_areas := (vm_areas m)(tmp \<mapsto> r\<lparr>va_length := len, va_flags := va_flags r OR VM_WRITE,
         va_ops := (va_ops r)\<lparr>handle_pg_fault := handler\<rparr>\<rparr>)\<rparr>))))"

text \<open>The copy of the area into the zone takes its place in the space. The copy of the link and the
  node are copies of what \<open>tmp\<close> holds at that moment, but for the data pointer.\<close>

definition zone_move_area :: "vm_mem \<Rightarrow> addr \<Rightarrow> addr \<Rightarrow> addr \<Rightarrow> vm_mem kres" where
  "zone_move_area m tmp info space =
     kbind (area_at (vm_areas m) tmp) (\<lambda>r.
     kbind (node_at \<lparr>rb_root = NULL, rb_heap = vm_nodes m\<rparr> (area_node tmp)) (\<lambda>n.
     kbind (slist_load (vm_links m) (area_link tmp)) (\<lambda>l.
     let m = m\<lparr>vm_areas := (vm_areas m)(info \<mapsto> r),
               vm_nodes := (vm_nodes m)(area_node info \<mapsto> n\<lparr>rb_data := info\<rparr>),
               vm_links := (vm_links m)(area_link info \<mapsto> l)\<rparr> in
     kbind (vm_space_remove_area m space tmp) (\<lambda>m. vm_space_insert_area m space info))))"

text \<open>The loop that sets the pages up, from index \<open>i\<close>; \<open>done\<close> are the pages before it.\<close>

function zone_init_pages :: "addr \<Rightarrow> addr \<Rightarrow> size_t \<Rightarrow> size_t \<Rightarrow> size_t \<Rightarrow> mm_page list \<Rightarrow> mm_page list kres" where
  "zone_init_pages pages start len free_pages i acc =
     (if i < free_pages
      then kassert (i * PLATFORM_PAGE_SIZE \<le> len)
        (kbind (mm_page_init_free (pages + i * sizeof_mm_page) (start + i * PLATFORM_PAGE_SIZE)) (\<lambda>p.
          zone_init_pages pages start len free_pages (i + 1) (acc @ [p])))
      else Inr acc)"
  by pat_completeness auto
termination
  by (relation "measure (\<lambda>(pages, start, len, free_pages, i, acc). unat free_pages - unat i)")
     (use size_t_loop_measure in force)+

text \<open>The loop that reserves the pages of the description.\<close>

function zone_reserve_pages :: "mm_zone \<Rightarrow> size_t \<Rightarrow> size_t \<Rightarrow> mm_zone kres" where
  "zone_reserve_pages z used_pages i =
     (if i < used_pages
      then kbind (set_page_state z i PAGESTATE_FIXED) (\<lambda>z.
        kbind (buddy_try_alloc (mz_buddym z) 0 i) (\<lambda>(success, b).
          if \<not> success then Inl Panic
          else zone_reserve_pages (z\<lparr>mz_buddym := b\<rparr>) used_pages (i + 1)))
      else Inr z)"
  by pat_completeness auto
termination
  by (relation "measure (\<lambda>(z, used_pages, i). unat used_pages - unat i)")
     (use size_t_loop_measure in force)+

declare zone_init_pages.simps [simp del] zone_reserve_pages.simps [simp del]

text \<open>The description of the zone: its parts are taken from the allocator one after the other.\<close>

definition zone_layout :: "(addr \<Rightarrow> u32) \<Rightarrow> addr \<Rightarrow> size_t \<Rightarrow> linear_alloc \<Rightarrow>
    (mm_zone \<times> size_t \<times> size_t) kres" where
  "zone_layout memory phys_start len alloc =
     kbind (buddy_init memory (len div PLATFORM_PAGE_SIZE) alloc) (\<lambda>(free_pages, buddym, alloc).
     let (pages, alloc) = linear_alloc_alloc alloc (free_pages * sizeof_mm_page);
         alloc = linear_forbid_further_alloc alloc;
         zone_area_len = align_roundup (linear_alloc_occupied alloc) PLATFORM_PAGE_SIZE in
     kbind (zone_init_pages pages phys_start len free_pages 0 []) (\<lambda>ps.
       Inr (\<lparr>mz_start = phys_start, mz_length = len, mz_pages = ps, mz_pages_count = 0,
         mz_alloc = alloc, mz_buddym = buddym\<rparr>, free_pages, zone_area_len)))"

definition mm_zone_create :: "(addr \<Rightarrow> u32) \<Rightarrow> mm_state \<Rightarrow> addr \<Rightarrow> addr \<Rightarrow> addr \<Rightarrow> size_t \<Rightarrow> addr \<Rightarrow>
    (addr \<times> mm_state) kres" where
  "mm_zone_create memory s tmp handler phys_start len kernel_vmspace =
     kassert (kernel_vmspace \<noteq> NULL)
     (kassert (check_align phys_start PLATFORM_PAGE_SIZE)
     (kassert (check_align len PLATFORM_PAGE_SIZE)
     (kbind (space_at (mm_vm s) kernel_vmspace) (\<lambda>vs.
      let area_start = phys_start + vs_offset vs in
      kassert (check_align area_start PLATFORM_PAGE_SIZE)
      (kbind (zone_tmp_area (mm_vm s) tmp handler area_start len kernel_vmspace) (\<lambda>vm.
       kbind (bootstrap_zone_alloc area_start len) (\<lambda>alloc.
       let (zone, alloc) = linear_alloc_alloc alloc sizeof_mm_zone;
           (buddym, alloc) = linear_alloc_alloc alloc sizeof_buddy_manager in
       kdefined (zone \<noteq> NULL)
       (kbind (zone_move_area vm tmp (zone_info_area zone) kernel_vmspace) (\<lambda>vm.
        kbind (slist_init (mm_links s) (zone_link zone)) (\<lambda>links.
        kdefined (buddym \<noteq> NULL)
        (kbind (zone_layout memory phys_start len alloc) (\<lambda>(z, free_pages, zone_area_len).
         kbind (area_at (vm_areas vm) (zone_info_area zone)) (\<lambda>info.
         let vm = vm\<lparr>vm_areas := (vm_areas vm)(zone_info_area zone \<mapsto> info\<lparr>va_length := zone_area_len\<rparr>)\<rparr>;
             used_pages = zone_area_len div PLATFORM_PAGE_SIZE in
         kbind (zone_reserve_pages z used_pages 0) (\<lambda>z.
         let z = z\<lparr>mz_pages_count := free_pages - used_pages\<rparr>;
             s = put_zone (s\<lparr>mm_vm := vm, mm_links := links\<rparr>) zone z in
         kbind (mm_zone_register s zone) (\<lambda>s. Inr (zone, s))))))))))))))))"

section \<open>Well-formed zones\<close>

text \<open>
  \<open>zone_ok N z\<close>: the zone has \<open>N\<close> pages, of which the array describes all but the last
  (\<open>buddy_init\<close> returns the largest index), and the buddy manager has exactly the pages that are
  not free as taken.
\<close>

definition zone_ok :: "size_t \<Rightarrow> mm_zone \<Rightarrow> bool" where
  "zone_ok N z \<longleftrightarrow> 0 < N \<and> buddy_wf N (mz_buddym z) \<and> length (mz_pages z) = unat N - 1 \<and>
     unat (mz_length z) = unat N * 4096 \<and> 4096 dvd unat (mz_start z) \<and>
     unat (mz_start z) + unat (mz_length z) < 2 ^ 32 \<and>
     unat (mz_pages_count z) < unat N \<and>
     (\<forall>i < unat N - 1. mp_paddr (mz_pages z ! i) = mz_start z + of_nat i * 4096 \<and>
        (bitat (mz_buddym z) 0 i \<longleftrightarrow> mp_state (mz_pages z ! i) \<noteq> PAGESTATE_FREE))"

definition page_free :: "mm_zone \<Rightarrow> nat \<Rightarrow> bool" where
  "page_free z i \<longleftrightarrow> \<not> bitat (mz_buddym z) 0 i"

lemma bitat_marks0:
  assumes "marks N v (\<lambda>k j. j = unat n div 2 ^ k) b b'" and "buddy_wf N b" and "j < unat N"
  shows "bitat b' 0 j = (if j = unat n then v else bitat b 0 j)"
  using marksD(3) [OF assms(1), of 0 j] buddy_levels_pos [OF assms(2)] assms(3) by simp

text \<open>Allocation from one zone.\<close>

lemma alloc_from_ok:
  assumes "zone \<noteq> NULL" and "mm_zones s zone = Some z" and "buddy_wf N (mz_buddym z)"
  shows "(\<forall>i < unat N. \<not> page_free z i) \<and> mm_alloc_page_from s zone = Inr (None, put_zone s zone z) \<or>
    (\<exists>n b. mm_alloc_page_from s zone = Inr (Some (zone, n), put_zone s zone (z\<lparr>mz_buddym := b\<rparr>)) \<and>
       unat n < unat N \<and> page_free z (unat n) \<and> (\<forall>i < unat n. \<not> page_free z i) \<and>
       marks N True (\<lambda>k j. j = unat n div 2 ^ k) (mz_buddym z) b)"
  using buddy_alloc_ok [OF assms(3) buddy_levels_pos [OF assms(3)]] assms(1,2)
  by (auto simp: mm_alloc_page_from_def page_free_def Let_def)

lemma put_zone_same [simp]: "mm_zones s zone = Some z \<Longrightarrow> put_zone s zone z = s"
  by (simp add: put_zone_def map_upd_triv)

text \<open>The zones of a state, in the order of the list.\<close>

definition mm_ok :: "mm_state \<Rightarrow> (addr \<Rightarrow> size_t) \<Rightarrow> addr list \<Rightarrow> bool" where
  "mm_ok s N zs \<longleftrightarrow> slist_rep (mm_links s) (MM_ZONES s) (map zone_link zs) \<and>
     (\<forall>z \<in> set zs. z \<noteq> NULL \<and> (\<exists>r. mm_zones s z = Some r \<and> zone_ok (N z) r))"

definition zone_of :: "mm_state \<Rightarrow> addr \<Rightarrow> mm_zone" where
  "zone_of s z = the (mm_zones s z)"

lemma mm_okD:
  assumes "mm_ok s N zs"
  shows "slist_rep (mm_links s) (MM_ZONES s) (map zone_link zs)" "distinct zs"
    "z \<in> set zs \<Longrightarrow> z \<noteq> NULL \<and> mm_zones s z = Some (zone_of s z) \<and> zone_ok (N z) (zone_of s z)"
  using assms slist_repD(4) [of "mm_links s" "MM_ZONES s" "map zone_link zs"]
  by (auto simp: mm_ok_def zone_of_def distinct_map)

text \<open>Walking the list from one link to the next.\<close>

lemma zone_links_step:
  assumes "slist_rep h p (map zone_link (us @ z # vs))"
  shows "hd (map zone_link (z # vs) @ [NULL]) = zone_link z" "zone_link z \<noteq> NULL"
    "slist_next h (zone_link z) = Inr (hd (map zone_link vs @ [NULL]))"
proof -
  have sl: "slist_rep h p ((map zone_link us @ [zone_link z]) @ map zone_link vs)" using assms by simp
  show "zone_link z \<noteq> NULL" using slist_repD(5) [OF sl] by auto
  show "slist_next h (zone_link z) = Inr (hd (map zone_link vs @ [NULL]))"
    using slist_next_rep [OF sl] by simp
qed simp

definition zone_full :: "mm_state \<Rightarrow> (addr \<Rightarrow> size_t) \<Rightarrow> addr \<Rightarrow> bool" where
  "zone_full s N z \<longleftrightarrow> (\<forall>i < unat (N z). \<not> page_free (zone_of s z) i)"

lemma alloc_loop_ok:
  assumes "slist_rep (mm_links s) p (map zone_link (us @ zs))"
    and "\<forall>z \<in> set zs. z \<noteq> NULL \<and> mm_zones s z = Some (zone_of s z) \<and> zone_ok (N z) (zone_of s z)"
    and "length zs < fuel"
  shows "(\<forall>z \<in> set zs. zone_full s N z) \<and>
      mm_alloc_page_loop fuel s (hd (map zone_link zs @ [NULL])) = Inr (None, s) \<or>
    (\<exists>ls z rs n b. zs = ls @ z # rs \<and> (\<forall>z \<in> set ls. zone_full s N z) \<and>
       mm_alloc_page_loop fuel s (hd (map zone_link zs @ [NULL])) =
         Inr (Some (z, n), put_zone s z ((zone_of s z)\<lparr>mz_buddym := b\<rparr>)) \<and>
       unat n < unat (N z) \<and> page_free (zone_of s z) (unat n) \<and> (\<forall>i < unat n. \<not> page_free (zone_of s z) i) \<and>
       marks (N z) True (\<lambda>k j. j = unat n div 2 ^ k) (mz_buddym (zone_of s z)) b)"
  using assms
proof (induction zs arbitrary: us fuel)
  case Nil
  then show ?case by (cases fuel) auto
next
  case (Cons z zs)
  obtain f where f: "fuel = Suc f" using Cons.prems(3) by (cases fuel) auto
  note st = zone_links_step [OF Cons.prems(1)]
  have z: "z \<noteq> NULL" "mm_zones s z = Some (zone_of s z)" "buddy_wf (N z) (mz_buddym (zone_of s z))"
    using Cons.prems(2) by (auto simp: zone_ok_def)
  consider "\<forall>i < unat (N z). \<not> page_free (zone_of s z) i" "mm_alloc_page_from s z = Inr (None, s)"
    | n b where "mm_alloc_page_from s z = Inr (Some (z, n), put_zone s z ((zone_of s z)\<lparr>mz_buddym := b\<rparr>))"
      "unat n < unat (N z)" "page_free (zone_of s z) (unat n)" "\<forall>i < unat n. \<not> page_free (zone_of s z) i"
      "marks (N z) True (\<lambda>k j. j = unat n div 2 ^ k) (mz_buddym (zone_of s z)) b"
    using alloc_from_ok [OF z] z(2) by auto
  then show ?case
  proof cases
    case 1
    then have full: "zone_full s N z" by (simp add: zone_full_def)
    have "mm_alloc_page_loop fuel s (hd (map zone_link (z # zs) @ [NULL])) =
        mm_alloc_page_loop f s (hd (map zone_link zs @ [NULL]))"
      using 1(2) st by (simp add: f)
    moreover have "slist_rep (mm_links s) p (map zone_link ((us @ [z]) @ zs))" using Cons.prems(1) by simp
    note IH = Cons.IH [OF this, of f]
    have "\<forall>z \<in> set zs. z \<noteq> NULL \<and> mm_zones s z = Some (zone_of s z) \<and> zone_ok (N z) (zone_of s z)"
      "length zs < f"
      using Cons.prems(2,3) f by auto
    note IH [OF this]
    ultimately show ?thesis
    proof (elim disjE exE conjE, goal_cases)
      case 1
      then show ?case using full by simp
    next
      case (2 ls z' rs n b)
      then show ?case using full
        by (intro disjI2 exI [of _ "z # ls"] exI [of _ z'] exI [of _ rs] exI [of _ n] exI [of _ b]) auto
    qed
  next
    case (2 n b)
    have "mm_alloc_page_loop fuel s (hd (map zone_link (z # zs) @ [NULL])) =
        Inr (Some (z, n), put_zone s z ((zone_of s z)\<lparr>mz_buddym := b\<rparr>))"
      using 2(1) st by (simp add: f)
    then show ?thesis using 2(2-)
      by (intro disjI2 exI [of _ "[]"] exI [of _ z] exI [of _ zs] exI [of _ n] exI [of _ b]) auto
  qed
qed

lemma zone_ok_update:
  assumes "zone_ok N z" and "marks N v (\<lambda>k j. j = unat n div 2 ^ k) (mz_buddym z) b"
    and "unat n < unat N - 1" and "v \<longleftrightarrow> ps \<noteq> PAGESTATE_FREE"
  shows "\<exists>z'. set_page_state (z\<lparr>mz_buddym := b\<rparr>) n ps = Inr z' \<and> zone_ok N z' \<and>
    mp_state (mz_pages z' ! unat n) = ps \<and>
    (\<forall>i < unat N. page_free z' i = (if i = unat n then \<not> v else page_free z i)) \<and>
    mz_start z' = mz_start z \<and> mz_length z' = mz_length z \<and> mz_pages_count z' = mz_pages_count z"
proof -
  have wf: "buddy_wf N (mz_buddym z)" using assms(1) by (simp add: zone_ok_def)
  note bits = bitat_marks0 [OF assms(2) wf]
  show ?thesis
    using assms(1,3,4) marksD(1) [OF assms(2)] bits
    by (auto simp: set_page_state_def zone_ok_def page_free_def nth_list_update)
qed

lemma zone_of_put [simp]: "zone_of (put_zone s z r) z' = (if z' = z then r else zone_of s z')"
  by (simp add: zone_of_def put_zone_def)

lemma put_zone_fields [simp]:
  "mm_links (put_zone s z r) = mm_links s" "MM_ZONES (put_zone s z r) = MM_ZONES s"
  "mm_vm (put_zone s z r) = mm_vm s" "mm_zones (put_zone s z r) = (mm_zones s)(z \<mapsto> r)"
  "put_zone (put_zone s z r) z r' = put_zone s z r'"
  by (simp_all add: put_zone_def)

lemma mm_ok_put: "mm_ok s N zs \<Longrightarrow> z \<in> set zs \<Longrightarrow> zone_ok (N z) r \<Longrightarrow> mm_ok (put_zone s z r) N zs"
  by (auto simp: mm_ok_def)

lemma zone_links_fuel:
  assumes "slist_rep h p (map zone_link zs)"
  shows "length zs < addr_fuel" "slist_next h p = Inr (hd (map zone_link zs @ [NULL]))"
proof -
  have "length (p # map zone_link zs) \<le> addr_fuel"
    using slist_repD(4) [OF assms] by (rule distinct_addr_length)
  then show "length zs < addr_fuel" by simp
  show "slist_next h p = Inr (hd (map zone_link zs @ [NULL]))" using sl.nxt_law [OF assms] .
qed

text \<open>The buddy bitmaps after page \<open>n\<close> is taken: at every level the bit of the block the page lies in
  is set, and all other bits are as before.\<close>

definition takes_page :: "size_t \<Rightarrow> size_t \<Rightarrow> buddy_manager \<Rightarrow> buddy_manager \<Rightarrow> bool" where
  "takes_page pages n b b' \<longleftrightarrow> lvls b' = lvls b \<and>
     (\<forall>k < unat (lvls b). \<forall>j < unat pages div 2 ^ k. bitat b' k j \<longleftrightarrow> j = unat n div 2 ^ k \<or> bitat b k j)"

lemma marks_takes_page: "marks N True (\<lambda>k j. j = unat n div 2 ^ k) b b' \<Longrightarrow> takes_page N n b b'"
  by (auto simp: marks_def takes_page_def)

lemma alloc_page_ok:
  assumes ok: "mm_ok s N zs"
  shows "(\<forall>z \<in> set zs. zone_full s N z) \<and> mm_alloc_page s = Inr (None, s) \<or>
    (\<exists>ls z rs n. zs = ls @ z # rs \<and> (\<forall>z \<in> set ls. zone_full s N z) \<and>
       unat n < unat (N z) \<and> page_free (zone_of s z) (unat n) \<and> (\<forall>i < unat n. \<not> page_free (zone_of s z) i) \<and>
       (if unat n < unat (N z) - 1
        then \<exists>r b. mm_alloc_page s = Inr (Some (z, n), put_zone s z r) \<and> mm_ok (put_zone s z r) N zs \<and>
          r = (zone_of s z)\<lparr>mz_buddym := b, mz_pages := (mz_pages (zone_of s z))
            [unat n := (mz_pages (zone_of s z) ! unat n)\<lparr>mp_state := PAGESTATE_OCCUPIED\<rparr>]\<rparr> \<and>
          takes_page (N z) n (mz_buddym (zone_of s z)) b \<and>
          mp_state (mz_pages r ! unat n) = PAGESTATE_OCCUPIED \<and>
          (\<forall>i < unat (N z). page_free r i \<longleftrightarrow> i \<noteq> unat n \<and> page_free (zone_of s z) i)
        else mm_alloc_page s = Inl Undef))"
proof -
  note d = mm_okD [OF ok]
  note fu = zone_links_fuel [OF d(1)]
  consider "\<forall>z \<in> set zs. zone_full s N z"
      "mm_alloc_page_loop addr_fuel s (hd (map zone_link zs @ [NULL])) = Inr (None, s)"
    | ls z rs n b where "zs = ls @ z # rs" "\<forall>z \<in> set ls. zone_full s N z"
      "mm_alloc_page_loop addr_fuel s (hd (map zone_link zs @ [NULL])) =
         Inr (Some (z, n), put_zone s z ((zone_of s z)\<lparr>mz_buddym := b\<rparr>))"
      "unat n < unat (N z)" "page_free (zone_of s z) (unat n)" "\<forall>i < unat n. \<not> page_free (zone_of s z) i"
      "marks (N z) True (\<lambda>k j. j = unat n div 2 ^ k) (mz_buddym (zone_of s z)) b"
    using alloc_loop_ok [of s "MM_ZONES s" "[]" zs N addr_fuel] d(1,3) fu(1) by auto
  then show ?thesis
  proof cases
    case 1
    then show ?thesis using fu(2) by (simp add: mm_alloc_page_def)
  next
    case (2 ls z rs n b)
    let ?z = "(zone_of s z)\<lparr>mz_buddym := b\<rparr>"
    have zs: "z \<in> set zs" using 2(1) by simp
    have step: "mm_alloc_page s = kbind (set_page_state ?z n PAGESTATE_OCCUPIED) (\<lambda>r. Inr (Some (z, n), put_zone s z r))"
      using fu(2) 2(3) by (simp add: mm_alloc_page_def zone_at_def)
    show ?thesis
    proof (cases "unat n < unat (N z) - 1")
      case True
      let ?r = "(zone_of s z)\<lparr>mz_buddym := b, mz_pages := (mz_pages (zone_of s z))
        [unat n := (mz_pages (zone_of s z) ! unat n)\<lparr>mp_state := PAGESTATE_OCCUPIED\<rparr>]\<rparr>"
      obtain r where r: "set_page_state ?z n PAGESTATE_OCCUPIED = Inr r" "zone_ok (N z) r"
        "mp_state (mz_pages r ! unat n) = PAGESTATE_OCCUPIED"
        "\<forall>i < unat (N z). page_free r i = (if i = unat n then \<not> True else page_free (zone_of s z) i)"
        using zone_ok_update [OF _ 2(7) True, of PAGESTATE_OCCUPIED] d(3) [OF zs] by auto
      have "unat n < length (mz_pages (zone_of s z))" using d(3) [OF zs] True by (simp add: zone_ok_def)
      then have rr: "r = ?r" using r(1) by (simp add: set_page_state_def)
      have "\<exists>r b. mm_alloc_page s = Inr (Some (z, n), put_zone s z r) \<and> mm_ok (put_zone s z r) N zs \<and>
          r = (zone_of s z)\<lparr>mz_buddym := b, mz_pages := (mz_pages (zone_of s z))
            [unat n := (mz_pages (zone_of s z) ! unat n)\<lparr>mp_state := PAGESTATE_OCCUPIED\<rparr>]\<rparr> \<and>
          takes_page (N z) n (mz_buddym (zone_of s z)) b \<and>
          mp_state (mz_pages r ! unat n) = PAGESTATE_OCCUPIED \<and>
          (\<forall>i < unat (N z). page_free r i \<longleftrightarrow> i \<noteq> unat n \<and> page_free (zone_of s z) i)"
        using step mm_ok_put [OF ok zs r(2)] r(1,3,4) marks_takes_page [OF 2(7)] rr
        by (intro exI [of _ r] exI [of _ b] conjI) (simp_all only: kbind_Inr, simp_all)
      then show ?thesis using 2(1,2,4,5,6) True
        by (intro disjI2 exI [of _ ls] exI [of _ z] exI [of _ rs] exI [of _ n]) (simp only: if_True simp_thms)
    next
      case False
      then have "set_page_state ?z n PAGESTATE_OCCUPIED = Inl Undef"
        using d(3) [OF zs] by (simp add: set_page_state_def zone_ok_def)
      then have "mm_alloc_page s = Inl Undef" using step by simp
      then show ?thesis using 2(1,2,4,5,6) False
        by (intro disjI2 exI [of _ ls] exI [of _ z] exI [of _ rs] exI [of _ n]) (simp only: if_False simp_thms)
    qed
  qed
qed

section \<open>Finding the page of an address\<close>

definition in_zone :: "mm_zone \<Rightarrow> addr \<Rightarrow> bool" where
  "in_zone z a \<longleftrightarrow> unat (mz_start z) \<le> unat a \<and> unat a < unat (mz_start z) + unat (mz_length z)"

definition page_index :: "mm_zone \<Rightarrow> addr \<Rightarrow> nat" where
  "page_index z a = (unat a - unat (mz_start z)) div 4096"

lemma in_zone_word:
  assumes "zone_ok N z"
  shows "a \<ge> mz_start z \<and> a < mz_start z + mz_length z \<longleftrightarrow> in_zone z a"
  using assms by (simp add: in_zone_def zone_ok_def word_le_nat_alt word_less_nat_alt unat_add32)

lemma find_zone_loop_ok:
  assumes "slist_rep (mm_links s) p (map zone_link (us @ zs))"
    and "\<forall>z \<in> set zs. z \<noteq> NULL \<and> mm_zones s z = Some (zone_of s z) \<and> zone_ok (N z) (zone_of s z)"
    and "length zs < fuel"
  shows "find_zone_loop fuel s a (hd (map zone_link zs @ [NULL])) =
    Inr (case find (\<lambda>z. in_zone (zone_of s z) a) zs of None \<Rightarrow> NULL | Some z \<Rightarrow> z)"
  using assms
proof (induction zs arbitrary: us fuel)
  case Nil
  then show ?case by (cases fuel) auto
next
  case (Cons z zs)
  obtain f where f: "fuel = Suc f" using Cons.prems(3) by (cases fuel) auto
  note st = zone_links_step [OF Cons.prems(1)]
  have z: "mm_zones s z = Some (zone_of s z)" "zone_ok (N z) (zone_of s z)" using Cons.prems(2) by auto
  have "slist_rep (mm_links s) p (map zone_link ((us @ [z]) @ zs))" using Cons.prems(1) by simp
  then have "find_zone_loop f s a (hd (map zone_link zs @ [NULL])) =
      Inr (case find (\<lambda>z. in_zone (zone_of s z) a) zs of None \<Rightarrow> NULL | Some z \<Rightarrow> z)"
    by (rule Cons.IH) (use Cons.prems(2,3) f in auto)
  then show ?case using st z in_zone_word [OF z(2), of a] by (simp add: f Let_def)
qed

lemma find_zone_ok:
  assumes "mm_ok s N zs"
  shows "find_zone s a = Inr (case find (\<lambda>z. in_zone (zone_of s z) a) zs of None \<Rightarrow> NULL | Some z \<Rightarrow> z)"
proof -
  note d = mm_okD [OF assms]
  note fu = zone_links_fuel [OF d(1)]
  have "find_zone_loop addr_fuel s a (hd (map zone_link zs @ [NULL])) =
      Inr (case find (\<lambda>z. in_zone (zone_of s z) a) zs of None \<Rightarrow> NULL | Some z \<Rightarrow> z)"
    using d fu(1) by (intro find_zone_loop_ok [where us = "[]" and p = "MM_ZONES s"]) auto
  then show ?thesis using fu(2) by (simp add: find_zone_def)
qed

lemma get_page_ndx_ok:
  assumes "zone_ok N z" and "in_zone z a"
  shows "get_page_ndx z a = (if page_index z a < unat (mz_pages_count z) then Inr (of_nat (page_index z a))
      else Inl Kassert)"
    and "page_index z a < unat N" and "page_index z a < 2 ^ 32"
    and "align_rounddown a PLATFORM_PAGE_SIZE = mz_start z + of_nat (page_index z a) * 4096"
proof -
  let ?r = "align_rounddown a PLATFORM_PAGE_SIZE"
  obtain q where q: "unat (mz_start z) = 4096 * q" using assms(1) by (auto simp: zone_ok_def)
  have "q \<le> unat a div 4096" using assms(2) q by (auto simp: in_zone_def less_eq_div_iff_mult_less_eq)
  then have le: "unat (mz_start z) \<le> unat ?r" using q by (simp add: page_rounddown(1))
  have sub: "unat (?r - mz_start z) = unat a div 4096 * 4096 - unat (mz_start z)"
    using unat_sub32 [OF le] by (simp add: page_rounddown(1))
  obtain c where "unat a = 4096 * q + c" using assms(2) q by (auto simp: in_zone_def le_iff_add)
  then have pi: "page_index z a = unat a div 4096 - q" using q by (simp add: page_index_def)
  then have idx: "unat (?r - mz_start z) = page_index z a * 4096"
    using sub q by (simp add: diff_mult_distrib)
  then have u: "unat ((?r - mz_start z) div PLATFORM_PAGE_SIZE) = page_index z a"
    by (simp add: unat_div PLATFORM_PAGE_SIZE_def)
  then show "page_index z a < 2 ^ 32" using unat_lt32 [of "(?r - mz_start z) div PLATFORM_PAGE_SIZE"] by simp
  show "page_index z a < unat N"
    using assms by (auto simp: page_index_def in_zone_def zone_ok_def)
  have "(?r - mz_start z) div PLATFORM_PAGE_SIZE = of_nat (page_index z a)"
    by (rule word32_eqI) (use u \<open>page_index z a < 2 ^ 32\<close> in \<open>simp add: unat_of_nat32\<close>)
  then show "get_page_ndx z a = (if page_index z a < unat (mz_pages_count z) then Inr (of_nat (page_index z a))
      else Inl Kassert)"
    using u by (simp add: get_page_ndx_def page_rounddown(2) word_less_nat_alt Let_def)
  have "?r - mz_start z = of_nat (page_index z a) * 4096"
  proof -
    have "(of_nat (unat (?r - mz_start z)) :: addr) = ?r - mz_start z" by simp
    then show ?thesis unfolding idx by simp
  qed
  then show "?r = mz_start z + of_nat (page_index z a) * 4096" by (simp add: algebra_simps)
qed

section \<open>Freeing\<close>

lemma free_page_ok:
  assumes ok: "mm_ok s N zs" and z: "find (\<lambda>z. in_zone (zone_of s z) a) zs = Some z"
    and n: "page_index (zone_of s z) a < unat (N z) - 1"
    and occ: "mp_state (mz_pages (zone_of s z) ! page_index (zone_of s z) a) = PAGESTATE_OCCUPIED"
  shows "if page_index (zone_of s z) a < unat (mz_pages_count (zone_of s z))
    then \<exists>r. mm_free_page s a = Inr (put_zone s z r) \<and> mm_ok (put_zone s z r) N zs \<and>
      mp_state (mz_pages r ! page_index (zone_of s z) a) = PAGESTATE_FREE \<and>
      (\<forall>i < unat (N z). page_free r i \<longleftrightarrow> i = page_index (zone_of s z) a \<or> page_free (zone_of s z) i)
    else mm_free_page s a = Inl Kassert"
proof -
  let ?z = "zone_of s z" and ?n = "page_index (zone_of s z) a"
  have zs: "z \<in> set zs" "in_zone ?z a" using z by (auto simp: find_Some_iff)
  note d = mm_okD(3) [OF ok zs(1)]
  then have zo: "zone_ok (N z) ?z" "z \<noteq> NULL" "mm_zones s z = Some ?z" by auto
  note gp = get_page_ndx_ok [OF zo(1) zs(2)]
  have fz: "find_zone s a = Inr z" using find_zone_ok [OF ok, of a] z by simp
  show ?thesis
  proof (cases "?n < unat (mz_pages_count ?z)")
    case False
    then show ?thesis using fz zo gp(1) by (simp add: mm_free_page_def)
  next
    case True
    have u: "unat (of_nat ?n :: size_t) = ?n" using gp(3) by (simp add: unat_of_nat32)
    have wf: "buddy_wf (N z) (mz_buddym ?z)" and bit: "bitat (mz_buddym ?z) 0 ?n"
      and len: "length (mz_pages ?z) = unat (N z) - 1"
      using zo(1) n occ by (auto simp: zone_ok_def)
    note l0 = buddy_levels_pos [OF wf]
    have isf: "buddy_is_free (mz_buddym ?z) (of_nat ?n) = Inr False"
      using lvl_get_ok [OF wf l0, of "of_nat ?n"] u gp(2) bit by (simp add: buddy_is_free_def)
    have "2 * (?n div 2) \<le> ?n" by simp
    then have in_range: "Suc (2 * (?n div 2)) < unat (N z)" using n by linarith
    obtain b where b: "buddy_free (mz_buddym ?z) (of_nat ?n) 0 = Inr b"
      "marks (N z) False (\<lambda>k j. k \<le> unat (0 :: size_t) \<and> j div 2 ^ (unat (0 :: size_t) - k) = ?n) (mz_buddym ?z) b"
      using buddy_free_ok [OF wf l0, of "of_nat ?n"] u gp(2) in_range by auto
    have wfb: "buddy_wf (N z) b" "lvls b = lvls (mz_buddym ?z)" using marksD(1,2) [OF b(2)] by auto
    have bits: "bitat b 0 j = (if j = ?n then False else bitat (mz_buddym ?z) 0 j)" if "j < unat (N z)" for j
      using marksD(3) [OF b(2), of 0 j] l0 that by simp
    let ?r = "?z\<lparr>mz_buddym := b, mz_pages := (mz_pages ?z)[?n := (mz_pages ?z ! ?n)\<lparr>mp_state := PAGESTATE_FREE\<rparr>]\<rparr>"
    have set: "set_page_state (?z\<lparr>mz_buddym := b\<rparr>) (of_nat ?n) PAGESTATE_FREE = Inr ?r"
      using u n len by (simp add: set_page_state_def)
    have r: "zone_ok (N z) ?r" "mp_state (mz_pages ?r ! ?n) = PAGESTATE_FREE"
      "\<forall>i < unat (N z). page_free ?r i \<longleftrightarrow> i = ?n \<or> page_free ?z i"
      using zo(1) n wfb bits by (auto simp: zone_ok_def page_free_def nth_list_update)
    have "mm_free_page s a = Inr (put_zone s z ?r)"
      using fz zo gp(1) True isf u n len occ b(1) set by (simp add: mm_free_page_def page_at_def)
    then show ?thesis using True r mm_ok_put [OF ok zs(1) r(1)] by (intro if_bool_eq_conj [THEN iffD2]) blast
  qed
qed

lemma get_page_ok:
  assumes ok: "mm_ok s N zs" and z: "find (\<lambda>z. in_zone (zone_of s z) a) zs = Some z"
    and n: "page_index (zone_of s z) a < unat (N z) - 1"
  shows "mm_get_page_by_paddr s a =
    (if page_index (zone_of s z) a < unat (mz_pages_count (zone_of s z))
     then Inr (Some (z, of_nat (page_index (zone_of s z) a))) else Inl Kassert)"
proof -
  let ?z = "zone_of s z" and ?n = "page_index (zone_of s z) a"
  have zs: "z \<in> set zs" "in_zone ?z a" using z by (auto simp: find_Some_iff)
  have zo: "zone_ok (N z) ?z" "z \<noteq> NULL" "mm_zones s z = Some ?z" using mm_okD(3) [OF ok zs(1)] by auto
  note gp = get_page_ndx_ok [OF zo(1) zs(2)]
  have fz: "find_zone s a = Inr z" using find_zone_ok [OF ok, of a] z by simp
  have u: "unat (of_nat ?n :: size_t) = ?n" using gp(3) by (simp add: unat_of_nat32)
  have "page_at ?z (of_nat ?n) = Inr (mz_pages ?z ! ?n)" "mp_paddr (mz_pages ?z ! ?n) = mz_start ?z + of_nat ?n * 4096"
    using zo(1) n u by (simp_all add: page_at_def zone_ok_def)
  then show ?thesis using fz zo gp(1,4) by (simp add: mm_get_page_by_paddr_def page_rounddown(3))
qed

section \<open>Properties\<close>

text \<open>C5: \<open>mm_alloc_page\<close> hands out the least free page of the first zone that has one, and returns
  \<open>NULL\<close> when all zones are full. The zone then differs from before in the state of that page's entry,
  now occupied, and in its buddy bitmaps, where at every level the bit of the block the page lies in is
  set and no other bit has changed; the zone's other fields, the other entries, the other zones and
  their list are as before. The last page of a zone is not in
  the zone's array (which has the length \<open>buddy_init\<close> returned, one less than the number of pages), so
  handing it out writes past the array.\<close>

theorem mm_alloc_page_least_free:
  assumes "mm_ok s N zs"
  shows "(\<forall>z \<in> set zs. zone_full s N z) \<and> mm_alloc_page s = Inr (None, s) \<or>
    (\<exists>ls z rs n. zs = ls @ z # rs \<and> (\<forall>z \<in> set ls. zone_full s N z) \<and>
       unat n < unat (N z) \<and> page_free (zone_of s z) (unat n) \<and> (\<forall>i < unat n. \<not> page_free (zone_of s z) i) \<and>
       (if unat n < unat (N z) - 1
        then \<exists>r b. mm_alloc_page s = Inr (Some (z, n), put_zone s z r) \<and> mm_ok (put_zone s z r) N zs \<and>
          r = (zone_of s z)\<lparr>mz_buddym := b, mz_pages := (mz_pages (zone_of s z))
            [unat n := (mz_pages (zone_of s z) ! unat n)\<lparr>mp_state := PAGESTATE_OCCUPIED\<rparr>]\<rparr> \<and>
          takes_page (N z) n (mz_buddym (zone_of s z)) b \<and>
          mp_state (mz_pages r ! unat n) = PAGESTATE_OCCUPIED \<and>
          (\<forall>i < unat (N z). page_free r i \<longleftrightarrow> i \<noteq> unat n \<and> page_free (zone_of s z) i)
        else mm_alloc_page s = Inl Undef))"
  by (rule alloc_page_ok [OF assms])

text \<open>A zone of four pages at 0x100000, the first reserved, and the second free or occupied.\<close>

definition example_zone :: "page_state \<Rightarrow> u32 \<Rightarrow> mm_zone" where
  "example_zone ps w = \<lparr>mz_start = 0x100000, mz_length = 0x4000,
     mz_pages = [\<lparr>mp_paddr = 0x100000, mp_state = PAGESTATE_FIXED\<rparr>, \<lparr>mp_paddr = 0x101000, mp_state = ps\<rparr>,
       \<lparr>mp_paddr = 0x102000, mp_state = PAGESTATE_FREE\<rparr>],
     mz_pages_count = 2, mz_alloc = \<lparr>base = 0xC0100000, position = 0xC01000C8, limit = 0xC01000C8\<rparr>,
     mz_buddym = buddy_example w 0 0\<rparr>"

definition example_zones :: "page_state \<Rightarrow> u32 \<Rightarrow> mm_state" where
  "example_zones ps w = \<lparr>mm_vm = example_mem, mm_zones = [0xC010000C \<mapsto> example_zone ps w],
     mm_links = [0x10 \<mapsto> 0xC010005C, 0xC010005C \<mapsto> NULL], MM_ZONES = 0x10\<rparr>"

lemma example_bits: "j < 4 \<Longrightarrow> bitat (buddy_example w 0 0) 0 j = bit w j"
  by (simp add: bitat_def buddy_example_def bitmap_bits_def)

lemma example_zones_ok:
  "mm_ok (example_zones PAGESTATE_FREE 1) (\<lambda>_. 4) [0xC010000C]"
  "mm_ok (example_zones PAGESTATE_OCCUPIED 3) (\<lambda>_. 4) [0xC010000C]"
  by (simp_all add: mm_ok_def example_zones_def slist_rep_def zone_link_def zone_ok_def example_zone_def
      buddy_example_wf all_less_3 example_bits)

theorem mm_alloc_page_least_free_witness:
  "\<exists>r. mm_alloc_page (example_zones PAGESTATE_FREE 1) =
      Inr (Some (0xC010000C, 1), put_zone (example_zones PAGESTATE_FREE 1) 0xC010000C r) \<and>
     mz_pages r = [\<lparr>mp_paddr = 0x100000, mp_state = PAGESTATE_FIXED\<rparr>, \<lparr>mp_paddr = 0x101000, mp_state = PAGESTATE_OCCUPIED\<rparr>,
       \<lparr>mp_paddr = 0x102000, mp_state = PAGESTATE_FREE\<rparr>] \<and> mz_pages_count r = 2"
proof -
  let ?s = "example_zones PAGESTATE_FREE 1"
  have z: "zone_of ?s 0xC010000C = example_zone PAGESTATE_FREE 1"
    by (simp add: zone_of_def example_zones_def)
  have f: "page_free (example_zone PAGESTATE_FREE 1) 1" "\<not> page_free (example_zone PAGESTATE_FREE 1) 0"
    by (simp_all add: page_free_def example_zone_def example_bits)
  then have "\<not> zone_full ?s (\<lambda>_. 4) 0xC010000C" unfolding zone_full_def z by force
  then show ?thesis
    using mm_alloc_page_least_free [OF example_zones_ok(1)]
  proof (elim disjE exE conjE, goal_cases)
    case (2 ls zz rs n)
    then have zz: "zz = 0xC010000C" by (simp add: Cons_eq_append_conv)
    have "unat n = 1" using 2(5,6) f unfolding zz z by (metis less_one linorder_neqE_nat)
    then have "n = 1" by (intro word32_eqI) simp
    then show ?case using 2(7) by (auto simp: zz z example_zone_def)
  qed simp
qed

text \<open>C6: freeing an occupied page by an address in it makes exactly that page free again, as long as
  its index is below \<open>pages_count\<close>; but that counts the pages that are not reserved while the index
  counts from the start of the zone, so the highest pages of every zone can be handed out and never
  given back (the assert of \<open>get_page_ndx\<close> fails).\<close>

theorem mm_free_page_frees:
  assumes "mm_ok s N zs" and "find (\<lambda>z. in_zone (zone_of s z) a) zs = Some z"
    and "page_index (zone_of s z) a < unat (N z) - 1"
    and "mp_state (mz_pages (zone_of s z) ! page_index (zone_of s z) a) = PAGESTATE_OCCUPIED"
  shows "if page_index (zone_of s z) a < unat (mz_pages_count (zone_of s z))
    then \<exists>r. mm_free_page s a = Inr (put_zone s z r) \<and> mm_ok (put_zone s z r) N zs \<and>
      mp_state (mz_pages r ! page_index (zone_of s z) a) = PAGESTATE_FREE \<and>
      (\<forall>i < unat (N z). page_free r i \<longleftrightarrow> i = page_index (zone_of s z) a \<or> page_free (zone_of s z) i)
    else mm_free_page s a = Inl Kassert"
  by (rule free_page_ok [OF assms])

theorem mm_free_page_frees_witness:
  "\<exists>r. mm_free_page (example_zones PAGESTATE_OCCUPIED 3) 0x101234 =
      Inr (put_zone (example_zones PAGESTATE_OCCUPIED 3) 0xC010000C r) \<and>
     mp_state (mz_pages r ! 1) = PAGESTATE_FREE"
proof -
  have z: "zone_of (example_zones PAGESTATE_OCCUPIED 3) 0xC010000C = example_zone PAGESTATE_OCCUPIED 3"
    by (simp add: zone_of_def example_zones_def)
  have i: "page_index (example_zone PAGESTATE_OCCUPIED 3) 0x101234 = 1"
    "in_zone (example_zone PAGESTATE_OCCUPIED 3) 0x101234"
    by (simp_all add: page_index_def in_zone_def example_zone_def)
  show ?thesis
    using mm_free_page_frees [OF example_zones_ok(2), of "0x101234" "0xC010000C"] z i
    by (auto simp: example_zone_def)
qed

end
