(* ===== verification/Rbtree_Frame.thy ===== *)
theory Rbtree_Frame
  imports Rbtree
begin

text \<open>
  No operation of the red-black tree changes the data pointer of any node, in the tree or not, or
  the set of nodes there are: a small Hoare logic for the fallible operations, and the rule for
  each operation. (\<open>kpost Q m\<close>: if \<open>m\<close> succeeds, its result satisfies \<open>Q\<close>.)
\<close>

definition kpost :: "('a \<Rightarrow> bool) \<Rightarrow> 'a kres \<Rightarrow> bool" where
  "kpost Q m \<longleftrightarrow> (\<forall>x. m = Inr x \<longrightarrow> Q x)"

lemma kpostD: "kpost Q m \<Longrightarrow> m = Inr x \<Longrightarrow> Q x"
  by (simp add: kpost_def)

lemma kpost_Inr: "Q x \<Longrightarrow> kpost Q (Inr x)"
  and kpost_Inl: "kpost Q (Inl e)"
  and kpost_True: "kpost (\<lambda>_. True) m"
  by (simp_all add: kpost_def)

lemma kpost_bind: "kpost P m \<Longrightarrow> (\<And>x. P x \<Longrightarrow> kpost Q (f x)) \<Longrightarrow> kpost Q (kbind m f)"
  by (cases m) (auto simp: kpost_def)

lemma kpost_if: "(c \<Longrightarrow> kpost Q a) \<Longrightarrow> (\<not> c \<Longrightarrow> kpost Q b) \<Longrightarrow> kpost Q (if c then a else b)"
  by simp

lemma kpost_kassert: "kpost Q m \<Longrightarrow> kpost Q (kassert c m)"
  by (simp add: kassert_def kpost_Inl)

text \<open>Reading steps: their result does not matter.\<close>

lemma kpost_read: "(\<And>x. kpost Q (f x)) \<Longrightarrow> kpost Q (kbind m f)"
  by (rule kpost_bind [OF kpost_True])

section \<open>The data of the nodes\<close>

definition same_data :: "rbtree \<Rightarrow> rbtree \<Rightarrow> bool" where
  "same_data t t' \<longleftrightarrow> (\<forall>a. map_option rb_data (rb_heap t' a) = map_option rb_data (rb_heap t a))"

lemma same_data_refl: "same_data t t"
  by (simp add: same_data_def)

lemma same_data_root: "same_data s t \<Longrightarrow> same_data s (t\<lparr>rb_root := r\<rparr>)"
  by (simp add: same_data_def)

lemma node_put_data:
  "same_data s t \<Longrightarrow> (\<And>nd. rb_data (f nd) = rb_data nd) \<Longrightarrow> kpost (same_data s) (node_put t a f)"
  by (auto simp: kpost_def node_put_def node_at_def same_data_def kres_simps split: option.splits if_splits)
    (metis option.simps(9))

text \<open>Steps that return a tree, and those that return one with two nodes.\<close>

lemma bind_tree:
  fixes m :: "rbtree kres"
  shows "kpost (same_data s) m \<Longrightarrow> (\<And>t. same_data s t \<Longrightarrow> kpost Q (f t)) \<Longrightarrow> kpost Q (kbind m f)"
  by (rule kpost_bind)

lemma bind_tree_pair:
  fixes m :: "(rbtree \<times> 'b) kres"
  shows "kpost (\<lambda>(t, _). same_data s t) m \<Longrightarrow>
    (\<And>t x. same_data s t \<Longrightarrow> kpost Q (f (t, x))) \<Longrightarrow> kpost Q (kbind m f)"
  by (rule kpost_bind [where P = "\<lambda>(t, _). same_data s t"]) auto

lemma kpost_pair: "same_data s t \<Longrightarrow> kpost (\<lambda>(t, _). same_data s t) (Inr (t, x))"
  by (simp add: kpost_Inr)

lemma kpost_Let: "(\<And>y. kpost Q (f y)) \<Longrightarrow> kpost Q (Let x f)"
  and kpost_case_Pair: "kpost Q (g a b) \<Longrightarrow> kpost Q (case (a, b) of (a, b) \<Rightarrow> g a b)"
  and kpost_case: "(\<And>a b. kpost Q (g a b)) \<Longrightarrow> kpost Q (case p of (a, b) \<Rightarrow> g a b)"
  by (simp_all add: split_def)

lemmas data_rules = bind_tree bind_tree_pair kpost_read kpost_Let kpost_case_Pair kpost_case kpost_pair kpost_Inr kpost_Inl
  kpost_if kpost_kassert same_data_root

lemma set_colour_data: "same_data s t \<Longrightarrow> kpost (same_data s) (rbt_set_colour t n c)"
  unfolding rbt_set_colour_def by (rule kpost_kassert, rule node_put_data) simp_all

lemma set_parent_data: "same_data s t \<Longrightarrow> kpost (same_data s) (rbt_set_parent t n p)"
  unfolding rbt_set_parent_def by (rule kpost_kassert, rule node_put_data) simp_all

lemma put_child_data:
  "same_data s t \<Longrightarrow> kpost (same_data s) (node_put t n (rb_left_update g))"
  "same_data s t \<Longrightarrow> kpost (same_data s) (node_put t n (rb_right_update g))"
  "same_data s t \<Longrightarrow> kpost (same_data s) (node_put t n (\<lambda>nd. nd\<lparr>rb_left := l nd\<rparr>))"
  "same_data s t \<Longrightarrow> kpost (same_data s) (node_put t n (\<lambda>nd. nd\<lparr>rb_right := r nd\<rparr>))"
  "same_data s t \<Longrightarrow> kpost (same_data s) (node_put t n (\<lambda>nd. nd\<lparr>rb_left := l nd, rb_right := r nd\<rparr>))"
  by (rule node_put_data; simp)+

lemmas data_writes = set_colour_data set_parent_data put_child_data

lemma replace_subtree_data: "same_data s t \<Longrightarrow> kpost (same_data s) (rbt_replace_subtree t x y)"
  unfolding rbt_replace_subtree_def by (rule data_writes data_rules | assumption)+

lemma try_set_parent_data: "same_data s t \<Longrightarrow> kpost (same_data s) (try_set_parent t n p)"
  unfolding try_set_parent_def by (rule data_writes data_rules | assumption)+

lemma rotate_data:
  "same_data s t \<Longrightarrow> kpost (same_data s) (rbt_rotate_left t n)"
  "same_data s t \<Longrightarrow> kpost (same_data s) (rbt_rotate_right t n)"
  unfolding rbt_rotate_left_def rbt_rotate_right_def
  by (rule replace_subtree_data data_writes data_rules | assumption)+

lemmas data_steps = rotate_data replace_subtree_data try_set_parent_data data_writes data_rules

lemma swap_nodes_data: "same_data s t \<Longrightarrow> kpost (same_data s) (rbt_swap_nodes t x y)"
  unfolding rbt_swap_nodes_def swap_place_y_def swap_place_x_def swap_assertions_def
  by (rule data_steps | assumption)+

lemma delete_cases_data:
  "same_data s t \<Longrightarrow> kpost (\<lambda>(t, _). same_data s t) (delete_red_sibling t n p q)"
  "same_data s t \<Longrightarrow> kpost (\<lambda>(t, _). same_data s t) (delete_inner_child t n p q)"
  "same_data s t \<Longrightarrow> kpost (same_data s) (delete_outer_child t n p q)"
  unfolding delete_red_sibling_def delete_inner_child_def delete_outer_child_def
  by (rule data_steps | assumption)+

lemma delete_fix_data: "same_data s t \<Longrightarrow> kpost (same_data s) (rbt_delete_fix_loop fuel t n)"
proof (induction fuel arbitrary: t n)
  case (Suc fuel)
  show ?case
    unfolding rbt_delete_fix_loop.simps
    by (rule Suc.IH delete_cases_data data_steps | assumption | rule Suc.prems)+
qed (simp add: kpost_Inl)

text \<open>Deleting a node keeps the data of every node, also of those that were never in the tree.\<close>

lemma delete_data: "rbtree_delete t a = Inr t' \<Longrightarrow> same_data t t'"
proof -
  have "kpost (same_data t) (rbtree_delete t a)"
    unfolding rbtree_delete_def rbt_delete_fix_def
    by (rule swap_nodes_data delete_fix_data data_steps | assumption | rule same_data_refl)+
  then show "rbtree_delete t a = Inr t' \<Longrightarrow> same_data t t'" by (rule kpostD)
qed

end
