(* ===== verification/Mm_Create.thy ===== *)
theory Mm_Create
  imports Mm_Zone Rbtree_Frame
begin

text \<open>
  \<open>mm_zone_create\<close> of kernel/kernel/mm/mm.c, which brings the red-black tree, the sorted list, the
  region allocator and the buddy allocator together: what each of its parts establishes, and that
  a zone of at least two pages is set up as \<open>mm_alloc_page\<close> and \<open>mm_free_page\<close> need it.
\<close>

section \<open>What a space does not depend on\<close>

lemma areas_apart_mono:
  assumes "areas_apart m S" and "\<forall>a \<in> S. area_ok m' a \<and> area_base m' a = area_base m a \<and>
      unat (area_size m' a) \<le> unat (area_size m a)"
  shows "areas_apart m' S"
proof -
  have "unat (area_base m' a) + unat (area_size m' a) \<le> unat (area_base m' b) \<or>
      unat (area_base m' b) + unat (area_size m' b) \<le> unat (area_base m' a)"
    if ab: "a \<in> S" "b \<in> S" "a \<noteq> b" for a b
  proof -
    have "unat (area_base m a) + unat (area_size m a) \<le> unat (area_base m b) \<or>
        unat (area_base m b) + unat (area_size m b) \<le> unat (area_base m a)"
      using areas_apartD [OF assms(1) ab] .
    moreover have "unat (area_base m' a) = unat (area_base m a)" "unat (area_base m' b) = unat (area_base m b)"
      "unat (area_size m' a) \<le> unat (area_size m a)" "unat (area_size m' b) \<le> unat (area_size m b)"
      using assms(2) ab by auto
    ultimately show ?thesis by linarith
  qed
  then show ?thesis using assms(2) by (auto simp: areas_apart_def)
qed

lemma space_ok_frame:
  assumes sp: "space_ok m sp as"
    and ar: "\<forall>a \<in> set as. area_ok (vm_areas m') a \<and> area_base (vm_areas m') a = area_base (vm_areas m) a \<and>
      unat (area_size (vm_areas m') a) \<le> unat (area_size (vm_areas m) a)"
    and nd: "\<forall>a \<in> set as. vm_nodes m' (area_node a) = vm_nodes m (area_node a)"
    and ln: "\<forall>l \<in> set (space_head sp # map area_link as). vm_links m' l = vm_links m l" "vm_links m' NULL = None"
    and vs: "vm_spaces m' sp = vm_spaces m sp"
  shows "space_ok m' sp as"
proof -
  obtain vs T where T: "vm_spaces m sp = Some vs" "\<forall>a \<in> set as. vs_offset vs \<le> area_base (vm_areas m) a"
    "tree_is node_area (space_tree m vs) T" "red_black T" "nodes T = map area_node as"
    using sp by (auto simp: space_ok_def)
  note d = space_okD [OF sp]
  have "rep node_area (vm_nodes m') NULL T = rep node_area (vm_nodes m) NULL T"
    using nd T(5) by (intro rep_cong) auto
  then have tree: "tree_is node_area (space_tree m' vs) T"
    using T(3) by (simp add: tree_is_def space_tree_def)
  have base: "map (area_base (vm_areas m')) as = map (area_base (vm_areas m)) as"
    using ar by simp
  have "areas_apart (vm_areas m') (set as)" using areas_apart_mono [OF d(2) ar] .
  moreover have "slist_rep (vm_links m') (space_head sp) (map area_link as)"
    by (rule slist_rep_frame [OF d(4) ln])
  moreover have "\<forall>a \<in> set as. vs_offset vs \<le> area_base (vm_areas m') a" using T(2) ar by simp
  ultimately show ?thesis
    unfolding space_ok_def base using d(1,3) T(1,4,5) vs tree by auto
qed

text \<open>A change of the objects at an address that is not an area of the space.\<close>

definition other_area :: "addr \<Rightarrow> addr \<Rightarrow> addr list \<Rightarrow> bool" where
  "other_area a sp as \<longleftrightarrow> a \<noteq> NULL \<and> a \<notin> set as \<and> area_link a \<noteq> NULL \<and> area_node a \<noteq> NULL \<and>
     area_link a \<noteq> space_head sp"

lemma space_ok_other:
  assumes "space_ok m sp as" and "other_area a sp as"
  shows "space_ok (m\<lparr>vm_areas := (vm_areas m)(a \<mapsto> r), vm_nodes := (vm_nodes m)(area_node a \<mapsto> n),
    vm_links := (vm_links m)(area_link a \<mapsto> l)\<rparr>) sp as"
proof -
  have "\<forall>x \<in> set as. x \<noteq> a" using assms(2) by (auto simp: other_area_def)
  then have "area_ok ((vm_areas m)(a \<mapsto> r)) x \<and> area_base ((vm_areas m)(a \<mapsto> r)) x = area_base (vm_areas m) x \<and>
      area_size ((vm_areas m)(a \<mapsto> r)) x = area_size (vm_areas m) x" if "x \<in> set as" for x
    using areas_apart_ok [OF space_okD(2) [OF assms(1)] that] that
    by (auto simp: area_ok_def area_base_def area_size_def)
  then show ?thesis
    using assms slist_repD(1) [OF space_okD(4) [OF assms(1)]]
    by (intro space_ok_frame [OF assms(1)]) (auto simp: other_area_def)
qed

section \<open>The area of the zone\<close>

lemma area_init_ok:
  assumes "a \<noteq> NULL" and "area_link a \<noteq> NULL" and "area_node a \<noteq> NULL"
    and "check_align b PLATFORM_PAGE_SIZE" and "check_align len PLATFORM_PAGE_SIZE"
  shows "\<exists>r n. vm_area_init m a b len sp = Inr (m\<lparr>vm_areas := (vm_areas m)(a \<mapsto> r),
      vm_nodes := (vm_nodes m)(area_node a \<mapsto> n), vm_links := (vm_links m)(area_link a \<mapsto> NULL)\<rparr>) \<and>
    va_base r = b \<and> va_length r = len \<and> rb_data n = a"
  using assms
  by (simp add: vm_area_init_def rbtree_init_node_def node_put_def node_at_def rbt_set_colour_def
      slist_init_def Let_def) (intro exI conjI, rule refl, simp_all)

text \<open>The range of an area that is to be added.\<close>

definition range_apart :: "(addr \<rightharpoonup> vm_area) \<Rightarrow> addr set \<Rightarrow> addr \<Rightarrow> size_t \<Rightarrow> bool" where
  "range_apart m S b len \<longleftrightarrow> 0 < unat len \<and> unat b + unat len \<le> 2 ^ 32 \<and>
     (\<forall>a \<in> S. unat b + unat len \<le> unat (area_base m a) \<or> unat (area_base m a) + unat (area_size m a) \<le> unat b)"

lemma areas_apart_insert:
  assumes "areas_apart m S" and "range_apart m S b len" and "a \<notin> S" and "a \<noteq> NULL"
    and "va_base r = b" and "va_length r = len"
  shows "areas_apart (m(a \<mapsto> r)) (insert a S)"
proof -
  have m: "area_base (m(a \<mapsto> r)) x = area_base m x \<and> area_size (m(a \<mapsto> r)) x = area_size m x \<and>
      area_ok (m(a \<mapsto> r)) x = area_ok m x" if "x \<noteq> a" for x
    using that by (auto simp: area_base_def area_size_def area_ok_def)
  have a: "area_base (m(a \<mapsto> r)) a = b" "area_size (m(a \<mapsto> r)) a = len" "area_ok (m(a \<mapsto> r)) a"
    using assms(2,4,5,6) by (auto simp: area_base_def area_size_def area_ok_def range_apart_def)
  have S: "x \<noteq> a" "area_ok m x" "unat b + unat len \<le> unat (area_base m x) \<or>
      unat (area_base m x) + unat (area_size m x) \<le> unat b" if "x \<in> S" for x
    using that assms(1,2,3) areas_apart_ok by (auto simp: range_apart_def)
  show ?thesis
    unfolding areas_apart_def
  proof (intro conjI ballI impI)
    show "area_ok (m(a \<mapsto> r)) x" if "x \<in> insert a S" for x using that a(3) m S by auto
    show "unat (area_base (m(a \<mapsto> r)) x) + unat (area_size (m(a \<mapsto> r)) x) \<le> unat (area_base (m(a \<mapsto> r)) y) \<or>
        unat (area_base (m(a \<mapsto> r)) y) + unat (area_size (m(a \<mapsto> r)) y) \<le> unat (area_base (m(a \<mapsto> r)) x)"
      if "x \<in> insert a S" "y \<in> insert a S" "x \<noteq> y" for x y
      using that a(1,2) m S areas_apartD [OF assms(1), of x y] by (elim insertE) auto
  qed
qed

lemma other_in: "other_area a sp as \<Longrightarrow> a \<noteq> NULL \<and> a \<notin> set as \<and> area_link a \<noteq> NULL \<and> area_node a \<noteq> NULL \<and>
    area_link a \<noteq> space_head sp"
  by (simp add: other_area_def)

text \<open>Adding an area, and moving its description to another address.\<close>

lemma space_add_area:
  assumes sp: "space_ok m sp as" and vs: "vm_spaces m sp = Some vs" and a: "other_area a sp as"
    and b: "range_apart (vm_areas m) (set as) (va_base r) (va_length r)" "vs_offset vs \<le> va_base r"
    and r: "vm_areas m a = Some r" and nd: "vm_nodes m (area_node a) = Some nd" "rb_data nd = a"
  shows "\<exists>m' as'. vm_space_insert_area m sp a = Inr m' \<and> vm_areas m' = vm_areas m \<and> space_ok m' sp as' \<and>
    set as' = insert a (set as) \<and> remove1 a as' = as"
proof -
  note o = other_in [OF a]
  have "(vm_areas m)(a \<mapsto> r) = vm_areas m" using r by auto
  then have ap: "areas_apart (vm_areas m) (insert a (set as))"
    using areas_apart_insert [OF space_okD(2) [OF sp] b(1), of a r] o by simp
  have "vs_offset vs \<le> area_base (vm_areas m) a" using b(2) r by (simp add: area_base_def)
  from insert_area_ok [OF sp ap _ vs this _ _ _ nd] o
  obtain m' where "vm_space_insert_area m sp a = Inr m'" "vm_areas m' = vm_areas m"
    "space_ok m' sp (insort_key (area_base (vm_areas m)) a as)" by blast
  then show ?thesis using o
    by (intro exI [of _ m'] exI [of _ "insort_key (area_base (vm_areas m)) a as"])
      (simp add: set_insort_key remove1_insort_key)
qed

lemma insert_area_space:
  "vm_space_insert_area m sp a = Inr m' \<Longrightarrow> vm_spaces m sp = Some vs \<Longrightarrow>
   \<exists>r. vm_spaces m' sp = Some (vs\<lparr>vs_rb_areas := r\<rparr>)"
  by (auto simp: vm_space_insert_area_def kres_simps put_tree_def Let_def)

lemma remove_area_space:
  "vm_space_remove_area m sp a = Inr m' \<Longrightarrow> vm_spaces m sp = Some vs \<Longrightarrow>
   (\<exists>r. vm_spaces m' sp = Some (vs\<lparr>vs_rb_areas := r\<rparr>)) \<and>
   (\<forall>x. map_option rb_data (vm_nodes m' x) = map_option rb_data (vm_nodes m x))"
  using delete_data [of "space_tree m vs" "area_node a"]
  by (auto simp: vm_space_remove_area_def kres_simps put_tree_def same_data_def space_tree_def)

lemma tmp_area_ok:
  assumes sp: "space_ok m sp as" and vs: "vm_spaces m sp = Some vs" and a: "other_area tmp sp as"
    and al: "check_align b PLATFORM_PAGE_SIZE" "check_align len PLATFORM_PAGE_SIZE"
    and b: "range_apart (vm_areas m) (set as) b len" "vs_offset vs \<le> b"
  shows "\<exists>m' as' r vs'. zone_tmp_area m tmp handler b len sp = Inr m' \<and> space_ok m' sp as' \<and>
    set as' = insert tmp (set as) \<and> remove1 tmp as' = as \<and> vm_areas m' = (vm_areas m)(tmp \<mapsto> r) \<and>
    va_base r = b \<and> va_length r = len \<and> vm_spaces m' sp = Some vs' \<and> vs_offset vs' = vs_offset vs"
proof -
  note o = other_in [OF a]
  obtain r n where i: "vm_area_init m tmp b len sp = Inr (m\<lparr>vm_areas := (vm_areas m)(tmp \<mapsto> r),
      vm_nodes := (vm_nodes m)(area_node tmp \<mapsto> n), vm_links := (vm_links m)(area_link tmp \<mapsto> NULL)\<rparr>)"
    "va_base r = b" "va_length r = len" "rb_data n = tmp"
    using area_init_ok [of tmp b len m sp] o al by blast
  let ?m = "m\<lparr>vm_areas := (vm_areas m)(tmp \<mapsto> r), vm_nodes := (vm_nodes m)(area_node tmp \<mapsto> n),
      vm_links := (vm_links m)(area_link tmp \<mapsto> NULL)\<rparr>"
  have sp1: "space_ok ?m sp as" by (rule space_ok_other [OF sp a])
  have "range_apart (vm_areas ?m) (set as) (va_base r) (va_length r)"
    using b(1) i(2,3) o by (auto simp: range_apart_def area_base_def area_size_def)
  then obtain m1 as1 where m1: "vm_space_insert_area ?m sp tmp = Inr m1" "vm_areas m1 = vm_areas ?m"
    "space_ok m1 sp as1" "set as1 = insert tmp (set as)" "remove1 tmp as1 = as"
    using space_add_area [OF sp1, of vs tmp r n] vs a b(2) i by auto
  obtain root where root: "vm_spaces m1 sp = Some (vs\<lparr>vs_rb_areas := root\<rparr>)"
    using insert_area_space [OF m1(1)] vs by auto
  let ?r = "r\<lparr>va_length := len, va_flags := va_flags r OR VM_WRITE,
      va_ops := (va_ops r)\<lparr>handle_pg_fault := handler\<rparr>\<rparr>"
  let ?m2 = "m1\<lparr>vm_areas := (vm_areas m1)(tmp \<mapsto> ?r)\<rparr>"
  have "zone_tmp_area m tmp handler b len sp = Inr ?m2"
    using i(1) m1(1,2) by (simp add: zone_tmp_area_def)
  moreover have "space_ok ?m2 sp as1"
  proof (rule space_ok_frame [OF m1(3)])
    have "area_ok (vm_areas ?m2) x \<and> area_base (vm_areas ?m2) x = area_base (vm_areas m1) x \<and>
        unat (area_size (vm_areas ?m2) x) \<le> unat (area_size (vm_areas m1) x)" if "x \<in> set as1" for x
      using areas_apart_ok [OF space_okD(2) [OF m1(3)] that] m1(2) i(2,3)
      by (cases "x = tmp") (simp_all add: area_ok_def area_base_def area_size_def)
    then show "\<forall>x \<in> set as1. area_ok (vm_areas ?m2) x \<and> area_base (vm_areas ?m2) x = area_base (vm_areas m1) x \<and>
        unat (area_size (vm_areas ?m2) x) \<le> unat (area_size (vm_areas m1) x)" by blast
  qed (use slist_repD(1) [OF space_okD(4) [OF m1(3)]] in simp_all)
  ultimately show ?thesis using m1(2,4,5) i(2,3) root
    by (intro exI [of _ ?m2] exI [of _ as1] exI [of _ ?r] exI [of _ "vs\<lparr>vs_rb_areas := root\<rparr>"]) simp
qed

lemma space_link_loaded:
  assumes "space_ok m sp as" and "a \<in> set as"
  shows "\<exists>l. slist_load (vm_links m) (area_link a) = Inr l"
proof -
  have "area_link a \<in> dom (vm_links m)"
    using slist_seg_dom [of "vm_links m" "space_head sp" "map area_link as" NULL]
      slist_repD(3) [OF space_okD(4) [OF assms(1)]] assms(2) by auto
  then show ?thesis by auto
qed

lemma space_node_loaded:
  assumes "space_ok m sp as" and "a \<in> set as"
  shows "\<exists>nd. node_at \<lparr>rb_root = NULL, rb_heap = vm_nodes m\<rparr> (area_node a) = Inr nd \<and> rb_data nd = a"
proof -
  obtain vs T where "tree_is node_area (space_tree m vs) T" "nodes T = map area_node as"
    using assms(1) by (auto simp: space_ok_def)
  then obtain nd where "node_at (space_tree m vs) (area_node a) = Inr nd" "rb_data nd = a"
    using tree_is_data [of node_area "space_tree m vs" T "area_node a"] assms(2) by auto
  then show ?thesis by (auto simp: node_at_def space_tree_def)
qed

lemma area_at_upd:
  "x \<noteq> a \<Longrightarrow> area_base (m(a \<mapsto> r)) x = area_base m x \<and> area_size (m(a \<mapsto> r)) x = area_size m x"
  by (simp add: area_base_def area_size_def)

lemma move_area_ok:
  assumes sp: "space_ok m sp as1" and vs: "vm_spaces m sp = Some vs" and t: "tmp \<in> set as1"
    and i: "other_area info sp as1" and r: "vm_areas m tmp = Some r" "vs_offset vs \<le> va_base r"
  shows "\<exists>m' as'. zone_move_area m tmp info sp = Inr m' \<and> space_ok m' sp as' \<and>
    set as' = insert info (set (remove1 tmp as1)) \<and> remove1 info as' = remove1 tmp as1 \<and>
    vm_areas m' = (vm_areas m)(info \<mapsto> r)"
proof -
  note o = other_in [OF i]
  obtain l where l: "slist_load (vm_links m) (area_link tmp) = Inr l"
    using space_link_loaded [OF sp t] by blast
  obtain n where n: "node_at \<lparr>rb_root = NULL, rb_heap = vm_nodes m\<rparr> (area_node tmp) = Inr n"
    using space_node_loaded [OF sp t] by blast
  let ?m = "m\<lparr>vm_areas := (vm_areas m)(info \<mapsto> r), vm_nodes := (vm_nodes m)(area_node info \<mapsto> n\<lparr>rb_data := info\<rparr>),
      vm_links := (vm_links m)(area_link info \<mapsto> l)\<rparr>"
  have sp1: "space_ok ?m sp as1" by (rule space_ok_other [OF sp i])
  obtain m1 where m1: "vm_space_remove_area ?m sp tmp = Inr m1" "vm_areas m1 = vm_areas ?m"
    "space_ok m1 sp (remove1 tmp as1)"
    using remove_area_ok [OF sp1 t] by blast
  obtain root where root: "vm_spaces m1 sp = Some (vs\<lparr>vs_rb_areas := root\<rparr>)"
    and data: "map_option rb_data (vm_nodes m1 (area_node info)) = Some info"
    using remove_area_space [OF m1(1), of vs] vs by auto
  obtain nd where nd: "vm_nodes m1 (area_node info) = Some nd" "rb_data nd = info" using data by auto
  have tb: "va_base r = area_base (vm_areas m) tmp" "va_length r = area_size (vm_areas m) tmp"
    using r(1) by (simp_all add: area_base_def area_size_def)
  have dist: "distinct as1" using space_okD(5) [OF sp] .
  have "range_apart (vm_areas m1) (set (remove1 tmp as1)) (va_base r) (va_length r)"
    unfolding range_apart_def
  proof (intro conjI ballI)
    have "area_ok (vm_areas m) tmp" using areas_apart_ok [OF space_okD(2) [OF sp] t] .
    then show "0 < unat (va_length r)" "unat (va_base r) + unat (va_length r) \<le> 2 ^ 32"
      using area_okD(3,4) tb by auto
    fix x assume x: "x \<in> set (remove1 tmp as1)"
    then have "x \<in> set as1" "x \<noteq> tmp" "x \<noteq> info" using dist o by auto
    then show "unat (va_base r) + unat (va_length r) \<le> unat (area_base (vm_areas m1) x) \<or>
        unat (area_base (vm_areas m1) x) + unat (area_size (vm_areas m1) x) \<le> unat (va_base r)"
      using areas_apartD [OF space_okD(2) [OF sp] t, of x] m1(2) tb area_at_upd by auto
  qed
  moreover have "other_area info sp (remove1 tmp as1)"
    using i notin_set_remove1 by (auto simp: other_area_def)
  ultimately obtain m' as' where m': "vm_space_insert_area m1 sp info = Inr m'" "vm_areas m' = vm_areas m1"
    "space_ok m' sp as'" "set as' = insert info (set (remove1 tmp as1))" "remove1 info as' = remove1 tmp as1"
    using space_add_area [OF m1(3) root, of info r nd] r(2) m1(2) nd by auto
  moreover have "zone_move_area m tmp info sp = vm_space_insert_area m1 sp info"
    using r(1) n l m1(1) by (simp add: zone_move_area_def)
  ultimately show ?thesis using m1(2) by auto
qed

section \<open>The description\<close>

lemma init_pages_ok:
  assumes "unat p + 8 * unat F < 2 ^ 32" and "p \<noteq> NULL" and "unat F * 4096 \<le> unat len" and "unat i \<le> unat F"
  shows "zone_init_pages p start len F i acc = Inr (acc @
    map (\<lambda>k. \<lparr>mp_paddr = start + of_nat k * 4096, mp_state = PAGESTATE_FREE\<rparr>) [unat i..<unat F])"
  using assms(4)
proof (induction "unat F - unat i" arbitrary: i acc)
  case 0
  then show ?case by (subst zone_init_pages.simps) (simp add: word_less_nat_alt)
next
  case (Suc n)
  have lt: "i < F" "unat i < unat F" using Suc(2) by (auto simp: word_less_nat_alt)
  note i1 = size_t_loop_measure [OF lt(1)]
  have m8: "unat (i * 8) = unat i * 8"
    using unat_mult32 [of i 8] assms(1) lt(2) by simp
  have "unat (p + i * 8) = unat p + unat i * 8"
    using unat_add32 [of p "i * 8"] assms(1) lt(2) m8 by simp
  then have nn: "p + i * 8 \<noteq> NULL" using assms(2) by (metis add_is_0 unat_eq_0)
  have "unat i * 4096 < 4294967296" using assms(3) lt(2) unat_lt32 [of len] by linarith
  then have m: "unat (i * PLATFORM_PAGE_SIZE) = unat i * 4096"
    using unat_mult32 [of i 4096] by (simp add: PLATFORM_PAGE_SIZE_def)
  have le: "i * PLATFORM_PAGE_SIZE \<le> len" using m assms(3) lt(2) by (simp add: word_le_nat_alt)
  have ip: "i * PLATFORM_PAGE_SIZE = of_nat (unat i) * 4096" by (simp add: PLATFORM_PAGE_SIZE_def)
  have "zone_init_pages p start len F i acc = zone_init_pages p start len F (i + 1)
      (acc @ [\<lparr>mp_paddr = start + of_nat (unat i) * 4096, mp_state = PAGESTATE_FREE\<rparr>])"
    using lt(1) le nn ip by (subst zone_init_pages.simps) (simp add: mm_page_init_free_def)
  also have "\<dots> = Inr ((acc @ [\<lparr>mp_paddr = start + of_nat (unat i) * 4096, mp_state = PAGESTATE_FREE\<rparr>]) @
      map (\<lambda>k. \<lparr>mp_paddr = start + of_nat k * 4096, mp_state = PAGESTATE_FREE\<rparr>) [unat (i + 1)..<unat F])"
    using Suc(1) [of "i + 1"] Suc(2) i1 by simp
  also have "unat (i + 1) = Suc (unat i)" using i1 by simp
  finally show ?case using lt(2) by (simp add: upt_conv_Cons)
qed

text \<open>A zone of which the first \<open>k\<close> pages are reserved and the others are free.\<close>

definition reserved :: "size_t \<Rightarrow> nat \<Rightarrow> mm_zone \<Rightarrow> bool" where
  "reserved N k z \<longleftrightarrow> buddy_wf N (mz_buddym z) \<and> length (mz_pages z) = unat N - 1 \<and>
     (\<forall>i < unat N. bitat (mz_buddym z) 0 i \<longleftrightarrow> i < k) \<and>
     (\<forall>i < unat N - 1. mz_pages z ! i = \<lparr>mp_paddr = mz_start z + of_nat i * 4096,
        mp_state = if i < k then PAGESTATE_FIXED else PAGESTATE_FREE\<rparr>)"

lemma try_alloc_ok:
  assumes "buddy_wf N b" and "unat i < unat N" and "\<not> bitat b 0 (unat i)"
  shows "\<exists>b'. buddy_try_alloc b 0 i = Inr (True, b') \<and> buddy_wf N b' \<and>
    (\<forall>j < unat N. bitat b' 0 j \<longleftrightarrow> j = unat i \<or> bitat b 0 j)"
proof -
  note l0 = buddy_levels_pos [OF assms(1)]
  obtain b' where b': "occupy_buddy b 0 i = Inr b'"
    "marks N True (\<lambda>k j. (k < unat (0 :: size_t) \<and> j div 2 ^ (unat (0 :: size_t) - k) = unat i) \<or>
       j = unat i div 2 ^ k) b b'"
    using occupy_buddy_marks [OF assms(1) l0, of i] assms(2) by auto
  have "bitat b' 0 j \<longleftrightarrow> j = unat i \<or> bitat b 0 j" if "j < unat N" for j
    using marksD(3) [OF b'(2), of 0 j] l0 that by auto
  then show ?thesis
    using b'(1) marksD(1) [OF b'(2)] lvl_get_ok [OF assms(1) l0, of i] assms(2,3)
    by (auto simp: buddy_try_alloc_def)
qed

lemma reserve_pages_ok:
  assumes "unat used < unat N" and "unat i \<le> unat used" and "reserved N (unat i) z"
  shows "\<exists>z'. zone_reserve_pages z used i = Inr z' \<and> reserved N (unat used) z' \<and>
    mz_start z' = mz_start z \<and> mz_length z' = mz_length z \<and> mz_alloc z' = mz_alloc z"
  using assms(2,3)
proof (induction "unat used - unat i" arbitrary: i z)
  case 0
  then have "unat i = unat used" by simp
  then show ?case using 0(3) by (subst zone_reserve_pages.simps) (simp add: word_less_nat_alt)
next
  case (Suc n)
  have lt: "i < used" "unat i < unat used" using Suc(2) by (auto simp: word_less_nat_alt)
  note i1 = size_t_loop_measure [OF lt(1)]
  let ?z = "z\<lparr>mz_pages := (mz_pages z)[unat i := (mz_pages z ! unat i)\<lparr>mp_state := PAGESTATE_FIXED\<rparr>]\<rparr>"
  have len: "unat i < length (mz_pages z)" using Suc(4) assms(1) lt(2) by (simp add: reserved_def)
  then have set: "set_page_state z i PAGESTATE_FIXED = Inr ?z" by (simp add: set_page_state_def)
  obtain b where b: "buddy_try_alloc (mz_buddym z) 0 i = Inr (True, b)" "buddy_wf N b"
    "\<forall>j < unat N. bitat b 0 j \<longleftrightarrow> j = unat i \<or> bitat (mz_buddym z) 0 j"
    using try_alloc_ok [of N "mz_buddym z" i] Suc(4) assms(1) lt(2) by (auto simp: reserved_def)
  have "zone_reserve_pages z used i = zone_reserve_pages (?z\<lparr>mz_buddym := b\<rparr>) used (i + 1)"
    using lt(1) set b(1) by (subst zone_reserve_pages.simps) simp
  moreover have "reserved N (unat (i + 1)) (?z\<lparr>mz_buddym := b\<rparr>)"
    using Suc(4) b(2,3) i1 len by (auto simp: reserved_def nth_list_update less_Suc_eq)
  moreover have "n = unat used - unat (i + 1)" "unat (i + 1) \<le> unat used" using Suc(2) i1 by auto
  ultimately show ?case using Suc(1) [of "i + 1" "?z\<lparr>mz_buddym := b\<rparr>"] by simp
qed

lemma boot_ok:
  assumes "b \<noteq> NULL" and "unat b + unat len < 2 ^ 32" and "108 \<le> unat len"
  shows "bootstrap_zone_alloc b len = Inr \<lparr>base = b, position = b + 12, limit = b + len\<rparr>"
    and "linear_alloc_alloc \<lparr>base = b, position = b + 12, limit = b + len\<rparr> 84 =
      (b + 12, \<lparr>base = b, position = b + 96, limit = b + len\<rparr>)"
    and "linear_alloc_alloc \<lparr>base = b, position = b + 96, limit = b + len\<rparr> 12 =
      (b + 96, \<lparr>base = b, position = b + 108, limit = b + len\<rparr>)"
    and "linear_wf \<lparr>base = b, position = b + 108, limit = b + len\<rparr>"
    and "linear_occ \<lparr>base = b, position = b + 108, limit = b + len\<rparr> = 108"
    and "linear_cap \<lparr>base = b, position = b + 108, limit = b + len\<rparr> = unat len"
    and "b + 12 \<noteq> NULL" "b + 96 \<noteq> NULL" "b + 92 \<noteq> NULL"
proof -
  have n: "unat (b + 12) = unat b + 12" "unat (b + 96) = unat b + 96" "unat (b + 108) = unat b + 108"
    "unat (b + 92) = unat b + 92" "unat (b + len) = unat b + unat len"
    using unat_add32 [of b 12] unat_add32 [of b 96] unat_add32 [of b 108] unat_add32 [of b 92]
      unat_add32 [of b len] assms(2,3) by simp_all
  have c: "unat (96 + b) = unat b + 96" "unat (108 + b) = unat b + 108"
    using unat_add32 [of 96 b] unat_add32 [of 108 b] assms(2,3) by simp_all
  from n show "b + 12 \<noteq> NULL" "b + 96 \<noteq> NULL" "b + 92 \<noteq> NULL" by (metis add_is_0 unat_0 zero_neq_numeral)+
  have "0 < len" using assms(3) by (auto simp: word_less_nat_alt)
  then show "bootstrap_zone_alloc b len = Inr \<lparr>base = b, position = b + 12, limit = b + len\<rparr>"
    using assms n by (simp add: bootstrap_zone_alloc_def linear_alloc_init_def linear_alloc_alloc_def word_less_nat_alt)
  show "linear_alloc_alloc \<lparr>base = b, position = b + 12, limit = b + len\<rparr> 84 =
      (b + 12, \<lparr>base = b, position = b + 96, limit = b + len\<rparr>)"
    "linear_alloc_alloc \<lparr>base = b, position = b + 96, limit = b + len\<rparr> 12 =
      (b + 96, \<lparr>base = b, position = b + 108, limit = b + len\<rparr>)"
    using assms n c by (simp_all add: linear_alloc_alloc_def word_less_nat_alt Let_def)
  show "linear_wf \<lparr>base = b, position = b + 108, limit = b + len\<rparr>"
    "linear_occ \<lparr>base = b, position = b + 108, limit = b + len\<rparr> = 108"
    "linear_cap \<lparr>base = b, position = b + 108, limit = b + len\<rparr> = unat len"
    using assms n by (simp_all add: linear_wf_def linear_occ_def linear_cap_def word_le_nat_alt)
qed

lemma req_bound:
  assumes "0 < N" and "unat N < 2 ^ 20" and "buddy_predict_req_space N = Inr req"
  shows "4 * unat req \<le> unat N + 2100"
proof -
  have N: "unat N + 31 < 4294967296" using assms(2) by simp
  obtain l where l: "log2_floor N = Inr l" "unat (l + 1) \<le> 32" using buddy_levels [OF assms(1)] by metis
  let ?L = "unat (l + 1)"
  obtain r where r: "buddy_predict_req_space N = Inr r" "unat r = (\<Sum>k<?L. lvl_bytes N k) + 12 * ?L"
    using buddy_predict_ok [OF assms(1) N l(1)] by metis
  have "8 * (\<Sum>k<?L. lvl_bytes N k) \<le> (\<Sum>k<?L. unat N div 2 ^ k + 31)"
    unfolding sum_distrib_left by (intro sum_mono lvl_bytes_le)
  also have "\<dots> = (\<Sum>k<?L. unat N div 2 ^ k) + ?L * 31" by (simp add: sum.distrib)
  finally have "8 * (\<Sum>k<?L. lvl_bytes N k) \<le> 2 * unat N + 32 * 31"
    using sum_halves_le [of "unat N" ?L] l(2) by linarith
  then show ?thesis using r assms(3) l(2) by simp
qed

lemma predict_total:
  assumes "0 < N" and "unat N < 2 ^ 20"
  shows "\<exists>req. buddy_predict_req_space N = Inr req"
proof -
  have N: "unat N + 31 < 4294967296" using assms(2) by simp
  obtain l where "log2_floor N = Inr l" using buddy_levels [OF assms(1)] by metis
  then show ?thesis using buddy_predict_ok [OF assms(1) N] by metis
qed

text \<open>The bytes that describe a zone of \<open>N\<close> pages: the three structs, the bitmaps with the array of
  their headers, one per level, and the entries of the pages.\<close>

definition zone_bytes :: "size_t \<Rightarrow> mm_zone \<Rightarrow> nat" where
  "zone_bytes N z = 12 + 84 + 12 + ((\<Sum>k<unat (lvls (mz_buddym z)). lvl_bytes N k) + 12 * unat (lvls (mz_buddym z))) +
     8 * (unat N - 1)"

lemma log2_unique:
  assumes "(2::nat) ^ (l - 1) \<le> n" "n < 2 ^ l" "2 ^ (m - 1) \<le> n" "n < 2 ^ m"
  shows "l = m"
proof -
  have "l \<le> m" if "2 ^ (l - 1) \<le> n" "n < (2::nat) ^ m" for l m
    using le_less_trans [OF that] power_strict_increasing_iff [of "2::nat" "l - 1" m] by simp
  then show ?thesis using assms le_antisym by blast
qed

lemma req_levels:
  assumes wf: "buddy_wf N b" and N: "0 < N" and req: "buddy_predict_req_space N = Inr req"
  shows "unat req = (\<Sum>k<unat (lvls b). lvl_bytes N k) + 12 * unat (lvls b)"
proof -
  have N31: "unat N + 31 < 4294967296" using wf by (simp add: buddy_wf_def)
  obtain l where l: "log2_floor N = Inr l" "2 ^ (unat (l + 1) - 1) \<le> unat N" "unat N < 2 ^ unat (l + 1)"
    using buddy_levels [OF N] by metis
  obtain r where r: "buddy_predict_req_space N = Inr r"
    "unat r = (\<Sum>k<unat (l + 1). lvl_bytes N k) + 12 * unat (l + 1)"
    using buddy_predict_ok [OF N N31 l(1)] by metis
  have "unat (l + 1) = unat (lvls b)"
    using wf l(2,3) by (intro log2_unique [of _ "unat N"]) (simp_all add: buddy_wf_def)
  then show ?thesis using r req by simp
qed

lemma layout_ok:
  assumes N: "2 \<le> unat N" "unat len = unat N * 4096" and wf: "linear_wf a" and occ: "linear_occ a = 108"
    and cap: "linear_cap a = unat len"
  shows "\<exists>z used. zone_layout memory phys len a = Inr (z, N - 1, used * 4096) \<and> reserved N 0 z \<and>
    mz_start z = phys \<and> mz_length z = len \<and> 0 < unat used \<and> unat used < unat N \<and>
    unat (used * 4096) = unat used * 4096 \<and>
    base (mz_alloc z) = base a \<and> limit (mz_alloc z) = position (mz_alloc z) \<and>
    linear_occ (mz_alloc z) = zone_bytes N z \<and> unat used = (zone_bytes N z + 4095) div 4096"
proof -
  have N20: "unat N < 2 ^ 20" using N(2) unat_lt32 [of len] by simp
  have N0: "0 < N" using N(1) by (auto simp: word_less_nat_alt)
  have dv: "len div PLATFORM_PAGE_SIZE = N"
    by (rule word32_eqI) (simp add: unat_div PLATFORM_PAGE_SIZE_def N(2))
  obtain req where req: "buddy_predict_req_space N = Inr req" using predict_total [OF N0 N20] by blast
  note rb = req_bound [OF N0 N20 req]
  have fits: "linear_occ a + unat req \<le> linear_cap a" using occ cap N rb by linarith
  have N31: "unat N + 31 < 4294967296" using N20 by simp
  obtain b a1 where b: "buddy_init memory N a = Inr (N - 1, b, a1)" "buddy_wf N b"
    "\<forall>k < unat (lvls b). \<forall>j < unat N div 2 ^ k. \<not> bitat b k j"
    "linear_wf a1" "linear_occ a1 = linear_occ a + unat req" "base a1 = base a"
    "linear_cap a1 = linear_cap a"
    using buddy_init_ok [OF N0 N31 wf req fits, of memory] by metis
  have n1: "unat (N - 1) = unat N - 1" using N(1) by (simp add: unat_sub32)
  have m8: "unat ((N - 1) * 8) = 8 * (unat N - 1)"
    using unat_mult32 [of "N - 1" 8] n1 N20 by simp
  have fits2: "linear_occ a1 + unat ((N - 1) * 8) \<le> linear_cap a1"
    using b(5,7) m8 occ cap N rb by linarith
  obtain a2 where a2: "linear_alloc_alloc a1 ((N - 1) * 8) = (position a1, a2)" "linear_wf a2"
    "linear_occ a2 = linear_occ a1 + unat ((N - 1) * 8)" "position a1 \<noteq> NULL"
    "unat (position a2) = unat (position a1) + unat ((N - 1) * 8)" "base a2 = base a1"
    by (rule linear_alloc_fits [OF b(4) fits2])
  let ?occ = "108 + unat req + 8 * (unat N - 1)"
  have o2: "unat (linear_alloc_occupied (linear_forbid_further_alloc a2)) = ?occ"
    using linear_occupied_occ [OF a2(2)] a2(3) b(5) occ m8
    by (simp add: linear_alloc_occupied_def linear_forbid_further_alloc_def)
  define used where "used = (of_nat ((?occ + 4095) div 4096) :: size_t)"
  have ub: "(?occ + 4095) div 4096 < unat N" "0 < (?occ + 4095) div 4096"
    using N(1) rb by (auto simp: div_less_iff_less_mult)
  have us: "unat used = (?occ + 4095) div 4096"
    unfolding used_def by (rule unat_of_nat32) (use ub(1) N20 in simp)
  have us4: "unat (used * 4096) = unat used * 4096"
    using unat_mult32 [of used 4096] us ub(1) N20 by simp
  have "unat (align_roundup (linear_alloc_occupied (linear_forbid_further_alloc a2)) PLATFORM_PAGE_SIZE) =
      (?occ + 4095) div 4096 * 4096"
    using unat_align_roundup [of 12 "linear_alloc_occupied (linear_forbid_further_alloc a2)"] o2 rb N20
    by (simp add: PLATFORM_PAGE_SIZE_def)
  then have ru: "align_roundup (linear_alloc_occupied (linear_forbid_further_alloc a2)) PLATFORM_PAGE_SIZE = used * 4096"
    using us us4 by (intro word32_eqI) simp
  have "unat (position a1) + 8 * unat (N - 1) < 2 ^ 32"
    using a2(5) m8 n1 unat_lt32 [of "position a2"] by simp
  then have pg: "zone_init_pages (position a1) phys len (N - 1) 0 [] = Inr
      (map (\<lambda>k. \<lparr>mp_paddr = phys + of_nat k * 4096, mp_state = PAGESTATE_FREE\<rparr>) [0..<unat (N - 1)])"
    using init_pages_ok [of "position a1" "N - 1" len 0 phys "[]"] a2(4) n1 N by simp
  let ?z = "\<lparr>mz_start = phys, mz_length = len,
      mz_pages = map (\<lambda>k. \<lparr>mp_paddr = phys + of_nat k * 4096, mp_state = PAGESTATE_FREE\<rparr>) [0..<unat (N - 1)],
      mz_pages_count = 0, mz_alloc = linear_forbid_further_alloc a2, mz_buddym = b\<rparr>"
  have "zone_layout memory phys len a = Inr (?z, N - 1, used * 4096)"
    using b(1) a2(1) pg ru by (simp add: zone_layout_def dv Let_def)
  moreover have "reserved N 0 ?z"
    using b(2,3) buddy_levels_pos [OF b(2)] n1 by (simp add: reserved_def)
  moreover have zb: "zone_bytes N ?z = ?occ"
    using req_levels [OF b(2) N0 req] by (simp add: zone_bytes_def)
  moreover have "linear_occ (linear_forbid_further_alloc a2) = ?occ"
    using a2(3) b(5) occ m8 by (simp add: linear_occ_def linear_forbid_further_alloc_def)
  moreover have "base (linear_forbid_further_alloc a2) = base a"
    "limit (linear_forbid_further_alloc a2) = position (linear_forbid_further_alloc a2)"
    using a2(6) b(6) by (simp_all add: linear_forbid_further_alloc_def)
  ultimately show ?thesis using us us4 ub by (intro exI [of _ ?z] exI [of _ used]) simp
qed

section \<open>The whole operation\<close>

lemma reserved_zone_ok:
  assumes "reserved N k z" and "2 \<le> unat N" and "unat (mz_length z) = unat N * 4096"
    and "4096 dvd unat (mz_start z)" and "unat (mz_start z) + unat (mz_length z) < 2 ^ 32" and "unat c < unat N"
  shows "zone_ok N (z\<lparr>mz_pages_count := c\<rparr>)"
    and "i < unat N \<Longrightarrow> page_free (z\<lparr>mz_pages_count := c\<rparr>) i \<longleftrightarrow> k \<le> i"
  using assms by (auto simp: reserved_def zone_ok_def page_free_def word_less_nat_alt)

lemma mm_ok_register:
  assumes ok: "mm_ok s N zs" and z: "zone \<noteq> NULL" "zone_link zone \<noteq> NULL" "zone \<notin> set zs"
    "zone_link zone \<noteq> MM_ZONES s" and r: "zone_ok n r"
  shows "\<exists>h h'. slist_init (mm_links s) (zone_link zone) = Inr h \<and>
    mm_zone_register (put_zone (s\<lparr>mm_vm := vm, mm_links := h\<rparr>) zone r) zone =
      Inr (put_zone (s\<lparr>mm_vm := vm, mm_links := h'\<rparr>) zone r) \<and>
    mm_ok (put_zone (s\<lparr>mm_vm := vm, mm_links := h'\<rparr>) zone r) (N(zone := n)) (zone # zs)"
proof -
  note d = mm_okD [OF ok]
  have notin: "zone_link zone \<notin> set (MM_ZONES s # map zone_link zs)" using z(3,4) by auto
  obtain h where h: "slist_init (mm_links s) (zone_link zone) = Inr h" "\<And>q. q \<noteq> zone_link zone \<Longrightarrow> h q = mm_links s q"
    using slist_init_rep [of "zone_link zone" "mm_links s"] z(2) slist_repD(1) [OF d(1)] by metis
  have "h NULL = None" using h(2) [of NULL] z(2) [symmetric] slist_repD(1) [OF d(1)] by simp
  then have rep: "slist_rep h (MM_ZONES s) (map zone_link zs)"
    using notin by (intro slist_rep_frame [OF d(1)]) (auto intro: h(2))
  obtain h' where h': "slist_insert h (MM_ZONES s) (zone_link zone) = Inr h'"
    "slist_rep h' (MM_ZONES s) (zone_link zone # map zone_link zs)"
    using sl.ins_law [OF rep z(2) notin] by blast
  have "mm_ok (put_zone (s\<lparr>mm_vm := vm, mm_links := h'\<rparr>) zone r) (N(zone := n)) (zone # zs)"
    using h'(2) z(1,3) r d(3) by (auto simp: mm_ok_def)
  moreover have "mm_zone_register (put_zone (s\<lparr>mm_vm := vm, mm_links := h\<rparr>) zone r) zone =
      Inr (put_zone (s\<lparr>mm_vm := vm, mm_links := h'\<rparr>) zone r)"
    using h'(1) z(1) by (simp add: mm_zone_register_def put_zone_def)
  ultimately show ?thesis using h(1) by blast
qed

lemma zone_create_steps:
  assumes "sp \<noteq> NULL" "check_align phys PLATFORM_PAGE_SIZE" "check_align len PLATFORM_PAGE_SIZE"
    and "vm_spaces (mm_vm s) sp = Some vs" and "phys + vs_offset vs = b" and "check_align b PLATFORM_PAGE_SIZE"
    and "zone_tmp_area (mm_vm s) tmp handler b len sp = Inr m1" and "bootstrap_zone_alloc b len = Inr a1"
    and "linear_alloc_alloc a1 84 = (zone, a2)" "linear_alloc_alloc a2 12 = (bud, a3)" "zone \<noteq> NULL" "bud \<noteq> NULL"
    and "zone_move_area m1 tmp (zone_info_area zone) sp = Inr m2" and "slist_init (mm_links s) (zone_link zone) = Inr h"
    and "zone_layout memory phys len a3 = Inr (z, fp, zl)" and "vm_areas m2 (zone_info_area zone) = Some r"
    and "zone_reserve_pages z (zl div PLATFORM_PAGE_SIZE) 0 = Inr z'"
    and "mm_zone_register (put_zone (s\<lparr>mm_vm := m2\<lparr>vm_areas := (vm_areas m2)(zone_info_area zone \<mapsto> r\<lparr>va_length := zl\<rparr>)\<rparr>,
      mm_links := h\<rparr>) zone (z'\<lparr>mz_pages_count := fp - zl div PLATFORM_PAGE_SIZE\<rparr>)) zone = Inr s'"
  shows "mm_zone_create memory s tmp handler phys len sp = Inr (zone, s')"
  using assms by (simp add: mm_zone_create_def)

text \<open>What the caller of \<open>mm_zone_create\<close> has to see to: the range of the zone is whole pages, at
  least two, and fits below the end of the address space with the offset; it is apart from the areas
  of the space; the objects at \<open>tmp\<close> and in the zone are new.\<close>

definition zone_place :: "mm_state \<Rightarrow> addr list \<Rightarrow> addr list \<Rightarrow> addr \<Rightarrow> vm_space \<Rightarrow> addr \<Rightarrow> addr \<Rightarrow> size_t \<Rightarrow> bool" where
  "zone_place s zs as sp vs tmp phys len \<longleftrightarrow>
     (let b = phys + vs_offset vs; zone = b + 12 in
      check_align phys PLATFORM_PAGE_SIZE \<and> check_align len PLATFORM_PAGE_SIZE \<and>
      check_align (vs_offset vs) PLATFORM_PAGE_SIZE \<and> 8192 \<le> unat len \<and>
      unat phys + unat (vs_offset vs) + unat len < 2 ^ 32 \<and> b \<noteq> NULL \<and>
      range_apart (vm_areas (mm_vm s)) (set as) b len \<and>
      other_area tmp sp as \<and> other_area (zone_info_area zone) sp (tmp # as) \<and>
      zone \<notin> set zs \<and> zone_link zone \<noteq> MM_ZONES s)"

lemma zone_create_ok:
  assumes ok: "mm_ok s N zs" and sp: "space_ok (mm_vm s) sp as" and vs: "vm_spaces (mm_vm s) sp = Some vs"
    and pl: "zone_place s zs as sp vs tmp phys len" and zn: "zone = phys + vs_offset vs + 12"
  shows "\<exists>s' used as'. mm_zone_create memory s tmp handler phys len sp = Inr (zone, s') \<and>
    mm_ok s' (N(zone := len div 4096)) (zone # zs) \<and>
    0 < used \<and> used < unat len div 4096 \<and>
    (\<forall>i < unat len div 4096. page_free (zone_of s' zone) i \<longleftrightarrow> used \<le> i) \<and>
    mz_start (zone_of s' zone) = phys \<and> mz_length (zone_of s' zone) = len \<and>
    mz_pages (zone_of s' zone) = map (\<lambda>i. \<lparr>mp_paddr = phys + of_nat i * 4096,
      mp_state = if i < used then PAGESTATE_FIXED else PAGESTATE_FREE\<rparr>) [0..<unat len div 4096 - 1] \<and>
    unat (mz_pages_count (zone_of s' zone)) = unat len div 4096 - 1 - used \<and>
    base (mz_alloc (zone_of s' zone)) = phys + vs_offset vs \<and>
    limit (mz_alloc (zone_of s' zone)) = position (mz_alloc (zone_of s' zone)) \<and>
    linear_occ (mz_alloc (zone_of s' zone)) = zone_bytes (len div 4096) (zone_of s' zone) \<and>
    linear_occ (mz_alloc (zone_of s' zone)) \<le> used * 4096 \<and>
    used * 4096 < linear_occ (mz_alloc (zone_of s' zone)) + 4096 \<and>
    (\<forall>z. z \<noteq> zone \<longrightarrow> zone_of s' z = zone_of s z) \<and>
    space_ok (mm_vm s') sp as' \<and> set as' = insert (zone_info_area zone) (set as) \<and>
    area_base (vm_areas (mm_vm s')) (zone_info_area zone) = phys + vs_offset vs \<and>
    unat (area_size (vm_areas (mm_vm s')) (zone_info_area zone)) = used * 4096"
proof -
  let ?b = "phys + vs_offset vs" and ?info = "zone_info_area zone" and ?N = "len div 4096"
  note p = pl [unfolded zone_place_def Let_def, folded zn]
  have pa: "check_align phys PLATFORM_PAGE_SIZE" "check_align len PLATFORM_PAGE_SIZE" using p by blast+
  have small: "unat phys + unat (vs_offset vs) + unat len < 2 ^ 32" using p by blast
  then have off: "unat ?b = unat phys + unat (vs_offset vs)" by (intro unat_add32) simp
  then have fit: "unat ?b + unat len < 2 ^ 32" using small by simp
  have al: "check_align ?b PLATFORM_PAGE_SIZE" using p by (intro page_align_add) blast+
  have le: "vs_offset vs \<le> ?b" using off by (simp add: word_le_nat_alt)
  have N: "2 \<le> unat ?N" "unat len = unat ?N * 4096" "unat ?N = unat len div 4096"
    using p by (auto simp: unat_div page_align_dvd)
  have bt: "other_area tmp sp as" "other_area ?info sp (tmp # as)" "range_apart (vm_areas (mm_vm s)) (set as) ?b len"
    "check_align len PLATFORM_PAGE_SIZE" using p by blast+
  obtain m1 as1 r1 vs1 where m1: "zone_tmp_area (mm_vm s) tmp handler ?b len sp = Inr m1" "space_ok m1 sp as1"
    "set as1 = insert tmp (set as)" "remove1 tmp as1 = as" "vm_areas m1 = (vm_areas (mm_vm s))(tmp \<mapsto> r1)"
    "va_base r1 = ?b" "va_length r1 = len" "vm_spaces m1 sp = Some vs1" "vs_offset vs1 = vs_offset vs"
    using tmp_area_ok [OF sp vs bt(1) al bt(4,3) le] by blast
  note boot = boot_ok [of ?b len]
  have b0: "?b \<noteq> NULL" "108 \<le> unat len" using p by auto
  note boot = boot [OF b0(1) fit b0(2)]
  have "other_area ?info sp as1" using bt(2) m1(3) by (auto simp: other_area_def)
  moreover have "vs_offset vs1 \<le> va_base r1" using m1(6,9) le by simp
  ultimately obtain m2 as2 where m2: "zone_move_area m1 tmp ?info sp = Inr m2" "space_ok m2 sp as2"
    "set as2 = insert ?info (set as)" "vm_areas m2 = (vm_areas m1)(?info \<mapsto> r1)"
    using move_area_ok [OF m1(2,8), of tmp ?info r1] m1(3,4,5) by auto
  obtain z used where z: "zone_layout memory phys len \<lparr>base = ?b, position = ?b + 108, limit = ?b + len\<rparr> =
      Inr (z, ?N - 1, used * 4096)"
    "reserved ?N 0 z" "mz_start z = phys" "mz_length z = len" "0 < unat used" "unat used < unat ?N"
    "unat (used * 4096) = unat used * 4096" "base (mz_alloc z) = ?b" "limit (mz_alloc z) = position (mz_alloc z)"
    "linear_occ (mz_alloc z) = zone_bytes ?N z" "unat used = (zone_bytes ?N z + 4095) div 4096"
    using layout_ok [OF N(1,2) boot(4,5,6), of memory phys] unfolding linear_alloc.select_convs by blast
  have ud: "used * 4096 div PLATFORM_PAGE_SIZE = used"
    by (rule word32_eqI) (simp add: unat_div PLATFORM_PAGE_SIZE_def z(7))
  obtain z' where z': "zone_reserve_pages z used 0 = Inr z'" "reserved ?N (unat used) z'"
    "mz_start z' = mz_start z" "mz_length z' = mz_length z" "mz_alloc z' = mz_alloc z"
    using reserve_pages_ok [OF z(6), of 0 z] z(2) by auto
  have fp: "unat (?N - 1 - used) < unat ?N"
    using z(5,6) N(1) by (simp add: unat_sub32)
  let ?z = "z'\<lparr>mz_pages_count := ?N - 1 - used\<rparr>"
  have dv: "4096 dvd unat phys" using p by (simp add: page_align_dvd)
  have "unat phys + unat len < 2 ^ 32" using small by linarith
  then have zo: "zone_ok ?N ?z" "\<And>i. i < unat ?N \<Longrightarrow> page_free ?z i \<longleftrightarrow> unat used \<le> i"
    using reserved_zone_ok [OF z'(2) N(1) _ _ _ fp] z(3,4) z'(3,4) N(2) dv by simp_all
  have "lvls (mz_buddym z) = lvls (mz_buddym z')"
  proof -
    have "buddy_wf ?N (mz_buddym z)" "buddy_wf ?N (mz_buddym z')" using z(2) z'(2) by (simp_all add: reserved_def)
    then have "unat (lvls (mz_buddym z)) = unat (lvls (mz_buddym z'))"
      by (intro log2_unique [of _ "unat ?N"]) (simp_all add: buddy_wf_def)
    then show ?thesis by (rule word32_eqI)
  qed
  then have zb: "zone_bytes ?N ?z = zone_bytes ?N z" by (simp add: zone_bytes_def)
  have pgs: "mz_pages z' = map (\<lambda>i. \<lparr>mp_paddr = phys + of_nat i * 4096,
      mp_state = if i < unat used then PAGESTATE_FIXED else PAGESTATE_FREE\<rparr>) [0..<unat len div 4096 - 1]"
    using z'(2) z(3) z'(3) N(3) by (intro nth_equalityI) (simp_all add: reserved_def)
  have cnt: "unat (?N - 1 - used) = unat len div 4096 - 1 - unat used"
  proof -
    have n1: "unat (?N - 1) = unat ?N - 1" using N(1) by (subst unat_sub32) simp_all
    have "unat used \<le> unat (?N - 1)" using z(6) n1 by linarith
    then have "unat (?N - 1 - used) = unat (?N - 1) - unat used" by (rule unat_sub32)
    then show ?thesis unfolding n1 N(3) .
  qed
  have room: "zone_bytes ?N z \<le> unat used * 4096" "unat used * 4096 < zone_bytes ?N z + 4096"
    unfolding z(11) by (linarith, linarith)
  let ?vm = "m2\<lparr>vm_areas := (vm_areas m2)(?info \<mapsto> r1\<lparr>va_length := used * 4096\<rparr>)\<rparr>"
  have zl: "zone_link zone \<noteq> NULL" "zone \<noteq> NULL" using boot(7,9) zn by (simp_all add: zone_link_def add.assoc)
  obtain h h' where h: "slist_init (mm_links s) (zone_link zone) = Inr h"
    "mm_zone_register (put_zone (s\<lparr>mm_vm := ?vm, mm_links := h\<rparr>) zone ?z) zone =
      Inr (put_zone (s\<lparr>mm_vm := ?vm, mm_links := h'\<rparr>) zone ?z)"
    "mm_ok (put_zone (s\<lparr>mm_vm := ?vm, mm_links := h'\<rparr>) zone ?z) (N(zone := ?N)) (zone # zs)"
    using mm_ok_register [OF ok zl(2,1) _ _ zo(1), of ?vm] p by blast
  let ?s = "put_zone (s\<lparr>mm_vm := ?vm, mm_links := h'\<rparr>) zone ?z"
  have "mm_zone_create memory s tmp handler phys len sp = Inr (zone, ?s)"
    using zone_create_steps [OF space_okD(1) [OF sp] pa vs refl al m1(1) boot(1,2,3,7,8), of m2 h memory z "?N - 1"
        "used * 4096" r1 z' ?s] m2(1,4) h(1,2) z(1) z'(1) by (simp add: zn ud)
  moreover have "space_ok ?vm sp as2"
  proof (rule space_ok_frame [OF m2(2)])
    have "area_ok (vm_areas ?vm) x \<and> area_base (vm_areas ?vm) x = area_base (vm_areas m2) x \<and>
        unat (area_size (vm_areas ?vm) x) \<le> unat (area_size (vm_areas m2) x)" if "x \<in> set as2" for x
      using areas_apart_ok [OF space_okD(2) [OF m2(2)] that] m2(4) m1(7) z(5-7) N(2)
      by (cases "x = ?info") (simp_all add: area_ok_def area_base_def area_size_def)
    then show "\<forall>x \<in> set as2. area_ok (vm_areas ?vm) x \<and> area_base (vm_areas ?vm) x = area_base (vm_areas m2) x \<and>
        unat (area_size (vm_areas ?vm) x) \<le> unat (area_size (vm_areas m2) x)" by blast
  qed (use slist_repD(1) [OF space_okD(4) [OF m2(2)]] in simp_all)
  moreover have "area_base (vm_areas ?vm) ?info = ?b" "unat (area_size (vm_areas ?vm) ?info) = unat used * 4096"
    using m1(6) z(7) by (simp_all add: area_base_def area_size_def)
  ultimately show ?thesis
    using h(3) z(3-6) z(8-10) z'(3-5) zo(2) N(3) m2(3) zb pgs cnt room
    by (intro exI [of _ ?s] exI [of _ "unat used"] exI [of _ as2]) (simp add: zone_of_def)
qed

section \<open>Properties\<close>

text \<open>C4: given a range of at least two whole pages that is apart from the areas of the kernel space,
  \<open>mm_zone_create\<close> succeeds: the zone is first in the list of zones; its description, the three
  structs, the bitmaps of all levels with their headers and the entries of the pages, lies at the start of
  the range and fits into the pages reserved for it, which are the least number that holds it (at least
  one, and not all); exactly the other pages are free, the entries of the reserved ones are fixed; the
  allocator in the zone has no room left; the other zones are unchanged, and the space has one more
  area, which covers exactly the reserved pages.\<close>

theorem mm_zone_create_sets_up:
  assumes "mm_ok s N zs" and "space_ok (mm_vm s) sp as" and "vm_spaces (mm_vm s) sp = Some vs"
    and "zone_place s zs as sp vs tmp phys len" and "zone = phys + vs_offset vs + 12"
  shows "\<exists>s' used as'. mm_zone_create memory s tmp handler phys len sp = Inr (zone, s') \<and>
    mm_ok s' (N(zone := len div 4096)) (zone # zs) \<and>
    0 < used \<and> used < unat len div 4096 \<and>
    (\<forall>i < unat len div 4096. page_free (zone_of s' zone) i \<longleftrightarrow> used \<le> i) \<and>
    mz_start (zone_of s' zone) = phys \<and> mz_length (zone_of s' zone) = len \<and>
    mz_pages (zone_of s' zone) = map (\<lambda>i. \<lparr>mp_paddr = phys + of_nat i * 4096,
      mp_state = if i < used then PAGESTATE_FIXED else PAGESTATE_FREE\<rparr>) [0..<unat len div 4096 - 1] \<and>
    unat (mz_pages_count (zone_of s' zone)) = unat len div 4096 - 1 - used \<and>
    base (mz_alloc (zone_of s' zone)) = phys + vs_offset vs \<and>
    limit (mz_alloc (zone_of s' zone)) = position (mz_alloc (zone_of s' zone)) \<and>
    linear_occ (mz_alloc (zone_of s' zone)) = zone_bytes (len div 4096) (zone_of s' zone) \<and>
    linear_occ (mz_alloc (zone_of s' zone)) \<le> used * 4096 \<and>
    used * 4096 < linear_occ (mz_alloc (zone_of s' zone)) + 4096 \<and>
    (\<forall>z. z \<noteq> zone \<longrightarrow> zone_of s' z = zone_of s z) \<and>
    space_ok (mm_vm s') sp as' \<and> set as' = insert (zone_info_area zone) (set as) \<and>
    area_base (vm_areas (mm_vm s')) (zone_info_area zone) = phys + vs_offset vs \<and>
    unat (area_size (vm_areas (mm_vm s')) (zone_info_area zone)) = used * 4096"
  by (rule zone_create_ok [OF assms])

text \<open>A kernel space without areas and no zones yet.\<close>

definition boot_state :: mm_state where
  "boot_state = \<lparr>mm_vm = \<lparr>vm_areas = Map.empty, vm_nodes = Map.empty, vm_links = [0x10C \<mapsto> NULL],
       vm_spaces = [0x100 \<mapsto> \<lparr>vs_root_dir = 0x1000, vs_offset = 0xC0000000, vs_rb_areas = NULL\<rparr>]\<rparr>,
     mm_zones = Map.empty, mm_links = [0x10 \<mapsto> NULL], MM_ZONES = 0x10\<rparr>"

lemma boot_state_ok:
  "mm_ok boot_state (\<lambda>_. 0) []" "space_ok (mm_vm boot_state) 0x100 []"
proof -
  show "mm_ok boot_state (\<lambda>_. 0) []" by (simp add: mm_ok_def boot_state_def slist_rep_def)
  have "tree_is node_area (space_tree (mm_vm boot_state)
      \<lparr>vs_root_dir = 0x1000, vs_offset = 0xC0000000, vs_rb_areas = NULL\<rparr>) Tip"
    by (simp add: tree_is_def space_tree_def)
  then show "space_ok (mm_vm boot_state) 0x100 []"
    unfolding space_ok_def
    by (intro conjI exI [of _ "\<lparr>vs_root_dir = 0x1000, vs_offset = 0xC0000000, vs_rb_areas = NULL\<rparr>"] exI [of _ Tip])
      (simp_all add: boot_state_def areas_apart_def red_black_def slist_rep_def space_head_def)
qed

theorem mm_zone_create_sets_up_witness:
  "\<exists>s' used. mm_zone_create (\<lambda>_. 0xFFFFFFFF) boot_state 0x900 0x5000 0x100000 0x4000 0x100 = Inr (0xC010000C, s') \<and>
     0 < used \<and> used < 4 \<and> (\<forall>i < 4. page_free (zone_of s' 0xC010000C) i \<longleftrightarrow> used \<le> i) \<and>
     zone_bytes 4 (zone_of s' 0xC010000C) \<le> used * 4096 \<and> used * 4096 < zone_bytes 4 (zone_of s' 0xC010000C) + 4096"
  using mm_zone_create_sets_up [OF boot_state_ok, of "\<lparr>vs_root_dir = 0x1000, vs_offset = 0xC0000000, vs_rb_areas = NULL\<rparr>"
      "0x900" "0x100000" "0x4000" "0xC010000C" "\<lambda>_. 0xFFFFFFFF" "0x5000"]
  by (auto simp: boot_state_def zone_place_def range_apart_def other_area_def page_align_dvd zone_info_area_def
      zone_link_def area_link_def area_node_def space_head_def)

end
