(* ===== verification/Addr.thy ===== *)
theory Addr
  imports Align_Utils
begin

text \<open>
  kernel/kernel/mm/addr.c: the translation between low (physical) and high (kernel) addresses.
  The two static variables \<open>READY\<close> and \<open>OFFSET\<close> are the state. The page fault handler of this
  file needs the page tables and stands with them.
\<close>

record addr_state =
  READY :: bool
  OFFSET :: addr

definition addr_state_init :: addr_state where
  "addr_state_init = \<lparr>READY = False, OFFSET = 0\<rparr>"

definition addr_set_offset :: "addr_state \<Rightarrow> addr \<Rightarrow> addr_state kres" where
  "addr_set_offset s offset = kassert (\<not> READY s) (Inr (s\<lparr>OFFSET := offset, READY := True\<rparr>))"

definition addr_get_offset :: "addr_state \<Rightarrow> addr kres" where
  "addr_get_offset s = kassert (READY s) (Inr (OFFSET s))"

definition addr_to_low :: "addr_state \<Rightarrow> addr \<Rightarrow> addr kres" where
  "addr_to_low s high_addr =
     kassert (READY s) (kassert (high_addr > OFFSET s) (Inr (high_addr - OFFSET s)))"

definition addr_to_high :: "addr_state \<Rightarrow> addr \<Rightarrow> addr kres" where
  "addr_to_high s low_addr =
     kassert (READY s) (kassert (low_addr < OFFSET s) (Inr (low_addr + OFFSET s)))"

definition addr_is_high :: "addr_state \<Rightarrow> addr \<Rightarrow> bool kres" where
  "addr_is_high s a = kassert (READY s) (Inr (a \<ge> OFFSET s))"

section \<open>The translations are inverse, but for the first high address\<close>

text \<open>
  \<open>addr_to_high\<close> does not check for wrap-around, and need not when the offset is in the upper half.
\<close>

lemma high_no_wrap:
  "a < off \<Longrightarrow> unat (off :: addr) + unat a < 2 ^ 32 \<Longrightarrow> off \<le> a + off \<and> (a = 0 \<longleftrightarrow> a + off = off)"
  by (auto simp: word_le_nat_alt unat_add32)

lemma to_high_to_low:
  assumes "READY s" and "0 < a" and "a < OFFSET s" and "unat a + unat (OFFSET s) < 2 ^ 32"
  shows "addr_to_high s a = Inr (a + OFFSET s) \<and> addr_to_low s (a + OFFSET s) = Inr a"
proof -
  have "OFFSET s < a + OFFSET s"
    using assms(2,4) by (simp add: word_less_nat_alt unat_add32)
  then show ?thesis using assms by (simp add: addr_to_high_def addr_to_low_def)
qed

text \<open>A low address below the offset goes to the high half and back; the address 0, whose high
  counterpart \<open>OFFSET\<close> counts as high, is the one \<open>addr_to_low\<close> refuses to give back.\<close>

theorem addr_round_trip:
  assumes "READY s" and "a < OFFSET s" and "unat a + unat (OFFSET s) < 2 ^ 32"
  shows "\<exists>h. addr_to_high s a = Inr h \<and> addr_is_high s h = Inr True \<and>
    addr_to_low s h = (if a = 0 then Inl Kassert else Inr a)"
proof (cases "a = 0")
  case True
  then show ?thesis using assms by (simp add: addr_to_high_def addr_to_low_def addr_is_high_def)
next
  case False
  then have "0 < a" by (simp add: word_neq_0_conv)
  then show ?thesis
    using to_high_to_low [OF assms(1) _ assms(2,3)] high_no_wrap [OF assms(2)] assms
    by (simp add: addr_is_high_def add.commute)
qed

theorem addr_round_trip_witness:
  "\<exists>h. addr_to_high \<lparr>READY = True, OFFSET = 0xC0000000\<rparr> 0x1000 = Inr h \<and>
     addr_to_low \<lparr>READY = True, OFFSET = 0xC0000000\<rparr> h = Inr 0x1000"
  using addr_round_trip [of "\<lparr>READY = True, OFFSET = 0xC0000000\<rparr>" "0x1000"] by auto

end
