(* ===== verification/Paging.thy ===== *)
theory Paging
  imports Mm_Zone Vm_Space Addr
begin

text \<open>
  kernel/arch/i686/vm.c: page directories and page tables of the i686, changed through the
  recursive and the emergency entry of the directory.

  The hardware is modelled as far as the code relies on it: physical memory as the entries of its
  frames, the frame of the active directory (\<open>CR3\<close>), and the page walk. Every access of the code to
  an entry goes through the walk, with the state of the tables at that moment; an access to a page
  that is not mapped is undefined. The TLB is not modelled: the code flushes the one entry whose
  mapping it changes from one frame to another. There are no 4 MiB pages (the kernel sets none up).
\<close>

unbundle bit_operations_syntax

section \<open>Entries and the page walk\<close>

text \<open>\<open>struct i686_vm_pge\<close>: \<open>pge_flags\<close> are the bits 1 to 7 that \<open>dir.flags\<close> and \<open>table.flags\<close> share,
  \<open>pge_data\<close> the bits 8 to 11.\<close>

record i686_vm_pge =
  is_present :: bool
  pge_flags :: "7 word"
  pge_data :: "4 word"
  paddr :: "20 word"

type_synonym frame = "20 word"

record mmu =
  frames :: "frame \<Rightarrow> 10 word \<Rightarrow> i686_vm_pge"
  cr3 :: frame

definition zero_pge :: i686_vm_pge where
  "zero_pge = \<lparr>is_present = False, pge_flags = 0, pge_data = 0, paddr = 0\<rparr>"

definition pd_index :: "addr \<Rightarrow> 10 word" where "pd_index v = ucast (drop_bit 22 v)"
definition pt_index :: "addr \<Rightarrow> 10 word" where "pt_index v = ucast (drop_bit 12 v)"
definition entry_index :: "addr \<Rightarrow> 10 word" where "entry_index p = ucast (drop_bit 2 p)"

definition page_pde :: "mmu \<Rightarrow> addr \<Rightarrow> i686_vm_pge" where
  "page_pde s v = frames s (cr3 s) (pd_index v)"

definition page_pte :: "mmu \<Rightarrow> addr \<Rightarrow> i686_vm_pge" where
  "page_pte s v = frames s (paddr (page_pde s v)) (pt_index v)"

text \<open>The walk: the frame a virtual address is mapped to.\<close>

definition page_frame :: "mmu \<Rightarrow> addr \<Rightarrow> frame option" where
  "page_frame s v =
     (if is_present (page_pde s v) \<and> is_present (page_pte s v) then Some (paddr (page_pte s v)) else None)"

definition pge_load :: "mmu \<Rightarrow> addr \<Rightarrow> i686_vm_pge kres" where
  "pge_load s p = (case page_frame s p of None \<Rightarrow> Inl Undef | Some f \<Rightarrow> Inr (frames s f (entry_index p)))"

definition set_entry :: "mmu \<Rightarrow> frame \<Rightarrow> 10 word \<Rightarrow> i686_vm_pge \<Rightarrow> mmu" where
  "set_entry s f i e = s\<lparr>frames := (frames s)(f := (frames s f)(i := e))\<rparr>"

definition pge_put :: "mmu \<Rightarrow> addr \<Rightarrow> (i686_vm_pge \<Rightarrow> i686_vm_pge) \<Rightarrow> mmu kres" where
  "pge_put s p g = (case page_frame s p of None \<Rightarrow> Inl Undef
     | Some f \<Rightarrow> Inr (set_entry s f (entry_index p) (g (frames s f (entry_index p)))))"

section \<open>Flags and indices\<close>

definition I686VM_TABLE_FLAG_RW :: "7 word" where "I686VM_TABLE_FLAG_RW = 1"
definition I686VM_TABLE_FLAG_USER :: "7 word" where "I686VM_TABLE_FLAG_USER = 2"
definition I686VM_DIR_FLAG_RW :: "7 word" where "I686VM_DIR_FLAG_RW = 1"
definition I686VM_DIR_FLAG_USER :: "7 word" where "I686VM_DIR_FLAG_USER = 2"

definition i686_vm_to_table_flags :: "u8 \<Rightarrow> 7 word" where
  "i686_vm_to_table_flags area_flags =
     (if area_flags AND VM_WRITE \<noteq> 0 then I686VM_TABLE_FLAG_RW else 0) OR
     (if area_flags AND VM_USER \<noteq> 0 then I686VM_TABLE_FLAG_USER else 0)"

definition i686_vm_to_dir_flags :: "u8 \<Rightarrow> 7 word" where
  "i686_vm_to_dir_flags area_flags =
     (if area_flags AND VM_WRITE \<noteq> 0 then I686VM_DIR_FLAG_RW else 0) OR
     (if area_flags AND VM_USER \<noteq> 0 then I686VM_DIR_FLAG_USER else 0)"

definition PTE_MASK :: addr where "PTE_MASK = push_bit 12 1023"
definition PDE_MASK :: addr where "PDE_MASK = push_bit 22 1023"

definition I686VM_PD_LAST_VALID_PAGE :: u32 where "I686VM_PD_LAST_VALID_PAGE = 1021"
definition I686VM_PD_EMERGENCY_NDX :: u32 where "I686VM_PD_EMERGENCY_NDX = 1022"
definition I686VM_PD_RECURSIVE_NDX :: u32 where "I686VM_PD_RECURSIVE_NDX = 1023"
definition I686VM_PD_EMERGENCY_ADDR :: addr where
  "I686VM_PD_EMERGENCY_ADDR = push_bit 22 I686VM_PD_EMERGENCY_NDX"
definition I686VM_PD_RECURSIVE_ADDR :: addr where
  "I686VM_PD_RECURSIVE_ADDR = push_bit 22 I686VM_PD_RECURSIVE_NDX"

definition EMERGENCY_DIR :: addr where
  "EMERGENCY_DIR = push_bit 22 I686VM_PD_RECURSIVE_NDX OR push_bit 12 I686VM_PD_EMERGENCY_NDX"

definition get_pte_ndx :: "addr \<Rightarrow> u32" where
  "get_pte_ndx v = drop_bit 12 (v AND PTE_MASK)"

definition get_pde_ndx :: "addr \<Rightarrow> u32" where
  "get_pde_ndx v = drop_bit 22 (v AND PDE_MASK)"

datatype i686_vm_pg_lvls = I686VM_PGLVL_DIR | I686VM_PGLVL_TABLE

text \<open>The address of an entry of the directory or table at \<open>dir\<close>; the entries are four bytes.\<close>

definition i686_vm_get_pge :: "i686_vm_pg_lvls \<Rightarrow> addr \<Rightarrow> addr \<Rightarrow> addr" where
  "i686_vm_get_pge lvl dir v = dir + 4 * (case lvl of
     I686VM_PGLVL_DIR \<Rightarrow> get_pde_ndx v | I686VM_PGLVL_TABLE \<Rightarrow> get_pte_ndx v)"

definition dir_emergency :: "addr \<Rightarrow> addr" where "dir_emergency dir = dir + 4 * 1022"
definition dir_recursive :: "addr \<Rightarrow> addr" where "dir_recursive dir = dir + 4 * 1023"

definition vm_arch_is_range_valid :: "addr \<Rightarrow> size_t \<Rightarrow> bool" where
  "vm_arch_is_range_valid b len =
     (let end_addr = b + len;
          pd_reserve_start = push_bit 22 (I686VM_PD_LAST_VALID_PAGE + 1) in
      \<not> (b \<ge> pd_reserve_start \<or> end_addr \<ge> pd_reserve_start))"

definition vm_arch_iter_reserved_vaddresses :: "(addr \<Rightarrow> size_t \<Rightarrow> 's \<Rightarrow> 's kres) \<Rightarrow> 's \<Rightarrow> 's kres" where
  "vm_arch_iter_reserved_vaddresses fn s =
     kbind (fn I686VM_PD_RECURSIVE_ADDR PLATFORM_PAGE_SIZE s) (\<lambda>s.
       fn I686VM_PD_EMERGENCY_ADDR PLATFORM_PAGE_SIZE s)"

section \<open>Changing entries\<close>

definition i686_vm_pge_set_addr :: "mmu \<Rightarrow> addr \<Rightarrow> addr \<Rightarrow> mmu kres" where
  "i686_vm_pge_set_addr s entry phys_addr = pge_put s entry (paddr_update (\<lambda>_. ucast (drop_bit 12 phys_addr)))"

definition i686_vm_pge_get_addr :: "mmu \<Rightarrow> addr \<Rightarrow> addr kres" where
  "i686_vm_pge_get_addr s entry =
     kbind (pge_load s entry) (\<lambda>e. kassert (is_present e) (Inr (push_bit 12 (ucast (paddr e)))))"

definition set_present :: "mmu \<Rightarrow> addr \<Rightarrow> bool \<Rightarrow> mmu kres" where
  "set_present s entry p = pge_put s entry (is_present_update (\<lambda>_. p))"

definition or_flags :: "mmu \<Rightarrow> addr \<Rightarrow> 7 word \<Rightarrow> mmu kres" where
  "or_flags s entry f = pge_put s entry (pge_flags_update (\<lambda>g. g OR f))"

definition i686_vm_setup_recursive_mapping :: "mmu \<Rightarrow> addr \<Rightarrow> addr \<Rightarrow> mmu kres" where
  "i686_vm_setup_recursive_mapping s dir_actual dir_paddr =
     (let e = dir_recursive dir_actual in
      kbind (pge_load s e) (\<lambda>x. kassert (\<not> is_present x)
      (kbind (i686_vm_pge_set_addr s e dir_paddr) (\<lambda>s.
       kbind (set_present s e True) (\<lambda>s. or_flags s e I686VM_DIR_FLAG_RW)))))"

text \<open>The emergency entry is made to point at a table, whose entries are then at \<open>EMERGENCY_DIR\<close>.\<close>

definition open_emergency :: "mmu \<Rightarrow> addr \<Rightarrow> addr \<Rightarrow> mmu kres" where
  "open_emergency s emergency a =
     kbind (i686_vm_pge_set_addr s emergency a) (\<lambda>s.
     kbind (set_present s emergency True) (\<lambda>s. or_flags s emergency I686VM_DIR_FLAG_RW))"

definition get_pge_for_vaddr :: "mmu \<Rightarrow> addr \<Rightarrow> addr \<Rightarrow> (addr \<times> mmu) kres" where
  "get_pge_for_vaddr s tree_root v =
     (let emergency = dir_emergency tree_root in
      kbind (pge_load s emergency) (\<lambda>e. kassert (\<not> is_present e)
      (let pge_root = i686_vm_get_pge I686VM_PGLVL_DIR tree_root v in
       kbind (i686_vm_pge_get_addr s pge_root) (\<lambda>a.
       kbind (open_emergency s emergency a) (\<lambda>s.
         Inr (i686_vm_get_pge I686VM_PGLVL_TABLE EMERGENCY_DIR v, s))))))"

definition free_emergency_entry :: "mmu \<Rightarrow> addr \<Rightarrow> mmu kres" where
  "free_emergency_entry s tree_root =
     (let emergency = dir_emergency tree_root in
      kbind (pge_load s emergency) (\<lambda>e. kassert (is_present e) (set_present s emergency False)))"

definition vm_arch_resolve_phys_page :: "mmu \<Rightarrow> addr \<Rightarrow> addr \<Rightarrow> (addr \<times> mmu) kres" where
  "vm_arch_resolve_phys_page s tree_root virt_page =
     kbind (get_pge_for_vaddr s tree_root virt_page) (\<lambda>(e, s).
     kbind (i686_vm_pge_get_addr s e) (\<lambda>phys_addr.
     kbind (free_emergency_entry s tree_root) (\<lambda>s. Inr (phys_addr, s))))"

text \<open>A new, empty page table: the frame comes from \<open>mm_alloc_page\<close>.\<close>

definition clear_frame :: "mmu \<Rightarrow> addr \<Rightarrow> mmu kres" where
  "clear_frame s v = (case page_frame s v of None \<Rightarrow> Inl Undef
     | Some f \<Rightarrow> Inr (s\<lparr>frames := (frames s)(f := (\<lambda>_. zero_pge))\<rparr>))"

definition create_new_dir :: "mmu \<Rightarrow> mm_state \<Rightarrow> addr \<Rightarrow> (addr \<times> mmu \<times> mm_state) kres" where
  "create_new_dir s mm root_pd =
     kbind (mm_alloc_page mm) (\<lambda>(page, mm). case page of
       None \<Rightarrow> Inl Panic
     | Some (zone, n) \<Rightarrow>
         kbind (zone_at mm zone) (\<lambda>z. kbind (page_at z n) (\<lambda>pg.
         let e = dir_emergency root_pd in
         kbind (pge_load s e) (\<lambda>x. kassert (\<not> is_present x)
         (kbind (open_emergency s e (mp_paddr pg)) (\<lambda>s.
          kbind (clear_frame s EMERGENCY_DIR) (\<lambda>s.
          kbind (set_present s e False) (\<lambda>s. Inr (mp_paddr pg, s, mm)))))))))"

definition vm_arch_pt_map :: "mmu \<Rightarrow> mm_state \<Rightarrow> addr \<Rightarrow> addr \<Rightarrow> addr \<Rightarrow> u8 \<Rightarrow> (mmu \<times> mm_state) kres" where
  "vm_arch_pt_map s mm tree_root phys_addr at_virt_addr flags =
     kassert (tree_root \<noteq> NULL)
     (let pde = i686_vm_get_pge I686VM_PGLVL_DIR tree_root at_virt_addr in
      kbind (pge_load s pde) (\<lambda>x.
      kbind (if \<not> is_present x
        then kbind (create_new_dir s mm tree_root) (\<lambda>(new_pd_paddr, s, mm).
          kbind (i686_vm_pge_set_addr s pde new_pd_paddr) (\<lambda>s.
          kbind (pge_put s pde (pge_flags_update (\<lambda>_. i686_vm_to_dir_flags flags))) (\<lambda>s.
          kbind (set_present s pde True) (\<lambda>s. Inr (s, mm)))))
        else Inr (s, mm)) (\<lambda>(s, mm).
      kbind (get_pge_for_vaddr s tree_root at_virt_addr) (\<lambda>(pte, s).
      kbind (pge_load s pte) (\<lambda>x. kassert (\<not> is_present x)
      (kbind (i686_vm_pge_set_addr s pte phys_addr) (\<lambda>s.
       kbind (pge_put s pte (pge_flags_update (\<lambda>_. i686_vm_to_table_flags flags))) (\<lambda>s.
       kbind (set_present s pte True) (\<lambda>s.
       kbind (free_emergency_entry s tree_root) (\<lambda>s. Inr (s, mm)))))))))))"

definition vm_arch_pt_unmap :: "mmu \<Rightarrow> addr \<Rightarrow> addr \<Rightarrow> mmu kres" where
  "vm_arch_pt_unmap s tree_root virt_addr =
     kbind (get_pge_for_vaddr s tree_root virt_addr) (\<lambda>(pte, s).
     kbind (pge_load s pte) (\<lambda>x. kassert (is_present x)
     (kbind (set_present s pte False) (\<lambda>s. free_emergency_entry s tree_root))))"

section \<open>Page faults\<close>

text \<open>\<open>addr_pgfault_handler_maplow\<close> of kernel/kernel/mm/addr.c.\<close>

definition addr_pgfault_handler_maplow :: "addr_state \<Rightarrow> vm_mem \<Rightarrow> mmu \<Rightarrow> mm_state \<Rightarrow> addr \<Rightarrow> addr \<Rightarrow>
    (mmu \<times> mm_state) kres" where
  "addr_pgfault_handler_maplow as m s mm area a =
     kassert (area \<noteq> NULL)
     (let virt_page_addr = align_rounddown a PLATFORM_PAGE_SIZE in
      kbind (addr_to_low as virt_page_addr) (\<lambda>phys_page_addr.
      kbind (area_at (vm_areas m) area) (\<lambda>r.
      kbind (space_at m (va_owner r)) (\<lambda>vs.
        vm_arch_pt_map s mm (vs_root_dir vs) phys_page_addr virt_page_addr (va_flags r)))))"

text \<open>
  The handler of the page fault interrupt: \<open>fault_at\<close> is what \<open>i686_vm_get_cr2\<close> reads,
  \<open>current_user\<close> is \<open>NULL\<close> without a process, and \<open>call\<close> is what calling a handler of an area does.
\<close>

definition i686_vm_pg_fault_handler :: "(addr \<Rightarrow> 's \<Rightarrow> addr \<Rightarrow> addr \<Rightarrow> 's kres) \<Rightarrow> addr_state \<Rightarrow> vm_mem \<Rightarrow> addr \<Rightarrow> addr \<Rightarrow>
    's \<Rightarrow> addr \<Rightarrow> 's kres" where
  "i686_vm_pg_fault_handler call as m current_kernel current_user s fault_at =
     kbind (addr_is_high as fault_at) (\<lambda>high.
     kbind (if high then Inr current_kernel else kassert (current_user \<noteq> NULL) (Inr current_user)) (\<lambda>fault_space.
     kbind (space_at m fault_space) (\<lambda>vs.
     let t = space_tree m vs in
     kbind (rbtree_search t fault_at (vm_area_rbtcmpfn_area_to_addr (vm_areas m))) (\<lambda>rbtnode.
     if rbtnode = NULL then Inl Panic
     else kbind (node_at t rbtnode) (\<lambda>nd. let fault_area = rb_data nd in
       kbind (area_at (vm_areas m) fault_area) (\<lambda>r.
       if handle_pg_fault (va_ops r) \<noteq> NULL then call (handle_pg_fault (va_ops r)) s fault_area fault_at
       else Inl Panic))))))"

section \<open>Addresses of entries\<close>

lemma unat_ucast10: "unat (ucast (x :: u32) :: 10 word) = unat x mod 1024"
  by (simp add: unsigned_ucast_eq take_bit_eq_mod)

lemma get_pte_ndx_eq: "get_pte_ndx v = ucast (pt_index v)"
proof -
  have m: "(1023 :: u32) = mask 10" by (simp add: mask_eq_exp_minus_1)
  show ?thesis
    unfolding get_pte_ndx_def PTE_MASK_def pt_index_def m by (auto simp: bit_eq_iff bit_simps)
qed

lemma get_pde_ndx_eq: "get_pde_ndx v = ucast (pd_index v)"
proof -
  have m: "(1023 :: u32) = mask 10" by (simp add: mask_eq_exp_minus_1)
  show ?thesis
    unfolding get_pde_ndx_def PDE_MASK_def pd_index_def m by (auto simp: bit_eq_iff bit_simps)
qed

lemma entry_place:
  assumes "check_align dir PLATFORM_PAGE_SIZE"
  shows "drop_bit 12 (dir + 4 * ucast (i :: 10 word)) = drop_bit 12 dir" "entry_index (dir + 4 * ucast i) = i"
proof -
  obtain q where q: "unat dir = 4096 * q" using assms by (auto simp: page_align_dvd)
  have i: "unat (ucast i :: u32) = unat i" "unat i < 1024"
    using unsigned_less [of i, where ?'a = nat] by (simp_all add: unsigned_ucast_eq take_bit_nat_eq_self)
  have i4: "unat (4 * ucast i :: u32) = 4 * unat i" using unat_mult32 [of 4 "ucast i"] i by simp
  have "q < 1048576" using q unat_lt32 [of dir] by linarith
  then have "unat dir + 4 * unat i < 4294967296" using q i(2) by linarith
  then have n: "unat (dir + 4 * ucast i) = 4096 * q + 4 * unat i"
    using unat_add32 [of dir "4 * ucast i"] q i4 by simp
  have "(4096 * q + 4 * unat i) div 4096 = q" using i(2) by simp
  then show "drop_bit 12 (dir + 4 * ucast i) = drop_bit 12 dir"
    by (intro word32_eqI) (simp add: unat_drop_bit_32 n q)
  have "(4096 * q + 4 * unat i) div 4 mod 1024 = unat i"
  proof -
    have "(4096 * q + 4 * unat i) div 4 = 1024 * q + unat i" by linarith
    then show ?thesis using i(2) by simp
  qed
  then have "unat (entry_index (dir + 4 * ucast i)) = unat i"
    unfolding entry_index_def by (simp add: unat_ucast10 unat_drop_bit_32 n)
  then show "entry_index (dir + 4 * ucast i) = i" by (rule unsigned_word_eqI)
qed

lemma page_frame_page:
  assumes "drop_bit 12 v = drop_bit 12 w"
  shows "pd_index v = pd_index w" "pt_index v = pt_index w" "page_frame s v = page_frame s w"
proof -
  have "drop_bit 22 x = drop_bit 10 (drop_bit 12 x)" for x :: addr
    using drop_bit_drop_bit [of 10 12 x] by (simp only: arith_simps)
  then show "pd_index v = pd_index w" "pt_index v = pt_index w"
    unfolding pd_index_def pt_index_def using assms by (simp_all only:)
  then show "page_frame s v = page_frame s w" by (simp add: page_frame_def page_pde_def page_pte_def)
qed

lemma EMERGENCY_DIR_eq: "EMERGENCY_DIR = 0xFFFFE000"
  by (simp add: EMERGENCY_DIR_def I686VM_PD_RECURSIVE_NDX_def I686VM_PD_EMERGENCY_NDX_def)

lemma emergency_dir_place:
  "check_align EMERGENCY_DIR PLATFORM_PAGE_SIZE" "pd_index EMERGENCY_DIR = 1023" "pt_index EMERGENCY_DIR = 1022"
  unfolding EMERGENCY_DIR_eq by (simp_all add: page_align_dvd pd_index_def pt_index_def)

section \<open>Directories\<close>

abbreviation dir_entry :: "mmu \<Rightarrow> 10 word \<Rightarrow> i686_vm_pge" where
  "dir_entry s i \<equiv> frames s (cr3 s) i"

text \<open>
  \<open>dir_base s root\<close>: \<open>root\<close> is the virtual address of the active directory, whose last entry is the
  recursive one, and its tables are frames of their own. \<open>dir_ok\<close>: also, the emergency entry is free.
\<close>

definition dir_base :: "mmu \<Rightarrow> addr \<Rightarrow> bool" where
  "dir_base s root \<longleftrightarrow> root \<noteq> NULL \<and> check_align root PLATFORM_PAGE_SIZE \<and> pd_index root < 1022 \<and>
     page_frame s root = Some (cr3 s) \<and> is_present (dir_entry s 1023) \<and> paddr (dir_entry s 1023) = cr3 s \<and>
     (\<forall>i < 1022. is_present (dir_entry s i) \<longrightarrow> paddr (dir_entry s i) \<noteq> cr3 s) \<and>
     (\<forall>i < 1022. \<forall>j < 1022. i \<noteq> j \<and> is_present (dir_entry s i) \<and> is_present (dir_entry s j) \<longrightarrow>
        paddr (dir_entry s i) \<noteq> paddr (dir_entry s j))"

definition dir_ok :: "mmu \<Rightarrow> addr \<Rightarrow> bool" where
  "dir_ok s root \<longleftrightarrow> dir_base s root \<and> \<not> is_present (dir_entry s 1022)"

lemma set_entry_simps [simp]:
  "cr3 (set_entry s f i e) = cr3 s"
  "frames (set_entry s f i e) g j = (if g = f \<and> j = i then e else frames s g j)"
  by (simp_all add: set_entry_def)

lemma set_entry_twice [simp]: "set_entry (set_entry s f i e) f i e' = set_entry s f i e'"
  by (simp add: set_entry_def)

lemma dir_entry_access:
  assumes "dir_base s root"
  shows "pge_load s (root + 4 * ucast i) = Inr (dir_entry s i)"
    "pge_put s (root + 4 * ucast i) g = Inr (set_entry s (cr3 s) i (g (dir_entry s i)))"
proof -
  have al: "check_align root PLATFORM_PAGE_SIZE" "page_frame s root = Some (cr3 s)"
    using assms by (auto simp: dir_base_def)
  note pl = entry_place [OF al(1), of i]
  show "pge_load s (root + 4 * ucast i) = Inr (dir_entry s i)"
    "pge_put s (root + 4 * ucast i) g = Inr (set_entry s (cr3 s) i (g (dir_entry s i)))"
    using page_frame_page(3) [OF pl(1), of s] al(2) pl(2) by (simp_all add: pge_load_def pge_put_def)
qed

lemma dir_emergency_eq: "dir_emergency root = root + 4 * ucast (1022 :: 10 word)"
  and dir_pde_eq: "i686_vm_get_pge I686VM_PGLVL_DIR root v = root + 4 * ucast (pd_index v)"
  and table_pte_eq: "i686_vm_get_pge I686VM_PGLVL_TABLE dir v = dir + 4 * ucast (pt_index v)"
  by (simp_all add: dir_emergency_def i686_vm_get_pge_def get_pde_ndx_eq get_pte_ndx_eq)

lemma emergency_entry_access:
  assumes "dir_base s root"
  shows "pge_load s (dir_emergency root) = Inr (dir_entry s 1022)"
    "pge_put s (dir_emergency root) g = Inr (set_entry s (cr3 s) 1022 (g (dir_entry s 1022)))"
  unfolding dir_emergency_eq by (rule dir_entry_access [OF assms])+

text \<open>The entry through which the emergency entry shows a table.\<close>

lemma emergency_access:
  assumes "dir_base s root" and "is_present (dir_entry s 1022)" and "paddr (dir_entry s 1022) = T"
  shows "page_frame s EMERGENCY_DIR = Some T"
    "pge_load s (EMERGENCY_DIR + 4 * ucast i) = Inr (frames s T i)"
    "pge_put s (EMERGENCY_DIR + 4 * ucast i) g = Inr (set_entry s T i (g (frames s T i)))"
proof -
  show f: "page_frame s EMERGENCY_DIR = Some T"
    using assms by (auto simp: page_frame_def page_pde_def page_pte_def emergency_dir_place dir_base_def)
  note pl = entry_place [OF emergency_dir_place(1), of i]
  show "pge_load s (EMERGENCY_DIR + 4 * ucast i) = Inr (frames s T i)"
    "pge_put s (EMERGENCY_DIR + 4 * ucast i) g = Inr (set_entry s T i (g (frames s T i)))"
    using page_frame_page(3) [OF pl(1), of s] f pl(2) by (simp_all add: pge_load_def pge_put_def)
qed

text \<open>Changing the emergency entry keeps the directory, and every mapping below it.\<close>

lemma walk_emergency:
  assumes "dir_base s root" and "pd_index v < 1022"
  shows "page_pde (set_entry s (cr3 s) 1022 e) v = page_pde s v"
    "is_present (page_pde s v) \<Longrightarrow> page_pte (set_entry s (cr3 s) 1022 e) v = page_pte s v"
    "page_frame (set_entry s (cr3 s) 1022 e) v = page_frame s v"
proof -
  show p: "page_pde (set_entry s (cr3 s) 1022 e) v = page_pde s v"
    using assms(2) by (auto simp: page_pde_def)
  show t: "is_present (page_pde s v) \<Longrightarrow> page_pte (set_entry s (cr3 s) 1022 e) v = page_pte s v"
    unfolding page_pte_def p using assms by (auto simp: dir_base_def page_pde_def)
  show "page_frame (set_entry s (cr3 s) 1022 e) v = page_frame s v"
    using p t by (auto simp: page_frame_def)
qed

lemma dir_base_emergency:
  assumes "dir_base s root"
  shows "dir_base (set_entry s (cr3 s) 1022 e) root"
proof -
  have "pd_index root < 1022" using assms by (simp add: dir_base_def)
  then show ?thesis
    using assms walk_emergency(3) [OF assms, of root e] unfolding dir_base_def by auto
qed

section \<open>The steps\<close>

definition opened :: "i686_vm_pge \<Rightarrow> frame \<Rightarrow> i686_vm_pge" where
  "opened e T = e\<lparr>paddr := T, is_present := True, pge_flags := pge_flags e OR I686VM_DIR_FLAG_RW\<rparr>"

lemma pge_flags_update_set: "pge_flags_update g e = e\<lparr>pge_flags := g (pge_flags e)\<rparr>"
  by simp

definition phys_frame :: "addr \<Rightarrow> frame" where
  "phys_frame a = ucast (drop_bit 12 a)"

lemma phys_frame_push [simp]: "phys_frame (push_bit 12 (ucast f)) = f"
  unfolding phys_frame_def by (auto simp: bit_eq_iff bit_simps)

lemma open_ok:
  assumes "dir_base s root"
  shows "open_emergency s (dir_emergency root) a =
      Inr (set_entry s (cr3 s) 1022 (opened (dir_entry s 1022) (phys_frame a)))"
proof -
  note acc = emergency_entry_access(2) [OF dir_base_emergency [OF assms]]
  show ?thesis
    by (simp add: open_emergency_def i686_vm_pge_set_addr_def set_present_def or_flags_def
        emergency_entry_access(2) [OF assms] acc opened_def phys_frame_def
        pge_flags_update_set [where g = "\<lambda>g. g OR I686VM_DIR_FLAG_RW"])
qed

lemma dir_not_1022: "pd_index v < 1022 \<Longrightarrow> pd_index v \<noteq> 1022"
  by auto

lemma get_pge_ok:
  assumes ok: "dir_ok s root" and v: "pd_index v < 1022" and p: "is_present (page_pde s v)"
  shows "get_pge_for_vaddr s root v = Inr (EMERGENCY_DIR + 4 * ucast (pt_index v),
    set_entry s (cr3 s) 1022 (opened (dir_entry s 1022) (paddr (page_pde s v))))"
proof -
  have b: "dir_base s root" using ok by (simp add: dir_ok_def)
  have e: "i686_vm_pge_get_addr s (root + 4 * ucast (pd_index v)) = Inr (push_bit 12 (ucast (paddr (page_pde s v))))"
    using p dir_entry_access(1) [OF b] by (simp add: i686_vm_pge_get_addr_def page_pde_def)
  show ?thesis
    using ok
    by (simp add: get_pge_for_vaddr_def dir_pde_eq table_pte_eq dir_ok_def Let_def e
        emergency_entry_access(1) [OF b] open_ok [OF b])
qed

lemma free_ok:
  assumes "dir_base s root" and "is_present (dir_entry s 1022)"
  shows "free_emergency_entry s root =
    Inr (set_entry s (cr3 s) 1022 ((dir_entry s 1022)\<lparr>is_present := False\<rparr>))"
  by (simp add: free_emergency_entry_def set_present_def Let_def emergency_entry_access [OF assms(1)] assms(2))

text \<open>A change of an entry of a table changes the mapping of one page.\<close>

lemma walk_table:
  assumes b: "dir_base s root" and v: "pd_index v < 1022" "is_present (page_pde s v)" and w: "pd_index w < 1022"
  shows "page_pde (set_entry s (paddr (page_pde s v)) i e) w = page_pde s w"
    and "is_present (page_pde s w) \<Longrightarrow> page_pte (set_entry s (paddr (page_pde s v)) i e) w =
      (if pd_index w = pd_index v \<and> pt_index w = i then e else page_pte s w)"
proof -
  have "paddr (page_pde s v) \<noteq> cr3 s" using b v by (auto simp: dir_base_def page_pde_def)
  then show p: "page_pde (set_entry s (paddr (page_pde s v)) i e) w = page_pde s w"
    by (simp add: page_pde_def)
  have "paddr (page_pde s w) = paddr (page_pde s v) \<longleftrightarrow> pd_index w = pd_index v" if "is_present (page_pde s w)"
    using b v w that by (auto simp: dir_base_def page_pde_def)
  then show "is_present (page_pde s w) \<Longrightarrow> page_pte (set_entry s (paddr (page_pde s v)) i e) w =
      (if pd_index w = pd_index v \<and> pt_index w = i then e else page_pte s w)"
    unfolding page_pte_def p by auto
qed

lemma dir_base_table:
  assumes b: "dir_base s root" and v: "pd_index v < 1022" "is_present (page_pde s v)"
    and r: "\<not> (pd_index root = pd_index v \<and> pt_index root = i)"
  shows "dir_base (set_entry s (paddr (page_pde s v)) i e) root"
proof -
  have ne: "paddr (page_pde s v) \<noteq> cr3 s" using b v by (auto simp: dir_base_def page_pde_def)
  have rt: "pd_index root < 1022" "is_present (page_pde s root)" using b
    by (auto simp: dir_base_def page_frame_def split: if_splits)
  have "page_frame (set_entry s (paddr (page_pde s v)) i e) root = page_frame s root"
    using walk_table [OF b v rt(1), of i e] rt(2) r by (auto simp: page_frame_def)
  then show ?thesis using b ne unfolding dir_base_def by auto
qed

section \<open>Mapping a page in a table that is there\<close>

definition same_page :: "addr \<Rightarrow> addr \<Rightarrow> bool" where
  "same_page v w \<longleftrightarrow> pd_index v = pd_index w \<and> pt_index v = pt_index w"

lemma same_page_iff: "same_page v w \<longleftrightarrow> drop_bit 12 v = drop_bit 12 w"
proof
  assume "drop_bit 12 v = drop_bit 12 w"
  then have "pd_index v = pd_index w" "pt_index v = pt_index w" by (rule page_frame_page)+
  then show "same_page v w" by (simp add: same_page_def)
next
  assume s: "same_page v w"
  have pt: "bit v (n + 12) = bit w (n + 12)" if "n < 10" for n
  proof -
    have "bit (pt_index v) n = bit (pt_index w) n" using s by (simp add: same_page_def)
    then show ?thesis using that by (simp add: pt_index_def bit_simps add.commute)
  qed
  have pd: "bit v (n + 22) = bit w (n + 22)" if "n < 10" for n
  proof -
    have "bit (pd_index v) n = bit (pd_index w) n" using s by (simp add: same_page_def)
    then show ?thesis using that by (simp add: pd_index_def bit_simps add.commute)
  qed
  show "drop_bit 12 v = drop_bit 12 w"
  proof (rule bit_eqI)
    fix n assume "possible_bit TYPE(32 word) n"
    show "bit (drop_bit 12 v) n = bit (drop_bit 12 w) n"
    proof (cases "n < 10")
      case True
      then show ?thesis using pt [of n] by (simp add: bit_drop_bit_eq add.commute)
    next
      case False
      then obtain m where m: "n = m + 10" by (metis add.commute le_Suc_ex linorder_not_less)
      show ?thesis
      proof (cases "m < 10")
        case True
        then show ?thesis using pd [of m] m by (simp add: bit_drop_bit_eq add.commute)
      next
        case False
        then have "\<not> bit x (12 + n)" for x :: addr using m bit_imp_le_length [of x "12 + n"] by auto
        then show ?thesis by (simp add: bit_drop_bit_eq)
      qed
    qed
  qed
qed

text \<open>The emergency entry shows the table of \<open>v\<close>.\<close>

definition set_pte :: "mmu \<Rightarrow> addr \<Rightarrow> i686_vm_pge \<Rightarrow> mmu" where
  "set_pte s v e = set_entry s (paddr (page_pde s v)) (pt_index v) e"

definition table_open :: "mmu \<Rightarrow> addr \<Rightarrow> addr \<Rightarrow> bool" where
  "table_open s root v \<longleftrightarrow> dir_base s root \<and> pd_index v < 1022 \<and> \<not> same_page root v \<and> is_present (page_pde s v) \<and>
     is_present (dir_entry s 1022) \<and> paddr (dir_entry s 1022) = paddr (page_pde s v)"

lemma set_pte_walk:
  assumes "table_open s root v" and "pd_index w < 1022"
  shows "page_pde (set_pte s v e) w = page_pde s w" "cr3 (set_pte s v e) = cr3 s"
    "is_present (page_pde s w) \<Longrightarrow> page_pte (set_pte s v e) w = (if same_page w v then e else page_pte s w)"
  using walk_table [of s root v w] assms by (auto simp: table_open_def set_pte_def same_page_def)

lemma set_pte_dir:
  assumes "table_open s root v"
  shows "dir_entry (set_pte s v e) i = dir_entry s i"
proof -
  have "paddr (page_pde s v) \<noteq> cr3 s" using assms by (auto simp: table_open_def dir_base_def page_pde_def)
  then show ?thesis by (simp add: set_pte_def)
qed

lemma set_pte_open:
  assumes "table_open s root v"
  shows "table_open (set_pte s v e) root v" "set_pte (set_pte s v e) v e' = set_pte s v e'"
proof -
  have v: "pd_index v < 1022" using assms by (simp add: table_open_def)
  note p = set_pte_walk(1,2) [OF assms v] and d = set_pte_dir [OF assms]
  have "dir_base (set_pte s v e) root"
    using assms dir_base_table by (auto simp: table_open_def set_pte_def same_page_def)
  then show "table_open (set_pte s v e) root v"
    using assms d by (simp add: table_open_def p)
  show "set_pte (set_pte s v e) v e' = set_pte s v e'"
    unfolding set_pte_def [of "set_pte s v e"] p by (simp add: set_pte_def)
qed

lemma open_table_access:
  assumes "table_open s root v"
  shows "pge_load s (EMERGENCY_DIR + 4 * ucast (pt_index v)) = Inr (page_pte s v)"
    "pge_put s (EMERGENCY_DIR + 4 * ucast (pt_index v)) g = Inr (set_pte s v (g (page_pte s v)))"
  using emergency_access(2,3) [of s root "paddr (page_pde s v)" "pt_index v"] assms
  by (simp_all add: table_open_def page_pte_def set_pte_def)

text \<open>Opening the table of \<open>v\<close>, and closing it, keep every mapping.\<close>

lemma open_table:
  assumes ok: "dir_ok s root" and v: "pd_index v < 1022" "\<not> same_page root v" and p: "is_present (page_pde s v)"
  obtains s' where "get_pge_for_vaddr s root v = Inr (EMERGENCY_DIR + 4 * ucast (pt_index v), s')"
    "table_open s' root v" "cr3 s' = cr3 s" "\<And>w. pd_index w < 1022 \<Longrightarrow> page_pde s' w = page_pde s w"
    "\<And>w. pd_index w < 1022 \<Longrightarrow> is_present (page_pde s w) \<Longrightarrow> page_pte s' w = page_pte s w"
proof -
  let ?s = "set_entry s (cr3 s) 1022 (opened (dir_entry s 1022) (paddr (page_pde s v)))"
  have b: "dir_base s root" using ok by (simp add: dir_ok_def)
  note w = walk_emergency [OF b, where e = "opened (dir_entry s 1022) (paddr (page_pde s v))"]
  have "table_open ?s root v"
    using v p dir_base_emergency [OF b] w(1) [OF v(1)] by (simp add: table_open_def opened_def)
  then show ?thesis using that [of ?s] get_pge_ok [OF ok v(1) p] w(1,2) by simp
qed

lemma close_table:
  assumes o: "table_open s root v"
  obtains s' where "free_emergency_entry s root = Inr s'" "dir_ok s' root" "cr3 s' = cr3 s"
    "\<And>w. pd_index w < 1022 \<Longrightarrow> page_pde s' w = page_pde s w"
    "\<And>w. pd_index w < 1022 \<Longrightarrow> is_present (page_pde s w) \<Longrightarrow> page_pte s' w = page_pte s w"
proof -
  let ?e = "(dir_entry s 1022)\<lparr>is_present := False\<rparr>"
  have b: "dir_base s root" "is_present (dir_entry s 1022)" using o by (simp_all add: table_open_def)
  have "dir_ok (set_entry s (cr3 s) 1022 ?e) root"
    using dir_base_emergency [OF b(1)] by (simp add: dir_ok_def)
  then show ?thesis
    using that [OF free_ok [OF b]] walk_emergency(1,2) [OF b(1), where e = ?e] by simp
qed

definition pte_flags_set :: "i686_vm_pge \<Rightarrow> addr \<Rightarrow> u8 \<Rightarrow> i686_vm_pge" where
  "pte_flags_set e phys flags =
     e\<lparr>is_present := True, pge_flags := i686_vm_to_table_flags flags, paddr := phys_frame phys\<rparr>"

lemma map_present_ok:
  assumes ok: "dir_ok s root" and v: "pd_index v < 1022" and p: "is_present (page_pde s v)"
    and free: "\<not> is_present (page_pte s v)"
  obtains s' where "vm_arch_pt_map s mm root phys v flags = Inr (s', mm)" "dir_ok s' root" "cr3 s' = cr3 s"
    "\<And>w. pd_index w < 1022 \<Longrightarrow> page_pde s' w = page_pde s w"
    "\<And>w. pd_index w < 1022 \<Longrightarrow> is_present (page_pde s w) \<Longrightarrow>
       page_pte s' w = (if same_page w v then pte_flags_set (page_pte s v) phys flags else page_pte s w)"
proof -
  have b: "dir_base s root" "root \<noteq> NULL" using ok by (simp_all add: dir_ok_def dir_base_def)
  have "page_frame s root \<noteq> None" using b by (simp add: dir_base_def)
  then have "\<not> same_page root v" using p free
    by (auto simp: page_frame_def page_pte_def page_pde_def same_page_def)
  then obtain s1 where s1: "get_pge_for_vaddr s root v = Inr (EMERGENCY_DIR + 4 * ucast (pt_index v), s1)"
    "table_open s1 root v" "cr3 s1 = cr3 s" "\<And>w. pd_index w < 1022 \<Longrightarrow> page_pde s1 w = page_pde s w"
    "\<And>w. pd_index w < 1022 \<Longrightarrow> is_present (page_pde s w) \<Longrightarrow> page_pte s1 w = page_pte s w"
    using open_table [OF ok v _ p] by blast
  have pv: "page_pte s1 v = page_pte s v" using s1(5) [OF v p] .
  let ?e = "pte_flags_set (page_pte s v) phys flags"
  note o = set_pte_open [OF s1(2)] and acc = open_table_access [OF s1(2)] open_table_access(2) [OF set_pte_open(1) [OF s1(2)]]
  have e: "page_pte (set_pte s1 v x) v = x" for x
    using set_pte_walk(3) [OF s1(2) v] s1(4) [OF v] p by (simp add: same_page_def)
  obtain s' where s': "free_emergency_entry (set_pte s1 v ?e) root = Inr s'" "dir_ok s' root"
    "cr3 s' = cr3 (set_pte s1 v ?e)"
    "\<And>w. pd_index w < 1022 \<Longrightarrow> page_pde s' w = page_pde (set_pte s1 v ?e) w"
    "\<And>w. pd_index w < 1022 \<Longrightarrow> is_present (page_pde (set_pte s1 v ?e) w) \<Longrightarrow>
       page_pte s' w = page_pte (set_pte s1 v ?e) w"
    using close_table [OF o(1)] by blast
  have pde: "pge_load s (i686_vm_get_pge I686VM_PGLVL_DIR root v) = Inr (page_pde s v)"
    unfolding dir_pde_eq dir_entry_access(1) [OF b(1)] by (simp add: page_pde_def)
  have "(page_pte s v)\<lparr>paddr := ucast (drop_bit 12 phys), pge_flags := i686_vm_to_table_flags flags,
      is_present := True\<rparr> = ?e"
    by (simp add: pte_flags_set_def phys_frame_def)
  then have step: "vm_arch_pt_map s mm root phys v flags = Inr (s', mm)"
    using b(2) p free
    by (simp add: vm_arch_pt_map_def Let_def pde s1(1) acc pv e o i686_vm_pge_set_addr_def set_present_def s'(1))
  show ?thesis
  proof (rule that [OF step s'(2)])
    show "cr3 s' = cr3 s" using s'(3) set_pte_walk(2) [OF s1(2) v] s1(3) by simp
    show "page_pde s' w = page_pde s w" if "pd_index w < 1022" for w
      using s'(4) set_pte_walk(1) [OF s1(2)] s1(4) that by simp
    show "page_pte s' w = (if same_page w v then ?e else page_pte s w)"
      if "pd_index w < 1022" "is_present (page_pde s w)" for w
      using s'(5) set_pte_walk(1,3) [OF s1(2)] s1(4,5) that by simp
  qed
qed

section \<open>Mapping a page whose table is missing\<close>

text \<open>What \<open>mm_alloc_page\<close> must hand out: a frame that is not in use as a table of this directory.\<close>

definition new_table :: "mmu \<Rightarrow> mm_state \<Rightarrow> frame \<Rightarrow> mm_state \<Rightarrow> bool" where
  "new_table s mm P mm' \<longleftrightarrow>
     (\<exists>zone n z pg. mm_alloc_page mm = Inr (Some (zone, n), mm') \<and> zone_at mm' zone = Inr z \<and>
        page_at z n = Inr pg \<and> phys_frame (mp_paddr pg) = P) \<and>
     P \<noteq> cr3 s \<and> (\<forall>i < 1022. is_present (dir_entry s i) \<longrightarrow> paddr (dir_entry s i) \<noteq> P)"

definition cleared :: "mmu \<Rightarrow> frame \<Rightarrow> mmu" where
  "cleared s P = s\<lparr>frames := (frames s)(P := (\<lambda>_. zero_pge))\<rparr>"

lemma cleared_simps [simp]:
  "cr3 (cleared s P) = cr3 s" "frames (cleared s P) f i = (if f = P then zero_pge else frames s f i)"
  by (simp_all add: cleared_def)

lemma dir_base_cleared:
  assumes b: "dir_base s root" and P: "P \<noteq> cr3 s" "\<forall>i < 1022. is_present (dir_entry s i) \<longrightarrow> paddr (dir_entry s i) \<noteq> P"
  shows "dir_base (cleared s P) root"
proof -
  have "pd_index root < 1022" "is_present (page_pde s root)" using b
    by (auto simp: dir_base_def page_frame_def split: if_splits)
  then have "page_frame (cleared s P) root = page_frame s root"
    using P by (simp add: page_frame_def page_pde_def page_pte_def)
  then show ?thesis using b P(1) by (simp add: dir_base_def)
qed

lemma dir_base_pde:
  assumes b: "dir_base s root" and i: "i < 1022" "\<not> is_present (dir_entry s i)"
    and P: "paddr e \<noteq> cr3 s" "\<forall>j < 1022. is_present (dir_entry s j) \<longrightarrow> paddr (dir_entry s j) \<noteq> paddr e"
  shows "dir_base (set_entry s (cr3 s) i e) root"
proof -
  have r: "pd_index root < 1022" "is_present (page_pde s root)" using b
    by (auto simp: dir_base_def page_frame_def split: if_splits)
  have ne: "pd_index root \<noteq> i" using r(2) i(2) by (auto simp: page_pde_def)
  have "paddr (page_pde s root) \<noteq> cr3 s" using b r by (auto simp: dir_base_def page_pde_def)
  then have f: "page_frame (set_entry s (cr3 s) i e) root = page_frame s root"
    using ne by (simp add: page_frame_def page_pde_def page_pte_def)
  have "i \<noteq> 1023" using i(1) by auto
  then show ?thesis using b f P unfolding dir_base_def
    by (auto simp del: not_None_eq)
qed

lemma create_ok:
  assumes ok: "dir_ok s root" and new: "new_table s mm P mm'"
  obtains a s' x where "create_new_dir s mm root = Inr (a, s', mm')" "phys_frame a = P" "dir_ok s' root"
    "s' = set_entry (cleared s P) (cr3 s) 1022 x"
proof -
  obtain zone n z pg where al: "mm_alloc_page mm = Inr (Some (zone, n), mm')" "zone_at mm' zone = Inr z"
    "page_at z n = Inr pg" "phys_frame (mp_paddr pg) = P"
    using new by (auto simp: new_table_def)
  have P: "P \<noteq> cr3 s" "\<forall>i < 1022. is_present (dir_entry s i) \<longrightarrow> paddr (dir_entry s i) \<noteq> P"
    using new by (auto simp: new_table_def)
  have b: "dir_base s root" "\<not> is_present (dir_entry s 1022)" using ok by (simp_all add: dir_ok_def)
  let ?o = "opened (dir_entry s 1022) P"
  let ?s1 = "set_entry s (cr3 s) 1022 ?o"
  let ?s2 = "cleared ?s1 P"
  let ?e = "?o\<lparr>is_present := False\<rparr>"
  let ?s3 = "set_entry ?s2 (cr3 s) 1022 ?e"
  have b1: "dir_base ?s1 root" using dir_base_emergency [OF b(1)] .
  have op: "is_present ?o" "paddr ?o = P" by (simp_all add: opened_def)
  have "page_frame ?s1 EMERGENCY_DIR = Some P"
    using emergency_access(1) [OF b1] op by simp
  then have cl: "clear_frame ?s1 EMERGENCY_DIR = Inr ?s2" by (simp add: clear_frame_def cleared_def)
  have b2: "dir_base ?s2 root" using dir_base_cleared [OF b1] P by auto
  have "set_present ?s2 (dir_emergency root) False = Inr ?s3"
    using emergency_entry_access(2) [OF b2] P(1) by (simp add: set_present_def)
  then have step: "create_new_dir s mm root = Inr (mp_paddr pg, ?s3, mm')"
    using al b(2) by (simp add: create_new_dir_def emergency_entry_access(1) [OF b(1)] open_ok [OF b(1)] cl Let_def)
  have "dir_ok ?s3 root" using dir_base_emergency [OF b2] by (simp add: dir_ok_def)
  moreover have "?s3 = set_entry (cleared s P) (cr3 s) 1022 ?e"
    using P(1) by (auto simp: set_entry_def cleared_def fun_eq_iff)
  ultimately show ?thesis using that [OF step al(4)] by simp
qed

definition dir_flags_set :: "i686_vm_pge \<Rightarrow> frame \<Rightarrow> u8 \<Rightarrow> i686_vm_pge" where
  "dir_flags_set e P flags = e\<lparr>is_present := True, pge_flags := i686_vm_to_dir_flags flags, paddr := P\<rparr>"

lemma add_table:
  assumes ok: "dir_ok s root" and v: "pd_index v < 1022" and miss: "\<not> is_present (page_pde s v)"
    and a: "phys_frame a \<noteq> cr3 s" "\<forall>i < 1022. is_present (dir_entry s i) \<longrightarrow> paddr (dir_entry s i) \<noteq> phys_frame a"
  shows "\<exists>s'. kbind (i686_vm_pge_set_addr s (i686_vm_get_pge I686VM_PGLVL_DIR root v) a) (\<lambda>s.
      kbind (pge_put s (i686_vm_get_pge I686VM_PGLVL_DIR root v) (pge_flags_update (\<lambda>_. i686_vm_to_dir_flags flags)))
        (\<lambda>s. set_present s (i686_vm_get_pge I686VM_PGLVL_DIR root v) True)) = Inr s' \<and> dir_ok s' root \<and>
     s' = set_entry s (cr3 s) (pd_index v) (dir_flags_set (page_pde s v) (phys_frame a) flags)"
proof -
  let ?i = "pd_index v" and ?d = "page_pde s v"
  let ?e1 = "?d\<lparr>paddr := phys_frame a\<rparr>"
  let ?e2 = "?d\<lparr>paddr := phys_frame a, pge_flags := i686_vm_to_dir_flags flags\<rparr>"
  let ?e3 = "dir_flags_set ?d (phys_frame a) flags"
  have d: "dir_entry s ?i = ?d" by (simp add: page_pde_def)
  have b: "dir_base s root" "\<not> is_present (dir_entry s 1022)" using ok by (simp_all add: dir_ok_def)
  have bs: "dir_base (set_entry s (cr3 s) ?i e) root" if "paddr e = phys_frame a" for e
    by (rule dir_base_pde [OF b(1) v]) (use miss a that d in auto)
  have acc: "pge_put (set_entry s (cr3 s) ?i e) (i686_vm_get_pge I686VM_PGLVL_DIR root v) g =
      Inr (set_entry s (cr3 s) ?i (g e))" if "paddr e = phys_frame a" for e g
    using dir_entry_access(2) [OF bs [OF that]] by (simp add: dir_pde_eq)
  have acc0: "pge_put s (i686_vm_get_pge I686VM_PGLVL_DIR root v) g = Inr (set_entry s (cr3 s) ?i (g ?d))" for g
    using dir_entry_access(2) [OF b(1)] by (simp add: dir_pde_eq d)
  have "?e3 = ?d\<lparr>paddr := phys_frame a, pge_flags := i686_vm_to_dir_flags flags, is_present := True\<rparr>"
    by (simp add: dir_flags_set_def)
  moreover have "dir_ok (set_entry s (cr3 s) ?i ?e3) root"
    using bs [of ?e3] b(2) dir_not_1022 [OF v] by (auto simp: dir_ok_def dir_flags_set_def)
  ultimately show ?thesis
    by (simp add: i686_vm_pge_set_addr_def set_present_def acc0 acc phys_frame_def)
qed

lemma map_new_ok:
  assumes ok: "dir_ok s root" and v: "pd_index v < 1022" and miss: "\<not> is_present (page_pde s v)"
    and new: "new_table s mm P mm'"
  obtains s1 where "vm_arch_pt_map s mm root phys v flags = vm_arch_pt_map s1 mm' root phys v flags" "dir_ok s1 root"
    "cr3 s1 = cr3 s" "is_present (page_pde s1 v)" "pge_flags (page_pde s1 v) = i686_vm_to_dir_flags flags"
    "paddr (page_pde s1 v) = P" "page_pte s1 v = zero_pge"
    "\<And>w. pd_index w < 1022 \<Longrightarrow> page_frame s1 w = page_frame s w"
    "\<And>w. pd_index w < 1022 \<Longrightarrow> is_present (page_pde s w) \<Longrightarrow> page_pde s1 w = page_pde s w"
    "\<And>w. pd_index w < 1022 \<Longrightarrow> is_present (page_pde s w) \<Longrightarrow> page_pte s1 w = page_pte s w"
proof -
  have P: "P \<noteq> cr3 s" "\<And>i. i < 1022 \<Longrightarrow> is_present (dir_entry s i) \<Longrightarrow> paddr (dir_entry s i) \<noteq> P"
    using new by (auto simp: new_table_def)
  obtain a s3 x where c: "create_new_dir s mm root = Inr (a, s3, mm')" "phys_frame a = P" "dir_ok s3 root"
    "s3 = set_entry (cleared s P) (cr3 s) 1022 x"
    using create_ok [OF ok new] by blast
  have cr: "cr3 s3 = cr3 s" using c(4) by simp
  have fr: "frames s3 f i = (if f = cr3 s \<and> i = 1022 then x else if f = P then zero_pge else frames s f i)"
    for f i using c(4) by simp
  have de: "dir_entry s3 i = dir_entry s i" if "i < 1022" for i
    using that P(1) by (auto simp: cr fr)
  have b: "dir_base s root" "root \<noteq> NULL" using ok by (simp_all add: dir_ok_def dir_base_def)
  have miss3: "\<not> is_present (page_pde s3 v)" using miss de [OF v] by (simp add: page_pde_def)
  have a3: "phys_frame a \<noteq> cr3 s3" "\<forall>i < 1022. is_present (dir_entry s3 i) \<longrightarrow> paddr (dir_entry s3 i) \<noteq> phys_frame a"
    using P de by (auto simp: c(2) cr)
  let ?e = "dir_flags_set (page_pde s3 v) P flags"
  let ?s1 = "set_entry s3 (cr3 s) (pd_index v) ?e"
  have t: "kbind (i686_vm_pge_set_addr s3 (i686_vm_get_pge I686VM_PGLVL_DIR root v) a) (\<lambda>s.
      kbind (pge_put s (i686_vm_get_pge I686VM_PGLVL_DIR root v) (pge_flags_update (\<lambda>_. i686_vm_to_dir_flags flags)))
        (\<lambda>s. set_present s (i686_vm_get_pge I686VM_PGLVL_DIR root v) True)) = Inr ?s1" "dir_ok ?s1 root"
    using add_table [OF c(3) v miss3 a3, of flags] by (simp_all add: c(2) cr)
  have pde: "pge_load s (i686_vm_get_pge I686VM_PGLVL_DIR root v) = Inr (page_pde s v)"
    unfolding dir_pde_eq dir_entry_access(1) [OF b(1)] by (simp add: page_pde_def)
  have b1: "dir_base ?s1 root" using t(2) by (simp add: dir_ok_def)
  have pv: "page_pde ?s1 v = ?e" by (simp add: page_pde_def cr)
  have e: "is_present ?e" "pge_flags ?e = i686_vm_to_dir_flags flags" "paddr ?e = P"
    by (simp_all add: dir_flags_set_def)
  have pde1: "pge_load ?s1 (i686_vm_get_pge I686VM_PGLVL_DIR root v) = Inr ?e"
    unfolding dir_pde_eq dir_entry_access(1) [OF b1] by (simp add: cr)
  have unfold_t: "kbind (i686_vm_pge_set_addr s3 (i686_vm_get_pge I686VM_PGLVL_DIR root v) a) (\<lambda>s.
      kbind (pge_put s (i686_vm_get_pge I686VM_PGLVL_DIR root v) (pge_flags_update (\<lambda>_. i686_vm_to_dir_flags flags)))
        (\<lambda>s. kbind (set_present s (i686_vm_get_pge I686VM_PGLVL_DIR root v) True) (\<lambda>s. Inr (s, mm')))) = Inr (?s1, mm')"
    using arg_cong [OF t(1), of "\<lambda>r. kbind r (\<lambda>s. Inr (s, mm'))"] by (simp add: kbind_assoc)
  have step: "vm_arch_pt_map s mm root phys v flags = vm_arch_pt_map ?s1 mm' root phys v flags"
    using miss b(2) e(1) by (simp add: vm_arch_pt_map_def Let_def pde pde1 c(1) unfold_t)
  have ptz: "page_pte ?s1 v = zero_pge" using P(1) by (simp add: page_pte_def pv e(3) fr)
  have ne: "pd_index w \<noteq> pd_index v" if "is_present (page_pde s w)" for w
    using that miss by (auto simp: page_pde_def)
  have keep: "page_pde ?s1 w = page_pde s w" if "pd_index w < 1022" "is_present (page_pde s w)" for w
    using that ne [OF that(2)] de [OF that(1)] by (simp add: page_pde_def cr)
  have kpte: "page_pte ?s1 w = page_pte s w" if w: "pd_index w < 1022" "is_present (page_pde s w)" for w
  proof -
    have "paddr (page_pde s w) \<noteq> cr3 s" "paddr (page_pde s w) \<noteq> P"
      using b(1) w P(2) by (auto simp: dir_base_def page_pde_def)
    then show ?thesis using keep [OF w] by (simp add: page_pte_def fr)
  qed
  have same: "page_frame ?s1 w = page_frame s w" if w: "pd_index w < 1022" for w
  proof (cases "is_present (page_pde s w)")
    case True
    then show ?thesis using keep [OF w True] kpte [OF w True] by (simp add: page_frame_def)
  next
    case False
    show ?thesis
    proof (cases "pd_index w = pd_index v")
      case True
      then have "page_pde ?s1 w = ?e" by (simp add: page_pde_def cr)
      then have "page_pte ?s1 w = zero_pge" using P(1) by (simp add: page_pte_def e(3) fr)
      then show ?thesis using False by (simp add: page_frame_def zero_pge_def)
    next
      case n: False
      then have "page_pde ?s1 w = page_pde s w" using de [OF w] by (simp add: page_pde_def cr)
      then show ?thesis using False by (simp add: page_frame_def)
    qed
  qed
  show ?thesis
    using that [OF step t(2)] cr pv e ptz same keep kpte by simp
qed

end
