(* ===== verification/Page_Fault.thy ===== *)
theory Page_Fault
  imports Paging
begin

text \<open>
  What mapping, resolving and unmapping a page do to the page walk, and what the page fault handler of
  kernel/arch/i686/vm.c does: the lookup of the area in the space's tree, the call of the area's handler, and
  the handler \<open>addr_pgfault_handler_maplow\<close> of kernel/kernel/mm/addr.c that maps the page.
\<close>

unbundle bit_operations_syntax

section \<open>Properties\<close>

text \<open>What the entries allow: the bit must be set in the directory and in the table. vm.asm does not set
  CR0.WP, so the bit for writing binds user mode only.\<close>

definition page_allows :: "mmu \<Rightarrow> addr \<Rightarrow> 7 word \<Rightarrow> bool" where
  "page_allows s v f \<longleftrightarrow> page_frame s v \<noteq> None \<and> pge_flags (page_pde s v) AND f = f \<and> pge_flags (page_pte s v) AND f = f"

lemma table_flags_bits:
  "i686_vm_to_table_flags flags AND I686VM_TABLE_FLAG_RW = I686VM_TABLE_FLAG_RW \<longleftrightarrow> flags AND VM_WRITE \<noteq> 0"
  "i686_vm_to_table_flags flags AND I686VM_TABLE_FLAG_USER = I686VM_TABLE_FLAG_USER \<longleftrightarrow> flags AND VM_USER \<noteq> 0"
  "i686_vm_to_dir_flags flags AND I686VM_TABLE_FLAG_RW = I686VM_TABLE_FLAG_RW \<longleftrightarrow> flags AND VM_WRITE \<noteq> 0"
  "i686_vm_to_dir_flags flags AND I686VM_TABLE_FLAG_USER = I686VM_TABLE_FLAG_USER \<longleftrightarrow> flags AND VM_USER \<noteq> 0"
  by (simp_all add: i686_vm_to_table_flags_def i686_vm_to_dir_flags_def I686VM_TABLE_FLAG_RW_def
      I686VM_TABLE_FLAG_USER_def I686VM_DIR_FLAG_RW_def I686VM_DIR_FLAG_USER_def)

definition maps_page :: "mmu \<Rightarrow> addr \<Rightarrow> addr \<Rightarrow> addr \<Rightarrow> u8 \<Rightarrow> mmu \<Rightarrow> bool" where
  "maps_page s root v phys flags s' \<longleftrightarrow> dir_ok s' root \<and>
     (\<forall>w. pd_index w < 1022 \<longrightarrow> page_frame s' w = (if same_page w v then Some (phys_frame phys) else page_frame s w)) \<and>
     (\<forall>w. pd_index w < 1022 \<longrightarrow> \<not> same_page w v \<longrightarrow> page_frame s w \<noteq> None \<longrightarrow>
       page_pde s' w = page_pde s w \<and> page_pte s' w = page_pte s w) \<and>
     pge_flags (page_pte s' v) = i686_vm_to_table_flags flags \<and>
     pge_flags (page_pde s' v) =
       (if is_present (page_pde s v) then pge_flags (page_pde s v) else i686_vm_to_dir_flags flags)"

lemma same_page_refl [simp]: "same_page v v"
  by (simp add: same_page_def)

lemma same_page_frame: "same_page w v \<Longrightarrow> page_pde s w = page_pde s v \<and> page_pte s w = page_pte s v"
  by (simp add: same_page_def page_pde_def page_pte_def)

lemma same_page_walk: "same_page w v \<Longrightarrow> page_frame s w = page_frame s v"
  unfolding same_page_iff by (rule page_frame_page(3))

lemma maps_page_others:
  assumes "maps_page s root v phys flags s'" and "pd_index w < 1022" and "\<not> same_page w v"
  shows "page_frame s' w = page_frame s w" and "page_allows s' w f = page_allows s w f"
proof -
  show "page_frame s' w = page_frame s w" using assms by (simp add: maps_page_def)
  then show "page_allows s' w f = page_allows s w f"
    using assms by (cases "page_frame s w") (simp_all add: page_allows_def maps_page_def)
qed

lemma maps_page_flags:
  assumes "maps_page s root v phys flags s'" and "pd_index v < 1022"
  shows "page_allows s' v I686VM_TABLE_FLAG_RW \<longleftrightarrow> flags AND VM_WRITE \<noteq> 0 \<and>
      (is_present (page_pde s v) \<longrightarrow> pge_flags (page_pde s v) AND I686VM_DIR_FLAG_RW = I686VM_DIR_FLAG_RW)"
    and "page_allows s' v I686VM_TABLE_FLAG_USER \<longleftrightarrow> flags AND VM_USER \<noteq> 0 \<and>
      (is_present (page_pde s v) \<longrightarrow> pge_flags (page_pde s v) AND I686VM_DIR_FLAG_USER = I686VM_DIR_FLAG_USER)"
proof -
  have "page_frame s' v \<noteq> None" using assms by (auto simp: maps_page_def)
  moreover have "I686VM_TABLE_FLAG_RW = I686VM_DIR_FLAG_RW" "I686VM_TABLE_FLAG_USER = I686VM_DIR_FLAG_USER"
    by (simp_all add: I686VM_TABLE_FLAG_RW_def I686VM_DIR_FLAG_RW_def I686VM_TABLE_FLAG_USER_def
        I686VM_DIR_FLAG_USER_def)
  ultimately show "page_allows s' v I686VM_TABLE_FLAG_RW \<longleftrightarrow> flags AND VM_WRITE \<noteq> 0 \<and>
      (is_present (page_pde s v) \<longrightarrow> pge_flags (page_pde s v) AND I686VM_DIR_FLAG_RW = I686VM_DIR_FLAG_RW)"
    "page_allows s' v I686VM_TABLE_FLAG_USER \<longleftrightarrow> flags AND VM_USER \<noteq> 0 \<and>
      (is_present (page_pde s v) \<longrightarrow> pge_flags (page_pde s v) AND I686VM_DIR_FLAG_USER = I686VM_DIR_FLAG_USER)"
    using assms(1) table_flags_bits [of flags] by (auto simp: maps_page_def page_allows_def)
qed

lemma map_present_maps:
  assumes ok: "dir_ok s root" and v: "pd_index v < 1022" and p: "is_present (page_pde s v)"
    and free: "\<not> is_present (page_pte s v)"
  shows "\<exists>s'. vm_arch_pt_map s mm root phys v flags = Inr (s', mm) \<and> maps_page s root v phys flags s'"
proof -
  obtain s' where s': "vm_arch_pt_map s mm root phys v flags = Inr (s', mm)" "dir_ok s' root"
    "\<And>w. pd_index w < 1022 \<Longrightarrow> page_pde s' w = page_pde s w"
    "\<And>w. pd_index w < 1022 \<Longrightarrow> is_present (page_pde s w) \<Longrightarrow>
       page_pte s' w = (if same_page w v then pte_flags_set (page_pte s v) phys flags else page_pte s w)"
    using map_present_ok [OF ok v p free] by blast
  have "page_frame s' w = (if same_page w v then Some (phys_frame phys) else page_frame s w)"
    if w: "pd_index w < 1022" for w
    using s'(3) [OF w] s'(4) [OF w] p same_page_frame [of w v s]
    by (cases "same_page w v") (auto simp: page_frame_def pte_flags_set_def)
  then show ?thesis
    using s'(1-3) s'(3) [OF v] s'(4) [OF v p] s'(4) p
    by (intro exI [of _ s']) (auto simp: maps_page_def pte_flags_set_def page_frame_def split: if_splits)
qed

lemma map_maps:
  assumes ok: "dir_ok s root" and v: "pd_index v < 1022" and free: "page_frame s v = None"
    and new: "\<not> is_present (page_pde s v) \<Longrightarrow> new_table s mm P mm'"
  shows "\<exists>s'. vm_arch_pt_map s mm root phys v flags = Inr (s', if is_present (page_pde s v) then mm else mm') \<and>
    maps_page s root v phys flags s'"
proof (cases "is_present (page_pde s v)")
  case True
  then show ?thesis using map_present_maps [OF ok v True] free by (auto simp: page_frame_def split: if_splits)
next
  case False
  obtain s1 where s1: "vm_arch_pt_map s mm root phys v flags = vm_arch_pt_map s1 mm' root phys v flags"
    "dir_ok s1 root" "is_present (page_pde s1 v)" "pge_flags (page_pde s1 v) = i686_vm_to_dir_flags flags"
    "page_pte s1 v = zero_pge" "\<And>w. pd_index w < 1022 \<Longrightarrow> page_frame s1 w = page_frame s w"
    "\<And>w. pd_index w < 1022 \<Longrightarrow> is_present (page_pde s w) \<Longrightarrow> page_pde s1 w = page_pde s w"
    "\<And>w. pd_index w < 1022 \<Longrightarrow> is_present (page_pde s w) \<Longrightarrow> page_pte s1 w = page_pte s w"
    using map_new_ok [OF ok v False new [OF False]] by metis
  then have "\<not> is_present (page_pte s1 v)" by (simp add: zero_pge_def)
  then obtain s' where "vm_arch_pt_map s1 mm' root phys v flags = Inr (s', mm')" "maps_page s1 root v phys flags s'"
    using map_present_maps [OF s1(2) v s1(3)] by blast
  moreover have "is_present (page_pde s w)" if "page_frame s w \<noteq> None" for w
    using that by (auto simp: page_frame_def split: if_splits)
  ultimately show ?thesis using s1 False by (auto simp: maps_page_def)
qed

lemma resolve_ok:
  assumes ok: "dir_ok s root" and v: "pd_index v < 1022" "\<not> same_page root v" and f: "page_frame s v = Some f"
  shows "\<exists>s'. vm_arch_resolve_phys_page s root v = Inr (push_bit 12 (ucast f), s') \<and> dir_ok s' root \<and>
    (\<forall>w. pd_index w < 1022 \<longrightarrow> page_frame s' w = page_frame s w) \<and>
    (\<forall>w. pd_index w < 1022 \<longrightarrow> page_pde s' w = page_pde s w)"
proof -
  have p: "is_present (page_pde s v)" "is_present (page_pte s v)" "paddr (page_pte s v) = f"
    using f by (auto simp: page_frame_def split: if_splits)
  obtain s1 where s1: "get_pge_for_vaddr s root v = Inr (EMERGENCY_DIR + 4 * ucast (pt_index v), s1)"
    "table_open s1 root v" "cr3 s1 = cr3 s" "\<And>w. pd_index w < 1022 \<Longrightarrow> page_pde s1 w = page_pde s w"
    "\<And>w. pd_index w < 1022 \<Longrightarrow> is_present (page_pde s w) \<Longrightarrow> page_pte s1 w = page_pte s w"
    by (rule open_table [OF ok v p(1)]) (rule that)
  obtain s2 where s2: "free_emergency_entry s1 root = Inr s2" "dir_ok s2 root" "cr3 s2 = cr3 s1"
    "\<And>w. pd_index w < 1022 \<Longrightarrow> page_pde s2 w = page_pde s1 w"
    "\<And>w. pd_index w < 1022 \<Longrightarrow> is_present (page_pde s1 w) \<Longrightarrow> page_pte s2 w = page_pte s1 w"
    by (rule close_table [OF s1(2)]) (rule that)
  have "vm_arch_resolve_phys_page s root v = Inr (push_bit 12 (ucast f), s2)"
    using s1(5) [OF v(1) p(1)] p
    by (simp add: vm_arch_resolve_phys_page_def s1(1) i686_vm_pge_get_addr_def open_table_access(1) [OF s1(2)] s2(1))
  moreover have "page_frame s2 w = page_frame s w" if "pd_index w < 1022" for w
    using s1(4,5) [OF that] s2(4,5) [OF that] by (auto simp: page_frame_def)
  ultimately show ?thesis using s1(4) s2(2,4) by (intro exI [of _ s2]) simp
qed

lemma unmap_ok:
  assumes ok: "dir_ok s root" and v: "pd_index v < 1022" "\<not> same_page root v" and f: "page_frame s v \<noteq> None"
  shows "\<exists>s'. vm_arch_pt_unmap s root v = Inr s' \<and> dir_ok s' root \<and>
    (\<forall>w. pd_index w < 1022 \<longrightarrow> page_frame s' w = (if same_page w v then None else page_frame s w)) \<and>
    (\<forall>w. pd_index w < 1022 \<longrightarrow> page_pde s' w = page_pde s w)"
proof -
  have p: "is_present (page_pde s v)" "is_present (page_pte s v)"
    using f by (auto simp: page_frame_def split: if_splits)
  obtain s1 where s1: "get_pge_for_vaddr s root v = Inr (EMERGENCY_DIR + 4 * ucast (pt_index v), s1)"
    "table_open s1 root v" "cr3 s1 = cr3 s" "\<And>w. pd_index w < 1022 \<Longrightarrow> page_pde s1 w = page_pde s w"
    "\<And>w. pd_index w < 1022 \<Longrightarrow> is_present (page_pde s w) \<Longrightarrow> page_pte s1 w = page_pte s w"
    by (rule open_table [OF ok v p(1)]) (rule that)
  let ?e = "(page_pte s v)\<lparr>is_present := False\<rparr>"
  let ?s = "set_pte s1 v ?e"
  obtain s2 where s2: "free_emergency_entry ?s root = Inr s2" "dir_ok s2 root" "cr3 s2 = cr3 ?s"
    "\<And>w. pd_index w < 1022 \<Longrightarrow> page_pde s2 w = page_pde ?s w"
    "\<And>w. pd_index w < 1022 \<Longrightarrow> is_present (page_pde ?s w) \<Longrightarrow> page_pte s2 w = page_pte ?s w"
    by (rule close_table [OF set_pte_open(1) [OF s1(2)]]) (rule that)
  have "vm_arch_pt_unmap s root v = Inr s2"
    using s1(5) [OF v(1) p(1)] p
    by (simp add: vm_arch_pt_unmap_def s1(1) set_present_def open_table_access [OF s1(2)] s2(1))
  moreover have "page_frame s2 w = (if same_page w v then None else page_frame s w)" if w: "pd_index w < 1022" for w
    using s1(4,5) [OF w] s2(4,5) [OF w] set_pte_walk(1,3) [OF s1(2) w, of ?e] same_page_frame [of w v s] p(1)
    by (cases "same_page w v") (auto simp: page_frame_def)
  ultimately show ?thesis
    using s1(4) s2(2,4) set_pte_walk(1) [OF s1(2), of _ ?e] by (intro exI [of _ s2]) simp
qed

lemma frame_bytes: "push_bit 12 (ucast (phys_frame a)) = align_rounddown a PLATFORM_PAGE_SIZE"
proof -
  have m: "- PLATFORM_PAGE_SIZE = NOT (mask 12)" by (simp add: PLATFORM_PAGE_SIZE_def mask_eq_exp_minus_1)
  have "push_bit 12 (ucast (phys_frame a)) = a AND NOT (mask 12)"
    unfolding phys_frame_def by (auto simp: bit_eq_iff bit_simps)
  then show ?thesis unfolding page_rounddown(3) [symmetric] m .
qed

lemma same_page_bytes:
  "same_page v w \<longleftrightarrow> align_rounddown v PLATFORM_PAGE_SIZE = align_rounddown w PLATFORM_PAGE_SIZE"
proof -
  have b: "n < 20" if "bit x (12 + n)" for x :: addr and n using bit_imp_le_length [OF that] by simp
  have "phys_frame v = phys_frame w \<longleftrightarrow> drop_bit 12 v = drop_bit 12 w"
    unfolding phys_frame_def by (auto simp: bit_eq_iff bit_simps dest: b)
  then show ?thesis
    unfolding same_page_iff frame_bytes [symmetric] using phys_frame_push by metis
qed

text \<open>C16: mapping a free page makes the processor's walk find the given frame for the addresses of that
  page, keeps the mapping of every other page below the two reserved entries, and leaves the
  emergency entry free again; a table that was missing is a new, cleared frame. The page can be
  written (or used from user mode) as the flags say only if its table was made for such an area: the
  directory entry takes its flags from the first page mapped through it and keeps them. (What is stated is
  what the entries allow: the kernel never sets CR0.WP, so ring 0 may write read-only pages too.)\<close>

theorem vm_arch_pt_map_maps:
  assumes "dir_ok s root" and "pd_index v < 1022" and "page_frame s v = None"
    and "\<not> is_present (page_pde s v) \<Longrightarrow> new_table s mm P mm'"
  shows "\<exists>s'. vm_arch_pt_map s mm root phys v flags = Inr (s', if is_present (page_pde s v) then mm else mm') \<and>
    dir_ok s' root \<and>
    (\<forall>w. pd_index w < 1022 \<longrightarrow> page_frame s' w =
      (if align_rounddown w PLATFORM_PAGE_SIZE = align_rounddown v PLATFORM_PAGE_SIZE
       then Some (phys_frame phys) else page_frame s w)) \<and>
    (page_allows s' v I686VM_TABLE_FLAG_RW \<longleftrightarrow> flags AND VM_WRITE \<noteq> 0 \<and>
      (is_present (page_pde s v) \<longrightarrow> pge_flags (page_pde s v) AND I686VM_DIR_FLAG_RW = I686VM_DIR_FLAG_RW)) \<and>
    (page_allows s' v I686VM_TABLE_FLAG_USER \<longleftrightarrow> flags AND VM_USER \<noteq> 0 \<and>
      (is_present (page_pde s v) \<longrightarrow> pge_flags (page_pde s v) AND I686VM_DIR_FLAG_USER = I686VM_DIR_FLAG_USER))"
proof -
  obtain s' where s': "vm_arch_pt_map s mm root phys v flags = Inr (s', if is_present (page_pde s v) then mm else mm')"
    "maps_page s root v phys flags s'"
    using map_maps [of s root v mm P mm'] assms by metis
  show ?thesis using s'(1) s'(2) maps_page_flags [OF s'(2) assms(2)]
    by (intro exI [of _ s']) (simp add: maps_page_def same_page_bytes)
qed

text \<open>A directory in frame 1 with one table, in frame 2, that maps the directory itself at 0x3000;
  and the same with pages at hand.\<close>

definition example_entry :: "frame \<Rightarrow> i686_vm_pge" where
  "example_entry f = \<lparr>is_present = True, pge_flags = 1, pge_data = 0, paddr = f\<rparr>"

definition example_mmu :: mmu where
  "example_mmu = \<lparr>frames = (\<lambda>_ _. zero_pge)
     (1 := (\<lambda>_. zero_pge)(0 := example_entry 2, 1023 := example_entry 1),
      2 := (\<lambda>_. zero_pge)(3 := example_entry 1)), cr3 = 1\<rparr>"

lemma example_mmu_ok: "dir_ok example_mmu 0x3000"
  by (auto simp: dir_ok_def dir_base_def example_mmu_def example_entry_def zero_pge_def page_align_dvd
      page_frame_def page_pde_def page_pte_def pd_index_def pt_index_def)

definition example_after :: mm_state where
  "example_after = put_zone (example_zones PAGESTATE_FREE 1) 0xC010000C
     ((example_zone PAGESTATE_OCCUPIED 1)\<lparr>mz_buddym := buddy_example 3 1 1\<rparr>)"

lemma example_alloc:
  "mm_alloc_page (example_zones PAGESTATE_FREE 1) = Inr (Some (0xC010000C, 1), example_after)"
proof -
  obtain f where f: "addr_fuel = Suc f" by (rule addr_fuel_Suc)
  have b: "buddy_alloc (buddy_example 1 0 0) 0 = Inr (Some 1, buddy_example 3 1 1)" by code_simp
  show ?thesis
    by (simp add: mm_alloc_page_def f slist_next_def example_zones_def example_after_def zone_at_def
        mm_alloc_page_from_def link_zone_def b put_zone_def example_zone_def set_page_state_def)
qed

lemma example_new_table:
  "new_table example_mmu (example_zones PAGESTATE_FREE 1) 0x101 example_after"
proof -
  let ?z = "(example_zone PAGESTATE_OCCUPIED 1)\<lparr>mz_buddym := buddy_example 3 1 1\<rparr>"
  have "zone_at example_after 0xC010000C = Inr ?z" "page_at ?z 1 = Inr (mz_pages ?z ! 1)"
    "phys_frame (mp_paddr (mz_pages ?z ! 1)) = 0x101"
    by (simp_all add: example_after_def example_zones_def zone_at_def put_zone_def page_at_def example_zone_def
        phys_frame_def)
  moreover have "cr3 example_mmu = 1" "\<forall>i < 1022. is_present (dir_entry example_mmu i) \<longrightarrow> paddr (dir_entry example_mmu i) \<noteq> 0x101"
    by (auto simp: example_mmu_def example_entry_def zero_pge_def)
  ultimately show ?thesis using example_alloc unfolding new_table_def by auto
qed

theorem vm_arch_pt_map_maps_witness:
  "\<exists>s'. vm_arch_pt_map example_mmu (example_zones PAGESTATE_FREE 1) 0x3000 0x9000 0x400000 VM_WRITE =
      Inr (s', example_after) \<and> page_frame s' 0x400123 = Some 9 \<and> page_frame s' 0x3000 = Some 1"
proof -
  have v: "page_frame example_mmu 0x400000 = None" "\<not> is_present (page_pde example_mmu 0x400000)"
    "page_frame example_mmu 0x3000 = Some 1"
    by (simp_all add: page_frame_def page_pde_def page_pte_def example_mmu_def example_entry_def zero_pge_def
        pd_index_def pt_index_def)
  have d: "pd_index 0x400000 < 1022" "pd_index 0x400123 < 1022" "pd_index 0x3000 < 1022"
    by (simp_all add: pd_index_def)
  obtain s' where s': "vm_arch_pt_map example_mmu (example_zones PAGESTATE_FREE 1) 0x3000 0x9000 0x400000 VM_WRITE =
      Inr (s', example_after)"
    "\<forall>w. pd_index w < 1022 \<longrightarrow> page_frame s' w =
      (if align_rounddown w PLATFORM_PAGE_SIZE = align_rounddown 0x400000 PLATFORM_PAGE_SIZE
       then Some (phys_frame 0x9000) else page_frame example_mmu w)"
    using vm_arch_pt_map_maps [OF example_mmu_ok d(1) v(1) example_new_table, where phys = "0x9000" and flags = VM_WRITE] v(2) by auto
  show ?thesis
    using s'(1) s'(2) [rule_format, OF d(2)] s'(2) [rule_format, OF d(3)] v(3)
    by (simp add: align_rounddown_def PLATFORM_PAGE_SIZE_def phys_frame_def)
qed

text \<open>A page that was mapped resolves to the address it was mapped to, and unmapping it restores every
  mapping there was before.\<close>

theorem vm_arch_map_resolve_unmap:
  assumes "dir_ok s root" and "pd_index v < 1022" and "page_frame s v = None"
    and "\<not> is_present (page_pde s v) \<Longrightarrow> new_table s mm P mm'"
  shows "\<exists>s1 mm1 s2 s3. vm_arch_pt_map s mm root phys v flags = Inr (s1, mm1) \<and>
    vm_arch_resolve_phys_page s1 root v = Inr (align_rounddown phys PLATFORM_PAGE_SIZE, s2) \<and>
    vm_arch_pt_unmap s2 root v = Inr s3 \<and> dir_ok s3 root \<and>
    (\<forall>w. pd_index w < 1022 \<longrightarrow> page_frame s3 w = page_frame s w)"
proof -
  have "page_frame s root \<noteq> None" using assms(1) by (simp add: dir_ok_def dir_base_def)
  then have r: "\<not> same_page root v" using assms(3) same_page_walk [of root v s] by auto
  obtain s1 mm1 where s1: "vm_arch_pt_map s mm root phys v flags = Inr (s1, mm1)" "maps_page s root v phys flags s1"
    using map_maps [of s root v mm P mm'] assms by metis
  have f: "dir_ok s1 root" "page_frame s1 v = Some (phys_frame phys)" using s1(2) assms(2) by (auto simp: maps_page_def)
  obtain s2 where s2: "vm_arch_resolve_phys_page s1 root v = Inr (align_rounddown phys PLATFORM_PAGE_SIZE, s2)"
    "dir_ok s2 root" "\<forall>w. pd_index w < 1022 \<longrightarrow> page_frame s2 w = page_frame s1 w"
    using resolve_ok [OF f(1) assms(2) r f(2)] frame_bytes by auto
  have "page_frame s2 v \<noteq> None" using s2(3) f(2) assms(2) by simp
  then obtain s3 where s3: "vm_arch_pt_unmap s2 root v = Inr s3" "dir_ok s3 root"
    "\<forall>w. pd_index w < 1022 \<longrightarrow> page_frame s3 w = (if same_page w v then None else page_frame s2 w)"
    using unmap_ok [OF s2(2) assms(2) r] by auto
  have "page_frame s3 w = page_frame s w" if "pd_index w < 1022" for w
    using that s3(3) s2(3) s1(2) assms(3) same_page_walk [of w v s] by (auto simp: maps_page_def)
  then show ?thesis using s1(1) s2(1) s3(1,2) by blast
qed

theorem vm_arch_map_resolve_unmap_witness:
  "\<exists>s1 mm1 s2 s3. vm_arch_pt_map example_mmu (example_zones PAGESTATE_FREE 1) 0x3000 0x9000 0x5123 VM_USER =
      Inr (s1, mm1) \<and>
    vm_arch_resolve_phys_page s1 0x3000 0x5123 = Inr (0x9000, s2) \<and> vm_arch_pt_unmap s2 0x3000 0x5123 = Inr s3"
proof -
  have v: "page_frame example_mmu 0x5123 = None" "is_present (page_pde example_mmu 0x5123)"
    by (simp_all add: page_frame_def page_pde_def page_pte_def example_mmu_def example_entry_def zero_pge_def
        pd_index_def pt_index_def)
  have "pd_index 0x5123 < 1022" by (simp add: pd_index_def)
  then show ?thesis
    using vm_arch_map_resolve_unmap [OF example_mmu_ok _ v(1), where mm = "example_zones PAGESTATE_FREE 1" and phys = "0x9000"
        and flags = VM_USER] v(2)
    by (fastforce simp: align_rounddown_def PLATFORM_PAGE_SIZE_def)
qed

section \<open>The area of a fault\<close>

lemma space_lookup:
  assumes sp: "space_ok m sp as" and vs: "vm_spaces m sp = Some vs"
  shows "\<exists>n. rbtree_search (space_tree m vs) v (vm_area_rbtcmpfn_area_to_addr (vm_areas m)) = Inr n \<and>
    (case find (\<lambda>a. area_covers (vm_areas m) a v) as of None \<Rightarrow> n = NULL
     | Some a \<Rightarrow> n \<noteq> NULL \<and> (\<exists>nd. node_at (space_tree m vs) n = Inr nd \<and> rb_data nd = a))"
proof -
  let ?M = "vm_areas m" and ?t = "space_tree m vs"
  obtain T where T: "tree_is node_area ?t T" "nodes T = map area_node as"
    using sp vs by (auto simp: space_ok_def)
  note d = space_okD [OF sp]
  let ?cmp = "\<lambda>n. to_addr_cmp ?M v (node_area n)"
  have ok: "vm_area_rbtcmpfn_area_to_addr ?M a v = Inr (to_addr_cmp ?M v a)" if "a \<in> set as" for a
    using area_to_addr_ok areas_apart_ok [OF d(2) that] by blast
  have "sorted_wrt (\<lambda>a b. probe_le (to_addr_cmp ?M v a) (to_addr_cmp ?M v b)) as"
  proof (rule sorted_wrt_mono_rel [of _ "\<lambda>a b. area_base ?M a < area_base ?M b"])
    show "probe_le (to_addr_cmp ?M v a) (to_addr_cmp ?M v b)"
      if "a \<in> set as" "b \<in> set as" "area_base ?M a < area_base ?M b" for a b
      using to_addr_probe [OF d(2) that] .
    have "inj_on (area_base ?M) (set as)"
      using areas_apart_base [OF d(2)] by (auto intro: inj_onI)
    then have "distinct (map (area_base ?M) as)" using d(5) by (simp add: distinct_map)
    then have "sorted_wrt (<) (map (area_base ?M) as)" using d(3) by (simp add: strict_sorted_iff)
    then show "sorted_wrt (\<lambda>a b. area_base ?M a < area_base ?M b) as" by (simp add: sorted_wrt_map)
  qed
  then have pr: "probed node_area (vm_area_rbtcmpfn_area_to_addr ?M) v ?cmp (nodes T)"
    using ok by (simp add: probed_def T(2) sorted_wrt_map)
  obtain n where n: "rbtree_search ?t v (vm_area_rbtcmpfn_area_to_addr ?M) = Inr n"
    "n = NULL \<longrightarrow> (\<forall>x \<in> set (nodes T). ?cmp x \<noteq> 0)" "n \<noteq> NULL \<longrightarrow> n \<in> set (nodes T) \<and> ?cmp n = 0"
    using search_ok [OF T(1) pr] by blast
  show ?thesis
  proof (cases "find (\<lambda>a. area_covers ?M a v) as")
    case None
    then have "n = NULL" using n(3) T(2) to_addr_zero by (force simp: find_None_iff)
    then show ?thesis using n(1) None by auto
  next
    case (Some a)
    then have a: "a \<in> set as" "area_covers ?M a v" by (auto simp: find_Some_iff)
    then have "n \<noteq> NULL" using n(2) T(2) to_addr_zero by force
    moreover from this obtain b where b: "b \<in> set as" "n = area_node b" "area_covers ?M b v"
      using n(3) T(2) to_addr_zero by force
    have "a = b"
    proof (rule ccontr)
      assume "a \<noteq> b"
      then have "area_base ?M a < area_base ?M b \<or> area_base ?M b < area_base ?M a"
        using areas_apart_base [OF d(2) a(1) b(1)] by (meson linorder_less_linear)
      then show False
        using areas_apart_less(2) [OF d(2) a(1) b(1)] areas_apart_less(2) [OF d(2) b(1) a(1)] a(2) b(3)
        by (auto simp: area_covers_def)
    qed
    moreover obtain nd where "node_at ?t n = Inr nd" "rb_data nd = node_area n"
      using tree_is_data [OF T(1)] n(3) \<open>n \<noteq> NULL\<close> by blast
    ultimately show ?thesis using n(1) Some b(2) by auto
  qed
qed

lemma pg_fault_call:
  assumes "READY st" and "sp = (if OFFSET st \<le> v then ck else cu)" and "space_ok m sp as"
  shows "i686_vm_pg_fault_handler call st m ck cu s v =
    (case find (\<lambda>a. area_covers (vm_areas m) a v) as of None \<Rightarrow> Inl Panic
     | Some a \<Rightarrow> (case vm_areas m a of None \<Rightarrow> Inl Undef | Some r \<Rightarrow>
         if handle_pg_fault (va_ops r) \<noteq> NULL then call (handle_pg_fault (va_ops r)) s a v else Inl Panic))"
proof -
  have nn: "sp \<noteq> NULL" using space_okD(1) [OF assms(3)] .
  obtain vs where vs: "vm_spaces m sp = Some vs" using assms(3) by (auto simp: space_ok_def)
  note lk = space_lookup [OF assms(3) vs, of v]
  have space: "kbind (addr_is_high st v) (\<lambda>high. kbind (if high then Inr ck else kassert (cu \<noteq> NULL) (Inr cu)) f) = f sp"
    for f :: "addr \<Rightarrow> 'a kres"
    using assms(1,2) nn by (auto simp: addr_is_high_def split: if_splits)
  show ?thesis
  proof (cases "find (\<lambda>a. area_covers (vm_areas m) a v) as")
    case None
    then show ?thesis using lk vs by (auto simp: i686_vm_pg_fault_handler_def space Let_def)
  next
    case (Some a)
    then have "a \<in> set as" by (auto simp: find_Some_iff)
    then obtain r where "vm_areas m a = Some r"
      using areas_apart_ok [OF space_okD(2) [OF assms(3)]] area_okD(2) by blast
    then show ?thesis using lk vs Some by (auto simp: i686_vm_pg_fault_handler_def space Let_def)
  qed
qed

text \<open>C19: a page fault is given to the handler of the one area that covers the address, in the kernel's
  space for an address of the high half and in the space of the process otherwise; the kernel panics
  when no area covers it or the area has no handler.\<close>

theorem pg_fault_handler_calls:
  assumes "READY st" and "sp = (if OFFSET st \<le> v then ck else cu)" and "space_ok m sp as"
  shows "i686_vm_pg_fault_handler call st m ck cu s v =
    (case find (\<lambda>a. area_covers (vm_areas m) a v) as of None \<Rightarrow> Inl Panic
     | Some a \<Rightarrow> (case vm_areas m a of None \<Rightarrow> Inl Undef | Some r \<Rightarrow>
         if handle_pg_fault (va_ops r) \<noteq> NULL then call (handle_pg_fault (va_ops r)) s a v else Inl Panic))"
  by (rule pg_fault_call [OF assms])

text \<open>The example space with a handler for its area, and the directory at 0x3000.\<close>

definition example_fault_mem :: vm_mem where
  "example_fault_mem = example_mem\<lparr>
     vm_areas := [0x200 \<mapsto> (example_area 0xC0001000 0x1000)\<lparr>va_ops :=
       \<lparr>handle_pg_fault = 0x5000, register_map = NULL, unregister_map = NULL\<rparr>\<rparr>],
     vm_spaces := [0x100 \<mapsto> \<lparr>vs_root_dir = 0x3000, vs_offset = 0xC0000000, vs_rb_areas = 0x210\<rparr>]\<rparr>"

lemma example_fault_space: "space_ok example_fault_mem 0x100 [0x200]"
proof -
  have "areas_apart (vm_areas example_fault_mem) {0x200}"
    by (simp add: areas_apart_def area_ok_def area_base_def area_size_def example_fault_mem_def example_area_def)
  moreover have "slist_rep (vm_links example_fault_mem) (space_head 0x100) (map area_link [0x200])"
    by (simp add: slist_rep_def example_fault_mem_def example_mem_def space_head_def area_link_def)
  moreover have "tree_is node_area (space_tree example_fault_mem
      \<lparr>vs_root_dir = 0x3000, vs_offset = 0xC0000000, vs_rb_areas = 0x210\<rparr>) (Bin RBTREE_BLACK Tip 0x210 Tip)"
    by (simp add: tree_is_def space_tree_def example_fault_mem_def example_mem_def)
  ultimately show ?thesis
    unfolding space_ok_def
    by (intro conjI exI [of _ "\<lparr>vs_root_dir = 0x3000, vs_offset = 0xC0000000, vs_rb_areas = 0x210\<rparr>"]
        exI [of _ "Bin RBTREE_BLACK Tip 0x210 Tip"])
      (simp_all add: red_black_def area_node_def area_base_def example_area_def example_fault_mem_def)
qed

lemma example_covers: "area_covers (vm_areas example_fault_mem) 0x200 0xC0001FFF"
  by (simp add: area_covers_def area_base_def area_size_def example_fault_mem_def example_area_def)

theorem pg_fault_handler_calls_witness:
  "i686_vm_pg_fault_handler (\<lambda>h s a v. Inr (s @ [(h, a, v)])) \<lparr>READY = True, OFFSET = 0xC0000000\<rparr> example_fault_mem
     0x100 NULL [] 0xC0001FFF = Inr [(0x5000, 0x200, 0xC0001FFF)]"
  using pg_fault_handler_calls [OF _ _ example_fault_space, of "\<lparr>READY = True, OFFSET = 0xC0000000\<rparr>" "0xC0001FFF" "0x100" NULL
    "\<lambda>h s a v. Inr (s @ [(h, a, v)])" "[]"] example_covers
  by (simp add: example_fault_mem_def)

section \<open>A fault in a linearly mapped area\<close>

lemma phys_frame_aligned: "phys_frame (align_rounddown a PLATFORM_PAGE_SIZE) = phys_frame a"
  using phys_frame_push [of "phys_frame a"] unfolding frame_bytes .

text \<open>C17: a fault in the kernel space, inside an area whose handler is \<open>addr_pgfault_handler_maplow\<close>, ends
  with the page of the address mapped to the page that lies \<open>OFFSET\<close> below it and
  writable or usable from user mode as the flags of the area say, if its table was made for such an area;
  every other page keeps its frame, or stays without one, and its flags, and the page allocator has given
  out no page, or exactly the one for a table that was missing; but the first page of the high half, whose address is \<open>OFFSET\<close> itself, is refused by the
  assert of \<open>addr_to_low\<close>.\<close>

theorem pg_fault_maps_low:
  assumes "READY st" and "OFFSET st \<le> align_rounddown v PLATFORM_PAGE_SIZE"
    and "space_ok m ck as" and "find (\<lambda>a. area_covers (vm_areas m) a v) as = Some a"
    and "vm_areas m a = Some r" and "handle_pg_fault (va_ops r) \<noteq> NULL" and "va_owner r = ck"
    and "vm_spaces m ck = Some vs" and "dir_ok s (vs_root_dir vs)" and "pd_index v < 1022"
    and "page_frame s v = None" and "\<not> is_present (page_pde s v) \<Longrightarrow> new_table s mm P mm'"
  shows "if align_rounddown v PLATFORM_PAGE_SIZE = OFFSET st
    then i686_vm_pg_fault_handler (\<lambda>h (s, mm) a v. addr_pgfault_handler_maplow st m s mm a v) st m ck cu (s, mm) v = Inl Kassert
    else \<exists>s'.
      i686_vm_pg_fault_handler (\<lambda>h (s, mm) a v. addr_pgfault_handler_maplow st m s mm a v) st m ck cu (s, mm) v =
        Inr (s', if is_present (page_pde s v) then mm else mm') \<and>
      dir_ok s' (vs_root_dir vs) \<and>
      (\<forall>w. pd_index w < 1022 \<longrightarrow> page_frame s' w =
        (if align_rounddown w PLATFORM_PAGE_SIZE = align_rounddown v PLATFORM_PAGE_SIZE
         then Some (phys_frame (align_rounddown v PLATFORM_PAGE_SIZE - OFFSET st)) else page_frame s w)) \<and>
      (\<forall>w f. pd_index w < 1022 \<longrightarrow> align_rounddown w PLATFORM_PAGE_SIZE \<noteq> align_rounddown v PLATFORM_PAGE_SIZE \<longrightarrow>
        page_allows s' w f = page_allows s w f) \<and>
      (page_allows s' v I686VM_TABLE_FLAG_RW \<longleftrightarrow> va_flags r AND VM_WRITE \<noteq> 0 \<and>
        (is_present (page_pde s v) \<longrightarrow> pge_flags (page_pde s v) AND I686VM_DIR_FLAG_RW = I686VM_DIR_FLAG_RW)) \<and>
      (page_allows s' v I686VM_TABLE_FLAG_USER \<longleftrightarrow> va_flags r AND VM_USER \<noteq> 0 \<and>
        (is_present (page_pde s v) \<longrightarrow> pge_flags (page_pde s v) AND I686VM_DIR_FLAG_USER = I686VM_DIR_FLAG_USER))"
proof -
  let ?p = "align_rounddown v PLATFORM_PAGE_SIZE"
  let ?call = "\<lambda>h (s, mm) a v. addr_pgfault_handler_maplow st m s mm a v"
  have "?p \<le> v" using page_rounddown(1) [of v] by (simp add: word_le_nat_alt)
  then have high: "OFFSET st \<le> v" using assms(2) by simp
  have sp: "ck = (if OFFSET st \<le> v then ck else cu)" using high by simp
  have "a \<in> set as" using assms(4) by (auto simp: find_Some_iff)
  then have nn: "a \<noteq> NULL" using areas_apart_ok [OF space_okD(2) [OF assms(3)]] area_okD(1) by blast
  have call: "i686_vm_pg_fault_handler ?call st m ck cu (s, mm) v = addr_pgfault_handler_maplow st m s mm a v"
    using pg_fault_call [OF assms(1) sp assms(3), of ?call "(s, mm)"] assms(4-6) by simp
  have same: "same_page ?p v" unfolding same_page_bytes using frame_bytes phys_frame_aligned by metis
  have st: "?p = OFFSET st \<or> OFFSET st < ?p" using assms(2) by auto
  have run: "addr_pgfault_handler_maplow st m s mm a v = (if ?p = OFFSET st then Inl Kassert
      else vm_arch_pt_map s mm (vs_root_dir vs) (?p - OFFSET st) ?p (va_flags r))"
    using st nn assms(1,5,7,8) by (auto simp: addr_pgfault_handler_maplow_def addr_to_low_def Let_def)
  have pd: "pd_index ?p < 1022" "page_frame s ?p = None" "page_pde s ?p = page_pde s v"
    using same assms(10,11) same_page_walk [OF same, of s] by (auto simp: same_page_def page_pde_def)
  then obtain s' where s': "vm_arch_pt_map s mm (vs_root_dir vs) (?p - OFFSET st) ?p (va_flags r) =
      Inr (s', if is_present (page_pde s ?p) then mm else mm')"
    "maps_page s (vs_root_dir vs) ?p (?p - OFFSET st) (va_flags r) s'"
    using map_maps [of s "vs_root_dir vs" ?p mm P mm'] assms(9,12) by metis
  have sw: "same_page w ?p \<longleftrightarrow> align_rounddown w PLATFORM_PAGE_SIZE = ?p" for w
    using same same_page_bytes by (metis same_page_def)
  have al: "page_allows s' v f = page_allows s' ?p f" for f
    using same_page_frame [OF same, of s'] same_page_walk [OF same, of s'] by (simp add: page_allows_def)
  have oth: "page_allows s' w f = page_allows s w f" if "pd_index w < 1022" "align_rounddown w PLATFORM_PAGE_SIZE \<noteq> ?p" for w f
    using maps_page_others(2) [OF s'(2) that(1)] that(2) sw by blast
  show ?thesis
  proof (cases "?p = OFFSET st")
    case False
    then show ?thesis
      using s' call run oth sw pd(3) maps_page_flags [OF s'(2) pd(1), folded al, unfolded pd(3)]
      by (intro if_not_P [THEN iffD2] exI [of _ s']) (simp_all add: maps_page_def)
  qed (use call run in simp)
qed

theorem pg_fault_maps_low_witness:
  "\<exists>s'. i686_vm_pg_fault_handler (\<lambda>h (s, mm) a v. addr_pgfault_handler_maplow \<lparr>READY = True, OFFSET = 0xC0000000\<rparr> example_fault_mem s mm a v)
      \<lparr>READY = True, OFFSET = 0xC0000000\<rparr> example_fault_mem 0x100 NULL (example_mmu, example_zones PAGESTATE_FREE 1) 0xC0001FFF =
      Inr (s', example_after) \<and> page_frame s' 0xC0001004 = Some 1 \<and>
      page_allows s' 0xC0001FFF I686VM_TABLE_FLAG_RW \<and> \<not> page_allows s' 0xC0001FFF I686VM_TABLE_FLAG_USER"
proof -
  have v: "page_frame example_mmu 0xC0001FFF = None" "\<not> is_present (page_pde example_mmu 0xC0001FFF)"
    "pd_index 0xC0001FFF < 1022" "pd_index 0xC0001004 < 1022"
    by (simp_all add: page_frame_def page_pde_def example_mmu_def example_entry_def zero_pge_def pd_index_def)
  have al: "align_rounddown 0xC0001FFF PLATFORM_PAGE_SIZE = 0xC0001000" "align_rounddown 0xC0001004 PLATFORM_PAGE_SIZE = 0xC0001000"
    by (simp_all add: align_rounddown_def PLATFORM_PAGE_SIZE_def)
  have m: "vm_areas example_fault_mem 0x200 = Some ((example_area 0xC0001000 0x1000)\<lparr>va_ops :=
       \<lparr>handle_pg_fault = 0x5000, register_map = NULL, unregister_map = NULL\<rparr>\<rparr>)"
    "vm_spaces example_fault_mem 0x100 = Some \<lparr>vs_root_dir = 0x3000, vs_offset = 0xC0000000, vs_rb_areas = 0x210\<rparr>"
    by (simp_all add: example_fault_mem_def)
  have fl: "VM_WRITE \<noteq> 0" "VM_WRITE AND VM_USER = 0" by (simp_all add: VM_WRITE_def VM_USER_def)
  obtain s' where s': "i686_vm_pg_fault_handler (\<lambda>h (s, mm) a v. addr_pgfault_handler_maplow \<lparr>READY = True, OFFSET = 0xC0000000\<rparr> example_fault_mem s mm a v)
      \<lparr>READY = True, OFFSET = 0xC0000000\<rparr> example_fault_mem 0x100 NULL (example_mmu, example_zones PAGESTATE_FREE 1) 0xC0001FFF =
      Inr (s', example_after)"
    "\<forall>w. pd_index w < 1022 \<longrightarrow> page_frame s' w =
        (if align_rounddown w PLATFORM_PAGE_SIZE = 0xC0001000
         then Some (phys_frame (align_rounddown 0xC0001FFF PLATFORM_PAGE_SIZE - OFFSET \<lparr>READY = True, OFFSET = 0xC0000000\<rparr>))
         else page_frame example_mmu w)"
    "page_allows s' 0xC0001FFF I686VM_TABLE_FLAG_RW" "\<not> page_allows s' 0xC0001FFF I686VM_TABLE_FLAG_USER"
    using pg_fault_maps_low [OF _ _ example_fault_space _ m(1) _ _ m(2) _ v(3,1) example_new_table,
        of "\<lparr>READY = True, OFFSET = 0xC0000000\<rparr>" NULL] example_covers example_mmu_ok v(2) fl
    by (auto simp: al example_area_def)
  show ?thesis using s'(1,3,4) s'(2) [rule_format, OF v(4)]
    by (intro exI [of _ s']) (simp add: al phys_frame_def)
qed

section \<open>Valid ranges\<close>

text \<open>A range is valid when it begins below the reserved entries and its end is below them; the
  last valid byte may not be part of it, and a range that wraps around the address space, which
  covers the reserved entries, counts as valid.\<close>

theorem vm_arch_is_range_valid_iff:
  "vm_arch_is_range_valid b len \<longleftrightarrow> unat b < 0xFF800000 \<and>
     (unat b + unat len < 0xFF800000 \<or> 2 ^ 32 \<le> unat b + unat len)"
proof -
  have r: "push_bit 22 (I686VM_PD_LAST_VALID_PAGE + 1) = (0xFF800000 :: addr)"
    by (simp add: I686VM_PD_LAST_VALID_PAGE_def)
  have "unat (b + len) = (if unat b + unat len < 2 ^ 32 then unat b + unat len else unat b + unat len - 2 ^ 32)"
    using unat_lt32 [of b] unat_lt32 [of len] by (auto simp: unat_word_ariths mod_if simp del: unat_lt32)
  then show ?thesis
    using unat_lt32 [of b] unat_lt32 [of len]
    by (auto simp: vm_arch_is_range_valid_def r word_le_nat_alt Let_def simp del: unat_lt32 split: if_splits)
qed

end
