(* ===== verification/Kmm.thy ===== *)
theory Kmm
  imports Slist Vm_Space
begin

text \<open>
  kernel/kernel/mm/kmm.c: caches of equal-sized objects. A cache carves the objects out of pages; a
  \<open>struct kmm_slab\<close> describes a page and heads the list of its free objects, and a cache has three
  lists of slabs: empty ones, partly used ones and full ones. Small objects keep their list node (the
  \<open>bufctl\<close>) behind them in the page, large ones (of an eighth of a page and more) have it in a cache of
  its own.

  \<open>kmm_links\<close> is the store of all list nodes, by address: the heads in a cache, a slab's node and its
  list of free objects, and the nodes of free objects. \<open>page_owner\<close> is the first word of a page.
  Constructors and destructors work on the memory of objects, which the allocator does not read: a call
  is recorded in \<open>kmm_calls\<close>. The functions that supply pages are parameters of \<open>kmm_init\<close>, as in the
  code; \<open>kmm_pages\<close> is the state they work on.
\<close>

unbundle bit_operations_syntax

section \<open>State\<close>

record kmm_cache =
  kc_size :: size_t
  kc_alignment :: size_t
  kc_slab_capacity :: size_t
  kc_stride :: size_t
  kc_colour_max :: size_t
  kc_colour_off :: size_t
  kc_colour_next :: size_t
  kc_flags :: u32
  kc_name :: addr
  kc_ctor :: addr
  kc_dtor :: addr

record kmm_slab =
  ks_page :: addr
  ks_objects_inuse :: size_t

record 'p kmm_state =
  kmm_caches :: "addr \<rightharpoonup> kmm_cache"
  kmm_slabs :: "addr \<rightharpoonup> kmm_slab"
  kmm_links :: slist_heap
  page_owner :: "addr \<rightharpoonup> addr"
  bufctl_memory :: "addr \<rightharpoonup> addr"
  kmm_calls :: "(addr \<times> addr) list"
  kmm_pages :: 'p
  ALLOC_PAGE_FN :: "'p \<Rightarrow> (addr \<times> 'p) kres"
  FREE_PAGE_FN :: "'p \<Rightarrow> addr \<Rightarrow> 'p kres"
  CACHES :: addr
  ALLOCATED_CACHES_HEAD :: addr

text \<open>Sizes and offsets on i686. The list node of a slab and that of a \<open>bufctl\<close> are their first fields.\<close>

abbreviation sizeof_bufctl_small :: size_t where "sizeof_bufctl_small \<equiv> 4"
abbreviation sizeof_bufctl_large :: size_t where "sizeof_bufctl_large \<equiv> 8"
abbreviation sizeof_page :: size_t where "sizeof_page \<equiv> 4"
abbreviation sizeof_kmm_slab :: size_t where "sizeof_kmm_slab \<equiv> 16"
abbreviation sizeof_kmm_cache :: size_t where "sizeof_kmm_cache \<equiv> 60"

definition slabs_empty :: "addr \<Rightarrow> addr" where "slabs_empty c = c + 44"
definition slabs_partial :: "addr \<Rightarrow> addr" where "slabs_partial c = c + 48"
definition slabs_full :: "addr \<Rightarrow> addr" where "slabs_full c = c + 52"
definition sys_caches :: "addr \<Rightarrow> addr" where "sys_caches c = c + 56"
definition sys_cache :: "addr \<Rightarrow> addr" where "sys_cache l = l - 56"
definition free_buffers :: "addr \<Rightarrow> addr" where "free_buffers slab = slab + 4"

definition CACHES_caches :: "'p kmm_state \<Rightarrow> addr" where "CACHES_caches s = CACHES s"
definition CACHES_large_bufctls :: "'p kmm_state \<Rightarrow> addr" where "CACHES_large_bufctls s = CACHES s + 60"
definition CACHES_slabs :: "'p kmm_state \<Rightarrow> addr" where "CACHES_slabs s = CACHES s + 120"

definition KMM_CACHE_LARGE :: u32 where "KMM_CACHE_LARGE = 1"

definition is_large :: "kmm_cache \<Rightarrow> bool" where
  "is_large k \<longleftrightarrow> kc_flags k AND KMM_CACHE_LARGE \<noteq> 0"

definition cache_at :: "'p kmm_state \<Rightarrow> addr \<Rightarrow> kmm_cache kres" where
  "cache_at s c = (case kmm_caches s c of None \<Rightarrow> Inl Undef | Some k \<Rightarrow> Inr k)"

definition slab_at :: "'p kmm_state \<Rightarrow> addr \<Rightarrow> kmm_slab kres" where
  "slab_at s b = (case kmm_slabs s b of None \<Rightarrow> Inl Undef | Some r \<Rightarrow> Inr r)"

definition put_cache :: "'p kmm_state \<Rightarrow> addr \<Rightarrow> kmm_cache \<Rightarrow> 'p kmm_state" where
  "put_cache s c k = s\<lparr>kmm_caches := (kmm_caches s)(c \<mapsto> k)\<rparr>"

definition put_slab :: "'p kmm_state \<Rightarrow> addr \<Rightarrow> kmm_slab \<Rightarrow> 'p kmm_state" where
  "put_slab s b r = s\<lparr>kmm_slabs := (kmm_slabs s)(b \<mapsto> r)\<rparr>"

definition on_links :: "'p kmm_state \<Rightarrow> (slist_heap \<Rightarrow> slist_heap kres) \<Rightarrow> 'p kmm_state kres" where
  "on_links s f = kbind (f (kmm_links s)) (\<lambda>h. Inr (s\<lparr>kmm_links := h\<rparr>))"

definition call_object_fn :: "'p kmm_state \<Rightarrow> addr \<Rightarrow> addr \<Rightarrow> 'p kmm_state" where
  "call_object_fn s f mem = (if f \<noteq> NULL then s\<lparr>kmm_calls := kmm_calls s @ [(f, mem)]\<rparr> else s)"

section \<open>Objects and their list nodes\<close>

definition bufctl_small_get_mem :: "addr \<Rightarrow> kmm_cache \<Rightarrow> addr" where
  "bufctl_small_get_mem ctl k = align_rounddown (ctl - kc_size k) (kc_alignment k)"

definition bufctl_large_get_mem :: "'p kmm_state \<Rightarrow> addr \<Rightarrow> addr kres" where
  "bufctl_large_get_mem s ctl = (case bufctl_memory s ctl of None \<Rightarrow> Inl Undef | Some m \<Rightarrow> Inr m)"

definition bufctl_mem :: "'p kmm_state \<Rightarrow> addr \<Rightarrow> kmm_cache \<Rightarrow> addr kres" where
  "bufctl_mem s ctl k = (if is_large k then bufctl_large_get_mem s ctl else Inr (bufctl_small_get_mem ctl k))"

definition get_bufctl_small :: "addr \<Rightarrow> kmm_cache \<Rightarrow> addr kres" where
  "get_bufctl_small buffer k =
     (let b = align_roundup (buffer + kc_size k) sizeof_bufctl_small in kassert (check_align b 4) (Inr b))"

definition page_get_by_addr :: "addr \<Rightarrow> addr kres" where
  "page_get_by_addr a = (let p = a AND (- PLATFORM_PAGE_SIZE) in kassert (check_align p 4) (Inr p))"

definition slab_get_by_addr :: "'p kmm_state \<Rightarrow> addr \<Rightarrow> addr kres" where
  "slab_get_by_addr s a = kbind (page_get_by_addr a) (\<lambda>p.
     case page_owner s p of None \<Rightarrow> Inl Undef | Some b \<Rightarrow> Inr b)"

definition page_free :: "'p kmm_state \<Rightarrow> addr \<Rightarrow> 'p kmm_state kres" where
  "page_free s p = kassert (p \<noteq> NULL)
     (kbind (FREE_PAGE_FN s (kmm_pages s) p) (\<lambda>q. Inr (s\<lparr>kmm_pages := q\<rparr>)))"

definition page_alloc :: "'p kmm_state \<Rightarrow> addr \<Rightarrow> (addr \<times> 'p kmm_state) kres" where
  "page_alloc s c = kassert (c \<noteq> NULL)
     (kbind (ALLOC_PAGE_FN s (kmm_pages s)) (\<lambda>(page, q).
        kassert (check_align page PLATFORM_PAGE_SIZE) (Inr (page, s\<lparr>kmm_pages := q\<rparr>))))"

section \<open>Setting a cache up\<close>

definition cache_get_avail_space :: "kmm_cache \<Rightarrow> size_t kres" where
  "cache_get_avail_space k = kassert (kc_stride k > 0)
     (let avail_space = PLATFORM_PAGE_SIZE - sizeof_page in
      Inr (if \<not> is_large k then avail_space - sizeof_kmm_slab else avail_space))"

definition cache_get_capacity :: "kmm_cache \<Rightarrow> size_t kres" where
  "cache_get_capacity k = kassert (kc_stride k > 0)
     (kbind (cache_get_avail_space k) (\<lambda>avail. Inr (avail div kc_stride k)))"

definition cache_get_wasted :: "kmm_cache \<Rightarrow> size_t kres" where
  "cache_get_wasted k = kassert (kc_slab_capacity k > 0) (kassert (kc_stride k > 0)
     (kbind (cache_get_avail_space k) (\<lambda>avail. Inr (avail - kc_slab_capacity k * kc_stride k))))"

definition kmm_cache_init :: "'p kmm_state \<Rightarrow> addr \<Rightarrow> addr \<Rightarrow> size_t \<Rightarrow> size_t \<Rightarrow> u32 \<Rightarrow> addr \<Rightarrow> addr \<Rightarrow>
    'p kmm_state kres" where
  "kmm_cache_init s c name sz align flags ctor dtor =
     kassert (c \<noteq> NULL)
     (let large = sz \<ge> PLATFORM_PAGE_SIZE div 8;
          flags = flags OR (if large then KMM_CACHE_LARGE else 0);
          obj_space = (if \<not> large then sz + sizeof_bufctl_small else sz);
          alignment = (if \<not> large then MAX_u32 sizeof_bufctl_small align else align);
          stride = (if alignment \<noteq> 0 then align_roundup obj_space alignment else obj_space);
          k = \<lparr>kc_size = sz, kc_alignment = alignment, kc_slab_capacity = 0, kc_stride = stride,
               kc_colour_max = 0, kc_colour_off = alignment, kc_colour_next = 0, kc_flags = flags,
               kc_name = name, kc_ctor = ctor, kc_dtor = dtor\<rparr> in
      kbind (cache_get_capacity k) (\<lambda>capacity. let k = k\<lparr>kc_slab_capacity := capacity\<rparr> in
      kbind (cache_get_wasted k) (\<lambda>wasted.
      kbind (on_links (put_cache s c (k\<lparr>kc_colour_max := wasted\<rparr>)) (\<lambda>h. slist_init h (slabs_empty c))) (\<lambda>s.
      kbind (on_links s (\<lambda>h. slist_init h (slabs_partial c))) (\<lambda>s.
        on_links s (\<lambda>h. slist_init h (slabs_full c)))))))"

definition kmm_cache_register :: "'p kmm_state \<Rightarrow> addr \<Rightarrow> 'p kmm_state kres" where
  "kmm_cache_register s c = on_links s (\<lambda>h. slist_insert h (ALLOCATED_CACHES_HEAD s) (sys_caches c))"

definition kmm_init :: "'p kmm_state \<Rightarrow> ('p \<Rightarrow> (addr \<times> 'p) kres) option \<Rightarrow> ('p \<Rightarrow> addr \<Rightarrow> 'p kres) option \<Rightarrow>
    addr \<Rightarrow> addr \<Rightarrow> addr \<Rightarrow> 'p kmm_state kres" where
  "kmm_init s alloc_page_fn free_page_fn caches_name slabs_name bufctls_name =
     (case alloc_page_fn of None \<Rightarrow> Inl Kassert | Some af \<Rightarrow>
      case free_page_fn of None \<Rightarrow> Inl Kassert | Some ff \<Rightarrow>
      kbind (on_links (s\<lparr>ALLOC_PAGE_FN := af, FREE_PAGE_FN := ff\<rparr>)
        (\<lambda>h. slist_init h (ALLOCATED_CACHES_HEAD s))) (\<lambda>s.
      kbind (kmm_cache_register s (CACHES_caches s)) (\<lambda>s.
      kbind (kmm_cache_register s (CACHES_slabs s)) (\<lambda>s.
      kbind (kmm_cache_register s (CACHES_large_bufctls s)) (\<lambda>s.
      kbind (kmm_cache_init s (CACHES_caches s) caches_name sizeof_kmm_cache 0 0 NULL NULL) (\<lambda>s.
      kbind (kmm_cache_init s (CACHES_slabs s) slabs_name sizeof_kmm_slab 0 0 NULL NULL) (\<lambda>s.
        kmm_cache_init s (CACHES_large_bufctls s) bufctls_name sizeof_bufctl_large 0 0 NULL NULL)))))))"

section \<open>New slabs\<close>

text \<open>
  A cache of large objects uses the caches of slabs and of nodes for large objects: \<open>al\<close> and \<open>fr\<close> stand
  for \<open>kmm_cache_alloc\<close> and \<open>kmm_cache_free\<close> until they are defined.
\<close>

type_synonym 'p alloc_fn = "'p kmm_state \<Rightarrow> addr \<Rightarrow> (addr \<times> 'p kmm_state) kres"
type_synonym 'p free_fn = "'p kmm_state \<Rightarrow> addr \<Rightarrow> addr \<Rightarrow> 'p kmm_state kres"

definition create_small_step :: "'p kmm_state \<Rightarrow> kmm_cache \<Rightarrow> addr \<Rightarrow> addr \<Rightarrow> 'p kmm_state kres" where
  "create_small_step s k slab cursor =
     kbind (get_bufctl_small cursor k) (\<lambda>ctl.
     kassert (ctl < cursor + kc_stride k)
     (kbind (on_links s (\<lambda>h. slist_init h ctl)) (\<lambda>s.
      kbind (on_links s (\<lambda>h. slist_insert h (free_buffers slab) ctl)) (\<lambda>s.
        Inr (call_object_fn s (kc_ctor k) (bufctl_small_get_mem ctl k))))))"

function create_small_loop :: "'p kmm_state \<Rightarrow> kmm_cache \<Rightarrow> addr \<Rightarrow> size_t \<Rightarrow> addr \<Rightarrow> 'p kmm_state kres" where
  "create_small_loop s k slab i cursor =
     (if i < kc_slab_capacity k
      then kbind (create_small_step s k slab cursor) (\<lambda>s.
        create_small_loop s k slab (i + 1) (cursor + kc_stride k))
      else Inr s)"
  by pat_completeness auto
termination
  by (relation "measure (\<lambda>(s, k, slab, i, cursor). unat (kc_slab_capacity k) - unat i)")
     (use size_t_loop_measure in force)+

definition slab_create_small :: "'p kmm_state \<Rightarrow> addr \<Rightarrow> size_t \<Rightarrow> (addr \<times> 'p kmm_state) kres" where
  "slab_create_small s c colour =
     kassert (c \<noteq> NULL)
     (kbind (page_alloc s c) (\<lambda>(page, s).
      if page = NULL then Inr (NULL, s)
      else kbind (cache_at s c) (\<lambda>k.
        let slab = page + sizeof_page in
        kassert (check_align slab 4)
        (let cursor = align_roundup (slab + sizeof_kmm_slab + colour) (kc_alignment k);
             s = put_slab (s\<lparr>page_owner := (page_owner s)(page \<mapsto> slab)\<rparr>) slab
               \<lparr>ks_page = page, ks_objects_inuse = 0\<rparr> in
         kbind (on_links s (\<lambda>h. slist_init h slab)) (\<lambda>s.
         kbind (on_links s (\<lambda>h. slist_init h (free_buffers slab))) (\<lambda>s.
         kassert (page + PLATFORM_PAGE_SIZE - (cursor + kc_slab_capacity k * kc_stride k) < kc_stride k)
         (kbind (create_small_loop s k slab 0 cursor) (\<lambda>s. Inr (slab, s)))))))))"

definition create_large_step :: "'p alloc_fn \<Rightarrow> 'p kmm_state \<Rightarrow> kmm_cache \<Rightarrow> addr \<Rightarrow> addr \<Rightarrow> 'p kmm_state kres" where
  "create_large_step al s k slab obj =
     kbind (al s (CACHES_large_bufctls s)) (\<lambda>(ctl, s).
     kbind (on_links s (\<lambda>h. slist_init h ctl)) (\<lambda>s.
     kbind (on_links s (\<lambda>h. slist_insert h (free_buffers slab) ctl)) (\<lambda>s.
       Inr (call_object_fn (s\<lparr>bufctl_memory := (bufctl_memory s)(ctl \<mapsto> obj)\<rparr>) (kc_ctor k) obj))))"

function create_large_loop :: "'p alloc_fn \<Rightarrow> 'p kmm_state \<Rightarrow> kmm_cache \<Rightarrow> addr \<Rightarrow> size_t \<Rightarrow> addr \<Rightarrow>
    'p kmm_state kres" where
  "create_large_loop al s k slab i obj_addr =
     (if i < kc_slab_capacity k
      then kbind (create_large_step al s k slab obj_addr) (\<lambda>s.
        create_large_loop al s k slab (i + 1) (obj_addr + kc_stride k))
      else Inr s)"
  by pat_completeness auto
termination
  by (relation "measure (\<lambda>(al, s, k, slab, i, cursor). unat (kc_slab_capacity k) - unat i)")
     (use size_t_loop_measure in force)+

definition slab_create_large :: "'p alloc_fn \<Rightarrow> 'p free_fn \<Rightarrow> 'p kmm_state \<Rightarrow> addr \<Rightarrow> size_t \<Rightarrow>
    (addr \<times> 'p kmm_state) kres" where
  "slab_create_large al fr s c colour =
     kassert (c \<noteq> NULL)
     (kbind (al s (CACHES_slabs s)) (\<lambda>(slab, s).
      if slab = NULL then Inr (NULL, s)
      else kbind (page_alloc s c) (\<lambda>(page, s).
        if page = NULL then kbind (fr s (CACHES_slabs s) slab) (\<lambda>s. Inr (NULL, s))
        else kbind (cache_at s c) (\<lambda>k.
          let obj_addr = align_roundup (page + sizeof_page + colour) (kc_alignment k);
              s = put_slab (s\<lparr>page_owner := (page_owner s)(page \<mapsto> slab)\<rparr>) slab
                \<lparr>ks_page = page, ks_objects_inuse = 0\<rparr> in
          kbind (on_links s (\<lambda>h. slist_init h slab)) (\<lambda>s.
          kbind (on_links s (\<lambda>h. slist_init h (free_buffers slab))) (\<lambda>s.
          kbind (create_large_loop al s k slab 0 obj_addr) (\<lambda>s. Inr (slab, s))))))))"

section \<open>Allocating and freeing\<close>

definition object_free :: "'p alloc_fn \<Rightarrow> 'p kmm_state \<Rightarrow> addr \<Rightarrow> addr \<Rightarrow> addr \<Rightarrow> 'p kmm_state kres" where
  "object_free al s mem slab c =
     kassert (mem \<noteq> NULL) (kassert (slab \<noteq> NULL)
     (kbind (slab_at s slab) (\<lambda>r.
      let s = put_slab s slab (r\<lparr>ks_objects_inuse := ks_objects_inuse r - 1\<rparr>) in
      kbind (cache_at s c) (\<lambda>k.
      kbind (if is_large k
        then kbind (al s (CACHES_large_bufctls s)) (\<lambda>(ctl, s).
          kdefined (ctl \<noteq> NULL) (Inr (ctl, s\<lparr>bufctl_memory := (bufctl_memory s)(ctl \<mapsto> mem)\<rparr>)))
        else kbind (get_bufctl_small mem k) (\<lambda>ctl. Inr (ctl, s))) (\<lambda>(ctl, s).
        on_links s (\<lambda>h. slist_insert h (free_buffers slab) ctl))))))"

definition object_alloc :: "'p free_fn \<Rightarrow> 'p kmm_state \<Rightarrow> addr \<Rightarrow> addr \<Rightarrow> (addr \<times> 'p kmm_state) kres" where
  "object_alloc fr s slab c =
     kassert (slab \<noteq> NULL)
     (kbind (slist_is_empty (kmm_links s) (free_buffers slab)) (\<lambda>e. kassert (\<not> e)
     (kbind (slist_next (kmm_links s) (free_buffers slab)) (\<lambda>free_ctl.
      kbind (on_links s (\<lambda>h. slist_remove h (free_buffers slab) free_ctl)) (\<lambda>s.
      kbind (cache_at s c) (\<lambda>k.
      kbind (bufctl_mem s free_ctl k) (\<lambda>mem.
      kbind (if is_large k then fr s (CACHES_large_bufctls s) free_ctl else Inr s) (\<lambda>s.
      kbind (slab_at s slab) (\<lambda>r.
        Inr (mem, put_slab s slab (r\<lparr>ks_objects_inuse := ks_objects_inuse r + 1\<rparr>)))))))))))"

definition find_existing_slab :: "'p kmm_state \<Rightarrow> addr \<Rightarrow> (addr \<times> 'p kmm_state) kres" where
  "find_existing_slab s c =
     kassert (c \<noteq> NULL)
     (kbind (slist_is_empty (kmm_links s) (slabs_partial c)) (\<lambda>no_partial.
      if \<not> no_partial
      then kbind (slist_next (kmm_links s) (slabs_partial c)) (\<lambda>slab.
        kbind (slab_at s slab) (\<lambda>r. kbind (cache_at s c) (\<lambda>k.
        let becomes_full = (ks_objects_inuse r + 1 = kc_slab_capacity k) in
        if becomes_full
        then kbind (on_links s (\<lambda>h. slist_remove h (slabs_partial c) slab)) (\<lambda>s.
          kbind (on_links s (\<lambda>h. slist_insert h (slabs_full c) slab)) (\<lambda>s. Inr (slab, s)))
        else Inr (slab, s))))
      else kbind (slist_is_empty (kmm_links s) (slabs_empty c)) (\<lambda>no_empty.
        if \<not> no_empty
        then kbind (slist_next (kmm_links s) (slabs_empty c)) (\<lambda>slab.
          kbind (on_links s (\<lambda>h. slist_remove h (slabs_empty c) slab)) (\<lambda>s.
          kbind (on_links s (\<lambda>h. slist_insert h (slabs_partial c) slab)) (\<lambda>s. Inr (slab, s))))
        else Inr (NULL, s))))"

definition get_new_slab :: "'p alloc_fn \<Rightarrow> 'p free_fn \<Rightarrow> 'p kmm_state \<Rightarrow> addr \<Rightarrow> (addr \<times> 'p kmm_state) kres" where
  "get_new_slab al fr s c =
     kassert (c \<noteq> NULL)
     (kbind (cache_at s c) (\<lambda>k.
      kbind (if is_large k then slab_create_large al fr s c (kc_colour_next k)
        else slab_create_small s c (kc_colour_next k)) (\<lambda>(slab, s).
      kbind (cache_at s c) (\<lambda>k.
      let next_colour = kc_colour_next k + kc_colour_off k;
          k = k\<lparr>kc_colour_next := (if next_colour \<ge> kc_colour_max k then 0 else next_colour)\<rparr>;
          s = put_cache s c k in
      if slab = NULL then Inr (NULL, s)
      else if kc_slab_capacity k = 1
      then kbind (on_links s (\<lambda>h. slist_insert h (slabs_full c) slab)) (\<lambda>s. Inr (slab, s))
      else kbind (on_links s (\<lambda>h. slist_insert h (slabs_partial c) slab)) (\<lambda>s. Inr (slab, s))))))"

definition cache_alloc_with :: "'p alloc_fn \<Rightarrow> 'p free_fn \<Rightarrow> 'p alloc_fn" where
  "cache_alloc_with al fr s c =
     kassert (c \<noteq> NULL)
     (kbind (find_existing_slab s c) (\<lambda>(slab, s).
      kbind (if slab = NULL then get_new_slab al fr s c else Inr (slab, s)) (\<lambda>(slab, s).
      if slab = NULL then Inr (NULL, s)
      else kbind (object_alloc fr s slab c) (\<lambda>(obj, s). kassert (obj \<noteq> NULL) (Inr (obj, s))))))"

definition cache_free_with :: "'p alloc_fn \<Rightarrow> 'p free_fn" where
  "cache_free_with al s c mem =
     kassert (c \<noteq> NULL) (kassert (mem \<noteq> NULL)
     (kbind (slab_get_by_addr s mem) (\<lambda>slab. kassert (slab \<noteq> NULL)
     (kbind (slab_at s slab) (\<lambda>r. kbind (cache_at s c) (\<lambda>k.
      let was_full = (ks_objects_inuse r = kc_slab_capacity k); becomes_empty = (ks_objects_inuse r = 1) in
      kbind (if was_full then on_links s (\<lambda>h. slist_remove h (slabs_full c) slab)
        else if becomes_empty
        then kassert (kc_slab_capacity k > 1) (on_links s (\<lambda>h. slist_remove h (slabs_partial c) slab))
        else Inr s) (\<lambda>s.
      kbind (if becomes_empty then on_links s (\<lambda>h. slist_insert h (slabs_empty c) slab)
        else if was_full then on_links s (\<lambda>h. slist_insert h (slabs_partial c) slab)
        else Inr s) (\<lambda>s.
        object_free al s mem slab c))))))))"

text \<open>
  The two operations call each other for large objects, on caches of small objects: \<open>kmm_ops d\<close> are the
  operations with calls nested to depth \<open>d\<close>. The code nests to depth two.
\<close>

primrec kmm_ops :: "nat \<Rightarrow> 'p alloc_fn \<times> 'p free_fn" where
  "kmm_ops 0 = (\<lambda>s c. Inl Fuel, \<lambda>s c mem. Inl Fuel)"
| "kmm_ops (Suc d) = (cache_alloc_with (fst (kmm_ops d)) (snd (kmm_ops d)), cache_free_with (fst (kmm_ops d)))"

definition kmm_cache_alloc :: "'p alloc_fn" where "kmm_cache_alloc = fst (kmm_ops 2)"
definition kmm_cache_free :: "'p free_fn" where "kmm_cache_free = snd (kmm_ops 2)"

section \<open>Destroying slabs and caches\<close>

fun free_large_loop :: "nat \<Rightarrow> 'p kmm_state \<Rightarrow> addr \<Rightarrow> kmm_cache \<Rightarrow> 'p kmm_state kres" where
  "free_large_loop 0 s current k = Inl Fuel"
| "free_large_loop (Suc fuel) s current k =
     (if current = NULL then Inr s
      else kbind (slist_next (kmm_links s) current) (\<lambda>nxt.
        kbind (if kc_dtor k \<noteq> NULL
          then kbind (bufctl_large_get_mem s current) (\<lambda>mem. Inr (call_object_fn s (kc_dtor k) mem))
          else Inr s) (\<lambda>s.
        kbind (kmm_cache_free s (CACHES_large_bufctls s) current) (\<lambda>s. free_large_loop fuel s nxt k))))"

definition free_large_buffers :: "'p kmm_state \<Rightarrow> addr \<Rightarrow> addr \<Rightarrow> 'p kmm_state kres" where
  "free_large_buffers s list_head c =
     kassert (list_head \<noteq> NULL) (kassert (c \<noteq> NULL)
     (kbind (cache_at s c) (\<lambda>k. kbind (slist_next (kmm_links s) list_head) (\<lambda>current.
        free_large_loop addr_fuel s current k))))"

fun destroy_small_loop :: "nat \<Rightarrow> 'p kmm_state \<Rightarrow> addr \<Rightarrow> kmm_cache \<Rightarrow> 'p kmm_state kres" where
  "destroy_small_loop 0 s it k = Inl Fuel"
| "destroy_small_loop (Suc fuel) s it k =
     (if it = NULL then Inr s
      else let s = call_object_fn s (kc_dtor k) (bufctl_small_get_mem it k) in
        kbind (slist_next (kmm_links s) it) (\<lambda>it. destroy_small_loop fuel s it k))"

definition slab_destroy :: "'p kmm_state \<Rightarrow> addr \<Rightarrow> addr \<Rightarrow> 'p kmm_state kres" where
  "slab_destroy s slab c =
     kassert (slab \<noteq> NULL) (kassert (c \<noteq> NULL)
     (kbind (cache_at s c) (\<lambda>k.
      kbind (if is_large k
        then kbind (free_large_buffers s (free_buffers slab) c) (\<lambda>s. kmm_cache_free s (CACHES_slabs s) slab)
        else if kc_dtor k \<noteq> NULL
        then kbind (slist_next (kmm_links s) (free_buffers slab)) (\<lambda>it. destroy_small_loop addr_fuel s it k)
        else Inr s) (\<lambda>s.
      kbind (slab_at s slab) (\<lambda>r.
      kbind (on_links s (\<lambda>h. slist_remove h
        (if ks_objects_inuse r = 0 then slabs_empty c
         else if ks_objects_inuse r = kc_slab_capacity k then slabs_full c else slabs_partial c) slab)) (\<lambda>s.
        page_free s (ks_page r)))))))"

fun free_slabs_loop :: "nat \<Rightarrow> 'p kmm_state \<Rightarrow> addr \<Rightarrow> addr \<Rightarrow> 'p kmm_state kres" where
  "free_slabs_loop 0 s current from_cache = Inl Fuel"
| "free_slabs_loop (Suc fuel) s current from_cache =
     (if current = NULL then Inr s
      else kbind (slist_next (kmm_links s) current) (\<lambda>nxt.
        kbind (slab_destroy s current from_cache) (\<lambda>s. free_slabs_loop fuel s nxt from_cache)))"

definition free_slabs_list :: "'p kmm_state \<Rightarrow> addr \<Rightarrow> addr \<Rightarrow> 'p kmm_state kres" where
  "free_slabs_list s list_head from_cache =
     kassert (list_head \<noteq> NULL) (kassert (from_cache \<noteq> NULL)
     (kbind (slist_next (kmm_links s) list_head) (\<lambda>current. free_slabs_loop addr_fuel s current from_cache)))"

definition kmm_cache_trim :: "'p kmm_state \<Rightarrow> addr \<Rightarrow> 'p kmm_state kres" where
  "kmm_cache_trim s c = kassert (c \<noteq> NULL) (free_slabs_list s (slabs_empty c) c)"

fun trim_all_loop :: "nat \<Rightarrow> 'p kmm_state \<Rightarrow> addr \<Rightarrow> 'p kmm_state kres" where
  "trim_all_loop 0 s it = Inl Fuel"
| "trim_all_loop (Suc fuel) s it =
     (if it = NULL then Inr s
      else kbind (kmm_cache_trim s (sys_cache it)) (\<lambda>s.
        kbind (slist_next (kmm_links s) it) (\<lambda>it. trim_all_loop fuel s it)))"

definition kmm_cache_trim_all :: "'p kmm_state \<Rightarrow> 'p kmm_state kres" where
  "kmm_cache_trim_all s =
     kbind (slist_next (kmm_links s) (ALLOCATED_CACHES_HEAD s)) (\<lambda>it. trim_all_loop addr_fuel s it)"

definition kmm_cache_create :: "'p kmm_state \<Rightarrow> addr \<Rightarrow> size_t \<Rightarrow> size_t \<Rightarrow> u32 \<Rightarrow> addr \<Rightarrow> addr \<Rightarrow>
    (addr \<times> 'p kmm_state) kres" where
  "kmm_cache_create s name sz align cache_flags ctor dtor =
     kbind (kmm_cache_alloc s (CACHES_caches s)) (\<lambda>(c, s).
     if c = NULL then Inr (NULL, s)
     else kbind (kmm_cache_init s c name sz align cache_flags ctor dtor) (\<lambda>s.
       kbind (kmm_cache_register s c) (\<lambda>s. Inr (c, s))))"

definition free_if_any :: "'p kmm_state \<Rightarrow> addr \<Rightarrow> addr \<Rightarrow> 'p kmm_state kres" where
  "free_if_any s list_head c =
     kbind (slist_is_empty (kmm_links s) list_head) (\<lambda>e. if \<not> e then free_slabs_list s list_head c else Inr s)"

definition kmm_cache_destroy :: "'p kmm_state \<Rightarrow> addr \<Rightarrow> 'p kmm_state kres" where
  "kmm_cache_destroy s c =
     kassert (c \<noteq> NULL)
     (kbind (free_if_any s (slabs_full c) c) (\<lambda>s.
      kbind (free_if_any s (slabs_partial c) c) (\<lambda>s.
      kbind (free_slabs_list s (slabs_empty c) c) (\<lambda>s.
      kbind (on_links s (\<lambda>h. slist_remove h (ALLOCATED_CACHES_HEAD s) (sys_caches c))) (\<lambda>s.
        kmm_cache_free s (CACHES_caches s) c)))))"

end
