(* ===== verification/Kmm_Layout.thy ===== *)
theory Kmm_Layout
  imports Kmm
begin

text \<open>
  Where a cache of small objects puts the objects, and the list node of each, in a page: the parameters
  \<open>kmm_cache_init\<close> computes, and what \<open>slab_create_small\<close> makes of a fresh page.
\<close>

unbundle bit_operations_syntax

section \<open>Parameters\<close>

definition kcap :: "kmm_cache \<Rightarrow> nat" where "kcap k = unat (kc_slab_capacity k)"
definition kstride :: "kmm_cache \<Rightarrow> nat" where "kstride k = unat (kc_stride k)"
definition kalign :: "kmm_cache \<Rightarrow> nat" where "kalign k = unat (kc_alignment k)"

text \<open>The objects of a slab, \<open>stride\<close> apart, fit behind the slab's description with room for the colour.\<close>

definition small_cache :: "kmm_cache \<Rightarrow> bool" where
  "small_cache k \<longleftrightarrow> \<not> is_large k \<and> (\<exists>a. 2 \<le> a \<and> a < 32 \<and> kc_alignment k = 2 ^ a) \<and>
     unat (kc_size k) + 4 \<le> kstride k \<and> kalign k dvd kstride k \<and>
     0 < kcap k \<and> kcap k = 4076 div kstride k \<and> unat (kc_colour_max k) = 4076 mod kstride k \<and>
     (kc_colour_next k = 0 \<or> kc_colour_next k < kc_colour_max k)"

lemma small_cacheD:
  assumes "small_cache k"
  shows "4 dvd kalign k" "0 < kalign k" "kalign k dvd kstride k" "0 < kstride k" "kcap k * kstride k \<le> 4076"
    "4076 < kcap k * kstride k + kstride k" "unat (kc_size k) + 4 \<le> kstride k" "kalign k dvd 4096"
    "unat (kc_colour_next k) \<le> 4076 - kcap k * kstride k" "kstride k \<le> 4076"
proof -
  obtain a where a: "2 \<le> a" "a < 32" "kc_alignment k = 2 ^ a" using assms by (auto simp: small_cache_def)
  have al: "kalign k = 2 ^ a" using unat_pow2 [OF a(2)] a(3) by (simp add: kalign_def)
  show s: "0 < kstride k" "kalign k dvd kstride k" "unat (kc_size k) + 4 \<le> kstride k" using assms
    by (auto simp: small_cache_def)
  have c: "kcap k = 4076 div kstride k" "0 < kcap k" using assms by (auto simp: small_cache_def)
  show "4 dvd kalign k" unfolding al using le_imp_power_dvd [OF a(1), of "2 :: nat"] by simp
  show "0 < kalign k" unfolding al by simp
  show le: "kcap k * kstride k \<le> 4076" unfolding c(1) by simp
  show "4076 < kcap k * kstride k + kstride k"
    unfolding c(1) using dividend_less_div_times [OF s(1), of 4076] by simp
  show s4: "kstride k \<le> 4076" using le c(2) by (metis (no_types) Suc_leI le_trans mult.commute mult_le_mono1 mult_numeral_1_right nat_mult_1 One_nat_def)
  have "2 ^ a \<le> (4076 :: nat)" using dvd_imp_le [OF s(2,1)] s4 al by linarith
  then have "2 ^ a < (2 :: nat) ^ 12" by simp
  then have "a < 12" by (rule power_less_imp_less_exp [rotated]) simp
  then show "kalign k dvd 4096" unfolding al using le_imp_power_dvd [of a 12 "2 :: nat"] by simp
  have "unat (kc_colour_max k) = 4076 - kcap k * kstride k"
    using assms unfolding small_cache_def c(1) by (simp add: minus_div_mult_eq_mod)
  then show "unat (kc_colour_next k) \<le> 4076 - kcap k * kstride k"
    using assms by (auto simp: small_cache_def word_less_nat_alt)
qed

text \<open>What \<open>kmm_cache_init\<close> computes for objects of less than an eighth of a page.\<close>

definition cache_fits :: "addr \<Rightarrow> bool" where
  "cache_fits c \<longleftrightarrow> c \<noteq> NULL \<and> unat c + 60 < 4294967296"

lemma cache_nodes:
  assumes "cache_fits c"
  shows "c \<noteq> NULL" "slabs_empty c \<noteq> NULL" "slabs_partial c \<noteq> NULL" "slabs_full c \<noteq> NULL"
    "slabs_empty c \<noteq> slabs_partial c" "slabs_empty c \<noteq> slabs_full c" "slabs_partial c \<noteq> slabs_full c"
proof -
  have c: "unat c + 60 < 4294967296" "c \<noteq> NULL" using assms by (simp_all add: cache_fits_def)
  then have "unat (slabs_empty c) = unat c + 44" "unat (slabs_partial c) = unat c + 48" "unat (slabs_full c) = unat c + 52"
    by (simp_all add: slabs_empty_def slabs_partial_def slabs_full_def unat_add32)
  then show "c \<noteq> NULL" "slabs_empty c \<noteq> NULL" "slabs_partial c \<noteq> NULL" "slabs_full c \<noteq> NULL"
    "slabs_empty c \<noteq> slabs_partial c" "slabs_empty c \<noteq> slabs_full c" "slabs_partial c \<noteq> slabs_full c"
    using c(2) by (auto simp flip: unat_eq_0)
qed

lemma small_alignment:
  assumes "al = 0 \<or> (\<exists>a < 12. al = (2 :: size_t) ^ a)"
  shows "\<exists>a. 2 \<le> a \<and> a < 12 \<and> MAX_u32 sizeof_bufctl_small al = 2 ^ a"
proof (cases "al = 0")
  case True
  then show ?thesis by (intro exI [of _ 2]) (simp add: MAX_u32_def)
next
  case False
  then obtain a where a: "a < 12" "al = 2 ^ a" using assms by auto
  have u: "unat al = 2 ^ a" using a by (simp add: unat_pow2)
  show ?thesis
  proof (cases "2 \<le> a")
    case True
    then have "(2 :: nat) ^ 2 \<le> 2 ^ a" by (rule power_increasing) simp
    then have "4 \<le> al" using u by (simp add: word_le_nat_alt)
    then have "4 < al \<or> al = 4" by auto
    then show ?thesis using a True by (intro exI [of _ a]) (auto simp: MAX_u32_def)
  next
    case False
    then have "a = 0 \<or> a = 1" by auto
    then show ?thesis using a by (intro exI [of _ 2]) (auto simp: MAX_u32_def)
  qed
qed

lemma cache_init_ok:
  assumes c: "cache_fits c" and al: "al = 0 \<or> (\<exists>a < 12. al = 2 ^ a)" and sz: "unat sz < 512"
    and fl: "flags AND KMM_CACHE_LARGE = 0"
  shows "\<exists>k. kmm_cache_init s c name sz al flags ctor dtor = Inr ((put_cache s c k)\<lparr>kmm_links :=
      (kmm_links s)(slabs_empty c \<mapsto> NULL, slabs_partial c \<mapsto> NULL, slabs_full c \<mapsto> NULL)\<rparr>) \<and>
    small_cache k \<and> kc_size k = sz \<and> kc_alignment k = MAX_u32 sizeof_bufctl_small al \<and>
    kstride k < unat sz + 4 + kalign k \<and> kc_ctor k = ctor \<and> kc_dtor k = dtor"
proof -
  let ?A = "MAX_u32 sizeof_bufctl_small al"
  obtain a where a: "2 \<le> a" "a < 12" "?A = 2 ^ a" using small_alignment [OF al] by blast
  have A: "unat ?A = 2 ^ a" using a by (simp add: unat_pow2)
  have A2: "(2 :: nat) ^ a \<le> 2 ^ 11" by (rule power_increasing) (use a(2) in simp_all)
  let ?S = "align_roundup (sz + sizeof_bufctl_small) ?A"
  have z: "unat (sz + 4) = unat sz + 4" using sz by (simp add: unat_add32)
  then have S: "unat ?S = (unat sz + 4 + (2 ^ a - 1)) div 2 ^ a * 2 ^ a"
    using unat_align_roundup [of a "sz + 4"] a(2) A2 sz unfolding a(3) by simp
  have S2: "unat sz + 4 \<le> unat ?S" "unat ?S < unat sz + 4 + 2 ^ a"
    unfolding S using roundup_nat_least(1,2) [of "2 ^ a" "unat sz + 4"] by simp_all
  then have S3: "0 < unat ?S" "unat ?S \<le> 4076" using sz A2 by simp_all
  let ?k = "\<lparr>kc_size = sz, kc_alignment = ?A, kc_slab_capacity = 4076 div ?S, kc_stride = ?S,
    kc_colour_max = 4076 - 4076 div ?S * ?S, kc_colour_off = ?A, kc_colour_next = 0, kc_flags = flags,
    kc_name = name, kc_ctor = ctor, kc_dtor = dtor\<rparr>"
  have cap: "unat (4076 div ?S) = 4076 div unat ?S" by (simp add: unat_div)
  have cap0: "0 < 4076 div unat ?S" using S3 by (simp add: div_greater_zero_iff)
  have "unat (4076 div ?S * ?S) = 4076 div unat ?S * unat ?S" 
    by (subst unat_mult32) (simp_all add: cap le_less_trans [OF div_times_less_eq_dividend])
  then have cm: "unat (4076 - 4076 div ?S * ?S) = 4076 mod unat ?S"
    by (subst unat_sub32) (simp_all add: minus_div_mult_eq_mod)
  have nz: "0 < ?S" "0 < 4076 div ?S" "?A \<noteq> 0" using S3(1) cap0 cap A by (auto simp: word_less_nat_alt)
  have nl: "\<not> sz \<ge> PLATFORM_PAGE_SIZE div 8" using sz by (simp add: PLATFORM_PAGE_SIZE_def word_le_nat_alt)
  have dv: "2 ^ a dvd unat ?S" unfolding S by simp
  have "small_cache ?k"
    unfolding small_cache_def kcap_def kstride_def kalign_def is_large_def
    using fl a S2 cap cap0 cm A dv by (auto intro!: exI [of _ a])
  moreover have "kmm_cache_init s c name sz al flags ctor dtor = Inr ((put_cache s c ?k)\<lparr>kmm_links :=
      (kmm_links s)(slabs_empty c \<mapsto> NULL, slabs_partial c \<mapsto> NULL, slabs_full c \<mapsto> NULL)\<rparr>)"
    using nl nz fl cache_nodes [OF c]
    by (simp add: kmm_cache_init_def Let_def cache_get_capacity_def cache_get_wasted_def cache_get_avail_space_def
        is_large_def PLATFORM_PAGE_SIZE_def on_links_def slist_init_def put_cache_def)
  moreover have "kstride ?k < unat sz + 4 + kalign ?k" using S2(2) A by (simp add: kstride_def kalign_def)
  ultimately show ?thesis by (intro exI [of _ ?k]) simp
qed

section \<open>The place of an object and of its list node\<close>

definition page_ok :: "addr \<Rightarrow> bool" where
  "page_ok p \<longleftrightarrow> p \<noteq> NULL \<and> check_align p PLATFORM_PAGE_SIZE \<and> unat p + 4096 < 4294967296"

definition place_ok :: "kmm_cache \<Rightarrow> addr \<Rightarrow> addr \<Rightarrow> bool" where
  "place_ok k p ob \<longleftrightarrow> page_ok p \<and> kalign k dvd unat ob \<and> unat p + 20 \<le> unat ob \<and>
     unat ob + kcap k * kstride k \<le> unat p + 4096"

definition obj_at :: "kmm_cache \<Rightarrow> addr \<Rightarrow> nat \<Rightarrow> addr" where
  "obj_at k ob i = ob + of_nat (i * kstride k)"

definition objs :: "kmm_cache \<Rightarrow> addr \<Rightarrow> addr list" where
  "objs k ob = map (obj_at k ob) [0..<kcap k]"

definition obj_ctl :: "kmm_cache \<Rightarrow> addr \<Rightarrow> addr" where
  "obj_ctl k b = align_roundup (b + kc_size k) 4"

lemma obj_at_unat:
  assumes "place_ok k p ob" and "i < kcap k"
  shows "unat (obj_at k ob i) = unat ob + i * kstride k" "unat ob + i * kstride k + kstride k \<le> unat p + 4096"
proof -
  have "i * kstride k + kstride k \<le> kcap k * kstride k"
    using mult_le_mono1 [of "Suc i" "kcap k" "kstride k"] assms(2) by simp
  then show le: "unat ob + i * kstride k + kstride k \<le> unat p + 4096" using assms(1) by (simp add: place_ok_def)
  have lt: "unat ob + i * kstride k < 4294967296" using le assms(1) by (simp add: place_ok_def page_ok_def)
  then have "unat (of_nat (i * kstride k) :: addr) = i * kstride k" by (intro unat_of_nat32) simp
  then show "unat (obj_at k ob i) = unat ob + i * kstride k" using lt by (simp add: obj_at_def unat_add32)
qed

lemma round_back: "d < A \<Longrightarrow> A dvd n \<Longrightarrow> (n + d) div A * A = (n :: nat)"
  by (auto simp: dvd_def)

lemma obj_ctl_ok:
  assumes k: "small_cache k" and b: "kalign k dvd unat b" "unat b + kstride k < 4294967296"
  shows "unat b + unat (kc_size k) \<le> unat (obj_ctl k b)" "unat (obj_ctl k b) + 4 \<le> unat b + kstride k"
    "get_bufctl_small b k = Inr (obj_ctl k b)" "bufctl_small_get_mem (obj_ctl k b) k = b"
proof -
  note d = small_cacheD [OF k]
  let ?z = "unat (kc_size k)"
  let ?r = "(?z + 3) div 4 * 4"
  obtain a where a: "a < 32" "kc_alignment k = 2 ^ a" using k by (auto simp: small_cache_def)
  have al: "kalign k = 2 ^ a" using unat_pow2 [OF a(1)] a(2) by (simp add: kalign_def)
  obtain q where q: "unat b = 4 * q" using dvd_trans [OF d(1) b(1)] by (auto simp: dvd_def)
  obtain m where m: "kstride k = m * 4" using dvd_trans [OF d(1,3)] by (auto simp: dvd_def)
  have r: "?z \<le> ?r" "?r < ?z + 4" using roundup_nat_least(1,2) [of 4 ?z] by simp_all
  have r4: "?r + 4 \<le> kstride k"
  proof -
    have "?z + 4 \<le> m * 4" using d(7) m by simp
    then have "(?z + 4 + 3) div 4 * 4 \<le> m * 4" using roundup_nat_least(3) [of 4 "?z + 4" m] by simp
    moreover have "(?z + 4 + 3) div 4 = Suc ((?z + 3) div 4)" by linarith
    then have "(?z + 4 + 3) div 4 * 4 = ?r + 4" by (metis add.commute mult_Suc)
    ultimately show ?thesis using m by simp
  qed
  have bz: "unat (b + kc_size k) = 4 * q + ?z" using d(7) b(2) q by (simp add: unat_add32)
  have "4 * q + ?z + 3 < 4294967296" using r4 r(1) b(2) q by linarith
  then have "unat (align_roundup (b + kc_size k) (2 ^ 2)) = (4 * q + ?z + 3) div 4 * 4"
    using unat_align_roundup [of 2 "b + kc_size k"] bz by simp
  moreover have "(4 * q + ?z + 3) div 4 = q + (?z + 3) div 4" by simp
  ultimately have u: "unat (obj_ctl k b) = unat b + ?r" using q by (simp add: obj_ctl_def)
  show "unat b + ?z \<le> unat (obj_ctl k b)" using u r by simp
  show "unat (obj_ctl k b) + 4 \<le> unat b + kstride k" using u r4 by simp
  have "4 dvd unat (obj_ctl k b)" unfolding u q by simp
  then have "check_align (obj_ctl k b) 4" using check_align_dvd [of 2 "obj_ctl k b"] by simp
  then show "get_bufctl_small b k = Inr (obj_ctl k b)" by (simp add: get_bufctl_small_def obj_ctl_def Let_def)
  have "unat (obj_ctl k b - kc_size k) = unat b + (?r - ?z)" using u r by (simp add: unat_sub32)
  moreover have "?r - ?z < kalign k" using r d(1,2) dvd_imp_le [OF d(1,2)] by linarith
  then have "(unat b + (?r - ?z)) div kalign k * kalign k = unat b" using b(1) by (intro round_back)
  ultimately have "unat (align_rounddown (obj_ctl k b - kc_size k) (2 ^ a)) = unat b"
    using unat_align_rounddown [OF a(1)] al by simp
  then show "bufctl_small_get_mem (obj_ctl k b) k = b"
    unfolding bufctl_small_get_mem_def a(2) by (rule word32_eqI)
qed

lemma objs_unat:
  assumes "place_ok k p ob" and "x \<in> set (objs k ob)"
  obtains i where "i < kcap k" "x = obj_at k ob i" "unat x = unat ob + i * kstride k"
    "unat ob + i * kstride k + kstride k \<le> unat p + 4096"
  using assms obj_at_unat [OF assms(1)] by (auto simp: objs_def)

lemma obj_facts:
  assumes k: "small_cache k" and p: "place_ok k p ob" and x: "x \<in> set (objs k ob)"
  shows "kalign k dvd unat x" "unat x + kstride k < 4294967296" "unat p + 20 \<le> unat x"
    "unat x + kstride k \<le> unat p + 4096"
proof -
  obtain i where i: "unat x = unat ob + i * kstride k" "unat ob + i * kstride k + kstride k \<le> unat p + 4096"
    using objs_unat [OF p x] by metis
  show "kalign k dvd unat x" unfolding i(1) using p small_cacheD(3) [OF k] by (simp add: place_ok_def)
  show "unat x + kstride k < 4294967296" using i p by (simp add: place_ok_def page_ok_def)
  show "unat p + 20 \<le> unat x" "unat x + kstride k \<le> unat p + 4096" using i p by (simp_all add: place_ok_def)
qed

lemma objs_distinct:
  assumes k: "small_cache k" and p: "place_ok k p ob"
  shows "distinct (objs k ob)" "inj_on (obj_ctl k) (set (objs k ob))" "length (objs k ob) = kcap k"
proof -
  have "obj_at k ob i \<noteq> obj_at k ob j" if "i < kcap k" "j < kcap k" "i \<noteq> j" for i j
  proof
    assume "obj_at k ob i = obj_at k ob j"
    then have "i * kstride k = j * kstride k" using obj_at_unat(1) [OF p] that by (metis add_left_cancel)
    then show False using small_cacheD(4) [OF k] that(3) by simp
  qed
  then show "distinct (objs k ob)" unfolding objs_def by (fastforce simp: distinct_map inj_on_def)
  show "inj_on (obj_ctl k) (set (objs k ob))"
    by (rule inj_on_inverseI [of _ "\<lambda>c. bufctl_small_get_mem c k"])
      (rule obj_ctl_ok(4) [OF k obj_facts(1,2) [OF k p]])
  show "length (objs k ob) = kcap k" by (simp add: objs_def)
qed

text \<open>Two objects of a slab do not overlap, list node included.\<close>

lemma objs_apart:
  assumes k: "small_cache k" and p: "place_ok k p ob" and x: "x \<in> set (objs k ob)" "y \<in> set (objs k ob)" "x \<noteq> y"
  shows "unat x + kstride k \<le> unat y \<or> unat y + kstride k \<le> unat x"
proof -
  obtain i where i: "x = obj_at k ob i" "unat x = unat ob + i * kstride k" using objs_unat [OF p x(1)] by metis
  obtain j where j: "y = obj_at k ob j" "unat y = unat ob + j * kstride k" using objs_unat [OF p x(2)] by metis
  have "i \<noteq> j" using i(1) j(1) x(3) by auto
  then consider "Suc i \<le> j" | "Suc j \<le> i" by linarith
  then show ?thesis
  proof cases
    case 1
    then have "Suc i * kstride k \<le> j * kstride k" by (rule mult_le_mono1)
    then show ?thesis using i j by simp
  next
    case 2
    then have "Suc j * kstride k \<le> i * kstride k" by (rule mult_le_mono1)
    then show ?thesis using i j by simp
  qed
qed

section \<open>The page of an address\<close>

definition page_of :: "addr \<Rightarrow> addr" where
  "page_of a = a AND (- PLATFORM_PAGE_SIZE)"

lemma page_of_eq:
  assumes "check_align p PLATFORM_PAGE_SIZE" and "unat p \<le> unat a" and "unat a < unat p + 4096"
  shows "page_of a = p"
proof -
  have "unat (page_of a) = unat a div 4096 * 4096" unfolding page_of_def page_rounddown(3) by (rule page_rounddown(1))
  moreover obtain q where q: "unat p = 4096 * q" using assms(1) by (auto simp: page_align_dvd)
  moreover have "unat a div 4096 = q" using assms(2,3) q by (intro div_nat_eqI) auto
  ultimately show ?thesis by (intro word32_eqI) simp
qed

lemma page_get_ok:
  assumes "check_align p PLATFORM_PAGE_SIZE" and "page_of a = p"
  shows "page_get_by_addr a = Inr p"
proof -
  have "4096 dvd unat p" using assms(1) by (simp add: page_align_dvd)
  then have "4 dvd unat p" using dvd_trans [of 4 4096 "unat p"] by simp
  then have "check_align p 4" using check_align_dvd [of 2 p] by simp
  then show ?thesis using assms(2) by (simp add: page_get_by_addr_def page_of_def Let_def)
qed

lemma obj_page:
  assumes k: "small_cache k" and p: "place_ok k p ob" and x: "x \<in> set (objs k ob)"
  shows "page_of x = p" "page_of (obj_ctl k x) = p" "unat p + 20 \<le> unat (obj_ctl k x)"
    "x \<noteq> NULL" "obj_ctl k x \<noteq> NULL"
proof -
  note f = obj_facts [OF k p x] and c = obj_ctl_ok(1,2) [OF k obj_facts(1,2) [OF k p x]]
  have al: "check_align p PLATFORM_PAGE_SIZE" "p \<noteq> NULL" using p by (simp_all add: place_ok_def page_ok_def)
  show "page_of x = p" "page_of (obj_ctl k x) = p"
    using f c small_cacheD(4) [OF k] by (auto intro!: page_of_eq [OF al(1)])
  show 1: "unat p + 20 \<le> unat (obj_ctl k x)" using f(3) c(1) by simp
  show "x \<noteq> NULL" using f(3) by (auto simp: unat_eq_0)
  show "obj_ctl k x \<noteq> NULL" using 1 by (auto simp: unat_eq_0)
qed

section \<open>A fresh slab\<close>

text \<open>Changing the links.\<close>

lemma on_links_ok [simp]: "f (kmm_links s) = Inr h \<Longrightarrow> on_links s f = Inr (s\<lparr>kmm_links := h\<rparr>)"
  by (simp add: on_links_def)

text \<open>A round of the loop puts one more object at the head of the slab's list.\<close>

definition ctor_calls :: "kmm_cache \<Rightarrow> addr list \<Rightarrow> (addr \<times> addr) list" where
  "ctor_calls k xs = (if kc_ctor k \<noteq> NULL then map (Pair (kc_ctor k)) xs else [])"

lemma create_step_ok:
  assumes k: "small_cache k" and x: "kalign k dvd unat x" "unat x + kstride k < 4294967296"
    and fs: "slist_rep (kmm_links s) (free_buffers b) fs" "obj_ctl k x \<notin> set (free_buffers b # fs)" "obj_ctl k x \<noteq> NULL"
  shows "\<exists>h. create_small_step s k b x = Inr (s\<lparr>kmm_links := h, kmm_calls := kmm_calls s @ ctor_calls k [x]\<rparr>) \<and>
    slist_rep h (free_buffers b) (obj_ctl k x # fs) \<and>
    (\<forall>q. q \<noteq> free_buffers b \<and> q \<noteq> obj_ctl k x \<longrightarrow> h q = kmm_links s q)"
proof -
  note c = obj_ctl_ok [OF k x]
  let ?c = "obj_ctl k x"
  have "unat (x + kc_stride k) = unat x + kstride k" using x(2) by (simp add: kstride_def unat_add32)
  then have lt: "?c < x + kc_stride k" using c(2) by (simp add: word_less_nat_alt)
  have n: "kmm_links s NULL = None" using slist_repD(1) [OF fs(1)] .
  obtain h1 where h1: "slist_init (kmm_links s) ?c = Inr h1" "\<And>q. q \<noteq> ?c \<Longrightarrow> h1 q = kmm_links s q"
    using fs(3) by (auto simp: slist_init_def)
  have n1: "h1 NULL = None" using h1(2) n fs(3) by simp
  have "\<forall>q \<in> set (free_buffers b # fs). h1 q = kmm_links s q" using h1(2) fs(2) by metis
  then have "slist_rep h1 (free_buffers b) fs" using slist_rep_frame [OF fs(1)] n1 by blast
  then obtain h2 where h2: "slist_insert h1 (last [free_buffers b]) ?c = Inr h2"
    "slist_rep h2 (free_buffers b) ([] @ ?c # fs)" "\<And>q. q \<noteq> last [free_buffers b] \<Longrightarrow> q \<noteq> ?c \<Longrightarrow> h2 q = h1 q"
    using slist_insert_rep [of h1 "free_buffers b" "[]" fs ?c] fs(2,3) by auto
  have "create_small_step s k b x = Inr (s\<lparr>kmm_links := h2, kmm_calls := kmm_calls s @ ctor_calls k [x]\<rparr>)"
    using c(3,4) lt h1(1) h2(1)
    by (simp add: create_small_step_def call_object_fn_def ctor_calls_def)
  then show ?thesis using h1(2) h2(2,3) by (intro exI [of _ h2]) auto
qed

declare create_small_loop.simps [simp del]

lemma obj_at_Suc: "obj_at k ob (Suc i) = obj_at k ob i + kc_stride k"
  by (simp add: obj_at_def kstride_def)

lemma create_loop_ok:
  assumes k: "small_cache k" and p: "place_ok k p ob" and b: "page_of (free_buffers b) = p" "unat (free_buffers b) < unat p + 20"
    and i: "unat i \<le> kcap k"
    and fs: "slist_rep (kmm_links s) (free_buffers b) (map (obj_ctl k) (rev (map (obj_at k ob) [0..<unat i])))"
  shows "\<exists>h. create_small_loop s k b i (obj_at k ob (unat i)) =
      Inr (s\<lparr>kmm_links := h, kmm_calls := kmm_calls s @ ctor_calls k (map (obj_at k ob) [unat i..<kcap k])\<rparr>) \<and>
    slist_rep h (free_buffers b) (map (obj_ctl k) (rev (objs k ob))) \<and>
    (\<forall>q. q \<noteq> free_buffers b \<and> q \<notin> obj_ctl k ` set (objs k ob) \<longrightarrow> h q = kmm_links s q)"
  using i fs
proof (induction "kcap k - unat i" arbitrary: s i)
  case 0
  then have "\<not> i < kc_slab_capacity k" "unat i = kcap k" by (simp_all add: kcap_def word_less_nat_alt)
  then have "create_small_loop s k b i (obj_at k ob (unat i)) = Inr s" by (subst create_small_loop.simps) simp
  then show ?case using 0 \<open>unat i = kcap k\<close>
    by (intro exI [of _ "kmm_links s"]) (simp add: objs_def ctor_calls_def)
next
  case (Suc n)
  then have lt: "i < kc_slab_capacity k" "unat i < kcap k" by (simp_all add: kcap_def word_less_nat_alt)
  note s1 = size_t_loop_measure [OF lt(1)]
  let ?x = "obj_at k ob (unat i)"
  have x: "?x \<in> set (objs k ob)" using lt(2) by (auto simp: objs_def)
  note f = obj_facts(1,2) [OF k p x]
  have dist: "distinct (map (obj_ctl k) (objs k ob))" using objs_distinct [OF k p] by (simp add: distinct_map)
  have up: "[0..<kcap k] = [0..<unat i] @ unat i # [Suc (unat i)..<kcap k]"
    using upt_add_eq_append [of 0 "unat i" "kcap k - unat i"] lt(2) by (simp add: upt_conv_Cons)
  have ctl: "obj_ctl k ?x \<notin> set (free_buffers b # map (obj_ctl k) (rev (map (obj_at k ob) [0..<unat i])))"
  proof -
    have "obj_ctl k ?x \<noteq> free_buffers b" using obj_page(3) [OF k p x] b(2) by auto
    then show ?thesis using dist unfolding objs_def up by auto
  qed
  obtain h where h: "create_small_step s k b ?x = Inr (s\<lparr>kmm_links := h, kmm_calls := kmm_calls s @ ctor_calls k [?x]\<rparr>)"
    "slist_rep h (free_buffers b) (obj_ctl k ?x # map (obj_ctl k) (rev (map (obj_at k ob) [0..<unat i])))"
    "\<forall>q. q \<noteq> free_buffers b \<and> q \<noteq> obj_ctl k ?x \<longrightarrow> h q = kmm_links s q"
    using create_step_ok [OF k f Suc.prems(2) ctl obj_page(5) [OF k p x]] by blast
  let ?s = "s\<lparr>kmm_links := h, kmm_calls := kmm_calls s @ ctor_calls k [?x]\<rparr>"
  have fs: "slist_rep (kmm_links ?s) (free_buffers b) (map (obj_ctl k) (rev (map (obj_at k ob) [0..<unat (i + 1)])))"
    using h(2) s1 by simp
  have "n = kcap k - unat (i + 1)" "unat (i + 1) \<le> kcap k" using Suc.hyps(2) s1 lt(2) by simp_all
  then obtain h2 where h2: "create_small_loop ?s k b (i + 1) (obj_at k ob (unat (i + 1))) =
      Inr (?s\<lparr>kmm_links := h2, kmm_calls := kmm_calls ?s @ ctor_calls k (map (obj_at k ob) [unat (i + 1)..<kcap k])\<rparr>)"
    "slist_rep h2 (free_buffers b) (map (obj_ctl k) (rev (objs k ob)))"
    "\<forall>q. q \<noteq> free_buffers b \<and> q \<notin> obj_ctl k ` set (objs k ob) \<longrightarrow> h2 q = kmm_links ?s q"
    using Suc.hyps(1) [of "i + 1" ?s] fs by blast
  have cc: "ctor_calls k [?x] @ ctor_calls k (map (obj_at k ob) [unat (i + 1)..<kcap k]) =
      ctor_calls k (map (obj_at k ob) [unat i..<kcap k])"
    using lt(2) s1 by (simp add: ctor_calls_def upt_conv_Cons)
  have "create_small_loop s k b i ?x = create_small_loop ?s k b (i + 1) (obj_at k ob (unat (i + 1)))"
    using lt(1) h(1) s1 by (subst create_small_loop.simps) (simp add: obj_at_Suc)
  then show ?case using h2 h(3) x cc by (intro exI [of _ h2]) auto
qed

definition slab_start :: "kmm_cache \<Rightarrow> addr \<Rightarrow> addr" where
  "slab_start k p = align_roundup (p + sizeof_page + sizeof_kmm_slab + kc_colour_next k) (kc_alignment k)"

lemma slab_start_ok:
  assumes k: "small_cache k" and p: "page_ok p"
  shows "place_ok k p (slab_start k p)"
    "p + PLATFORM_PAGE_SIZE - (slab_start k p + kc_slab_capacity k * kc_stride k) < kc_stride k"
proof -
  note d = small_cacheD [OF k]
  let ?col = "unat (kc_colour_next k)" and ?NS = "kcap k * kstride k"
  obtain a where a: "a < 32" "kc_alignment k = 2 ^ a" using k by (auto simp: small_cache_def)
  have al: "kalign k = 2 ^ a" using unat_pow2 [OF a(1)] a(2) by (simp add: kalign_def)
  have p3: "unat p + 4096 < 4294967296" "4096 dvd unat p" using p by (simp_all add: page_ok_def page_align_dvd)
  have cap0: "0 < kcap k" using k by (simp add: small_cache_def)
  have A: "kalign k \<le> ?NS" using dvd_imp_le [OF d(3,4)] cap0 mult_le_mono1 [of 1 "kcap k" "kstride k"] by linarith
  have col: "?col + ?NS \<le> 4076" using d(5,9) by linarith
  have u: "unat (p + sizeof_page + sizeof_kmm_slab + kc_colour_next k) = unat p + 20 + ?col"
    using p3 col by (simp add: unat_add32)
  let ?n = "unat p + 20 + ?col"
  have "?n + (kalign k - 1) < 4294967296" using p3 col A by linarith
  then have st: "unat (slab_start k p) = (?n + (kalign k - 1)) div kalign k * kalign k"
    using unat_align_roundup [OF a(1)] u unfolding slab_start_def a(2) al by simp
  have "kalign k dvd unat p + 4096 - ?NS"
    using dvd_trans [OF d(8) p3(2)] d(3,8) by (intro dvd_diff_nat dvd_add dvd_mult)
  then obtain m where m: "unat p + 4096 - ?NS = m * kalign k" by (auto simp: dvd_def mult.commute)
  have "?n \<le> m * kalign k" using col p3 unfolding m [symmetric] by linarith
  then have up: "unat (slab_start k p) \<le> unat p + 4096 - ?NS"
    unfolding st m using roundup_nat_least(3) d(2) by blast
  have low: "?n \<le> unat (slab_start k p)" unfolding st using roundup_nat_least(1) d(2) by blast
  have "kalign k dvd unat (slab_start k p)" unfolding st by simp
  then show "place_ok k p (slab_start k p)"
    using p low up col by (simp add: place_ok_def)
  have "unat (kc_slab_capacity k * kc_stride k) = ?NS"
    unfolding kcap_def kstride_def by (rule unat_mult32) (use d(5) in \<open>simp add: kcap_def kstride_def\<close>)
  moreover have "unat (slab_start k p) + ?NS \<le> unat p + 4096" using up col by linarith
  ultimately have e: "unat (slab_start k p + kc_slab_capacity k * kc_stride k) = unat (slab_start k p) + ?NS"
    "unat (slab_start k p) + ?NS \<le> unat p + 4096"
    using p3 by (simp_all add: unat_add32)
  have "unat (p + PLATFORM_PAGE_SIZE) = unat p + 4096" using p3 by (simp add: unat_add32 PLATFORM_PAGE_SIZE_def)
  then have "unat (p + PLATFORM_PAGE_SIZE - (slab_start k p + kc_slab_capacity k * kc_stride k)) =
      unat p + 4096 - (unat (slab_start k p) + ?NS)"
    using e by (subst unat_sub32) simp_all
  also have "\<dots> < kstride k" using low d(6) unfolding less_diff_conv2 [OF e(2)] by linarith
  finally show "p + PLATFORM_PAGE_SIZE - (slab_start k p + kc_slab_capacity k * kc_stride k) < kc_stride k"
    by (simp add: word_less_nat_alt kstride_def)
qed

lemma page_parts:
  assumes "page_ok p"
  shows "page_of (p + 4) = p" "page_of (free_buffers (p + 4)) = p" "unat (p + 4) = unat p + 4"
    "unat (free_buffers (p + 4)) = unat p + 8" "p + 4 \<noteq> NULL" "free_buffers (p + 4) \<noteq> NULL" "check_align (p + 4) 4"
proof -
  have p: "unat p + 4096 < 4294967296" "4096 dvd unat p" "check_align p PLATFORM_PAGE_SIZE"
    using assms by (simp_all add: page_ok_def page_align_dvd)
  show u: "unat (p + 4) = unat p + 4" "unat (free_buffers (p + 4)) = unat p + 8"
    using p by (simp_all add: unat_add32 free_buffers_def)
  show "page_of (p + 4) = p" "page_of (free_buffers (p + 4)) = p"
    using u by (auto intro!: page_of_eq [OF p(3)])
  show "p + 4 \<noteq> NULL" "free_buffers (p + 4) \<noteq> NULL" using u by (auto simp flip: unat_eq_0)
  have "4 dvd unat p" using dvd_trans [of 4 4096 "unat p"] p(2) by simp
  then have "2 ^ 2 dvd unat (p + 4)" unfolding u(1) by simp
  then show "check_align (p + 4) 4" using check_align_dvd [of 2 "p + 4"] by simp
qed

lemma slab_create_ok:
  assumes k: "small_cache k" "kmm_caches s c = Some k" "c \<noteq> NULL" and n: "kmm_links s NULL = None"
    and al: "ALLOC_PAGE_FN s (kmm_pages s) = Inr (p, q)" "page_ok p"
  shows "\<exists>h. slab_create_small s c (kc_colour_next k) = Inr (p + 4, s\<lparr>kmm_pages := q,
      page_owner := (page_owner s)(p \<mapsto> p + 4), kmm_slabs := (kmm_slabs s)(p + 4 \<mapsto> \<lparr>ks_page = p, ks_objects_inuse = 0\<rparr>),
      kmm_links := h, kmm_calls := kmm_calls s @ ctor_calls k (objs k (slab_start k p))\<rparr>) \<and>
    slist_rep h (free_buffers (p + 4)) (map (obj_ctl k) (rev (objs k (slab_start k p)))) \<and>
    h (p + 4) = Some NULL \<and> (\<forall>x. page_of x \<noteq> p \<longrightarrow> h x = kmm_links s x)"
proof -
  note st = slab_start_ok [OF k(1) al(2)] and pp = page_parts [OF al(2)]
  let ?b = "p + 4" and ?ob = "slab_start k p"
  let ?h1 = "(kmm_links s)(?b \<mapsto> NULL)"
  let ?h2 = "?h1(free_buffers ?b \<mapsto> NULL)"
  let ?s = "s\<lparr>kmm_pages := q, page_owner := (page_owner s)(p \<mapsto> ?b),
    kmm_slabs := (kmm_slabs s)(?b \<mapsto> \<lparr>ks_page = p, ks_objects_inuse = 0\<rparr>), kmm_links := ?h2\<rparr>"
  have "slist_rep (kmm_links ?s) (free_buffers ?b) (map (obj_ctl k) (rev (map (obj_at k ?ob) [0..<unat (0 :: size_t)])))"
    using n pp(5,6) by (simp add: slist_rep_def)
  then obtain h where h: "create_small_loop ?s k ?b 0 (obj_at k ?ob (unat (0 :: size_t))) = Inr (?s\<lparr>kmm_links := h,
      kmm_calls := kmm_calls ?s @ ctor_calls k (map (obj_at k ?ob) [unat (0 :: size_t)..<kcap k])\<rparr>)"
    "slist_rep h (free_buffers ?b) (map (obj_ctl k) (rev (objs k ?ob)))"
    "\<forall>x. x \<noteq> free_buffers ?b \<and> x \<notin> obj_ctl k ` set (objs k ?ob) \<longrightarrow> h x = kmm_links ?s x"
    using create_loop_ok [OF k(1) st(1) pp(2), of 0 ?s] pp(4) by auto
  have "check_align p PLATFORM_PAGE_SIZE" "p \<noteq> NULL" using al(2) by (simp_all add: page_ok_def)
  moreover have "align_roundup (?b + sizeof_kmm_slab + kc_colour_next k) (kc_alignment k) = ?ob" by (simp add: slab_start_def)
  ultimately have step: "slab_create_small s c (kc_colour_next k) = Inr (?b, ?s\<lparr>kmm_links := h,
      kmm_calls := kmm_calls s @ ctor_calls k (objs k ?ob)\<rparr>)"
    using k(2,3) al(1) pp(5,6,7) h(1) st(2)
    by (simp add: slab_create_small_def page_alloc_def cache_at_def put_slab_def slist_init_def obj_at_def objs_def Let_def
        del: create_small_loop.simps)
  have ctl: "page_of x = p \<and> x \<noteq> ?b" if "x \<in> obj_ctl k ` set (objs k ?ob)" for x
    using that obj_page(2,3) [OF k(1) st(1)] pp(3) by fastforce
  have "?b \<noteq> free_buffers ?b" by (simp add: free_buffers_def)
  moreover have "?b \<notin> obj_ctl k ` set (objs k ?ob)" using ctl by blast
  ultimately have b: "h ?b = Some NULL" using h(3) [rule_format, of ?b] by simp
  have "h x = kmm_links s x" if x: "page_of x \<noteq> p" for x
  proof -
    have "x \<noteq> free_buffers ?b" "x \<notin> obj_ctl k ` set (objs k ?ob)" "x \<noteq> ?b" using x ctl pp(1,2) by blast+
    then show ?thesis using h(3) [rule_format, of x] by simp
  qed
  then show ?thesis using step h(2) b by (intro exI [of _ h]) auto
qed

end
