(* ===== verification/Kmm_Cache.thy ===== *)
theory Kmm_Cache
  imports Kmm_Layout
begin

text \<open>
  The invariant of a cache of small objects: which slabs its three lists hold and which objects of each
  slab are free, and what allocating and freeing an object do to it.
\<close>

section \<open>The slabs of a cache\<close>

text \<open>A slab: its page, where its objects begin, and the free ones in the order they are handed out.\<close>

record slab_view =
  slab_page :: addr
  slab_base :: addr
  slab_free :: "addr list"

definition slab_addr :: "slab_view \<Rightarrow> addr" where "slab_addr v = slab_page v + 4"

datatype slab_list = Empty | Partial | Full

fun slab_head :: "addr \<Rightarrow> slab_list \<Rightarrow> addr" where
  "slab_head c Empty = slabs_empty c"
| "slab_head c Partial = slabs_partial c"
| "slab_head c Full = slabs_full c"

definition slab_rep :: "kmm_cache \<Rightarrow> 'p kmm_state \<Rightarrow> slab_view \<Rightarrow> bool" where
  "slab_rep k s v \<longleftrightarrow> place_ok k (slab_page v) (slab_base v) \<and> page_owner s (slab_page v) = Some (slab_addr v) \<and>
     kmm_slabs s (slab_addr v) =
       Some \<lparr>ks_page = slab_page v, ks_objects_inuse = of_nat (kcap k - length (slab_free v))\<rparr> \<and>
     slist_rep (kmm_links s) (free_buffers (slab_addr v)) (map (obj_ctl k) (slab_free v)) \<and>
     set (slab_free v) \<subseteq> set (objs k (slab_base v))"

definition cache_pre :: "'p kmm_state \<Rightarrow> addr \<Rightarrow> kmm_cache \<Rightarrow> (slab_list \<Rightarrow> slab_view list) \<Rightarrow> bool" where
  "cache_pre s c k L \<longleftrightarrow> cache_fits c \<and> kmm_caches s c = Some k \<and> small_cache k \<and>
     (\<forall>l. slist_rep (kmm_links s) (slab_head c l) (map slab_addr (L l))) \<and>
     (\<forall>l. \<forall>v \<in> set (L l). slab_rep k s v \<and> (\<forall>l'. slab_page v \<noteq> page_of (slab_head c l'))) \<and>
     (\<forall>l. distinct (map slab_page (L l))) \<and>
     (\<forall>l l' v w. l \<noteq> l' \<and> v \<in> set (L l) \<and> w \<in> set (L l') \<longrightarrow> slab_page v \<noteq> slab_page w)"

text \<open>A slab is in the list that its number of free objects asks for.\<close>

definition right_list :: "kmm_cache \<Rightarrow> slab_list \<Rightarrow> nat \<Rightarrow> bool" where
  "right_list k l n \<longleftrightarrow> (case l of Empty \<Rightarrow> n = kcap k | Partial \<Rightarrow> 0 < n \<and> n < kcap k | Full \<Rightarrow> n = 0)"

definition cache_rep :: "'p kmm_state \<Rightarrow> addr \<Rightarrow> kmm_cache \<Rightarrow> (slab_list \<Rightarrow> slab_view list) \<Rightarrow> bool" where
  "cache_rep s c k L \<longleftrightarrow> cache_pre s c k L \<and> (\<forall>l. \<forall>v \<in> set (L l). right_list k l (length (slab_free v)))"

text \<open>The objects that clients hold.\<close>

definition in_use :: "kmm_cache \<Rightarrow> (slab_list \<Rightarrow> slab_view list) \<Rightarrow> addr set" where
  "in_use k L = (\<Union>l. \<Union>v \<in> set (L l). set (objs k (slab_base v)) - set (slab_free v))"

lemma slab_addr_eq [simp]: "slab_addr v = slab_addr w \<longleftrightarrow> slab_page v = slab_page w"
  by (simp add: slab_addr_def)

lemma cache_preD:
  assumes "cache_pre s c k L"
  shows "cache_fits c" "kmm_caches s c = Some k" "small_cache k" "c \<noteq> NULL" "kmm_links s NULL = None"
    "slist_rep (kmm_links s) (slab_head c l) (map slab_addr (L l))"
    "v \<in> set (L l) \<Longrightarrow> slab_rep k s v" "v \<in> set (L l) \<Longrightarrow> slab_page v \<noteq> page_of (slab_head c l')"
    "distinct (map slab_page (L l))"
  using assms cache_nodes(1) [of c] slist_repD(1) by (auto simp: cache_pre_def)

lemma cache_pre_page:
  "cache_pre s c k L \<Longrightarrow> v \<in> set (L l) \<Longrightarrow> w \<in> set (L l') \<Longrightarrow> slab_page v = slab_page w \<Longrightarrow> l = l' \<and> v = w"
  unfolding cache_pre_def by (metis (no_types, lifting) distinct_map inj_onD)

lemma slab_rep_page:
  assumes "slab_rep k s v"
  shows "page_ok (slab_page v)" "page_of (slab_addr v) = slab_page v" "slab_addr v \<noteq> NULL"
    "page_of (free_buffers (slab_addr v)) = slab_page v" "free_buffers (slab_addr v) \<noteq> slab_addr v"
proof -
  show p: "page_ok (slab_page v)" using assms by (simp add: slab_rep_def place_ok_def)
  show "page_of (slab_addr v) = slab_page v" "slab_addr v \<noteq> NULL"
    "page_of (free_buffers (slab_addr v)) = slab_page v"
    using page_parts(1,2,5) [OF p] by (simp_all add: slab_addr_def)
  show "free_buffers (slab_addr v) \<noteq> slab_addr v" by (simp add: free_buffers_def)
qed

lemma slab_free_nodes:
  assumes "small_cache k" and "slab_rep k s v" and "q \<in> set (free_buffers (slab_addr v) # map (obj_ctl k) (slab_free v))"
  shows "page_of q = slab_page v" "q \<noteq> slab_addr v"
proof -
  note p = slab_rep_page [OF assms(2)]
  have pl: "place_ok k (slab_page v) (slab_base v)" "set (slab_free v) \<subseteq> set (objs k (slab_base v))"
    using assms(2) by (simp_all add: slab_rep_def)
  have u: "unat (slab_addr v) = unat (slab_page v) + 4" using page_parts(3) [OF p(1)] by (simp add: slab_addr_def)
  show "page_of q = slab_page v" "q \<noteq> slab_addr v"
    using assms(3) p(4,5) obj_page(2,3) [OF assms(1) pl(1)] pl(2) u by fastforce+
qed

text \<open>A change of links outside the slab's page, or of the slab's own node, leaves it alone.\<close>

lemma slab_rep_frame:
  assumes k: "small_cache k" and v: "slab_rep k s v"
    and h: "\<And>q. page_of q = slab_page v \<Longrightarrow> q \<noteq> slab_addr v \<Longrightarrow> kmm_links s' q = kmm_links s q" "kmm_links s' NULL = None"
    and r: "page_owner s' (slab_page v) = page_owner s (slab_page v)" "kmm_slabs s' (slab_addr v) = kmm_slabs s (slab_addr v)"
  shows "slab_rep k s' v"
proof -
  have "slist_rep (kmm_links s') (free_buffers (slab_addr v)) (map (obj_ctl k) (slab_free v))"
  proof (rule slist_rep_frame)
    show "slist_rep (kmm_links s) (free_buffers (slab_addr v)) (map (obj_ctl k) (slab_free v))"
      using v by (simp add: slab_rep_def)
    show "\<forall>q \<in> set (free_buffers (slab_addr v) # map (obj_ctl k) (slab_free v)). kmm_links s' q = kmm_links s q"
      using h(1) slab_free_nodes [OF k v] by blast
  qed (rule h(2))
  then show ?thesis using v r by (simp add: slab_rep_def)
qed

section \<open>Moving a slab from list to list\<close>

lemma slab_heads: "cache_fits c \<Longrightarrow> slab_head c l = slab_head c l' \<longleftrightarrow> l = l'"
  using cache_nodes [of c] by (cases l; cases l') auto

definition apart_slab :: "addr \<Rightarrow> (slab_list \<Rightarrow> slab_view list) \<Rightarrow> slab_list \<Rightarrow> slab_view \<Rightarrow> bool" where
  "apart_slab c L a v \<longleftrightarrow> (\<forall>l. slab_page v \<noteq> page_of (slab_head c l)) \<and>
     (\<forall>l w. l \<noteq> a \<and> w \<in> set (L l) \<longrightarrow> slab_page w \<noteq> slab_page v)"

lemma relink:
  assumes pre: "cache_pre s c k L" and v: "slab_rep k s v" "apart_slab c L a v"
    and xs: "set xs \<subseteq> insert v (set (L a))" "distinct (map slab_page xs)"
    and rep: "slist_rep h (slab_head c a) (map slab_addr xs)"
    and fr: "\<And>q. q \<notin> set (slab_head c a # slab_addr v # map slab_addr (L a)) \<Longrightarrow> h q = kmm_links s q"
  shows "cache_pre (s\<lparr>kmm_links := h\<rparr>) c k (L(a := xs))" "slab_rep k (s\<lparr>kmm_links := h\<rparr>) v"
proof -
  let ?s = "s\<lparr>kmm_links := h\<rparr>"
  note d = cache_preD [OF pre]
  have n: "h NULL = None" using slist_repD(1) [OF rep] .
  have keep: "slab_rep k ?s w" if w: "slab_rep k s w" "\<forall>l. slab_page w \<noteq> page_of (slab_head c l)" for w
  proof (rule slab_rep_frame [OF d(3) w(1)])
    show "kmm_links ?s q = kmm_links s q" if q: "page_of q = slab_page w" "q \<noteq> slab_addr w" for q
    proof -
      have "q \<noteq> slab_addr u" if "slab_rep k s u" for u
        using slab_rep_page(2) [OF that] q by (metis slab_addr_eq)
      then have "q \<noteq> slab_addr v" "\<forall>u \<in> set (L a). q \<noteq> slab_addr u" using v(1) d(7) by blast+
      moreover have "q \<noteq> slab_head c a" using q(1) w(2) by metis
      ultimately have "q \<notin> set (slab_head c a # slab_addr v # map slab_addr (L a))" by auto
      then show ?thesis using fr by simp
    qed
  qed (use n in simp_all)
  show "slab_rep k ?s v" using keep v by (simp add: apart_slab_def)
  have pg: "slab_addr w \<noteq> slab_head c l" if "slab_rep k s w" "\<forall>l. slab_page w \<noteq> page_of (slab_head c l)" for w l
    using slab_rep_page(2) [OF that(1)] that(2) by metis
  have lists: "slist_rep h (slab_head c l) (map slab_addr ((L(a := xs)) l))" for l
  proof (cases "l = a")
    case False
    have "slist_rep h (slab_head c l) (map slab_addr (L l))"
    proof (rule slist_rep_frame [where h = "kmm_links s"])
      have hd: "slab_head c l \<noteq> slab_head c a" using slab_heads [OF d(1)] False by simp
      have m: "slab_rep k s w \<and> (\<forall>l. slab_page w \<noteq> page_of (slab_head c l))" if "w \<in> insert v (set (L a) \<union> set (L l))" for w
        using that v d(7,8) unfolding apart_slab_def by blast
      have dp: "slab_addr w \<noteq> slab_addr u" if w: "w \<in> set (L l)" "u \<in> insert v (set (L a))" for w u
        using w v(2) False cache_pre_page [OF pre w(1)] unfolding apart_slab_def slab_addr_eq by blast
      have "slab_head c l \<notin> set (slab_head c a # slab_addr v # map slab_addr (L a))"
        using hd m pg by (auto simp del: slab_addr_eq) metis+
      moreover have "slab_addr w \<notin> set (slab_head c a # slab_addr v # map slab_addr (L a))" if w: "w \<in> set (L l)" for w
        using dp [OF w] m pg w by (auto simp del: slab_addr_eq)
      ultimately show "\<forall>q \<in> set (slab_head c l # map slab_addr (L l)). h q = kmm_links s q"
        using fr by auto
    qed (rule d(6), rule n)
    then show ?thesis using False by simp
  qed (use rep in simp)
  have mem: "slab_rep k ?s w \<and> (\<forall>l'. slab_page w \<noteq> page_of (slab_head c l'))" if "w \<in> set ((L(a := xs)) l)" for l w
    using that keep v xs(1) d(7,8) by (cases "l = a") (auto simp: apart_slab_def)
  have dis: "slab_page x \<noteq> slab_page y" if "l \<noteq> l'" "x \<in> set ((L(a := xs)) l)" "y \<in> set ((L(a := xs)) l')" for l l' x y
  proof -
    have m: "w = v \<and> l = a \<or> w \<in> set (L l)" if "w \<in> set ((L(a := xs)) l)" for w l
      using that xs(1) by (auto split: if_splits)
    show ?thesis using m [OF that(2)] m [OF that(3)] that(1) v(2) cache_pre_page [OF pre]
      unfolding apart_slab_def by metis
  qed
  have "distinct (map slab_page ((L(a := xs)) l))" for l using xs(2) d(9) by simp
  then show "cache_pre ?s c k (L(a := xs))"
    unfolding cache_pre_def using d(1-3) lists mem dis by (simp del: fun_upd_apply) blast
qed

lemma unlink_ok:
  assumes pre: "cache_pre s c k L" and v: "v \<in> set (L a)"
  obtains h where "slist_remove (kmm_links s) (slab_head c a) (slab_addr v) = Inr h"
    "cache_pre (s\<lparr>kmm_links := h\<rparr>) c k (L(a := remove1 v (L a)))" "slab_rep k (s\<lparr>kmm_links := h\<rparr>) v"
    "apart_slab c (L(a := remove1 v (L a))) b v"
proof -
  note d = cache_preD [OF pre]
  have inj: "inj_on slab_addr (set (L a))" using d(9) [of a] by (auto simp: distinct_map inj_on_def)
  have r: "remove1 (slab_addr v) (map slab_addr xs) = map slab_addr (remove1 v xs)" if "inj_on slab_addr (insert v (set xs))" for xs
    using that by (induction xs) (auto simp: inj_on_def)
  then have r1: "remove1 (slab_addr v) (map slab_addr (L a)) = map slab_addr (remove1 v (L a))"
    using inj v insert_absorb [OF v] by metis
  have dis: "distinct (L a)" "distinct (map slab_page (remove1 v (L a)))"
    using d(9) [of a] set_remove1_subset [of v "L a"] by (auto simp: distinct_map intro: inj_on_subset)
  obtain h where h: "slist_remove (kmm_links s) (slab_head c a) (slab_addr v) = Inr h"
    "slist_rep h (slab_head c a) (map slab_addr (remove1 v (L a)))"
    "\<And>q. q \<notin> set (slab_head c a # map slab_addr (remove1 v (L a))) \<Longrightarrow> h q = kmm_links s q"
    using slist_remove_rep [OF d(6), of "slab_addr v" a] v unfolding r1 by (metis image_eqI list.set_map)
  have ap: "apart_slab c L a v"
    unfolding apart_slab_def using d(8) [OF v] cache_pre_page [OF pre v] by metis
  have "slab_page w \<noteq> slab_page v" if "w \<in> set ((L(a := remove1 v (L a))) l)" for l w
  proof
    assume p: "slab_page w = slab_page v"
    have "w \<in> set (L l)" using that set_remove1_subset [of v "L a"] by (auto split: if_splits)
    then have "l = a" "w = v" using cache_pre_page [OF pre _ v p] by auto
    then show False using that dis(1) by simp
  qed
  then have "apart_slab c (L(a := remove1 v (L a))) b v" using ap unfolding apart_slab_def by blast
  moreover have "set (remove1 v (L a)) \<subseteq> insert v (set (L a))" using set_remove1_subset [of v "L a"] by auto
  moreover have "h q = kmm_links s q" if "q \<notin> set (slab_head c a # slab_addr v # map slab_addr (L a))" for q
    using that h(3) set_remove1_subset [of v "L a"] by auto
  ultimately show ?thesis using that h(1) relink [OF pre d(7) [OF v] ap _ dis(2) h(2)] by blast
qed

lemma slab_link_ok:
  assumes pre: "cache_pre s c k L" and v: "slab_rep k s v" "\<And>a. apart_slab c L a v"
  obtains h where "slist_insert (kmm_links s) (slab_head c b) (slab_addr v) = Inr h"
    "cache_pre (s\<lparr>kmm_links := h\<rparr>) c k (L(b := v # L b))"
    "\<And>q. q \<noteq> slab_head c b \<Longrightarrow> q \<noteq> slab_addr v \<Longrightarrow> h q = kmm_links s q"
proof -
  note d = cache_preD [OF pre]
  obtain b' where "b \<noteq> b'" by (cases b) auto
  then have new: "slab_page w \<noteq> slab_page v" if "w \<in> set (L b)" for w
    using v(2) [of b'] that unfolding apart_slab_def by blast
  have "slab_addr v \<noteq> slab_head c b" using slab_rep_page(2) [OF v(1)] v(2) [of b] unfolding apart_slab_def by metis
  moreover have "slab_addr w \<noteq> slab_addr v" if "w \<in> set (L b)" for w using new [OF that] by simp
  then have "slab_addr v \<notin> slab_addr ` set (L b)" by (metis imageE)
  ultimately have "slab_addr v \<notin> set (slab_head c b # [] @ map slab_addr (L b))" by (simp del: slab_addr_eq)
  then obtain h where h: "slist_insert (kmm_links s) (last [slab_head c b]) (slab_addr v) = Inr h"
    "slist_rep h (slab_head c b) ([] @ slab_addr v # map slab_addr (L b))"
    "\<And>q. q \<noteq> last [slab_head c b] \<Longrightarrow> q \<noteq> slab_addr v \<Longrightarrow> h q = kmm_links s q"
    using slist_insert_rep [of "kmm_links s" "slab_head c b" "[]" "map slab_addr (L b)" "slab_addr v"] d(6) [of b]
      slab_rep_page(3) [OF v(1)] by (metis append_Nil)
  have "slab_page v \<notin> slab_page ` set (L b)" using new by (metis imageE)
  then have "distinct (map slab_page (v # L b))" using d(9) [of b] by simp
  then show ?thesis using that h relink [OF pre v(1) v(2) [of b], of "v # L b" h] by auto
qed

section \<open>Taking an object from a slab and giving it back\<close>

definition set_free :: "(slab_list \<Rightarrow> slab_view list) \<Rightarrow> slab_view \<Rightarrow> addr list \<Rightarrow> slab_list \<Rightarrow> slab_view list" where
  "set_free L v fs l = map (\<lambda>w. if w = v then v\<lparr>slab_free := fs\<rparr> else w) (L l)"

lemma set_free_addrs [simp]:
  "map slab_page (set_free L v fs l) = map slab_page (L l)" "map slab_addr (set_free L v fs l) = map slab_addr (L l)"
  by (simp_all add: set_free_def slab_addr_def)

lemma set_free_mem: "w \<in> set (set_free L v fs l) \<longleftrightarrow> (\<exists>u \<in> set (L l). w = (if u = v then v\<lparr>slab_free := fs\<rparr> else u))"
  by (auto simp: set_free_def)

lemma slab_change:
  assumes pre: "cache_pre s c k L" and v: "v \<in> set (L a)"
    and new: "slab_rep k s' (v\<lparr>slab_free := fs\<rparr>)"
    and h: "\<And>q. page_of q \<noteq> slab_page v \<or> q = slab_addr v \<Longrightarrow> kmm_links s' q = kmm_links s q"
    and s: "kmm_caches s' = kmm_caches s" "page_owner s' = page_owner s"
      "\<And>b. b \<noteq> slab_addr v \<Longrightarrow> kmm_slabs s' b = kmm_slabs s b"
  shows "cache_pre s' c k (set_free L v fs)"
proof -
  note d = cache_preD [OF pre]
  have n: "kmm_links s' NULL = None"
    using new slist_repD(1) by (auto simp: slab_rep_def)
  have lists: "slist_rep (kmm_links s') (slab_head c l) (map slab_addr (L l))" for l
  proof (rule slist_rep_frame [where h = "kmm_links s"])
    have "kmm_links s' (slab_addr w) = kmm_links s (slab_addr w)" if "w \<in> set (L l)" for w
      using h [of "slab_addr w"] slab_rep_page(2) [OF d(7) [OF that]] by (metis slab_addr_eq)
    moreover have "kmm_links s' (slab_head c l) = kmm_links s (slab_head c l)"
      using h d(8) [OF v] by metis
    ultimately show "\<forall>q \<in> set (slab_head c l # map slab_addr (L l)). kmm_links s' q = kmm_links s q" by auto
  qed (rule d(6), rule n)
  have keep: "slab_rep k s' w" if w: "w \<in> set (L l)" "w \<noteq> v" for w l
  proof (rule slab_rep_frame [OF d(3) d(7) [OF w(1)]])
    have p: "slab_page w \<noteq> slab_page v" using cache_pre_page [OF pre w(1) v] w(2) by blast
    show "kmm_links s' q = kmm_links s q" if "page_of q = slab_page w" for q using h p that by simp
    show "kmm_slabs s' (slab_addr w) = kmm_slabs s (slab_addr w)" using s(3) p by simp
  qed (use n s in simp_all)
  have mem: "slab_rep k s' w \<and> (\<forall>l'. slab_page w \<noteq> page_of (slab_head c l'))" if w: "w \<in> set (set_free L v fs l)" for l w
  proof -
    obtain u where "u \<in> set (L l)" "w = (if u = v then v\<lparr>slab_free := fs\<rparr> else u)" using w unfolding set_free_mem by blast
    then show ?thesis using keep new d(8) by (cases "u = v") auto
  qed
  have dis: "slab_page x \<noteq> slab_page y" if "l \<noteq> l'" "x \<in> set (set_free L v fs l)" "y \<in> set (set_free L v fs l')" for l l' x y
  proof -
    have "\<exists>u \<in> set (L l). slab_page w = slab_page u" if "w \<in> set (set_free L v fs l)" for w l
      using that by (auto simp: set_free_mem)
    then show ?thesis using that cache_pre_page [OF pre] by metis
  qed
  show ?thesis
    unfolding cache_pre_def using d(1-3,9) s(1) lists mem dis by (simp del: not_all) blast
qed

lemma slab_room:
  assumes k: "small_cache k" and v: "slab_rep k s v"
  shows "distinct (slab_free v)" "length (slab_free v) \<le> kcap k" "distinct (map (obj_ctl k) (slab_free v))"
proof -
  have p: "place_ok k (slab_page v) (slab_base v)" "set (slab_free v) \<subseteq> set (objs k (slab_base v))"
    using v by (simp_all add: slab_rep_def)
  show "distinct (map (obj_ctl k) (slab_free v))"
    using v slist_repD(4) unfolding slab_rep_def by fastforce
  then show f: "distinct (slab_free v)" by (simp add: distinct_map)
  show "length (slab_free v) \<le> kcap k"
    using card_mono [OF _ p(2)] distinct_card [OF f] objs_distinct(1,3) [OF k p(1)] distinct_card by fastforce
qed

lemma object_alloc_ok:
  assumes pre: "cache_pre s c k L" and v: "v \<in> set (L a)" and f: "slab_free v = f # fs"
  shows "\<exists>h. object_alloc fr s (slab_addr v) c = Inr (f, s\<lparr>kmm_links := h, kmm_slabs := (kmm_slabs s)(slab_addr v \<mapsto>
      \<lparr>ks_page = slab_page v, ks_objects_inuse = of_nat (kcap k - length fs)\<rparr>)\<rparr>) \<and>
    cache_pre (s\<lparr>kmm_links := h, kmm_slabs := (kmm_slabs s)(slab_addr v \<mapsto>
      \<lparr>ks_page = slab_page v, ks_objects_inuse = of_nat (kcap k - length fs)\<rparr>)\<rparr>) c k (set_free L v fs) \<and>
    f \<noteq> NULL \<and> f \<in> set (objs k (slab_base v)) \<and> f \<notin> set fs"
proof -
  note d = cache_preD [OF pre]
  have r: "slab_rep k s v" using d(7) [OF v] .
  note pg = slab_rep_page [OF r] and rm = slab_room [OF d(3) r]
  have pl: "place_ok k (slab_page v) (slab_base v)" "set (f # fs) \<subseteq> set (objs k (slab_base v))" "page_owner s (slab_page v) = Some (slab_addr v)"
    "kmm_slabs s (slab_addr v) = Some \<lparr>ks_page = slab_page v, ks_objects_inuse = of_nat (kcap k - length (f # fs))\<rparr>"
    "slist_rep (kmm_links s) (free_buffers (slab_addr v)) (obj_ctl k f # map (obj_ctl k) fs)"
    using r f by (simp_all add: slab_rep_def)
  let ?fb = "free_buffers (slab_addr v)"
  have fo: "f \<in> set (objs k (slab_base v))" using pl(2) by simp
  obtain h where h: "slist_remove (kmm_links s) ?fb (obj_ctl k f) = Inr h" "slist_rep h ?fb (map (obj_ctl k) fs)"
    "\<And>q. q \<notin> set (?fb # map (obj_ctl k) fs) \<Longrightarrow> h q = kmm_links s q"
    using slist_remove_rep [OF pl(5), of "obj_ctl k f"] by auto
  let ?r = "\<lparr>ks_page = slab_page v, ks_objects_inuse = of_nat (kcap k - length fs)\<rparr>"
  let ?s = "s\<lparr>kmm_links := h, kmm_slabs := (kmm_slabs s)(slab_addr v \<mapsto> ?r)\<rparr>"
  have "Suc (length fs) \<le> kcap k" using rm(2) f by simp
  then have "kcap k - length fs = Suc (kcap k - length (f # fs))" by simp
  then have cnt: "(of_nat (kcap k - length (f # fs)) :: size_t) + 1 = of_nat (kcap k - length fs)" by simp
  have m: "bufctl_small_get_mem (obj_ctl k f) k = f" using obj_ctl_ok(4) [OF d(3) obj_facts(1,2) [OF d(3) pl(1) fo]] .
  have sm: "\<not> is_large k" using d(3) by (simp add: small_cache_def)
  have nn: "?fb \<noteq> NULL" using slist_repD(2) [OF pl(5)] .
  have step: "object_alloc fr s (slab_addr v) c = Inr (f, ?s)"
    using slist_is_empty_rep [OF pl(5)] sl.nxt_law [OF pl(5)] h(1) d(2) pg(3) pl(4) sm m cnt
    by (simp add: object_alloc_def cache_at_def bufctl_mem_def slab_at_def put_slab_def)
  have nodes: "page_of q = slab_page v \<and> q \<noteq> slab_addr v" if "q \<in> set (?fb # map (obj_ctl k) fs)" for q
    using slab_free_nodes [OF d(3) r, of q] that f by auto
  have "slab_rep k ?s (v\<lparr>slab_free := fs\<rparr>)"
    using pl h(2) by (simp add: slab_rep_def slab_addr_def)
  then have "cache_pre ?s c k (set_free L v fs)"
    by (rule slab_change [OF pre v]) (use h(3) nodes in \<open>auto simp del: set_simps\<close>)
  moreover have "f \<noteq> NULL" using obj_page(4) [OF d(3) pl(1) fo] .
  moreover have "f \<notin> set fs" using rm(1) f by simp
  ultimately show ?thesis using step fo by (intro exI [of _ h]) simp
qed

section \<open>The slab to take from\<close>

definition slab_set :: "(slab_list \<Rightarrow> slab_view list) \<Rightarrow> slab_view set" where
  "slab_set L = (\<Union>l. set (L l))"

lemma in_use_set: "in_use k L = (\<Union>v \<in> slab_set L. set (objs k (slab_base v)) - set (slab_free v))"
  by (auto simp: in_use_def slab_set_def)

lemma slab_setI [intro]: "v \<in> set (L l) \<Longrightarrow> v \<in> slab_set L"
  by (auto simp: slab_set_def)

text \<open>\<open>moved L v a b L'\<close>: \<open>L'\<close> is \<open>L\<close> but for \<open>v\<close>, which went from the list \<open>a\<close> to the list \<open>b\<close>.\<close>

definition moved :: "(slab_list \<Rightarrow> slab_view list) \<Rightarrow> slab_view \<Rightarrow> slab_list \<Rightarrow> slab_list \<Rightarrow>
    (slab_list \<Rightarrow> slab_view list) \<Rightarrow> bool" where
  "moved L v a b L' \<longleftrightarrow> v \<in> set (L a) \<and> v \<in> set (L' b) \<and>
     (\<forall>l w. w \<noteq> v \<longrightarrow> w \<in> set (L' l) \<longleftrightarrow> w \<in> set (L l)) \<and> (\<forall>l. v \<in> set (L' l) \<longrightarrow> l = b)"

lemma moved_set:
  assumes "moved L v a b L'"
  shows "slab_set L' = slab_set L"
proof -
  have v: "v \<in> slab_set L'" "v \<in> slab_set L" using assms by (auto simp: moved_def)
  have "w \<in> slab_set L' \<longleftrightarrow> w \<in> slab_set L" if "w \<noteq> v" for w
    using assms that by (simp add: moved_def slab_set_def)
  then show ?thesis using v by (intro set_eqI) metis
qed

lemma move_ok:
  assumes pre: "cache_pre s c k L" and v: "v \<in> set (L a)" and ab: "a \<noteq> b"
  shows "\<exists>h1 h2 L'. slist_remove (kmm_links s) (slab_head c a) (slab_addr v) = Inr h1 \<and>
    slist_insert h1 (slab_head c b) (slab_addr v) = Inr h2 \<and> cache_pre (s\<lparr>kmm_links := h2\<rparr>) c k L' \<and> moved L v a b L'"
proof -
  let ?L1 = "L(a := remove1 v (L a))"
  let ?L2 = "?L1(b := v # ?L1 b)"
  obtain h1 where h1: "slist_remove (kmm_links s) (slab_head c a) (slab_addr v) = Inr h1"
    "cache_pre (s\<lparr>kmm_links := h1\<rparr>) c k ?L1" "slab_rep k (s\<lparr>kmm_links := h1\<rparr>) v"
    "\<And>l. apart_slab c ?L1 l v"
    using unlink_ok [OF pre v] by metis
  obtain h2 where h2: "slist_insert (kmm_links (s\<lparr>kmm_links := h1\<rparr>)) (slab_head c b) (slab_addr v) = Inr h2"
    "cache_pre ((s\<lparr>kmm_links := h1\<rparr>)\<lparr>kmm_links := h2\<rparr>) c k ?L2"
    using slab_link_ok [OF h1(2,3,4)] by metis
  have d: "distinct (L a)" using cache_preD(9) [OF pre] by (simp add: distinct_map)
  have "v \<notin> set (L l)" if "l \<noteq> a" for l using cache_pre_page [OF pre v] that by blast
  then have "moved L v a b ?L2" using v d ab by (auto simp: moved_def)
  then show ?thesis using h1(1) h2 by (intro exI [of _ h1] exI [of _ h2] exI [of _ ?L2]) simp
qed

lemma moved_refl: "cache_pre s c k L \<Longrightarrow> v \<in> set (L a) \<Longrightarrow> moved L v a a L"
  unfolding moved_def using cache_pre_page by blast

lemma inuse_unat: "i \<le> kcap k \<Longrightarrow> unat (of_nat i :: size_t) = i"
  using unat_lt32 [of "kc_slab_capacity k"] unfolding kcap_def by (intro unat_of_nat32) linarith

lemma inuse_full: "i \<le> kcap k \<Longrightarrow> (of_nat i :: size_t) = kc_slab_capacity k \<longleftrightarrow> i = kcap k"
  using inuse_unat [of i k] word32_eqI [of "of_nat i" "kc_slab_capacity k"] by (auto simp: kcap_def)

text \<open>Where the slab goes, by the number of objects that were free in it.\<close>

lemma find_existing_ok:
  assumes rep: "cache_rep s c k L"
  shows "if L Partial = [] \<and> L Empty = [] then find_existing_slab s c = Inr (NULL, s)
    else \<exists>h L' v a b. find_existing_slab s c = Inr (slab_addr v, s\<lparr>kmm_links := h\<rparr>) \<and>
      cache_pre (s\<lparr>kmm_links := h\<rparr>) c k L' \<and> moved L v a b L' \<and>
      (if a = Partial then b = (if length (slab_free v) = 1 then Full else Partial) else a = Empty \<and> b = Partial)"
proof -
  have pre: "cache_pre s c k L" using rep by (simp add: cache_rep_def)
  note d = cache_preD [OF pre]
  note ne = slist_is_empty_rep [OF d(6)]
  have em: "slist_is_empty (kmm_links s) (slabs_partial c) = Inr (L Partial = [])"
    "slist_is_empty (kmm_links s) (slabs_empty c) = Inr (L Empty = [])"
    using ne [of Partial] ne [of Empty] by simp_all
  have nx: "slist_next (kmm_links s) (slab_head c l) = Inr (slab_addr v)" if "L l = v # vs" for l v vs
    using sl.nxt_law [OF d(6) [of l]] that by simp
  show ?thesis
  proof (cases "L Partial")
    case (Cons v vs)
    then have v: "v \<in> set (L Partial)" by simp
    have r: "slab_rep k s v" using d(7) [OF v] .
    have n: "0 < length (slab_free v)" "length (slab_free v) < kcap k"
      using rep v by (auto simp: cache_rep_def right_list_def dest!: spec [of _ Partial])
    have "(of_nat (kcap k - length (slab_free v)) + 1 :: size_t) = of_nat (Suc (kcap k - length (slab_free v)))" by simp
    also have "\<dots> = kc_slab_capacity k \<longleftrightarrow> Suc (kcap k - length (slab_free v)) = kcap k"
      by (rule inuse_full) (use n in linarith)
    finally have full: "of_nat (kcap k - length (slab_free v)) + 1 = kc_slab_capacity k \<longleftrightarrow> length (slab_free v) = 1"
      using n by auto
    show ?thesis
    proof (cases "length (slab_free v) = 1")
      case True
      obtain h1 h2 L' where m: "slist_remove (kmm_links s) (slab_head c Partial) (slab_addr v) = Inr h1"
        "slist_insert h1 (slab_head c Full) (slab_addr v) = Inr h2" "cache_pre (s\<lparr>kmm_links := h2\<rparr>) c k L'"
        "moved L v Partial Full L'" using move_ok [OF pre v, of Full] by auto
      have "find_existing_slab s c = Inr (slab_addr v, s\<lparr>kmm_links := h2\<rparr>)"
        using em Cons nx [OF Cons] r d(2,4) full True m(1,2)
        by (simp add: find_existing_slab_def slab_at_def cache_at_def slab_rep_def)
      then show ?thesis using Cons m(3,4) True
        by (simp, intro exI [of _ h2] exI [of _ L'] exI [of _ v] exI [of _ Partial]) auto
    next
      case False
      have "find_existing_slab s c = Inr (slab_addr v, s)"
        using em Cons nx [OF Cons] r d(2,4) full False
        by (simp add: find_existing_slab_def slab_at_def cache_at_def slab_rep_def)
      then show ?thesis using Cons False pre moved_refl [OF pre v]
        by (simp, intro exI [of _ "kmm_links s"] exI [of _ L] exI [of _ v] exI [of _ Partial]) auto
    qed
  next
    case Nil
    show ?thesis
    proof (cases "L Empty")
      case e: Nil
      then show ?thesis using Nil em d(4) by (simp add: find_existing_slab_def)
    next
      case (Cons v vs)
      then have v: "v \<in> set (L Empty)" by simp
      obtain h1 h2 L' where m: "slist_remove (kmm_links s) (slab_head c Empty) (slab_addr v) = Inr h1"
        "slist_insert h1 (slab_head c Partial) (slab_addr v) = Inr h2" "cache_pre (s\<lparr>kmm_links := h2\<rparr>) c k L'"
        "moved L v Empty Partial L'" using move_ok [OF pre v, of Partial] by auto
      have "find_existing_slab s c = Inr (slab_addr v, s\<lparr>kmm_links := h2\<rparr>)"
        using em Nil Cons nx [OF Cons] d(4) m(1,2) by (simp add: find_existing_slab_def)
      then show ?thesis using Cons m(3,4)
        by (simp, intro exI [of _ h2] exI [of _ L'] exI [of _ v] exI [of _ Empty] exI [of _ Partial]) auto
    qed
  qed
qed

end
