(* ===== verification/Kmm_Spec.thy ===== *)
theory Kmm_Spec
  imports Kmm_Cache
begin

text \<open>
  What a cache of small objects promises: \<open>kmm_cache_alloc\<close> hands out an object that is not in use and
  overlaps none that is, \<open>kmm_cache_free\<close> takes it back, and the lists stay in order; and what goes wrong
  when only one object fits in a slab.
\<close>

section \<open>Allocation\<close>

text \<open>The pages a cache owns, and the page supply it draws on.\<close>

definition slab_pages :: "(slab_list \<Rightarrow> slab_view list) \<Rightarrow> addr set" where
  "slab_pages L = slab_page ` slab_set L"

definition page_source :: "'p kmm_state \<Rightarrow> ('p \<Rightarrow> (addr \<times> 'p) kres) \<times> 'p" where
  "page_source s = (ALLOC_PAGE_FN s, kmm_pages s)"

lemma set_free_pages [simp]: "slab_pages (set_free L v fs) = slab_pages L"
proof -
  have "slab_page ` set (set_free L v fs l) = slab_page ` set (L l)" for l
    unfolding set_map [symmetric] set_free_addrs ..
  then show ?thesis by (simp add: slab_pages_def slab_set_def image_UN)
qed

lemma in_use_split:
  assumes "v \<in> set (L a)"
  shows "(\<Union>w \<in> slab_set (set_free L v fs). set (objs k (slab_base w)) - set (slab_free w)) =
      (set (objs k (slab_base v)) - set fs) \<union> (\<Union>w \<in> slab_set L - {v}. set (objs k (slab_base w)) - set (slab_free w))"
    "(\<Union>w \<in> slab_set L. set (objs k (slab_base w)) - set (slab_free w)) =
      (set (objs k (slab_base v)) - set (slab_free v)) \<union> (\<Union>w \<in> slab_set L - {v}. set (objs k (slab_base w)) - set (slab_free w))"
proof -
  let ?g = "\<lambda>u. if u = v then v\<lparr>slab_free := fs\<rparr> else u"
  have s: "slab_set L = insert v (slab_set L - {v})" using assms by auto
  have "slab_set (set_free L v fs) = ?g ` slab_set L" unfolding slab_set_def set_free_def by auto
  also have "\<dots> = insert (?g v) (?g ` (slab_set L - {v}))" by (subst s) (rule image_insert)
  also have "?g ` (slab_set L - {v}) = slab_set L - {v}" by (rule image_cong [THEN trans, OF refl _ image_ident]) simp
  finally show "(\<Union>w \<in> slab_set (set_free L v fs). set (objs k (slab_base w)) - set (slab_free w)) =
      (set (objs k (slab_base v)) - set fs) \<union> (\<Union>w \<in> slab_set L - {v}. set (objs k (slab_base w)) - set (slab_free w))"
    by simp
  show "(\<Union>w \<in> slab_set L. set (objs k (slab_base w)) - set (slab_free w)) =
      (set (objs k (slab_base v)) - set (slab_free v)) \<union> (\<Union>w \<in> slab_set L - {v}. set (objs k (slab_base w)) - set (slab_free w))"
    by (subst s) (rule UN_insert)
qed

lemma in_use_take:
  assumes pre: "cache_pre s c k L" and v: "v \<in> set (L a)" and f: "slab_free v = f # fs"
    and fo: "f \<in> set (objs k (slab_base v))" "f \<notin> set fs"
  shows "in_use k (set_free L v fs) = insert f (in_use k L)" "f \<notin> in_use k L"
proof -
  note d = cache_preD [OF pre]
  show "in_use k (set_free L v fs) = insert f (in_use k L)"
    unfolding in_use_set in_use_split(1) [where L = L and v = v and a = a, OF v]
      in_use_split(2) [where L = L and v = v and a = a, OF v] using f fo by auto
  show "f \<notin> in_use k L"
  proof
    assume "f \<in> in_use k L"
    then obtain w l where w: "w \<in> set (L l)" "f \<in> set (objs k (slab_base w))" "f \<notin> set (slab_free w)"
      by (auto simp: in_use_def)
    have "page_of f = slab_page w" "page_of f = slab_page v"
      using obj_page(1) [OF d(3)] d(7) [OF w(1)] d(7) [OF v] w(2) fo(1) by (auto simp: slab_rep_def)
    then have "w = v" using cache_pre_page [OF pre w(1) v] by simp
    then show False using w(3) f by simp
  qed
qed

text \<open>Objects of a cache that are not the same do not overlap.\<close>

lemma cache_objs_apart:
  assumes pre: "cache_pre s c k L" and v: "v \<in> set (L a)" "w \<in> set (L b)"
    and x: "x \<in> set (objs k (slab_base v))" "y \<in> set (objs k (slab_base w))" "x \<noteq> y"
  shows "unat x + kstride k \<le> unat y \<or> unat y + kstride k \<le> unat x"
proof (cases "v = w")
  case True
  then show ?thesis
    using objs_apart [OF cache_preD(3) [OF pre] _ x(1) _ x(3)] cache_preD(7) [OF pre v(1)] x(2) by (auto simp: slab_rep_def)
next
  case False
  note d = cache_preD [OF pre]
  have pl: "place_ok k (slab_page v) (slab_base v)" "place_ok k (slab_page w) (slab_base w)"
    using d(7) v by (auto simp: slab_rep_def)
  have ne: "slab_page v \<noteq> slab_page w" using cache_pre_page [OF pre v] False by blast
  obtain p q where pq: "unat (slab_page v) = 4096 * p" "unat (slab_page w) = 4096 * q"
    using pl by (auto simp: place_ok_def page_ok_def page_align_dvd elim!: dvdE)
  have "p \<noteq> q" using ne pq word32_eqI by metis
  then consider "p + 1 \<le> q" | "q + 1 \<le> p" by linarith
  then show ?thesis
    using obj_facts(3,4) [OF d(3) pl(1) x(1)] obj_facts(3,4) [OF d(3) pl(2) x(2)] pq by cases linarith+
qed

lemma right_list_less: "0 < n \<Longrightarrow> n < kcap k \<Longrightarrow> right_list k (if n = 1 then Full else Partial) (n - 1)"
  by (auto simp: right_list_def)

lemma object_alloc_rep:
  assumes pre: "cache_pre s c k L" and v: "v \<in> set (L b)" "0 < length (slab_free v)" "right_list k b (length (slab_free v) - 1)"
    and other: "\<And>l w. w \<in> set (L l) \<Longrightarrow> w \<noteq> v \<Longrightarrow> right_list k l (length (slab_free w))"
  shows "\<exists>m s' L'. object_alloc fr s (slab_addr v) c = Inr (m, s') \<and> m \<noteq> NULL \<and> cache_rep s' c k L' \<and>
    m \<notin> in_use k L \<and> in_use k L' = insert m (in_use k L) \<and> slab_pages L' = slab_pages L \<and> page_source s' = page_source s"
proof -
  obtain f fs where f: "slab_free v = f # fs" using v(2) by (cases "slab_free v") auto
  obtain h s2 where oa: "object_alloc fr s (slab_addr v) c = Inr (f, s2)"
    "s2 = s\<lparr>kmm_links := h, kmm_slabs := (kmm_slabs s)(slab_addr v \<mapsto>
      \<lparr>ks_page = slab_page v, ks_objects_inuse = of_nat (kcap k - length fs)\<rparr>)\<rparr>"
    "cache_pre s2 c k (set_free L v fs)" "f \<noteq> NULL" "f \<in> set (objs k (slab_base v))" "f \<notin> set fs"
    using object_alloc_ok [OF pre v(1) f] by blast
  have "right_list k l (length (slab_free w))" if w: "w \<in> set (set_free L v fs l)" for w l
  proof -
    obtain u where u: "u \<in> set (L l)" "w = (if u = v then v\<lparr>slab_free := fs\<rparr> else u)"
      using w unfolding set_free_mem by blast
    show ?thesis
    proof (cases "u = v")
      case True
      then have "l = b" using cache_pre_page [OF pre _ v(1)] u(1) by blast
      then show ?thesis using True u(2) v(3) f by simp
    qed (use u other in simp)
  qed
  then have "cache_rep s2 c k (set_free L v fs)" using oa(3) by (simp add: cache_rep_def)
  then show ?thesis using oa(1,2,4) in_use_take [OF pre v(1) f oa(5,6)]
    by (intro exI [of _ f] exI [of _ s2] exI [of _ "set_free L v fs"]) (simp add: page_source_def)
qed

lemma alloc_from_list:
  assumes rep: "cache_rep s c k L" and one: "1 < kcap k" and some: "L Partial \<noteq> [] \<or> L Empty \<noteq> []"
  shows "\<exists>m s' L'. cache_alloc_with al fr s c = Inr (m, s') \<and> m \<noteq> NULL \<and> cache_rep s' c k L' \<and>
    m \<notin> in_use k L \<and> in_use k L' = insert m (in_use k L) \<and> slab_pages L' = slab_pages L \<and> page_source s' = page_source s"
proof -
  obtain h L1 v a b where fe: "find_existing_slab s c = Inr (slab_addr v, s\<lparr>kmm_links := h\<rparr>)"
    "cache_pre (s\<lparr>kmm_links := h\<rparr>) c k L1" "moved L v a b L1"
    "if a = Partial then b = (if length (slab_free v) = 1 then Full else Partial) else a = Empty \<and> b = Partial"
    using find_existing_ok [OF rep] some by auto
  note d = cache_preD [OF fe(2)]
  have v: "v \<in> set (L a)" "v \<in> set (L1 b)" using fe(3) by (auto simp: moved_def)
  have n: "right_list k a (length (slab_free v))" using rep v(1) by (auto simp: cache_rep_def)
  have n0: "0 < length (slab_free v) \<and> right_list k b (length (slab_free v) - 1)"
  proof (cases "a = Partial")
    case True
    then have "0 < length (slab_free v)" "length (slab_free v) < kcap k" "b = (if length (slab_free v) = 1 then Full else Partial)"
      using n fe(4) by (simp_all add: right_list_def)
    then show ?thesis using right_list_less by metis
  next
    case False
    then show ?thesis using n fe(4) one by (simp add: right_list_def)
  qed
  have "right_list k l (length (slab_free w))" if "w \<in> set (L1 l)" "w \<noteq> v" for l w
  proof -
    have "w \<in> set (L l)" using fe(3) that by (auto simp: moved_def)
    then show ?thesis using rep by (auto simp: cache_rep_def)
  qed
  then obtain m s' L' where oa: "object_alloc fr (s\<lparr>kmm_links := h\<rparr>) (slab_addr v) c = Inr (m, s')" "m \<noteq> NULL"
    "cache_rep s' c k L'" "m \<notin> in_use k L1" "in_use k L' = insert m (in_use k L1)" "slab_pages L' = slab_pages L1" "page_source s' = page_source s"
    using object_alloc_rep [OF fe(2) v(2), of fr] n0 by (fastforce simp: page_source_def)
  have "slab_addr v \<noteq> NULL" using slab_rep_page(3) [OF d(7) [OF v(2)]] .
  then have "cache_alloc_with al fr s c = Inr (m, s')"
    using fe(1) oa(1,2) d(4) by (simp add: cache_alloc_with_def)
  moreover have "in_use k L1 = in_use k L" unfolding in_use_set moved_set [OF fe(3)] ..
  moreover have "slab_pages L1 = slab_pages L" unfolding slab_pages_def moved_set [OF fe(3)] ..
  ultimately show ?thesis using oa by (intro exI [of _ m] exI [of _ s'] exI [of _ L']) simp
qed

section \<open>A new slab\<close>

text \<open>The colour does not change where the objects of a slab are.\<close>

definition next_colour :: "kmm_cache \<Rightarrow> kmm_cache" where
  "next_colour k = k\<lparr>kc_colour_next := (if kc_colour_next k + kc_colour_off k \<ge> kc_colour_max k then 0
     else kc_colour_next k + kc_colour_off k)\<rparr>"

lemma next_colour_same [simp]:
  "kcap (next_colour k) = kcap k" "kstride (next_colour k) = kstride k" "kalign (next_colour k) = kalign k"
  "kc_size (next_colour k) = kc_size k" "obj_ctl (next_colour k) = obj_ctl k" "objs (next_colour k) = objs k"
  "place_ok (next_colour k) = place_ok k" "right_list (next_colour k) = right_list k"
  "is_large (next_colour k) = is_large k" "kc_slab_capacity (next_colour k) = kc_slab_capacity k"
  "slab_rep (next_colour k) = slab_rep k" "in_use (next_colour k) = in_use k"
  "small_cache k \<Longrightarrow> small_cache (next_colour k)"
proof -
  show s: "kcap (next_colour k) = kcap k" "kstride (next_colour k) = kstride k" "kalign (next_colour k) = kalign k"
    "kc_size (next_colour k) = kc_size k" "obj_ctl (next_colour k) = obj_ctl k"
    "is_large (next_colour k) = is_large k" "kc_slab_capacity (next_colour k) = kc_slab_capacity k"
    by (simp_all add: next_colour_def kcap_def kstride_def kalign_def obj_ctl_def is_large_def fun_eq_iff)
  have o: "obj_at (next_colour k) ob i = obj_at k ob i" for ob i by (simp add: obj_at_def s)
  show o2: "objs (next_colour k) = objs k" by (simp add: objs_def s o fun_eq_iff)
  show p: "place_ok (next_colour k) = place_ok k" by (simp add: place_ok_def s fun_eq_iff)
  show "right_list (next_colour k) = right_list k" by (simp add: right_list_def s fun_eq_iff split: slab_list.split)
  show "slab_rep (next_colour k) = slab_rep k" by (simp add: slab_rep_def s p o2 fun_eq_iff)
  show "in_use (next_colour k) = in_use k" by (simp add: in_use_def o2 fun_eq_iff)
  show "small_cache k \<Longrightarrow> small_cache (next_colour k)"
    unfolding small_cache_def s by (auto simp: next_colour_def not_le)
qed

lemma cache_pre_colour:
  assumes "cache_pre s c k L"
  shows "cache_pre (put_cache s c (next_colour k)) c (next_colour k) L"
proof -
  have "slab_rep k (put_cache s c (next_colour k)) v = slab_rep k s v" for v
    by (simp add: slab_rep_def put_cache_def)
  then show ?thesis using assms by (simp add: cache_pre_def) (simp add: put_cache_def)
qed

text \<open>What the page function must supply: a page that is not in use.\<close>

definition new_page :: "addr \<Rightarrow> (slab_list \<Rightarrow> slab_view list) \<Rightarrow> addr \<Rightarrow> bool" where
  "new_page c L p \<longleftrightarrow> page_ok p \<and> (\<forall>v \<in> slab_set L. slab_page v \<noteq> p) \<and> (\<forall>l. p \<noteq> page_of (slab_head c l))"

lemma cache_pre_other_page:
  assumes pre: "cache_pre s c k L" and p: "new_page c L p"
    and h: "\<And>q. page_of q \<noteq> p \<Longrightarrow> kmm_links s' q = kmm_links s q" "kmm_links s' NULL = None"
    and s: "kmm_caches s' = kmm_caches s" "\<And>q. q \<noteq> p \<Longrightarrow> page_owner s' q = page_owner s q"
      "\<And>q. q \<noteq> p + 4 \<Longrightarrow> kmm_slabs s' q = kmm_slabs s q"
  shows "cache_pre s' c k L"
proof -
  note d = cache_preD [OF pre]
  have pv: "slab_page v \<noteq> p" if "v \<in> set (L l)" for v l using that p by (auto simp: new_page_def)
  have "slab_rep k s' v" if v: "v \<in> set (L l)" for v l
    by (rule slab_rep_frame [OF d(3) d(7) [OF v]]) (use h s pv [OF v] in \<open>simp_all add: slab_addr_def\<close>)
  moreover have "slist_rep (kmm_links s') (slab_head c l) (map slab_addr (L l))" for l
  proof (rule slist_rep_frame [where h = "kmm_links s"])
    have "kmm_links s' (slab_addr v) = kmm_links s (slab_addr v)" if "v \<in> set (L l)" for v
      using h(1) [of "slab_addr v"] slab_rep_page(2) [OF d(7) [OF that]] pv [OF that] by simp
    moreover have "kmm_links s' (slab_head c l) = kmm_links s (slab_head c l)"
      using h(1) p unfolding new_page_def by metis
    ultimately show "\<forall>q \<in> set (slab_head c l # map slab_addr (L l)). kmm_links s' q = kmm_links s q" by auto
  qed (rule d(6), rule h(2))
  ultimately show ?thesis using pre s(1) unfolding cache_pre_def by (simp del: not_all)
qed

lemma get_new_slab_ok:
  assumes pre: "cache_pre s c k L" and one: "1 < kcap k"
    and pg: "ALLOC_PAGE_FN s (kmm_pages s) = Inr (p, q)" "new_page c L p"
  shows "\<exists>s' v. get_new_slab al fr s c = Inr (slab_addr v, s') \<and> slab_free v = rev (objs k (slab_base v)) \<and>
    cache_pre s' c (next_colour k) (L(Partial := v # L Partial)) \<and> (\<forall>l. v \<notin> set (L l)) \<and> slab_page v = p \<and>
    page_source s' = (ALLOC_PAGE_FN s, q)"
proof -
  note d = cache_preD [OF pre]
  let ?ob = "slab_start k p"
  let ?v = "\<lparr>slab_page = p, slab_base = ?ob, slab_free = rev (objs k ?ob)\<rparr>"
  have p: "page_ok p" using pg(2) by (simp add: new_page_def)
  obtain h where h: "slab_create_small s c (kc_colour_next k) = Inr (p + 4, s\<lparr>kmm_pages := q,
      page_owner := (page_owner s)(p \<mapsto> p + 4), kmm_slabs := (kmm_slabs s)(p + 4 \<mapsto> \<lparr>ks_page = p, ks_objects_inuse = 0\<rparr>),
      kmm_links := h, kmm_calls := kmm_calls s @ ctor_calls k (objs k ?ob)\<rparr>)"
    "slist_rep h (free_buffers (p + 4)) (map (obj_ctl k) (rev (objs k ?ob)))"
    "\<forall>x. page_of x \<noteq> p \<longrightarrow> h x = kmm_links s x"
    using slab_create_ok [OF d(3,2,4,5) pg(1) p] by blast
  let ?s1 = "s\<lparr>kmm_pages := q, page_owner := (page_owner s)(p \<mapsto> p + 4),
    kmm_slabs := (kmm_slabs s)(p + 4 \<mapsto> \<lparr>ks_page = p, ks_objects_inuse = 0\<rparr>),
    kmm_links := h, kmm_calls := kmm_calls s @ ctor_calls k (objs k ?ob)\<rparr>"
  have pre1: "cache_pre ?s1 c k L"
    by (rule cache_pre_other_page [OF pre pg(2)]) (use h(3) slist_repD(1) [OF h(2)] in simp_all)
  have pl: "place_ok k p ?ob" using slab_start_ok(1) [OF d(3) p] .
  have va: "slab_addr ?v = p + 4" by (simp add: slab_addr_def)
  have iu: "kcap k - length (slab_free ?v) = 0" using objs_distinct(3) [OF d(3) pl] by simp
  have r: "slab_rep k ?s1 ?v"
    unfolding slab_rep_def va iu using pl h(2) by simp
  let ?s2 = "put_cache ?s1 c (next_colour k)"
  have pre2: "cache_pre ?s2 c (next_colour k) L" using cache_pre_colour [OF pre1] .
  have r2: "slab_rep (next_colour k) ?s2 ?v"
    unfolding next_colour_same by (rule slab_rep_frame [OF d(3) r]) (use slist_repD(1) [OF h(2)] in \<open>simp_all add: put_cache_def\<close>)
  have ap: "apart_slab c L a ?v" for a using pg(2) by (auto simp: apart_slab_def new_page_def)
  obtain h2 where h2: "slist_insert (kmm_links ?s2) (slab_head c Partial) (slab_addr ?v) = Inr h2"
    "cache_pre (?s2\<lparr>kmm_links := h2\<rparr>) c (next_colour k) (L(Partial := ?v # L Partial))"
    by (rule slab_link_ok [OF pre2 r2 ap, of Partial])
  have sm: "\<not> is_large k" using d(3) by (simp add: small_cache_def)
  have c1: "kc_slab_capacity k \<noteq> 1" using one by (auto simp: kcap_def)
  have nn: "p + 4 \<noteq> NULL" using page_parts(5) [OF p] .
  have "get_new_slab al fr s c = Inr (slab_addr ?v, ?s2\<lparr>kmm_links := h2\<rparr>)"
    using d(2,4) sm c1 nn h(1) h2(1)
    by (simp add: get_new_slab_def cache_at_def Let_def slab_addr_def next_colour_def [symmetric])
  moreover have "?v \<notin> set (L l)" for l using pg(2) slab_setI [of ?v L l] unfolding new_page_def by force
  ultimately show ?thesis using h2(2)
    by (intro exI [of _ "?s2\<lparr>kmm_links := h2\<rparr>"] exI [of _ ?v]) (simp add: put_cache_def page_source_def)
qed

lemma alloc_from_new:
  assumes rep: "cache_rep s c k L" and one: "1 < kcap k" and none: "L Partial = []" "L Empty = []"
    and pg: "ALLOC_PAGE_FN s (kmm_pages s) = Inr (p, q)" "new_page c L p"
  shows "\<exists>m s' L'. cache_alloc_with al fr s c = Inr (m, s') \<and> m \<noteq> NULL \<and> cache_rep s' c (next_colour k) L' \<and>
    m \<notin> in_use k L \<and> in_use k L' = insert m (in_use k L) \<and> slab_pages L' = insert p (slab_pages L) \<and>
    page_source s' = (ALLOC_PAGE_FN s, q)"
proof -
  have pre: "cache_pre s c k L" using rep by (simp add: cache_rep_def)
  note d = cache_preD [OF pre]
  obtain s1 v where n: "get_new_slab al fr s c = Inr (slab_addr v, s1)" "slab_free v = rev (objs k (slab_base v))"
    "cache_pre s1 c (next_colour k) (L(Partial := v # L Partial))" "\<forall>l. v \<notin> set (L l)" "slab_page v = p"
    "page_source s1 = (ALLOC_PAGE_FN s, q)"
    using get_new_slab_ok [OF pre one pg] by blast
  let ?L = "L(Partial := v # L Partial)"
  have v: "v \<in> set (?L Partial)" by simp
  have len: "length (slab_free v) = kcap k" using n(2) by (simp add: objs_def)
  have "right_list (next_colour k) l (length (slab_free w))" if "w \<in> set (?L l)" "w \<noteq> v" for l w
  proof -
    have "w \<in> set (L l)" using that by (cases "l = Partial") auto
    then show ?thesis using rep by (auto simp: cache_rep_def)
  qed
  moreover have "0 < length (slab_free v)" "right_list (next_colour k) Partial (length (slab_free v) - 1)"
    using len one by (auto simp: right_list_def)
  ultimately obtain m s' L' where oa: "object_alloc fr s1 (slab_addr v) c = Inr (m, s')" "m \<noteq> NULL"
    "cache_rep s' c (next_colour k) L'" "m \<notin> in_use k ?L" "in_use k L' = insert m (in_use k ?L)"
    "slab_pages L' = slab_pages ?L" "page_source s' = page_source s1"
    using object_alloc_rep [OF n(3) v, of fr] unfolding next_colour_same by blast
  have "slab_set ?L = insert v (slab_set L)" by (auto simp: slab_set_def split: if_splits)
  then have "in_use k ?L = in_use k L" "slab_pages ?L = insert p (slab_pages L)"
    using n(2,5) by (simp_all add: in_use_set slab_pages_def)
  moreover have "slab_addr v \<noteq> NULL" using slab_rep_page(3) [OF cache_preD(7) [OF n(3) v]] .
  moreover have "find_existing_slab s c = Inr (NULL, s)" using find_existing_ok [OF rep] none by simp
  ultimately show ?thesis using oa n(1,6) d(4)
    by (intro exI [of _ m] exI [of _ s'] exI [of _ L']) (simp add: cache_alloc_with_def)
qed

text \<open>When no page is left, the operation answers NULL and keeps the cache.\<close>

lemma alloc_no_page:
  assumes rep: "cache_rep s c k L" and none: "L Partial = []" "L Empty = []"
    and pg: "ALLOC_PAGE_FN s (kmm_pages s) = Inr (NULL, q)"
  shows "\<exists>s'. cache_alloc_with al fr s c = Inr (NULL, s') \<and> cache_rep s' c (next_colour k) L \<and>
    page_source s' = (ALLOC_PAGE_FN s, q)"
proof -
  have pre: "cache_pre s c k L" using rep by (simp add: cache_rep_def)
  note d = cache_preD [OF pre]
  let ?s1 = "s\<lparr>kmm_pages := q\<rparr>"
  let ?s2 = "put_cache ?s1 c (next_colour k)"
  have "slab_rep k ?s1 v = slab_rep k s v" for v by (simp add: slab_rep_def)
  then have "cache_pre ?s1 c k L" using pre by (simp add: cache_pre_def)
  then have "cache_pre ?s2 c (next_colour k) L" by (rule cache_pre_colour)
  then have "cache_rep ?s2 c (next_colour k) L" using rep by (simp add: cache_rep_def)
  moreover have "check_align NULL PLATFORM_PAGE_SIZE" by (simp add: page_align_dvd)
  moreover have "\<not> is_large k" using d(3) by (simp add: small_cache_def)
  moreover have "find_existing_slab s c = Inr (NULL, s)" using find_existing_ok [OF rep] none by simp
  ultimately show ?thesis using d(2,4) pg
    by (intro exI [of _ ?s2]) (simp add: cache_alloc_with_def get_new_slab_def slab_create_small_def page_alloc_def
        cache_at_def Let_def next_colour_def [symmetric] put_cache_def page_source_def)
qed

section \<open>Freeing\<close>

text \<open>An object belongs to one slab.\<close>

lemma obj_home:
  assumes pre: "cache_pre s c k L" and v: "v \<in> set (L a)" "w \<in> set (L b)"
    and x: "x \<in> set (objs k (slab_base v))" "x \<in> set (objs k (slab_base w))"
  shows "a = b \<and> v = w"
proof -
  note d = cache_preD [OF pre]
  have "page_of x = slab_page v" "page_of x = slab_page w"
    using obj_page(1) [OF d(3)] d(7) [OF v(1)] d(7) [OF v(2)] x by (auto simp: slab_rep_def)
  then show ?thesis using cache_pre_page [OF pre v] by simp
qed

lemma in_use_give:
  assumes pre: "cache_pre s c k L" and v: "v \<in> set (L a)" and m: "m \<in> set (objs k (slab_base v))"
  shows "in_use k (set_free L v (m # slab_free v)) = in_use k L - {m}"
proof -
  have "m \<notin> (\<Union>w \<in> slab_set L - {v}. set (objs k (slab_base w)) - set (slab_free w))"
    using obj_home [OF pre v _ m] unfolding slab_set_def by blast
  then show ?thesis
    unfolding in_use_set in_use_split(1) [where L = L and v = v and a = a, OF v]
      in_use_split(2) [where L = L and v = v and a = a, OF v] by auto
qed

lemma object_free_ok:
  assumes pre: "cache_pre s c k L" and v: "v \<in> set (L a)" and m: "m \<in> set (objs k (slab_base v))" "m \<notin> set (slab_free v)"
  shows "\<exists>s'. object_free al s m (slab_addr v) c = Inr s' \<and> cache_pre s' c k (set_free L v (m # slab_free v)) \<and>
    page_source s' = page_source s"
proof -
  note d = cache_preD [OF pre]
  have r: "slab_rep k s v" using d(7) [OF v] .
  note pg = slab_rep_page [OF r] and rm = slab_room [OF d(3) r]
  have pl: "place_ok k (slab_page v) (slab_base v)" "set (slab_free v) \<subseteq> set (objs k (slab_base v))" "page_owner s (slab_page v) = Some (slab_addr v)"
    "kmm_slabs s (slab_addr v) = Some \<lparr>ks_page = slab_page v, ks_objects_inuse = of_nat (kcap k - length (slab_free v))\<rparr>"
    "slist_rep (kmm_links s) (free_buffers (slab_addr v)) (map (obj_ctl k) (slab_free v))"
    using r by (simp_all add: slab_rep_def)
  let ?fb = "free_buffers (slab_addr v)" and ?ctl = "obj_ctl k m"
  have ctl: "?ctl \<noteq> NULL" "page_of ?ctl = slab_page v" "?ctl \<noteq> slab_addr v" "?ctl \<noteq> ?fb"
  proof -
    note o = obj_page(2,3,5) [OF d(3) pl(1) m(1)]
    show "?ctl \<noteq> NULL" "page_of ?ctl = slab_page v" using o by simp_all
    show "?ctl \<noteq> slab_addr v" "?ctl \<noteq> ?fb"
      using o(2) page_parts(3,4) [OF pg(1)] by (auto simp: slab_addr_def)
  qed
  have "?ctl \<notin> obj_ctl k ` set (slab_free v)"
    using objs_distinct(2) [OF d(3) pl(1)] m pl(2) by (metis inj_on_image_mem_iff)
  then have "?ctl \<notin> set (?fb # [] @ map (obj_ctl k) (slab_free v))" using ctl(4) by simp
  then obtain h where h: "slist_insert (kmm_links s) (last [?fb]) ?ctl = Inr h"
    "slist_rep h ?fb ([] @ ?ctl # map (obj_ctl k) (slab_free v))"
    "\<And>q. q \<noteq> last [?fb] \<Longrightarrow> q \<noteq> ?ctl \<Longrightarrow> h q = kmm_links s q"
    using slist_insert_rep [of "kmm_links s" ?fb "[]" "map (obj_ctl k) (slab_free v)" ?ctl] pl(5) ctl(1) by (metis append_Nil)
  have "distinct (m # slab_free v)" "set (m # slab_free v) \<subseteq> set (objs k (slab_base v))" using rm(1) m pl(2) by simp_all
  then have "length (m # slab_free v) \<le> kcap k"
    using card_mono [of "set (objs k (slab_base v))" "set (m # slab_free v)"] objs_distinct(1,3) [OF d(3) pl(1)]
    by (metis distinct_card finite_set)
  then have "kcap k - length (slab_free v) = Suc (kcap k - length (m # slab_free v))" by simp
  then have cnt: "(of_nat (kcap k - length (slab_free v)) :: size_t) - 1 = of_nat (kcap k - length (m # slab_free v))" by simp
  let ?s = "s\<lparr>kmm_links := h, kmm_slabs := (kmm_slabs s)(slab_addr v \<mapsto>
    \<lparr>ks_page = slab_page v, ks_objects_inuse = of_nat (kcap k - length (m # slab_free v))\<rparr>)\<rparr>"
  have sm: "\<not> is_large k" using d(3) by (simp add: small_cache_def)
  have gb: "get_bufctl_small m k = Inr ?ctl" using obj_ctl_ok(3) [OF d(3) obj_facts(1,2) [OF d(3) pl(1) m(1)]] .
  have step: "object_free al s m (slab_addr v) c = Inr ?s"
    using obj_page(4) [OF d(3) pl(1) m(1)] pg(3) pl(4) d(2) sm gb h(1) cnt
    by (simp add: object_free_def slab_at_def cache_at_def put_slab_def)
  have "slab_rep k ?s (v\<lparr>slab_free := m # slab_free v\<rparr>)"
    using pl h(2) m(1) by (simp add: slab_rep_def slab_addr_def)
  then have "cache_pre ?s c k (set_free L v (m # slab_free v))"
  proof (rule slab_change [OF pre v])
    fix q assume q: "page_of q \<noteq> slab_page v \<or> q = slab_addr v"
    then have "q \<noteq> ?fb" "q \<noteq> ?ctl" using ctl(2,3) pg(4,5) by metis+
    then show "kmm_links ?s q = kmm_links s q" using h(3) by simp
  qed simp_all
  then show ?thesis using step by (intro exI [of _ ?s]) (simp add: page_source_def)
qed

lemma object_free_rep:
  assumes pre: "cache_pre s c k L" and v: "v \<in> set (L b)" "m \<in> set (objs k (slab_base v))" "m \<notin> set (slab_free v)"
    and rl: "right_list k b (length (slab_free v) + 1)"
    and other: "\<And>l w. w \<in> set (L l) \<Longrightarrow> w \<noteq> v \<Longrightarrow> right_list k l (length (slab_free w))"
  shows "\<exists>s' L'. object_free al s m (slab_addr v) c = Inr s' \<and> cache_rep s' c k L' \<and>
    in_use k L' = in_use k L - {m} \<and> slab_pages L' = slab_pages L \<and> page_source s' = page_source s"
proof -
  let ?fs = "m # slab_free v"
  obtain s' where s: "object_free al s m (slab_addr v) c = Inr s'" "cache_pre s' c k (set_free L v ?fs)" "page_source s' = page_source s"
    using object_free_ok [OF pre v] by blast
  have "right_list k l (length (slab_free w))" if w: "w \<in> set (set_free L v ?fs l)" for w l
  proof -
    obtain u where u: "u \<in> set (L l)" "w = (if u = v then v\<lparr>slab_free := ?fs\<rparr> else u)"
      using w unfolding set_free_mem by blast
    show ?thesis
    proof (cases "u = v")
      case True
      then have "l = b" using cache_pre_page [OF pre _ v(1)] u(1) by blast
      then show ?thesis using True u(2) rl by simp
    qed (use u other in simp)
  qed
  then have "cache_rep s' c k (set_free L v ?fs)" using s(2) by (simp add: cache_rep_def)
  then show ?thesis using s(1,3) in_use_give [OF pre v(1,2)] set_free_pages by blast
qed

lemma free_with_ok:
  assumes rep: "cache_rep s c k L" and one: "1 < kcap k" and m: "m \<in> in_use k L"
  shows "\<exists>s' L'. cache_free_with al s c m = Inr s' \<and> cache_rep s' c k L' \<and> in_use k L' = in_use k L - {m} \<and>
    slab_pages L' = slab_pages L \<and> page_source s' = page_source s"
proof -
  have pre: "cache_pre s c k L" using rep by (simp add: cache_rep_def)
  note d = cache_preD [OF pre]
  obtain v a where v: "v \<in> set (L a)" "m \<in> set (objs k (slab_base v))" "m \<notin> set (slab_free v)"
    using m by (auto simp: in_use_def)
  have r: "slab_rep k s v" using d(7) [OF v(1)] .
  have pl: "place_ok k (slab_page v) (slab_base v)" "page_owner s (slab_page v) = Some (slab_addr v)"
    "kmm_slabs s (slab_addr v) = Some \<lparr>ks_page = slab_page v, ks_objects_inuse = of_nat (kcap k - length (slab_free v))\<rparr>"
    "check_align (slab_page v) PLATFORM_PAGE_SIZE"
    using r by (simp_all add: slab_rep_def place_ok_def page_ok_def)
  have n: "right_list k a (length (slab_free v))" using rep v(1) by (auto simp: cache_rep_def)
  let ?n = "length (slab_free v)"
  have get: "slab_get_by_addr s m = Inr (slab_addr v)"
    using page_get_ok [OF pl(4) obj_page(1) [OF d(3) pl(1) v(2)]] pl(2) by (simp add: slab_get_by_addr_def)
  have cap: "kc_slab_capacity k > 1" using one by (simp add: kcap_def word_less_nat_alt)
  have full: "of_nat (kcap k - ?n) = kc_slab_capacity k \<longleftrightarrow> kcap k - ?n = kcap k" by (rule inuse_full) simp
  have one1: "of_nat (kcap k - ?n) = (1 :: size_t) \<longleftrightarrow> kcap k - ?n = 1"
    using inuse_unat [of "kcap k - ?n" k] by (metis diff_le_self of_nat_1 unat_1)
  define b where "b = (if a = Partial \<and> ?n + 1 < kcap k then Partial else if a = Full then Partial else Empty)"
  have nb: "right_list k b (?n + 1)" "b = a \<longleftrightarrow> a = Partial \<and> ?n + 1 < kcap k"
  proof -
    have "?n < kcap k"
    proof -
      have "distinct (m # slab_free v)" "set (m # slab_free v) \<subseteq> set (objs k (slab_base v))"
        using slab_room(1) [OF d(3) r] v r by (auto simp: slab_rep_def)
      then have "length (m # slab_free v) \<le> kcap k"
        using card_mono [of "set (objs k (slab_base v))" "set (m # slab_free v)"] objs_distinct(1,3) [OF d(3) pl(1)]
        by (metis distinct_card finite_set)
      then show ?thesis by simp
    qed
    then show "right_list k b (?n + 1)" "b = a \<longleftrightarrow> a = Partial \<and> ?n + 1 < kcap k"
      using n one by (cases a; simp add: b_def right_list_def)+
  qed
  have "\<exists>s1 L1. cache_free_with al s c m = object_free al s1 m (slab_addr v) c \<and> cache_pre s1 c k L1 \<and>
    moved L v a b L1 \<and> page_source s1 = page_source s"
  proof (cases "b = a")
    case True
    then have "0 < ?n" "?n + 1 < kcap k" using nb(2) n by (simp_all add: right_list_def)
    then have "kcap k - ?n \<noteq> kcap k" "kcap k - ?n \<noteq> 1" by linarith+
    then have "cache_free_with al s c m = object_free al s m (slab_addr v) c"
      using d(2,4) obj_page(4) [OF d(3) pl(1) v(2)] get slab_rep_page(3) [OF r] pl(3) full one1
      by (simp add: cache_free_with_def slab_at_def cache_at_def)
    then show ?thesis using pre moved_refl [OF pre v(1)] True by (intro exI [of _ s] exI [of _ L]) simp
  next
    case False
    then obtain h1 h2 L' where mv: "slist_remove (kmm_links s) (slab_head c a) (slab_addr v) = Inr h1"
      "slist_insert h1 (slab_head c b) (slab_addr v) = Inr h2" "cache_pre (s\<lparr>kmm_links := h2\<rparr>) c k L'" "moved L v a b L'"
      using move_ok [OF pre v(1), of b] by metis
    have ab: "a = Full \<and> b = Partial \<and> ?n = 0 \<or> a = Partial \<and> b = Empty \<and> ?n + 1 = kcap k"
    proof (cases a)
      case Empty
      then show ?thesis using n nb(1) False by (simp add: right_list_def b_def)
    next
      case Partial
      then have "?n + 1 \<noteq> kcap k \<Longrightarrow> b = a" using nb(2) n by (simp add: right_list_def)
      then show ?thesis using Partial False by (auto simp: b_def)
    next
      case Full
      then show ?thesis using n by (simp add: right_list_def b_def)
    qed
    have "cache_free_with al s c m = object_free al (s\<lparr>kmm_links := h2\<rparr>) m (slab_addr v) c"
      using ab mv(1,2) d(2,4) obj_page(4) [OF d(3) pl(1) v(2)] get slab_rep_page(3) [OF r] pl(3) full one1 one cap
      by (elim disjE) (auto simp: cache_free_with_def slab_at_def cache_at_def)
    then show ?thesis using mv(3,4) by (intro exI [of _ "s\<lparr>kmm_links := h2\<rparr>"] exI [of _ L']) (simp add: page_source_def)
  qed
  then obtain s1 L1 where s1: "cache_free_with al s c m = object_free al s1 m (slab_addr v) c" "cache_pre s1 c k L1"
    "moved L v a b L1" "page_source s1 = page_source s" by blast
  have "right_list k l (length (slab_free w))" if "w \<in> set (L1 l)" "w \<noteq> v" for l w
  proof -
    have "w \<in> set (L l)" using s1(3) that by (auto simp: moved_def)
    then show ?thesis using rep by (auto simp: cache_rep_def)
  qed
  then obtain s' L' where "object_free al s1 m (slab_addr v) c = Inr s'" "cache_rep s' c k L'"
    "in_use k L' = in_use k L1 - {m}" "slab_pages L' = slab_pages L1" "page_source s' = page_source s1"
    using object_free_rep [OF s1(2) _ v(2,3) nb(1)] s1(3) unfolding moved_def by metis
  moreover have "in_use k L1 = in_use k L" unfolding in_use_set moved_set [OF s1(3)] ..
  moreover have "slab_pages L1 = slab_pages L" unfolding slab_pages_def moved_set [OF s1(3)] ..
  ultimately show ?thesis using s1(1,4) by (intro exI [of _ s'] exI [of _ L']) simp
qed

end
