(* ===== verification/Kmm_Client.thy ===== *)
theory Kmm_Client
  imports Kmm_Spec Allocator
begin

text \<open>
  Slab caches as their clients see them: the two operations keep the promise of an allocator of objects,
  from the state that \<open>kmm_cache_init\<close> leaves and for any supply of fresh pages; and a cache with one
  object to a slab, which does not.
\<close>

section \<open>Sources of pages\<close>

text \<open>
  The page function is a parameter of \<open>kmm_init\<close>. Of its state, \<open>rest\<close> says which pages it may still
  give: each at most once, and NULL at any time.
\<close>

definition page_supply :: "('p \<Rightarrow> (addr \<times> 'p) kres) \<Rightarrow> ('p \<Rightarrow> addr set) \<Rightarrow> bool" where
  "page_supply f rest \<longleftrightarrow> (\<forall>q. \<exists>p q'. f q = Inr (p, q') \<and> (p \<noteq> NULL \<longrightarrow> p \<in> rest q) \<and> rest q' \<subseteq> rest q - {p})"

definition outside_cache :: "addr \<Rightarrow> addr \<Rightarrow> bool" where
  "outside_cache c p \<longleftrightarrow> (\<forall>l. p \<noteq> page_of (slab_head c l))"

lemma new_page_iff: "new_page c L p \<longleftrightarrow> page_ok p \<and> p \<notin> slab_pages L \<and> outside_cache c p"
  by (auto simp: new_page_def slab_pages_def outside_cache_def)

section \<open>The operations\<close>

lemma kmm_ops_2:
  "kmm_cache_alloc = cache_alloc_with (fst (kmm_ops 1)) (snd (kmm_ops 1))"
  "kmm_cache_free = cache_free_with (fst (kmm_ops 1))"
  by (simp_all add: kmm_cache_alloc_def kmm_cache_free_def numeral_2_eq_2)

lemma kmm_alloc_cases:
  assumes rep: "cache_rep s c k L" and one: "1 < kcap k"
    and pg: "ALLOC_PAGE_FN s (kmm_pages s) = Inr (p, q)" "p \<noteq> NULL \<Longrightarrow> new_page c L p"
  shows "\<exists>m s' k' L'. kmm_cache_alloc s c = Inr (m, s') \<and> k' \<in> {k, next_colour k} \<and> cache_rep s' c k' L' \<and>
    ALLOC_PAGE_FN s' = ALLOC_PAGE_FN s \<and>
    (kmm_pages s' = kmm_pages s \<and> slab_pages L' = slab_pages L \<or> kmm_pages s' = q \<and> slab_pages L' \<subseteq> insert p (slab_pages L)) \<and>
    (if L Partial = [] \<and> L Empty = [] \<and> p = NULL then m = NULL \<and> in_use k L' = in_use k L
     else m \<noteq> NULL \<and> m \<notin> in_use k L \<and> in_use k L' = insert m (in_use k L))"
proof (cases "L Partial = [] \<and> L Empty = []")
  case False
  then obtain m s' L' where a: "kmm_cache_alloc s c = Inr (m, s')" "m \<noteq> NULL" "cache_rep s' c k L'" "m \<notin> in_use k L"
    "in_use k L' = insert m (in_use k L)" "slab_pages L' = slab_pages L" "page_source s' = page_source s"
    using alloc_from_list [OF rep one] unfolding kmm_ops_2 by blast
  then show ?thesis using False
    by (intro exI [of _ m] exI [of _ s'] exI [of _ k] exI [of _ L']) (auto simp: page_source_def)
next
  case True
  show ?thesis
  proof (cases "p = NULL")
    case p: True
    then obtain s' where a: "kmm_cache_alloc s c = Inr (NULL, s')" "cache_rep s' c (next_colour k) L"
      "page_source s' = (ALLOC_PAGE_FN s, q)"
      using alloc_no_page [OF rep, of q] True pg(1) unfolding kmm_ops_2 by blast
    then show ?thesis using True p
      by (intro exI [of _ NULL] exI [of _ s'] exI [of _ "next_colour k"] exI [of _ L]) (auto simp: page_source_def)
  next
    case False
    then obtain m s' L' where a: "kmm_cache_alloc s c = Inr (m, s')" "m \<noteq> NULL" "cache_rep s' c (next_colour k) L'"
      "m \<notin> in_use k L" "in_use k L' = insert m (in_use k L)" "slab_pages L' = insert p (slab_pages L)"
      "page_source s' = (ALLOC_PAGE_FN s, q)"
      using alloc_from_new [OF rep one _ _ pg(1)] True pg(2) unfolding kmm_ops_2 by blast
    then show ?thesis using False
      by (intro exI [of _ m] exI [of _ s'] exI [of _ "next_colour k"] exI [of _ L']) (simp add: page_source_def)
  qed
qed

lemma kmm_free_ok:
  assumes "cache_rep s c k L" and "1 < kcap k" and "m \<in> in_use k L"
  shows "\<exists>s' L'. kmm_cache_free s c m = Inr s' \<and> cache_rep s' c k L' \<and> in_use k L' = in_use k L - {m} \<and>
    slab_pages L' = slab_pages L \<and> page_source s' = page_source s"
  using free_with_ok [OF assms] unfolding kmm_ops_2 .

text \<open>The objects in use do not overlap and are aligned.\<close>

lemma in_use_objs:
  assumes rep: "cache_rep s c k L" and x: "x \<in> in_use k L"
  shows "x \<noteq> NULL" "kalign k dvd unat x" "y \<in> in_use k L \<Longrightarrow> x \<noteq> y \<Longrightarrow>
    unat x + kstride k \<le> unat y \<or> unat y + kstride k \<le> unat x"
proof -
  have pre: "cache_pre s c k L" using rep by (simp add: cache_rep_def)
  note d = cache_preD [OF pre]
  obtain v a where v: "v \<in> set (L a)" "x \<in> set (objs k (slab_base v))" using x by (auto simp: in_use_def)
  have pl: "place_ok k (slab_page v) (slab_base v)" using d(7) [OF v(1)] by (simp add: slab_rep_def)
  show "x \<noteq> NULL" using obj_page(4) [OF d(3) pl v(2)] .
  show "kalign k dvd unat x" using obj_facts(1) [OF d(3) pl v(2)] .
  assume y: "y \<in> in_use k L" "x \<noteq> y"
  then obtain w b where "w \<in> set (L b)" "y \<in> set (objs k (slab_base w))" by (auto simp: in_use_def)
  then show "unat x + kstride k \<le> unat y \<or> unat y + kstride k \<le> unat x"
    using cache_objs_apart [OF pre v(1) _ v(2) _ y(2)] by blast
qed

section \<open>The promise\<close>

text \<open>A cache of objects \<open>stride\<close> bytes apart of which the client holds \<open>A\<close>.\<close>

definition cache_holds :: "('p \<Rightarrow> (addr \<times> 'p) kres) \<Rightarrow> ('p \<Rightarrow> addr set) \<Rightarrow> addr \<Rightarrow> nat \<Rightarrow> 'p kmm_state \<Rightarrow> addr set \<Rightarrow> bool" where
  "cache_holds f rest c stride s A \<longleftrightarrow> page_supply f rest \<and> ALLOC_PAGE_FN s = f \<and>
     (\<exists>k L. cache_rep s c k L \<and> 1 < kcap k \<and> kstride k = stride \<and> in_use k L = A \<and>
       (\<forall>p \<in> rest (kmm_pages s). new_page c L p))"

definition strided :: "nat \<Rightarrow> addr \<Rightarrow> addr \<Rightarrow> bool" where
  "strided n x y \<longleftrightarrow> unat x + n \<le> unat y \<or> unat y + n \<le> unat x"

lemma cache_alloc_law:
  assumes "cache_holds f rest c n s A"
  shows "\<exists>m s'. kmm_cache_alloc s c = Inr (m, s') \<and>
    (if m = NULL then cache_holds f rest c n s' A else m \<notin> A \<and> cache_holds f rest c n s' (insert m A))"
proof -
  obtain k L where h: "page_supply f rest" "ALLOC_PAGE_FN s = f" "cache_rep s c k L" "1 < kcap k" "kstride k = n"
    "in_use k L = A" "\<forall>p \<in> rest (kmm_pages s). new_page c L p" using assms by (auto simp: cache_holds_def)
  obtain p q where pg: "f (kmm_pages s) = Inr (p, q)" "p \<noteq> NULL \<longrightarrow> p \<in> rest (kmm_pages s)" "rest q \<subseteq> rest (kmm_pages s) - {p}"
    using h(1) unfolding page_supply_def by meson
  have "p \<noteq> NULL \<Longrightarrow> new_page c L p" using pg(2) h(7) by blast
  then obtain m s' k' L' where m: "kmm_cache_alloc s c = Inr (m, s')" "k' \<in> {k, next_colour k}" "cache_rep s' c k' L'"
    "ALLOC_PAGE_FN s' = f"
    "kmm_pages s' = kmm_pages s \<and> slab_pages L' = slab_pages L \<or> kmm_pages s' = q \<and> slab_pages L' \<subseteq> insert p (slab_pages L)"
    "if L Partial = [] \<and> L Empty = [] \<and> p = NULL then m = NULL \<and> in_use k L' = in_use k L
     else m \<noteq> NULL \<and> m \<notin> in_use k L \<and> in_use k L' = insert m (in_use k L)"
    using kmm_alloc_cases [OF h(3,4), unfolded h(2), OF pg(1)] by blast
  have "new_page c L' x" if "x \<in> rest (kmm_pages s')" for x
  proof -
    have "x \<in> rest (kmm_pages s)" "x \<in> slab_pages L' \<longrightarrow> x \<in> slab_pages L" using m(5) that pg(3) by auto
    then show ?thesis using h(7) by (auto simp: new_page_iff)
  qed
  moreover have "1 < kcap k'" "kstride k' = n" "in_use k' L' = in_use k L'" using m(2) h(4,5) by auto
  ultimately have "cache_holds f rest c n s' (in_use k L')"
    unfolding cache_holds_def using h(1) m(3,4) by (auto intro!: exI [of _ k'] exI [of _ L'])
  then show ?thesis using m(1,6) h(6) by (cases "m = NULL") (auto split: if_splits)
qed

lemma cache_free_law:
  assumes "cache_holds f rest c n s A" and "m \<in> A"
  shows "\<exists>s'. kmm_cache_free s c m = Inr s' \<and> cache_holds f rest c n s' (A - {m})"
proof -
  obtain k L where h: "page_supply f rest" "ALLOC_PAGE_FN s = f" "cache_rep s c k L" "1 < kcap k" "kstride k = n"
    "in_use k L = A" "\<forall>p \<in> rest (kmm_pages s). new_page c L p" using assms(1) by (auto simp: cache_holds_def)
  obtain s' L' where s: "kmm_cache_free s c m = Inr s'" "cache_rep s' c k L'" "in_use k L' = A - {m}"
    "slab_pages L' = slab_pages L" "page_source s' = page_source s"
    using kmm_free_ok [OF h(3,4)] assms(2) h(6) by blast
  have "\<forall>p \<in> rest (kmm_pages s'). new_page c L' p" using h(7) s(4,5) by (simp add: new_page_iff page_source_def)
  then show ?thesis using s h unfolding cache_holds_def by (metis page_source_def Pair_inject)
qed

interpretation cache: object_allocator "cache_holds f rest c n" "\<lambda>s. kmm_cache_alloc s c" "\<lambda>s. kmm_cache_free s c" "strided n"
  for f rest c n
proof
  fix s A x y
  assume h: "cache_holds f rest c n s A"
  then show "\<exists>m s'. kmm_cache_alloc s c = Inr (m, s') \<and>
      (if m = NULL then cache_holds f rest c n s' A else m \<notin> A \<and> cache_holds f rest c n s' (insert m A))"
    by (rule cache_alloc_law)
  show "NULL \<notin> A" using h in_use_objs(1) unfolding cache_holds_def by blast
  assume "x \<in> A" "y \<in> A" "x \<noteq> y"
  then show "strided n x y" using h in_use_objs(3) unfolding cache_holds_def strided_def by metis
qed (rule cache_free_law)

section \<open>From initialisation on\<close>

lemma cache_init_rep:
  assumes "cache_fits c" and "kmm_links s NULL = None" and "small_cache k"
  shows "cache_rep ((put_cache s c k)\<lparr>kmm_links := (kmm_links s)(slabs_empty c \<mapsto> NULL, slabs_partial c \<mapsto> NULL,
    slabs_full c \<mapsto> NULL)\<rparr>) c k (\<lambda>_. [])"
proof -
  let ?h = "(kmm_links s)(slabs_empty c \<mapsto> NULL, slabs_partial c \<mapsto> NULL, slabs_full c \<mapsto> NULL)"
  have "slist_rep ?h (slab_head c l) []" for l
    using cache_nodes [OF assms(1)] assms(2) by (cases l) (auto simp: slist_rep_def)
  then show ?thesis using assms by (simp add: cache_rep_def cache_pre_def put_cache_def)
qed

text \<open>Two objects fit in a slab when they need not be aligned to more than a quarter of a page.\<close>

lemma cache_init_capacity:
  assumes k: "small_cache k" and al: "al = 0 \<or> (\<exists>a \<le> 10. al = 2 ^ a)" and st: "kstride k < unat (kc_size k) + 4 + kalign k"
    and sz: "unat (kc_size k) < 512" and ka: "kc_alignment k = MAX_u32 sizeof_bufctl_small al"
  shows "1 < kcap k"
proof -
  have "kalign k \<le> 1024"
  proof (cases "al = 0")
    case True
    then show ?thesis using ka by (simp add: kalign_def MAX_u32_def)
  next
    case False
    then obtain a where a: "a \<le> 10" "al = 2 ^ a" using al by auto
    have "unat al \<le> 2 ^ 10" using a power_increasing [of a 10 "2 :: nat"] by (simp add: unat_pow2)
    then show ?thesis using ka by (simp add: kalign_def MAX_u32_def)
  qed
  then have "2 * kstride k \<le> 4076" using st sz by simp
  moreover have "0 < kstride k" "kcap k = 4076 div kstride k" using k by (auto simp: small_cache_def)
  ultimately have "2 \<le> kcap k" by (simp add: less_eq_div_iff_mult_less_eq)
  then show ?thesis by simp
qed

end
