(* ===== verification/Kmm_Props.thy ===== *)
theory Kmm_Props
  imports Kmm_Client
begin

text \<open>
  The properties of slab caches of small objects: initialisation, exclusive use of objects, progress while
  pages are left, and the failure of caches whose slabs hold one object.
\<close>

section \<open>A cache on a concrete store\<close>

text \<open>Pages handed out from a list.\<close>

definition pop_page :: "addr list \<Rightarrow> (addr \<times> addr list) kres" where
  "pop_page ps = (case ps of [] \<Rightarrow> Inr (NULL, []) | p # ps \<Rightarrow> Inr (p, removeAll p ps))"

lemma pop_page_supply: "page_supply pop_page set"
  unfolding page_supply_def
proof
  fix ps :: "addr list"
  show "\<exists>p q'. pop_page ps = Inr (p, q') \<and> (p \<noteq> NULL \<longrightarrow> p \<in> set ps) \<and> set q' \<subseteq> set ps - {p}"
    by (cases ps) (auto simp: pop_page_def)
qed

definition example_state :: "addr list \<Rightarrow> addr list kmm_state" where
  "example_state ps = \<lparr>kmm_caches = Map.empty, kmm_slabs = Map.empty, kmm_links = Map.empty, page_owner = Map.empty,
     bufctl_memory = Map.empty, kmm_calls = [], kmm_pages = ps, ALLOC_PAGE_FN = pop_page,
     FREE_PAGE_FN = (\<lambda>ps p. Inr (p # ps)), CACHES = 0x1000, ALLOCATED_CACHES_HEAD = 0x1100\<rparr>"

lemma example_page: "page_ok 0x9000" "outside_cache 0x2000 0x9000" "cache_fits 0x2000"
proof -
  show "page_ok 0x9000" by (simp add: page_ok_def page_align_dvd)
  have "0x9000 \<noteq> page_of (slab_head 0x2000 l)" for l
    by (cases l) (simp_all add: page_of_def slabs_empty_def slabs_partial_def slabs_full_def PLATFORM_PAGE_SIZE_def)
  then show "outside_cache 0x2000 0x9000" by (simp add: outside_cache_def)
  show "cache_fits 0x2000" by (simp add: cache_fits_def)
qed

section \<open>Properties\<close>

text \<open>\<open>kmm_cache_init\<close> accepts every size below an eighth of a page and every alignment that is 0 or a
  power of two below a page: it sets up a cache of small objects, each with its list node in front of the
  next object, as many to a page as fit, and three empty lists of slabs.\<close>

theorem kmm_cache_init_small:
  assumes "cache_fits c" and "kmm_links s NULL = None" and "al = 0 \<or> (\<exists>a < 12. al = 2 ^ a)" and "unat sz < 512"
    and "flags AND KMM_CACHE_LARGE = 0"
  shows "\<exists>s' k. kmm_cache_init s c name sz al flags ctor dtor = Inr s' \<and> cache_rep s' c k (\<lambda>_. []) \<and>
    kc_size k = sz \<and> kc_alignment k = MAX_u32 sizeof_bufctl_small al \<and> kc_ctor k = ctor \<and> kc_dtor k = dtor \<and>
    unat sz + 4 \<le> kstride k \<and> kalign k dvd kstride k \<and> kcap k = 4076 div kstride k \<and> 0 < kcap k"
proof -
  obtain k where k: "kmm_cache_init s c name sz al flags ctor dtor = Inr ((put_cache s c k)\<lparr>kmm_links :=
      (kmm_links s)(slabs_empty c \<mapsto> NULL, slabs_partial c \<mapsto> NULL, slabs_full c \<mapsto> NULL)\<rparr>)"
    "small_cache k" "kc_size k = sz" "kc_alignment k = MAX_u32 sizeof_bufctl_small al" "kc_ctor k = ctor" "kc_dtor k = dtor"
    using cache_init_ok [OF assms(1,3,4,5)] by metis
  then show ?thesis using cache_init_rep [OF assms(1,2) k(2)] by (auto simp: small_cache_def)
qed

theorem kmm_cache_init_small_witness:
  "\<exists>s' k. kmm_cache_init (example_state []) 0x2000 0x500 60 0 0 NULL NULL = Inr s' \<and> cache_rep s' 0x2000 k (\<lambda>_. []) \<and>
    kc_size k = 60 \<and> kc_alignment k = MAX_u32 sizeof_bufctl_small 0 \<and> kc_ctor k = NULL \<and> kc_dtor k = NULL \<and>
    unat (60 :: size_t) + 4 \<le> kstride k \<and> kalign k dvd kstride k \<and> kcap k = 4076 div kstride k \<and> 0 < kcap k"
  by (rule kmm_cache_init_small) (simp_all add: example_page example_state_def)

lemma cache_init_holds:
  assumes "cache_fits c" and "kmm_links s NULL = None" and al: "al = 0 \<or> (\<exists>a \<le> 10. al = 2 ^ a)" and "unat sz < 512"
    and "flags AND KMM_CACHE_LARGE = 0"
    and f: "page_supply (ALLOC_PAGE_FN s) rest" "\<forall>p \<in> rest (kmm_pages s). page_ok p \<and> outside_cache c p"
    and init: "kmm_cache_init s c name sz al flags ctor dtor = Inr s0"
  shows "\<exists>n \<ge> unat sz + 4. cache_holds (ALLOC_PAGE_FN s) rest c n s0 {}"
proof -
  have "\<exists>b < 12. al = 2 ^ b" if "a \<le> 10" "al = 2 ^ a" for a :: nat using that by (intro exI [of _ a]) simp
  then have "al = 0 \<or> (\<exists>a < 12. al = 2 ^ a)" using al by blast
  then obtain k where k: "s0 = (put_cache s c k)\<lparr>kmm_links :=
      (kmm_links s)(slabs_empty c \<mapsto> NULL, slabs_partial c \<mapsto> NULL, slabs_full c \<mapsto> NULL)\<rparr>"
    "small_cache k" "kc_size k = sz" "kc_alignment k = MAX_u32 sizeof_bufctl_small al" "kstride k < unat sz + 4 + kalign k"
    using cache_init_ok [OF assms(1) _ assms(4,5), of al s name ctor dtor] init by fastforce
  have "1 < kcap k" using cache_init_capacity [OF k(2) al] k(3-5) assms(4) by simp
  moreover have "new_page c (\<lambda>_. []) p" if "p \<in> rest (kmm_pages s0)" for p
    using f(2) that k(1) by (simp add: new_page_iff slab_pages_def slab_set_def put_cache_def)
  moreover have "cache_rep s0 c k (\<lambda>_. [])" unfolding k(1) by (rule cache_init_rep [OF assms(1,2) k(2)])
  moreover have "in_use k (\<lambda>_. []) = {}" by (simp add: in_use_def)
  moreover have "ALLOC_PAGE_FN s0 = ALLOC_PAGE_FN s" using k(1) by (simp add: put_cache_def)
  ultimately have "cache_holds (ALLOC_PAGE_FN s) rest c (kstride k) s0 {}" unfolding cache_holds_def using f(1) by blast
  moreover have "unat sz + 4 \<le> kstride k" using k(2,3) by (auto simp: small_cache_def)
  ultimately show ?thesis by blast
qed

text \<open>C7: whatever a client does with a cache of small objects (below 512 bytes, not flagged large) with no alignment or
  a power of two up to 1024, so that a slab holds at least two objects, an object it is given is not one it holds,
  no two objects it holds overlap, and the cache takes back every object that is held; none of these calls
  fails, for any supply of fresh pages outside the cache, pages running out included. For larger alignments
  this is false: such a cache has one object per slab, and stops as the property on those caches says.\<close>

theorem kmm_cache_exclusive:
  assumes "cache_fits c" and "kmm_links s NULL = None" and "al = 0 \<or> (\<exists>a \<le> 10. al = 2 ^ a)" and "unat sz < 512"
    and "flags AND KMM_CACHE_LARGE = 0"
    and "page_supply (ALLOC_PAGE_FN s) rest" "\<forall>p \<in> rest (kmm_pages s). page_ok p \<and> outside_cache c p"
    and "kmm_cache_init s c name sz al flags ctor dtor = Inr s0"
    and "client_run (\<lambda>s. kmm_cache_alloc s c) (\<lambda>s. kmm_cache_free s c) s0 s' A"
  shows "(\<exists>m s''. kmm_cache_alloc s' c = Inr (m, s'') \<and> m \<notin> A \<and> (m \<noteq> NULL \<longrightarrow> (\<forall>x \<in> A. strided (unat sz) m x))) \<and>
    (\<forall>m \<in> A. \<exists>s''. kmm_cache_free s' c m = Inr s'') \<and> (\<forall>x \<in> A. \<forall>y \<in> A. x \<noteq> y \<longrightarrow> strided (unat sz) x y)"
proof -
  obtain n where n: "unat sz + 4 \<le> n" "cache_holds (ALLOC_PAGE_FN s) rest c n s0 {}"
    using cache_init_holds [OF assms(1-8)] by blast
  have st: "strided n x y \<Longrightarrow> strided (unat sz) x y" for x y using n(1) by (auto simp: strided_def)
  show ?thesis using cache.run_exclusive [OF assms(9) n(2)] by (elim conjE exE) (blast intro: st)
qed

lemma example_sizes: "unat (60 :: size_t) < 512" "unat (56 :: size_t) < 512" "unat (48 :: size_t) < 512"
  by simp_all

lemma example_init:
  assumes "unat sz < 512"
  obtains s0 where "kmm_cache_init (example_state ps) 0x2000 0x500 sz 0 0 NULL NULL = Inr s0"
    "ALLOC_PAGE_FN s0 = pop_page" "kmm_pages s0 = ps" "\<exists>k. cache_rep s0 0x2000 k (\<lambda>_. []) \<and> 1 < kcap k"
proof -
  obtain k where k: "kmm_cache_init (example_state ps) 0x2000 0x500 sz 0 0 NULL NULL = Inr ((put_cache (example_state ps) 0x2000 k)\<lparr>kmm_links :=
      (kmm_links (example_state ps))(slabs_empty 0x2000 \<mapsto> NULL, slabs_partial 0x2000 \<mapsto> NULL, slabs_full 0x2000 \<mapsto> NULL)\<rparr>)"
    "small_cache k" "kc_size k = sz" "kc_alignment k = MAX_u32 sizeof_bufctl_small 0" "kstride k < unat sz + 4 + kalign k"
    using cache_init_ok [OF example_page(3), of 0 sz 0 "example_state ps" "0x500" NULL NULL] assms by auto
  have "1 < kcap k" by (rule cache_init_capacity [of k 0]) (use k assms in simp_all)
  moreover have n: "kmm_links (example_state ps) NULL = None" by (simp add: example_state_def)
  ultimately show ?thesis
    using that [OF k(1)] cache_init_rep [OF example_page(3) n k(2)] by (auto simp: put_cache_def example_state_def)
qed

theorem kmm_cache_exclusive_witness:
  "\<exists>s0 m s1. kmm_cache_init (example_state [0x9000]) 0x2000 0x500 60 0 0 NULL NULL = Inr s0 \<and>
    kmm_cache_alloc s0 0x2000 = Inr (m, s1) \<and> m \<noteq> NULL \<and>
    (\<exists>m2 s2. kmm_cache_alloc s1 0x2000 = Inr (m2, s2) \<and> m2 \<noteq> m \<and> (m2 \<noteq> NULL \<longrightarrow> strided 60 m2 m))"
proof -
  obtain s0 k where s0: "kmm_cache_init (example_state [0x9000]) 0x2000 0x500 60 0 0 NULL NULL = Inr s0"
    "ALLOC_PAGE_FN s0 = pop_page" "kmm_pages s0 = [0x9000]" "cache_rep s0 0x2000 k (\<lambda>_. [])" "1 < kcap k"
    using example_init [OF example_sizes(1)] by metis
  have pg: "ALLOC_PAGE_FN s0 (kmm_pages s0) = Inr (0x9000, [])" using s0(2,3) by (simp add: pop_page_def)
  have "new_page 0x2000 (\<lambda>_. []) 0x9000" using example_page by (simp add: new_page_iff slab_pages_def slab_set_def)
  then obtain m s1 where m: "kmm_cache_alloc s0 0x2000 = Inr (m, s1)" "m = NULL \<Longrightarrow> (0x9000 :: addr) = NULL"
    using kmm_alloc_cases [OF s0(4,5) pg] by metis
  have m0: "m \<noteq> NULL" using m(2) by auto
  have "client_run (\<lambda>s. kmm_cache_alloc s 0x2000) (\<lambda>s. kmm_cache_free s 0x2000) s0 s1 {m}"
    using run_alloc [OF run_start, of "\<lambda>s. kmm_cache_alloc s 0x2000" s0 m s1] m(1) m0 by simp
  then have "\<exists>m2 s2. kmm_cache_alloc s1 0x2000 = Inr (m2, s2) \<and> m2 \<notin> {m} \<and> (m2 \<noteq> NULL \<longrightarrow> (\<forall>x \<in> {m}. strided (unat (60 :: size_t)) m2 x))"
    using kmm_cache_exclusive [of "0x2000" "example_state [0x9000]" 0 60 0 set "0x500" NULL NULL s0 s1 "{m}"] s0(1) example_page
      pop_page_supply by (simp add: example_state_def)
  then show ?thesis using s0(1) m(1) m0 by auto
qed

text \<open>C8: a well-formed cache of small objects with at least two objects per slab that has a slab with a free object,
  or can have a page (a fresh one, when the function gives one), gives an object: one that is aligned and
  not in use, which is the only change to what is in use. It answers \<open>NULL\<close>, and what is in use stays, exactly when
  every slab is full and the page function has no page.\<close>

theorem kmm_cache_alloc_answers:
  assumes "cache_rep s c k L" and "1 < kcap k"
    and "ALLOC_PAGE_FN s (kmm_pages s) = Inr (p, q)" "p \<noteq> NULL \<Longrightarrow> new_page c L p"
  shows "\<exists>m s' k' L'. kmm_cache_alloc s c = Inr (m, s') \<and> cache_rep s' c k' L' \<and> kstride k' = kstride k \<and>
    (if L Partial = [] \<and> L Empty = [] \<and> p = NULL then m = NULL \<and> in_use k' L' = in_use k L
     else m \<noteq> NULL \<and> m \<notin> in_use k L \<and> in_use k' L' = insert m (in_use k L) \<and> kalign k dvd unat m)"
proof -
  obtain m s' k' L' where m: "kmm_cache_alloc s c = Inr (m, s')" "k' \<in> {k, next_colour k}" "cache_rep s' c k' L'"
    "if L Partial = [] \<and> L Empty = [] \<and> p = NULL then m = NULL \<and> in_use k L' = in_use k L
     else m \<noteq> NULL \<and> m \<notin> in_use k L \<and> in_use k L' = insert m (in_use k L)"
    using kmm_alloc_cases [OF assms] by metis
  have k: "kstride k' = kstride k" "kalign k' = kalign k" "in_use k' = in_use k" using m(2) by auto
  have "kalign k dvd unat m" if "m \<noteq> NULL"
    using in_use_objs(2) [OF m(3), of m] m(4) that unfolding k by (simp split: if_splits)
  then show ?thesis using m(1,3,4) k
    by (intro exI [of _ m] exI [of _ s'] exI [of _ k'] exI [of _ L']) (auto split: if_splits)
qed

theorem kmm_cache_alloc_answers_witness:
  "\<exists>s0 m s1. kmm_cache_init (example_state [0x9000]) 0x2000 0x500 60 0 0 NULL NULL = Inr s0 \<and>
    kmm_cache_alloc s0 0x2000 = Inr (m, s1) \<and> m \<noteq> NULL"
proof -
  obtain s0 k where s0: "kmm_cache_init (example_state [0x9000]) 0x2000 0x500 60 0 0 NULL NULL = Inr s0"
    "ALLOC_PAGE_FN s0 = pop_page" "kmm_pages s0 = [0x9000]" "cache_rep s0 0x2000 k (\<lambda>_. [])" "1 < kcap k"
    using example_init [OF example_sizes(1)] by metis
  have pg: "ALLOC_PAGE_FN s0 (kmm_pages s0) = Inr (0x9000, [])" using s0(2,3) by (simp add: pop_page_def)
  have "new_page 0x2000 (\<lambda>_. []) 0x9000" using example_page by (simp add: new_page_iff slab_pages_def slab_set_def)
  then show ?thesis using kmm_cache_alloc_answers [OF s0(4,5) pg] s0(1) by auto
qed

text \<open>C9: in a well-formed cache of small objects with at least two objects per slab, freeing takes an object out of
  use and leaves the others alone: given back right after it was allocated, it
  restores what is in use, and the cache stays well formed.\<close>

theorem kmm_cache_alloc_free:
  assumes "cache_rep s c k L" and "1 < kcap k"
    and "ALLOC_PAGE_FN s (kmm_pages s) = Inr (p, q)" "p \<noteq> NULL \<Longrightarrow> new_page c L p"
    and "kmm_cache_alloc s c = Inr (m, s')" "m \<noteq> NULL"
  shows "\<exists>s'' k' L'. kmm_cache_free s' c m = Inr s'' \<and> cache_rep s'' c k' L' \<and> in_use k' L' = in_use k L \<and>
    (\<forall>x \<in> in_use k L. \<exists>s'' L''. kmm_cache_free s' c x = Inr s'' \<and> cache_rep s'' c k' L'' \<and>
      in_use k' L'' = insert m (in_use k L - {x}))"
proof -
  obtain k' L' where m: "k' \<in> {k, next_colour k}" "cache_rep s' c k' L'" "m \<notin> in_use k L" "in_use k L' = insert m (in_use k L)"
    using kmm_alloc_cases [OF assms(1-4)] assms(5,6) by (auto split: if_splits)
  have k: "in_use k' = in_use k" "1 < kcap k'" using m(1) assms(2) by auto
  have fr: "\<exists>s'' L''. kmm_cache_free s' c x = Inr s'' \<and> cache_rep s'' c k' L'' \<and> in_use k' L'' = insert m (in_use k L) - {x}"
    if "x \<in> insert m (in_use k L)" for x
    using kmm_free_ok [OF m(2) k(2), of x] that m(4) unfolding k(1) by metis
  have "insert m (in_use k L) - {m} = in_use k L" using m(3) by auto
  then obtain s'' L'' where "kmm_cache_free s' c m = Inr s''" "cache_rep s'' c k' L''" "in_use k' L'' = in_use k L"
    using fr [of m] by auto
  moreover have "insert m (in_use k L) - {x} = insert m (in_use k L - {x})" if "x \<in> in_use k L" for x
    using m(3) that by auto
  then have "\<forall>x \<in> in_use k L. \<exists>s'' L''. kmm_cache_free s' c x = Inr s'' \<and> cache_rep s'' c k' L'' \<and>
      in_use k' L'' = insert m (in_use k L - {x})" using fr by fastforce
  ultimately show ?thesis by blast
qed

theorem kmm_cache_alloc_free_witness:
  "\<exists>s0 m s1 s2. kmm_cache_init (example_state [0x9000]) 0x2000 0x500 60 0 0 NULL NULL = Inr s0 \<and>
    kmm_cache_alloc s0 0x2000 = Inr (m, s1) \<and> m \<noteq> NULL \<and> kmm_cache_free s1 0x2000 m = Inr s2"
proof -
  obtain s0 k where s0: "kmm_cache_init (example_state [0x9000]) 0x2000 0x500 60 0 0 NULL NULL = Inr s0"
    "ALLOC_PAGE_FN s0 = pop_page" "kmm_pages s0 = [0x9000]" "cache_rep s0 0x2000 k (\<lambda>_. [])" "1 < kcap k"
    using example_init [OF example_sizes(1)] by metis
  have pg: "ALLOC_PAGE_FN s0 (kmm_pages s0) = Inr (0x9000, [])" using s0(2,3) by (simp add: pop_page_def)
  have n: "new_page 0x2000 (\<lambda>_. []) 0x9000" using example_page by (simp add: new_page_iff slab_pages_def slab_set_def)
  then obtain m s1 where m: "kmm_cache_alloc s0 0x2000 = Inr (m, s1)" "m = NULL \<Longrightarrow> (0x9000 :: addr) = NULL"
    using kmm_alloc_cases [OF s0(4,5) pg] by metis
  have m0: "m \<noteq> NULL" using m(2) by auto
  show ?thesis using kmm_cache_alloc_free [OF s0(4,5) pg n m(1) m0] s0(1) m(1) m0 by blast
qed

section \<open>Slabs of one object\<close>

lemma one_object_slab:
  assumes rep: "cache_rep s c k L" and one: "kcap k = 1" and l: "L Partial = []" "L Empty \<noteq> []"
  shows "\<exists>m s'. kmm_cache_alloc s c = Inr (m, s') \<and> m \<noteq> NULL \<and> kmm_cache_alloc s' c = Inl Kassert"
proof -
  obtain h L1 v where fe: "find_existing_slab s c = Inr (slab_addr v, s\<lparr>kmm_links := h\<rparr>)"
    "cache_pre (s\<lparr>kmm_links := h\<rparr>) c k L1" "moved L v Empty Partial L1"
  proof -
    obtain h L1 v a b where fe: "find_existing_slab s c = Inr (slab_addr v, s\<lparr>kmm_links := h\<rparr>)"
      "cache_pre (s\<lparr>kmm_links := h\<rparr>) c k L1" "moved L v a b L1"
      "if a = Partial then b = (if length (slab_free v) = 1 then Full else Partial) else a = Empty \<and> b = Partial"
      using find_existing_ok [OF rep] l by auto
    moreover have "a \<noteq> Partial" using fe(3) l(1) by (auto simp: moved_def)
    ultimately show ?thesis using that by simp
  qed
  have v: "v \<in> set (L Empty)" "v \<in> set (L1 Partial)" using fe(3) by (auto simp: moved_def)
  have "w = v" if "w \<in> set (L1 Partial)" for w
    using fe(3) that unfolding moved_def by (metis empty_iff empty_set l(1))
  then have "set (L1 Partial) = {v}" using v(2) by blast
  moreover have "distinct (L1 Partial)" using cache_preD(9) [OF fe(2)] by (simp add: distinct_map)
  ultimately have "length (L1 Partial) = 1" using distinct_card by fastforce
  then obtain u where "L1 Partial = [u]" by (cases "L1 Partial") auto
  then have L1: "L1 Partial = [v]" using v(2) by simp
  have "length (slab_free v) = 1" using rep v(1) one by (auto simp: cache_rep_def right_list_def dest!: spec [of _ Empty])
  then obtain f where f: "slab_free v = [f]" by (cases "slab_free v") auto
  obtain h2 s2 where oa: "object_alloc (snd (kmm_ops 1)) (s\<lparr>kmm_links := h\<rparr>) (slab_addr v) c = Inr (f, s2)"
    "cache_pre s2 c k (set_free L1 v [])" "f \<noteq> NULL"
    using object_alloc_ok [OF fe(2) v(2) f] by blast
  note d1 = cache_preD [OF fe(2)] and d2 = cache_preD [OF oa(2)]
  have first: "kmm_cache_alloc s c = Inr (f, s2)"
    using fe(1) oa(1,3) d1(4) slab_rep_page(3) [OF d1(7) [OF v(2)]] by (simp add: kmm_ops_2 cache_alloc_with_def)
  let ?w = "v\<lparr>slab_free := []\<rparr>"
  have L2: "set_free L1 v [] Partial = [?w]" using L1 by (simp add: set_free_def)
  have w: "slab_rep k s2 ?w" using d2(7) [of ?w Partial] L2 by simp
  have cap: "kc_slab_capacity k = 1" using one word32_eqI [of "kc_slab_capacity k" 1] by (simp add: kcap_def)
  have lst: "slist_is_empty (kmm_links s2) (slabs_partial c) = Inr False" "slist_next (kmm_links s2) (slabs_partial c) = Inr (slab_addr ?w)"
    using slist_is_empty_rep [OF d2(6) [of Partial]] sl.nxt_law [OF d2(6) [of Partial]] L2 by simp_all
  have "slist_is_empty (kmm_links s2) (free_buffers (slab_addr ?w)) = Inr True"
    using slist_is_empty_rep [of "kmm_links s2" "free_buffers (slab_addr ?w)" "[]"] w by (simp add: slab_rep_def)
  then have "object_alloc (snd (kmm_ops 1)) s2 (slab_addr ?w) c = Inl Kassert"
    using slab_rep_page(3) [OF w] by (simp add: object_alloc_def)
  moreover have "find_existing_slab s2 c = Inr (slab_addr ?w, s2)"
    using lst w d2(2,4) one cap by (simp add: find_existing_slab_def slab_at_def cache_at_def slab_rep_def)
  ultimately have "kmm_cache_alloc s2 c = Inl Kassert"
    using d2(4) slab_rep_page(3) [OF w] by (simp add: kmm_ops_2 cache_alloc_with_def)
  then show ?thesis using first oa(3) by blast
qed

text \<open>C10: when a slab holds one object, taking the object of an empty slab puts the slab among the partly used
  ones although it is full (\<open>find_existing_slab\<close> asks whether the slab gets full only of a slab that was
  partly used): the next allocation finds the slab and stops at an assertion.\<close>

theorem kmm_one_object_slab_fails:
  assumes "cache_rep s c k L" and "kcap k = 1" and "L Partial = []" "L Empty \<noteq> []"
  shows "\<exists>m s'. kmm_cache_alloc s c = Inr (m, s') \<and> m \<noteq> NULL \<and> kmm_cache_alloc s' c = Inl Kassert"
  by (rule one_object_slab [OF assms])

definition one_cache :: kmm_cache where
  "one_cache = \<lparr>kc_size = 4, kc_alignment = 2048, kc_slab_capacity = 1, kc_stride = 2048, kc_colour_max = 2028,
     kc_colour_off = 2048, kc_colour_next = 0, kc_flags = 0, kc_name = 0x500, kc_ctor = NULL, kc_dtor = NULL\<rparr>"

definition one_state :: "addr list kmm_state" where
  "one_state = (example_state [])\<lparr>kmm_caches := [0x2000 \<mapsto> one_cache],
     kmm_slabs := [0x9004 \<mapsto> \<lparr>ks_page = 0x9000, ks_objects_inuse = 0\<rparr>], page_owner := [0x9000 \<mapsto> 0x9004],
     kmm_links := [0x202C \<mapsto> 0x9004, 0x2030 \<mapsto> 0, 0x2034 \<mapsto> 0, 0x9004 \<mapsto> 0, 0x9008 \<mapsto> 0x9804, 0x9804 \<mapsto> 0]\<rparr>"

definition one_slab :: slab_view where
  "one_slab = \<lparr>slab_page = 0x9000, slab_base = 0x9800, slab_free = [0x9800]\<rparr>"

definition one_lists :: "slab_list \<Rightarrow> slab_view list" where
  "one_lists l = (case l of Empty \<Rightarrow> [one_slab] | _ \<Rightarrow> [])"

lemma one_small: "small_cache one_cache" "kcap one_cache = 1"
proof -
  have "(2048 :: size_t) = 2 ^ 11" by simp
  then show "small_cache one_cache"
    by (auto simp: small_cache_def one_cache_def kcap_def kstride_def kalign_def is_large_def intro!: exI [of _ 11])
qed (simp add: one_cache_def kcap_def)

lemma one_rep: "cache_rep one_state 0x2000 one_cache one_lists"
proof -
  have o: "objs one_cache 0x9800 = [0x9800]" by (simp add: objs_def one_small obj_at_def)
  have c: "obj_ctl one_cache 0x9800 = 0x9804" by (simp add: obj_ctl_def one_cache_def align_roundup_def)
  have "place_ok one_cache 0x9000 0x9800"
    using example_page(1) by (simp add: place_ok_def one_small) (simp add: kalign_def kstride_def one_cache_def)
  then have r: "slab_rep one_cache one_state one_slab"
    using o c by (simp add: slab_rep_def one_slab_def slab_addr_def one_small one_state_def free_buffers_def slist_rep_def)
  have h: "slist_rep (kmm_links one_state) (slab_head 0x2000 l) (map slab_addr (one_lists l))" for l
    by (cases l) (simp_all add: one_state_def one_lists_def slist_rep_def slabs_empty_def slabs_partial_def slabs_full_def
        one_slab_def slab_addr_def)
  have p: "slab_page one_slab \<noteq> page_of (slab_head 0x2000 l)" for l
    using example_page(2) by (simp add: outside_cache_def one_slab_def)
  have k: "kmm_caches one_state 0x2000 = Some one_cache" by (simp add: one_state_def)
  show ?thesis
    unfolding cache_rep_def cache_pre_def using r h p k example_page(3) one_small
    by (auto simp: one_lists_def right_list_def one_slab_def split: slab_list.splits)
qed

theorem kmm_one_object_slab_fails_witness:
  "\<exists>m s'. kmm_cache_alloc one_state 0x2000 = Inr (m, s') \<and> m \<noteq> NULL \<and> kmm_cache_alloc s' 0x2000 = Inl Kassert"
  by (rule kmm_one_object_slab_fails [OF one_rep]) (simp_all add: one_small one_lists_def)

end
