(* ===== verification/Resources.thy ===== *)
theory Resources
  imports Kvstore Slist
begin

text \<open>
  kernel/kernel/resources.c: the registry of the resources of the platform. The objects are taken from an
  array of 256, one after the other; a list holds the free ones and another the claimed ones, each with
  the newest first. In a \<open>struct resource\<close> (i686 layout, 28 bytes) the link is at \<open>r + 8\<close>. The union
  \<open>resource_owner\<close> is the word of its larger member, and \<open>state\<close> (an enum of one byte) its low byte; the
  two members of \<open>resource_data\<close> have the same fields.
\<close>

unbundle bit_operations_syntax

section \<open>State\<close>

datatype resource_type = RESOURCE_TYPE_MEMORY | RESOURCE_TYPE_DEV_BUFFER

record resource =
  rs_device_id :: addr
  rs_resource_id :: addr
  rs_owner :: u32
  rs_type :: resource_type
  rs_base :: addr
  rs_len :: size_t

record res_state =
  res_objects :: "addr \<rightharpoonup> resource"
  res_links :: slist_heap
  RESOURCES_STORAGE :: addr
  RESOURCES_NEXT_FREE_NDX :: size_t
  claimed_head :: addr
  free_head :: addr

definition RES_OWNER_NONE :: u8 where "RES_OWNER_NONE = 0"
definition RES_OWNER_KERNEL :: u32 where "RES_OWNER_KERNEL = 1"
definition MAX_RESOURCES :: size_t where "MAX_RESOURCES = 256"

definition resource_link :: "addr \<Rightarrow> addr" where "resource_link r = r + 8"
definition resource_of :: "addr \<Rightarrow> addr" where "resource_of l = l - 8"
definition owner_state :: "u32 \<Rightarrow> u8" where "owner_state u = ucast u"

lemma resource_of_link [simp]: "resource_of (resource_link r) = r"
  by (simp add: resource_of_def resource_link_def)

lemma resource_link_eq [simp]: "resource_link r = resource_link q \<longleftrightarrow> r = q"
  by (simp add: resource_link_def)

definition resource_at :: "res_state \<Rightarrow> addr \<Rightarrow> resource kres" where
  "resource_at s r = (case res_objects s r of None \<Rightarrow> Inl Undef | Some x \<Rightarrow> Inr x)"

section \<open>Operations\<close>

definition resources_init :: "res_state \<Rightarrow> res_state kres" where
  "resources_init s =
     kbind (slist_init (res_links s) (claimed_head s)) (\<lambda>h.
     kbind (slist_init h (free_head s)) (\<lambda>h. Inr (s\<lparr>res_links := h\<rparr>)))"

definition resources_get_new :: "res_state \<Rightarrow> (addr \<times> res_state) kres" where
  "resources_get_new s =
     (let max_ndx = MAX_RESOURCES - 1 in
      if RESOURCES_NEXT_FREE_NDX s > max_ndx then Inl Kassert
      else Inr (RESOURCES_STORAGE s + 28 * RESOURCES_NEXT_FREE_NDX s,
        s\<lparr>RESOURCES_NEXT_FREE_NDX := RESOURCES_NEXT_FREE_NDX s + 1\<rparr>))"

text \<open>The search of the free list: the node before the first resource that matches, if one does.\<close>

fun claim_loop :: "nat \<Rightarrow> res_state \<Rightarrow> (resource \<Rightarrow> bool kres) \<Rightarrow> addr \<Rightarrow> (bool \<times> addr) kres" where
  "claim_loop 0 s matches cursor = Inl Fuel"
| "claim_loop (Suc fuel) s matches cursor =
     kbind (slist_next (res_links s) cursor) (\<lambda>nxt.
       if nxt \<noteq> NULL
       then kbind (resource_at s (resource_of nxt)) (\<lambda>r.
         kbind (matches r) (\<lambda>m. if m then Inr (True, cursor) else claim_loop fuel s matches nxt))
       else Inr (False, cursor))"

definition claim_found :: "res_state \<Rightarrow> addr \<Rightarrow> u32 \<Rightarrow> (addr \<times> res_state) kres" where
  "claim_found s cursor owner =
     kbind (slist_next (res_links s) cursor) (\<lambda>resource_ref.
     kbind (slist_remove_next (res_links s) cursor) (\<lambda>h.
     kbind (slist_insert h (claimed_head s) resource_ref) (\<lambda>h.
     let r = resource_of resource_ref in
     kbind (resource_at s r) (\<lambda>x.
     kassert (owner_state (rs_owner x) = RES_OWNER_NONE)
       (Inr (r, s\<lparr>res_links := h, res_objects := (res_objects s)(r \<mapsto> x\<lparr>rs_owner := owner\<rparr>)\<rparr>))))))"

definition claim_by_id :: "(addr \<Rightarrow> u8 list) \<Rightarrow> res_state \<Rightarrow> addr \<Rightarrow> addr \<Rightarrow> u32 \<Rightarrow> (addr \<times> res_state) kres" where
  "claim_by_id strs s device_id resource_id owner =
     kbind (claim_loop addr_fuel s (\<lambda>r.
       kbind (kstrcmp_at strs device_id (rs_device_id r)) (\<lambda>match_dev.
       kbind (kstrcmp_at strs resource_id (rs_resource_id r)) (\<lambda>match_res.
         Inr (match_dev = 0 \<and> match_res = 0)))) (free_head s)) (\<lambda>(found, cursor).
     if \<not> found then Inr (NULL, s) else claim_found s cursor owner)"

definition claim_by_type :: "res_state \<Rightarrow> resource_type \<Rightarrow> u32 \<Rightarrow> (addr \<times> res_state) kres" where
  "claim_by_type s typ owner =
     kbind (claim_loop addr_fuel s (\<lambda>r. Inr (rs_type r = typ)) (free_head s)) (\<lambda>(found, cursor).
     if \<not> found then Inr (NULL, s) else claim_found s cursor owner)"

definition resources_claim_by_id :: "(addr \<Rightarrow> u8 list) \<Rightarrow> res_state \<Rightarrow> addr \<Rightarrow> addr \<Rightarrow> addr \<Rightarrow> (addr \<times> res_state) kres" where
  "resources_claim_by_id strs s device_id resource_id owner = claim_by_id strs s device_id resource_id owner"

definition resources_claim_by_type :: "res_state \<Rightarrow> resource_type \<Rightarrow> addr \<Rightarrow> (addr \<times> res_state) kres" where
  "resources_claim_by_type s typ owner = claim_by_type s typ owner"

definition resources_kclaim_by_id :: "(addr \<Rightarrow> u8 list) \<Rightarrow> res_state \<Rightarrow> addr \<Rightarrow> addr \<Rightarrow> (addr \<times> res_state) kres" where
  "resources_kclaim_by_id strs s device_id resource_id = claim_by_id strs s device_id resource_id RES_OWNER_KERNEL"

definition resources_kclaim_by_type :: "res_state \<Rightarrow> resource_type \<Rightarrow> (addr \<times> res_state) kres" where
  "resources_kclaim_by_type s typ = claim_by_type s typ RES_OWNER_KERNEL"

definition resources_register :: "res_state \<Rightarrow> addr \<Rightarrow> addr \<Rightarrow> resource_type \<Rightarrow> addr \<times> size_t \<Rightarrow> res_state kres" where
  "resources_register s device_id resource_id typ d =
     kbind (resources_get_new s) (\<lambda>(new, s).
     kassert (new \<noteq> NULL)
     (kbind (slist_init (res_links s) (resource_link new)) (\<lambda>h.
      kbind (resource_at s new) (\<lambda>x.
      kbind (slist_insert h (free_head s) (resource_link new)) (\<lambda>h.
        Inr (s\<lparr>res_links := h, res_objects := (res_objects s)(new \<mapsto>
          \<lparr>rs_device_id = device_id, rs_resource_id = resource_id, rs_owner = rs_owner x AND NOT 0xFF,
            rs_type = typ, rs_base = fst d, rs_len = snd d\<rparr>)\<rparr>))))))"

section \<open>The free and the claimed resources\<close>

text \<open>\<open>res_ok s F C\<close>: \<open>F\<close> are the free and \<open>C\<close> the claimed resources, each the newest first.\<close>

definition res_ok :: "(addr \<Rightarrow> u8 list) \<Rightarrow> res_state \<Rightarrow> addr list \<Rightarrow> addr list \<Rightarrow> bool" where
  "res_ok strs s F C \<longleftrightarrow> slist_rep (res_links s) (free_head s) (map resource_link F) \<and>
     slist_rep (res_links s) (claimed_head s) (map resource_link C) \<and>
     free_head s \<notin> set (claimed_head s # map resource_link C) \<and> claimed_head s \<notin> set (map resource_link F) \<and>
     set F \<inter> set C = {} \<and>
     (\<forall>r \<in> set F. \<exists>x. res_objects s r = Some x \<and> owner_state (rs_owner x) = RES_OWNER_NONE \<and>
        string_at strs (rs_device_id x) \<and> string_at strs (rs_resource_id x))"

definition res_obj :: "res_state \<Rightarrow> addr \<Rightarrow> resource" where
  "res_obj s r = the (res_objects s r)"

lemma claim_loop_ok:
  assumes "slist_rep (res_links s) p (map resource_link (us @ vs))"
    and "\<forall>r \<in> set vs. res_objects s r = Some (res_obj s r) \<and> mt (res_obj s r) = Inr (P r)"
    and "length vs < fuel"
  shows "claim_loop fuel s mt (last (p # map resource_link us)) =
    Inr (case find P vs of None \<Rightarrow> (False, last (p # map resource_link (us @ vs)))
      | Some r \<Rightarrow> (True, last (p # map resource_link (us @ takeWhile (\<lambda>x. \<not> P x) vs))))"
  using assms
proof (induction vs arbitrary: us fuel)
  case Nil
  then show ?case using slist_next_rep [of "res_links s" p "map resource_link us" "[]"]
    by (cases fuel) (auto simp del: last.simps)
next
  case (Cons r vs)
  obtain f where f: "fuel = Suc f" using Cons.prems(3) by (cases fuel) auto
  have sl: "slist_rep (res_links s) p (map resource_link us @ map resource_link (r # vs))" using Cons.prems(1) by simp
  have nx: "slist_next (res_links s) (last (p # map resource_link us)) = Inr (resource_link r)"
    using slist_next_rep [OF sl] by simp
  have nn: "resource_link r \<noteq> NULL" using slist_repD(5) [OF sl] by auto
  show ?case
  proof (cases "P r")
    case True
    then show ?thesis using f nx nn Cons.prems(2) by (simp add: resource_at_def del: last.simps)
  next
    case False
    have "slist_rep (res_links s) p (map resource_link ((us @ [r]) @ vs))" using Cons.prems(1) by simp
    moreover have "last (p # map resource_link (us @ [r])) = resource_link r" by simp
    ultimately have "claim_loop f s mt (resource_link r) = Inr (case find P vs of
        None \<Rightarrow> (False, last (p # map resource_link ((us @ [r]) @ vs)))
      | Some r' \<Rightarrow> (True, last (p # map resource_link ((us @ [r]) @ takeWhile (\<lambda>x. \<not> P x) vs))))"
      using Cons.IH [of "us @ [r]" f] Cons.prems(2,3) f by simp
    then
    show ?thesis using nx nn False Cons.prems(2) f
      by (auto simp: resource_at_def simp del: last.simps split: option.splits)
  qed
qed

lemma claim_found_ok:
  assumes ok: "res_ok strs s (ls @ r # rs) C"
  shows "\<exists>s'. claim_found s (last (free_head s # map resource_link ls)) owner = Inr (r, s') \<and>
    res_ok strs s' (ls @ rs) (r # C) \<and> res_objects s' = (res_objects s)(r \<mapsto> (res_obj s r)\<lparr>rs_owner := owner\<rparr>)"
proof -
  let ?p = "free_head s" and ?c = "claimed_head s" and ?l = "last (free_head s # map resource_link ls)"
  have fr: "slist_rep (res_links s) ?p (map resource_link ls @ resource_link r # map resource_link rs)"
    and cl: "slist_rep (res_links s) ?c (map resource_link C)"
    and ap: "?p \<notin> set (?c # map resource_link C)" "?c \<notin> set (map resource_link (ls @ r # rs))" "set (ls @ r # rs) \<inter> set C = {}"
    and obj: "\<forall>q \<in> set (ls @ r # rs). \<exists>x. res_objects s q = Some x \<and> owner_state (rs_owner x) = RES_OWNER_NONE \<and>
        string_at strs (rs_device_id x) \<and> string_at strs (rs_resource_id x)"
    using ok by (simp_all add: res_ok_def)
  note d = slist_repD [OF fr] and dc = slist_repD [OF cl]
  have x: "res_objects s r = Some (res_obj s r)" "owner_state (rs_owner (res_obj s r)) = RES_OWNER_NONE"
    using obj by (auto simp: res_obj_def)
  have nx: "slist_next (res_links s) ?l = Inr (resource_link r)" using slist_next_rep [OF fr] by simp
  obtain h1 where h1: "slist_remove_next (res_links s) ?l = Inr h1" "slist_rep h1 ?p (map resource_link ls @ map resource_link rs)"
    "\<And>q. q \<noteq> ?l \<Longrightarrow> h1 q = res_links s q" using slist_remove_next_rep [OF fr] by metis
  have l: "?l \<in> set (?p # map resource_link ls)" by (rule last_in_set) simp
  have "set (?p # map resource_link ls) \<inter> set (?c # map resource_link C) = {}" using ap by (auto simp: image_iff)
  then have "q \<noteq> ?l" if "q \<in> set (?c # map resource_link C)" for q using l that by blast
  then have c1: "slist_rep h1 ?c (map resource_link C)"
    using slist_rep_frame [OF cl] h1(3) slist_repD(1) [OF h1(2)] by blast
  have new: "resource_link r \<noteq> NULL" "resource_link r \<notin> set (?c # [] @ map resource_link C)" using d(5) ap by auto
  obtain h2 where h2: "slist_insert h1 (last [?c]) (resource_link r) = Inr h2"
    "slist_rep h2 ?c ([] @ resource_link r # map resource_link C)"
    "\<And>q. q \<noteq> last [?c] \<Longrightarrow> q \<noteq> resource_link r \<Longrightarrow> h2 q = h1 q"
    using slist_insert_rep [of h1 ?c "[]" "map resource_link C" "resource_link r"] c1 new by (metis append_Nil)
  have "q \<noteq> ?c \<and> q \<noteq> resource_link r" if "q \<in> set (?p # map resource_link ls @ map resource_link rs)" for q
    using that ap d(4) by (auto simp: image_iff)
  then have f2: "slist_rep h2 ?p (map resource_link (ls @ rs))"
    using slist_rep_frame [OF h1(2)] h2(3) slist_repD(1) [OF h2(2)] by simp
  let ?s = "s\<lparr>res_links := h2, res_objects := (res_objects s)(r \<mapsto> (res_obj s r)\<lparr>rs_owner := owner\<rparr>)\<rparr>"
  have step: "claim_found s ?l owner = Inr (r, ?s)"
    using nx h1(1) h2(1) [unfolded last.simps] x by (simp add: claim_found_def resource_at_def del: last.simps)
  have rn: "r \<notin> set (ls @ rs)" using d(4) by auto
  have "res_ok strs ?s (ls @ rs) (r # C)"
    unfolding res_ok_def using f2 h2(2) ap d(4) rn obj by auto
  then show ?thesis using step by auto
qed

text \<open>Claiming takes the newest free resource that matches.\<close>

lemma claim_ok:
  assumes ok: "res_ok strs s F C" and mt: "\<forall>r \<in> set F. mt (res_obj s r) = Inr (P r)"
  shows "kbind (claim_loop addr_fuel s mt (free_head s)) (\<lambda>(found, cursor).
      if \<not> found then Inr (NULL, s) else claim_found s cursor owner) = Inr (r, s') \<Longrightarrow>
    (case find P F of None \<Rightarrow> r = NULL \<and> s' = s
     | Some q \<Rightarrow> r = q \<and> res_ok strs s' (remove1 q F) (q # C) \<and>
         res_objects s' = (res_objects s)(q \<mapsto> (res_obj s q)\<lparr>rs_owner := owner\<rparr>))"
    and "\<exists>r s'. kbind (claim_loop addr_fuel s mt (free_head s)) (\<lambda>(found, cursor).
      if \<not> found then Inr (NULL, s) else claim_found s cursor owner) = Inr (r, s')"
proof -
  have fr: "slist_rep (res_links s) (free_head s) (map resource_link ([] @ F))" using ok by (simp add: res_ok_def)
  have obj: "\<forall>r \<in> set F. res_objects s r = Some (res_obj s r) \<and> mt (res_obj s r) = Inr (P r)"
    using ok mt by (auto simp: res_ok_def res_obj_def)
  have dist: "distinct (free_head s # map resource_link F)" using slist_repD(4) [OF fr] by simp
  then have "length F < addr_fuel" using distinct_addr_length [of "free_head s # map resource_link F"] by simp
  from claim_loop_ok [OF fr obj this, unfolded append_Nil]
  have lp: "claim_loop addr_fuel s mt (free_head s) = Inr (case find P F of None \<Rightarrow> (False, last (free_head s # map resource_link F))
      | Some r \<Rightarrow> (True, last (free_head s # map resource_link (takeWhile (\<lambda>x. \<not> P x) F))))" by simp
  have "\<exists>r s'. kbind (claim_loop addr_fuel s mt (free_head s)) (\<lambda>(found, cursor).
      if \<not> found then Inr (NULL, s) else claim_found s cursor owner) = Inr (r, s') \<and>
    (case find P F of None \<Rightarrow> r = NULL \<and> s' = s
     | Some q \<Rightarrow> r = q \<and> res_ok strs s' (remove1 q F) (q # C) \<and>
         res_objects s' = (res_objects s)(q \<mapsto> (res_obj s q)\<lparr>rs_owner := owner\<rparr>))"
  proof (cases "find P F")
    case None
    then show ?thesis using lp by simp
  next
    case (Some q)
    let ?ls = "takeWhile (\<lambda>x. \<not> P x) F"
    obtain rs where F: "F = ?ls @ q # rs"
    proof -
      have "dropWhile (\<lambda>x. \<not> P x) F = q # tl (dropWhile (\<lambda>x. \<not> P x) F)"
        using Some by (induction F) auto
      then show ?thesis using that by (metis takeWhile_dropWhile_id)
    qed
    have "q \<notin> set ?ls" using Some by (auto simp: find_Some_iff dest: set_takeWhileD)
    then have "remove1 q F = ?ls @ rs" by (subst F) (simp add: remove1_append)
    moreover obtain s' where "claim_found s (last (free_head s # map resource_link ?ls)) owner = Inr (q, s')"
      "res_ok strs s' (?ls @ rs) (q # C)" "res_objects s' = (res_objects s)(q \<mapsto> (res_obj s q)\<lparr>rs_owner := owner\<rparr>)"
      using claim_found_ok [of strs s ?ls q rs C owner] ok F by metis
    ultimately show ?thesis using lp Some by (auto simp del: last.simps)
  qed
  then show "kbind (claim_loop addr_fuel s mt (free_head s)) (\<lambda>(found, cursor).
      if \<not> found then Inr (NULL, s) else claim_found s cursor owner) = Inr (r, s') \<Longrightarrow>
    (case find P F of None \<Rightarrow> r = NULL \<and> s' = s
     | Some q \<Rightarrow> r = q \<and> res_ok strs s' (remove1 q F) (q # C) \<and>
         res_objects s' = (res_objects s)(q \<mapsto> (res_obj s q)\<lparr>rs_owner := owner\<rparr>))"
    "\<exists>r s'. kbind (claim_loop addr_fuel s mt (free_head s)) (\<lambda>(found, cursor).
      if \<not> found then Inr (NULL, s) else claim_found s cursor owner) = Inr (r, s')" by auto
qed

text \<open>Registering a resource puts it in front of the free ones.\<close>

lemma register_ok:
  assumes ok: "res_ok strs s F C" and new: "new = RESOURCES_STORAGE s + 28 * RESOURCES_NEXT_FREE_NDX s" "new \<noteq> NULL"
    "resource_link new \<noteq> NULL" "resource_link new \<notin> {free_head s, claimed_head s}" "new \<notin> set F \<union> set C" "res_objects s new \<noteq> None"
    and room: "RESOURCES_NEXT_FREE_NDX s < MAX_RESOURCES"
    and ids: "string_at strs dev" "string_at strs res"
  shows "\<exists>s'. resources_register s dev res typ (b, n) = Inr s' \<and> res_ok strs s' (new # F) C \<and>
    rs_device_id (res_obj s' new) = dev \<and> rs_resource_id (res_obj s' new) = res \<and> rs_type (res_obj s' new) = typ \<and>
    rs_base (res_obj s' new) = b \<and> rs_len (res_obj s' new) = n \<and>
    RESOURCES_NEXT_FREE_NDX s' = RESOURCES_NEXT_FREE_NDX s + 1 \<and> (\<forall>r. r \<noteq> new \<longrightarrow> res_objects s' r = res_objects s r)"
proof -
  let ?p = "free_head s" and ?c = "claimed_head s" and ?l = "resource_link new"
  have fr: "slist_rep (res_links s) ?p (map resource_link F)" and cl: "slist_rep (res_links s) ?c (map resource_link C)"
    and ap: "?p \<notin> set (?c # map resource_link C)" "?c \<notin> set (map resource_link F)" "set F \<inter> set C = {}"
    and obj: "\<forall>q \<in> set F. \<exists>x. res_objects s q = Some x \<and> owner_state (rs_owner x) = RES_OWNER_NONE \<and>
        string_at strs (rs_device_id x) \<and> string_at strs (rs_resource_id x)"
    using ok by (simp_all add: res_ok_def)
  obtain x where x: "res_objects s new = Some x" using new(6) by blast
  let ?h1 = "(res_links s)(?l \<mapsto> NULL)"
  have lf: "?l \<notin> set (?p # map resource_link F)" "?l \<notin> set (?c # map resource_link C)" using new(4,5) by auto
  have n1: "?h1 NULL = None" using slist_repD(1) [OF fr] new(3) by simp
  have f1: "slist_rep ?h1 ?p ([] @ map resource_link F)" using slist_rep_frame [OF fr, of ?h1] lf n1 by fastforce
  have c1: "slist_rep ?h1 ?c (map resource_link C)" using slist_rep_frame [OF cl, of ?h1] lf n1 by fastforce
  obtain h2 where h2: "slist_insert ?h1 (last [?p]) ?l = Inr h2" "slist_rep h2 ?p ([] @ ?l # map resource_link F)"
    "\<And>q. q \<noteq> last [?p] \<Longrightarrow> q \<noteq> ?l \<Longrightarrow> h2 q = ?h1 q"
    using slist_insert_rep [OF f1, of ?l] new(3) lf(1) by (metis append_Nil)
  have "h2 q = ?h1 q" if "q \<in> set (?c # map resource_link C)" for q
  proof -
    have "q \<noteq> ?p" "q \<noteq> ?l" using that ap(1) lf(2) by (auto simp: image_iff)
    then show ?thesis using h2(3) by simp
  qed
  then have c2: "slist_rep h2 ?c (map resource_link C)"
    using slist_rep_frame [OF c1] slist_repD(1) [OF h2(2)] by blast
  let ?x = "\<lparr>rs_device_id = dev, rs_resource_id = res, rs_owner = rs_owner x AND NOT 0xFF, rs_type = typ, rs_base = b, rs_len = n\<rparr>"
  let ?s = "s\<lparr>RESOURCES_NEXT_FREE_NDX := RESOURCES_NEXT_FREE_NDX s + 1, res_links := h2, res_objects := (res_objects s)(new \<mapsto> ?x)\<rparr>"
  have nl: "\<not> 255 < RESOURCES_NEXT_FREE_NDX s" using room by (simp add: MAX_RESOURCES_def word_less_nat_alt)
  have step: "resources_register s dev res typ (b, n) = Inr ?s"
    using nl new(1-3) x h2(1)
    by (simp add: resources_register_def resources_get_new_def resource_at_def slist_init_def Let_def MAX_RESOURCES_def)
  have m: "(0xFF :: u32) = mask 8" by (simp add: mask_eq_exp_minus_1)
  have "owner_state (rs_owner x AND NOT 0xFF) = RES_OWNER_NONE"
    unfolding m owner_state_def RES_OWNER_NONE_def by (rule bit_word_eqI) (auto simp: bit_simps)
  then have "res_ok strs ?s (new # F) C"
    unfolding res_ok_def using h2(2) c2 ap lf new(5) obj ids by auto
  then show ?thesis using step by (auto simp: res_obj_def)
qed

lemma ids_match:
  assumes "string_at strs dev" "string_at strs res" "string_at strs (rs_device_id r)" "string_at strs (rs_resource_id r)"
  shows "kbind (kstrcmp_at strs dev (rs_device_id r)) (\<lambda>match_dev.
       kbind (kstrcmp_at strs res (rs_resource_id r)) (\<lambda>match_res. Inr (match_dev = 0 \<and> match_res = 0))) =
    Inr (cstr_of strs dev = cstr_of strs (rs_device_id r) \<and> cstr_of strs res = cstr_of strs (rs_resource_id r))"
proof -
  obtain c where "kstrcmp_at strs dev (rs_device_id r) = Inr c" "c = 0 \<longleftrightarrow> cstr_of strs dev = cstr_of strs (rs_device_id r)"
    using kc.cmp_law [OF assms(1,3)] by blast
  moreover obtain e where "kstrcmp_at strs res (rs_resource_id r) = Inr e" "e = 0 \<longleftrightarrow> cstr_of strs res = cstr_of strs (rs_resource_id r)"
    using kc.cmp_law [OF assms(2,4)] by blast
  ultimately show ?thesis by simp
qed

section \<open>Properties\<close>

definition same_ids :: "(addr \<Rightarrow> u8 list) \<Rightarrow> res_state \<Rightarrow> addr \<Rightarrow> addr \<Rightarrow> addr \<Rightarrow> bool" where
  "same_ids strs s dev res r \<longleftrightarrow> cstr_of strs dev = cstr_of strs (rs_device_id (res_obj s r)) \<and>
     cstr_of strs res = cstr_of strs (rs_resource_id (res_obj s r))"

lemma kclaim_ok:
  assumes "res_ok strs s F C" and "string_at strs dev" "string_at strs res"
  shows "\<exists>r s'. resources_kclaim_by_id strs s dev res = Inr (r, s') \<and>
    (case find (same_ids strs s dev res) F of None \<Rightarrow> r = NULL \<and> s' = s
     | Some q \<Rightarrow> r = q \<and> res_ok strs s' (remove1 q F) (q # C) \<and>
         res_objects s' = (res_objects s)(q \<mapsto> (res_obj s q)\<lparr>rs_owner := RES_OWNER_KERNEL\<rparr>))"
proof -
  have "\<forall>r \<in> set F. string_at strs (rs_device_id (res_obj s r)) \<and> string_at strs (rs_resource_id (res_obj s r))"
    using assms(1) by (auto simp: res_ok_def res_obj_def)
  then have mt: "\<forall>r \<in> set F. kbind (kstrcmp_at strs dev (rs_device_id (res_obj s r))) (\<lambda>match_dev.
       kbind (kstrcmp_at strs res (rs_resource_id (res_obj s r))) (\<lambda>match_res. Inr (match_dev = 0 \<and> match_res = 0))) =
     Inr (same_ids strs s dev res r)"
    unfolding same_ids_def by (intro ballI ids_match [OF assms(2,3)]) simp_all
  show ?thesis
    using claim_ok(2) [OF assms(1) mt, of RES_OWNER_KERNEL] claim_ok(1) [OF assms(1) mt, of RES_OWNER_KERNEL]
    unfolding resources_kclaim_by_id_def claim_by_id_def by meson
qed

text \<open>C23: the registry hands a resource out once: a claim takes the newest free resource with the two
  identifiers (as strings), notes the kernel as its owner and moves it from the free to the claimed ones;
  without such a resource the result is \<open>NULL\<close> and nothing changes.\<close>

theorem resources_kclaim_takes:
  assumes "res_ok strs s F C" and "string_at strs dev" "string_at strs res"
  shows "\<exists>r s'. resources_kclaim_by_id strs s dev res = Inr (r, s') \<and>
    (case find (same_ids strs s dev res) F of None \<Rightarrow> r = NULL \<and> s' = s
     | Some q \<Rightarrow> r = q \<and> res_ok strs s' (remove1 q F) (q # C) \<and>
         res_objects s' = (res_objects s)(q \<mapsto> (res_obj s q)\<lparr>rs_owner := RES_OWNER_KERNEL\<rparr>))"
  by (rule kclaim_ok [OF assms])

definition example_strs :: "addr \<Rightarrow> u8 list" where
  "example_strs a = (if a = 0x10 then [109, 0] else if a = 0x20 then [118, 0] else [0])"

definition example_registry :: res_state where
  "example_registry = \<lparr>res_objects = [0x1000 \<mapsto> \<lparr>rs_device_id = 0x30, rs_resource_id = 0x10, rs_owner = 0,
       rs_type = RESOURCE_TYPE_MEMORY, rs_base = 0x100000, rs_len = 0x2000\<rparr>],
     res_links = [0x800 \<mapsto> 0, 0x804 \<mapsto> 0x1008, 0x1008 \<mapsto> 0],
     RESOURCES_STORAGE = 0x1000, RESOURCES_NEXT_FREE_NDX = 1, claimed_head = 0x800, free_head = 0x804\<rparr>"

theorem resources_kclaim_takes_witness:
  "\<exists>s'. resources_kclaim_by_id example_strs example_registry 0x40 0x10 = Inr (0x1000, s') \<and> res_ok example_strs s' [] [0x1000]"
proof -
  have ok: "res_ok example_strs example_registry [0x1000] []"
    by (simp add: res_ok_def example_registry_def slist_rep_def resource_link_def owner_state_def RES_OWNER_NONE_def
        string_at_def example_strs_def)
  have "find (same_ids example_strs example_registry 0x40 0x10) [0x1000] = Some 0x1000"
    by (simp add: same_ids_def res_obj_def example_registry_def cstr_of_def example_strs_def)
  then show ?thesis using resources_kclaim_takes [OF ok, of "0x40" "0x10"] by (auto simp: string_at_def example_strs_def)
qed

end
