(* ===== verification/Platform_Resources.thy ===== *)
theory Platform_Resources
  imports Resources Addr Vm_Area
begin

text \<open>
  kernel/arch/i686/platform_resources.c: the memory map of the boot loader (deps/multiboot.h) becomes
  resources; the image of the kernel is cut out of it. \<open>kernel_start\<close> and \<open>kernel_end\<close> are symbols of the
  linker, the map is a store of entries by address, and string literals are addresses.
\<close>

section \<open>Operations\<close>

record multiboot_mmap_entry =
  mmap_size :: u32
  mmap_start :: u64
  mmap_len :: u64
  mmap_type :: u32

record multiboot_info =
  mb_flags :: u32
  mb_mmap_length :: u32
  mb_mmap_addr :: u32

definition MULTIBOOT_MEMORY_RESERVED :: u32 where "MULTIBOOT_MEMORY_RESERVED = 2"
definition MULTIBOOT_MEMORY_BADRAM :: u32 where "MULTIBOOT_MEMORY_BADRAM = 5"
definition MULTIBOOT_INFO_MEM_MAP :: u32 where "MULTIBOOT_INFO_MEM_MAP = 0x40"
definition MAX_ADDR :: addr where "MAX_ADDR = NOT 0"

type_synonym 's iter_available_fn = "addr \<Rightarrow> addr \<Rightarrow> u32 \<Rightarrow> 's \<Rightarrow> 's kres"

definition iter_without_unavail :: "addr_state \<Rightarrow> addr \<Rightarrow> addr \<Rightarrow> multiboot_mmap_entry \<Rightarrow> 's iter_available_fn \<Rightarrow> 's \<Rightarrow> 's kres" where
  "iter_without_unavail as kernel_start kernel_end mmap fn s =
     (if mmap_type mmap = MULTIBOOT_MEMORY_BADRAM \<or> mmap_type mmap = MULTIBOOT_MEMORY_RESERVED then Inr s
      else if mmap_start mmap > ucast MAX_ADDR then Inr s
      else kbind (addr_to_low as kernel_start) (\<lambda>kstart.
        kbind (addr_to_low as kernel_end) (\<lambda>kend.
        let memstart = ucast (mmap_start mmap);
            memend = memstart + ucast (mmap_len mmap);
            typ = mmap_type mmap in
        if kend \<le> memstart then fn memstart memend typ s
        else if kstart \<ge> memend then fn memstart memend typ s
        else if kend > memstart \<and> kstart \<le> memstart then fn kend memend typ s
        else if kstart < memend \<and> kend \<ge> memend then fn memend kstart typ s
        else if kstart \<le> memstart \<and> kend \<ge> memend then Inr s
        else if kstart \<ge> memstart \<and> kend \<le> memend
        then kbind (fn memstart kstart typ s) (\<lambda>s. fn kend memend typ s)
        else Inl Kassert)))"

fun regions_loop :: "nat \<Rightarrow> (addr \<rightharpoonup> multiboot_mmap_entry) \<Rightarrow> (multiboot_mmap_entry \<Rightarrow> 's \<Rightarrow> 's kres) \<Rightarrow> addr \<Rightarrow> addr \<Rightarrow> 's \<Rightarrow>
    's kres" where
  "regions_loop 0 m fn c end s = Inl Fuel"
| "regions_loop (Suc fuel) m fn c end s =
     (if c < end
      then case m c of None \<Rightarrow> Inl Undef
        | Some e \<Rightarrow> kbind (fn e s) (\<lambda>s. regions_loop fuel m fn (c + mmap_size e + 4) end s)
      else Inr s)"

definition iter_available_regions :: "addr_state \<Rightarrow> addr \<Rightarrow> addr \<Rightarrow> multiboot_info \<Rightarrow> (addr \<rightharpoonup> multiboot_mmap_entry) \<Rightarrow>
    's iter_available_fn \<Rightarrow> 's \<Rightarrow> 's kres" where
  "iter_available_regions as kernel_start kernel_end info m fn s =
     (if mb_flags info AND MULTIBOOT_INFO_MEM_MAP = 0 then Inr s
      else regions_loop addr_fuel m (\<lambda>e. iter_without_unavail as kernel_start kernel_end e fn)
        (mb_mmap_addr info) (mb_mmap_addr info + mb_mmap_length info) s)"

definition register_mem_region :: "addr \<Rightarrow> addr \<Rightarrow> res_state iter_available_fn" where
  "register_mem_region platform memory start end typ s =
     (let len = end - start in
      if len \<le> PLATFORM_PAGE_SIZE then Inr s
      else resources_register s platform memory RESOURCE_TYPE_MEMORY (start, MIN_u32 len (MAX_ADDR - start)))"

definition register_bios_vga :: "addr \<Rightarrow> addr \<Rightarrow> res_state \<Rightarrow> res_state kres" where
  "register_bios_vga platform video s = resources_register s platform video RESOURCE_TYPE_DEV_BUFFER (0xA0000, 128 * 1024)"

definition i686_register_resources :: "addr_state \<Rightarrow> addr \<Rightarrow> addr \<Rightarrow> multiboot_info \<Rightarrow> (addr \<rightharpoonup> multiboot_mmap_entry) \<Rightarrow>
    addr \<Rightarrow> addr \<Rightarrow> addr \<Rightarrow> res_state \<Rightarrow> res_state kres" where
  "i686_register_resources as kernel_start kernel_end info m platform memory video s =
     kbind (iter_available_regions as kernel_start kernel_end info m (register_mem_region platform memory) s)
       (register_bios_vga platform video)"

lemma MAX_ADDR_eq: "MAX_ADDR = 0xFFFFFFFF"
  by (simp add: MAX_ADDR_def)

section \<open>Properties\<close>

text \<open>The calls a region leads to.\<close>

definition note_range :: "(addr \<times> addr) list iter_available_fn" where
  "note_range start end typ s = Inr (s @ [(start, end)])"

definition in_range :: "addr \<times> addr \<Rightarrow> addr \<Rightarrow> bool" where
  "in_range r b \<longleftrightarrow> fst r \<le> b \<and> b < snd r"

text \<open>A region of usable memory that the kernel does not run over the end of is handed on without the
  bytes of the kernel, and completely: the ranges hold exactly the bytes of the region that are not the
  kernel's.\<close>

theorem iter_without_unavail_cuts:
  assumes "mmap_type e \<notin> {MULTIBOOT_MEMORY_BADRAM, MULTIBOOT_MEMORY_RESERVED}" and "mmap_start e \<le> ucast MAX_ADDR"
    and "addr_to_low as kernel_start = Inr ks" "addr_to_low as kernel_end = Inr ke" "ks < ke"
    and "ms = ucast (mmap_start e)" "me = ms + ucast (mmap_len e)" "ms < me"
    and "me \<le> ks \<or> ke < me"
  shows "\<exists>rs. iter_without_unavail as kernel_start kernel_end e note_range [] = Inr rs \<and>
    (\<forall>b. (\<exists>r \<in> set rs. in_range r b) \<longleftrightarrow> in_range (ms, me) b \<and> \<not> in_range (ks, ke) b)"
proof -
  consider "ke \<le> ms" | "me \<le> ks" | "ks \<le> ms" "ms < ke" "ke < me" | "ms < ks" "ke < me"
    using assms(9) by fastforce
  then show ?thesis
  proof cases
    case 1
    then have "iter_without_unavail as kernel_start kernel_end e note_range [] = Inr [(ms, me)]"
      using assms(1-7) by (simp add: iter_without_unavail_def note_range_def Let_def not_less)
    then show ?thesis using 1 by (auto simp: in_range_def)
  next
    case 2
    then have "iter_without_unavail as kernel_start kernel_end e note_range [] = Inr [(ms, me)]"
      using assms(1-7) by (simp add: iter_without_unavail_def note_range_def Let_def not_less)
    then show ?thesis using 2 by (auto simp: in_range_def)
  next
    case 3
    then have "iter_without_unavail as kernel_start kernel_end e note_range [] = Inr [(ke, me)]"
      using assms(1-7) by (auto simp: iter_without_unavail_def note_range_def Let_def not_less)
    then show ?thesis using 3 by (auto simp: in_range_def)
  next
    case 4
    then have "\<not> ke \<le> ms" "\<not> me \<le> ks" "\<not> ks \<le> ms" "\<not> me \<le> ke" "ms \<le> ks" "ke \<le> me" using assms(5) by auto
    then have "iter_without_unavail as kernel_start kernel_end e note_range [] = Inr [(ms, ks), (ke, me)]"
      using assms(1-7) by (simp add: iter_without_unavail_def note_range_def Let_def not_less)
    then show ?thesis using 4 assms(5) by (auto simp: in_range_def)
  qed
qed

theorem iter_without_unavail_cuts_witness:
  "\<exists>rs. iter_without_unavail \<lparr>READY = True, OFFSET = 0xC0000000\<rparr> 0xC0100000 0xC0200000
      \<lparr>mmap_size = 20, mmap_start = 0x100000, mmap_len = 0x7F00000, mmap_type = 1\<rparr> note_range [] = Inr rs \<and>
    (\<forall>b. (\<exists>r \<in> set rs. in_range r b) \<longleftrightarrow> in_range (0x100000, 0x8000000) b \<and> \<not> in_range (0x100000, 0x200000) b)"
  by (rule iter_without_unavail_cuts)
     (simp_all add: MULTIBOOT_MEMORY_BADRAM_def MULTIBOOT_MEMORY_RESERVED_def MAX_ADDR_eq addr_to_low_def)

text \<open>When the kernel runs over the end of a region, the bounds handed on are swapped or backwards, and
  their difference wraps around: everything from there to the end of the address space becomes a
  resource, whatever the map says of it, and the part of the region before the kernel does not.\<close>

theorem kernel_over_region_end:
  assumes "mmap_type e \<notin> {MULTIBOOT_MEMORY_BADRAM, MULTIBOOT_MEMORY_RESERVED}" and "mmap_start e \<le> ucast MAX_ADDR"
    and "addr_to_low as kernel_start = Inr ks" "addr_to_low as kernel_end = Inr ke" "PLATFORM_PAGE_SIZE < ks"
    and "ms = ucast (mmap_start e)" "me = ms + ucast (mmap_len e)" "ms < me"
    and "ks < me" "me < ke"
  shows "iter_without_unavail as kernel_start kernel_end e (register_mem_region platform memory) s =
    (let b = (if ks \<le> ms then ke else me) in
     resources_register s platform memory RESOURCE_TYPE_MEMORY (b, MAX_ADDR - b))"
proof -
  have wrap: "\<not> x - b \<le> PLATFORM_PAGE_SIZE \<and> MIN_u32 (x - b) (MAX_ADDR - b) = MAX_ADDR - b"
    if "x < b" "PLATFORM_PAGE_SIZE < x" for x b :: addr
  proof -
    have n: "unat x < unat b" "4096 < unat x" using that by (simp_all add: word_less_nat_alt PLATFORM_PAGE_SIZE_def)
    have b: "unat b \<le> 4294967295" using unat_lt32 [of b] by linarith
    have 1: "unat (x - b) = 4294967296 + unat x - unat b" using n by (simp add: unat_sub_if')
    have 2: "unat (MAX_ADDR - b) = 4294967295 - unat b" unfolding MAX_ADDR_eq using b by (subst unat_sub32) simp_all
    have "unat (MAX_ADDR - b) < unat (x - b)" unfolding 1 2 using n b by linarith
    moreover have "4096 < unat (x - b)" unfolding 1 using n b by linarith
    ultimately show ?thesis by (auto simp: MIN_u32_def PLATFORM_PAGE_SIZE_def word_less_nat_alt word_le_nat_alt)
  qed
  show ?thesis
  proof (cases "ks \<le> ms")
    case True
    then have "iter_without_unavail as kernel_start kernel_end e (register_mem_region platform memory) s =
        register_mem_region platform memory ke me (mmap_type e) s"
      using assms(1-4,6-10) by (auto simp: iter_without_unavail_def Let_def)
    moreover have "PLATFORM_PAGE_SIZE < me" using assms(5,9) by simp
    ultimately show ?thesis using wrap [OF assms(10)] True by (simp add: register_mem_region_def Let_def)
  next
    case False
    then have "iter_without_unavail as kernel_start kernel_end e (register_mem_region platform memory) s =
        register_mem_region platform memory me ks (mmap_type e) s"
      using assms(1-4,6-10) by (auto simp: iter_without_unavail_def Let_def)
    then show ?thesis using wrap [OF assms(9,5)] False by (simp add: register_mem_region_def Let_def)
  qed
qed

theorem kernel_over_region_end_witness:
  "iter_without_unavail \<lparr>READY = True, OFFSET = 0xC0000000\<rparr> 0xC0100000 0xC0200000
      \<lparr>mmap_size = 20, mmap_start = 0x80000, mmap_len = 0x100000, mmap_type = 1\<rparr> (register_mem_region 0x40 0x10) example_registry =
    resources_register example_registry 0x40 0x10 RESOURCE_TYPE_MEMORY (0x180000, 0xFFE7FFFF)"
proof -
  have "iter_without_unavail \<lparr>READY = True, OFFSET = 0xC0000000\<rparr> 0xC0100000 0xC0200000
      \<lparr>mmap_size = 20, mmap_start = 0x80000, mmap_len = 0x100000, mmap_type = 1\<rparr> (register_mem_region 0x40 0x10) example_registry =
    (let b = (if (0x100000 :: addr) \<le> 0x80000 then 0x200000 else 0x180000) in
     resources_register example_registry 0x40 0x10 RESOURCE_TYPE_MEMORY (b, MAX_ADDR - b))"
    by (rule kernel_over_region_end)
      (simp_all add: MULTIBOOT_MEMORY_BADRAM_def MULTIBOOT_MEMORY_RESERVED_def MAX_ADDR_eq addr_to_low_def PLATFORM_PAGE_SIZE_def)
  then show ?thesis by (simp add: MAX_ADDR_eq)
qed

end
