(* ===== verification/Console.thy ===== *)
theory Console
  imports Slist Kvstore Vfprintf
begin

text \<open>
  kernel/kernel/console.c, klog.c: the list of the consoles that show the output of the kernel, and the
  log. A \<open>struct console\<close> (i686 layout) has its link at \<open>c + 4\<close>. The functions a driver provides are
  addresses; \<open>call_write\<close> and \<open>call_clear\<close> say what calling one does to the devices, whose state is \<open>'d\<close>.
  A string literal of the source is \<open>cstr\<close> of its text.
\<close>

section \<open>Consoles\<close>

record console =
  con_name :: addr
  con_data :: addr
  con_write :: addr
  con_clear :: addr

record 'd con_state =
  con_objs :: "addr \<rightharpoonup> console"
  con_links :: slist_heap
  ACTIVE_CONSOLES :: addr
  devices :: 'd

type_synonym 'd write_call = "addr \<Rightarrow> addr \<Rightarrow> u8 list \<Rightarrow> size_t \<Rightarrow> 'd \<Rightarrow> 'd kres"
type_synonym 'd clear_call = "addr \<Rightarrow> addr \<Rightarrow> 'd \<Rightarrow> 'd kres"

definition console_link :: "addr \<Rightarrow> addr" where "console_link c = c + 4"
definition console_of :: "addr \<Rightarrow> addr" where "console_of l = l - 4"

lemma console_of_link [simp]: "console_of (console_link c) = c"
  by (simp add: console_of_def console_link_def)

lemma console_link_eq [simp]: "console_link a = console_link b \<longleftrightarrow> a = b"
  by (simp add: console_link_def)

definition consoles_init :: "'d con_state \<Rightarrow> 'd con_state kres" where
  "consoles_init s = kbind (slist_init (con_links s) (ACTIVE_CONSOLES s)) (\<lambda>h. Inr (s\<lparr>con_links := h\<rparr>))"

definition console_register :: "'d con_state \<Rightarrow> addr \<Rightarrow> 'd con_state kres" where
  "console_register s c =
     kassert (c \<noteq> NULL)
       (kbind (slist_insert (con_links s) (ACTIVE_CONSOLES s) (console_link c)) (\<lambda>h. Inr (s\<lparr>con_links := h\<rparr>)))"

fun consoles_loop :: "nat \<Rightarrow> 'd con_state \<Rightarrow> (addr \<Rightarrow> console \<Rightarrow> 'd \<Rightarrow> 'd kres) \<Rightarrow> addr \<Rightarrow> 'd \<Rightarrow> 'd kres" where
  "consoles_loop 0 s body it d = Inl Fuel"
| "consoles_loop (Suc fuel) s body it d =
     (if it \<noteq> NULL
      then case con_objs s (console_of it) of None \<Rightarrow> Inl Undef
        | Some c \<Rightarrow> kbind (body (console_of it) c d) (\<lambda>d.
            kbind (slist_next (con_links s) it) (\<lambda>it. consoles_loop fuel s body it d))
      else Inr d)"

definition console_clear :: "'d clear_call \<Rightarrow> 'd con_state \<Rightarrow> 'd con_state kres" where
  "console_clear call_clear s =
     kbind (slist_next (con_links s) (ACTIVE_CONSOLES s)) (\<lambda>it.
     kbind (consoles_loop addr_fuel s
       (\<lambda>a c d. if con_clear c \<noteq> NULL then call_clear (con_clear c) a d else Inr d) it (devices s)) (\<lambda>d.
     Inr (s\<lparr>devices := d\<rparr>)))"

definition console_write :: "'d write_call \<Rightarrow> 'd con_state \<Rightarrow> u8 list \<Rightarrow> size_t \<Rightarrow> 'd con_state kres" where
  "console_write call_write s msg len =
     kbind (slist_next (con_links s) (ACTIVE_CONSOLES s)) (\<lambda>it.
     kbind (consoles_loop addr_fuel s
       (\<lambda>a c d. if con_write c \<noteq> NULL then call_write (con_write c) a msg len d else Inr d) it (devices s)) (\<lambda>d.
     Inr (s\<lparr>devices := d\<rparr>)))"

section \<open>The log\<close>

datatype LOG_LEVEL = LOG_DEBUG | LOG_INFO | LOG_WARN | LOG_ERR | LOG_PANIC

fun lvl_to_char :: "LOG_LEVEL \<Rightarrow> u8" where
  "lvl_to_char LOG_DEBUG = of_char CHR ''D''"
| "lvl_to_char LOG_INFO = of_char CHR ''I''"
| "lvl_to_char LOG_WARN = of_char CHR ''W''"
| "lvl_to_char LOG_ERR = of_char CHR ''E''"
| "lvl_to_char LOG_PANIC = of_char CHR ''P''"

definition cstr :: "string \<Rightarrow> u8 list" where
  "cstr t = map of_char t @ [0]"

text \<open>The bytes from \<open>it\<close> on, and the address of the last delimiter.\<close>

fun find_filename_loop :: "u8 list \<Rightarrow> addr \<Rightarrow> addr \<Rightarrow> addr kres" where
  "find_filename_loop [] it last_delim = Inl Undef"
| "find_filename_loop (c # cs) it last_delim =
     (if c \<noteq> 0 then find_filename_loop cs (it + 1) (if c = of_char CHR ''/'' then it else last_delim)
      else Inr last_delim)"

definition find_filename :: "(addr \<Rightarrow> u8 list) \<Rightarrow> addr \<Rightarrow> addr kres" where
  "find_filename strs path = kbind (find_filename_loop (strs path) path path) (\<lambda>last_delim. Inr (last_delim + 1))"

definition klog_write :: "'d write_call \<Rightarrow> 'd con_state fprintf_fn" where
  "klog_write call_write s msg =
     kbind (console_write call_write s msg (of_nat (length msg))) (\<lambda>s.
     kassert ((of_nat (length msg) :: size_t) \<le> INT_MAX) (Inr (int (length msg), s)))"

definition klog_logf_at :: "'d write_call \<Rightarrow> (addr \<Rightarrow> u8 list) \<Rightarrow> 'd con_state \<Rightarrow> LOG_LEVEL \<Rightarrow> addr \<Rightarrow> addr \<Rightarrow> addr \<Rightarrow>
    u8 list \<Rightarrow> va_list \<Rightarrow> 'd con_state kres" where
  "klog_logf_at call_write strs s lvl path func line format ap =
     kbind (find_filename strs path) (\<lambda>file.
     kbind (kfprintf strs (klog_write call_write) s (cstr ''[%llu:%c] %s:%s:%s | '')
       [0, 0, ucast (lvl_to_char lvl), file, func, line]) (\<lambda>(_, s).
     kbind (kvfprintf strs (klog_write call_write) s format ap) (\<lambda>(_, s). Inr s)))"


section \<open>The text of a conversion\<close>

definition conv :: "u32 \<Rightarrow> size_t \<Rightarrow> conv_length \<Rightarrow> conv_specifiers \<Rightarrow> conv_spec" where
  "conv fl w l c = \<lparr>cs_flags = fl, cs_width = w, cs_precision = PREC_EMPTY, cs_length = l, cs_spec = c\<rparr>"

lemma parse_simple:
  "parse_conv_spec (37 # 115 # rest) = Inr (conv 0 WIDTH_EMPTY CL_NONE CS_STR, 2)"
  "parse_conv_spec (37 # 99 # rest) = Inr (conv 0 WIDTH_EMPTY CL_NONE CS_UCHAR, 2)"
  "parse_conv_spec (37 # 108 # 117 # rest) = Inr (conv 0 WIDTH_EMPTY CL_LONG CS_UDEC, 3)"
  "parse_conv_spec (37 # 108 # 108 # 117 # rest) = Inr (conv 0 WIDTH_EMPTY CL_LLONG CS_UDEC, 4)"
  "parse_conv_spec (37 # 48 # 56 # 108 # 88 # rest) = Inr (conv CF_ZERO 8 CL_LONG CS_UHEX_BIG, 5)"
  by (simp_all add: parse_conv_spec_def Let_def is_digit_def specifier_of_def conv_def vfprintf_atoi_def)


lemma cstr_literal: "cstr ''[%llu:%c] %s:%s:%s | '' = [91, 37, 108, 108, 117, 58, 37, 99, 93, 32, 37, 115, 58, 37, 115, 58,
    37, 115, 32, 124, 32, 0]"
  by (simp add: cstr_def of_char_def)

lemma formats_conv:
  assumes "parse_conv_spec (37 # cs) = Inr (s, n)" and "fetch_arg s ap = Inr (a, ap')" and "arg_ok strs s a"
    and "field_text strs s a = u" and "formats strs (drop n (37 # cs)) ap' t"
  shows "formats strs (37 # cs) ap (u @ t)"
  using formats_field [OF assms(1,2,3,5)] assms(4) by simp

definition is_string :: "(addr \<Rightarrow> u8 list) \<Rightarrow> addr \<Rightarrow> bool" where
  "is_string strs p \<longleftrightarrow> 0 \<in> set (strs p) \<and> length (strs p) < 2147483647"

lemma ucast_via64: "ucast (ucast (w :: u32) :: u64) = w" "ucast (ucast w :: u64) = (ucast w :: u8)"
    "unat (ucast w :: u64) = unat w"
  by (rule bit_word_eqI, simp add: bit_simps)+
     (simp only: unsigned_ucast_eq, rule take_bit_nat_eq_self, rule less_trans [OF unat_lt32], simp)

lemma ucast_ucast_8: "ucast (ucast (c :: u8) :: u32) = c"
  by (rule bit_word_eqI) (simp add: bit_simps)

lemma formats_s:
  assumes "is_string strs p" and "formats strs rest ap t"
  shows "formats strs (37 # 115 # rest) (p # ap) (cstr_of strs p @ t)"
  using assms
  by (intro formats_conv [OF parse_simple(1), where a = "unsigned_arg (ucast p)" and ap' = ap])
     (simp_all add: fetch_arg_def arg_ok_def is_string_def field_text_def conv_text_def str_text_def prefix_text_def
       sign_text_def cs_prefix_fn_def precision_given_def width_given_def has_flag_def special_def unsigned_arg_def
       conv_def cstr_of_def ucast_via64)


lemmas field_defs = fetch_arg_def arg_ok_def field_text_def conv_text_def num_text_def hex_text_def prefix_text_def
  sign_text_def cs_prefix_fn_def precision_given_def width_given_def has_flag_def special_def unsigned_arg_def conv_def
  hex_prefix_def ucast_via64

lemma formats_c:
  assumes "formats strs rest ap t"
  shows "formats strs (37 # 99 # rest) (w # ap) (ucast w # t)"
  using assms formats_conv [OF parse_simple(2), of "w # ap" "unsigned_arg (ucast w)" ap strs "[ucast w]" rest t]
  by (simp add: field_defs)

definition dec_digits :: "nat \<Rightarrow> u8 list" where
  "dec_digits n = map ascii_digit (num_digits 10 n)"

lemma formats_lu:
  assumes "formats strs rest ap t"
  shows "formats strs (37 # 108 # 117 # rest) (w # ap) (dec_digits (unat w) @ t)"
  using assms formats_conv [OF parse_simple(3), of "w # ap" "unsigned_arg (ucast w)" ap strs "dec_digits (unat w)" rest t]
  by (simp add: field_defs dec_digits_def)

lemma formats_llu0:
  assumes "formats strs rest ap t"
  shows "formats strs (37 # 108 # 108 # 117 # rest) (0 # 0 # ap) (48 # t)"
  using assms formats_conv [OF parse_simple(4), of "0 # 0 # ap" "unsigned_arg 0" ap strs "[48]" rest t]
  by (simp add: field_defs num_digits_small ascii_digit_def)

definition hex_word :: "u32 \<Rightarrow> u8 list" where
  "hex_word w = (let ds = map (hex_digit False) (num_digits 16 (unat w)) in replicate (8 - length ds) 48 @ ds)"

lemma formats_08lX:
  assumes "formats strs rest ap t"
  shows "formats strs (37 # 48 # 56 # 108 # 88 # rest) (w # ap) (hex_word w @ t)"
  using assms formats_conv [OF parse_simple(5), of "w # ap" "unsigned_arg (ucast w)" ap strs "hex_word w" rest t]
  by (simp add: field_defs hex_word_def Let_def)


section \<open>Every console shows what is written\<close>

text \<open>
  What a driver promises: in a state of its devices that satisfies \<open>I\<close>, its function appends the message to
  the text \<open>scr\<close> of the console, keeps \<open>I\<close> and leaves the other consoles alone.
\<close>

definition driver_ok :: "'d write_call \<Rightarrow> (addr \<Rightarrow> 'd \<Rightarrow> u8 list) \<Rightarrow> ('d \<Rightarrow> bool) \<Rightarrow> addr \<Rightarrow> addr \<Rightarrow> bool" where
  "driver_ok call scr I fn a \<longleftrightarrow> (\<forall>d m. I d \<longrightarrow> length m < 2147483648 \<longrightarrow>
     (\<exists>d'. call fn a m (of_nat (length m)) d = Inr d' \<and> I d' \<and> scr a d' = scr a d @ m \<and>
       (\<forall>b. b \<noteq> a \<longrightarrow> scr b d' = scr b d)))"

definition consoles_ok :: "'d write_call \<Rightarrow> (addr \<Rightarrow> 'd \<Rightarrow> u8 list) \<Rightarrow> ('d \<Rightarrow> bool) \<Rightarrow> 'd con_state \<Rightarrow> addr list \<Rightarrow> bool" where
  "consoles_ok call scr I s L \<longleftrightarrow> slist_rep (con_links s) (ACTIVE_CONSOLES s) (map console_link L) \<and> I (devices s) \<and>
     (\<forall>a \<in> set L. \<exists>c. con_objs s a = Some c \<and> (con_write c \<noteq> NULL \<longrightarrow> driver_ok call scr I (con_write c) a))"

definition shows_output :: "'d con_state \<Rightarrow> addr \<Rightarrow> bool" where
  "shows_output s a \<longleftrightarrow> (\<exists>c. con_objs s a = Some c \<and> con_write c \<noteq> NULL)"

lemma consoles_loop_ok:
  assumes "slist_rep (con_links s) p (map console_link (us @ vs))"
    and "\<forall>a \<in> set vs. \<exists>c. con_objs s a = Some c \<and> (con_write c \<noteq> NULL \<longrightarrow> driver_ok call scr I (con_write c) a)"
    and "I d" and "length m < 2147483648" and "length vs < fuel"
  shows "\<exists>d'. consoles_loop fuel s (\<lambda>a c d. if con_write c \<noteq> NULL then call (con_write c) a m (of_nat (length m)) d
      else Inr d) (hd (map console_link vs @ [NULL])) d = Inr d' \<and> I d' \<and>
    (\<forall>a. scr a d' = scr a d @ (if a \<in> set vs \<and> shows_output s a then m else []))"
  using assms
proof (induction vs arbitrary: us fuel d)
  case Nil
  then show ?case by (cases fuel) auto
next
  case (Cons a vs)
  obtain f where f: "fuel = Suc f" using Cons.prems(5) by (cases fuel) auto
  have sl: "slist_rep (con_links s) p (map console_link ((us @ [a]) @ vs))" using Cons.prems(1) by simp
  have nn: "console_link a \<noteq> NULL" using slist_repD(5) [OF sl] by auto
  have nx: "slist_next (con_links s) (console_link a) = Inr (hd (map console_link vs @ [NULL]))"
    using slist_next_rep [of "con_links s" p "map console_link (us @ [a])" "map console_link vs"] sl by simp
  have na: "a \<notin> set vs" using slist_repD(4) [OF sl] by auto
  obtain c where c: "con_objs s a = Some c" "con_write c \<noteq> NULL \<longrightarrow> driver_ok call scr I (con_write c) a"
    using Cons.prems(2) by auto
  obtain d1 where d1: "(if con_write c \<noteq> NULL then call (con_write c) a m (of_nat (length m)) d else Inr d) = Inr d1"
      "I d1" "\<forall>b. scr b d1 = scr b d @ (if b = a \<and> con_write c \<noteq> NULL then m else [])"
  proof (cases "con_write c \<noteq> NULL")
    case True
    then obtain d' where "call (con_write c) a m (of_nat (length m)) d = Inr d'" "I d'" "scr a d' = scr a d @ m"
        "\<forall>b. b \<noteq> a \<longrightarrow> scr b d' = scr b d"
      using c(2) Cons.prems(3,4) unfolding driver_ok_def by blast
    then show ?thesis using True that [of d'] by auto
  qed (use Cons.prems(3) that in auto)
  obtain d2 where "consoles_loop f s (\<lambda>a c d. if con_write c \<noteq> NULL then call (con_write c) a m (of_nat (length m)) d
      else Inr d) (hd (map console_link vs @ [NULL])) d1 = Inr d2" "I d2"
      "\<forall>b. scr b d2 = scr b d1 @ (if b \<in> set vs \<and> shows_output s b then m else [])"
    using Cons.IH [OF sl _ d1(2) Cons.prems(4), of f] Cons.prems(2,5) f by auto
  then show ?case using f nn c(1) d1 nx na by (auto simp: shows_output_def)
qed

lemma console_write_ok:
  assumes ok: "consoles_ok call scr I s L" and m: "length m < 2147483648"
  obtains s' where "console_write call s m (of_nat (length m)) = Inr s'" "consoles_ok call scr I s' L"
    "con_objs s' = con_objs s" "\<And>a. scr a (devices s') = scr a (devices s) @ (if a \<in> set L \<and> shows_output s a then m else [])"
proof -
  have r: "slist_rep (con_links s) (ACTIVE_CONSOLES s) (map console_link ([] @ L))" using ok by (simp add: consoles_ok_def)
  have nx: "slist_next (con_links s) (ACTIVE_CONSOLES s) = Inr (hd (map console_link L @ [NULL]))"
    using slist_next_rep [of _ _ "[]" "map console_link L"] r by simp
  have "length L < addr_fuel"
    using distinct_addr_length [of "ACTIVE_CONSOLES s # map console_link L"] slist_repD(4) [OF r] by simp
  then obtain d' where "consoles_loop addr_fuel s (\<lambda>a c d. if con_write c \<noteq> NULL
        then call (con_write c) a m (of_nat (length m)) d else Inr d) (hd (map console_link L @ [NULL])) (devices s) = Inr d'"
      "I d'" "\<forall>a. scr a d' = scr a (devices s) @ (if a \<in> set L \<and> shows_output s a then m else [])"
    using consoles_loop_ok [OF r _ _ m, of call scr I "devices s" addr_fuel] ok unfolding consoles_ok_def by blast
  then show ?thesis using that [of "s\<lparr>devices := d'\<rparr>"] ok nx by (auto simp: console_write_def consoles_ok_def)
qed


definition con_fits :: "'d write_call \<Rightarrow> (addr \<Rightarrow> 'd \<Rightarrow> u8 list) \<Rightarrow> ('d \<Rightarrow> bool) \<Rightarrow> addr \<Rightarrow> 'd con_state \<Rightarrow> nat \<Rightarrow> bool" where
  "con_fits call scr I a s n \<longleftrightarrow> (\<exists>L. consoles_ok call scr I s L \<and> a \<in> set L) \<and> shows_output s a \<and> n < 2147483648"

interpretation log_output: output_device "klog_write call" "\<lambda>s. scr a (devices s)" "con_fits call scr I a"
  for call :: "'d write_call" and scr I a
proof
  fix s :: "'d con_state" and m :: "u8 list" and r
  assume "con_fits call scr I a s (length m + r)"
  then obtain L where L: "consoles_ok call scr I s L" "a \<in> set L" "shows_output s a" "length m + r < 2147483648"
    by (auto simp: con_fits_def)
  obtain s' where "console_write call s m (of_nat (length m)) = Inr s'" "consoles_ok call scr I s' L"
      "con_objs s' = con_objs s" "\<And>a. scr a (devices s') = scr a (devices s) @ (if a \<in> set L \<and> shows_output s a then m else [])"
    using console_write_ok [OF L(1), of m] L(4) by (metis add_lessD1)
  then show "\<exists>s'. klog_write call s m = Inr (int (length m), s') \<and> scr a (devices s') = scr a (devices s) @ m \<and>
      con_fits call scr I a s' r"
    using L of_nat_le_INT_MAX [of "length m"] by (auto simp: klog_write_def con_fits_def shows_output_def)
qed (simp add: con_fits_def)

text \<open>The name of a file is what follows its last slash.\<close>

lemma slash_code: "of_char CHR ''/'' = (47 :: u8)" "(47 :: u8) \<noteq> 0"
  by (simp add: of_char_def) code_simp

lemma find_filename_loop_end:
  "0 \<notin> set us \<Longrightarrow> 47 \<notin> set us \<Longrightarrow> find_filename_loop (us @ 0 # rest) it l = Inr l"
  by (induction us arbitrary: it) (auto simp: slash_code)

lemma find_filename_loop_slash:
  "0 \<notin> set us \<Longrightarrow> find_filename_loop (us @ 47 # cs) it l =
     find_filename_loop cs (it + of_nat (length us) + 1) (it + of_nat (length us))"
proof (induction us arbitrary: it l)
  case Nil
  have "find_filename_loop (47 # cs) it l = find_filename_loop cs (it + 1) it"
    by (simp only: find_filename_loop.simps slash_code refl if_True not_False_eq_True)
  then show ?case by simp
qed (auto simp: slash_code(1) ac_simps)

lemma find_filename_ok:
  assumes "strs path = dir @ 47 # nm @ 0 # rest" and "0 \<notin> set dir" "0 \<notin> set nm" "47 \<notin> set nm"
  shows "find_filename strs path = Inr (path + of_nat (length dir) + 1)"
  using find_filename_loop_slash [of dir "nm @ 0 # rest" path path] find_filename_loop_end [of nm] assms
  by (simp add: find_filename_def)


section \<open>A line of the log\<close>

definition log_head :: "LOG_LEVEL \<Rightarrow> u8 list \<Rightarrow> u8 list \<Rightarrow> u8 list \<Rightarrow> u8 list" where
  "log_head lvl nm func line = map of_char ''[0:'' @ [lvl_to_char lvl] @ map of_char ''] '' @ nm @ map of_char '':'' @
     func @ map of_char '':'' @ line @ map of_char '' | ''"

lemma log_head_formats:
  assumes "is_string strs nm" "is_string strs func" "is_string strs line"
  shows "formats strs (cstr ''[%llu:%c] %s:%s:%s | '') [0, 0, ucast (lvl_to_char lvl), nm, func, line]
    (log_head lvl (cstr_of strs nm) (cstr_of strs func) (cstr_of strs line))"
proof -
  have "formats strs [32, 124, 32, 0] [] [32, 124, 32]"
    using formats_text [OF _ _ _ _ formats_end [of strs "[]" "[]"], where s = "[32, 124, 32]"] by simp
  note formats_s [OF assms(3) this]
  note formats_text [OF _ _ _ _ this, where s = "[58]", simplified]
  note formats_s [OF assms(2) this]
  note formats_text [OF _ _ _ _ this, where s = "[58]", simplified]
  note formats_s [OF assms(1) this]
  note formats_text [OF _ _ _ _ this, where s = "[93, 32]", simplified]
  note formats_c [OF this, of "ucast (lvl_to_char lvl)"]
  note formats_text [OF _ _ _ _ this, where s = "[58]", simplified]
  note formats_llu0 [OF this]
  note formats_text [OF _ _ _ _ this, where s = "[91]", simplified]
  then show ?thesis by (simp add: cstr_literal log_head_def of_char_def ucast_ucast_8)
qed

end
