(* ===== verification/Ports.thy ===== *)
theory Ports
  imports Kernel_Base
begin

text \<open>
  The port instructions of kernel/arch/i686/include/arch_i686/io.h. The state is the trace of the writes and
  the number of reads so far; \<open>io p n\<close> is what the \<open>n\<close>-th read returns if it is of port \<open>p\<close>. The width of
  an \<open>out\<close> is the one of the C type of its operand: an integer literal (also one of \<open>UINT8_C\<close>) is an
  \<open>int\<close> and written as 32 bits.
\<close>

type_synonym u16 = "16 word"

datatype port_write = Outb u16 u8 | Outl u16 u32

record port_state =
  port_writes :: "port_write list"
  port_reads :: nat

definition iowrite :: "port_write \<Rightarrow> port_state \<Rightarrow> port_state" where
  "iowrite w u = u\<lparr>port_writes := port_writes u @ [w]\<rparr>"

definition ioread :: "(u16 \<Rightarrow> nat \<Rightarrow> u8) \<Rightarrow> u16 \<Rightarrow> port_state \<Rightarrow> u8 \<times> port_state" where
  "ioread io p u = (io p (port_reads u), u\<lparr>port_reads := port_reads u + 1\<rparr>)"

end
