(* ===== verification/Com1_Uart.thy ===== *)
theory Com1_Uart
  imports Console Ports
begin

text \<open>
  kernel/modules/i686/com1_uart.c: the serial console, over the ports. The wait for the transmitter reads the status until it is ready;
  \<open>fuel\<close> is the number of reads it is given.
\<close>

section \<open>The driver\<close>

definition PORT :: u16 where "PORT = 0x3f8"

definition init_serial :: "(u16 \<Rightarrow> nat \<Rightarrow> u8) \<Rightarrow> port_state \<Rightarrow> int \<times> port_state" where
  "init_serial io u =
     (let u = iowrite (Outl (PORT + 1) 0x00) u;
          u = iowrite (Outl (PORT + 3) 0x80) u;
          u = iowrite (Outl (PORT + 0) 0x03) u;
          u = iowrite (Outl (PORT + 1) 0x00) u;
          u = iowrite (Outl (PORT + 3) 0x03) u;
          u = iowrite (Outl (PORT + 2) 0xC7) u;
          u = iowrite (Outl (PORT + 4) 0x0B) u;
          u = iowrite (Outl (PORT + 4) 0x1E) u;
          u = iowrite (Outl (PORT + 0) 0xAE) u;
          (v, u) = ioread io (PORT + 0) u in
      if v \<noteq> 0xAE then (1, u) else (0, iowrite (Outl (PORT + 4) 0x0F) u))"

definition is_transmit_empty :: "(u16 \<Rightarrow> nat \<Rightarrow> u8) \<Rightarrow> port_state \<Rightarrow> u8 \<times> port_state" where
  "is_transmit_empty io u = (let (v, u) = ioread io (PORT + 5) u in (v AND 0x20, u))"

fun write_serial :: "nat \<Rightarrow> (u16 \<Rightarrow> nat \<Rightarrow> u8) \<Rightarrow> u8 \<Rightarrow> port_state \<Rightarrow> port_state kres" where
  "write_serial 0 io a u = Inl Fuel"
| "write_serial (Suc fuel) io a u =
     (let (e, u) = is_transmit_empty io u in
      if e = 0 then write_serial fuel io a u else Inr (iowrite (Outb PORT a) u))"

function writestr_loop :: "nat \<Rightarrow> (u16 \<Rightarrow> nat \<Rightarrow> u8) \<Rightarrow> u8 list \<Rightarrow> size_t \<Rightarrow> size_t \<Rightarrow> port_state \<Rightarrow> port_state kres" where
  "writestr_loop fuel io msg i len u =
     (if i < len
      then kdefined (unat i < length msg)
        (kbind (write_serial fuel io (msg ! unat i) u) (\<lambda>u. writestr_loop fuel io msg (i + 1) len u))
      else Inr u)"
  by pat_completeness auto
termination
  by (relation "measure (\<lambda>(fuel, io, msg, i, len, u). unat len - unat i)")
     (auto dest!: size_t_loop_measure)

declare writestr_loop.simps [simp del]

definition writestr_serial :: "nat \<Rightarrow> (u16 \<Rightarrow> nat \<Rightarrow> u8) \<Rightarrow> addr \<Rightarrow> u8 list \<Rightarrow> size_t \<Rightarrow> port_state \<Rightarrow> port_state kres" where
  "writestr_serial fuel io c msg len u = writestr_loop fuel io msg 0 len u"

definition serial_console :: "addr \<Rightarrow> addr \<Rightarrow> console" where
  "serial_console name write_fn = \<lparr>con_name = name, con_data = NULL, con_write = write_fn, con_clear = NULL\<rparr>"

definition com1_available :: bool where "com1_available = True"

definition com1_load :: "(u16 \<Rightarrow> nat \<Rightarrow> u8) \<Rightarrow> addr \<Rightarrow> port_state con_state \<Rightarrow> port_state con_state kres" where
  "com1_load io con s = (let (_, u) = init_serial io (devices s) in console_register (s\<lparr>devices := u\<rparr>) con)"

text \<open>What a call of the address of a console's function does: \<open>writestr_serial\<close> is the one at \<open>write_fn\<close>.\<close>

definition serial_call :: "nat \<Rightarrow> (u16 \<Rightarrow> nat \<Rightarrow> u8) \<Rightarrow> addr \<Rightarrow> port_state write_call" where
  "serial_call fuel io write_fn fn c msg len u =
     kdefined (fn = write_fn) (writestr_serial fuel io c msg len u)"

section \<open>The bytes on the line\<close>

fun line_byte :: "port_write \<Rightarrow> u8 list" where
  "line_byte (Outb p v) = (if p = PORT then [v] else [])"
| "line_byte (Outl p v) = []"

definition serial_text :: "addr \<Rightarrow> addr \<Rightarrow> port_state \<Rightarrow> u8 list" where
  "serial_text con a u = (if a = con then concat (map line_byte (port_writes u)) else [])"

text \<open>The transmitter is ready again after less than \<open>fuel\<close> reads of its status.\<close>

definition transmits :: "nat \<Rightarrow> (u16 \<Rightarrow> nat \<Rightarrow> u8) \<Rightarrow> bool" where
  "transmits fuel io \<longleftrightarrow> (\<forall>n. \<exists>k < fuel. io (PORT + 5) (n + k) AND 0x20 \<noteq> 0)"

lemma write_serial_ok:
  "\<exists>k < fuel. io (PORT + 5) (port_reads u + k) AND 0x20 \<noteq> 0 \<Longrightarrow>
   \<exists>u'. write_serial fuel io a u = Inr u' \<and> port_writes u' = port_writes u @ [Outb PORT a]"
proof (induction fuel arbitrary: u)
  case (Suc fuel)
  obtain k where k: "k < Suc fuel" "io (PORT + 5) (port_reads u + k) AND 0x20 \<noteq> 0" using Suc.prems by auto
  show ?case
  proof (cases "io (PORT + 5) (port_reads u) AND 0x20 = 0")
    case True
    then have "k \<noteq> 0" using k(2) by (intro notI) simp
    then have "\<exists>k < fuel. io (PORT + 5) (port_reads (u\<lparr>port_reads := port_reads u + 1\<rparr>) + k) AND 0x20 \<noteq> 0"
      using k by (intro exI [of _ "k - 1"]) auto
    from Suc.IH [OF this] show ?thesis using True by (simp add: is_transmit_empty_def ioread_def)
  qed (simp add: is_transmit_empty_def ioread_def iowrite_def)
qed simp

lemma writestr_loop_ok:
  assumes "transmits fuel io" and "unat len \<le> length msg" and "i \<le> len"
  shows "\<exists>u'. writestr_loop fuel io msg i len u = Inr u' \<and>
    port_writes u' = port_writes u @ map (Outb PORT) (drop (unat i) (take (unat len) msg))"
  using assms
proof (induction fuel io msg i len u rule: writestr_loop.induct)
  case (1 fuel io msg i len u)
  show ?case
  proof (cases "i < len")
    case True
    then have i: "unat i < unat len" "unat (i + 1) = Suc (unat i)" "i + 1 \<le> len"
      using size_t_loop_measure [OF True] by (auto simp: word_less_nat_alt word_le_nat_alt)
    have lt: "unat i < length (take (unat len) msg)" using i(1) "1.prems"(2) by simp
    obtain u1 where u1: "write_serial fuel io (msg ! unat i) u = Inr u1"
        "port_writes u1 = port_writes u @ [Outb PORT (msg ! unat i)]"
      using write_serial_ok [of fuel io u "msg ! unat i"] "1.prems"(1) unfolding transmits_def by blast
    have c: "unat i < length msg" using lt by simp
    obtain u2 where "writestr_loop fuel io msg (i + 1) len u1 = Inr u2"
        "port_writes u2 = port_writes u1 @ map (Outb PORT) (drop (Suc (unat i)) (take (unat len) msg))"
      using "1.IH" [OF True "1.prems"(1,2) i(3), of u1] i(2) by auto
    moreover have "drop (unat i) (take (unat len) msg) = msg ! unat i # drop (Suc (unat i)) (take (unat len) msg)"
      using Cons_nth_drop_Suc [OF lt] i(1) by simp
    ultimately show ?thesis using True u1 c by (subst writestr_loop.simps) (auto simp: kdefined_def)
  qed (use "1.prems"(3) in \<open>subst writestr_loop.simps, auto\<close>)
qed

lemma serial_driver_ok:
  assumes "transmits fuel io"
  shows "driver_ok (serial_call fuel io w) (serial_text con) (\<lambda>_. True) w con"
  unfolding driver_ok_def
proof (intro allI impI)
  fix u m
  assume "length (m :: u8 list) < 2147483648"
  then have n: "unat (of_nat (length m) :: size_t) = length m" by (simp add: unat_of_nat32)
  obtain u' where "writestr_loop fuel io m 0 (of_nat (length m)) u = Inr u'"
      "port_writes u' = port_writes u @ map (Outb PORT) m"
    using writestr_loop_ok [OF assms, of "of_nat (length m)" m 0 u] by (auto simp: n)
  moreover have "concat (map (line_byte \<circ> Outb PORT) m) = m" by (induction m) auto
  ultimately show "\<exists>u'. serial_call fuel io w w con m (of_nat (length m)) u = Inr u' \<and> True \<and>
      serial_text con con u' = serial_text con con u @ m \<and> (\<forall>b. b \<noteq> con \<longrightarrow> serial_text con b u' = serial_text con b u)"
    by (auto simp: serial_call_def writestr_serial_def serial_text_def)
qed


section \<open>The log on the consoles\<close>

text \<open>The log reaches every console: a message is written to each registered console that has a driver
  as the level, the name of the file without its directory, the function, the line and the formatted text,
  whatever the devices are as long as their drivers append what they are given.\<close>

theorem klog_logf_at_shown:
  assumes "consoles_ok call scr I s L" and "a \<in> set L" and "shows_output s a"
    and "strs path = dir @ 47 # nm @ 0 # rest" and "0 \<notin> set dir" "0 \<notin> set nm" "47 \<notin> set nm"
    and "strs (path + of_nat (length dir) + 1) = nm @ 0 # rest" and "length (nm @ 0 # rest) < 2147483647"
    and "is_string strs func" and "is_string strs line"
    and "formats strs format ap t" and "length format < 4294967296"
    and "length (log_head lvl nm (cstr_of strs func) (cstr_of strs line) @ t) < 2147483648"
  shows "\<exists>s'. klog_logf_at call strs s lvl path func line format ap = Inr s' \<and>
    scr a (devices s') = scr a (devices s) @ log_head lvl nm (cstr_of strs func) (cstr_of strs line) @ t"
proof -
  let ?h = "log_head lvl nm (cstr_of strs func) (cstr_of strs line)" and ?p = "path + of_nat (length dir) + 1"
  have nm: "is_string strs ?p" "cstr_of strs ?p = nm"
    using assms(6,8,9) by (auto simp: is_string_def cstr_of_def takeWhile_append)
  have fits: "con_fits call scr I a s (length ?h + length t)" using assms(1-3,14) by (auto simp: con_fits_def)
  have "formats strs (cstr ''[%llu:%c] %s:%s:%s | '') [0, 0, ucast (lvl_to_char lvl), ?p, func, line] ?h"
    using log_head_formats [OF nm(1) assms(10,11), of lvl] nm(2) by simp
  from log_output.kvfprintf_ok [OF this fits]
  obtain s1 where s1: "kvfprintf strs (klog_write call) s (cstr ''[%llu:%c] %s:%s:%s | '')
        [0, 0, ucast (lvl_to_char lvl), ?p, func, line] = Inr (int (length ?h), s1)"
      "scr a (devices s1) = scr a (devices s) @ ?h" "con_fits call scr I a s1 (length t)"
    by (auto simp: cstr_def)
  obtain s2 where "kvfprintf strs (klog_write call) s1 format ap = Inr (int (length t), s2)"
      "scr a (devices s2) = scr a (devices s1) @ t"
    using log_output.kvfprintf_ok [OF assms(12), of call scr I a s1 0] s1(3) assms(13) by auto
  then show ?thesis
    using s1 find_filename_ok [of strs path dir nm rest] assms(4-7) by (simp add: klog_logf_at_def kfprintf_def)
qed


text \<open>The log of a kernel with the serial console alone: \<open>LOGF_I("hi")\<close> in the function \<open>f\<close>, line 7 of
  \<open>a/b\<close> puts \<open>[0:I] b:f:7 | hi\<close> on the line.\<close>

definition example_serial :: "port_state con_state" where
  "example_serial = \<lparr>con_objs = [1000 \<mapsto> serial_console 500 600], con_links = [2000 \<mapsto> 1004, 1004 \<mapsto> 0],
     ACTIVE_CONSOLES = 2000, devices = \<lparr>port_writes = [], port_reads = 0\<rparr>\<rparr>"

definition example_text :: "addr \<Rightarrow> u8 list" where
  "example_text p = (if p = 100 then cstr ''a/b'' else if p = 102 then cstr ''b'' else if p = 200 then cstr ''f''
     else cstr ''7'')"

lemma example_formats: "formats example_text (cstr ''hi'') [] (map of_char ''hi'')"
  using formats_text [OF _ _ _ _ formats_end [of example_text "[]" "[]"], where s = "[104, 105]"]
  by (simp add: cstr_def of_char_def)

theorem klog_logf_at_shown_witness:
  "\<exists>s'. klog_logf_at (serial_call 1 (\<lambda>_ _. 0x20) 600) example_text example_serial LOG_INFO 100 200 300 (cstr ''hi'') [] = Inr s' \<and>
    serial_text 1000 1000 (devices s') = serial_text 1000 1000 (devices example_serial) @
      log_head LOG_INFO (cstr_of example_text 102) (cstr_of example_text 200) (cstr_of example_text 300) @ map of_char ''hi''"
proof -
  have t: "transmits 1 (\<lambda>_ _. 0x20)" by (simp add: transmits_def)
  have s: "slist_rep [2000 \<mapsto> 1004, 1004 \<mapsto> 0] 2000 [1004]" by (simp add: slist_rep_def)
  have c: "consoles_ok (serial_call 1 (\<lambda>_ _. 0x20) 600) (serial_text 1000) (\<lambda>_. True) example_serial [1000]"
    using serial_driver_ok [OF t] s by (simp add: consoles_ok_def example_serial_def serial_console_def console_link_def)
  have w: "shows_output example_serial 1000" by (simp add: shows_output_def example_serial_def serial_console_def)
  have e: "example_text 100 = [97] @ 47 # [98] @ 0 # []" "example_text 102 = [98, 0]" "cstr_of example_text 102 = [98]"
    by (simp_all add: example_text_def cstr_def cstr_of_def of_char_def)
  have n: "(0 :: u8) \<notin> set [97]" "(0 :: u8) \<notin> set [98]" "(47 :: u8) \<notin> set [98]" by simp_all
  have i: "is_string example_text 200" "is_string example_text 300" "length (cstr ''hi'') < 4294967296"
    by (simp_all add: is_string_def example_text_def cstr_def)
  have l: "length (log_head LOG_INFO [98] (cstr_of example_text 200) (cstr_of example_text 300) @ map of_char ''hi'') < 2147483648"
    by (simp add: log_head_def example_text_def cstr_def cstr_of_def of_char_def)
  show ?thesis
    using klog_logf_at_shown [OF c _ w e(1) n _ _ i(1,2) example_formats i(3) l] e by simp
qed

end
