(* ===== verification/Video.thy ===== *)
theory Video
  imports Console Resources
begin

text \<open>
  kernel/modules/i686/video.c: the text console of the VGA. \<open>buffer\<close> are the cells of the video memory from
  \<open>STATE.buffer\<close> on, of 16 bits each: the character and its colour. \<open>uint_fast16_t\<close> is 32 bits wide.
\<close>

section \<open>Operations\<close>

type_synonym cell = "16 word"

record i686_video_state =
  buffer :: "cell list"
  row :: u32
  col :: u32
  color :: u8

abbreviation VIDEO_WIDTH :: u32 where "VIDEO_WIDTH \<equiv> 80"
abbreviation VIDEO_HEIGHT :: u32 where "VIDEO_HEIGHT \<equiv> 25"

definition video_mix_color :: "u8 \<Rightarrow> u8 \<Rightarrow> u8" where
  "video_mix_color fg bg = fg OR push_bit 4 bg"

definition video_char :: "u8 \<Rightarrow> u8 \<Rightarrow> cell" where
  "video_char uc clr = push_bit 8 (ucast clr) OR ucast uc"

definition buffer_store :: "i686_video_state \<Rightarrow> u32 \<Rightarrow> cell \<Rightarrow> i686_video_state kres" where
  "buffer_store s i v =
     kdefined (unat i < length (buffer s)) (Inr (s\<lparr>buffer := (buffer s)[unat i := v]\<rparr>))"

definition write_char :: "i686_video_state \<Rightarrow> u8 \<Rightarrow> u8 \<Rightarrow> u32 \<Rightarrow> u32 \<Rightarrow> i686_video_state kres" where
  "write_char s c clr x y = (let index = y * VIDEO_WIDTH + x in buffer_store s index (video_char c clr))"

text \<open>The nested loops over the cells of the screen, as one loop over rows and one over columns.\<close>

function cols_loop :: "(i686_video_state \<Rightarrow> u32 \<Rightarrow> i686_video_state kres) \<Rightarrow> i686_video_state \<Rightarrow> u32 \<Rightarrow> i686_video_state kres" where
  "cols_loop body s x = (if x < VIDEO_WIDTH then kbind (body s x) (\<lambda>s. cols_loop body s (x + 1)) else Inr s)"
  by pat_completeness auto
termination
  by (relation "measure (\<lambda>(body, s, x). unat VIDEO_WIDTH - unat x)") (auto dest!: size_t_loop_measure)

function rows_loop :: "(i686_video_state \<Rightarrow> u32 \<Rightarrow> i686_video_state kres) \<Rightarrow> u32 \<Rightarrow> i686_video_state \<Rightarrow> u32 \<Rightarrow> i686_video_state kres" where
  "rows_loop body h s y = (if y < h then kbind (body s y) (\<lambda>s. rows_loop body h s (y + 1)) else Inr s)"
  by pat_completeness auto
termination
  by (relation "measure (\<lambda>(body, h, s, y). unat h - unat y)") (auto dest!: size_t_loop_measure)

declare cols_loop.simps [simp del] rows_loop.simps [simp del]

definition scroll_cell :: "u32 \<Rightarrow> i686_video_state \<Rightarrow> u32 \<Rightarrow> i686_video_state kres" where
  "scroll_cell y s x =
     (let dst_i = y * VIDEO_WIDTH + x; src_i = dst_i + VIDEO_WIDTH in
      kdefined (unat src_i < length (buffer s)) (buffer_store s dst_i (buffer s ! unat src_i)))"

definition scroll_down :: "i686_video_state \<Rightarrow> i686_video_state kres" where
  "scroll_down s = rows_loop (\<lambda>s y. cols_loop (scroll_cell y) s 0) (VIDEO_HEIGHT - 1) s 0"

definition break_line :: "i686_video_state \<Rightarrow> i686_video_state kres" where
  "break_line s =
     (let s = s\<lparr>row := row s + 1, col := 0\<rparr> in
      if row s \<ge> VIDEO_HEIGHT
      then kbind (scroll_down s) (\<lambda>s.
        let s = s\<lparr>row := row s - 1\<rparr> in
        cols_loop (\<lambda>s x. write_char s 32 (color s) x (row s)) s 0)
      else Inr s)"

definition video_clear :: "i686_video_state \<Rightarrow> i686_video_state kres" where
  "video_clear s = rows_loop (\<lambda>s y. cols_loop (\<lambda>s x. write_char s 32 (color s) x y) s 0) VIDEO_HEIGHT s 0"

text \<open>The characters up to the end of the line; \<open>w\<close> is how many are left.\<close>

fun write_chars :: "nat \<Rightarrow> i686_video_state \<Rightarrow> u8 list \<Rightarrow> (i686_video_state \<times> u8 list) kres" where
  "write_chars 0 s str = Inr (s, str)"
| "write_chars (Suc w) s [] = Inl Undef"
| "write_chars (Suc w) s (c # str) =
     kbind (write_char s c (color s) (col s) (row s)) (\<lambda>s. write_chars w (s\<lparr>col := col s + 1\<rparr>) str)"

text \<open>
  \<open>str\<close> are the bytes from the message to the end of the object that holds it: \<open>kstrchr\<close> searches on
  until a new line or a \<open>NUL\<close>. A round either takes a byte or breaks a line that is full.
\<close>

fun video_write_loop :: "nat \<Rightarrow> i686_video_state \<Rightarrow> u8 list \<Rightarrow> size_t \<Rightarrow> i686_video_state kres" where
  "video_write_loop 0 s str len = Inl Fuel"
| "video_write_loop (Suc fuel) s str len =
     (if len > 0
      then kbind (kstrchr str 10) (\<lambda>nl_pos.
        let w = MIN_u32 len (VIDEO_WIDTH - col s);
            w = (case nl_pos of None \<Rightarrow> w | Some rest \<Rightarrow> MIN_u32 w (of_nat (length str - length rest))) in
        kbind (write_chars (unat w) s str) (\<lambda>(s, str).
        let len = len - w in
        if len \<noteq> 0
        then (case str of [] \<Rightarrow> Inl Undef
          | c # cs \<Rightarrow> if c = 10 then kbind (break_line s) (\<lambda>s. video_write_loop fuel s cs (len - 1))
              else kbind (break_line s) (\<lambda>s. video_write_loop fuel s str len))
        else Inr s))
      else Inr s)"

definition video_write :: "i686_video_state \<Rightarrow> u8 list \<Rightarrow> size_t \<Rightarrow> i686_video_state kres" where
  "video_write s str len = video_write_loop (Suc (Suc (2 * unat len))) s str len"


text \<open>
  \<open>map_resource\<close> and \<open>unmap_resource\<close> are \<open>kdev_map_resource\<close> and \<open>kdev_unmap_resource\<close> (dev.c) over their
  state \<open>'k\<close>, \<open>cells\<close> the memory from an address on, and \<open>con\<close> the address of \<open>video_console\<close>. The result
  has the address the cells lie at.
\<close>

definition VIDEO_WHITE :: u8 where "VIDEO_WHITE = 15"
definition VIDEO_BLACK :: u8 where "VIDEO_BLACK = 0"
definition VGA3_BUFFER_OFFSET :: addr where "VGA3_BUFFER_OFFSET = 0x18000"

definition video_available :: bool where "video_available = True"

definition video_load :: "(addr \<Rightarrow> u8 list) \<Rightarrow> (string \<Rightarrow> addr) \<Rightarrow> (addr \<Rightarrow> 'k \<Rightarrow> (addr \<times> 'k) kres) \<Rightarrow> (addr \<Rightarrow> cell list) \<Rightarrow> addr \<Rightarrow>
    res_state \<Rightarrow> 'k \<Rightarrow> 'd con_state \<Rightarrow> (addr \<times> i686_video_state \<times> res_state \<times> 'k \<times> 'd con_state) kres" where
  "video_load strs lit map_resource cells con rs k cs =
     kbind (resources_kclaim_by_id strs rs (lit ''platform'') (lit ''video'')) (\<lambda>(vid, rs).
     if NULL = vid then Inl Panic
     else kbind (map_resource vid k) (\<lambda>(vid_mem, k).
       if NULL = vid_mem then Inl Panic
       else let buf = vid_mem + VGA3_BUFFER_OFFSET;
                st = \<lparr>buffer = cells buf, row = 0, col = 0, color = video_mix_color VIDEO_WHITE VIDEO_BLACK\<rparr> in
         kbind (console_register cs con) (\<lambda>cs. Inr (buf, st, rs, k, cs))))"

definition video_unload :: "(addr \<Rightarrow> 'k \<Rightarrow> 'k kres) \<Rightarrow> addr \<Rightarrow> 'k \<Rightarrow> 'k kres" where
  "video_unload unmap_resource buf k = unmap_resource (buf - VGA3_BUFFER_OFFSET) k"

section \<open>The screen\<close>

definition video_ok :: "i686_video_state \<Rightarrow> bool" where
  "video_ok s \<longleftrightarrow> 2000 \<le> length (buffer s) \<and> row s < 25 \<and> col s \<le> 80"

text \<open>A terminal of 25 lines of 80 cells: its lines, and the line and column of the next character.\<close>

type_synonym terminal = "cell list list \<times> nat \<times> nat"

definition screen_of :: "i686_video_state \<Rightarrow> cell list list" where
  "screen_of s = map (\<lambda>y. map (\<lambda>x. buffer s ! (80 * y + x)) [0..<80]) [0..<25]"

definition term_of :: "i686_video_state \<Rightarrow> terminal" where
  "term_of s = (screen_of s, unat (row s), unat (col s))"

definition term_newline :: "u8 \<Rightarrow> terminal \<Rightarrow> terminal" where
  "term_newline clr = (\<lambda>(ls, r, c). if r = 24 then (tl ls @ [replicate 80 (video_char 32 clr)], r, 0) else (ls, r + 1, 0))"

definition term_put :: "u8 \<Rightarrow> u8 \<Rightarrow> terminal \<Rightarrow> terminal" where
  "term_put clr ch t = (if ch = 10 then term_newline clr t
     else let (ls, r, c) = (if snd (snd t) = 80 then term_newline clr t else t) in
       (ls[r := (ls ! r)[c := video_char ch clr]], r, c + 1))"

lemma cell_index:
  "y < 25 \<Longrightarrow> x \<le> 80 \<Longrightarrow> unat (of_nat y * VIDEO_WIDTH + of_nat x :: u32) = 80 * y + x"
  by (subst unat_add32; (subst unat_mult32)?) (simp_all add: unat_of_nat32 unat_mult32)

lemma cols_loop_inv:
  assumes "\<And>s x. x < 80 \<Longrightarrow> P s x \<Longrightarrow> \<exists>s'. body s (of_nat x) = Inr s' \<and> P s' (Suc x)"
  shows "n + k = 80 \<Longrightarrow> P s k \<Longrightarrow> \<exists>s'. cols_loop body s (of_nat k) = Inr s' \<and> P s' 80"
proof (induction n arbitrary: s k)
  case (Suc n)
  obtain s1 where s1: "body s (of_nat k) = Inr s1" "P s1 (Suc k)" using assms [of k s] Suc.prems by auto
  have "(of_nat k :: u32) < VIDEO_WIDTH" using Suc.prems by (simp add: word_less_nat_alt unat_of_nat32)
  then show ?case using Suc.IH [of "Suc k" s1] Suc.prems(1) s1 by (subst cols_loop.simps) (simp add: add.commute)
qed (subst cols_loop.simps, simp)

lemma rows_loop_inv:
  assumes "\<And>s y. y < h \<Longrightarrow> P s y \<Longrightarrow> \<exists>s'. body s (of_nat y) = Inr s' \<and> P s' (Suc y)" and "h < 100"
  shows "n + k = h \<Longrightarrow> P s k \<Longrightarrow> \<exists>s'. rows_loop body (of_nat h) s (of_nat k) = Inr s' \<and> P s' h"
proof (induction n arbitrary: s k)
  case (Suc n)
  obtain s1 where s1: "body s (of_nat k) = Inr s1" "P s1 (Suc k)" using assms(1) [of k s] Suc.prems by auto
  have "(of_nat k :: u32) < of_nat h" using Suc.prems assms(2) by (simp add: word_less_nat_alt unat_of_nat32)
  then show ?case using Suc.IH [of "Suc k" s1] Suc.prems(1) s1 by (subst rows_loop.simps) (simp add: add.commute)
qed (subst rows_loop.simps, simp)

text \<open>What the loops leave of a state: the position and the colour stay, the cells are as \<open>f\<close> says.\<close>

definition cells_are :: "i686_video_state \<Rightarrow> (nat \<Rightarrow> cell) \<Rightarrow> i686_video_state \<Rightarrow> bool" where
  "cells_are s0 f s \<longleftrightarrow> length (buffer s) = length (buffer s0) \<and> row s = row s0 \<and> col s = col s0 \<and> color s = color s0 \<and>
     (\<forall>i < length (buffer s). buffer s ! i = f i)"

lemma cells_are_store:
  assumes "cells_are s0 f s" and "unat i < length (buffer s0)"
  shows "\<exists>s'. buffer_store s i v = Inr s' \<and> cells_are s0 (f(unat i := v)) s'"
  using assms by (auto simp: buffer_store_def cells_are_def nth_list_update)

lemma cells_are_cong:
  "cells_are s0 f s \<Longrightarrow> (\<And>i. i < length (buffer s0) \<Longrightarrow> f i = g i) \<Longrightarrow> cells_are s0 g s"
  by (simp add: cells_are_def)


lemma cells_are_refl: "cells_are s (\<lambda>i. buffer s ! i) s"
  by (simp add: cells_are_def)

lemma write_char_cells:
  assumes "cells_are s0 f s" and "2000 \<le> length (buffer s0)" and "y < 25" "x < 80"
  shows "\<exists>s'. write_char s c clr (of_nat x) (of_nat y) = Inr s' \<and> cells_are s0 (f(80 * y + x := video_char c clr)) s'"
  using cells_are_store [OF assms(1), of "of_nat y * VIDEO_WIDTH + of_nat x" "video_char c clr"] assms(2-4)
  by (simp add: write_char_def cell_index)

lemma blank_line_ok:
  assumes "cells_are s0 f s" and "2000 \<le> length (buffer s0)" and "y < 25"
    and at: "\<And>s. row s = row s0 \<Longrightarrow> line s = of_nat y"
  shows "\<exists>s'. cols_loop (\<lambda>s x. write_char s 32 (color s) x (line s)) s 0 = Inr s' \<and>
    cells_are s0 (\<lambda>i. if 80 * y \<le> i \<and> i < 80 * y + 80 then video_char 32 (color s0) else f i) s'"
proof -
  let ?P = "\<lambda>s x. cells_are s0 (\<lambda>i. if 80 * y \<le> i \<and> i < 80 * y + x then video_char 32 (color s0) else f i) s"
  have "\<exists>s'. write_char s 32 (color s) (of_nat x) (line s) = Inr s' \<and> ?P s' (Suc x)" if "x < 80" "?P s x" for s x
    using write_char_cells [OF that(2) assms(2,3) that(1), of 32 "color s"] that(2) at [of s]
    by (auto elim!: cells_are_cong simp: cells_are_def [of s0 _ s])
  moreover have "?P s 0" by (rule cells_are_cong [OF assms(1)]) auto
  ultimately show ?thesis
    using cols_loop_inv [of ?P "\<lambda>s x. write_char s 32 (color s) x (line s)" 80 0 s] by simp
qed

lemma scroll_down_ok:
  assumes "2000 \<le> length (buffer s0)"
  shows "\<exists>s'. scroll_down s0 = Inr s' \<and>
    cells_are s0 (\<lambda>i. if i < 1920 then buffer s0 ! (i + 80) else buffer s0 ! i) s'"
proof -
  let ?f = "\<lambda>n i. if i < n then buffer s0 ! (i + 80) else buffer s0 ! i"
  let ?row = "\<lambda>s y. cols_loop (scroll_cell y) s 0"
  have "\<exists>s'. ?row s (of_nat y) = Inr s' \<and> cells_are s0 (?f (80 * Suc y)) s'" if y: "y < 24" "cells_are s0 (?f (80 * y)) s" for s y
  proof -
    have "\<exists>s'. scroll_cell (of_nat y) s (of_nat x) = Inr s' \<and> cells_are s0 (?f (80 * y + Suc x)) s'"
      if x: "x < 80" "cells_are s0 (?f (80 * y + x)) s" for s x
    proof -
      have i: "unat (of_nat y * VIDEO_WIDTH + of_nat x :: u32) = 80 * y + x" using y(1) x(1) by (intro cell_index) simp_all
      have j: "unat (of_nat y * VIDEO_WIDTH + of_nat x + VIDEO_WIDTH :: u32) = 80 * y + x + 80"
        using y(1) x(1) by (subst unat_add32) (simp_all add: i)
      have l: "80 * y + x + 80 < length (buffer s0)" using y(1) x(1) assms by simp
      have v: "buffer s ! (80 * y + x + 80) = buffer s0 ! (80 * y + x + 80)" "length (buffer s) = length (buffer s0)"
        using x(2) l by (simp_all add: cells_are_def)
      show ?thesis
        using cells_are_store [OF x(2), of "of_nat y * VIDEO_WIDTH + of_nat x" "buffer s ! (80 * y + x + 80)"] l v
        by (auto simp: scroll_cell_def i j elim!: cells_are_cong)
    qed
    from cols_loop_inv [of "\<lambda>s x. cells_are s0 (?f (80 * y + x)) s" "scroll_cell (of_nat y)" 80 0 s, OF this]
    have "\<exists>s'. ?row s (of_nat y) = Inr s' \<and> cells_are s0 (?f (80 * y + 80)) s'" using y(2) by simp
    moreover have "80 * y + 80 = 80 * Suc y" by simp
    ultimately show ?thesis by (simp only:)
  qed
  from rows_loop_inv [of 24 "\<lambda>s y. cells_are s0 (?f (80 * y)) s" ?row 24 0 s0, OF this]
  have "\<exists>s'. rows_loop ?row 24 s0 0 = Inr s' \<and> cells_are s0 (?f 1920) s'"
    using cells_are_refl [of s0] by simp
  then show ?thesis by (simp add: scroll_down_def)
qed

lemma video_clear_ok:
  assumes "2000 \<le> length (buffer s0)"
  shows "\<exists>s'. video_clear s0 = Inr s' \<and>
    cells_are s0 (\<lambda>i. if i < 2000 then video_char 32 (color s0) else buffer s0 ! i) s'"
proof -
  let ?f = "\<lambda>n i. if i < n then video_char 32 (color s0) else buffer s0 ! i"
  let ?row = "\<lambda>s y. cols_loop (\<lambda>s x. write_char s 32 (color s) x y) s 0"
  have "\<exists>s'. ?row s (of_nat y) = Inr s' \<and> cells_are s0 (?f (80 * Suc y)) s'" if "y < 25" "cells_are s0 (?f (80 * y)) s" for s y
    using blank_line_ok [OF that(2) assms that(1) refl] by (auto elim!: cells_are_cong)
  from rows_loop_inv [of 25 "\<lambda>s y. cells_are s0 (?f (80 * y)) s" ?row 25 0 s0, OF this]
  show ?thesis using cells_are_refl [of s0] by (simp add: video_clear_def)
qed


section \<open>The terminal\<close>

text \<open>The colour and the memory past the screen stay.\<close>

definition video_frame :: "i686_video_state \<Rightarrow> i686_video_state \<Rightarrow> bool" where
  "video_frame s s' \<longleftrightarrow> color s' = color s \<and> length (buffer s') = length (buffer s) \<and>
     (\<forall>i. 2000 \<le> i \<longrightarrow> i < length (buffer s) \<longrightarrow> buffer s' ! i = buffer s ! i)"

lemma video_frame_trans: "video_frame s s1 \<Longrightarrow> video_frame s1 s2 \<Longrightarrow> video_frame s s2"
  by (simp add: video_frame_def)

lemma screen_of_cells:
  assumes "cells_are s0 f s" and "2000 \<le> length (buffer s0)"
  shows "screen_of s = map (\<lambda>y. map (\<lambda>x. f (80 * y + x)) [0..<80]) [0..<25]"
  using assms by (auto simp: screen_of_def cells_are_def)

lemma break_line_ok:
  assumes "video_ok s"
  shows "\<exists>s'. break_line s = Inr s' \<and> video_ok s' \<and> term_of s' = term_newline (color s) (term_of s) \<and> video_frame s s'"
proof -
  let ?s = "s\<lparr>row := row s + 1, col := 0\<rparr>"
  have r: "unat (row s) < 25" "unat (row s + 1) = Suc (unat (row s))" "2000 \<le> length (buffer s)"
    using assms by (simp_all add: video_ok_def word_less_nat_alt unat_Suc32)
  show ?thesis
  proof (cases "unat (row s) = 24")
    case False
    then have "\<not> row s + 1 \<ge> VIDEO_HEIGHT" using r by (simp add: word_le_nat_alt)
    then show ?thesis using False r
      by (auto simp: break_line_def video_ok_def word_less_nat_alt term_of_def term_newline_def screen_of_def video_frame_def)
  next
    case True
    then have h: "row s + 1 \<ge> VIDEO_HEIGHT" using r by (simp add: word_le_nat_alt)
    obtain s1 where s1: "scroll_down ?s = Inr s1"
        "cells_are ?s (\<lambda>i. if i < 1920 then buffer ?s ! (i + 80) else buffer ?s ! i) s1"
      using scroll_down_ok [of ?s] r(3) by auto
    let ?w = "s1\<lparr>row := row s1 - 1\<rparr>" and ?z = "?s\<lparr>row := row ?s - 1\<rparr>"
    let ?f = "\<lambda>i. if i < 1920 then buffer s ! (i + 80) else buffer s ! i"
    let ?g = "\<lambda>i. if 1920 \<le> i \<and> i < 2000 then video_char 32 (color s) else ?f i"
    have w: "row s = of_nat 24" "row ?z = of_nat 24" using True by (auto simp: word_unat_eq_iff)
    have "cells_are ?s ?f s1" by (rule cells_are_cong [OF s1(2)]) simp
    then have c1: "cells_are ?z ?f ?w" by (simp add: cells_are_def)
    have "\<exists>s'. cols_loop (\<lambda>s x. write_char s 32 (color s) x (row s)) ?w 0 = Inr s' \<and>
        cells_are ?z (\<lambda>i. if 80 * 24 \<le> i \<and> i < 80 * 24 + 80 then video_char 32 (color ?z) else ?f i) s'"
      by (rule blank_line_ok [OF c1]) (use r(3) w in simp_all)
    then obtain s2 where s2: "cols_loop (\<lambda>s x. write_char s 32 (color s) x (row s)) ?w 0 = Inr s2"
        "cells_are ?z (\<lambda>i. if 80 * 24 \<le> i \<and> i < 80 * 24 + 80 then video_char 32 (color ?z) else ?f i) s2"
      by blast
    have c2: "cells_are ?z ?g s2" by (rule cells_are_cong [OF s2(2)]) simp
    have "screen_of s2 = map (\<lambda>y. map (\<lambda>x. ?g (80 * y + x)) [0..<80]) [0..<25]"
      using screen_of_cells [OF c2] r(3) by simp
    also have "\<dots> = tl (screen_of s) @ [replicate 80 (video_char 32 (color s))]"
      by (rule nth_equalityI) (auto simp: screen_of_def nth_append nth_tl ac_simps intro!: nth_equalityI)
    finally have scr: "screen_of s2 = tl (screen_of s) @ [replicate 80 (video_char 32 (color s))]" .
    have "row s2 = of_nat 24" "col s2 = 0" "color s2 = color s" "length (buffer s2) = length (buffer s)"
      using c2 w(2) by (simp_all add: cells_are_def)
    moreover have "video_frame s s2" using c2 by (simp add: video_frame_def cells_are_def)
    ultimately show ?thesis
      using s1(1) s2(1) h scr True r(3)
      by (auto simp: break_line_def Let_def video_ok_def term_of_def term_newline_def word_less_nat_alt)
  qed
qed


lemma cell_eq:
  assumes "x < 80" and "c < (80 :: nat)"
  shows "80 * y + x = 80 * r + c \<longleftrightarrow> y = r \<and> x = c"
proof
  assume e: "80 * y + x = 80 * r + c"
  then have "y = r" using arg_cong [OF e, of "\<lambda>n. n div 80"] assms by simp
  then show "y = r \<and> x = c" using e by simp
qed simp

lemma put_char_ok:
  assumes ok: "video_ok s" and c: "unat (col s) < 80" and ch: "ch \<noteq> 10"
  shows "\<exists>s'. write_char s ch (color s) (col s) (row s) = Inr s' \<and> video_ok (s'\<lparr>col := col s' + 1\<rparr>) \<and>
    term_of (s'\<lparr>col := col s' + 1\<rparr>) = term_put (color s) ch (term_of s) \<and> video_frame s (s'\<lparr>col := col s' + 1\<rparr>) \<and>
    unat (col s' + 1) = Suc (unat (col s))"
proof -
  let ?r = "unat (row s)" and ?c = "unat (col s)" and ?v = "video_char ch (color s)"
  have r: "?r < 25" "2000 \<le> length (buffer s)" using ok by (simp_all add: video_ok_def word_less_nat_alt)
  have "\<exists>s'. write_char s ch (color s) (of_nat ?c) (of_nat ?r) = Inr s' \<and>
      cells_are s ((\<lambda>i. buffer s ! i)(80 * ?r + ?c := ?v)) s'"
    by (rule write_char_cells [OF cells_are_refl r(2,1) c])
  then obtain s' where s': "write_char s ch (color s) (col s) (row s) = Inr s'"
      "cells_are s ((\<lambda>i. buffer s ! i)(80 * ?r + ?c := ?v)) s'" by auto
  have u: "unat (col s + 1) = Suc ?c" using c by (simp add: unat_Suc32)
  have e: "80 * y + x = 80 * ?r + ?c \<longleftrightarrow> y = ?r \<and> x = ?c" if "x < 80" for x y
    using that c by (rule cell_eq)
  have "screen_of s' = map (\<lambda>y. map (\<lambda>x. ((\<lambda>i. buffer s ! i)(80 * ?r + ?c := ?v)) (80 * y + x)) [0..<80]) [0..<25]"
    by (rule screen_of_cells [OF s'(2) r(2)])
  also have "\<dots> = (screen_of s)[?r := (screen_of s ! ?r)[?c := ?v]]"
    using r(1) c by (intro nth_equalityI) (auto simp: screen_of_def nth_list_update e intro!: nth_equalityI)
  finally have scr: "screen_of s' = (screen_of s)[?r := (screen_of s ! ?r)[?c := ?v]]" .
  have "screen_of (s'\<lparr>col := col s' + 1\<rparr>) = screen_of s'" by (simp add: screen_of_def)
  moreover have "video_frame s (s'\<lparr>col := col s' + 1\<rparr>)"
    using s'(2) r(1) c by (auto simp: video_frame_def cells_are_def)
  ultimately show ?thesis
    using s' scr ok c u ch
    by (auto simp: cells_are_def video_ok_def term_of_def term_put_def word_le_nat_alt)
qed

lemma write_chars_ok:
  "video_ok s \<Longrightarrow> unat (col s) + w \<le> 80 \<Longrightarrow> w \<le> length str \<Longrightarrow> 10 \<notin> set (take w str) \<Longrightarrow>
   \<exists>s'. write_chars w s str = Inr (s', drop w str) \<and> video_ok s' \<and> video_frame s s' \<and>
     term_of s' = fold (term_put (color s)) (take w str) (term_of s) \<and> unat (col s') = unat (col s) + w"
proof (induction w arbitrary: s str)
  case (Suc w)
  obtain ch m where str: "str = ch # m" "ch \<noteq> 10" "10 \<notin> set (take w m)" using Suc.prems(3,4) by (cases str) auto
  obtain s1 where s1: "write_char s ch (color s) (col s) (row s) = Inr s1" "video_ok (s1\<lparr>col := col s1 + 1\<rparr>)"
      "term_of (s1\<lparr>col := col s1 + 1\<rparr>) = term_put (color s) ch (term_of s)" "video_frame s (s1\<lparr>col := col s1 + 1\<rparr>)"
      "unat (col s1 + 1) = Suc (unat (col s))"
    using put_char_ok [OF Suc.prems(1) _ str(2)] Suc.prems(2) by auto
  have cl: "color (s1\<lparr>col := col s1 + 1\<rparr>) = color s" using s1(4) by (simp add: video_frame_def)
  obtain s2 where "write_chars w (s1\<lparr>col := col s1 + 1\<rparr>) m = Inr (s2, drop w m)" "video_ok s2"
      "video_frame (s1\<lparr>col := col s1 + 1\<rparr>) s2"
      "term_of s2 = fold (term_put (color s)) (take w m) (term_of (s1\<lparr>col := col s1 + 1\<rparr>))"
      "unat (col s2) = unat (col s) + Suc w"
    using Suc.IH [OF s1(2) _ _ str(3)] Suc.prems(2,3) s1(5) cl by (auto simp: str(1))
  then show ?case using s1 str(1) video_frame_trans [OF s1(4)] by simp
qed (simp add: video_frame_def)

lemma kstrchr_dropWhile:
  "0 \<in> set str \<Longrightarrow> kstrchr str 10 =
     Inr (let u = dropWhile (\<lambda>c. c \<noteq> 0 \<and> c \<noteq> 10) str in if hd u = 10 then Some u else None)"
proof (induction str)
  case (Cons c str)
  have "sint c = 10 \<longleftrightarrow> c = 10" using signed_word_eqI [of c 10] by auto
  then show ?case using Cons by auto
qed simp

lemma kstrchr_newline:
  assumes "0 \<notin> set msg" and "0 \<in> set rest"
  obtains r where "kstrchr (msg @ rest) 10 = Inr r"
    and "min n (case r of None \<Rightarrow> length msg | Some x \<Rightarrow> length (msg @ rest) - length x) =
      min n (length (takeWhile (\<lambda>c. c \<noteq> 10) msg)) \<or> length msg < n"
proof -
  let ?P = "\<lambda>c :: u8. c \<noteq> 0 \<and> c \<noteq> 10"
  show thesis
  proof (cases "10 \<in> set msg")
    case True
    have "dropWhile ?P msg = dropWhile (\<lambda>c. c \<noteq> 10) msg" using assms(1) by (intro dropWhile_cong) auto
    then have "dropWhile ?P (msg @ rest) = dropWhile (\<lambda>c. c \<noteq> 10) msg @ rest"
      using True by (simp add: dropWhile_append1 [of 10 msg ?P])
    moreover have "length msg - length (dropWhile (\<lambda>c. c \<noteq> 10) msg) = length (takeWhile (\<lambda>c. c \<noteq> 10) msg)"
      by (metis add_diff_cancel_right' length_append takeWhile_dropWhile_id)
    moreover have "dropWhile (\<lambda>c. c \<noteq> 10) msg \<noteq> []" "hd (dropWhile (\<lambda>c. c \<noteq> 10) msg) = 10"
      using True hd_dropWhile [of "\<lambda>c. c \<noteq> 10" msg] by (auto simp: dropWhile_eq_Nil_conv)
    ultimately show thesis using that kstrchr_dropWhile [of "msg @ rest"] assms(2) by simp
  next
    case False
    then have d: "dropWhile ?P (msg @ rest) = dropWhile ?P rest" using assms(1) by (intro dropWhile_append2) auto
    have tw: "takeWhile (\<lambda>c. c \<noteq> 10) msg = msg" using False by (subst takeWhile_eq_all_conv) blast
    have "min n (length msg + length rest - length (dropWhile ?P rest)) = min n (length msg) \<or> length msg < n"
      using length_dropWhile_le [of ?P rest] by auto
    then show thesis
      using that kstrchr_dropWhile [of "msg @ rest"] assms(2) by (auto simp: d tw Let_def split: if_splits)
  qed
qed


lemma term_newline_col: "snd (snd (term_newline clr t)) = 0"
  by (simp add: term_newline_def split: prod.splits)

lemma term_put_newline: "term_put clr 10 t = term_newline clr t"
  by (simp add: term_put_def)

declare video_write_loop.simps [simp del]

lemma MIN_unat: "unat (MIN_u32 a b) = min (unat a) (unat b)"
  by (simp add: MIN_u32_def word_less_nat_alt)

text \<open>One round: the characters up to the end of the line or the next new line, and a line break.\<close>

lemma video_round:
  assumes "0 \<in> set rest" and "video_ok s" and "0 \<notin> set msg" and "length (msg @ rest) < 4294967296" and "msg \<noteq> []"
    and wdef: "w = min (min (length msg) (80 - unat (col s))) (length (takeWhile (\<lambda>c. c \<noteq> 10) msg))"
  obtains s1 where "video_ok s1" "video_frame s s1" "unat (col s1) = unat (col s) + w"
    "term_of s1 = fold (term_put (color s)) (take w msg) (term_of s)"
    "video_write_loop (Suc fuel) s (msg @ rest) (of_nat (length msg)) =
      (if length msg - w = 0 then Inr s1
       else case drop w msg @ rest of [] \<Rightarrow> Inl Undef
         | ch # cs \<Rightarrow> if ch = 10 then kbind (break_line s1) (\<lambda>s. video_write_loop fuel s cs (of_nat (length msg - w) - 1))
             else kbind (break_line s1) (\<lambda>s. video_write_loop fuel s (drop w msg @ rest) (of_nat (length msg - w))))"
proof -
  let ?n = "length msg" and ?c = "unat (col s)"
  let ?m = "min ?n (80 - ?c)"
  have n: "unat (of_nat ?n :: size_t) = ?n" using assms(4) by (simp add: unat_of_nat32)
  have c: "?c \<le> 80" using assms(2) by (simp add: video_ok_def word_le_nat_alt)
  have wn: "w \<le> ?n" "?c + w \<le> 80" using c by (simp_all add: wdef)
  have "10 \<notin> set (take w msg)" unfolding wdef
    by (metis (mono_tags, lifting) min.cobounded2 set_takeWhileD set_take_subset_set_take subset_code(1) takeWhile_eq_take)
  then obtain s1 where s1: "write_chars w s (msg @ rest) = Inr (s1, drop w msg @ rest)" "video_ok s1" "video_frame s s1"
      "term_of s1 = fold (term_put (color s)) (take w msg) (term_of s)" "unat (col s1) = ?c + w"
    using write_chars_ok [OF assms(2), of w "msg @ rest"] wn by auto
  obtain r where r: "kstrchr (msg @ rest) 10 = Inr r"
      "min ?m (case r of None \<Rightarrow> ?n | Some x \<Rightarrow> length (msg @ rest) - length x) = w"
    using kstrchr_newline [OF assms(3,1), of ?m] unfolding wdef by (metis min.cobounded1 not_le)
  let ?a = "MIN_u32 (of_nat ?n) (VIDEO_WIDTH - col s)"
  let ?b = "case r of None \<Rightarrow> ?a | Some x \<Rightarrow> MIN_u32 ?a (of_nat (length (msg @ rest) - length x))"
  have "unat ?a = ?m" using c by (simp add: MIN_unat n unat_sub32)
  moreover have "unat (of_nat (length (msg @ rest) - k) :: size_t) = length (msg @ rest) - k" for k
    using assms(4) by (intro unat_of_nat32) linarith
  ultimately have w: "unat ?b = w" using r(2) by (cases r) (simp_all add: MIN_unat)
  have left: "of_nat ?n - ?b = (of_nat (?n - w) :: size_t)"
    by (rule word32_eqI) (use assms(4) wn(1) in \<open>simp add: unat_sub32 w n unat_of_nat32\<close>)
  have nz: "(of_nat ?n :: size_t) > 0" using assms(5) by (simp add: word_less_nat_alt n)
  have "unat (of_nat (?n - w) :: size_t) = ?n - w" by (rule unat_of_nat32) (use assms(4) in simp)
  then have z: "(of_nat (?n - w) :: size_t) = 0 \<longleftrightarrow> ?n - w = 0" by (metis unsigned_eq_0_iff)
  show thesis
    by (rule that [OF s1(2,3,5,4)], unfold video_write_loop.simps(2) Let_def)
      (simp only: nz if_True r(1) kbind_Inr w s1(1) prod.case left z, simp)
qed

lemma video_write_loop_ok:
  assumes rest: "0 \<in> set rest"
  shows "video_ok s \<Longrightarrow> 0 \<notin> set msg \<Longrightarrow> length (msg @ rest) < 4294967296 \<Longrightarrow>
    2 * length msg + (if unat (col s) = 80 then 1 else 0) < fuel \<Longrightarrow>
    \<exists>s'. video_write_loop fuel s (msg @ rest) (of_nat (length msg)) = Inr s' \<and> video_ok s' \<and> video_frame s s' \<and>
      term_of s' = fold (term_put (color s)) msg (term_of s)"
proof (induction fuel arbitrary: s msg)
  case (Suc fuel)
  let ?n = "length msg" and ?c = "unat (col s)" and ?q = "length (takeWhile (\<lambda>c. c \<noteq> 10) msg)"
  define w where "w = min (min ?n (80 - ?c)) ?q"
  show ?case
  proof (cases "msg = []")
    case False
    obtain s1 where s1: "video_ok s1" "video_frame s s1" "unat (col s1) = ?c + w"
        "term_of s1 = fold (term_put (color s)) (take w msg) (term_of s)" and
      step: "video_write_loop (Suc fuel) s (msg @ rest) (of_nat ?n) =
      (if ?n - w = 0 then Inr s1
       else case drop w msg @ rest of [] \<Rightarrow> Inl Undef
         | ch # cs \<Rightarrow> if ch = 10 then kbind (break_line s1) (\<lambda>s. video_write_loop fuel s cs (of_nat (?n - w) - 1))
             else kbind (break_line s1) (\<lambda>s. video_write_loop fuel s (drop w msg @ rest) (of_nat (?n - w))))"
      using video_round [OF rest Suc.prems(1-3) False w_def] by blast
    have cl: "color s1 = color s" using s1(2) by (simp add: video_frame_def)
    show ?thesis
    proof (cases "?n - w = 0")
      case True
      then show ?thesis using step s1 by simp
    next
      case more: False
      obtain ch m where m: "drop w msg = ch # m" using more by (cases "drop w msg") auto
      obtain s2 where s2: "break_line s1 = Inr s2" "video_ok s2" "term_of s2 = term_newline (color s) (term_of s1)"
          "video_frame s1 s2"
        using break_line_ok [OF s1(1)] cl by auto
      note frame = video_frame_trans [OF video_frame_trans [OF s1(2) s2(4)]]
      have "unat (col s2) = snd (snd (term_of s2))" by (simp add: term_of_def)
      then have cl2: "color s2 = color s" "unat (col s2) = 0"
        using s2(3,4) cl term_newline_col by (simp_all add: video_frame_def)
      have nm: "?n - w = Suc (length m)" using arg_cong [OF m, of length] by simp
      have split: "take w msg @ ch # m = msg" by (metis append_take_drop_id m)
      have msg: "fold (term_put (color s)) msg (term_of s) = fold (term_put (color s)) (ch # m) (term_of s1)"
        using fun_cong [OF fold_append [of "term_put (color s)" "take w msg" "ch # m"], of "term_of s"]
        unfolding split o_apply s1(4) .
      have z: "0 \<notin> set (ch # m)" using Suc.prems(2) set_drop_subset [of w msg] m by auto
      have len: "length ((ch # m) @ rest) < 4294967296" using Suc.prems(3) nm by simp
      show ?thesis
      proof (cases "ch = 10")
        case True
        have "Suc (length m) \<le> ?n" using nm by linarith
        then have "2 * length m + (if unat (col s2) = 80 then 1 else 0) < fuel"
          using Suc.prems(4) cl2(2) by (simp split: if_splits)
        moreover have "of_nat (?n - w) - 1 = (of_nat (length m) :: size_t)" by (simp add: nm)
        ultimately show ?thesis
          using Suc.IH [OF s2(2), of m] len z cl2 step more m s2 True msg frame by (auto simp: term_put_newline)
      next
        case False
        have "w \<noteq> ?q"
        proof
          assume e: "w = ?q"
          have "msg ! ?q = ch" using nth_via_drop [OF m] unfolding e .
          then show False using nth_length_takeWhile [of "\<lambda>c. c \<noteq> 10" msg] False more e by simp
        qed
        then have w80: "w = 80 - ?c" using more by (simp add: w_def min_def split: if_splits)
        then have "snd (snd (term_of s1)) = 80" using s1(3) Suc.prems(1)
          by (simp add: term_of_def video_ok_def word_le_nat_alt)
        then have "term_put (color s) ch (term_of s1) = term_put (color s) ch (term_of s2)"
          using False s2(3) term_newline_col [of "color s" "term_of s1"] by (simp add: term_put_def)
        moreover have "2 * length (ch # m) < fuel"
        proof -
          have "?c \<le> 80" "?n - (80 - ?c) = Suc (length m)" "2 * ?n + (if ?c = 80 then 1 else 0) < Suc fuel"
            using Suc.prems(1,4) nm w80 by (simp_all add: video_ok_def word_le_nat_alt)
          then have "?n + ?c = 81 + length m" "?c \<le> 80" "2 * ?n + (if ?c = 80 then 1 else 0) < Suc fuel" by linarith+
          then show ?thesis by (cases "?c = 80") simp_all
        qed
        ultimately show ?thesis
          using Suc.IH [OF s2(2) z len] nm cl2 step more m s2 False msg frame by auto
      qed
    qed
  qed (use Suc.prems in \<open>simp add: video_frame_def video_write_loop.simps\<close>)
qed simp


section \<open>The console shows what a terminal shows\<close>

text \<open>C26: the console is a terminal of 25 lines of 80 cells: writing a message line by line, with the search
  for new lines, gives the screen, the position and the colours that putting its characters one by one
  gives. A full line is broken when the next character arrives, the screen scrolls by a line when it is
  full, and memory past the screen is left alone.\<close>

theorem video_write_terminal:
  assumes "video_ok s" and "0 \<notin> set msg" and "0 \<in> set rest" and "length (msg @ rest) < 4294967296"
  shows "\<exists>s'. video_write s (msg @ rest) (of_nat (length msg)) = Inr s' \<and> video_ok s' \<and>
    term_of s' = fold (term_put (color s)) msg (term_of s) \<and> drop 2000 (buffer s') = drop 2000 (buffer s)"
proof -
  have n: "unat (of_nat (length msg) :: size_t) = length msg" using assms(4) by (simp add: unat_of_nat32)
  obtain s' where "video_write s (msg @ rest) (of_nat (length msg)) = Inr s'" "video_ok s'" "video_frame s s'"
      "term_of s' = fold (term_put (color s)) msg (term_of s)"
    using video_write_loop_ok [OF assms(3,1,2,4), of "Suc (Suc (2 * length msg))"]
    by (cases "unat (col s) = 80") (auto simp: video_write_def n)
  moreover have "drop 2000 (buffer s') = drop 2000 (buffer s)" if "video_frame s s'" for s'
    using that by (intro nth_equalityI) (auto simp: video_frame_def)
  ultimately show ?thesis by blast
qed

theorem video_write_terminal_witness:
  "\<exists>s'. video_write \<lparr>buffer = replicate 2000 0, row = 24, col = 80, color = 15\<rparr> ([65, 10, 66] @ [0]) 3 = Inr s' \<and>
     video_ok s' \<and> term_of s' = fold (term_put 15) [65, 10, 66]
       (term_of \<lparr>buffer = replicate 2000 0, row = 24, col = 80, color = 15\<rparr>) \<and> drop 2000 (buffer s') = []"
  using video_write_terminal [of "\<lparr>buffer = replicate 2000 0, row = 24, col = 80, color = 15\<rparr>" "[65, 10, 66]" "[0]"]
  by (simp add: video_ok_def)

end
