(* ===== verification/Interrupts.thy ===== *)
theory Interrupts
  imports Ports
begin

text \<open>
  kernel/arch/i686/descriptors.c and intr.c: the descriptor tables, the handlers of interrupts and the two
  interrupt controllers; pit.c: the interval timer. A handler is an address, and \<open>call f ctx w\<close> is what a
  call of it does to the rest of the kernel. \<open>isr n\<close> and \<open>irq n\<close> are the entry points of intr.asm.
  \<open>lgdt\<close>, \<open>lidt\<close> and the loads of the segment registers set fields of the state.
\<close>

unbundle bit_operations_syntax

section \<open>Descriptors\<close>

record gdt_entry =
  limit_low :: u16
  base_low :: u16
  base_middle :: u8
  accessed :: bool
  writable :: bool
  direction_conforming :: bool
  code :: bool
  code_or_data :: bool
  privelege :: "2 word"
  present :: bool
  limit_high :: "4 word"
  available :: bool
  must_be_false :: bool
  seg_size :: bool
  granularity :: bool
  base_high :: u8

record idt_entry =
  offset_low :: u16
  seg_selector :: u16
  must_be_0 :: u8
  gate_type :: "4 word"
  gate_flags :: "4 word"
  offset_high :: u16

record descriptors =
  null_descriptor :: gdt_entry
  code_descriptor :: gdt_entry
  data_descriptor :: gdt_entry
  gates :: "idt_entry list"
  gdtr :: "u16 \<times> u32"
  idtr :: "u16 \<times> u32"
  data_sel :: u16
  code_sel :: u16

definition zero_gdt_entry :: gdt_entry where
  "zero_gdt_entry = \<lparr>limit_low = 0, base_low = 0, base_middle = 0, accessed = False, writable = False,
     direction_conforming = False, code = False, code_or_data = False, privelege = 0, present = False, limit_high = 0,
     available = False, must_be_false = False, seg_size = False, granularity = False, base_high = 0\<rparr>"

definition zero_idt_entry :: idt_entry where
  "zero_idt_entry = \<lparr>offset_low = 0, seg_selector = 0, must_be_0 = 0, gate_type = 0, gate_flags = 0, offset_high = 0\<rparr>"

abbreviation GATE_TYPE_INTER_32 :: "4 word" where "GATE_TYPE_INTER_32 \<equiv> 0xE"
abbreviation GATE_TYPE_TRAP_32 :: "4 word" where "GATE_TYPE_TRAP_32 \<equiv> 0xF"
abbreviation IDT_FLAG_PRESENT :: "4 word" where "IDT_FLAG_PRESENT \<equiv> 8"
abbreviation IDT_FLAG_RING_0 :: "4 word" where "IDT_FLAG_RING_0 \<equiv> 0"

definition gdt_set_table :: "descriptors \<Rightarrow> u16 \<times> u32 \<Rightarrow> u16 \<Rightarrow> u16 \<Rightarrow> descriptors" where
  "gdt_set_table d table data_offset code_offset = d\<lparr>gdtr := table, data_sel := data_offset, code_sel := code_offset\<rparr>"

definition idt_set_table :: "descriptors \<Rightarrow> u16 \<times> u32 \<Rightarrow> descriptors" where
  "idt_set_table d table = d\<lparr>idtr := table\<rparr>"

text \<open>\<open>gdt\<close> and \<open>idt\<close> are the addresses of the tables.\<close>

definition boot_setup_gdt :: "addr \<Rightarrow> descriptors \<Rightarrow> descriptors" where
  "boot_setup_gdt gdt d =
     (let LIMIT = 0xFFFFFFFF :: u32;
          d = d\<lparr>null_descriptor := zero_gdt_entry\<rparr>;
          code_d = (code_descriptor d)\<lparr>limit_low := ucast (LIMIT AND 0xFFFF), limit_high := ucast (drop_bit 0x10 LIMIT AND 0x0F),
            base_low := 0, base_middle := 0, base_high := 0, accessed := False, writable := False,
            direction_conforming := False, code := True, code_or_data := True, privelege := 0, present := True,
            must_be_false := False, seg_size := True, granularity := True\<rparr>;
          data_d = (data_descriptor d)\<lparr>limit_low := ucast (LIMIT AND 0xFFFF), limit_high := ucast (drop_bit 0x10 LIMIT AND 0x0F),
            base_low := 0, base_middle := 0, base_high := 0, accessed := False, writable := True,
            direction_conforming := False, code := False, code_or_data := True, privelege := 0, present := True,
            must_be_false := False, seg_size := True, granularity := True\<rparr>;
          d = d\<lparr>code_descriptor := code_d, data_descriptor := data_d\<rparr> in
      gdt_set_table d (3 * 8 - 1, gdt) 16 8)"

definition idt_set_gatedesc :: "descriptors \<Rightarrow> u8 \<Rightarrow> addr \<Rightarrow> 4 word \<Rightarrow> 4 word \<Rightarrow> descriptors kres" where
  "idt_set_gatedesc d gate_num offset flags gt =
     kdefined (unat gate_num < length (gates d))
       (Inr (d\<lparr>gates := (gates d)[unat gate_num := \<lparr>offset_low = ucast offset, seg_selector = 8, must_be_0 = 0,
          gate_type = gt, gate_flags = flags, offset_high = ucast (drop_bit 0x10 offset)\<rparr>]\<rparr>))"

definition boot_setup_idt :: "addr \<Rightarrow> descriptors \<Rightarrow> descriptors" where
  "boot_setup_idt idt d = (let d = d\<lparr>gates := replicate 256 zero_idt_entry\<rparr> in idt_set_table d (256 * 8 - 1, idt))"

section \<open>Handlers\<close>

record intr_ctx =
  ctx_ds :: u32
  edi :: u32
  esi :: u32
  ebp :: u32
  esp :: u32
  ebx :: u32
  edx :: u32
  ecx :: u32
  eax :: u32
  int_n :: u32
  err_code :: u32
  eip :: u32
  ctx_cs :: u32
  eflags :: u32
  preint_esp :: u32
  ctx_ss :: u32

record intr_state =
  HANDLERS :: "addr list"
  DEFAULT_HANDLER :: addr
  pics :: port_state

type_synonym 'w handler_call = "addr \<Rightarrow> intr_ctx \<Rightarrow> 'w \<Rightarrow> 'w kres"

definition IRQ_MASTER_OFFSET :: u8 where "IRQ_MASTER_OFFSET = 32"
definition IRQ_SLAVE_OFFSET :: u8 where "IRQ_SLAVE_OFFSET = IRQ_MASTER_OFFSET + 8"
definition MASTER_CMD :: u16 where "MASTER_CMD = 0x20"
definition MASTER_DATA :: u16 where "MASTER_DATA = 0x21"
definition SLAVE_CMD :: u16 where "SLAVE_CMD = 0xA0"
definition SLAVE_DATA :: u16 where "SLAVE_DATA = 0xA1"
definition ICW1_INIT :: u8 where "ICW1_INIT = push_bit 4 1"
definition ICW1_IC4 :: u8 where "ICW1_IC4 = 1"
definition ICW4_8086 :: u8 where "ICW4_8086 = 1"
definition OCW2_EOI :: u8 where "OCW2_EOI = push_bit 5 1"

definition pic_remap :: "(u16 \<Rightarrow> nat \<Rightarrow> u8) \<Rightarrow> u8 \<Rightarrow> u8 \<Rightarrow> port_state \<Rightarrow> port_state" where
  "pic_remap io master_offset slave_offset p =
     (let (master_mask, p) = ioread io MASTER_DATA p;
          (slave_mask, p) = ioread io SLAVE_DATA p;
          icw1 = ICW1_INIT OR ICW1_IC4;
          p = iowrite (Outb MASTER_CMD icw1) p;
          p = iowrite (Outb SLAVE_CMD icw1) p;
          p = iowrite (Outb MASTER_DATA master_offset) p;
          p = iowrite (Outb SLAVE_DATA slave_offset) p;
          slave_to_master_irq = push_bit 2 1;
          slave_id = 2;
          p = iowrite (Outb MASTER_DATA slave_to_master_irq) p;
          p = iowrite (Outb SLAVE_DATA slave_id) p;
          icw4 = ICW4_8086;
          p = iowrite (Outb MASTER_DATA icw4) p;
          p = iowrite (Outb SLAVE_DATA icw4) p;
          p = iowrite (Outb MASTER_DATA master_mask) p in
      iowrite (Outb SLAVE_DATA slave_mask) p)"

definition pic_write_eoi :: "u8 \<Rightarrow> port_state \<Rightarrow> port_state" where
  "pic_write_eoi irq p =
     (let p = (if irq > 7 then iowrite (Outb SLAVE_CMD OCW2_EOI) p else p) in iowrite (Outb MASTER_CMD OCW2_EOI) p)"

definition call_handler :: "'w handler_call \<Rightarrow> intr_state \<Rightarrow> intr_ctx \<Rightarrow> 'w \<Rightarrow> 'w kres" where
  "call_handler call s ctx w =
     kdefined (unat (int_n ctx) < length (HANDLERS s))
       (if HANDLERS s ! unat (int_n ctx) \<noteq> NULL then call (HANDLERS s ! unat (int_n ctx)) ctx w
        else if DEFAULT_HANDLER s \<noteq> NULL then call (DEFAULT_HANDLER s) ctx w
        else Inr w)"

definition irq_handler :: "'w handler_call \<Rightarrow> intr_state \<Rightarrow> intr_ctx \<Rightarrow> 'w \<Rightarrow> ('w \<times> intr_state) kres" where
  "irq_handler call s ctx w =
     (let ctx = (if int_n ctx < 8 then ctx\<lparr>int_n := int_n ctx + ucast IRQ_MASTER_OFFSET\<rparr>
                 else ctx\<lparr>int_n := int_n ctx + ucast IRQ_SLAVE_OFFSET\<rparr>) in
      kbind (call_handler call s ctx w) (\<lambda>w.
        Inr (w, s\<lparr>pics := pic_write_eoi (ucast (int_n ctx)) (pics s)\<rparr>)))"

definition isr_handler :: "'w handler_call \<Rightarrow> intr_state \<Rightarrow> intr_ctx \<Rightarrow> 'w \<Rightarrow> 'w kres" where
  "isr_handler call s ctx w = call_handler call s ctx w"

definition intr_handler_cpu_default :: "intr_state \<Rightarrow> addr \<Rightarrow> intr_state kres" where
  "intr_handler_cpu_default s f = kassert (DEFAULT_HANDLER s = NULL) (Inr (s\<lparr>DEFAULT_HANDLER := f\<rparr>))"

definition intr_handler_cpu :: "intr_state \<Rightarrow> u8 \<Rightarrow> addr \<Rightarrow> intr_state kres" where
  "intr_handler_cpu s int_no f =
     kassert (int_no < 0x16)
    (kdefined (unat int_no < length (HANDLERS s))
    (kassert (HANDLERS s ! unat int_no = NULL)
       (Inr (s\<lparr>HANDLERS := (HANDLERS s)[unat int_no := f]\<rparr>))))"

definition intr_handler_pic :: "intr_state \<Rightarrow> u8 \<Rightarrow> addr \<Rightarrow> intr_state kres" where
  "intr_handler_pic s int_no f =
     kassert (int_no < 0x10)
    (kassert (int_no \<noteq> 2)
    (let isr_no = (if int_no > 7 then IRQ_SLAVE_OFFSET + int_no - 8 else IRQ_MASTER_OFFSET + int_no) in
     kdefined (unat isr_no < length (HANDLERS s))
    (kassert (HANDLERS s ! unat isr_no = NULL)
       (Inr (s\<lparr>HANDLERS := (HANDLERS s)[unat isr_no := f]\<rparr>)))))"

fun set_gates :: "descriptors \<Rightarrow> (u8 \<times> addr \<times> 4 word) list \<Rightarrow> descriptors kres" where
  "set_gates d [] = Inr d"
| "set_gates d ((n, f, gt) # gs) =
     kbind (idt_set_gatedesc d n f (IDT_FLAG_PRESENT OR IDT_FLAG_RING_0) gt) (\<lambda>d. set_gates d gs)"

definition isr_gates :: "(nat \<Rightarrow> addr) \<Rightarrow> (u8 \<times> addr \<times> 4 word) list" where
  "isr_gates isr = map (\<lambda>n. (of_nat n, isr n, if n = 2 then GATE_TYPE_INTER_32 else GATE_TYPE_TRAP_32))
     [0, 1, 2, 3, 4, 5, 6, 7, 8, 10, 11, 12, 13, 14, 15, 16, 17, 18, 19, 20, 21]"

definition irq_gates :: "(nat \<Rightarrow> addr) \<Rightarrow> (u8 \<times> addr \<times> 4 word) list" where
  "irq_gates irq = map (\<lambda>n. (IRQ_MASTER_OFFSET + of_nat n, irq n, GATE_TYPE_INTER_32))
     [0, 1, 3, 4, 5, 6, 7, 8, 9, 10, 11, 12, 13, 14, 15]"

definition intr_init :: "(u16 \<Rightarrow> nat \<Rightarrow> u8) \<Rightarrow> (nat \<Rightarrow> addr) \<Rightarrow> (nat \<Rightarrow> addr) \<Rightarrow> descriptors \<Rightarrow> intr_state \<Rightarrow>
    (descriptors \<times> intr_state) kres" where
  "intr_init io isr irq d s =
     kbind (set_gates d (isr_gates isr)) (\<lambda>d.
     kbind (set_gates d (irq_gates irq)) (\<lambda>d.
       Inr (d, s\<lparr>pics := pic_remap io IRQ_MASTER_OFFSET IRQ_SLAVE_OFFSET (pics s)\<rparr>)))"

section \<open>The interval timer\<close>

definition PIT_FREQUENCY :: u32 where "PIT_FREQUENCY = 1193182"
definition PIT_CH0 :: u16 where "PIT_CH0 = 0x40"
definition PIT_CMD :: u16 where "PIT_CMD = 0x43"
definition PIT_TCOUNT :: u32 where "PIT_TCOUNT = 0x30"

definition divisor :: "u32 \<Rightarrow> u16 kres" where
  "divisor ms =
     kassert (ms > 0)
       (let hz = (ucast (1000 div ms) :: u16) in
        if hz < 19 then Inr 65535 else Inr (ucast (PIT_FREQUENCY div ucast hz)))"

definition pit_inter_after :: "u32 \<Rightarrow> port_state \<Rightarrow> port_state kres" where
  "pit_inter_after ms p =
     (let p = iowrite (Outl PIT_CMD PIT_TCOUNT) p in
      kbind (divisor ms) (\<lambda>dv.
      let low = ucast dv; high = ucast (drop_bit 8 dv);
          p = iowrite (Outb PIT_CH0 low) p in
      Inr (iowrite (Outb PIT_CH0 high) p)))"

text \<open>\<open>callback\<close> is the address of the handler that calls what \<open>CALLBACK\<close> holds.\<close>

definition pit_init :: "intr_state \<Rightarrow> addr \<Rightarrow> addr \<Rightarrow> (int \<times> addr \<times> intr_state) kres" where
  "pit_init s callback f = (let CALLBACK = f in kbind (intr_handler_pic s 0 callback) (\<lambda>s. Inr (0, CALLBACK, s)))"


section \<open>What the processor reads\<close>

text \<open>The memory of an entry (bit fields from the low end), and the gate the processor takes from it.\<close>

definition gate_word :: "idt_entry \<Rightarrow> u64" where
  "gate_word e = ucast (offset_low e) OR push_bit 16 (ucast (seg_selector e)) OR push_bit 32 (ucast (must_be_0 e)) OR
     push_bit 40 (ucast (gate_type e)) OR push_bit 44 (ucast (gate_flags e)) OR push_bit 48 (ucast (offset_high e))"

definition hw_gate :: "u64 \<Rightarrow> (u32 \<times> u16 \<times> 2 word \<times> 5 word) option" where
  "hw_gate g = (if bit g 47 then Some (ucast (g AND 0xFFFF) OR push_bit 16 (ucast (drop_bit 48 g)), ucast (drop_bit 16 g),
     ucast (drop_bit 45 g), ucast (drop_bit 40 g)) else None)"

definition gate_for :: "addr \<Rightarrow> 4 word \<Rightarrow> idt_entry" where
  "gate_for f gt = \<lparr>offset_low = ucast f, seg_selector = 8, must_be_0 = 0, gate_type = gt,
     gate_flags = IDT_FLAG_PRESENT OR IDT_FLAG_RING_0, offset_high = ucast (drop_bit 0x10 f)\<rparr>"

lemma gate_word_fields:
  fixes e :: idt_entry
  assumes "must_be_0 e = 0"
  shows "ucast (gate_word e AND 0xFFFF) OR push_bit 16 (ucast (drop_bit 48 (gate_word e))) =
      (ucast (offset_low e) OR push_bit 16 (ucast (offset_high e)) :: u32)"
    and "ucast (drop_bit 16 (gate_word e)) = seg_selector e"
    and "bit (gate_word e) 47 = bit (gate_flags e) 3"
    and "ucast (drop_bit 45 (gate_word e)) = (ucast (drop_bit 1 (gate_flags e)) :: 2 word)"
    and "ucast (drop_bit 40 (gate_word e)) = (ucast (gate_type e) OR push_bit 4 (ucast (gate_flags e)) :: 5 word)"
proof -
  have c: "(0xFFFF :: u64) = mask 16" by (simp add: mask_eq_exp_minus_1)
  note [dest] = bit_imp_le_length
  show "ucast (gate_word e AND 0xFFFF) OR push_bit 16 (ucast (drop_bit 48 (gate_word e))) =
      (ucast (offset_low e) OR push_bit 16 (ucast (offset_high e)) :: u32)"
    unfolding gate_word_def c assms
  proof (rule bit_word_eqI)
    fix n
    assume n: "n < LENGTH(32)"
    have out: "\<not> bit w k" if "LENGTH('a) \<le> k" for w :: "'a::len word" and k
      using bit_imp_le_length [of w k] that by auto
    show "bit (ucast ((ucast (offset_low e) OR push_bit 16 (ucast (seg_selector e)) OR push_bit 32 (ucast (0 :: u8)) OR
        push_bit 40 (ucast (gate_type e)) OR push_bit 44 (ucast (gate_flags e)) OR push_bit 48 (ucast (offset_high e))) AND
        mask 16 :: u64) OR push_bit 16 (ucast (drop_bit 48 (ucast (offset_low e) OR push_bit 16 (ucast (seg_selector e)) OR
        push_bit 32 (ucast (0 :: u8)) OR push_bit 40 (ucast (gate_type e)) OR push_bit 44 (ucast (gate_flags e)) OR
        push_bit 48 (ucast (offset_high e)) :: u64))) :: u32) n = bit (ucast (offset_low e) OR push_bit 16 (ucast (offset_high e)) :: u32) n"
      by (cases "n < 16") (use n in \<open>auto simp: bit_simps out\<close>)
  qed
  show "ucast (drop_bit 16 (gate_word e)) = seg_selector e"
    unfolding gate_word_def assms by (rule bit_word_eqI) (auto simp: bit_simps)
  show "bit (gate_word e) 47 = bit (gate_flags e) 3" unfolding gate_word_def assms by (auto simp: bit_simps)
  show "ucast (drop_bit 45 (gate_word e)) = (ucast (drop_bit 1 (gate_flags e)) :: 2 word)"
    unfolding gate_word_def assms by (rule bit_word_eqI) (auto simp: bit_simps)
  show "ucast (drop_bit 40 (gate_word e)) = (ucast (gate_type e) OR push_bit 4 (ucast (gate_flags e)) :: 5 word)"
    unfolding gate_word_def assms by (rule bit_word_eqI) (auto simp: bit_simps)
qed

lemma hw_gate_for: "hw_gate (gate_word (gate_for f gt)) = Some (f, 8, 0, ucast gt)"
proof -
  have f: "ucast (ucast f :: u16) OR push_bit 16 (ucast (ucast (drop_bit 0x10 f) :: u16)) = f" for f :: u32
    by (rule bit_word_eqI) (auto simp: bit_simps)
  have z: "bit (8 :: 4 word) 3" "(4 :: 2 word) = 0" "(128 :: 5 word) = 0" by code_simp+
  show ?thesis
    using gate_word_fields [of "gate_for f gt"] f [of f] z by (simp add: hw_gate_def gate_for_def)
qed

lemma hw_gate_zero: "hw_gate (gate_word zero_idt_entry) = None"
  by code_simp

lemma set_gates_ok:
  "length (gates d) = 256 \<Longrightarrow> \<exists>d'. set_gates d gs = Inr d' \<and> length (gates d') = 256 \<and>
     (\<forall>v < 256. gates d' ! v = (case map_of (rev (map (\<lambda>(n, f, gt). (unat n, gate_for f gt)) gs)) v of
        None \<Rightarrow> gates d ! v | Some e \<Rightarrow> e))"
proof (induction gs arbitrary: d)
  case (Cons g gs)
  obtain n f gt where g: "g = (n, f, gt)" by (cases g)
  have n: "unat n < 256" using unsigned_less [of n, where ?'a = nat] by simp
  let ?d = "d\<lparr>gates := (gates d)[unat n := gate_for f gt]\<rparr>"
  have "length (gates ?d) = 256" using Cons.prems by simp
  from Cons.IH [OF this] show ?case
    using n Cons.prems by (auto simp: g idt_set_gatedesc_def gate_for_def map_add_def split: option.splits)
qed simp


lemma set_gates_idtr: "set_gates d gs = Inr d' \<Longrightarrow> idtr d' = idtr d"
proof (induction gs arbitrary: d)
  case (Cons g gs)
  then show ?case by (cases g) (auto simp: idt_set_gatedesc_def kdefined_def split: if_splits)
qed simp

lemma map_of_rev_map: "map_of (rev (map (\<lambda>n. (n, F n)) ns)) v = (if v \<in> set ns then Some (F v) else None)"
  by (simp add: rev_map map_of_map_restrict restrict_map_def)

lemma isr_gates_map:
  "map_of (rev (map (\<lambda>(n, f, gt). (unat n, gate_for f gt)) (isr_gates isr))) v =
     (if v < 22 \<and> v \<noteq> 9 then Some (gate_for (isr v) (if v = 2 then 0xE else 0xF)) else None)"
proof -
  let ?ns = "[0, 1, 2, 3, 4, 5, 6, 7, 8, 10, 11, 12, 13, 14, 15, 16, 17, 18, 19, 20, 21] :: nat list"
  let ?F = "\<lambda>n. gate_for (isr n) (if n = 2 then 0xE else 0xF)"
  have e: "map (\<lambda>(n, f, gt). (unat n, gate_for f gt)) (isr_gates isr) = map (\<lambda>n. (n, ?F n)) ?ns"
    by (simp add: isr_gates_def)
  have ns: "?ns = filter (\<lambda>n. n \<noteq> 9) [0..<22]" by (simp add: upt_rec)
  have m: "v \<in> set ?ns \<longleftrightarrow> v < 22 \<and> v \<noteq> 9" unfolding ns set_filter set_upt mem_Collect_eq atLeastLessThan_iff by simp
  show ?thesis unfolding e map_of_rev_map m ..
qed

lemma irq_gates_map:
  "map_of (rev (map (\<lambda>(n, f, gt). (unat n, gate_for f gt)) (irq_gates irq))) v =
     (if 32 \<le> v \<and> v < 48 \<and> v \<noteq> 34 then Some (gate_for (irq (v - 32)) 0xE) else None)"
proof -
  let ?ns = "[32, 33, 35, 36, 37, 38, 39, 40, 41, 42, 43, 44, 45, 46, 47] :: nat list"
  have e: "map (\<lambda>(n, f, gt). (unat n, gate_for f gt)) (irq_gates irq) = map (\<lambda>n. (n, gate_for (irq (n - 32)) 0xE)) ?ns"
    by (simp add: irq_gates_def IRQ_MASTER_OFFSET_def)
  have ns: "?ns = filter (\<lambda>n. n \<noteq> 34) [32..<48]" by (simp add: upt_rec)
  have m: "v \<in> set ?ns \<longleftrightarrow> 32 \<le> v \<and> v < 48 \<and> v \<noteq> 34" unfolding ns set_filter set_upt mem_Collect_eq atLeastLessThan_iff by blast
  show ?thesis unfolding e map_of_rev_map m ..
qed

section \<open>Properties\<close>

text \<open>The gates of the table after the boot: the entry point and the type of each vector.\<close>

definition gate_of_vector :: "(nat \<Rightarrow> addr) \<Rightarrow> (nat \<Rightarrow> addr) \<Rightarrow> nat \<Rightarrow> (u32 \<times> u16 \<times> 2 word \<times> 5 word) option" where
  "gate_of_vector isr irq v =
     (if v = 2 then Some (isr v, 8, 0, 0xE)
      else if v < 22 \<and> v \<noteq> 9 then Some (isr v, 8, 0, 0xF)
      else if 32 \<le> v \<and> v < 48 \<and> v \<noteq> 34 then Some (irq (v - 32), 8, 0, 0xE)
      else None)"

lemma intr_init_gate:
  assumes "v < 256"
  shows "\<exists>d' s'. intr_init io isr irq (boot_setup_idt idt d) s = Inr (d', s') \<and> idtr d' = (2047, idt) \<and>
    hw_gate (gate_word (gates d' ! v)) = gate_of_vector isr irq v"
proof -
  let ?d = "boot_setup_idt idt d"
  have l: "length (gates ?d) = 256" "gates ?d ! v = zero_idt_entry" "idtr ?d = (2047, idt)"
    using assms by (simp_all add: boot_setup_idt_def idt_set_table_def)
  obtain d1 where d1: "set_gates ?d (isr_gates isr) = Inr d1" "length (gates d1) = 256"
      "gates d1 ! v = (case map_of (rev (map (\<lambda>(n, f, gt). (unat n, gate_for f gt)) (isr_gates isr))) v of
        None \<Rightarrow> zero_idt_entry | Some e \<Rightarrow> e)"
    using set_gates_ok [OF l(1), of "isr_gates isr"] assms unfolding l(2) [symmetric] by blast
  obtain d2 where d2: "set_gates d1 (irq_gates irq) = Inr d2"
      "gates d2 ! v = (case map_of (rev (map (\<lambda>(n, f, gt). (unat n, gate_for f gt)) (irq_gates irq))) v of
        None \<Rightarrow> gates d1 ! v | Some e \<Rightarrow> e)"
    using set_gates_ok [OF d1(2), of "irq_gates irq"] assms by blast
  have "gates d2 ! v = (if v = 2 then gate_for (isr v) 0xE else if v < 22 \<and> v \<noteq> 9 then gate_for (isr v) 0xF
      else if 32 \<le> v \<and> v < 48 \<and> v \<noteq> 34 then gate_for (irq (v - 32)) 0xE else zero_idt_entry)"
    unfolding d2(2) d1(3) isr_gates_map irq_gates_map by (auto simp: add.commute)
  moreover have "idtr d2 = idtr ?d" using set_gates_idtr d1(1) d2(1) by metis
  ultimately show ?thesis
    using d1(1) d2(1) l(3) by (simp add: intr_init_def gate_of_vector_def hw_gate_for hw_gate_zero)
qed

text \<open>C27: after the set-up of the interrupts the processor finds, for each vector, the entry point of that
  exception or interrupt line, in the code segment and for ring 0, as a trap or an interrupt gate; the
  vectors in between and above (9 and the cascade line among them) have no gate.\<close>

theorem intr_init_gates:
  assumes "v < 256"
  shows "\<exists>d' s'. intr_init io isr irq (boot_setup_idt idt d) s = Inr (d', s') \<and> idtr d' = (2047, idt) \<and>
    hw_gate (gate_word (gates d' ! v)) = gate_of_vector isr irq v"
  using intr_init_gate [OF assms] .


theorem intr_init_gates_witness:
  "\<exists>d' s'. intr_init (\<lambda>_ _. 0) (\<lambda>n. 0xC0101000 + 16 * of_nat n) (\<lambda>n. 0xC0102000 + 16 * of_nat n)
       (boot_setup_idt 0xC0200000 \<lparr>null_descriptor = zero_gdt_entry, code_descriptor = zero_gdt_entry,
          data_descriptor = zero_gdt_entry, gates = [], gdtr = (0, 0), idtr = (0, 0), data_sel = 0, code_sel = 0\<rparr>)
       \<lparr>HANDLERS = replicate 256 0, DEFAULT_HANDLER = 0, pics = \<lparr>port_writes = [], port_reads = 0\<rparr>\<rparr> = Inr (d', s') \<and>
     idtr d' = (2047, 0xC0200000) \<and> hw_gate (gate_word (gates d' ! 14)) = Some (0xC01010E0, 8, 0, 0xF)"
  using intr_init_gates [of 14 "\<lambda>_ _. 0" "\<lambda>n. 0xC0101000 + 16 * of_nat n" "\<lambda>n. 0xC0102000 + 16 * of_nat n" "0xC0200000"
    "\<lparr>null_descriptor = zero_gdt_entry, code_descriptor = zero_gdt_entry, data_descriptor = zero_gdt_entry, gates = [],
      gdtr = (0, 0), idtr = (0, 0), data_sel = 0, code_sel = 0\<rparr>"
    "\<lparr>HANDLERS = replicate 256 0, DEFAULT_HANDLER = 0, pics = \<lparr>port_writes = [], port_reads = 0\<rparr>\<rparr>"]
  by (simp add: gate_of_vector_def)

lemma handler_registered:
  assumes "intr_handler_pic s n f = Inr s'"
  shows "n < 16" "n \<noteq> 2" "DEFAULT_HANDLER s' = DEFAULT_HANDLER s" "pics s' = pics s"
    "HANDLERS s' = (HANDLERS s)[32 + unat n := f]" "32 + unat n < length (HANDLERS s)"
proof -
  have n: "n < 16" "n \<noteq> 2" using assms by (auto simp: intr_handler_pic_def kassert_def split: if_splits)
  then show "n < 16" "n \<noteq> 2" by simp_all
  have u: "unat n < 16" using n(1) by (simp add: word_less_nat_alt)
  have "unat (IRQ_MASTER_OFFSET + n) = 32 + unat n" "unat (IRQ_SLAVE_OFFSET + n - 8) = 32 + unat n"
    using u by (simp_all add: IRQ_MASTER_OFFSET_def IRQ_SLAVE_OFFSET_def unat_word_ariths)
  then show "DEFAULT_HANDLER s' = DEFAULT_HANDLER s" "pics s' = pics s"
      "HANDLERS s' = (HANDLERS s)[32 + unat n := f]" "32 + unat n < length (HANDLERS s)"
    using assms n by (auto simp: intr_handler_pic_def kassert_def kdefined_def Let_def split: if_splits)
qed

text \<open>C28: a handler registered for one of the lines 0 to 7 is called when the line raises its interrupt, with
  the vector in place of the line, and the controllers are then told that the interrupt is over; the second
  controller is told too, though it raised nothing, because the vector is taken for the line.\<close>

theorem irq_master_delivered:
  assumes "intr_handler_pic s n f = Inr s'" and "n < 8" and "f \<noteq> NULL" and "int_n ctx = ucast n"
  shows "irq_handler call s' ctx w = kbind (call f (ctx\<lparr>int_n := 32 + ucast n\<rparr>) w) (\<lambda>w.
    Inr (w, s'\<lparr>pics := iowrite (Outb MASTER_CMD OCW2_EOI) (iowrite (Outb SLAVE_CMD OCW2_EOI) (pics s))\<rparr>))"
proof -
  note h = handler_registered [OF assms(1)]
  have u: "unat n < 8" "unat (ucast n :: u32) = unat n" using assms(2) by (simp_all add: word_less_nat_alt unsigned_ucast_eq take_bit_nat_eq_self)
  have lt: "(ucast n :: u32) < 8" using u by (simp add: word_less_nat_alt)
  have v: "unat (ucast n + 32 :: u32) = 32 + unat n" using u by (simp add: unat_add32)
  have e: "pic_write_eoi (ucast (ucast n + 32 :: u32)) p = iowrite (Outb MASTER_CMD OCW2_EOI) (iowrite (Outb SLAVE_CMD OCW2_EOI) p)" for p
    using u by (simp add: pic_write_eoi_def word_less_nat_alt unsigned_ucast_eq v take_bit_nat_eq_self)
  have "irq_handler call s' ctx w = kbind (call_handler call s' (ctx\<lparr>int_n := ucast n + 32\<rparr>) w) (\<lambda>w.
      Inr (w, s'\<lparr>pics := pic_write_eoi (ucast (ucast n + 32 :: u32)) (pics s')\<rparr>))"
    using lt by (simp add: irq_handler_def IRQ_MASTER_OFFSET_def assms(4))
  also have "call_handler call s' (ctx\<lparr>int_n := ucast n + 32\<rparr>) w = call f (ctx\<lparr>int_n := 32 + ucast n\<rparr>) w"
    using h(5,6) assms(3) by (simp add: call_handler_def v add.commute)
  finally show ?thesis by (simp only: e h(4))
qed

text \<open>A handler registered for one of the lines 8 to 15 is never called by its line: \<open>irq_handler\<close> adds
  the offset of the second controller to the number of the line without taking off the eight lines of the
  first, and looks the handler up eight places too far. The default handler takes the interrupt for an
  exception.\<close>

theorem irq_slave_not_delivered:
  assumes "intr_handler_pic s n f = Inr s'" and "8 \<le> n" and "int_n ctx = ucast n"
    and "length (HANDLERS s) = 256" and "HANDLERS s ! (40 + unat n) = NULL"
  shows "irq_handler call s' ctx w =
    kbind (if DEFAULT_HANDLER s \<noteq> NULL then call (DEFAULT_HANDLER s) (ctx\<lparr>int_n := 40 + ucast n\<rparr>) w else Inr w) (\<lambda>w.
    Inr (w, s'\<lparr>pics := iowrite (Outb MASTER_CMD OCW2_EOI) (iowrite (Outb SLAVE_CMD OCW2_EOI) (pics s))\<rparr>))"
proof -
  note h = handler_registered [OF assms(1)]
  have u: "8 \<le> unat n" "unat n < 16" "unat (ucast n :: u32) = unat n" using assms(2) h(1)
    by (simp_all add: word_le_nat_alt word_less_nat_alt unsigned_ucast_eq take_bit_nat_eq_self)
  have ge: "\<not> (ucast n :: u32) < 8" using u by (simp add: word_less_nat_alt)
  have v: "unat (ucast n + 40 :: u32) = 40 + unat n" using u by (simp add: unat_add32)
  have e: "pic_write_eoi (ucast (ucast n + 40 :: u32)) p = iowrite (Outb MASTER_CMD OCW2_EOI) (iowrite (Outb SLAVE_CMD OCW2_EOI) p)" for p
    using u by (simp add: pic_write_eoi_def word_less_nat_alt unsigned_ucast_eq v take_bit_nat_eq_self)
  have "irq_handler call s' ctx w = kbind (call_handler call s' (ctx\<lparr>int_n := ucast n + 40\<rparr>) w) (\<lambda>w.
      Inr (w, s'\<lparr>pics := pic_write_eoi (ucast (ucast n + 40 :: u32)) (pics s')\<rparr>))"
    using ge by (simp add: irq_handler_def IRQ_MASTER_OFFSET_def IRQ_SLAVE_OFFSET_def assms(3))
  also have "call_handler call s' (ctx\<lparr>int_n := ucast n + 40\<rparr>) w =
      (if DEFAULT_HANDLER s \<noteq> NULL then call (DEFAULT_HANDLER s) (ctx\<lparr>int_n := 40 + ucast n\<rparr>) w else Inr w)"
    using h(3,5) assms(4,5) u by (simp add: call_handler_def v add.commute)
  finally show ?thesis by (simp only: e h(4))
qed

section \<open>Witnesses\<close>

definition quiet_state :: intr_state where
  "quiet_state = \<lparr>HANDLERS = replicate 256 0, DEFAULT_HANDLER = 0x500, pics = \<lparr>port_writes = [], port_reads = 0\<rparr>\<rparr>"

definition line_ctx :: "u32 \<Rightarrow> intr_ctx" where
  "line_ctx n = \<lparr>ctx_ds = 16, edi = 0, esi = 0, ebp = 0, esp = 0, ebx = 0, edx = 0, ecx = 0, eax = 0, int_n = n,
     err_code = 0, eip = 0, ctx_cs = 8, eflags = 0, preint_esp = 0, ctx_ss = 16\<rparr>"

text \<open>Calls are noted: the handler and the vector.\<close>

definition note_call :: "(addr \<times> u32) list handler_call" where
  "note_call f ctx w = Inr (w @ [(f, int_n ctx)])"

lemma quiet_register:
  "intr_handler_pic quiet_state 1 0x900 = Inr (quiet_state\<lparr>HANDLERS := (replicate 256 0)[33 := 0x900]\<rparr>)"
  "intr_handler_pic quiet_state 12 0x900 = Inr (quiet_state\<lparr>HANDLERS := (replicate 256 0)[44 := 0x900]\<rparr>)"
  by (simp_all add: intr_handler_pic_def quiet_state_def IRQ_MASTER_OFFSET_def IRQ_SLAVE_OFFSET_def Let_def)

text \<open>The keyboard (line 1) is heard; the mouse (line 12) is not.\<close>

theorem irq_master_delivered_witness:
  "irq_handler note_call (quiet_state\<lparr>HANDLERS := (replicate 256 0)[33 := 0x900]\<rparr>) (line_ctx 1) [] =
     Inr ([(0x900, 33)], quiet_state\<lparr>HANDLERS := (replicate 256 0)[33 := 0x900],
       pics := iowrite (Outb MASTER_CMD OCW2_EOI) (iowrite (Outb SLAVE_CMD OCW2_EOI) (pics quiet_state))\<rparr>)"
  using irq_master_delivered [OF quiet_register(1), of "line_ctx 1" note_call "[]"]
  by (simp add: line_ctx_def note_call_def)

theorem irq_slave_not_delivered_witness:
  "irq_handler note_call (quiet_state\<lparr>HANDLERS := (replicate 256 0)[44 := 0x900]\<rparr>) (line_ctx 12) [] =
     Inr ([(0x500, 52)], quiet_state\<lparr>HANDLERS := (replicate 256 0)[44 := 0x900],
       pics := iowrite (Outb MASTER_CMD OCW2_EOI) (iowrite (Outb SLAVE_CMD OCW2_EOI) (pics quiet_state))\<rparr>)"
proof -
  have q: "DEFAULT_HANDLER quiet_state = 0x500" "length (HANDLERS quiet_state) = 256"
      "HANDLERS quiet_state ! (40 + unat (12 :: u8)) = NULL" by (simp_all add: quiet_state_def)
  show ?thesis
    using irq_slave_not_delivered [OF quiet_register(2) _ _ q(2,3), of "line_ctx 12" note_call "[]"] q(1)
    by (simp add: line_ctx_def note_call_def)
qed

section \<open>The segments\<close>

definition seg_word :: "gdt_entry \<Rightarrow> u64" where
  "seg_word e = ucast (limit_low e) OR push_bit 16 (ucast (base_low e)) OR push_bit 32 (ucast (base_middle e)) OR
     push_bit 40 (of_bool (accessed e)) OR push_bit 41 (of_bool (writable e)) OR push_bit 42 (of_bool (direction_conforming e)) OR
     push_bit 43 (of_bool (code e)) OR push_bit 44 (of_bool (code_or_data e)) OR push_bit 45 (ucast (privelege e)) OR
     push_bit 47 (of_bool (present e)) OR push_bit 48 (ucast (limit_high e)) OR push_bit 52 (of_bool (available e)) OR
     push_bit 53 (of_bool (must_be_false e)) OR push_bit 54 (of_bool (seg_size e)) OR push_bit 55 (of_bool (granularity e)) OR
     push_bit 56 (ucast (base_high e))"

text \<open>The base, the last offset, the access byte without the accessed bit, and whether it has 32-bit operands.\<close>

definition hw_segment :: "u64 \<Rightarrow> u32 \<times> u32 \<times> u8 \<times> bool" where
  "hw_segment g =
     (let lim = ucast (g AND 0xFFFF) OR push_bit 16 (ucast (drop_bit 48 g AND 0xF)) :: u32 in
      (ucast (drop_bit 16 g AND 0xFFFFFF) OR push_bit 24 (ucast (drop_bit 56 g)),
       if bit g 55 then push_bit 12 lim OR 0xFFF else lim,
       ucast (drop_bit 40 g) AND 0xFE, bit g 54))"

text \<open>The segments of the kernel are flat: whatever the table held, code and data begin at 0 and reach to
  the last byte of the address space, at ring 0; the selectors are the offsets of the entries.\<close>

theorem boot_setup_gdt_flat:
  "let d' = boot_setup_gdt gdt d in gdtr d' = (23, gdt) \<and> code_sel d' = 8 \<and> data_sel d' = 16 \<and>
     seg_word (null_descriptor d') = 0 \<and>
     hw_segment (seg_word (code_descriptor d')) = (0, 0xFFFFFFFF, 0x98, True) \<and>
     hw_segment (seg_word (data_descriptor d')) = (0, 0xFFFFFFFF, 0x92, True)"
proof -
  let ?seg = "\<lambda>w c a. seg_word \<lparr>limit_low = 0xFFFF, base_low = 0, base_middle = 0, accessed = False, writable = w,
     direction_conforming = False, code = c, code_or_data = True, privelege = 0, present = True, limit_high = 0xF,
     available = a, must_be_false = False, seg_size = True, granularity = True, base_high = 0\<rparr>"
  have s1: "hw_segment (?seg False True True) = (0, 0xFFFFFFFF, 0x98, True)" by (simp add: seg_word_def hw_segment_def)
  have s2: "hw_segment (?seg False True False) = (0, 0xFFFFFFFF, 0x98, True)" by (simp add: seg_word_def hw_segment_def)
  have s3: "hw_segment (?seg True False True) = (0, 0xFFFFFFFF, 0x92, True)" by (simp add: seg_word_def hw_segment_def)
  have s4: "hw_segment (?seg True False False) = (0, 0xFFFFFFFF, 0x92, True)" by (simp add: seg_word_def hw_segment_def)
  have s5: "seg_word zero_gdt_entry = 0" by code_simp
  note seg = s1 s2 s3 s4 s5
  have "hw_segment (?seg False True a) = (0, 0xFFFFFFFF, 0x98, True)" "hw_segment (?seg True False a) = (0, 0xFFFFFFFF, 0x92, True)" for a
    using seg by (cases a; simp)+
  then show ?thesis using seg(5)
    by (cases "code_descriptor d"; cases "data_descriptor d") (simp add: boot_setup_gdt_def gdt_set_table_def Let_def)
qed

end
