(* ===== verification/Panic.thy ===== *)
theory Panic
  imports Console Interrupts
begin

text \<open>
  kernel/kernel/panic.c and kernel/arch/i686/exceptions.c: the report of a panic on the consoles, and the
  handler of the exceptions of the processor. \<open>kernel_panic\<close> spins for ever after its output; the model
  returns the state it spins in. \<open>handler\<close> is the address of \<open>default_handler\<close>, \<open>lit\<close> gives the addresses of the string literals and \<open>mem\<close> the result
  of \<open>__builtin_alloca\<close>.
\<close>

section \<open>The report\<close>

record kernel_panic_info =
  pi_description :: addr
  pi_location :: addr
  pi_regs :: "kvstore option"

definition conwrite :: "'d write_call \<Rightarrow> 'd con_state fprintf_fn" where
  "conwrite call_write s msg =
     kbind (console_write call_write s msg (of_nat (length msg))) (\<lambda>s.
     kassert ((of_nat (length msg) :: size_t) \<le> INT_MAX) (Inr (int (length msg), s)))"

definition newline :: string where "newline = [CHR 0x0A]"

definition print_register :: "'d write_call \<Rightarrow> (addr \<Rightarrow> u8 list) \<Rightarrow> addr \<Rightarrow> addr \<Rightarrow> 'd con_state kres \<Rightarrow> 'd con_state kres" where
  "print_register call strs key value s =
     kbind s (\<lambda>s. kbind (kfprintf strs (conwrite call) s (cstr (''%s: %08lX'' @ newline)) [key, value]) (\<lambda>(_, s). Inr s))"

definition kernel_panic :: "'d write_call \<Rightarrow> (addr \<Rightarrow> u8 list) \<Rightarrow> 'd con_state \<Rightarrow> kernel_panic_info \<Rightarrow> 'd con_state kres" where
  "kernel_panic call strs s info =
     kbind (kfprintf strs (conwrite call) s (cstr (newline @ newline)) []) (\<lambda>(_, s).
     kbind (kfprintf strs (conwrite call) s (cstr (''You''  @ [CHR 0x27] @ ''ve been whoopsed.'' @ newline)) []) (\<lambda>(_, s).
     kbind (kfprintf strs (conwrite call) s (cstr (''Reason: %s'' @ newline)) [pi_description info]) (\<lambda>(_, s).
     kbind (if pi_location info \<noteq> NULL
       then kbind (kfprintf strs (conwrite call) s (cstr (''Location: %s'' @ newline)) [pi_location info]) (\<lambda>(_, s). Inr s)
       else Inr s) (\<lambda>s.
     case pi_regs info of
       None \<Rightarrow> Inr s
     | Some regs \<Rightarrow>
         kbind (kvstore_length regs) (\<lambda>regs_len.
         if regs_len > 0
         then kbind (kfprintf strs (conwrite call) s (cstr ''Registers:'') []) (\<lambda>(_, s).
           kbind (kvstore_iter regs (print_register call strs) (Inr s)) (\<lambda>r. r))
         else Inr s)))))"

definition klog_logf_panic :: "'d write_call \<Rightarrow> (addr \<Rightarrow> u8 list) \<Rightarrow> 'd con_state \<Rightarrow> addr \<Rightarrow> addr \<Rightarrow> 'd con_state kres" where
  "klog_logf_panic call strs s loc format =
     kernel_panic call strs s \<lparr>pi_description = format, pi_location = loc, pi_regs = None\<rparr>"

section \<open>Exceptions\<close>

record desc_state =
  DESCRIPTION_BUFFER :: "u8 list"
  DESCBUFFER_POS :: size_t

definition PLATFORM_REGISTERS_COUNT :: size_t where "PLATFORM_REGISTERS_COUNT = 20"

fun descbuffer_loop :: "nat \<Rightarrow> desc_state \<Rightarrow> u8 list \<Rightarrow> desc_state kres" where
  "descbuffer_loop 0 s msg = Inr s"
| "descbuffer_loop (Suc n) s [] = Inl Undef"
| "descbuffer_loop (Suc n) s (c # msg) =
     kdefined (unat (DESCBUFFER_POS s) < length (DESCRIPTION_BUFFER s))
       (descbuffer_loop n (s\<lparr>DESCRIPTION_BUFFER := (DESCRIPTION_BUFFER s)[unat (DESCBUFFER_POS s) := c],
          DESCBUFFER_POS := DESCBUFFER_POS s + 1\<rparr>) msg)"

definition descbuffer_write :: "desc_state fprintf_fn" where
  "descbuffer_write s msg =
     (let towrite = MIN_u32 (of_nat (length msg)) (64 - DESCBUFFER_POS s) in
      kbind (descbuffer_loop (unat towrite) s msg) (\<lambda>s.
      kassert (towrite \<le> INT_MAX) (Inr (sint towrite, s))))"

definition registers :: "intr_ctx \<Rightarrow> (string \<times> u32) list" where
  "registers ctx = [(''EDI'', edi ctx), (''ESI'', esi ctx), (''EBP'', ebp ctx), (''ESP'', esp ctx), (''EBX'', ebx ctx),
     (''EDX'', edx ctx), (''ECX'', ecx ctx), (''EAX'', eax ctx), (''EIP'', eip ctx), (''ESP'', preint_esp ctx)]"

fun append_registers :: "(string \<Rightarrow> addr) \<Rightarrow> (string \<times> u32) list \<Rightarrow> kvstore \<Rightarrow> kvstore kres" where
  "append_registers lit [] kv = Inr kv"
| "append_registers lit ((r, v) # rs) kv = kbind (kvstore_append kv (lit r) v) (append_registers lit rs)"

definition prepare_panic_info :: "(addr \<Rightarrow> u8 list) \<Rightarrow> (string \<Rightarrow> addr) \<Rightarrow> (addr \<Rightarrow> u32) \<Rightarrow> addr \<Rightarrow> addr \<Rightarrow> intr_ctx \<Rightarrow> addr \<Rightarrow>
    desc_state \<Rightarrow> (kernel_panic_info \<times> desc_state) kres" where
  "prepare_panic_info strs lit memory mem desc_buffer ctx desc s =
     kbind (kfprintf strs descbuffer_write s (cstr ''%s (INTNO: %lu; ERR: %lu)'') [desc, int_n ctx, err_code ctx]) (\<lambda>(_, s).
     kbind (kvstore_create memory mem PLATFORM_REGISTERS_COUNT (kstrcmp_at strs)) (\<lambda>regs.
     case regs of None \<Rightarrow> Inl Kassert
     | Some kv \<Rightarrow> kbind (append_registers lit (registers ctx) kv) (\<lambda>kv.
         Inr (\<lparr>pi_description = desc_buffer, pi_location = NULL, pi_regs = Some kv\<rparr>, s))))"

definition descriptions :: "string option list" where
  "descriptions = [Some ''Divide error'', Some ''Debug exception'', Some ''NMI interrupt'', Some ''Breakpoint'',
     Some ''Overflow'', Some ''BOUND Range Exceeded'', Some ''Invalid Opcode'', Some ''No Math Coprocessor'',
     Some ''Double Fault'', None, Some ''Invalid TSS'', Some ''Segment Not Present'', Some ''Stack-Segment Fault'',
     Some ''General Protection'', Some ''Page Fault'', None, Some ''x87 FPU Floating-Point Error'',
     Some ''Alignment Check'', Some ''Machine Check'', Some ''SIMD Floating-Point Exception'',
     Some ''Virtualization Exception'', Some ''Control Protection Exception'']"

definition exception_msg :: "(string \<Rightarrow> addr) \<Rightarrow> u32 \<Rightarrow> addr" where
  "exception_msg lit n =
     (if n < 22 then (case descriptions ! unat n of None \<Rightarrow> NULL | Some d \<Rightarrow> lit d) else lit ''Unknown exception'')"

definition default_handler :: "'d write_call \<Rightarrow> (addr \<Rightarrow> u8 list) \<Rightarrow> (string \<Rightarrow> addr) \<Rightarrow> (addr \<Rightarrow> u32) \<Rightarrow> addr \<Rightarrow> addr \<Rightarrow>
    'd con_state \<Rightarrow> desc_state \<Rightarrow> intr_ctx \<Rightarrow> ('d con_state \<times> desc_state) kres" where
  "default_handler call strs lit memory mem desc_buffer cs s ctx =
     kbind (prepare_panic_info strs lit memory mem desc_buffer ctx (exception_msg lit (int_n ctx)) s) (\<lambda>(i, s).
     kbind (kernel_panic call (strs(desc_buffer := DESCRIPTION_BUFFER s)) cs i) (\<lambda>cs. Inr (cs, s)))"


definition i686_setup_exception_handlers :: "intr_state \<Rightarrow> addr \<Rightarrow> intr_state kres" where
  "i686_setup_exception_handlers s handler = intr_handler_cpu_default s handler"

section \<open>The description of an exception\<close>

definition desc_text :: "desc_state \<Rightarrow> u8 list" where
  "desc_text s = take (unat (DESCBUFFER_POS s)) (DESCRIPTION_BUFFER s)"

definition desc_fits :: "desc_state \<Rightarrow> nat \<Rightarrow> bool" where
  "desc_fits s n \<longleftrightarrow> length (DESCRIPTION_BUFFER s) = 64 \<and> unat (DESCBUFFER_POS s) + n \<le> 64"

lemma descbuffer_loop_ok:
  "desc_fits s (length msg + r) \<Longrightarrow> \<exists>s'. descbuffer_loop (length msg) s msg = Inr s' \<and>
     desc_text s' = desc_text s @ msg \<and> desc_fits s' r"
proof (induction msg arbitrary: s)
  case (Cons c msg)
  let ?p = "unat (DESCBUFFER_POS s)"
  let ?s = "s\<lparr>DESCRIPTION_BUFFER := (DESCRIPTION_BUFFER s)[?p := c], DESCBUFFER_POS := DESCBUFFER_POS s + 1\<rparr>"
  have p: "?p < length (DESCRIPTION_BUFFER s)" using Cons.prems by (simp add: desc_fits_def)
  have u: "unat (DESCBUFFER_POS s + 1) = Suc ?p" using Cons.prems by (simp add: desc_fits_def unat_Suc32)
  have "desc_fits ?s (length msg + r)" using Cons.prems u by (simp add: desc_fits_def)
  then obtain s' where "descbuffer_loop (length msg) ?s msg = Inr s'" "desc_text s' = desc_text ?s @ msg" "desc_fits s' r"
    using Cons.IH by blast
  moreover have "desc_text ?s = desc_text s @ [c]"
    using p u by (simp add: desc_text_def take_Suc_conv_app_nth)
  ultimately show ?case using p by simp
qed simp

interpretation descbuffer: output_device descbuffer_write desc_text desc_fits
proof
  fix s :: desc_state and m :: "u8 list" and r
  assume a: "desc_fits s (length m + r)"
  then have l: "length m \<le> 64" "unat (DESCBUFFER_POS s) \<le> 64" by (auto simp: desc_fits_def)
  have n: "unat (of_nat (length m) :: size_t) = length m" using l by (simp add: unat_of_nat32)
  have d: "unat (64 - DESCBUFFER_POS s) = 64 - unat (DESCBUFFER_POS s)" using l by (subst unat_sub32) simp_all
  have "\<not> of_nat (length m) > (64 - DESCBUFFER_POS s)"
    using a unfolding word_less_nat_alt n d by (auto simp: desc_fits_def)
  then have t: "MIN_u32 (of_nat (length m)) (64 - DESCBUFFER_POS s) = of_nat (length m)" by (simp add: MIN_u32_def)
  show "\<exists>s'. descbuffer_write s m = Inr (int (length m), s') \<and> desc_text s' = desc_text s @ m \<and> desc_fits s' r"
    using descbuffer_loop_ok [OF a] l of_nat_le_INT_MAX [of "length m"] sint_of_nat32 [of "length m"]
    by (auto simp: descbuffer_write_def t n)
qed (simp add: desc_fits_def)

definition exception_text :: "u8 list \<Rightarrow> intr_ctx \<Rightarrow> u8 list" where
  "exception_text desc ctx = desc @ map of_char '' (INTNO: '' @ dec_digits (unat (int_n ctx)) @ map of_char ''; ERR: '' @
     dec_digits (unat (err_code ctx)) @ map of_char '')''"

lemma exception_formats:
  assumes "is_string strs desc"
  shows "formats strs (cstr ''%s (INTNO: %lu; ERR: %lu)'') [desc, int_n ctx, err_code ctx]
    (exception_text (cstr_of strs desc) ctx)"
proof -
  have "formats strs [41, 0] [] [41]"
    using formats_text [OF _ _ _ _ formats_end [of strs "[]" "[]"], where s = "[41]"] by simp
  note formats_lu [OF this, of "err_code ctx"]
  note formats_text [OF _ _ _ _ this, where s = "[59, 32, 69, 82, 82, 58, 32]", simplified]
  note formats_lu [OF this, of "int_n ctx"]
  note formats_text [OF _ _ _ _ this, where s = "[32, 40, 73, 78, 84, 78, 79, 58, 32]", simplified]
  note formats_s [OF assms this]
  then show ?thesis by (simp add: cstr_def exception_text_def of_char_def)
qed

lemma num_digits_bound_length: "n < 10 ^ Suc k \<Longrightarrow> length (num_digits 10 n) \<le> Suc k"
proof (induction k arbitrary: n)
  case (Suc k)
  then show ?case
    using num_digits_small [of n 10] num_digits_step [of 10 n] Suc.IH [of "n div 10"]
    by (cases "n < 10") (auto simp: div_less_iff_less_mult)
qed (simp add: num_digits_small)

lemma dec_digits_length: "length (dec_digits (unat (w :: u32))) \<le> 10"
proof -
  have "unat w < 10 ^ Suc 9" using unat_lt32 [of w] by (rule less_trans) simp
  then show ?thesis using num_digits_bound_length [of "unat w" 9] by (simp add: dec_digits_def)
qed


section \<open>The registers of an exception\<close>

definition exception_literals :: "string list" where
  "exception_literals = ''Unknown exception'' # [''EDI'', ''ESI'', ''EBP'', ''ESP'', ''EBX'', ''EDX'', ''ECX'', ''EAX'', ''EIP''] @
     concat (map (\<lambda>d. case d of None \<Rightarrow> [] | Some t \<Rightarrow> [t]) descriptions)"

definition literals_ok :: "(addr \<Rightarrow> u8 list) \<Rightarrow> (string \<Rightarrow> addr) \<Rightarrow> bool" where
  "literals_ok strs lit \<longleftrightarrow> (\<forall>r \<in> set exception_literals. lit r \<noteq> NULL \<and> (\<exists>rest. strs (lit r) = cstr r @ rest) \<and> length (strs (lit r)) < 2147483647)"

lemma append_registers_dup:
  assumes "kv_wf (string_at strs) (cstr_of strs) kv" and "kv_cmpfn kv = kstrcmp_at strs"
    and "\<forall>r \<in> fst ` set rs. string_at strs (lit r)"
    and "\<not> distinct (map fst rs) \<or> (\<exists>r \<in> fst ` set rs. kv_abs (cstr_of strs) kv (cstr_of strs (lit r)) \<noteq> None)"
  shows "append_registers lit rs kv = Inl Kassert"
  using assms
proof (induction rs arbitrary: kv)
  case (Cons rv rs)
  obtain r v where rv: "rv = (r, v)" by (cases rv)
  have s: "string_at strs (lit r)" using Cons.prems(3) by (simp add: rv)
  show ?case
  proof (cases "kv_abs (cstr_of strs) kv (cstr_of strs (lit r)) = None \<and> NULL \<in> set (kv_keys kv)")
    case True
    obtain kv' where kv': "kvstore_append kv (lit r) v = Inr kv'" "kv_wf (string_at strs) (cstr_of strs) kv'"
        "kv_cmpfn kv' = kstrcmp_at strs"
        "kv_abs (cstr_of strs) kv' = (kv_abs (cstr_of strs) kv)(cstr_of strs (lit r) \<mapsto> v)"
      using kc.append_ok [OF Cons.prems(1,2) s _ _, of v] True by auto
    have "\<not> distinct (map fst rs) \<or> (\<exists>q \<in> fst ` set rs. kv_abs (cstr_of strs) kv' (cstr_of strs (lit q)) \<noteq> None)"
      using Cons.prems(4) True by (auto simp: rv kv'(4))
    then show ?thesis using Cons.IH [OF kv'(2,3)] Cons.prems(3) kv'(1) by (simp add: rv)
  next
    case False
    then have "kvstore_append kv (lit r) v = Inl Kassert"
      using kc.append_dup [OF Cons.prems(1,2) s, of v] kc.append_full [OF Cons.prems(1,2) s, of v] by blast
    then show ?thesis by (simp add: rv)
  qed
qed simp

lemma literal_string:
  assumes "literals_ok strs lit" and "r \<in> set exception_literals"
  shows "string_at strs (lit r)" "is_string strs (lit r)"
proof -
  obtain rest where r: "strs (lit r) = cstr r @ rest" "lit r \<noteq> NULL" "length (strs (lit r)) < 2147483647"
    using assms unfolding literals_ok_def by blast
  then show "string_at strs (lit r)" "is_string strs (lit r)" by (simp_all add: string_at_def is_string_def cstr_def)
qed

lemma exception_msg_length:
  assumes "n \<noteq> 9" "n \<noteq> 15" and "literals_ok strs lit"
  shows "is_string strs (exception_msg lit n) \<and> length (cstr_of strs (exception_msg lit n)) \<le> 29 \<and>
    (n < 22 \<or> length (cstr_of strs (exception_msg lit n)) \<le> 17)"
proof -
  have d: "\<forall>i \<in> set [0..<22]. i = 9 \<or> i = 15 \<or>
      (case descriptions ! i of None \<Rightarrow> False | Some t \<Rightarrow> length t \<le> 29 \<and> t \<in> set exception_literals)"
    by code_simp
  have "\<exists>t. exception_msg lit n = lit t \<and> length t \<le> 29 \<and> (n < 22 \<or> length t \<le> 17) \<and>
      t \<in> set exception_literals"
  proof (cases "n < 22")
    case True
    then have "unat n \<in> set [0..<22]" "unat n \<noteq> 9" "unat n \<noteq> 15"
      using assms(1,2) word_unat_eq_iff [of n 9] word_unat_eq_iff [of n 15] by (auto simp: word_less_nat_alt)
    then have "case descriptions ! unat n of None \<Rightarrow> False | Some t \<Rightarrow> length t \<le> 29 \<and> t \<in> set exception_literals"
      using d by blast
    then obtain t where "descriptions ! unat n = Some t" "length t \<le> 29" "t \<in> set exception_literals"
      by (auto split: option.splits)
    then show ?thesis using True by (auto simp: exception_msg_def)
  qed (auto simp: exception_msg_def exception_literals_def)
  then obtain t where t: "exception_msg lit n = lit t" "length t \<le> 29" "n < 22 \<or> length t \<le> 17"
      "t \<in> set exception_literals" by blast
  obtain rest where r: "strs (lit t) = cstr t @ rest" using assms(3) t(4) unfolding literals_ok_def by blast
  have "cstr_of strs (lit t) = takeWhile (\<lambda>c. c \<noteq> 0) (map of_char t)"
    by (simp add: cstr_of_def r cstr_def takeWhile_tail)
  then show ?thesis
    using t literal_string(2) [OF assms(3) t(4)] length_takeWhile_le [of _ "map of_char t"] by (auto intro: order_trans)
qed

text \<open>No exception of the processor is ever reported: the handler appends the register \<open>ESP\<close> twice to
  the store of registers, and the second time stops the kernel in the assert of \<open>kvstore_append\<close>, before
  anything is written to a console.\<close>

theorem exception_never_reported:
  assumes "literals_ok strs lit" and "int_n ctx \<noteq> 9" "int_n ctx \<noteq> 15"
    and "length (DESCRIPTION_BUFFER ds) = 64" "DESCBUFFER_POS ds = 0"
    and "mem \<noteq> NULL" "unat mem + 176 < 4294967296"
  shows "default_handler call strs lit memory mem desc_buffer cs ds ctx = Inl Kassert"
proof -
  let ?d = "exception_msg lit (int_n ctx)"
  let ?t = "exception_text (cstr_of strs ?d) ctx"
  note d = exception_msg_length [OF assms(2,3,1)]
  have "length (dec_digits (unat (int_n ctx))) \<le> 2" if "int_n ctx < 22"
    using that num_digits_bound_length [of "unat (int_n ctx)" 1] by (simp add: dec_digits_def word_less_nat_alt)
  then have "length ?t \<le> 64"
    using d dec_digits_length [of "int_n ctx"] dec_digits_length [of "err_code ctx"] by (auto simp: exception_text_def)
  then have "desc_fits ds (length ?t + 0)" using assms(4,5) by (simp add: desc_fits_def)
  then obtain ds' where p: "kvfprintf strs descbuffer_write ds (cstr ''%s (INTNO: %lu; ERR: %lu)'')
      [?d, int_n ctx, err_code ctx] = Inr (int (length ?t), ds')"
    using descbuffer.kvfprintf_ok [OF exception_formats [OF conjunct1 [OF d], of ctx], of ds 0] by (auto simp: cstr_def)
  obtain kv where kv: "kvstore_create memory mem PLATFORM_REGISTERS_COUNT (kstrcmp_at strs) = Inr (Some kv)"
      "kv_wf (string_at strs) (cstr_of strs) kv" "kv_cmpfn kv = kstrcmp_at strs"
    using kvstore_create_ok [of mem PLATFORM_REGISTERS_COUNT memory "kstrcmp_at strs"]
      kvstore_create_empty [of mem PLATFORM_REGISTERS_COUNT memory strs] assms(6,7)
    by (auto simp: PLATFORM_REGISTERS_COUNT_def)
  have "append_registers lit (registers ctx) kv = Inl Kassert"
    using literal_string(1) [OF assms(1)]
    by (intro append_registers_dup [OF kv(2,3)]) (simp_all add: registers_def exception_literals_def)
  then show ?thesis by (simp add: default_handler_def prepare_panic_info_def kfprintf_def p kv(1))
qed


text \<open>A kernel without consoles meets an invalid opcode; the literals lie 64 bytes apart.\<close>

definition lit_at :: "string \<Rightarrow> addr" where
  "lit_at t = 64 * of_nat (Suc (length (takeWhile (\<lambda>u. u \<noteq> t) exception_literals)))"

definition lit_strs :: "addr \<Rightarrow> u8 list" where
  "lit_strs a = cstr (exception_literals ! (unat a div 64 - 1))"

lemma lit_example: "literals_ok lit_strs lit_at"
proof -
  have short: "length exception_literals < 100" "\<forall>r \<in> set exception_literals. length r < 100"
    by (simp_all add: exception_literals_def descriptions_def)
  have "lit_at r \<noteq> NULL \<and> lit_strs (lit_at r) = cstr r" if r: "r \<in> set exception_literals" for r
  proof -
    let ?i = "length (takeWhile (\<lambda>u. u \<noteq> r) exception_literals)"
    have "takeWhile (\<lambda>u. u \<noteq> r) exception_literals \<noteq> exception_literals"
      using r by (auto simp: takeWhile_eq_all_conv)
    then have i: "?i < length exception_literals"
      using takeWhile_eq_take [of "\<lambda>u. u \<noteq> r" exception_literals] not_le_imp_less take_all by metis
    then have x: "exception_literals ! ?i = r" using nth_length_takeWhile [of "\<lambda>u. u \<noteq> r" exception_literals] by simp
    have "lit_at r = of_nat (64 * Suc ?i)" by (simp add: lit_at_def)
    moreover have "?i < 100" using less_trans [OF i short(1)] .
    then have "64 * Suc ?i < 4294967296" by simp
    ultimately have u: "unat (lit_at r) = 64 * Suc ?i" by (simp only: unat_of_nat32)
    then have "lit_strs (lit_at r) = cstr r" using x by (simp add: lit_strs_def)
    moreover have "lit_at r \<noteq> 0" using u by (auto simp flip: unat_eq_0)
    ultimately show ?thesis by simp
  qed
  then show ?thesis using short(2) by (fastforce simp: literals_ok_def cstr_def)
qed

definition opcode_ctx :: intr_ctx where
  "opcode_ctx = \<lparr>ctx_ds = 16, edi = 0, esi = 0, ebp = 0, esp = 0, ebx = 0, edx = 0, ecx = 0, eax = 0, int_n = 6,
     err_code = 0, eip = 0, ctx_cs = 8, eflags = 0, preint_esp = 0, ctx_ss = 16\<rparr>"

theorem exception_never_reported_witness:
  "default_handler (\<lambda>_ _ _ _ _. Inl Undef) lit_strs lit_at (\<lambda>_. 0) 0x1000 0x2000
     \<lparr>con_objs = Map.empty, con_links = [4 \<mapsto> 0], ACTIVE_CONSOLES = 4, devices = ()\<rparr>
     \<lparr>DESCRIPTION_BUFFER = replicate 64 0, DESCBUFFER_POS = 0\<rparr> opcode_ctx = Inl Kassert"
  by (rule exception_never_reported [OF lit_example]) (simp_all add: opcode_ctx_def)

end
