(* ===== verification/Vm.thy ===== *)
theory Vm
  imports Mm_Create Kmm_Props
begin

text \<open>
  kernel/kernel/mm/vm.c: areas are allocated from a cache and put into the first gap of a space that is large
  enough. The state is the objects of the virtual memory code and the slab caches; \<open>AREAS_CACHE\<close> is the
  address of the cache.
\<close>

section \<open>Operations\<close>

record 'p vm_state =
  vm_objs :: vm_mem
  vm_kmm :: "'p kmm_state"
  AREAS_CACHE :: addr

abbreviation sizeof_vm_area :: size_t where "sizeof_vm_area \<equiv> 56"

definition vm_pgfault_handle_panic :: "'a kres" where
  "vm_pgfault_handle_panic = Inl Panic"

definition vm_init :: "'p vm_state \<Rightarrow> addr \<Rightarrow> 'p vm_state kres" where
  "vm_init s name =
     kbind (kmm_cache_init (vm_kmm s) (AREAS_CACHE s) name sizeof_vm_area 0 0 NULL NULL) (\<lambda>k. Inr (s\<lparr>vm_kmm := k\<rparr>))"

definition find_with_len_and_offset :: "addr \<Rightarrow> size_t \<Rightarrow> addr \<Rightarrow> size_t \<Rightarrow> bool" where
  "find_with_len_and_offset offset min_len b len \<longleftrightarrow> b \<ge> offset \<and> len \<ge> min_len"

definition vm_new_area_within_space :: "'p vm_state \<Rightarrow> addr \<Rightarrow> size_t \<Rightarrow> size_t \<Rightarrow> (addr \<times> 'p vm_state) kres" where
  "vm_new_area_within_space s space min_size max_size =
     kassert (space \<noteq> NULL) (kassert (min_size \<le> max_size)
     (kbind (space_at (vm_objs s) space) (\<lambda>vs.
      kbind (vm_space_find_gap (vm_objs s) space (find_with_len_and_offset (vs_offset vs) min_size)) (\<lambda>(gap_base, gap_len).
      let occupy_len = MIN_u32 max_size gap_len in
      kbind (kmm_cache_alloc (vm_kmm s) (AREAS_CACHE s)) (\<lambda>(new_area, k).
      if new_area = NULL then Inr (NULL, s\<lparr>vm_kmm := k\<rparr>)
      else kbind (vm_area_init (vm_objs s) new_area gap_base occupy_len space) (\<lambda>m.
        kbind (vm_space_insert_area m space new_area) (\<lambda>m.
          Inr (new_area, s\<lparr>vm_objs := m, vm_kmm := k\<rparr>))))))))"

definition vm_free_area :: "'p vm_state \<Rightarrow> addr \<Rightarrow> 'p vm_state kres" where
  "vm_free_area s area =
     kassert (area \<noteq> NULL)
     (kbind (area_at (vm_areas (vm_objs s)) area) (\<lambda>r.
      kbind (vm_space_remove_area (vm_objs s) (va_owner r) area) (\<lambda>m.
      kbind (kmm_cache_free (vm_kmm s) (AREAS_CACHE s) area) (\<lambda>k. Inr (s\<lparr>vm_objs := m, vm_kmm := k\<rparr>)))))"

section \<open>The gap of a new area\<close>

lemma inner_gaps_bound:
  assumes "areas_apart m (set as)" and "sorted (map (area_base m) as)" and "distinct as"
    and "\<forall>a \<in> set as. n \<le> area_base m a" and "check_align n PLATFORM_PAGE_SIZE" and "page_areas m as"
    and "g \<in> set (inner_gaps m n as)"
  shows "check_align (fst g) PLATFORM_PAGE_SIZE \<and> check_align (snd g) PLATFORM_PAGE_SIZE \<and>
    (\<exists>a \<in> set as. unat (fst g) + unat (snd g) = unat (area_base m a))"
  using assms
proof (induction as arbitrary: n)
  case (Cons x as)
  let ?e = "area_base m x + area_size m x"
  have al: "check_align (area_base m x) PLATFORM_PAGE_SIZE" "check_align (area_size m x) PLATFORM_PAGE_SIZE"
    using Cons.prems(6) by (simp_all add: page_areas_def)
  have nx: "n \<le> area_base m x" using Cons.prems(4) by simp
  consider "g = (n, area_base m x - n)" | "g \<in> set (inner_gaps m ?e as)" using Cons.prems(7) by auto
  then show ?case
  proof cases
    case 1
    then show ?thesis
      using nx Cons.prems(5) page_align_diff [of "area_base m x" n] al(1)
      by (simp add: unat_sub32 word_le_nat_alt)
  next
    case 2
    have after: "unat (area_base m x) + unat (area_size m x) \<le> unat (area_base m z)" if "z \<in> set as" for z
    proof -
      have z: "z \<noteq> x" "z \<in> set (x # as)" "area_base m x \<le> area_base m z"
        using that Cons.prems(2,3) by auto
      then have "area_base m x \<noteq> area_base m z" using areas_apart_base [OF Cons.prems(1), of x z] by auto
      then show ?thesis using areas_apart_less(2) [OF Cons.prems(1), of x z] z by auto
    qed
    obtain y where y: "y \<in> set as" using 2 by (cases as) auto
    have e: "unat ?e = unat (area_base m x) + unat (area_size m x)"
      by (rule unat_add32) (use after [OF y] unat_lt32 [of "area_base m y"] in \<open>simp del: unat_lt32\<close>)
    have "areas_apart m (set as)" using areas_apart_subset [OF Cons.prems(1)] by auto
    moreover have "\<forall>z \<in> set as. ?e \<le> area_base m z" using after e by (simp add: word_le_nat_alt)
    moreover have "check_align ?e PLATFORM_PAGE_SIZE" using page_align_add al e by simp
    moreover have "page_areas m as" using Cons.prems(6) by (simp add: page_areas_def)
    ultimately show ?thesis using Cons.IH [of ?e] Cons.prems(2,3) 2 by auto
  qed
qed simp


lemma area_init_record:
  "vm_area_init m a b len sp = Inr m' \<Longrightarrow> \<exists>r. vm_areas m' a = Some r \<and> va_owner r = sp \<and> va_base r = b \<and> va_length r = len"
  by (auto simp: vm_area_init_def kres_simps Let_def)

lemma find_gap_inner:
  assumes "space_ok m sp as" and "vm_spaces m sp = Some vs"
    and "check_align (vs_offset vs) PLATFORM_PAGE_SIZE" and "page_areas (vm_areas m) as"
    and "find (\<lambda>(b, l). pred b l) (inner_gaps (vm_areas m) (vs_offset vs) as) = Some (b, l)"
  shows "vm_space_find_gap m sp pred = Inr (b, l)" "pred b l" "check_align b PLATFORM_PAGE_SIZE"
    "check_align l PLATFORM_PAGE_SIZE" "unat b + unat l < 2 ^ 32" "\<forall>a \<in> set as. gap_free (vm_areas m) (b, l) a"
proof -
  note d = space_okD [OF assms(1)]
  show "vm_space_find_gap m sp pred = Inr (b, l)"
    using find_gap_ok [OF assms(1-4), of pred] assms(5) by (simp add: find_append_case)
  have g: "(b, l) \<in> set (inner_gaps (vm_areas m) (vs_offset vs) as)" "pred b l"
    using assms(5) by (auto simp: find_Some_iff in_set_conv_nth)
  then show "pred b l" by simp
  have off: "\<forall>a \<in> set as. vs_offset vs \<le> area_base (vm_areas m) a" using assms(1,2) by (auto simp: space_ok_def)
  note bd = inner_gaps_bound [OF d(2,3,5) off assms(3,4) g(1)]
  then show "check_align b PLATFORM_PAGE_SIZE" "check_align l PLATFORM_PAGE_SIZE" by simp_all
  obtain a where "unat b + unat l = unat (area_base (vm_areas m) a)" using bd by auto
  then show "unat b + unat l < 2 ^ 32" using unat_lt32 [of "area_base (vm_areas m) a"] by (simp del: unat_lt32)
  show "\<forall>a \<in> set as. gap_free (vm_areas m) (b, l) a"
    using inner_gaps_free [OF d(2,3,5) _ off g(1), of "{}"] by simp
qed

text \<open>Putting an area of a free range into the space.\<close>

lemma place_area:
  assumes sp: "space_ok m sp as" and vs: "vm_spaces m sp = Some vs" and a: "other_area a sp as"
    and al: "check_align b PLATFORM_PAGE_SIZE" "check_align len PLATFORM_PAGE_SIZE"
    and b: "range_apart (vm_areas m) (set as) b len" "vs_offset vs \<le> b"
  shows "\<exists>m1 m' as'. vm_area_init m a b len sp = Inr m1 \<and> vm_space_insert_area m1 sp a = Inr m' \<and> vm_areas m' = vm_areas m1 \<and>
    space_ok m' sp as' \<and> set as' = insert a (set as) \<and> remove1 a as' = as \<and> area_base (vm_areas m') a = b \<and>
    area_size (vm_areas m') a = len \<and> (\<exists>r. vm_areas m' a = Some r \<and> va_owner r = sp)"
proof -
  note o = other_in [OF a]
  obtain r n where i: "vm_area_init m a b len sp = Inr (m\<lparr>vm_areas := (vm_areas m)(a \<mapsto> r),
      vm_nodes := (vm_nodes m)(area_node a \<mapsto> n), vm_links := (vm_links m)(area_link a \<mapsto> NULL)\<rparr>)"
      "va_base r = b" "va_length r = len" "rb_data n = a"
    using area_init_ok [of a b len m sp] o al by blast
  let ?m = "m\<lparr>vm_areas := (vm_areas m)(a \<mapsto> r), vm_nodes := (vm_nodes m)(area_node a \<mapsto> n),
    vm_links := (vm_links m)(area_link a \<mapsto> NULL)\<rparr>"
  have own: "va_owner r = sp" using area_init_record [OF i(1)] by auto
  have "area_base ((vm_areas m)(a \<mapsto> r)) x = area_base (vm_areas m) x" "area_size ((vm_areas m)(a \<mapsto> r)) x = area_size (vm_areas m) x"
    if "x \<in> set as" for x using that o by (auto simp: area_base_def area_size_def)
  then have ra: "range_apart (vm_areas ?m) (set as) (va_base r) (va_length r)" using b(1) i by (simp add: range_apart_def)
  obtain m' as' where m': "vm_space_insert_area ?m sp a = Inr m'" "vm_areas m' = vm_areas ?m" "space_ok m' sp as'"
      "set as' = insert a (set as)" "remove1 a as' = as"
    using space_add_area [OF space_ok_other [OF sp a, where r = r and n = n and l = NULL] _ a ra, of vs n] vs b(2) i by auto
  then show ?thesis using i own
    by (intro exI [of _ ?m] exI [of _ m'] exI [of _ as']) (simp add: area_base_def area_size_def)
qed

section \<open>The object of a new area\<close>

text \<open>An object of a cache lies in a page of the cache, and the places inside it are not NULL.\<close>

lemma in_use_page:
  assumes rep: "cache_rep s c k L" and x: "x \<in> in_use k L"
  shows "page_of x \<in> slab_pages L" "n \<le> 20 \<Longrightarrow> x + of_nat n \<noteq> NULL"
proof -
  have pre: "cache_pre s c k L" using rep by (simp add: cache_rep_def)
  note d = cache_preD [OF pre]
  obtain v a where v: "v \<in> set (L a)" "x \<in> set (objs k (slab_base v))" using x by (auto simp: in_use_def)
  have pl: "place_ok k (slab_page v) (slab_base v)" using d(7) [OF v(1)] by (simp add: slab_rep_def)
  show "page_of x \<in> slab_pages L"
    using obj_page(1) [OF d(3) pl v(2)] v(1) by (auto simp: slab_pages_def slab_set_def)
  obtain i where i: "unat x = unat (slab_base v) + i * kstride k"
      "unat (slab_base v) + i * kstride k + kstride k \<le> unat (slab_page v) + 4096"
    using objs_unat [OF pl v(2)] by metis
  have p: "unat (slab_page v) + 20 \<le> unat (slab_base v)" "unat (slab_page v) + 4096 < 4294967296"
    using pl by (simp_all add: place_ok_def page_ok_def)
  assume n: "n \<le> 20"
  have "4096 dvd unat (slab_page v)" using pl by (simp add: place_ok_def page_ok_def page_align_dvd)
  then have "unat (slab_page v) + 8192 \<le> 4294967296" using p(2) by (auto elim!: dvdE)
  then have "unat (x + of_nat n) = unat x + n" using i p n by (subst unat_add32) (simp_all add: unat_of_nat)
  moreover have "0 < unat x" using i p by simp
  ultimately show "x + of_nat n \<noteq> NULL" by auto
qed

lemma in_use_other_area:
  assumes "cache_rep s c k L" and "a \<in> in_use k L" and "a \<notin> insert sp (set as)"
  shows "other_area a sp as"
  using assms(3) in_use_page(2) [OF assms(1,2), of 0] in_use_page(2) [OF assms(1,2), of 12] in_use_page(2) [OF assms(1,2), of 16]
  by (auto simp: other_area_def area_link_def area_node_def space_head_def)

section \<open>Properties\<close>

lemma min_aligned: "check_align a n \<Longrightarrow> check_align b n \<Longrightarrow> check_align (MIN_u32 a b) n"
  by (simp add: MIN_u32_def)

lemma new_area_step:
  assumes "space_ok (vm_objs s) sp as" and "vm_spaces (vm_objs s) sp = Some vs"
    and "check_align (vs_offset vs) PLATFORM_PAGE_SIZE" and "page_areas (vm_areas (vm_objs s)) as"
    and "find (\<lambda>(b, l). find_with_len_and_offset (vs_offset vs) min_size b l)
      (inner_gaps (vm_areas (vm_objs s)) (vs_offset vs) as) = Some (b, l)"
    and "0 < min_size" and "min_size \<le> max_size" and "check_align max_size PLATFORM_PAGE_SIZE"
    and "kmm_cache_alloc (vm_kmm s) (AREAS_CACHE s) = Inr (a, k)" and "a \<noteq> NULL" and "other_area a sp as"
  shows "\<exists>m as'. vm_new_area_within_space s sp min_size max_size = Inr (a, s\<lparr>vm_objs := m, vm_kmm := k\<rparr>) \<and>
    space_ok m sp as' \<and> set as' = insert a (set as) \<and> remove1 a as' = as \<and> area_base (vm_areas m) a = b \<and>
    area_size (vm_areas m) a = MIN_u32 max_size l \<and> (\<exists>r. vm_areas m a = Some r \<and> va_owner r = sp)"
proof -
  note g = find_gap_inner [OF assms(1-5)]
  let ?len = "MIN_u32 max_size l"
  have len: "min_size \<le> l" "vs_offset vs \<le> b" using g(2) by (auto simp: find_with_len_and_offset_def)
  have l: "0 < unat ?len" "unat ?len \<le> unat l"
    using assms(6,7) len(1) by (auto simp: MIN_u32_def word_le_nat_alt word_less_nat_alt)
  have "range_apart (vm_areas (vm_objs s)) (set as) b ?len"
    using g(5,6) l by (fastforce simp: range_apart_def gap_free_def)
  from place_area [OF assms(1,2,11) g(3) min_aligned [OF assms(8) g(4)] this len(2)]
  show ?thesis using g(1) assms(2,7,9,10) space_okD(1) [OF assms(1)]
    by (force simp: vm_new_area_within_space_def kassert_def space_at_def Let_def)
qed

lemma free_area_step:
  assumes "space_ok (vm_objs s) sp as" and "a \<in> set as" and "a \<noteq> NULL"
    and "vm_areas (vm_objs s) a = Some r" and "va_owner r = sp"
    and "kmm_cache_free (vm_kmm s) (AREAS_CACHE s) a = Inr k"
  shows "\<exists>m. vm_free_area s a = Inr (s\<lparr>vm_objs := m, vm_kmm := k\<rparr>) \<and> space_ok m sp (remove1 a as)"
proof -
  obtain m where "vm_space_remove_area (vm_objs s) sp a = Inr m" "space_ok m sp (remove1 a as)"
    using remove_area_ok [OF assms(1,2)] by auto
  then show ?thesis using assms(3-6)
    by (intro exI [of _ m]) (simp add: vm_free_area_def kassert_def area_at_def)
qed

text \<open>C39: a new area is put into the first gap between the areas of the space that is large enough, with as much of
  the gap as asked for, unless its cache has no memory; the space is then well formed with one more area, and freeing
  the area gives the space as it was. The pages of the cache hold no area of the space but those in use.\<close>

theorem vm_new_area_places:
  assumes "space_ok (vm_objs s) sp as" and "vm_spaces (vm_objs s) sp = Some vs"
    and "check_align (vs_offset vs) PLATFORM_PAGE_SIZE" and "page_areas (vm_areas (vm_objs s)) as"
    and "find (\<lambda>(b, l). find_with_len_and_offset (vs_offset vs) min_size b l)
      (inner_gaps (vm_areas (vm_objs s)) (vs_offset vs) as) = Some (b, l)"
    and "0 < min_size" and "min_size \<le> max_size" and "check_align max_size PLATFORM_PAGE_SIZE"
    and "cache_rep (vm_kmm s) (AREAS_CACHE s) k L" and "1 < kcap k"
    and "ALLOC_PAGE_FN (vm_kmm s) (kmm_pages (vm_kmm s)) = Inr (p, q)"
    and "p \<noteq> NULL \<Longrightarrow> new_page (AREAS_CACHE s) L p"
    and "\<And>x. x \<in> insert sp (set as) \<Longrightarrow> page_of x \<in> insert p (slab_pages L) \<Longrightarrow> x \<in> in_use k L"
  shows "\<exists>a s'. vm_new_area_within_space s sp min_size max_size = Inr (a, s') \<and>
    (a = NULL \<longleftrightarrow> L Partial = [] \<and> L Empty = [] \<and> p = NULL) \<and> (a = NULL \<longrightarrow> vm_objs s' = vm_objs s) \<and>
    (a \<noteq> NULL \<longrightarrow> (\<exists>as'. space_ok (vm_objs s') sp as' \<and> set as' = insert a (set as) \<and> a \<notin> set as \<and>
       area_base (vm_areas (vm_objs s')) a = b \<and> area_size (vm_areas (vm_objs s')) a = MIN_u32 max_size l \<and>
       (\<exists>s''. vm_free_area s' a = Inr s'' \<and> space_ok (vm_objs s'') sp as)))"
proof -
  obtain a k1 c L1 where al: "kmm_cache_alloc (vm_kmm s) (AREAS_CACHE s) = Inr (a, k1)" "c \<in> {k, next_colour k}"
      "cache_rep k1 (AREAS_CACHE s) c L1" "slab_pages L1 \<subseteq> insert p (slab_pages L)"
      "if L Partial = [] \<and> L Empty = [] \<and> p = NULL then a = NULL else a \<noteq> NULL \<and> a \<notin> in_use k L \<and> in_use k L1 = insert a (in_use k L)"
    using kmm_alloc_cases [OF assms(9-12)] by (metis subset_insertI)
  show ?thesis
  proof (cases "a = NULL")
    case True
    then have "vm_new_area_within_space s sp min_size max_size = Inr (NULL, s\<lparr>vm_kmm := k1\<rparr>)"
      using find_gap_inner(1) [OF assms(1-5)] assms(2,7) al(1) space_okD(1) [OF assms(1)]
      by (simp add: vm_new_area_within_space_def kassert_def space_at_def Let_def)
    then show ?thesis using True al(5) by (auto split: if_splits)
  next
    case False
    have u: "a \<in> in_use c L1" "a \<notin> in_use k L" "1 < kcap c" using False al(2,5) assms(10) by (auto split: if_splits)
    have "page_of a \<in> insert p (slab_pages L)" using in_use_page(1) [OF al(3) u(1)] al(4) by auto
    then have o: "a \<notin> insert sp (set as)" using assms(13) u(2) by blast
    obtain m as' r where m: "vm_new_area_within_space s sp min_size max_size = Inr (a, s\<lparr>vm_objs := m, vm_kmm := k1\<rparr>)"
        "space_ok m sp as'" "set as' = insert a (set as)" "remove1 a as' = as" "area_base (vm_areas m) a = b"
        "area_size (vm_areas m) a = MIN_u32 max_size l" "vm_areas m a = Some r" "va_owner r = sp"
      using new_area_step [OF assms(1-8) al(1) False in_use_other_area [OF al(3) u(1) o]] by blast
    obtain k2 where "kmm_cache_free k1 (AREAS_CACHE s) a = Inr k2" using kmm_free_ok [OF al(3) u(3,1)] by blast
    then have "\<exists>s''. vm_free_area (s\<lparr>vm_objs := m, vm_kmm := k1\<rparr>) a = Inr s'' \<and> space_ok (vm_objs s'') sp as"
      using free_area_step [of "s\<lparr>vm_objs := m, vm_kmm := k1\<rparr>" sp as' a r k2] m False by auto
    then show ?thesis using m(1-3,5,6) False al(5) o
      by (intro exI [of _ a] exI [of _ "s\<lparr>vm_objs := m, vm_kmm := k1\<rparr>"]) (auto split: if_splits)
  qed
qed

theorem vm_new_area_places_witness:
  "\<exists>s a s'. vm_init \<lparr>vm_objs = example_mem, vm_kmm = example_state [0x9000], AREAS_CACHE = 0x2000\<rparr> 0x500 = Inr s \<and>
    vm_new_area_within_space s 0x100 0x800 0x2000 = Inr (a, s') \<and> a \<noteq> NULL \<and>
    area_base (vm_areas (vm_objs s')) a = 0xC0000000 \<and> area_size (vm_areas (vm_objs s')) a = 0x1000"
proof -
  obtain s0 k where s0: "kmm_cache_init (example_state [0x9000]) 0x2000 0x500 56 0 0 NULL NULL = Inr s0"
    "ALLOC_PAGE_FN s0 = pop_page" "kmm_pages s0 = [0x9000]" "cache_rep s0 0x2000 k (\<lambda>_. [])" "1 < kcap k"
    using example_init [OF example_sizes(2)] by metis
  let ?s = "\<lparr>vm_objs = example_mem, vm_kmm = s0, AREAS_CACHE = 0x2000\<rparr> :: addr list vm_state"
  have pg: "ALLOC_PAGE_FN s0 (kmm_pages s0) = Inr (0x9000, [])" using s0(2,3) by (simp add: pop_page_def)
  have "new_page 0x2000 (\<lambda>_. []) 0x9000" using example_page by (simp add: new_page_iff slab_pages_def slab_set_def)
  moreover have "page_of 0x100 \<noteq> 0x9000" "page_of 0x200 \<noteq> 0x9000" by (simp_all add: page_of_def PLATFORM_PAGE_SIZE_def)
  ultimately have "\<exists>a s'. vm_new_area_within_space ?s 0x100 0x800 0x2000 = Inr (a, s') \<and>
    (a = NULL \<longleftrightarrow> ((\<lambda>_. []) :: slab_list \<Rightarrow> slab_view list) Partial = [] \<and> ((\<lambda>_. []) :: slab_list \<Rightarrow> slab_view list) Empty = [] \<and> (0x9000 :: addr) = NULL) \<and> (a = NULL \<longrightarrow> vm_objs s' = vm_objs ?s) \<and>
    (a \<noteq> NULL \<longrightarrow> (\<exists>as'. space_ok (vm_objs s') 0x100 as' \<and> set as' = insert a (set [0x200]) \<and> a \<notin> set [0x200] \<and>
       area_base (vm_areas (vm_objs s')) a = 0xC0000000 \<and> area_size (vm_areas (vm_objs s')) a = MIN_u32 0x2000 0x1000 \<and>
       (\<exists>s''. vm_free_area s' a = Inr s'' \<and> space_ok (vm_objs s'') 0x100 [0x200])))"
    by (intro vm_new_area_places [of ?s "0x100" "[0x200]"
        "\<lparr>vs_root_dir = 0x1000, vs_offset = 0xC0000000, vs_rb_areas = 0x210\<rparr>" "0x800" "0xC0000000" "0x1000" "0x2000" k
        "\<lambda>_. []" "0x9000" "[]"])
      (use s0 pg example_space in \<open>auto simp: example_mem_def example_area_def area_base_def area_size_def page_areas_def
        page_align_dvd find_with_len_and_offset_def slab_pages_def slab_set_def\<close>)
  then show ?thesis using s0(1) by (intro exI [of _ ?s]) (auto simp: vm_init_def MIN_u32_def)
qed

text \<open>When no gap of the space is large enough, \<open>vm_space_find_gap\<close> answers NULL and the code does not look at
  the answer: it takes an area from the cache for the empty range at NULL, and putting it into the space, which starts
  above NULL, stops at an assertion. The area is not given back and NULL is not returned.\<close>

theorem vm_new_area_no_gap:
  assumes "space_ok (vm_objs s) sp as" and "vm_spaces (vm_objs s) sp = Some vs"
    and "check_align (vs_offset vs) PLATFORM_PAGE_SIZE" and "page_areas (vm_areas (vm_objs s)) as"
    and "find (\<lambda>(b, l). find_with_len_and_offset (vs_offset vs) min_size b l)
      (inner_gaps (vm_areas (vm_objs s)) (vs_offset vs) as @ [last_gap (areas_end (vm_areas (vm_objs s)) (vs_offset vs) as)]) = None"
    and "0 < vs_offset vs" and "min_size \<le> max_size"
    and "kmm_cache_alloc (vm_kmm s) (AREAS_CACHE s) = Inr (a, k)" and "other_area a sp as"
  shows "vm_new_area_within_space s sp min_size max_size = Inl Kassert"
proof -
  note o = other_in [OF assms(9)]
  have al: "check_align 0 PLATFORM_PAGE_SIZE" by (simp add: page_align_dvd)
  obtain r n where i: "vm_area_init (vm_objs s) a 0 0 sp = Inr ((vm_objs s)\<lparr>vm_areas := (vm_areas (vm_objs s))(a \<mapsto> r),
      vm_nodes := (vm_nodes (vm_objs s))(area_node a \<mapsto> n), vm_links := (vm_links (vm_objs s))(area_link a \<mapsto> NULL)\<rparr>)"
      "va_base r = 0"
    using area_init_ok [of a 0 0 "vm_objs s" sp] o al by blast
  have "\<not> vs_offset vs \<le> 0" "MIN_u32 max_size 0 = 0" using assms(6) by (auto simp: MIN_u32_def word_gt_0)
  then show ?thesis
    using find_gap_ok [OF assms(1-4), of "find_with_len_and_offset (vs_offset vs) min_size"] assms(2,5,7,8) i o
      space_okD(1) [OF assms(1)]
    by (simp add: vm_new_area_within_space_def vm_space_insert_area_def kassert_def space_at_def area_at_def)
qed

theorem vm_new_area_no_gap_witness:
  "\<exists>s. vm_init \<lparr>vm_objs = example_mem, vm_kmm = example_state [0x9000], AREAS_CACHE = 0x2000\<rparr> 0x500 = Inr s \<and>
    vm_new_area_within_space s 0x100 0x80000000 0x80000000 = Inl Kassert"
proof -
  obtain s0 k where s0: "kmm_cache_init (example_state [0x9000]) 0x2000 0x500 56 0 0 NULL NULL = Inr s0"
    "ALLOC_PAGE_FN s0 = pop_page" "kmm_pages s0 = [0x9000]" "cache_rep s0 0x2000 k (\<lambda>_. [])" "1 < kcap k"
    using example_init [OF example_sizes(2)] by metis
  have pg: "ALLOC_PAGE_FN s0 (kmm_pages s0) = Inr (0x9000, [])" using s0(2,3) by (simp add: pop_page_def)
  have n: "new_page 0x2000 (\<lambda>_. []) 0x9000" using example_page by (simp add: new_page_iff slab_pages_def slab_set_def)
  obtain a s1 c L where a: "kmm_cache_alloc s0 0x2000 = Inr (a, s1)" "cache_rep s1 0x2000 c L" "a \<in> in_use c L"
      "slab_pages L \<subseteq> {0x9000}" "c \<in> {k, next_colour k}"
    using kmm_alloc_cases [OF s0(4,5) pg n] by (force simp: slab_pages_def slab_set_def)
  have "page_of a = 0x9000" using in_use_page(1) [OF a(2,3)] a(4) by auto
  moreover have "page_of 0x100 \<noteq> 0x9000" "page_of 0x200 \<noteq> 0x9000" by (simp_all add: page_of_def PLATFORM_PAGE_SIZE_def)
  ultimately have "other_area a 0x100 [0x200]" by (intro in_use_other_area [OF a(2,3)]) auto
  moreover have lg: "last_gap 0xC0002000 = (0xC0002000, LAST_AVAILABLE_ADDR - 0xC0002000 + 1)" by (simp add: last_gap_def)
  moreover have "\<not> 0x80000000 \<le> LAST_AVAILABLE_ADDR - 0xC0002000 + 1" by code_simp
  ultimately have "vm_new_area_within_space \<lparr>vm_objs = example_mem, vm_kmm = s0, AREAS_CACHE = 0x2000\<rparr> 0x100 0x80000000 0x80000000 = Inl Kassert"
    by (intro vm_new_area_no_gap [of "\<lparr>vm_objs = example_mem, vm_kmm = s0, AREAS_CACHE = 0x2000\<rparr>" "0x100" "[0x200]"
        "\<lparr>vs_root_dir = 0x1000, vs_offset = 0xC0000000, vs_rb_areas = 0x210\<rparr>"])
      (use a(1) example_space in \<open>simp_all add: example_mem_def example_area_def area_base_def area_size_def page_areas_def
        page_align_dvd find_with_len_and_offset_def lg\<close>)
  then show ?thesis using s0(1) by (auto simp: vm_init_def)
qed

end
