(* ===== verification/Kmalloc.thy ===== *)
theory Kmalloc
  imports Vm
begin

text \<open>
  kernel/kernel/mm/kmalloc.c: memory of any size, from caches of objects of 32 bytes and more. An object begins with
  the index of its cache, and the memory handed out begins behind it, at the next multiple of the largest alignment.
  \<open>ident_index\<close> is the byte at the beginning of each object. \<open>alignof (max_align_t)\<close> is 16 with GCC on i686.
\<close>

section \<open>Operations\<close>

record 'p kmalloc_state =
  kma_kmm :: "'p kmm_state"
  KMALLOC_CACHES :: "addr list"
  LOW_POW :: u8
  MAX_POW :: u8
  ident_index :: "addr \<rightharpoonup> u8"

abbreviation KMALLOC_MAX_CACHES :: u32 where "KMALLOC_MAX_CACHES \<equiv> 7"
abbreviation alignof_max_align_t :: size_t where "alignof_max_align_t \<equiv> 16"
abbreviation sizeof_kmalloc_ident_info :: size_t where "sizeof_kmalloc_ident_info \<equiv> 1"

definition POWERS :: "'p kmalloc_state \<Rightarrow> u32" where
  "POWERS s = ucast (MAX_POW s) - ucast (LOW_POW s) + 1"

definition kmalloc_obj_size :: "nat \<Rightarrow> size_t" where
  "kmalloc_obj_size pow = align_roundup sizeof_kmalloc_ident_info alignof_max_align_t + push_bit pow 1"

function kmalloc_init_loop :: "'p kmalloc_state \<Rightarrow> addr list \<Rightarrow> size_t \<Rightarrow> 'p kmalloc_state kres" where
  "kmalloc_init_loop s heap_names i =
     (if i < POWERS s
      then let n = unat (i + ucast (LOW_POW s)) in
        kdefined (n < length heap_names \<and> n < 31)
        (kbind (kmm_cache_create (kma_kmm s) (heap_names ! n) (kmalloc_obj_size n) alignof_max_align_t 0 NULL NULL) (\<lambda>(c, k).
         kdefined (unat i < length (KMALLOC_CACHES s))
         (kmalloc_init_loop (s\<lparr>kma_kmm := k, KMALLOC_CACHES := (KMALLOC_CACHES s)[unat i := c]\<rparr>) heap_names (i + 1))))
      else Inr s)"
  by pat_completeness auto
termination
  by (relation "measure (\<lambda>(s, names, i). unat (POWERS s) - unat i)") (use size_t_loop_measure in \<open>force simp: POWERS_def\<close>)+

definition kmalloc_init :: "'p kmalloc_state \<Rightarrow> addr list \<Rightarrow> u8 \<Rightarrow> u8 \<Rightarrow> 'p kmalloc_state kres" where
  "kmalloc_init s heap_names lowest_pow2_size max_pow2_size =
     (let s = s\<lparr>LOW_POW := lowest_pow2_size, MAX_POW := max_pow2_size\<rparr> in
      kassert (max_pow2_size > lowest_pow2_size)
      (kassert (POWERS s \<le> KMALLOC_MAX_CACHES)
      (kassert (length heap_names \<ge> unat max_pow2_size)
      (kmalloc_init_loop s heap_names 0))))"

definition kmalloc :: "'p kmalloc_state \<Rightarrow> size_t \<Rightarrow> (addr \<times> 'p kmalloc_state) kres" where
  "kmalloc s sz =
     (let req_space = sz + sizeof_kmalloc_ident_info in
      kbind (log2_ceil req_space) (\<lambda>l.
      let pow = (ucast l :: u8); pow = (if pow < LOW_POW s then LOW_POW s else pow);
          cache_index = pow - LOW_POW s in
      if ucast cache_index \<ge> POWERS s then Inr (NULL, s)
      else kdefined (unat cache_index < length (KMALLOC_CACHES s))
      (let c = KMALLOC_CACHES s ! unat cache_index in
       kassert (c \<noteq> NULL)
       (kbind (kmm_cache_alloc (kma_kmm s) c) (\<lambda>(info, k).
        kassert (check_align info alignof_max_align_t)
        (kdefined (info \<noteq> NULL)
        (let mem = align_roundup (info + sizeof_kmalloc_ident_info) alignof_max_align_t in
         Inr (mem, s\<lparr>kma_kmm := k, ident_index := (ident_index s)(info \<mapsto> cache_index)\<rparr>))))))))"

definition kfree :: "'p kmalloc_state \<Rightarrow> addr \<Rightarrow> 'p kmalloc_state kres" where
  "kfree s mem =
     kassert (mem \<noteq> NULL)
     (kassert (check_align mem alignof_max_align_t)
     (let info = align_rounddown (mem - 1) alignof_max_align_t in
      case ident_index s info of None \<Rightarrow> Inl Undef
      | Some cache_index \<Rightarrow> kassert (ucast cache_index < POWERS s)
        (kdefined (unat cache_index < length (KMALLOC_CACHES s))
        (kbind (kmm_cache_free (kma_kmm s) (KMALLOC_CACHES s ! unat cache_index) info) (\<lambda>k. Inr (s\<lparr>kma_kmm := k\<rparr>))))))"

section \<open>The cache a size is served from\<close>

text \<open>The least power of two, from the lowest one on, that holds the size and the index.\<close>

definition fits_class :: "'p kmalloc_state \<Rightarrow> size_t \<Rightarrow> nat \<Rightarrow> bool" where
  "fits_class s sz i \<longleftrightarrow> unat sz + 1 \<le> 2 ^ (unat (LOW_POW s) + i) \<and>
     (i = 0 \<or> 2 ^ (unat (LOW_POW s) + i - 1) < unat sz + 1)"

lemma log2_ceil_ok:
  assumes "0 < x"
  obtains l where "log2_ceil x = Inr l" "unat l \<le> 32" "unat x \<le> 2 ^ unat l" "unat l = 0 \<or> 2 ^ (unat l - 1) < unat x"
proof (cases "x \<le> 1")
  case True
  then have "unat x \<le> 1" by (simp add: word_le_nat_alt)
  then show ?thesis using that [of 0] True by (simp add: log2_ceil_def)
next
  case False
  then have x: "1 < unat x" by (simp add: word_le_nat_alt)
  then have u: "unat (x - 1) = unat x - 1" by (subst unat_sub32) simp_all
  then have "x - 1 \<noteq> 0" using x by auto
  then obtain l where l: "log2_floor (x - 1) = Inr l" "unat l < 32" "2 ^ unat l \<le> unat x - 1" "unat x - 1 < 2 ^ Suc (unat l)"
    using log2_floor_ok [of "x - 1"] unfolding u by blast
  have "unat (l + 1) = Suc (unat l)" using l(2) by (subst unat_add32) simp_all
  then show ?thesis using that [of "l + 1"] False l x by (simp add: log2_ceil_def)
qed

lemma class_of_size:
  assumes "fits_class s sz i" and "unat (LOW_POW s) + i < 32" and "unat i' = i" and "unat sz + 1 < 2 ^ 32"
  shows "\<exists>l. log2_ceil (sz + 1) = Inr l \<and>
    (if (ucast l :: u8) < LOW_POW s then LOW_POW s else ucast l) - LOW_POW s = i'"
proof -
  have u: "unat (sz + 1) = unat sz + 1" using assms(4) by (subst unat_add32) simp_all
  then have "0 < sz + 1" by (simp add: word_less_nat_alt)
  then obtain l where l: "log2_ceil (sz + 1) = Inr l" "unat l \<le> 32" "unat sz + 1 \<le> 2 ^ unat l"
      "unat l = 0 \<or> 2 ^ (unat l - 1) < unat sz + 1"
    using log2_ceil_ok [of "sz + 1"] unfolding u by blast
  let ?L = "unat (LOW_POW s)"
  have c: "unat (ucast l :: u8) = unat l" using l(2) by (simp add: unsigned_ucast_eq take_bit_eq_mod)
  have a: "unat l \<le> ?L + i"
  proof (rule ccontr)
    assume "\<not> unat l \<le> ?L + i"
    then have "(2 :: nat) ^ (?L + i) \<le> 2 ^ (unat l - 1)" "unat l \<noteq> 0" by (auto intro!: power_increasing)
    moreover have "unat sz + 1 \<le> 2 ^ (?L + i)" using assms(1) by (simp add: fits_class_def)
    ultimately show False using l(4) by linarith
  qed
  have b: "unat l = ?L + i" if "i \<noteq> 0"
  proof (rule ccontr)
    assume "unat l \<noteq> ?L + i"
    then have "(2 :: nat) ^ unat l \<le> 2 ^ (?L + i - 1)" using a by (intro power_increasing) auto
    moreover have "2 ^ (?L + i - 1) < unat sz + 1" using assms(1) that by (simp add: fits_class_def)
    ultimately show False using l(3) by linarith
  qed
  have "(if (ucast l :: u8) < LOW_POW s then LOW_POW s else ucast l) - LOW_POW s = i'"
  proof (cases "i = 0")
    case True
    then have "(ucast l :: u8) \<le> LOW_POW s" using a c by (simp add: word_le_nat_alt)
    moreover have "i' = 0" by (rule word_unat_eq_iff [THEN iffD2]) (use True assms(3) in simp)
    ultimately show ?thesis by auto
  next
    case False
    then have l2: "unat (ucast l :: u8) = ?L + i" using b c by simp
    then have "\<not> (ucast l :: u8) < LOW_POW s" by (simp add: word_less_nat_alt)
    moreover have "(ucast l :: u8) - LOW_POW s = i'"
      by (rule word_unat_eq_iff [THEN iffD2]) (use l2 assms(3) in \<open>simp add: unat_sub_if'\<close>)
    ultimately show ?thesis by simp
  qed
  then show ?thesis using l(1) by blast
qed

section \<open>The place of the memory in its object\<close>

lemma align16: "check_align x 16 \<longleftrightarrow> 16 dvd unat x" and rounddown16: "unat (align_rounddown x 16) = unat x div 16 * 16"
  and roundup16: "unat x + 15 < 4294967296 \<Longrightarrow> unat (align_roundup x 16) = (unat x + 15) div 16 * 16"
  using check_align_dvd [of 4 x] unat_align_rounddown [of 4 x] unat_align_roundup [of 4 x] by simp_all

lemma mem_place:
  assumes "16 dvd unat info" and "unat info + 16 < 4294967296"
  shows "align_roundup (info + 1) 16 = info + 16" "unat (info + 16) = unat info + 16" "align_rounddown (info + 16 - 1) 16 = info"
proof -
  obtain q where q: "unat info = 16 * q" using assms(1) by (rule dvdE)
  show u: "unat (info + 16) = unat info + 16" using assms(2) by (subst unat_add32) simp_all
  have "unat (info + 1) = unat info + 1" using assms(2) by (subst unat_add32) simp_all
  then have "unat (align_roundup (info + 1) 16) = unat info + 16" using assms(2) by (subst roundup16) (simp_all add: q)
  then show "align_roundup (info + 1) 16 = info + 16" using u by (intro word32_eqI) simp
  have "unat (info + 16 - 1) = unat info + 15" using u by (subst unat_sub32) simp_all
  then have "unat (align_rounddown (info + 16 - 1) 16) = unat info" unfolding rounddown16 by (simp add: q)
  then show "align_rounddown (info + 16 - 1) 16 = info" by (rule word32_eqI)
qed

lemma in_use_room:
  assumes rep: "cache_rep s c k L" and x: "x \<in> in_use k L"
  shows "unat x + kstride k < 4294967296"
proof -
  have pre: "cache_pre s c k L" using rep by (simp add: cache_rep_def)
  note d = cache_preD [OF pre]
  obtain v a where v: "v \<in> set (L a)" "x \<in> set (objs k (slab_base v))" using x by (auto simp: in_use_def)
  have pl: "place_ok k (slab_page v) (slab_base v)" using d(7) [OF v(1)] by (simp add: slab_rep_def)
  show ?thesis by (rule obj_facts(2) [OF d(3) pl v(2)])
qed

section \<open>Properties\<close>

text \<open>A request that the cache \<open>i\<close> is to serve, a well-formed cache of small objects (\<open>cache_rep\<close>)
  with more than one object to a slab.\<close>

definition serves :: "'p kmalloc_state \<Rightarrow> size_t \<Rightarrow> nat \<Rightarrow> kmm_cache \<Rightarrow> (slab_list \<Rightarrow> slab_view list) \<Rightarrow> bool" where
  "serves s sz i k L \<longleftrightarrow> fits_class s sz i \<and> unat (LOW_POW s) + i < 31 \<and> unat sz + 1 < 2 ^ 32 \<and> i < 256 \<and>
     of_nat i < POWERS s \<and> i < length (KMALLOC_CACHES s) \<and> KMALLOC_CACHES s ! i \<noteq> NULL \<and>
     cache_rep (kma_kmm s) (KMALLOC_CACHES s ! i) k L \<and> 1 < kcap k \<and> kalign k = 16 \<and>
     unat (kc_size k) = 16 + 2 ^ (unat (LOW_POW s) + i)"

lemma kmalloc_step:
  assumes "serves s sz i k L" and "kmm_cache_alloc (kma_kmm s) (KMALLOC_CACHES s ! i) = Inr (info, k1)"
  shows "kmalloc s sz = kassert (check_align info 16) (kdefined (info \<noteq> NULL)
    (Inr (align_roundup (info + 1) 16, s\<lparr>kma_kmm := k1, ident_index := (ident_index s)(info \<mapsto> of_nat i)\<rparr>)))"
proof -
  have h: "fits_class s sz i" "unat (LOW_POW s) + i < 32" "unat sz + 1 < 2 ^ 32" "i < 256" "of_nat i < POWERS s"
    "i < length (KMALLOC_CACHES s)" "KMALLOC_CACHES s ! i \<noteq> NULL" using assms(1) by (auto simp: serves_def)
  have i: "unat (of_nat i :: u8) = i" using h(4) by (simp add: unat_of_nat)
  then have u: "ucast (of_nat i :: u8) = (of_nat i :: u32)" by (metis of_nat_unat)
  obtain l where l: "log2_ceil (sz + 1) = Inr l"
      "(if (ucast l :: u8) < LOW_POW s then LOW_POW s else ucast l) - LOW_POW s = of_nat i"
    using class_of_size [OF h(1,2) i h(3)] by blast
  show ?thesis using assms(2) h(5-7) i u unfolding kmalloc_def l(1) Let_def kbind_Inr l(2)
    by (auto simp: kassert_def kdefined_def not_le)
qed

text \<open>C15: memory from the allocator and back, for the requests that a cache of small objects serves: one whose
  objects, a power of two and the 16 bytes of the index, are below 512 bytes, at least two to a slab. The caches of the
  powers 9 to 11 that config.h asks for too are of large objects, and nothing is said of them. A request is
  served from the cache of the least power of two that holds it; unless that cache is out of memory the answer is aligned, lies inside one fresh object behind the index, and
  overlaps no object in use; and \<open>kfree\<close> finds the object from the memory alone and gives it back. When the
  cache is out of memory, \<open>kmalloc\<close> writes the index to address 0 and does not return NULL.\<close>

theorem kmalloc_kfree:
  assumes "serves s sz i k L" and "ALLOC_PAGE_FN (kma_kmm s) (kmm_pages (kma_kmm s)) = Inr (p, q)"
    and "p \<noteq> NULL \<Longrightarrow> new_page (KMALLOC_CACHES s ! i) L p"
  shows "if L Partial = [] \<and> L Empty = [] \<and> p = NULL then kmalloc s sz = Inl Undef
    else \<exists>mem s' s'' L''. kmalloc s sz = Inr (mem, s') \<and> 16 dvd unat mem \<and> mem - 16 \<notin> in_use k L \<and>
      unat mem = unat (mem - 16) + 16 \<and> unat mem + unat sz \<le> unat (mem - 16) + unat (kc_size k) \<and>
      (\<forall>x \<in> in_use k L. strided (kstride k) (mem - 16) x) \<and> unat (kc_size k) < kstride k \<and>
      kfree s' mem = Inr s'' \<and> in_use k L'' = in_use k L \<and>
      (\<exists>k''. k'' \<in> {k, next_colour k} \<and> cache_rep (kma_kmm s'') (KMALLOC_CACHES s ! i) k'' L'')"
proof -
  have h: "fits_class s sz i" "i < 256" "of_nat i < POWERS s" "i < length (KMALLOC_CACHES s)" "kalign k = 16"
    "cache_rep (kma_kmm s) (KMALLOC_CACHES s ! i) k L" "1 < kcap k" "unat (kc_size k) = 16 + 2 ^ (unat (LOW_POW s) + i)"
    using assms(1) by (auto simp: serves_def)
  obtain info k1 c L1 where al: "kmm_cache_alloc (kma_kmm s) (KMALLOC_CACHES s ! i) = Inr (info, k1)" "c \<in> {k, next_colour k}"
      "cache_rep k1 (KMALLOC_CACHES s ! i) c L1"
      "if L Partial = [] \<and> L Empty = [] \<and> p = NULL then info = NULL
       else info \<noteq> NULL \<and> info \<notin> in_use k L \<and> in_use k L1 = insert info (in_use k L)"
    using kmm_alloc_cases [OF h(6,7) assms(2,3)] by metis
  show ?thesis
  proof (cases "info = NULL")
    case True
    then have "kmalloc s sz = Inl Undef" using kmalloc_step [OF assms(1) al(1)] by (simp add: kassert_def kdefined_def align16)
    then show ?thesis using True al(4) by (auto split: if_splits)
  next
    case False
    have n: "info \<notin> in_use k L" "in_use k L1 = insert info (in_use k L)" using False al(4) by (auto split: if_splits)
    have c: "in_use c = in_use k" "kstride c = kstride k" "kalign c = kalign k" "1 < kcap c" using al(2) h(7) by auto
    have u: "info \<in> in_use c L1" using n c(1) by simp
    have sm: "small_cache k" using h(6) unfolding cache_rep_def by (blast dest: cache_preD(3))
    note o = in_use_objs [OF al(3) u, unfolded c h(5)] and r = in_use_room [OF al(3) u, unfolded c]
    have st: "unat (kc_size k) + 4 \<le> kstride k" using small_cacheD(7) [OF sm] .
    have m: "align_roundup (info + 1) 16 = info + 16" "unat (info + 16) = unat info + 16" "align_rounddown (info + 16 - 1) 16 = info"
      using mem_place [of info] o(2) r st h(8) by simp_all
    let ?s = "s\<lparr>kma_kmm := k1, ident_index := (ident_index s)(info \<mapsto> of_nat i)\<rparr>"
    have k: "kmalloc s sz = Inr (info + 16, ?s)"
      using kmalloc_step [OF assms(1) al(1)] False m(1) o(2) by (simp add: kassert_def kdefined_def align16)
    obtain k2 L2 where f: "kmm_cache_free k1 (KMALLOC_CACHES s ! i) info = Inr k2" "cache_rep k2 (KMALLOC_CACHES s ! i) c L2"
        "in_use k L2 = in_use k L1 - {info}"
      using kmm_free_ok [OF al(3) c(4) u] unfolding c(1) by blast
    have i: "unat (of_nat i :: u8) = i" using h(2) by (simp add: unat_of_nat)
    then have iu: "ucast (of_nat i :: u8) = (of_nat i :: u32)" by (metis of_nat_unat)
    have d: "16 dvd unat (info + 16)" unfolding m(2) using o(2) by (rule dvd_add) simp
    have "info + 16 \<noteq> NULL" using m(2) by (metis add_is_0 unsigned_0 zero_neq_numeral)
    then have fr: "kfree ?s (info + 16) = Inr (?s\<lparr>kma_kmm := k2\<rparr>)"
      using f(1) h(3,4) i iu d m(3) by (simp add: kfree_def kassert_def kdefined_def align16 POWERS_def)
    have "strided (kstride k) info x" if "x \<in> in_use k L" for x
      using o(3) [of x] that n by (auto simp: strided_def)
    moreover have "unat sz + 1 \<le> 2 ^ (unat (LOW_POW s) + i)" using h(1) by (simp add: fits_class_def)
    moreover have "in_use k L2 = in_use k L" using f(3) n by auto
    ultimately show ?thesis using k fr f(2) al(2,4) False n(1) d m(2) st h(8)
      by (auto split: if_splits intro!: exI [of _ "info + 16"] exI [of _ ?s] exI [of _ "?s\<lparr>kma_kmm := k2\<rparr>"] exI [of _ L2])
  qed
qed

lemma example_kmalloc:
  obtains s0 k where "kmm_cache_init (example_state ps) 0x2000 0x500 (kmalloc_obj_size 5) 16 0 NULL NULL = Inr s0"
    "ALLOC_PAGE_FN s0 = pop_page" "kmm_pages s0 = ps"
    "serves \<lparr>kma_kmm = s0, KMALLOC_CACHES = [0x2000], LOW_POW = 5, MAX_POW = 5, ident_index = Map.empty\<rparr> 20 0 k (\<lambda>_. [])"
proof -
  have sz: "kmalloc_obj_size 5 = 48" by code_simp
  have al: "\<exists>a < 12. (16 :: size_t) = 2 ^ a" "\<exists>a \<le> 10. (16 :: size_t) = 2 ^ a"
    by (rule exI [of _ "4 :: nat"], simp)+
  obtain k where k: "kmm_cache_init (example_state ps) 0x2000 0x500 48 16 0 NULL NULL = Inr ((put_cache (example_state ps) 0x2000 k)\<lparr>kmm_links :=
      (kmm_links (example_state ps))(slabs_empty 0x2000 \<mapsto> NULL, slabs_partial 0x2000 \<mapsto> NULL, slabs_full 0x2000 \<mapsto> NULL)\<rparr>)"
    "small_cache k" "kc_size k = 48" "kc_alignment k = MAX_u32 sizeof_bufctl_small 16" "kstride k < unat (48 :: size_t) + 4 + kalign k"
    using cache_init_ok [OF example_page(3), of 16 48 0 "example_state ps" "0x500" NULL NULL] al(1) by auto
  have "1 < kcap k" by (rule cache_init_capacity [of k 16]) (use k al(2) in simp_all)
  moreover have "kalign k = 16" using k(4) by (simp add: kalign_def MAX_u32_def)
  moreover have n: "kmm_links (example_state ps) NULL = None" by (simp add: example_state_def)
  ultimately show ?thesis
    using that [of _ k] k(1,3) cache_init_rep [OF example_page(3) n k(2)] unfolding sz
    by (auto simp: put_cache_def example_state_def serves_def fits_class_def POWERS_def)
qed

theorem kmalloc_kfree_witness:
  "\<exists>s0 mem s1 s2. kmm_cache_init (example_state [0x9000]) 0x2000 0x500 (kmalloc_obj_size 5) 16 0 NULL NULL = Inr s0 \<and>
    kmalloc \<lparr>kma_kmm = s0, KMALLOC_CACHES = [0x2000], LOW_POW = 5, MAX_POW = 5, ident_index = Map.empty\<rparr> 20 = Inr (mem, s1) \<and>
    16 dvd unat mem \<and> kfree s1 mem = Inr s2"
proof -
  obtain s0 k where s0: "kmm_cache_init (example_state [0x9000]) 0x2000 0x500 (kmalloc_obj_size 5) 16 0 NULL NULL = Inr s0"
    "ALLOC_PAGE_FN s0 = pop_page" "kmm_pages s0 = [0x9000]"
    "serves \<lparr>kma_kmm = s0, KMALLOC_CACHES = [0x2000], LOW_POW = 5, MAX_POW = 5, ident_index = Map.empty\<rparr> 20 0 k (\<lambda>_. [])"
    by (rule example_kmalloc)
  have pg: "ALLOC_PAGE_FN s0 (kmm_pages s0) = Inr (0x9000, [])" using s0(2,3) by (simp add: pop_page_def)
  have "new_page 0x2000 (\<lambda>_. []) 0x9000" using example_page by (simp add: new_page_iff slab_pages_def slab_set_def)
  then show ?thesis using kmalloc_kfree [OF s0(4), of "0x9000" "[]"] pg s0(1) by auto
qed

text \<open>A request that is too large for the last cache gets NULL, but the largest size of all wraps around and is served
  like the size 0.\<close>

lemma kmalloc_too_large:
  assumes "2 ^ unat (MAX_POW s) < unat sz + 1" and "unat sz + 1 < 2 ^ 32" and "unat (LOW_POW s) \<le> unat (MAX_POW s)"
    and "unat (MAX_POW s) < 31"
  shows "kmalloc s sz = Inr (NULL, s)"
proof -
  have u: "unat (sz + 1) = unat sz + 1" using assms(2) by (subst unat_add32) simp_all
  then have "0 < sz + 1" by (simp add: word_less_nat_alt)
  then obtain l where l: "log2_ceil (sz + 1) = Inr l" "unat l \<le> 32" "unat sz + 1 \<le> 2 ^ unat l"
    using log2_ceil_ok [of "sz + 1"] unfolding u by blast
  have "(2 :: nat) ^ unat (MAX_POW s) < 2 ^ unat l" using l(3) assms(1) by linarith
  then have g: "unat (MAX_POW s) < unat l" by simp
  have c: "unat (ucast l :: u8) = unat l" using l(2) by (simp add: unsigned_ucast_eq take_bit_eq_mod)
  have p: "unat (POWERS s) = unat (MAX_POW s) - unat (LOW_POW s) + 1"
    using assms(3,4) unfolding POWERS_def by (simp add: unat_word_ariths unat_sub_if' unsigned_ucast_eq take_bit_eq_mod)
  have nl: "\<not> (ucast l :: u8) < LOW_POW s" using g c assms(3) by (simp add: word_less_nat_alt)
  have "unat (ucast ((ucast l :: u8) - LOW_POW s) :: u32) = unat l - unat (LOW_POW s)"
    using nl c by (simp add: unsigned_ucast_eq take_bit_eq_mod unat_sub_if' not_less word_le_nat_alt)
  then have "POWERS s \<le> ucast ((ucast l :: u8) - LOW_POW s)" using g p assms(3) by (simp add: word_le_nat_alt)
  then show ?thesis using nl by (simp add: kmalloc_def l(1) Let_def)
qed

lemma kmalloc_wraps: "kmalloc s (- 1) = kmalloc s 0"
  by (simp add: kmalloc_def log2_ceil_def)

end
