(* ===== verification/Dev.thy ===== *)
theory Dev
  imports Vm Page_Fault Resources
begin

text \<open>
  kernel/kernel/mm/dev.c: memory of devices. An area of the kernel's space is cut into regions, a list in the order
  of their addresses; a region is free or holds a resource. The union of the state and the resource of a region is one
  word, of which the state is the first byte (\<open>-fshort-enums\<close>). \<open>dev_memory\<close> is what an object of the cache holds
  there before it is written. The areas are those of the page allocator's state, \<open>mm_vm\<close>.
\<close>

section \<open>Operations\<close>

record region =
  page_vaddr :: addr
  rg_length :: size_t
  rg_resource :: u32

record 'p dev_state =
  dev_mmu :: mmu
  dev_mm :: mm_state
  dev_kmm :: "'p kmm_state"
  dev_areas_cache :: addr
  dev_res :: res_state
  dev_regions :: "addr \<rightharpoonup> region"
  dev_links :: slist_heap
  dev_memory :: "addr \<Rightarrow> u32"
  REGIONS_CACHE :: addr
  KDEV_AREA :: addr

abbreviation sizeof_region :: size_t where "sizeof_region \<equiv> 16"

definition DEV_AREA_FLAGS :: u8 where "DEV_AREA_FLAGS = VM_CACHE_OFF OR VM_WRITE"
definition CONF_DEV_MAX_AREA_SIZE :: size_t where "CONF_DEV_MAX_AREA_SIZE = 32 * 1024 * 1024"
definition REGION_RES_STATE_FREE :: u8 where "REGION_RES_STATE_FREE = 0"

definition region_link :: "addr \<Rightarrow> addr" where "region_link r = r + 12"
definition region_of :: "addr \<Rightarrow> addr" where "region_of l = l - 12"
definition region_state :: "u32 \<Rightarrow> u8" where "region_state u = ucast u"
definition set_state_byte :: "u32 \<Rightarrow> u8 \<Rightarrow> u32" where "set_state_byte u b = (u AND NOT 0xFF) OR ucast b"

definition region_at :: "'p dev_state \<Rightarrow> addr \<Rightarrow> region kres" where
  "region_at s r = (case dev_regions s r of None \<Rightarrow> Inl Undef | Some x \<Rightarrow> Inr x)"

definition put_region :: "'p dev_state \<Rightarrow> addr \<Rightarrow> region \<Rightarrow> 'p dev_state" where
  "put_region s r x = s\<lparr>dev_regions := (dev_regions s)(r \<mapsto> x)\<rparr>"

definition put_state :: "'p dev_state \<Rightarrow> addr \<Rightarrow> u8 \<Rightarrow> 'p dev_state kres" where
  "put_state s r b = kbind (region_at s r) (\<lambda>x. Inr (put_region s r (x\<lparr>rg_resource := set_state_byte (rg_resource x) b\<rparr>)))"

definition on_regions :: "'p dev_state \<Rightarrow> (slist_heap \<Rightarrow> slist_heap kres) \<Rightarrow> 'p dev_state kres" where
  "on_regions s f = kbind (f (dev_links s)) (\<lambda>h. Inr (s\<lparr>dev_links := h\<rparr>))"

definition region_cache_free :: "'p dev_state \<Rightarrow> addr \<Rightarrow> 'p dev_state kres" where
  "region_cache_free s r = kbind (kmm_cache_free (dev_kmm s) (REGIONS_CACHE s) r) (\<lambda>k. Inr (s\<lparr>dev_kmm := k\<rparr>))"

definition dev_init :: "'p dev_state \<Rightarrow> addr \<Rightarrow> 'p dev_state kres" where
  "dev_init s name =
     kbind (kmm_cache_init (dev_kmm s) (REGIONS_CACHE s) name sizeof_region 0 0 NULL NULL) (\<lambda>k. Inr (s\<lparr>dev_kmm := k\<rparr>))"



definition dev_area :: "'p dev_state \<Rightarrow> addr \<Rightarrow> vm_area kres" where
  "dev_area s area = area_at (vm_areas (mm_vm (dev_mm s))) area"


text \<open>A region that is found is joined with the free region before it and with the one behind it. The region that is
  given back to the cache is the same one in both cases, as it is in the code.\<close>

definition join_last :: "'p dev_state \<Rightarrow> addr \<Rightarrow> addr \<Rightarrow> (addr \<times> 'p dev_state) kres" where
  "join_last s prev r =
     kdefined (prev \<noteq> NULL)
     (kbind (region_at s prev) (\<lambda>l.
      if region_state (rg_resource l) = REGION_RES_STATE_FREE
      then kbind (region_at s r) (\<lambda>x.
        kbind (on_regions (put_region s prev (l\<lparr>rg_length := rg_length l + rg_length x\<rparr>))
          (\<lambda>h. slist_remove_next h (region_link prev))) (\<lambda>s.
        kbind (region_cache_free s r) (\<lambda>s. Inr (prev, s))))
      else Inr (r, s)))"

definition join_next :: "'p dev_state \<Rightarrow> addr \<Rightarrow> 'p dev_state kres" where
  "join_next s r =
     kbind (slist_next (dev_links s) (region_link r)) (\<lambda>next_ref.
     if next_ref = NULL then Inr s
     else kbind (region_at s (region_of next_ref)) (\<lambda>n.
       if region_state (rg_resource n) = REGION_RES_STATE_FREE
       then kbind (region_at s r) (\<lambda>x.
         kbind (on_regions (put_region s r (x\<lparr>rg_length := rg_length x + rg_length n\<rparr>))
           (\<lambda>h. slist_remove_next h (region_link r))) (\<lambda>s. region_cache_free s r))
       else Inr s))"

fun free_region_loop :: "nat \<Rightarrow> 'p dev_state \<Rightarrow> addr \<Rightarrow> addr \<Rightarrow> addr \<Rightarrow> ((addr \<times> size_t) \<times> 'p dev_state) kres" where
  "free_region_loop 0 s prev it res = Inl Fuel"
| "free_region_loop (Suc fuel) s prev it res =
     (if it = NULL then Inl Panic
      else let r = region_of it in
        kbind (region_at s r) (\<lambda>x.
        if rg_resource x = res
        then kbind (put_state s r REGION_RES_STATE_FREE) (\<lambda>s.
          kbind (join_last s prev r) (\<lambda>(r, s).
          kbind (region_at s r) (\<lambda>x.
          kbind (join_next s r) (\<lambda>s. Inr ((page_vaddr x, rg_length x), s)))))
        else kbind (slist_next (dev_links s) it) (\<lambda>it. free_region_loop fuel s r it res)))"

definition free_region_for :: "'p dev_state \<Rightarrow> addr \<Rightarrow> addr \<Rightarrow> ((addr \<times> size_t) \<times> 'p dev_state) kres" where
  "free_region_for s area res = kbind (dev_area s area) (\<lambda>a. free_region_loop addr_fuel s NULL (va_data a) res)"

definition area_root :: "'p dev_state \<Rightarrow> vm_area \<Rightarrow> addr kres" where
  "area_root s a = kbind (space_at (mm_vm (dev_mm s)) (va_owner a)) (\<lambda>sp. Inr (vs_root_dir sp))"


function unmap_pages :: "'p dev_state \<Rightarrow> addr \<Rightarrow> addr \<Rightarrow> size_t \<Rightarrow> size_t \<Rightarrow> 'p dev_state kres" where
  "unmap_pages s root reg_base pages i =
     (if i < pages
      then kbind (vm_arch_pt_unmap (dev_mmu s) root (reg_base + i * PLATFORM_PAGE_SIZE))
        (\<lambda>m. unmap_pages (s\<lparr>dev_mmu := m\<rparr>) root reg_base pages (i + 1))
      else Inr s)"
  by pat_completeness auto
termination
  by (relation "measure (\<lambda>(s, root, b, pages, i). unat pages - unat i)") (use size_t_loop_measure in force)+




definition unregister_resource :: "'p dev_state \<Rightarrow> addr \<Rightarrow> addr \<Rightarrow> 'p dev_state kres" where
  "unregister_resource s area res =
     kbind (free_region_for s area res) (\<lambda>((reg_base, reg_len), s).
     kbind (dev_area s area) (\<lambda>a. kbind (area_root s a) (\<lambda>root.
       unmap_pages s root reg_base (div_ceil reg_len PLATFORM_PAGE_SIZE) 0)))"

text \<open>The addresses of the functions in the operations of the area, and what a call of them does.\<close>

definition DEV_AREA_OPS :: vm_area_ops where
  "DEV_AREA_OPS = \<lparr>handle_pg_fault = 1, register_map = 2, unregister_map = 3\<rparr>"


definition call_unregister :: "addr \<Rightarrow> 'p dev_state \<Rightarrow> addr \<Rightarrow> addr \<Rightarrow> 'p dev_state kres" where
  "call_unregister f s area d = (if f = unregister_map DEV_AREA_OPS then unregister_resource s area d else Inl Undef)"

definition dev_vm :: "'p dev_state \<Rightarrow> 'p vm_state" where
  "dev_vm s = \<lparr>vm_objs = mm_vm (dev_mm s), vm_kmm = dev_kmm s, AREAS_CACHE = dev_areas_cache s\<rparr>"

definition put_vm :: "'p dev_state \<Rightarrow> 'p vm_state \<Rightarrow> 'p dev_state" where
  "put_vm s v = s\<lparr>dev_mm := (dev_mm s)\<lparr>mm_vm := vm_objs v\<rparr>, dev_kmm := vm_kmm v\<rparr>"

definition put_area :: "'p dev_state \<Rightarrow> addr \<Rightarrow> vm_area \<Rightarrow> 'p dev_state" where
  "put_area s area a = s\<lparr>dev_mm := (dev_mm s)\<lparr>mm_vm := (mm_vm (dev_mm s))\<lparr>vm_areas := (vm_areas (mm_vm (dev_mm s)))(area \<mapsto> a)\<rparr>\<rparr>\<rparr>"

definition dev_area_new :: "'p dev_state \<Rightarrow> addr \<Rightarrow> size_t \<Rightarrow> (addr \<times> 'p dev_state) kres" where
  "dev_area_new s owner min_len =
     kbind (vm_new_area_within_space (dev_vm s) owner min_len CONF_DEV_MAX_AREA_SIZE) (\<lambda>(area, v).
     let s = put_vm s v in
     if area = NULL then Inr (NULL, s)
     else kbind (dev_area s area) (\<lambda>a.
       let a = a\<lparr>va_flags := va_flags a OR DEV_AREA_FLAGS, va_ops := DEV_AREA_OPS\<rparr>; s = put_area s area a in
       kbind (kmm_cache_alloc (dev_kmm s) (REGIONS_CACHE s)) (\<lambda>(m, k).
       let s = s\<lparr>dev_kmm := k\<rparr> in
       if m = NULL then Inr (NULL, s)
       else kbind (on_regions s (\<lambda>h. slist_init (h(region_link m \<mapsto> NULL)) (region_link m))) (\<lambda>s.
         let s = put_region s m \<lparr>page_vaddr = va_base a, rg_length = va_length a, rg_resource = dev_memory s m\<rparr> in
         kbind (put_state s m REGION_RES_STATE_FREE) (\<lambda>s.
           Inr (area, put_area s area (a\<lparr>va_data := region_link m\<rparr>)))))))"

definition kdev_init :: "'p dev_state \<Rightarrow> addr \<Rightarrow> 'p dev_state kres" where
  "kdev_init s kernel_space =
     kassert (kernel_space \<noteq> NULL)
     (kbind (dev_area_new s kernel_space CONF_DEV_MAX_AREA_SIZE) (\<lambda>(area, s).
      kassert (area \<noteq> NULL) (Inr (s\<lparr>KDEV_AREA := area\<rparr>))))"


definition kdev_unmap_resource :: "'p dev_state \<Rightarrow> addr \<Rightarrow> 'p dev_state kres" where
  "kdev_unmap_resource s v =
     vm_area_unregister_map call_unregister (vm_areas (mm_vm (dev_mm s))) s (KDEV_AREA s) v"

section \<open>The list of regions\<close>

lemma region_of_link [simp]: "region_of (region_link r) = r"
  by (simp add: region_of_def region_link_def)

lemma region_link_eq [simp]: "region_link a = region_link b \<longleftrightarrow> a = b"
  by (simp add: region_link_def)

lemma region_fields [simp]:
  "dev_links (put_region s r x) = dev_links s" "dev_regions (put_region s r x) = (dev_regions s)(r \<mapsto> x)"
  "dev_mmu (put_region s r x) = dev_mmu s" "dev_mm (put_region s r x) = dev_mm s" "dev_kmm (put_region s r x) = dev_kmm s"
  "dev_res (put_region s r x) = dev_res s" "REGIONS_CACHE (put_region s r x) = REGIONS_CACHE s"
  "KDEV_AREA (put_region s r x) = KDEV_AREA s" "dev_memory (put_region s r x) = dev_memory s"
  by (simp_all add: put_region_def)


lemma state_byte [simp]: "region_state (set_state_byte u b) = b"
proof -
  have m: "0xFF = (mask 8 :: u32)" by code_simp
  show ?thesis unfolding region_state_def set_state_byte_def m
    by (rule bit_word_eqI) (simp add: bit_simps)
qed

definition regions_rep :: "'p dev_state \<Rightarrow> addr list \<Rightarrow> bool" where
  "regions_rep s rs \<longleftrightarrow> rs \<noteq> [] \<and> slist_rep (dev_links s) (region_link (hd rs)) (map region_link (tl rs)) \<and>
     (\<forall>r \<in> set rs. r \<noteq> NULL \<and> dev_regions s r \<noteq> None)"


lemma regions_repD:
  assumes "regions_rep s (us @ r # vs)"
  shows "region_at s r = Inr (the (dev_regions s r))" "r \<noteq> NULL \<and> region_link r \<noteq> NULL" "distinct (us @ r # vs)"
    "slist_next (dev_links s) (region_link r) = Inr (hd (map region_link vs @ [NULL]))"
proof -
  let ?rs = "us @ r # vs"
  show "region_at s r = Inr (the (dev_regions s r))" using assms by (force simp: regions_rep_def region_at_def)
  have rep: "slist_rep (dev_links s) (region_link (hd ?rs)) (map region_link (tl ?rs))"
    using assms by (simp add: regions_rep_def)
  have all: "region_link (hd ?rs) # map region_link (tl ?rs) = map region_link ?rs" by (cases us) simp_all
  show "r \<noteq> NULL \<and> region_link r \<noteq> NULL" using slist_repD(5) [OF rep] assms unfolding all by (auto simp: regions_rep_def)
  show "distinct ?rs" using slist_repD(4) [OF rep] unfolding all by (simp only: distinct_map)
  have sp: "map region_link (tl ?rs) = map region_link (tl (us @ [r])) @ map region_link vs" by (cases us) simp_all
  have la: "last (region_link (hd ?rs) # map region_link (tl (us @ [r]))) = region_link r"
    by (cases us) (simp_all add: last_map)
  show "slist_next (dev_links s) (region_link r) = Inr (hd (map region_link vs @ [NULL]))"
    using slist_next_rep [OF rep [unfolded sp]] unfolding la .
qed

lemma regions_rep_length: "regions_rep s rs \<Longrightarrow> length rs < addr_fuel"
proof -
  assume h: "regions_rep s rs"
  then have rep: "slist_rep (dev_links s) (region_link (hd rs)) (map region_link (tl rs))" by (simp add: regions_rep_def)
  have "length (NULL # region_link (hd rs) # map region_link (tl rs)) \<le> addr_fuel"
    using slist_repD(4,5) [OF rep] by (intro distinct_addr_length) simp
  then show ?thesis using h by (cases rs) (simp_all add: regions_rep_def)
qed

section \<open>Reserving a region\<close>











section \<open>The regions tile the area\<close>





section \<open>Mapping a run of pages\<close>





lemma same_mm [simp]: "s\<lparr>dev_mmu := m, dev_mm := dev_mm s\<rparr> = s\<lparr>dev_mmu := m\<rparr>"
  by simp


section \<open>Properties\<close>

text \<open>The device area is set up, its regions are the list \<open>rs\<close>, and \<open>root\<close> is the page directory of its space.\<close>

definition kdev_ready :: "'p dev_state \<Rightarrow> addr list \<Rightarrow> vm_area \<Rightarrow> addr \<Rightarrow> bool" where
  "kdev_ready s rs a root \<longleftrightarrow> KDEV_AREA s \<noteq> NULL \<and> dev_area s (KDEV_AREA s) = Inr a \<and> va_ops a = DEV_AREA_OPS \<and>
     va_data a = region_link (hd rs) \<and> regions_rep s rs \<and> area_root s a = Inr root"


text \<open>A device area at 0x100000 of two pages, the first of which is taken, and a buffer of less than a page.\<close>

definition example_dev :: "addr list dev_state" where
  "example_dev = \<lparr>dev_mmu = example_mmu, dev_mm = boot_state\<lparr>mm_vm :=
       \<lparr>vm_areas = [0x200 \<mapsto> (example_area 0x100000 0x2000)\<lparr>va_ops := DEV_AREA_OPS, va_data := 0x40C\<rparr>],
        vm_nodes = Map.empty, vm_links = Map.empty,
        vm_spaces = [0x100 \<mapsto> \<lparr>vs_root_dir = 0x3000, vs_offset = 0xC0000000, vs_rb_areas = NULL\<rparr>]\<rparr>\<rparr>,
     dev_kmm = example_state [], dev_areas_cache = 0x2000,
     dev_res = example_registry\<lparr>res_objects := [0x1000 \<mapsto> \<lparr>rs_device_id = 0x30, rs_resource_id = 0x10, rs_owner = 0,
       rs_type = RESOURCE_TYPE_DEV_BUFFER, rs_base = 0xB8000, rs_len = 0x800\<rparr>]\<rparr>,
     dev_regions = [0x400 \<mapsto> \<lparr>page_vaddr = 0x100000, rg_length = 0x1000, rg_resource = 0x1701\<rparr>,
       0x500 \<mapsto> \<lparr>page_vaddr = 0x101000, rg_length = 0x1000, rg_resource = 0\<rparr>],
     dev_links = [0x40C \<mapsto> 0x50C, 0x50C \<mapsto> NULL], dev_memory = (\<lambda>_. 0), REGIONS_CACHE = 0x2000, KDEV_AREA = 0x200\<rparr>"

lemma example_dev_ready:
  "kdev_ready example_dev ([0x400] @ 0x500 # []) ((example_area 0x100000 0x2000)\<lparr>va_ops := DEV_AREA_OPS, va_data := 0x40C\<rparr>) 0x3000"
  by (simp add: kdev_ready_def example_dev_def dev_area_def area_at_def region_link_def regions_rep_def slist_rep_def
      area_root_def space_at_def example_area_def)


section \<open>Giving a region back\<close>

lemma free_region_absent:
  assumes "regions_rep s (us @ vs)" and "\<forall>r \<in> set vs. rg_resource (the (dev_regions s r)) \<noteq> res" and "length vs < fuel"
  shows "free_region_loop fuel s last_r (hd (map region_link vs @ [NULL])) res = Inl Panic"
  using assms
proof (induction vs arbitrary: us fuel last_r)
  case Nil
  then show ?case by (cases fuel) simp_all
next
  case (Cons r vs)
  obtain f where f: "fuel = Suc f" "length vs < f" using Cons.prems(3) by (cases fuel) auto
  note d = regions_repD [OF Cons.prems(1)]
  show ?case using Cons.IH [of "us @ [r]" f r] Cons.prems(1,2) f(2) d(1,2,4) by (simp add: f(1))
qed

text \<open>No mapping of the device area can be undone. \<open>kdev_unmap_resource\<close> takes an address and hands it on where a
  resource is expected: with an address that is not that of a resource the kernel panics. With the resource in place
  of the address, the first region of the area is still not given back: there is no region before it, and the code
  reads its state through a null pointer.\<close>

theorem kdev_unmap_resource_fails:
  assumes "kdev_ready s (r # vs) a root"
  shows "((\<forall>u \<in> set (r # vs). rg_resource (the (dev_regions s u)) \<noteq> v) \<longrightarrow> kdev_unmap_resource s v = Inl Panic) \<and>
    (rg_resource (the (dev_regions s r)) = v \<longrightarrow> kdev_unmap_resource s v = Inl Undef)"
proof (intro conjI)
  have h: "KDEV_AREA s \<noteq> NULL" "dev_area s (KDEV_AREA s) = Inr a" "va_ops a = DEV_AREA_OPS"
    "va_data a = region_link r" "regions_rep s (r # vs)" using assms by (simp_all add: kdev_ready_def)
  note d = regions_repD [of s "[]" r vs, simplified, OF h(5)]
  have u: "kdev_unmap_resource s v = unregister_resource s (KDEV_AREA s) v"
    using h(1-3) by (simp add: kdev_unmap_resource_def vm_area_unregister_map_def call_unregister_def dev_area_def DEV_AREA_OPS_def)
  show "(\<forall>u \<in> set (r # vs). rg_resource (the (dev_regions s u)) \<noteq> v) \<longrightarrow> kdev_unmap_resource s v = Inl Panic"
    using free_region_absent [of s "[]" "r # vs" v addr_fuel NULL] h regions_rep_length [OF h(5)]
    by (auto simp: u unregister_resource_def free_region_for_def)
  obtain f where f: "addr_fuel = Suc f" by (rule addr_fuel_Suc)
  show "rg_resource (the (dev_regions s r)) = v \<longrightarrow> kdev_unmap_resource s v = Inl Undef"
    using h(2,4) d(1,2) by (simp add: u unregister_resource_def free_region_for_def put_state_def join_last_def kdefined_def f)
qed

theorem kdev_unmap_resource_fails_witness:
  "kdev_unmap_resource example_dev 0x101000 = Inl Panic \<and> kdev_unmap_resource example_dev 0x1701 = Inl Undef"
proof -
  have "the (dev_regions example_dev 0x400) = \<lparr>page_vaddr = 0x100000, rg_length = 0x1000, rg_resource = 0x1701\<rparr>"
    "the (dev_regions example_dev 0x500) = \<lparr>page_vaddr = 0x101000, rg_length = 0x1000, rg_resource = 0\<rparr>"
    by (simp_all add: example_dev_def)
  then show ?thesis
    using kdev_unmap_resource_fails [OF example_dev_ready [unfolded append_Cons append_Nil], of "0x101000"]
      kdev_unmap_resource_fails [OF example_dev_ready [unfolded append_Cons append_Nil], of "0x1701"] by simp
qed

end
