(* ===== verification/Kheap.thy ===== *)
theory Kheap
  imports Vm Page_Fault
begin

text \<open>
  kernel/kernel/kheap.c: the kernel's heap gives the slab allocator its pages. A chunk is an area of the kernel's space
  with a buddy manager that knows which of its pages are in use; a page gets memory when it is first touched. The areas
  are those of the page allocator's state, \<open>mm_vm\<close>. The heap calls the slab allocator, which calls the heap for its
  pages, so what such a call does to the whole state is a parameter, \<open>heap_calls\<close>; \<open>kh_rest\<close> is for its state.
\<close>

section \<open>Searching the gaps with a predicate that keeps a state\<close>

text \<open>\<open>vm_space_find_gap\<close> again, for the one caller whose predicate remembers what it saw.\<close>

fun visit_gaps_loop :: "nat \<Rightarrow> vm_mem \<Rightarrow> (addr \<Rightarrow> size_t \<Rightarrow> 's \<Rightarrow> bool \<times> 's) \<Rightarrow> addr \<Rightarrow> addr \<Rightarrow> 's \<Rightarrow>
    ((addr \<times> size_t) option \<times> addr \<times> 's) kres" where
  "visit_gaps_loop 0 m pred it next_after d = Inl Fuel"
| "visit_gaps_loop (Suc fuel) m pred it next_after d =
     (if it = NULL then Inr (None, next_after, d)
      else kbind (area_at (vm_areas m) (link_area it)) (\<lambda>a.
        let current_base = next_after; current_length = va_base a - current_base in
        kassert (check_align current_base PLATFORM_PAGE_SIZE)
        (kassert (check_align current_length PLATFORM_PAGE_SIZE)
        (let (stop, d) = pred current_base current_length d in
         if stop then Inr (Some (current_base, current_length), next_after, d)
         else kbind (slist_next (vm_links m) it) (\<lambda>it.
           visit_gaps_loop fuel m pred it (va_base a + va_length a) d)))))"

definition vm_space_visit_gaps :: "vm_mem \<Rightarrow> addr \<Rightarrow> (addr \<Rightarrow> size_t \<Rightarrow> 's \<Rightarrow> bool \<times> 's) \<Rightarrow> 's \<Rightarrow> ((addr \<times> size_t) \<times> 's) kres" where
  "vm_space_visit_gaps m space pred d =
     kassert (space \<noteq> NULL)
     (kbind (space_at m space) (\<lambda>vs.
      kbind (slist_next (vm_links m) (space_head space)) (\<lambda>it.
      kbind (visit_gaps_loop addr_fuel m pred it (vs_offset vs) d) (\<lambda>(hit, next_after, d).
      case hit of Some g \<Rightarrow> Inr (g, d)
      | None \<Rightarrow> let length_til_space_end = LAST_AVAILABLE_ADDR - next_after + 1; (stop, d) = pred next_after length_til_space_end d in
          Inr (if stop then (next_after, length_til_space_end) else (NULL, 0), d)))))"

section \<open>Operations\<close>

record chunk_data =
  cd_owner :: addr
  free_space :: size_t
  buddy :: buddy_manager
  buddy_alloc_mem :: linear_alloc

record 'r kheap_state =
  kh_mmu :: mmu
  kh_mm :: mm_state
  chunks :: "addr \<rightharpoonup> chunk_data"
  chunk_links :: slist_heap
  head_list :: addr
  heap_free_space :: size_t
  VMSPACE :: addr
  CHUNK_FIRST :: addr
  FIRST_CHUNK_DATA :: addr
  CHUNK_DATA_CACHE :: addr
  kh_memory :: "addr \<Rightarrow> u32"
  kh_rest :: 'r

record 'r heap_calls =
  call_cache_init :: "'r kheap_state \<Rightarrow> addr \<Rightarrow> size_t \<Rightarrow> 'r kheap_state kres"
  call_cache_alloc :: "'r kheap_state \<Rightarrow> addr \<Rightarrow> (addr \<times> 'r kheap_state) kres"
  call_cache_free :: "'r kheap_state \<Rightarrow> addr \<Rightarrow> addr \<Rightarrow> 'r kheap_state kres"
  call_trim_all :: "'r kheap_state \<Rightarrow> 'r kheap_state kres"
  call_kmalloc :: "'r kheap_state \<Rightarrow> size_t \<Rightarrow> (addr \<times> 'r kheap_state) kres"
  call_new_area :: "'r kheap_state \<Rightarrow> addr \<Rightarrow> size_t \<Rightarrow> size_t \<Rightarrow> (addr \<times> 'r kheap_state) kres"
  call_free_area :: "'r kheap_state \<Rightarrow> addr \<Rightarrow> 'r kheap_state kres"

abbreviation sizeof_chunk_data :: size_t where "sizeof_chunk_data \<equiv> 36"

definition HEAP_VM_FLAGS :: u8 where "HEAP_VM_FLAGS = VM_WRITE"
definition CHUNK_AREA_MIN_SPACE :: size_t where "CHUNK_AREA_MIN_SPACE = 2 * PLATFORM_PAGE_SIZE"
definition CONF_HEAP_MAX_CHUNK_SIZE :: size_t where "CONF_HEAP_MAX_CHUNK_SIZE = 32 * 1024 * 1024"

definition heap_area :: "'r kheap_state \<Rightarrow> addr \<Rightarrow> vm_area kres" where
  "heap_area s area = area_at (vm_areas (mm_vm (kh_mm s))) area"

definition heap_root :: "'r kheap_state \<Rightarrow> vm_area \<Rightarrow> addr kres" where
  "heap_root s a = kbind (space_at (mm_vm (kh_mm s)) (va_owner a)) (\<lambda>sp. Inr (vs_root_dir sp))"

definition chunk_at :: "'r kheap_state \<Rightarrow> addr \<Rightarrow> chunk_data kres" where
  "chunk_at s d = (case chunks s d of None \<Rightarrow> Inl Undef | Some c \<Rightarrow> Inr c)"

definition put_chunk :: "'r kheap_state \<Rightarrow> addr \<Rightarrow> chunk_data \<Rightarrow> 'r kheap_state" where
  "put_chunk s d c = s\<lparr>chunks := (chunks s)(d \<mapsto> c)\<rparr>"

definition put_vm_objs :: "'r kheap_state \<Rightarrow> vm_mem \<Rightarrow> 'r kheap_state" where
  "put_vm_objs s m = s\<lparr>kh_mm := (kh_mm s)\<lparr>mm_vm := m\<rparr>\<rparr>"

definition put_heap_area :: "'r kheap_state \<Rightarrow> addr \<Rightarrow> vm_area \<Rightarrow> 'r kheap_state" where
  "put_heap_area s area a = put_vm_objs s ((mm_vm (kh_mm s))\<lparr>vm_areas := (vm_areas (mm_vm (kh_mm s)))(area \<mapsto> a)\<rparr>)"

definition on_chunk_links :: "'r kheap_state \<Rightarrow> (slist_heap \<Rightarrow> slist_heap kres) \<Rightarrow> 'r kheap_state kres" where
  "on_chunk_links s f = kbind (f (chunk_links s)) (\<lambda>h. Inr (s\<lparr>chunk_links := h\<rparr>))"

definition area_page_ndx :: "vm_area \<Rightarrow> addr \<Rightarrow> size_t option" where
  "area_page_ndx a wanted =
     (let area_start = va_base a; area_end = area_start + va_length a - 1 in
      if wanted < area_start \<or> wanted > area_end then None
      else Some ((wanted - area_start) div PLATFORM_PAGE_SIZE))"

definition is_registered_page :: "'r kheap_state \<Rightarrow> addr \<Rightarrow> addr \<Rightarrow> bool kres" where
  "is_registered_page s area page =
     kassert (area \<noteq> NULL)
     (kbind (heap_area s area) (\<lambda>a. kassert (va_data a \<noteq> NULL)
     (case area_page_ndx a page of None \<Rightarrow> Inr False
      | Some pg_ndx \<Rightarrow> kbind (chunk_at s (va_data a)) (\<lambda>d. buddy_is_free (buddy d) pg_ndx))))"

definition page_address :: "mm_state \<Rightarrow> page_ref \<Rightarrow> addr kres" where
  "page_address mm p = kbind (zone_at mm (fst p)) (\<lambda>z. kbind (page_at z (snd p)) (\<lambda>pg. Inr (mp_paddr pg)))"

definition fault_page :: "'r heap_calls \<Rightarrow> 'r kheap_state \<Rightarrow> (page_ref \<times> 'r kheap_state) kres" where
  "fault_page calls s =
     kbind (mm_alloc_page (kh_mm s)) (\<lambda>(page, mm).
     let s = s\<lparr>kh_mm := mm\<rparr> in
     case page of Some p \<Rightarrow> Inr (p, s)
     | None \<Rightarrow> kbind (call_trim_all calls s) (\<lambda>s.
         kbind (mm_alloc_page (kh_mm s)) (\<lambda>(page, mm).
         case page of Some p \<Rightarrow> Inr (p, s\<lparr>kh_mm := mm\<rparr>) | None \<Rightarrow> Inl Panic)))"

definition chunk_pgfault_handler :: "'r heap_calls \<Rightarrow> 'r kheap_state \<Rightarrow> addr \<Rightarrow> addr \<Rightarrow> 'r kheap_state kres" where
  "chunk_pgfault_handler calls s area fault_addr =
     (let page_addr = align_rounddown fault_addr PLATFORM_PAGE_SIZE in
      kbind (is_registered_page s area page_addr) (\<lambda>r.
      if r then vm_pgfault_handle_panic
      else kbind (fault_page calls s) (\<lambda>(page, s).
        kbind (heap_area s area) (\<lambda>a. kbind (heap_root s a) (\<lambda>root.
        kbind (page_address (kh_mm s) page) (\<lambda>paddr.
        kbind (vm_arch_pt_map (kh_mmu s) (kh_mm s) root paddr page_addr (va_flags a)) (\<lambda>(m, mm).
          Inr (s\<lparr>kh_mmu := m, kh_mm := mm\<rparr>))))))))"

definition chunk_register_page :: "'r kheap_state \<Rightarrow> addr \<Rightarrow> addr \<Rightarrow> (addr \<times> 'r kheap_state) kres" where
  "chunk_register_page s chunk page_addr =
     kassert (chunk \<noteq> NULL)
     (kbind (heap_area s chunk) (\<lambda>a.
      let d = va_data a; area_start = va_base a;
          ndx = (if page_addr \<noteq> NULL then area_page_ndx a page_addr else Some 0) in
      case ndx of None \<Rightarrow> Inr (NULL, s)
      | Some ndx \<Rightarrow>
          kbind (chunk_at s d) (\<lambda>c.
          kbind (if page_addr \<noteq> NULL
            then kbind (buddy_try_alloc (buddy c) 0 ndx) (\<lambda>(done, b). Inr (if done then Some ndx else None, b))
            else buddy_alloc (buddy c) 0) (\<lambda>(r, b).
          case r of None \<Rightarrow> Inr (NULL, put_chunk s d (c\<lparr>buddy := b\<rparr>))
          | Some page_ndx \<Rightarrow>
              Inr (area_start + page_ndx * PLATFORM_PAGE_SIZE,
                put_chunk s d (c\<lparr>buddy := b, free_space := free_space c - PLATFORM_PAGE_SIZE\<rparr>))))))"

definition chunk_unregister_page :: "'r kheap_state \<Rightarrow> addr \<Rightarrow> addr \<Rightarrow> 'r kheap_state kres" where
  "chunk_unregister_page s chunk page_addr =
     kassert (chunk \<noteq> NULL)
     (kbind (heap_area s chunk) (\<lambda>a.
      case area_page_ndx a page_addr of None \<Rightarrow> Inl Panic
      | Some page_ndx \<Rightarrow>
          kbind (chunk_at s (va_data a)) (\<lambda>c.
          kbind (buddy_free (buddy c) page_ndx 0) (\<lambda>b.
          let s = put_chunk s (va_data a) (c\<lparr>free_space := free_space c + PLATFORM_PAGE_SIZE, buddy := b\<rparr>) in
          kbind (heap_root s a) (\<lambda>root.
          kbind (vm_arch_resolve_phys_page (kh_mmu s) root page_addr) (\<lambda>(phys_addr, m).
          kbind (mm_free_page (kh_mm s) phys_addr) (\<lambda>mm. Inr (s\<lparr>kh_mmu := m, kh_mm := mm\<rparr>))))))))"

text \<open>The addresses of the functions in the operations of a chunk, and what a call of them does.\<close>

definition HEAP_OPS :: vm_area_ops where
  "HEAP_OPS = \<lparr>handle_pg_fault = 1, register_map = 2, unregister_map = 3\<rparr>"

definition call_heap_register :: "addr \<Rightarrow> 'r kheap_state \<Rightarrow> addr \<Rightarrow> addr \<Rightarrow> (addr \<times> 'r kheap_state) kres" where
  "call_heap_register f s area d = (if f = register_map HEAP_OPS then chunk_register_page s area d else Inl Undef)"

definition call_heap_unregister :: "addr \<Rightarrow> 'r kheap_state \<Rightarrow> addr \<Rightarrow> addr \<Rightarrow> 'r kheap_state kres" where
  "call_heap_unregister f s area d = (if f = unregister_map HEAP_OPS then chunk_unregister_page s area d else Inl Undef)"

text \<open>Reserving pages of a chunk: a run of them, and those of a range that overlaps the chunk.\<close>

function reserve_pages :: "'r kheap_state \<Rightarrow> addr \<Rightarrow> size_t \<Rightarrow> size_t \<Rightarrow> size_t \<Rightarrow> 'r kheap_state kres" where
  "reserve_pages s d page_ndx pages i =
     (if i < pages
      then kbind (chunk_at s d) (\<lambda>c.
        kbind (buddy_try_alloc (buddy c) 0 (page_ndx + i)) (\<lambda>(done, b).
        if \<not> done then Inl Panic
        else reserve_pages (put_chunk s d (c\<lparr>buddy := b\<rparr>)) d page_ndx pages (i + 1)))
      else Inr s)"
  by pat_completeness auto
termination
  by (relation "measure (\<lambda>(s, d, n, pages, i). unat pages - unat i)") (use size_t_loop_measure in force)+

declare reserve_pages.simps [simp del]

definition preregister_invalid_pages :: "addr \<Rightarrow> addr \<Rightarrow> size_t \<Rightarrow> 'r kheap_state \<Rightarrow> 'r kheap_state kres" where
  "preregister_invalid_pages area inv_start len s =
     kbind (heap_area s area) (\<lambda>a.
     let inv_end = inv_start + len - 1; area_start = va_base a; area_end = area_start + va_length a - 1 in
     if inv_end < area_start \<or> inv_start > area_end then Inr s
     else
       let overlap_start = MAX_u32 area_start inv_start; overlap_end = MIN_u32 area_end inv_end;
           overlap_len = overlap_end - overlap_start + 1 in
       case area_page_ndx a overlap_start of None \<Rightarrow> Inl Panic
       | Some page_ndx \<Rightarrow> reserve_pages s (va_data a) page_ndx (div_ceil overlap_len PLATFORM_PAGE_SIZE) 0)"

definition find_largest :: "addr \<Rightarrow> size_t \<Rightarrow> addr \<times> size_t \<Rightarrow> bool \<times> addr \<times> size_t" where
  "find_largest b len d = (False, if len > snd d then (b, len) else d)"

text \<open>Memory for the first pages of the first chunk, which hold the bitmaps of its buddy manager.\<close>

function map_first_pages :: "'r kheap_state \<Rightarrow> vm_area \<Rightarrow> addr \<Rightarrow> size_t \<Rightarrow> size_t \<Rightarrow> 'r kheap_state kres" where
  "map_first_pages s a root req_pages i =
     (if i < req_pages
      then kbind (mm_alloc_page (kh_mm s)) (\<lambda>(page, mm). case page of None \<Rightarrow> Inl Kassert
        | Some p \<Rightarrow>
            kbind (zone_at mm (fst p)) (\<lambda>z. kbind (set_page_state z (snd p) PAGESTATE_FIXED) (\<lambda>z.
            kbind (page_at z (snd p)) (\<lambda>pg.
            kbind (vm_arch_pt_map (kh_mmu s) (put_zone mm (fst p) z) root (mp_paddr pg) (va_base a + i * PLATFORM_PAGE_SIZE) (va_flags a))
              (\<lambda>(m, mm). map_first_pages (s\<lparr>kh_mmu := m, kh_mm := mm\<rparr>) a root req_pages (i + 1))))))
      else Inr s)"
  by pat_completeness auto
termination
  by (relation "measure (\<lambda>(s, a, root, pages, i). unat pages - unat i)") (use size_t_loop_measure in force)+

declare map_first_pages.simps [simp del]

definition chunk_buddy :: "'r kheap_state \<Rightarrow> addr \<Rightarrow> size_t \<Rightarrow> size_t \<Rightarrow> (buddy_manager \<times> linear_alloc) kres" where
  "chunk_buddy s mem space chunk_pages =
     kbind (linear_alloc_init mem space) (\<lambda>al.
     kbind (buddy_init (kh_memory s) chunk_pages al) (\<lambda>(_, b, al). Inr (b, linear_forbid_further_alloc al)))"

definition init_first_chunk :: "'r kheap_state \<Rightarrow> addr \<Rightarrow> (addr \<times> 'r kheap_state) kres" where
  "init_first_chunk s space =
     (let chunk = CHUNK_FIRST s; d = FIRST_CHUNK_DATA s in
      kbind (vm_space_visit_gaps (mm_vm (kh_mm s)) space find_largest (0, 0)) (\<lambda>(_, max_base, max_length).
      let len = MIN_u32 max_length CONF_HEAP_MAX_CHUNK_SIZE in
      kbind (vm_area_init (mm_vm (kh_mm s)) chunk max_base len space) (\<lambda>m.
      kbind (area_at (vm_areas m) chunk) (\<lambda>a.
      let a = a\<lparr>va_ops := HEAP_OPS, va_flags := va_flags a OR HEAP_VM_FLAGS, va_data := d\<rparr>;
          m = m\<lparr>vm_areas := (vm_areas m)(chunk \<mapsto> a)\<rparr> in
      kbind (vm_space_insert_area m space chunk) (\<lambda>m.
      let s = put_vm_objs s m; chunk_pages = len div PLATFORM_PAGE_SIZE in
      kbind (buddy_predict_req_space chunk_pages) (\<lambda>req_space.
      let req_pages = div_ceil req_space PLATFORM_PAGE_SIZE in
      kbind (on_chunk_links s (\<lambda>h. slist_init (h(d \<mapsto> NULL)) d)) (\<lambda>s.
      kbind (heap_root s a) (\<lambda>root.
      kbind (map_first_pages s a root req_pages 0) (\<lambda>s.
      kbind (chunk_buddy s (va_base a) (req_pages * PLATFORM_PAGE_SIZE) chunk_pages) (\<lambda>(b, al).
      let s = put_chunk s d \<lparr>cd_owner = chunk, free_space = (chunk_pages - req_pages) * PLATFORM_PAGE_SIZE,
            buddy = b, buddy_alloc_mem = al\<rparr> in
      kbind (reserve_pages s d 0 req_pages 0) (\<lambda>s.
      kbind (vm_arch_iter_reserved_vaddresses (preregister_invalid_pages chunk) s) (\<lambda>s. Inr (chunk, s)))))))))))))"

definition new_chunk_data :: "'r heap_calls \<Rightarrow> 'r kheap_state \<Rightarrow> addr \<Rightarrow> addr \<Rightarrow> (addr \<times> 'r kheap_state) kres" where
  "new_chunk_data calls s chunk d =
     kbind (heap_area s chunk) (\<lambda>a.
     let chunk_pages = va_length a div PLATFORM_PAGE_SIZE in
     kbind (buddy_predict_req_space chunk_pages) (\<lambda>buddy_space.
     kbind (call_kmalloc calls s buddy_space) (\<lambda>(buddy_mem, s).
     if buddy_mem = NULL
     then kbind (call_cache_free calls s (CHUNK_DATA_CACHE s) d) (\<lambda>s.
       kbind (call_free_area calls s chunk) (\<lambda>s. Inr (NULL, s)))
     else kbind (chunk_buddy s buddy_mem buddy_space chunk_pages) (\<lambda>(b, al).
       kbind (heap_area s chunk) (\<lambda>a.
       let s = put_chunk s d \<lparr>cd_owner = chunk, free_space = va_length a, buddy = b, buddy_alloc_mem = al\<rparr> in
       kbind (on_chunk_links s (\<lambda>h. slist_init (h(d \<mapsto> NULL)) d)) (\<lambda>s.
       let s = put_heap_area s chunk (a\<lparr>va_data := d, va_ops := HEAP_OPS, va_flags := va_flags a OR HEAP_VM_FLAGS\<rparr>) in
       kbind (vm_arch_iter_reserved_vaddresses (preregister_invalid_pages chunk) s) (\<lambda>s. Inr (chunk, s))))))))"

definition create_new_chunk :: "'r heap_calls \<Rightarrow> 'r kheap_state \<Rightarrow> addr \<Rightarrow> (addr \<times> 'r kheap_state) kres" where
  "create_new_chunk calls s space =
     kbind (call_new_area calls s space CHUNK_AREA_MIN_SPACE CONF_HEAP_MAX_CHUNK_SIZE) (\<lambda>(chunk, s).
     if chunk = NULL then Inr (NULL, s)
     else kbind (call_cache_alloc calls s (CHUNK_DATA_CACHE s)) (\<lambda>(d, s).
       if d = NULL then kbind (call_free_area calls s chunk) (\<lambda>s. Inr (NULL, s))
       else new_chunk_data calls s chunk d))"

fun append_loop :: "nat \<Rightarrow> 'r kheap_state \<Rightarrow> addr \<Rightarrow> addr \<Rightarrow> addr kres" where
  "append_loop 0 s chunk_base current = Inl Fuel"
| "append_loop (Suc fuel) s chunk_base current =
     kbind (slist_next (chunk_links s) current) (\<lambda>nxt.
     if nxt = NULL then Inr current
     else kbind (chunk_at s nxt) (\<lambda>c. kbind (heap_area s (cd_owner c)) (\<lambda>a.
       if chunk_base < va_base a then Inr current else append_loop fuel s chunk_base nxt)))"

definition append_new_chunk :: "'r kheap_state \<Rightarrow> addr \<Rightarrow> 'r kheap_state kres" where
  "append_new_chunk s chunk =
     kbind (heap_area s chunk) (\<lambda>a.
     kbind (append_loop addr_fuel s (va_base a) (head_list s)) (\<lambda>current.
     kbind (on_chunk_links s (\<lambda>h. slist_insert h current (va_data a))) (\<lambda>s.
     kbind (chunk_at s (va_data a)) (\<lambda>c.
       Inr (s\<lparr>heap_free_space := heap_free_space s + free_space c\<rparr>)))))"

definition kheap_init :: "'r heap_calls \<Rightarrow> 'r kheap_state \<Rightarrow> addr \<Rightarrow> 'r kheap_state kres" where
  "kheap_init calls s space =
     kbind (on_chunk_links s (\<lambda>h. slist_init h (head_list s))) (\<lambda>s.
     kbind (call_cache_init calls s (CHUNK_DATA_CACHE s) sizeof_chunk_data) (\<lambda>s.
     kbind (init_first_chunk (s\<lparr>VMSPACE := space\<rparr>) space) (\<lambda>(first, s). append_new_chunk s first)))"

fun find_space_loop :: "nat \<Rightarrow> 'r kheap_state \<Rightarrow> addr \<Rightarrow> addr kres" where
  "find_space_loop 0 s it = Inl Fuel"
| "find_space_loop (Suc fuel) s it =
     (if it = NULL then Inr NULL
      else kbind (chunk_at s it) (\<lambda>c.
        if free_space c > 0 then Inr (cd_owner c)
        else kbind (slist_next (chunk_links s) it) (\<lambda>it. find_space_loop fuel s it)))"

definition kheap_alloc_page :: "'r heap_calls \<Rightarrow> 'r kheap_state \<Rightarrow> (addr \<times> 'r kheap_state) kres" where
  "kheap_alloc_page calls s =
     kbind (if heap_free_space s = PLATFORM_PAGE_SIZE
       then kbind (create_new_chunk calls s (VMSPACE s)) (\<lambda>(chunk, s).
         if chunk = NULL then Inl Panic
         else kbind (append_new_chunk s chunk) (\<lambda>s. Inr (chunk, s)))
       else kassert (heap_free_space s > PLATFORM_PAGE_SIZE)
         (kbind (slist_next (chunk_links s) (head_list s)) (\<lambda>it.
          kbind (find_space_loop addr_fuel s it) (\<lambda>chunk. Inr (chunk, s))))) (\<lambda>(chunk, s).
     kassert (chunk \<noteq> NULL)
     (vm_area_register_map call_heap_register (vm_areas (mm_vm (kh_mm s))) s chunk NULL))"

fun find_origin_loop :: "nat \<Rightarrow> 'r kheap_state \<Rightarrow> addr \<Rightarrow> addr \<Rightarrow> addr kres" where
  "find_origin_loop 0 s page it = Inl Fuel"
| "find_origin_loop (Suc fuel) s page it =
     (if it = NULL then Inr NULL
      else kbind (chunk_at s it) (\<lambda>c. kbind (heap_area s (cd_owner c)) (\<lambda>a.
        if va_base a \<le> page then Inr (cd_owner c)
        else kbind (slist_next (chunk_links s) it) (\<lambda>it. find_origin_loop fuel s page it))))"

definition kheap_free_page :: "'r kheap_state \<Rightarrow> addr \<Rightarrow> 'r kheap_state kres" where
  "kheap_free_page s page =
     kbind (slist_next (chunk_links s) (head_list s)) (\<lambda>it.
     kbind (find_origin_loop addr_fuel s page it) (\<lambda>origin.
     if origin = NULL then Inl Panic
     else kbind (heap_area s origin) (\<lambda>a.
       kassert (va_base a + va_length a - 1 > page)
       (vm_area_unregister_map call_heap_unregister (vm_areas (mm_vm (kh_mm s))) s origin page))))"

end
