(* ===== verification/Kheap_Props.thy ===== *)
theory Kheap_Props
  imports Kheap
begin

text \<open>
  What the heap promises: pages of its chunks that are not in use, while a chunk has one; and what becomes of a page
  that is given back, and of the heap when its chunks are used up.
\<close>

section \<open>The chunks of the heap\<close>

definition free_pages :: "size_t \<Rightarrow> buddy_manager \<Rightarrow> nat set" where
  "free_pages N b = {i. i < unat N \<and> \<not> bitat b 0 i}"

definition chunk_of :: "'r kheap_state \<Rightarrow> addr \<Rightarrow> chunk_data" where
  "chunk_of s d = the (chunks s d)"

definition chunk_area :: "'r kheap_state \<Rightarrow> addr \<Rightarrow> vm_area" where
  "chunk_area s d = the (vm_areas (mm_vm (kh_mm s)) (cd_owner (chunk_of s d)))"

definition chunk_pages :: "'r kheap_state \<Rightarrow> addr \<Rightarrow> size_t" where
  "chunk_pages s d = va_length (chunk_area s d) div PLATFORM_PAGE_SIZE"

text \<open>The count \<open>free_space\<close> is that of the pages that are not in use.\<close>

definition chunk_ok :: "'r kheap_state \<Rightarrow> addr \<Rightarrow> bool" where
  "chunk_ok s d \<longleftrightarrow> d \<noteq> NULL \<and> chunks s d = Some (chunk_of s d) \<and> cd_owner (chunk_of s d) \<noteq> NULL \<and>
     vm_areas (mm_vm (kh_mm s)) (cd_owner (chunk_of s d)) = Some (chunk_area s d) \<and>
     va_data (chunk_area s d) = d \<and> va_ops (chunk_area s d) = HEAP_OPS \<and>
     check_align (va_base (chunk_area s d)) PLATFORM_PAGE_SIZE \<and>
     unat (va_length (chunk_area s d)) = unat (chunk_pages s d) * 4096 \<and>
     unat (va_base (chunk_area s d)) + unat (va_length (chunk_area s d)) \<le> 2 ^ 32 \<and>
     buddy_wf (chunk_pages s d) (buddy (chunk_of s d)) \<and>
     unat (free_space (chunk_of s d)) = card (free_pages (chunk_pages s d) (buddy (chunk_of s d))) * 4096"

definition heap_ok :: "'r kheap_state \<Rightarrow> addr list \<Rightarrow> bool" where
  "heap_ok s ds \<longleftrightarrow> slist_rep (chunk_links s) (head_list s) ds \<and> (\<forall>d \<in> set ds. chunk_ok s d)"

lemma finite_free_pages [simp]: "finite (free_pages N b)"
  by (simp add: free_pages_def)

lemma chunk_at_ok: "chunk_ok s d \<Longrightarrow> chunk_at s d = Inr (chunk_of s d)"
  and heap_area_ok: "chunk_ok s d \<Longrightarrow> heap_area s (cd_owner (chunk_of s d)) = Inr (chunk_area s d)"
  by (simp_all add: chunk_ok_def chunk_at_def heap_area_def area_at_def)

lemma put_chunk_simps [simp]:
  "chunk_of (put_chunk s d c) e = (if e = d then c else chunk_of s e)" "kh_mm (put_chunk s d c) = kh_mm s"
  "kh_mmu (put_chunk s d c) = kh_mmu s" "chunk_links (put_chunk s d c) = chunk_links s" "head_list (put_chunk s d c) = head_list s"
  "heap_free_space (put_chunk s d c) = heap_free_space s" "chunks (put_chunk s d c) = (chunks s)(d \<mapsto> c)"
  by (simp_all add: put_chunk_def chunk_of_def)

lemma put_chunk_area:
  "cd_owner c = cd_owner (chunk_of s d) \<Longrightarrow> chunk_area (put_chunk s d c) e = chunk_area s e"
  "cd_owner c = cd_owner (chunk_of s d) \<Longrightarrow> chunk_pages (put_chunk s d c) e = chunk_pages s e"
  by (auto simp: chunk_area_def chunk_pages_def)

lemma chunk_ok_put:
  assumes "chunk_ok s d" and "cd_owner c = cd_owner (chunk_of s d)" and "buddy_wf (chunk_pages s d) (buddy c)"
    and "unat (free_space c) = card (free_pages (chunk_pages s d) (buddy c)) * 4096" and "chunk_ok s e"
  shows "chunk_ok (put_chunk s d c) e"
  using assms unfolding chunk_ok_def put_chunk_area [OF assms(2)] by auto

lemma heap_ok_put:
  assumes "heap_ok s ds" and "d \<in> set ds" and "cd_owner c = cd_owner (chunk_of s d)" and "buddy_wf (chunk_pages s d) (buddy c)"
    and "unat (free_space c) = card (free_pages (chunk_pages s d) (buddy c)) * 4096"
  shows "heap_ok (put_chunk s d c) ds"
  using assms chunk_ok_put [of s d c] by (simp add: heap_ok_def)


lemma heap_list:
  assumes "heap_ok s ds"
  shows "slist_next (chunk_links s) (head_list s) = Inr (hd (ds @ [NULL]))" "length ds < addr_fuel" "distinct ds"
    "ds = us @ d # vs \<Longrightarrow> slist_next (chunk_links s) d = Inr (hd (vs @ [NULL]))"
proof -
  have r: "slist_rep (chunk_links s) (head_list s) ds" using assms by (simp add: heap_ok_def)
  show "slist_next (chunk_links s) (head_list s) = Inr (hd (ds @ [NULL]))" using slist_next_rep [of _ _ "[]" ds] r by simp
  show "distinct ds" using slist_repD(4) [OF r] by simp
  have "length (head_list s # ds) \<le> addr_fuel" using slist_repD(4) [OF r] by (rule distinct_addr_length)
  then show "length ds < addr_fuel" by simp
  show "slist_next (chunk_links s) d = Inr (hd (vs @ [NULL]))" if "ds = us @ d # vs"
    using slist_next_rep [of "chunk_links s" "head_list s" "us @ [d]" vs] r that by simp
qed

text \<open>A heap of one chunk of four pages at 0x100000, with the pages of the bits in use.\<close>

definition example_chunk :: "u32 \<Rightarrow> size_t \<Rightarrow> chunk_data" where
  "example_chunk w free = \<lparr>cd_owner = 0x200, free_space = free, buddy = buddy_example w 1 1,
     buddy_alloc_mem = \<lparr>base = 0, position = 0, limit = 0\<rparr>\<rparr>"

definition heap_example_area :: vm_area where
  "heap_example_area = \<lparr>va_base = 0x100000, va_length = 0x4000, va_flags = VM_WRITE, va_owner = 0x100, va_ops = HEAP_OPS, va_data = 0x900\<rparr>"

definition heap_example_vm :: vm_mem where
  "heap_example_vm = \<lparr>vm_areas = [0x200 \<mapsto> heap_example_area], vm_nodes = Map.empty, vm_links = Map.empty,
     vm_spaces = [0x100 \<mapsto> \<lparr>vs_root_dir = 0x3000, vs_offset = 0x1000, vs_rb_areas = 0\<rparr>]\<rparr>"

definition example_heap :: "mmu \<Rightarrow> mm_state \<Rightarrow> u32 \<Rightarrow> size_t \<Rightarrow> unit kheap_state" where
  "example_heap m zs w free = \<lparr>kh_mmu = m, kh_mm = zs\<lparr>mm_vm := heap_example_vm\<rparr>, chunks = [0x900 \<mapsto> example_chunk w free],
     chunk_links = [0x80 \<mapsto> 0x900, 0x900 \<mapsto> NULL], head_list = 0x80, heap_free_space = 0x3000, VMSPACE = 0x100,
     CHUNK_FIRST = 0x200, FIRST_CHUNK_DATA = 0x900, CHUNK_DATA_CACHE = 0xA00, kh_memory = (\<lambda>_. 0), kh_rest = ()\<rparr>"

lemma example_heap_parts [simp]:
  "chunk_of (example_heap m zs w f) 0x900 = example_chunk w f" "chunk_area (example_heap m zs w f) 0x900 = heap_example_area"
  "chunk_pages (example_heap m zs w f) 0x900 = 4" "heap_free_space (example_heap m zs w f) = 0x3000"
  "kh_mmu (example_heap m zs w f) = m" "kh_mm (example_heap m zs w f) = zs\<lparr>mm_vm := heap_example_vm\<rparr>"
  "cd_owner (example_chunk w f) = 0x200" "buddy (example_chunk w f) = buddy_example w 1 1" "free_space (example_chunk w f) = f"
  "heap_root (example_heap m zs w f) heap_example_area = Inr 0x3000" "va_base heap_example_area = 0x100000"
  by (simp_all add: chunk_of_def chunk_area_def chunk_pages_def example_heap_def example_chunk_def heap_example_vm_def heap_example_area_def
      PLATFORM_PAGE_SIZE_def heap_root_def space_at_def)

lemma example_free_pages: "free_pages 4 (buddy_example 3 1 1) = {2, 3}" "free_pages 4 (buddy_example 7 1 1) = {3}"
proof -
  let ?a = "buddy_example 3 1 1" and ?b = "buddy_example 7 1 1"
  have "bitat ?a 0 0" "bitat ?a 0 1" "\<not> bitat ?a 0 2" "\<not> bitat ?a 0 3"
    "bitat ?b 0 0" "bitat ?b 0 1" "bitat ?b 0 2" "\<not> bitat ?b 0 3" by code_simp+
  moreover have "i < (4 :: nat) \<longleftrightarrow> i = 0 \<or> i = 1 \<or> i = 2 \<or> i = 3" for i by presburger
  moreover have "unat (4 :: size_t) = 4" by simp
  ultimately show "free_pages 4 ?a = {2, 3}" "free_pages 4 ?b = {3}" unfolding free_pages_def by auto
qed

lemma example_heap_ok: "heap_ok (example_heap m zs 3 0x2000) [0x900]" "heap_ok (example_heap m zs 7 0x1000) [0x900]"
  by (simp_all add: heap_ok_def chunk_ok_def example_free_pages buddy_example_wf)
    (simp_all add: example_heap_def slist_rep_def heap_example_vm_def heap_example_area_def page_align_dvd)

section \<open>Allocating a page\<close>

lemma find_space_ok:
  assumes "heap_ok s (us @ vs)" and "length vs < fuel"
  shows "find_space_loop fuel s (hd (vs @ [NULL])) =
    Inr (case find (\<lambda>d. 0 < free_space (chunk_of s d)) vs of None \<Rightarrow> NULL | Some d \<Rightarrow> cd_owner (chunk_of s d))"
  using assms
proof (induction vs arbitrary: us fuel)
  case Nil
  then show ?case by (cases fuel) simp_all
next
  case (Cons d vs)
  obtain f where f: "fuel = Suc f" "length vs < f" using Cons.prems(2) by (cases fuel) auto
  have d: "chunk_ok s d" "d \<noteq> NULL" using Cons.prems(1) by (simp_all add: heap_ok_def chunk_ok_def)
  show ?case
    using Cons.IH [of "us @ [d]" f] Cons.prems(1) f(2) d heap_list(4) [OF Cons.prems(1) refl]
    by (simp add: f(1) chunk_at_ok)
qed

lemma no_space_iff: "chunk_ok s d \<Longrightarrow> free_space (chunk_of s d) = 0 \<longleftrightarrow> free_pages (chunk_pages s d) (buddy (chunk_of s d)) = {}"
proof -
  assume "chunk_ok s d"
  then have "unat (free_space (chunk_of s d)) = card (free_pages (chunk_pages s d) (buddy (chunk_of s d))) * 4096"
    by (simp add: chunk_ok_def)
  then have "unat (free_space (chunk_of s d)) = 0 \<longleftrightarrow> free_pages (chunk_pages s d) (buddy (chunk_of s d)) = {}" by simp
  then show ?thesis by (metis unat_eq_zero)
qed

lemma take_page:
  assumes c: "chunk_ok s d" and f: "free_space (chunk_of s d) \<noteq> 0"
  shows "\<exists>n b. buddy_alloc (buddy (chunk_of s d)) 0 = Inr (Some n, b) \<and> n < chunk_pages s d \<and>
    unat n \<in> free_pages (chunk_pages s d) (buddy (chunk_of s d)) \<and>
    (\<forall>i < unat n. i \<notin> free_pages (chunk_pages s d) (buddy (chunk_of s d))) \<and> buddy_wf (chunk_pages s d) b \<and>
    free_pages (chunk_pages s d) b = free_pages (chunk_pages s d) (buddy (chunk_of s d)) - {unat n} \<and>
    unat (free_space (chunk_of s d) - PLATFORM_PAGE_SIZE) = card (free_pages (chunk_pages s d) b) * 4096"
proof -
  let ?N = "chunk_pages s d" and ?b = "buddy (chunk_of s d)"
  have wf: "buddy_wf ?N ?b" and fs: "unat (free_space (chunk_of s d)) = card (free_pages ?N ?b) * 4096"
    using c by (simp_all add: chunk_ok_def)
  have ne: "free_pages ?N ?b \<noteq> {}" using no_space_iff [OF c] f by simp
  obtain n b where n: "buddy_alloc ?b 0 = Inr (Some n, b)" "unat n < unat ?N" "\<not> bitat ?b 0 (unat n)" "\<forall>j < unat n. bitat ?b 0 j"
      "marks ?N True (\<lambda>k j. j = unat n div 2 ^ k) ?b b"
    using buddy_alloc_ok [OF wf buddy_levels_pos [OF wf]] ne by (auto simp: free_pages_def)
  have fp: "free_pages ?N b = free_pages ?N ?b - {unat n}"
    using bitat_marks0 [OF n(5) wf] by (auto simp: free_pages_def split: if_splits)
  have mem: "unat n \<in> free_pages ?N ?b" using n(2,3) by (simp add: free_pages_def)
  then have cd: "card (free_pages ?N ?b) = Suc (card (free_pages ?N b))" using card_Suc_Diff1 [OF finite_free_pages mem] unfolding fp by simp
  have "unat (free_space (chunk_of s d) - PLATFORM_PAGE_SIZE) = card (free_pages ?N b) * 4096"
    using fs cd by (subst unat_sub32) (simp_all add: PLATFORM_PAGE_SIZE_def)
  then show ?thesis using n fp mem marksD(1) [OF n(5)] by (auto simp: free_pages_def word_less_nat_alt)
qed

lemma alloc_from_chunk:
  assumes c: "chunk_ok s d" and f: "free_space (chunk_of s d) \<noteq> 0"
  shows "\<exists>n x. vm_area_register_map call_heap_register (vm_areas (mm_vm (kh_mm s))) s (cd_owner (chunk_of s d)) NULL =
      Inr (va_base (chunk_area s d) + n * PLATFORM_PAGE_SIZE, put_chunk s d x) \<and> n < chunk_pages s d \<and>
    unat n \<in> free_pages (chunk_pages s d) (buddy (chunk_of s d)) \<and>
    (\<forall>i < unat n. i \<notin> free_pages (chunk_pages s d) (buddy (chunk_of s d))) \<and>
    cd_owner x = cd_owner (chunk_of s d) \<and> buddy_wf (chunk_pages s d) (buddy x) \<and>
    free_pages (chunk_pages s d) (buddy x) = free_pages (chunk_pages s d) (buddy (chunk_of s d)) - {unat n} \<and>
    unat (free_space x) = card (free_pages (chunk_pages s d) (buddy x)) * 4096"
proof -
  obtain n b where n: "buddy_alloc (buddy (chunk_of s d)) 0 = Inr (Some n, b)" "n < chunk_pages s d"
    "unat n \<in> free_pages (chunk_pages s d) (buddy (chunk_of s d))"
    "\<forall>i < unat n. i \<notin> free_pages (chunk_pages s d) (buddy (chunk_of s d))" "buddy_wf (chunk_pages s d) b"
    "free_pages (chunk_pages s d) b = free_pages (chunk_pages s d) (buddy (chunk_of s d)) - {unat n}"
    "unat (free_space (chunk_of s d) - PLATFORM_PAGE_SIZE) = card (free_pages (chunk_pages s d) b) * 4096"
    using take_page [OF c f] by blast
  let ?x = "(chunk_of s d)\<lparr>buddy := b, free_space := free_space (chunk_of s d) - PLATFORM_PAGE_SIZE\<rparr>"
  have h: "va_data (chunk_area s d) = d" "va_ops (chunk_area s d) = HEAP_OPS" "cd_owner (chunk_of s d) \<noteq> NULL"
    "vm_areas (mm_vm (kh_mm s)) (cd_owner (chunk_of s d)) = Some (chunk_area s d)" using c by (simp_all add: chunk_ok_def)
  have "chunk_register_page s (cd_owner (chunk_of s d)) NULL = Inr (va_base (chunk_area s d) + n * PLATFORM_PAGE_SIZE, put_chunk s d ?x)"
    using n(1) h(1,3) chunk_at_ok [OF c] heap_area_ok [OF c] by (simp add: chunk_register_page_def Let_def)
  then have "vm_area_register_map call_heap_register (vm_areas (mm_vm (kh_mm s))) s (cd_owner (chunk_of s d)) NULL =
      Inr (va_base (chunk_area s d) + n * PLATFORM_PAGE_SIZE, put_chunk s d ?x)"
    using h(2-4) by (simp add: vm_area_register_map_def call_heap_register_def area_at_def HEAP_OPS_def)
  then show ?thesis using n(2-7) by (intro exI [of _ n] exI [of _ ?x]) simp
qed

lemma no_create:
  assumes "PLATFORM_PAGE_SIZE < heap_free_space s"
  shows "kheap_alloc_page calls s =
    kbind (slist_next (chunk_links s) (head_list s)) (\<lambda>it. kbind (find_space_loop addr_fuel s it) (\<lambda>chunk.
      kassert (chunk \<noteq> NULL) (vm_area_register_map call_heap_register (vm_areas (mm_vm (kh_mm s))) s chunk NULL)))"
proof -
  have "heap_free_space s \<noteq> PLATFORM_PAGE_SIZE" using assms by auto
  then show ?thesis using assms by (simp add: kheap_alloc_page_def kbind_assoc kassert_def)
qed

text \<open>C11: the heap hands out the least page that is not in use of the first chunk that has one, takes exactly that page
  and keeps its books; when every chunk is used up, the kernel stops at an assertion.\<close>

theorem kheap_alloc_page_least:
  assumes "heap_ok s ds" and "PLATFORM_PAGE_SIZE < heap_free_space s"
  shows "case find (\<lambda>d. free_pages (chunk_pages s d) (buddy (chunk_of s d)) \<noteq> {}) ds of
      None \<Rightarrow> kheap_alloc_page calls s = Inl Kassert
    | Some d \<Rightarrow> \<exists>n x. kheap_alloc_page calls s = Inr (va_base (chunk_area s d) + n * PLATFORM_PAGE_SIZE, put_chunk s d x) \<and>
        heap_ok (put_chunk s d x) ds \<and> n < chunk_pages s d \<and>
        unat n \<in> free_pages (chunk_pages s d) (buddy (chunk_of s d)) \<and>
        (\<forall>i < unat n. i \<notin> free_pages (chunk_pages s d) (buddy (chunk_of s d))) \<and>
        free_pages (chunk_pages s d) (buddy x) = free_pages (chunk_pages s d) (buddy (chunk_of s d)) - {unat n}"
proof -
  have ok: "chunk_ok s d" if "d \<in> set ds" for d using assms(1) that by (simp add: heap_ok_def)
  have e: "find (\<lambda>d. 0 < free_space (chunk_of s d)) ds = find (\<lambda>d. free_pages (chunk_pages s d) (buddy (chunk_of s d)) \<noteq> {}) ds"
    using no_space_iff [OF ok] by (intro find_cong) (auto simp: word_gt_0)
  have fs: "find_space_loop addr_fuel s (hd (ds @ [NULL])) =
      Inr (case find (\<lambda>d. free_pages (chunk_pages s d) (buddy (chunk_of s d)) \<noteq> {}) ds of None \<Rightarrow> NULL
        | Some d \<Rightarrow> cd_owner (chunk_of s d))"
    using find_space_ok [of s "[]" ds addr_fuel] assms(1) heap_list(2) [OF assms(1)] unfolding e by simp
  show ?thesis
  proof (cases "find (\<lambda>d. free_pages (chunk_pages s d) (buddy (chunk_of s d)) \<noteq> {}) ds")
    case None
    then show ?thesis using fs by (simp add: no_create [OF assms(2)] heap_list(1) [OF assms(1)] kassert_def)
  next
    case (Some d)
    then have d: "d \<in> set ds" "free_pages (chunk_pages s d) (buddy (chunk_of s d)) \<noteq> {}"
      by (auto simp: find_Some_iff)
    then have f: "free_space (chunk_of s d) \<noteq> 0" using no_space_iff [OF ok] by simp
    have "cd_owner (chunk_of s d) \<noteq> NULL" using ok [OF d(1)] by (simp add: chunk_ok_def)
    then show ?thesis
      using alloc_from_chunk [OF ok [OF d(1)] f] heap_ok_put [OF assms(1) d(1)] fs Some
      by (auto simp: no_create [OF assms(2)] heap_list(1) [OF assms(1)] kassert_def)
  qed
qed

theorem kheap_alloc_page_least_witness:
  "\<forall>calls. \<exists>x. kheap_alloc_page calls (example_heap example_mmu (example_zones PAGESTATE_FREE 1) 3 0x2000) =
      Inr (0x102000, put_chunk (example_heap example_mmu (example_zones PAGESTATE_FREE 1) 3 0x2000) 0x900 x) \<and>
    free_pages 4 (buddy x) = {3}"
proof
  fix calls :: "unit heap_calls"
  let ?s = "example_heap example_mmu (example_zones PAGESTATE_FREE 1) 3 0x2000"
  have "PLATFORM_PAGE_SIZE < heap_free_space ?s" by (simp add: PLATFORM_PAGE_SIZE_def)
  from kheap_alloc_page_least [OF example_heap_ok(1) this, of calls] obtain n x where
    n: "kheap_alloc_page calls ?s = Inr (0x100000 + n * PLATFORM_PAGE_SIZE, put_chunk ?s 0x900 x)"
    "unat n \<in> {2, 3}" "\<forall>i < unat n. i \<notin> {2, 3 :: nat}" "free_pages 4 (buddy x) = {2, 3} - {unat n}"
    by (simp add: example_free_pages) blast
  have "unat n = 2" using n(2) n(3) [rule_format, of 2] by auto
  then have "n = 2" by (intro word32_eqI) simp
  then show "\<exists>x. kheap_alloc_page calls ?s = Inr (0x102000, put_chunk ?s 0x900 x) \<and> free_pages 4 (buddy x) = {3}"
    using n(1,4) by (intro exI [of _ x]) (simp add: PLATFORM_PAGE_SIZE_def)
qed

section \<open>The heap does not grow\<close>

text \<open>What is the same after every operation but the making of a chunk.\<close>

definition same_lists :: "'r kheap_state \<Rightarrow> 'r kheap_state \<Rightarrow> bool" where
  "same_lists s s' \<longleftrightarrow> chunk_links s' = chunk_links s \<and> head_list s' = head_list s \<and> heap_free_space s' = heap_free_space s \<and>
     dom (chunks s') = dom (chunks s)"

lemma same_lists_trans: "same_lists a b \<Longrightarrow> same_lists b c \<Longrightarrow> same_lists a c"
  by (simp add: same_lists_def)

lemma same_lists_put: "chunk_at s d = Inr c \<Longrightarrow> same_lists s (put_chunk s d x)"
  by (auto simp: same_lists_def chunk_at_def split: option.splits)

lemma register_page_same:
  assumes "chunk_register_page s chunk p = Inr (q, s')"
  shows "same_lists s s'"
proof -
  obtain a where a: "(case (if p \<noteq> NULL then area_page_ndx a p else Some 0) of None \<Rightarrow> Inr (NULL, s)
      | Some ndx \<Rightarrow> kbind (chunk_at s (va_data a)) (\<lambda>c.
          kbind (if p \<noteq> NULL then kbind (buddy_try_alloc (buddy c) 0 ndx) (\<lambda>(done, b). Inr (if done then Some ndx else None, b))
            else buddy_alloc (buddy c) 0) (\<lambda>(r, b).
          case r of None \<Rightarrow> Inr (NULL, put_chunk s (va_data a) (c\<lparr>buddy := b\<rparr>))
          | Some page_ndx \<Rightarrow> Inr (va_base a + page_ndx * PLATFORM_PAGE_SIZE,
              put_chunk s (va_data a) (c\<lparr>buddy := b, free_space := free_space c - PLATFORM_PAGE_SIZE\<rparr>))))) = Inr (q, s')"
    using assms unfolding chunk_register_page_def kres_simps Let_def by blast
  show ?thesis
  proof (cases "if p \<noteq> NULL then area_page_ndx a p else Some 0")
    case None
    then show ?thesis using a by (simp add: same_lists_def)
  next
    case (Some ndx)
    then obtain c r b where c: "chunk_at s (va_data a) = Inr c"
        "(case r of None \<Rightarrow> Inr (NULL, put_chunk s (va_data a) (c\<lparr>buddy := b\<rparr>))
          | Some page_ndx \<Rightarrow> Inr (va_base a + page_ndx * PLATFORM_PAGE_SIZE,
              put_chunk s (va_data a) (c\<lparr>buddy := b, free_space := free_space c - PLATFORM_PAGE_SIZE\<rparr>))) = (Inr (q, s') :: kerr + _)"
      using a unfolding Some option.case kbind_eq_Inr split_paired_Ex prod.case by (elim exE conjE) (rule that)
    then show ?thesis by (cases r) (auto intro: same_lists_put)
  qed
qed

lemma unregister_page_same:
  assumes "chunk_unregister_page s chunk p = Inr s'"
  shows "same_lists s s'"
proof -
  obtain d c x m mm where "chunk_at s d = Inr c" "s' = (put_chunk s d x)\<lparr>kh_mmu := m, kh_mm := mm\<rparr>"
    using assms by (auto simp: chunk_unregister_page_def kres_simps Let_def split: option.splits)
  then show ?thesis using same_lists_put [of s d c x] by (simp add: same_lists_def)
qed

lemma alloc_page_same:
  assumes "kheap_alloc_page calls s = Inr (p, s')" and "PLATFORM_PAGE_SIZE < heap_free_space s"
  shows "same_lists s s'"
  using assms(1) unfolding no_create [OF assms(2)]
  by (auto simp: kres_simps vm_area_register_map_def call_heap_register_def split: if_splits intro: register_page_same)

lemma free_page_same: "kheap_free_page s p = Inr s' \<Longrightarrow> same_lists s s'"
  by (auto simp: kheap_free_page_def kres_simps vm_area_unregister_map_def call_heap_unregister_def split: if_splits
      intro: unregister_page_same)

inductive heap_run :: "'r heap_calls \<Rightarrow> 'r kheap_state \<Rightarrow> 'r kheap_state \<Rightarrow> bool" for calls where
  run_none: "heap_run calls s s"
| run_page: "heap_run calls s s1 \<Longrightarrow> kheap_alloc_page calls s1 = Inr (p, s2) \<Longrightarrow> heap_run calls s s2"
| run_free: "heap_run calls s s1 \<Longrightarrow> kheap_free_page s1 p = Inr s2 \<Longrightarrow> heap_run calls s s2"

lemma heap_run_same:
  assumes "heap_run calls s s'" and "PLATFORM_PAGE_SIZE < heap_free_space s"
  shows "same_lists s s'"
  using assms
proof (induction rule: heap_run.induct)
  case (run_page s s1 p s2)
  then have "same_lists s s1" "PLATFORM_PAGE_SIZE < heap_free_space s1" by (simp_all add: same_lists_def)
  then show ?case using alloc_page_same [OF run_page.hyps(2)] same_lists_trans by blast
next
  case (run_free s s1 p s2)
  then show ?case using free_page_same same_lists_trans by blast
qed (simp add: same_lists_def)

lemma no_space_fails:
  assumes "slist_rep (chunk_links s) p (us @ vs)" and "\<forall>d \<in> set vs. d \<noteq> NULL \<and> chunks s d \<noteq> None \<and> free_space (chunk_of s d) = 0"
    and "length vs < fuel"
  shows "find_space_loop fuel s (hd (vs @ [NULL])) = Inr NULL"
  using assms
proof (induction vs arbitrary: us fuel)
  case Nil
  then show ?case by (cases fuel) simp_all
next
  case (Cons d vs)
  obtain f where f: "fuel = Suc f" "length vs < f" using Cons.prems(3) by (cases fuel) auto
  have "slist_next (chunk_links s) d = Inr (hd (vs @ [NULL]))"
    using slist_next_rep [of "chunk_links s" p "us @ [d]" vs] Cons.prems(1) by simp
  then show ?case using Cons.IH [of "us @ [d]" f] Cons.prems(1,2) f(2) by (auto simp: f(1) chunk_at_def chunk_of_def)
qed

lemma example_heap_last:
  "\<exists>x. kheap_alloc_page calls (example_heap m zs 7 0x1000) = Inr (0x103000, put_chunk (example_heap m zs 7 0x1000) 0x900 x) \<and>
    free_space x = 0"
proof -
  let ?s = "example_heap m zs 7 0x1000"
  have h: "heap_ok ?s [0x900]" by (rule example_heap_ok)
  have f: "PLATFORM_PAGE_SIZE < heap_free_space ?s" by (simp add: PLATFORM_PAGE_SIZE_def)
  have c: "chunk_ok ?s 0x900" using h by (simp add: heap_ok_def)
  have "find_space_loop addr_fuel ?s (hd ([0x900] @ [NULL])) = Inr 0x200"
    using find_space_ok [of ?s "[]" "[0x900]" addr_fuel] h heap_list(2) [OF h] by simp
  then have st: "kheap_alloc_page calls ?s = vm_area_register_map call_heap_register (vm_areas (mm_vm (kh_mm ?s))) ?s 0x200 NULL"
    by (simp add: no_create [OF f] heap_list(1) [OF h] kassert_def)
  have "free_space (chunk_of ?s 0x900) \<noteq> 0" by simp
  from alloc_from_chunk [OF c this] obtain n x where
    n: "kheap_alloc_page calls ?s = Inr (0x100000 + n * PLATFORM_PAGE_SIZE, put_chunk ?s 0x900 x)" "unat n = 3"
    "free_pages 4 (buddy x) = {3} - {unat n}" "unat (free_space x) = card (free_pages 4 (buddy x)) * 4096"
    unfolding st by (auto simp: example_free_pages)
  have "n = 3" using n(2) by (intro word32_eqI) simp
  moreover have "unat (free_space x) = 0" unfolding n(4) n(3) n(2) by simp
  then have "free_space x = 0" by (intro word32_eqI) simp
  ultimately show ?thesis using n(1) by (intro exI [of _ x]) (simp add: PLATFORM_PAGE_SIZE_def)
qed

text \<open>C14: the heap never gets a second chunk: the count of the free space of all chunks goes up with a new chunk and
  never down, so whatever is allocated and freed, the test for the last free page is not met, and when the
  chunks are used up the next request stops the kernel at an assertion, however much memory is left.\<close>

theorem kheap_never_grows:
  assumes "heap_ok s ds" and "PLATFORM_PAGE_SIZE < heap_free_space s" and "heap_run calls s s'"
    and "\<forall>d \<in> set ds. free_space (chunk_of s' d) = 0"
  shows "heap_free_space s' = heap_free_space s \<and> kheap_alloc_page calls s' = Inl Kassert"
proof -
  have sl: "chunk_links s' = chunk_links s" "head_list s' = head_list s" "heap_free_space s' = heap_free_space s"
    "dom (chunks s') = dom (chunks s)" using heap_run_same [OF assms(3,2)] by (simp_all add: same_lists_def)
  have r: "slist_rep (chunk_links s') (head_list s') ds" using assms(1) sl by (simp add: heap_ok_def)
  have "d \<in> dom (chunks s')" "d \<noteq> NULL" if "d \<in> set ds" for d
    using assms(1) that sl(4) by (auto simp: heap_ok_def chunk_ok_def)
  then have "find_space_loop addr_fuel s' (hd (ds @ [NULL])) = Inr NULL"
    using no_space_fails [of s' "head_list s'" "[]" ds addr_fuel] r assms(4) heap_list(2) [OF assms(1)] by auto
  moreover have "slist_next (chunk_links s') (head_list s') = Inr (hd (ds @ [NULL]))"
    using slist_next_rep [of _ _ "[]" ds] r by simp
  ultimately show ?thesis using assms(2) sl(3) by (simp add: no_create kassert_def)
qed

text \<open>The last page of the chunk goes, and then nothing is left, though the page allocator has memory.\<close>

theorem kheap_never_grows_witness:
  "\<forall>calls. \<exists>s'. heap_run calls (example_heap example_mmu (example_zones PAGESTATE_FREE 1) 7 0x1000) s' \<and>
    heap_free_space s' = 0x3000 \<and> kheap_alloc_page calls s' = Inl Kassert"
proof
  fix calls :: "unit heap_calls"
  let ?s = "example_heap example_mmu (example_zones PAGESTATE_FREE 1) 7 0x1000"
  have f: "PLATFORM_PAGE_SIZE < heap_free_space ?s" by (simp add: PLATFORM_PAGE_SIZE_def)
  obtain x where x: "kheap_alloc_page calls ?s = Inr (0x103000, put_chunk ?s 0x900 x)" "free_space x = 0"
    using example_heap_last by blast
  have r: "heap_run calls ?s (put_chunk ?s 0x900 x)" by (rule run_page [OF run_none x(1)])
  have "\<forall>d \<in> set [0x900]. free_space (chunk_of (put_chunk ?s 0x900 x) d) = 0" using x(2) by simp
  from kheap_never_grows [OF example_heap_ok(2) f r this]
  show "\<exists>s'. heap_run calls ?s s' \<and> heap_free_space s' = 0x3000 \<and> kheap_alloc_page calls s' = Inl Kassert"
    using r by auto
qed

section \<open>Touching a page and giving it back\<close>

lemma page_in_chunk:
  assumes "chunk_ok s d" and "n < chunk_pages s d" and "p = va_base (chunk_area s d) + n * PLATFORM_PAGE_SIZE"
  shows "unat p = unat (va_base (chunk_area s d)) + unat n * 4096" "area_page_ndx (chunk_area s d) p = Some n"
    "check_align p PLATFORM_PAGE_SIZE"
    "unat (va_base (chunk_area s d) + va_length (chunk_area s d) - 1) = unat (va_base (chunk_area s d)) + unat (va_length (chunk_area s d)) - 1"
proof -
  let ?a = "chunk_area s d"
  have h: "check_align (va_base ?a) PLATFORM_PAGE_SIZE" "unat (va_length ?a) = unat (chunk_pages s d) * 4096"
    "unat (va_base ?a) + unat (va_length ?a) \<le> 2 ^ 32" using assms(1) by (simp_all add: chunk_ok_def)
  have n: "unat n < unat (chunk_pages s d)" using assms(2) by (simp add: word_less_nat_alt)
  then have b: "unat (va_base ?a) + unat n * 4096 + 4096 \<le> unat (va_base ?a) + unat (va_length ?a)" using h(2) by simp
  then have m: "unat (n * PLATFORM_PAGE_SIZE) = unat n * 4096" using h(3) by (simp add: PLATFORM_PAGE_SIZE_def unat_word_ariths)
  show u: "unat p = unat (va_base ?a) + unat n * 4096" unfolding assms(3) using b h(3) m by (subst unat_add32) simp_all
  have l1: "unat (va_length ?a - 1) = unat (va_length ?a) - 1" using b by (subst unat_sub32) simp_all
  have e: "va_base ?a + va_length ?a - 1 = va_base ?a + (va_length ?a - 1)" by simp
  show en: "unat (va_base ?a + va_length ?a - 1) = unat (va_base ?a) + unat (va_length ?a) - 1"
    unfolding e using b h(3) l1 by (subst unat_add32) simp_all
  have "unat (p - va_base ?a) = unat n * 4096" using u by (subst unat_sub32) simp_all
  then have "(p - va_base ?a) div PLATFORM_PAGE_SIZE = n"
    by (intro word32_eqI) (simp add: unat_div PLATFORM_PAGE_SIZE_def)
  moreover have "\<not> p < va_base ?a" "\<not> va_base ?a + va_length ?a - 1 < p" using u en b by (simp_all add: word_less_nat_alt)
  ultimately show "area_page_ndx ?a p = Some n" by (simp add: area_page_ndx_def Let_def)
  show "check_align p PLATFORM_PAGE_SIZE" using h(1) u by (simp add: page_align_dvd)
qed

lemma registered_ok:
  assumes "chunk_ok s d" and "n < chunk_pages s d" and "p = va_base (chunk_area s d) + n * PLATFORM_PAGE_SIZE"
  shows "is_registered_page s (cd_owner (chunk_of s d)) p = Inr (unat n \<in> free_pages (chunk_pages s d) (buddy (chunk_of s d)))"
proof -
  have h: "va_data (chunk_area s d) = d" "d \<noteq> NULL" "cd_owner (chunk_of s d) \<noteq> NULL" "buddy_wf (chunk_pages s d) (buddy (chunk_of s d))"
    using assms(1) by (simp_all add: chunk_ok_def)
  have n: "unat n < unat (chunk_pages s d)" using assms(2) by (simp add: word_less_nat_alt)
  have "buddy_is_free (buddy (chunk_of s d)) n = Inr (\<not> bitat (buddy (chunk_of s d)) 0 (unat n))"
    using lvl_get_ok [OF h(4) buddy_levels_pos [OF h(4)], of n] n by (simp add: buddy_is_free_def)
  then show ?thesis using h heap_area_ok [OF assms(1)] chunk_at_ok [OF assms(1)] page_in_chunk(2) [OF assms] n
    by (simp add: is_registered_page_def free_pages_def)
qed

text \<open>The page allocator does not touch the areas.\<close>

lemma put_zone_vm [simp]: "mm_vm (put_zone s z r) = mm_vm s"
  by (simp add: put_zone_def)

lemma alloc_from_vm: "mm_alloc_page_from s z = Inr (r, s') \<Longrightarrow> mm_vm s' = mm_vm s"
  by (auto simp: mm_alloc_page_from_def kres_simps Let_def split: option.splits)

lemma alloc_loop_vm: "mm_alloc_page_loop f s it = Inr (r, s') \<Longrightarrow> mm_vm s' = mm_vm s"
proof (induction f arbitrary: s it)
  case (Suc f)
  show ?case
  proof (cases "it = NULL")
    case False
    then obtain q s1 where q: "mm_alloc_page_from s (link_zone it) = Inr (q, s1)"
        "(if q \<noteq> None then Inr (q, s1) else kbind (slist_next (mm_links s1) it) (\<lambda>it. mm_alloc_page_loop f s1 it)) = Inr (r, s')"
      using Suc.prems by (auto simp: kres_simps)
    then show ?thesis using alloc_from_vm [OF q(1)] Suc.IH by (auto simp: kres_simps split: if_splits)
  qed (use Suc.prems in simp)
qed simp

lemma alloc_page_vm: "mm_alloc_page s = Inr (r, s') \<Longrightarrow> mm_vm s' = mm_vm s"
  by (auto simp: mm_alloc_page_def kres_simps split: option.splits dest!: alloc_loop_vm)


text \<open>C12: touching a page of the heap. A page that is not handed out is a true fault, and the kernel panics; one that is
  handed out gets the page that \<open>mm_alloc_page\<close> gives, mapped at its address; no other mapping changes, the chunks and
  the rest of the heap are as before, and the page allocator has given out that page and, if the table was
  missing, one for it.\<close>

theorem chunk_pgfault_handler_maps:
  assumes "chunk_ok s d" and "n < chunk_pages s d"
    and "align_rounddown fault PLATFORM_PAGE_SIZE = va_base (chunk_area s d) + n * PLATFORM_PAGE_SIZE"
    and "mm_alloc_page (kh_mm s) = Inr (Some p, mm)" and "page_address mm p = Inr phys"
    and "heap_root s (chunk_area s d) = Inr root" and "dir_ok (kh_mmu s) root" and "pd_index fault < 1022"
    and "page_frame (kh_mmu s) fault = None" and "\<not> is_present (page_pde (kh_mmu s) fault) \<Longrightarrow> new_table (kh_mmu s) mm P mm'"
  shows "if unat n \<in> free_pages (chunk_pages s d) (buddy (chunk_of s d))
    then chunk_pgfault_handler calls s (cd_owner (chunk_of s d)) fault = Inl Panic
    else \<exists>s'. chunk_pgfault_handler calls s (cd_owner (chunk_of s d)) fault = Inr s' \<and> dir_ok (kh_mmu s') root \<and>
      s' = s\<lparr>kh_mmu := kh_mmu s', kh_mm := if is_present (page_pde (kh_mmu s) fault) then mm else mm'\<rparr> \<and>
      chunks s' = chunks s \<and> (\<forall>w. pd_index w < 1022 \<longrightarrow> page_frame (kh_mmu s') w =
        (if align_rounddown w PLATFORM_PAGE_SIZE = align_rounddown fault PLATFORM_PAGE_SIZE
         then Some (phys_frame phys) else page_frame (kh_mmu s) w))"
proof -
  let ?v = "align_rounddown fault PLATFORM_PAGE_SIZE"
  note r = registered_ok [OF assms(1,2,3)]
  have al: "align_rounddown ?v PLATFORM_PAGE_SIZE = ?v"
    using page_in_chunk(3) [OF assms(1,2,3)] by (simp add: check_align_def)
  have sp: "same_page ?v fault" using al by (simp add: same_page_bytes)
  then have v: "pd_index ?v < 1022" "page_frame (kh_mmu s) ?v = None" "page_pde (kh_mmu s) ?v = page_pde (kh_mmu s) fault"
    using assms(8,9) same_page_walk [OF sp] same_page_frame [OF sp] by (auto simp: same_page_def)
  obtain m where m: "vm_arch_pt_map (kh_mmu s) mm root phys ?v (va_flags (chunk_area s d)) =
      Inr (m, if is_present (page_pde (kh_mmu s) ?v) then mm else mm')" "maps_page (kh_mmu s) root ?v phys (va_flags (chunk_area s d)) m"
    using map_maps [OF assms(7) v(1,2), of mm P mm' phys "va_flags (chunk_area s d)"] assms(10) v(3) by auto
  have vm: "mm_vm mm = mm_vm (kh_mm s)" using alloc_page_vm [OF assms(4)] .
  have "heap_area (s\<lparr>kh_mm := mm\<rparr>) (cd_owner (chunk_of s d)) = Inr (chunk_area s d)"
    "heap_root (s\<lparr>kh_mm := mm\<rparr>) (chunk_area s d) = Inr root"
    using heap_area_ok [OF assms(1)] assms(6) vm by (simp_all add: heap_area_def heap_root_def)
  then show ?thesis using r m assms(4,5) v
    by (auto simp: chunk_pgfault_handler_def fault_page_def vm_pgfault_handle_panic_def maps_page_def same_page_bytes Let_def al)
qed

lemma example_alloc_vm:
  "mm_alloc_page ((example_zones PAGESTATE_FREE 1)\<lparr>mm_vm := v\<rparr>) = Inr (Some (0xC010000C, 1), example_after\<lparr>mm_vm := v\<rparr>)"
proof -
  obtain f where f: "addr_fuel = Suc f" by (rule addr_fuel_Suc)
  have b: "buddy_alloc (buddy_example 1 0 0) 0 = Inr (Some 1, buddy_example 3 1 1)" by code_simp
  show ?thesis
    by (simp add: mm_alloc_page_def f slist_next_def example_zones_def example_after_def zone_at_def
        mm_alloc_page_from_def link_zone_def b put_zone_def example_zone_def set_page_state_def)
qed

lemma example_after_page: "page_address (example_after\<lparr>mm_vm := v\<rparr>) (0xC010000C, 1) = Inr 0x101000"
  by (simp add: page_address_def zone_at_def example_after_def put_zone_def page_at_def example_zone_def)

theorem chunk_pgfault_handler_maps_witness:
  "\<forall>calls. (\<exists>s'. chunk_pgfault_handler calls (example_heap example_mmu (example_zones PAGESTATE_FREE 1) 3 0x2000) 0x200 0x100123 = Inr s' \<and>
      page_frame (kh_mmu s') 0x100123 = Some 0x101) \<and>
    chunk_pgfault_handler calls (example_heap example_mmu (example_zones PAGESTATE_FREE 1) 3 0x2000) 0x200 0x102123 = Inl Panic"
proof
  fix calls :: "unit heap_calls"
  let ?s = "example_heap example_mmu (example_zones PAGESTATE_FREE 1) 3 0x2000"
  have c: "chunk_ok ?s 0x900" using example_heap_ok(1) by (simp add: heap_ok_def)
  have n: "0 < chunk_pages ?s 0x900" "2 < chunk_pages ?s 0x900" by simp_all
  have al: "align_rounddown 0x100123 PLATFORM_PAGE_SIZE = va_base (chunk_area ?s 0x900) + 0 * PLATFORM_PAGE_SIZE"
    "align_rounddown 0x102123 PLATFORM_PAGE_SIZE = va_base (chunk_area ?s 0x900) + 2 * PLATFORM_PAGE_SIZE"
    by (simp_all add: align_rounddown_def PLATFORM_PAGE_SIZE_def)
  have a: "mm_alloc_page (kh_mm ?s) = Inr (Some (0xC010000C, 1), example_after\<lparr>mm_vm := heap_example_vm\<rparr>)"
    using example_alloc_vm by simp
  have r: "heap_root ?s (chunk_area ?s 0x900) = Inr 0x3000" "dir_ok (kh_mmu ?s) 0x3000" by (simp_all add: example_mmu_ok)
  have d: "pd_index 0x100123 < 1022" "pd_index 0x102123 < 1022" by (simp_all add: pd_index_def)
  have f: "page_frame (kh_mmu ?s) 0x100123 = None" "page_frame (kh_mmu ?s) 0x102123 = None"
    "is_present (page_pde (kh_mmu ?s) 0x100123)" "is_present (page_pde (kh_mmu ?s) 0x102123)"
    by (simp_all add: page_frame_def page_pde_def page_pte_def example_mmu_def example_entry_def zero_pge_def pd_index_def pt_index_def)
  have "\<exists>s'. chunk_pgfault_handler calls ?s 0x200 0x100123 = Inr s' \<and> page_frame (kh_mmu s') 0x100123 = Some 0x101"
    using chunk_pgfault_handler_maps [OF c n(1) al(1) a example_after_page r d(1) f(1), of undefined undefined calls] f(3) d(1)
    by (auto simp: example_free_pages phys_frame_def)
  moreover have "chunk_pgfault_handler calls ?s 0x200 0x102123 = Inl Panic"
    using chunk_pgfault_handler_maps [OF c n(2) al(2) a example_after_page r d(2) f(2), of undefined undefined calls] f(4)
    by (simp add: example_free_pages)
  ultimately show "(\<exists>s'. chunk_pgfault_handler calls ?s 0x200 0x100123 = Inr s' \<and> page_frame (kh_mmu s') 0x100123 = Some 0x101) \<and>
    chunk_pgfault_handler calls ?s 0x200 0x102123 = Inl Panic" by blast
qed








end
