(* ===== verification/Modules.thy ===== *)
theory Modules
  imports Interrupts Slist
begin

text \<open>
  kernel/kernel/modules.c, kernel/kernel/timer.c: the arrays of pointers the linker puts together from the sections of
  lib/elflist.h (a list, in the order of the link), the modules that are available at boot and the timer. The functions of a
  module or of a timer are addresses; what a call of one does is a parameter, and \<open>'w\<close> the state it works on. A
  \<open>struct module\<close> (i686 layout) has its link \<open>state_list\<close> at \<open>m + 16\<close>.
\<close>

section \<open>Modules\<close>

record kmodule =
  mo_name :: addr
  mo_available :: addr
  mo_load :: addr
  mo_unload :: addr

record 'w modules_state =
  module_objs :: "addr \<rightharpoonup> kmodule"
  module_links :: slist_heap
  INACTIVE_MODULES :: addr
  LOADED_MODULES :: addr
  world :: 'w

record 'w module_calls =
  call_available :: "addr \<Rightarrow> 'w \<Rightarrow> (bool \<times> 'w) kres"
  call_load :: "addr \<Rightarrow> 'w \<Rightarrow> 'w kres"

definition module_link :: "addr \<Rightarrow> addr" where "module_link m = m + 16"
definition module_of :: "addr \<Rightarrow> addr" where "module_of l = l - 16"

definition module_at :: "'w modules_state \<Rightarrow> addr \<Rightarrow> kmodule kres" where
  "module_at s m = (case module_objs s m of None \<Rightarrow> Inl Undef | Some r \<Rightarrow> Inr r)"

text \<open>\<open>m->fns.available != NULL && m->fns.available()\<close>\<close>

definition module_available :: "'w module_calls \<Rightarrow> 'w modules_state \<Rightarrow> addr \<Rightarrow> (bool \<times> 'w modules_state) kres" where
  "module_available calls s m =
     kbind (module_at s m) (\<lambda>r.
     if mo_available r \<noteq> NULL
     then kbind (call_available calls (mo_available r) (world s)) (\<lambda>(ok, w). Inr (ok, s\<lparr>world := w\<rparr>))
     else Inr (False, s))"

definition on_module_links :: "'w modules_state \<Rightarrow> (slist_heap \<Rightarrow> slist_heap kres) \<Rightarrow> 'w modules_state kres" where
  "on_module_links s f = kbind (f (module_links s)) (\<lambda>h. Inr (s\<lparr>module_links := h\<rparr>))"

definition register_module :: "'w module_calls \<Rightarrow> 'w modules_state \<Rightarrow> addr \<Rightarrow> 'w modules_state kres" where
  "register_module calls s m =
     kassert (m \<noteq> NULL)
     (kbind (module_available calls s m) (\<lambda>(ok, s).
      kassert ok
      (kbind (on_module_links s (\<lambda>h. slist_init h (module_link m))) (\<lambda>s.
       on_module_links s (\<lambda>h. slist_insert h (INACTIVE_MODULES s) (module_link m))))))"

fun modules_iterate_over_available :: "'w module_calls \<Rightarrow> ('w modules_state \<Rightarrow> addr \<Rightarrow> 'w modules_state kres) \<Rightarrow> addr list \<Rightarrow>
    'w modules_state \<Rightarrow> 'w modules_state kres" where
  "modules_iterate_over_available calls fn [] s = Inr s"
| "modules_iterate_over_available calls fn (m # ms) s =
     kbind (module_available calls s m) (\<lambda>(ok, s).
     kbind (if ok then fn s m else Inr s) (modules_iterate_over_available calls fn ms))"

definition modules_init :: "'w module_calls \<Rightarrow> addr list \<Rightarrow> 'w modules_state \<Rightarrow> 'w modules_state kres" where
  "modules_init calls modules s =
     kbind (on_module_links s (\<lambda>h. slist_init h (INACTIVE_MODULES s))) (\<lambda>s.
     kbind (on_module_links s (\<lambda>h. slist_init h (LOADED_MODULES s))) (\<lambda>s.
       modules_iterate_over_available calls (register_module calls) modules s))"

fun load_modules_loop :: "nat \<Rightarrow> 'w module_calls \<Rightarrow> 'w modules_state \<Rightarrow> addr \<Rightarrow> 'w modules_state kres" where
  "load_modules_loop 0 calls s it = Inl Fuel"
| "load_modules_loop (Suc fuel) calls s it =
     (if it = NULL then Inr s
      else kbind (module_at s (module_of it)) (\<lambda>r.
        kbind (if mo_load r \<noteq> NULL then call_load calls (mo_load r) (world s) else Inr (world s)) (\<lambda>w.
        let s = s\<lparr>world := w\<rparr> in
        kbind (slist_next (module_links s) it) (load_modules_loop fuel calls s))))"

definition modules_load_available :: "'w module_calls \<Rightarrow> 'w modules_state \<Rightarrow> 'w modules_state kres" where
  "modules_load_available calls s =
     kbind (slist_next (module_links s) (INACTIVE_MODULES s)) (load_modules_loop addr_fuel calls s)"

section \<open>The timer\<close>

record int_timer =
  it_name :: addr
  it_init :: addr
  it_deinit :: addr
  it_inter_after :: addr

definition TIMER_RC_OK :: int where "TIMER_RC_OK = 0"
definition TIMER_RC_FAIL :: int where "TIMER_RC_FAIL = - 1"

text \<open>\<open>TIMER\<close> keeps its value when no timer starts. \<open>call_init f w\<close> calls the function at \<open>f\<close> with the callback.\<close>

fun timer_init :: "(addr \<Rightarrow> 'w \<Rightarrow> (int \<times> 'w) kres) \<Rightarrow> (addr \<rightharpoonup> int_timer) \<Rightarrow> addr list \<Rightarrow> addr \<Rightarrow> 'w \<Rightarrow> (addr \<times> 'w) kres" where
  "timer_init call_init objs [] TIMER w = Inr (TIMER, w)"
| "timer_init call_init objs (t # ts) TIMER w =
     (case objs t of None \<Rightarrow> Inl Undef
      | Some r \<Rightarrow>
          if it_init r \<noteq> NULL
          then kbind (call_init (it_init r) w) (\<lambda>(rc, w).
            if rc \<noteq> TIMER_RC_OK then timer_init call_init objs ts TIMER w else Inr (t, w))
          else Inr (t, w))"

section \<open>What is registered and loaded\<close>

lemma module_of_link [simp]: "module_of (module_link m) = m"
  by (simp add: module_of_def module_link_def)

lemma module_link_eq [simp]: "module_link a = module_link b \<longleftrightarrow> a = b"
  by (simp add: module_link_def)

text \<open>The functions \<open>available\<close> answer the same whenever they are asked and change nothing; those that load return.\<close>

definition calls_ok :: "'w module_calls \<Rightarrow> (addr \<Rightarrow> bool) \<Rightarrow> (addr \<Rightarrow> 'w \<Rightarrow> 'w) \<Rightarrow> bool" where
  "calls_ok calls av ld \<longleftrightarrow> (\<forall>f w. call_available calls f w = Inr (av f, w)) \<and> (\<forall>f w. call_load calls f w = Inr (ld f w))"

definition usable :: "'w modules_state \<Rightarrow> (addr \<Rightarrow> bool) \<Rightarrow> addr \<Rightarrow> bool" where
  "usable s av m \<longleftrightarrow> (let f = mo_available (the (module_objs s m)) in f \<noteq> NULL \<and> av f)"

definition load_module :: "'w modules_state \<Rightarrow> (addr \<Rightarrow> 'w \<Rightarrow> 'w) \<Rightarrow> addr \<Rightarrow> 'w \<Rightarrow> 'w" where
  "load_module s ld m w = (let f = mo_load (the (module_objs s m)) in if f \<noteq> NULL then ld f w else w)"

text \<open>The heads of the lists and the modules of the array are objects of their own.\<close>

definition modules_ok :: "'w modules_state \<Rightarrow> addr list \<Rightarrow> bool" where
  "modules_ok s ms \<longleftrightarrow> INACTIVE_MODULES s \<noteq> NULL \<and> LOADED_MODULES s \<noteq> NULL \<and> INACTIVE_MODULES s \<noteq> LOADED_MODULES s \<and>
     module_links s NULL = None \<and> distinct ms \<and>
     (\<forall>m \<in> set ms. m \<noteq> NULL \<and> module_objs s m \<noteq> None \<and>
       module_link m \<notin> {NULL, INACTIVE_MODULES s, LOADED_MODULES s})"

lemma available_ok:
  assumes "calls_ok calls av ld" and "module_objs s m \<noteq> None"
  shows "module_available calls s m = Inr (usable s av m, s)"
  using assms by (auto simp: module_available_def module_at_def calls_ok_def usable_def Let_def)

lemma register_module_ok:
  assumes c: "calls_ok calls av ld" and m: "m \<noteq> NULL" "module_objs s m \<noteq> None" "usable s av m"
    and rep: "slist_rep (module_links s) (INACTIVE_MODULES s) (map module_link xs)"
    and l: "module_link m \<noteq> NULL" "module_link m \<noteq> INACTIVE_MODULES s" "m \<notin> set xs"
  obtains h where "register_module calls s m = Inr (s\<lparr>module_links := h\<rparr>)"
    "slist_rep h (INACTIVE_MODULES s) (map module_link (m # xs))"
    "\<And>q. q \<noteq> INACTIVE_MODULES s \<Longrightarrow> q \<noteq> module_link m \<Longrightarrow> h q = module_links s q"
proof -
  have n: "module_links s NULL = None" using slist_repD(1) [OF rep] .
  obtain h1 where h1: "slist_init (module_links s) (module_link m) = Inr h1" "\<And>q. q \<noteq> module_link m \<Longrightarrow> h1 q = module_links s q"
    using slist_init_rep [of "module_link m" "module_links s"] l(1) n by metis
  have new: "module_link m \<notin> set (INACTIVE_MODULES s # map module_link xs)" using l(2,3) by auto
  have "\<forall>q \<in> set (INACTIVE_MODULES s # map module_link xs). h1 q = module_links s q" using h1(2) new by metis
  then have r1: "slist_rep h1 (INACTIVE_MODULES s) (map module_link xs)"
    using slist_rep_frame [OF rep] h1(2) [of NULL] l(1) n by auto
  obtain h where h: "slist_insert h1 (INACTIVE_MODULES s) (module_link m) = Inr h"
    "slist_rep h (INACTIVE_MODULES s) (module_link m # map module_link xs)"
    "\<And>q. q \<noteq> INACTIVE_MODULES s \<Longrightarrow> q \<noteq> module_link m \<Longrightarrow> h q = h1 q"
    using slist_insert_rep [of h1 "INACTIVE_MODULES s" "[]" "map module_link xs" "module_link m"] r1 new l(1) by auto
  show ?thesis
    using that [of h] h h1 m available_ok [OF c m(2)] by (simp add: register_module_def on_module_links_def kassert_def)
qed

lemma iterate_registers:
  assumes "calls_ok calls av ld" and "distinct ms" and "set ms \<inter> set xs = {}"
    and "\<forall>m \<in> set ms. m \<noteq> NULL \<and> module_objs s m \<noteq> None \<and> module_link m \<notin> {NULL, INACTIVE_MODULES s}"
    and "slist_rep (module_links s) (INACTIVE_MODULES s) (map module_link xs)"
  shows "\<exists>h. modules_iterate_over_available calls (register_module calls) ms s = Inr (s\<lparr>module_links := h\<rparr>) \<and>
    slist_rep h (INACTIVE_MODULES s) (map module_link (rev (filter (usable s av) ms) @ xs)) \<and>
    (\<forall>q. q \<noteq> INACTIVE_MODULES s \<longrightarrow> q \<notin> module_link ` set ms \<longrightarrow> h q = module_links s q)"
  using assms(2-)
proof (induction ms arbitrary: s xs)
  case Nil
  then show ?case by (intro exI [of _ "module_links s"]) simp
next
  case (Cons m ms)
  have m: "m \<noteq> NULL" "module_objs s m \<noteq> None" "module_link m \<noteq> NULL" "module_link m \<noteq> INACTIVE_MODULES s" "m \<notin> set xs"
    using Cons.prems(2,3) by auto
  have a: "module_available calls s m = Inr (usable s av m, s)" using available_ok [OF assms(1)] Cons.prems(3) by simp
  show ?case
  proof (cases "usable s av m")
    case False
    then show ?thesis using Cons.IH [of xs s] Cons.prems a by auto
  next
    case True
    obtain h where h: "register_module calls s m = Inr (s\<lparr>module_links := h\<rparr>)"
      "slist_rep h (INACTIVE_MODULES s) (map module_link (m # xs))"
      "\<And>q. q \<noteq> INACTIVE_MODULES s \<Longrightarrow> q \<noteq> module_link m \<Longrightarrow> h q = module_links s q"
      using register_module_ok [OF assms(1) _ _ True Cons.prems(4)] m by metis
    have u: "usable (s\<lparr>module_links := h\<rparr>) av = usable s av" by (simp add: usable_def fun_eq_iff)
    have "\<exists>h'. modules_iterate_over_available calls (register_module calls) ms (s\<lparr>module_links := h\<rparr>) = Inr (s\<lparr>module_links := h'\<rparr>) \<and>
      slist_rep h' (INACTIVE_MODULES s) (map module_link (rev (filter (usable s av) ms) @ m # xs)) \<and>
      (\<forall>q. q \<noteq> INACTIVE_MODULES s \<longrightarrow> q \<notin> module_link ` set ms \<longrightarrow> h' q = h q)"
      using Cons.IH [of "m # xs" "s\<lparr>module_links := h\<rparr>"] Cons.prems(1-3) h(2) u by auto
    then obtain h' where h': "modules_iterate_over_available calls (register_module calls) ms (s\<lparr>module_links := h\<rparr>) = Inr (s\<lparr>module_links := h'\<rparr>)"
      "slist_rep h' (INACTIVE_MODULES s) (map module_link (rev (filter (usable s av) ms) @ m # xs))"
      "\<And>q. q \<noteq> INACTIVE_MODULES s \<Longrightarrow> q \<notin> module_link ` set ms \<Longrightarrow> h' q = h q" by blast
    then show ?thesis using h True a by (intro exI [of _ h']) simp
  qed
qed

lemma load_loop_ok:
  assumes "calls_ok calls av ld" and "slist_rep (module_links s) p (map module_link (us @ vs))" and "length vs < fuel"
    and "\<forall>m \<in> set vs. module_objs s m \<noteq> None"
  shows "load_modules_loop fuel calls s (hd (map module_link vs @ [NULL])) = Inr (s\<lparr>world := fold (load_module s ld) vs (world s)\<rparr>)"
  using assms(2-)
proof (induction vs arbitrary: us fuel s)
  case Nil
  then show ?case by (cases fuel) simp_all
next
  case (Cons m vs)
  obtain f where f: "fuel = Suc f" "length vs < f" using Cons.prems(2) by (cases fuel) auto
  let ?s = "s\<lparr>world := load_module s ld m (world s)\<rparr>"
  have "module_link m \<noteq> NULL" using slist_repD(5) [OF Cons.prems(1)] by auto
  moreover have "slist_next (module_links s) (module_link m) = Inr (hd (map module_link vs @ [NULL]))"
    using slist_next_rep [of "module_links s" p "map module_link (us @ [m])" "map module_link vs"] Cons.prems(1) by simp
  moreover have "load_module ?s ld = load_module s ld" by (simp add: load_module_def fun_eq_iff)
  ultimately show ?case using Cons.IH [of ?s "us @ [m]" f] Cons.prems(1,3) f assms(1)
    by (auto simp: module_at_def calls_ok_def load_module_def Let_def)
qed

text \<open>C25: the modules that are available are loaded once each, the last one of the array first, after every module was asked;
  and they all stay on the list of the inactive ones, while the list of the loaded ones is empty.\<close>

theorem modules_loaded_in_reverse:
  assumes "modules_ok s ms" and "calls_ok calls av ld"
  shows "\<exists>s'. kbind (modules_init calls ms s) (modules_load_available calls) = Inr s' \<and>
    world s' = fold (load_module s ld) (rev (filter (usable s av) ms)) (world s) \<and>
    slist_rep (module_links s') (INACTIVE_MODULES s) (map module_link (rev (filter (usable s av) ms))) \<and>
    slist_rep (module_links s') (LOADED_MODULES s) []"
proof -
  let ?I = "INACTIVE_MODULES s" and ?L = "LOADED_MODULES s" and ?vs = "rev (filter (usable s av) ms)"
  have k: "?I \<noteq> NULL" "?L \<noteq> NULL" "?I \<noteq> ?L" "module_links s NULL = None" "distinct ms"
    "\<forall>m \<in> set ms. m \<noteq> NULL \<and> module_objs s m \<noteq> None \<and> module_link m \<notin> {NULL, ?I, ?L}"
    using assms(1) by (simp_all add: modules_ok_def)
  obtain h1 where h1: "slist_init (module_links s) ?I = Inr h1" "slist_rep h1 ?I []"
    using slist_init_rep [of ?I "module_links s"] k(1,4) by metis
  obtain h2 where h2: "slist_init h1 ?L = Inr h2" "slist_rep h2 ?L []" "\<And>q. q \<noteq> ?L \<Longrightarrow> h2 q = h1 q"
    using slist_init_rep [of ?L h1] k(2) slist_repD(1) [OF h1(2)] by metis
  let ?s = "s\<lparr>module_links := h2\<rparr>"
  have r2: "slist_rep h2 ?I []" using slist_rep_frame [OF h1(2), of h2] h2(3) k(3) slist_repD(1) [OF h2(2)] by auto
  have u: "usable ?s av = usable s av" by (simp add: usable_def fun_eq_iff)
  obtain h where h: "modules_iterate_over_available calls (register_module calls) ms ?s = Inr (s\<lparr>module_links := h\<rparr>)"
    "slist_rep h ?I (map module_link ?vs)" "\<forall>q. q \<noteq> ?I \<longrightarrow> q \<notin> module_link ` set ms \<longrightarrow> h q = h2 q"
    using iterate_registers [OF assms(2) k(5), of "[]" ?s] k(6) r2 u by auto
  have init: "modules_init calls ms s = Inr (s\<lparr>module_links := h\<rparr>)"
    using h1(1) h2(1) h(1) by (simp add: modules_init_def on_module_links_def)
  have "?L \<notin> module_link ` set ms" using k(6) by (metis imageE insert_iff)
  then have "h ?L = h2 ?L" using h(3) k(3) by metis
  then have L: "slist_rep h ?L []" using slist_rep_frame [OF h2(2), of h] slist_repD(1) [OF h(2)] by auto
  let ?t = "s\<lparr>module_links := h\<rparr>"
  have "length (?I # map module_link ?vs) \<le> addr_fuel" using slist_repD(4) [OF h(2)] by (rule distinct_addr_length)
  then have len: "length ?vs < addr_fuel" by simp
  have nx: "slist_next h ?I = Inr (hd (map module_link ?vs @ [NULL]))"
    using slist_next_rep [of h ?I "[]" "map module_link ?vs"] h(2) by simp
  have ld: "load_module ?t ld = load_module s ld" by (simp add: load_module_def fun_eq_iff)
  have "load_modules_loop addr_fuel calls ?t (hd (map module_link ?vs @ [NULL])) = Inr (?t\<lparr>world := fold (load_module s ld) ?vs (world s)\<rparr>)"
    using load_loop_ok [OF assms(2), of ?t ?I "[]" ?vs addr_fuel] h(2) len k(6) ld by auto
  then have "modules_load_available calls ?t = Inr (?t\<lparr>world := fold (load_module s ld) ?vs (world s)\<rparr>)"
    using nx by (simp add: modules_load_available_def)
  then show ?thesis using init h(2) L by simp
qed

text \<open>Three modules, the second one not available; what is loaded is written down.\<close>

definition example_modules :: "addr list modules_state" where
  "example_modules = \<lparr>module_objs = [0x100 \<mapsto> \<lparr>mo_name = 0, mo_available = 1, mo_load = 11, mo_unload = 0\<rparr>,
     0x200 \<mapsto> \<lparr>mo_name = 0, mo_available = 2, mo_load = 12, mo_unload = 0\<rparr>,
     0x300 \<mapsto> \<lparr>mo_name = 0, mo_available = 1, mo_load = 13, mo_unload = 0\<rparr>],
     module_links = Map.empty, INACTIVE_MODULES = 0x10, LOADED_MODULES = 0x20, world = []\<rparr>"

definition example_module_calls :: "addr list module_calls" where
  "example_module_calls = \<lparr>call_available = (\<lambda>f w. Inr (f = 1, w)), call_load = (\<lambda>f w. Inr (w @ [f]))\<rparr>"

theorem modules_loaded_in_reverse_witness:
  "\<exists>s'. kbind (modules_init example_module_calls [0x100, 0x200, 0x300] example_modules)
      (modules_load_available example_module_calls) = Inr s' \<and> world s' = [13, 11]"
proof -
  have m: "modules_ok example_modules [0x100, 0x200, 0x300]"
    by (simp add: modules_ok_def example_modules_def module_link_def)
  have c: "calls_ok example_module_calls (\<lambda>f. f = 1) (\<lambda>f w. w @ [f])"
    by (simp add: calls_ok_def example_module_calls_def)
  show ?thesis using modules_loaded_in_reverse [OF m c]
    by (auto simp: example_modules_def usable_def load_module_def)
qed

section \<open>The first timer that starts\<close>

lemma timer_init_first:
  assumes "\<And>f w. call_init f w = Inr (rc f, w)" and "\<forall>t \<in> set ts. objs t \<noteq> None"
  shows "timer_init call_init objs ts old w =
    Inr (case find (\<lambda>t. it_init (the (objs t)) = NULL \<or> rc (it_init (the (objs t))) = TIMER_RC_OK) ts of
      None \<Rightarrow> old | Some t \<Rightarrow> t, w)"
  using assms(2) by (induction ts) (auto simp: assms(1))

lemma unat_ucast_u16: "unat (ucast (w :: u16) :: u32) = unat w"
  by (simp only: unsigned_ucast_eq, rule take_bit_nat_eq_self, rule less_le_trans [OF unsigned_less]) simp

text \<open>C29: the interval timer waits no shorter than it is asked to, but for less than a tick of its own; a wait of more than 52
  milliseconds is cut to 65535 ticks, which is less than 55.\<close>

theorem divisor_bounds:
  assumes "0 < ms"
  shows "\<exists>d. divisor ms = Inr d \<and> 0 < d \<and>
    (if unat ms \<le> 52 then unat PIT_FREQUENCY * unat ms < 1000 * (unat d + 1) \<and> unat d * (1000 div unat ms) \<le> unat PIT_FREQUENCY
     else d = 65535 \<and> 1000 * unat d < unat PIT_FREQUENCY * 55)"
proof -
  let ?n = "unat ms" and ?F = "unat PIT_FREQUENCY"
  let ?h = "1000 div ?n"
  have n: "0 < ?n" using assms by (simp add: word_less_nat_alt)
  have le: "?h \<le> 1000" by simp
  have lt: "take_bit 16 ?h = ?h" by (rule take_bit_nat_eq_self, rule le_less_trans [OF le]) simp
  have q: "unat (1000 div ms) = ?h" by (simp add: unat_div)
  then have hz: "unat (ucast (1000 div ms) :: u16) = ?h" by (simp add: unsigned_ucast_eq lt)
  have F: "?F = 1193182" by (simp add: PIT_FREQUENCY_def)
  show ?thesis
  proof (cases "?n \<le> 52")
    case True
    have "19 * ?n \<le> 1000" using True by simp
    then have h: "19 \<le> ?h" using n by (simp add: less_eq_div_iff_mult_less_eq)
    then have "\<not> (ucast (1000 div ms) :: u16) < 19" using hz by (simp add: word_less_nat_alt)
    then have dv: "divisor ms = Inr (ucast (PIT_FREQUENCY div ucast (ucast (1000 div ms) :: u16)))" (is "_ = Inr ?d")
      using assms by (simp add: divisor_def)
    have "unat (ucast (ucast (1000 div ms) :: u16) :: u32) = ?h" using hz by (simp only: unat_ucast_u16)
    then have "unat (PIT_FREQUENCY div ucast (ucast (1000 div ms) :: u16)) = ?F div ?h" by (simp add: unat_div)
    moreover have "?F div ?h \<le> ?F div 19" using h by (simp add: div_le_mono2)
    ultimately have d: "unat ?d = ?F div ?h" unfolding F by (simp add: unsigned_ucast_eq take_bit_nat_eq_self)
    have "?F < ?h * (unat ?d + 1)" unfolding d using h dividend_less_times_div [of ?h ?F] by (simp add: algebra_simps)
    then have "?n * ?F < ?n * (?h * (unat ?d + 1))" using n by simp
    also have "\<dots> \<le> 1000 * (unat ?d + 1)" using mult_le_mono1 [OF times_div_less_eq_dividend [of ?n 1000], of "unat ?d + 1"]
      by (simp only: mult.assoc)
    finally have "?F * ?n < 1000 * (unat ?d + 1)" by (simp add: mult.commute)
    moreover have "unat ?d * ?h \<le> ?F" unfolding d by (rule div_times_less_eq_dividend)
    moreover have "?F div 1000 \<le> ?F div ?h" using h by (intro div_le_mono2 le) linarith
    then have "0 < unat ?d" unfolding d by (simp add: F)
    then have "0 < ?d" by (simp add: word_less_nat_alt)
    ultimately show ?thesis using dv True by simp
  next
    case False
    have "?h < 19" using False n by (simp add: div_less_iff_less_mult)
    then have "(ucast (1000 div ms) :: u16) < 19" using hz by (simp add: word_less_nat_alt)
    then have "divisor ms = Inr 65535" using assms by (simp add: divisor_def)
    then show ?thesis using False by (simp add: F)
  qed
qed

theorem divisor_bounds_witness: "divisor 1000 = Inr 65535 \<and> (\<exists>d. divisor 10 = Inr d \<and> 11931820 < 1000 * (unat d + 1))"
  using divisor_bounds [of 1000] divisor_bounds [of 10] by (auto simp: PIT_FREQUENCY_def)

end
