(* ===== verification/Boot_Paging.thy ===== *)
theory Boot_Paging
  imports Page_Fault
begin

text \<open>
  kernel/arch/i686/early_paging.c and kernel_arch_get_segment of kernel.c: the directory and the table the kernel
  starts with. Until paging is on, an address is the one of memory itself; then it goes through the walk. The
  addresses the linker script decides are a record of their own. Of the stack, the words of the frames that are patched
  are modelled, by their place in memory.
\<close>

section \<open>Segments\<close>

datatype kernel_segments = KSEGMENT_TEXT | KSEGMENT_RODATA | KSEGMENT_DATA | KSEGMENT_BSS

record kernel_symbols =
  kernel_text_start :: addr
  kernel_text_end :: addr
  kernel_rodata_start :: addr
  kernel_rodata_end :: addr
  kernel_data_start :: addr
  kernel_data_end :: addr
  kernel_bss_start :: addr
  kernel_bss_end :: addr
  boot_paging_pd :: addr
  boot_paging_pt :: addr

fun kernel_arch_get_segment :: "kernel_symbols \<Rightarrow> kernel_segments \<Rightarrow> addr \<times> addr" where
  "kernel_arch_get_segment k KSEGMENT_TEXT = (kernel_text_start k, kernel_text_end k)"
| "kernel_arch_get_segment k KSEGMENT_RODATA = (kernel_rodata_start k, kernel_rodata_end k)"
| "kernel_arch_get_segment k KSEGMENT_DATA = (kernel_data_start k, kernel_data_end k)"
| "kernel_arch_get_segment k KSEGMENT_BSS = (kernel_bss_start k, kernel_bss_end k)"

definition KERNEL_VM_OFFSET :: addr where "KERNEL_VM_OFFSET = 0xC0000000"
definition TO_LOW :: "addr \<Rightarrow> addr" where "TO_LOW a = a - KERNEL_VM_OFFSET"
definition TO_HIGH :: "addr \<Rightarrow> addr" where "TO_HIGH a = a + KERNEL_VM_OFFSET"

section \<open>Entries before and after paging is on\<close>

record boot_state =
  boot_mmu :: mmu
  paging :: bool
  stack_mem :: "addr \<Rightarrow> u32"
  ebp :: addr

definition boot_frame :: "boot_state \<Rightarrow> addr \<Rightarrow> frame option" where
  "boot_frame s p = (if paging s then page_frame (boot_mmu s) p else Some (phys_frame p))"

definition boot_load :: "boot_state \<Rightarrow> addr \<Rightarrow> i686_vm_pge kres" where
  "boot_load s p = (case boot_frame s p of None \<Rightarrow> Inl Undef | Some f \<Rightarrow> Inr (frames (boot_mmu s) f (entry_index p)))"

definition boot_put :: "boot_state \<Rightarrow> addr \<Rightarrow> (i686_vm_pge \<Rightarrow> i686_vm_pge) \<Rightarrow> boot_state kres" where
  "boot_put s p g = (case boot_frame s p of None \<Rightarrow> Inl Undef
     | Some f \<Rightarrow> Inr (s\<lparr>boot_mmu := set_entry (boot_mmu s) f (entry_index p) (g (frames (boot_mmu s) f (entry_index p)))\<rparr>))"

definition boot_set_addr :: "boot_state \<Rightarrow> addr \<Rightarrow> addr \<Rightarrow> boot_state kres" where
  "boot_set_addr s entry phys_addr = boot_put s entry (paddr_update (\<lambda>_. phys_frame phys_addr))"

definition boot_get_addr :: "boot_state \<Rightarrow> addr \<Rightarrow> addr kres" where
  "boot_get_addr s entry = kbind (boot_load s entry) (\<lambda>e. kassert (is_present e) (Inr (push_bit 12 (ucast (paddr e)))))"

text \<open>The place in memory of the word at an address.\<close>

definition boot_place :: "boot_state \<Rightarrow> addr \<Rightarrow> addr kres" where
  "boot_place s p = (case boot_frame s p of None \<Rightarrow> Inl Undef | Some f \<Rightarrow> Inr (push_bit 12 (ucast f) OR take_bit 12 p))"

definition boot_add_word :: "boot_state \<Rightarrow> addr \<Rightarrow> u32 \<Rightarrow> boot_state kres" where
  "boot_add_word s p offset = kbind (boot_place s p) (\<lambda>a. Inr (s\<lparr>stack_mem := (stack_mem s)(a := stack_mem s a + offset)\<rparr>))"

definition boot_setup_recursive_mapping :: "boot_state \<Rightarrow> addr \<Rightarrow> addr \<Rightarrow> boot_state kres" where
  "boot_setup_recursive_mapping s dir_actual dir_paddr =
     (let e = dir_recursive dir_actual in
      kbind (boot_load s e) (\<lambda>x. kassert (\<not> is_present x)
      (kbind (boot_set_addr s e dir_paddr) (\<lambda>s.
       kbind (boot_put s e (is_present_update (\<lambda>_. True))) (\<lambda>s.
         boot_put s e (pge_flags_update (\<lambda>g. g OR I686VM_DIR_FLAG_RW)))))))"

section \<open>Mapping what the kernel starts with\<close>

fun map_addr_range_loop :: "nat \<Rightarrow> boot_state \<Rightarrow> addr \<Rightarrow> addr \<Rightarrow> addr \<Rightarrow> 7 word \<Rightarrow> boot_state kres" where
  "map_addr_range_loop 0 s page_dir page upto_page flags = Inl Fuel"
| "map_addr_range_loop (Suc fuel) s page_dir page upto_page flags =
     (if page < upto_page
      then let high_page = TO_HIGH page; pde = i686_vm_get_pge I686VM_PGLVL_DIR page_dir high_page in
        kbind (boot_get_addr s pde) (\<lambda>pt.
        let pte = i686_vm_get_pge I686VM_PGLVL_TABLE pt high_page in
        kbind (boot_set_addr s pte page) (\<lambda>s.
        kbind (boot_put s pte (is_present_update (\<lambda>_. True))) (\<lambda>s.
        kbind (boot_put s pte (pge_flags_update (\<lambda>_. flags))) (\<lambda>s.
          map_addr_range_loop fuel s page_dir (page + PLATFORM_PAGE_SIZE) upto_page flags))))
      else Inr s)"

definition map_addr_range :: "boot_state \<Rightarrow> addr \<Rightarrow> addr \<Rightarrow> addr \<Rightarrow> 7 word \<Rightarrow> boot_state kres" where
  "map_addr_range s page_dir start end_addr flags =
     map_addr_range_loop addr_fuel s page_dir (align_rounddown start PLATFORM_PAGE_SIZE) (align_roundup end_addr PLATFORM_PAGE_SIZE) flags"

definition map_segment :: "kernel_symbols \<Rightarrow> boot_state \<Rightarrow> kernel_segments \<Rightarrow> addr \<Rightarrow> 7 word \<Rightarrow> boot_state kres" where
  "map_segment k s seg pdir flags =
     (let (start, end_addr) = kernel_arch_get_segment k seg in map_addr_range s pdir (TO_LOW start) (TO_LOW end_addr) flags)"

definition map_kernel :: "kernel_symbols \<Rightarrow> boot_state \<Rightarrow> addr \<Rightarrow> boot_state kres" where
  "map_kernel k s page_dir =
     kbind (map_segment k s KSEGMENT_TEXT page_dir 0) (\<lambda>s.
     kbind (map_segment k s KSEGMENT_DATA page_dir I686VM_TABLE_FLAG_RW) (\<lambda>s.
     kbind (map_segment k s KSEGMENT_RODATA page_dir 0) (\<lambda>s.
       map_segment k s KSEGMENT_BSS page_dir I686VM_TABLE_FLAG_RW)))"

definition map_platform :: "boot_state \<Rightarrow> addr \<Rightarrow> boot_state kres" where
  "map_platform s page_dir = map_addr_range s page_dir NULL (1 * 1024 * 1024) I686VM_TABLE_FLAG_RW"

definition i686_vm_set_pt :: "boot_state \<Rightarrow> addr \<Rightarrow> boot_state" where
  "i686_vm_set_pt s root_dir = s\<lparr>boot_mmu := (boot_mmu s)\<lparr>cr3 := phys_frame root_dir\<rparr>\<rparr>"

text \<open>\<open>ip\<close> and \<open>sp\<close> are the addresses of the code that runs and of its stack: both must be mapped to themselves when paging
  goes on, and to the same memory where the code jumps to.\<close>

definition i686_vm_paging_enable :: "boot_state \<Rightarrow> addr \<Rightarrow> addr \<Rightarrow> addr \<Rightarrow> boot_state kres" where
  "i686_vm_paging_enable s hh_offset ip sp =
     (let m = boot_mmu s in
      if page_frame m ip = Some (phys_frame ip) \<and> page_frame m sp = Some (phys_frame sp) \<and>
         page_frame m (ip + hh_offset) = Some (phys_frame ip) \<and> page_frame m (sp + hh_offset) = Some (phys_frame sp)
      then Inr (s\<lparr>paging := True, ebp := ebp s + hh_offset\<rparr>) else Inl Undef)"

text \<open>The frame of the function itself is at \<open>ebp\<close>; the word there is the address of the frame of its caller.\<close>

definition PATCH_FRAME :: "nat \<Rightarrow> u32 \<Rightarrow> boot_state \<Rightarrow> boot_state kres" where
  "PATCH_FRAME level offset s =
     kbind (if level = 0 then Inr (ebp s) else kbind (boot_place s (ebp s)) (\<lambda>a. Inr (stack_mem s a))) (\<lambda>frame.
     kbind (boot_add_word s (frame + 4) offset) (\<lambda>s. boot_add_word s frame offset))"

definition setup_boot_paging :: "kernel_symbols \<Rightarrow> addr \<Rightarrow> addr \<Rightarrow> boot_state \<Rightarrow> boot_state kres" where
  "setup_boot_paging k ip sp s =
     (let pd = TO_LOW (boot_paging_pd k); pt = TO_LOW (boot_paging_pt k) in
      kbind (boot_setup_recursive_mapping s pd pd) (\<lambda>s.
      let pde_low = i686_vm_get_pge I686VM_PGLVL_DIR pd 0 in
      kbind (boot_put s pde_low (is_present_update (\<lambda>_. True))) (\<lambda>s.
      kbind (boot_set_addr s pde_low pt) (\<lambda>s.
      kbind (boot_put s pde_low (pge_flags_update (\<lambda>_. I686VM_DIR_FLAG_RW))) (\<lambda>s.
      let koffset = KERNEL_VM_OFFSET; pde_high = i686_vm_get_pge I686VM_PGLVL_DIR pd koffset in
      kbind (boot_load s pde_low) (\<lambda>e. kbind (boot_put s pde_high (\<lambda>_. e)) (\<lambda>s.
      kbind (map_kernel k s pd) (\<lambda>s.
      kbind (map_platform s pd) (\<lambda>s.
      kbind (i686_vm_paging_enable (i686_vm_set_pt s pd) KERNEL_VM_OFFSET ip sp) (\<lambda>s.
      kbind (PATCH_FRAME 1 KERNEL_VM_OFFSET s) (\<lambda>s.
      kbind (PATCH_FRAME 0 KERNEL_VM_OFFSET s) (\<lambda>s.
        boot_put s pde_low (is_present_update (\<lambda>_. False))))))))))))))"

text \<open>\<open>mmap_addr\<close> of the multiboot information.\<close>

definition patch_multiboot_info :: "u32 \<Rightarrow> u32" where
  "patch_multiboot_info mmap_addr = TO_HIGH mmap_addr"

section \<open>What the loop writes\<close>

lemma get_pge_places [simp]:
  "i686_vm_get_pge I686VM_PGLVL_DIR dir v = dir + 4 * ucast (pd_index v)"
  "i686_vm_get_pge I686VM_PGLVL_TABLE dir v = dir + 4 * ucast (pt_index v)"
  by (simp_all add: i686_vm_get_pge_def get_pde_ndx_eq get_pte_ndx_eq)

definition put_entry :: "boot_state \<Rightarrow> frame \<Rightarrow> 10 word \<Rightarrow> i686_vm_pge \<Rightarrow> boot_state" where
  "put_entry s f i e = s\<lparr>boot_mmu := set_entry (boot_mmu s) f i e\<rparr>"

definition entry_at :: "boot_state \<Rightarrow> frame \<Rightarrow> 10 word \<Rightarrow> i686_vm_pge" where
  "entry_at s f i = frames (boot_mmu s) f i"

lemma put_entry_simps [simp]:
  "paging (put_entry s f i e) = paging s" "stack_mem (put_entry s f i e) = stack_mem s" "ebp (put_entry s f i e) = ebp s"
  "cr3 (boot_mmu (put_entry s f i e)) = cr3 (boot_mmu s)"
  "entry_at (put_entry s f i e) g j = (if g = f \<and> j = i then e else entry_at s g j)"
  "put_entry (put_entry s f i e) f i e' = put_entry s f i e'"
  by (simp_all add: put_entry_def entry_at_def)

lemma boot_state_eqI:
  "paging s = paging t \<Longrightarrow> stack_mem s = stack_mem t \<Longrightarrow> ebp s = ebp t \<Longrightarrow> cr3 (boot_mmu s) = cr3 (boot_mmu t) \<Longrightarrow> (\<And>g j. entry_at s g j = entry_at t g j) \<Longrightarrow> s = (t :: boot_state)"
  by (cases s; cases t; cases "boot_mmu s"; cases "boot_mmu t") (auto simp: entry_at_def fun_eq_iff)

lemma low_access:
  assumes "\<not> paging s" and "check_align dir PLATFORM_PAGE_SIZE"
  shows "boot_load s (dir + 4 * ucast i) = Inr (entry_at s (phys_frame dir) i)"
    "boot_put s (dir + 4 * ucast i) g = Inr (put_entry s (phys_frame dir) i (g (entry_at s (phys_frame dir) i)))"
  using entry_place [OF assms(2), of i] assms(1)
  by (simp_all add: boot_load_def boot_put_def boot_frame_def phys_frame_def put_entry_def entry_at_def)

text \<open>The entries \<open>a\<close> to \<open>b - 1\<close> of a table map the pages of these numbers.\<close>

definition map_range :: "boot_state \<Rightarrow> frame \<Rightarrow> nat \<Rightarrow> nat \<Rightarrow> 7 word \<Rightarrow> boot_state" where
  "map_range s ft a b fl = s\<lparr>boot_mmu := (boot_mmu s)\<lparr>frames := (frames (boot_mmu s))(ft := (\<lambda>i.
     if a \<le> unat i \<and> unat i < b
     then (frames (boot_mmu s) ft i)\<lparr>paddr := ucast i, is_present := True, pge_flags := fl\<rparr>
     else frames (boot_mmu s) ft i))\<rparr>\<rparr>"

lemma map_range_simps [simp]:
  "paging (map_range s ft a b fl) = paging s" "stack_mem (map_range s ft a b fl) = stack_mem s" "ebp (map_range s ft a b fl) = ebp s"
  "cr3 (boot_mmu (map_range s ft a b fl)) = cr3 (boot_mmu s)"
  "entry_at (map_range s ft a b fl) g i = (if g = ft \<and> a \<le> unat i \<and> unat i < b
     then (entry_at s ft i)\<lparr>paddr := ucast i, is_present := True, pge_flags := fl\<rparr> else entry_at s g i)"
  by (simp_all add: map_range_def entry_at_def)

lemma map_range_empty: "b \<le> a \<Longrightarrow> map_range s ft a b fl = s"
  by (rule boot_state_eqI) auto

lemma map_range_step:
  assumes "a < b" and "unat i = a"
  shows "map_range (put_entry s ft i ((entry_at s ft i)\<lparr>paddr := ucast i, is_present := True, pge_flags := fl\<rparr>)) ft (Suc a) b fl =
    map_range s ft a b fl"
proof (rule boot_state_eqI)
  fix g and j :: "10 word"
  show "entry_at (map_range (put_entry s ft i ((entry_at s ft i)\<lparr>paddr := ucast i, is_present := True, pge_flags := fl\<rparr>)) ft (Suc a) b fl) g j =
      entry_at (map_range s ft a b fl) g j"
  proof (cases "j = i")
    case False
    then have "unat j \<noteq> a" using assms(2) by (metis unsigned_word_eqI)
    then have "Suc a \<le> unat j \<longleftrightarrow> a \<le> unat j" by linarith
    then show ?thesis using False by simp
  qed (use assms in simp)
qed simp_all

lemma high_place:
  assumes "unat p < 0x400000"
  shows "pd_index (TO_HIGH p) = 768" "unat (pt_index (TO_HIGH p)) = unat p div 4096" "unat (TO_HIGH p) = unat p + 0xC0000000"
proof -
  show u: "unat (TO_HIGH p) = unat p + 0xC0000000"
    using assms by (simp add: TO_HIGH_def KERNEL_VM_OFFSET_def unat_add32)
  have "(unat p + 0xC0000000) div 0x400000 = 768" using assms by simp
  then have "unat (pd_index (TO_HIGH p)) = 768" by (simp add: pd_index_def unat_ucast10 unat_drop_bit_32 u)
  then show "pd_index (TO_HIGH p) = 768" by (intro unsigned_word_eqI) simp
  have "(unat p + 0xC0000000) div 0x1000 = unat p div 0x1000 + 768 * 1024" by simp
  then have "(unat p + 0xC0000000) div 0x1000 mod 1024 = unat p div 0x1000"
    using assms mod_mult_self1 [of "unat p div 0x1000" 768 1024] by simp
  then show "unat (pt_index (TO_HIGH p)) = unat p div 4096" by (simp add: pt_index_def unat_ucast10 unat_drop_bit_32 u)
qed

lemma phys_frame_eq: "unat p < 0x400000 \<Longrightarrow> unat i = unat p div 4096 \<Longrightarrow> phys_frame p = ucast (i :: 10 word)"
proof -
  assume a: "unat p < 0x400000" "unat i = unat p div 4096"
  then have "unat (phys_frame p) = unat (ucast i :: frame)"
    by (simp add: phys_frame_def unsigned_ucast_eq unat_drop_bit_32 take_bit_nat_eq_self)
  then show ?thesis by (rule unsigned_word_eqI)
qed

definition boot_tables :: "boot_state \<Rightarrow> addr \<Rightarrow> frame \<Rightarrow> bool" where
  "boot_tables s dir ft \<longleftrightarrow> \<not> paging s \<and> check_align dir PLATFORM_PAGE_SIZE \<and> phys_frame dir \<noteq> ft \<and>
     is_present (entry_at s (phys_frame dir) 768) \<and> paddr (entry_at s (phys_frame dir) 768) = ft"

lemma frame_addr_aligned: "check_align (push_bit 12 (ucast (f :: frame))) PLATFORM_PAGE_SIZE"
  using and_neg_pow2 [of "push_bit 12 (ucast f)" 12]
  by (simp add: check_align_def align_rounddown_def PLATFORM_PAGE_SIZE_def take_bit_push_bit)

lemma map_loop_ok:
  assumes "boot_tables s dir ft" and "unat p = 4096 * a" and "unat e = 4096 * b" and "b \<le> 1024" and "b - a < fuel"
  shows "map_addr_range_loop fuel s dir p e fl = Inr (map_range s ft a b fl)"
  using assms(1,2,5)
proof (induction fuel arbitrary: s p a)
  case (Suc fuel)
  show ?case
  proof (cases "a < b")
    case False
    then have "\<not> p < e" using Suc.prems(2) assms(3) by (simp add: word_less_nat_alt)
    then show ?thesis using False by (simp add: map_range_empty)
  next
    case True
    have lt: "p < e" "unat p < 0x400000" using True Suc.prems(2) assms(3,4) by (simp_all add: word_less_nat_alt)
    let ?i = "pt_index (TO_HIGH p)"
    have i: "unat ?i = a" "phys_frame p = ucast ?i"
      using high_place(2) [OF lt(2)] phys_frame_eq [OF lt(2)] Suc.prems(2) by simp_all
    have t: "\<not> paging s" "check_align dir PLATFORM_PAGE_SIZE" "phys_frame dir \<noteq> ft" "is_present (entry_at s (phys_frame dir) 768)"
      "paddr (entry_at s (phys_frame dir) 768) = ft" using Suc.prems(1) by (simp_all add: boot_tables_def)
    let ?s = "put_entry s ft ?i ((entry_at s ft ?i)\<lparr>paddr := ucast ?i, is_present := True, pge_flags := fl\<rparr>)"
    have "unat (p + PLATFORM_PAGE_SIZE) = 4096 * Suc a"
      using lt(2) Suc.prems(2) by (subst unat_add32) (simp_all add: PLATFORM_PAGE_SIZE_def)
    moreover have "boot_tables ?s dir ft" using t by (simp add: boot_tables_def)
    moreover have "b - Suc a < fuel" using Suc.prems(3) True by linarith
    ultimately have ih: "map_addr_range_loop fuel ?s dir (p + PLATFORM_PAGE_SIZE) e fl = Inr (map_range s ft a b fl)"
      using Suc.IH [of ?s "p + PLATFORM_PAGE_SIZE" "Suc a"] map_range_step [OF True i(1)] by simp
    show ?thesis using lt(1) t ih
      by (simp add: high_place(1) [OF lt(2)] boot_get_addr_def low_access boot_set_addr_def frame_addr_aligned i(2) Let_def)
  qed
qed simp

section \<open>The layout of the kernel\<close>

text \<open>The segments in the order of the linker script, each from the start of a page, in the first four megabytes after
  the low memory; the directory and the table in the last one.\<close>

definition page_in :: "addr \<Rightarrow> addr \<Rightarrow> addr \<Rightarrow> bool" where
  "page_in lo hi p \<longleftrightarrow> check_align p PLATFORM_PAGE_SIZE \<and> lo \<le> p \<and> unat p + 4096 \<le> unat hi"

definition boot_layout :: "kernel_symbols \<Rightarrow> bool" where
  "boot_layout k \<longleftrightarrow> 0xC0100000 \<le> kernel_text_start k \<and> kernel_text_start k \<le> kernel_text_end k \<and>
     kernel_text_end k \<le> kernel_rodata_start k \<and> kernel_rodata_start k \<le> kernel_rodata_end k \<and>
     kernel_rodata_end k \<le> kernel_data_start k \<and> kernel_data_start k \<le> kernel_data_end k \<and>
     kernel_data_end k \<le> kernel_bss_start k \<and> kernel_bss_start k \<le> kernel_bss_end k \<and> kernel_bss_end k \<le> 0xC0400000 \<and>
     (\<forall>seg. check_align (fst (kernel_arch_get_segment k seg)) PLATFORM_PAGE_SIZE) \<and>
     page_in (kernel_bss_start k) (kernel_bss_end k) (boot_paging_pd k) \<and>
     page_in (kernel_bss_start k) (kernel_bss_end k) (boot_paging_pt k) \<and> boot_paging_pd k \<noteq> boot_paging_pt k"

definition in_segment :: "kernel_symbols \<Rightarrow> kernel_segments \<Rightarrow> addr \<Rightarrow> bool" where
  "in_segment k seg v \<longleftrightarrow> fst (kernel_arch_get_segment k seg) \<le> v \<and>
     align_rounddown v PLATFORM_PAGE_SIZE < snd (kernel_arch_get_segment k seg)"

definition boot_mapped :: "kernel_symbols \<Rightarrow> addr \<Rightarrow> bool" where
  "boot_mapped k v \<longleftrightarrow> KERNEL_VM_OFFSET \<le> v \<and> (v < KERNEL_VM_OFFSET + 0x100000 \<or> (\<exists>seg. in_segment k seg v))"

text \<open>The numbers of the pages of a segment.\<close>

definition first_page :: "kernel_symbols \<Rightarrow> kernel_segments \<Rightarrow> nat" where
  "first_page k seg = unat (TO_LOW (fst (kernel_arch_get_segment k seg))) div 4096"

definition end_page :: "kernel_symbols \<Rightarrow> kernel_segments \<Rightarrow> nat" where
  "end_page k seg = (unat (TO_LOW (snd (kernel_arch_get_segment k seg))) + 4095) div 4096"

lemma low_unat: "0xC0000000 \<le> v \<Longrightarrow> unat (TO_LOW v) = unat v - 0xC0000000" for v :: addr
  by (simp add: TO_LOW_def KERNEL_VM_OFFSET_def word_le_nat_alt unat_sub32)

lemma segment_bounds:
  assumes "boot_layout k"
  shows "0xC0100000 \<le> fst (kernel_arch_get_segment k seg)" "fst (kernel_arch_get_segment k seg) \<le> snd (kernel_arch_get_segment k seg)"
    "snd (kernel_arch_get_segment k seg) \<le> 0xC0400000" "check_align (fst (kernel_arch_get_segment k seg)) PLATFORM_PAGE_SIZE"
proof -
  have c: "unat (0xC0100000 :: u32) \<le> unat (kernel_text_start k)" "unat (kernel_text_start k) \<le> unat (kernel_text_end k)"
    "unat (kernel_text_end k) \<le> unat (kernel_rodata_start k)" "unat (kernel_rodata_start k) \<le> unat (kernel_rodata_end k)"
    "unat (kernel_rodata_end k) \<le> unat (kernel_data_start k)" "unat (kernel_data_start k) \<le> unat (kernel_data_end k)"
    "unat (kernel_data_end k) \<le> unat (kernel_bss_start k)" "unat (kernel_bss_start k) \<le> unat (kernel_bss_end k)"
    "unat (kernel_bss_end k) \<le> unat (0xC0400000 :: u32)"
    using assms unfolding boot_layout_def word_le_nat_alt by blast+
  show "0xC0100000 \<le> fst (kernel_arch_get_segment k seg)" "fst (kernel_arch_get_segment k seg) \<le> snd (kernel_arch_get_segment k seg)"
    "snd (kernel_arch_get_segment k seg) \<le> 0xC0400000"
    unfolding word_le_nat_alt using c by (cases seg; simp only: kernel_arch_get_segment.simps fst_conv snd_conv; linarith)+
  show "check_align (fst (kernel_arch_get_segment k seg)) PLATFORM_PAGE_SIZE"
    using assms unfolding boot_layout_def by blast
qed

lemma page_below: "d < (y + 4095) div 4096 \<longleftrightarrow> d * 4096 < (y :: nat)"
  using less_eq_div_iff_mult_less_eq [of 4096 "Suc d" "y + 4095"] by (simp add: Suc_le_eq)

lemma segment_pages:
  assumes "boot_layout k" and "0xC0000000 \<le> v"
  shows "in_segment k seg v \<longleftrightarrow> first_page k seg \<le> unat (TO_LOW v) div 4096 \<and> unat (TO_LOW v) div 4096 < end_page k seg"
proof -
  let ?s = "fst (kernel_arch_get_segment k seg)" and ?e = "snd (kernel_arch_get_segment k seg)"
  note b = segment_bounds [OF assms(1), of seg]
  obtain q where q: "unat ?s = 4096 * q" using b(4) by (auto simp: page_align_dvd)
  have n: "3221225472 \<le> unat ?s" "unat ?s \<le> unat ?e" "3221225472 \<le> unat v"
    using b(1,2) assms(2) by (simp_all add: word_le_nat_alt)
  have h: "0xC0000000 \<le> ?s" "0xC0000000 \<le> ?e" using n by (simp_all add: word_le_nat_alt)
  define x where "x = unat (TO_LOW v)"
  define y where "y = unat (TO_LOW ?e)"
  define z where "z = unat (TO_LOW ?s) div 4096"
  have l: "unat v = x + 3221225472" "unat ?e = y + 3221225472" "unat ?s = z * 4096 + 3221225472"
    using low_unat [OF h(1)] low_unat [OF h(2)] low_unat [OF assms(2)] n q by (simp_all add: x_def y_def z_def)
  have r: "unat (align_rounddown v PLATFORM_PAGE_SIZE) = x div 4096 * 4096 + 3221225472"
    using unat_align_rounddown [of 12 v] div_mult_self1 [of 4096 x 786432] by (simp add: PLATFORM_PAGE_SIZE_def l(1))
  have "?s \<le> v \<longleftrightarrow> z \<le> x div 4096"
    using less_eq_div_iff_mult_less_eq [of 4096 z x] by (simp add: word_le_nat_alt l)
  moreover have "align_rounddown v PLATFORM_PAGE_SIZE < ?e \<longleftrightarrow> x div 4096 < (y + 4095) div 4096"
    unfolding word_less_nat_alt r l(2) page_below by simp
  ultimately show ?thesis by (simp add: in_segment_def first_page_def end_page_def x_def y_def z_def)
qed

lemma map_addr_range_ok:
  assumes "boot_tables s dir ft" and "unat e \<le> 0x400000"
  shows "map_addr_range s dir st e fl = Inr (map_range s ft (unat st div 4096) ((unat e + 4095) div 4096) fl)"
proof -
  have "unat (align_rounddown st PLATFORM_PAGE_SIZE) = 4096 * (unat st div 4096)"
    using unat_align_rounddown [of 12 st] by (simp add: PLATFORM_PAGE_SIZE_def)
  moreover have "unat (align_roundup e PLATFORM_PAGE_SIZE) = 4096 * ((unat e + 4095) div 4096)"
    using unat_align_roundup [of 12 e] assms(2) by (simp add: PLATFORM_PAGE_SIZE_def)
  moreover have "(unat e + 4095) div 4096 \<le> 1024" using assms(2) by linarith
  moreover have "(unat e + 4095) div 4096 - unat st div 4096 < addr_fuel" using calculation(3) by (simp add: addr_fuel_def)
  ultimately show ?thesis using map_loop_ok [OF assms(1)] by (simp add: map_addr_range_def)
qed

lemma boot_tables_map_range [simp]: "boot_tables s dir ft \<Longrightarrow> boot_tables (map_range s ft a b fl) dir ft"
  by (simp add: boot_tables_def)

lemma map_segment_ok:
  assumes "boot_tables s dir ft" and "boot_layout k"
  shows "map_segment k s seg dir fl = Inr (map_range s ft (first_page k seg) (end_page k seg) fl)"
proof -
  let ?e = "snd (kernel_arch_get_segment k seg)"
  have "0xC0000000 \<le> ?e" "?e \<le> 0xC0400000" using segment_bounds [OF assms(2), of seg] by (auto simp: word_le_nat_alt)
  then have "unat (TO_LOW ?e) \<le> 0x400000" using low_unat [of ?e] by (simp add: word_le_nat_alt)
  then show ?thesis using map_addr_range_ok [OF assms(1)]
    by (cases "kernel_arch_get_segment k seg") (simp add: map_segment_def first_page_def end_page_def)
qed

text \<open>The flags the last range that covers a page gives it.\<close>

definition boot_page :: "kernel_symbols \<Rightarrow> nat \<Rightarrow> (7 word) option" where
  "boot_page k n =
     (let covers = (\<lambda>seg. first_page k seg \<le> n \<and> n < end_page k seg) in
      if n < 256 then Some I686VM_TABLE_FLAG_RW else if covers KSEGMENT_BSS then Some I686VM_TABLE_FLAG_RW
      else if covers KSEGMENT_RODATA then Some 0 else if covers KSEGMENT_DATA then Some I686VM_TABLE_FLAG_RW
      else if covers KSEGMENT_TEXT then Some 0 else None)"

lemma map_all_ok:
  assumes "boot_tables s dir ft" and "boot_layout k" and "\<forall>i. entry_at s ft i = zero_pge"
  obtains s' where "kbind (map_kernel k s dir) (\<lambda>s. map_platform s dir) = Inr s'" "\<not> paging s'" "stack_mem s' = stack_mem s" "ebp s' = ebp s"
    "\<And>g i. g \<noteq> ft \<Longrightarrow> entry_at s' g i = entry_at s g i"
    "\<And>i. entry_at s' ft i = (case boot_page k (unat i) of None \<Rightarrow> zero_pge
      | Some f \<Rightarrow> \<lparr>is_present = True, pge_flags = f, pge_data = 0, paddr = ucast i\<rparr>)"
proof -
  let ?m = "\<lambda>s seg fl. map_range s ft (first_page k seg) (end_page k seg) fl"
  let ?s = "map_range (?m (?m (?m (?m s KSEGMENT_TEXT 0) KSEGMENT_DATA I686VM_TABLE_FLAG_RW) KSEGMENT_RODATA 0)
    KSEGMENT_BSS I686VM_TABLE_FLAG_RW) ft 0 256 I686VM_TABLE_FLAG_RW"
  have "kbind (map_kernel k s dir) (\<lambda>s. map_platform s dir) = Inr ?s"
    using assms(1,2) by (simp add: map_kernel_def map_platform_def map_segment_ok [where ft = ft] map_addr_range_ok [where ft = ft])
  moreover have "\<not> paging ?s" using assms(1) by (simp add: boot_tables_def)
  moreover have "entry_at ?s ft i = (case boot_page k (unat i) of None \<Rightarrow> zero_pge
      | Some f \<Rightarrow> \<lparr>is_present = True, pge_flags = f, pge_data = 0, paddr = ucast i\<rparr>)" for i
    using assms(3) by (simp add: boot_page_def Let_def zero_pge_def)
  ultimately show ?thesis using that [of ?s] by simp
qed

section \<open>What the kernel starts with\<close>

lemma phys_frame_unat: "unat (phys_frame p) = unat p div 4096"
proof -
  have "unat p div 4096 < 2 ^ 20" using unat_lt32 [of p] by (simp add: div_less_iff_less_mult del: unat_lt32)
  then show ?thesis by (simp add: phys_frame_def unsigned_ucast_eq unat_drop_bit_32 take_bit_nat_eq_self)
qed

lemma unat_pd_index: "unat (pd_index v) = unat v div 0x400000"
proof -
  have "unat v div 0x400000 < 1024" using unat_lt32 [of v] by (simp add: div_less_iff_less_mult del: unat_lt32)
  then show ?thesis by (simp add: pd_index_def unat_ucast10 unat_drop_bit_32)
qed

lemma pd_index_iff: "unat j = n \<Longrightarrow> pd_index v = j \<longleftrightarrow> unat v div 0x400000 = n"
  using unat_pd_index [of v] by (metis unsigned_word_eqI)

lemma pd_768: "pd_index v = 768 \<longleftrightarrow> 0xC0000000 \<le> v \<and> unat (TO_LOW v) < 0x400000"
proof (cases "0xC0000000 \<le> v")
  case True
  then have "3221225472 \<le> unat v" by (simp add: word_le_nat_alt)
  then have "unat v div 0x400000 = 768 \<longleftrightarrow> unat v - 0xC0000000 < 0x400000"
    by (auto simp: div_nat_eqI div_less_iff_less_mult dest: div_eq_dividend_iff)
  then show ?thesis using True low_unat [OF True] pd_index_iff [of 768 768 v] by simp
next
  case False
  then have "unat v < 768 * 0x400000" by (simp add: word_le_nat_alt)
  then have "unat v div 0x400000 < 768" by (simp add: div_less_iff_less_mult)
  then show ?thesis using False pd_index_iff [of 768 768 v] by simp
qed

lemma pt_index_low: "unat (pt_index v) = unat v div 4096 mod 1024"
  by (simp add: pt_index_def unat_ucast10 unat_drop_bit_32)

lemma to_high_low [simp]: "TO_HIGH (TO_LOW v) = v" "TO_LOW (TO_HIGH v) = v"
  by (simp_all add: TO_HIGH_def TO_LOW_def)

lemma low_place: "unat p < 0x400000 \<Longrightarrow> pd_index p = 0" "unat p < 0x400000 \<Longrightarrow> unat (pt_index p) = unat p div 4096"
  using pd_index_iff [of 0 0 p] by (simp_all add: pt_index_low div_less_iff_less_mult)

lemma segment_page_lt:
  assumes "boot_layout k"
  shows "end_page k seg \<le> 1024"
proof -
  let ?e = "snd (kernel_arch_get_segment k seg)"
  have e: "0xC0000000 \<le> ?e" "?e \<le> 0xC0400000" using segment_bounds [OF assms, of seg] by (auto simp: word_le_nat_alt)
  then have "unat (TO_LOW ?e) \<le> 0x400000" using low_unat [OF e(1)] by (simp add: word_le_nat_alt)
  then show ?thesis unfolding end_page_def using page_below [of 1024 "unat (TO_LOW ?e)"] by simp
qed

lemma ex_segment: "(\<exists>seg. P seg) \<longleftrightarrow> P KSEGMENT_TEXT \<or> P KSEGMENT_RODATA \<or> P KSEGMENT_DATA \<or> P KSEGMENT_BSS"
  by (metis kernel_segments.exhaust)

lemma boot_mapped_iff:
  assumes "boot_layout k"
  shows "boot_mapped k v \<longleftrightarrow> pd_index v = 768 \<and> boot_page k (unat (TO_LOW v) div 4096) \<noteq> None"
proof (cases "0xC0000000 \<le> v")
  case True
  let ?n = "unat (TO_LOW v) div 4096"
  have "v < KERNEL_VM_OFFSET + 0x100000 \<longleftrightarrow> ?n < 256"
    using low_unat [OF True] True by (simp add: KERNEL_VM_OFFSET_def word_less_nat_alt word_le_nat_alt div_less_iff_less_mult less_diff_conv2)
  moreover have "?n < 1024 \<longleftrightarrow> unat (TO_LOW v) < 0x400000" by (simp add: div_less_iff_less_mult)
  moreover have "boot_page k ?n \<noteq> None \<longleftrightarrow> ?n < 256 \<or> (\<exists>seg. in_segment k seg v)"
    unfolding segment_pages [OF assms True] boot_page_def Let_def ex_segment by simp
  moreover have "in_segment k seg v \<Longrightarrow> ?n < 1024" for seg
    using segment_pages [OF assms True] segment_page_lt [OF assms, of seg] by auto
  ultimately show ?thesis using True unfolding boot_mapped_def pd_768 by (auto simp: KERNEL_VM_OFFSET_def)
qed (simp add: boot_mapped_def pd_768 KERNEL_VM_OFFSET_def)

lemma rodata_not_data:
  assumes "boot_layout k" and "n < end_page k KSEGMENT_RODATA"
  shows "n < first_page k KSEGMENT_DATA"
proof -
  let ?e = "kernel_rodata_end k" and ?s = "kernel_data_start k"
  have b: "0xC0100000 \<le> kernel_rodata_start k" "kernel_rodata_start k \<le> ?e" "0xC0100000 \<le> ?s" "?e \<le> ?s" "check_align ?s PLATFORM_PAGE_SIZE"
    using segment_bounds [OF assms(1), of KSEGMENT_RODATA] segment_bounds [OF assms(1), of KSEGMENT_DATA] assms(1)
    by (simp_all add: boot_layout_def)
  obtain q where q: "unat ?s = 4096 * q" using b(5) by (auto simp: page_align_dvd)
  have h: "0xC0000000 \<le> ?e" "0xC0000000 \<le> ?s" using b by (auto simp: word_le_nat_alt)
  have "unat (TO_LOW ?e) \<le> unat (TO_LOW ?s)" using low_unat [OF h(1)] low_unat [OF h(2)] b(4) by (simp add: word_le_nat_alt)
  moreover have "n * 4096 < unat (TO_LOW ?e)" using assms(2) by (simp add: end_page_def page_below)
  moreover have "unat (TO_LOW ?s) = 4096 * (q - 786432)" using low_unat [OF h(2)] q by simp
  ultimately show ?thesis by (simp add: first_page_def)
qed

lemma page_in_bss:
  assumes "boot_layout k" and "page_in (kernel_bss_start k) (kernel_bss_end k) p"
  shows "0xC0000000 \<le> p" "pd_index p = 768" "unat (TO_LOW p) < 0x400000" "check_align (TO_LOW p) PLATFORM_PAGE_SIZE" "boot_mapped k p"
proof -
  have b: "0xC0100000 \<le> kernel_bss_start k" using segment_bounds(1) [OF assms(1), of KSEGMENT_BSS] by simp
  have p: "check_align p PLATFORM_PAGE_SIZE" "kernel_bss_start k \<le> p" "unat p + 4096 \<le> unat (kernel_bss_end k)"
    using assms(2) by (simp_all add: page_in_def)
  show h: "0xC0000000 \<le> p" using b p(2) by (auto simp: word_le_nat_alt)
  have "align_rounddown p PLATFORM_PAGE_SIZE = p" using p(1) by (simp add: check_align_def)
  then have "in_segment k KSEGMENT_BSS p" using p(2,3) by (simp add: in_segment_def word_less_nat_alt)
  then show m: "boot_mapped k p" using h by (auto simp: boot_mapped_def KERNEL_VM_OFFSET_def)
  then show i: "pd_index p = 768" using boot_mapped_iff [OF assms(1)] by blast
  then show "unat (TO_LOW p) < 0x400000" unfolding pd_768 by simp
  obtain q where "unat p = 4096 * q" using p(1) by (auto simp: page_align_dvd)
  then have "unat (TO_LOW p) = 4096 * (q - 786432)" using low_unat [OF h] by simp
  then show "check_align (TO_LOW p) PLATFORM_PAGE_SIZE" by (simp add: page_align_dvd)
qed

text \<open>The tables after the mapping: the entries of the directory, and those of the table it shares.\<close>

definition boot_entry :: "frame \<Rightarrow> i686_vm_pge" where
  "boot_entry f = \<lparr>is_present = True, pge_flags = 1, pge_data = 0, paddr = f\<rparr>"

definition boot_filled :: "kernel_symbols \<Rightarrow> bool \<Rightarrow> boot_state \<Rightarrow> frame \<Rightarrow> frame \<Rightarrow> bool" where
  "boot_filled k ident s fd ft \<longleftrightarrow> fd \<noteq> ft \<and>
     (\<forall>i. entry_at s fd i = (if i = 1023 then boot_entry fd else if i = 768 then boot_entry ft
        else if i = 0 then (if ident then boot_entry ft else (boot_entry ft)\<lparr>is_present := False\<rparr>) else zero_pge)) \<and>
     (\<forall>i. entry_at s ft i = (case boot_page k (unat i) of None \<Rightarrow> zero_pge
        | Some f \<Rightarrow> \<lparr>is_present = True, pge_flags = f, pge_data = 0, paddr = ucast i\<rparr>))"

definition finish_boot :: "addr \<Rightarrow> boot_state \<Rightarrow> boot_state kres" where
  "finish_boot pd s = kbind (PATCH_FRAME 1 KERNEL_VM_OFFSET s) (\<lambda>s. kbind (PATCH_FRAME 0 KERNEL_VM_OFFSET s) (\<lambda>s.
     boot_put s pd (is_present_update (\<lambda>_. False))))"

lemma boot_fill:
  assumes "\<not> paging s" and "check_align pd PLATFORM_PAGE_SIZE" and "phys_frame pd \<noteq> phys_frame pt" and "boot_layout k"
    and "\<forall>i. entry_at s (phys_frame pd) i = zero_pge" and "\<forall>i. entry_at s (phys_frame pt) i = zero_pge"
    and P: "pd = TO_LOW (boot_paging_pd k)" "pt = TO_LOW (boot_paging_pt k)"
  obtains s' where "\<not> paging s'" "stack_mem s' = stack_mem s" "ebp s' = ebp s" "boot_filled k True s' (phys_frame pd) (phys_frame pt)"
    "setup_boot_paging k ip sp s =
      kbind (i686_vm_paging_enable (i686_vm_set_pt s' pd) KERNEL_VM_OFFSET ip sp) (finish_boot pd)"
proof -
  let ?d = "phys_frame pd" and ?t = "phys_frame pt"
  let ?b = "put_entry (put_entry (put_entry s ?d 1023 (boot_entry ?d)) ?d 0 (boot_entry ?t)) ?d 768 (boot_entry ?t)"
  have fl: "I686VM_DIR_FLAG_RW = 1" "(0 :: 7 word) OR 1 = 1" by (simp_all add: I686VM_DIR_FLAG_RW_def)
  have ix: "dir_recursive pd = pd + 4 * ucast (1023 :: 10 word)" "pd_index KERNEL_VM_OFFSET = 768" "pd_index 0 = 0"
    by (simp_all add: dir_recursive_def KERNEL_VM_OFFSET_def pd_index_def)
  note a = low_access [OF _ assms(2), where i = 0, simplified] low_access [OF _ assms(2), where i = 768, simplified]
    low_access [OF _ assms(2), where i = 1023, simplified]
  have T: "boot_tables ?b pd ?t" using assms(1-3) by (simp add: boot_tables_def boot_entry_def)
  have z: "\<forall>i. entry_at ?b ?t i = zero_pge" using assms(3,6) by simp
  obtain s' where s': "kbind (map_kernel k ?b pd) (\<lambda>s. map_platform s pd) = Inr s'" "\<not> paging s'" "stack_mem s' = stack_mem s" "ebp s' = ebp s"
    "\<And>g i. g \<noteq> ?t \<Longrightarrow> entry_at s' g i = entry_at ?b g i"
    "\<And>i. entry_at s' ?t i = (case boot_page k (unat i) of None \<Rightarrow> zero_pge
      | Some f \<Rightarrow> \<lparr>is_present = True, pge_flags = f, pge_data = 0, paddr = ucast i\<rparr>)"
    using map_all_ok [OF T assms(4) z] by (metis put_entry_simps(2,3))
  have "boot_filled k True s' ?d ?t" unfolding boot_filled_def using s'(5,6) assms(3,5) by simp
  moreover have "setup_boot_paging k ip sp s =
      kbind (i686_vm_paging_enable (i686_vm_set_pt s' pd) KERNEL_VM_OFFSET ip sp) (finish_boot pd)"
  proof -
    have "setup_boot_paging k ip sp s = kbind (kbind (map_kernel k ?b pd) (\<lambda>s. map_platform s pd))
        (\<lambda>s. kbind (i686_vm_paging_enable (i686_vm_set_pt s pd) KERNEL_VM_OFFSET ip sp) (finish_boot pd))"
      using assms(1,2,5) P [symmetric]
      by (simp add: setup_boot_paging_def boot_setup_recursive_mapping_def ix fl a boot_set_addr_def Let_def
          boot_entry_def zero_pge_def kbind_assoc finish_boot_def [abs_def])
    then show ?thesis using s'(1) by simp
  qed
  ultimately show ?thesis using that s'(2-4) by blast
qed

lemma boot_walk:
  assumes "boot_filled k ident s fd ft" and "cr3 (boot_mmu s) = fd" and "pd_index v < 1022"
  shows "page_pde (boot_mmu s) v = (if pd_index v = 768 then boot_entry ft
      else if pd_index v = 0 then (if ident then boot_entry ft else (boot_entry ft)\<lparr>is_present := False\<rparr>) else zero_pge)"
    "paddr (page_pde (boot_mmu s) v) = ft \<Longrightarrow> page_pte (boot_mmu s) v = (case boot_page k (unat (pt_index v)) of None \<Rightarrow> zero_pge
      | Some f \<Rightarrow> \<lparr>is_present = True, pge_flags = f, pge_data = 0, paddr = ucast (pt_index v)\<rparr>)"
proof -
  have "pd_index v \<noteq> 1023" using assms(3) by auto
  then show "page_pde (boot_mmu s) v = (if pd_index v = 768 then boot_entry ft
      else if pd_index v = 0 then (if ident then boot_entry ft else (boot_entry ft)\<lparr>is_present := False\<rparr>) else zero_pge)"
    using assms(1,2) unfolding boot_filled_def page_pde_def entry_at_def by auto
  show "page_pte (boot_mmu s) v = (case boot_page k (unat (pt_index v)) of None \<Rightarrow> zero_pge
      | Some f \<Rightarrow> \<lparr>is_present = True, pge_flags = f, pge_data = 0, paddr = ucast (pt_index v)\<rparr>)"
    if "paddr (page_pde (boot_mmu s) v) = ft"
    using assms(1) that unfolding boot_filled_def page_pte_def entry_at_def by auto
qed

lemma boot_walk_high:
  assumes l: "boot_layout k" and b: "boot_filled k ident s fd ft" "cr3 (boot_mmu s) = fd"
    and v: "pd_index v < 1022" "ident \<Longrightarrow> pd_index v \<noteq> 0"
  shows "page_frame (boot_mmu s) v = (if boot_mapped k v then Some (phys_frame (TO_LOW v)) else None)"
proof (cases "pd_index v = 768")
  case True
  have p: "unat (TO_LOW v) < 0x400000" using True unfolding pd_768 by simp
  have i: "unat (pt_index v) = unat (TO_LOW v) div 4096" using high_place(2) [OF p] by simp
  have e: "page_pde (boot_mmu s) v = boot_entry ft" using boot_walk(1) [OF b v(1)] True by simp
  have f: "phys_frame (TO_LOW v) = ucast (pt_index v)" by (rule phys_frame_eq [OF p i])
  show ?thesis using boot_walk(2) [OF b v(1)] e True boot_mapped_iff [OF l, of v] i f
    by (simp add: page_frame_def boot_entry_def zero_pge_def split: option.splits)
next
  case False
  then have "\<not> is_present (page_pde (boot_mmu s) v)"
    using boot_walk(1) [OF b v(1)] v(2) by (auto simp: zero_pge_def)
  then show ?thesis using False boot_mapped_iff [OF l, of v] by (simp add: page_frame_def)
qed

lemma boot_walk_low:
  assumes l: "boot_layout k" and b: "boot_filled k True s fd ft" "cr3 (boot_mmu s) = fd" and m: "boot_mapped k (TO_HIGH p)"
  shows "page_frame (boot_mmu s) p = Some (phys_frame p)"
proof -
  have p: "unat p < 0x400000" using boot_mapped_iff [OF l, of "TO_HIGH p"] m pd_768 [of "TO_HIGH p"] by simp
  note i = low_place [OF p]
  have e: "page_pde (boot_mmu s) p = boot_entry ft" using boot_walk(1) [OF b, of p] i(1) by simp
  have "boot_page k (unat (pt_index p)) \<noteq> None" using boot_mapped_iff [OF l, of "TO_HIGH p"] m i(2) by simp
  then show ?thesis using boot_walk(2) [OF b, of p] e i(1) phys_frame_eq [OF p i(2)]
    by (auto simp: page_frame_def boot_entry_def)
qed

lemma boot_dir_ok:
  assumes l: "boot_layout k" and b: "boot_filled k False s fd ft" "cr3 (boot_mmu s) = fd"
    and r: "boot_mapped k root" "check_align root PLATFORM_PAGE_SIZE" "phys_frame (TO_LOW root) = fd"
  shows "dir_ok (boot_mmu s) root"
proof -
  have i: "pd_index root = 768" using boot_mapped_iff [OF l, of root] r(1) by simp
  then have n: "root \<noteq> NULL" using pd_768 [of root] by auto
  have e: "frames (boot_mmu s) fd i = (if i = 1023 then boot_entry fd else if i = 768 then boot_entry ft
        else if i = 0 then (boot_entry ft)\<lparr>is_present := False\<rparr> else zero_pge)" for i
    using b(1) by (simp add: boot_filled_def entry_at_def)
  have p: "page_frame (boot_mmu s) root = Some fd" using boot_walk_high [OF l b, of root] i r(1,3) by simp
  have "fd \<noteq> ft" using b(1) by (simp add: boot_filled_def)
  moreover have o: "i = 768" if "i < 1022" "is_present (frames (boot_mmu s) fd i)" for i
    using that unfolding e by (auto simp: boot_entry_def zero_pge_def split: if_splits)
  ultimately have "paddr (frames (boot_mmu s) fd i) \<noteq> fd" if "i < 1022" "is_present (frames (boot_mmu s) fd i)" for i
    using o [OF that] by (simp add: e boot_entry_def)
  moreover have "is_present (frames (boot_mmu s) fd 1023)" "paddr (frames (boot_mmu s) fd 1023) = fd"
    "\<not> is_present (frames (boot_mmu s) fd 1022)" by (simp_all add: e boot_entry_def zero_pge_def)
  ultimately show ?thesis unfolding dir_ok_def dir_base_def b(2) using i n p r(2) o by auto
qed

lemma boot_page_writes:
  assumes "boot_layout k" and "boot_mapped k v" and "boot_page k (unat (TO_LOW v) div 4096) = Some f"
  shows "f AND I686VM_TABLE_FLAG_RW = I686VM_TABLE_FLAG_RW \<longleftrightarrow>
    v < KERNEL_VM_OFFSET + 0x100000 \<or> in_segment k KSEGMENT_DATA v \<or> in_segment k KSEGMENT_BSS v"
proof -
  let ?n = "unat (TO_LOW v) div 4096"
  have v: "0xC0000000 \<le> v" using assms(2) by (simp add: boot_mapped_def KERNEL_VM_OFFSET_def)
  have "v < KERNEL_VM_OFFSET + 0x100000 \<longleftrightarrow> ?n < 256"
    using low_unat [OF v] v by (simp add: KERNEL_VM_OFFSET_def word_less_nat_alt word_le_nat_alt div_less_iff_less_mult less_diff_conv2)
  moreover have "\<not> (?n < end_page k KSEGMENT_RODATA \<and> first_page k KSEGMENT_DATA \<le> ?n)"
    using rodata_not_data [OF assms(1), of ?n] by linarith
  ultimately show ?thesis using assms(3) segment_pages [OF assms(1) v]
    by (auto simp: boot_page_def Let_def I686VM_TABLE_FLAG_RW_def split: if_splits)
qed

text \<open>The words of the two frames of the stack, and what becomes of one.\<close>

definition frame_words :: "boot_state \<Rightarrow> addr set" where
  "frame_words s = {ebp s, ebp s + 4, stack_mem s (ebp s), stack_mem s (ebp s) + 4}"

definition patch_word :: "addr \<Rightarrow> (addr \<Rightarrow> u32) \<Rightarrow> addr \<Rightarrow> u32" where
  "patch_word a m = m(a := TO_HIGH (m a))"

lemma place_join: "push_bit 12 (ucast (phys_frame p)) OR take_bit 12 p = p"
  by (auto simp: phys_frame_def bit_eq_iff bit_simps)

lemma place_ok: "paging s \<Longrightarrow> page_frame (boot_mmu s) v = Some (phys_frame p) \<Longrightarrow> take_bit 12 v = take_bit 12 p \<Longrightarrow> boot_place s v = Inr p"
  by (simp add: boot_place_def boot_frame_def place_join)

lemma take_high: "take_bit 12 (TO_HIGH p) = take_bit 12 p" "TO_HIGH p + 4 = TO_HIGH (p + 4)"
proof -
  have "unat (TO_HIGH p) mod 4096 = (unat p + 3221225472) mod 4096"
    by (simp add: TO_HIGH_def KERNEL_VM_OFFSET_def unat_word_ariths mod_mod_cancel)
  also have "\<dots> = unat p mod 4096" using mod_mult_self1 [of "unat p" 786432 4096] by simp
  finally have "unat (take_bit 12 (TO_HIGH p)) = unat (take_bit 12 p)" by (simp add: unsigned_take_bit_eq flip: take_bit_eq_mod) (simp add: take_bit_eq_mod)
  then show "take_bit 12 (TO_HIGH p) = take_bit 12 p" by (rule word32_eqI)
qed (simp add: TO_HIGH_def)

lemma add_word_ok:
  "boot_place s p = Inr a \<Longrightarrow> boot_add_word s p KERNEL_VM_OFFSET = Inr (s\<lparr>stack_mem := patch_word a (stack_mem s)\<rparr>)"
  by (simp add: boot_add_word_def patch_word_def TO_HIGH_def)

lemma finish_boot_ok:
  assumes "paging s" and "ebp s = TO_HIGH b" and "f = stack_mem s b"
    and "\<And>p. p \<in> {b, b + 4} \<Longrightarrow> page_frame (boot_mmu s) (TO_HIGH p) = Some (phys_frame p)"
    and "\<And>p. p \<in> {f, f + 4} \<Longrightarrow> page_frame (boot_mmu s) p = Some (phys_frame p)"
  shows "finish_boot pd s = boot_put (s\<lparr>stack_mem := fold patch_word [f + 4, f, b + 4, b] (stack_mem s)\<rparr>) pd (is_present_update (\<lambda>_. False))"
proof -
  have p: "boot_place t (TO_HIGH b) = Inr b" "boot_place t (TO_HIGH (b + 4)) = Inr (b + 4)" "boot_place t f = Inr f" "boot_place t (f + 4) = Inr (f + 4)"
    if "paging t" "boot_mmu t = boot_mmu s" for t
    using that assms(4,5) by (auto intro!: place_ok simp: take_high)
  show ?thesis
    by (simp add: finish_boot_def PATCH_FRAME_def add_word_ok p assms(1,2) take_high(2) flip: assms(3))
qed

lemma setup_boot_paging_ok:
  assumes "boot_layout k" and "\<not> paging s" and "boot_mapped k (TO_HIGH ip)" and "boot_mapped k (TO_HIGH sp)"
    and "\<forall>i. entry_at s (phys_frame (TO_LOW (boot_paging_pd k))) i = zero_pge"
    and "\<forall>i. entry_at s (phys_frame (TO_LOW (boot_paging_pt k))) i = zero_pge"
    and "\<forall>w \<in> frame_words s. boot_mapped k (TO_HIGH w)"
  shows "\<exists>s'. setup_boot_paging k ip sp s = Inr s' \<and> paging s' \<and> dir_ok (boot_mmu s') (boot_paging_pd k) \<and>
    stack_mem s' = fold patch_word [stack_mem s (ebp s) + 4, stack_mem s (ebp s), ebp s + 4, ebp s] (stack_mem s) \<and>
    (\<forall>v. pd_index v < 1022 \<longrightarrow>
      page_frame (boot_mmu s') v = (if boot_mapped k v then Some (phys_frame (TO_LOW v)) else None)) \<and>
    (\<forall>v. boot_mapped k v \<longrightarrow> page_allows (boot_mmu s') v I686VM_TABLE_FLAG_RW =
      (v < KERNEL_VM_OFFSET + 0x100000 \<or> in_segment k KSEGMENT_DATA v \<or> in_segment k KSEGMENT_BSS v))"
proof -
  let ?P = "boot_paging_pd k" and ?pd = "TO_LOW (boot_paging_pd k)" and ?pt = "TO_LOW (boot_paging_pt k)"
  let ?d = "phys_frame ?pd" and ?t = "phys_frame ?pt"
  note d = page_in_bss [OF assms(1), of "boot_paging_pd k"] and t = page_in_bss [OF assms(1), of "boot_paging_pt k"]
  have k: "page_in (kernel_bss_start k) (kernel_bss_end k) (boot_paging_pd k)"
    "page_in (kernel_bss_start k) (kernel_bss_end k) (boot_paging_pt k)" "boot_paging_pd k \<noteq> boot_paging_pt k"
    using assms(1) unfolding boot_layout_def by blast+
  have ne: "?d \<noteq> ?t"
  proof
    assume "?d = ?t"
    then have "unat ?pd div 4096 = unat ?pt div 4096" by (metis phys_frame_unat)
    moreover obtain a b where "unat ?pd = 4096 * a" "unat ?pt = 4096 * b"
      using d(4) [OF k(1)] t(4) [OF k(2)] by (auto simp: page_align_dvd elim!: dvdE)
    ultimately have "?pd = ?pt" by (intro word32_eqI) simp
    then show False using k(3) to_high_low(1) by metis
  qed
  obtain s1 where s1: "\<not> paging s1" "stack_mem s1 = stack_mem s" "ebp s1 = ebp s" "boot_filled k True s1 ?d ?t"
    "setup_boot_paging k ip sp s = kbind (i686_vm_paging_enable (i686_vm_set_pt s1 ?pd) KERNEL_VM_OFFSET ip sp) (finish_boot ?pd)"
    by (rule boot_fill [OF assms(2) d(4) [OF k(1)] ne assms(1,5,6) refl refl])
  let ?s = "i686_vm_set_pt s1 ?pd"
  have b: "boot_filled k True ?s ?d ?t" "cr3 (boot_mmu ?s) = ?d"
    using s1(4) by (simp_all add: i686_vm_set_pt_def boot_filled_def entry_at_def)
  have hi: "page_frame (boot_mmu ?s) (TO_HIGH p) = Some (phys_frame p)" if "boot_mapped k (TO_HIGH p)" for p
  proof -
    have "pd_index (TO_HIGH p) = 768" using that boot_mapped_iff [OF assms(1)] by blast
    then show ?thesis using boot_walk_high [OF assms(1) b, of "TO_HIGH p"] that by simp
  qed
  have lo: "page_frame (boot_mmu ?s) p = Some (phys_frame p)" if "boot_mapped k (TO_HIGH p)" for p
    by (rule boot_walk_low [OF assms(1) b that])
  let ?S = "?s\<lparr>paging := True, ebp := TO_HIGH (ebp s)\<rparr>"
  have en: "i686_vm_paging_enable ?s KERNEL_VM_OFFSET ip sp = Inr ?S"
    using hi [OF assms(3)] hi [OF assms(4)] lo [OF assms(3)] lo [OF assms(4)] s1(3)
    by (simp add: i686_vm_paging_enable_def Let_def TO_HIGH_def i686_vm_set_pt_def)
  let ?F = "stack_mem s (ebp s)"
  let ?m = "fold patch_word [?F + 4, ?F, ebp s + 4, ebp s] (stack_mem s)"
  have fin: "finish_boot ?pd ?S = boot_put (?S\<lparr>stack_mem := ?m\<rparr>) ?pd (is_present_update (\<lambda>_. False))"
    using finish_boot_ok [of ?S "ebp s" ?F ?pd] hi lo assms(7) s1(2) by (auto simp: i686_vm_set_pt_def frame_words_def)
  let ?e = "(boot_entry ?t)\<lparr>is_present := False\<rparr>"
  let ?r = "put_entry (?S\<lparr>stack_mem := ?m\<rparr>) ?d 0 ?e"
  have "entry_index ?pd = 0" using entry_place(2) [OF d(4) [OF k(1)], of 0] by simp
  moreover have "entry_at (?S\<lparr>stack_mem := ?m\<rparr>) ?d 0 = boot_entry ?t" using b(1) by (simp add: boot_filled_def entry_at_def)
  moreover have "page_frame (boot_mmu ?s) ?pd = Some ?d" using lo [of ?pd] d(5) [OF k(1)] by simp
  ultimately have "boot_put (?S\<lparr>stack_mem := ?m\<rparr>) ?pd (is_present_update (\<lambda>_. False)) = Inr ?r"
    by (simp add: boot_put_def boot_frame_def put_entry_def entry_at_def)
  then have step: "setup_boot_paging k ip sp s = Inr ?r" using s1(5) en fin by simp
  have B: "boot_filled k False ?r ?d ?t" "cr3 (boot_mmu ?r) = ?d"
    using b ne by (simp_all add: boot_filled_def, simp add: entry_at_def)
  have W: "page_frame (boot_mmu ?r) v = (if boot_mapped k v then Some (phys_frame (TO_LOW v)) else None)" if "pd_index v < 1022" for v
    by (rule boot_walk_high [OF assms(1) B that]) simp
  have A: "page_allows (boot_mmu ?r) v I686VM_TABLE_FLAG_RW =
      (v < KERNEL_VM_OFFSET + 0x100000 \<or> in_segment k KSEGMENT_DATA v \<or> in_segment k KSEGMENT_BSS v)" if m: "boot_mapped k v" for v
  proof -
    have i: "pd_index v = 768" "pd_index v < 1022" using boot_mapped_iff [OF assms(1), of v] m by auto
    obtain f where f: "boot_page k (unat (TO_LOW v) div 4096) = Some f" using boot_mapped_iff [OF assms(1), of v] m by blast
    have "unat (pt_index v) = unat (TO_LOW v) div 4096" using high_place(2) [of "TO_LOW v"] i(1) unfolding pd_768 by simp
    moreover have "page_pde (boot_mmu ?r) v = boot_entry ?t" using boot_walk(1) [OF B i(2)] i(1) by simp
    ultimately show ?thesis using boot_walk(2) [OF B i(2)] f W [OF i(2)] m boot_page_writes [OF assms(1) m f]
      by (simp add: page_allows_def boot_entry_def I686VM_TABLE_FLAG_RW_def)
  qed
  have "check_align ?P PLATFORM_PAGE_SIZE" using k(1) by (simp add: page_in_def)
  then have "dir_ok (boot_mmu ?r) ?P" by (intro boot_dir_ok [OF assms(1) B] d(5) [OF k(1)]) simp_all
  then show ?thesis using step W A by (intro exI [of _ ?r]) simp
qed

text \<open>C20: the kernel starts with a directory that the rest of the code can work with (\<open>dir_ok\<close>, at the address it is given
  to the kernel's space), that maps its segments and the first megabyte to the high addresses and nothing else, the
  text and the constants for reading only; the mapping of the low addresses, which the code needs until it
  jumps, is gone. The return addresses and the saved frames of this function and of its caller, which were those of
  the low code and stack, are those of the high ones.\<close>

theorem setup_boot_paging_maps:
  assumes "boot_layout k" and "\<not> paging s" and "boot_mapped k (TO_HIGH ip)" and "boot_mapped k (TO_HIGH sp)"
    and "\<forall>i. entry_at s (phys_frame (TO_LOW (boot_paging_pd k))) i = zero_pge"
    and "\<forall>i. entry_at s (phys_frame (TO_LOW (boot_paging_pt k))) i = zero_pge"
    and "\<forall>w \<in> frame_words s. boot_mapped k (TO_HIGH w)"
  shows "\<exists>s'. setup_boot_paging k ip sp s = Inr s' \<and> paging s' \<and> dir_ok (boot_mmu s') (boot_paging_pd k) \<and>
    stack_mem s' = fold patch_word [stack_mem s (ebp s) + 4, stack_mem s (ebp s), ebp s + 4, ebp s] (stack_mem s) \<and>
    (\<forall>v. pd_index v < 1022 \<longrightarrow>
      page_frame (boot_mmu s') v = (if boot_mapped k v then Some (phys_frame (TO_LOW v)) else None)) \<and>
    (\<forall>v. boot_mapped k v \<longrightarrow> page_allows (boot_mmu s') v I686VM_TABLE_FLAG_RW =
      (v < KERNEL_VM_OFFSET + 0x100000 \<or> in_segment k KSEGMENT_DATA v \<or> in_segment k KSEGMENT_BSS v))"
  using setup_boot_paging_ok [OF assms] .

definition example_symbols :: kernel_symbols where
  "example_symbols = \<lparr>kernel_text_start = 0xC0100000, kernel_text_end = 0xC0100F00, kernel_rodata_start = 0xC0101000,
     kernel_rodata_end = 0xC0101800, kernel_data_start = 0xC0102000, kernel_data_end = 0xC0102100, kernel_bss_start = 0xC0103000,
     kernel_bss_end = 0xC0106000, boot_paging_pd = 0xC0104000, boot_paging_pt = 0xC0105000\<rparr>"

definition example_boot :: boot_state where
  "example_boot = \<lparr>boot_mmu = \<lparr>frames = (\<lambda>_ _. zero_pge), cr3 = 0\<rparr>, paging = False,
     stack_mem = (\<lambda>_. 0)(0x103FE0 := 0x103FF0, 0x103FE4 := 0x100456), ebp = 0x103FE0\<rparr>"

lemma all_segment: "(\<forall>seg. P seg) \<longleftrightarrow> P KSEGMENT_TEXT \<and> P KSEGMENT_RODATA \<and> P KSEGMENT_DATA \<and> P KSEGMENT_BSS"
  by (metis kernel_segments.exhaust)

lemma example_layout: "boot_layout example_symbols"
  by (simp add: boot_layout_def all_segment page_in_def) (simp add: example_symbols_def page_align_dvd)

lemma example_mapped:
  "boot_mapped example_symbols 0xC0100123" "boot_mapped example_symbols 0xC0103FF0" "boot_mapped example_symbols 0xC0101000"
  "\<not> boot_mapped example_symbols 0x101000" "in_segment example_symbols KSEGMENT_BSS 0xC0103FF0"
  "\<not> in_segment example_symbols KSEGMENT_DATA 0xC0101000" "\<not> in_segment example_symbols KSEGMENT_BSS 0xC0101000"
  by (simp_all add: boot_mapped_def ex_segment in_segment_def example_symbols_def KERNEL_VM_OFFSET_def align_rounddown_def
      PLATFORM_PAGE_SIZE_def)

theorem setup_boot_paging_maps_witness:
  "\<exists>s'. setup_boot_paging example_symbols 0x100123 0x103FF0 example_boot = Inr s' \<and> dir_ok (boot_mmu s') 0xC0104000 \<and>
    page_frame (boot_mmu s') 0xC0101000 = Some 0x101 \<and> page_frame (boot_mmu s') 0x101000 = None \<and>
    page_allows (boot_mmu s') 0xC0103FF0 I686VM_TABLE_FLAG_RW \<and> \<not> page_allows (boot_mmu s') 0xC0101000 I686VM_TABLE_FLAG_RW \<and>
    stack_mem s' 0x103FE4 = 0xC0100456"
proof -
  have m: "boot_mapped example_symbols (TO_HIGH 0x100123)" "boot_mapped example_symbols (TO_HIGH 0x103FF0)"
    using example_mapped(1,2) by (simp_all add: TO_HIGH_def KERNEL_VM_OFFSET_def)
  have z: "\<not> paging example_boot" "entry_at example_boot f i = zero_pge" for f i by (simp_all add: example_boot_def entry_at_def)
  have i: "pd_index 0xC0101000 < 1022" "pd_index 0x101000 < 1022" by (simp_all add: pd_index_def)
  have p: "boot_paging_pd example_symbols = 0xC0104000" "phys_frame (TO_LOW 0xC0101000) = 0x101"
    by (simp_all add: example_symbols_def TO_LOW_def KERNEL_VM_OFFSET_def phys_frame_def)
  have h: "boot_mapped example_symbols 0xC0103FE0" "boot_mapped example_symbols 0xC0103FE4" "boot_mapped example_symbols 0xC0103FF4"
    by (simp_all add: boot_mapped_def ex_segment in_segment_def example_symbols_def KERNEL_VM_OFFSET_def align_rounddown_def
      PLATFORM_PAGE_SIZE_def)
  have w: "\<forall>w \<in> frame_words example_boot. boot_mapped example_symbols (TO_HIGH w)"
    using h example_mapped(2) by (simp add: frame_words_def example_boot_def TO_HIGH_def KERNEL_VM_OFFSET_def)
  have n: "\<not> (0xC0101000 :: addr) < KERNEL_VM_OFFSET + 0x100000" by (simp add: KERNEL_VM_OFFSET_def)
  from setup_boot_paging_maps [OF example_layout z(1) m _ _ w] z(2) obtain s' where
    s': "setup_boot_paging example_symbols 0x100123 0x103FF0 example_boot = Inr s'" "dir_ok (boot_mmu s') 0xC0104000"
    "stack_mem s' = fold patch_word [0x103FF4, 0x103FF0, 0x103FE4, 0x103FE0] (stack_mem example_boot)"
    and w: "\<And>v. pd_index v < 1022 \<Longrightarrow> page_frame (boot_mmu s') v = (if boot_mapped example_symbols v then Some (phys_frame (TO_LOW v)) else None)"
    and a: "\<And>v. boot_mapped example_symbols v \<Longrightarrow> page_allows (boot_mmu s') v I686VM_TABLE_FLAG_RW =
      (v < KERNEL_VM_OFFSET + 0x100000 \<or> in_segment example_symbols KSEGMENT_DATA v \<or> in_segment example_symbols KSEGMENT_BSS v)"
    unfolding p(1) by (auto simp: example_boot_def)
  show ?thesis using s' w [OF i(1)] w [OF i(2)] a [OF example_mapped(2)] a [OF example_mapped(3)] example_mapped p(2) n
    by (intro exI [of _ s']) (simp add: patch_word_def example_boot_def TO_HIGH_def KERNEL_VM_OFFSET_def)
qed

end
