(* ===== verification/Kernel_Entry.thy ===== *)
theory Kernel_Entry
  imports Boot_Paging Platform_Resources Mm_Create Console
begin

text \<open>
  kernel/kernel/kernel.c, and what kernel/arch/i686/vm.c gives it: the areas of the kernel's own segments, and a zone of pages
  for every free region of memory. \<open>panic\<close> is the address of \<open>vm_pgfault_handle_panic\<close>, \<open>kspace\<close> the one of \<open>CURRENT_KERNEL\<close>,
  and \<open>tmp\<close> and \<open>handler\<close> are what \<open>mm_zone_create\<close> takes from its own frame.
\<close>

section \<open>The space of the kernel\<close>

definition vm_arch_get_early_pgroot :: "kernel_symbols \<Rightarrow> addr" where
  "vm_arch_get_early_pgroot k = boot_paging_pd k"

definition init_segment_area :: "kernel_symbols \<Rightarrow> addr \<Rightarrow> addr \<Rightarrow> kernel_segments \<Rightarrow> addr \<Rightarrow> vm_mem \<Rightarrow> vm_mem kres" where
  "init_segment_area k panic kspace seg a m =
     (let (start, end_addr) = kernel_arch_get_segment k seg; end_addr = align_roundup end_addr PLATFORM_PAGE_SIZE;
          len = end_addr - start in
      kassert (check_align start PLATFORM_PAGE_SIZE)
      (kassert (check_align len PLATFORM_PAGE_SIZE)
      (kbind (vm_area_init m a start len kspace) (\<lambda>m.
       kbind (area_at (vm_areas m) a) (\<lambda>r.
         vm_space_insert_area (m\<lparr>vm_areas := (vm_areas m)(a \<mapsto> r\<lparr>va_ops := (va_ops r)\<lparr>handle_pg_fault := panic\<rparr>\<rparr>)\<rparr>) kspace a)))))"

text \<open>The loop over \<open>KERNELBIN_AREAS\<close>, in the order of the enumeration.\<close>

definition KSEGMENTS :: "kernel_segments list" where
  "KSEGMENTS = [KSEGMENT_TEXT, KSEGMENT_RODATA, KSEGMENT_DATA, KSEGMENT_BSS]"

fun init_segment_areas :: "kernel_symbols \<Rightarrow> addr \<Rightarrow> addr \<Rightarrow> kernel_segments list \<Rightarrow> addr \<Rightarrow> vm_mem \<Rightarrow> vm_mem kres" where
  "init_segment_areas k panic kspace [] a m = Inr m"
| "init_segment_areas k panic kspace (seg # segs) a m =
     kbind (init_segment_area k panic kspace seg a m) (init_segment_areas k panic kspace segs (a + 56))"

definition init_kernel_vmspace :: "kernel_symbols \<Rightarrow> addr_state \<Rightarrow> addr \<Rightarrow> addr \<Rightarrow> addr \<Rightarrow> vm_mem \<Rightarrow> vm_mem kres" where
  "init_kernel_vmspace k as panic kspace kernelbin_areas m =
     kbind (addr_get_offset as) (\<lambda>offset.
     kbind (vm_space_init m kspace (vm_arch_get_early_pgroot k) offset)
       (init_segment_areas k panic kspace KSEGMENTS kernelbin_areas))"

section \<open>The zones of the free memory\<close>

definition register_zone_for_mem :: "(addr \<Rightarrow> u32) \<Rightarrow> addr \<Rightarrow> addr \<Rightarrow> addr \<Rightarrow> addr \<Rightarrow> size_t \<Rightarrow> mm_state \<Rightarrow> mm_state kres" where
  "register_zone_for_mem memory tmp handler kspace b len s =
     (let chunk_base = align_roundup b PLATFORM_PAGE_SIZE; chunk_end = align_rounddown (b + len) PLATFORM_PAGE_SIZE in
      kbind (mm_zone_create memory s tmp handler chunk_base (chunk_end - chunk_base) kspace) (\<lambda>(_, s). Inr s))"

text \<open>The loop claims the regions one by one; \<open>reg\<close> is what it does with one.\<close>

fun mem_zones_loop :: "nat \<Rightarrow> (addr \<Rightarrow> u8 list) \<Rightarrow> addr \<Rightarrow> addr \<Rightarrow> (addr \<Rightarrow> size_t \<Rightarrow> 's \<Rightarrow> 's kres) \<Rightarrow> res_state \<Rightarrow> 's \<Rightarrow>
    ('s \<times> res_state) kres" where
  "mem_zones_loop 0 strs platform memory_id reg rs s = Inl Fuel"
| "mem_zones_loop (Suc fuel) strs platform memory_id reg rs s =
     kbind (resources_kclaim_by_id strs rs platform memory_id) (\<lambda>(r, rs).
     if r = NULL then Inr (s, rs)
     else kbind (resource_at rs r) (\<lambda>x. kbind (reg (rs_base x) (rs_len x) s) (mem_zones_loop fuel strs platform memory_id reg rs)))"

definition register_mem_zones :: "(addr \<Rightarrow> u8 list) \<Rightarrow> addr \<Rightarrow> addr \<Rightarrow> (addr \<Rightarrow> u32) \<Rightarrow> addr \<Rightarrow> addr \<Rightarrow> addr \<Rightarrow> res_state \<Rightarrow> mm_state \<Rightarrow>
    (mm_state \<times> res_state) kres" where
  "register_mem_zones strs platform memory_id memory tmp handler kspace rs s =
     mem_zones_loop addr_fuel strs platform memory_id (register_zone_for_mem memory tmp handler kspace) rs s"

definition kernel_conwrite :: "'d write_call \<Rightarrow> 'd con_state fprintf_fn" where
  "kernel_conwrite call_write s msg =
     kbind (console_write call_write s msg (of_nat (length msg))) (\<lambda>s.
     kassert ((of_nat (length msg) :: size_t) \<le> INT_MAX) (Inr (int (length msg), s)))"

section \<open>The areas of the segments\<close>

lemma segment_area:
  assumes l: "boot_layout k" and ne: "fst (kernel_arch_get_segment k seg) < snd (kernel_arch_get_segment k seg)"
    and sp: "space_ok m kspace as" and vs: "vm_spaces m kspace = Some vs" "vs_offset vs = KERNEL_VM_OFFSET"
    and a: "other_area a kspace as"
    and b: "\<forall>x \<in> set as. unat (area_base (vm_areas m) x) + unat (area_size (vm_areas m) x) \<le> unat (fst (kernel_arch_get_segment k seg))"
  shows "\<exists>m' r vs'. init_segment_area k panic kspace seg a m = Inr m' \<and> space_ok m' kspace (as @ [a]) \<and>
    vm_areas m' = (vm_areas m)(a \<mapsto> r) \<and> va_base r = fst (kernel_arch_get_segment k seg) \<and>
    va_base r + va_length r = align_roundup (snd (kernel_arch_get_segment k seg)) PLATFORM_PAGE_SIZE \<and>
    unat (va_base r) + unat (va_length r) = unat (align_roundup (snd (kernel_arch_get_segment k seg)) PLATFORM_PAGE_SIZE) \<and>
    handle_pg_fault (va_ops r) = panic \<and>
    vm_spaces m' kspace = Some vs' \<and> vs_offset vs' = KERNEL_VM_OFFSET \<and> vs_root_dir vs' = vs_root_dir vs"
proof -
  let ?s = "fst (kernel_arch_get_segment k seg)" and ?e = "snd (kernel_arch_get_segment k seg)"
  let ?r = "align_roundup ?e PLATFORM_PAGE_SIZE"
  note bd = segment_bounds [OF l, of seg]
  have o: "a \<noteq> NULL" "a \<notin> set as" "area_link a \<noteq> NULL" "area_node a \<noteq> NULL" "area_link a \<noteq> space_head kspace"
    using a by (simp_all add: other_area_def)
  have e: "unat ?e \<le> 3225419776" "3222274048 \<le> unat ?s" "unat ?s < unat ?e"
    using bd(1,3) ne by (simp_all add: word_le_nat_alt word_less_nat_alt)
  then have r: "unat ?r = (unat ?e + 4095) div 4096 * 4096"
    using unat_align_roundup [of 12 ?e] by (simp add: PLATFORM_PAGE_SIZE_def)
  then have ge: "unat ?e \<le> unat ?r" by linarith
  have len: "unat (?r - ?s) = unat ?r - unat ?s" using ge e(3) by (simp add: unat_sub32)
  have al: "check_align (?r - ?s) PLATFORM_PAGE_SIZE"
    using bd(4) r len by (simp add: page_align_dvd)
  obtain q n where i: "vm_area_init m a ?s (?r - ?s) kspace = Inr (m\<lparr>vm_areas := (vm_areas m)(a \<mapsto> q),
      vm_nodes := (vm_nodes m)(area_node a \<mapsto> n), vm_links := (vm_links m)(area_link a \<mapsto> NULL)\<rparr>)"
    "va_base q = ?s" "va_length q = ?r - ?s" "rb_data n = a"
    using area_init_ok [OF o(1,3,4) bd(4) al, of m kspace] by blast
  let ?q = "q\<lparr>va_ops := (va_ops q)\<lparr>handle_pg_fault := panic\<rparr>\<rparr>"
  let ?m = "m\<lparr>vm_areas := (vm_areas m)(a \<mapsto> ?q), vm_nodes := (vm_nodes m)(area_node a \<mapsto> n),
    vm_links := (vm_links m)(area_link a \<mapsto> NULL)\<rparr>"
  have sp1: "space_ok ?m kspace as" by (rule space_ok_other [OF sp a])
  have ab: "area_base (vm_areas ?m) x = area_base (vm_areas m) x \<and> area_size (vm_areas ?m) x = area_size (vm_areas m) x"
    if "x \<in> set as" for x using that o(2) by (auto simp: area_base_def area_size_def)
  have "range_apart (vm_areas ?m) (set as) (va_base ?q) (va_length ?q)"
    using b ab i(2,3) len e ge unat_lt32 [of ?r] by (auto simp: range_apart_def simp del: unat_lt32)
  then have ap: "areas_apart (vm_areas ?m) (insert a (set as))"
    using areas_apart_insert [OF space_okD(2) [OF sp1], of "va_base ?q" "va_length ?q" a ?q] o(1,2) by simp
  have ofs: "vs_offset vs \<le> area_base (vm_areas ?m) a"
    using vs(2) i(2) e(2) by (simp add: area_base_def KERNEL_VM_OFFSET_def word_le_nat_alt)
  obtain m' where m': "vm_space_insert_area ?m kspace a = Inr m'" "vm_areas m' = vm_areas ?m"
    "space_ok m' kspace (insort_key (area_base (vm_areas ?m)) a as)"
    using insert_area_ok [OF sp1 ap o(2) _ ofs o(3,4,5), of n] vs(1) i(4) by auto
  have "area_base (vm_areas ?m) x < area_base (vm_areas ?m) a" if "x \<in> set as" for x
  proof -
    have "0 < unat (area_size (vm_areas m) x)" using areas_apart_ok [OF space_okD(2) [OF sp] that] by (auto simp: area_ok_def area_size_def split: option.splits)
    then show ?thesis using b that ab [OF that] i(2) by (auto simp: area_base_def word_less_nat_alt)
  qed
  then have "insort_key (area_base (vm_areas ?m)) a as = as @ [a]" using insort_key_split [of as "area_base (vm_areas ?m)" a "[]"] by simp
  moreover obtain root where "vm_spaces m' kspace = Some (vs\<lparr>vs_rb_areas := root\<rparr>)" using insert_area_space [OF m'(1)] vs(1) by auto
  moreover have eq: "m\<lparr>vm_nodes := (vm_nodes m)(area_node a \<mapsto> n), vm_links := (vm_links m)(area_link a \<mapsto> NULL),
      vm_areas := (vm_areas m)(a \<mapsto> ?q)\<rparr> = ?m" by simp
  have "vm_space_insert_area (m\<lparr>vm_nodes := (vm_nodes m)(area_node a \<mapsto> n), vm_links := (vm_links m)(area_link a \<mapsto> NULL),
      vm_areas := (vm_areas m)(a \<mapsto> ?q)\<rparr>) kspace a = Inr m'" unfolding eq by (rule m'(1))
  then have "init_segment_area k panic kspace seg a m = Inr m'"
    using i(1) bd(4) al by (cases "kernel_arch_get_segment k seg") (simp add: init_segment_area_def area_at_def Let_def)
  ultimately show ?thesis using m'(2,3) i(2,3) vs(2) len ge e(3)
    by (intro exI [of _ m'] exI [of _ ?q] exI [of _ "vs\<lparr>vs_rb_areas := root\<rparr>"]) simp
qed

text \<open>The area of a segment, and the addresses of the areas.\<close>

definition segment_area_at :: "kernel_symbols \<Rightarrow> addr \<Rightarrow> (addr \<rightharpoonup> vm_area) \<Rightarrow> addr \<Rightarrow> kernel_segments \<Rightarrow> bool" where
  "segment_area_at k panic m a seg \<longleftrightarrow> (case m a of None \<Rightarrow> False | Some r \<Rightarrow>
     va_base r = fst (kernel_arch_get_segment k seg) \<and>
     va_base r + va_length r = align_roundup (snd (kernel_arch_get_segment k seg)) PLATFORM_PAGE_SIZE \<and>
     handle_pg_fault (va_ops r) = panic)"

fun area_addrs :: "addr \<Rightarrow> nat \<Rightarrow> addr list" where
  "area_addrs a 0 = []"
| "area_addrs a (Suc n) = a # area_addrs (a + 56) n"

definition areas_free :: "addr \<Rightarrow> addr list \<Rightarrow> addr list \<Rightarrow> bool" where
  "areas_free sp as bs \<longleftrightarrow> distinct (as @ bs) \<and>
     (\<forall>a \<in> set bs. a \<noteq> NULL \<and> area_link a \<noteq> NULL \<and> area_node a \<noteq> NULL \<and> area_link a \<noteq> space_head sp)"

lemma segment_areas:
  assumes l: "boot_layout k" and ne: "\<forall>seg. fst (kernel_arch_get_segment k seg) < snd (kernel_arch_get_segment k seg)"
    and o: "sorted_wrt (\<lambda>x y. unat (align_roundup (snd (kernel_arch_get_segment k x)) PLATFORM_PAGE_SIZE) \<le>
      unat (fst (kernel_arch_get_segment k y))) segs"
    and "space_ok m kspace as" and "vm_spaces m kspace = Some vs" and "vs_offset vs = KERNEL_VM_OFFSET"
    and "areas_free kspace as (area_addrs a (length segs))"
    and "\<forall>seg \<in> set segs. \<forall>x \<in> set as. unat (area_base (vm_areas m) x) + unat (area_size (vm_areas m) x) \<le>
      unat (fst (kernel_arch_get_segment k seg))"
  shows "\<exists>m' vs'. init_segment_areas k panic kspace segs a m = Inr m' \<and>
    space_ok m' kspace (as @ area_addrs a (length segs)) \<and>
    list_all2 (segment_area_at k panic (vm_areas m')) (area_addrs a (length segs)) segs \<and>
    (\<forall>x. x \<notin> set (area_addrs a (length segs)) \<longrightarrow> vm_areas m' x = vm_areas m x) \<and>
    vm_spaces m' kspace = Some vs' \<and> vs_offset vs' = KERNEL_VM_OFFSET \<and> vs_root_dir vs' = vs_root_dir vs"
  using assms(3-)
proof (induction segs arbitrary: as a m vs)
  case Nil
  then show ?case by (intro exI [of _ m] exI [of _ vs]) simp
next
  case (Cons seg segs)
  let ?e = "\<lambda>seg. align_roundup (snd (kernel_arch_get_segment k seg)) PLATFORM_PAGE_SIZE"
  have fr: "areas_free kspace (as @ [a]) (area_addrs (a + 56) (length segs))" "other_area a kspace as"
    using Cons.prems(5) by (auto simp: areas_free_def other_area_def)
  have H: "\<forall>x \<in> set as. unat (area_base (vm_areas m) x) + unat (area_size (vm_areas m) x) \<le> unat (fst (kernel_arch_get_segment k seg))"
    using Cons.prems(6) by simp
  obtain m1 r v1 where m1: "init_segment_area k panic kspace seg a m = Inr m1" "space_ok m1 kspace (as @ [a])"
    "vm_areas m1 = (vm_areas m)(a \<mapsto> r)" "va_base r = fst (kernel_arch_get_segment k seg)"
    "va_base r + va_length r = ?e seg" "unat (va_base r) + unat (va_length r) = unat (?e seg)" "handle_pg_fault (va_ops r) = panic"
    "vm_spaces m1 kspace = Some v1" "vs_offset v1 = KERNEL_VM_OFFSET" "vs_root_dir v1 = vs_root_dir vs"
    using segment_area [OF l ne [rule_format, of seg] Cons.prems(2,3,4) fr(2) H, of panic] by blast
  have "unat (area_base (vm_areas m1) x) + unat (area_size (vm_areas m1) x) \<le> unat (fst (kernel_arch_get_segment k y))"
    if "y \<in> set segs" "x \<in> set (as @ [a])" for x y
  proof (cases "x = a")
    case True
    then show ?thesis using that(1) Cons.prems(1) m1(3,6) by (simp add: area_base_def area_size_def)
  next
    case False
    then show ?thesis using that Cons.prems(6) m1(3) by (auto simp: area_base_def area_size_def)
  qed
  then obtain m2 v2 where m2: "init_segment_areas k panic kspace segs (a + 56) m1 = Inr m2"
    "space_ok m2 kspace ((as @ [a]) @ area_addrs (a + 56) (length segs))"
    "list_all2 (segment_area_at k panic (vm_areas m2)) (area_addrs (a + 56) (length segs)) segs"
    "\<And>x. x \<notin> set (area_addrs (a + 56) (length segs)) \<Longrightarrow> vm_areas m2 x = vm_areas m1 x"
    "vm_spaces m2 kspace = Some v2" "vs_offset v2 = KERNEL_VM_OFFSET" "vs_root_dir v2 = vs_root_dir v1"
    using Cons.IH [OF _ m1(2,8,9) fr(1)] Cons.prems(1) by auto
  have "a \<notin> set (area_addrs (a + 56) (length segs))" using Cons.prems(5) by (simp add: areas_free_def)
  then have "segment_area_at k panic (vm_areas m2) a seg" using m2(4) m1(3-5,7) by (simp add: segment_area_at_def)
  moreover have "vm_areas m2 x = vm_areas m x" if "x \<notin> set (area_addrs a (length (seg # segs)))" for x
    using that m2(4) [of x] m1(3) by auto
  ultimately show ?case using m1(1,10) m2
    by (intro exI [of _ m2] exI [of _ v2]) simp
qed

lemma roundup_below:
  assumes "check_align s PLATFORM_PAGE_SIZE" and "e \<le> s" and "unat e \<le> 3225419776"
  shows "unat (align_roundup e PLATFORM_PAGE_SIZE) \<le> unat s"
proof -
  obtain q where q: "unat s = 4096 * q" using assms(1) by (auto simp: page_align_dvd)
  have "unat (align_roundup e PLATFORM_PAGE_SIZE) = (unat e + 4095) div 4096 * 4096"
    using unat_align_roundup [of 12 e] assms(3) by (simp add: PLATFORM_PAGE_SIZE_def)
  moreover have "\<not> q < (unat e + 4095) div 4096" using assms(2) q page_below [of q "unat e"] by (simp add: word_le_nat_alt)
  ultimately show ?thesis using q by simp
qed

lemma segments_in_order:
  assumes "boot_layout k"
  shows "sorted_wrt (\<lambda>x y. unat (align_roundup (snd (kernel_arch_get_segment k x)) PLATFORM_PAGE_SIZE) \<le>
      unat (fst (kernel_arch_get_segment k y))) KSEGMENTS"
proof -
  have c: "unat (kernel_text_end k) \<le> unat (kernel_rodata_start k)" "unat (kernel_rodata_start k) \<le> unat (kernel_rodata_end k)"
    "unat (kernel_rodata_end k) \<le> unat (kernel_data_start k)" "unat (kernel_data_start k) \<le> unat (kernel_data_end k)"
    "unat (kernel_data_end k) \<le> unat (kernel_bss_start k)"
    using assms unfolding boot_layout_def word_le_nat_alt by blast+
  note b = segment_bounds [OF assms]
  have e: "unat (snd (kernel_arch_get_segment k seg)) \<le> 3225419776" for seg using b(3) [of seg] by (simp add: word_le_nat_alt)
  have r: "unat (align_roundup (snd (kernel_arch_get_segment k x)) PLATFORM_PAGE_SIZE) \<le> unat (fst (kernel_arch_get_segment k y))"
    if "unat (snd (kernel_arch_get_segment k x)) \<le> unat (fst (kernel_arch_get_segment k y))" for x y
    by (rule roundup_below [OF b(4) _ e]) (use that in \<open>simp add: word_le_nat_alt\<close>)
  show ?thesis
    using r [of KSEGMENT_TEXT KSEGMENT_RODATA] r [of KSEGMENT_TEXT KSEGMENT_DATA] r [of KSEGMENT_TEXT KSEGMENT_BSS]
      r [of KSEGMENT_RODATA KSEGMENT_DATA] r [of KSEGMENT_RODATA KSEGMENT_BSS] r [of KSEGMENT_DATA KSEGMENT_BSS] c
    by (simp add: KSEGMENTS_def)
qed

text \<open>C22: with segments that are not empty, the kernel's space starts with one area for every segment, from its start to the end of its last page, in the order
  of their addresses, whose page faults are a panic; the directory of the space is the one the kernel was started with.\<close>

theorem init_kernel_vmspace_areas:
  assumes "boot_layout k" and "\<forall>seg. fst (kernel_arch_get_segment k seg) < snd (kernel_arch_get_segment k seg)"
    and "READY as" and "OFFSET as = KERNEL_VM_OFFSET" and "kspace \<noteq> NULL" and "space_head kspace \<noteq> NULL"
    and "vm_links m NULL = None" and "areas_free kspace [] (area_addrs areas 4)"
  shows "\<exists>m' vs. init_kernel_vmspace k as panic kspace areas m = Inr m' \<and> space_ok m' kspace (area_addrs areas 4) \<and>
    list_all2 (segment_area_at k panic (vm_areas m')) (area_addrs areas 4)
      [KSEGMENT_TEXT, KSEGMENT_RODATA, KSEGMENT_DATA, KSEGMENT_BSS] \<and>
    vm_spaces m' kspace = Some vs \<and> vs_root_dir vs = boot_paging_pd k \<and> vs_offset vs = KERNEL_VM_OFFSET"
proof -
  have "page_in (kernel_bss_start k) (kernel_bss_end k) (boot_paging_pd k)" using assms(1) unfolding boot_layout_def by blast
  then have "0xC0000000 \<le> boot_paging_pd k" by (rule page_in_bss(1) [OF assms(1)])
  then have pd: "boot_paging_pd k \<noteq> NULL" by auto
  obtain m1 where m1: "vm_space_init m kspace (boot_paging_pd k) KERNEL_VM_OFFSET = Inr m1" "space_ok m1 kspace []"
    using space_init_ok [OF assms(5) pd assms(6,7)] by blast
  then obtain v1 where v1: "vm_spaces m1 kspace = Some v1" "vs_offset v1 = KERNEL_VM_OFFSET" "vs_root_dir v1 = boot_paging_pd k"
    by (auto simp: vm_space_init_def kres_simps)
  have n: "length KSEGMENTS = 4" by (simp add: KSEGMENTS_def)
  obtain m2 v2 where m2: "init_segment_areas k panic kspace KSEGMENTS areas m1 = Inr m2" "space_ok m2 kspace (area_addrs areas 4)"
    "list_all2 (segment_area_at k panic (vm_areas m2)) (area_addrs areas 4) KSEGMENTS"
    "vm_spaces m2 kspace = Some v2" "vs_offset v2 = KERNEL_VM_OFFSET" "vs_root_dir v2 = vs_root_dir v1"
    using segment_areas [OF assms(1,2) segments_in_order [OF assms(1)] m1(2) v1(1,2), of areas panic] assms(8) unfolding n by auto
  then show ?thesis using m1(1) v1(3) assms(3,4)
    by (simp add: init_kernel_vmspace_def addr_get_offset_def vm_arch_get_early_pgroot_def KSEGMENTS_def)
qed

definition no_objects :: vm_mem where
  "no_objects = \<lparr>vm_areas = Map.empty, vm_nodes = Map.empty, vm_links = Map.empty, vm_spaces = Map.empty\<rparr>"

theorem init_kernel_vmspace_areas_witness:
  "\<exists>m'. init_kernel_vmspace example_symbols \<lparr>READY = True, OFFSET = 0xC0000000\<rparr> 0x77 0x100 0x500 no_objects = Inr m' \<and>
    space_ok m' 0x100 [0x500, 0x538, 0x570, 0x5A8] \<and> segment_area_at example_symbols 0x77 (vm_areas m') 0x538 KSEGMENT_RODATA"
proof -
  have n: "\<forall>seg. fst (kernel_arch_get_segment example_symbols seg) < snd (kernel_arch_get_segment example_symbols seg)"
    by (simp add: all_segment example_symbols_def)
  have four: "area_addrs 0x500 4 = [0x500, 0x538, 0x570, 0x5A8]" by (simp add: eval_nat_numeral)
  have f: "areas_free 0x100 [] (area_addrs 0x500 4)"
    unfolding four by (simp add: areas_free_def area_link_def area_node_def space_head_def)
  show ?thesis
    using init_kernel_vmspace_areas [OF example_layout n, of "\<lparr>READY = True, OFFSET = 0xC0000000\<rparr>" "0x100" no_objects "0x500" "0x77"] f
    by (auto simp: four KERNEL_VM_OFFSET_def space_head_def no_objects_def)
qed

section \<open>Claiming all memory\<close>

text \<open>The zone is made of the whole pages of a region.\<close>

lemma zone_pages:
  assumes "4096 < unat len" and "unat b + unat len < 2 ^ 32 - 4096"
  shows "register_zone_for_mem memory tmp handler kspace b len s =
      kbind (mm_zone_create memory s tmp handler (align_roundup b PLATFORM_PAGE_SIZE)
        (align_rounddown (b + len) PLATFORM_PAGE_SIZE - align_roundup b PLATFORM_PAGE_SIZE) kspace) (\<lambda>(_, s). Inr s)"
    "unat (align_rounddown (b + len) PLATFORM_PAGE_SIZE - align_roundup b PLATFORM_PAGE_SIZE) =
      (unat b + unat len) div 4096 * 4096 - (unat b + 4095) div 4096 * 4096"
    "(unat b + 4095) div 4096 \<le> (unat b + unat len) div 4096"
proof -
  have u: "unat (b + len) = unat b + unat len" using assms(2) by (intro unat_add32) simp
  have d: "unat (align_rounddown (b + len) PLATFORM_PAGE_SIZE) = (unat b + unat len) div 4096 * 4096"
    using unat_align_rounddown [of 12 "b + len"] by (simp add: PLATFORM_PAGE_SIZE_def u)
  have r: "unat (align_roundup b PLATFORM_PAGE_SIZE) = (unat b + 4095) div 4096 * 4096"
    using unat_align_roundup [of 12 b] assms(2) by (simp add: PLATFORM_PAGE_SIZE_def)
  show le: "(unat b + 4095) div 4096 \<le> (unat b + unat len) div 4096" using assms(1) by (intro div_le_mono) linarith
  then show "unat (align_rounddown (b + len) PLATFORM_PAGE_SIZE - align_roundup b PLATFORM_PAGE_SIZE) =
      (unat b + unat len) div 4096 * 4096 - (unat b + 4095) div 4096 * 4096"
    using d r by (simp add: unat_sub32)
qed (simp add: register_zone_for_mem_def Let_def)

fun zones_fold :: "('x \<Rightarrow> 's \<Rightarrow> 's kres) \<Rightarrow> 'x list \<Rightarrow> 's \<Rightarrow> 's kres" where
  "zones_fold f [] s = Inr s"
| "zones_fold f (x # xs) s = kbind (f x s) (zones_fold f xs)"

lemma same_ids_owner:
  assumes "res_objects t = (res_objects s)(q \<mapsto> (res_obj s q)\<lparr>rs_owner := w\<rparr>)"
  shows "same_ids strs t dev res r = same_ids strs s dev res r" "rs_base (res_obj t r) = rs_base (res_obj s r)"
    "rs_len (res_obj t r) = rs_len (res_obj s r)"
  using assms by (simp_all add: same_ids_def res_obj_def)

lemma filter_remove_first:
  "find P xs = Some q \<Longrightarrow> P q \<Longrightarrow> filter P xs = q # filter P (remove1 q xs) \<and> filter (\<lambda>x. \<not> P x) (remove1 q xs) = filter (\<lambda>x. \<not> P x) xs \<and>
    length xs = Suc (length (remove1 q xs))"
  by (induction xs) (auto split: if_splits)

lemma mem_zones_all:
  assumes "string_at strs platform" and "string_at strs memory_id" and "res_ok strs rs F C" and "length F < fuel" and "NULL \<notin> set F"
  shows "\<exists>rs'. mem_zones_loop fuel strs platform memory_id reg rs s =
      kbind (zones_fold (\<lambda>q. reg (rs_base (res_obj rs q)) (rs_len (res_obj rs q))) (filter (same_ids strs rs platform memory_id) F) s)
        (\<lambda>s. Inr (s, rs')) \<and>
    res_ok strs rs' (filter (\<lambda>q. \<not> same_ids strs rs platform memory_id q) F)
      (rev (filter (same_ids strs rs platform memory_id) F) @ C)"
  using assms(3-)
proof (induction fuel arbitrary: rs F C s)
  case (Suc fuel)
  let ?P = "same_ids strs rs platform memory_id"
  obtain r rs1 where c: "resources_kclaim_by_id strs rs platform memory_id = Inr (r, rs1)"
    "case find ?P F of None \<Rightarrow> r = NULL \<and> rs1 = rs
     | Some q \<Rightarrow> r = q \<and> res_ok strs rs1 (remove1 q F) (q # C) \<and>
         res_objects rs1 = (res_objects rs)(q \<mapsto> (res_obj rs q)\<lparr>rs_owner := RES_OWNER_KERNEL\<rparr>)"
    using kclaim_ok [OF Suc.prems(1) assms(1,2)] by blast
  show ?case
  proof (cases "find ?P F")
    case None
    then have "filter ?P F = []" "filter (\<lambda>q. \<not> ?P q) F = F" by (auto simp: find_None_iff filter_empty_conv intro: filter_True)
    then show ?thesis using c None Suc.prems(1) by (intro exI [of _ rs]) simp
  next
    case (Some q)
    then have q: "r = q" "res_ok strs rs1 (remove1 q F) (q # C)"
      "res_objects rs1 = (res_objects rs)(q \<mapsto> (res_obj rs q)\<lparr>rs_owner := RES_OWNER_KERNEL\<rparr>)" using c(2) by auto
    have "q \<in> set F" "?P q" using Some by (auto simp: find_Some_iff)
    then have nn: "q \<noteq> NULL" using Suc.prems(3) by auto
    note f = filter_remove_first [OF Some \<open>?P q\<close>] and e = same_ids_owner [OF q(3)]
    have n1: "NULL \<notin> set (remove1 q F)" using Suc.prems(3) by (meson notin_set_remove1)
    have ro: "resource_at rs1 q = Inr (res_obj rs1 q)" using q(3) by (simp add: resource_at_def res_obj_def)
    show ?thesis
    proof (cases "reg (rs_base (res_obj rs q)) (rs_len (res_obj rs q)) s")
      case (Inl x)
      obtain rs' where "res_ok strs rs' (filter (\<lambda>q. \<not> ?P q) (remove1 q F)) (rev (filter ?P (remove1 q F)) @ q # C)"
        using Suc.IH [OF q(2) _ n1, of s] f Suc.prems(2) e(1) by auto
      then show ?thesis using c(1) q(1) nn ro Inl f e(2,3) by (intro exI [of _ rs']) simp
    next
      case (Inr s1)
      obtain rs' where "mem_zones_loop fuel strs platform memory_id reg rs1 s1 =
          kbind (zones_fold (\<lambda>q. reg (rs_base (res_obj rs q)) (rs_len (res_obj rs q))) (filter ?P (remove1 q F)) s1) (\<lambda>s. Inr (s, rs'))"
        "res_ok strs rs' (filter (\<lambda>q. \<not> ?P q) (remove1 q F)) (rev (filter ?P (remove1 q F)) @ q # C)"
        using Suc.IH [OF q(2) _ n1, of s1] f Suc.prems(2) e by auto
      then show ?thesis using c(1) q(1) nn ro Inr f e(2,3) by (intro exI [of _ rs']) simp
    qed
  qed
qed simp

text \<open>C24: the loop over the free memory ends. It makes a zone for every region the platform registered, the newest first, stops
  at the first that fails, and leaves the registry with these regions claimed and all other resources free.\<close>

theorem register_mem_zones_claims_all:
  assumes "res_ok strs rs F C" and "NULL \<notin> set F" and "string_at strs platform" and "string_at strs memory_id"
  shows "\<exists>rs'. register_mem_zones strs platform memory_id memory tmp handler kspace rs s =
      kbind (zones_fold (\<lambda>q. register_zone_for_mem memory tmp handler kspace (rs_base (res_obj rs q)) (rs_len (res_obj rs q)))
        (filter (same_ids strs rs platform memory_id) F) s) (\<lambda>s. Inr (s, rs')) \<and>
    res_ok strs rs' (filter (\<lambda>q. \<not> same_ids strs rs platform memory_id q) F)
      (rev (filter (same_ids strs rs platform memory_id) F) @ C)"
proof -
  have "slist_rep (res_links rs) (free_head rs) (map resource_link F)" using assms(1) by (simp add: res_ok_def)
  then have "length (free_head rs # map resource_link F) \<le> addr_fuel" using slist_repD(4) by (intro distinct_addr_length) blast
  then have "length F < addr_fuel" by simp
  then show ?thesis unfolding register_mem_zones_def by (rule mem_zones_all [OF assms(3,4,1) _ assms(2)])
qed

text \<open>One region of memory, of two pages, and a kernel space without areas.\<close>

lemma example_one_zone: "\<exists>s'. register_zone_for_mem memory 0x900 0x5000 0x100 0x100000 0x2000 boot_state = Inr s'"
proof -
  have "\<exists>s' used as'. mm_zone_create memory boot_state 0x900 0x5000 0x100000 0x2000 0x100 = Inr (0xC010000C, s') \<and>
    mm_ok s' ((\<lambda>_. 0)(0xC010000C := 0x2000 div 4096)) [0xC010000C]"
    using zone_create_ok [OF boot_state_ok, of "\<lparr>vs_root_dir = 0x1000, vs_offset = 0xC0000000, vs_rb_areas = NULL\<rparr>"
        "0x900" "0x100000" "0x2000" "0xC010000C" memory "0x5000"]
    by (auto simp: boot_state_def zone_place_def range_apart_def other_area_def page_align_dvd zone_info_area_def
        zone_link_def area_link_def area_node_def space_head_def)
  then show ?thesis by (auto simp: register_zone_for_mem_def align_roundup_def align_rounddown_def PLATFORM_PAGE_SIZE_def)
qed

theorem register_mem_zones_claims_all_witness:
  "\<exists>s' rs'. register_mem_zones example_strs 0x40 0x10 (\<lambda>_. 0) 0x900 0x5000 0x100 example_registry boot_state = Inr (s', rs') \<and>
    res_ok example_strs rs' [] [0x1000]"
proof -
  have ok: "res_ok example_strs example_registry [0x1000] []"
    by (simp add: res_ok_def example_registry_def slist_rep_def resource_link_def owner_state_def RES_OWNER_NONE_def
        string_at_def example_strs_def)
  have o: "res_obj example_registry 0x1000 = \<lparr>rs_device_id = 0x30, rs_resource_id = 0x10, rs_owner = 0,
      rs_type = RESOURCE_TYPE_MEMORY, rs_base = 0x100000, rs_len = 0x2000\<rparr>" by (simp add: res_obj_def example_registry_def)
  have i: "same_ids example_strs example_registry 0x40 0x10 0x1000" by (simp add: same_ids_def o cstr_of_def example_strs_def)
  have n: "NULL \<notin> set [0x1000 :: addr]" "string_at example_strs 0x40" "string_at example_strs 0x10"
    by (simp_all add: string_at_def example_strs_def)
  obtain s1 where s1: "register_zone_for_mem (\<lambda>_. 0) 0x900 0x5000 0x100 0x100000 0x2000 boot_state = Inr s1"
    using example_one_zone by blast
  show ?thesis using register_mem_zones_claims_all [OF ok n, of "\<lambda>_. 0" "0x900" "0x5000" "0x100" boot_state] i o s1 by auto
qed

end
