(* ===== verification/I686_Init.thy ===== *)
theory I686_Init
  imports Boot_Paging Platform_Resources Panic Interrupts
begin

text \<open>
  \<open>i686_init\<close> of kernel/arch/i686/kernel.c: the parts of the platform set up in turn, up to the call of
  \<open>kernel_init\<close>. The state is that of the parts. What the boot loader left stands in physical memory and
  is read through the page tables, once they are on; an object lies in one page. What the linker, the assembler
  files and the hardware give is a record.
\<close>

section \<open>The state of the platform\<close>

record platform_state =
  im_boot :: boot_state
  im_addr :: addr_state
  im_desc :: descriptors
  im_intr :: intr_state
  im_res :: res_state
  im_multiboot :: addr
  mb_infos :: "addr \<rightharpoonup> multiboot_info"
  mb_entries :: "addr \<rightharpoonup> multiboot_mmap_entry"

record platform_env =
  be_symbols :: kernel_symbols
  be_ip :: addr
  be_sp :: addr
  be_io :: "u16 \<Rightarrow> nat \<Rightarrow> u8"
  be_isr :: "nat \<Rightarrow> addr"
  be_irq :: "nat \<Rightarrow> addr"
  be_gdt :: addr
  be_idt :: addr
  be_default_handler :: addr
  be_pg_fault_handler :: addr
  be_kernel_start :: addr
  be_kernel_end :: addr
  be_platform :: addr
  be_memory :: addr
  be_video :: addr

definition MULTIBOOT_BOOTLOADER_MAGIC :: u32 where "MULTIBOOT_BOOTLOADER_MAGIC = 0x2BADB002"
definition INTR_CPU_PAGEFAULT :: u8 where "INTR_CPU_PAGEFAULT = 0xE"

text \<open>The physical address of a virtual one, and the objects of physical memory by their virtual addresses.\<close>

definition phys_at :: "mmu \<Rightarrow> addr \<Rightarrow> addr option" where
  "phys_at s v = map_option (\<lambda>f. push_bit 12 (ucast f) OR take_bit 12 v) (page_frame s v)"

definition through :: "mmu \<Rightarrow> (addr \<rightharpoonup> 'a) \<Rightarrow> addr \<rightharpoonup> 'a" where
  "through s h v = Option.bind (phys_at s v) h"

text \<open>The result says whether \<open>kernel_init\<close> was reached, from which there is no return.\<close>

definition i686_init :: "platform_env \<Rightarrow> addr \<Rightarrow> u32 \<Rightarrow> platform_state \<Rightarrow> (bool \<times> platform_state) kres" where
  "i686_init e info magic s =
     (if magic \<noteq> MULTIBOOT_BOOTLOADER_MAGIC then Inr (False, s)
      else kbind (setup_boot_paging (be_symbols e) (be_ip e) (be_sp e) (im_boot s)) (\<lambda>b.
      let s = s\<lparr>im_boot := b\<rparr> in
      kbind (addr_set_offset (im_addr s) KERNEL_VM_OFFSET) (\<lambda>a.
      let s = s\<lparr>im_addr := a\<rparr>;
          s = s\<lparr>im_desc := boot_setup_gdt (be_gdt e) (im_desc s)\<rparr>;
          s = s\<lparr>im_desc := boot_setup_idt (be_idt e) (im_desc s)\<rparr> in
      kbind (intr_init (be_io e) (be_isr e) (be_irq e) (im_desc s) (im_intr s)) (\<lambda>(d, i).
      let s = s\<lparr>im_desc := d, im_intr := i\<rparr> in
      kbind (i686_setup_exception_handlers (im_intr s) (be_default_handler e)) (\<lambda>i.
      let s = s\<lparr>im_intr := i\<rparr> in
      kbind (intr_handler_cpu (im_intr s) INTR_CPU_PAGEFAULT (be_pg_fault_handler e)) (\<lambda>i.
      let s = s\<lparr>im_intr := i\<rparr> in
      kbind (addr_to_high (im_addr s) info) (\<lambda>mb.
      let s = s\<lparr>im_multiboot := mb\<rparr>; mmu = boot_mmu (im_boot s) in
      case phys_at mmu mb of None \<Rightarrow> Inl Undef | Some p \<Rightarrow>
      case mb_infos s p of None \<Rightarrow> Inl Undef | Some x \<Rightarrow>
      let x = x\<lparr>mb_mmap_addr := patch_multiboot_info (mb_mmap_addr x)\<rparr>;
          s = s\<lparr>mb_infos := (mb_infos s)(p \<mapsto> x)\<rparr> in
      kbind (resources_init (im_res s)) (\<lambda>r.
      kbind (i686_register_resources (im_addr s) (be_kernel_start e) (be_kernel_end e) x (through mmu (mb_entries s))
        (be_platform e) (be_memory e) (be_video e) r) (\<lambda>r.
      Inr (True, s\<lparr>im_res := r\<rparr>))))))))))"

section \<open>What the kernel starts with\<close>

lemma phys_at_mapped:
  assumes "\<forall>v. pd_index v < 1022 \<longrightarrow> page_frame s v = (if boot_mapped k v then Some (phys_frame (TO_LOW v)) else None)"
    and "boot_layout k" and "boot_mapped k v"
  shows "phys_at s v = Some (TO_LOW v)"
proof -
  have "pd_index v < 1022" using boot_mapped_iff [OF assms(2), of v] assms(3) by auto
  moreover have "take_bit 12 v = take_bit 12 (TO_LOW v)" using take_high(1) [of "TO_LOW v"] by simp
  ultimately show ?thesis using assms(1,3) place_join [of "TO_LOW v"] by (simp add: phys_at_def)
qed

lemma intr_init_all:
  obtains d' s' where "intr_init io isr irq (boot_setup_idt idt d) s = Inr (d', s')" "idtr d' = (2047, idt)"
    "\<forall>v < 256. hw_gate (gate_word (gates d' ! v)) = gate_of_vector isr irq v"
    "HANDLERS s' = HANDLERS s" "DEFAULT_HANDLER s' = DEFAULT_HANDLER s"
proof -
  obtain d' s' where i: "intr_init io isr irq (boot_setup_idt idt d) s = Inr (d', s')"
    using intr_init_gate [of 0 io isr irq idt d s] by auto
  then have "idtr d' = (2047, idt) \<and> hw_gate (gate_word (gates d' ! v)) = gate_of_vector isr irq v" if "v < 256" for v
    using intr_init_gate [OF that, of io isr irq idt d s] by auto
  moreover have "HANDLERS s' = HANDLERS s" "DEFAULT_HANDLER s' = DEFAULT_HANDLER s"
    using i by (auto simp: intr_init_def kres_simps)
  moreover from calculation(1) [of 0] have "idtr d' = (2047, idt)" by simp
  ultimately show ?thesis using that [OF i] by blast
qed

text \<open>The state of the boot: nothing is set up, and the frames the code patches are in memory that is mapped.\<close>

definition boot_ready :: "platform_env \<Rightarrow> platform_state \<Rightarrow> bool" where
  "boot_ready e s \<longleftrightarrow> (let k = be_symbols e; b = im_boot s in
     boot_layout k \<and> \<not> paging b \<and> boot_mapped k (TO_HIGH (be_ip e)) \<and> boot_mapped k (TO_HIGH (be_sp e)) \<and>
     (\<forall>i. entry_at b (phys_frame (TO_LOW (boot_paging_pd k))) i = zero_pge) \<and>
     (\<forall>i. entry_at b (phys_frame (TO_LOW (boot_paging_pt k))) i = zero_pge) \<and>
     (\<forall>w \<in> frame_words b. boot_mapped k (TO_HIGH w)) \<and>
     im_addr s = addr_state_init \<and> DEFAULT_HANDLER (im_intr s) = NULL \<and> HANDLERS (im_intr s) = replicate 256 NULL \<and>
     claimed_head (im_res s) \<noteq> NULL \<and> free_head (im_res s) \<noteq> NULL \<and> claimed_head (im_res s) \<noteq> free_head (im_res s) \<and>
     res_links (im_res s) NULL = None)"

text \<open>What each part promises, in the state that the next one and the kernel find.\<close>

definition platform_up :: "platform_env \<Rightarrow> platform_state \<Rightarrow> bool" where
  "platform_up e s \<longleftrightarrow> (let k = be_symbols e in
     paging (im_boot s) \<and> dir_ok (boot_mmu (im_boot s)) (boot_paging_pd k) \<and>
     (\<forall>v. pd_index v < 1022 \<longrightarrow>
        page_frame (boot_mmu (im_boot s)) v = (if boot_mapped k v then Some (phys_frame (TO_LOW v)) else None)) \<and>
     addr_get_offset (im_addr s) = Inr KERNEL_VM_OFFSET \<and>
     idtr (im_desc s) = (2047, be_idt e) \<and>
     (\<forall>v < 256. hw_gate (gate_word (gates (im_desc s) ! v)) = gate_of_vector (be_isr e) (be_irq e) v) \<and>
     DEFAULT_HANDLER (im_intr s) = be_default_handler e \<and>
     HANDLERS (im_intr s) = (replicate 256 NULL)[14 := be_pg_fault_handler e])"

lemma resources_init_rep:
  assumes "claimed_head r \<noteq> NULL" "free_head r \<noteq> NULL" "claimed_head r \<noteq> free_head r" "res_links r NULL = None"
  obtains h where "resources_init r = Inr (r\<lparr>res_links := h\<rparr>)" "slist_rep h (claimed_head r) []" "slist_rep h (free_head r) []"
proof -
  let ?h = "(res_links r)(claimed_head r \<mapsto> NULL, free_head r \<mapsto> NULL)"
  have "resources_init r = Inr (r\<lparr>res_links := ?h\<rparr>)" using assms by (simp add: resources_init_def slist_init_def)
  then show ?thesis using that [of ?h] assms by (simp add: slist_rep_def)
qed

text \<open>C21: started by a boot loader that leaves its information in the image or the first megabyte, the platform sets its parts up so that each finds what it needs of the ones
  before: the memory map the loader left at low addresses is read at high ones, after the low mapping is gone.
  The kernel then starts with a well-formed directory that maps its image and the first megabyte high, with the
  offset of the translation set, all gates in place, and with the handlers of exceptions and page faults. The one step
  that can still fail is the registration of the resources, on empty lists, from the map as the loader left it.\<close>

theorem i686_init_sets_up:
  assumes "boot_ready e s" and "info < KERNEL_VM_OFFSET" and "boot_mapped (be_symbols e) (TO_HIGH info)"
    and "mb_infos s info = Some x"
  shows "\<exists>h s'. slist_rep h (claimed_head (im_res s)) [] \<and> slist_rep h (free_head (im_res s)) [] \<and> platform_up e s' \<and>
    im_multiboot s' = TO_HIGH info \<and> mb_infos s' info = Some (x\<lparr>mb_mmap_addr := TO_HIGH (mb_mmap_addr x)\<rparr>) \<and>
    (\<forall>v. boot_mapped (be_symbols e) v \<longrightarrow> through (boot_mmu (im_boot s')) (mb_entries s) v = mb_entries s (TO_LOW v)) \<and>
    i686_init e info MULTIBOOT_BOOTLOADER_MAGIC s =
      kbind (i686_register_resources \<lparr>READY = True, OFFSET = KERNEL_VM_OFFSET\<rparr> (be_kernel_start e) (be_kernel_end e)
        (x\<lparr>mb_mmap_addr := TO_HIGH (mb_mmap_addr x)\<rparr>) (through (boot_mmu (im_boot s')) (mb_entries s))
        (be_platform e) (be_memory e) (be_video e) ((im_res s)\<lparr>res_links := h\<rparr>)) (\<lambda>r. Inr (True, s'\<lparr>im_res := r\<rparr>))"
proof -
  let ?k = "be_symbols e" and ?x = "x\<lparr>mb_mmap_addr := TO_HIGH (mb_mmap_addr x)\<rparr>"
  have r: "boot_layout ?k" "im_addr s = addr_state_init" "DEFAULT_HANDLER (im_intr s) = NULL" "HANDLERS (im_intr s) = replicate 256 NULL"
    using assms(1) by (simp_all add: boot_ready_def Let_def)
  obtain b where b: "setup_boot_paging ?k (be_ip e) (be_sp e) (im_boot s) = Inr b" "paging b" "dir_ok (boot_mmu b) (boot_paging_pd ?k)"
    "\<forall>v. pd_index v < 1022 \<longrightarrow> page_frame (boot_mmu b) v = (if boot_mapped ?k v then Some (phys_frame (TO_LOW v)) else None)"
    using setup_boot_paging_ok [of ?k "im_boot s" "be_ip e" "be_sp e"] assms(1) unfolding boot_ready_def Let_def by blast
  obtain d i where d: "intr_init (be_io e) (be_isr e) (be_irq e) (boot_setup_idt (be_idt e) (boot_setup_gdt (be_gdt e) (im_desc s)))
      (im_intr s) = Inr (d, i)" "idtr d = (2047, be_idt e)"
    "\<forall>v < 256. hw_gate (gate_word (gates d ! v)) = gate_of_vector (be_isr e) (be_irq e) v"
    "HANDLERS i = HANDLERS (im_intr s)" "DEFAULT_HANDLER i = DEFAULT_HANDLER (im_intr s)"
    by (rule intr_init_all)
  obtain h where h: "resources_init (im_res s) = Inr ((im_res s)\<lparr>res_links := h\<rparr>)" "slist_rep h (claimed_head (im_res s)) []"
    "slist_rep h (free_head (im_res s)) []"
    using resources_init_rep [of "im_res s"] assms(1) unfolding boot_ready_def Let_def by blast
  let ?i = "i\<lparr>DEFAULT_HANDLER := be_default_handler e, HANDLERS := (HANDLERS i)[14 := be_pg_fault_handler e]\<rparr>"
  let ?s = "s\<lparr>im_boot := b, im_addr := \<lparr>READY = True, OFFSET = KERNEL_VM_OFFSET\<rparr>, im_desc := d, im_intr := ?i,
    im_multiboot := TO_HIGH info, mb_infos := (mb_infos s)(info \<mapsto> ?x)\<rparr>"
  have "i686_setup_exception_handlers i (be_default_handler e) = Inr (i\<lparr>DEFAULT_HANDLER := be_default_handler e\<rparr>)"
    "intr_handler_cpu (i\<lparr>DEFAULT_HANDLER := be_default_handler e\<rparr>) INTR_CPU_PAGEFAULT (be_pg_fault_handler e) = Inr ?i"
    using r(3,4) d(4,5) by (simp_all add: i686_setup_exception_handlers_def intr_handler_cpu_default_def intr_handler_cpu_def
        INTR_CPU_PAGEFAULT_def)
  moreover have "phys_at (boot_mmu b) (TO_HIGH info) = Some info" using phys_at_mapped [OF b(4) r(1) assms(3)] by simp
  moreover have "addr_to_high \<lparr>READY = True, OFFSET = KERNEL_VM_OFFSET\<rparr> info = Inr (TO_HIGH info)"
    "addr_set_offset (im_addr s) KERNEL_VM_OFFSET = Inr \<lparr>READY = True, OFFSET = KERNEL_VM_OFFSET\<rparr>"
    using assms(2) r(2) by (simp_all add: addr_to_high_def TO_HIGH_def addr_set_offset_def addr_state_init_def)
  ultimately have "i686_init e info MULTIBOOT_BOOTLOADER_MAGIC s =
      kbind (i686_register_resources \<lparr>READY = True, OFFSET = KERNEL_VM_OFFSET\<rparr> (be_kernel_start e) (be_kernel_end e) ?x
        (through (boot_mmu (im_boot ?s)) (mb_entries s)) (be_platform e) (be_memory e) (be_video e) ((im_res s)\<lparr>res_links := h\<rparr>))
        (\<lambda>r. Inr (True, ?s\<lparr>im_res := r\<rparr>))"
    using assms(4) by (simp add: i686_init_def Let_def b(1) d(1) h(1) patch_multiboot_info_def)
  moreover have "platform_up e ?s" using b d(2-4) r(4) by (simp add: platform_up_def Let_def addr_get_offset_def)
  ultimately show ?thesis using h(2,3) phys_at_mapped [OF b(4) r(1)]
    by (intro exI [of _ h] exI [of _ ?s]) (simp add: through_def)
qed

text \<open>A loader that reports one region of memory above the kernel: the region and the video buffer are registered.\<close>

definition example_env :: platform_env where
  "example_env = \<lparr>be_symbols = example_symbols, be_ip = 0x100123, be_sp = 0x103FF0, be_io = (\<lambda>_ _. 0),
     be_isr = (\<lambda>n. 0xC0101000 + 16 * of_nat n), be_irq = (\<lambda>n. 0xC0102000 + 16 * of_nat n), be_gdt = 0xC0103100, be_idt = 0xC0103200,
     be_default_handler = 0xC0100200, be_pg_fault_handler = 0xC0100300, be_kernel_start = 0xC0100000, be_kernel_end = 0xC0106000,
     be_platform = 0x40, be_memory = 0x10, be_video = 0x20\<rparr>"

definition example_platform :: platform_state where
  "example_platform = \<lparr>im_boot = example_boot, im_addr = addr_state_init,
     im_desc = \<lparr>null_descriptor = zero_gdt_entry, code_descriptor = zero_gdt_entry, data_descriptor = zero_gdt_entry, gates = [],
       gdtr = (0, 0), idtr = (0, 0), data_sel = 0, code_sel = 0\<rparr>,
     im_intr = \<lparr>HANDLERS = replicate 256 NULL, DEFAULT_HANDLER = NULL, pics = \<lparr>port_writes = [], port_reads = 0\<rparr>\<rparr>,
     im_res = \<lparr>res_objects = (\<lambda>_. Some \<lparr>rs_device_id = 0, rs_resource_id = 0, rs_owner = 0, rs_type = RESOURCE_TYPE_MEMORY,
         rs_base = 0, rs_len = 0\<rparr>), res_links = Map.empty, RESOURCES_STORAGE = 0x1000, RESOURCES_NEXT_FREE_NDX = 0,
       claimed_head = 0x900, free_head = 0x904\<rparr>,
     im_multiboot = NULL, mb_infos = [0x9000 \<mapsto> \<lparr>mb_flags = 0x40, mb_mmap_length = 24, mb_mmap_addr = 0x9100\<rparr>],
     mb_entries = [0x9100 \<mapsto> \<lparr>mmap_size = 20, mmap_start = 0x200000, mmap_len = 0x100000, mmap_type = 1\<rparr>]\<rparr>"

lemma example_boot_ready: "boot_ready example_env example_platform"
proof -
  have "boot_mapped example_symbols 0xC0103FE0" "boot_mapped example_symbols 0xC0103FE4" "boot_mapped example_symbols 0xC0103FF4"
    by (simp_all add: boot_mapped_def ex_segment in_segment_def example_symbols_def KERNEL_VM_OFFSET_def align_rounddown_def
      PLATFORM_PAGE_SIZE_def)
  moreover have "\<not> paging example_boot" "entry_at example_boot f i = zero_pge" for f i by (simp_all add: example_boot_def entry_at_def)
  moreover have "frame_words example_boot = {0x103FE0, 0x103FE4, 0x103FF0, 0x103FF4}" by (auto simp: frame_words_def example_boot_def)
  ultimately show ?thesis
    using example_layout example_mapped by (simp add: boot_ready_def example_env_def example_platform_def TO_HIGH_def KERNEL_VM_OFFSET_def)
qed

lemma example_registered:
  assumes "h 0x904 = Some NULL" "h NULL = None" "m 0xC0009100 = mb_entries example_platform 0x9100"
  shows "\<exists>r. i686_register_resources \<lparr>READY = True, OFFSET = KERNEL_VM_OFFSET\<rparr> 0xC0100000 0xC0106000
      \<lparr>mb_flags = 0x40, mb_mmap_length = 24, mb_mmap_addr = 0xC0009100\<rparr> m 0x40 0x10 0x20
      ((im_res example_platform)\<lparr>res_links := h\<rparr>) = Inr r \<and>
    RESOURCES_NEXT_FREE_NDX r = 2 \<and> res_objects r 0x1000 = Some \<lparr>rs_device_id = 0x40, rs_resource_id = 0x10, rs_owner = 0,
      rs_type = RESOURCE_TYPE_MEMORY, rs_base = 0x200000, rs_len = 0x100000\<rparr>"
proof -
  let ?a = "\<lparr>READY = True, OFFSET = KERNEL_VM_OFFSET\<rparr>"
  let ?e = "\<lparr>mmap_size = 20, mmap_start = 0x200000, mmap_len = 0x100000, mmap_type = 1\<rparr>"
  obtain f where f: "addr_fuel = Suc (Suc f)" using that [of "2 ^ 32 - 2"] by (simp add: addr_fuel_def)
  have m: "m 0xC0009100 = Some ?e" using assms(3) by (simp add: example_platform_def)
  have k: "addr_to_low ?a 0xC0100000 = Inr 0x100000" "addr_to_low ?a 0xC0106000 = Inr 0x106000"
    by (simp_all add: addr_to_low_def KERNEL_VM_OFFSET_def)
  have i: "iter_without_unavail ?a 0xC0100000 0xC0106000 ?e fn r = fn 0x200000 0x300000 1 r" for fn and r :: res_state
    by (simp add: iter_without_unavail_def k MULTIBOOT_MEMORY_BADRAM_def MULTIBOOT_MEMORY_RESERVED_def MAX_ADDR_eq Let_def)
  have g: "register_mem_region 0x40 0x10 0x200000 0x300000 1 r = resources_register r 0x40 0x10 RESOURCE_TYPE_MEMORY (0x200000, 0x100000)" for r
    by (simp add: register_mem_region_def PLATFORM_PAGE_SIZE_def MIN_u32_def MAX_ADDR_eq Let_def)
  show ?thesis
    unfolding i686_register_resources_def iter_available_regions_def f
    using assms(1,2)
    by (simp add: m i g MULTIBOOT_INFO_MEM_MAP_def register_bios_vga_def resources_register_def resources_get_new_def MAX_RESOURCES_def
        example_platform_def resource_at_def resource_link_def slist_init_def slist_insert_def slist_load_def Let_def)
qed

theorem i686_init_sets_up_witness:
  "\<exists>s'. i686_init example_env 0x9000 MULTIBOOT_BOOTLOADER_MAGIC example_platform = Inr (True, s') \<and>
    platform_up example_env s' \<and> RESOURCES_NEXT_FREE_NDX (im_res s') = 2 \<and>
    res_objects (im_res s') 0x1000 = Some \<lparr>rs_device_id = 0x40, rs_resource_id = 0x10, rs_owner = 0,
      rs_type = RESOURCE_TYPE_MEMORY, rs_base = 0x200000, rs_len = 0x100000\<rparr>"
proof -
  have m: "boot_mapped example_symbols (TO_HIGH 0x9000)" "boot_mapped example_symbols 0xC0009100"
    by (simp_all add: boot_mapped_def TO_HIGH_def KERNEL_VM_OFFSET_def)
  have l: "(0x9000 :: addr) < KERNEL_VM_OFFSET" "TO_HIGH 0x9100 = 0xC0009100" "TO_LOW 0xC0009100 = 0x9100"
    by (simp_all add: KERNEL_VM_OFFSET_def TO_HIGH_def TO_LOW_def)
  let ?x = "\<lparr>mb_flags = 0x40, mb_mmap_length = 24, mb_mmap_addr = 0x9100\<rparr>"
  have x: "mb_infos example_platform 0x9000 = Some ?x" "be_symbols example_env = example_symbols"
    by (simp_all add: example_platform_def example_env_def)
  obtain h s' where s': "slist_rep h 0x904 []" "platform_up example_env s'"
    "through (boot_mmu (im_boot s')) (mb_entries example_platform) 0xC0009100 = mb_entries example_platform 0x9100"
    "i686_init example_env 0x9000 MULTIBOOT_BOOTLOADER_MAGIC example_platform =
      kbind (i686_register_resources \<lparr>READY = True, OFFSET = KERNEL_VM_OFFSET\<rparr> 0xC0100000 0xC0106000
        \<lparr>mb_flags = 0x40, mb_mmap_length = 24, mb_mmap_addr = 0xC0009100\<rparr>
        (through (boot_mmu (im_boot s')) (mb_entries example_platform))
        0x40 0x10 0x20 ((im_res example_platform)\<lparr>res_links := h\<rparr>)) (\<lambda>r. Inr (True, s'\<lparr>im_res := r\<rparr>))"
    using i686_init_sets_up [OF example_boot_ready l(1) _ x(1)] m l(2,3)
    by (auto simp: x(2)) (auto simp: example_env_def example_platform_def)
  have h: "h 0x904 = Some NULL" "h NULL = None" using s'(1) by (simp_all add: slist_rep_def)
  show ?thesis using example_registered [OF h, of "through (boot_mmu (im_boot s')) (mb_entries example_platform)"] s'(3) s'(2) unfolding s'(4) by (auto simp: platform_up_def Let_def)
qed

end
