(* ===== verification/Page_Map.thy ===== *)
theory Page_Map
  imports Page_Fault
begin

text \<open>
  Sequences of operations on a page directory: the mapping, resolving and unmapping of arch/i686/vm.c, one
  after the other, against the partial function from pages to frames that a directory stands for. Each
  operation opens a table through the emergency entry and closes it, so the next one finds the directory
  as it must be; the asserts on the entry of the page are the only way to stop.
\<close>

datatype page_op = MapPage addr addr u8 | ResolvePage addr | UnmapPage addr

fun op_page :: "page_op \<Rightarrow> addr" where
  "op_page (MapPage phys v flags) = v"
| "op_page (ResolvePage v) = v"
| "op_page (UnmapPage v) = v"

section \<open>The calls and their specification\<close>

fun page_step :: "addr \<Rightarrow> page_op \<Rightarrow> mmu \<times> mm_state \<Rightarrow> (addr option \<times> mmu \<times> mm_state) kres" where
  "page_step root (MapPage phys v flags) (s, mm) =
     kbind (vm_arch_pt_map s mm root phys v flags) (\<lambda>(s, mm). Inr (None, s, mm))"
| "page_step root (ResolvePage v) (s, mm) = kbind (vm_arch_resolve_phys_page s root v) (\<lambda>(p, s). Inr (Some p, s, mm))"
| "page_step root (UnmapPage v) (s, mm) = kbind (vm_arch_pt_unmap s root v) (\<lambda>s. Inr (None, s, mm))"

fun page_run :: "addr \<Rightarrow> page_op list \<Rightarrow> mmu \<times> mm_state \<Rightarrow> (addr option list \<times> mmu \<times> mm_state) kres" where
  "page_run root [] s = Inr ([], s)"
| "page_run root (op # ops) s = kbind (page_step root op s) (\<lambda>(a, s). kbind (page_run root ops s) (\<lambda>(as, s). Inr (a # as, s)))"

type_synonym page_map = "addr \<Rightarrow> frame option"

definition set_page :: "page_map \<Rightarrow> addr \<Rightarrow> frame option \<Rightarrow> page_map" where
  "set_page m v f = (\<lambda>w. if same_page w v then f else m w)"

text \<open>Mapping a page twice, and resolving or unmapping a page that is not mapped, fail an assert.\<close>

fun map_step :: "page_op \<Rightarrow> page_map \<Rightarrow> (addr option \<times> page_map) kres" where
  "map_step (MapPage phys v flags) m = kassert (m v = None) (Inr (None, set_page m v (Some (phys_frame phys))))"
| "map_step (ResolvePage v) m = (case m v of None \<Rightarrow> Inl Kassert | Some f \<Rightarrow> Inr (Some (push_bit 12 (ucast f)), m))"
| "map_step (UnmapPage v) m = kassert (m v \<noteq> None) (Inr (None, set_page m v None))"

fun map_run :: "page_op list \<Rightarrow> page_map \<Rightarrow> (addr option list \<times> page_map) kres" where
  "map_run [] m = Inr ([], m)"
| "map_run (op # ops) m = kbind (map_step op m) (\<lambda>(a, m). kbind (map_run ops m) (\<lambda>(as, m). Inr (a # as, m)))"

definition holds_map :: "mmu \<Rightarrow> addr \<Rightarrow> page_map \<Rightarrow> bool" where
  "holds_map s root m \<longleftrightarrow> dir_ok s root \<and> (\<forall>w. pd_index w < 1022 \<longrightarrow> page_frame s w = m w)"

definition page_usable :: "mmu \<Rightarrow> addr \<Rightarrow> addr \<Rightarrow> bool" where
  "page_usable s root v \<longleftrightarrow> pd_index v < 1022 \<and> \<not> same_page root v \<and> is_present (page_pde s v)"

section \<open>The asserts\<close>

lemma table_entry_read:
  assumes "dir_ok s root" "page_usable s root v"
  obtains s' where "get_pge_for_vaddr s root v = Inr (EMERGENCY_DIR + 4 * ucast (pt_index v), s')"
    "pge_load s' (EMERGENCY_DIR + 4 * ucast (pt_index v)) = Inr (page_pte s v)"
proof -
  have v: "pd_index v < 1022" "\<not> same_page root v" "is_present (page_pde s v)"
    using assms(2) by (simp_all add: page_usable_def)
  obtain s' where s': "get_pge_for_vaddr s root v = Inr (EMERGENCY_DIR + 4 * ucast (pt_index v), s')"
    "table_open s' root v" "\<And>w. pd_index w < 1022 \<Longrightarrow> is_present (page_pde s w) \<Longrightarrow> page_pte s' w = page_pte s w"
    using open_table [OF assms(1) v] by metis
  then show ?thesis using that [OF s'(1)] open_table_access(1) [OF s'(2)] v by simp
qed

lemma map_mapped:
  assumes "dir_ok s root" "page_usable s root v" "page_frame s v \<noteq> None"
  shows "vm_arch_pt_map s mm root phys v flags = Inl Kassert"
proof -
  obtain s' where s': "get_pge_for_vaddr s root v = Inr (EMERGENCY_DIR + 4 * ucast (pt_index v), s')"
    "pge_load s' (EMERGENCY_DIR + 4 * ucast (pt_index v)) = Inr (page_pte s v)"
    using table_entry_read [OF assms(1,2)] .
  have b: "dir_base s root" "root \<noteq> NULL" using assms(1) by (simp_all add: dir_ok_def dir_base_def)
  have "pge_load s (i686_vm_get_pge I686VM_PGLVL_DIR root v) = Inr (page_pde s v)"
    unfolding dir_pde_eq dir_entry_access(1) [OF b(1)] by (simp add: page_pde_def)
  then show ?thesis
    using assms(2,3) b(2) s' by (auto simp: vm_arch_pt_map_def Let_def page_usable_def page_frame_def split: if_splits)
qed

lemma unmap_unmapped:
  assumes "dir_ok s root" "page_usable s root v" "page_frame s v = None"
  shows "vm_arch_pt_unmap s root v = Inl Kassert"
proof -
  obtain s' where s': "get_pge_for_vaddr s root v = Inr (EMERGENCY_DIR + 4 * ucast (pt_index v), s')"
    "pge_load s' (EMERGENCY_DIR + 4 * ucast (pt_index v)) = Inr (page_pte s v)"
    using table_entry_read [OF assms(1,2)] .
  have "\<not> is_present (page_pte s v)" using assms(2,3) by (simp add: page_usable_def page_frame_def split: if_splits)
  then show ?thesis using s' by (simp add: vm_arch_pt_unmap_def)
qed

lemma resolve_unmapped:
  assumes "dir_ok s root" "page_usable s root v" "page_frame s v = None"
  shows "vm_arch_resolve_phys_page s root v = Inl Kassert"
proof -
  obtain s' where s': "get_pge_for_vaddr s root v = Inr (EMERGENCY_DIR + 4 * ucast (pt_index v), s')"
    "pge_load s' (EMERGENCY_DIR + 4 * ucast (pt_index v)) = Inr (page_pte s v)"
    using table_entry_read [OF assms(1,2)] .
  have "\<not> is_present (page_pte s v)" using assms(2,3) by (simp add: page_usable_def page_frame_def split: if_splits)
  then show ?thesis using s' by (simp add: vm_arch_resolve_phys_page_def i686_vm_pge_get_addr_def)
qed

section \<open>Refinement\<close>

definition same_tables :: "mmu \<Rightarrow> mmu \<Rightarrow> bool" where
  "same_tables s s' \<longleftrightarrow> (\<forall>w. pd_index w < 1022 \<longrightarrow> page_pde s' w = page_pde s w)"

lemma same_tables_usable: "same_tables s s' \<Longrightarrow> page_usable s root v \<Longrightarrow> page_usable s' root v"
  by (simp add: same_tables_def page_usable_def)

lemma page_step_refines:
  assumes h: "holds_map s root m" and u: "page_usable s root (op_page op)"
  shows "case map_step op m of Inl e \<Rightarrow> page_step root op (s, mm) = Inl e
    | Inr (a, m') \<Rightarrow> \<exists>s'. page_step root op (s, mm) = Inr (a, s', mm) \<and> holds_map s' root m' \<and> same_tables s s'"
proof -
  have ok: "dir_ok s root" and m: "\<And>w. pd_index w < 1022 \<Longrightarrow> page_frame s w = m w" using h by (simp_all add: holds_map_def)
  have v: "pd_index (op_page op) < 1022" "\<not> same_page root (op_page op)" "is_present (page_pde s (op_page op))"
    using u by (simp_all add: page_usable_def)
  show ?thesis
  proof (cases op)
    case (MapPage phys v flags)
    show ?thesis
    proof (cases "m v")
      case None
      have pv: "pd_index v < 1022" "is_present (page_pde s v)" using MapPage v by simp_all
      with None have np: "\<not> is_present (page_pte s v)" using m [of v] by (auto simp: page_frame_def split: if_splits)
      obtain s' where s': "vm_arch_pt_map s mm root phys v flags = Inr (s', mm)" "dir_ok s' root" "cr3 s' = cr3 s"
        "\<And>w. pd_index w < 1022 \<Longrightarrow> page_pde s' w = page_pde s w"
        "\<And>w. pd_index w < 1022 \<Longrightarrow> is_present (page_pde s w) \<Longrightarrow>
           page_pte s' w = (if same_page w v then pte_flags_set (page_pte s v) phys flags else page_pte s w)"
        by (rule map_present_ok [OF ok pv np]) (rule that)
      have "page_frame s' w = set_page m v (Some (phys_frame phys)) w" if w: "pd_index w < 1022" for w
        using s'(4) [OF w] s'(5) [OF w] m [OF w] MapPage v same_page_frame [of w v s]
        by (cases "same_page w v") (auto simp: set_page_def page_frame_def pte_flags_set_def)
      then show ?thesis using MapPage None s'(1,2,4) by (simp add: holds_map_def same_tables_def)
    next
      case (Some f)
      then show ?thesis using map_mapped [OF ok u] MapPage m [of v] v by simp
    qed
  next
    case (ResolvePage v)
    then show ?thesis
      using resolve_ok [OF ok, of v] resolve_unmapped [OF ok u] v m
      by (cases "m v") (auto simp: holds_map_def same_tables_def)
  next
    case (UnmapPage v)
    then show ?thesis
      using unmap_ok [OF ok, of v] unmap_unmapped [OF ok u] v m
      by (cases "m v") (auto simp: holds_map_def same_tables_def set_page_def)
  qed
qed

lemma page_run_refines:
  assumes "holds_map s root m" and "\<forall>op \<in> set ops. page_usable s root (op_page op)"
  shows "case map_run ops m of Inl e \<Rightarrow> page_run root ops (s, mm) = Inl e
    | Inr (as, m') \<Rightarrow> \<exists>s'. page_run root ops (s, mm) = Inr (as, s', mm) \<and> holds_map s' root m'"
  using assms
proof (induction ops arbitrary: s m)
  case (Cons op ops)
  have 1: "case map_step op m of Inl e \<Rightarrow> page_step root op (s, mm) = Inl e
    | Inr (a, m') \<Rightarrow> \<exists>s'. page_step root op (s, mm) = Inr (a, s', mm) \<and> holds_map s' root m' \<and> same_tables s s'"
    using page_step_refines Cons.prems by simp
  show ?case
  proof (cases "map_step op m")
    case (Inl e)
    then show ?thesis using 1 by simp
  next
    case (Inr am)
    obtain a m' where am: "am = (a, m')" by (cases am)
    then obtain s' where s': "page_step root op (s, mm) = Inr (a, s', mm)" "holds_map s' root m'" "same_tables s s'"
      using 1 Inr by auto
    have "\<forall>op \<in> set ops. page_usable s' root (op_page op)"
      using Cons.prems(2) same_tables_usable [OF s'(3)] by simp
    then show ?thesis
      using Cons.IH [OF s'(2)] s'(1) am Inr by (auto split: sum.splits)
  qed
qed simp

text \<open>C18: A page directory refines a partial function from pages to frames: a sequence of mappings, look-ups
  and removals of pages, in tables that exist, answers as the function does and leaves the directory
  well-formed, with exactly the mappings of the function. The sequence stops exactly where the function
  says so, at the assert that a page is mapped twice, or looked up or removed without being mapped.\<close>

theorem paging_refines_map:
  assumes "dir_ok s root" and "\<forall>w. pd_index w < 1022 \<longrightarrow> page_frame s w = m w"
    and "\<forall>op \<in> set ops. pd_index (op_page op) < 1022 \<and> \<not> same_page root (op_page op) \<and> is_present (page_pde s (op_page op))"
   
  shows "case map_run ops m of Inl e \<Rightarrow> page_run root ops (s, mm) = Inl e
    | Inr (as, m') \<Rightarrow> \<exists>s'. page_run root ops (s, mm) = Inr (as, s', mm) \<and> dir_ok s' root \<and>
        (\<forall>w. pd_index w < 1022 \<longrightarrow> page_frame s' w = m' w)"
  using page_run_refines [of s root m ops mm] assms by (auto simp: holds_map_def page_usable_def split: sum.splits)

text \<open>Two pages of one table: the second keeps its frame when the first is unmapped.\<close>

theorem paging_refines_map_witness:
  "(\<exists>s'. page_run 0x3000 [MapPage 0x9000 0x5000 VM_WRITE, MapPage 0xA000 0x6000 0, UnmapPage 0x5123, ResolvePage 0x6FFF]
      (example_mmu, example_zones PAGESTATE_FREE 1) =
    Inr ([None, None, None, Some 0xA000], s', example_zones PAGESTATE_FREE 1) \<and> page_frame s' 0x5000 = None) \<and>
   page_run 0x3000 [MapPage 0x9000 0x5000 VM_WRITE, MapPage 0xA000 0x5000 0] (example_mmu, example_zones PAGESTATE_FREE 1) =
    Inl Kassert"
proof -
  let ?mm = "example_zones PAGESTATE_FREE 1" and ?m = "page_frame example_mmu"
  have m: "?m 0x5000 = None" "?m 0x6000 = None"
    by (simp_all add: page_frame_def page_pde_def page_pte_def example_mmu_def example_entry_def zero_pge_def pd_index_def pt_index_def)
  have u: "pd_index v < 1022 \<and> \<not> same_page 0x3000 v \<and> is_present (page_pde example_mmu v)"
    if "v \<in> {0x5000, 0x6000, 0x5123, 0x6FFF}" for v
    using that by (auto simp: same_page_def page_pde_def example_mmu_def example_entry_def pd_index_def pt_index_def)
  have p: "same_page 0x5123 0x5000" "\<not> same_page 0x6000 0x5000" "\<not> same_page 0x5123 0x6000" "same_page 0x6FFF 0x6000"
    "\<not> same_page 0x6FFF 0x5123" "\<not> same_page 0x6FFF 0x5000" "same_page 0x5000 0x5123"
    by (simp_all add: same_page_def pd_index_def pt_index_def)
  note r = paging_refines_map [OF example_mmu_ok, of ?m _ ?mm]
  show ?thesis
    using r [of "[MapPage 0x9000 0x5000 VM_WRITE, MapPage 0xA000 0x6000 0, UnmapPage 0x5123, ResolvePage 0x6FFF]"]
      r [of "[MapPage 0x9000 0x5000 VM_WRITE, MapPage 0xA000 0x5000 0]"] u m p
    by (auto simp: set_page_def phys_frame_def pd_index_def)
qed

end
