(* ===== verification/Cbuffer.thy ===== *)
theory Cbuffer
  imports Kernel_Base
begin

text \<open>
  The circular buffer of kernel/include/lib/ds/cbuffer.h: macros over a structure that
  \<open>CBUFFER_DECLARE\<close> lays out for a type of elements and a length. The buffer is shown to be a queue of
  bounded length: \<open>cbuf_items\<close> are the elements from the oldest to the newest, \<open>cbuf_ok\<close> ties the three
  counters together, and any sequence of pushes and pops answers as the queue does.
\<close>

section \<open>The macros\<close>

record 'v cbuffer =
  r_idx :: size_t
  w_idx :: size_t
  cb_count :: size_t
  cb_array :: "'v list"

text \<open>\<open>zero\<close> is the element all of whose bytes are 0, which is what \<open>kmemset\<close> leaves in each place.\<close>

definition CBUFFER_INIT :: "'v \<Rightarrow> 'v cbuffer \<Rightarrow> 'v cbuffer" where
  "CBUFFER_INIT zero b =
     \<lparr>r_idx = 0, w_idx = 0, cb_count = 0, cb_array = replicate (length (cb_array b)) zero\<rparr>"

definition CBUFFER_LENGTH :: "'v cbuffer \<Rightarrow> size_t" where
  "CBUFFER_LENGTH b = of_nat (length (cb_array b))"

text \<open>A remainder by 0, in a buffer of length 0, is not defined.\<close>

definition CBUFFER_NEXT_WIDX :: "'v cbuffer \<Rightarrow> size_t kres" where
  "CBUFFER_NEXT_WIDX b = kdefined (CBUFFER_LENGTH b \<noteq> 0) (Inr ((w_idx b + 1) mod CBUFFER_LENGTH b))"

definition CBUFFER_NEXT_RIDX :: "'v cbuffer \<Rightarrow> size_t kres" where
  "CBUFFER_NEXT_RIDX b = kdefined (CBUFFER_LENGTH b \<noteq> 0) (Inr ((r_idx b + 1) mod CBUFFER_LENGTH b))"

definition CBUFFER_PUSH :: "'v cbuffer \<Rightarrow> 'v \<Rightarrow> (bool \<times> 'v cbuffer) kres" where
  "CBUFFER_PUSH b v =
     (let success = cb_count b < CBUFFER_LENGTH b in
      if cb_count b = CBUFFER_LENGTH b then Inr (success, b)
      else kdefined (unat (w_idx b) < length (cb_array b))
        (let b = b\<lparr>cb_array := (cb_array b)[unat (w_idx b) := v]\<rparr> in
         kbind (CBUFFER_NEXT_WIDX b) (\<lambda>w.
         Inr (success, b\<lparr>w_idx := w, cb_count := cb_count b + 1\<rparr>))))"

definition CBUFFER_POP :: "'v cbuffer \<Rightarrow> 'v \<Rightarrow> ('v \<times> 'v cbuffer) kres" where
  "CBUFFER_POP b defaultval =
     (if cb_count b = 0 then Inr (defaultval, b)
      else kdefined (unat (r_idx b) < length (cb_array b))
        (let dest = cb_array b ! unat (r_idx b) in
         kbind (CBUFFER_NEXT_RIDX b) (\<lambda>r.
         Inr (dest, b\<lparr>r_idx := r, cb_count := cb_count b - 1\<rparr>))))"

section \<open>The queue\<close>

abbreviation cb_len :: "'v cbuffer \<Rightarrow> nat" where
  "cb_len b \<equiv> length (cb_array b)"

definition cbuf_ok :: "'v cbuffer \<Rightarrow> bool" where
  "cbuf_ok b \<longleftrightarrow> cb_len b < 2 ^ 32 \<and> unat (cb_count b) \<le> cb_len b \<and>
     (cb_len b \<noteq> 0 \<longrightarrow> unat (r_idx b) < cb_len b \<and>
       unat (w_idx b) = (unat (r_idx b) + unat (cb_count b)) mod cb_len b)"

definition cbuf_items :: "'v cbuffer \<Rightarrow> 'v list" where
  "cbuf_items b = map (\<lambda>i. cb_array b ! ((unat (r_idx b) + i) mod cb_len b)) [0..<unat (cb_count b)]"

datatype 'v cb_op = Push 'v | Pop 'v
datatype 'v cb_answer = Stored bool | Taken 'v

definition cb_step :: "'v cb_op \<Rightarrow> 'v cbuffer \<Rightarrow> ('v cb_answer \<times> 'v cbuffer) kres" where
  "cb_step op b = (case op of
     Push v \<Rightarrow> kbind (CBUFFER_PUSH b v) (\<lambda>(s, b). Inr (Stored s, b))
   | Pop d \<Rightarrow> kbind (CBUFFER_POP b d) (\<lambda>(v, b). Inr (Taken v, b)))"

fun cb_run :: "'v cb_op list \<Rightarrow> 'v cbuffer \<Rightarrow> ('v cb_answer list \<times> 'v cbuffer) kres" where
  "cb_run [] b = Inr ([], b)"
| "cb_run (op # ops) b = kbind (cb_step op b) (\<lambda>(a, b). kbind (cb_run ops b) (\<lambda>(as, b). Inr (a # as, b)))"

text \<open>The specification: a list that holds at most \<open>n\<close> elements.\<close>

fun queue_step :: "nat \<Rightarrow> 'v cb_op \<Rightarrow> 'v list \<Rightarrow> 'v cb_answer \<times> 'v list" where
  "queue_step n (Push v) q = (if length q < n then (Stored True, q @ [v]) else (Stored False, q))"
| "queue_step n (Pop d) [] = (Taken d, [])"
| "queue_step n (Pop d) (v # q) = (Taken v, q)"

fun queue_run :: "nat \<Rightarrow> 'v cb_op list \<Rightarrow> 'v list \<Rightarrow> 'v cb_answer list \<times> 'v list" where
  "queue_run n [] q = ([], q)"
| "queue_run n (op # ops) q = (case queue_step n op q of (a, q) \<Rightarrow> case queue_run n ops q of (as, q) \<Rightarrow> (a # as, q))"

lemma cb_length: "cbuf_ok b \<Longrightarrow> unat (CBUFFER_LENGTH b) = cb_len b"
  by (simp add: cbuf_ok_def CBUFFER_LENGTH_def unat_of_nat32)

lemma items_length [simp]: "length (cbuf_items b) = unat (cb_count b)"
  by (simp add: cbuf_items_def)

text \<open>An index below the length, one further and around the end.\<close>

lemma next_index:
  assumes "unat (i :: size_t) < n" "n < 2 ^ 32"
  shows "unat ((i + 1) mod of_nat n) = (unat i + 1) mod n"
  using assms unat_of_nat32 [of n] unat_Suc32 [of i] by (simp add: unat_mod)

lemma other_place:
  assumes "i < c" "c < (n :: nat)"
  shows "(r + i) mod n \<noteq> (r + c) mod n"
proof
  assume "(r + i) mod n = (r + c) mod n"
  then have "n dvd (r + c) - (r + i)" using mod_eq_dvd_iff_nat [of "r + i" "r + c" n] assms(1) by simp
  then show False using assms nat_dvd_not_less [of "c - i" n] by simp
qed

lemma cb_push_full: "cbuf_ok b \<Longrightarrow> unat (cb_count b) = cb_len b \<Longrightarrow> CBUFFER_PUSH b v = Inr (False, b)"
  using cb_length [of b] by (simp add: CBUFFER_PUSH_def word_unat_eq_iff word_less_nat_alt)

lemma cb_push_room:
  assumes ok: "cbuf_ok b" and room: "unat (cb_count b) < cb_len b"
  shows "\<exists>b'. CBUFFER_PUSH b v = Inr (True, b') \<and> cbuf_ok b' \<and> cb_len b' = cb_len b \<and> cbuf_items b' = cbuf_items b @ [v]"
proof -
  let ?n = "cb_len b" and ?r = "unat (r_idx b)" and ?c = "unat (cb_count b)" and ?w = "unat (w_idx b)"
  let ?b = "b\<lparr>cb_array := (cb_array b)[?w := v], w_idx := (w_idx b + 1) mod of_nat ?n, cb_count := cb_count b + 1\<rparr>"
  have f: "?n < 2 ^ 32" "?n \<noteq> 0" "?r < ?n" "?w = (?r + ?c) mod ?n" using ok room by (auto simp: cbuf_ok_def)
  have w: "?w < ?n" unfolding f(4) using f(2) by simp
  have l: "CBUFFER_LENGTH b \<noteq> 0" "cb_count b < CBUFFER_LENGTH b"
    using cb_length [OF ok] room f(2) by (auto simp: word_less_nat_alt)
  have c: "unat (cb_count b + 1) = Suc ?c" using room f(1) by (intro unat_Suc32) simp
  have "CBUFFER_PUSH b v = Inr (True, ?b)"
    using w l by (simp add: CBUFFER_PUSH_def CBUFFER_NEXT_WIDX_def CBUFFER_LENGTH_def Let_def)
  moreover have "cbuf_ok ?b"
    using f room c next_index [OF w f(1)] by (simp add: cbuf_ok_def mod_Suc_eq)
  moreover have "cbuf_items ?b = cbuf_items b @ [v]"
    using f(4) w other_place [OF _ room, of _ ?r]
    by (simp add: cbuf_items_def c) (metis atLeastLessThan_iff nth_list_update_neq)
  ultimately show ?thesis by (intro exI [of _ ?b]) simp
qed

lemma cb_pop_empty: "cb_count b = 0 \<Longrightarrow> CBUFFER_POP b d = Inr (d, b)"
  by (simp add: CBUFFER_POP_def)

lemma cb_pop_oldest:
  assumes ok: "cbuf_ok b" and some: "cb_count b \<noteq> 0"
  shows "\<exists>b'. CBUFFER_POP b d = Inr (hd (cbuf_items b), b') \<and> cbuf_ok b' \<and> cb_len b' = cb_len b \<and>
    cbuf_items b' = tl (cbuf_items b)"
proof -
  let ?n = "cb_len b" and ?r = "unat (r_idx b)"
  let ?b = "b\<lparr>r_idx := (r_idx b + 1) mod of_nat ?n, cb_count := cb_count b - 1\<rparr>"
  have c0: "unat (cb_count b) \<noteq> 0" using some by (simp add: unat_eq_0)
  then have c: "unat (cb_count b) = Suc (unat (cb_count b - 1))" using unat_sub32 [of 1 "cb_count b"] by simp
  have f: "?n < 2 ^ 32" "?n \<noteq> 0" "?r < ?n" "unat (w_idx b) = (?r + unat (cb_count b)) mod ?n" "unat (cb_count b) \<le> ?n"
    using ok c0 by (auto simp: cbuf_ok_def)
  note r = next_index [OF f(3,1)]
  have it: "cbuf_items b = cb_array b ! ?r # cbuf_items ?b"
    unfolding cbuf_items_def c using f(3) r by (simp add: upt_rec [of 0] map_Suc_upt [symmetric] mod_Suc_eq mod_add_left_eq comp_def del: upt_Suc)
  have "CBUFFER_POP b d = Inr (cb_array b ! ?r, ?b)"
    using f(3) some cb_length [OF ok] f(2)
    by (simp add: CBUFFER_POP_def CBUFFER_NEXT_RIDX_def CBUFFER_LENGTH_def Let_def word_unat_eq_iff)
  moreover have "cbuf_ok ?b"
    using f c r by (simp add: cbuf_ok_def mod_add_left_eq)
  ultimately show ?thesis using it by (intro exI [of _ ?b]) simp
qed

lemma cb_step_refines:
  assumes "cbuf_ok b"
  shows "\<exists>b'. cb_step op b = Inr (fst (queue_step (cb_len b) op (cbuf_items b)), b') \<and> cbuf_ok b' \<and>
    cb_len b' = cb_len b \<and> cbuf_items b' = snd (queue_step (cb_len b) op (cbuf_items b))"
proof (cases op)
  case (Push v)
  then show ?thesis using assms cb_push_full [of b v] cb_push_room [OF assms, of v]
    by (cases "unat (cb_count b) < cb_len b") (auto simp: cb_step_def cbuf_ok_def)
next
  case (Pop d)
  show ?thesis
  proof (cases "cbuf_items b")
    case Nil
    then have "cb_count b = 0" using items_length [of b] by (simp add: unat_eq_0)
    then show ?thesis using Pop Nil assms cb_pop_empty [of b d] by (simp add: cb_step_def)
  next
    case (Cons v q)
    then have "cb_count b \<noteq> 0" using items_length [of b] by auto
    then show ?thesis using Pop Cons cb_pop_oldest [OF assms, of d] by (auto simp: cb_step_def)
  qed
qed

lemma cb_run_refines:
  "cbuf_ok b \<Longrightarrow> \<exists>b'. cb_run ops b = Inr (fst (queue_run (cb_len b) ops (cbuf_items b)), b') \<and> cbuf_ok b' \<and>
    cb_len b' = cb_len b \<and> cbuf_items b' = snd (queue_run (cb_len b) ops (cbuf_items b))"
proof (induction ops arbitrary: b)
  case (Cons op ops)
  obtain b1 where 1: "cb_step op b = Inr (fst (queue_step (cb_len b) op (cbuf_items b)), b1)" "cbuf_ok b1"
    "cb_len b1 = cb_len b" "cbuf_items b1 = snd (queue_step (cb_len b) op (cbuf_items b))"
    using cb_step_refines [OF Cons.prems] by blast
  then show ?case using Cons.IH [OF 1(2)] by (auto simp: split_beta)
qed simp

lemma cb_init_ok:
  "cb_len b < 2 ^ 32 \<Longrightarrow> cbuf_ok (CBUFFER_INIT zero b) \<and> cbuf_items (CBUFFER_INIT zero b) = []"
  by (simp add: CBUFFER_INIT_def cbuf_ok_def cbuf_items_def)

text \<open>C35: A circular buffer is a queue that holds at most as many elements as its array has places:
  after \<open>CBUFFER_INIT\<close>, on whatever the structure held, any sequence of pushes and pops runs without
  leaving the array, answers as the queue does (a push to a full buffer is refused and changes nothing, a
  pop from an empty one gives the default), and leaves the elements of the queue in the buffer.\<close>

theorem cbuffer_refines_queue:
  assumes "length (cb_array b) < 2 ^ 32"
  shows "\<exists>b'. cb_run ops (CBUFFER_INIT zero b) = Inr (fst (queue_run (length (cb_array b)) ops []), b') \<and>
    cbuf_items b' = snd (queue_run (length (cb_array b)) ops []) \<and> length (cb_array b') = length (cb_array b)"
proof -
  have "cb_len (CBUFFER_INIT zero b) = cb_len b" by (simp add: CBUFFER_INIT_def)
  then show ?thesis using cb_init_ok [OF assms, of zero] cb_run_refines [of "CBUFFER_INIT zero b" ops] by auto
qed

text \<open>Two places, three pushes, and the third element is pushed again once a place is free.\<close>

theorem cbuffer_refines_queue_witness:
  "\<exists>b'. cb_run [Push 7, Push 8, Push 9, Pop 0, Push 9, Pop 0, Pop 0, Pop 1]
     (CBUFFER_INIT 0 \<lparr>r_idx = 5, w_idx = 6, cb_count = 7, cb_array = [1 :: nat, 2]\<rparr>) =
   Inr ([Stored True, Stored True, Stored False, Taken 7, Stored True, Taken 8, Taken 9, Taken 1], b') \<and> cbuf_items b' = []"
  using cbuffer_refines_queue [of "\<lparr>r_idx = 5, w_idx = 6, cb_count = 7, cb_array = [1, 2]\<rparr>"
    "[Push 7, Push 8, Push 9, Pop 0, Push 9, Pop 0, Pop 0, Pop 1]" "0 :: nat"] by auto

end
