(* ===== verification/Dclist.thy ===== *)
theory Dclist
  imports Kernel_Base
begin

text \<open>
  Two small headers of the library. The doubly linked list of kernel/include/lib/ds/dclist.h: a store maps
  the address of each element to its \<open>next\<close> and \<open>prev\<close> fields. The macros insert between two elements of
  a list, and only there: at an end of it they follow the \<open>NULL\<close> that ends it. And the ownership tags of
  kernel/lib/ownership.c.
\<close>

section \<open>The macros of the doubly linked list\<close>

record dclist_field =
  dl_next :: addr
  dl_prev :: addr

type_synonym dclist_heap = "addr \<rightharpoonup> dclist_field"

record dclist_head =
  dl_first :: addr

definition DCLIST_INIT :: "dclist_head \<Rightarrow> dclist_head" where
  "DCLIST_INIT head = head\<lparr>dl_first := NULL\<rparr>"

definition DCLIST_FIRST :: "dclist_head \<Rightarrow> addr" where
  "DCLIST_FIRST head = dl_first head"

definition DCLIST_EMPTY :: "dclist_head \<Rightarrow> bool" where
  "DCLIST_EMPTY head = (DCLIST_FIRST head = NULL)"

definition DCLIST_NEXT :: "dclist_heap \<Rightarrow> addr \<Rightarrow> addr kres" where
  "DCLIST_NEXT h node = (case h node of None \<Rightarrow> Inl Undef | Some f \<Rightarrow> Inr (dl_next f))"

definition DCLIST_PREV :: "dclist_heap \<Rightarrow> addr \<Rightarrow> addr kres" where
  "DCLIST_PREV h node = (case h node of None \<Rightarrow> Inl Undef | Some f \<Rightarrow> Inr (dl_prev f))"

text \<open>The macros \<open>DCLIST_NEXT\<close> and \<open>DCLIST_PREV\<close> on the left of an assignment.\<close>

definition put_next :: "dclist_heap \<Rightarrow> addr \<Rightarrow> addr \<Rightarrow> dclist_heap kres" where
  "put_next h node v = (case h node of None \<Rightarrow> Inl Undef | Some f \<Rightarrow> Inr (h(node \<mapsto> f\<lparr>dl_next := v\<rparr>)))"

definition put_prev :: "dclist_heap \<Rightarrow> addr \<Rightarrow> addr \<Rightarrow> dclist_heap kres" where
  "put_prev h node v = (case h node of None \<Rightarrow> Inl Undef | Some f \<Rightarrow> Inr (h(node \<mapsto> f\<lparr>dl_prev := v\<rparr>)))"

definition DCLIST_FIELD_INIT :: "dclist_heap \<Rightarrow> addr \<Rightarrow> dclist_heap kres" where
  "DCLIST_FIELD_INIT h elem = kbind (put_next h elem NULL) (\<lambda>h. put_prev h elem NULL)"

definition DCLIST_INSERT_AFTER :: "dclist_heap \<Rightarrow> addr \<Rightarrow> addr \<Rightarrow> dclist_heap kres" where
  "DCLIST_INSERT_AFTER h elem insertee =
     kbind (DCLIST_NEXT h elem) (\<lambda>nx.
     kbind (put_next h insertee nx) (\<lambda>h.
     kbind (put_prev h insertee elem) (\<lambda>h.
     kbind (DCLIST_NEXT h elem) (\<lambda>nx.
     kbind (put_prev h nx insertee) (\<lambda>h.
     put_next h elem insertee)))))"

definition DCLIST_INSERT_BEFORE :: "dclist_heap \<Rightarrow> addr \<Rightarrow> addr \<Rightarrow> dclist_heap kres" where
  "DCLIST_INSERT_BEFORE h elem insertee =
     kbind (put_next h insertee elem) (\<lambda>h.
     kbind (DCLIST_PREV h elem) (\<lambda>pv.
     kbind (put_prev h insertee pv) (\<lambda>h.
     kbind (DCLIST_PREV h elem) (\<lambda>pv.
     kbind (put_next h pv insertee) (\<lambda>h.
     put_prev h elem insertee)))))"

section \<open>What the insertions do\<close>

text \<open>The elements \<open>xs\<close>, the first with \<open>p\<close> before it and the last with \<open>q\<close> after it.\<close>

fun dl_seg :: "dclist_heap \<Rightarrow> addr \<Rightarrow> addr list \<Rightarrow> addr \<Rightarrow> bool" where
  "dl_seg h p [] q \<longleftrightarrow> True"
| "dl_seg h p (x # xs) q \<longleftrightarrow> h x = Some \<lparr>dl_next = hd (xs @ [q]), dl_prev = p\<rparr> \<and> dl_seg h x xs q"

definition dl_rep :: "dclist_heap \<Rightarrow> addr list \<Rightarrow> bool" where
  "dl_rep h xs \<longleftrightarrow> h NULL = None \<and> distinct xs \<and> dl_seg h NULL xs NULL"

lemma dl_seg_append:
  "dl_seg h p (xs @ ys) q \<longleftrightarrow> dl_seg h p xs (hd (ys @ [q])) \<and> dl_seg h (last (p # xs)) ys q"
  by (induction xs arbitrary: p) (auto simp: hd_append)

lemma dl_seg_frame: "(\<And>x. x \<in> set xs \<Longrightarrow> h' x = h x) \<Longrightarrow> dl_seg h' p xs q = dl_seg h p xs q"
  by (induction xs arbitrary: p) auto

lemma dl_seg_in: "dl_seg h p xs q \<Longrightarrow> x \<in> set xs \<Longrightarrow> h x \<noteq> None"
  by (induction xs arbitrary: p) auto

lemmas dclist_defs = DCLIST_INSERT_AFTER_def DCLIST_INSERT_BEFORE_def DCLIST_NEXT_def DCLIST_PREV_def put_next_def put_prev_def

text \<open>Where the new element goes: between \<open>a\<close> and \<open>b\<close>, whose links are set to it.\<close>

lemma dl_between:
  assumes "dl_rep h (xs @ a # b # ys)" and "z \<notin> set (xs @ a # b # ys)" and "z \<noteq> NULL"
  shows "dl_rep (h(z \<mapsto> \<lparr>dl_next = b, dl_prev = a\<rparr>,
      b \<mapsto> \<lparr>dl_next = hd (ys @ [NULL]), dl_prev = z\<rparr>, a \<mapsto> \<lparr>dl_next = z, dl_prev = last (NULL # xs)\<rparr>))
    (xs @ a # z # b # ys)" (is "dl_rep ?h _")
proof -
  have d: "distinct (xs @ a # z # b # ys)" "h NULL = None" using assms(1,2) by (auto simp: dl_rep_def)
  have s: "dl_seg h NULL xs a" "dl_seg h b ys NULL" "h a \<noteq> None" "h b \<noteq> None"
    using assms(1) by (auto simp: dl_rep_def dl_seg_append)
  have "?h x = h x" if "x \<in> set xs \<union> set ys" for x using that d(1) by auto
  then have "dl_seg ?h NULL xs a" "dl_seg ?h b ys NULL"
    using s(1,2) dl_seg_frame [of xs ?h h NULL a] dl_seg_frame [of ys ?h h b NULL] by blast+
  moreover have "?h NULL = None" using s(3,4) d(2) assms(3) by auto
  ultimately show ?thesis using d(1) by (auto simp: dl_rep_def dl_seg_append)
qed

lemma dl_links:
  assumes "dl_rep h (xs @ a # b # ys)"
  shows "h a = Some \<lparr>dl_next = b, dl_prev = last (NULL # xs)\<rparr>" "h b = Some \<lparr>dl_next = hd (ys @ [NULL]), dl_prev = a\<rparr>" "a \<noteq> b"
  using assms by (auto simp: dl_rep_def dl_seg_append)

lemma insert_between:
  assumes "dl_rep h (xs @ a # b # ys)" and "z \<notin> set (xs @ a # b # ys)" and "h z \<noteq> None"
  shows "\<exists>h'. DCLIST_INSERT_AFTER h a z = Inr h' \<and> DCLIST_INSERT_BEFORE h b z = Inr h' \<and> dl_rep h' (xs @ a # z # b # ys)"
proof -
  obtain f where f: "h z = Some f" using assms(3) by blast
  have z: "z \<noteq> NULL" "z \<noteq> a" "z \<noteq> b" using assms by (auto simp: dl_rep_def)
  let ?h = "h(z \<mapsto> \<lparr>dl_next = b, dl_prev = a\<rparr>,
      b \<mapsto> \<lparr>dl_next = hd (ys @ [NULL]), dl_prev = z\<rparr>, a \<mapsto> \<lparr>dl_next = z, dl_prev = last (NULL # xs)\<rparr>)"
  note l = dl_links [OF assms(1)]
  have "DCLIST_INSERT_AFTER h a z = Inr ?h" "DCLIST_INSERT_BEFORE h b z = Inr ?h"
    using l f z by (cases f; simp add: dclist_defs fun_upd_twist [of a b])+
  then show ?thesis using dl_between [OF assms(1,2) z(1)] by blast
qed

text \<open>At the end after the last element, and before the first, there is no element to link back.\<close>

lemma insert_at_end:
  assumes "dl_rep h xs" and "xs \<noteq> []" and "z \<notin> set xs" and "h z \<noteq> None"
  shows "DCLIST_INSERT_AFTER h (last xs) z = Inl Undef" "DCLIST_INSERT_BEFORE h (hd xs) z = Inl Undef"
proof -
  obtain f where f: "h z = Some f" using assms(4) by blast
  obtain ys e where e: "xs = ys @ [e]" using assms(2) by (cases xs rule: rev_cases) auto
  then show "DCLIST_INSERT_AFTER h (last xs) z = Inl Undef"
    using assms(1,3) f by (auto simp: dclist_defs dl_rep_def dl_seg_append)
  obtain b bs where b: "xs = b # bs" using assms(2) by (cases xs) auto
  then show "DCLIST_INSERT_BEFORE h (hd xs) z = Inl Undef"
    using assms(1,3) f by (auto simp: dclist_defs dl_rep_def)
qed

text \<open>So the list that \<open>DCLIST_INIT\<close> and one element make cannot grow.\<close>

lemma dclist_singleton_stuck:
  assumes "DCLIST_FIELD_INIT h x = Inr h'" and "h NULL = None" and "h' z \<noteq> None" "z \<noteq> x"
  shows "dl_rep h' [x] \<and> DCLIST_INSERT_AFTER h' x z = Inl Undef \<and> DCLIST_INSERT_BEFORE h' x z = Inl Undef"
proof -
  have "dl_rep h' [x]"
    using assms(1,2) by (auto simp: DCLIST_FIELD_INIT_def put_next_def put_prev_def dl_rep_def split: option.splits)
  then show ?thesis using insert_at_end [of h' "[x]" z] assms(3,4) by simp
qed

section \<open>Ownership tags\<close>

record ownership =
  own_owner :: addr

definition ownership_init :: "ownership \<Rightarrow> ownership" where
  "ownership_init o1 = o1\<lparr>own_owner := NULL\<rparr>"

definition ownership_add :: "ownership \<Rightarrow> addr \<Rightarrow> ownership kres" where
  "ownership_add o1 owner = kassert (own_owner o1 = NULL) (Inr (o1\<lparr>own_owner := owner\<rparr>))"

definition ownership_get :: "ownership \<Rightarrow> addr" where
  "ownership_get o1 = own_owner o1"

text \<open>An object has at most one owner: the second one that is added stops the kernel.\<close>

lemma ownership_once:
  "owner \<noteq> NULL \<Longrightarrow> \<exists>o2. ownership_add (ownership_init o1) owner = Inr o2 \<and> ownership_get o2 = owner \<and>
    (\<forall>p. ownership_add o2 p = Inl Kassert)"
  by (simp add: ownership_add_def ownership_init_def ownership_get_def)

end
