(* ===== verification/Printf_Spec.thy ===== *)
theory Printf_Spec
  imports Vfprintf
begin

unbundle bit_operations_syntax

text \<open>
  What a format string means, without the code: a format is a list of directives, \<open>format_string\<close> writes
  it down as the C standard has it, \<open>format_args\<close> is what the caller pushes for it, and
  \<open>format_text\<close> is the text it stands for. The parser and the printer of
  kernel/lib/cstd/stdio/vfprintf.c are then shown to turn the first two into the third.
\<close>

section \<open>Directives\<close>

datatype fmt_flag = Flag_Minus | Flag_Plus | Flag_Space | Flag_Hash | Flag_Zero

datatype fmt_precision = No_Precision | Dot | Dot_Number nat

datatype fmt_length = No_Length | Length_hh | Length_h | Length_l | Length_ll | Length_j | Length_z | Length_t

datatype fmt_specifier = Spec_d | Spec_i | Spec_o | Spec_u | Spec_x | Spec_X | Spec_c | Spec_s | Spec_p

record conversion =
  conv_flags :: "fmt_flag list"
  conv_width :: "nat option"
  conv_precision :: fmt_precision
  conv_modifier :: fmt_length
  conv_type :: fmt_specifier

text \<open>A conversion comes with the value of its argument, an integer of any size.\<close>

datatype directive = Plain "u8 list" | Percent | Convert conversion int

section \<open>How a format is written\<close>

definition ascii :: "string \<Rightarrow> u8 list" where
  "ascii s = map of_char s"

definition decimal :: "nat \<Rightarrow> u8 list" where
  "decimal n = map (\<lambda>d. of_char CHR ''0'' + of_nat d) (num_digits 10 n)"

fun flag_syntax :: "fmt_flag \<Rightarrow> string" where
  "flag_syntax Flag_Minus = ''-''"
| "flag_syntax Flag_Plus = ''+''"
| "flag_syntax Flag_Space = '' ''"
| "flag_syntax Flag_Hash = ''#''"
| "flag_syntax Flag_Zero = ''0''"

definition width_syntax :: "nat option \<Rightarrow> u8 list" where
  "width_syntax w = (case w of None \<Rightarrow> [] | Some n \<Rightarrow> decimal n)"

fun precision_syntax :: "fmt_precision \<Rightarrow> u8 list" where
  "precision_syntax No_Precision = []"
| "precision_syntax Dot = ascii ''.''"
| "precision_syntax (Dot_Number n) = ascii ''.'' @ decimal n"

fun length_syntax :: "fmt_length \<Rightarrow> string" where
  "length_syntax No_Length = ''''"
| "length_syntax Length_hh = ''hh''"
| "length_syntax Length_h = ''h''"
| "length_syntax Length_l = ''l''"
| "length_syntax Length_ll = ''ll''"
| "length_syntax Length_j = ''j''"
| "length_syntax Length_z = ''z''"
| "length_syntax Length_t = ''t''"

fun spec_syntax :: "fmt_specifier \<Rightarrow> string" where
  "spec_syntax Spec_d = ''d''"
| "spec_syntax Spec_i = ''i''"
| "spec_syntax Spec_o = ''o''"
| "spec_syntax Spec_u = ''u''"
| "spec_syntax Spec_x = ''x''"
| "spec_syntax Spec_X = ''X''"
| "spec_syntax Spec_c = ''c''"
| "spec_syntax Spec_s = ''s''"
| "spec_syntax Spec_p = ''p''"

definition conversion_syntax :: "conversion \<Rightarrow> u8 list" where
  "conversion_syntax c = ascii ''%'' @ ascii (concat (map flag_syntax (conv_flags c))) @ width_syntax (conv_width c) @
     precision_syntax (conv_precision c) @ ascii (length_syntax (conv_modifier c)) @ ascii (spec_syntax (conv_type c))"

fun directive_syntax :: "directive \<Rightarrow> u8 list" where
  "directive_syntax (Plain s) = s"
| "directive_syntax Percent = ascii ''%%''"
| "directive_syntax (Convert c v) = conversion_syntax c"

definition format_string :: "directive list \<Rightarrow> u8 list" where
  "format_string ds = concat (map directive_syntax ds) @ [0]"

section \<open>What is pushed for it\<close>

definition integer_type :: "fmt_specifier \<Rightarrow> bool" where
  "integer_type t \<longleftrightarrow> t \<notin> {Spec_c, Spec_s, Spec_p}"

text \<open>The width of the argument's type in bits.\<close>

fun modifier_bits :: "fmt_length \<Rightarrow> nat" where
  "modifier_bits Length_hh = 8"
| "modifier_bits Length_h = 16"
| "modifier_bits Length_ll = 64"
| "modifier_bits Length_j = 64"
| "modifier_bits _ = 32"

definition conv_bits :: "conversion \<Rightarrow> nat" where
  "conv_bits c = (if integer_type (conv_type c) then modifier_bits (conv_modifier c) else 32)"

definition conversion_args :: "conversion \<Rightarrow> int \<Rightarrow> u32 list" where
  "conversion_args c v = (if conv_bits c = 64 then [of_int v, of_int (v div 2 ^ 32)] else [of_int v])"

fun directive_args :: "directive \<Rightarrow> u32 list" where
  "directive_args (Convert c v) = conversion_args c v"
| "directive_args _ = []"

definition format_args :: "directive list \<Rightarrow> u32 list" where
  "format_args ds = concat (map directive_args ds)"

section \<open>The text it stands for\<close>

definition signed_value :: "nat \<Rightarrow> int \<Rightarrow> int" where
  "signed_value n v = (v + 2 ^ (n - 1)) mod 2 ^ n - 2 ^ (n - 1)"

definition unsigned_value :: "nat \<Rightarrow> int \<Rightarrow> nat" where
  "unsigned_value n v = nat (v mod 2 ^ n)"

fun precision_of :: "fmt_precision \<Rightarrow> nat option" where
  "precision_of No_Precision = None"
| "precision_of Dot = Some 0"
| "precision_of (Dot_Number n) = Some n"

text \<open>The number a conversion prints, and whether it is negative.\<close>

definition conv_value :: "conversion \<Rightarrow> int \<Rightarrow> int" where
  "conv_value c v = (if conv_type c \<in> {Spec_d, Spec_i} then signed_value (conv_bits c) v
     else int (unsigned_value (conv_bits c) v))"

definition sign_syntax :: "conversion \<Rightarrow> int \<Rightarrow> string" where
  "sign_syntax c v = (if conv_value c v < 0 then ''-'' else if Flag_Plus \<in> set (conv_flags c) then ''+''
     else if Flag_Space \<in> set (conv_flags c) then '' '' else '''')"

text \<open>The prefix is written with a small x for \<open>%#X\<close> too.\<close>

definition prefix_syntax :: "conversion \<Rightarrow> string" where
  "prefix_syntax c = (if conv_type c = Spec_p \<or> (conv_type c \<in> {Spec_x, Spec_X} \<and> Flag_Hash \<in> set (conv_flags c))
     then ''0x'' else '''')"

text \<open>Digits in a base up to 16, as the characters of a table.\<close>

definition digit_table :: "fmt_specifier \<Rightarrow> string" where
  "digit_table t = (if t = Spec_x then ''0123456789abcdef'' else ''0123456789ABCDEF'')"

definition conv_base :: "fmt_specifier \<Rightarrow> nat" where
  "conv_base t = (if t \<in> {Spec_x, Spec_X, Spec_p} then 16 else if t = Spec_o then 8 else 10)"

text \<open>A number: nothing for zero with precision zero (pointers apart), zeros up to the precision for the
  octal and decimal conversions (the hexadecimal ones have no zeros put before them), and the digits.\<close>

definition number_text :: "conversion \<Rightarrow> int \<Rightarrow> u8 list" where
  "number_text c v =
     (let n = nat \<bar>conv_value c v\<bar>; ds = num_digits (conv_base (conv_type c)) n; p = precision_of (conv_precision c) in
      if n = 0 \<and> p = Some 0 \<and> conv_type c \<noteq> Spec_p then []
      else ascii (replicate (if conv_base (conv_type c) = 16 then 0 else case p of None \<Rightarrow> 0 | Some k \<Rightarrow> k - length ds) CHR ''0'' @
        map (\<lambda>d. digit_table (conv_type c) ! d) ds))"

text \<open>\<open>strs\<close> gives the bytes found from an address on.\<close>

definition value_text :: "(addr \<Rightarrow> u8 list) \<Rightarrow> conversion \<Rightarrow> int \<Rightarrow> u8 list" where
  "value_text strs c v =
     (if conv_type c = Spec_c then [of_int v]
      else if conv_type c = Spec_s
      then let s = takeWhile (\<lambda>b. b \<noteq> 0) (strs (of_int v)) in
        (case precision_of (conv_precision c) of None \<Rightarrow> s | Some k \<Rightarrow> take k s)
      else number_text c v)"

text \<open>
  The field: right-justified with blanks, or with zeros between prefix and sign and the number for the flag
  \<open>0\<close>, or left-justified for the flag \<open>-\<close>. With \<open>0\<close>, prefix and sign are written only in the
  right-justified field of a given width.
\<close>

definition conversion_text :: "(addr \<Rightarrow> u8 list) \<Rightarrow> conversion \<Rightarrow> int \<Rightarrow> u8 list" where
  "conversion_text strs c v =
     (let lead = ascii (prefix_syntax c @ sign_syntax c v); body = value_text strs c v;
          zero = Flag_Zero \<in> set (conv_flags c); shown = (if zero then [] else lead) @ body in
      case conv_width c of
        None \<Rightarrow> shown
      | Some w \<Rightarrow>
          let fill = (\<lambda>ch. ascii (replicate (w - (length lead + length body)) ch)) in
          if Flag_Minus \<in> set (conv_flags c) then shown @ fill CHR '' ''
          else if zero then lead @ fill CHR ''0'' @ body
          else fill CHR '' '' @ lead @ body)"

fun directive_text :: "(addr \<Rightarrow> u8 list) \<Rightarrow> directive \<Rightarrow> u8 list" where
  "directive_text strs (Plain s) = s"
| "directive_text strs Percent = ascii ''%''"
| "directive_text strs (Convert c v) = conversion_text strs c v"

definition format_text :: "(addr \<Rightarrow> u8 list) \<Rightarrow> directive list \<Rightarrow> u8 list" where
  "format_text strs ds = concat (map (directive_text strs) ds)"

section \<open>What is asked of a format\<close>

text \<open>
  Widths and precisions below \<open>INT_MAX\<close>; not congruent to 254 modulo 256, which the code takes for an
  absent one; a width that does not begin with the flag \<open>0\<close>. The least 64-bit integer has no absolute
  value, and a string must end.
\<close>

definition number_ok :: "nat \<Rightarrow> bool" where
  "number_ok n \<longleftrightarrow> n < 2147483647 \<and> n mod 256 \<noteq> 254"

definition conversion_ok :: "(addr \<Rightarrow> u8 list) \<Rightarrow> conversion \<Rightarrow> int \<Rightarrow> bool" where
  "conversion_ok strs c v \<longleftrightarrow>
     (case conv_width c of None \<Rightarrow> True | Some w \<Rightarrow> 0 < w \<and> number_ok w) \<and>
     (case precision_of (conv_precision c) of None \<Rightarrow> True | Some p \<Rightarrow> number_ok p) \<and>
     conv_value c v \<noteq> - (2 ^ 63) \<and>
     (conv_type c = Spec_s \<longrightarrow> 0 \<in> set (strs (of_int v)) \<and> length (strs (of_int v)) < 2147483647)"

fun directive_ok :: "(addr \<Rightarrow> u8 list) \<Rightarrow> directive \<Rightarrow> bool" where
  "directive_ok strs (Plain s) \<longleftrightarrow> 0 \<notin> set s \<and> of_char CHR ''%'' \<notin> set s"
| "directive_ok strs Percent \<longleftrightarrow> True"
| "directive_ok strs (Convert c v) \<longleftrightarrow> conversion_ok strs c v"

section \<open>The parser reads what is written\<close>

definition flag_bit :: "fmt_flag \<Rightarrow> u32" where
  "flag_bit x = (case x of Flag_Minus \<Rightarrow> CF_MINUS | Flag_Plus \<Rightarrow> CF_PLUS | Flag_Space \<Rightarrow> CF_SPACE
     | Flag_Hash \<Rightarrow> CF_HASH | Flag_Zero \<Rightarrow> CF_ZERO)"

definition flag_bits :: "fmt_flag list \<Rightarrow> u32" where
  "flag_bits fs = foldl (\<lambda>fl x. fl OR flag_bit x) 0 fs"

lemma ascii_append [simp]: "ascii (s @ t) = ascii s @ ascii t"
  by (simp add: ascii_def)

lemma ascii_Nil [simp]: "ascii [] = []"
  by (simp add: ascii_def)

lemma parse_flags_one: "parse_flags (ascii (flag_syntax x) @ cs) fl = parse_flags cs (fl OR flag_bit x)"
  by (cases x) (simp_all add: ascii_def flag_bit_def)

lemma parse_flags_syntax:
  assumes "cs \<noteq> []" and "hd cs \<notin> {45, 43, 32, 35, 48}"
  shows "parse_flags (ascii (concat (map flag_syntax fs)) @ cs) 0 = Inr (flag_bits fs, cs)"
proof -
  have "parse_flags (ascii (concat (map flag_syntax fs)) @ cs) fl = Inr (foldl (\<lambda>fl x. fl OR flag_bit x) fl fs, cs)" for fl
  proof (induction fs arbitrary: fl)
    case Nil
    then show ?case using assms by (cases cs) auto
  next
    case (Cons x fs)
    then show ?case by (simp add: parse_flags_one)
  qed
  then show ?thesis by (simp add: flag_bits_def)
qed

lemma flag_bits_and:
  "flag_bits fs AND b \<noteq> 0 \<longleftrightarrow> (\<exists>x \<in> set fs. flag_bit x AND b \<noteq> 0)"
proof -
  have o: "(x OR y) AND b = 0 \<longleftrightarrow> x AND b = 0 \<and> y AND b = 0" for x y :: u32
    unfolding bit.conj_disj_distrib2 by (simp add: or_eq_0_iff)
  have "foldl (\<lambda>fl x. fl OR flag_bit x) fl fs AND b = 0 \<longleftrightarrow> fl AND b = 0 \<and> (\<forall>x \<in> set fs. flag_bit x AND b = 0)" for fl
    by (induction fs arbitrary: fl) (auto simp: o)
  then show ?thesis by (simp add: flag_bits_def)
qed

lemma decimal_ascii: "decimal n = map ascii_digit (num_digits 10 n)"
  by (simp add: decimal_def ascii_digit_def)

lemma ascii_digit_nth: "d < 10 \<Longrightarrow> is_digit (ascii_digit d)"
  using is_digit_ascii by blast

lemma decimal_hd:
  assumes "0 < n"
  shows "decimal n \<noteq> []" "hd (decimal n) \<notin> {45, 43, 32, 35, 48, 42, 46}"
proof -
  have ne: "num_digits 10 n \<noteq> []" using num_digits_length_pos [of 10 n] by auto
  then show "decimal n \<noteq> []" by (simp add: decimal_def)
  have "hd (num_digits 10 n) < 10" using num_digits_bound [of 10 _ n] ne by auto
  moreover have "hd (num_digits 10 n) \<noteq> 0" using num_digits_lead [of 10 n] assms by simp
  ultimately have "hd (num_digits 10 n) \<in> {1, 2, 3, 4, 5, 6, 7, 8, 9}" by auto
  moreover have "hd (decimal n) = ascii_digit (hd (num_digits 10 n))" using ne by (simp add: decimal_ascii hd_map)
  ultimately show "hd (decimal n) \<notin> {45, 43, 32, 35, 48, 42, 46}" by (auto simp: ascii_digit_def)
qed

lemma count_digits_decimal:
  assumes "cs \<noteq> []" and "\<not> is_digit (hd cs)"
  shows "count_digits (decimal n @ cs) = Inr (length (decimal n))"
proof -
  have "count_digits (map ascii_digit ds @ cs) = Inr (length ds)" if "\<forall>d \<in> set ds. d < 10" for ds
    using that assms
  proof (induction ds)
    case Nil
    then show ?case by (cases cs) auto
  qed (simp add: ascii_digit_nth)
  moreover have "\<forall>d \<in> set (num_digits 10 n). d < 10" by (auto intro: num_digits_bound)
  ultimately show ?thesis by (simp add: decimal_ascii)
qed

lemma atoi_decimal:
  assumes "cs \<noteq> []" and "\<not> is_digit (hd cs)"
  shows "vfprintf_atoi (decimal n @ cs) = Inr (of_nat n)"
proof -
  have a: "vfprintf_atoi_loop (map ascii_digit ds @ cs) (of_nat r) = Inr (of_nat (foldl (\<lambda>acc d. 10 * acc + d) r ds))"
    if "\<forall>d \<in> set ds. d < 10" for ds r
    using that
  proof (induction ds arbitrary: r)
    case Nil
    then show ?case using assms by (cases cs) auto
  next
    case (Cons d ds)
    then have "is_digit (ascii_digit d)" "ucast (ascii_digit d) - 48 = (of_nat d :: u32)"
      using is_digit_ascii by auto
    then show ?case using Cons.IH [of "10 * r + d"] Cons.prems by simp
  qed
  have "\<forall>d \<in> set (num_digits 10 n). d < 10" by (auto intro: num_digits_bound)
  from a [OF this, of 0] show ?thesis
    using num_digits_value [of 10 n] by (simp add: vfprintf_atoi_def decimal_ascii flip: digits_value_def)
qed

text \<open>What may follow a part of the conversion.\<close>

definition no_number :: "u8 list \<Rightarrow> bool" where
  "no_number cs \<longleftrightarrow> cs \<noteq> [] \<and> \<not> is_digit (hd cs) \<and> hd cs \<notin> {42, 45, 43, 32, 35}"

lemma parse_width_syntax:
  assumes "no_number cs" and "\<And>n. w = Some n \<Longrightarrow> 0 < n"
  shows "parse_width (width_syntax w @ cs) = Inr (case w of None \<Rightarrow> WIDTH_EMPTY | Some n \<Rightarrow> of_nat n, cs)"
    and "width_syntax w @ cs \<noteq> []" and "hd (width_syntax w @ cs) \<notin> {45, 43, 32, 35, 48}"
proof -
  have cs: "cs \<noteq> []" "\<not> is_digit (hd cs)" using assms(1) by (simp_all add: no_number_def)
  have "(case w of None \<Rightarrow> True | Some n \<Rightarrow> hd (width_syntax w @ cs) \<notin> {45, 43, 32, 35, 48, 42})"
    using decimal_hd assms(2) by (auto simp: width_syntax_def split: option.splits)
  moreover have "hd cs \<noteq> 48" using cs(2) by (auto simp: is_digit_def)
  ultimately show "hd (width_syntax w @ cs) \<notin> {45, 43, 32, 35, 48}"
    using assms(1) by (cases w) (auto simp: width_syntax_def no_number_def)
  show "width_syntax w @ cs \<noteq> []" using cs by simp
  show "parse_width (width_syntax w @ cs) = Inr (case w of None \<Rightarrow> WIDTH_EMPTY | Some n \<Rightarrow> of_nat n, cs)"
  proof (cases w)
    case None
    then show ?thesis using assms(1) by (cases cs) (auto simp: width_syntax_def no_number_def)
  next
    case (Some n)
    note d = decimal_hd [OF assms(2) [OF Some]] and c = count_digits_decimal [OF cs, of n] and a = atoi_decimal [OF cs, of n]
    obtain x xs where x: "decimal n = x # xs" "x \<noteq> 42" using d by (cases "decimal n") auto
    then show ?thesis using Some c a by (simp add: width_syntax_def)
  qed
qed

lemma parse_precision_syntax:
  assumes "no_number cs" and "hd cs \<noteq> 46"
  shows "parse_precision (precision_syntax p @ cs) =
      Inr (case precision_of p of None \<Rightarrow> PREC_EMPTY | Some n \<Rightarrow> of_nat n, cs)"
    and "no_number (precision_syntax p @ cs)"
proof -
  have cs: "cs \<noteq> []" "\<not> is_digit (hd cs)" "hd cs \<noteq> 42" using assms(1) by (simp_all add: no_number_def)
  show "no_number (precision_syntax p @ cs)"
    using assms(1) by (cases p) (auto simp: no_number_def ascii_def is_digit_def)
  show "parse_precision (precision_syntax p @ cs) =
      Inr (case precision_of p of None \<Rightarrow> PREC_EMPTY | Some n \<Rightarrow> of_nat n, cs)"
  proof (cases p)
    case No_Precision
    then show ?thesis using assms cs by (cases cs) auto
  next
    case Dot
    then show ?thesis using cs by (cases cs) (auto simp: ascii_def)
  next
    case (Dot_Number n)
    note c = count_digits_decimal [OF cs(1,2), of n] and a = atoi_decimal [OF cs(1,2), of n]
    have ne: "num_digits 10 n \<noteq> []" using num_digits_length_pos [of 10 n] by auto
    then have "hd (num_digits 10 n) < 10" using num_digits_bound [of 10 _ n] by auto
    then have "is_digit (hd (decimal n))" using ne ascii_digit_nth by (simp add: decimal_ascii hd_map)
    moreover obtain x xs where x: "decimal n = x # xs" using ne by (cases "decimal n") (auto simp: decimal_def)
    ultimately have "x \<noteq> 42" by (auto simp: is_digit_def)
    then show ?thesis using Dot_Number c a x by (simp add: ascii_def)
  qed
qed

definition code_length :: "fmt_length \<Rightarrow> conv_length" where
  "code_length l = (case l of No_Length \<Rightarrow> CL_NONE | Length_hh \<Rightarrow> CL_CHAR | Length_h \<Rightarrow> CL_SHORT
     | Length_l \<Rightarrow> CL_LONG | Length_ll \<Rightarrow> CL_LLONG | Length_j \<Rightarrow> CL_INTMAX | Length_z \<Rightarrow> CL_SIZET
     | Length_t \<Rightarrow> CL_PTRDIFF)"

definition code_type :: "fmt_specifier \<Rightarrow> conv_specifiers" where
  "code_type t = (case t of Spec_d \<Rightarrow> CS_INT | Spec_i \<Rightarrow> CS_INT | Spec_o \<Rightarrow> CS_UOCTAL | Spec_u \<Rightarrow> CS_UDEC
     | Spec_x \<Rightarrow> CS_UHEX | Spec_X \<Rightarrow> CS_UHEX_BIG | Spec_c \<Rightarrow> CS_UCHAR | Spec_s \<Rightarrow> CS_STR | Spec_p \<Rightarrow> CS_PTR)"

lemma parse_length_syntax:
  "parse_length (ascii (length_syntax l) @ ascii (spec_syntax t) @ cs) = Inr (code_length l, ascii (spec_syntax t) @ cs)"
  by (cases l; cases t) (simp_all add: ascii_def code_length_def)

lemma length_syntax_hd:
  "no_number (ascii (length_syntax l) @ ascii (spec_syntax t) @ cs)"
  "hd (ascii (length_syntax l) @ ascii (spec_syntax t) @ cs) \<noteq> 46"
proof -
  show "no_number (ascii (length_syntax l) @ ascii (spec_syntax t) @ cs)"
    by (cases l; cases t) (simp_all add: no_number_def ascii_def is_digit_def)
  show "hd (ascii (length_syntax l) @ ascii (spec_syntax t) @ cs) \<noteq> 46"
    by (cases l; cases t) (simp_all add: ascii_def)
qed

definition code_spec :: "conversion \<Rightarrow> conv_spec" where
  "code_spec c = \<lparr>cs_flags = flag_bits (conv_flags c),
     cs_width = (case conv_width c of None \<Rightarrow> WIDTH_EMPTY | Some n \<Rightarrow> of_nat n),
     cs_precision = (case precision_of (conv_precision c) of None \<Rightarrow> PREC_EMPTY | Some n \<Rightarrow> of_nat n),
     cs_length = code_length (conv_modifier c), cs_spec = code_type (conv_type c)\<rparr>"

lemma parse_conversion:
  assumes "\<And>n. conv_width c = Some n \<Longrightarrow> 0 < n"
  shows "parse_conv_spec (conversion_syntax c @ cs) = Inr (code_spec c, length (conversion_syntax c))"
proof -
  let ?s4 = "ascii (spec_syntax (conv_type c)) @ cs"
  let ?s3 = "ascii (length_syntax (conv_modifier c)) @ ?s4"
  let ?s2 = "precision_syntax (conv_precision c) @ ?s3"
  let ?s1 = "width_syntax (conv_width c) @ ?s2"
  note p = parse_precision_syntax [OF length_syntax_hd, of "conv_precision c" "conv_modifier c" "conv_type c" cs]
  note w = parse_width_syntax [OF p(2) assms]
  note f = parse_flags_syntax [OF w(2,3)]
  have s: "?s4 = of_char (hd (spec_syntax (conv_type c))) # cs" by (cases "conv_type c") (simp_all add: ascii_def)
  have t: "specifier_of (of_char (hd (spec_syntax (conv_type c)))) = code_type (conv_type c)"
    by (cases "conv_type c") (simp_all add: specifier_of_def code_type_def)
  have d: "drop 1 (conversion_syntax c @ cs) = ascii (concat (map flag_syntax (conv_flags c))) @ ?s1"
    by (simp add: conversion_syntax_def ascii_def)
  have "parse_conv_spec (conversion_syntax c @ cs) = Inr (code_spec c, length (conversion_syntax c @ cs) - length cs)"
    by (simp only: parse_conv_spec_def d Let_def f w(1) p(1) kbind_Inr prod.case parse_length_syntax)
      (simp add: s t code_spec_def)
  then show ?thesis by simp
qed

section \<open>The argument is read as its type says\<close>

definition code_arg :: "conversion \<Rightarrow> int \<Rightarrow> argument" where
  "code_arg c v = \<lparr>arg_val = of_int \<bar>conv_value c v\<bar>, negative = conv_value c v < 0\<rparr>"

lemma sint_signed_value: "sint (of_int v :: 'a::len word) = signed_value LENGTH('a) v"
  by (simp add: signed_of_int signed_take_bit_eq_take_bit_shift signed_value_def take_bit_eq_mod)

lemma ucast_of_int:
  "LENGTH('b) \<le> LENGTH('a) \<Longrightarrow> ucast (of_int v :: 'a::len word) = (of_int v :: 'b::len word)"
  by (rule bit_word_eqI) (simp add: bit_simps)

lemma ucast_unsigned_value: "ucast (of_int v :: 'a::len word) = (of_int (int (unsigned_value LENGTH('a) v)) :: 'b::len word)"
proof -
  have "ucast (of_int v :: 'a word) = (of_int (uint (of_int v :: 'a word)) :: 'b word)"
    by (rule bit_word_eqI) (simp add: bit_simps bit_uint_iff)
  then show ?thesis by (simp add: unsigned_of_int unsigned_value_def take_bit_eq_mod)
qed

lemma dword_of_int:
  "ucast (of_int v :: u32) OR push_bit 32 (ucast (of_int (v div 2 ^ 32) :: u32)) = (of_int v :: u64)"
  unfolding drop_bit_eq_div [symmetric]
  by (rule bit_word_eqI) (auto simp: bit_simps)

lemma of_int_unsigned_value: "(of_int v :: 'a::len word) = of_int (int (unsigned_value LENGTH('a) v))"
  using ucast_unsigned_value [of v, where 'a = 'a and 'b = 'a] by simp

lemma case_body_value:
  "v \<noteq> - (2 ^ 63) \<Longrightarrow> case_body v = Inr \<lparr>arg_val = of_int \<bar>v\<bar>, negative = v < 0\<rparr>"
  by (simp add: case_body_def)

lemma fetch_conversion:
  assumes "conv_value c v \<noteq> - (2 ^ 63)"
  shows "fetch_arg (code_spec c) (conversion_args c v @ ap) = Inr (code_arg c v, ap)"
proof -
  note s = sint_signed_value [of v, where 'a = 8] sint_signed_value [of v, where 'a = 16]
    sint_signed_value [of v, where 'a = 32] sint_signed_value [of v, where 'a = 64]
  note u = ucast_unsigned_value [of v, where 'a = 8 and 'b = 64] ucast_unsigned_value [of v, where 'a = 16 and 'b = 64]
    ucast_unsigned_value [of v, where 'a = 32 and 'b = 64] of_int_unsigned_value [of v, where 'a = 64]
  have dw: "ucast (of_int v :: u32) OR push_bit 32 (ucast (of_int (v div 4294967296) :: u32)) = (of_int v :: u64)"
    using dword_of_int [of v] by simp
  have dwu: "of_nat (unsigned_value 32 v) OR push_bit 32 (ucast (of_int (v div 4294967296) :: u32)) = (of_nat (unsigned_value 64 v) :: u64)"
    using dw u(3,4) by simp
  note c = ucast_of_int [of v, where 'a = 32 and 'b = 8] ucast_of_int [of v, where 'a = 32 and 'b = 16]
  show ?thesis
  proof (cases "conv_type c \<in> {Spec_d, Spec_i}")
    case True
    then show ?thesis using assms
      by (cases "conv_modifier c")
        (auto simp: fetch_arg_def code_spec_def code_type_def code_length_def conversion_args_def conv_bits_def
          integer_type_def conv_value_def code_arg_def dw case_body_value s c)
  next
    case False
    then show ?thesis
      by (cases "conv_type c"; cases "conv_modifier c")
        (simp_all add: fetch_arg_def code_spec_def code_type_def code_length_def conversion_args_def conv_bits_def
          integer_type_def conv_value_def code_arg_def unsigned_arg_def dwu u c)
  qed
qed

lemma conv_value_bound: "\<bar>conv_value c v\<bar> < 2 ^ 64"
proof -
  have b: "conv_bits c \<in> {8, 16, 32, 64}" by (cases "conv_modifier c") (auto simp: conv_bits_def)
  have "\<bar>signed_value n v\<bar> < 2 ^ 64 \<and> v mod 2 ^ n < 2 ^ 64" if "n \<in> {8, 16, 32, 64}" for n
    using that by (auto simp: signed_value_def abs_if)
  from this [OF b] show ?thesis by (auto simp: conv_value_def unsigned_value_def)
qed

lemma code_arg_value: "unat (arg_val (code_arg c v)) = nat \<bar>conv_value c v\<bar>"
  using conv_value_bound [of c v]
  by (simp add: code_arg_def unsigned_of_int take_bit_int_eq_self)

section \<open>The field of a conversion\<close>

lemma code_spec_flags:
  "has_flag CF_MINUS (code_spec c) \<longleftrightarrow> Flag_Minus \<in> set (conv_flags c)"
  "has_flag CF_PLUS (code_spec c) \<longleftrightarrow> Flag_Plus \<in> set (conv_flags c)"
  "has_flag CF_SPACE (code_spec c) \<longleftrightarrow> Flag_Space \<in> set (conv_flags c)"
  "has_flag CF_HASH (code_spec c) \<longleftrightarrow> Flag_Hash \<in> set (conv_flags c)"
  "has_flag CF_ZERO (code_spec c) \<longleftrightarrow> Flag_Zero \<in> set (conv_flags c)"
proof -
  have "has_flag (flag_bit x) (code_spec c) \<longleftrightarrow> x \<in> set (conv_flags c)" for x
  proof -
    have "flag_bit y AND flag_bit x \<noteq> 0 \<longleftrightarrow> y = x" for y by (cases x; cases y) (simp_all add: flag_bit_def)
    then show ?thesis by (auto simp: has_flag_def code_spec_def flag_bits_and)
  qed
  from this [of Flag_Minus] this [of Flag_Plus] this [of Flag_Space] this [of Flag_Hash] this [of Flag_Zero]
  show "has_flag CF_MINUS (code_spec c) \<longleftrightarrow> Flag_Minus \<in> set (conv_flags c)"
    "has_flag CF_PLUS (code_spec c) \<longleftrightarrow> Flag_Plus \<in> set (conv_flags c)"
    "has_flag CF_SPACE (code_spec c) \<longleftrightarrow> Flag_Space \<in> set (conv_flags c)"
    "has_flag CF_HASH (code_spec c) \<longleftrightarrow> Flag_Hash \<in> set (conv_flags c)"
    "has_flag CF_ZERO (code_spec c) \<longleftrightarrow> Flag_Zero \<in> set (conv_flags c)"
    by (simp_all add: flag_bit_def)
qed

lemma number_ok_word:
  assumes "number_ok n"
  shows "unat (of_nat n :: size_t) = n" and "special (of_nat n) \<noteq> special 0xFE"
proof -
  show "unat (of_nat n :: size_t) = n" using assms by (simp add: number_ok_def unat_of_nat32)
  have "unat (special (of_nat n)) = n mod 256"
    using assms by (simp add: special_def number_ok_def unsigned_ucast_eq unsigned_of_nat take_bit_eq_mod mod_mod_cancel)
  then show "special (of_nat n) \<noteq> special 0xFE" using assms by (auto simp: number_ok_def special_def)
qed

lemma code_spec_numbers:
  assumes "conversion_ok strs c v"
  shows "width_given (code_spec c) \<longleftrightarrow> conv_width c \<noteq> None"
    and "precision_given (code_spec c) \<longleftrightarrow> precision_of (conv_precision c) \<noteq> None"
    and "conv_width c = Some n \<Longrightarrow> unat (cs_width (code_spec c)) = n"
    and "precision_of (conv_precision c) = Some k \<Longrightarrow> unat (cs_precision (code_spec c)) = k"
    and "cs_precision (code_spec c) = 0 \<longleftrightarrow> precision_of (conv_precision c) = Some 0"
proof -
  have w: "number_ok n" if "conv_width c = Some n" for n using assms that by (simp add: conversion_ok_def)
  have p: "number_ok n" if "precision_of (conv_precision c) = Some n" for n using assms that by (simp add: conversion_ok_def)
  show "width_given (code_spec c) \<longleftrightarrow> conv_width c \<noteq> None" "conv_width c = Some n \<Longrightarrow> unat (cs_width (code_spec c)) = n"
    using number_ok_word [OF w] by (auto simp: width_given_def code_spec_def split: option.splits)
  show g: "precision_given (code_spec c) \<longleftrightarrow> precision_of (conv_precision c) \<noteq> None"
    using number_ok_word [OF p] by (auto simp: precision_given_def code_spec_def split: option.splits)
  show u: "unat (cs_precision (code_spec c)) = k" if "precision_of (conv_precision c) = Some k" for k
    using number_ok_word [OF p [OF that]] that by (simp add: code_spec_def)
  show "cs_precision (code_spec c) = 0 \<longleftrightarrow> precision_of (conv_precision c) = Some 0"
  proof (cases "precision_of (conv_precision c)")
    case (Some k)
    then show ?thesis using u [OF Some] by (auto simp flip: unat_eq_0)
  qed (simp add: code_spec_def)
qed

lemma digit_char:
  "d < 10 \<Longrightarrow> of_char (digit_table t ! d) = ascii_digit d"
  "d < 16 \<Longrightarrow> of_char (digit_table t ! d) = hex_digit (t = Spec_x) d"
proof -
  have d16: "d < 16 \<Longrightarrow> d \<in> set [0, 1, 2, 3, 4, 5, 6, 7, 8, 9, 10, 11, 12, 13, 14, 15]"
  proof -
    have "[0..<16] = [0, 1, 2, 3, 4, 5, 6, 7, 8, 9, 10, 11, 12, 13, 14, 15]" by (simp add: upt_rec)
    then show "d < 16 \<Longrightarrow> d \<in> set [0, 1, 2, 3, 4, 5, 6, 7, 8, 9, 10, 11, 12, 13, 14, 15]"
      using atLeastLessThan_iff [of d 0 16] set_upt [of 0 16] by simp
  qed
  show h: "d < 16 \<Longrightarrow> of_char (digit_table t ! d) = hex_digit (t = Spec_x) d"
    by (drule d16) (auto simp: digit_table_def hex_digit_def)
  show "d < 10 \<Longrightarrow> of_char (digit_table t ! d) = ascii_digit d"
    using h by (simp add: hex_digit_def ascii_digit_def)
qed

lemma ascii_digits:
  "b \<le> 10 \<Longrightarrow> 2 \<le> b \<Longrightarrow> ascii (map (\<lambda>d. digit_table t ! d) (num_digits b n)) = map ascii_digit (num_digits b n)"
  "ascii (map (\<lambda>d. digit_table t ! d) (num_digits 16 n)) = map (hex_digit (t = Spec_x)) (num_digits 16 n)"
proof -
  show "ascii (map (\<lambda>d. digit_table t ! d) (num_digits b n)) = map ascii_digit (num_digits b n)" if "b \<le> 10" "2 \<le> b"
    unfolding ascii_def map_map comp_def
    by (rule map_cong [OF refl], rule digit_char(1)) (use num_digits_bound [of b _ n] that in fastforce)
  show "ascii (map (\<lambda>d. digit_table t ! d) (num_digits 16 n)) = map (hex_digit (t = Spec_x)) (num_digits 16 n)"
    unfolding ascii_def map_map comp_def
    by (rule map_cong [OF refl], rule digit_char(2)) (use num_digits_bound [of 16 _ n] in simp)
qed

lemma ascii_replicate: "ascii (replicate k ch) = replicate k (of_char ch)"
  by (simp add: ascii_def)

lemma value_text_eq:
  assumes "conversion_ok strs c v"
  shows "conv_text strs (code_spec c) (code_arg c v) = value_text strs c v"
proof -
  note n = code_spec_numbers [OF assms]
  have z: "arg_val (code_arg c v) = 0 \<longleftrightarrow> nat \<bar>conv_value c v\<bar> = 0"
    unfolding code_arg_value [symmetric] by (simp only: unat_eq_0)
  have num: "num_text (conv_base (conv_type c)) (code_spec c) (code_arg c v) = number_text c v"
    if "conv_type c \<in> {Spec_d, Spec_i, Spec_o, Spec_u}"
  proof -
    have b: "conv_base (conv_type c) \<le> 10" "2 \<le> conv_base (conv_type c)" "conv_base (conv_type c) \<noteq> 16" "conv_type c \<noteq> Spec_p"
      using that by (auto simp: conv_base_def)
    show ?thesis
      using b(3,4) n(2,4,5) z
      by (auto simp: num_text_def number_text_def Let_def code_arg_value ascii_digits(1) [OF b(1,2)] ascii_replicate split: option.splits)
  qed
  have hex: "hex_text (code_spec c) (code_arg c v) = number_text c v" if "conv_type c \<in> {Spec_x, Spec_X, Spec_p}"
  proof -
    have b: "conv_base (conv_type c) = 16" "cs_spec (code_spec c) = CS_UHEX \<longleftrightarrow> conv_type c = Spec_x"
      "cs_spec (code_spec c) = CS_PTR \<longleftrightarrow> conv_type c = Spec_p"
      using that by (auto simp: conv_base_def code_spec_def code_type_def)
    show ?thesis using n(5) z unfolding hex_text_def number_text_def Let_def b code_arg_value
      by (auto simp: ascii_digits(2))
  qed
  have w: "conv_bits c = 32" if "conv_type c \<in> {Spec_c, Spec_s}" using that by (auto simp: conv_bits_def integer_type_def)
  have a: "arg_val (code_arg c v) = of_int (int (unsigned_value 32 v))" if "conv_type c \<in> {Spec_c, Spec_s}"
    using that w by (auto simp: code_arg_def conv_value_def)
  have ad: "ucast (of_int (int (unsigned_value 32 v)) :: u64) = (of_int v :: 'a::len word)" if "LENGTH('a) \<le> 32"
  proof -
    have "ucast (ucast (of_int v :: u32) :: u64) = (ucast (of_int v :: u32) :: 'a word)"
      by (rule bit_word_eqI) (use that in \<open>auto simp: bit_simps\<close>)
    then show ?thesis using ucast_unsigned_value [of v, where 'a = 32 and 'b = 64] ucast_of_int [where 'a = 32, OF _, of v] that by simp
  qed
  show ?thesis
  proof (cases "conv_type c \<in> {Spec_c, Spec_s}")
    case True
    have 8: "ucast (arg_val (code_arg c v)) = (of_int v :: u8)" and 32: "ucast (arg_val (code_arg c v)) = (of_int v :: addr)"
      unfolding a [OF True] by (rule ad, simp)+
    show ?thesis using True n(2,4)
      by (auto simp: conv_text_def value_text_def code_spec_def code_type_def 8)
        (auto simp: str_text_def 32 Let_def code_spec_def split: option.splits)
  next
    case False
    then have "value_text strs c v = number_text c v" by (auto simp: value_text_def)
    then show ?thesis using num hex False
      by (cases "conv_type c") (auto simp: conv_text_def code_spec_def code_type_def conv_base_def)
  qed
qed

lemma lead_text_eq:
  "prefix_text (code_spec c) = ascii (prefix_syntax c)" "sign_text (code_spec c) (code_arg c v) = ascii (sign_syntax c v)"
proof -
  show "prefix_text (code_spec c) = ascii (prefix_syntax c)"
    using code_spec_flags(4) [of c]
    by (cases "conv_type c") (simp_all add: prefix_text_def cs_prefix_fn_def hex_prefix_def prefix_syntax_def
        code_spec_def code_type_def ascii_def)
  show "sign_text (code_spec c) (code_arg c v) = ascii (sign_syntax c v)"
    using code_spec_flags(2,3) [of c] by (simp add: sign_text_def sign_syntax_def code_arg_def ascii_def)
qed

lemma field_text_eq:
  assumes "conversion_ok strs c v"
  shows "field_text strs (code_spec c) (code_arg c v) = conversion_text strs c v"
  using code_spec_numbers(1,3) [OF assms]
  by (auto simp: field_text_def conversion_text_def Let_def lead_text_eq value_text_eq [OF assms] code_spec_flags
      ascii_replicate split: option.splits)

lemma conversion_arg_ok:
  assumes "conversion_ok strs c v"
  shows "arg_ok strs (code_spec c) (code_arg c v)"
proof -
  have n: "unat (cs_width (code_spec c)) < 2147483647"
  proof (cases "conv_width c")
    case (Some w)
    then show ?thesis using code_spec_numbers(3) [OF assms Some] assms by (simp add: conversion_ok_def number_ok_def)
  qed (simp add: code_spec_def)
  have p: "unat (cs_precision (code_spec c)) < 2147483647"
  proof (cases "precision_of (conv_precision c)")
    case (Some k)
    then show ?thesis using code_spec_numbers(4) [OF assms Some] assms by (simp add: conversion_ok_def number_ok_def)
  qed (simp add: code_spec_def)
  have "arg_val (code_arg c v) = ucast (of_int v :: u32)" if "conv_type c = Spec_s"
    using that ucast_unsigned_value [of v, where 'a = 32 and 'b = 64]
    by (simp add: code_arg_def conv_value_def conv_bits_def integer_type_def)
  then have "ucast (arg_val (code_arg c v)) = (of_int v :: addr)" if "conv_type c = Spec_s"
    using that by (simp add: ucast_up_ucast_id is_up)
  then show ?thesis using n p assms
    by (cases "conv_type c") (simp_all add: arg_ok_def code_spec_def code_type_def conversion_ok_def)
qed

section \<open>Formats\<close>

lemma formats_plain:
  assumes "formats strs fmt ap t" and "0 \<notin> set s" and "37 \<notin> set s"
  shows "formats strs (s @ fmt) ap (s @ t)"
proof (cases "s = []")
  case False
  have plain: "formats strs (s @ fmt) ap (s @ t)" if "fmt = c # rest" "c \<in> {0, 37}" for c rest
    using formats_text [OF False assms(2,3) that(2)] assms(1) that(1) by simp
  from assms(1) show ?thesis
  proof cases
    case (formats_text s' c rest t')
    then have "formats strs ((s @ s') @ c # rest) ap ((s @ s') @ t')"
      using assms(2,3) by (intro Vfprintf.formats_text) auto
    then show ?thesis using formats_text(1,2) by simp
  qed (use plain in auto)
qed (use assms(1) in simp)

lemma conversion_syntax_Cons: "conversion_syntax c = 37 # tl (conversion_syntax c)"
  by (simp add: conversion_syntax_def ascii_def)

lemma formats_conversion:
  assumes ok: "conversion_ok strs c v" and fmt: "formats strs fmt ap t"
  shows "formats strs (conversion_syntax c @ fmt) (conversion_args c v @ ap) (conversion_text strs c v @ t)"
proof -
  let ?cs = "tl (conversion_syntax c) @ fmt"
  have cs: "conversion_syntax c @ fmt = 37 # ?cs" by (subst conversion_syntax_Cons) simp
  have p: "parse_conv_spec (37 # ?cs) = Inr (code_spec c, length (conversion_syntax c))"
  proof -
    have "0 < n" if "conv_width c = Some n" for n using ok that by (simp add: conversion_ok_def)
    from parse_conversion [of c fmt, OF this] show ?thesis unfolding cs by simp
  qed
  have d: "drop (length (conversion_syntax c)) (37 # ?cs) = fmt" unfolding cs [symmetric] by simp
  have f: "fetch_arg (code_spec c) (conversion_args c v @ ap) = Inr (code_arg c v, ap)"
    using ok by (intro fetch_conversion) (simp add: conversion_ok_def)
  show ?thesis
    using formats_field [OF p f conversion_arg_ok [OF ok]] fmt
    unfolding d field_text_eq [OF ok] cs by simp
qed

lemma format_formats:
  assumes "\<forall>d \<in> set ds. directive_ok strs d"
  shows "formats strs (format_string ds @ rest) (format_args ds @ ap) (format_text strs ds)"
  using assms
proof (induction ds)
  case Nil
  then show ?case by (simp add: format_string_def format_args_def format_text_def formats_end)
next
  case (Cons d ds)
  then have IH: "formats strs (format_string ds @ rest) (format_args ds @ ap) (format_text strs ds)"
    and ok: "directive_ok strs d" by simp_all
  have e: "format_string (d # ds) = directive_syntax d @ format_string ds"
    "format_args (d # ds) = directive_args d @ format_args ds"
    "format_text strs (d # ds) = directive_text strs d @ format_text strs ds"
    by (simp_all add: format_string_def format_args_def format_text_def)
  show ?case
  proof (cases d)
    case (Plain s)
    then show ?thesis using formats_plain [OF IH, of s] ok unfolding e by simp
  next
    case Percent
    have "parse_conv_spec (37 # 37 # format_string ds @ rest) = Inr (\<lparr>cs_flags = 0, cs_width = WIDTH_EMPTY,
        cs_precision = PREC_EMPTY, cs_length = CL_NONE, cs_spec = CS_PERCENTAGE\<rparr>, 2)"
      by (simp add: parse_conv_spec_def is_digit_def specifier_of_def Let_def)
    from formats_percent [OF this] IH show ?thesis unfolding e by (simp add: Percent ascii_def)
  next
    case (Convert c v)
    then show ?thesis using formats_conversion [OF _ IH, of c v] ok unfolding e by simp
  qed
qed

section \<open>Properties\<close>

text \<open>C36: \<open>kvfprintf\<close> prints a format of plain text, \<open>%%\<close> and conversions with the specifiers d, i, o,
  u, x, X, c, s and p, any flags, width, precision and length modifier but L, as the text it stands for.
  Whatever the output function, as long as it takes the bytes, the text is written to it, and its length is returned.
  The text deviates from the C standard where the code does: the flag \<open>0\<close> without a width, or with
  \<open>-\<close>, drops sign and prefix, signs are put before values of any type, a precision puts no zeros before
  hexadecimal digits, and \<open>%#X\<close> writes a small x. Widths and precisions are taken below the greatest
  \<open>int\<close> and not congruent to 254 modulo 256, 64-bit values other than the least.\<close>

theorem kvfprintf_prints_format:
  assumes "output_device f out fits" and "\<forall>d \<in> set ds. directive_ok strs d"
    and "fits st (length (format_text strs ds))" and "length (format_string ds @ rest) < 4294967296"
  shows "\<exists>st'. kvfprintf strs f st (format_string ds @ rest) (format_args ds @ ap) =
      Inr (int (length (format_text strs ds)), st') \<and> out st' = out st @ format_text strs ds"
  using output_device.kvfprintf_ok [OF assms(1) format_formats [OF assms(2), of rest ap], of st 0] assms(3,4) by auto

text \<open>The call \<open>kfprintf("n=%+06hd|%#llX|%-5.2s|%% %.3o", -42, 0xBEEF00000001, "yaeos", 5)\<close>.\<close>

definition example_directives :: "directive list" where
  "example_directives = [Plain (ascii ''n=''),
     Convert \<lparr>conv_flags = [Flag_Plus, Flag_Zero], conv_width = Some 6, conv_precision = No_Precision,
       conv_modifier = Length_h, conv_type = Spec_d\<rparr> (- 42),
     Plain (ascii ''|''),
     Convert \<lparr>conv_flags = [Flag_Hash], conv_width = None, conv_precision = No_Precision,
       conv_modifier = Length_ll, conv_type = Spec_X\<rparr> 0xBEEF00000001,
     Plain (ascii ''|''),
     Convert \<lparr>conv_flags = [Flag_Minus], conv_width = Some 5, conv_precision = Dot_Number 2,
       conv_modifier = No_Length, conv_type = Spec_s\<rparr> 0x1000,
     Plain (ascii ''|''), Percent, Plain (ascii '' ''),
     Convert \<lparr>conv_flags = [], conv_width = None, conv_precision = Dot_Number 3,
       conv_modifier = No_Length, conv_type = Spec_o\<rparr> 5]"

definition example_string :: "addr \<Rightarrow> u8 list" where
  "example_string a = (if a = 0x1000 then ascii ''yaeos'' @ [0] else [])"

lemma example_digits:
  "num_digits 10 6 = [6]" "num_digits 10 5 = [5]" "num_digits 10 2 = [2]" "num_digits 10 3 = [3]" "num_digits 8 5 = [5]"
  "num_digits 10 42 = [4, 2]" "num_digits 16 0xBEEF00000001 = [11, 14, 14, 15, 0, 0, 0, 0, 0, 0, 0, 1]"
  by (simp_all add: num_digits.simps)

lemma example_format:
  "format_string example_directives = ascii ''n=%+06hd|%#llX|%-5.2s|%% %.3o'' @ [0]"
  "format_args example_directives = [0xFFFFFFD6, 1, 0xBEEF, 0x1000, 5]"
  by (simp_all add: example_directives_def format_string_def format_args_def conversion_syntax_def conversion_args_def
      conv_bits_def integer_type_def width_syntax_def decimal_def example_digits ascii_def)

lemma example_text:
  "format_text example_string example_directives = ascii ''n=-00042|0xBEEF00000001|ya   |% 005''"
  "\<forall>d \<in> set example_directives. directive_ok example_string d"
proof -
  have v: "signed_value 16 (- 42) = - 42" "unsigned_value 64 0xBEEF00000001 = 0xBEEF00000001" "unsigned_value 32 5 = 5"
    by (simp_all add: signed_value_def unsigned_value_def)
  have st: "takeWhile (\<lambda>b. b \<noteq> 0) (example_string 0x1000) = [121, 97, 101, 111, 115]"
    by code_simp
  show "format_text example_string example_directives = ascii ''n=-00042|0xBEEF00000001|ya   |% 005''"
    by (simp add: example_directives_def format_text_def conversion_text_def value_text_def number_text_def
        conv_value_def conv_bits_def integer_type_def v example_digits conv_base_def digit_table_def
        prefix_syntax_def sign_syntax_def ascii_def st Let_def numeral_2_eq_2 numeral_3_eq_3)
  show "\<forall>d \<in> set example_directives. directive_ok example_string d"
    by (simp add: example_directives_def conversion_ok_def number_ok_def conv_value_def conv_bits_def
        integer_type_def v example_string_def ascii_def)
qed

theorem kvfprintf_prints_format_witness:
  "kvfprintf example_string mem_write [] (ascii ''n=%+06hd|%#llX|%-5.2s|%% %.3o'' @ [0]) [0xFFFFFFD6, 1, 0xBEEF, 0x1000, 5] =
     Inr (35, ascii ''n=-00042|0xBEEF00000001|ya   |% 005'')"
  using kvfprintf_prints_format [OF mem_device example_text(2), of "[]" "[]" "[]"]
  by (simp add: example_format example_text mem_fits_def ascii_def)

end
