(* ===== verification/Spec2Isabelle.thy ===== *)
theory Spec2Isabelle
  imports Pool Buddy Kvstore Vfprintf Rbtree_Spec Mm_Create Addr Page_Fault Kmm_Props Platform_Resources
    Com1_Uart Video Panic Kmalloc Dev Kheap_Props Modules Boot_Paging Kernel_Entry
    I686_Init Page_Map Cbuffer Dclist Printf_Spec
begin

text \<open>
  A verification library for the yaeos kernel (i686, debug build).

  \<^bold>\<open>The program.\<close> yaeos is a small kernel in C. The platform code (arch/i686) turns paging on, sets up the
  descriptor tables, the interrupt controllers and the handlers, and registers the memory that the boot
  loader reports as resources. The core is memory management: physical memory is divided into zones
  (kernel/kernel/mm/mm.c), whose pages a buddy manager hands out; virtual memory is divided into areas of an
  address space (vm_area.c, vm_space.c), kept in a red-black tree and in a sorted list; a page fault looks the
  area of the address up and maps a page through the page tables (arch/i686/vm.c). The heap (kheap.c) gives out
  pages of areas of its own, the slab caches (kmm.c) cut them into objects, and kmalloc.c, vm.c and dev.c take
  their objects from such caches. Modules (modules.c) bring the drivers of the consoles. All of it rests on a
  library of data structures (kernel/lib: lists, trees, bitmaps, region and pool allocators, a key-value store)
  and on formatted output.

  \<^bold>\<open>How it is modelled.\<close> An operation is a function from the objects it works on to a result
  \<open>kerr + 'a\<close>: \<open>Inl\<close> says how it stops (a failed assert, a panic, undefined behaviour, fuel), \<open>Inr\<close>
  gives the value and the changed objects. \<open>kbind\<close> sequences them, in the order of the statements of the
  code. A pointer is its address, a word of 32 bits; address 0 is \<open>NULL\<close>. Objects that are shared
  through pointers live in stores (maps from addresses); an access to an address that holds no
  object is \<open>Undef\<close>. Intrusive links are addresses inside the object that embeds them
  (\<open>area_link\<close>, \<open>area_node\<close>, \<open>zone_link\<close>). Sizes and offsets are the ones of the i686 ABI.
  Arithmetic is at the width of the code and wraps around as it does there.

  \<^bold>\<open>Theories.\<close>
  \<^item> \<open>Kernel_Base\<close>: the result type, the machine types, lemmas on words and lists.
  \<^item> \<open>Align_Utils\<close>: kernel/include/lib/align.h, utils.h. Rounding to a power of two is arithmetic.
  \<^item> \<open>Cstd\<close>: kernel/lib/cstd/ctype.c and string/. Each routine does to the bytes what its C name says.
  \<^item> \<open>Cbuffer\<close>: kernel/include/lib/ds/cbuffer.h, refined to a bounded queue. \<open>Dclist\<close>: the macros of dclist.h and
    kernel/lib/ownership.c.
  \<^item> \<open>Slist\<close>: kernel/lib/ds/slist.c over a store of \<open>next\<close> fields. \<open>slist_rep\<close> says which list a head
    holds; insertion, removal and iteration are list operations on it (locale \<open>linked_list\<close>,
    interpreted on the code's operations).
  \<^item> \<open>Bitmap\<close>: kernel/lib/ds/bitmap.c over 32-bit words; \<open>bitmap_bits\<close> is the list of bits.
  \<^item> \<open>Linear\<close>: kernel/lib/mm/linear.c; a locale states what a region allocator promises.
  \<^item> \<open>Buddy\<close>: kernel/lib/mm/buddy.c; \<open>bitat\<close> reads the bit of a block of a level, \<open>buddy_wf\<close> is the
    invariant of the levels, \<open>marks\<close> relates the state before and after an operation.
  \<^item> \<open>Allocator\<close>: the locale \<open>object_allocator\<close>, what an allocator of equal-sized objects promises whatever
    it is made of; it is interpreted on the pools and on the slab caches.
  \<^item> \<open>Pool\<close>: kernel/lib/mm/pool.c over the lists; \<open>Kvstore\<close>: kernel/lib/ds/kvstore.c over the region
    allocator, refined to a finite map.
  \<^item> \<open>Rbtree\<close>: all of kernel/lib/ds/rbtree.c over a store of nodes. \<open>Rbtree_Shape\<close> relates a store to
    a tree and a place in it (\<open>tree_is\<close>, \<open>plug\<close>); \<open>Rbtree_Insert\<close>, \<open>Rbtree_Search\<close>, \<open>Rbtree_Delete\<close> and
    \<open>Rbtree_Swap\<close> prove the loops correct on such a place; \<open>Rbtree_Frame\<close> is a small Hoare logic for what
    the operations leave alone; \<open>Rbtree_Spec\<close> has the contract: sorted and balanced after any sequence of
    operations. The locale \<open>tree_order\<close> is what a client's comparison must promise.
  \<^item> \<open>Vm_Area\<close>: kernel/kernel/mm/vm_area.c; interprets \<open>tree_order\<close> on the comparison of areas that are
    apart. \<open>Vm_Space\<close>: vm_space.c; \<open>space_ok\<close> says that tree and list hold the same areas in the order of
    their addresses; insertion and removal refine those of a sorted list, and \<open>vm_space_find_gap\<close> finds
    the first gap that satisfies the predicate.
  \<^item> \<open>Mm_Zone\<close>: kernel/kernel/mm/mm.c; \<open>mm_ok\<close> is the invariant of the zones. \<open>Mm_Create\<close>: the creation of
    a zone, which runs the tree, the list, the region allocator and the buddy manager together.
  \<^item> \<open>Addr\<close>: the translation of kernel/kernel/mm/addr.c.
  \<^item> \<open>Paging\<close>: kernel/arch/i686/vm.c over the page walk of the processor (\<open>page_frame\<close>): the directory is
    changed through its own mapping and a table through the emergency entry, so each access to an entry is
    itself a walk of the tables at that moment. \<open>dir_ok\<close> is the invariant of a directory between operations.
    \<open>Page_Fault\<close>: what mapping, resolving and unmapping do to the walk, and the page fault handler from the
    fault to the mapped page, through the space's tree.
    \<open>Page_Map\<close>: any sequence of these operations refines a partial function from pages to frames.
  \<^item> \<open>Boot_Paging\<close>: early_paging.c and vm.asm, from memory without paging to the directory \<open>dir_ok\<close> speaks of.
    \<open>I686_Init\<close>: \<open>i686_init\<close> of arch/i686/kernel.c, which sets the parts of the platform up in turn; \<open>platform_up\<close>
    is what the kernel finds. \<open>Kernel_Entry\<close>: what kernel.c does with it: the areas of the kernel's segments
    and a zone for every free region.
  \<^item> \<open>Kmm\<close>: all of kernel/kernel/mm/kmm.c, with the page functions as parameters. \<open>Kmm_Layout\<close> has the places of
    objects in a page, \<open>Kmm_Cache\<close> the invariant \<open>cache_rep\<close> of a cache of small objects, \<open>Kmm_Spec\<close> what allocating
    and freeing do to it; \<open>Kmm_Client\<close> interprets \<open>object_allocator\<close>, and \<open>Kmm_Props\<close> has the properties.
  \<^item> \<open>Kheap\<close>: kernel/kernel/kheap.c over the buddy manager, the areas and the page tables; \<open>Kheap_Props\<close>: \<open>heap_ok\<close> ties
    the chunks to their areas, and the properties are about pages given out, touched and given back.
  \<^item> \<open>Kmalloc\<close>, \<open>Vm\<close>, \<open>Dev\<close>: kmalloc.c, vm.c and dev.c of kernel/kernel/mm over the slab caches: the class of a size, an area in
    the first gap that is large enough, the list of the regions of device memory (\<open>regions_rep\<close>).
  \<^item> \<open>Resources\<close>: kernel/kernel/resources.c; \<open>res_ok\<close> is the invariant of the lists of free and claimed resources.
    \<open>Platform_Resources\<close>: arch/i686/platform_resources.c, from the memory map to the registry.
  \<^item> \<open>Interrupts\<close>: arch/i686/descriptors.c, intr.c and pit.c; \<open>hw_gate\<close> and \<open>hw_segment\<close> read a descriptor as the processor
    does. \<open>Ports\<close>: io.h, as a trace of writes and a function for the reads.
  \<^item> \<open>Vfprintf\<close>: kernel/lib/cstd/stdio/vfprintf.c; parsing of conversions, the digits of numbers, padding.
    The locale \<open>output_device\<close> is what an output function must promise; it is interpreted on the log and on
    the buffer of exceptions. \<open>Printf_Spec\<close>: formats as lists of directives, with their syntax, their arguments
    and the text they stand for stated without the code, and \<open>kvfprintf\<close> shown to print that text.
  \<^item> \<open>Console\<close>: console.c and klog.c of kernel/kernel; \<open>Com1_Uart\<close> and \<open>Video\<close>: the drivers of modules/i686, the serial line
    by the bytes on it and the screen against a terminal that scrolls. \<open>Panic\<close>: panic.c and
    arch/i686/exceptions.c. \<open>Modules\<close>: modules.c and timer.c.

  \<^bold>\<open>Loops and fuel.\<close> A loop over an index is a \<open>function\<close> with a termination proof. A loop that follows
  pointers, or claims resources one by one, has \<open>addr_fuel = 2 ^ 32\<close> units of fuel, one per round; a list or
  tree of distinct addresses is shorter than that, and each theorem says that the operation returns.
  \<open>kvfprintf\<close> has the length of the format as fuel, and \<open>kvfprintf_terminates\<close> shows that this is enough. The wait
  for the serial line has a number of reads as a parameter, for a device that is ready within it
  (\<open>transmits\<close>); the code waits without a bound. A write to the screen has two rounds per byte and two more, one
  for the byte and one for a line break it may cause.

  \<^bold>\<open>Parameters.\<close> The memory a region held before (\<open>memory\<close>), the output function of \<open>kvfprintf\<close> and the
  strings it reads, the comparison functions of tree and store, the predicate of \<open>vm_space_find_gap\<close>, and
  what a call through a function pointer does (handlers of faults and interrupts, modules, consoles, page functions of the
  slab caches); what a read of a port gives; the addresses of the linker and of the entry points in
  intr.asm; the memory map of the boot loader.

  \<^bold>\<open>Not modelled.\<close> \<open>kernel_init\<close>, which calls the parts in turn and never returns, and its \<open>test_allocation\<close>, which uses
  memory up until the kernel panics; the parts it calls are modelled, but the heap and the slab caches
  call each other (\<open>heap_calls\<close>), and no single state holds all of them. The TLB and caches; delays by
  port writes. Text that is printed before a panic or to the log by other parts than the log itself. The
  iteration macros of dclist.h, which do not compile. The aarch64 stubs, which panic; the unit tests and their
  fakes; of the third-party multiboot.h what the code does not read; boot.asm and intr.asm.
  Properties of slab caches and of kmalloc are about small objects (the large ones are modelled), and all but
  one about caches with at least two objects per slab; that one shows how a cache with one object fails. Accesses
  of the kernel to objects do not fault in the model. Flags of pages are stated as the entries hold them; CR0.WP,
  which vm.asm leaves clear, and with it what ring 0 may write, is not modelled. The alignment assert of
  \<open>container_of\<close> (utils.h) is modelled in \<open>Pool\<close> only: elsewhere the links are those of objects of their type. Concurrency: the kernel has
  one processor and no locks, and the handlers of interrupts that are modelled share no state with the code
  they interrupt, but for the page fault handler, which is called at the access and not between two steps.
\<close>

end
